(* ===== verification/Prelude.thy ===== *)
theory Prelude
  imports Main "HOL-Library.Word" "HOL-Library.AList"
begin

text \<open>
  Shared vocabulary of the development: the named collections that carry the component proofs,
  the types that stand for Rust's machine integers and results, the sorted association list that
  stands for a \<^verbatim>\<open>BTreeMap\<close>, and the generic lemmas on lists, options, maps and words that more
  than one component uses. Nothing in this theory is specific to one source file.
\<close>

section \<open>Collections\<close>

named_theorems step_defs \<open>definitions of the operations of a component, unfolded in invariant proofs\<close>
named_theorems inv_intros \<open>invariant preservation lemmas, one per operation\<close>

section \<open>Machine integers and results\<close>

type_synonym u8 = "8 word"
type_synonym u16 = "16 word"
type_synonym u32 = "32 word"
type_synonym u64 = "64 word"
type_synonym u128 = "128 word"

text \<open>A Rust \<^verbatim>\<open>Result\<close> is a sum whose left side is the error.\<close>

definition is_ok :: "'e + 'a \<Rightarrow> bool" where
  "is_ok r = (case r of Inl _ \<Rightarrow> False | Inr _ \<Rightarrow> True)"

lemma is_ok_simps [simp]: "is_ok (Inr a)" "\<not> is_ok (Inl e)"
  by (simp_all add: is_ok_def)

lemma is_ok_conv: "is_ok r \<longleftrightarrow> (\<exists>a. r = Inr a)"
  by (cases r) auto

text \<open>The question mark operator: stop at the first error.\<close>

definition try_bind :: "'e + 'a \<Rightarrow> ('a \<Rightarrow> 'e + 'b) \<Rightarrow> 'e + 'b" where
  "try_bind r f = (case r of Inl e \<Rightarrow> Inl e | Inr a \<Rightarrow> f a)"

lemma try_bind_simps [simp]: "try_bind (Inl e) f = Inl e" "try_bind (Inr a) f = f a"
  by (simp_all add: try_bind_def)

lemma try_bind_Inr_conv: "try_bind r f = Inr b \<longleftrightarrow> (\<exists>a. r = Inr a \<and> f a = Inr b)"
  by (cases r) auto

section \<open>Words\<close>

lemma unat_lt: "unat (w :: 'a::len word) < 2 ^ LENGTH('a)"
  by (rule unsigned_less)

lemma unat_of_nat_small: "n < 2 ^ LENGTH('a) \<Longrightarrow> unat (of_nat n :: 'a::len word) = n"
  by (simp add: unsigned_of_nat take_bit_nat_eq_self)

lemma unat_Suc_word:
  fixes w :: "'a::len word"
  assumes "unat w + 1 < 2 ^ LENGTH('a)"
  shows "unat (w + 1) = unat w + 1"
  using assms by (metis unat_1 unat_add_lem unsigned_1)

definition u64_max :: u64 where
  "u64_max = 18446744073709551615"

lemma unat_u64_max: "unat u64_max = 2 ^ 64 - 1"
  by (simp add: u64_max_def)

lemma u64_le_max [simp]: "(x :: u64) \<le> u64_max"
  using unat_lt [of x] by (simp add: word_le_nat_alt unat_u64_max)

lemma word_le_iff_unat: "(a :: 'a::len word) \<le> b \<longleftrightarrow> unat a \<le> unat b"
  by (simp add: word_le_nat_alt)

lemma word_less_iff_unat: "(a :: 'a::len word) < b \<longleftrightarrow> unat a < unat b"
  by (simp add: word_less_nat_alt)

section \<open>Printing numbers\<close>

text \<open>\<^verbatim>\<open>format!("{}", n)\<close> prints an unsigned integer in decimal.\<close>

definition digit_char :: "nat \<Rightarrow> char" where
  "digit_char d = char_of (48 + d)"

fun show_nat :: "nat \<Rightarrow> string" where
  "show_nat n = (if n < 10 then [digit_char n] else show_nat (n div 10) @ [digit_char (n mod 10)])"

declare show_nat.simps [simp del]

text \<open>Reading the digits back shows that printing is injective.\<close>

definition read_digits :: "string \<Rightarrow> nat" where
  "read_digits cs = foldl (\<lambda>n c. 10 * n + (of_char c - 48)) 0 cs"

lemma of_digit_char: "d < 10 \<Longrightarrow> (of_char (digit_char d) :: nat) = 48 + d"
  by (simp add: digit_char_def)

lemma read_show_nat: "read_digits (show_nat n) = n"
proof (induction n rule: show_nat.induct)
  case (1 n)
  then show ?case
    by (cases "n < 10") (simp_all add: show_nat.simps [of n] read_digits_def of_digit_char)
qed

lemma show_nat_inject [simp]: "show_nat m = show_nat n \<longleftrightarrow> m = n"
  by (metis read_show_nat)

lemma show_nat_digits: "c \<in> set (show_nat n) \<Longrightarrow> 48 \<le> (of_char c :: nat) \<and> (of_char c :: nat) \<le> 57"
proof (induction n rule: show_nat.induct)
  case (1 n)
  then show ?case
    by (cases "n < 10") (auto simp: show_nat.simps [of n] of_digit_char)
qed

text \<open>And a signed one.\<close>

definition show_int :: "int \<Rightarrow> string" where
  "show_int i = (if i < 0 then ''-'' @ show_nat (nat (- i)) else show_nat (nat i))"

text \<open>Parsing accepts a sign in front of the digits.\<close>

fun digits_only :: "string \<Rightarrow> bool" where
  "digits_only [] = True"
| "digits_only (c # cs) = (48 \<le> (of_char c :: nat) \<and> (of_char c :: nat) \<le> 57 \<and> digits_only cs)"

definition parse_int :: "string \<Rightarrow> int option" where
  "parse_int s =
     (case s of
        [] \<Rightarrow> None
      | c # cs \<Rightarrow>
          if c = CHR ''-'' then (if cs \<noteq> [] \<and> digits_only cs then Some (- int (read_digits cs)) else None)
          else let ds = (if c = CHR ''+'' then cs else s) in
            if ds \<noteq> [] \<and> digits_only ds then Some (int (read_digits ds)) else None)"

section \<open>Texts\<close>

fun join :: "string \<Rightarrow> string list \<Rightarrow> string" where
  "join sep [] = []"
| "join sep [s] = s"
| "join sep (s # t # ss) = s @ sep @ join sep (t # ss)"

text \<open>The parts of a string between the occurrences of a character.\<close>

fun split_on :: "char \<Rightarrow> string \<Rightarrow> string list" where
  "split_on c [] = [[]]"
| "split_on c (x # xs) = (if x = c then [] # split_on c xs else (x # hd (split_on c xs)) # tl (split_on c xs))"

lemma split_on_not_Nil [simp]: "split_on c s \<noteq> []"
  by (cases s) auto

text \<open>\<^verbatim>\<open>char::is_whitespace\<close> and \<^verbatim>\<open>str::trim\<close> on ASCII.\<close>

definition is_space :: "char \<Rightarrow> bool" where
  "is_space c \<longleftrightarrow> (of_char c :: nat) = 32 \<or> 9 \<le> (of_char c :: nat) \<and> (of_char c :: nat) \<le> 13"

definition trim :: "string \<Rightarrow> string" where
  "trim s = rev (dropWhile is_space (rev (dropWhile is_space s)))"

definition starts_with :: "string \<Rightarrow> string \<Rightarrow> bool" where
  "starts_with p s \<longleftrightarrow> take (length p) s = p"

section \<open>Lists\<close>

lemma distinct_map_filter: "distinct (map f xs) \<Longrightarrow> distinct (map f (filter P xs))"
  by (induction xs) auto

lemma filter_eq_self: "(\<And>x. x \<in> set xs \<Longrightarrow> P x) \<Longrightarrow> filter P xs = xs"
  by (induction xs) auto

text \<open>\<^verbatim>\<open>str::find\<close>: the position of the first occurrence of a pattern.\<close>

fun find_sub :: "string \<Rightarrow> string \<Rightarrow> nat option" where
  "find_sub p [] = (if p = [] then Some 0 else None)"
| "find_sub p (c # cs) = (if take (length p) (c # cs) = p then Some 0 else map_option Suc (find_sub p cs))"

definition contains :: "string \<Rightarrow> string \<Rightarrow> bool" where
  "contains s sub \<longleftrightarrow> find_sub sub s \<noteq> None"

section \<open>Association lists for HashMap\<close>

text \<open>
  A \<^verbatim>\<open>HashMap\<close> yields its entries in an unspecified order. The model is an association list with
  distinct keys whose order is one such iteration order: the theorems hold for every list, hence
  for every order. Insertion and removal are \<open>AList.update\<close> and \<open>AList.delete\<close>, lookup is
  \<open>map_of\<close>, \<^verbatim>\<open>values()\<close> is \<open>map snd\<close>, \<^verbatim>\<open>len()\<close> is \<open>length\<close>.
\<close>

type_synonym ('k, 'v) hmap = "('k \<times> 'v) list"

definition hm_wf :: "('k, 'v) hmap \<Rightarrow> bool" where
  "hm_wf m \<longleftrightarrow> distinct (map fst m)"

lemma hm_wf_Nil [simp]: "hm_wf []"
  by (simp add: hm_wf_def)

lemma hm_wf_update [simp]: "hm_wf m \<Longrightarrow> hm_wf (AList.update k v m)"
  by (simp add: hm_wf_def distinct_update)

lemma hm_wf_delete [simp]: "hm_wf m \<Longrightarrow> hm_wf (AList.delete k m)"
  by (simp add: hm_wf_def distinct_delete)

lemma hm_get_update: "map_of (AList.update k v m) x = (if x = k then Some v else map_of m x)"
  by (simp add: update_conv')

lemma hm_get_delete: "map_of (AList.delete k m) x = (if x = k then None else map_of m x)"
  by (simp add: delete_conv')

lemma hm_mem_get: "hm_wf m \<Longrightarrow> (k, v) \<in> set m \<longleftrightarrow> map_of m k = Some v"
  by (simp add: hm_wf_def)

text \<open>\<^verbatim>\<open>entry(k).or_insert_with(d)\<close>, followed by an update of the value.\<close>

definition hm_entry :: "'k \<Rightarrow> 'v \<Rightarrow> ('v \<Rightarrow> 'v) \<Rightarrow> ('k, 'v) hmap \<Rightarrow> ('k, 'v) hmap" where
  "hm_entry k d f m = AList.update k (f (case map_of m k of None \<Rightarrow> d | Some v \<Rightarrow> v)) m"

lemma hm_entry_lookup:
  "map_of (hm_entry k d f m) x = (if x = k then Some (f (case map_of m k of None \<Rightarrow> d | Some v \<Rightarrow> v)) else map_of m x)"
  by (simp add: hm_entry_def hm_get_update)

lemmas hm_simps = hm_get_update hm_get_delete

section \<open>A sorted association list for BTreeMap\<close>

text \<open>
  \<^verbatim>\<open>std::collections::BTreeMap\<close> keeps its entries in key order. The model is the list of its entries
  in that order: insertion replaces the value of an existing key, and \<open>bt_from\<close> is what
  \<^verbatim>\<open>range(k..)\<close> iterates over.
\<close>

type_synonym ('k, 'v) btree = "('k \<times> 'v) list"

fun bt_get :: "('k, 'v) btree \<Rightarrow> 'k \<Rightarrow> 'v option" where
  "bt_get [] k = None"
| "bt_get ((a, v) # t) k = (if a = k then Some v else bt_get t k)"

fun bt_insert :: "'k::linorder \<Rightarrow> 'v \<Rightarrow> ('k, 'v) btree \<Rightarrow> ('k, 'v) btree" where
  "bt_insert k v [] = [(k, v)]"
| "bt_insert k v ((a, w) # t) =
     (if k < a then (k, v) # (a, w) # t
      else if k = a then (k, v) # t
      else (a, w) # bt_insert k v t)"

definition bt_remove :: "'k \<Rightarrow> ('k, 'v) btree \<Rightarrow> ('k, 'v) btree" where
  "bt_remove k t = filter (\<lambda>(a, _). a \<noteq> k) t"

definition bt_from :: "'k::linorder \<Rightarrow> ('k, 'v) btree \<Rightarrow> ('k, 'v) btree" where
  "bt_from k t = filter (\<lambda>(a, _). k \<le> a) t"

definition bt_keys :: "('k, 'v) btree \<Rightarrow> 'k list" where
  "bt_keys t = map fst t"

definition bt_wf :: "('k::linorder, 'v) btree \<Rightarrow> bool" where
  "bt_wf t \<longleftrightarrow> sorted_wrt (<) (map fst t)"

lemma bt_wf_Nil [simp]: "bt_wf []"
  by (simp add: bt_wf_def)

lemma bt_wf_Cons: "bt_wf ((k, v) # t) \<longleftrightarrow> (\<forall>a \<in> fst ` set t. k < a) \<and> bt_wf t"
  by (auto simp: bt_wf_def)

lemma bt_wf_distinct: "bt_wf t \<Longrightarrow> distinct (map fst t)"
  by (simp add: bt_wf_def strict_sorted_iff)

lemma bt_get_map_of: "bt_get t = map_of t"
  by (rule ext) (induction t, auto)

lemma bt_get_None: "bt_get t k = None \<longleftrightarrow> k \<notin> fst ` set t"
  by (simp add: bt_get_map_of map_of_eq_None_iff)

lemma bt_get_Some_mem: "bt_get t k = Some v \<Longrightarrow> (k, v) \<in> set t"
  by (simp add: bt_get_map_of map_of_SomeD)

lemma bt_get_mem: "bt_wf t \<Longrightarrow> (k, v) \<in> set t \<Longrightarrow> bt_get t k = Some v"
  by (simp add: bt_get_map_of bt_wf_distinct)

lemma bt_get_insert: "bt_get (bt_insert k v t) x = (if x = k then Some v else bt_get t x)"
  by (induction t) auto

lemma bt_insert_keys: "fst ` set (bt_insert k v t) = insert k (fst ` set t)"
  by (induction k v t rule: bt_insert.induct) (simp_all add: insert_commute)

lemma bt_wf_insert: "bt_wf t \<Longrightarrow> bt_wf (bt_insert k v t)"
proof (induction k v t rule: bt_insert.induct)
  case (2 k v a w t)
  then show ?case
    by (auto simp: bt_wf_Cons bt_insert_keys not_less_iff_gr_or_eq)
qed (simp add: bt_wf_def)

lemma bt_get_remove: "bt_get (bt_remove k t) x = (if x = k then None else bt_get t x)"
  by (induction t) (auto simp: bt_remove_def)

lemma bt_wf_filter: "bt_wf t \<Longrightarrow> bt_wf (filter P t)"
  by (induction t) (auto simp: bt_wf_Cons)

lemma bt_wf_remove: "bt_wf t \<Longrightarrow> bt_wf (bt_remove k t)"
  by (simp add: bt_remove_def bt_wf_filter)

lemma bt_wf_from: "bt_wf t \<Longrightarrow> bt_wf (bt_from k t)"
  by (simp add: bt_from_def bt_wf_filter)

lemma bt_eqI:
  assumes "bt_wf s" "bt_wf t" "\<And>k. bt_get s k = bt_get t k"
  shows "s = t"
proof (rule map_sorted_distinct_set_unique [where f = fst])
  show "inj_on fst (set s \<union> set t)"
    using assms by (auto simp: inj_on_def) (metis bt_get_mem option.inject)+
  show "sorted (map fst s)" "sorted (map fst t)" "distinct (map fst s)" "distinct (map fst t)"
    using assms(1,2) by (simp_all add: bt_wf_def strict_sorted_iff)
  show "set s = set t"
    using assms by (metis bt_get_Some_mem bt_get_mem subrelI subset_antisym)
qed

text \<open>The head of \<open>bt_from k t\<close> is the entry with the least key not below \<open>k\<close>.\<close>

lemma bt_from_hd_least:
  assumes "bt_wf t" "bt_from k t = (a, v) # rest"
  shows "bt_get t a = Some v" "k \<le> a" "\<And>b. b \<in> fst ` set t \<Longrightarrow> k \<le> b \<Longrightarrow> a \<le> b"
proof -
  have mem: "(a, v) \<in> set (bt_from k t)" using assms(2) by simp
  then have "(a, v) \<in> set t" "k \<le> a" by (auto simp: bt_from_def)
  then show "bt_get t a = Some v" "k \<le> a" using assms(1) by (simp_all add: bt_get_mem)
  fix b assume b: "b \<in> fst ` set t" "k \<le> b"
  then have "b \<in> fst ` set (bt_from k t)" by (force simp: bt_from_def)
  moreover have "bt_wf ((a, v) # rest)" using bt_wf_from [OF assms(1)] assms(2) by metis
  ultimately show "a \<le> b" using assms(2) by (auto simp: bt_wf_Cons)
qed

lemma bt_from_Nil: "bt_from k t = [] \<longleftrightarrow> (\<forall>b \<in> fst ` set t. b < k)"
  by (auto simp: bt_from_def filter_empty_conv not_le)

lemma bt_hd_least:
  assumes "bt_wf ((a, v) # t)" "b \<in> fst ` set ((a, v) # t)"
  shows "a \<le> b"
  using assms by (auto simp: bt_wf_Cons)

section \<open>The interface of the two map models\<close>

text \<open>
  What the components use of either map: a lookup, an insertion and a removal that obey the map
  laws on well-formed states. The lemmas on folds serve every loop that inserts entries one by one.
\<close>

locale map_store =
  fixes get :: "'m \<Rightarrow> 'k \<Rightarrow> 'v option"
    and ins :: "'k \<Rightarrow> 'v \<Rightarrow> 'm \<Rightarrow> 'm"
    and del :: "'k \<Rightarrow> 'm \<Rightarrow> 'm"
    and wf :: "'m \<Rightarrow> bool"
  assumes get_ins: "wf m \<Longrightarrow> get (ins k v m) x = (if x = k then Some v else get m x)"
    and get_del: "wf m \<Longrightarrow> get (del k m) x = (if x = k then None else get m x)"
    and wf_ins: "wf m \<Longrightarrow> wf (ins k v m)"
    and wf_del: "wf m \<Longrightarrow> wf (del k m)"
begin

lemma wf_fold_del: "wf m \<Longrightarrow> wf (fold del ks m)"
  by (induction ks arbitrary: m) (simp_all add: wf_del)

lemma get_fold_del: "wf m \<Longrightarrow> get (fold del ks m) x = (if x \<in> set ks then None else get m x)"
  by (induction ks arbitrary: m) (auto simp: get_del wf_del)

lemma wf_fold_ins: "wf m \<Longrightarrow> wf (fold (\<lambda>x. ins (f x) (g x)) xs m)"
  by (induction xs arbitrary: m) (simp_all add: wf_ins)

lemma get_fold_ins_other: "wf m \<Longrightarrow> k \<notin> f ` set xs \<Longrightarrow>
    get (fold (\<lambda>x. ins (f x) (g x)) xs m) k = get m k"
  by (induction xs arbitrary: m) (auto simp: get_ins wf_ins)

lemma get_fold_ins_mem:
  assumes "wf m" "distinct (map f xs)" "x \<in> set xs"
  shows "get (fold (\<lambda>x. ins (f x) (g x)) xs m) (f x) = Some (g x)"
  using assms by (induction xs arbitrary: m) (auto simp: get_ins wf_ins get_fold_ins_other)

end

interpretation hm: map_store map_of AList.update AList.delete hm_wf
  by unfold_locales (simp_all add: hm_simps)

interpretation bt: map_store bt_get bt_insert bt_remove bt_wf
  by unfold_locales (simp_all add: bt_get_insert bt_get_remove bt_wf_insert bt_wf_remove)

lemmas bt_simps = bt_get_insert bt_get_remove bt_wf_insert bt_wf_remove

section \<open>Runs\<close>

text \<open>
  A run is a list of commands, each allowed by a guard in the state it finds. The interface of a
  refinement: an abstract state that is computed beside the concrete one and a relation that every
  guarded command keeps.
\<close>

fun guarded_run :: "('c \<Rightarrow> 's \<Rightarrow> bool) \<Rightarrow> ('c \<Rightarrow> 's \<Rightarrow> 's) \<Rightarrow> 'c list \<Rightarrow> 's \<Rightarrow> bool" where
  "guarded_run g ex [] s = True"
| "guarded_run g ex (c # cs) s = (g c s \<and> guarded_run g ex cs (ex c s))"

lemma guarded_run_True: "guarded_run (\<lambda>_ _. True) ex xs s"
  by (induction xs arbitrary: s) simp_all

lemma guarded_run_append:
  "guarded_run g ex (cs @ ds) s \<longleftrightarrow> guarded_run g ex cs s \<and> guarded_run g ex ds (fold ex cs s)"
  by (induction cs arbitrary: s) simp_all

fun spec_run :: "('c \<Rightarrow> 's \<Rightarrow> 'a \<Rightarrow> 'a) \<Rightarrow> ('c \<Rightarrow> 's \<Rightarrow> 's) \<Rightarrow> 'c list \<Rightarrow> 's \<Rightarrow> 'a \<Rightarrow> 'a" where
  "spec_run sp ex [] s A = A"
| "spec_run sp ex (c # cs) s A = spec_run sp ex cs (ex c s) (sp c s A)"

locale guarded_simulation =
  fixes related :: "'a \<Rightarrow> 's \<Rightarrow> bool"
    and guard :: "'c \<Rightarrow> 's \<Rightarrow> bool"
    and exec :: "'c \<Rightarrow> 's \<Rightarrow> 's"
    and spec :: "'c \<Rightarrow> 's \<Rightarrow> 'a \<Rightarrow> 'a"
  assumes step_related: "related A s \<Longrightarrow> guard c s \<Longrightarrow> related (spec c s A) (exec c s)"
begin

lemma run_related:
  "related A s \<Longrightarrow> guarded_run guard exec cs s \<Longrightarrow> related (spec_run spec exec cs s A) (fold exec cs s)"
  by (induction cs arbitrary: A s) (simp_all add: step_related)

end

end
