(* ===== verification/BreakerSpec.thy ===== *)
theory BreakerSpec
  imports Prelude
begin

text \<open>
  What a circuit breaker promises, stated once for the two breakers of the system: the one of
  \<^verbatim>\<open>arcxa-core/src/reliability/circuit_breaker.rs\<close> and the one of
  \<^verbatim>\<open>arcxa-coordinator/src/ha/health_monitor.rs\<close>. A breaker is seen through \<open>breaker_view\<close>, an
  abstract machine with unbounded counters; the locale asks that an implementation simulates it, and
  its lemmas follow the life cycle of a breaker over a sequence of requests. An \<^verbatim>\<open>Instant\<close> is a natural
  number, and \<^verbatim>\<open>elapsed()\<close> is \<open>now - t\<close>, which like the standard library's stops at zero.
\<close>

section \<open>The abstract breaker\<close>

datatype breaker_view = VClosed nat | VOpen nat | VHalf nat

fun view_fail :: "nat \<Rightarrow> nat \<Rightarrow> breaker_view \<Rightarrow> breaker_view" where
  "view_fail thr now (VClosed n) = (if n + 1 \<ge> thr then VOpen now else VClosed (n + 1))"
| "view_fail thr now (VHalf n) = VOpen now"
| "view_fail thr now (VOpen t) = VOpen t"

fun view_allow :: "nat \<Rightarrow> nat \<Rightarrow> breaker_view \<Rightarrow> bool \<times> breaker_view" where
  "view_allow tmo now (VOpen t) = (if now - t \<ge> tmo then (True, VHalf 0) else (False, VOpen t))"
| "view_allow tmo now v = (True, v)"

text \<open>The two breakers differ on successes outside the half-open state: only this case is promised.\<close>

fun view_half_success :: "nat \<Rightarrow> nat \<Rightarrow> breaker_view" where
  "view_half_success thr n = (if n + 1 \<ge> thr then VClosed 0 else VHalf (n + 1))"

text \<open>A \<^verbatim>\<open>u32\<close> counter below its threshold does not wrap around when it is incremented.\<close>

lemma count_step:
  fixes c thr :: u32
  assumes "unat c < max 1 (unat thr)"
  shows "unat (c + 1) = unat c + 1" "c + 1 \<ge> thr \<longleftrightarrow> unat c + 1 \<ge> unat thr"
proof -
  have "unat c + 1 < 2 ^ 32" using assms unat_lt [of thr] by auto
  then show "unat (c + 1) = unat c + 1" using unat_Suc_word [of c] by simp
  then show "c + 1 \<ge> thr \<longleftrightarrow> unat c + 1 \<ge> unat thr" by (simp add: word_le_nat_alt)
qed

section \<open>The contract and its consequences\<close>

locale breaker =
  fixes view :: "'s \<Rightarrow> breaker_view"
    and allow :: "nat \<Rightarrow> 's \<Rightarrow> bool \<times> 's"
    and fail :: "nat \<Rightarrow> 's \<Rightarrow> 's"
    and success :: "nat \<Rightarrow> 's \<Rightarrow> 's"
    and fail_thr :: "'s \<Rightarrow> nat"
    and succ_thr :: "'s \<Rightarrow> nat"
    and timeout :: "'s \<Rightarrow> nat"
    and inv :: "'s \<Rightarrow> bool"
  assumes allow_view: "inv s \<Longrightarrow> map_prod id view (allow now s) = view_allow (timeout s) now (view s)"
    and blocked_same: "inv s \<Longrightarrow> \<not> fst (allow now s) \<Longrightarrow> snd (allow now s) = s"
    and fail_view: "inv s \<Longrightarrow> view (fail now s) = view_fail (fail_thr s) now (view s)"
    and success_view: "inv s \<Longrightarrow> view s = VHalf n \<Longrightarrow> view (success now s) = view_half_success (succ_thr s) n"
    and inv_allow: "inv s \<Longrightarrow> inv (snd (allow now s))"
    and inv_fail: "inv s \<Longrightarrow> inv (fail now s)"
    and inv_success: "inv s \<Longrightarrow> inv (success now s)"
    and config_allow: "fail_thr (snd (allow now s)) = fail_thr s" "succ_thr (snd (allow now s)) = succ_thr s"
      "timeout (snd (allow now s)) = timeout s"
    and config_fail: "fail_thr (fail now s) = fail_thr s" "succ_thr (fail now s) = succ_thr s"
      "timeout (fail now s) = timeout s"
    and config_success: "fail_thr (success now s) = fail_thr s" "succ_thr (success now s) = succ_thr s"
      "timeout (success now s) = timeout s"
begin

text \<open>One request: ask the breaker, and report the outcome when the request was let through.\<close>

definition request :: "nat \<Rightarrow> bool \<Rightarrow> 's \<Rightarrow> bool \<times> 's" where
  "request now ok s =
     (let (a, s') = allow now s
      in (a, if a then (if ok then success now s' else fail now s') else s'))"

primrec requests :: "(nat \<times> bool) list \<Rightarrow> 's \<Rightarrow> bool list \<times> 's" where
  "requests [] s = ([], s)"
| "requests (r # rs) s =
     (let (a, s') = request (fst r) (snd r) s; (as, s'') = requests rs s' in (a # as, s''))"

lemma inv_request: "inv s \<Longrightarrow> inv (snd (request now ok s))"
  by (simp add: request_def split_beta Let_def inv_allow inv_fail inv_success)

lemma inv_requests: "inv s \<Longrightarrow> inv (snd (requests rs s))"
  by (induction rs arbitrary: s) (simp_all add: split_beta Let_def inv_request)

lemma allow_fst: "inv s \<Longrightarrow> fst (allow now s) = fst (view_allow (timeout s) now (view s))"
  and allow_snd: "inv s \<Longrightarrow> view (snd (allow now s)) = snd (view_allow (timeout s) now (view s))"
  using allow_view [of s now] by (metis fst_map_prod id_apply, metis snd_map_prod)

lemma request_config:
  "fail_thr (snd (request now ok s)) = fail_thr s" "succ_thr (snd (request now ok s)) = succ_thr s"
  "timeout (snd (request now ok s)) = timeout s"
  by (simp_all add: request_def split_beta Let_def config_allow config_fail config_success)

lemma request_fail:
  assumes "inv s" "fst (view_allow (timeout s) now (view s))"
  shows "fst (request now False s)"
    and "view (snd (request now False s)) = view_fail (fail_thr s) now (snd (view_allow (timeout s) now (view s)))"
  using assms fail_view [OF inv_allow [OF assms(1)], of now now]
  by (simp_all add: request_def split_beta Let_def allow_fst allow_snd config_allow)

lemma request_success:
  assumes "inv s" "view_allow (timeout s) now (view s) = (True, VHalf n)"
  shows "fst (request now True s)" and "view (snd (request now True s)) = view_half_success (succ_thr s) n"
proof -
  have "view (snd (allow now s)) = VHalf n" "fst (allow now s)"
    using assms by (simp_all add: allow_fst allow_snd)
  then show "fst (request now True s)" "view (snd (request now True s)) = view_half_success (succ_thr s) n"
    using success_view [OF inv_allow [OF assms(1)], of now n now]
    by (simp_all add: request_def split_beta Let_def config_allow)
qed

text \<open>While an open breaker's timeout has not passed, no request gets through.\<close>

lemma open_blocks:
  assumes "inv s" "view s = VOpen t" "\<forall>r \<in> set rs. fst r - t < timeout s"
  shows "requests rs s = (replicate (length rs) False, s)"
  using assms(3)
proof (induction rs)
  case (Cons r rs)
  have "fst (allow (fst r) s) = False" using assms(1,2) Cons.prems by (simp add: allow_fst)
  then have "request (fst r) (snd r) s = (False, s)"
    using blocked_same [OF assms(1), of "fst r"] by (simp add: request_def split_beta Let_def)
  then show ?case using Cons by simp
qed simp

text \<open>A closed breaker opens at exactly the failure that reaches the threshold.\<close>

lemma failures_open:
  assumes "inv s" "view s = VClosed k" "k < max 1 (fail_thr s)" "ts \<noteq> []" "k + length ts \<le> max 1 (fail_thr s)"
  shows "fst (requests (map (\<lambda>t. (t, False)) ts) s) = replicate (length ts) True \<and>
    view (snd (requests (map (\<lambda>t. (t, False)) ts) s)) =
      (if k + length ts = max 1 (fail_thr s) then VOpen (last ts) else VClosed (k + length ts))"
  using assms
proof (induction ts arbitrary: k s)
  case (Cons t ts)
  let ?s = "snd (request t False s)"
  have one: "fst (request t False s)" "view ?s = view_fail (fail_thr s) t (VClosed k)"
    using request_fail [OF Cons.prems(1), of t] Cons.prems(2) by simp_all
  note inv = inv_request [OF Cons.prems(1), of t False] and cfg = request_config(1) [of t False s]
  show ?case
  proof (cases ts)
    case Nil
    then show ?thesis using one Cons.prems(3,5) by (auto simp: split_beta Let_def)
  next
    case (Cons u us)
    then have v: "view ?s = VClosed (k + 1)" using one(2) Cons.prems(3,5) by (auto split: if_splits)
    have "k + 1 < max 1 (fail_thr ?s)" "(k + 1) + length ts \<le> max 1 (fail_thr ?s)"
      using Cons.prems(5) Cons by (simp_all add: cfg)
    from Cons.IH [OF inv v this(1) _ this(2)] show ?thesis
      using one(1) Cons by (simp add: split_beta Let_def cfg)
  qed
qed simp

text \<open>After the timeout a run of successes closes the breaker at the success threshold.\<close>

lemma successes_close:
  assumes "inv s" "view_allow (timeout s) (hd ts) (view s) = (True, VHalf k)" "k < max 1 (succ_thr s)" "ts \<noteq> []" "k + length ts = max 1 (succ_thr s)"
  shows "requests (map (\<lambda>t. (t, True)) ts) s =
    (replicate (length ts) True, snd (requests (map (\<lambda>t. (t, True)) ts) s)) \<and>
    view (snd (requests (map (\<lambda>t. (t, True)) ts) s)) = VClosed 0"
  using assms
proof (induction ts arbitrary: k s)
  case (Cons t ts)
  let ?s = "snd (request t True s)"
  have one: "fst (request t True s)" "view ?s = view_half_success (succ_thr s) k"
    using request_success [OF Cons.prems(1), of t k] Cons.prems(2) by simp_all
  note inv = inv_request [OF Cons.prems(1), of t True] and cfg = request_config(2) [of t True s]
  show ?case
  proof (cases ts)
    case Nil
    then show ?thesis using one Cons.prems(3,5) by (auto simp: split_beta Let_def)
  next
    case (Cons u us)
    then have v: "view ?s = VHalf (k + 1)" using one(2) Cons.prems(3,5) by (auto split: if_splits)
    have "k + 1 < max 1 (succ_thr ?s)" "(k + 1) + length ts = max 1 (succ_thr ?s)"
      using Cons.prems(5) Cons by (simp_all add: cfg)
    moreover have "view_allow (timeout ?s) (hd ts) (view ?s) = (True, VHalf (k + 1))" by (simp add: v)
    ultimately show ?thesis
      using one(1) Cons Cons.IH [OF inv, of "k + 1"] by (simp add: split_beta Let_def prod_eq_iff)
  qed
qed simp

text \<open>Failures that are reported without asking: the breaker opens at the threshold and stays open.\<close>

lemma fail_run_open: "inv s \<Longrightarrow> view s = VOpen t \<Longrightarrow> view (fold fail ts s) = VOpen t"
  by (induction ts arbitrary: s) (simp_all add: inv_fail fail_view)

lemma fail_run:
  assumes "inv s" "view s = VClosed k" "k < max 1 (fail_thr s)"
  shows "view (fold fail ts s) =
    (if k + length ts < max 1 (fail_thr s) then VClosed (k + length ts) else VOpen (ts ! (max 1 (fail_thr s) - Suc k)))"
  using assms
proof (induction ts arbitrary: k s)
  case (Cons t ts)
  note inv = inv_fail [OF Cons.prems(1), of t]
  show ?case
  proof (cases "k + 1 < max 1 (fail_thr s)")
    case True
    then have "view (fail t s) = VClosed (k + 1)" using fail_view [OF Cons.prems(1)] Cons.prems(2) by auto
    from Cons.IH [OF inv this] True show ?thesis
      by (auto simp: config_fail nth_Cons' Suc_diff_Suc)
  next
    case False
    then have "view (fail t s) = VOpen t" using fail_view [OF Cons.prems(1)] Cons.prems(2) by auto
    from fail_run_open [OF inv this] False Cons.prems(3) show ?thesis by auto
  qed
qed simp

lemma inv_fail_run: "inv s \<Longrightarrow> inv (fold fail ts s)"
  by (induction ts arbitrary: s) (simp_all add: inv_fail)

lemma half_open_failure_reopens:
  assumes "inv s" "view s = VHalf k"
  shows "fst (request t False s) \<and> view (snd (request t False s)) = VOpen t"
  using request_fail [OF assms(1), of t] assms(2) by simp

end

end
