(* ===== verification/CircuitBreaker.thy ===== *)
theory CircuitBreaker
  imports BreakerSpec
begin

text \<open>
  Model of \<^verbatim>\<open>arcxa-core/src/reliability/circuit_breaker.rs\<close>, the breaker that guards calls to
  external services. Each field sits behind its own mutex in the code; the model runs one call at a
  time. The function handed to \<^verbatim>\<open>call\<close> is given by its result, which counts only when the breaker lets
  the call through; \<open>now\<close> is the time of the check and \<open>after\<close> the time when the function returned.
\<close>

section \<open>State and operations\<close>

datatype cb_state = CbClosed | CbOpened nat | CbHalfOpen

record cb_config =
  cb_failure_threshold :: u32
  cb_timeout :: nat
  cb_success_threshold :: u32

text \<open>Durations in milliseconds.\<close>

definition cb_config_default :: cb_config where
  "cb_config_default = \<lparr>cb_failure_threshold = 5, cb_timeout = 30000, cb_success_threshold = 2\<rparr>"

record circuit_breaker =
  cb_st :: cb_state
  cb_failures :: u32
  cb_successes :: u32
  cb_cfg :: cb_config
  cb_name :: string

datatype 'e cb_error = CbOpenError | CallFailed 'e

definition cb_new :: "string \<Rightarrow> cb_config \<Rightarrow> circuit_breaker" where
  "cb_new name cfg = \<lparr>cb_st = CbClosed, cb_failures = 0, cb_successes = 0, cb_cfg = cfg, cb_name = name\<rparr>"

definition cb_with_defaults :: "string \<Rightarrow> circuit_breaker" where
  "cb_with_defaults name = cb_new name cb_config_default"

definition on_success :: "circuit_breaker \<Rightarrow> circuit_breaker" where
  "on_success b =
     (case cb_st b of
        CbClosed \<Rightarrow> b\<lparr>cb_failures := 0\<rparr>
      | CbHalfOpen \<Rightarrow>
          let successes = cb_successes b + 1
          in if successes \<ge> cb_success_threshold (cb_cfg b)
             then b\<lparr>cb_st := CbClosed, cb_failures := 0, cb_successes := 0\<rparr>
             else b\<lparr>cb_successes := successes\<rparr>
      | CbOpened _ \<Rightarrow> b\<lparr>cb_st := CbClosed\<rparr>)"

definition on_failure :: "nat \<Rightarrow> circuit_breaker \<Rightarrow> circuit_breaker" where
  "on_failure now b =
     (case cb_st b of
        CbClosed \<Rightarrow>
          let failures = cb_failures b + 1
          in if failures \<ge> cb_failure_threshold (cb_cfg b)
             then b\<lparr>cb_st := CbOpened now, cb_failures := 0\<rparr>
             else b\<lparr>cb_failures := failures\<rparr>
      | CbHalfOpen \<Rightarrow> b\<lparr>cb_st := CbOpened now, cb_successes := 0\<rparr>
      | CbOpened _ \<Rightarrow> b)"

text \<open>The first half of \<^verbatim>\<open>call\<close>: fail fast, or let the function run.\<close>

definition cb_check :: "nat \<Rightarrow> circuit_breaker \<Rightarrow> bool \<times> circuit_breaker" where
  "cb_check now b =
     (case cb_st b of
        CbOpened opened_at \<Rightarrow>
          if now - opened_at \<ge> cb_timeout (cb_cfg b)
          then (True, b\<lparr>cb_st := CbHalfOpen, cb_successes := 0\<rparr>)
          else (False, b)
      | _ \<Rightarrow> (True, b))"

definition cb_call :: "nat \<Rightarrow> nat \<Rightarrow> 'e + 't \<Rightarrow> circuit_breaker \<Rightarrow> circuit_breaker \<times> ('e cb_error + 't)" where
  "cb_call now after f b =
     (case cb_check now b of
        (False, b') \<Rightarrow> (b', Inl CbOpenError)
      | (True, b') \<Rightarrow>
          (case f of
             Inr result \<Rightarrow> (on_success b', Inr result)
           | Inl e \<Rightarrow> (on_failure after b', Inl (CallFailed e))))"

definition cb_record_success :: "circuit_breaker \<Rightarrow> circuit_breaker" where
  "cb_record_success b = on_success b"

definition cb_record_failure :: "nat \<Rightarrow> circuit_breaker \<Rightarrow> circuit_breaker" where
  "cb_record_failure now b = on_failure now b"

definition cb_is_open :: "circuit_breaker \<Rightarrow> bool" where
  "cb_is_open b \<longleftrightarrow> (case cb_st b of CbOpened _ \<Rightarrow> True | _ \<Rightarrow> False)"

definition cb_is_half_open :: "circuit_breaker \<Rightarrow> bool" where
  "cb_is_half_open b \<longleftrightarrow> (case cb_st b of CbHalfOpen \<Rightarrow> True | _ \<Rightarrow> False)"

definition cb_is_closed :: "circuit_breaker \<Rightarrow> bool" where
  "cb_is_closed b \<longleftrightarrow> (case cb_st b of CbClosed \<Rightarrow> True | _ \<Rightarrow> False)"

definition cb_reset :: "circuit_breaker \<Rightarrow> circuit_breaker" where
  "cb_reset b = b\<lparr>cb_st := CbClosed, cb_failures := 0, cb_successes := 0\<rparr>"

lemmas cb_defs [step_defs] = on_success_def on_failure_def cb_check_def cb_reset_def

section \<open>The breaker implements the contract\<close>

text \<open>The counters never reach the point where \<^verbatim>\<open>u32\<close> wraps around.\<close>

definition cb_inv :: "circuit_breaker \<Rightarrow> bool" where
  "cb_inv b \<longleftrightarrow>
     (cb_st b = CbClosed \<longrightarrow> unat (cb_failures b) < max 1 (unat (cb_failure_threshold (cb_cfg b)))) \<and>
     (cb_st b \<noteq> CbClosed \<longrightarrow> cb_failures b = 0) \<and>
     (cb_st b = CbHalfOpen \<longrightarrow> unat (cb_successes b) < max 1 (unat (cb_success_threshold (cb_cfg b))))"

definition cb_view :: "circuit_breaker \<Rightarrow> breaker_view" where
  "cb_view b = (case cb_st b of
     CbClosed \<Rightarrow> VClosed (unat (cb_failures b))
   | CbOpened t \<Rightarrow> VOpen t
   | CbHalfOpen \<Rightarrow> VHalf (unat (cb_successes b)))"

lemma cb_inv_new: "cb_inv (cb_new name cfg)"
  by (simp add: cb_inv_def cb_new_def)

lemma cb_inv_reset: "cb_inv (cb_reset b)"
  by (simp add: cb_inv_def cb_reset_def)

lemma cb_success_inv: "cb_inv b \<Longrightarrow> cb_inv (on_success b)"
  using count_step [of "cb_successes b" "cb_success_threshold (cb_cfg b)"]
  by (cases "cb_st b") (auto simp: cb_inv_def on_success_def Let_def)

lemma cb_failure_inv: "cb_inv b \<Longrightarrow> cb_inv (on_failure now b)"
  using count_step [of "cb_failures b" "cb_failure_threshold (cb_cfg b)"]
  by (cases "cb_st b") (auto simp: cb_inv_def on_failure_def Let_def)

lemma cb_check_inv: "cb_inv b \<Longrightarrow> cb_inv (snd (cb_check now b))"
  by (cases "cb_st b") (auto simp: cb_inv_def cb_check_def)

lemma cb_config_same: "cb_cfg (on_success b) = cb_cfg b" "cb_cfg (on_failure now b) = cb_cfg b"
  "cb_cfg (snd (cb_check now b)) = cb_cfg b"
  by (cases "cb_st b"; simp add: step_defs Let_def)+

lemma cb_fail_view:
  assumes "cb_inv b"
  shows "cb_view (on_failure now b) = view_fail (unat (cb_failure_threshold (cb_cfg b))) now (cb_view b)"
  using assms count_step [of "cb_failures b" "cb_failure_threshold (cb_cfg b)"]
  by (cases "cb_st b") (auto simp: cb_inv_def cb_view_def on_failure_def Let_def)

lemma cb_success_view:
  assumes "cb_inv b" "cb_view b = VHalf n"
  shows "cb_view (on_success b) = view_half_success (unat (cb_success_threshold (cb_cfg b))) n"
  using assms count_step [of "cb_successes b" "cb_success_threshold (cb_cfg b)"]
  by (cases "cb_st b") (auto simp: cb_inv_def cb_view_def on_success_def Let_def)

interpretation cb: breaker cb_view cb_check on_failure "\<lambda>_. on_success"
  "\<lambda>b. unat (cb_failure_threshold (cb_cfg b))" "\<lambda>b. unat (cb_success_threshold (cb_cfg b))"
  "\<lambda>b. cb_timeout (cb_cfg b)" cb_inv
proof unfold_locales
  show "map_prod id cb_view (cb_check now b) = view_allow (cb_timeout (cb_cfg b)) now (cb_view b)" for now b
    by (cases "cb_st b") (simp_all add: cb_view_def cb_check_def)
  show "snd (cb_check now b) = b" if "\<not> fst (cb_check now b)" for now b
    using that by (cases "cb_st b") (auto simp: cb_check_def split: if_splits)
qed (simp_all add: cb_fail_view cb_success_view cb_success_inv cb_failure_inv cb_check_inv cb_config_same)

section \<open>Life cycle of a guarded service\<close>

text \<open>A sequence of calls, each with its time and result; the function returns in no time.\<close>

fun cb_calls :: "(nat \<times> ('e + 't)) list \<Rightarrow> circuit_breaker \<Rightarrow> ('e cb_error + 't) list \<times> circuit_breaker" where
  "cb_calls [] b = ([], b)"
| "cb_calls ((now, f) # cs) b =
     (let (b', r) = cb_call now now f b; (rs, b'') = cb_calls cs b' in (r # rs, b''))"

lemma cb_call_request:
  "snd (cb.request now (is_ok f) b) = fst (cb_call now now f b)"
  "fst (cb.request now (is_ok f) b) \<longleftrightarrow> snd (cb_call now now f b) \<noteq> Inl CbOpenError"
  by (auto simp: cb.request_def cb_call_def split_beta Let_def split: sum.splits bool.splits)

lemma cb_calls_requests:
  "snd (cb_calls cs b) = snd (cb.requests (map (\<lambda>(t, f). (t, is_ok f)) cs) b)"
  "map (\<lambda>r. r \<noteq> Inl CbOpenError) (fst (cb_calls cs b)) =
     fst (cb.requests (map (\<lambda>(t, f). (t, is_ok f)) cs) b)"
  by (induction cs arbitrary: b) (auto simp: split_beta Let_def cb_call_request)

lemma cb_calls_inv: "cb_inv b \<Longrightarrow> cb_inv (snd (cb_calls cs b))"
  unfolding cb_calls_requests by (rule cb.inv_requests)

lemma cb_call_config: "cb_cfg (fst (cb_call now after f b)) = cb_cfg b"
  by (auto simp: cb_call_def cb_config_same split_beta split: sum.splits bool.splits)

lemma cb_calls_config: "cb_cfg (snd (cb_calls cs b)) = cb_cfg b"
  by (induction cs arbitrary: b) (auto simp: split_beta Let_def cb_call_config)

lemma map_failed:
  assumes "\<forall>(t, f) \<in> set cs. \<not> is_ok f"
  shows "map (\<lambda>(t, f). (t, is_ok f)) cs = map (\<lambda>t. (t, False)) (map fst cs)"
  using assms by (induction cs) auto

lemma map_succeeded:
  assumes "\<forall>(t, f) \<in> set cs. is_ok f"
  shows "map (\<lambda>(t, f). (t, is_ok f)) cs = map (\<lambda>t. (t, True)) (map fst cs)"
  using assms by (induction cs) auto

lemma cb_view_conv:
  "cb_view b = VOpen t \<longleftrightarrow> cb_st b = CbOpened t" "cb_view b = VClosed n \<longleftrightarrow> cb_st b = CbClosed \<and> unat (cb_failures b) = n"
  by (cases "cb_st b"; simp add: cb_view_def)+

lemma map_eq_replicate: "map P xs = replicate n c \<longleftrightarrow> length xs = n \<and> (\<forall>x \<in> set xs. P x = c)"
  by (metis length_map length_replicate map_replicate_const map_eq_conv)

lemma blocked_results:
  assumes "fst (cb.requests rs b) = replicate n False" "rs = map (\<lambda>(t, f). (t, is_ok f)) cs"
  shows "fst (cb_calls cs b) = replicate n (Inl CbOpenError)"
proof (rule replicate_eqI)
  have "map (\<lambda>r. r \<noteq> Inl CbOpenError) (fst (cb_calls cs b)) = replicate n False"
    using assms cb_calls_requests(2) [of cs b] by simp
  then show "length (fst (cb_calls cs b)) = n" "\<And>r. r \<in> set (fst (cb_calls cs b)) \<Longrightarrow> r = Inl CbOpenError"
    unfolding map_eq_replicate by blast+
qed

text \<open>
  C5. The breaker opens at the threshold and then fails fast: with a new breaker, the first
  \<^verbatim>\<open>failure_threshold\<close> failing calls (one, when it is zero) all run, the breaker is closed before the
  last of them and open since then, and every call made before the timeout has passed returns the
  \<^verbatim>\<open>Open\<close> error without running its function and without changing the breaker.
\<close>

theorem breaker_opens_and_fails_fast:
  fixes fs later :: "(nat \<times> ('e + 't)) list"
  assumes "length fs = max 1 (unat (cb_failure_threshold cfg))" "\<forall>(t, f) \<in> set fs. \<not> is_ok f"
    and "\<forall>(t, f) \<in> set later. t - fst (last fs) < cb_timeout cfg"
  shows "\<exists>b. snd (cb_calls fs (cb_new name cfg)) = b \<and> cb_st b = CbOpened (fst (last fs)) \<and>
    Inl CbOpenError \<notin> set (fst (cb_calls fs (cb_new name cfg))) \<and>
    cb_is_closed (snd (cb_calls (butlast fs) (cb_new name cfg))) \<and>
    cb_calls later b = (replicate (length later) (Inl CbOpenError), b)"
proof -
  let ?n = "cb_new name cfg" and ?ts = "map fst fs"
  let ?b = "snd (cb_calls fs ?n)"
  have v: "cb_view ?n = VClosed 0" and cfg: "cb_cfg ?n = cfg" by (simp_all add: cb_view_def cb_new_def)
  have ne: "fs \<noteq> []" using assms(1) by auto
  have "fst (cb.requests (map (\<lambda>t. (t, False)) ?ts) ?n) = replicate (length ?ts) True \<and>
      cb_view (snd (cb.requests (map (\<lambda>t. (t, False)) ?ts) ?n)) = VOpen (last ?ts)"
    using cb.failures_open [OF cb_inv_new v, of ?ts] ne assms(1) by (simp add: cfg)
  then have runs: "map (\<lambda>r. r \<noteq> Inl CbOpenError) (fst (cb_calls fs ?n)) = replicate (length fs) True"
    and op: "cb_st ?b = CbOpened (fst (last fs))"
    unfolding cb_calls_requests map_failed [OF assms(2)] by (simp_all add: cb_view_conv last_map ne)
  have "Inl CbOpenError \<notin> set (fst (cb_calls fs ?n))"
    using runs unfolding map_eq_replicate by blast
  moreover have "cb_is_closed (snd (cb_calls (butlast fs) ?n))"
  proof (cases "butlast fs = []")
    case True
    then show ?thesis by (simp add: cb_is_closed_def cb_new_def)
  next
    case False
    let ?us = "map fst (butlast fs)"
    have len: "length ?us < max 1 (unat (cb_failure_threshold cfg))" using assms(1) ne by (cases fs) auto
    then have "cb_view (snd (cb.requests (map (\<lambda>t. (t, False)) ?us) ?n)) = VClosed (length ?us)"
      using cb.failures_open [OF cb_inv_new v, of ?us] False by (simp add: cfg)
    moreover have "\<forall>(t, f) \<in> set (butlast fs). \<not> is_ok f" using assms(2) in_set_butlastD by fast
    ultimately have "cb_view (snd (cb_calls (butlast fs) ?n)) = VClosed (length ?us)"
      unfolding cb_calls_requests by (simp only: map_failed)
    then show ?thesis unfolding cb_view_conv by (simp add: cb_is_closed_def)
  qed
  moreover have "cb_calls later ?b = (replicate (length later) (Inl CbOpenError), ?b)"
  proof -
    have inv: "cb_inv ?b" by (rule cb_calls_inv [OF cb_inv_new])
    let ?rs = "map (\<lambda>(t, f). (t, is_ok f)) later"
    have early: "\<forall>r \<in> set ?rs. fst r - fst (last fs) < cb_timeout (cb_cfg ?b)"
      using assms(3) by (auto simp: cb_calls_config cfg)
    have "cb.requests ?rs ?b = (replicate (length ?rs) False, ?b)"
      using cb.open_blocks [OF inv _ early] op by (simp add: cb_view_conv)
    then show ?thesis
      using blocked_results [of ?rs ?b "length later" later] cb_calls_requests(1) [of later ?b]
      by (simp add: prod_eq_iff)
  qed
  ultimately show ?thesis using op by blast
qed

text \<open>
  C6. The breaker recovers: once its timeout has passed, an open breaker lets calls through again;
  \<^verbatim>\<open>success_threshold\<close> successes in a row (one, when it is zero) close it with no failures counted,
  while a first call that fails re-opens it from the time of that failure.
\<close>

theorem breaker_recovers:
  fixes cs :: "(nat \<times> ('e + 't)) list" and e :: 'e
  assumes "cb_inv b" "cb_st b = CbOpened t0" "cb_timeout (cb_cfg b) \<le> fst (hd cs) - t0"
    and "length cs = max 1 (unat (cb_success_threshold (cb_cfg b)))" "\<forall>(t, f) \<in> set cs. is_ok f"
    and "cb_timeout (cb_cfg b) \<le> t1 - t0"
  shows "Inl CbOpenError \<notin> set (fst (cb_calls cs b)) \<and>
    cb_st (snd (cb_calls cs b)) = CbClosed \<and> cb_failures (snd (cb_calls cs b)) = 0 \<and>
    snd (cb_call t1 t2 (Inl e :: 'e + 't) b) = Inl (CallFailed e) \<and>
    cb_st (fst (cb_call t1 t2 (Inl e :: 'e + 't) b)) = CbOpened t2"
proof -
  have ne: "cs \<noteq> []" using assms(4) by auto
  have "view_allow (cb_timeout (cb_cfg b)) (hd (map fst cs)) (cb_view b) = (True, VHalf 0)"
    using assms(2,3) ne by (simp add: cb_view_def hd_map)
  from cb.successes_close [OF assms(1) this] have
    "fst (cb.requests (map (\<lambda>t. (t, True)) (map fst cs)) b) = replicate (length cs) True"
    "cb_view (snd (cb.requests (map (\<lambda>t. (t, True)) (map fst cs)) b)) = VClosed 0"
    using ne assms(4) by (auto simp: prod_eq_iff)
  then have runs: "map (\<lambda>r. r \<noteq> Inl CbOpenError) (fst (cb_calls cs b)) = replicate (length cs) True"
    and closed: "cb_view (snd (cb_calls cs b)) = VClosed 0"
    unfolding cb_calls_requests map_succeeded [OF assms(5)] by simp_all
  have "Inl CbOpenError \<notin> set (fst (cb_calls cs b))"
    using runs unfolding map_eq_replicate by blast
  moreover have "cb_st (snd (cb_calls cs b)) = CbClosed" "cb_failures (snd (cb_calls cs b)) = 0"
    using closed unfolding cb_view_conv by (simp_all add: unat_eq_0)
  ultimately show ?thesis
    using assms(2,6) by (simp add: cb_call_def cb_check_def on_failure_def)
qed

section \<open>Counters stay in range\<close>

datatype cb_op = CbCall nat nat bool | CbRecordSuccess | CbRecordFailure nat | CbReset

fun cb_step :: "circuit_breaker \<Rightarrow> cb_op \<Rightarrow> circuit_breaker" where
  "cb_step b (CbCall now after ok) = fst (cb_call now after (if ok then Inr () else Inl ()) b)"
| "cb_step b CbRecordSuccess = cb_record_success b"
| "cb_step b (CbRecordFailure now) = cb_record_failure now b"
| "cb_step b CbReset = cb_reset b"

lemma cb_step_inv: "cb_inv b \<Longrightarrow> cb_inv (cb_step b op)"
  using cb_check_inv [of b]
  by (cases op) (auto simp: cb_call_def cb_record_success_def cb_record_failure_def cb_success_inv
      cb_failure_inv cb_inv_reset split_beta split: bool.splits)

text \<open>
  Whatever calls, recorded outcomes and resets a breaker goes through, its failure counter stays
  below the failure threshold and, while half-open, its success counter below the success threshold
  (or at zero when the threshold is zero): neither \<^verbatim>\<open>u32\<close> counter ever wraps around.
\<close>

lemma breaker_counters_bounded:
  "unat (cb_failures (foldl cb_step (cb_new name cfg) ops)) < max 1 (unat (cb_failure_threshold cfg)) \<and>
   (cb_is_half_open (foldl cb_step (cb_new name cfg) ops) \<longrightarrow>
      unat (cb_successes (foldl cb_step (cb_new name cfg) ops)) < max 1 (unat (cb_success_threshold cfg)))"
proof -
  have inv: "cb_inv (foldl cb_step b ops)" if "cb_inv b" for b
    using that by (induction ops arbitrary: b) (simp_all add: cb_step_inv)
  have cfg: "cb_cfg (foldl cb_step b ops) = cb_cfg b" for b
  proof (induction ops arbitrary: b)
    case (Cons op ops)
    have "cb_cfg (cb_step b op) = cb_cfg b"
      by (cases op) (simp_all add: cb_call_config cb_record_success_def cb_record_failure_def cb_config_same
          cb_reset_def)
    then show ?case using Cons by simp
  qed simp
  let ?b = "foldl cb_step (cb_new name cfg) ops"
  have c: "cb_cfg ?b = cfg" using cfg [of "cb_new name cfg"] by (simp add: cb_new_def)
  show ?thesis using inv [OF cb_inv_new, of name cfg] unfolding cb_inv_def c
    by (cases "cb_st ?b") (simp_all add: cb_is_half_open_def)
qed

section \<open>Witnesses\<close>

definition demo_config :: cb_config where
  "demo_config = \<lparr>cb_failure_threshold = 2, cb_timeout = 10, cb_success_threshold = 1\<rparr>"

definition demo_failures :: "(nat \<times> (string + nat)) list" where
  "demo_failures = [(1, Inl ''x''), (2, Inl ''y'')]"

definition demo_later :: "(nat \<times> (string + nat)) list" where
  "demo_later = [(5, Inr 7), (11, Inr 8)]"

theorem breaker_opens_and_fails_fast_witness:
  "\<exists>b. snd (cb_calls demo_failures (cb_new ''s'' demo_config)) = b \<and> cb_st b = CbOpened 2 \<and>
    cb_calls demo_later b = (replicate 2 (Inl CbOpenError), b)"
proof -
  have "length demo_failures = max 1 (unat (cb_failure_threshold demo_config))"
    "\<forall>(t, f) \<in> set demo_failures. \<not> is_ok f"
    "\<forall>(t, f) \<in> set demo_later. t - fst (last demo_failures) < cb_timeout demo_config"
    "fst (last demo_failures) = 2" "length demo_later = 2"
    by (simp_all add: demo_failures_def demo_later_def demo_config_def)
  then show ?thesis using breaker_opens_and_fails_fast [of demo_failures demo_config demo_later "''s''"] by auto
qed

theorem breaker_recovers_witness:
  "cb_st (snd (cb_calls [(15, Inr 3 :: string + nat)] ((cb_new ''s'' demo_config)\<lparr>cb_st := CbOpened 2\<rparr>))) = CbClosed \<and>
   cb_st (fst (cb_call 20 21 (Inl ''e'' :: string + nat) ((cb_new ''s'' demo_config)\<lparr>cb_st := CbOpened 2\<rparr>))) =
     CbOpened 21"
  using breaker_recovers [of "(cb_new ''s'' demo_config)\<lparr>cb_st := CbOpened 2\<rparr>" 2 "[(15, Inr 3 :: string + nat)]" 20 21 "''e''"]
  by (simp add: demo_config_def cb_new_def cb_inv_def)

lemma breaker_counters_bounded_witness:
  "unat (cb_failures (foldl cb_step (cb_new ''s'' demo_config) [CbRecordFailure 3])) < 2"
  using breaker_counters_bounded [of "''s''" demo_config "[CbRecordFailure 3]"] by (simp add: demo_config_def)

end
