(* ===== verification/ShardMetadata.thy ===== *)
theory ShardMetadata
  imports CircuitBreaker
begin

text \<open>
  Model of \<^verbatim>\<open>arcxa-coordinator/src/governance/distributed/shard_metadata.rs\<close>: shard identifiers,
  the hash ranges handed to shards, the metadata of one shard and the cluster topology. Times are
  the Unix seconds the code reads from the clock, given to each operation as the argument \<open>now\<close>.
  The percentage \<^verbatim>\<open>health_percentage\<close> (a floating point ratio) is not modelled.
\<close>

section \<open>Identifiers, ranges and status\<close>

datatype shard_id = ShardId (shard_num: u32)

text \<open>\<^verbatim>\<open>derive(PartialOrd, Ord)\<close> orders shard identifiers by their number.\<close>

instantiation shard_id :: linorder
begin

definition less_eq_shard_id :: "shard_id \<Rightarrow> shard_id \<Rightarrow> bool" where
  "less_eq_shard_id a b \<longleftrightarrow> shard_num a \<le> shard_num b"

definition less_shard_id :: "shard_id \<Rightarrow> shard_id \<Rightarrow> bool" where
  "less_shard_id a b \<longleftrightarrow> shard_num a < shard_num b"

instance
  by standard (auto simp: less_eq_shard_id_def less_shard_id_def shard_id.expand)

end

record hash_range =
  hr_start :: u64
  hr_end :: u64

definition hash_range_new :: "u64 \<Rightarrow> u64 \<Rightarrow> hash_range" where
  "hash_range_new s e = \<lparr>hr_start = s, hr_end = e\<rparr>"

definition hash_range_contains :: "hash_range \<Rightarrow> u64 \<Rightarrow> bool" where
  "hash_range_contains r h \<longleftrightarrow> h \<ge> hr_start r \<and> h < hr_end r"

text \<open>\<^verbatim>\<open>saturating_sub\<close> stops at zero.\<close>

definition hash_range_size :: "hash_range \<Rightarrow> u64" where
  "hash_range_size r = (if hr_end r \<le> hr_start r then 0 else hr_end r - hr_start r)"

text \<open>
  \<^verbatim>\<open>HashRange::distribute\<close> divides by the number of shards, so it panics on zero (\<open>None\<close>). The
  maximum of \<^verbatim>\<open>u64\<close> is \<open>u64_max\<close>.
\<close>

definition distribute :: "u32 \<Rightarrow> hash_range list option" where
  "distribute num_shards =
     (if num_shards = 0 then None
      else let range_size = u64_max div ucast num_shards
           in Some (map (\<lambda>i. let start = of_nat i * range_size;
                                 stop = (if of_nat i = num_shards - 1 then u64_max
                                         else (of_nat i + 1) * range_size)
                             in \<lparr>hr_start = start, hr_end = stop\<rparr>) [0..<unat num_shards]))"

datatype shard_status = Active | Draining | Provisioning | Degraded | Down

fun shard_status_display :: "shard_status \<Rightarrow> string" where
  "shard_status_display Active = ''Active''"
| "shard_status_display Draining = ''Draining''"
| "shard_status_display Provisioning = ''Provisioning''"
| "shard_status_display Degraded = ''Degraded''"
| "shard_status_display Down = ''Down''"

definition shard_id_display :: "shard_id \<Rightarrow> string" where
  "shard_id_display s = ''shard-'' @ show_nat (unat (shard_num s))"

section \<open>Metadata of one shard\<close>

record shard_metadata =
  sm_shard_id :: shard_id
  sm_hash_range :: hash_range
  sm_status :: shard_status
  sm_leader_address :: string
  sm_replica_addresses :: "string list"
  sm_triple_count :: u64
  sm_size_bytes :: u64
  sm_last_heartbeat :: u64
  sm_raft_term :: u64
  sm_created_at :: u64
  sm_updated_at :: u64

definition shard_metadata_new ::
  "u64 \<Rightarrow> shard_id \<Rightarrow> hash_range \<Rightarrow> string \<Rightarrow> string list \<Rightarrow> shard_metadata" where
  "shard_metadata_new now sid hrange leader replicas =
     \<lparr>sm_shard_id = sid, sm_hash_range = hrange, sm_status = Provisioning,
      sm_leader_address = leader, sm_replica_addresses = replicas,
      sm_triple_count = 0, sm_size_bytes = 0, sm_last_heartbeat = now, sm_raft_term = 0,
      sm_created_at = now, sm_updated_at = now\<rparr>"

definition shard_heartbeat :: "u64 \<Rightarrow> shard_metadata \<Rightarrow> shard_metadata" where
  "shard_heartbeat now s = s\<lparr>sm_last_heartbeat := now, sm_updated_at := now\<rparr>"

text \<open>The subtraction is on \<^verbatim>\<open>u64\<close> and wraps around when the heartbeat lies in the future.\<close>

definition shard_is_healthy :: "u64 \<Rightarrow> u64 \<Rightarrow> shard_metadata \<Rightarrow> bool" where
  "shard_is_healthy now timeout s \<longleftrightarrow> now - sm_last_heartbeat s < timeout"

definition shard_update_stats :: "u64 \<Rightarrow> u64 \<Rightarrow> u64 \<Rightarrow> shard_metadata \<Rightarrow> shard_metadata" where
  "shard_update_stats now triples bytes s =
     s\<lparr>sm_triple_count := triples, sm_size_bytes := bytes, sm_updated_at := now\<rparr>"

definition shard_all_addresses :: "shard_metadata \<Rightarrow> string list" where
  "shard_all_addresses s = [sm_leader_address s] @ sm_replica_addresses s"

section \<open>Cluster topology\<close>

record cluster_topology =
  ct_total_shards :: u32
  ct_replication_factor :: u32
  ct_cluster_version :: u64
  ct_shards :: "(shard_id, shard_metadata) hmap"
  ct_total_triples :: u64
  ct_total_size_bytes :: u64
  ct_updated_at :: u64

definition topology_new :: "u64 \<Rightarrow> u32 \<Rightarrow> cluster_topology" where
  "topology_new now rf =
     \<lparr>ct_total_shards = 0, ct_replication_factor = rf, ct_cluster_version = 0, ct_shards = [],
      ct_total_triples = 0, ct_total_size_bytes = 0, ct_updated_at = now\<rparr>"

definition recalculate_totals :: "cluster_topology \<Rightarrow> cluster_topology" where
  "recalculate_totals t =
     t\<lparr>ct_total_triples := sum_list (map (sm_triple_count \<circ> snd) (ct_shards t)),
       ct_total_size_bytes := sum_list (map (sm_size_bytes \<circ> snd) (ct_shards t))\<rparr>"

definition topology_add_shard :: "u64 \<Rightarrow> shard_metadata \<Rightarrow> cluster_topology \<Rightarrow> cluster_topology" where
  "topology_add_shard now s t =
     (let m = AList.update (sm_shard_id s) s (ct_shards t)
      in recalculate_totals
           (t\<lparr>ct_shards := m, ct_total_shards := of_nat (length m),
              ct_cluster_version := ct_cluster_version t + 1, ct_updated_at := now\<rparr>))"

definition topology_remove_shard ::
  "u64 \<Rightarrow> shard_id \<Rightarrow> cluster_topology \<Rightarrow> cluster_topology \<times> shard_metadata option" where
  "topology_remove_shard now sid t =
     (case map_of (ct_shards t) sid of
        None \<Rightarrow> (t, None)
      | Some s \<Rightarrow>
          let m = AList.delete sid (ct_shards t)
          in (recalculate_totals
                (t\<lparr>ct_shards := m, ct_total_shards := of_nat (length m),
                   ct_cluster_version := ct_cluster_version t + 1, ct_updated_at := now\<rparr>), Some s))"

definition topology_get_shard :: "cluster_topology \<Rightarrow> shard_id \<Rightarrow> shard_metadata option" where
  "topology_get_shard t sid = map_of (ct_shards t) sid"

definition find_shard_for_hash :: "cluster_topology \<Rightarrow> u64 \<Rightarrow> shard_metadata option" where
  "find_shard_for_hash t h =
     find (\<lambda>s. hash_range_contains (sm_hash_range s) h) (map snd (ct_shards t))"

definition active_shards :: "cluster_topology \<Rightarrow> shard_metadata list" where
  "active_shards t = filter (\<lambda>s. sm_status s = Active) (map snd (ct_shards t))"

definition healthy_shards :: "u64 \<Rightarrow> u64 \<Rightarrow> cluster_topology \<Rightarrow> shard_metadata list" where
  "healthy_shards now timeout t = filter (shard_is_healthy now timeout) (map snd (ct_shards t))"

definition count_by_status :: "cluster_topology \<Rightarrow> (shard_status, nat) hmap" where
  "count_by_status t =
     fold (\<lambda>s counts. AList.update (sm_status s)
             ((case map_of counts (sm_status s) of None \<Rightarrow> 0 | Some c \<Rightarrow> c) + 1) counts)
          (map snd (ct_shards t)) []"

definition topology_is_healthy :: "u64 \<Rightarrow> u64 \<Rightarrow> cluster_topology \<Rightarrow> bool" where
  "topology_is_healthy now timeout t \<longleftrightarrow>
     ct_shards t \<noteq> [] \<and> list_all (shard_is_healthy now timeout) (map snd (ct_shards t))"

section \<open>Hash ranges cover the ring\<close>

text \<open>The ranges as natural numbers: no product of the loop overflows.\<close>

definition range_size_nat :: "u32 \<Rightarrow> nat" where
  "range_size_nat n = (2 ^ 64 - 1) div unat n"

lemma unat_range_size: "unat (u64_max div ucast (n :: u32)) = range_size_nat n"
proof -
  have "unat (ucast n :: u64) = unat n"
    using unat_lt [of n] by (simp add: unsigned_ucast_eq take_bit_nat_eq_self)
  then show ?thesis by (simp add: range_size_nat_def unat_div unat_u64_max)
qed

lemma range_size_mult_le:
  assumes "i \<le> unat n" shows "i * range_size_nat n \<le> 2 ^ 64 - 1"
proof -
  have "i * range_size_nat n \<le> unat n * range_size_nat n"
    using assms by simp
  also have "\<dots> \<le> 2 ^ 64 - 1"
    by (simp add: range_size_nat_def)
  finally show ?thesis .
qed

lemma unat_range_start:
  assumes "i \<le> unat (n :: u32)"
  shows "unat (of_nat i * (u64_max div ucast n)) = i * range_size_nat n"
proof -
  have "i < 2 ^ 64"
    using assms unat_lt [of n] by (simp add: order_le_less_trans)
  then have "unat (of_nat i :: u64) = i"
    by (simp add: unat_of_nat_small)
  then show ?thesis
    using range_size_mult_le [OF assms]
    unfolding unat_word_ariths(2) by (simp add: unat_range_size)
qed

lemma of_nat_eq_last:
  assumes "0 < unat (n :: u32)" "i < unat n"
  shows "of_nat i = n - 1 \<longleftrightarrow> i = unat n - 1"
proof -
  have le: "1 \<le> n" using assms(1) by (simp add: word_le_nat_alt)
  have "i < 2 ^ 32" using assms(2) unat_lt [of n] by (simp add: order_less_trans)
  then have "unat (of_nat i :: u32) = i" by (simp add: unat_of_nat_small)
  then show ?thesis
    using unat_sub [OF le] by (metis unat_1 word_unat_eq_iff)
qed

lemma distribute_nth:
  assumes "0 < unat n" "distribute n = Some rs" "i < unat n"
  shows "hash_range_contains (rs ! i) h \<longleftrightarrow>
    i * range_size_nat n \<le> unat h \<and>
    unat h < (if i = unat n - 1 then 2 ^ 64 - 1 else (i + 1) * range_size_nat n)"
proof -
  let ?q = "u64_max div ucast n"
  have stop: "unat ((of_nat i + 1) * ?q) = (i + 1) * range_size_nat n"
    using unat_range_start [of "i + 1" n] assms(3) by (simp add: add.commute)
  have "rs ! i = \<lparr>hr_start = of_nat i * ?q,
      hr_end = (if i = unat n - 1 then u64_max else (of_nat i + 1) * ?q)\<rparr>"
    using assms by (auto simp: distribute_def Let_def of_nat_eq_last split: if_splits)
  then show ?thesis
    using assms(3) stop unat_range_start [of i n]
    by (auto simp: hash_range_contains_def word_le_nat_alt word_less_nat_alt unat_u64_max)
qed

lemma distribute_length:
  assumes "0 < unat n" shows "\<exists>rs. distribute n = Some rs \<and> length rs = unat n"
  using assms by (auto simp: distribute_def Let_def)

text \<open>Exactly one index of the division owns a number below the top of the range.\<close>

lemma unique_slot:
  fixes N q h M :: nat
  assumes "0 < N" "0 < q" "h < M"
  shows "\<exists>!i. i < N \<and> i * q \<le> h \<and> h < (if i = N - 1 then M else (i + 1) * q)"
proof (rule ex1I [where a = "min (h div q) (N - 1)"])
  let ?i = "min (h div q) (N - 1)"
  have "?i * q \<le> h div q * q" by simp
  also have "\<dots> \<le> h" by simp
  finally have lo: "?i * q \<le> h" .
  have "h < (h div q + 1) * q"
    using assms(2) by (simp add: dividend_less_div_times)
  then show "?i < N \<and> ?i * q \<le> h \<and> h < (if ?i = N - 1 then M else (?i + 1) * q)"
    using lo assms by (auto simp: min_def)
next
  fix i assume i: "i < N \<and> i * q \<le> h \<and> h < (if i = N - 1 then M else (i + 1) * q)"
  then have le: "i \<le> h div q"
    using assms(2) by (simp add: less_eq_div_iff_mult_less_eq)
  show "i = min (h div q) (N - 1)"
  proof (cases "i = N - 1")
    case True
    then show ?thesis using le by simp
  next
    case False
    then have "h < (i + 1) * q" using i by simp
    then have "h div q < i + 1" using assms(2) by (simp add: div_less_iff_less_mult)
    then show ?thesis using le False i by linarith
  qed
qed

text \<open>
  \<^verbatim>\<open>HashRange::distribute\<close> splits the hash space for any positive number of shards without
  overflow: it returns one range per shard, and every hash below \<^verbatim>\<open>u64::MAX\<close> lies in exactly one of
  them. The one value no range contains is \<^verbatim>\<open>u64::MAX\<close> itself, because the last range ends there
  and ends are exclusive.
\<close>

lemma distribute_partitions:
  assumes "0 < n"
  shows "\<exists>rs. distribute n = Some rs \<and> length rs = unat n \<and>
    (\<forall>h. h \<noteq> u64_max \<longrightarrow> (\<exists>!i. i < length rs \<and> hash_range_contains (rs ! i) h)) \<and>
    (\<forall>r \<in> set rs. \<not> hash_range_contains r u64_max)"
proof -
  have N: "0 < unat n" using assms by (simp add: word_less_nat_alt)
  obtain rs where rs: "distribute n = Some rs" "length rs = unat n"
    using distribute_length [OF N] by blast
  have "unat n \<le> 2 ^ 64 - 1" using unat_lt [of n] by simp
  then have q: "0 < range_size_nat n"
    using N by (simp add: range_size_nat_def div_greater_zero_iff)
  have one: "\<exists>!i. i < length rs \<and> hash_range_contains (rs ! i) h" if "h \<noteq> u64_max" for h
  proof -
    have "h < u64_max" using that by (simp add: order_neq_le_trans)
    then have "unat h < 2 ^ 64 - 1" by (simp add: word_less_nat_alt unat_u64_max)
    from unique_slot [OF N q this] show ?thesis
      unfolding rs(2) using distribute_nth [OF N rs(1)] by metis
  qed
  have "\<not> hash_range_contains r u64_max" if "r \<in> set rs" for r
  proof -
    have "hr_end r \<le> u64_max" by simp
    then show ?thesis unfolding hash_range_contains_def using leD by blast
  qed
  with rs one show ?thesis by blast
qed

lemma distribute_partitions_witness:
  "\<exists>rs. distribute 10 = Some rs \<and> length rs = 10 \<and>
    (\<exists>!i. i < length rs \<and> hash_range_contains (rs ! i) 42) \<and>
    (\<forall>r \<in> set rs. \<not> hash_range_contains r u64_max)"
proof -
  have "(42 :: u64) \<noteq> u64_max" by (simp add: u64_max_def)
  then show ?thesis using distribute_partitions [of 10] by auto
qed

section \<open>The topology keeps its totals\<close>

definition topology_inv :: "cluster_topology \<Rightarrow> bool" where
  "topology_inv t \<longleftrightarrow>
     hm_wf (ct_shards t) \<and>
     (\<forall>(k, s) \<in> set (ct_shards t). sm_shard_id s = k) \<and>
     ct_total_shards t = of_nat (length (ct_shards t)) \<and>
     ct_total_triples t = sum_list (map (sm_triple_count \<circ> snd) (ct_shards t)) \<and>
     ct_total_size_bytes t = sum_list (map (sm_size_bytes \<circ> snd) (ct_shards t))"

datatype topology_op = AddShard u64 shard_metadata | RemoveShard u64 shard_id

fun topology_step :: "cluster_topology \<Rightarrow> topology_op \<Rightarrow> cluster_topology" where
  "topology_step t (AddShard now s) = topology_add_shard now s t"
| "topology_step t (RemoveShard now sid) = fst (topology_remove_shard now sid t)"

lemma topology_inv_new: "topology_inv (topology_new now rf)"
  by (simp add: topology_inv_def topology_new_def)

lemma set_alist_update_sub: "set (AList.update k v m) \<subseteq> insert (k, v) (set m)"
  by (induction m) auto

lemma set_delete_sub: "set (AList.delete k m) \<subseteq> set m"
  by (auto simp: AList.delete_eq)

lemma topology_inv_add: "topology_inv t \<Longrightarrow> topology_inv (topology_add_shard now s t)"
  using set_alist_update_sub [of "sm_shard_id s" s "ct_shards t"]
  by (auto simp: topology_inv_def topology_add_shard_def recalculate_totals_def Let_def)

lemma topology_inv_remove: "topology_inv t \<Longrightarrow> topology_inv (fst (topology_remove_shard now sid t))"
  using set_delete_sub [of sid "ct_shards t"]
  by (auto simp: topology_inv_def topology_remove_shard_def recalculate_totals_def Let_def
      split: option.splits)

lemma topology_inv_step: "topology_inv t \<Longrightarrow> topology_inv (topology_step t op)"
  by (cases op) (simp_all add: topology_inv_add topology_inv_remove)

lemma topology_inv_run: "topology_inv t \<Longrightarrow> topology_inv (foldl topology_step t ops)"
  by (induction ops arbitrary: t) (simp_all add: topology_inv_step)

lemma find_shard_for_hash_unique:
  assumes "hm_wf (ct_shards t)" "map_of (ct_shards t) k = Some s"
    "hash_range_contains (sm_hash_range s) h"
    "\<And>k' s'. map_of (ct_shards t) k' = Some s' \<Longrightarrow> hash_range_contains (sm_hash_range s') h \<Longrightarrow> s' = s"
  shows "find_shard_for_hash t h = Some s"
proof -
  have mem: "s \<in> snd ` set (ct_shards t)" using assms(2) by (force dest: map_of_SomeD)
  then obtain s' where s': "find_shard_for_hash t h = Some s'"
    using assms(3) by (cases "find_shard_for_hash t h") (auto simp: find_shard_for_hash_def find_None_iff)
  then have "s' \<in> snd ` set (ct_shards t)" "hash_range_contains (sm_hash_range s') h"
    by (auto simp: find_shard_for_hash_def find_Some_iff in_set_conv_nth image_iff) (metis nth_mem)
  then show ?thesis using s' assms(1,4) by (auto simp: hm_mem_get)
qed

end
