(* ===== verification/ConsistentHash.thy ===== *)
theory ConsistentHash
  imports ShardMetadata
begin

text \<open>
  Model of \<^verbatim>\<open>arcxa-coordinator/src/ha/consistent_hash.rs\<close>: the hash ring with virtual nodes and the
  router on top of it. The ring's \<^verbatim>\<open>BTreeMap\<close> is a sorted association list, its two \<^verbatim>\<open>HashMap\<close>s are
  association lists. \<^verbatim>\<open>DefaultHasher\<close>, whose algorithm the standard library leaves unspecified, is
  the function argument \<open>H\<close>. The floating point load percentages of
  \<^verbatim>\<open>calculate_load_distribution\<close> are not modelled.
\<close>

section \<open>State\<close>

record virtual_node =
  vn_hash :: u64
  vn_shard_id :: shard_id
  vn_index :: u32

record ring =
  ring_nodes :: "(u64, virtual_node) btree"
  ring_shard_nodes :: "(shard_id, virtual_node list) hmap"
  ring_vnode_counts :: "(shard_id, u32) hmap"

datatype ring_error = ShardExists shard_id | ShardMissing shard_id | VnodeMissing u64

type_synonym hasher = "string \<Rightarrow> u64"

definition default_virtual_nodes :: u32 where
  "default_virtual_nodes = 150"

section \<open>Operations of the ring\<close>

definition ring_new :: ring where
  "ring_new = \<lparr>ring_nodes = [], ring_shard_nodes = [], ring_vnode_counts = []\<rparr>"

definition vnode_key :: "shard_id \<Rightarrow> nat \<Rightarrow> string" where
  "vnode_key sid i = ''shard-'' @ show_nat (unat (shard_num sid)) @ ''-vnode-'' @ show_nat i"

definition vnode_retry_key :: "shard_id \<Rightarrow> nat \<Rightarrow> string" where
  "vnode_retry_key sid i = vnode_key sid i @ ''-retry''"

text \<open>One round of the loop of \<^verbatim>\<open>add_shard\<close>: the position is taken, so try the retry key once.\<close>

definition add_vnode ::
  "hasher \<Rightarrow> shard_id \<Rightarrow> nat \<Rightarrow> (u64, virtual_node) btree \<times> virtual_node list \<Rightarrow>
   (u64, virtual_node) btree \<times> virtual_node list" where
  "add_vnode H sid i acc =
     (let (nodes, vnodes) = acc;
          h = H (vnode_key sid i);
          v = \<lparr>vn_hash = h, vn_shard_id = sid, vn_index = of_nat i\<rparr>
      in if bt_get nodes h \<noteq> None
         then let h' = H (vnode_retry_key sid i);
                  v' = \<lparr>vn_hash = h', vn_shard_id = sid, vn_index = of_nat i\<rparr>
              in (bt_insert h' v' nodes, vnodes @ [v'])
         else (bt_insert h v nodes, vnodes @ [v]))"

definition ring_add_shard :: "hasher \<Rightarrow> ring \<Rightarrow> shard_id \<Rightarrow> u32 \<Rightarrow> ring_error + ring" where
  "ring_add_shard H r sid virtual_nodes =
     (if map_of (ring_shard_nodes r) sid \<noteq> None then Inl (ShardExists sid)
      else let (nodes, vnodes) = fold (add_vnode H sid) [0..<unat virtual_nodes] (ring_nodes r, [])
           in Inr (r\<lparr>ring_nodes := nodes,
                     ring_shard_nodes := AList.update sid vnodes (ring_shard_nodes r),
                     ring_vnode_counts := AList.update sid virtual_nodes (ring_vnode_counts r)\<rparr>))"

definition ring_remove_shard :: "ring \<Rightarrow> shard_id \<Rightarrow> ring_error + (ring \<times> virtual_node list)" where
  "ring_remove_shard r sid =
     (case map_of (ring_shard_nodes r) sid of
        None \<Rightarrow> Inl (ShardMissing sid)
      | Some vnodes \<Rightarrow>
          Inr (r\<lparr>ring_nodes := fold bt_remove (map vn_hash vnodes) (ring_nodes r),
                 ring_shard_nodes := AList.delete sid (ring_shard_nodes r),
                 ring_vnode_counts := AList.delete sid (ring_vnode_counts r)\<rparr>, vnodes))"

definition ring_find_shard :: "ring \<Rightarrow> u64 \<Rightarrow> shard_id option" where
  "ring_find_shard r h =
     (if ring_nodes r = [] then None
      else case bt_from h (ring_nodes r) of
             (_, v) # _ \<Rightarrow> Some (vn_shard_id v)
           | [] \<Rightarrow> (case ring_nodes r of
                      (_, v) # _ \<Rightarrow> Some (vn_shard_id v)
                    | [] \<Rightarrow> None))"

text \<open>The clockwise walk of \<^verbatim>\<open>find_shards_with_replicas\<close>, with its break when enough are found.\<close>

fun replica_walk :: "nat \<Rightarrow> (u64, virtual_node) btree \<Rightarrow> shard_id list \<Rightarrow> shard_id list" where
  "replica_walk n [] shards = shards"
| "replica_walk n ((_, v) # rest) shards =
     (if vn_shard_id v \<in> set shards then replica_walk n rest shards
      else let shards' = shards @ [vn_shard_id v]
           in if length shards' \<ge> n then shards' else replica_walk n rest shards')"

definition ring_find_replicas :: "ring \<Rightarrow> u64 \<Rightarrow> nat \<Rightarrow> shard_id list" where
  "ring_find_replicas r h replica_count =
     (if ring_nodes r = [] then []
      else replica_walk replica_count (bt_from h (ring_nodes r) @ ring_nodes r) [])"

definition ring_reassign :: "ring \<Rightarrow> u64 \<Rightarrow> shard_id \<Rightarrow> ring_error + ring" where
  "ring_reassign r h new_shard =
     (case bt_get (ring_nodes r) h of
        None \<Rightarrow> Inl (VnodeMissing h)
      | Some v \<Rightarrow>
          let old_shard = vn_shard_id v;
              v' = v\<lparr>vn_shard_id := new_shard\<rparr>;
              sn = (case map_of (ring_shard_nodes r) old_shard of
                      Some old_vnodes \<Rightarrow>
                        AList.update old_shard (filter (\<lambda>w. vn_hash w \<noteq> h) old_vnodes)
                          (ring_shard_nodes r)
                    | None \<Rightarrow> ring_shard_nodes r);
              target = (case map_of sn new_shard of None \<Rightarrow> [] | Some vs \<Rightarrow> vs)
          in Inr (r\<lparr>ring_nodes := bt_insert h v' (ring_nodes r),
                    ring_shard_nodes := AList.update new_shard (target @ [v']) sn\<rparr>))"

definition ring_shard_vnodes :: "ring \<Rightarrow> shard_id \<Rightarrow> virtual_node list option" where
  "ring_shard_vnodes r sid = map_of (ring_shard_nodes r) sid"

definition ring_total_vnodes :: "ring \<Rightarrow> nat" where
  "ring_total_vnodes r = length (ring_nodes r)"

definition ring_shard_count :: "ring \<Rightarrow> nat" where
  "ring_shard_count r = length (ring_shard_nodes r)"

definition ring_clear :: "ring \<Rightarrow> ring" where
  "ring_clear r = r\<lparr>ring_nodes := [], ring_shard_nodes := [], ring_vnode_counts := []\<rparr>"

definition ring_is_empty :: "ring \<Rightarrow> bool" where
  "ring_is_empty r \<longleftrightarrow> ring_nodes r = []"

section \<open>The router\<close>

record hash_router =
  router_ring :: ring
  router_hasher :: string

definition router_new :: hash_router where
  "router_new = \<lparr>router_ring = ring_new, router_hasher = ''xxHash64''\<rparr>"

definition router_add_shard_with_weight ::
  "hasher \<Rightarrow> hash_router \<Rightarrow> shard_id \<Rightarrow> u32 \<Rightarrow> ring_error + hash_router" where
  "router_add_shard_with_weight H ro sid n =
     try_bind (ring_add_shard H (router_ring ro) sid n) (\<lambda>r. Inr (ro\<lparr>router_ring := r\<rparr>))"

definition router_add_shard :: "hasher \<Rightarrow> hash_router \<Rightarrow> shard_id \<Rightarrow> ring_error + hash_router" where
  "router_add_shard H ro sid = router_add_shard_with_weight H ro sid default_virtual_nodes"

definition router_remove_shard ::
  "hash_router \<Rightarrow> shard_id \<Rightarrow> ring_error + (hash_router \<times> virtual_node list)" where
  "router_remove_shard ro sid =
     try_bind (ring_remove_shard (router_ring ro) sid)
       (\<lambda>(r, vs). Inr (ro\<lparr>router_ring := r\<rparr>, vs))"

definition router_route :: "hasher \<Rightarrow> hash_router \<Rightarrow> string \<Rightarrow> shard_id option" where
  "router_route H ro key = ring_find_shard (router_ring ro) (H key)"

definition router_route_replicas :: "hasher \<Rightarrow> hash_router \<Rightarrow> string \<Rightarrow> nat \<Rightarrow> shard_id list" where
  "router_route_replicas H ro key n = ring_find_replicas (router_ring ro) (H key) n"

section \<open>Invariant\<close>

text \<open>
  The two views of the ring agree: the list of a shard holds exactly the nodes of the ring that
  belong to it, and each node of the ring sits at its own position.
\<close>

definition shard_list :: "ring \<Rightarrow> shard_id \<Rightarrow> virtual_node list" where
  "shard_list r s = (case map_of (ring_shard_nodes r) s of None \<Rightarrow> [] | Some vs \<Rightarrow> vs)"

definition ring_inv :: "ring \<Rightarrow> bool" where
  "ring_inv r \<longleftrightarrow>
     bt_wf (ring_nodes r) \<and> hm_wf (ring_shard_nodes r) \<and> hm_wf (ring_vnode_counts r) \<and>
     (\<forall>h v. bt_get (ring_nodes r) h = Some v \<longrightarrow> vn_hash v = h) \<and>
     (\<forall>s v. v \<in> set (shard_list r s) \<longleftrightarrow>
        vn_shard_id v = s \<and> bt_get (ring_nodes r) (vn_hash v) = Some v)"

lemma ring_invI:
  assumes "bt_wf (ring_nodes r)" "hm_wf (ring_shard_nodes r)" "hm_wf (ring_vnode_counts r)"
    and "\<And>h v. bt_get (ring_nodes r) h = Some v \<Longrightarrow> vn_hash v = h"
    and "\<And>s v. v \<in> set (shard_list r s) \<longleftrightarrow>
           vn_shard_id v = s \<and> bt_get (ring_nodes r) (vn_hash v) = Some v"
  shows "ring_inv r"
  using assms unfolding ring_inv_def by blast

lemma ring_invD:
  assumes "ring_inv r"
  shows "bt_wf (ring_nodes r)" "hm_wf (ring_shard_nodes r)" "hm_wf (ring_vnode_counts r)"
    and "bt_get (ring_nodes r) h = Some v \<Longrightarrow> vn_hash v = h"
    and "v \<in> set (shard_list r s) \<longleftrightarrow>
           vn_shard_id v = s \<and> bt_get (ring_nodes r) (vn_hash v) = Some v"
  using assms unfolding ring_inv_def by blast+

lemma shard_list_update:
  "ring_shard_nodes r' = AList.update k vs (ring_shard_nodes r) \<Longrightarrow>
   shard_list r' s = (if s = k then vs else shard_list r s)"
  by (simp add: shard_list_def hm_get_update)

lemma shard_list_delete:
  "ring_shard_nodes r' = AList.delete k (ring_shard_nodes r) \<Longrightarrow>
   shard_list r' s = (if s = k then [] else shard_list r s)"
  by (simp add: shard_list_def hm_get_delete)

lemma ring_inv_new: "ring_inv ring_new"
  by (simp add: ring_inv_def ring_new_def shard_list_def)

lemma ring_inv_clear: "ring_inv (ring_clear r)"
  by (simp add: ring_inv_def ring_clear_def shard_list_def)

subsection \<open>Adding a shard\<close>

text \<open>
  The position a virtual node takes, and the condition that each position the loop takes is free.
  The loop checks the first key only: a collision on the retry key overwrites another node.
\<close>

definition vnode_slot :: "hasher \<Rightarrow> shard_id \<Rightarrow> nat \<Rightarrow> (u64, virtual_node) btree \<Rightarrow> u64" where
  "vnode_slot H sid i nodes =
     (if bt_get nodes (H (vnode_key sid i)) \<noteq> None then H (vnode_retry_key sid i)
      else H (vnode_key sid i))"

definition slot_node :: "hasher \<Rightarrow> shard_id \<Rightarrow> nat \<Rightarrow> (u64, virtual_node) btree \<Rightarrow> virtual_node" where
  "slot_node H sid i nodes =
     \<lparr>vn_hash = vnode_slot H sid i nodes, vn_shard_id = sid, vn_index = of_nat i\<rparr>"

fun slots_free :: "hasher \<Rightarrow> shard_id \<Rightarrow> nat list \<Rightarrow> (u64, virtual_node) btree \<Rightarrow> bool" where
  "slots_free H sid [] nodes = True"
| "slots_free H sid (i # is) nodes =
     (bt_get nodes (vnode_slot H sid i nodes) = None \<and>
      slots_free H sid is (bt_insert (vnode_slot H sid i nodes) (slot_node H sid i nodes) nodes))"

lemma add_vnode_eq:
  "add_vnode H sid i (nodes, vs) =
     (bt_insert (vnode_slot H sid i nodes) (slot_node H sid i nodes) nodes,
      vs @ [slot_node H sid i nodes])"
  by (simp add: add_vnode_def vnode_slot_def slot_node_def Let_def)

abbreviation put_node :: "virtual_node \<Rightarrow> (u64, virtual_node) btree \<Rightarrow> (u64, virtual_node) btree" where
  "put_node v \<equiv> bt_insert (vn_hash v) v"

lemma add_vnodes_result:
  assumes "slots_free H sid is nodes"
  shows "\<exists>new. fold (add_vnode H sid) is (nodes, vs) = (fold put_node new nodes, vs @ new) \<and>
           distinct (map vn_hash new) \<and> length new = length is \<and>
           (\<forall>v \<in> set new. vn_shard_id v = sid \<and> bt_get nodes (vn_hash v) = None)"
  using assms
proof (induction "is" arbitrary: nodes vs)
  case Nil
  then show ?case by simp
next
  case (Cons i "is")
  let ?v = "slot_node H sid i nodes"
  have v: "vn_hash ?v = vnode_slot H sid i nodes" "vn_shard_id ?v = sid"
    by (simp_all add: slot_node_def)
  from Cons.prems have free: "bt_get nodes (vn_hash ?v) = None"
    and rest: "slots_free H sid is (put_node ?v nodes)" by (simp_all add: v)
  obtain new where new: "fold (add_vnode H sid) is (put_node ?v nodes, vs @ [?v]) =
        (fold put_node new (put_node ?v nodes), (vs @ [?v]) @ new)"
      "distinct (map vn_hash new)" "length new = length is"
      "\<forall>w \<in> set new. vn_shard_id w = sid \<and> bt_get (put_node ?v nodes) (vn_hash w) = None"
    using Cons.IH [OF rest, of "vs @ [?v]"] by blast
  have tail: "\<forall>w \<in> set new. vn_hash w \<noteq> vn_hash ?v \<and> bt_get nodes (vn_hash w) = None"
    using new(4) by (auto simp: bt_get_insert split: if_splits)
  then have dist: "distinct (map vn_hash (?v # new))" using new(2) by (simp add: image_iff) metis
  have all: "\<forall>w \<in> set (?v # new). vn_shard_id w = sid \<and> bt_get nodes (vn_hash w) = None"
    using tail new(4) free v(2) by simp
  have "fold (add_vnode H sid) (i # is) (nodes, vs) = (fold put_node (?v # new) nodes, vs @ ?v # new)"
    using new(1) by (simp add: add_vnode_eq v)
  moreover have "length (?v # new) = length (i # is)" using new(3) by simp
  ultimately show ?case using dist all by blast
qed

lemma ring_add_shard_cases:
  assumes ok: "ring_add_shard H r sid n = Inr r'"
    and free: "slots_free H sid [0..<unat n] (ring_nodes r)"
  obtains new where "map_of (ring_shard_nodes r) sid = None"
    "r' = r\<lparr>ring_nodes := fold put_node new (ring_nodes r),
            ring_shard_nodes := AList.update sid new (ring_shard_nodes r),
            ring_vnode_counts := AList.update sid n (ring_vnode_counts r)\<rparr>"
    "distinct (map vn_hash new)" "length new = unat n"
    "\<forall>v \<in> set new. vn_shard_id v = sid \<and> bt_get (ring_nodes r) (vn_hash v) = None"
proof -
  obtain new where new: "fold (add_vnode H sid) [0..<unat n] (ring_nodes r, []) =
        (fold put_node new (ring_nodes r), new)"
      "distinct (map vn_hash new)" "length new = unat n"
      "\<forall>v \<in> set new. vn_shard_id v = sid \<and> bt_get (ring_nodes r) (vn_hash v) = None"
    using add_vnodes_result [OF free, of "[]"] by auto
  from ok have "map_of (ring_shard_nodes r) sid = None"
    by (simp add: ring_add_shard_def split: if_splits)
  with ok new(1) have "r' = r\<lparr>ring_nodes := fold put_node new (ring_nodes r),
      ring_shard_nodes := AList.update sid new (ring_shard_nodes r),
      ring_vnode_counts := AList.update sid n (ring_vnode_counts r)\<rparr>"
    by (simp add: ring_add_shard_def)
  with \<open>map_of (ring_shard_nodes r) sid = None\<close> show thesis
    by (rule that [OF _ _ new(2-4)])
qed

lemma put_nodes_get:
  assumes "bt_wf nodes" "distinct (map vn_hash new)"
  shows "bt_get (fold put_node new nodes) h =
           (case find (\<lambda>v. vn_hash v = h) new of Some v \<Rightarrow> Some v | None \<Rightarrow> bt_get nodes h)"
proof (cases "find (\<lambda>v. vn_hash v = h) new")
  case None
  then have "h \<notin> vn_hash ` set new" by (auto simp: find_None_iff)
  then show ?thesis using None assms(1) by (simp add: bt.get_fold_ins_other)
next
  case (Some v)
  then have "v \<in> set new" "vn_hash v = h" by (auto simp: find_Some_iff)
  then show ?thesis using bt.get_fold_ins_mem [OF assms, of v "\<lambda>v. v"] Some by auto
qed

lemma put_nodes_get_Some:
  assumes "bt_wf nodes" "distinct (map vn_hash new)"
    and "bt_get (fold put_node new nodes) h = Some v"
  shows "(v \<in> set new \<and> vn_hash v = h) \<or> bt_get nodes h = Some v"
  using assms(3) unfolding put_nodes_get [OF assms(1,2)]
  by (auto simp: find_Some_iff split: option.splits)

lemma ring_inv_add:
  assumes inv: "ring_inv r" and free: "slots_free H sid [0..<unat n] (ring_nodes r)"
    and ok: "ring_add_shard H r sid n = Inr r'"
  shows "ring_inv r'"
proof -
  obtain new where absent: "map_of (ring_shard_nodes r) sid = None"
    and r': "r' = r\<lparr>ring_nodes := fold put_node new (ring_nodes r),
            ring_shard_nodes := AList.update sid new (ring_shard_nodes r),
            ring_vnode_counts := AList.update sid n (ring_vnode_counts r)\<rparr>"
    and dist: "distinct (map vn_hash new)" and "length new = unat n"
    and all: "\<forall>v \<in> set new. vn_shard_id v = sid \<and> bt_get (ring_nodes r) (vn_hash v) = None"
    by (rule ring_add_shard_cases [OF ok free])
  have sids: "vn_shard_id v = sid" and fresh: "bt_get (ring_nodes r) (vn_hash v) = None"
    if "v \<in> set new" for v using all that by blast+
  note wf = ring_invD(1) [OF inv] and keys = ring_invD(4) [OF inv] and lists = ring_invD(5) [OF inv]
  have old: "vn_shard_id v \<noteq> sid" if "bt_get (ring_nodes r) (vn_hash v) = Some v" for v
    using that lists [of v sid] absent by (simp add: shard_list_def)
  have nodes: "ring_nodes r' = fold put_node new (ring_nodes r)" by (simp add: r')
  have get: "bt_get (ring_nodes r') h = Some v \<longleftrightarrow>
      (v \<in> set new \<and> vn_hash v = h) \<or> (bt_get (ring_nodes r) h = Some v \<and> h \<notin> vn_hash ` set new)" for h v
  proof
    assume "bt_get (ring_nodes r') h = Some v"
    then show "(v \<in> set new \<and> vn_hash v = h) \<or>
        (bt_get (ring_nodes r) h = Some v \<and> h \<notin> vn_hash ` set new)"
      unfolding nodes put_nodes_get [OF wf dist]
      by (auto simp: find_Some_iff find_None_iff split: option.splits)
  next
    assume "(v \<in> set new \<and> vn_hash v = h) \<or>
        (bt_get (ring_nodes r) h = Some v \<and> h \<notin> vn_hash ` set new)"
    then show "bt_get (ring_nodes r') h = Some v"
      unfolding nodes using bt.get_fold_ins_mem [OF wf dist, of v "\<lambda>v. v"]
      by (auto simp: bt.get_fold_ins_other [OF wf])
  qed
  show ?thesis
  proof (rule ring_invI)
    show "bt_wf (ring_nodes r')" unfolding nodes by (rule bt.wf_fold_ins [OF wf])
    show "hm_wf (ring_shard_nodes r')" "hm_wf (ring_vnode_counts r')"
      using ring_invD(2,3) [OF inv] by (simp_all add: r')
    show "vn_hash v = h" if "bt_get (ring_nodes r') h = Some v" for h v
      using that keys unfolding get by blast
    show "v \<in> set (shard_list r' s) \<longleftrightarrow>
        vn_shard_id v = s \<and> bt_get (ring_nodes r') (vn_hash v) = Some v" for s v
    proof (cases "s = sid")
      case True
      then have "shard_list r' s = new" by (simp add: shard_list_def r' hm_get_update)
      then show ?thesis using True sids old unfolding get by blast
    next
      case False
      then have "shard_list r' s = shard_list r s" by (simp add: shard_list_def r' hm_get_update)
      moreover have "bt_get (ring_nodes r) (vn_hash v) = Some v \<longrightarrow> vn_hash v \<notin> vn_hash ` set new"
        using fresh by force
      ultimately show ?thesis using False lists [of v s] sids [of v] unfolding get by auto
    qed
  qed
qed

subsection \<open>Removing and reassigning\<close>

lemma ring_remove_cases:
  assumes inv: "ring_inv r" and ok: "ring_remove_shard r sid = Inr (r', vs)"
  shows "bt_get (ring_nodes r') h = (if h \<in> vn_hash ` set vs then None else bt_get (ring_nodes r) h)"
    and "shard_list r sid = vs" and "bt_wf (ring_nodes r')"
    and "ring_shard_nodes r' = AList.delete sid (ring_shard_nodes r)"
    and "ring_vnode_counts r' = AList.delete sid (ring_vnode_counts r)"
  using ring_invD(1) [OF inv] ok
  by (auto simp: ring_remove_shard_def bt.get_fold_del bt.wf_fold_del shard_list_def split: option.splits)

lemma ring_remove_get:
  assumes inv: "ring_inv r" and ok: "ring_remove_shard r sid = Inr (r', vs)"
  shows "bt_get (ring_nodes r') h = Some v \<longleftrightarrow>
           bt_get (ring_nodes r) h = Some v \<and> vn_shard_id v \<noteq> sid"
proof -
  note get = ring_remove_cases [OF assms] and lists = ring_invD(5) [OF inv, of _ sid]
  have "h \<in> vn_hash ` set vs \<longleftrightarrow> vn_shard_id v = sid" if v: "bt_get (ring_nodes r) h = Some v"
  proof
    assume "h \<in> vn_hash ` set vs"
    then obtain w where "w \<in> set vs" "vn_hash w = h" by blast
    then show "vn_shard_id v = sid" using lists [of w] get(2) v by simp
  next
    assume "vn_shard_id v = sid"
    then have "v \<in> set vs" using lists [of v] get(2) v ring_invD(4) [OF inv v] by simp
    then show "h \<in> vn_hash ` set vs" using ring_invD(4) [OF inv v] by blast
  qed
  then show ?thesis unfolding get(1) by auto
qed

lemma ring_inv_remove:
  assumes inv: "ring_inv r" and ok: "ring_remove_shard r sid = Inr (r', vs)"
  shows "ring_inv r'"
proof (rule ring_invI)
  note get = ring_remove_cases [OF assms] and some = ring_remove_get [OF assms]
  show "bt_wf (ring_nodes r')" by (rule get(3))
  show "hm_wf (ring_shard_nodes r')" "hm_wf (ring_vnode_counts r')"
    using ring_invD(2,3) [OF inv] by (simp_all add: get(4,5))
  show "vn_hash v = h" if "bt_get (ring_nodes r') h = Some v" for h v
    using that ring_invD(4) [OF inv] unfolding some by blast
  show "v \<in> set (shard_list r' s) \<longleftrightarrow>
      vn_shard_id v = s \<and> bt_get (ring_nodes r') (vn_hash v) = Some v" for s v
    using ring_invD(5) [OF inv, of v s] shard_list_delete [OF get(4), of s] unfolding some by auto
qed

lemma ring_reassign_cases:
  assumes "ring_reassign r h new = Inr r'"
  obtains v where "bt_get (ring_nodes r) h = Some v"
    "ring_nodes r' = bt_insert h (v\<lparr>vn_shard_id := new\<rparr>) (ring_nodes r)"
    "ring_vnode_counts r' = ring_vnode_counts r"
    "hm_wf (ring_shard_nodes r) \<longrightarrow> hm_wf (ring_shard_nodes r')"
    "\<forall>s. set (shard_list r' s) =
       (if s = vn_shard_id v then {w \<in> set (shard_list r s). vn_hash w \<noteq> h} else set (shard_list r s)) \<union>
       (if s = new then {v\<lparr>vn_shard_id := new\<rparr>} else {})"
proof -
  obtain v where v: "bt_get (ring_nodes r) h = Some v"
    using assms by (cases "bt_get (ring_nodes r) h") (auto simp: ring_reassign_def)
  let ?v' = "v\<lparr>vn_shard_id := new\<rparr>"
  define sn where "sn = (case map_of (ring_shard_nodes r) (vn_shard_id v) of
      Some vs \<Rightarrow> AList.update (vn_shard_id v) (filter (\<lambda>w. vn_hash w \<noteq> h) vs) (ring_shard_nodes r)
    | None \<Rightarrow> ring_shard_nodes r)"
  define r1 where "r1 = r\<lparr>ring_shard_nodes := sn\<rparr>"
  have r': "r' = r\<lparr>ring_nodes := bt_insert h ?v' (ring_nodes r),
      ring_shard_nodes := AList.update new (shard_list r1 new @ [?v']) sn\<rparr>"
    using assms v by (simp add: ring_reassign_def Let_def sn_def [symmetric] shard_list_def r1_def)
  have one: "shard_list r1 s = (if s = vn_shard_id v then filter (\<lambda>w. vn_hash w \<noteq> h) (shard_list r s)
      else shard_list r s)" for s
    by (auto simp: shard_list_def r1_def sn_def hm_get_update split: option.splits)
  have two: "shard_list r' s = (if s = new then shard_list r1 new @ [?v'] else shard_list r1 s)" for s
    by (simp add: shard_list_def r' r1_def hm_get_update)
  have "hm_wf (ring_shard_nodes r')" if "hm_wf (ring_shard_nodes r)"
    using that by (simp add: r' sn_def split: option.splits)
  moreover have "set (shard_list r' s) =
       (if s = vn_shard_id v then {w \<in> set (shard_list r s). vn_hash w \<noteq> h} else set (shard_list r s)) \<union>
       (if s = new then {?v'} else {})" for s
    unfolding two by (auto simp: one)
  ultimately show thesis
    by (intro that [OF v]) (simp_all add: r')
qed

lemma ring_inv_reassign:
  assumes inv: "ring_inv r" and ok: "ring_reassign r h new = Inr r'"
  shows "ring_inv r'"
proof -
  obtain v where v: "bt_get (ring_nodes r) h = Some v"
    and n: "ring_nodes r' = bt_insert h (v\<lparr>vn_shard_id := new\<rparr>) (ring_nodes r)"
    and c: "ring_vnode_counts r' = ring_vnode_counts r"
    and w: "hm_wf (ring_shard_nodes r) \<longrightarrow> hm_wf (ring_shard_nodes r')"
    and l: "\<forall>s. set (shard_list r' s) =
       (if s = vn_shard_id v then {w \<in> set (shard_list r s). vn_hash w \<noteq> h} else set (shard_list r s)) \<union>
       (if s = new then {v\<lparr>vn_shard_id := new\<rparr>} else {})"
    by (rule ring_reassign_cases [OF ok])
  have vh: "vn_hash v = h" using ring_invD(4) [OF inv v] .
  note lists = ring_invD(5) [OF inv] and get = bt_get_insert [of h "v\<lparr>vn_shard_id := new\<rparr>" "ring_nodes r"]
  show ?thesis
  proof (rule ring_invI)
    show "bt_wf (ring_nodes r')" using ring_invD(1) [OF inv] by (simp add: n bt_wf_insert)
    show "hm_wf (ring_shard_nodes r')" "hm_wf (ring_vnode_counts r')"
      using ring_invD(2,3) [OF inv] w by (simp_all add: c)
    show "vn_hash x = k" if "bt_get (ring_nodes r') k = Some x" for k x
      using that ring_invD(4) [OF inv] vh by (auto simp: n get split: if_splits)
    show "x \<in> set (shard_list r' s) \<longleftrightarrow>
        vn_shard_id x = s \<and> bt_get (ring_nodes r') (vn_hash x) = Some x" for s x
    proof (cases "vn_hash x = h")
      case True
      then have "x \<notin> set (shard_list r s)" if "s \<noteq> vn_shard_id v" for s
        using lists [of x s] v that by auto
      then show ?thesis using True vh by (auto simp: n get l split: if_splits)
    next
      case False
      then show ?thesis using lists [of x s] vh by (auto simp: n get l)
    qed
  qed
qed

subsection \<open>The rings the operations build\<close>

text \<open>
  Every ring that adding, removing and reassigning build, whatever the hash function does.  On all
  of them the positions are ordered, each node sits at its own position, and it is recorded in the
  list of its shard; a list may hold more, the nodes a collision has evicted from the ring.
\<close>

inductive ring_reachable :: "hasher \<Rightarrow> ring \<Rightarrow> bool" for H where
  reach_new: "ring_reachable H ring_new"
| reach_add: "ring_reachable H r \<Longrightarrow> ring_add_shard H r sid n = Inr r' \<Longrightarrow> ring_reachable H r'"
| reach_remove: "ring_reachable H r \<Longrightarrow> ring_remove_shard r sid = Inr (r', vs) \<Longrightarrow> ring_reachable H r'"
| reach_reassign: "ring_reachable H r \<Longrightarrow> ring_reassign r h s = Inr r' \<Longrightarrow> ring_reachable H r'"
| reach_clear: "ring_reachable H r \<Longrightarrow> ring_reachable H (ring_clear r)"

definition ring_listed :: "ring \<Rightarrow> bool" where
  "ring_listed r \<longleftrightarrow> bt_wf (ring_nodes r) \<and>
     (\<forall>h v. bt_get (ring_nodes r) h = Some v \<longrightarrow>
        vn_hash v = h \<and> v \<in> set (shard_list r (vn_shard_id v)))"

lemma ring_listedD:
  assumes "ring_listed r"
  shows "bt_wf (ring_nodes r)"
    and "bt_get (ring_nodes r) h = Some v \<Longrightarrow> vn_hash v = h"
    and "bt_get (ring_nodes r) h = Some v \<Longrightarrow> v \<in> set (shard_list r (vn_shard_id v))"
  using assms unfolding ring_listed_def by blast+

lemma add_vnodes_listed:
  assumes "bt_wf nodes"
    and "\<And>h v. bt_get nodes h = Some v \<Longrightarrow> vn_hash v = h \<and> (v \<in> set vs \<and> vn_shard_id v = sid \<or> v \<in> old)"
    and "fold (add_vnode H sid) is (nodes, vs) = (nodes', vs')"
  shows "bt_wf nodes' \<and> (\<forall>h v. bt_get nodes' h = Some v \<longrightarrow>
           vn_hash v = h \<and> (v \<in> set vs' \<and> vn_shard_id v = sid \<or> v \<in> old))"
  using assms
proof (induction "is" arbitrary: nodes vs)
  case Nil
  then show ?case by simp
next
  case (Cons i "is")
  let ?v = "slot_node H sid i nodes"
  have v: "vn_hash ?v = vnode_slot H sid i nodes" "vn_shard_id ?v = sid"
    by (simp_all add: slot_node_def)
  show ?case
  proof (rule Cons.IH)
    show "bt_wf (put_node ?v nodes)" using Cons.prems(1) by (simp add: bt_wf_insert)
    show "vn_hash w = h \<and> (w \<in> set (vs @ [?v]) \<and> vn_shard_id w = sid \<or> w \<in> old)"
      if "bt_get (put_node ?v nodes) h = Some w" for h w
      using that Cons.prems(2) [of h w] v(2) by (auto simp: bt_get_insert split: if_splits)
    show "fold (add_vnode H sid) is (put_node ?v nodes, vs @ [?v]) = (nodes', vs')"
      using Cons.prems(3) by (simp add: add_vnode_eq v(1))
  qed
qed

lemma ring_listed_add:
  assumes l: "ring_listed r" and ok: "ring_add_shard H r sid n = Inr r'"
  shows "ring_listed r'"
proof -
  obtain nodes vs where f: "fold (add_vnode H sid) [0..<unat n] (ring_nodes r, []) = (nodes, vs)"
    by (cases "fold (add_vnode H sid) [0..<unat n] (ring_nodes r, [])")
  have absent: "map_of (ring_shard_nodes r) sid = None"
    and r': "ring_nodes r' = nodes" "ring_shard_nodes r' = AList.update sid vs (ring_shard_nodes r)"
    using ok f by (auto simp: ring_add_shard_def split: if_splits)
  let ?old = "{v. vn_shard_id v \<noteq> sid \<and> v \<in> set (shard_list r (vn_shard_id v))}"
  have "vn_hash v = h \<and> (v \<in> set [] \<and> vn_shard_id v = sid \<or> v \<in> ?old)"
    if "bt_get (ring_nodes r) h = Some v" for h v
    using ring_listedD(2,3) [OF l that] absent by (auto simp: shard_list_def split: option.splits)
  from add_vnodes_listed [OF ring_listedD(1) [OF l] this f]
  show ?thesis unfolding ring_listed_def r'(1) by (auto simp: shard_list_update [OF r'(2)])
qed

lemma ring_remove_nodes:
  assumes wf: "bt_wf (ring_nodes r)" and ok: "ring_remove_shard r sid = Inr (r', vs)"
  shows "bt_get (ring_nodes r') h = (if h \<in> vn_hash ` set vs then None else bt_get (ring_nodes r) h)"
    and "shard_list r sid = vs" and "bt_wf (ring_nodes r')"
    and "ring_shard_nodes r' = AList.delete sid (ring_shard_nodes r)"
  using wf ok
  by (auto simp: ring_remove_shard_def bt.get_fold_del bt.wf_fold_del shard_list_def split: option.splits)

lemma ring_remove_other_shards:
  assumes l: "ring_listed r" and ok: "ring_remove_shard r sid = Inr (r', vs)"
    and v: "bt_get (ring_nodes r') h = Some v"
  shows "vn_shard_id v \<noteq> sid"
proof
  note rm = ring_remove_nodes [OF ring_listedD(1) [OF l] ok]
  assume sid: "vn_shard_id v = sid"
  have out: "h \<notin> vn_hash ` set vs" and old: "bt_get (ring_nodes r) h = Some v"
    using v unfolding rm(1) by (auto split: if_splits)
  have "v \<in> set vs" using ring_listedD(3) [OF l old] sid rm(2) by simp
  then show False using out ring_listedD(2) [OF l old] by blast
qed

lemma ring_listed_remove:
  assumes l: "ring_listed r" and ok: "ring_remove_shard r sid = Inr (r', vs)"
  shows "ring_listed r'"
proof -
  note rm = ring_remove_nodes [OF ring_listedD(1) [OF l] ok]
  have "vn_hash v = h \<and> v \<in> set (shard_list r' (vn_shard_id v))"
    if v: "bt_get (ring_nodes r') h = Some v" for h v
  proof -
    have old: "bt_get (ring_nodes r) h = Some v" using v unfolding rm(1) by (auto split: if_splits)
    then show ?thesis
      using ring_listedD(2,3) [OF l old] ring_remove_other_shards [OF l ok v]
      by (simp add: shard_list_delete [OF rm(4)])
  qed
  with rm(3) show ?thesis unfolding ring_listed_def by blast
qed

lemma ring_listed_reassign:
  assumes l: "ring_listed r" and ok: "ring_reassign r h new = Inr r'"
  shows "ring_listed r'"
proof -
  obtain v where v: "bt_get (ring_nodes r) h = Some v"
    and n: "ring_nodes r' = bt_insert h (v\<lparr>vn_shard_id := new\<rparr>) (ring_nodes r)"
    and lists: "\<forall>s. set (shard_list r' s) =
       (if s = vn_shard_id v then {w \<in> set (shard_list r s). vn_hash w \<noteq> h} else set (shard_list r s)) \<union>
       (if s = new then {v\<lparr>vn_shard_id := new\<rparr>} else {})"
    by (rule ring_reassign_cases [OF ok])
  have "vn_hash w = k \<and> w \<in> set (shard_list r' (vn_shard_id w))"
    if w: "bt_get (ring_nodes r') k = Some w" for k w
  proof (cases "k = h")
    case True
    then have "w = v\<lparr>vn_shard_id := new\<rparr>" using w by (simp add: n bt_get_insert)
    then show ?thesis using True ring_listedD(2) [OF l v] by (simp add: lists)
  next
    case False
    then have old: "bt_get (ring_nodes r) k = Some w" using w by (simp add: n bt_get_insert)
    show ?thesis using False ring_listedD(2,3) [OF l old] by (auto simp: lists)
  qed
  moreover have "bt_wf (ring_nodes r')" using ring_listedD(1) [OF l] by (simp add: n bt_wf_insert)
  ultimately show ?thesis unfolding ring_listed_def by blast
qed

lemma ring_reachable_listed: "ring_reachable H r \<Longrightarrow> ring_listed r"
proof (induction rule: ring_reachable.induct)
  case reach_new
  show ?case by (simp add: ring_listed_def ring_new_def)
next
  case (reach_clear r)
  show ?case by (simp add: ring_listed_def ring_clear_def)
qed (blast intro: ring_listed_add ring_listed_remove ring_listed_reassign)+

text \<open>
  The rings built while no position the add loop takes is occupied.  On them the two views agree
  exactly; \<open>retry_collision_loses_shard\<close> below shows that the condition cannot be dropped.
\<close>

inductive built_apart :: "hasher \<Rightarrow> ring \<Rightarrow> bool" for H where
  apart_new: "built_apart H ring_new"
| apart_add: "built_apart H r \<Longrightarrow> slots_free H sid [0..<unat n] (ring_nodes r) \<Longrightarrow>
    ring_add_shard H r sid n = Inr r' \<Longrightarrow> built_apart H r'"
| apart_remove: "built_apart H r \<Longrightarrow> ring_remove_shard r sid = Inr (r', vs) \<Longrightarrow> built_apart H r'"
| apart_reassign: "built_apart H r \<Longrightarrow> ring_reassign r h s = Inr r' \<Longrightarrow> built_apart H r'"
| apart_clear: "built_apart H r \<Longrightarrow> built_apart H (ring_clear r)"

lemma built_apart_inv: "built_apart H r \<Longrightarrow> ring_inv r"
  by (induction rule: built_apart.induct)
    (blast intro: ring_inv_new ring_inv_clear ring_inv_add ring_inv_remove ring_inv_reassign)+

section \<open>Routing: the least clockwise distance\<close>

text \<open>
  The abstract specification of the ring: walking clockwise from \<open>h\<close>, the distance to position
  \<open>k\<close> is \<open>k - h\<close> modulo \<open>2\<^sup>6\<^sup>4\<close>, and the owner of \<open>h\<close> is the node at the least distance.
\<close>

definition ring_owner :: "(u64, virtual_node) btree \<Rightarrow> u64 \<Rightarrow> u64 \<Rightarrow> bool" where
  "ring_owner nodes h k \<longleftrightarrow>
     k \<in> fst ` set nodes \<and> (\<forall>k' \<in> fst ` set nodes. k - h \<le> k' - h)"

lemma ring_owner_unique: "ring_owner nodes h k \<Longrightarrow> ring_owner nodes h k' \<Longrightarrow> k = k'"
  unfolding ring_owner_def by (metis antisym diff_left_imp_eq eq_diff_eq)

lemma word_diff_le:
  fixes a b h :: u64
  shows "h \<le> a \<Longrightarrow> a \<le> b \<Longrightarrow> a - h \<le> b - h" and "b < h \<Longrightarrow> h \<le> a \<Longrightarrow> a - h \<le> b - h"
    and "a < h \<Longrightarrow> a \<le> b \<Longrightarrow> b < h \<Longrightarrow> a - h \<le> b - h"
  using unat_lt [of a] unat_lt [of b] unat_lt [of h]
  by (simp_all add: word_le_nat_alt word_less_nat_alt unat_sub_if')

lemma find_shard_owner:
  assumes wf: "bt_wf (ring_nodes r)" and ne: "ring_nodes r \<noteq> []"
  shows "\<exists>k v. ring_owner (ring_nodes r) h k \<and> bt_get (ring_nodes r) k = Some v \<and>
    ring_find_shard r h = Some (vn_shard_id v)"
proof (cases "bt_from h (ring_nodes r)")
  case (Cons kv rest)
  obtain k v where kv: "kv = (k, v)" by (cases kv)
  note least = bt_from_hd_least [OF wf Cons [unfolded kv]]
  have "k - h \<le> k' - h" if "k' \<in> fst ` set (ring_nodes r)" for k'
    using word_diff_le(1) [of h k k'] word_diff_le(2) [of k' h k] least(2) least(3) [OF that]
    by (cases "h \<le> k'") auto
  moreover have "k \<in> fst ` set (ring_nodes r)" using bt_get_Some_mem [OF least(1)] by force
  ultimately show ?thesis
    using least(1) ne Cons kv by (auto simp: ring_owner_def ring_find_shard_def)
next
  case Nil
  then have below: "\<forall>b \<in> fst ` set (ring_nodes r). b < h" by (simp add: bt_from_Nil)
  obtain k v rest where c: "ring_nodes r = (k, v) # rest" using ne by (metis list.exhaust surj_pair)
  have "k - h \<le> k' - h" if "k' \<in> fst ` set (ring_nodes r)" for k'
    using word_diff_le(3) [of k h k'] bt_hd_least [OF wf [unfolded c]] that below c by auto
  then show ?thesis
    using Nil c by (auto simp: ring_owner_def ring_find_shard_def)
qed

lemma find_shard_iff:
  assumes wf: "bt_wf (ring_nodes r)"
  shows "ring_find_shard r h = Some s \<longleftrightarrow>
    (\<exists>k v. ring_owner (ring_nodes r) h k \<and> bt_get (ring_nodes r) k = Some v \<and> vn_shard_id v = s)"
proof (cases "ring_nodes r = []")
  case True
  then show ?thesis by (simp add: ring_find_shard_def)
next
  case False
  then obtain k v where kv: "ring_owner (ring_nodes r) h k" "bt_get (ring_nodes r) k = Some v"
      "ring_find_shard r h = Some (vn_shard_id v)"
    using find_shard_owner [OF wf, of h] by blast
  show ?thesis
  proof
    show "\<exists>k v. ring_owner (ring_nodes r) h k \<and> bt_get (ring_nodes r) k = Some v \<and> vn_shard_id v = s"
      if "ring_find_shard r h = Some s" using that kv by auto
  next
    assume "\<exists>k v. ring_owner (ring_nodes r) h k \<and> bt_get (ring_nodes r) k = Some v \<and> vn_shard_id v = s"
    then obtain k' v' where kv': "ring_owner (ring_nodes r) h k'" "bt_get (ring_nodes r) k' = Some v'"
        "vn_shard_id v' = s" by blast
    have "k' = k" using ring_owner_unique [OF kv'(1) kv(1)] .
    then show "ring_find_shard r h = Some s" using kv(2,3) kv'(2,3) by simp
  qed
qed

text \<open>
  C1. Routing is consistent hashing: on every ring the operations can build, collisions of the hash
  function included, \<^verbatim>\<open>find_shard\<close> returns the shard of the virtual node at the least clockwise
  distance from the key's hash, and it finds none only on the empty ring.
\<close>

theorem ring_routes_to_owner:
  assumes "ring_reachable H r"
  shows "(ring_find_shard r h = Some s \<longleftrightarrow>
           (\<exists>k v. ring_owner (ring_nodes r) h k \<and> bt_get (ring_nodes r) k = Some v \<and> vn_shard_id v = s)) \<and>
         (ring_find_shard r h = None \<longleftrightarrow> ring_is_empty r)"
proof -
  have wf: "bt_wf (ring_nodes r)" using ring_listedD(1) [OF ring_reachable_listed [OF assms]] .
  have "ring_find_shard r h = None \<longleftrightarrow> ring_is_empty r"
    using find_shard_owner [OF wf, of h] by (auto simp: ring_is_empty_def ring_find_shard_def)
  with find_shard_iff [OF wf] show ?thesis by blast
qed

section \<open>Minimal disruption\<close>

lemma ring_owner_subset:
  "ring_owner nodes h k \<Longrightarrow> fst ` set nodes' \<subseteq> fst ` set nodes \<Longrightarrow> k \<in> fst ` set nodes' \<Longrightarrow>
   ring_owner nodes' h k"
  unfolding ring_owner_def by blast

lemma bt_get_dom: "k \<in> fst ` set t \<longleftrightarrow> bt_get t k \<noteq> None"
  using bt_get_None [of t k] by auto

lemma find_shard_after_removal:
  assumes wf: "bt_wf (ring_nodes r)" and ok: "ring_remove_shard r sid = Inr (r', vs)"
    and own: "ring_owner (ring_nodes r) h k" "bt_get (ring_nodes r) k = Some v"
    and out: "k \<notin> vn_hash ` set vs"
  shows "ring_find_shard r' h = Some (vn_shard_id v)"
proof -
  note rm = ring_remove_nodes [OF wf ok]
  have sub: "fst ` set (ring_nodes r') \<subseteq> fst ` set (ring_nodes r)"
    by (auto simp: bt_get_dom rm(1) subset_iff)
  have k: "bt_get (ring_nodes r') k = Some v" using own(2) out by (simp add: rm(1))
  then have "k \<in> fst ` set (ring_nodes r')" by (simp add: bt_get_dom)
  then show ?thesis
    unfolding find_shard_iff [OF rm(3)] using ring_owner_subset [OF own(1) sub] k by blast
qed

text \<open>
  C2. Removing a shard moves only the keys it owned.  On every ring the operations can build, no
  key is routed to the removed shard any more, and a key keeps its shard unless the node that owns
  it sits at a position recorded for the removed shard.  If the ring was built without a collision
  of positions (no add took an occupied position; the code checks only the first key of a node, so
  the retry key may take one), those positions hold the removed shard's nodes only, and every key of
  another shard keeps its shard.
\<close>

theorem remove_shard_minimal_disruption:
  assumes "ring_reachable H r" "ring_remove_shard r sid = Inr (r', vs)"
  shows "(\<forall>h. ring_find_shard r' h \<noteq> Some sid) \<and>
         (\<forall>h k v. ring_owner (ring_nodes r) h k \<and> bt_get (ring_nodes r) k = Some v \<and>
            k \<notin> vn_hash ` set vs \<longrightarrow> ring_find_shard r' h = Some (vn_shard_id v)) \<and>
         (built_apart H r \<longrightarrow>
            (\<forall>h t. ring_find_shard r h = Some t \<and> t \<noteq> sid \<longrightarrow> ring_find_shard r' h = Some t))"
proof -
  note l = ring_reachable_listed [OF assms(1)]
  note wf = ring_listedD(1) [OF l] and wf' = ring_listedD(1) [OF ring_listed_remove [OF l assms(2)]]
  note after = find_shard_after_removal [OF wf assms(2)]
  have "ring_find_shard r' h \<noteq> Some sid" for h
    unfolding find_shard_iff [OF wf'] using ring_remove_other_shards [OF l assms(2)] by blast
  moreover have "ring_find_shard r' h = Some t"
    if apart: "built_apart H r" and t: "ring_find_shard r h = Some t" "t \<noteq> sid" for h t
  proof -
    note inv = built_apart_inv [OF apart]
    obtain k v where kv: "ring_owner (ring_nodes r) h k" "bt_get (ring_nodes r) k = Some v" "vn_shard_id v = t"
      using t(1) unfolding find_shard_iff [OF wf] by blast
    have "bt_get (ring_nodes r') k = Some v" using ring_remove_get [OF inv assms(2)] kv(2,3) t(2) by blast
    then have "k \<notin> vn_hash ` set vs" using ring_remove_nodes(1) [OF wf assms(2), of k] by auto
    then show ?thesis using after [OF kv(1,2)] kv(3) by simp
  qed
  ultimately show ?thesis using after by blast
qed

text \<open>
  Adding a shard moves keys only to the new shard: every key is afterwards routed either to the
  new shard or to the shard that had it before.
\<close>

lemma add_shard_minimal_disruption:
  assumes "ring_inv r" "slots_free H sid [0..<unat n] (ring_nodes r)" "ring_add_shard H r sid n = Inr r'"
  shows "ring_find_shard r' h = Some sid \<or> ring_find_shard r' h = ring_find_shard r h"
proof (cases "ring_find_shard r' h")
  case None
  obtain new where new: "map_of (ring_shard_nodes r) sid = None"
    "r' = r\<lparr>ring_nodes := fold put_node new (ring_nodes r),
            ring_shard_nodes := AList.update sid new (ring_shard_nodes r),
            ring_vnode_counts := AList.update sid n (ring_vnode_counts r)\<rparr>"
    "distinct (map vn_hash new)" "length new = unat n"
    "\<forall>v \<in> set new. vn_shard_id v = sid \<and> bt_get (ring_nodes r) (vn_hash v) = None"
    by (rule ring_add_shard_cases [OF assms(3,2)])
  have "ring_nodes r' = []"
    using None find_shard_owner [OF ring_invD(1) [OF ring_inv_add [OF assms]], of h] by fastforce
  then have "bt_get (ring_nodes r) k = None" for k
    using put_nodes_get [OF ring_invD(1) [OF assms(1)] new(3), of k] new(2,5)
    by (auto simp: find_None_iff split: option.splits)
  then have "ring_nodes r = []" by (metis bt_get_dom image_is_empty set_empty2 subsetI subset_empty)
  then show ?thesis using None by (simp add: ring_find_shard_def)
next
  case (Some t)
  obtain new where new: "map_of (ring_shard_nodes r) sid = None"
    "r' = r\<lparr>ring_nodes := fold put_node new (ring_nodes r),
            ring_shard_nodes := AList.update sid new (ring_shard_nodes r),
            ring_vnode_counts := AList.update sid n (ring_vnode_counts r)\<rparr>"
    "distinct (map vn_hash new)" "length new = unat n"
    "\<forall>v \<in> set new. vn_shard_id v = sid \<and> bt_get (ring_nodes r) (vn_hash v) = None"
    by (rule ring_add_shard_cases [OF assms(3,2)])
  note wf = ring_invD(1) [OF assms(1)] and wf' = ring_invD(1) [OF ring_inv_add [OF assms]]
  obtain k v where kv: "ring_owner (ring_nodes r') h k" "bt_get (ring_nodes r') k = Some v" "vn_shard_id v = t"
    using Some unfolding find_shard_iff [OF wf'] by blast
  have sub: "fst ` set (ring_nodes r) \<subseteq> fst ` set (ring_nodes r')"
  proof
    fix k assume "k \<in> fst ` set (ring_nodes r)"
    then show "k \<in> fst ` set (ring_nodes r')"
      unfolding bt_get_dom new(2) using put_nodes_get [OF wf new(3), of k] by (simp split: option.splits)
  qed
  show ?thesis
  proof (cases "v \<in> set new")
    case True
    then show ?thesis using new(5) kv(3) Some by simp
  next
    case False
    then have old: "bt_get (ring_nodes r) k = Some v"
      using put_nodes_get_Some [OF wf new(3), of k v] kv(2) new(2) by simp
    then have "ring_owner (ring_nodes r) h k"
      using ring_owner_subset [OF kv(1) sub] by (simp add: bt_get_dom)
    then have "ring_find_shard r h = Some t" unfolding find_shard_iff [OF wf] using old kv(3) by blast
    then show ?thesis using Some by simp
  qed
qed

text \<open>
  Moving one virtual node to another shard re-routes exactly the keys that node owned: they go
  to the new shard, and every other key keeps its shard.
\<close>

lemma reassign_moves_one_arc:
  assumes "ring_inv r" "ring_reassign r k new = Inr r'"
  shows "ring_find_shard r' h = (if ring_owner (ring_nodes r) h k then Some new else ring_find_shard r h)"
proof -
  obtain v where v: "bt_get (ring_nodes r) k = Some v"
    and n: "ring_nodes r' = bt_insert k (v\<lparr>vn_shard_id := new\<rparr>) (ring_nodes r)"
    by (rule ring_reassign_cases [OF assms(2)])
  note wf = ring_invD(1) [OF assms(1)] and wf' = ring_invD(1) [OF ring_inv_reassign [OF assms]]
  have "k \<in> fst ` set (ring_nodes r)" using v by (simp add: bt_get_dom)
  then have "fst ` set (ring_nodes r') = fst ` set (ring_nodes r)"
    unfolding n bt_insert_keys by blast
  then have own: "ring_owner (ring_nodes r') h x \<longleftrightarrow> ring_owner (ring_nodes r) h x" for x
    by (simp add: ring_owner_def)
  have "ring_nodes r \<noteq> []" using v by auto
  then obtain x w where x: "ring_owner (ring_nodes r) h x" "bt_get (ring_nodes r) x = Some w"
      "ring_find_shard r h = Some (vn_shard_id w)"
    using find_shard_owner [OF wf, of h] by blast
  have "bt_get (ring_nodes r') x = Some (if x = k then v\<lparr>vn_shard_id := new\<rparr> else w)"
    using x(2) by (simp add: n bt_get_insert)
  then have "ring_find_shard r' h = Some (if x = k then new else vn_shard_id w)"
    unfolding find_shard_iff [OF wf'] own using x(1) by (auto intro!: exI [of _ x])
  moreover have "ring_owner (ring_nodes r) h k \<longleftrightarrow> x = k"
    using x(1) ring_owner_unique by blast
  ultimately show ?thesis using x(3) by simp
qed

section \<open>Replica sets\<close>

abbreviation shards_of :: "(u64, virtual_node) btree \<Rightarrow> shard_id set" where
  "shards_of nodes \<equiv> (\<lambda>p. vn_shard_id (snd p)) ` set nodes"

lemma replica_walk_prefix: "\<exists>ys. replica_walk n ps acc = acc @ ys \<and> set ys \<subseteq> shards_of ps"
proof (induction n ps acc rule: replica_walk.induct)
  case (2 n k v rest shards)
  show ?case
  proof (cases "vn_shard_id v \<in> set shards")
    case True
    then show ?thesis using 2(1) by auto
  next
    case False
    show ?thesis
    proof (cases "length (shards @ [vn_shard_id v]) \<ge> n")
      case True
      then show ?thesis using False by simp
    next
      case short: False
      then obtain ys where "replica_walk n rest (shards @ [vn_shard_id v]) = (shards @ [vn_shard_id v]) @ ys"
          "set ys \<subseteq> shards_of rest"
        using 2(2) [OF False refl] by auto
      then show ?thesis using False short by (intro exI [of _ "vn_shard_id v # ys"]) auto
    qed
  qed
qed simp

lemma replica_walk_distinct: "distinct acc \<Longrightarrow> distinct (replica_walk n ps acc)"
  by (induction n ps acc rule: replica_walk.induct) (simp_all add: Let_def)

lemma replica_walk_length:
  assumes "distinct acc" "length acc < max 1 n"
  shows "length (replica_walk n ps acc) = min (max 1 n) (card (set acc \<union> shards_of ps))"
  using assms
proof (induction n ps acc rule: replica_walk.induct)
  case (1 n shards)
  then show ?case by (simp add: distinct_card)
next
  case (2 n k v rest shards)
  show ?case
  proof (cases "vn_shard_id v \<in> set shards")
    case True
    then show ?thesis using 2(1) [OF True 2(3,4)] by (simp add: insert_absorb)
  next
    case False
    let ?s = "shards @ [vn_shard_id v]"
    have d: "distinct ?s" using False 2(3) by simp
    have un: "set shards \<union> shards_of ((k, v) # rest) = set ?s \<union> shards_of rest" by auto
    show ?thesis
    proof (cases "length ?s \<ge> n")
      case True
      have "length ?s \<le> card (set ?s \<union> shards_of rest)"
        using distinct_card [OF d] card_mono [of "set ?s \<union> shards_of rest" "set ?s"] by auto
      then show ?thesis unfolding un using True False 2(4) by auto
    next
      case short: False
      then show ?thesis using 2(2) [OF False refl _ d] False unfolding un by simp
    qed
  qed
qed

text \<open>
  Replica selection: on a ring that is not empty, \<^verbatim>\<open>find_shards_with_replicas\<close> returns distinct
  shards of the ring, the first of which is the shard \<^verbatim>\<open>find_shard\<close> routes to, and as many as asked
  for, as far as the ring has them; asked for none, it still returns the primary.
\<close>

lemma replicas_distinct_and_complete:
  assumes "ring_inv r" "\<not> ring_is_empty r"
  shows "distinct (ring_find_replicas r h n) \<and>
         set (ring_find_replicas r h n) \<subseteq> shards_of (ring_nodes r) \<and>
         length (ring_find_replicas r h n) = min (max 1 n) (card (shards_of (ring_nodes r))) \<and>
         ring_find_shard r h = Some (hd (ring_find_replicas r h n))"
proof -
  let ?walk = "bt_from h (ring_nodes r) @ ring_nodes r"
  have ne: "ring_nodes r \<noteq> []" using assms(2) by (simp add: ring_is_empty_def)
  have un: "shards_of ?walk = shards_of (ring_nodes r)"
    by (auto simp: bt_from_def)
  have eq: "ring_find_replicas r h n = replica_walk n ?walk []" using ne by (simp add: ring_find_replicas_def)
  obtain k v rest where w: "?walk = (k, v) # rest" using ne by (metis append_is_Nil_conv list.exhaust surj_pair)
  have first: "ring_find_shard r h = Some (vn_shard_id v)"
    using w ne by (cases "bt_from h (ring_nodes r)"; cases "ring_nodes r") (auto simp: ring_find_shard_def)
  have "hd (replica_walk n ?walk []) = vn_shard_id v"
    using replica_walk_prefix [of n rest "[vn_shard_id v]"] unfolding w by (auto simp: Let_def)
  then show ?thesis
    using replica_walk_prefix [of n ?walk "[]"] replica_walk_distinct [of "[]" n ?walk]
      replica_walk_length [of "[]" n ?walk] first
    unfolding eq un by auto
qed

section \<open>Collisions on the retry key\<close>

text \<open>
  A collision on the retry key loses a shard: when both keys of the second shard's node hash
  to the position of the first shard's only node, adding the second shard evicts that node, so
  all keys go to the second shard although the first is still registered, and removing the second
  shard then leaves a ring that routes no key at all.
\<close>

lemma retry_collision_loses_shard:
  assumes "s1 \<noteq> s2" "H (vnode_key s2 0) = H (vnode_key s1 0)" "H (vnode_retry_key s2 0) = H (vnode_key s1 0)"
  shows "\<exists>r1 r2 r3 vs. ring_add_shard H ring_new s1 1 = Inr r1 \<and> ring_add_shard H r1 s2 1 = Inr r2 \<and>
           ring_find_shard r2 h = Some s2 \<and> shard_list r2 s1 \<noteq> [] \<and> \<not> ring_inv r2 \<and>
           ring_remove_shard r2 s2 = Inr (r3, vs) \<and> shard_list r3 s1 \<noteq> [] \<and> ring_find_shard r3 h = None"
proof -
  let ?h = "H (vnode_key s1 0)"
  let ?v1 = "\<lparr>vn_hash = ?h, vn_shard_id = s1, vn_index = 0\<rparr>"
  let ?v2 = "\<lparr>vn_hash = ?h, vn_shard_id = s2, vn_index = 0\<rparr>"
  define r1 where "r1 = \<lparr>ring_nodes = [(?h, ?v1)], ring_shard_nodes = [(s1, [?v1])],
      ring_vnode_counts = [(s1, 1)]\<rparr>"
  define r2 where "r2 = \<lparr>ring_nodes = [(?h, ?v2)], ring_shard_nodes = [(s1, [?v1]), (s2, [?v2])],
      ring_vnode_counts = [(s1, 1), (s2, 1)]\<rparr>"
  define r3 where "r3 = \<lparr>ring_nodes = [], ring_shard_nodes = [(s1, [?v1])], ring_vnode_counts = [(s1, 1)]\<rparr>"
  have "ring_add_shard H ring_new s1 1 = Inr r1"
    by (simp add: ring_add_shard_def ring_new_def add_vnode_def r1_def Let_def)
  moreover have "ring_add_shard H r1 s2 1 = Inr r2"
    using assms by (simp add: ring_add_shard_def add_vnode_def r1_def r2_def Let_def)
  moreover have "ring_find_shard r2 h = Some s2"
    by (simp add: ring_find_shard_def r2_def bt_from_def)
  moreover have "shard_list r2 s1 = [?v1]" "shard_list r3 s1 = [?v1]"
    by (simp_all add: shard_list_def r2_def r3_def)
  moreover have "bt_get (ring_nodes r2) ?h = Some ?v2" by (simp add: r2_def)
  moreover have "ring_remove_shard r2 s2 = Inr (r3, [?v2])"
    using assms(1) by (simp add: ring_remove_shard_def r2_def r3_def bt_remove_def)
  moreover have "ring_find_shard r3 h = None" by (simp add: ring_find_shard_def r3_def)
  ultimately show ?thesis using assms(1) ring_invD(5) [of r2 ?v1 s1] by fastforce
qed

section \<open>Adding a group of shards\<close>

text \<open>
  A ring is rebuilt by adding shards one after the other. The set of shards of the result never
  depends on hashes; without collisions its nodes do not depend on the order either.
\<close>

fun add_shards :: "hasher \<Rightarrow> u32 \<Rightarrow> shard_id list \<Rightarrow> ring \<Rightarrow> ring_error + ring" where
  "add_shards H n [] r = Inr r"
| "add_shards H n (s # ss) r = try_bind (ring_add_shard H r s n) (add_shards H n ss)"

abbreviation ring_shards :: "ring \<Rightarrow> shard_id set" where
  "ring_shards r \<equiv> dom (map_of (ring_shard_nodes r))"

lemma ring_add_shard_shards:
  "ring_add_shard H r s n = Inr r' \<Longrightarrow> ring_shards r' = insert s (ring_shards r)"
  by (auto simp: ring_add_shard_def hm_get_update dom_def split: if_splits prod.splits)

lemma ring_add_shard_ok: "is_ok (ring_add_shard H r s n) \<longleftrightarrow> s \<notin> ring_shards r"
  by (auto simp: ring_add_shard_def split: prod.splits)

lemma add_shards_ok:
  assumes "distinct ss" "set ss \<inter> ring_shards r = {}"
  shows "\<exists>r'. add_shards H n ss r = Inr r' \<and> ring_shards r' = set ss \<union> ring_shards r"
  using assms
proof (induction ss arbitrary: r)
  case (Cons s ss)
  then have "s \<notin> ring_shards r" by auto
  then obtain r1 where r1: "ring_add_shard H r s n = Inr r1"
    using ring_add_shard_ok [of H r s n] unfolding is_ok_conv by blast
  note shards = ring_add_shard_shards [OF r1]
  have "set ss \<inter> ring_shards r1 = {}" using Cons.prems unfolding shards by auto
  then obtain r' where "add_shards H n ss r1 = Inr r'" "ring_shards r' = set ss \<union> ring_shards r1"
    using Cons.IH [of r1] Cons.prems(1) by auto
  then show ?case unfolding shards using r1 by simp
qed simp

definition vnode_at :: "hasher \<Rightarrow> shard_id \<Rightarrow> nat \<Rightarrow> virtual_node" where
  "vnode_at H s i = \<lparr>vn_hash = H (vnode_key s i), vn_shard_id = s, vn_index = of_nat i\<rparr>"

lemma option_eqI: "(\<And>v. a = Some v \<longleftrightarrow> b = Some v) \<Longrightarrow> a = b"
  by (cases a; cases b) auto

text \<open>No two of the first keys of these shards collide.\<close>

definition no_collisions :: "hasher \<Rightarrow> u32 \<Rightarrow> shard_id set \<Rightarrow> bool" where
  "no_collisions H n S \<longleftrightarrow> inj_on (\<lambda>(s, i). H (vnode_key s i)) (S \<times> {0..<unat n})"

lemma no_collisionsD:
  "no_collisions H n S \<Longrightarrow> H (vnode_key s i) = H (vnode_key t j) \<Longrightarrow>
   s \<in> S \<Longrightarrow> t \<in> S \<Longrightarrow> i < unat n \<Longrightarrow> j < unat n \<Longrightarrow> s = t \<and> i = j"
  unfolding no_collisions_def by (drule inj_onD [where x = "(s, i)" and y = "(t, j)"]) auto

lemma add_vnodes_free:
  assumes "distinct (map (\<lambda>i. H (vnode_key s i)) is)"
    and "\<forall>i \<in> set is. bt_get nodes (H (vnode_key s i)) = None"
  shows "slots_free H s is nodes \<and>
    fold (add_vnode H s) is (nodes, vs) =
      (fold put_node (map (vnode_at H s) is) nodes, vs @ map (vnode_at H s) is)"
  using assms
proof (induction "is" arbitrary: nodes vs)
  case (Cons i "is")
  have slot: "vnode_slot H s i nodes = H (vnode_key s i)" "slot_node H s i nodes = vnode_at H s i"
    using Cons.prems(2) by (simp_all add: vnode_slot_def slot_node_def vnode_at_def)
  have "\<forall>j \<in> set is. bt_get (put_node (vnode_at H s i) nodes) (H (vnode_key s j)) = None"
    using Cons.prems by (fastforce simp: bt_get_insert vnode_at_def image_iff)
  then show ?case
    using Cons.IH [of "put_node (vnode_at H s i) nodes" "vs @ [vnode_at H s i]"] Cons.prems
    by (simp add: add_vnode_eq slot vnode_at_def)
qed simp

lemma ring_add_shard_free:
  assumes wf: "bt_wf (ring_nodes r)" and nc: "no_collisions H n S" and s: "s \<in> S" "s \<notin> ring_shards r"
    and fresh: "\<forall>i < unat n. bt_get (ring_nodes r) (H (vnode_key s i)) = None"
  shows "slots_free H s [0..<unat n] (ring_nodes r) \<and>
    (\<exists>r'. ring_add_shard H r s n = Inr r' \<and> bt_wf (ring_nodes r') \<and>
      (\<forall>k v. bt_get (ring_nodes r') k = Some v \<longleftrightarrow>
        bt_get (ring_nodes r) k = Some v \<or> (\<exists>i < unat n. v = vnode_at H s i \<and> k = vn_hash v)))"
proof -
  let ?new = "map (vnode_at H s) [0..<unat n]"
  have dist: "distinct (map (\<lambda>i. H (vnode_key s i)) [0..<unat n])"
    using no_collisionsD [OF nc _ s(1) s(1)] by (auto simp: distinct_map inj_on_def)
  have hashes: "map vn_hash ?new = map (\<lambda>i. H (vnode_key s i)) [0..<unat n]"
    by (simp add: vnode_at_def)
  note free = add_vnodes_free [OF dist, of "ring_nodes r" "[]"]
  have *: "slots_free H s [0..<unat n] (ring_nodes r)"
    "fold (add_vnode H s) [0..<unat n] (ring_nodes r, []) = (fold put_node ?new (ring_nodes r), ?new)"
    using free fresh by auto
  let ?r' = "r\<lparr>ring_nodes := fold put_node ?new (ring_nodes r),
      ring_shard_nodes := AList.update s ?new (ring_shard_nodes r),
      ring_vnode_counts := AList.update s n (ring_vnode_counts r)\<rparr>"
  have ok: "ring_add_shard H r s n = Inr ?r'"
    using s(2) *(2) by (auto simp: ring_add_shard_def domIff)
  have wf': "bt_wf (ring_nodes ?r')" using bt.wf_fold_ins [OF wf] by simp
  have get: "bt_get (ring_nodes ?r') k = Some v \<longleftrightarrow>
        bt_get (ring_nodes r) k = Some v \<or> (\<exists>i < unat n. v = vnode_at H s i \<and> k = vn_hash v)" for k v
  proof
    assume "bt_get (ring_nodes ?r') k = Some v"
    then have "(v \<in> set ?new \<and> vn_hash v = k) \<or> bt_get (ring_nodes r) k = Some v"
      using put_nodes_get_Some [OF wf dist [folded hashes], of k v] by simp
    then show "bt_get (ring_nodes r) k = Some v \<or> (\<exists>i < unat n. v = vnode_at H s i \<and> k = vn_hash v)"
      by auto
  next
    assume "bt_get (ring_nodes r) k = Some v \<or> (\<exists>i < unat n. v = vnode_at H s i \<and> k = vn_hash v)"
    then consider "bt_get (ring_nodes r) k = Some v" "k \<notin> vn_hash ` set ?new"
      | "v \<in> set ?new" "k = vn_hash v"
      using fresh by (fastforce simp: vnode_at_def)
    then show "bt_get (ring_nodes ?r') k = Some v"
    proof cases
      case 1
      then show ?thesis using bt.get_fold_ins_other [OF wf 1(2), of "\<lambda>v. v"] by simp
    next
      case 2
      then show ?thesis using bt.get_fold_ins_mem [OF wf dist [folded hashes] 2(1), of "\<lambda>v. v"] by simp
    qed
  qed
  show ?thesis using * ok wf' get by blast
qed

lemma add_shards_nodes:
  assumes "bt_wf (ring_nodes r)" "ring_inv r" "no_collisions H n S" "set ss \<subseteq> S" "distinct ss"
    and "set ss \<inter> ring_shards r = {}"
    and "\<forall>s \<in> set ss. \<forall>i < unat n. bt_get (ring_nodes r) (H (vnode_key s i)) = None"
  shows "\<exists>r'. add_shards H n ss r = Inr r' \<and> ring_inv r' \<and>
    (\<forall>k v. bt_get (ring_nodes r') k = Some v \<longleftrightarrow>
       bt_get (ring_nodes r) k = Some v \<or>
       (\<exists>s \<in> set ss. \<exists>i < unat n. v = vnode_at H s i \<and> k = vn_hash v))"
  using assms
proof (induction ss arbitrary: r)
  case (Cons s ss)
  have s: "s \<in> S" "s \<notin> ring_shards r" "s \<notin> set ss" using Cons.prems(4-6) by auto
  have fresh: "\<forall>i < unat n. bt_get (ring_nodes r) (H (vnode_key s i)) = None" using Cons.prems(7) by simp
  obtain r1 where r1: "ring_add_shard H r s n = Inr r1" "bt_wf (ring_nodes r1)"
      "slots_free H s [0..<unat n] (ring_nodes r)"
      "\<forall>k v. bt_get (ring_nodes r1) k = Some v \<longleftrightarrow>
        bt_get (ring_nodes r) k = Some v \<or> (\<exists>i < unat n. v = vnode_at H s i \<and> k = vn_hash v)"
    using ring_add_shard_free [OF Cons.prems(1,3) s(1,2) fresh] by blast
  have sub: "set ss \<subseteq> S" "distinct ss" "set ss \<inter> ring_shards r1 = {}"
    using Cons.prems(4-6) s(3) unfolding ring_add_shard_shards [OF r1(1)] by auto
  have "bt_get (ring_nodes r1) (H (vnode_key t i)) = None" if ti: "t \<in> set ss" "i < unat n" for t i
  proof (rule ccontr)
    assume "bt_get (ring_nodes r1) (H (vnode_key t i)) \<noteq> None"
    then obtain v where "bt_get (ring_nodes r1) (H (vnode_key t i)) = Some v" by blast
    then obtain j where j: "j < unat n" "H (vnode_key t i) = H (vnode_key s j)"
      using r1(4) Cons.prems(7) ti by (auto simp: vnode_at_def)
    then have "t = s" using no_collisionsD [OF Cons.prems(3) j(2) _ s(1) ti(2) j(1)] sub(1) ti(1) by blast
    then show False using s(3) ti(1) by blast
  qed
  then obtain r' where r': "add_shards H n ss r1 = Inr r'" "ring_inv r'"
      "\<forall>k v. bt_get (ring_nodes r') k = Some v \<longleftrightarrow> bt_get (ring_nodes r1) k = Some v \<or>
       (\<exists>s \<in> set ss. \<exists>i < unat n. v = vnode_at H s i \<and> k = vn_hash v)"
    using Cons.IH [OF r1(2) ring_inv_add [OF Cons.prems(2) r1(3,1)] Cons.prems(3) sub] by blast
  show ?case
  proof (intro exI [of _ r'] conjI allI)
    show "add_shards H n (s # ss) r = Inr r'" using r1(1) r'(1) by simp
    show "bt_get (ring_nodes r') k = Some v \<longleftrightarrow> bt_get (ring_nodes r) k = Some v \<or>
       (\<exists>s \<in> set (s # ss). \<exists>i < unat n. v = vnode_at H s i \<and> k = vn_hash v)" for k v
      using r'(3) r1(4) by auto
  qed (rule r'(2))
qed auto

lemma add_shards_order:
  assumes "no_collisions H n S" "set ss = S" "set ss' = S" "distinct ss" "distinct ss'"
  shows "\<exists>r1 r2. add_shards H n ss ring_new = Inr r1 \<and> add_shards H n ss' ring_new = Inr r2 \<and>
    ring_inv r1 \<and> ring_inv r2 \<and> ring_nodes r1 = ring_nodes r2"
proof -
  have e: "ring_nodes ring_new = []" "ring_shards ring_new = {}" by (simp_all add: ring_new_def)
  have one: "\<exists>r'. add_shards H n ts ring_new = Inr r' \<and> ring_inv r' \<and>
      (\<forall>k v. bt_get (ring_nodes r') k = Some v \<longleftrightarrow>
        (\<exists>s \<in> S. \<exists>i < unat n. v = vnode_at H s i \<and> k = vn_hash v))" if "set ts = S" "distinct ts" for ts
    using add_shards_nodes [of ring_new H n S ts] assms(1) that ring_inv_new by (simp add: e)
  obtain r1 where r1: "add_shards H n ss ring_new = Inr r1" "ring_inv r1"
      "\<forall>k v. bt_get (ring_nodes r1) k = Some v \<longleftrightarrow> (\<exists>s \<in> S. \<exists>i < unat n. v = vnode_at H s i \<and> k = vn_hash v)"
    using one [OF assms(2,4)] by (elim exE conjE)
  obtain r2 where r2: "add_shards H n ss' ring_new = Inr r2" "ring_inv r2"
      "\<forall>k v. bt_get (ring_nodes r2) k = Some v \<longleftrightarrow> (\<exists>s \<in> S. \<exists>i < unat n. v = vnode_at H s i \<and> k = vn_hash v)"
    using one [OF assms(3,5)] by (elim exE conjE)
  have "bt_get (ring_nodes r1) k = bt_get (ring_nodes r2) k" for k
    by (rule option_eqI) (simp add: r1(3) r2(3))
  then have "ring_nodes r1 = ring_nodes r2"
    by (rule bt_eqI [OF ring_invD(1) [OF r1(2)] ring_invD(1) [OF r2(2)]])
  then show ?thesis using r1(1,2) r2(1,2) by blast
qed

section \<open>Witnesses\<close>

text \<open>A concrete hasher and a ring of two shards with two virtual nodes each.\<close>

definition poly_hash :: hasher where
  "poly_hash cs = foldl (\<lambda>a c. a * 31 + of_nat (of_char c)) 7 cs"

definition demo_add :: "ring \<Rightarrow> shard_id \<Rightarrow> u32 \<Rightarrow> ring" where
  "demo_add r s n = (case ring_add_shard poly_hash r s n of Inr r' \<Rightarrow> r' | Inl _ \<Rightarrow> r)"

definition demo_ring :: ring where
  "demo_ring = demo_add (demo_add ring_new (ShardId 1) 2) (ShardId 2) 2"

lemma demo_adds:
  "slots_free poly_hash (ShardId 1) [0..<unat (2 :: u32)] (ring_nodes ring_new)"
  "ring_add_shard poly_hash ring_new (ShardId 1) 2 = Inr (demo_add ring_new (ShardId 1) 2)"
  "slots_free poly_hash (ShardId 2) [0..<unat (2 :: u32)] (ring_nodes (demo_add ring_new (ShardId 1) 2))"
  "ring_add_shard poly_hash (demo_add ring_new (ShardId 1) 2) (ShardId 2) 2 = Inr demo_ring"
  by code_simp+

lemma demo_ring_reachable: "ring_reachable poly_hash demo_ring"
  by (rule reach_add [OF reach_add [OF reach_new demo_adds(2)] demo_adds(4)])

lemma demo_ring_apart: "built_apart poly_hash demo_ring"
  by (rule apart_add [OF apart_add [OF apart_new demo_adds(1,2)] demo_adds(3,4)])

lemma demo_ring_inv: "ring_inv demo_ring" "ring_inv (demo_add ring_new (ShardId 1) 2)"
  by (rule built_apart_inv [OF demo_ring_apart])
    (rule ring_inv_add [OF ring_inv_new demo_adds(1,2)])

theorem ring_routes_to_owner_witness:
  "\<exists>s k v. ring_find_shard demo_ring 5 = Some s \<and> ring_owner (ring_nodes demo_ring) 5 k \<and>
     bt_get (ring_nodes demo_ring) k = Some v \<and> vn_shard_id v = s"
proof -
  have "\<not> ring_is_empty demo_ring" by code_simp
  then obtain s where "ring_find_shard demo_ring 5 = Some s"
    using ring_routes_to_owner [OF demo_ring_reachable, of 5] by blast
  then show ?thesis using ring_routes_to_owner [OF demo_ring_reachable, of 5 s] by blast
qed

theorem remove_shard_minimal_disruption_witness:
  "\<exists>r' vs. ring_remove_shard demo_ring (ShardId 1) = Inr (r', vs) \<and> length vs = 2 \<and>
     (\<forall>h. ring_find_shard r' h \<noteq> Some (ShardId 1)) \<and>
     (\<forall>h. ring_find_shard demo_ring h = Some (ShardId 2) \<longrightarrow> ring_find_shard r' h = Some (ShardId 2))"
proof -
  have "case ring_remove_shard demo_ring (ShardId 1) of Inl _ \<Rightarrow> False | Inr (r', vs) \<Rightarrow> length vs = 2"
    by code_simp
  then obtain r' vs where r': "ring_remove_shard demo_ring (ShardId 1) = Inr (r', vs)" "length vs = 2"
    by (auto split: sum.splits)
  then show ?thesis using remove_shard_minimal_disruption [OF demo_ring_reachable r'(1)] demo_ring_apart by auto
qed

lemma add_shard_minimal_disruption_witness:
  "ring_find_shard demo_ring 5 = Some (ShardId 2) \<or>
   ring_find_shard demo_ring 5 = ring_find_shard (demo_add ring_new (ShardId 1) 2) 5"
  by (rule add_shard_minimal_disruption [OF demo_ring_inv(2) demo_adds(3,4)])

lemma reassign_moves_one_arc_witness:
  "\<exists>k r'. ring_reassign demo_ring k (ShardId 9) = Inr r' \<and> ring_find_shard r' k = Some (ShardId 9)"
proof -
  define k where "k = fst (hd (ring_nodes demo_ring))"
  have "case ring_reassign demo_ring k (ShardId 9) of Inl _ \<Rightarrow> False | Inr _ \<Rightarrow> True"
    unfolding k_def by code_simp
  then obtain r' where r': "ring_reassign demo_ring k (ShardId 9) = Inr r'"
    by (auto split: sum.splits)
  have "k \<in> fst ` set (ring_nodes demo_ring)" unfolding k_def by code_simp
  then have "ring_owner (ring_nodes demo_ring) k k" by (auto simp: ring_owner_def)
  then show ?thesis using reassign_moves_one_arc [OF demo_ring_inv(1) r', of k] r' by auto
qed

lemma replicas_distinct_and_complete_witness:
  "length (ring_find_replicas demo_ring 5 3) = 2 \<and> distinct (ring_find_replicas demo_ring 5 3)"
proof -
  have "\<not> ring_is_empty demo_ring" "card (shards_of (ring_nodes demo_ring)) = 2" by code_simp+
  then show ?thesis
    using replicas_distinct_and_complete [OF demo_ring_inv(1), of 5 3] by auto
qed

lemma retry_collision_loses_shard_witness:
  "\<exists>r1 r2. ring_add_shard (\<lambda>_. 7) ring_new (ShardId 1) 1 = Inr r1 \<and>
     ring_add_shard (\<lambda>_. 7) r1 (ShardId 2) 1 = Inr r2 \<and> \<not> ring_inv r2"
  using retry_collision_loses_shard [of "ShardId 1" "ShardId 2" "\<lambda>_. 7" 0] by auto

end
