(* ===== verification/CoordSM.thy ===== *)
theory CoordSM
  imports ConsistentHash
begin

text \<open>
  Model of \<^verbatim>\<open>arcxa-coordinator/src/ha/state_machine.rs\<close>: the replicated state machine of the
  coordinator cluster. A handler that can fail returns the state it leaves behind together with its
  result, because an early return with \<^verbatim>\<open>?\<close> does not undo what was already written. The local
  clock (\<^verbatim>\<open>current_timestamp\<close>) is the argument \<open>now\<close>, the hasher of the ring is \<open>H\<close>. The
  progress of a migration is a whole percentage: the code stores \<^verbatim>\<open>0.0\<close> and \<^verbatim>\<open>100.0\<close> only.
\<close>

section \<open>Commands and state\<close>

datatype state_command =
    RegisterShard shard_metadata
  | UnregisterShard shard_id
  | UpdateShardStatus shard_id shard_status
  | UpdateHeartbeat shard_id u64
  | UpdateHashRing ring
  | StartMigration string shard_id shard_id "u64 list"
  | CompleteMigration string
  | AbortMigration string
  | UpdateConfig string string

datatype migration_status = Planning | InProgress | Verifying | Switching | Completed | Aborted | Failed

record migration_state =
  ms_id :: string
  ms_source_shard :: shard_id
  ms_target_shard :: shard_id
  ms_virtual_nodes :: "u64 list"
  ms_started_at :: u64
  ms_progress :: int
  ms_status :: migration_status

record state_machine =
  sm_shards :: "(shard_id, shard_metadata) hmap"
  sm_heartbeats :: "(shard_id, u64) hmap"
  sm_hash_ring :: "ring option"
  sm_migrations :: "(string, migration_state) hmap"
  sm_config :: "(string, string) hmap"
  sm_version :: u64

datatype sm_error =
    AlreadyRegistered shard_id
  | ShardNotFound shard_id
  | MigrationExists string
  | MigrationNotFound string
  | RingError ring_error

type_synonym sm_result = "state_machine \<times> (sm_error + unit)"

definition sm_new :: state_machine where
  "sm_new = \<lparr>sm_shards = [], sm_heartbeats = [], sm_hash_ring = None, sm_migrations = [],
             sm_config = [], sm_version = 0\<rparr>"

section \<open>Handlers\<close>

text \<open>The loop over the shards: the first failing \<^verbatim>\<open>add_shard\<close> leaves the ring half built.\<close>

fun rebuild_loop :: "hasher \<Rightarrow> shard_metadata list \<Rightarrow> ring \<Rightarrow> ring \<times> (sm_error + unit)" where
  "rebuild_loop H [] r = (r, Inr ())"
| "rebuild_loop H (m # ms) r =
     (if sm_status m = Active
      then case ring_add_shard H r (sm_shard_id m) 150 of
             Inl e \<Rightarrow> (r, Inl (RingError e))
           | Inr r' \<Rightarrow> rebuild_loop H ms r'
      else rebuild_loop H ms r)"

definition rebuild_hash_ring :: "hasher \<Rightarrow> state_machine \<Rightarrow> sm_result" where
  "rebuild_hash_ring H sm =
     (case sm_hash_ring sm of
        None \<Rightarrow> (sm, Inr ())
      | Some r \<Rightarrow> let (r', res) = rebuild_loop H (map snd (sm_shards sm)) (ring_clear r)
                  in (sm\<lparr>sm_hash_ring := Some r'\<rparr>, res))"

definition register_shard :: "hasher \<Rightarrow> u64 \<Rightarrow> shard_metadata \<Rightarrow> state_machine \<Rightarrow> sm_result" where
  "register_shard H now shard sm =
     (let sid = sm_shard_id shard
      in if map_of (sm_shards sm) sid \<noteq> None then (sm, Inl (AlreadyRegistered sid))
         else let sm' = sm\<lparr>sm_shards := AList.update sid shard (sm_shards sm),
                           sm_heartbeats := AList.update sid now (sm_heartbeats sm)\<rparr>
              in if sm_hash_ring sm' \<noteq> None then rebuild_hash_ring H sm' else (sm', Inr ()))"

definition unregister_shard :: "hasher \<Rightarrow> shard_id \<Rightarrow> state_machine \<Rightarrow> sm_result" where
  "unregister_shard H sid sm =
     (case map_of (sm_shards sm) sid of
        None \<Rightarrow> (sm, Inl (ShardNotFound sid))
      | Some _ \<Rightarrow>
          let sm' = sm\<lparr>sm_shards := AList.delete sid (sm_shards sm),
                       sm_heartbeats := AList.delete sid (sm_heartbeats sm)\<rparr>
          in if sm_hash_ring sm' \<noteq> None then rebuild_hash_ring H sm' else (sm', Inr ()))"

definition update_shard_status :: "shard_id \<Rightarrow> shard_status \<Rightarrow> state_machine \<Rightarrow> sm_result" where
  "update_shard_status sid st sm =
     (case map_of (sm_shards sm) sid of
        None \<Rightarrow> (sm, Inl (ShardNotFound sid))
      | Some m \<Rightarrow> (sm\<lparr>sm_shards := AList.update sid (m\<lparr>sm_status := st\<rparr>) (sm_shards sm)\<rparr>, Inr ()))"

definition update_heartbeat :: "shard_id \<Rightarrow> u64 \<Rightarrow> state_machine \<Rightarrow> sm_result" where
  "update_heartbeat sid ts sm =
     (if map_of (sm_shards sm) sid = None then (sm, Inl (ShardNotFound sid))
      else (sm\<lparr>sm_heartbeats := AList.update sid ts (sm_heartbeats sm)\<rparr>, Inr ()))"

definition update_hash_ring :: "ring \<Rightarrow> state_machine \<Rightarrow> sm_result" where
  "update_hash_ring r sm = (sm\<lparr>sm_hash_ring := Some r\<rparr>, Inr ())"

definition start_migration ::
  "u64 \<Rightarrow> string \<Rightarrow> shard_id \<Rightarrow> shard_id \<Rightarrow> u64 list \<Rightarrow> state_machine \<Rightarrow> sm_result" where
  "start_migration now mid src tgt vnodes sm =
     (if map_of (sm_migrations sm) mid \<noteq> None then (sm, Inl (MigrationExists mid))
      else let m = \<lparr>ms_id = mid, ms_source_shard = src, ms_target_shard = tgt,
                    ms_virtual_nodes = vnodes, ms_started_at = now, ms_progress = 0,
                    ms_status = InProgress\<rparr>
           in (sm\<lparr>sm_migrations := AList.update mid m (sm_migrations sm)\<rparr>, Inr ()))"

text \<open>The loop over the virtual nodes stops at the first position that is not on the ring.\<close>

fun reassign_loop :: "u64 list \<Rightarrow> shard_id \<Rightarrow> ring \<Rightarrow> ring \<times> (sm_error + unit)" where
  "reassign_loop [] tgt r = (r, Inr ())"
| "reassign_loop (h # hs) tgt r =
     (case ring_reassign r h tgt of
        Inl e \<Rightarrow> (r, Inl (RingError e))
      | Inr r' \<Rightarrow> reassign_loop hs tgt r')"

definition complete_migration :: "string \<Rightarrow> state_machine \<Rightarrow> sm_result" where
  "complete_migration mid sm =
     (case map_of (sm_migrations sm) mid of
        None \<Rightarrow> (sm, Inl (MigrationNotFound mid))
      | Some m \<Rightarrow>
          let m' = m\<lparr>ms_status := Completed, ms_progress := 100\<rparr>;
              sm' = sm\<lparr>sm_migrations := AList.update mid m' (sm_migrations sm)\<rparr>
          in case sm_hash_ring sm' of
               None \<Rightarrow> (sm', Inr ())
             | Some r \<Rightarrow>
                 let (r', res) = reassign_loop (ms_virtual_nodes m') (ms_target_shard m') r
                 in (sm'\<lparr>sm_hash_ring := Some r'\<rparr>, res))"

definition abort_migration :: "string \<Rightarrow> state_machine \<Rightarrow> sm_result" where
  "abort_migration mid sm =
     (case map_of (sm_migrations sm) mid of
        None \<Rightarrow> (sm, Inl (MigrationNotFound mid))
      | Some m \<Rightarrow>
          (sm\<lparr>sm_migrations := AList.update mid (m\<lparr>ms_status := Aborted\<rparr>) (sm_migrations sm)\<rparr>, Inr ()))"

definition update_config :: "string \<Rightarrow> string \<Rightarrow> state_machine \<Rightarrow> sm_result" where
  "update_config k v sm = (sm\<lparr>sm_config := AList.update k v (sm_config sm)\<rparr>, Inr ())"

fun dispatch :: "hasher \<Rightarrow> u64 \<Rightarrow> state_command \<Rightarrow> state_machine \<Rightarrow> sm_result" where
  "dispatch H now (RegisterShard shard) sm = register_shard H now shard sm"
| "dispatch H now (UnregisterShard sid) sm = unregister_shard H sid sm"
| "dispatch H now (UpdateShardStatus sid st) sm = update_shard_status sid st sm"
| "dispatch H now (UpdateHeartbeat sid ts) sm = update_heartbeat sid ts sm"
| "dispatch H now (UpdateHashRing r) sm = update_hash_ring r sm"
| "dispatch H now (StartMigration mid src tgt vns) sm = start_migration now mid src tgt vns sm"
| "dispatch H now (CompleteMigration mid) sm = complete_migration mid sm"
| "dispatch H now (AbortMigration mid) sm = abort_migration mid sm"
| "dispatch H now (UpdateConfig k v) sm = update_config k v sm"

definition sm_apply :: "hasher \<Rightarrow> u64 \<Rightarrow> state_command \<Rightarrow> state_machine \<Rightarrow> sm_result" where
  "sm_apply H now c sm =
     (case dispatch H now c sm of
        (sm', Inl e) \<Rightarrow> (sm', Inl e)
      | (sm', Inr _) \<Rightarrow> (sm'\<lparr>sm_version := sm_version sm' + 1\<rparr>, Inr ()))"

section \<open>Getters and snapshots\<close>

definition get_shard :: "state_machine \<Rightarrow> shard_id \<Rightarrow> shard_metadata option" where
  "get_shard sm sid = map_of (sm_shards sm) sid"

definition get_heartbeat :: "state_machine \<Rightarrow> shard_id \<Rightarrow> u64 option" where
  "get_heartbeat sm sid = map_of (sm_heartbeats sm) sid"

definition get_config :: "state_machine \<Rightarrow> string \<Rightarrow> string option" where
  "get_config sm k = map_of (sm_config sm) k"

record state_snapshot =
  ss_shards :: "(shard_id, shard_metadata) hmap"
  ss_heartbeats :: "(shard_id, u64) hmap"
  ss_hash_ring :: "ring option"
  ss_migrations :: "(string, migration_state) hmap"
  ss_config :: "(string, string) hmap"
  ss_version :: u64

definition sm_snapshot :: "state_machine \<Rightarrow> state_snapshot" where
  "sm_snapshot sm = \<lparr>ss_shards = sm_shards sm, ss_heartbeats = sm_heartbeats sm,
     ss_hash_ring = sm_hash_ring sm, ss_migrations = sm_migrations sm, ss_config = sm_config sm,
     ss_version = sm_version sm\<rparr>"

definition sm_restore :: "state_snapshot \<Rightarrow> state_machine \<Rightarrow> state_machine" where
  "sm_restore s sm = sm\<lparr>sm_shards := ss_shards s, sm_heartbeats := ss_heartbeats s,
     sm_hash_ring := ss_hash_ring s, sm_migrations := ss_migrations s, sm_config := ss_config s,
     sm_version := ss_version s\<rparr>"

lemmas handler_defs [step_defs] = register_shard_def unregister_shard_def update_shard_status_def
  update_heartbeat_def update_hash_ring_def start_migration_def complete_migration_def
  abort_migration_def update_config_def

section \<open>Rebuilding the ring\<close>

abbreviation active_ids :: "state_machine \<Rightarrow> shard_id set" where
  "active_ids sm \<equiv> {sid. \<exists>m. map_of (sm_shards sm) sid = Some m \<and> sm_status m = Active}"

definition shards_keyed :: "state_machine \<Rightarrow> bool" where
  "shards_keyed sm \<longleftrightarrow> hm_wf (sm_shards sm) \<and> (\<forall>k m. map_of (sm_shards sm) k = Some m \<longrightarrow> sm_shard_id m = k)"

abbreviation active_list :: "shard_metadata list \<Rightarrow> shard_id list" where
  "active_list ms \<equiv> map sm_shard_id (filter (\<lambda>m. sm_status m = Active) ms)"

lemma rebuild_loop_add_shards:
  "add_shards H 150 (active_list ms) r = Inr r' \<Longrightarrow> rebuild_loop H ms r = (r', Inr ())"
  by (induction ms arbitrary: r) (auto simp: try_bind_Inr_conv)

lemma shards_keyed_map:
  assumes "shards_keyed sm"
  shows "map sm_shard_id (map snd (sm_shards sm)) = map fst (sm_shards sm)"
  using assms by (auto simp: shards_keyed_def hm_mem_get [symmetric])

lemma active_list_distinct:
  assumes "shards_keyed sm" shows "distinct (active_list (map snd (sm_shards sm)))"
  using assms distinct_map_filter [of sm_shard_id "map snd (sm_shards sm)"]
  by (simp only: shards_keyed_map [OF assms]) (simp add: shards_keyed_def hm_wf_def)

lemma active_list_set:
  assumes "shards_keyed sm" shows "set (active_list (map snd (sm_shards sm))) = active_ids sm"
proof (rule set_eqI)
  fix s
  have keyed: "map_of (sm_shards sm) k = Some m \<Longrightarrow> sm_shard_id m = k" for k m
    using assms unfolding shards_keyed_def by blast
  have mem: "m \<in> snd ` set (sm_shards sm) \<longleftrightarrow> (\<exists>k. map_of (sm_shards sm) k = Some m)" for m
    using assms hm_mem_get [of "sm_shards sm"] unfolding shards_keyed_def by force
  have "s \<in> set (active_list (map snd (sm_shards sm))) \<longleftrightarrow>
      (\<exists>m. m \<in> snd ` set (sm_shards sm) \<and> sm_status m = Active \<and> sm_shard_id m = s)" by auto
  also have "\<dots> \<longleftrightarrow> s \<in> active_ids sm" unfolding mem using keyed by blast
  finally show "s \<in> set (active_list (map snd (sm_shards sm))) \<longleftrightarrow> s \<in> active_ids sm" .
qed

lemma ring_clear_new: "ring_clear r = ring_new"
  by (simp add: ring_clear_def ring_new_def)

lemma rebuild_ok:
  assumes "shards_keyed sm" "sm_hash_ring sm = Some r"
  shows "\<exists>r'. rebuild_hash_ring H sm = (sm\<lparr>sm_hash_ring := Some r'\<rparr>, Inr ()) \<and>
    ring_shards r' = active_ids sm \<and>
    add_shards H 150 (active_list (map snd (sm_shards sm))) ring_new = Inr r'"
proof -
  obtain r' where r': "add_shards H 150 (active_list (map snd (sm_shards sm))) ring_new = Inr r'"
      "ring_shards r' = set (active_list (map snd (sm_shards sm)))"
    using add_shards_ok [OF active_list_distinct [OF assms(1)], of ring_new H 150]
    by (auto simp: ring_new_def)
  then show ?thesis
    using rebuild_loop_add_shards [OF r'(1)] assms(2) active_list_set [OF assms(1)]
    by (simp add: rebuild_hash_ring_def ring_clear_new)
qed

section \<open>Invariant\<close>

definition sm_inv :: "state_machine \<Rightarrow> bool" where
  "sm_inv sm \<longleftrightarrow> shards_keyed sm \<and> hm_wf (sm_heartbeats sm) \<and> hm_wf (sm_migrations sm) \<and>
     hm_wf (sm_config sm) \<and> dom (map_of (sm_heartbeats sm)) = dom (map_of (sm_shards sm)) \<and>
     (\<forall>k m. map_of (sm_migrations sm) k = Some m \<longrightarrow> ms_id m = k)"

lemma shards_keyed_cong: "sm_shards sm' = sm_shards sm \<Longrightarrow> shards_keyed sm' = shards_keyed sm"
  by (simp add: shards_keyed_def)

lemma sm_inv_ring: "sm_inv (sm\<lparr>sm_hash_ring := x\<rparr>) = sm_inv sm"
  by (simp add: sm_inv_def shards_keyed_def)

lemma sm_inv_version: "sm_inv (sm\<lparr>sm_version := x\<rparr>) = sm_inv sm"
  by (simp add: sm_inv_def shards_keyed_def)

lemma sm_inv_new: "sm_inv sm_new"
  by (simp add: sm_inv_def sm_new_def shards_keyed_def)

lemma sm_inv_put_shard:
  "sm_inv sm \<Longrightarrow> sm_shard_id m = sid \<Longrightarrow>
   sm_inv (sm\<lparr>sm_shards := AList.update sid m (sm_shards sm),
             sm_heartbeats := AList.update sid now (sm_heartbeats sm)\<rparr>)"
  by (auto simp: sm_inv_def shards_keyed_def hm_get_update dom_def set_eq_iff split: if_splits)

lemma sm_inv_drop_shard:
  "sm_inv sm \<Longrightarrow> sm_inv (sm\<lparr>sm_shards := AList.delete sid (sm_shards sm),
             sm_heartbeats := AList.delete sid (sm_heartbeats sm)\<rparr>)"
  by (auto simp: sm_inv_def shards_keyed_def hm_get_delete dom_def set_eq_iff split: if_splits)

lemma sm_inv_keep_shards:
  "sm_inv sm \<Longrightarrow> map_of (sm_shards sm) sid = Some m \<Longrightarrow>
     sm_inv (sm\<lparr>sm_shards := AList.update sid (m\<lparr>sm_status := st\<rparr>) (sm_shards sm)\<rparr>)"
  "sm_inv sm \<Longrightarrow> map_of (sm_shards sm) sid \<noteq> None \<Longrightarrow>
     sm_inv (sm\<lparr>sm_heartbeats := AList.update sid ts (sm_heartbeats sm)\<rparr>)"
  by (auto simp: sm_inv_def shards_keyed_def hm_get_update dom_def set_eq_iff split: if_splits)

lemma sm_inv_migration:
  "sm_inv sm \<Longrightarrow> ms_id m = mid \<Longrightarrow>
   sm_inv (sm\<lparr>sm_migrations := AList.update mid m (sm_migrations sm)\<rparr>)"
  by (auto simp: sm_inv_def shards_keyed_def hm_get_update)

lemma sm_inv_config: "sm_inv sm \<Longrightarrow> sm_inv (sm\<lparr>sm_config := AList.update k v (sm_config sm)\<rparr>)"
  by (auto simp: sm_inv_def shards_keyed_def)

lemma sm_inv_keyed: "sm_inv sm \<Longrightarrow> shards_keyed sm"
  by (simp add: sm_inv_def)

lemmas sm_inv_intros [inv_intros] = sm_inv_put_shard sm_inv_drop_shard sm_inv_keep_shards sm_inv_migration
  sm_inv_config

text \<open>What the handlers that touch the set of shards do on a state that satisfies the invariant.\<close>

lemma rebuild_inv:
  assumes "sm_inv sm"
  obtains r where "rebuild_hash_ring H sm = (sm\<lparr>sm_hash_ring := r\<rparr>, Inr ())"
    "r = None \<longleftrightarrow> sm_hash_ring sm = None" "\<forall>x. r = Some x \<longrightarrow> ring_shards x = active_ids sm"
proof (cases "sm_hash_ring sm")
  case None
  then show thesis using that [of None] by (simp add: rebuild_hash_ring_def)
next
  case (Some x)
  obtain r' where "rebuild_hash_ring H sm = (sm\<lparr>sm_hash_ring := Some r'\<rparr>, Inr ())"
      "ring_shards r' = active_ids sm"
    using rebuild_ok [OF sm_inv_keyed [OF assms] Some] by blast
  then show thesis using that [of "Some r'"] Some by simp
qed

lemma register_ok:
  assumes "sm_inv sm" "map_of (sm_shards sm) (sm_shard_id m) = None"
  obtains r where "register_shard H now m sm =
      (sm\<lparr>sm_shards := AList.update (sm_shard_id m) m (sm_shards sm),
         sm_heartbeats := AList.update (sm_shard_id m) now (sm_heartbeats sm), sm_hash_ring := r\<rparr>, Inr ())"
    "r = None \<longleftrightarrow> sm_hash_ring sm = None"
    "\<forall>x. r = Some x \<longrightarrow> ring_shards x = active_ids (fst (register_shard H now m sm))"
proof -
  let ?sm = "sm\<lparr>sm_shards := AList.update (sm_shard_id m) m (sm_shards sm),
      sm_heartbeats := AList.update (sm_shard_id m) now (sm_heartbeats sm)\<rparr>"
  obtain r where r: "rebuild_hash_ring H ?sm = (?sm\<lparr>sm_hash_ring := r\<rparr>, Inr ())"
      "r = None \<longleftrightarrow> sm_hash_ring ?sm = None" "\<forall>x. r = Some x \<longrightarrow> ring_shards x = active_ids ?sm"
    by (rule rebuild_inv [OF sm_inv_put_shard [OF assms(1) refl, of m now]])
  have "register_shard H now m sm = (?sm\<lparr>sm_hash_ring := r\<rparr>, Inr ())"
  proof (cases "sm_hash_ring sm")
    case None
    then show ?thesis using assms(2) r(2) by (simp add: register_shard_def Let_def)
  next
    case (Some x)
    then show ?thesis using assms(2) r(1) by (simp add: register_shard_def Let_def)
  qed
  then show thesis using that [of r] r(2,3) by simp
qed

lemma unregister_ok:
  assumes "sm_inv sm" "map_of (sm_shards sm) sid \<noteq> None"
  obtains r where "unregister_shard H sid sm =
      (sm\<lparr>sm_shards := AList.delete sid (sm_shards sm),
         sm_heartbeats := AList.delete sid (sm_heartbeats sm), sm_hash_ring := r\<rparr>, Inr ())"
    "r = None \<longleftrightarrow> sm_hash_ring sm = None"
    "\<forall>x. r = Some x \<longrightarrow> ring_shards x = active_ids (fst (unregister_shard H sid sm))"
proof -
  let ?sm = "sm\<lparr>sm_shards := AList.delete sid (sm_shards sm),
      sm_heartbeats := AList.delete sid (sm_heartbeats sm)\<rparr>"
  obtain r where r: "rebuild_hash_ring H ?sm = (?sm\<lparr>sm_hash_ring := r\<rparr>, Inr ())"
      "r = None \<longleftrightarrow> sm_hash_ring ?sm = None" "\<forall>x. r = Some x \<longrightarrow> ring_shards x = active_ids ?sm"
    by (rule rebuild_inv [OF sm_inv_drop_shard [OF assms(1), of sid]])
  obtain m where m: "map_of (sm_shards sm) sid = Some m" using assms(2) by blast
  have "unregister_shard H sid sm = (?sm\<lparr>sm_hash_ring := r\<rparr>, Inr ())"
  proof (cases "sm_hash_ring sm")
    case None
    then show ?thesis using m r(2) by (simp add: unregister_shard_def Let_def)
  next
    case (Some x)
    then show ?thesis using m r(1) by (simp add: unregister_shard_def Let_def)
  qed
  then show thesis using that [of r] r(2,3) by simp
qed

lemma sm_inv_register: "sm_inv sm \<Longrightarrow> sm_inv (fst (register_shard H now m sm))"
proof (cases "map_of (sm_shards sm) (sm_shard_id m)")
  case None
  assume inv: "sm_inv sm"
  obtain r where "register_shard H now m sm =
      (sm\<lparr>sm_shards := AList.update (sm_shard_id m) m (sm_shards sm),
         sm_heartbeats := AList.update (sm_shard_id m) now (sm_heartbeats sm), sm_hash_ring := r\<rparr>, Inr ())"
    by (rule register_ok [OF inv None])
  then show ?thesis using sm_inv_put_shard [OF inv refl, of m now] by (simp add: sm_inv_ring)
qed (simp add: register_shard_def)

lemma sm_inv_unregister: "sm_inv sm \<Longrightarrow> sm_inv (fst (unregister_shard H sid sm))"
proof (cases "map_of (sm_shards sm) sid")
  case (Some m)
  assume inv: "sm_inv sm"
  obtain r where "unregister_shard H sid sm =
      (sm\<lparr>sm_shards := AList.delete sid (sm_shards sm),
         sm_heartbeats := AList.delete sid (sm_heartbeats sm), sm_hash_ring := r\<rparr>, Inr ())"
    using Some by (auto intro: unregister_ok [OF inv, of sid H])
  then show ?thesis using sm_inv_drop_shard [OF inv, of sid] by (simp add: sm_inv_ring)
qed (simp add: unregister_shard_def)

lemma sm_inv_complete:
  assumes "sm_inv sm" shows "sm_inv (fst (complete_migration mid sm))"
proof (cases "map_of (sm_migrations sm) mid")
  case None
  then show ?thesis using assms by (simp add: complete_migration_def)
next
  case (Some m)
  then have "ms_id (m\<lparr>ms_status := Completed, ms_progress := 100\<rparr>) = mid"
    using assms by (simp add: sm_inv_def)
  from sm_inv_migration [OF assms this] show ?thesis
    using Some by (simp add: complete_migration_def Let_def sm_inv_ring split: option.splits prod.splits)
qed

lemma sm_inv_dispatch:
  assumes "sm_inv sm" shows "sm_inv (fst (dispatch H now c sm))"
proof (cases c)
  case (UpdateShardStatus sid st)
  then show ?thesis using assms sm_inv_keep_shards(1) [OF assms]
    by (simp add: update_shard_status_def split: option.splits)
next
  case (UpdateHeartbeat sid ts)
  then show ?thesis using assms sm_inv_keep_shards(2) [OF assms]
    by (simp add: update_heartbeat_def)
next
  case (StartMigration mid src tgt vns)
  then show ?thesis using assms by (simp add: start_migration_def Let_def sm_inv_migration)
next
  case (AbortMigration mid)
  have "ms_id m = mid" if "map_of (sm_migrations sm) mid = Some m" for m
    using assms that by (simp add: sm_inv_def)
  then show ?thesis using AbortMigration assms
    by (simp add: abort_migration_def sm_inv_migration split: option.splits)
qed (use assms in \<open>simp_all add: sm_inv_register sm_inv_unregister sm_inv_complete sm_inv_config
      update_hash_ring_def update_config_def sm_inv_ring\<close>)

lemma sm_apply_fst: "fst (sm_apply H now c sm) =
    (if is_ok (snd (dispatch H now c sm))
     then (fst (dispatch H now c sm))\<lparr>sm_version := sm_version (fst (dispatch H now c sm)) + 1\<rparr>
     else fst (dispatch H now c sm))"
  by (cases "dispatch H now c sm"; cases "snd (dispatch H now c sm)") (simp_all add: sm_apply_def)

lemma sm_apply_snd: "snd (sm_apply H now c sm) = snd (dispatch H now c sm)"
  by (cases "dispatch H now c sm"; cases "snd (dispatch H now c sm)") (simp_all add: sm_apply_def)

lemma sm_inv_apply: "sm_inv sm \<Longrightarrow> sm_inv (fst (sm_apply H now c sm))"
  using sm_inv_dispatch [of sm H now c] by (simp add: sm_apply_fst sm_inv_version)

section \<open>Versions and failed commands\<close>

lemma dispatch_version: "sm_version (fst (dispatch H now c sm)) = sm_version sm"
  by (cases c) (simp_all add: step_defs rebuild_hash_ring_def Let_def split: option.splits prod.splits)

text \<open>The replicated log: each entry is applied under the local clock of the replica.\<close>

fun sm_run :: "hasher \<Rightarrow> (u64 \<times> state_command) list \<Rightarrow> state_machine \<Rightarrow> state_machine" where
  "sm_run H [] sm = sm"
| "sm_run H ((now, c) # log) sm = sm_run H log (fst (sm_apply H now c sm))"

fun ok_count :: "hasher \<Rightarrow> (u64 \<times> state_command) list \<Rightarrow> state_machine \<Rightarrow> nat" where
  "ok_count H [] sm = 0"
| "ok_count H ((now, c) # log) sm =
     (if is_ok (snd (sm_apply H now c sm)) then 1 else 0) + ok_count H log (fst (sm_apply H now c sm))"

lemma sm_inv_run: "sm_inv sm \<Longrightarrow> sm_inv (sm_run H log sm)"
  by (induction H log sm rule: sm_run.induct) (simp_all add: sm_inv_apply)

lemma sm_run_append: "sm_run H (xs @ ys) sm = sm_run H ys (sm_run H xs sm)"
  by (induction H xs sm rule: sm_run.induct) simp_all

text \<open>
  C4. Every state the log reaches satisfies the state machine's invariant: the maps have one entry
  per key, each shard and each migration is stored under its own identifier, exactly the registered
  shards have a heartbeat, and the version counts the commands that succeeded (modulo \<open>2\<^sup>6\<^sup>4\<close>).
\<close>

theorem sm_reachable_inv:
  "sm_inv (sm_run H log sm_new) \<and> sm_version (sm_run H log sm_new) = of_nat (ok_count H log sm_new)"
proof -
  have "sm_version (sm_run H log sm) = sm_version sm + of_nat (ok_count H log sm)" for sm
    by (induction H log sm rule: sm_run.induct)
      (simp_all add: sm_apply_fst sm_apply_snd dispatch_version)
  then show ?thesis using sm_inv_run [OF sm_inv_new] by (simp add: sm_new_def)
qed

lemma dispatch_error_unchanged:
  assumes inv: "sm_inv sm" and err: "snd (dispatch H now c sm) = Inl e" and c: "\<nexists>mid. c = CompleteMigration mid"
  shows "fst (dispatch H now c sm) = sm"
proof (cases c)
  case (RegisterShard m)
  have "map_of (sm_shards sm) (sm_shard_id m) \<noteq> None"
  proof
    assume "map_of (sm_shards sm) (sm_shard_id m) = None"
    then show False using err RegisterShard by (auto elim: register_ok [OF inv, of m H now])
  qed
  then show ?thesis using RegisterShard by (simp add: register_shard_def)
next
  case (UnregisterShard sid)
  have "map_of (sm_shards sm) sid = None"
  proof (rule ccontr)
    assume "map_of (sm_shards sm) sid \<noteq> None"
    from unregister_ok [OF inv this, of H] show False using err UnregisterShard by fastforce
  qed
  then show ?thesis using UnregisterShard by (simp add: unregister_shard_def)
qed (use err c in \<open>auto simp: step_defs Let_def split: option.splits if_splits\<close>)

text \<open>
  A command that fails changes nothing, with one exception: on any state the log reaches, when
  \<^verbatim>\<open>apply\<close> returns an error for a command other than \<^verbatim>\<open>CompleteMigration\<close>, the state machine is as it
  was. In particular rebuilding the ring never fails.
\<close>

lemma failed_command_changes_nothing:
  assumes "sm = sm_run H log sm_new" "snd (sm_apply H now c sm) = Inl e" "\<nexists>mid. c = CompleteMigration mid"
  shows "fst (sm_apply H now c sm) = sm"
proof -
  have "sm_inv sm" using sm_inv_run [OF sm_inv_new] assms(1) by simp
  then show ?thesis
    using dispatch_error_unchanged [of sm H now c e] assms(2,3) by (simp add: sm_apply_fst sm_apply_snd)
qed

section \<open>The ring follows registration, and only registration\<close>

text \<open>
  After a shard was registered or unregistered on a state with a ring, the shards on the ring are
  exactly the registered shards whose status is \<^verbatim>\<open>Active\<close>.
\<close>

lemma registration_rebuilds_ring:
  assumes "sm = sm_run H log sm_new" "sm_hash_ring sm \<noteq> None"
    and "c = RegisterShard m \<or> c = UnregisterShard sid"
    and "sm_apply H now c sm = (sm', Inr ())"
  shows "\<exists>r. sm_hash_ring sm' = Some r \<and> ring_shards r = active_ids sm'"
proof -
  have inv: "sm_inv sm" using sm_inv_run [OF sm_inv_new] assms(1) by simp
  have ok: "snd (dispatch H now c sm) = Inr ()" using assms(4) sm_apply_snd [of H now c sm] by simp
  have sm': "sm' = (fst (dispatch H now c sm))\<lparr>sm_version := sm_version sm + 1\<rparr>"
    using assms(4) sm_apply_fst [of H now c sm] ok by (simp add: dispatch_version)
  from assms(3) show ?thesis
  proof
    assume c: "c = RegisterShard m"
    have new: "map_of (sm_shards sm) (sm_shard_id m) = None"
      using ok c by (simp add: register_shard_def Let_def split: if_splits)
    obtain r where "register_shard H now m sm =
      (sm\<lparr>sm_shards := AList.update (sm_shard_id m) m (sm_shards sm),
         sm_heartbeats := AList.update (sm_shard_id m) now (sm_heartbeats sm), sm_hash_ring := r\<rparr>, Inr ())"
      "r = None \<longleftrightarrow> sm_hash_ring sm = None"
      "\<forall>x. r = Some x \<longrightarrow> ring_shards x = active_ids (fst (register_shard H now m sm))"
      by (rule register_ok [OF inv new])
    then show ?thesis using assms(2) c sm' by auto
  next
    assume c: "c = UnregisterShard sid"
    have old: "map_of (sm_shards sm) sid \<noteq> None"
      using ok c by (cases "map_of (sm_shards sm) sid") (simp_all add: unregister_shard_def)
    obtain r where "unregister_shard H sid sm =
      (sm\<lparr>sm_shards := AList.delete sid (sm_shards sm),
         sm_heartbeats := AList.delete sid (sm_heartbeats sm), sm_hash_ring := r\<rparr>, Inr ())"
      "r = None \<longleftrightarrow> sm_hash_ring sm = None"
      "\<forall>x. r = Some x \<longrightarrow> ring_shards x = active_ids (fst (unregister_shard H sid sm))"
      by (rule unregister_ok [OF inv old])
    then show ?thesis using assms(2) c sm' by auto
  qed
qed

text \<open>
  A status change never reaches the ring: when a shard is marked \<^verbatim>\<open>Down\<close> (or anything else), the
  ring is the one from before, so every key that was routed to the shard still is.
\<close>

lemma status_change_keeps_routing:
  assumes "map_of (sm_shards sm) sid \<noteq> None" "sm_hash_ring sm = Some r"
  shows "\<exists>sm' m. sm_apply H now (UpdateShardStatus sid st) sm = (sm', Inr ()) \<and>
           get_shard sm' sid = Some m \<and> sm_status m = st \<and> sm_hash_ring sm' = Some r"
  using assms by (auto simp: sm_apply_def update_shard_status_def get_shard_def hm_get_update)

section \<open>Migrations\<close>

lemma reassign_None: "bt_get (ring_nodes r) h = None \<Longrightarrow> ring_reassign r h t = Inl (VnodeMissing h)"
  by (simp add: ring_reassign_def)

lemma reassign_Some:
  "bt_get (ring_nodes r) h = Some v \<Longrightarrow>
   \<exists>r'. ring_reassign r h t = Inr r' \<and> ring_nodes r' = bt_insert h (v\<lparr>vn_shard_id := t\<rparr>) (ring_nodes r)"
  by (simp add: ring_reassign_def Let_def)

lemma reassign_loop_nodes:
  "reassign_loop hs t r = (r', res) \<Longrightarrow>
   \<exists>done rest. hs = done @ rest \<and> (res = Inr () \<longleftrightarrow> rest = []) \<and>
     (\<forall>e. res = Inl e \<longrightarrow> e = RingError (VnodeMissing (hd rest)) \<and> bt_get (ring_nodes r) (hd rest) = None) \<and>
     (\<forall>h. bt_get (ring_nodes r') h =
        map_option (\<lambda>v. if h \<in> set done then v\<lparr>vn_shard_id := t\<rparr> else v) (bt_get (ring_nodes r) h)) \<and>
     (\<forall>h \<in> set done. bt_get (ring_nodes r) h \<noteq> None)"
proof (induction hs arbitrary: r)
  case Nil
  then show ?case by (auto simp: option.map_ident)
next
  case (Cons h hs)
  show ?case
  proof (cases "bt_get (ring_nodes r) h")
    case None
    then have "r' = r" "res = Inl (RingError (VnodeMissing h))"
      using Cons.prems by (simp_all add: reassign_None)
    then show ?thesis using None
      by (intro exI [of _ "[]"] exI [of _ "h # hs"]) (auto simp: option.map_ident)
  next
    case (Some v)
    obtain r1 where r1: "ring_reassign r h t = Inr r1"
        "ring_nodes r1 = bt_insert h (v\<lparr>vn_shard_id := t\<rparr>) (ring_nodes r)"
      using reassign_Some [OF Some, of t] by blast
    have get: "bt_get (ring_nodes r1) k = (if k = h then Some (v\<lparr>vn_shard_id := t\<rparr>) else bt_get (ring_nodes r) k)" for k
      by (simp add: r1(2) bt_get_insert)
    have "reassign_loop hs t r1 = (r', res)" using Cons.prems r1(1) by simp
    from Cons.IH [OF this] obtain "done" rest where dr: "hs = done @ rest" "res = Inr () \<longleftrightarrow> rest = []"
      "\<forall>e. res = Inl e \<longrightarrow> e = RingError (VnodeMissing (hd rest)) \<and> bt_get (ring_nodes r1) (hd rest) = None"
      "\<forall>h. bt_get (ring_nodes r') h =
        map_option (\<lambda>v. if h \<in> set done then v\<lparr>vn_shard_id := t\<rparr> else v) (bt_get (ring_nodes r1) h)"
      "\<forall>h \<in> set done. bt_get (ring_nodes r1) h \<noteq> None" by blast
    show ?thesis
    proof (rule exI [of _ "h # done"], rule exI [of _ rest], intro conjI allI ballI)
      show "h # hs = (h # done) @ rest" "res = Inr () \<longleftrightarrow> rest = []" using dr(1,2) by simp_all
      show "res = Inl e \<longrightarrow> e = RingError (VnodeMissing (hd rest)) \<and> bt_get (ring_nodes r) (hd rest) = None" for e
        using dr(3) unfolding get by (auto split: if_splits)
      show "bt_get (ring_nodes r') k =
        map_option (\<lambda>v. if k \<in> set (h # done) then v\<lparr>vn_shard_id := t\<rparr> else v) (bt_get (ring_nodes r) k)" for k
        unfolding dr(4) [rule_format] get using Some by simp
      show "bt_get (ring_nodes r) k \<noteq> None" if "k \<in> set (h # done)" for k
        using that dr(5) Some unfolding get by (auto split: if_splits)
    qed
  qed
qed

lemma complete_migration_some:
  assumes "map_of (sm_migrations sm) mid = Some m" "sm_hash_ring sm = Some r"
    "reassign_loop (ms_virtual_nodes m) (ms_target_shard m) r = (r', res)"
  shows "complete_migration mid sm =
    (sm\<lparr>sm_migrations := AList.update mid (m\<lparr>ms_status := Completed, ms_progress := 100\<rparr>) (sm_migrations sm),
        sm_hash_ring := Some r'\<rparr>, res)"
  using assms by (simp add: complete_migration_def Let_def)

text \<open>
  Completing a migration: the command succeeds exactly when every listed virtual node is on the
  ring, and then each of them belongs to the target shard and no other node has changed. Otherwise
  it fails at the first missing node, with the nodes before it already moved, the migration already
  marked as completed, and the version not advanced.
\<close>

lemma complete_migration_outcome:
  assumes "map_of (sm_migrations sm) mid = Some m" "sm_hash_ring sm = Some r"
  shows "\<exists>sm' res r' done rest. sm_apply H now (CompleteMigration mid) sm = (sm', res) \<and>
    sm_hash_ring sm' = Some r' \<and> ms_virtual_nodes m = done @ rest \<and>
    map_of (sm_migrations sm') mid = Some (m\<lparr>ms_status := Completed, ms_progress := 100\<rparr>) \<and>
    (\<forall>h. bt_get (ring_nodes r') h = map_option
        (\<lambda>v. if h \<in> set done then v\<lparr>vn_shard_id := ms_target_shard m\<rparr> else v) (bt_get (ring_nodes r) h)) \<and>
    (\<forall>h \<in> set done. bt_get (ring_nodes r) h \<noteq> None) \<and>
    (if rest = [] then res = Inr () \<and> sm_version sm' = sm_version sm + 1
     else res = Inl (RingError (VnodeMissing (hd rest))) \<and> sm_version sm' = sm_version sm \<and>
          bt_get (ring_nodes r) (hd rest) = None)"
proof -
  obtain r' res where loop: "reassign_loop (ms_virtual_nodes m) (ms_target_shard m) r = (r', res)"
    by fastforce
  obtain "done" rest where dr: "ms_virtual_nodes m = done @ rest" "res = Inr () \<longleftrightarrow> rest = []"
      "\<forall>e. res = Inl e \<longrightarrow> e = RingError (VnodeMissing (hd rest)) \<and> bt_get (ring_nodes r) (hd rest) = None"
      "\<forall>h. bt_get (ring_nodes r') h = map_option
        (\<lambda>v. if h \<in> set done then v\<lparr>vn_shard_id := ms_target_shard m\<rparr> else v) (bt_get (ring_nodes r) h)"
      "\<forall>h \<in> set done. bt_get (ring_nodes r) h \<noteq> None"
    using reassign_loop_nodes [OF loop] by blast
  note cm = complete_migration_some [OF assms loop]
  define sm' where "sm' = fst (sm_apply H now (CompleteMigration mid) sm)"
  have res: "snd (sm_apply H now (CompleteMigration mid) sm) = res"
    by (simp add: sm_apply_snd cm)
  have s': "sm_hash_ring sm' = Some r'"
    "map_of (sm_migrations sm') mid = Some (m\<lparr>ms_status := Completed, ms_progress := 100\<rparr>)"
    "sm_version sm' = (if is_ok res then sm_version sm + 1 else sm_version sm)"
    by (simp_all add: sm'_def sm_apply_fst cm hm_get_update)
  have "if rest = [] then res = Inr () \<and> sm_version sm' = sm_version sm + 1
     else res = Inl (RingError (VnodeMissing (hd rest))) \<and> sm_version sm' = sm_version sm \<and>
          bt_get (ring_nodes r) (hd rest) = None"
    using dr(2,3) s'(3) by (cases res) auto
  moreover have "sm_apply H now (CompleteMigration mid) sm = (sm', res)"
    using res by (simp add: sm'_def prod_eq_iff)
  ultimately show ?thesis using s'(1,2) dr(1,4,5) by blast
qed

section \<open>Replicas agree\<close>

text \<open>
  Two replicas that applied the same log hold the same state up to what is local to each: the clock
  values in the heartbeats of registrations and in the start times of migrations, the iteration
  order of the hash maps, and the order of the per-shard lists of the ring.
\<close>

definition same_migration :: "migration_state option \<Rightarrow> migration_state option \<Rightarrow> bool" where
  "same_migration a b \<longleftrightarrow>
     map_option (\<lambda>m. m\<lparr>ms_started_at := 0\<rparr>) a = map_option (\<lambda>m. m\<lparr>ms_started_at := 0\<rparr>) b"

definition replica_equiv :: "state_machine \<Rightarrow> state_machine \<Rightarrow> bool" where
  "replica_equiv a b \<longleftrightarrow>
     map_of (sm_shards a) = map_of (sm_shards b) \<and>
     dom (map_of (sm_heartbeats a)) = dom (map_of (sm_heartbeats b)) \<and>
     map_option ring_nodes (sm_hash_ring a) = map_option ring_nodes (sm_hash_ring b) \<and>
     (\<forall>k. same_migration (map_of (sm_migrations a) k) (map_of (sm_migrations b) k)) \<and>
     map_of (sm_config a) = map_of (sm_config b) \<and>
     sm_version a = sm_version b"

lemma replica_equivD:
  assumes "replica_equiv a b"
  shows "map_of (sm_shards a) = map_of (sm_shards b)"
    and "dom (map_of (sm_heartbeats a)) = dom (map_of (sm_heartbeats b))"
    and "map_option ring_nodes (sm_hash_ring a) = map_option ring_nodes (sm_hash_ring b)"
    and "same_migration (map_of (sm_migrations a) k) (map_of (sm_migrations b) k)"
    and "map_of (sm_config a) = map_of (sm_config b)" and "sm_version a = sm_version b"
  using assms unfolding replica_equiv_def by blast+

lemma same_migration_cases:
  assumes "same_migration a b"
  obtains "a = None" "b = None"
  | m n where "a = Some m" "b = Some n" "m\<lparr>ms_started_at := 0\<rparr> = n\<lparr>ms_started_at := 0\<rparr>"
  using assms by (cases a; cases b) (auto simp: same_migration_def)

lemma started_at_eqD:
  assumes "m\<lparr>ms_started_at := 0\<rparr> = n\<lparr>ms_started_at := 0\<rparr>"
  shows "ms_id m = ms_id n" "ms_target_shard m = ms_target_shard n"
    "ms_virtual_nodes m = ms_virtual_nodes n" "ms_source_shard m = ms_source_shard n"
    "ms_progress m = ms_progress n" "ms_status m = ms_status n"
  using assms by (cases m; cases n; simp)+

lemma no_collisions_mono: "no_collisions H n S \<Longrightarrow> T \<subseteq> S \<Longrightarrow> no_collisions H n T"
  unfolding no_collisions_def by (rule inj_on_subset) auto

lemma rebuild_equiv:
  assumes inv: "sm_inv a" "sm_inv b" and shards: "map_of (sm_shards a) = map_of (sm_shards b)"
    and ring: "map_option ring_nodes (sm_hash_ring a) = map_option ring_nodes (sm_hash_ring b)"
    and nc: "no_collisions H 150 S" "dom (map_of (sm_shards a)) \<subseteq> S"
  obtains ra rb where "rebuild_hash_ring H a = (a\<lparr>sm_hash_ring := ra\<rparr>, Inr ())"
    "rebuild_hash_ring H b = (b\<lparr>sm_hash_ring := rb\<rparr>, Inr ())"
    "map_option ring_nodes ra = map_option ring_nodes rb"
proof (cases "sm_hash_ring a")
  case None
  then have "sm_hash_ring b = None" using ring by simp
  then show thesis using None that [of None None] by (simp add: rebuild_hash_ring_def)
next
  case (Some x)
  then obtain y where y: "sm_hash_ring b = Some y" using ring by (cases "sm_hash_ring b") auto
  note ka = sm_inv_keyed [OF inv(1)] and kb = sm_inv_keyed [OF inv(2)]
  obtain ra where ra: "rebuild_hash_ring H a = (a\<lparr>sm_hash_ring := Some ra\<rparr>, Inr ())"
      "add_shards H 150 (active_list (map snd (sm_shards a))) ring_new = Inr ra"
    using rebuild_ok [OF ka Some, of H] by blast
  obtain rb where rb: "rebuild_hash_ring H b = (b\<lparr>sm_hash_ring := Some rb\<rparr>, Inr ())"
      "add_shards H 150 (active_list (map snd (sm_shards b))) ring_new = Inr rb"
    using rebuild_ok [OF kb y, of H] by blast
  have "active_ids a \<subseteq> S" using nc(2) by blast
  from no_collisions_mono [OF nc(1) this] have nc': "no_collisions H 150 (active_ids a)" .
  have "set (active_list (map snd (sm_shards b))) = active_ids a"
    unfolding active_list_set [OF kb] shards ..
  from add_shards_order [OF nc' active_list_set [OF ka] this active_list_distinct [OF ka] active_list_distinct [OF kb]]
  have "ring_nodes ra = ring_nodes rb" using ra(2) rb(2) by auto
  then show thesis using that [OF ra(1) rb(1)] by simp
qed

lemma register_eq_rebuild:
  "map_of (sm_shards sm) (sm_shard_id m) = None \<Longrightarrow> register_shard H now m sm =
     rebuild_hash_ring H (sm\<lparr>sm_shards := AList.update (sm_shard_id m) m (sm_shards sm),
       sm_heartbeats := AList.update (sm_shard_id m) now (sm_heartbeats sm)\<rparr>)"
  by (cases "sm_hash_ring sm") (simp_all add: register_shard_def rebuild_hash_ring_def Let_def)

lemma unregister_eq_rebuild:
  "map_of (sm_shards sm) sid = Some m \<Longrightarrow> unregister_shard H sid sm =
     rebuild_hash_ring H (sm\<lparr>sm_shards := AList.delete sid (sm_shards sm),
       sm_heartbeats := AList.delete sid (sm_heartbeats sm)\<rparr>)"
  by (cases "sm_hash_ring sm") (simp_all add: unregister_shard_def rebuild_hash_ring_def Let_def)

definition agree :: "sm_result \<Rightarrow> sm_result \<Rightarrow> bool" where
  "agree x y \<longleftrightarrow> replica_equiv (fst x) (fst y) \<and> snd x = snd y"

lemma rebuild_agree:
  assumes "sm_inv a" "sm_inv b" "replica_equiv a b" "no_collisions H 150 S" "dom (map_of (sm_shards a)) \<subseteq> S"
  shows "agree (rebuild_hash_ring H a) (rebuild_hash_ring H b)"
proof -
  obtain ra rb where "rebuild_hash_ring H a = (a\<lparr>sm_hash_ring := ra\<rparr>, Inr ())"
    "rebuild_hash_ring H b = (b\<lparr>sm_hash_ring := rb\<rparr>, Inr ())"
    "map_option ring_nodes ra = map_option ring_nodes rb"
    by (rule rebuild_equiv [OF assms(1,2) replica_equivD(1,3) [OF assms(3)] assms(4,5)])
  then show ?thesis using assms(3) by (simp add: agree_def replica_equiv_def)
qed

lemma register_agree:
  assumes "sm_inv a" "sm_inv b" "replica_equiv a b" "no_collisions H 150 S"
    "dom (map_of (sm_shards a)) \<subseteq> S" "sm_shard_id m \<in> S"
  shows "agree (register_shard H t m a) (register_shard H u m b)"
proof (cases "map_of (sm_shards a) (sm_shard_id m)")
  case None
  then have None': "map_of (sm_shards b) (sm_shard_id m) = None" using replica_equivD(1) [OF assms(3)] by simp
  let ?put = "\<lambda>now sm. sm\<lparr>sm_shards := AList.update (sm_shard_id m) m (sm_shards sm),
       sm_heartbeats := AList.update (sm_shard_id m) now (sm_heartbeats sm)\<rparr>"
  have "replica_equiv (?put t a) (?put u b)"
    using assms(3) by (auto simp: replica_equiv_def hm_get_update fun_eq_iff dom_def set_eq_iff)
  moreover have "dom (map_of (sm_shards (?put t a))) \<subseteq> S"
    using assms(5,6) by (auto simp: hm_get_update dom_def split: if_splits)
  ultimately show ?thesis
    unfolding register_eq_rebuild [OF None] register_eq_rebuild [OF None']
    using sm_inv_put_shard [OF assms(1) refl, of m t] sm_inv_put_shard [OF assms(2) refl, of m u] assms(4)
    by (intro rebuild_agree) simp_all
next
  case (Some x)
  then have "map_of (sm_shards b) (sm_shard_id m) = Some x" using replica_equivD(1) [OF assms(3)] by simp
  then show ?thesis using Some assms(3) by (simp add: register_shard_def agree_def)
qed

lemma unregister_agree:
  assumes "sm_inv a" "sm_inv b" "replica_equiv a b" "no_collisions H 150 S" "dom (map_of (sm_shards a)) \<subseteq> S"
  shows "agree (unregister_shard H sid a) (unregister_shard H sid b)"
proof (cases "map_of (sm_shards a) sid")
  case None
  then have "map_of (sm_shards b) sid = None" using replica_equivD(1) [OF assms(3)] by simp
  then show ?thesis using None assms(3) by (simp add: unregister_shard_def agree_def)
next
  case (Some x)
  then have Some': "map_of (sm_shards b) sid = Some x" using replica_equivD(1) [OF assms(3)] by simp
  let ?drop = "\<lambda>sm. sm\<lparr>sm_shards := AList.delete sid (sm_shards sm),
       sm_heartbeats := AList.delete sid (sm_heartbeats sm)\<rparr>"
  have "replica_equiv (?drop a) (?drop b)"
    using assms(3) by (auto simp: replica_equiv_def hm_get_delete fun_eq_iff dom_def set_eq_iff)
  moreover have "dom (map_of (sm_shards (?drop a))) \<subseteq> S"
    using assms(5) by (auto simp: hm_get_delete dom_def split: if_splits)
  ultimately show ?thesis
    unfolding unregister_eq_rebuild [OF Some] unregister_eq_rebuild [OF Some']
    using sm_inv_drop_shard [OF assms(1), of sid] sm_inv_drop_shard [OF assms(2), of sid] assms(4)
    by (intro rebuild_agree) simp_all
qed

lemma reassign_loop_agree:
  "ring_nodes r = ring_nodes q \<Longrightarrow>
   ring_nodes (fst (reassign_loop hs t r)) = ring_nodes (fst (reassign_loop hs t q)) \<and>
   snd (reassign_loop hs t r) = snd (reassign_loop hs t q)"
proof (induction hs arbitrary: r q)
  case (Cons h hs)
  show ?case
  proof (cases "bt_get (ring_nodes r) h")
    case None
    then show ?thesis using Cons.prems by (simp add: reassign_None)
  next
    case (Some v)
    obtain r' where "ring_reassign r h t = Inr r'"
        "ring_nodes r' = bt_insert h (v\<lparr>vn_shard_id := t\<rparr>) (ring_nodes r)"
      using reassign_Some [OF Some] by blast
    moreover obtain q' where "ring_reassign q h t = Inr q'"
        "ring_nodes q' = bt_insert h (v\<lparr>vn_shard_id := t\<rparr>) (ring_nodes q)"
      using reassign_Some [of q h v t] Some Cons.prems by auto
    ultimately show ?thesis using Cons.IH [of r' q'] Cons.prems by simp
  qed
qed simp

lemma migration_update_equiv:
  assumes "replica_equiv a b" "m\<lparr>ms_started_at := 0\<rparr> = n\<lparr>ms_started_at := 0\<rparr>"
  shows "replica_equiv (a\<lparr>sm_migrations := AList.update k m (sm_migrations a)\<rparr>)
                       (b\<lparr>sm_migrations := AList.update k n (sm_migrations b)\<rparr>)"
  using assms by (simp add: replica_equiv_def hm_get_update same_migration_def)

lemma complete_agree:
  assumes eq: "replica_equiv a b"
  shows "agree (complete_migration k a) (complete_migration k b)"
  using replica_equivD(4) [OF eq, of k]
proof (cases rule: same_migration_cases)
  case 1
  then show ?thesis using eq by (simp add: complete_migration_def agree_def)
next
  case (2 m n)
  note fields = started_at_eqD [OF 2(3)]
  let ?m = "m\<lparr>ms_status := Completed, ms_progress := 100\<rparr>" and ?n = "n\<lparr>ms_status := Completed, ms_progress := 100\<rparr>"
  have "?m\<lparr>ms_started_at := 0\<rparr> = ?n\<lparr>ms_started_at := 0\<rparr>" using 2(3) by (cases m; cases n) simp
  from migration_update_equiv [OF eq this]
  have upd: "replica_equiv (a\<lparr>sm_migrations := AList.update k ?m (sm_migrations a)\<rparr>)
      (b\<lparr>sm_migrations := AList.update k ?n (sm_migrations b)\<rparr>)" .
  show ?thesis
  proof (cases "sm_hash_ring a")
    case None
    then have "sm_hash_ring b = None" using replica_equivD(3) [OF eq] by simp
    then show ?thesis using None 2 upd by (simp add: complete_migration_def agree_def Let_def)
  next
    case (Some r)
    then obtain q where q: "sm_hash_ring b = Some q" "ring_nodes r = ring_nodes q"
      using replica_equivD(3) [OF eq] by (cases "sm_hash_ring b") auto
    obtain r' res q' res' where loops:
        "reassign_loop (ms_virtual_nodes m) (ms_target_shard m) r = (r', res)"
        "reassign_loop (ms_virtual_nodes n) (ms_target_shard n) q = (q', res')"
      by (metis surj_pair)
    then have "ring_nodes r' = ring_nodes q'" "res = res'"
      using reassign_loop_agree [OF q(2), of "ms_virtual_nodes m" "ms_target_shard m"] fields by simp_all
    then show ?thesis
      unfolding complete_migration_some [OF 2(1) Some loops(1)] complete_migration_some [OF 2(2) q(1) loops(2)]
      using upd by (simp add: agree_def replica_equiv_def)
  qed
qed

lemma abort_agree:
  assumes eq: "replica_equiv a b"
  shows "agree (abort_migration k a) (abort_migration k b)"
  using replica_equivD(4) [OF eq, of k]
proof (cases rule: same_migration_cases)
  case 1
  then show ?thesis using eq by (simp add: abort_migration_def agree_def)
next
  case (2 m n)
  have "(m\<lparr>ms_status := Aborted\<rparr>)\<lparr>ms_started_at := 0\<rparr> = (n\<lparr>ms_status := Aborted\<rparr>)\<lparr>ms_started_at := 0\<rparr>"
    using 2(3) by (cases m; cases n) simp
  from migration_update_equiv [OF eq this] show ?thesis
    using 2(1,2) by (simp add: abort_migration_def agree_def)
qed

lemma start_agree:
  assumes eq: "replica_equiv a b"
  shows "agree (start_migration t k s g vs a) (start_migration u k s g vs b)"
  using replica_equivD(4) [OF eq, of k]
proof (cases rule: same_migration_cases)
  case 1
  then show ?thesis
    by (simp add: start_migration_def agree_def Let_def migration_update_equiv [OF eq])
next
  case (2 m n)
  then show ?thesis using eq by (simp add: start_migration_def agree_def)
qed

abbreviation registered_by :: "state_command \<Rightarrow> shard_id set" where
  "registered_by c \<equiv> {s. \<exists>m. c = RegisterShard m \<and> s = sm_shard_id m}"

lemma dispatch_agree:
  assumes "sm_inv a" "sm_inv b" "replica_equiv a b" "no_collisions H 150 S"
    "dom (map_of (sm_shards a)) \<subseteq> S" "registered_by c \<subseteq> S"
  shows "agree (dispatch H t c a) (dispatch H u c b)"
proof (cases c)
  case (RegisterShard m)
  then show ?thesis using register_agree [OF assms(1-5)] assms(6) by auto
next
  case (UnregisterShard sid)
  then show ?thesis using unregister_agree [OF assms(1-5)] by simp
next
  case (UpdateShardStatus sid st)
  then show ?thesis using assms(3)
    by (simp add: agree_def update_shard_status_def replica_equiv_def hm_get_update fun_eq_iff split: option.splits)
next
  case (UpdateHeartbeat sid ts)
  then show ?thesis using assms(3)
    by (simp add: agree_def update_heartbeat_def replica_equiv_def hm_get_update dom_def set_eq_iff)
next
  case (UpdateHashRing r)
  then show ?thesis using assms(3) by (simp add: agree_def update_hash_ring_def replica_equiv_def)
next
  case (UpdateConfig k v)
  then show ?thesis using assms(3)
    by (simp add: agree_def update_config_def replica_equiv_def hm_get_update fun_eq_iff)
qed (simp_all add: start_agree complete_agree abort_agree assms(3))

lemma apply_agree:
  assumes "sm_inv a" "sm_inv b" "replica_equiv a b" "no_collisions H 150 S"
    "dom (map_of (sm_shards a)) \<subseteq> S" "registered_by c \<subseteq> S"
  shows "agree (sm_apply H t c a) (sm_apply H u c b)"
  using dispatch_agree [OF assms, of t u]
  by (auto simp: agree_def sm_apply_fst sm_apply_snd replica_equiv_def)

text \<open>
  A replica of the log: entries are applied in order, each at a local time of its own, and the hash
  map of the shards may at any moment present its entries in any other order.
\<close>

inductive replica :: "hasher \<Rightarrow> state_command list \<Rightarrow> state_machine \<Rightarrow> bool" for H where
  replica_new: "replica H [] sm_new"
| replica_apply: "replica H log sm \<Longrightarrow> replica H (log @ [c]) (fst (sm_apply H now c sm))"
| replica_reorder: "replica H log sm \<Longrightarrow> hm_wf ms \<Longrightarrow> map_of ms = map_of (sm_shards sm) \<Longrightarrow>
    replica H log (sm\<lparr>sm_shards := ms\<rparr>)"

definition registered :: "state_command list \<Rightarrow> shard_id set" where
  "registered log = (\<Union>c \<in> set log. registered_by c)"

lemma dispatch_shards:
  assumes "sm_inv sm"
  shows "dom (map_of (sm_shards (fst (dispatch H now c sm)))) \<subseteq> dom (map_of (sm_shards sm)) \<union> registered_by c"
proof (cases c)
  case (RegisterShard m)
  then show ?thesis
    by (auto simp: register_shard_def rebuild_hash_ring_def hm_get_update Let_def
        split: option.splits prod.splits if_splits)
next
  case (UnregisterShard sid)
  then show ?thesis
    by (auto simp: unregister_shard_def rebuild_hash_ring_def hm_get_delete Let_def
        split: option.splits prod.splits if_splits)
next
  case (UpdateShardStatus sid st)
  then show ?thesis by (auto simp: update_shard_status_def hm_get_update split: option.splits if_splits)
qed (auto simp: step_defs Let_def split: option.splits prod.splits if_splits)

lemma reorder_inv:
  "sm_inv sm \<Longrightarrow> hm_wf ms \<Longrightarrow> map_of ms = map_of (sm_shards sm) \<Longrightarrow> sm_inv (sm\<lparr>sm_shards := ms\<rparr>)"
  by (simp add: sm_inv_def shards_keyed_def)

lemma replica_inv: "replica H log sm \<Longrightarrow> sm_inv sm \<and> dom (map_of (sm_shards sm)) \<subseteq> registered log"
proof (induction rule: replica.induct)
  case replica_new
  then show ?case using sm_inv_new by (simp add: sm_new_def)
next
  case (replica_apply log sm c now)
  then have "dom (map_of (sm_shards (fst (sm_apply H now c sm)))) \<subseteq> registered log \<union> registered_by c"
    using dispatch_shards [of sm H now c] by (auto simp: sm_apply_fst)
  then show ?case using replica_apply by (auto simp: sm_inv_apply registered_def)
qed (simp add: reorder_inv)

definition reference_run :: "hasher \<Rightarrow> state_command list \<Rightarrow> state_machine" where
  "reference_run H log = foldl (\<lambda>sm c. fst (sm_apply H 0 c sm)) sm_new log"

lemma reference_replica: "replica H log (reference_run H log)"
  by (induction log rule: rev_induct) (auto simp: reference_run_def intro: replica.intros)

lemma replica_reference:
  "replica H log sm \<Longrightarrow> no_collisions H 150 (registered log) \<Longrightarrow> replica_equiv sm (reference_run H log)"
proof (induction rule: replica.induct)
  case replica_new
  then show ?case by (simp add: reference_run_def replica_equiv_def same_migration_def)
next
  case (replica_apply log sm c now)
  have sub: "registered log \<subseteq> registered (log @ [c])" "registered_by c \<subseteq> registered (log @ [c])"
    by (auto simp: registered_def)
  note ih = replica_apply.IH [OF no_collisions_mono [OF replica_apply.prems sub(1)]]
  note inv = replica_inv [OF replica_apply.hyps] and inv' = replica_inv [OF reference_replica [of H log]]
  have "agree (sm_apply H now c sm) (sm_apply H 0 c (reference_run H log))"
    using inv inv' sub by (intro apply_agree [OF _ _ ih replica_apply.prems]) auto
  then show ?case by (simp add: agree_def reference_run_def)
next
  case (replica_reorder log sm ms)
  then show ?case by (simp add: replica_equiv_def)
qed

lemma replica_equiv_join: "replica_equiv a c \<Longrightarrow> replica_equiv b c \<Longrightarrow> replica_equiv a b"
  by (simp add: replica_equiv_def same_migration_def)

lemma find_cong:
  assumes "ring_nodes ra = ring_nodes rb"
  shows "ring_find_shard ra h = ring_find_shard rb h" "ring_find_replicas ra h n = ring_find_replicas rb h n"
  unfolding ring_find_shard_def ring_find_replicas_def assms by (rule refl)+

text \<open>
  C3. Replicas that applied the same log agree: whatever their clocks and the iteration order of
  their hash maps, as long as the virtual nodes of the shards registered in the log have distinct
  hashes, they hold the same shards, configuration, migrations (up to the local start times) and
  version, and they route every hash to the same shard.
\<close>

theorem replicas_agree:
  assumes "replica H log a" "replica H log b" "no_collisions H 150 (registered log)"
  shows "replica_equiv a b \<and>
    (\<forall>ra rb h. sm_hash_ring a = Some ra \<and> sm_hash_ring b = Some rb \<longrightarrow>
       ring_find_shard ra h = ring_find_shard rb h \<and> ring_find_replicas ra h n = ring_find_replicas rb h n)"
proof -
  have eq: "replica_equiv a b"
    using replica_equiv_join [OF replica_reference [OF assms(1,3)] replica_reference [OF assms(2,3)]] .
  then show ?thesis using replica_equivD(3) [OF eq] by (auto intro: find_cong)
qed

section \<open>Witnesses\<close>

text \<open>
  A hasher that reads the index off the key of a virtual node of shard 1, and a short log: an empty
  ring is installed, then shard 1 is registered as active.
\<close>

definition index_hash :: hasher where
  "index_hash cs = of_nat (read_digits (drop 14 cs))"

definition demo_shard :: shard_metadata where
  "demo_shard = (shard_metadata_new 5 (ShardId 1) (hash_range_new 0 u64_max) ''a:1'' [])\<lparr>sm_status := Active\<rparr>"

definition demo_log :: "state_command list" where
  "demo_log = [UpdateHashRing ring_new, RegisterShard demo_shard]"

lemma demo_shard_id [simp]: "sm_shard_id demo_shard = ShardId 1" "sm_status demo_shard = Active"
  by (simp_all add: demo_shard_def shard_metadata_new_def)

lemma index_hash_key: "index_hash (vnode_key (ShardId 1) i) = of_nat i"
proof -
  have "show_nat 1 = ''1''" by code_simp
  then show ?thesis by (simp add: index_hash_def vnode_key_def read_show_nat)
qed

lemma index_no_collisions: "no_collisions index_hash 150 {ShardId 1}"
  unfolding no_collisions_def
proof (rule inj_onI, clarify)
  fix i j assume ij: "i \<in> {0..<unat (150 :: u32)}" "j \<in> {0..<unat (150 :: u32)}"
    and eq: "index_hash (vnode_key (ShardId 1) i) = index_hash (vnode_key (ShardId 1) j)"
  have "unat (of_nat i :: u64) = i" "unat (of_nat j :: u64) = j"
    using ij by (auto intro!: unat_of_nat_small)
  then show "ShardId 1 = ShardId 1 \<and> i = j" using eq unfolding index_hash_key by metis
qed

definition demo_state :: state_machine where
  "demo_state = sm_run index_hash [(3, UpdateHashRing ring_new)] sm_new"

lemma demo_state_eq: "demo_state = sm_new\<lparr>sm_hash_ring := Some ring_new, sm_version := 1\<rparr>"
  by (simp add: demo_state_def sm_apply_def update_hash_ring_def sm_new_def)

lemma demo_state_inv: "sm_inv demo_state"
  unfolding demo_state_def by (rule sm_inv_run [OF sm_inv_new])

lemma demo_register_ok: "snd (sm_apply index_hash now (RegisterShard demo_shard) demo_state) = Inr ()"
proof -
  have "map_of (sm_shards demo_state) (sm_shard_id demo_shard) = None"
    by (simp add: demo_state_eq sm_new_def)
  from register_ok [OF demo_state_inv this, of index_hash now]
  show ?thesis unfolding sm_apply_snd by fastforce
qed

lemma failed_command_changes_nothing_witness:
  "fst (sm_apply index_hash 9 (UnregisterShard (ShardId 4)) demo_state) = demo_state"
proof (rule failed_command_changes_nothing [OF demo_state_def])
  show "snd (sm_apply index_hash 9 (UnregisterShard (ShardId 4)) demo_state) = Inl (ShardNotFound (ShardId 4))"
    by (simp add: sm_apply_def unregister_shard_def demo_state_eq sm_new_def)
qed simp

lemma registration_rebuilds_ring_witness:
  "\<exists>sm' r. sm_apply index_hash 9 (RegisterShard demo_shard) demo_state = (sm', Inr ()) \<and>
     sm_hash_ring sm' = Some r \<and> ring_shards r = active_ids sm'"
proof -
  obtain sm' where sm': "sm_apply index_hash 9 (RegisterShard demo_shard) demo_state = (sm', Inr ())"
    using demo_register_ok [of 9] by (metis prod.collapse)
  have "sm_hash_ring demo_state \<noteq> None" by (simp add: demo_state_eq)
  then show ?thesis
    using registration_rebuilds_ring [OF demo_state_def _ _ sm'] sm' by blast
qed

definition demo_ring_state :: state_machine where
  "demo_ring_state = sm_new\<lparr>sm_shards := [(ShardId 1, demo_shard)], sm_hash_ring := Some demo_ring,
     sm_migrations := [(''m'', \<lparr>ms_id = ''m'', ms_source_shard = ShardId 1, ms_target_shard = ShardId 2,
       ms_virtual_nodes = [fst (hd (ring_nodes demo_ring))], ms_started_at = 4, ms_progress = 0,
       ms_status = InProgress\<rparr>)]\<rparr>"

lemma status_change_keeps_routing_witness:
  "\<exists>sm' m. sm_apply poly_hash 9 (UpdateShardStatus (ShardId 1) Down) demo_ring_state = (sm', Inr ()) \<and>
     get_shard sm' (ShardId 1) = Some m \<and> sm_status m = Down \<and> sm_hash_ring sm' = Some demo_ring"
  by (rule status_change_keeps_routing) (simp_all add: demo_ring_state_def)

lemma complete_migration_outcome_witness:
  "\<exists>sm' r'. sm_apply poly_hash 9 (CompleteMigration ''m'') demo_ring_state = (sm', Inr ()) \<and>
     sm_hash_ring sm' = Some r' \<and> sm_version sm' = 1"
proof -
  have ok: "snd (sm_apply poly_hash 9 (CompleteMigration ''m'') demo_ring_state) = Inr ()" by code_simp
  have "map_of (sm_migrations demo_ring_state) ''m'' \<noteq> None" "sm_hash_ring demo_ring_state = Some demo_ring"
    "sm_version demo_ring_state = 0" by (simp_all add: demo_ring_state_def sm_new_def)
  then show ?thesis using ok complete_migration_outcome [of demo_ring_state "''m''" _ demo_ring poly_hash 9]
    by (fastforce split: if_splits)
qed

lemma demo_replica: "\<exists>sm. replica index_hash demo_log sm \<and> sm_hash_ring sm \<noteq> None"
proof -
  have r: "replica index_hash [UpdateHashRing ring_new] demo_state"
    using replica_apply [OF replica_new, of index_hash "UpdateHashRing ring_new" 3] by (simp add: demo_state_def)
  have "replica index_hash demo_log (fst (sm_apply index_hash 8 (RegisterShard demo_shard) demo_state))"
    using replica_apply [OF r, of "RegisterShard demo_shard" 8] by (simp add: demo_log_def)
  moreover have "sm_hash_ring (fst (sm_apply index_hash 8 (RegisterShard demo_shard) demo_state)) \<noteq> None"
    using demo_register_ok [of 8]
    by (auto simp: sm_apply_fst register_shard_def rebuild_hash_ring_def demo_state_eq sm_new_def Let_def
        split: prod.splits)
  ultimately show ?thesis by blast
qed

theorem replicas_agree_witness:
  "\<exists>a. replica index_hash demo_log a \<and> sm_hash_ring a \<noteq> None \<and>
     (\<forall>b. replica index_hash demo_log b \<longrightarrow> replica_equiv a b)"
proof -
  have "registered demo_log = {ShardId 1}" by (auto simp: registered_def demo_log_def)
  then have nc: "no_collisions index_hash 150 (registered demo_log)" using index_no_collisions by simp
  obtain a where a: "replica index_hash demo_log a" "sm_hash_ring a \<noteq> None" using demo_replica by blast
  show ?thesis using a replicas_agree [OF a(1) _ nc, of _ 1] by blast
qed

end
