(* ===== verification/HealthMonitor.thy ===== *)
theory HealthMonitor
  imports CoordSM ShardMetadata BreakerSpec
begin

text \<open>
  Model of \<^verbatim>\<open>arcxa-coordinator/src/ha/health_monitor.rs\<close>: the health of each shard, its circuit
  breaker, the window of response times, and the monitor that holds them. The monitor's map sits
  behind a read-write lock, so each operation is one atomic step. \<^verbatim>\<open>Instant::now()\<close> is the argument
  \<open>now\<close>, times and durations are natural numbers (milliseconds). The floating point
  \<^verbatim>\<open>percentile\<close> and \<^verbatim>\<open>health_percentage\<close> and the timer loop \<^verbatim>\<open>run_health_checks\<close> are not modelled.
\<close>

section \<open>Health and circuit breaker\<close>

datatype shard_health = Healthy | HealthDegraded | Unhealthy | HealthDown

fun health_is_available :: "shard_health \<Rightarrow> bool" where
  "health_is_available Healthy = True"
| "health_is_available HealthDegraded = True"
| "health_is_available _ = False"

fun health_should_probe :: "shard_health \<Rightarrow> bool" where
  "health_should_probe HealthDown = False"
| "health_should_probe _ = True"

datatype circuit_state = CircuitClosed | CircuitOpen | CircuitHalfOpen

record hb_config =
  hb_failure_threshold :: u32
  hb_success_threshold :: u32
  hb_timeout :: nat
  hb_reset_timeout :: nat

definition hb_config_default :: hb_config where
  "hb_config_default = \<lparr>hb_failure_threshold = 5, hb_success_threshold = 3, hb_timeout = 30000,
     hb_reset_timeout = 60000\<rparr>"

record health_breaker =
  hb_state :: circuit_state
  hb_failure_count :: u32
  hb_success_count :: u32
  hb_last_failure :: "nat option"
  hb_opened_at :: "nat option"
  hb_cfg :: hb_config

definition hb_new :: "hb_config \<Rightarrow> health_breaker" where
  "hb_new cfg = \<lparr>hb_state = CircuitClosed, hb_failure_count = 0, hb_success_count = 0,
     hb_last_failure = None, hb_opened_at = None, hb_cfg = cfg\<rparr>"

definition hb_open :: "nat \<Rightarrow> health_breaker \<Rightarrow> health_breaker" where
  "hb_open now b = b\<lparr>hb_state := CircuitOpen, hb_opened_at := Some now, hb_failure_count := 0,
     hb_success_count := 0\<rparr>"

definition hb_close :: "health_breaker \<Rightarrow> health_breaker" where
  "hb_close b = b\<lparr>hb_state := CircuitClosed, hb_failure_count := 0, hb_success_count := 0,
     hb_opened_at := None\<rparr>"

definition hb_record_success :: "nat \<Rightarrow> health_breaker \<Rightarrow> health_breaker" where
  "hb_record_success now b =
     (case hb_state b of
        CircuitHalfOpen \<Rightarrow>
          let b' = b\<lparr>hb_success_count := hb_success_count b + 1\<rparr>
          in if hb_success_count b' \<ge> hb_success_threshold (hb_cfg b') then hb_close b' else b'
      | CircuitClosed \<Rightarrow>
          if hb_failure_count b > 0
          then (case hb_last_failure b of
                  Some t \<Rightarrow> if now - t > hb_reset_timeout (hb_cfg b) then b\<lparr>hb_failure_count := 0\<rparr> else b
                | None \<Rightarrow> b)
          else b
      | CircuitOpen \<Rightarrow> b)"

definition hb_record_failure :: "nat \<Rightarrow> health_breaker \<Rightarrow> health_breaker" where
  "hb_record_failure now b =
     (let b = b\<lparr>hb_last_failure := Some now\<rparr>
      in case hb_state b of
           CircuitClosed \<Rightarrow>
             let b' = b\<lparr>hb_failure_count := hb_failure_count b + 1\<rparr>
             in if hb_failure_count b' \<ge> hb_failure_threshold (hb_cfg b') then hb_open now b' else b'
         | CircuitHalfOpen \<Rightarrow> hb_open now b
         | CircuitOpen \<Rightarrow> b)"

definition hb_update_state :: "nat \<Rightarrow> health_breaker \<Rightarrow> health_breaker" where
  "hb_update_state now b =
     (if hb_state b = CircuitOpen
      then (case hb_opened_at b of
              Some t \<Rightarrow> if now - t \<ge> hb_timeout (hb_cfg b)
                        then b\<lparr>hb_state := CircuitHalfOpen, hb_success_count := 0\<rparr> else b
            | None \<Rightarrow> b)
      else b)"

definition hb_should_allow :: "nat \<Rightarrow> health_breaker \<Rightarrow> bool \<times> health_breaker" where
  "hb_should_allow now b =
     (let b' = hb_update_state now b
      in (case hb_state b' of CircuitClosed \<Rightarrow> True | CircuitOpen \<Rightarrow> False | CircuitHalfOpen \<Rightarrow> True, b'))"

section \<open>Response times\<close>

text \<open>
  The window of response times: a vector that is filled up to its capacity and then overwritten in
  a circle. \<^verbatim>\<open>times[position]\<close> panics on an empty vector (\<open>None\<close>), which happens exactly when the
  capacity is zero. The vector's capacity is the one it was created with.
\<close>

record response_tracker =
  rt_times :: "nat list"
  rt_capacity :: nat
  rt_position :: nat

definition rt_new :: "nat \<Rightarrow> response_tracker" where
  "rt_new capacity = \<lparr>rt_times = [], rt_capacity = capacity, rt_position = 0\<rparr>"

definition rt_record :: "nat \<Rightarrow> response_tracker \<Rightarrow> response_tracker option" where
  "rt_record d t =
     (if length (rt_times t) < rt_capacity t then Some (t\<lparr>rt_times := rt_times t @ [d]\<rparr>)
      else if rt_position t < length (rt_times t)
      then Some (t\<lparr>rt_times := (rt_times t)[rt_position t := d],
                   rt_position := (rt_position t + 1) mod length (rt_times t)\<rparr>)
      else None)"

section \<open>The monitor\<close>

record shard_health_state =
  shs_health :: shard_health
  shs_breaker :: health_breaker
  shs_last_heartbeat :: "nat option"
  shs_last_probe_success :: "nat option"
  shs_probe_failures :: u32
  shs_response_times :: response_tracker

record monitor_config =
  mc_heartbeat_timeout :: nat
  mc_probe_interval :: nat
  mc_probe_timeout :: nat
  mc_degraded_threshold :: u32
  mc_unhealthy_threshold :: u32
  mc_down_threshold :: u32
  mc_response_time_window :: nat
  mc_circuit_breaker :: hb_config

definition monitor_config_default :: monitor_config where
  "monitor_config_default =
     \<lparr>mc_heartbeat_timeout = 30000, mc_probe_interval = 10000, mc_probe_timeout = 5000,
      mc_degraded_threshold = 2, mc_unhealthy_threshold = 5, mc_down_threshold = 10,
      mc_response_time_window = 100, mc_circuit_breaker = hb_config_default\<rparr>"

record health_monitor =
  mon_states :: "(shard_id, shard_health_state) hmap"
  mon_config :: monitor_config

definition mon_new :: "monitor_config \<Rightarrow> health_monitor" where
  "mon_new cfg = \<lparr>mon_states = [], mon_config = cfg\<rparr>"

definition mon_register_shard :: "nat \<Rightarrow> shard_id \<Rightarrow> health_monitor \<Rightarrow> health_monitor" where
  "mon_register_shard now sid m =
     m\<lparr>mon_states := AList.update sid
         \<lparr>shs_health = Healthy, shs_breaker = hb_new (mc_circuit_breaker (mon_config m)),
          shs_last_heartbeat = Some now, shs_last_probe_success = None, shs_probe_failures = 0,
          shs_response_times = rt_new (mc_response_time_window (mon_config m))\<rparr> (mon_states m)\<rparr>"

definition mon_unregister_shard :: "shard_id \<Rightarrow> health_monitor \<Rightarrow> health_monitor" where
  "mon_unregister_shard sid m = m\<lparr>mon_states := AList.delete sid (mon_states m)\<rparr>"

definition mon_update_heartbeat :: "nat \<Rightarrow> shard_id \<Rightarrow> health_monitor \<Rightarrow> health_monitor" where
  "mon_update_heartbeat now sid m =
     (case map_of (mon_states m) sid of
        None \<Rightarrow> m
      | Some st \<Rightarrow> m\<lparr>mon_states := AList.update sid (st\<lparr>shs_last_heartbeat := Some now\<rparr>) (mon_states m)\<rparr>)"

definition mon_record_probe_success ::
  "nat \<Rightarrow> shard_id \<Rightarrow> nat \<Rightarrow> health_monitor \<Rightarrow> health_monitor option" where
  "mon_record_probe_success now sid response_time m =
     (case map_of (mon_states m) sid of
        None \<Rightarrow> Some m
      | Some st \<Rightarrow>
          (case rt_record response_time (shs_response_times st) of
             None \<Rightarrow> None
           | Some rt \<Rightarrow>
               let st1 = st\<lparr>shs_last_probe_success := Some now, shs_probe_failures := 0,
                            shs_response_times := rt,
                            shs_breaker := hb_record_success now (shs_breaker st)\<rparr>;
                   st2 = (if shs_health st1 \<noteq> Healthy then st1\<lparr>shs_health := Healthy\<rparr> else st1)
               in Some (m\<lparr>mon_states := AList.update sid st2 (mon_states m)\<rparr>)))"

definition failure_health :: "monitor_config \<Rightarrow> u32 \<Rightarrow> shard_health \<Rightarrow> shard_health" where
  "failure_health cfg failures current =
     (if failures \<ge> mc_down_threshold cfg then HealthDown
      else if failures \<ge> mc_unhealthy_threshold cfg then Unhealthy
      else if failures \<ge> mc_degraded_threshold cfg then HealthDegraded
      else current)"

definition mon_record_probe_failure :: "nat \<Rightarrow> shard_id \<Rightarrow> health_monitor \<Rightarrow> health_monitor" where
  "mon_record_probe_failure now sid m =
     (case map_of (mon_states m) sid of
        None \<Rightarrow> m
      | Some st \<Rightarrow>
          let st1 = st\<lparr>shs_probe_failures := shs_probe_failures st + 1,
                       shs_breaker := hb_record_failure now (shs_breaker st)\<rparr>;
              new_health = failure_health (mon_config m) (shs_probe_failures st1) (shs_health st1);
              st2 = (if new_health \<noteq> shs_health st1 then st1\<lparr>shs_health := new_health\<rparr> else st1)
          in m\<lparr>mon_states := AList.update sid st2 (mon_states m)\<rparr>)"

definition mon_get_health :: "health_monitor \<Rightarrow> shard_id \<Rightarrow> shard_health option" where
  "mon_get_health m sid = map_option shs_health (map_of (mon_states m) sid)"

text \<open>The conjunction is lazy: the breaker is asked only when the health allows routing.\<close>

definition mon_should_route_to :: "nat \<Rightarrow> shard_id \<Rightarrow> health_monitor \<Rightarrow> bool \<times> health_monitor" where
  "mon_should_route_to now sid m =
     (case map_of (mon_states m) sid of
        None \<Rightarrow> (False, m)
      | Some st \<Rightarrow>
          if health_is_available (shs_health st)
          then let (a, b) = hb_should_allow now (shs_breaker st)
               in (a, m\<lparr>mon_states := AList.update sid (st\<lparr>shs_breaker := b\<rparr>) (mon_states m)\<rparr>)
          else (False, m))"

definition mon_get_healthy_shards :: "health_monitor \<Rightarrow> shard_id list" where
  "mon_get_healthy_shards m = map fst (filter (\<lambda>(_, st). shs_health st = Healthy) (mon_states m))"

record health_stats =
  hs_total_shards :: nat
  hs_healthy :: nat
  hs_degraded :: nat
  hs_unhealthy :: nat
  hs_down :: nat
  hs_circuits_open :: nat
  hs_circuits_half_open :: nat

definition stats_step :: "shard_health_state \<Rightarrow> health_stats \<Rightarrow> health_stats" where
  "stats_step st s =
     (let s1 = (case shs_health st of
                  Healthy \<Rightarrow> s\<lparr>hs_healthy := hs_healthy s + 1\<rparr>
                | HealthDegraded \<Rightarrow> s\<lparr>hs_degraded := hs_degraded s + 1\<rparr>
                | Unhealthy \<Rightarrow> s\<lparr>hs_unhealthy := hs_unhealthy s + 1\<rparr>
                | HealthDown \<Rightarrow> s\<lparr>hs_down := hs_down s + 1\<rparr>)
      in case hb_state (shs_breaker st) of
           CircuitOpen \<Rightarrow> s1\<lparr>hs_circuits_open := hs_circuits_open s1 + 1\<rparr>
         | CircuitHalfOpen \<Rightarrow> s1\<lparr>hs_circuits_half_open := hs_circuits_half_open s1 + 1\<rparr>
         | CircuitClosed \<Rightarrow> s1)"

definition mon_get_stats :: "health_monitor \<Rightarrow> health_stats" where
  "mon_get_stats m =
     fold stats_step (map snd (mon_states m))
       \<lparr>hs_total_shards = length (mon_states m), hs_healthy = 0, hs_degraded = 0, hs_unhealthy = 0,
        hs_down = 0, hs_circuits_open = 0, hs_circuits_half_open = 0\<rparr>"

definition heartbeat_check :: "nat \<Rightarrow> monitor_config \<Rightarrow> shard_health_state \<Rightarrow> shard_health_state" where
  "heartbeat_check now cfg st =
     (case shs_last_heartbeat st of
        None \<Rightarrow> st
      | Some t \<Rightarrow>
          if now - t > mc_heartbeat_timeout cfg
          then (if shs_health st \<noteq> HealthDown then st\<lparr>shs_health := HealthDown\<rparr> else st)
          else st)"

definition mon_check_heartbeat_timeouts :: "nat \<Rightarrow> health_monitor \<Rightarrow> health_monitor" where
  "mon_check_heartbeat_timeouts now m =
     m\<lparr>mon_states := map (\<lambda>(sid, st). (sid, heartbeat_check now (mon_config m) st)) (mon_states m)\<rparr>"

definition is_cluster_healthy :: "health_stats \<Rightarrow> bool" where
  "is_cluster_healthy s \<longleftrightarrow> hs_healthy s > hs_total_shards s div 2"

section \<open>The breaker implements the contract\<close>

definition hb_inv :: "health_breaker \<Rightarrow> bool" where
  "hb_inv b \<longleftrightarrow>
     (hb_state b = CircuitOpen \<longrightarrow> hb_opened_at b \<noteq> None) \<and>
     (hb_state b = CircuitClosed \<longrightarrow> unat (hb_failure_count b) < max 1 (unat (hb_failure_threshold (hb_cfg b)))) \<and>
     (hb_state b = CircuitHalfOpen \<longrightarrow> unat (hb_success_count b) < max 1 (unat (hb_success_threshold (hb_cfg b))))"

definition hb_view :: "health_breaker \<Rightarrow> breaker_view" where
  "hb_view b = (case hb_state b of
     CircuitClosed \<Rightarrow> VClosed (unat (hb_failure_count b))
   | CircuitOpen \<Rightarrow> VOpen (the (hb_opened_at b))
   | CircuitHalfOpen \<Rightarrow> VHalf (unat (hb_success_count b)))"

lemmas hb_defs = hb_record_success_def hb_record_failure_def hb_update_state_def hb_should_allow_def
  hb_open_def hb_close_def

lemma hb_inv_new: "hb_inv (hb_new cfg)"
  by (simp add: hb_inv_def hb_new_def)

lemma hb_config_same: "hb_cfg (hb_record_success now b) = hb_cfg b" "hb_cfg (hb_record_failure now b) = hb_cfg b"
  "hb_cfg (snd (hb_should_allow now b)) = hb_cfg b"
  by (cases "hb_state b"; simp add: hb_defs Let_def split: option.splits)+

lemma hb_success_inv: "hb_inv b \<Longrightarrow> hb_inv (hb_record_success now b)"
  using count_step [of "hb_success_count b" "hb_success_threshold (hb_cfg b)"]
  by (cases "hb_state b") (auto simp: hb_inv_def hb_record_success_def hb_close_def Let_def split: option.splits)

lemma hb_failure_inv: "hb_inv b \<Longrightarrow> hb_inv (hb_record_failure now b)"
  using count_step [of "hb_failure_count b" "hb_failure_threshold (hb_cfg b)"]
  by (cases "hb_state b") (auto simp: hb_inv_def hb_record_failure_def hb_open_def Let_def)

lemma hb_allow_inv: "hb_inv b \<Longrightarrow> hb_inv (snd (hb_should_allow now b))"
  by (cases "hb_state b") (auto simp: hb_inv_def hb_should_allow_def hb_update_state_def Let_def split: if_splits)

lemma hb_fail_view:
  assumes "hb_inv b"
  shows "hb_view (hb_record_failure now b) = view_fail (unat (hb_failure_threshold (hb_cfg b))) now (hb_view b)"
  using assms count_step [of "hb_failure_count b" "hb_failure_threshold (hb_cfg b)"]
  by (cases "hb_state b") (auto simp: hb_inv_def hb_view_def hb_record_failure_def hb_open_def Let_def)

lemma hb_success_view:
  assumes "hb_inv b" "hb_view b = VHalf n"
  shows "hb_view (hb_record_success now b) = view_half_success (unat (hb_success_threshold (hb_cfg b))) n"
  using assms count_step [of "hb_success_count b" "hb_success_threshold (hb_cfg b)"]
  by (cases "hb_state b") (auto simp: hb_inv_def hb_view_def hb_record_success_def hb_close_def Let_def)

lemma hb_allow_view:
  "hb_inv b \<Longrightarrow> map_prod id hb_view (hb_should_allow now b) = view_allow (hb_timeout (hb_cfg b)) now (hb_view b)"
  by (cases "hb_state b") (auto simp: hb_inv_def hb_view_def hb_should_allow_def hb_update_state_def Let_def)

interpretation hb: breaker hb_view hb_should_allow hb_record_failure hb_record_success
  "\<lambda>b. unat (hb_failure_threshold (hb_cfg b))" "\<lambda>b. unat (hb_success_threshold (hb_cfg b))"
  "\<lambda>b. hb_timeout (hb_cfg b)" hb_inv
proof unfold_locales
  show "snd (hb_should_allow now b) = b" if "\<not> fst (hb_should_allow now b)" for now b
    using that by (cases "hb_state b")
      (auto simp: hb_should_allow_def hb_update_state_def Let_def split: option.splits if_splits)
qed (simp_all add: hb_allow_view hb_fail_view hb_success_view hb_success_inv hb_failure_inv hb_allow_inv hb_config_same)

section \<open>Every monitored shard has a sound breaker\<close>

definition rt_inv :: "response_tracker \<Rightarrow> bool" where
  "rt_inv t \<longleftrightarrow> length (rt_times t) \<le> rt_capacity t \<and>
     (if length (rt_times t) < rt_capacity t then rt_position t = 0
      else rt_position t < rt_capacity t \<or> rt_capacity t = 0)"

definition shs_inv :: "monitor_config \<Rightarrow> shard_health_state \<Rightarrow> bool" where
  "shs_inv cfg st \<longleftrightarrow> hb_inv (shs_breaker st) \<and> hb_cfg (shs_breaker st) = mc_circuit_breaker cfg \<and>
     rt_inv (shs_response_times st) \<and> rt_capacity (shs_response_times st) = mc_response_time_window cfg"

definition mon_inv :: "health_monitor \<Rightarrow> bool" where
  "mon_inv m \<longleftrightarrow> hm_wf (mon_states m) \<and>
     (\<forall>sid st. map_of (mon_states m) sid = Some st \<longrightarrow> shs_inv (mon_config m) st)"

lemma rt_record_ok:
  assumes "rt_inv t" "0 < rt_capacity t"
  shows "\<exists>t'. rt_record d t = Some t' \<and> rt_inv t' \<and> rt_capacity t' = rt_capacity t"
proof (cases "length (rt_times t) < rt_capacity t")
  case True
  then show ?thesis using assms by (auto simp: rt_record_def rt_inv_def)
next
  case False
  then have "length (rt_times t) = rt_capacity t" "rt_position t < length (rt_times t)"
    using assms by (auto simp: rt_inv_def)
  then show ?thesis using assms(2) by (simp add: rt_record_def rt_inv_def)
qed

lemma rt_record_panics: "rt_inv t \<Longrightarrow> rt_capacity t = 0 \<Longrightarrow> rt_record d t = None"
  by (simp add: rt_record_def rt_inv_def)

lemma mon_inv_put:
  assumes "mon_inv m" "shs_inv (mon_config m) st"
  shows "mon_inv (m\<lparr>mon_states := AList.update sid st (mon_states m)\<rparr>)"
  using assms by (simp add: mon_inv_def hm_get_update)

lemma mon_invD: "mon_inv m \<Longrightarrow> map_of (mon_states m) sid = Some st \<Longrightarrow> shs_inv (mon_config m) st"
  by (simp add: mon_inv_def)

lemma map_of_map_values: "map_of (map (\<lambda>(k, v). (k, f v)) xs) k = map_option f (map_of xs k)"
  by (induction xs) auto

datatype mon_op = MonRegister nat shard_id | MonUnregister shard_id | MonHeartbeat nat shard_id
  | MonProbeSuccess nat shard_id nat | MonProbeFailure nat shard_id | MonRoute nat shard_id | MonCheck nat

fun mon_step :: "mon_op \<Rightarrow> health_monitor \<Rightarrow> health_monitor option" where
  "mon_step (MonRegister now sid) m = Some (mon_register_shard now sid m)"
| "mon_step (MonUnregister sid) m = Some (mon_unregister_shard sid m)"
| "mon_step (MonHeartbeat now sid) m = Some (mon_update_heartbeat now sid m)"
| "mon_step (MonProbeSuccess now sid d) m = mon_record_probe_success now sid d m"
| "mon_step (MonProbeFailure now sid) m = Some (mon_record_probe_failure now sid m)"
| "mon_step (MonRoute now sid) m = Some (snd (mon_should_route_to now sid m))"
| "mon_step (MonCheck now) m = Some (mon_check_heartbeat_timeouts now m)"

fun mon_run :: "mon_op list \<Rightarrow> health_monitor \<Rightarrow> health_monitor option" where
  "mon_run [] m = Some m"
| "mon_run (op # ops) m = (case mon_step op m of None \<Rightarrow> None | Some m' \<Rightarrow> mon_run ops m')"

lemma mon_inv_register: "mon_inv m \<Longrightarrow> mon_inv (mon_register_shard now sid m)"
  unfolding mon_register_shard_def
  by (rule mon_inv_put) (simp_all add: shs_inv_def hb_inv_def hb_new_def rt_new_def rt_inv_def less_max_iff_disj)

lemma mon_inv_unregister: "mon_inv m \<Longrightarrow> mon_inv (mon_unregister_shard sid m)"
  by (simp add: mon_inv_def mon_unregister_shard_def hm_get_delete)

lemma mon_inv_heartbeat: "mon_inv m \<Longrightarrow> mon_inv (mon_update_heartbeat now sid m)"
  using mon_invD [of m sid]
  by (simp add: mon_update_heartbeat_def shs_inv_def mon_inv_put split: option.splits)

lemma mon_inv_probe_failure: "mon_inv m \<Longrightarrow> mon_inv (mon_record_probe_failure now sid m)"
  using mon_invD [of m sid]
  by (simp add: mon_record_probe_failure_def shs_inv_def Let_def hb_failure_inv hb_config_same mon_inv_put
      split: option.splits)

lemma mon_inv_route: "mon_inv m \<Longrightarrow> mon_inv (snd (mon_should_route_to now sid m))"
  using mon_invD [of m sid]
  by (simp add: mon_should_route_to_def shs_inv_def Let_def split_beta hb_allow_inv hb_config_same mon_inv_put
      split: option.splits)

lemma mon_inv_check: "mon_inv m \<Longrightarrow> mon_inv (mon_check_heartbeat_timeouts now m)"
proof -
  assume inv: "mon_inv m"
  let ?f = "map (\<lambda>(sid, st). (sid, heartbeat_check now (mon_config m) st)) (mon_states m)"
  have "shs_inv cfg (heartbeat_check now cfg' st) = shs_inv cfg st" for cfg cfg' st
    by (simp add: heartbeat_check_def shs_inv_def split: option.splits)
  moreover have "hm_wf ?f" using inv by (simp add: mon_inv_def hm_wf_def split_beta comp_def)
  ultimately show ?thesis
    using inv by (auto simp: mon_inv_def mon_check_heartbeat_timeouts_def map_of_map_values)
qed

lemma mon_probe_success_ok:
  assumes "mon_inv m" "0 < mc_response_time_window (mon_config m)"
  shows "\<exists>m'. mon_record_probe_success now sid d m = Some m' \<and> mon_inv m' \<and> mon_config m' = mon_config m"
proof (cases "map_of (mon_states m) sid")
  case None
  then show ?thesis using assms(1) by (simp add: mon_record_probe_success_def)
next
  case (Some st)
  note st = mon_invD [OF assms(1) Some, unfolded shs_inv_def]
  obtain rt where "rt_record d (shs_response_times st) = Some rt" "rt_inv rt"
      "rt_capacity rt = rt_capacity (shs_response_times st)"
    using rt_record_ok [of "shs_response_times st" d] st assms(2) by auto
  then show ?thesis using Some st
    by (auto simp: mon_record_probe_success_def Let_def shs_inv_def hb_success_inv hb_config_same
        intro!: mon_inv_put [OF assms(1)])
qed

lemma mon_config_same:
  "mon_config (mon_register_shard now sid m) = mon_config m" "mon_config (mon_unregister_shard sid m) = mon_config m"
  "mon_config (mon_update_heartbeat now sid m) = mon_config m"
  "mon_config (mon_record_probe_failure now sid m) = mon_config m"
  "mon_config (snd (mon_should_route_to now sid m)) = mon_config m"
  "mon_config (mon_check_heartbeat_timeouts now m) = mon_config m"
  by (simp_all add: mon_register_shard_def mon_unregister_shard_def mon_update_heartbeat_def
    mon_record_probe_failure_def mon_should_route_to_def mon_check_heartbeat_timeouts_def Let_def split_beta
    split: option.splits)

lemma mon_step_ok:
  assumes "mon_inv m" "0 < mc_response_time_window (mon_config m)"
  shows "\<exists>m'. mon_step op m = Some m' \<and> mon_inv m' \<and> mon_config m' = mon_config m"
proof (cases op)
  case (MonProbeSuccess now sid d)
  then show ?thesis using mon_probe_success_ok [OF assms] by simp
qed (simp_all add: assms mon_inv_register mon_inv_unregister mon_inv_heartbeat mon_inv_probe_failure mon_inv_route
    mon_inv_check mon_config_same)

lemma mon_run_ok:
  assumes "mon_inv m" "0 < mc_response_time_window (mon_config m)"
  shows "\<exists>m'. mon_run ops m = Some m' \<and> mon_inv m' \<and> mon_config m' = mon_config m"
  using assms
proof (induction ops arbitrary: m)
  case (Cons op ops)
  obtain m1 where "mon_step op m = Some m1" "mon_inv m1" "mon_config m1 = mon_config m"
    using mon_step_ok [OF Cons.prems] by blast
  then show ?case using Cons.IH [of m1] Cons.prems(2) by simp
qed simp

lemma mon_inv_new: "mon_inv (mon_new cfg)" "mon_config (mon_new cfg) = cfg"
  by (simp_all add: mon_inv_def mon_new_def)

section \<open>Properties of the monitor\<close>

text \<open>
  C7. The monitor never panics when its response time window is positive, and in every state it
  reaches each monitored shard has a breaker whose counters are below their thresholds and whose
  opening time is set whenever it is open.
\<close>

theorem monitor_runs_safely:
  assumes "0 < mc_response_time_window cfg"
  shows "\<exists>m. mon_run ops (mon_new cfg) = Some m \<and> mon_inv m"
  using mon_run_ok [OF mon_inv_new(1)] assms by (auto simp: mon_inv_new)

text \<open>
  With a response time window of zero the first successful probe of a registered shard panics:
  the tracker indexes an empty vector.
\<close>

lemma zero_window_panics:
  assumes "mon_inv m" "mc_response_time_window (mon_config m) = 0" "map_of (mon_states m) sid = Some st"
  shows "mon_record_probe_success now sid d m = None"
  using mon_invD [OF assms(1,3)] assms(2,3)
  by (simp add: mon_record_probe_success_def shs_inv_def rt_record_panics)

text \<open>
  An open circuit blocks routing: until its timeout has passed, \<^verbatim>\<open>should_route_to\<close> refuses the
  shard and leaves the monitor as it is, whatever the shard's health; once it has passed an available
  shard is tried again, and its circuit is half-open.
\<close>

lemma open_circuit_blocks_routing:
  assumes "mon_inv m" "map_of (mon_states m) sid = Some st" "hb_state (shs_breaker st) = CircuitOpen"
    "hb_opened_at (shs_breaker st) = Some t"
  shows "if now - t < hb_timeout (hb_cfg (shs_breaker st))
    then fst (mon_should_route_to now sid m) = False \<and>
         (\<forall>k. map_of (mon_states (snd (mon_should_route_to now sid m))) k = map_of (mon_states m) k)
    else fst (mon_should_route_to now sid m) = health_is_available (shs_health st) \<and>
         (health_is_available (shs_health st) \<longrightarrow>
            (\<exists>st'. map_of (mon_states (snd (mon_should_route_to now sid m))) sid = Some st' \<and>
                   hb_state (shs_breaker st') = CircuitHalfOpen))"
proof -
  have inv: "hb_inv (shs_breaker st)" using mon_invD [OF assms(1,2)] by (simp add: shs_inv_def)
  show ?thesis
  proof (cases "now - t < hb_timeout (hb_cfg (shs_breaker st))")
    case True
    then have "hb_should_allow now (shs_breaker st) = (False, shs_breaker st)"
      using assms(3,4) by (simp add: hb_should_allow_def hb_update_state_def)
    then show ?thesis using True assms(2) by (auto simp: mon_should_route_to_def hm_get_update)
  next
    case False
    then have "hb_should_allow now (shs_breaker st) =
        (True, (shs_breaker st)\<lparr>hb_state := CircuitHalfOpen, hb_success_count := 0\<rparr>)"
      using assms(3,4) by (simp add: hb_should_allow_def hb_update_state_def)
    then show ?thesis using False assms(2) by (auto simp: mon_should_route_to_def hm_get_update)
  qed
qed

subsection \<open>Failed probes\<close>

definition probe_failed :: "monitor_config \<Rightarrow> nat \<Rightarrow> shard_health_state \<Rightarrow> shard_health_state" where
  "probe_failed cfg now st =
     st\<lparr>shs_probe_failures := shs_probe_failures st + 1,
        shs_breaker := hb_record_failure now (shs_breaker st),
        shs_health := failure_health cfg (shs_probe_failures st + 1) (shs_health st)\<rparr>"

lemma probe_failure_state:
  "map_of (mon_states m) sid = Some st \<Longrightarrow> mon_record_probe_failure now sid m =
     m\<lparr>mon_states := AList.update sid (probe_failed (mon_config m) now st) (mon_states m)\<rparr>"
  by (auto simp: mon_record_probe_failure_def probe_failed_def Let_def)

lemma probe_failures_state:
  "map_of (mon_states m) sid = Some st \<Longrightarrow>
   map_of (mon_states (fold (\<lambda>t. mon_record_probe_failure t sid) ts m)) sid =
     Some (fold (probe_failed (mon_config m)) ts st)"
proof (induction ts arbitrary: m st)
  case (Cons t ts)
  let ?m = "mon_record_probe_failure t sid m"
  have "map_of (mon_states ?m) sid = Some (probe_failed (mon_config m) t st)" "mon_config ?m = mon_config m"
    using Cons.prems by (simp_all add: probe_failure_state hm_get_update)
  from Cons.IH [OF this(1)] this(2) show ?case by simp
qed simp

lemma probe_failed_count: "shs_probe_failures (fold (probe_failed cfg) ts st) = shs_probe_failures st + of_nat (length ts)"
  by (induction ts arbitrary: st) (simp_all add: probe_failed_def)

lemma probe_failed_breaker: "shs_breaker (fold (probe_failed cfg) ts st) = fold hb_record_failure ts (shs_breaker st)"
  by (induction ts arbitrary: st) (simp_all add: probe_failed_def)

lemma probe_failed_step:
  "shs_health (probe_failed cfg t st) = failure_health cfg (shs_probe_failures st + 1) (shs_health st)"
  by (simp add: probe_failed_def)

lemma failure_health_mono:
  "(a :: u32) \<le> b \<Longrightarrow> failure_health cfg b (failure_health cfg a h) = failure_health cfg b h"
  by (auto simp: failure_health_def)

lemma probe_failed_health:
  assumes "length ts < 2 ^ 32" "shs_probe_failures st = 0" "ts \<noteq> []"
  shows "shs_health (fold (probe_failed cfg) ts st) = failure_health cfg (of_nat (length ts)) (shs_health st)"
  using assms(1,3)
proof (induction ts rule: rev_induct)
  case (snoc t ts)
  show ?case
  proof (cases "ts = []")
    case True
    then show ?thesis using assms(2) by (simp add: probe_failed_def)
  next
    case False
    let ?c = "of_nat (length ts) :: u32"
    have "unat ?c = length ts" using snoc.prems by (intro unat_of_nat_small) simp
    moreover have "unat (of_nat (Suc (length ts)) :: u32) = Suc (length ts)"
      using snoc.prems by (intro unat_of_nat_small) simp
    ultimately have le: "?c \<le> of_nat (Suc (length ts))" by (simp only: word_le_nat_alt)
    have "shs_health (fold (probe_failed cfg) (ts @ [t]) st) =
        failure_health cfg (of_nat (Suc (length ts))) (failure_health cfg ?c (shs_health st))"
      using snoc.IH False snoc.prems assms(2) probe_failed_count [of cfg ts st]
      by (simp add: probe_failed_step add.commute)
    then show ?thesis using failure_health_mono [OF le] by simp
  qed
qed simp

text \<open>
  Consecutive failed probes escalate: after \<open>n\<close> of them a newly registered shard has a failure
  count of \<open>n\<close>, the health that the configured thresholds give for \<open>n\<close>, and a circuit that is open
  exactly from the failure that reached the breaker's threshold on.
\<close>

lemma probe_failures_escalate:
  assumes "length ts < 2 ^ 32" "ts \<noteq> []"
    and "m = fold (\<lambda>t. mon_record_probe_failure t sid) ts (mon_register_shard t0 sid m0)"
    and "n = max 1 (unat (hb_failure_threshold (mc_circuit_breaker (mon_config m0))))"
  shows "\<exists>st. map_of (mon_states m) sid = Some st \<and>
    unat (shs_probe_failures st) = length ts \<and>
    shs_health st = failure_health (mon_config m0) (of_nat (length ts)) Healthy \<and>
    (if length ts < n then hb_state (shs_breaker st) = CircuitClosed
     else hb_state (shs_breaker st) = CircuitOpen \<and> hb_opened_at (shs_breaker st) = Some (ts ! (n - 1)))"
proof -
  let ?m1 = "mon_register_shard t0 sid m0" and ?cfg = "mon_config m0"
  obtain s0 where s0: "map_of (mon_states ?m1) sid = Some s0" "shs_probe_failures s0 = 0" "shs_health s0 = Healthy"
      "shs_breaker s0 = hb_new (mc_circuit_breaker ?cfg)" "mon_config ?m1 = ?cfg"
    by (simp add: mon_register_shard_def hm_get_update)
  let ?st = "fold (probe_failed ?cfg) ts s0"
  have st: "map_of (mon_states m) sid = Some ?st"
    using probe_failures_state [OF s0(1)] assms(3) s0(5) by simp
  let ?b = "hb_new (mc_circuit_breaker ?cfg)"
  have br: "shs_breaker ?st = fold hb_record_failure ts ?b" using s0(4) by (simp add: probe_failed_breaker)
  have v: "hb_view ?b = VClosed 0" and thr: "max 1 (unat (hb_failure_threshold (hb_cfg ?b))) = n"
    using assms(4) by (simp_all add: hb_view_def hb_new_def)
  have "hb_view (shs_breaker ?st) = (if length ts < n then VClosed (length ts) else VOpen (ts ! (n - 1)))"
    using hb.fail_run [OF hb_inv_new v, of ts] thr assms(4) unfolding br by simp
  moreover have "hb_inv (shs_breaker ?st)" unfolding br by (rule hb.inv_fail_run [OF hb_inv_new])
  ultimately have "if length ts < n then hb_state (shs_breaker ?st) = CircuitClosed
     else hb_state (shs_breaker ?st) = CircuitOpen \<and> hb_opened_at (shs_breaker ?st) = Some (ts ! (n - 1))"
    by (cases "hb_state (shs_breaker ?st)") (auto simp: hb_view_def hb_inv_def split: if_splits)
  moreover have "unat (shs_probe_failures ?st) = length ts"
    using assms(1) s0(2) by (simp add: probe_failed_count unat_of_nat_small)
  moreover have "shs_health ?st = failure_health ?cfg (of_nat (length ts)) Healthy"
    using probe_failed_health [OF assms(1) s0(2) assms(2)] s0(3) by simp
  ultimately show ?thesis using st by blast
qed

subsection \<open>The window of response times\<close>

fun rt_records :: "nat list \<Rightarrow> response_tracker \<Rightarrow> response_tracker option" where
  "rt_records [] t = Some t"
| "rt_records (d # ds) t = (case rt_record d t of None \<Rightarrow> None | Some t' \<Rightarrow> rt_records ds t')"

lemma rt_records_snoc:
  "rt_records (ds @ [d]) t = (case rt_records ds t of None \<Rightarrow> None | Some t' \<Rightarrow> rt_record d t')"
  by (induction ds arbitrary: t) (simp_all split: option.splits)

lemma rotate_overwrite:
  assumes "p < length xs"
  shows "rotate ((p + 1) mod length xs) (xs[p := d]) = tl (rotate p xs) @ [d]"
proof -
  let ?ys = "xs[p := d]"
  have rot: "rotate p zs = drop p zs @ take p zs" if "length zs = length xs" for zs :: "'a list"
    using assms that by (simp add: rotate_drop_take)
  have "rotate ((p + 1) mod length xs) ?ys = rotate1 (rotate p ?ys)"
    using rotate_conv_mod [of "p + 1" ?ys] by simp
  also have "rotate p ?ys = d # drop (Suc p) xs @ take p xs"
    using assms rot [of ?ys] by (simp add: drop_update_swap Cons_nth_drop_Suc [symmetric])
  also have "rotate1 \<dots> = (drop (Suc p) xs @ take p xs) @ [d]" by simp
  also have "drop (Suc p) xs @ take p xs = tl (rotate p xs)"
    using assms rot [of xs] by (simp add: Cons_nth_drop_Suc [symmetric])
  finally show ?thesis .
qed

text \<open>
  The response time window keeps the most recent measurements: a tracker of positive capacity
  records any number of them without panicking, and reading its buffer from the current position
  round gives the last ones in order, as many as fit.
\<close>

lemma tracker_keeps_most_recent:
  assumes "0 < c"
  shows "\<exists>t. rt_records ds (rt_new c) = Some t \<and>
    rotate (rt_position t) (rt_times t) = drop (length ds - c) ds \<and> length (rt_times t) = min c (length ds)"
proof -
  have "\<exists>t. rt_records ds (rt_new c) = Some t \<and> rt_capacity t = c \<and> length (rt_times t) = min c (length ds) \<and>
      (length ds \<le> c \<longrightarrow> rt_position t = 0) \<and> rt_position t < c \<and>
      rotate (rt_position t) (rt_times t) = drop (length ds - c) ds"
  proof (induction ds rule: rev_induct)
    case Nil
    then show ?case using assms by (simp add: rt_new_def)
  next
    case (snoc d ds)
    then obtain t where t: "rt_records ds (rt_new c) = Some t" "rt_capacity t = c"
        "length (rt_times t) = min c (length ds)" "length ds \<le> c \<longrightarrow> rt_position t = 0" "rt_position t < c"
        "rotate (rt_position t) (rt_times t) = drop (length ds - c) ds" by blast
    show ?case
    proof (cases "length ds < c")
      case True
      then show ?thesis using t by (simp add: rt_records_snoc rt_record_def)
    next
      case False
      then have full: "length (rt_times t) = c" using t(3) by simp
      have "tl (drop (length ds - c) ds) @ [d] = drop (Suc (length ds) - c) (ds @ [d])"
        using False assms by (simp add: drop_Suc [symmetric] Suc_diff_le tl_drop)
      then show ?thesis
        using t False full assms rotate_overwrite [of "rt_position t" "rt_times t" d]
        by (simp add: rt_records_snoc rt_record_def)
    qed
  qed
  then show ?thesis by blast
qed

subsection \<open>Statistics\<close>

lemma stats_fold:
  "fold stats_step sts s =
     s\<lparr>hs_healthy := hs_healthy s + length (filter (\<lambda>st. shs_health st = Healthy) sts),
       hs_degraded := hs_degraded s + length (filter (\<lambda>st. shs_health st = HealthDegraded) sts),
       hs_unhealthy := hs_unhealthy s + length (filter (\<lambda>st. shs_health st = Unhealthy) sts),
       hs_down := hs_down s + length (filter (\<lambda>st. shs_health st = HealthDown) sts),
       hs_circuits_open := hs_circuits_open s + length (filter (\<lambda>st. hb_state (shs_breaker st) = CircuitOpen) sts),
       hs_circuits_half_open :=
         hs_circuits_half_open s + length (filter (\<lambda>st. hb_state (shs_breaker st) = CircuitHalfOpen) sts)\<rparr>"
proof (induction sts arbitrary: s)
  case (Cons st sts)
  show ?case unfolding fold.simps comp_def Cons.IH
    by (cases "shs_health st"; cases "hb_state (shs_breaker st)") (simp_all add: stats_step_def)
qed simp

text \<open>
  The statistics are a partition of the shards: the four health counters add up to the number of
  monitored shards, the healthy ones are those \<^verbatim>\<open>get_healthy_shards\<close> lists, open and half-open circuits
  are counted at most once each, and \<^verbatim>\<open>is_cluster_healthy\<close> holds exactly when a strict majority of the
  shards is healthy.
\<close>

lemma stats_partition_shards:
  fixes m defines "s \<equiv> mon_get_stats m"
  shows "hs_healthy s + hs_degraded s + hs_unhealthy s + hs_down s = hs_total_shards s \<and>
    hs_total_shards s = length (mon_states m) \<and>
    hs_healthy s = length (mon_get_healthy_shards m) \<and>
    hs_circuits_open s + hs_circuits_half_open s \<le> hs_total_shards s \<and>
    (is_cluster_healthy s \<longleftrightarrow> 2 * length (mon_get_healthy_shards m) > length (mon_states m))"
proof -
  let ?sts = "map snd (mon_states m)"
  have cnt: "length (filter (\<lambda>st. shs_health st = Healthy) sts) + length (filter (\<lambda>st. shs_health st = HealthDegraded) sts) +
      length (filter (\<lambda>st. shs_health st = Unhealthy) sts) + length (filter (\<lambda>st. shs_health st = HealthDown) sts) =
      length sts" for sts
    by (induction sts) (auto, metis shard_health.exhaust)
  have circ: "length (filter (\<lambda>st. hb_state (shs_breaker st) = CircuitOpen) sts) +
      length (filter (\<lambda>st. hb_state (shs_breaker st) = CircuitHalfOpen) sts) \<le> length sts" for sts
    by (induction sts) auto
  have h: "length (mon_get_healthy_shards m) = length (filter (\<lambda>st. shs_health st = Healthy) ?sts)"
    by (simp add: mon_get_healthy_shards_def filter_map comp_def case_prod_unfold)
  have "is_cluster_healthy s \<longleftrightarrow> 2 * hs_healthy s > hs_total_shards s"
    by (auto simp: is_cluster_healthy_def)
  then show ?thesis unfolding s_def mon_get_stats_def stats_fold h using cnt [of ?sts] circ [of ?sts] by simp
qed

subsection \<open>Heartbeats\<close>

text \<open>
  A heartbeat timeout is final for heartbeats: the check marks exactly the shards whose last
  heartbeat is older than the timeout as down, a shard marked down is not routed to, and no later
  heartbeat changes that.
\<close>

lemma heartbeat_timeout_is_final:
  assumes "map_of (mon_states m) sid = Some st"
    and "m' = fold (\<lambda>t. mon_update_heartbeat t sid) ts (mon_check_heartbeat_timeouts now m)"
  shows "mon_get_health m' sid =
      Some (if (\<exists>t. shs_last_heartbeat st = Some t \<and> now - t > mc_heartbeat_timeout (mon_config m))
            then HealthDown else shs_health st) \<and>
    (mon_get_health m' sid = Some HealthDown \<longrightarrow> (\<forall>later. mon_should_route_to later sid m' = (False, m')))"
proof -
  have keep: "mon_get_health (fold (\<lambda>t. mon_update_heartbeat t sid) ts m) sid = mon_get_health m sid" for m
  proof (induction ts arbitrary: m)
    case (Cons t ts)
    have "mon_get_health (mon_update_heartbeat t sid m) sid = mon_get_health m sid"
      by (simp add: mon_get_health_def mon_update_heartbeat_def hm_get_update split: option.splits)
    then show ?case using Cons by simp
  qed simp
  have "mon_get_health m' sid = Some (shs_health (heartbeat_check now (mon_config m) st))"
    unfolding assms(2) keep using assms(1)
    by (simp add: mon_get_health_def mon_check_heartbeat_timeouts_def map_of_map_values)
  moreover have "mon_should_route_to later sid m' = (False, m')" if "mon_get_health m' sid = Some HealthDown" for later
    using that by (auto simp: mon_get_health_def mon_should_route_to_def)
  ultimately show ?thesis by (auto simp: heartbeat_check_def split: option.splits)
qed

section \<open>Witnesses\<close>

definition demo_mon_config :: monitor_config where
  "demo_mon_config =
     \<lparr>mc_heartbeat_timeout = 30, mc_probe_interval = 10, mc_probe_timeout = 5, mc_degraded_threshold = 1,
      mc_unhealthy_threshold = 2, mc_down_threshold = 4, mc_response_time_window = 3,
      mc_circuit_breaker = \<lparr>hb_failure_threshold = 2, hb_success_threshold = 1, hb_timeout = 20, hb_reset_timeout = 60\<rparr>\<rparr>"

definition demo_monitor :: health_monitor where
  "demo_monitor = mon_register_shard 1 (ShardId 3) (mon_new demo_mon_config)"

definition demo_open_monitor :: health_monitor where
  "demo_open_monitor = fold (\<lambda>t. mon_record_probe_failure t (ShardId 3)) [1, 2] demo_monitor"

lemma demo_open_inv: "mon_inv demo_open_monitor"
  by (simp add: demo_open_monitor_def demo_monitor_def mon_inv_probe_failure mon_inv_register mon_inv_new)

theorem monitor_runs_safely_witness:
  "\<exists>m. mon_run [MonRegister 1 (ShardId 3), MonProbeSuccess 2 (ShardId 3) 7] (mon_new demo_mon_config) = Some m \<and>
     mon_inv m"
  by (rule monitor_runs_safely) (simp add: demo_mon_config_def)

lemma zero_window_panics_witness:
  "mon_record_probe_success 2 (ShardId 3) 7
     (mon_register_shard 1 (ShardId 3) (mon_new (demo_mon_config\<lparr>mc_response_time_window := 0\<rparr>))) = None"
proof -
  let ?m = "mon_register_shard 1 (ShardId 3) (mon_new (demo_mon_config\<lparr>mc_response_time_window := 0\<rparr>))"
  have "\<exists>st. map_of (mon_states ?m) (ShardId 3) = Some st" "mc_response_time_window (mon_config ?m) = 0"
    by (simp_all add: mon_register_shard_def mon_new_def)
  then show ?thesis using zero_window_panics [OF mon_inv_register [OF mon_inv_new(1)]] by blast
qed

lemma probe_failures_escalate_witness:
  "\<exists>st. map_of (mon_states demo_open_monitor) (ShardId 3) = Some st \<and> shs_health st = Unhealthy \<and>
     hb_state (shs_breaker st) = CircuitOpen \<and> hb_opened_at (shs_breaker st) = Some 2"
proof -
  have "2 = max 1 (unat (hb_failure_threshold (mc_circuit_breaker (mon_config (mon_new demo_mon_config)))))"
    by (simp add: mon_new_def demo_mon_config_def)
  from probe_failures_escalate [OF _ _ demo_open_monitor_def [unfolded demo_monitor_def] this]
  show ?thesis by (auto simp: mon_new_def demo_mon_config_def failure_health_def)
qed

lemma open_circuit_blocks_routing_witness:
  "\<exists>st. map_of (mon_states demo_open_monitor) (ShardId 3) = Some st \<and>
     fst (mon_should_route_to 20 (ShardId 3) demo_open_monitor) = False"
proof -
  have "case map_of (mon_states demo_open_monitor) (ShardId 3) of None \<Rightarrow> False | Some st \<Rightarrow>
      hb_state (shs_breaker st) = CircuitOpen \<and> hb_opened_at (shs_breaker st) = Some 2 \<and>
      hb_timeout (hb_cfg (shs_breaker st)) = 20" by code_simp
  then obtain st where st: "map_of (mon_states demo_open_monitor) (ShardId 3) = Some st"
      "hb_state (shs_breaker st) = CircuitOpen" "hb_opened_at (shs_breaker st) = Some 2"
      "hb_timeout (hb_cfg (shs_breaker st)) = 20" by (auto split: option.splits)
  show ?thesis using open_circuit_blocks_routing [OF demo_open_inv st(1-3), of 20] st(1,4) by simp
qed

lemma tracker_keeps_most_recent_witness:
  "\<exists>t. rt_records [5, 6, 7] (rt_new 2) = Some t \<and> rotate (rt_position t) (rt_times t) = [6, 7]"
  using tracker_keeps_most_recent [of 2 "[5, 6, 7]"] by auto

lemma heartbeat_timeout_is_final_witness:
  "mon_get_health (fold (\<lambda>t. mon_update_heartbeat t (ShardId 3)) [50] (mon_check_heartbeat_timeouts 40 demo_monitor))
     (ShardId 3) = Some HealthDown"
proof -
  have "case map_of (mon_states demo_monitor) (ShardId 3) of None \<Rightarrow> False | Some st \<Rightarrow>
      shs_last_heartbeat st = Some 1" "mc_heartbeat_timeout (mon_config demo_monitor) = 30" by code_simp+
  then obtain st where st: "map_of (mon_states demo_monitor) (ShardId 3) = Some st" "shs_last_heartbeat st = Some 1"
    by (auto split: option.splits)
  show ?thesis
    using heartbeat_timeout_is_final [OF st(1) refl, of "[50]" 40] st(2)
      \<open>mc_heartbeat_timeout (mon_config demo_monitor) = 30\<close> by simp
qed

end
