(* ===== verification/TxIds.thy ===== *)
theory TxIds
  imports HealthMonitor
begin

unbundle bit_operations_syntax

text \<open>
  Model of \<^verbatim>\<open>arcxa-coordinator/src/bitemporal/annotations.rs\<close> and
  \<^verbatim>\<open>arcxa-coordinator/src/bitemporal/transaction_manager.rs\<close>: transaction identifiers, the bitemporal
  annotations of a version, and the manager that hands out identifiers. A \<^verbatim>\<open>DateTime<Utc>\<close> is an
  integer (nanoseconds), and the wall clock of \<^verbatim>\<open>begin_transaction\<close> is the argument \<open>now\<close>. The manager is
  shared by threads; its only shared state is an atomic counter, so an execution of many threads is a
  sequence of \<^verbatim>\<open>begin_transaction\<close> steps in the order of their \<^verbatim>\<open>fetch_add\<close>, whose clock readings are
  in no particular order. The printed forms (RFC 3339) are not modelled.
\<close>

section \<open>Transaction identifiers\<close>

record transaction_id =
  tx_seq :: u64
  tx_timestamp :: int
  tx_node_id :: u16

definition transaction_id_new :: "u64 \<Rightarrow> int \<Rightarrow> u16 \<Rightarrow> transaction_id" where
  "transaction_id_new seq ts node = \<lparr>tx_seq = seq, tx_timestamp = ts, tx_node_id = node\<rparr>"

definition global_ordering_key :: "transaction_id \<Rightarrow> u128" where
  "global_ordering_key t = push_bit 64 (ucast (tx_node_id t)) OR ucast (tx_seq t)"

text \<open>\<^verbatim>\<open>std::cmp::Ordering\<close> and the comparison of unsigned integers.\<close>

datatype ordering = OLess | OEqual | OGreater

definition word_cmp :: "'a::len word \<Rightarrow> 'a word \<Rightarrow> ordering" where
  "word_cmp a b = (if a < b then OLess else if a = b then OEqual else OGreater)"

definition transaction_id_cmp :: "transaction_id \<Rightarrow> transaction_id \<Rightarrow> ordering" where
  "transaction_id_cmp a b =
     (case word_cmp (tx_seq a) (tx_seq b) of
        OEqual \<Rightarrow> word_cmp (tx_node_id a) (tx_node_id b)
      | other \<Rightarrow> other)"

section \<open>Annotations of a version\<close>

record annotations =
  an_tx_id :: transaction_id
  an_tx_from :: int
  an_tx_to :: "int option"
  an_valid_from :: int
  an_valid_to :: "int option"

definition annotations_new :: "transaction_id \<Rightarrow> int \<Rightarrow> int option \<Rightarrow> annotations" where
  "annotations_new tx vf vt =
     \<lparr>an_tx_id = tx, an_tx_from = tx_timestamp tx, an_tx_to = None, an_valid_from = vf, an_valid_to = vt\<rparr>"

definition is_current_version :: "annotations \<Rightarrow> bool" where
  "is_current_version a \<longleftrightarrow> an_tx_to a = None"

definition is_currently_valid :: "annotations \<Rightarrow> bool" where
  "is_currently_valid a \<longleftrightarrow> an_valid_to a = None"

definition visible_at_tx_time :: "annotations \<Rightarrow> int \<Rightarrow> bool" where
  "visible_at_tx_time a t \<longleftrightarrow> an_tx_from a \<le> t \<and> (case an_tx_to a of None \<Rightarrow> True | Some to \<Rightarrow> t < to)"

definition valid_at_time :: "annotations \<Rightarrow> int \<Rightarrow> bool" where
  "valid_at_time a t \<longleftrightarrow> an_valid_from a \<le> t \<and> (case an_valid_to a of None \<Rightarrow> True | Some to \<Rightarrow> t < to)"

definition visible_at :: "annotations \<Rightarrow> int \<Rightarrow> int \<Rightarrow> bool" where
  "visible_at a tx_time valid_time \<longleftrightarrow> visible_at_tx_time a tx_time \<and> valid_at_time a valid_time"

definition close_version :: "transaction_id \<Rightarrow> annotations \<Rightarrow> annotations" where
  "close_version closing a = a\<lparr>an_tx_to := Some (tx_timestamp closing)\<rparr>"

definition close_valid_time :: "int \<Rightarrow> annotations \<Rightarrow> annotations" where
  "close_valid_time end_time a = a\<lparr>an_valid_to := Some end_time\<rparr>"

section \<open>The transaction manager\<close>

record transaction_manager =
  tm_next_seq :: u64
  tm_node_id :: u16

definition tm_new :: "u16 \<Rightarrow> transaction_manager" where
  "tm_new node = \<lparr>tm_next_seq = 1, tm_node_id = node\<rparr>"

text \<open>The assertion on the start sequence panics (\<open>None\<close>).\<close>

definition tm_with_start_seq :: "u16 \<Rightarrow> u64 \<Rightarrow> transaction_manager option" where
  "tm_with_start_seq node start = (if start > 0 then Some \<lparr>tm_next_seq = start, tm_node_id = node\<rparr> else None)"

text \<open>\<^verbatim>\<open>fetch_add\<close> returns the old value and wraps around on overflow.\<close>

definition begin_transaction :: "int \<Rightarrow> transaction_manager \<Rightarrow> transaction_id \<times> transaction_manager" where
  "begin_transaction now m =
     (\<lparr>tx_seq = tm_next_seq m, tx_timestamp = now, tx_node_id = tm_node_id m\<rparr>,
      m\<lparr>tm_next_seq := tm_next_seq m + 1\<rparr>)"

definition peek_next_seq :: "transaction_manager \<Rightarrow> u64" where
  "peek_next_seq m = tm_next_seq m"

fun begin_many :: "int list \<Rightarrow> transaction_manager \<Rightarrow> transaction_id list \<times> transaction_manager" where
  "begin_many [] m = ([], m)"
| "begin_many (now # ts) m =
     (let (t, m') = begin_transaction now m; (rest, m'') = begin_many ts m' in (t # rest, m''))"

section \<open>Order and keys\<close>

lemma word_cmp_simps:
  "word_cmp a b = OLess \<longleftrightarrow> a < b" "word_cmp a b = OEqual \<longleftrightarrow> a = b" "word_cmp a b = OGreater \<longleftrightarrow> b < a"
  by (auto simp: word_cmp_def)

lemma tx_cmp_simps:
  "transaction_id_cmp a b = OLess \<longleftrightarrow> tx_seq a < tx_seq b \<or> (tx_seq a = tx_seq b \<and> tx_node_id a < tx_node_id b)"
  "transaction_id_cmp a b = OEqual \<longleftrightarrow> tx_seq a = tx_seq b \<and> tx_node_id a = tx_node_id b"
  by (auto simp: transaction_id_cmp_def word_cmp_def)

lemma key_value: "unat (global_ordering_key t) = unat (tx_node_id t) * 2 ^ 64 + unat (tx_seq t)"
proof -
  let ?n = "ucast (tx_node_id t) :: u128" and ?s = "ucast (tx_seq t) :: u128"
  have n: "unat ?n = unat (tx_node_id t)" and s: "unat ?s = unat (tx_seq t)"
    using unat_lt [of "tx_node_id t"] unat_lt [of "tx_seq t"]
    by (simp_all add: unsigned_ucast_eq take_bit_nat_eq_self)
  have disj: "push_bit 64 ?n AND ?s = 0"
  proof (rule bit_word_eqI)
    fix i
    have "\<not> bit ?s i" if "64 \<le> i"
      using that by (auto simp: bit_ucast_iff dest: bit_imp_le_length)
    then show "bit (push_bit 64 ?n AND ?s) i \<longleftrightarrow> bit (0 :: u128) i"
      by (auto simp: bit_and_iff bit_push_bit_iff)
  qed
  have "global_ordering_key t = push_bit 64 ?n + ?s"
    unfolding global_ordering_key_def by (rule disjunctive_add_eq_or [OF disj, symmetric])
  moreover have "unat (push_bit 64 ?n) = unat (tx_node_id t) * 2 ^ 64"
    using n unat_lt [of "tx_node_id t"]
    by (simp add: push_bit_eq_mult unat_word_ariths)
  ultimately show ?thesis
    using s unat_lt [of "tx_node_id t"] unat_lt [of "tx_seq t"] by (simp add: unat_word_ariths)
qed

lemma lex_less:
  fixes a b x y M :: nat
  assumes "x < M" "y < M"
  shows "a * M + x < b * M + y \<longleftrightarrow> a < b \<or> (a = b \<and> x < y)"
proof -
  have less: "c * M + u < d * M + v" if "c < d" "u < M" for c d u v
  proof -
    have "c * M + u < (c + 1) * M" using that(2) by simp
    also have "\<dots> \<le> d * M" using that(1) by (intro mult_right_mono) simp_all
    finally show ?thesis by simp
  qed
  show ?thesis using less [of a b x y] less [of b a y x] assms
    by (cases a b rule: linorder_cases) auto
qed

lemma key_lex:
  "global_ordering_key a < global_ordering_key b \<longleftrightarrow>
     tx_node_id a < tx_node_id b \<or> (tx_node_id a = tx_node_id b \<and> tx_seq a < tx_seq b)"
proof -
  have "unat (tx_seq a) < 2 ^ 64" "unat (tx_seq b) < 2 ^ 64"
    using unat_lt [of "tx_seq a"] unat_lt [of "tx_seq b"] by simp_all
  from lex_less [OF this] show ?thesis
    unfolding word_less_nat_alt key_value word_unat_eq_iff by blast
qed

lemma key_eq:
  "global_ordering_key a = global_ordering_key b \<longleftrightarrow> tx_node_id a = tx_node_id b \<and> tx_seq a = tx_seq b"
proof
  assume "global_ordering_key a = global_ordering_key b"
  then have "\<not> global_ordering_key a < global_ordering_key b" "\<not> global_ordering_key b < global_ordering_key a"
    by simp_all
  then show "tx_node_id a = tx_node_id b \<and> tx_seq a = tx_seq b"
    unfolding key_lex by (meson linorder_neqE)
qed (simp add: global_ordering_key_def)

lemma begin_many_ids:
  "fst (begin_many ts m) =
     map (\<lambda>i. \<lparr>tx_seq = tm_next_seq m + of_nat i, tx_timestamp = ts ! i, tx_node_id = tm_node_id m\<rparr>) [0..<length ts]"
proof (induction ts arbitrary: m)
  case (Cons now ts)
  have "map (\<lambda>i. \<lparr>tx_seq = tm_next_seq m + of_nat i, tx_timestamp = (now # ts) ! i, tx_node_id = tm_node_id m\<rparr>)
      [0..<length (now # ts)] =
    \<lparr>tx_seq = tm_next_seq m, tx_timestamp = now, tx_node_id = tm_node_id m\<rparr> #
    map (\<lambda>i. \<lparr>tx_seq = (tm_next_seq m + 1) + of_nat i, tx_timestamp = ts ! i, tx_node_id = tm_node_id m\<rparr>) [0..<length ts]"
    by (simp add: map_upt_Suc add.assoc del: upt_Suc)
  then show ?case using Cons.IH [of "m\<lparr>tm_next_seq := tm_next_seq m + 1\<rparr>"]
    by (simp add: begin_transaction_def split_beta Let_def del: upt_Suc)
qed simp

text \<open>
  Identifiers are unique and increasing: as long as the 64-bit counter is not exhausted, every
  transaction begun later on a manager, by whatever thread and whatever the clock says, compares
  greater and has a greater ordering key than every one begun before it; and identifiers of managers
  with different node numbers never share an ordering key.
\<close>

lemma transaction_ids_increase:
  assumes "unat (tm_next_seq m) + length ts \<le> 2 ^ 64" "tm_node_id m' \<noteq> tm_node_id m"
  shows "(\<forall>i j. i < j \<and> j < length ts \<longrightarrow>
      transaction_id_cmp (fst (begin_many ts m) ! i) (fst (begin_many ts m) ! j) = OLess \<and>
      global_ordering_key (fst (begin_many ts m) ! i) < global_ordering_key (fst (begin_many ts m) ! j)) \<and>
    global_ordering_key ` set (fst (begin_many ts m)) \<inter> global_ordering_key ` set (fst (begin_many ts' m')) = {}"
proof -
  have seq: "unat (tm_next_seq m + of_nat i) = unat (tm_next_seq m) + i" if "i < length ts" for i
  proof -
    have "unat (of_nat i :: u64) = i" using that assms(1) by (intro unat_of_nat_small) simp
    then show ?thesis using that assms(1) by (simp add: unat_word_ariths)
  qed
  have "tx_seq (fst (begin_many ts m) ! i) < tx_seq (fst (begin_many ts m) ! j)" if "i < j" "j < length ts" for i j
    using that by (simp add: begin_many_ids word_less_nat_alt seq)
  moreover have "tx_node_id (fst (begin_many ts m) ! i) = tm_node_id m" if "i < length ts" for i
    using that by (simp add: begin_many_ids)
  ultimately have "\<forall>i j. i < j \<and> j < length ts \<longrightarrow>
      transaction_id_cmp (fst (begin_many ts m) ! i) (fst (begin_many ts m) ! j) = OLess \<and>
      global_ordering_key (fst (begin_many ts m) ! i) < global_ordering_key (fst (begin_many ts m) ! j)"
    by (simp add: tx_cmp_simps key_lex)
  moreover have "tx_node_id t = tm_node_id k" if "t \<in> set (fst (begin_many us k))" for t us k
    using that by (auto simp: begin_many_ids)
  then have "global_ordering_key ` set (fst (begin_many ts m)) \<inter> global_ordering_key ` set (fst (begin_many ts' m')) = {}"
    using assms(2) by (fastforce simp: key_eq)
  ultimately show ?thesis by blast
qed

lemma transaction_ids_increase_witness:
  "transaction_id_cmp (fst (begin_many [9, 4] (tm_new 1)) ! 0) (fst (begin_many [9, 4] (tm_new 1)) ! 1) = OLess"
  using transaction_ids_increase [of "tm_new 1" "[9, 4]" "tm_new 2" "[]"] by (auto simp: tm_new_def)

text \<open>
  Two notions of order and equality coexist: the ordering key compares the node first and the
  sequence second, \<^verbatim>\<open>cmp\<close> the other way round, and both ignore the timestamp, so identifiers that
  differ only in their timestamp compare as equal although they are not equal.
\<close>

lemma ordering_key_versus_cmp:
  "(global_ordering_key a < global_ordering_key b \<longleftrightarrow>
      tx_node_id a < tx_node_id b \<or> (tx_node_id a = tx_node_id b \<and> tx_seq a < tx_seq b)) \<and>
   (transaction_id_cmp a b = OLess \<longleftrightarrow>
      tx_seq a < tx_seq b \<or> (tx_seq a = tx_seq b \<and> tx_node_id a < tx_node_id b)) \<and>
   (transaction_id_cmp a b = OEqual \<longleftrightarrow> global_ordering_key a = global_ordering_key b) \<and>
   (transaction_id_cmp a (a\<lparr>tx_timestamp := tx_timestamp a + 1\<rparr>) = OEqual \<and> a\<lparr>tx_timestamp := tx_timestamp a + 1\<rparr> \<noteq> a)"
proof -
  have "a\<lparr>tx_timestamp := tx_timestamp a + 1\<rparr> \<noteq> a" by (cases a) simp
  then show ?thesis by (auto simp: key_lex key_eq tx_cmp_simps)
qed

section \<open>Version timelines\<close>

text \<open>
  The history of one fact: every new version closes the one before it. \<open>timeline\<close> is the list of the
  annotations after the transactions \<open>txs\<close> have written one version each.
\<close>

fun timeline :: "(transaction_id \<times> int \<times> int option) list \<Rightarrow> annotations list" where
  "timeline [] = []"
| "timeline [(tx, vf, vt)] = [annotations_new tx vf vt]"
| "timeline ((tx, vf, vt) # (tx', w) # rest) =
     close_version tx' (annotations_new tx vf vt) # timeline ((tx', w) # rest)"

lemma timeline_length: "length (timeline vs) = length vs"
  by (induction vs rule: timeline.induct) simp_all

lemma timeline_nth:
  "i < length vs \<Longrightarrow> an_tx_from (timeline vs ! i) = tx_timestamp (fst (vs ! i)) \<and>
     an_tx_to (timeline vs ! i) = (if Suc i < length vs then Some (tx_timestamp (fst (vs ! Suc i))) else None)"
proof (induction vs arbitrary: i rule: timeline.induct)
  case (3 tx vf vt tx' w rest)
  then show ?case by (cases i) (simp_all add: close_version_def annotations_new_def)
qed (simp_all add: annotations_new_def)

text \<open>
  Version timelines are partitions: when each version closes its predecessor and the transactions'
  clock readings increase, at every transaction time from the first version on exactly one version is
  visible, and before it none; only the last version is current.
\<close>

lemma timeline_partitions_tx_time:
  assumes "vs \<noteq> []" "sorted_wrt (<) (map (tx_timestamp \<circ> fst) vs)"
  shows "(if tx_timestamp (fst (hd vs)) \<le> t
     then \<exists>!i. i < length vs \<and> visible_at_tx_time (timeline vs ! i) t
     else \<forall>i < length vs. \<not> visible_at_tx_time (timeline vs ! i) t) \<and>
    (\<forall>i < length vs. is_current_version (timeline vs ! i) \<longleftrightarrow> Suc i = length vs)"
proof -
  let ?ts = "map (tx_timestamp \<circ> fst) vs"
  have mono: "?ts ! i < ?ts ! j" if "i < j" "j < length vs" for i j
    using assms(2) that by (simp add: sorted_wrt_iff_nth_less)
  have vis: "visible_at_tx_time (timeline vs ! i) t \<longleftrightarrow>
      ?ts ! i \<le> t \<and> (Suc i < length vs \<longrightarrow> t < ?ts ! Suc i)" if "i < length vs" for i
    using timeline_nth [OF that] that by (simp add: visible_at_tx_time_def)
  have cur: "is_current_version (timeline vs ! i) \<longleftrightarrow> Suc i = length vs" if "i < length vs" for i
    using timeline_nth [OF that] that by (auto simp: is_current_version_def)
  have h: "?ts ! 0 = tx_timestamp (fst (hd vs))" using assms(1) by (simp add: hd_conv_nth)
  have none: "\<not> visible_at_tx_time (timeline vs ! i) t" if "t < ?ts ! 0" "i < length vs" for i
    using vis [OF that(2)] mono [of 0 i] that by (cases i) auto
  have one: "\<exists>!i. i < length vs \<and> visible_at_tx_time (timeline vs ! i) t" if "?ts ! 0 \<le> t"
  proof -
    define i where "i = Max {k. k < length vs \<and> ?ts ! k \<le> t}"
    have fin: "finite {k. k < length vs \<and> ?ts ! k \<le> t}" and ne: "{k. k < length vs \<and> ?ts ! k \<le> t} \<noteq> {}"
      using that assms(1) by auto
    have i: "i < length vs" "?ts ! i \<le> t" using Max_in [OF fin ne] unfolding i_def by blast+
    have top: "k \<le> i" if "k < length vs" "?ts ! k \<le> t" for k using Max_ge [OF fin, of k] that unfolding i_def by simp
    show ?thesis
    proof (rule ex1I [of _ i])
      show "i < length vs \<and> visible_at_tx_time (timeline vs ! i) t"
        using vis [OF i(1)] i top [of "Suc i"] by fastforce
    next
      fix j assume j: "j < length vs \<and> visible_at_tx_time (timeline vs ! j) t"
      then have "j \<le> i" using top vis by blast
      moreover have "\<not> j < i"
        using mono [of "Suc j" i] vis [of j] i j by (cases "Suc j = i") (auto simp: less_Suc_eq)
      ultimately show "j = i" by simp
    qed
  qed
  show ?thesis using none one cur h by (simp add: not_le)
qed

lemma timeline_partitions_tx_time_witness:
  "\<exists>!i. i < 2 \<and> visible_at_tx_time
     (timeline [(transaction_id_new 1 10 1, 0, None), (transaction_id_new 2 20 1, 0, None)] ! i) 15"
  using timeline_partitions_tx_time
    [of "[(transaction_id_new 1 10 1, 0, None), (transaction_id_new 2 20 1, 0, None)]" 15]
  by (simp add: transaction_id_new_def numeral_2_eq_2)

text \<open>
  Clock skew hides history: the sequence number does not protect the timeline. When the closing
  transaction's clock is not ahead of the closed version's, the closed version is visible at no
  transaction time at all.
\<close>

lemma clock_skew_hides_version:
  assumes "tx_timestamp closing \<le> tx_timestamp tx"
  shows "\<not> visible_at_tx_time (close_version closing (annotations_new tx vf vt)) t"
  using assms by (simp add: visible_at_tx_time_def close_version_def annotations_new_def)

lemma clock_skew_hides_version_witness:
  "\<not> visible_at_tx_time (close_version (transaction_id_new 8 5 1) (annotations_new (transaction_id_new 7 6 1) 0 None)) 100"
  by (rule clock_skew_hides_version) (simp add: transaction_id_new_def)

end
