(* ===== verification/AuditEntry.thy ===== *)
theory AuditEntry
  imports TxIds
begin

text \<open>
  Model of \<^verbatim>\<open>arcxa-coordinator/src/bitemporal/audit/crypto.rs\<close> and \<^verbatim>\<open>entry.rs\<close>: the hash type, audit
  entries and their signing and verification. SHA-256, Ed25519, the JSON and bincode serializers and
  the hex codec are library code: they are the fields of the record \<open>audit_lib\<close> that every
  operation takes. What the theorems use of them is the predicate \<open>lib_lawful\<close>: digests,
  signatures and keys have their documented lengths, a signature made with a key verifies under its
  public key, and serialized values read back as they were.
\<close>

type_synonym bytes = "u8 list"

section \<open>Hashes and entries\<close>

text \<open>A \<^verbatim>\<open>Hash\<close> wraps an array of 32 bytes.\<close>

datatype hash = Hash (hash_bytes: bytes)

definition hash_zero :: hash where
  "hash_zero = Hash (replicate 32 0)"

datatype audit_operation = OpInsert | OpUpdate | OpDelete | OpQuery

record audit_entry =
  ae_tx_id :: transaction_id
  ae_operation :: audit_operation
  ae_node_id :: u64
  ae_timestamp :: u64
  ae_subject :: "string option"
  ae_predicate :: "string option"
  ae_object :: "string option"
  ae_initiator :: string

record signed_entry =
  se_entry :: audit_entry
  se_entry_hash :: hash
  se_previous_hash :: hash
  se_signature :: bytes
  se_public_key :: bytes

section \<open>The library interface\<close>

text \<open>
  A signing key is its 32 secret bytes. \<^verbatim>\<open>VerifyingKey::from_bytes\<close> rejects byte strings that are not
  points of the curve (\<open>al_key_ok\<close>).
\<close>

record audit_lib =
  al_sha256 :: "bytes \<Rightarrow> bytes"
  al_sign :: "bytes \<Rightarrow> bytes \<Rightarrow> bytes"
  al_verifying_key :: "bytes \<Rightarrow> bytes"
  al_key_ok :: "bytes \<Rightarrow> bool"
  al_verify :: "bytes \<Rightarrow> bytes \<Rightarrow> bytes \<Rightarrow> bool"
  al_json :: "audit_entry \<Rightarrow> bytes"
  al_encode :: "signed_entry \<Rightarrow> bytes option"
  al_decode :: "bytes \<Rightarrow> signed_entry option"
  al_encode_all :: "signed_entry list \<Rightarrow> bytes option"
  al_decode_all :: "bytes \<Rightarrow> signed_entry list option"
  al_hex :: "bytes \<Rightarrow> string"
  al_unhex :: "string \<Rightarrow> bytes option"

definition lib_lawful :: "audit_lib \<Rightarrow> bool" where
  "lib_lawful L \<longleftrightarrow>
     (\<forall>d. length (al_sha256 L d) = 32) \<and>
     (\<forall>k m. length (al_sign L k m) = 64) \<and>
     (\<forall>k. length (al_verifying_key L k) = 32 \<and> al_key_ok L (al_verifying_key L k)) \<and>
     (\<forall>k m. al_verify L (al_verifying_key L k) m (al_sign L k m)) \<and>
     inj (al_json L) \<and>
     (\<forall>e b. al_encode L e = Some b \<longrightarrow> al_decode L b = Some e) \<and>
     (\<forall>es b. al_encode_all L es = Some b \<longrightarrow> al_decode_all L b = Some es) \<and>
     (\<forall>b. al_unhex L (al_hex L b) = Some b \<and> length (al_hex L b) = 2 * length b)"

section \<open>Operations on hashes\<close>

definition hash_compute :: "audit_lib \<Rightarrow> bytes \<Rightarrow> hash" where
  "hash_compute L data = Hash (al_sha256 L data)"

definition hash_compute_multi :: "audit_lib \<Rightarrow> bytes list \<Rightarrow> hash" where
  "hash_compute_multi L inputs = Hash (al_sha256 L (concat inputs))"

definition hash_from_bytes :: "bytes \<Rightarrow> hash option" where
  "hash_from_bytes bs = (if length bs \<noteq> 32 then None else Some (Hash bs))"

definition hash_to_hex :: "audit_lib \<Rightarrow> hash \<Rightarrow> string" where
  "hash_to_hex L h = al_hex L (hash_bytes h)"

definition hash_from_hex :: "audit_lib \<Rightarrow> string \<Rightarrow> hash option" where
  "hash_from_hex L s =
     (if length s \<noteq> 64 then None
      else case al_unhex L s of None \<Rightarrow> None | Some bs \<Rightarrow> hash_from_bytes bs)"

section \<open>Operations on entries\<close>

definition audit_entry_new :: "u64 \<Rightarrow> transaction_id \<Rightarrow> audit_operation \<Rightarrow> u64 \<Rightarrow> string \<Rightarrow> audit_entry" where
  "audit_entry_new now tx op node initiator =
     \<lparr>ae_tx_id = tx, ae_operation = op, ae_node_id = node, ae_timestamp = now, ae_subject = None,
      ae_predicate = None, ae_object = None, ae_initiator = initiator\<rparr>"

definition with_triple :: "string \<Rightarrow> string \<Rightarrow> string \<Rightarrow> audit_entry \<Rightarrow> audit_entry" where
  "with_triple s p ob e = e\<lparr>ae_subject := Some s, ae_predicate := Some p, ae_object := Some ob\<rparr>"

definition compute_hash :: "audit_lib \<Rightarrow> audit_entry \<Rightarrow> hash" where
  "compute_hash L e = hash_compute L (al_json L e)"

definition entry_sign :: "audit_lib \<Rightarrow> audit_entry \<Rightarrow> bytes \<Rightarrow> hash \<Rightarrow> signed_entry" where
  "entry_sign L e key previous =
     (let entry_hash = compute_hash L e;
          message = hash_bytes entry_hash @ hash_bytes previous
      in \<lparr>se_entry = e, se_entry_hash = entry_hash, se_previous_hash = previous,
          se_signature = al_sign L key message, se_public_key = al_verifying_key L key\<rparr>)"

definition verify_signature :: "audit_lib \<Rightarrow> signed_entry \<Rightarrow> bool" where
  "verify_signature L s =
     (let message = hash_bytes (se_entry_hash s) @ hash_bytes (se_previous_hash s)
      in if al_key_ok L (se_public_key s)
         then al_verify L (se_public_key s) message (se_signature s) else False)"

definition verify_entry_hash :: "audit_lib \<Rightarrow> signed_entry \<Rightarrow> bool" where
  "verify_entry_hash L s \<longleftrightarrow> compute_hash L (se_entry s) = se_entry_hash s"

definition entry_verify :: "audit_lib \<Rightarrow> signed_entry \<Rightarrow> bool" where
  "entry_verify L s \<longleftrightarrow> verify_entry_hash L s \<and> verify_signature L s"

definition entry_to_bytes :: "audit_lib \<Rightarrow> signed_entry \<Rightarrow> bytes option" where
  "entry_to_bytes L s = al_encode L s"

definition entry_from_bytes :: "audit_lib \<Rightarrow> bytes \<Rightarrow> signed_entry option" where
  "entry_from_bytes L bs = al_decode L bs"

section \<open>What signing gives\<close>

lemma libD:
  assumes "lib_lawful L"
  shows "length (al_sha256 L d) = 32" "length (al_sign L k m) = 64"
    "length (al_verifying_key L k) = 32" "al_key_ok L (al_verifying_key L k)"
    "al_verify L (al_verifying_key L k) m (al_sign L k m)" "inj (al_json L)"
    "al_encode L e = Some b \<Longrightarrow> al_decode L b = Some e"
    "al_encode_all L es = Some b \<Longrightarrow> al_decode_all L b = Some es"
    "al_unhex L (al_hex L b) = Some b" "length (al_hex L b) = 2 * length b"
  using assms unfolding lib_lawful_def by blast+

lemma hash_length: "lib_lawful L \<Longrightarrow> length (hash_bytes (hash_compute L d)) = 32"
  by (simp add: hash_compute_def libD(1))

lemma hash_hex_roundtrip:
  assumes "lib_lawful L" "length (hash_bytes h) = 32"
  shows "hash_from_hex L (hash_to_hex L h) = Some h"
  using assms by (simp add: hash_from_hex_def hash_to_hex_def hash_from_bytes_def libD(9,10))

lemma hash_to_hex_inject: "lib_lawful L \<Longrightarrow> hash_to_hex L a = hash_to_hex L b \<longleftrightarrow> a = b"
  unfolding hash_to_hex_def by (metis libD(9) hash.expand option.inject)

lemma entry_sign_simps [simp]:
  "se_entry (entry_sign L e k p) = e" "se_entry_hash (entry_sign L e k p) = compute_hash L e"
  "se_previous_hash (entry_sign L e k p) = p" "se_public_key (entry_sign L e k p) = al_verifying_key L k"
  by (simp_all add: entry_sign_def Let_def)

lemma sign_verifies: "lib_lawful L \<Longrightarrow> entry_verify L (entry_sign L e key prev)"
  by (simp add: entry_verify_def verify_entry_hash_def verify_signature_def libD(4))
    (simp add: entry_sign_def Let_def libD(5))

text \<open>
  Two different inputs with the same digest. Such pairs exist for every hash function; what the
  theorems say is that an attack exhibits one, namely the pair they name.
\<close>

definition collides :: "audit_lib \<Rightarrow> bytes \<Rightarrow> bytes \<Rightarrow> bool" where
  "collides L a b \<longleftrightarrow> a \<noteq> b \<and> al_sha256 L a = al_sha256 L b"

lemma same_hash_same_entry:
  assumes "lib_lawful L" "verify_entry_hash L a" "verify_entry_hash L b" "se_entry_hash a = se_entry_hash b"
  shows "se_entry a = se_entry b \<or> collides L (al_json L (se_entry a)) (al_json L (se_entry b))"
proof -
  have "al_sha256 L (al_json L (se_entry a)) = al_sha256 L (al_json L (se_entry b))"
    using assms(2-4) by (simp add: verify_entry_hash_def compute_hash_def hash_compute_def) (metis hash.inject)
  then show ?thesis using libD(6) [OF assms(1)] by (auto simp: collides_def dest: injD)
qed

text \<open>
  One signature that is valid for two different messages under the same key.  As with collisions,
  the theorems name the pair of messages an attack exhibits.
\<close>

definition signed_message :: "signed_entry \<Rightarrow> bytes" where
  "signed_message s = hash_bytes (se_entry_hash s) @ hash_bytes (se_previous_hash s)"

definition signs_both :: "audit_lib \<Rightarrow> bytes \<Rightarrow> bytes \<Rightarrow> bytes \<Rightarrow> bytes \<Rightarrow> bool" where
  "signs_both L pk sig m m' \<longleftrightarrow> m \<noteq> m' \<and> al_verify L pk m sig \<and> al_verify L pk m' sig"

lemma verified_signature:
  "entry_verify L s \<Longrightarrow> al_verify L (se_public_key s) (signed_message s) (se_signature s)"
  by (simp add: entry_verify_def verify_signature_def signed_message_def Let_def split: if_splits)

lemma verified_hash_length: "lib_lawful L \<Longrightarrow> entry_verify L s \<Longrightarrow> length (hash_bytes (se_entry_hash s)) = 32"
  using hash_length [of L "al_json L (se_entry s)"]
  by (simp add: entry_verify_def verify_entry_hash_def compute_hash_def)

lemma same_message:
  assumes "lib_lawful L" "entry_verify L s" "entry_verify L s'" "signed_message s = signed_message s'"
  shows "se_entry_hash s = se_entry_hash s'" "se_previous_hash s = se_previous_hash s'"
  using assms(4) verified_hash_length [OF assms(1,2)] verified_hash_length [OF assms(1,3)]
  by (simp_all add: signed_message_def hash.expand)

lemma verified_entries_agree:
  assumes "lib_lawful L" "entry_verify L s" "entry_verify L s'"
    and "se_signature s' = se_signature s" "se_public_key s' = se_public_key s"
  shows "s' = s \<or> collides L (al_json L (se_entry s')) (al_json L (se_entry s)) \<or>
    signs_both L (se_public_key s) (se_signature s) (signed_message s') (signed_message s)"
proof (cases "signed_message s' = signed_message s")
  case True
  note same = same_message [OF assms(1,3,2) True]
  have "se_entry s' = se_entry s \<or> collides L (al_json L (se_entry s')) (al_json L (se_entry s))"
    using same_hash_same_entry [OF assms(1), of s' s] assms(2,3) same(1) by (simp add: entry_verify_def)
  then show ?thesis using same assms(4,5) by (auto intro: signed_entry.equality)
next
  case False
  then show ?thesis
    using verified_signature [OF assms(2)] verified_signature [OF assms(3)] assms(4,5) by (simp add: signs_both_def)
qed

text \<open>
  C8. Signing and verification of one entry. Let the signatures of a key pass the check with its public
  key, hashes and keys have their fixed lengths, and different contents have different JSON forms (the
  laws of the libraries).  Then an entry signed with any key verifies, and whatever is
  changed in it afterwards (its content, its hash or its place in the chain) under the same signature
  and public key, it no longer verifies, unless the JSON forms of the two contents are a SHA-256
  collision or the one signature is valid for two different messages, the concatenated hashes of the
  two entries.
\<close>

theorem signed_entry_integrity:
  assumes "lib_lawful L" "s = entry_sign L e key prev"
  shows "entry_verify L s \<and>
    (\<forall>s'. entry_verify L s' \<and> se_signature s' = se_signature s \<and> se_public_key s' = se_public_key s \<longrightarrow>
       s' = s \<or> collides L (al_json L (se_entry s')) (al_json L e) \<or>
       signs_both L (al_verifying_key L key) (se_signature s)
         (hash_bytes (se_entry_hash s') @ hash_bytes (se_previous_hash s'))
         (hash_bytes (compute_hash L e) @ hash_bytes prev))"
proof -
  have s: "entry_verify L s" using sign_verifies [OF assms(1)] assms(2) by simp
  have m: "signed_message s = hash_bytes (compute_hash L e) @ hash_bytes prev" "se_entry s = e"
    "se_public_key s = al_verifying_key L key" by (simp_all add: signed_message_def assms(2))
  show ?thesis
    using s verified_entries_agree [OF assms(1) s, unfolded m] m(3)
    by (simp add: signed_message_def)
qed

end
