(* ===== verification/DemoLib.thy ===== *)
theory DemoLib
  imports AuditEntry
begin

text \<open>
  A concrete library for the witnesses: the hypothesis \<open>lib_lawful\<close> holds for it. Its digest,
  signatures and public keys are padded copies of their inputs, its serializers are a self-delimiting
  unary code with a decoder, and its hex codec writes two characters per byte. None of this models
  code of the program.
\<close>

section \<open>A self-delimiting code\<close>

definition enc_nat :: "nat \<Rightarrow> bytes" where
  "enc_nat n = replicate n 1 @ [0]"

definition dec_nat :: "bytes \<Rightarrow> nat \<times> bytes" where
  "dec_nat bs = (length (takeWhile (\<lambda>b. b \<noteq> 0) bs), tl (dropWhile (\<lambda>b. b \<noteq> 0) bs))"

lemma dec_enc_nat [simp]: "dec_nat (enc_nat n @ rest) = (n, rest)"
  by (induction n) (simp_all add: enc_nat_def dec_nat_def)

fun dec_many :: "(bytes \<Rightarrow> 'a \<times> bytes) \<Rightarrow> nat \<Rightarrow> bytes \<Rightarrow> 'a list \<times> bytes" where
  "dec_many d 0 bs = ([], bs)"
| "dec_many d (Suc n) bs = (let (x, bs') = d bs; (xs, bs'') = dec_many d n bs' in (x # xs, bs''))"

definition enc_list :: "('a \<Rightarrow> bytes) \<Rightarrow> 'a list \<Rightarrow> bytes" where
  "enc_list e xs = enc_nat (length xs) @ concat (map e xs)"

definition dec_list :: "(bytes \<Rightarrow> 'a \<times> bytes) \<Rightarrow> bytes \<Rightarrow> 'a list \<times> bytes" where
  "dec_list d bs = (let (n, bs') = dec_nat bs in dec_many d n bs')"

text \<open>A decoder that undoes an encoder and returns the bytes after it.\<close>

definition codec :: "('a \<Rightarrow> bytes) \<Rightarrow> (bytes \<Rightarrow> 'a \<times> bytes) \<Rightarrow> bool" where
  "codec e d \<longleftrightarrow> (\<forall>x rest. d (e x @ rest) = (x, rest))"

lemma codecD: "codec e d \<Longrightarrow> d (e x @ rest) = (x, rest)"
  by (simp add: codec_def)

lemma codec_nat: "codec enc_nat dec_nat"
  by (simp add: codec_def)

lemma codec_list: "codec e d \<Longrightarrow> codec (enc_list e) (dec_list d)"
proof -
  assume c: "codec e d"
  have "dec_many d (length xs) (concat (map e xs) @ rest) = (xs, rest)" for xs rest
    by (induction xs arbitrary: rest) (simp_all add: codecD [OF c])
  then show ?thesis by (simp add: codec_def enc_list_def dec_list_def)
qed

definition enc_map :: "('b \<Rightarrow> 'a) \<Rightarrow> ('a \<Rightarrow> bytes) \<Rightarrow> 'b \<Rightarrow> bytes" where
  "enc_map f e x = e (f x)"

definition dec_map :: "('a \<Rightarrow> 'b) \<Rightarrow> (bytes \<Rightarrow> 'a \<times> bytes) \<Rightarrow> bytes \<Rightarrow> 'b \<times> bytes" where
  "dec_map g d bs = (let (x, bs') = d bs in (g x, bs'))"

lemma codec_map: "codec e d \<Longrightarrow> (\<And>x. g (f x) = x) \<Longrightarrow> codec (enc_map f e) (dec_map g d)"
  by (simp add: codec_def enc_map_def dec_map_def)

definition enc_pair :: "('a \<Rightarrow> bytes) \<Rightarrow> ('b \<Rightarrow> bytes) \<Rightarrow> 'a \<times> 'b \<Rightarrow> bytes" where
  "enc_pair e1 e2 p = e1 (fst p) @ e2 (snd p)"

definition dec_pair :: "(bytes \<Rightarrow> 'a \<times> bytes) \<Rightarrow> (bytes \<Rightarrow> 'b \<times> bytes) \<Rightarrow> bytes \<Rightarrow> ('a \<times> 'b) \<times> bytes" where
  "dec_pair d1 d2 bs = (let (x, bs') = d1 bs; (y, bs'') = d2 bs' in ((x, y), bs''))"

lemma codec_pair: "codec e1 d1 \<Longrightarrow> codec e2 d2 \<Longrightarrow> codec (enc_pair e1 e2) (dec_pair d1 d2)"
  by (simp add: codec_def enc_pair_def dec_pair_def)

section \<open>Coding entries\<close>

abbreviation "enc_str \<equiv> enc_list (enc_map of_char enc_nat :: char \<Rightarrow> bytes)"
abbreviation "dec_str \<equiv> dec_list (dec_map char_of dec_nat)"
abbreviation "enc_word \<equiv> enc_map unat enc_nat"
abbreviation "dec_word \<equiv> dec_map of_nat dec_nat"
abbreviation "enc_bytes \<equiv> enc_list (enc_word :: u8 \<Rightarrow> bytes)"
abbreviation "dec_bytes \<equiv> dec_list (dec_word :: bytes \<Rightarrow> u8 \<times> bytes)"

definition opt_list :: "'a option \<Rightarrow> 'a list" where
  "opt_list x = (case x of None \<Rightarrow> [] | Some a \<Rightarrow> [a])"

definition list_opt :: "'a list \<Rightarrow> 'a option" where
  "list_opt xs = (case xs of [] \<Rightarrow> None | a # _ \<Rightarrow> Some a)"

abbreviation "enc_opt \<equiv> enc_map opt_list (enc_list enc_str)"
abbreviation "dec_opt \<equiv> dec_map list_opt (dec_list dec_str)"

definition int_pair :: "int \<Rightarrow> nat \<times> nat" where
  "int_pair i = (nat i, nat (- i))"

definition pair_int :: "nat \<times> nat \<Rightarrow> int" where
  "pair_int p = int (fst p) - int (snd p)"

definition op_num :: "audit_operation \<Rightarrow> nat" where
  "op_num x = (case x of OpInsert \<Rightarrow> 0 | OpUpdate \<Rightarrow> 1 | OpDelete \<Rightarrow> 2 | OpQuery \<Rightarrow> 3)"

definition num_op :: "nat \<Rightarrow> audit_operation" where
  "num_op n = (if n = 0 then OpInsert else if n = 1 then OpUpdate else if n = 2 then OpDelete else OpQuery)"

lemma codec_str: "codec enc_str dec_str"
  by (intro codec_list codec_map codec_nat) simp

lemma codec_word: "codec (enc_word :: 'a::len word \<Rightarrow> bytes) dec_word"
  by (intro codec_map codec_nat) simp

lemma codec_bytes: "codec enc_bytes dec_bytes"
  by (rule codec_list [OF codec_word])

lemma codec_opt: "codec enc_opt dec_opt"
  by (intro codec_map codec_list codec_str) (simp add: opt_list_def list_opt_def split: option.splits)

lemma codec_int: "codec (enc_map int_pair (enc_pair enc_nat enc_nat)) (dec_map pair_int (dec_pair dec_nat dec_nat))"
  by (intro codec_map codec_pair codec_nat) (simp add: int_pair_def pair_int_def)

lemma codec_op: "codec (enc_map op_num enc_nat) (dec_map num_op dec_nat)"
  by (intro codec_map codec_nat) (simp add: op_num_def num_op_def split: audit_operation.splits)

definition entry_tuple where
  "entry_tuple e = ((tx_seq (ae_tx_id e), tx_timestamp (ae_tx_id e), tx_node_id (ae_tx_id e)), ae_operation e,
     ae_node_id e, ae_timestamp e, ae_subject e, ae_predicate e, ae_object e, ae_initiator e)"

definition tuple_entry where
  "tuple_entry t = (case t of ((a, b, c), op, n, ts, s, p, ob, i) \<Rightarrow>
     \<lparr>ae_tx_id = \<lparr>tx_seq = a, tx_timestamp = b, tx_node_id = c\<rparr>, ae_operation = op, ae_node_id = n,
      ae_timestamp = ts, ae_subject = s, ae_predicate = p, ae_object = ob, ae_initiator = i\<rparr>)"

definition enc_entry :: "audit_entry \<Rightarrow> bytes" where
  "enc_entry = enc_map entry_tuple
     (enc_pair (enc_pair enc_word (enc_pair (enc_map int_pair (enc_pair enc_nat enc_nat)) enc_word))
       (enc_pair (enc_map op_num enc_nat) (enc_pair enc_word (enc_pair enc_word
         (enc_pair enc_opt (enc_pair enc_opt (enc_pair enc_opt enc_str)))))))"

definition dec_entry :: "bytes \<Rightarrow> audit_entry \<times> bytes" where
  "dec_entry = dec_map tuple_entry
     (dec_pair (dec_pair dec_word (dec_pair (dec_map pair_int (dec_pair dec_nat dec_nat)) dec_word))
       (dec_pair (dec_map num_op dec_nat) (dec_pair dec_word (dec_pair dec_word
         (dec_pair dec_opt (dec_pair dec_opt (dec_pair dec_opt dec_str)))))))"

lemma codec_entry: "codec enc_entry dec_entry"
  unfolding enc_entry_def dec_entry_def
  by (intro codec_map [where f = entry_tuple and g = tuple_entry] codec_pair codec_word codec_int codec_op
      codec_opt codec_str) (simp add: entry_tuple_def tuple_entry_def)

definition signed_tuple where
  "signed_tuple s = (se_entry s, hash_bytes (se_entry_hash s), hash_bytes (se_previous_hash s),
     se_signature s, se_public_key s)"

definition tuple_signed where
  "tuple_signed t = (case t of (e, h, p, g, k) \<Rightarrow>
     \<lparr>se_entry = e, se_entry_hash = Hash h, se_previous_hash = Hash p, se_signature = g, se_public_key = k\<rparr>)"

definition enc_signed :: "signed_entry \<Rightarrow> bytes" where
  "enc_signed = enc_map signed_tuple (enc_pair enc_entry (enc_pair enc_bytes (enc_pair enc_bytes (enc_pair enc_bytes enc_bytes))))"

definition dec_signed :: "bytes \<Rightarrow> signed_entry \<times> bytes" where
  "dec_signed = dec_map tuple_signed (dec_pair dec_entry (dec_pair dec_bytes (dec_pair dec_bytes (dec_pair dec_bytes dec_bytes))))"

lemma codec_signed: "codec enc_signed dec_signed"
  unfolding enc_signed_def dec_signed_def
  by (intro codec_map [where f = signed_tuple and g = tuple_signed] codec_pair codec_entry codec_bytes)
    (simp add: signed_tuple_def tuple_signed_def)

section \<open>The library\<close>

definition pad :: "nat \<Rightarrow> bytes \<Rightarrow> bytes" where
  "pad n bs = take n (bs @ replicate n 0)"

lemma length_pad [simp]: "length (pad n bs) = n"
  by (simp add: pad_def)

definition demo_hex :: "bytes \<Rightarrow> string" where
  "demo_hex bs = concat (map (\<lambda>b. [char_of (unat b), CHR ''h'']) bs)"

fun demo_unhex :: "string \<Rightarrow> bytes option" where
  "demo_unhex [] = Some []"
| "demo_unhex [_] = None"
| "demo_unhex (c # _ # cs) = map_option ((#) (of_nat (of_char c))) (demo_unhex cs)"

lemma demo_unhex_hex: "demo_unhex (demo_hex bs) = Some bs"
proof (induction bs)
  case (Cons b bs)
  have "unat b mod 256 = unat b" using unat_lt [of b] by simp
  then show ?case using Cons by (simp add: demo_hex_def)
qed (simp add: demo_hex_def)

lemma length_demo_hex: "length (demo_hex bs) = 2 * length bs"
  by (induction bs) (simp_all add: demo_hex_def)

definition demo_lib :: audit_lib where
  "demo_lib = \<lparr>al_sha256 = pad 32, al_sign = (\<lambda>k m. pad 64 (pad 32 k)), al_verifying_key = pad 32,
     al_key_ok = (\<lambda>_. True), al_verify = (\<lambda>pk m sig. take 32 sig = pk), al_json = enc_entry,
     al_encode = (\<lambda>s. Some (enc_signed s)), al_decode = (\<lambda>bs. Some (fst (dec_signed bs))),
     al_encode_all = (\<lambda>ss. Some (enc_list enc_signed ss)),
     al_decode_all = (\<lambda>bs. Some (fst (dec_list dec_signed bs))),
     al_hex = demo_hex, al_unhex = demo_unhex\<rparr>"

lemma codec_fst: "codec e d \<Longrightarrow> fst (d (e x)) = x"
  using codecD [of e d x "[]"] by simp

lemma demo_lib_lawful: "lib_lawful demo_lib"
proof -
  have "inj enc_entry" by (rule inj_on_inverseI [where g = "fst \<circ> dec_entry"]) (simp add: codec_fst [OF codec_entry])
  moreover have "take 32 (pad 64 (pad 32 k)) = pad 32 k" for k
    by (simp add: pad_def)
  ultimately show ?thesis
    unfolding lib_lawful_def demo_lib_def
    by (simp add: codec_fst [OF codec_signed] codec_fst [OF codec_list [OF codec_signed]] demo_unhex_hex length_demo_hex)
qed

definition demo_entry :: "u64 \<Rightarrow> audit_entry" where
  "demo_entry t = with_triple ''s'' ''p'' ''o''
     (audit_entry_new t (transaction_id_new t 0 1) OpInsert 1 ''u'')"

theorem signed_entry_integrity_witness:
  "\<exists>s. s = entry_sign demo_lib (demo_entry 1) [7] hash_zero \<and> entry_verify demo_lib s \<and>
     \<not> entry_verify demo_lib (s\<lparr>se_entry := demo_entry 2\<rparr>)"
proof -
  define s where "s = entry_sign demo_lib (demo_entry 1) [7] hash_zero"
  note ok = signed_entry_integrity [OF demo_lib_lawful s_def]
  have "\<not> entry_verify demo_lib (s\<lparr>se_entry := demo_entry 2\<rparr>)"
  proof
    assume v: "entry_verify demo_lib (s\<lparr>se_entry := demo_entry 2\<rparr>)"
    have "se_entry s \<noteq> demo_entry 2" unfolding s_def entry_sign_simps by code_simp
    then have ne: "s\<lparr>se_entry := demo_entry 2\<rparr> \<noteq> s" by (metis signed_entry.select_convs(1) signed_entry.surjective signed_entry.update_convs(1))
    have "\<not> collides demo_lib (al_json demo_lib (demo_entry 2)) (al_json demo_lib (demo_entry 1))" by code_simp
    then show False using ok v ne by (auto simp: s_def signs_both_def)
  qed
  then show ?thesis using ok s_def by blast
qed

end
