(* ===== verification/KV.thy ===== *)
theory KV
  imports DemoLib AuditEntry
begin

text \<open>
  The interface to RocksDB that the persistent components use. The database is library code: its
  state is a type variable and its operations are the record \<open>kv_ops\<close> that the definitions take.
  What the theorems use of it is the predicate \<open>kv_lawful\<close>: reads return what the column family
  holds, a write that succeeds changes exactly one key, and any operation may fail. Operations that
  can fail midway are functions from a database to the database they leave behind and a result, so a
  failure keeps the writes made before it, as the code does when it returns early with \<^verbatim>\<open>?\<close>.
\<close>

section \<open>Operations with failures\<close>

datatype kv_error = DbFailed string | BadData string | Panicked string

type_synonym ('db, 'a) io = "'db \<Rightarrow> 'db \<times> (kv_error + 'a)"

definition io_return :: "'a \<Rightarrow> ('db, 'a) io" where
  "io_return a db = (db, Inr a)"

definition io_fail :: "kv_error \<Rightarrow> ('db, 'a) io" where
  "io_fail e db = (db, Inl e)"

definition io_bind :: "('db, 'a) io \<Rightarrow> ('a \<Rightarrow> ('db, 'b) io) \<Rightarrow> ('db, 'b) io" where
  "io_bind m f db = (case m db of (db', Inl e) \<Rightarrow> (db', Inl e) | (db', Inr a) \<Rightarrow> f a db')"

definition io_then :: "('db, unit) io \<Rightarrow> ('db, 'b) io \<Rightarrow> ('db, 'b) io" where
  "io_then m n = io_bind m (\<lambda>_. n)"

text \<open>\<^verbatim>\<open>from_bytes(..)?\<close> and \<^verbatim>\<open>context(..)?\<close>: a missing value is an error.\<close>

definition io_of_option :: "kv_error \<Rightarrow> 'a option \<Rightarrow> ('db, 'a) io" where
  "io_of_option e x = (case x of None \<Rightarrow> io_fail e | Some a \<Rightarrow> io_return a)"

record 'db kv_ops =
  kv_get :: "string \<Rightarrow> bytes \<Rightarrow> 'db \<Rightarrow> kv_error + bytes option"
  kv_put :: "string \<Rightarrow> bytes \<Rightarrow> bytes \<Rightarrow> 'db \<Rightarrow> kv_error + 'db"
  kv_delete :: "string \<Rightarrow> bytes \<Rightarrow> 'db \<Rightarrow> kv_error + 'db"

type_synonym 'db kv_view = "'db \<Rightarrow> string \<Rightarrow> bytes \<Rightarrow> bytes option"

definition db_get :: "'db kv_ops \<Rightarrow> string \<Rightarrow> bytes \<Rightarrow> ('db, bytes option) io" where
  "db_get D cf k db = (db, kv_get D cf k db)"

definition db_put :: "'db kv_ops \<Rightarrow> string \<Rightarrow> bytes \<Rightarrow> bytes \<Rightarrow> ('db, unit) io" where
  "db_put D cf k v db = (case kv_put D cf k v db of Inl e \<Rightarrow> (db, Inl e) | Inr db' \<Rightarrow> (db', Inr ()))"

definition db_delete :: "'db kv_ops \<Rightarrow> string \<Rightarrow> bytes \<Rightarrow> ('db, unit) io" where
  "db_delete D cf k db = (case kv_delete D cf k db of Inl e \<Rightarrow> (db, Inl e) | Inr db' \<Rightarrow> (db', Inr ()))"

definition view_set :: "string \<Rightarrow> bytes \<Rightarrow> bytes option \<Rightarrow> (string \<Rightarrow> bytes \<Rightarrow> bytes option) \<Rightarrow> string \<Rightarrow> bytes \<Rightarrow> bytes option" where
  "view_set cf k v w = (\<lambda>cf' k'. if cf' = cf \<and> k' = k then v else w cf' k')"

definition kv_lawful :: "'db kv_ops \<Rightarrow> 'db kv_view \<Rightarrow> bool" where
  "kv_lawful D v \<longleftrightarrow>
     (\<forall>cf k db r. kv_get D cf k db = Inr r \<longrightarrow> r = v db cf k) \<and>
     (\<forall>cf k b db db'. kv_put D cf k b db = Inr db' \<longrightarrow> v db' = view_set cf k (Some b) (v db)) \<and>
     (\<forall>cf k db db'. kv_delete D cf k db = Inr db' \<longrightarrow> v db' = view_set cf k None (v db))"

text \<open>No read fails, or no operation at all: what a theorem that promises success asks of the database.\<close>

definition kv_reads_ok :: "'db kv_ops \<Rightarrow> bool" where
  "kv_reads_ok D \<longleftrightarrow> (\<forall>cf k db. is_ok (kv_get D cf k db))"

definition kv_reliable :: "'db kv_ops \<Rightarrow> bool" where
  "kv_reliable D \<longleftrightarrow> kv_reads_ok D \<and> (\<forall>cf k b db. is_ok (kv_put D cf k b db)) \<and>
     (\<forall>cf k db. is_ok (kv_delete D cf k db))"

lemma kv_reliable_reads: "kv_reliable D \<Longrightarrow> kv_reads_ok D"
  by (simp add: kv_reliable_def)

lemma kv_lawfulD:
  assumes "kv_lawful D v"
  shows "kv_get D cf k db = Inr r \<Longrightarrow> r = v db cf k"
    "kv_put D cf k b db = Inr db' \<Longrightarrow> v db' = view_set cf k (Some b) (v db)"
    "kv_delete D cf k db = Inr db' \<Longrightarrow> v db' = view_set cf k None (v db)"
  using assms unfolding kv_lawful_def by blast+

lemma io_bind_cases:
  "io_bind m f db = (db', r) \<Longrightarrow>
   (\<And>e. m db = (db', Inl e) \<Longrightarrow> r = Inl e \<Longrightarrow> P) \<Longrightarrow>
   (\<And>db1 a. m db = (db1, Inr a) \<Longrightarrow> f a db1 = (db', r) \<Longrightarrow> P) \<Longrightarrow> P"
  by (cases "m db"; cases "snd (m db)") (auto simp: io_bind_def)

lemma io_simps [simp]:
  "io_return a db = (db, Inr a)" "io_fail e db = (db, Inl e)"
  "io_of_option e None = io_fail e" "io_of_option e (Some a) = io_return a"
  by (simp_all add: io_return_def io_fail_def io_of_option_def)

lemma io_bind_Inr: "m db = (db1, Inr a) \<Longrightarrow> io_bind m f db = f a db1"
  by (simp add: io_bind_def)

lemma io_bind_Inl: "m db = (db1, Inl e) \<Longrightarrow> io_bind m f db = (db1, Inl e)"
  by (simp add: io_bind_def)

lemma io_then_cases:
  "io_then m n db = (db', r) \<Longrightarrow>
   (\<And>e. m db = (db', Inl e) \<Longrightarrow> r = Inl e \<Longrightarrow> P) \<Longrightarrow>
   (\<And>db1. m db = (db1, Inr ()) \<Longrightarrow> n db1 = (db', r) \<Longrightarrow> P) \<Longrightarrow> P"
  unfolding io_then_def by (erule io_bind_cases) auto

lemma db_put_cases:
  assumes "kv_lawful D v" "db_put D cf k b db = (db', r)"
  shows "(\<exists>e. r = Inl e \<and> db' = db) \<or> (r = Inr () \<and> v db' = view_set cf k (Some b) (v db))"
  using assms kv_lawfulD(2) [OF assms(1), of cf k b db] by (auto simp: db_put_def split: sum.splits)

lemma db_delete_cases:
  assumes "kv_lawful D v" "db_delete D cf k db = (db', r)"
  shows "(\<exists>e. r = Inl e \<and> db' = db) \<or> (r = Inr () \<and> v db' = view_set cf k None (v db))"
  using assms kv_lawfulD(3) [OF assms(1), of cf k db] by (auto simp: db_delete_def split: sum.splits)

lemma db_get_cases:
  assumes "kv_lawful D v" "db_get D cf k db = (db', r)"
  shows "db' = db \<and> ((\<exists>e. r = Inl e) \<or> r = Inr (v db cf k))"
  using assms kv_lawfulD(1) [OF assms(1), of cf k db] by (cases r) (auto simp: db_get_def)

lemma db_get_reliable: "kv_lawful D v \<Longrightarrow> kv_reads_ok D \<Longrightarrow> db_get D cf k db = (db, Inr (v db cf k))"
proof -
  assume D: "kv_lawful D v" "kv_reads_ok D"
  obtain r where "kv_get D cf k db = Inr r" using D(2) unfolding kv_reads_ok_def is_ok_conv by blast
  then show ?thesis using kv_lawfulD(1) [OF D(1)] by (simp add: db_get_def)
qed

lemma db_put_reliable:
  assumes "kv_lawful D v" "kv_reliable D"
  shows "\<exists>db'. db_put D cf k b db = (db', Inr ()) \<and> v db' = view_set cf k (Some b) (v db)"
proof -
  obtain db' where "kv_put D cf k b db = Inr db'" using assms(2) unfolding kv_reliable_def is_ok_conv by blast
  then show ?thesis using kv_lawfulD(2) [OF assms(1)] by (simp add: db_put_def)
qed

lemma view_set_same [simp]: "view_set cf k x w cf k = x"
  and view_set_other: "cf' \<noteq> cf \<or> k' \<noteq> k \<Longrightarrow> view_set cf k x w cf' k' = w cf' k'"
  by (auto simp: view_set_def)

section \<open>Keys\<close>

definition str_bytes :: "string \<Rightarrow> bytes" where
  "str_bytes s = map (\<lambda>c. of_nat (of_char c)) s"

lemma str_bytes_inject [simp]: "str_bytes s = str_bytes t \<longleftrightarrow> s = t"
proof -
  have "inj (\<lambda>c :: char. of_nat (of_char c) :: u8)"
  proof (rule injI)
    fix x y :: char assume "(of_nat (of_char x) :: u8) = of_nat (of_char y)"
    moreover have "(of_char c :: nat) < 256" for c :: char by simp
    then have "unat (of_nat (of_char c) :: u8) = of_char c" for c :: char by (intro unat_of_nat_small) simp
    ultimately show "x = y" by (metis char_of_char)
  qed
  then show ?thesis unfolding str_bytes_def by (simp add: inj_map_eq_map)
qed

text \<open>\<^verbatim>\<open>u64::to_be_bytes\<close> and \<^verbatim>\<open>u64::from_be_bytes\<close>: eight digits in base 256, the highest first.\<close>

definition u64_be :: "u64 \<Rightarrow> bytes" where
  "u64_be w = map (\<lambda>i. of_nat (unat w div 256 ^ i mod 256)) (rev [0..<8])"

definition u64_from_be :: "bytes \<Rightarrow> u64" where
  "u64_from_be bs = of_nat (foldl (\<lambda>n b. 256 * n + unat b) 0 bs)"

lemma length_u64_be [simp]: "length (u64_be w) = 8"
  by (simp add: u64_be_def)

lemma horner_bytes:
  "foldl (\<lambda>n b. 256 * n + unat b) m (map (\<lambda>i. of_nat (x div 256 ^ i mod 256) :: u8) (rev [0..<k])) =
   256 ^ k * m + x mod 256 ^ k"
proof (induction k arbitrary: m)
  case (Suc k)
  have b: "unat (of_nat (x div 256 ^ k mod 256) :: u8) = x div 256 ^ k mod 256"
    by (intro unat_of_nat_small) simp
  have "x mod 256 ^ Suc k = 256 ^ k * (x div 256 ^ k mod 256) + x mod 256 ^ k"
    by (simp only: power_Suc2 mod_mult2_eq)
  then show ?case using Suc b by (simp add: algebra_simps)
qed simp

lemma u64_from_be_be [simp]: "u64_from_be (u64_be w) = w"
proof -
  have "foldl (\<lambda>n b. 256 * n + unat b) 0 (u64_be w) = unat w mod 256 ^ 8"
    unfolding u64_be_def horner_bytes by simp
  also have "\<dots> = unat w" using unat_lt [of w] by simp
  finally show ?thesis by (simp add: u64_from_be_def)
qed

lemma u64_be_inject [simp]: "u64_be a = u64_be b \<longleftrightarrow> a = b"
  by (metis u64_from_be_be)

section \<open>A lawful database\<close>

text \<open>The hypotheses can hold: a database in memory, one that never fails.\<close>

definition mem_ops :: "(string \<Rightarrow> bytes \<Rightarrow> bytes option) kv_ops" where
  "mem_ops = \<lparr>kv_get = (\<lambda>cf k db. Inr (db cf k)), kv_put = (\<lambda>cf k b db. Inr (view_set cf k (Some b) db)),
     kv_delete = (\<lambda>cf k db. Inr (view_set cf k None db))\<rparr>"

lemma mem_lawful: "kv_lawful mem_ops (\<lambda>db. db)" "kv_reliable mem_ops"
  by (simp_all add: kv_lawful_def kv_reliable_def kv_reads_ok_def mem_ops_def)

end
