(* ===== verification/AuditStore.thy ===== *)
theory AuditStore
  imports KV DemoLib
begin

text \<open>
  Model of \<^verbatim>\<open>arcxa-coordinator/src/bitemporal/audit/store.rs\<close>: the RocksDB store behind the audit
  chain. Column families are named by strings; opening the database, \<^verbatim>\<open>flush\<close> and the count of archived
  entries in \<^verbatim>\<open>statistics\<close> are not modelled. Reserving the memory of a vector of known length always
  succeeds.
\<close>

section \<open>Operations\<close>

definition cf_entries :: string where "cf_entries = ''entries''"
definition cf_metadata :: string where "cf_metadata = ''metadata''"
definition cf_archive :: string where "cf_archive = ''archive''"
definition key_head_hash :: bytes where "key_head_hash = str_bytes ''head_hash''"
definition key_chain_length :: bytes where "key_chain_length = str_bytes ''chain_length''"
definition key_genesis_hash :: bytes where "key_genesis_hash = str_bytes ''genesis_hash''"
definition key_public_key :: bytes where "key_public_key = str_bytes ''public_key''"

definition store_append :: "'db kv_ops \<Rightarrow> audit_lib \<Rightarrow> u64 \<Rightarrow> signed_entry \<Rightarrow> ('db, unit) io" where
  "store_append D L index entry =
     io_bind (io_of_option (BadData ''serialize'') (entry_to_bytes L entry)) (\<lambda>entry_bytes.
     io_then (db_put D cf_entries (u64_be index) entry_bytes)
    (io_then (db_put D cf_metadata key_head_hash (hash_bytes (se_entry_hash entry)))
             (db_put D cf_metadata key_chain_length (u64_be (index + 1)))))"

definition store_get :: "'db kv_ops \<Rightarrow> audit_lib \<Rightarrow> u64 \<Rightarrow> ('db, signed_entry option) io" where
  "store_get D L index =
     io_bind (db_get D cf_entries (u64_be index)) (\<lambda>r.
       case r of
         Some bs \<Rightarrow> io_bind (io_of_option (BadData ''deserialize'') (entry_from_bytes L bs)) (\<lambda>e. io_return (Some e))
       | None \<Rightarrow>
           io_bind (db_get D cf_archive (u64_be index)) (\<lambda>r'.
             case r' of
               Some bs \<Rightarrow> io_bind (io_of_option (BadData ''deserialize'') (entry_from_bytes L bs)) (\<lambda>e. io_return (Some e))
             | None \<Rightarrow> io_return None))"

text \<open>A loop that collects the entries found at a list of indices.\<close>

fun collect :: "'db kv_ops \<Rightarrow> audit_lib \<Rightarrow> nat list \<Rightarrow> ('db, signed_entry list) io" where
  "collect D L [] = io_return []"
| "collect D L (i # is) =
     io_bind (store_get D L (of_nat i)) (\<lambda>r.
     io_bind (collect D L is) (\<lambda>rest.
       io_return (case r of Some e \<Rightarrow> e # rest | None \<Rightarrow> rest)))"

text \<open>\<^verbatim>\<open>copy_from_slice\<close> panics when the stored length is not eight bytes long.\<close>

definition store_length :: "'db kv_ops \<Rightarrow> ('db, u64) io" where
  "store_length D =
     io_bind (db_get D cf_metadata key_chain_length) (\<lambda>r.
       case r of
         None \<Rightarrow> io_return 0
       | Some bs \<Rightarrow> if length bs = 8 then io_return (u64_from_be bs) else io_fail (Panicked ''copy_from_slice''))"

definition store_get_all :: "'db kv_ops \<Rightarrow> audit_lib \<Rightarrow> ('db, signed_entry list) io" where
  "store_get_all D L = io_bind (store_length D) (\<lambda>n. collect D L [0..<unat n])"

text \<open>
  The capacity \<^verbatim>\<open>end - start\<close> wraps around when the range is reversed; \<open>cap\<close> is the largest capacity a
  vector of signed entries can be given.
\<close>

definition store_get_range :: "nat \<Rightarrow> 'db kv_ops \<Rightarrow> audit_lib \<Rightarrow> u64 \<Rightarrow> u64 \<Rightarrow> ('db, signed_entry list) io" where
  "store_get_range cap D L start stop =
     (if unat (stop - start) > cap then io_fail (Panicked ''capacity overflow'')
      else collect D L [unat start..<unat stop])"

definition store_hash_at :: "'db kv_ops \<Rightarrow> bytes \<Rightarrow> ('db, hash option) io" where
  "store_hash_at D key =
     io_bind (db_get D cf_metadata key) (\<lambda>r.
       case r of
         Some bs \<Rightarrow> io_bind (io_of_option (BadData ''invalid hash'') (hash_from_bytes bs)) (\<lambda>h. io_return (Some h))
       | None \<Rightarrow> io_return None)"

definition store_head_hash :: "'db kv_ops \<Rightarrow> ('db, hash option) io" where
  "store_head_hash D = store_hash_at D key_head_hash"

definition store_genesis_hash :: "'db kv_ops \<Rightarrow> ('db, hash option) io" where
  "store_genesis_hash D = store_hash_at D key_genesis_hash"

definition store_set_genesis_hash :: "'db kv_ops \<Rightarrow> hash \<Rightarrow> ('db, unit) io" where
  "store_set_genesis_hash D h = db_put D cf_metadata key_genesis_hash (hash_bytes h)"

definition store_set_public_key :: "'db kv_ops \<Rightarrow> bytes \<Rightarrow> ('db, unit) io" where
  "store_set_public_key D pk = db_put D cf_metadata key_public_key pk"

definition store_public_key :: "'db kv_ops \<Rightarrow> ('db, bytes option) io" where
  "store_public_key D =
     io_bind (db_get D cf_metadata key_public_key) (\<lambda>r.
       case r of
         Some bs \<Rightarrow> if length bs \<noteq> 32 then io_fail (BadData ''invalid public key length'') else io_return (Some bs)
       | None \<Rightarrow> io_return None)"

fun compact_loop :: "'db kv_ops \<Rightarrow> nat list \<Rightarrow> nat \<Rightarrow> ('db, nat) io" where
  "compact_loop D [] compacted = io_return compacted"
| "compact_loop D (i # is) compacted =
     io_bind (db_get D cf_entries (u64_be (of_nat i))) (\<lambda>r.
       case r of
         Some bs \<Rightarrow>
           io_then (db_put D cf_archive (u64_be (of_nat i)) bs)
          (io_then (db_delete D cf_entries (u64_be (of_nat i)))
                   (compact_loop D is (compacted + 1)))
       | None \<Rightarrow> compact_loop D is compacted)"

definition store_compact :: "'db kv_ops \<Rightarrow> u64 \<Rightarrow> ('db, nat) io" where
  "store_compact D keep_recent =
     io_bind (store_length D) (\<lambda>n.
       if n \<le> keep_recent then io_return 0 else compact_loop D [0..<unat (n - keep_recent)] 0)"

section \<open>What a store holds\<close>

text \<open>
  A database holds a chain of entries when its length record says so and the serialized form of each
  entry is under its index, among the live entries or, when it is not there, in the archive. The laws
  of the libraries are part of the predicate, so that the contract below has no other hypothesis.
\<close>

definition stored_at :: "'db kv_view \<Rightarrow> 'db \<Rightarrow> nat \<Rightarrow> bytes option" where
  "stored_at v db i =
     (case v db cf_entries (u64_be (of_nat i)) of
        Some b \<Rightarrow> Some b
      | None \<Rightarrow> v db cf_archive (u64_be (of_nat i)))"

definition length_rec :: "'db kv_view \<Rightarrow> 'db \<Rightarrow> nat \<Rightarrow> bool" where
  "length_rec v db n \<longleftrightarrow> v db cf_metadata key_chain_length = Some (u64_be (of_nat n)) \<or>
     (n = 0 \<and> v db cf_metadata key_chain_length = None)"

definition store_holds :: "'db kv_ops \<Rightarrow> 'db kv_view \<Rightarrow> audit_lib \<Rightarrow> 'db \<Rightarrow> signed_entry list \<Rightarrow> bool" where
  "store_holds D v L db es \<longleftrightarrow>
     kv_lawful D v \<and> lib_lawful L \<and> length es < 2 ^ 64 \<and> length_rec v db (length es) \<and>
     (\<forall>i < length es. \<exists>b. stored_at v db i = Some b \<and> al_decode L b = Some (es ! i))"

lemma cf_distinct: "cf_entries \<noteq> cf_metadata" "cf_entries \<noteq> cf_archive" "cf_archive \<noteq> cf_metadata"
  by (simp_all add: cf_entries_def cf_metadata_def cf_archive_def)

lemma key_distinct: "key_head_hash \<noteq> key_chain_length" "key_genesis_hash \<noteq> key_chain_length"
  "key_public_key \<noteq> key_chain_length" "key_genesis_hash \<noteq> key_public_key"
  by (simp_all add: key_head_hash_def key_chain_length_def key_genesis_hash_def key_public_key_def)

lemma index_inject:
  assumes "i < 2 ^ 64" "j < 2 ^ 64"
  shows "(of_nat i :: u64) = of_nat j \<longleftrightarrow> i = j"
proof -
  have "unat (of_nat k :: u64) = k" if "k < 2 ^ 64" for k using that by (simp add: unat_of_nat_small)
  from this [OF assms(1)] this [OF assms(2)] show ?thesis by metis
qed

lemma stored_at_metadata: "v db' = view_set cf_metadata k x (v db) \<Longrightarrow> stored_at v db' i = stored_at v db i"
  using cf_distinct by (simp add: stored_at_def view_set_def split: option.splits)

lemma stored_at_put:
  assumes "v db' = view_set cf_entries (u64_be (of_nat n)) (Some b) (v db)" "i < 2 ^ 64" "n < 2 ^ 64"
  shows "stored_at v db' i = (if i = n then Some b else stored_at v db i)"
  using assms(1) cf_distinct index_inject [OF assms(2,3)] by (simp add: stored_at_def view_set_def split: option.splits)

lemma length_rec_other:
  assumes "v db' = view_set cf k x (v db)" "cf \<noteq> cf_metadata \<or> k \<noteq> key_chain_length"
  shows "length_rec v db' n = length_rec v db n"
  using assms by (auto simp: length_rec_def view_set_def)

lemma store_holds_same:
  assumes "store_holds D v L db es" "length_rec v db' (length es)" "\<And>i. i < length es \<Longrightarrow> stored_at v db' i = stored_at v db i"
  shows "store_holds D v L db' es"
  using assms by (simp add: store_holds_def)

lemma store_append_outcome:
  assumes holds: "store_holds D v L db es" and len: "Suc (length es) < 2 ^ 64"
    and app: "store_append D L (of_nat (length es)) e db = (db', r)"
  shows "case r of Inl _ \<Rightarrow> store_holds D v L db' es | Inr _ \<Rightarrow> store_holds D v L db' (es @ [e])"
proof -
  let ?n = "length es"
  have law: "kv_lawful D v" and lib: "lib_lawful L" and lrec: "length_rec v db ?n"
    using holds by (simp_all add: store_holds_def)
  have n: "?n < 2 ^ 64" using len by simp
  show ?thesis
  proof (cases "entry_to_bytes L e")
    case None
    then show ?thesis using app holds by (auto simp: store_append_def io_bind_def)
  next
    case (Some eb)
    from app Some have app': "io_then (db_put D cf_entries (u64_be (of_nat ?n)) eb)
      (io_then (db_put D cf_metadata key_head_hash (hash_bytes (se_entry_hash e)))
        (db_put D cf_metadata key_chain_length (u64_be (of_nat ?n + 1)))) db = (db', r)"
      by (simp add: store_append_def io_bind_def)
    from app' show ?thesis
    proof (rule io_then_cases)
      fix err assume "db_put D cf_entries (u64_be (of_nat ?n)) eb db = (db', Inl err)" "r = Inl err"
      then show ?thesis using db_put_cases [OF law] holds by fastforce
    next
      fix db1 assume put1: "db_put D cf_entries (u64_be (of_nat ?n)) eb db = (db1, Inr ())"
        and rest: "io_then (db_put D cf_metadata key_head_hash (hash_bytes (se_entry_hash e)))
          (db_put D cf_metadata key_chain_length (u64_be (of_nat ?n + 1))) db1 = (db', r)"
      have v1: "v db1 = view_set cf_entries (u64_be (of_nat ?n)) (Some eb) (v db)"
        using db_put_cases [OF law put1] by auto
      have at1: "stored_at v db1 i = (if i = ?n then Some eb else stored_at v db i)" if "i < 2 ^ 64" for i
        using stored_at_put [OF v1 that n] .
      have h1: "store_holds D v L db1 es"
        using length_rec_other [OF v1, of ?n] lrec cf_distinct n at1 by (intro store_holds_same [OF holds]) auto
      from rest show ?thesis
      proof (rule io_then_cases)
        fix err assume "db_put D cf_metadata key_head_hash (hash_bytes (se_entry_hash e)) db1 = (db', Inl err)" "r = Inl err"
        then show ?thesis using db_put_cases [OF law] h1 by fastforce
      next
        fix db2 assume put2: "db_put D cf_metadata key_head_hash (hash_bytes (se_entry_hash e)) db1 = (db2, Inr ())"
          and put3: "db_put D cf_metadata key_chain_length (u64_be (of_nat ?n + 1)) db2 = (db', r)"
        have v2: "v db2 = view_set cf_metadata key_head_hash (Some (hash_bytes (se_entry_hash e))) (v db1)"
          using db_put_cases [OF law put2] by auto
        have h2: "store_holds D v L db2 es"
          using length_rec_other [OF v2, of ?n] h1 key_distinct stored_at_metadata [of v, OF v2]
          by (intro store_holds_same [OF h1]) (auto simp: store_holds_def)
        from db_put_cases [OF law put3] show ?thesis
        proof
          assume "\<exists>err. r = Inl err \<and> db' = db2"
          then show ?thesis using h2 by auto
        next
          assume r: "r = Inr () \<and> v db' = view_set cf_metadata key_chain_length (Some (u64_be (of_nat ?n + 1))) (v db2)"
          have "length_rec v db' (Suc ?n)" using r by (simp add: length_rec_def add.commute)
          moreover have "stored_at v db' i = stored_at v db1 i" for i
            using stored_at_metadata [of v db' key_chain_length _ db2 i] stored_at_metadata [of v, OF v2] r by simp
          moreover have "al_decode L eb = Some e" using Some libD(7) [OF lib] by (simp add: entry_to_bytes_def)
          ultimately have "store_holds D v L db' (es @ [e])"
            using holds len at1 by (auto simp: store_holds_def nth_append less_Suc_eq)
          then show ?thesis using r by simp
        qed
      qed
    qed
  qed
qed

lemma store_get_outcome:
  assumes "kv_lawful D v" "store_get D L i db = (db', r)"
    and "unat i = n" "stored_at v db n = Some b" "al_decode L b = Some e"
  shows "db' = db \<and> (r = Inr (Some e) \<or> (\<exists>err. r = Inl err))"
proof -
  have i: "i = of_nat n" using assms(3) by auto
  from assms(2) show ?thesis unfolding store_get_def i
  proof (rule io_bind_cases)
    fix err assume "db_get D cf_entries (u64_be (of_nat n)) db = (db', Inl err)" "r = Inl err"
    then show ?thesis using db_get_cases [OF assms(1)] by blast
  next
    fix db1 x assume g: "db_get D cf_entries (u64_be (of_nat n)) db = (db1, Inr x)"
      and rest: "(case x of Some bs \<Rightarrow> io_bind (io_of_option (BadData ''deserialize'') (entry_from_bytes L bs)) (\<lambda>e. io_return (Some e))
        | None \<Rightarrow> io_bind (db_get D cf_archive (u64_be (of_nat n))) (\<lambda>r'. case r' of
            Some bs \<Rightarrow> io_bind (io_of_option (BadData ''deserialize'') (entry_from_bytes L bs)) (\<lambda>e. io_return (Some e))
          | None \<Rightarrow> io_return None)) db1 = (db', r)"
    have x: "db1 = db" "x = v db cf_entries (u64_be (of_nat n))" using db_get_cases [OF assms(1) g] by auto
    show ?thesis
    proof (cases x)
      case (Some bs)
      then show ?thesis using rest x assms(4,5) by (simp add: stored_at_def entry_from_bytes_def io_bind_def)
    next
      case None
      from rest [unfolded None option.case] show ?thesis
      proof (rule io_bind_cases)
        fix err assume "db_get D cf_archive (u64_be (of_nat n)) db1 = (db', Inl err)" "r = Inl err"
        then show ?thesis using db_get_cases [OF assms(1)] x(1) by blast
      next
        fix db2 y assume g2: "db_get D cf_archive (u64_be (of_nat n)) db1 = (db2, Inr y)"
          and r2: "(case y of Some bs \<Rightarrow> io_bind (io_of_option (BadData ''deserialize'') (entry_from_bytes L bs)) (\<lambda>e. io_return (Some e))
          | None \<Rightarrow> io_return None) db2 = (db', r)"
        have "db2 = db" "y = Some b"
          using db_get_cases [OF assms(1) g2] x None assms(4) by (auto simp: stored_at_def)
        then show ?thesis using r2 assms(5) by (simp add: entry_from_bytes_def io_bind_def)
      qed
    qed
  qed
qed

lemma store_length_outcome:
  assumes "kv_lawful D v" "length_rec v db n" "n < 2 ^ 64" "store_length D db = (db', r)"
  shows "db' = db \<and> ((\<exists>w. r = Inr w \<and> unat w = n) \<or> (\<exists>err. r = Inl err))"
proof -
  have n: "unat (of_nat n :: u64) = n" using assms(3) by (simp add: unat_of_nat_small)
  from assms(4) show ?thesis unfolding store_length_def
  proof (rule io_bind_cases)
    fix err assume "db_get D cf_metadata key_chain_length db = (db', Inl err)" "r = Inl err"
    then show ?thesis using db_get_cases [OF assms(1)] by blast
  next
    fix db1 x assume g: "db_get D cf_metadata key_chain_length db = (db1, Inr x)"
      and rest: "(case x of None \<Rightarrow> io_return 0 | Some bs \<Rightarrow> if length bs = 8 then io_return (u64_from_be bs)
        else io_fail (Panicked ''copy_from_slice'')) db1 = (db', r)"
    have x: "db1 = db" "x = v db cf_metadata key_chain_length" using db_get_cases [OF assms(1) g] by auto
    show ?thesis using assms(2) rest x n unfolding length_rec_def by auto
  qed
qed

lemma collect_outcome:
  assumes "kv_lawful D v" "collect D L is db = (db', r)"
    and "\<forall>i \<in> set is. i < 2 ^ 64 \<and> (\<exists>b. stored_at v db i = Some b \<and> al_decode L b = Some (f i))"
  shows "db' = db \<and> (r = Inr (map f is) \<or> (\<exists>err. r = Inl err))"
  using assms(2,3)
proof (induction "is" arbitrary: db' r)
  case (Cons i "is")
  have i: "i < 2 ^ 64" and "\<exists>b. stored_at v db i = Some b \<and> al_decode L b = Some (f i)"
    and tl: "\<forall>i \<in> set is. i < 2 ^ 64 \<and> (\<exists>b. stored_at v db i = Some b \<and> al_decode L b = Some (f i))"
    using Cons.prems(2) by simp_all
  then obtain b where b: "stored_at v db i = Some b" "al_decode L b = Some (f i)" by blast
  have u: "unat (of_nat i :: u64) = i" using i by (simp add: unat_of_nat_small)
  from Cons.prems(1) show ?case unfolding collect.simps
  proof (rule io_bind_cases)
    fix err assume "store_get D L (of_nat i) db = (db', Inl err)" "r = Inl err"
    then show ?thesis using store_get_outcome [OF assms(1) _ u b] by blast
  next
    fix db1 x assume g: "store_get D L (of_nat i) db = (db1, Inr x)"
      and rest: "io_bind (collect D L is) (\<lambda>rest. io_return (case x of Some e \<Rightarrow> e # rest | None \<Rightarrow> rest)) db1 = (db', r)"
    have x: "db1 = db" "x = Some (f i)" using store_get_outcome [OF assms(1) g u b] by auto
    from rest show ?thesis
    proof (rule io_bind_cases)
      fix err assume "collect D L is db1 = (db', Inl err)" "r = Inl err"
      then show ?thesis using Cons.IH [OF _ tl] x(1) by blast
    next
      fix db2 xs assume "collect D L is db1 = (db2, Inr xs)"
        "io_return (case x of Some e \<Rightarrow> e # xs | None \<Rightarrow> xs) db2 = (db', r)"
      then show ?thesis using Cons.IH [OF _ tl, of db2 "Inr xs"] x by auto
    qed
  qed
qed simp

lemma store_get_all_outcome:
  assumes holds: "store_holds D v L db es" and g: "store_get_all D L db = (db', r)"
  shows "db' = db \<and> (r = Inr es \<or> (\<exists>err. r = Inl err))"
proof -
  have law: "kv_lawful D v" and lrec: "length_rec v db (length es)" and n: "length es < 2 ^ 64"
    using holds by (simp_all add: store_holds_def)
  from g show ?thesis unfolding store_get_all_def
  proof (rule io_bind_cases)
    fix err assume "store_length D db = (db', Inl err)" "r = Inl err"
    then show ?thesis using store_length_outcome [OF law lrec n] by blast
  next
    fix db1 w assume l: "store_length D db = (db1, Inr w)" and c: "collect D L [0..<unat w] db1 = (db', r)"
    have w: "db1 = db" "unat w = length es" using store_length_outcome [OF law lrec n l] by auto
    have "\<forall>i \<in> set [0..<length es]. i < 2 ^ 64 \<and> (\<exists>b. stored_at v db i = Some b \<and> al_decode L b = Some (es ! i))"
      using holds n by (auto simp: store_holds_def)
    from collect_outcome [OF law c [unfolded w] this] show ?thesis by (simp add: map_nth)
  qed
qed

section \<open>Compaction\<close>

lemma archive_step:
  assumes "v db cf_entries (u64_be (of_nat i)) = Some b"
    and "v db1 = view_set cf_archive (u64_be (of_nat i)) (Some b) (v db)"
  shows "stored_at v db1 j = stored_at v db j" and "length_rec v db1 n = length_rec v db n"
    and "v db1 cf_entries = v db cf_entries"
  using assms cf_distinct by (auto simp: stored_at_def view_set_def length_rec_def fun_eq_iff split: option.splits)

lemma drop_live_step:
  assumes "v db cf_entries (u64_be (of_nat i)) = v db cf_archive (u64_be (of_nat i))"
    and "v db1 = view_set cf_entries (u64_be (of_nat i)) None (v db)"
  shows "stored_at v db1 j = stored_at v db j" and "length_rec v db1 n = length_rec v db n"
  using assms cf_distinct by (auto simp: stored_at_def view_set_def length_rec_def split: option.splits)

lemma compact_loop_outcome:
  assumes "kv_lawful D v" "compact_loop D is c db = (db', r)"
  shows "(\<forall>j. stored_at v db' j = stored_at v db j) \<and> (\<forall>n. length_rec v db' n = length_rec v db n)"
  using assms(2)
proof (induction "is" arbitrary: c db)
  case (Cons i "is")
  let ?k = "u64_be (of_nat i)"
  from Cons.prems show ?case unfolding compact_loop.simps
  proof (rule io_bind_cases)
    fix err assume "db_get D cf_entries ?k db = (db', Inl err)" "r = Inl err"
    then show ?thesis using db_get_cases [OF assms(1)] by blast
  next
    fix db0 x assume g: "db_get D cf_entries ?k db = (db0, Inr x)"
      and rest: "(case x of Some bs \<Rightarrow> io_then (db_put D cf_archive ?k bs)
          (io_then (db_delete D cf_entries ?k) (compact_loop D is (c + 1)))
        | None \<Rightarrow> compact_loop D is c) db0 = (db', r)"
    have x: "db0 = db" "x = v db cf_entries ?k" using db_get_cases [OF assms(1) g] by auto
    show ?thesis
    proof (cases x)
      case None
      then show ?thesis using Cons.IH rest x(1) by simp
    next
      case (Some b)
      have live: "v db cf_entries ?k = Some b" using Some x(2) by simp
      from rest [unfolded Some option.case x(1)] show ?thesis
      proof (rule io_then_cases)
        fix err assume "db_put D cf_archive ?k b db = (db', Inl err)"
        then show ?thesis using db_put_cases [OF assms(1)] by blast
      next
        fix db1 assume put: "db_put D cf_archive ?k b db = (db1, Inr ())"
          and rest1: "io_then (db_delete D cf_entries ?k) (compact_loop D is (c + 1)) db1 = (db', r)"
        have v1: "v db1 = view_set cf_archive ?k (Some b) (v db)" using db_put_cases [OF assms(1) put] by auto
        note keep1 = archive_step [OF live v1]
        have same: "v db1 cf_entries ?k = v db1 cf_archive ?k" using live keep1(3) v1 by simp
        from rest1 show ?thesis
        proof (rule io_then_cases)
          fix err assume "db_delete D cf_entries ?k db1 = (db', Inl err)"
          then have "db' = db1" using db_delete_cases [OF assms(1)] by blast
          then show ?thesis using keep1 by simp
        next
          fix db2 assume del: "db_delete D cf_entries ?k db1 = (db2, Inr ())"
            and rest2: "compact_loop D is (c + 1) db2 = (db', r)"
          have v2: "v db2 = view_set cf_entries ?k None (v db1)" using db_delete_cases [OF assms(1) del] by auto
          show ?thesis using Cons.IH [OF rest2] keep1 drop_live_step [OF same v2] by simp
        qed
      qed
    qed
  qed
qed simp

lemma store_compact_outcome:
  assumes holds: "store_holds D v L db es" and c: "store_compact D keep db = (db', r)"
  shows "store_holds D v L db' es"
proof -
  have law: "kv_lawful D v" and lrec: "length_rec v db (length es)" and n: "length es < 2 ^ 64"
    using holds by (simp_all add: store_holds_def)
  from c show ?thesis unfolding store_compact_def
  proof (rule io_bind_cases)
    fix err assume "store_length D db = (db', Inl err)"
    then show ?thesis using store_length_outcome [OF law lrec n] holds by blast
  next
    fix db1 w assume l: "store_length D db = (db1, Inr w)"
      and rest: "(if w \<le> keep then io_return 0 else compact_loop D [0..<unat (w - keep)] 0) db1 = (db', r)"
    have "db1 = db" using store_length_outcome [OF law lrec n l] by auto
    then show ?thesis
      using rest holds compact_loop_outcome [OF law, of "[0..<unat (w - keep)]" 0 db db' r] lrec
      by (cases "w \<le> keep") (auto intro: store_holds_same [OF holds])
  qed
qed

section \<open>The contract of a durable log\<close>

text \<open>
  What the audit chain relies on: an append at the end either succeeds and extends the log or fails
  and leaves it, and loading returns it. The consequence is crash recovery: whatever write a failure
  strikes, the log that is loaded afterwards is what was there before followed by exactly the
  entries whose append had succeeded.
\<close>

locale durable_log =
  fixes holds :: "'db \<Rightarrow> 'e list \<Rightarrow> bool"
    and app :: "u64 \<Rightarrow> 'e \<Rightarrow> ('db, unit) io"
    and load :: "('db, 'e list) io"
  assumes app_ok: "holds db es \<Longrightarrow> Suc (length es) < 2 ^ 64 \<Longrightarrow> app (of_nat (length es)) e db = (db', Inr ()) \<Longrightarrow>
      holds db' (es @ [e])"
    and app_err: "holds db es \<Longrightarrow> Suc (length es) < 2 ^ 64 \<Longrightarrow> app (of_nat (length es)) e db = (db', Inl err) \<Longrightarrow>
      holds db' es"
    and load_ok: "holds db es \<Longrightarrow> load db = (db', Inr xs) \<Longrightarrow> xs = es \<and> db' = db"
begin

primrec append_all :: "'e list \<Rightarrow> nat \<Rightarrow> 'db \<Rightarrow> 'db \<times> nat" where
  "append_all [] n db = (db, 0)"
| "append_all (e # es) n db =
     (case app (of_nat n) e db of
        (db', Inl _) \<Rightarrow> (db', 0)
      | (db', Inr _) \<Rightarrow> (let (db'', k) = append_all es (Suc n) db' in (db'', Suc k)))"

lemma append_all_holds:
  assumes "holds db old" "length old + length es < 2 ^ 64"
  shows "holds (fst (append_all es (length old) db)) (old @ take (snd (append_all es (length old) db)) es)"
  using assms
proof (induction es arbitrary: db old)
  case (Cons e es)
  obtain db' r where a: "app (of_nat (length old)) e db = (db', r)" by fastforce
  have len: "Suc (length old) < 2 ^ 64" using Cons.prems(2) by simp
  show ?case
  proof (cases r)
    case (Inl err)
    then show ?thesis using app_err [OF Cons.prems(1) len] a by simp
  next
    case (Inr u)
    then have "holds db' (old @ [e])" using app_ok [OF Cons.prems(1) len] a by simp
    from Cons.IH [OF this] show ?thesis using Cons.prems(2) a Inr by (simp add: split_beta Let_def)
  qed
qed simp

lemma recovery:
  assumes "holds db old" "length old + length es < 2 ^ 64"
    and "load (fst (append_all es (length old) db)) = (db', Inr xs)"
  shows "xs = old @ take (snd (append_all es (length old) db)) es"
  using load_ok [OF append_all_holds [OF assms(1,2)] assms(3)] by simp

end

interpretation st: durable_log "store_holds D v L" "store_append D L" "store_get_all D L" for D v L
proof unfold_locales
  show "store_holds D v L db' (es @ [e])" if "store_holds D v L db es" "Suc (length es) < 2 ^ 64"
    "store_append D L (of_nat (length es)) e db = (db', Inr ())" for db es e db'
    using store_append_outcome [OF that] by simp
  show "store_holds D v L db' es" if "store_holds D v L db es" "Suc (length es) < 2 ^ 64"
    "store_append D L (of_nat (length es)) e db = (db', Inl err)" for db es e db' err
    using store_append_outcome [OF that] by simp
  show "xs = es \<and> db' = db" if "store_holds D v L db es" "store_get_all D L db = (db', Inr xs)" for db es db' xs
    using store_get_all_outcome [OF that] by simp
qed

section \<open>Properties\<close>

text \<open>
  C11. Compaction loses nothing: moving old entries to the archive, even when it fails midway, leaves a
  store that holds the same chain, so \<^verbatim>\<open>get_all\<close> returns the same entries as before.
\<close>

theorem compaction_preserves_chain:
  assumes "store_holds D v L db es" "store_compact D keep db = (db', r)" "store_get_all D L db' = (db'', Inr xs)"
  shows "store_holds D v L db' es \<and> xs = es"
  using store_compact_outcome [OF assms(1,2)] st.load_ok [OF store_compact_outcome [OF assms(1,2)] assms(3)] by blast

lemma store_append_reliable:
  assumes "kv_lawful D v" "kv_reliable D" "entry_to_bytes L e = Some b"
  shows "\<exists>db'. store_append D L i e db = (db', Inr ())"
proof -
  obtain db1 where 1: "db_put D cf_entries (u64_be i) b db = (db1, Inr ())"
    using db_put_reliable [OF assms(1,2)] by blast
  obtain db2 where 2: "db_put D cf_metadata key_head_hash (hash_bytes (se_entry_hash e)) db1 = (db2, Inr ())"
    using db_put_reliable [OF assms(1,2)] by blast
  obtain db3 where 3: "db_put D cf_metadata key_chain_length (u64_be (i + 1)) db2 = (db3, Inr ())"
    using db_put_reliable [OF assms(1,2)] by blast
  show ?thesis using assms(3) 1 2 3 by (simp add: store_append_def io_then_def io_bind_def)
qed

lemma store_get_reliable:
  assumes "kv_lawful D v" "kv_reads_ok D" "i = of_nat n" "stored_at v db n = Some b" "al_decode L b = Some e"
  shows "store_get D L i db = (db, Inr (Some e))"
  using assms(3-5) unfolding store_get_def
  by (auto simp: io_bind_def db_get_reliable [OF assms(1,2)] stored_at_def entry_from_bytes_def split: option.splits)

lemma collect_reliable:
  assumes "kv_lawful D v" "kv_reads_ok D" "\<forall>i \<in> set is. \<exists>b. stored_at v db i = Some b \<and> al_decode L b = Some (f i)"
  shows "collect D L is db = (db, Inr (map f is))"
  using assms(3)
proof (induction "is")
  case (Cons i "is")
  then obtain b where b: "stored_at v db i = Some b" "al_decode L b = Some (f i)" by auto
  then show ?case using Cons store_get_reliable [OF assms(1,2) refl b] by (simp add: io_bind_def)
qed simp

lemma store_get_all_reliable:
  assumes "store_holds D v L db es" "kv_reads_ok D"
  shows "store_get_all D L db = (db, Inr es)"
proof -
  have law: "kv_lawful D v" and lrec: "length_rec v db (length es)" and n: "length es < 2 ^ 64"
    using assms(1) by (simp_all add: store_holds_def)
  have u: "unat (of_nat (length es) :: u64) = length es" using n by (simp add: unat_of_nat_small)
  have "store_length D db = (db, Inr (of_nat (length es)))"
    using lrec by (auto simp: store_length_def io_bind_def db_get_reliable [OF law assms(2)] length_rec_def)
  moreover have "\<forall>i \<in> set [0..<length es]. \<exists>b. stored_at v db i = Some b \<and> al_decode L b = Some (es ! i)"
    using assms(1) by (auto simp: store_holds_def)
  from collect_reliable [OF law assms(2) this] have "collect D L [0..<length es] db = (db, Inr es)" by (simp add: map_nth)
  ultimately show ?thesis by (simp add: store_get_all_def io_bind_def u)
qed

text \<open>The writes of a successful append.\<close>

lemma store_append_view:
  assumes "kv_lawful D v" "store_append D L i e db = (db', Inr ())"
  shows "\<exists>eb. entry_to_bytes L e = Some eb \<and>
    v db' = view_set cf_metadata key_chain_length (Some (u64_be (i + 1)))
             (view_set cf_metadata key_head_hash (Some (hash_bytes (se_entry_hash e)))
               (view_set cf_entries (u64_be i) (Some eb) (v db)))"
proof -
  obtain eb where eb: "entry_to_bytes L e = Some eb"
    using assms(2) by (cases "entry_to_bytes L e") (auto simp: store_append_def io_bind_def)
  from assms(2) eb have "io_then (db_put D cf_entries (u64_be i) eb)
      (io_then (db_put D cf_metadata key_head_hash (hash_bytes (se_entry_hash e)))
        (db_put D cf_metadata key_chain_length (u64_be (i + 1)))) db = (db', Inr ())"
    by (simp add: store_append_def io_bind_def)
  then obtain db1 db2 where p: "db_put D cf_entries (u64_be i) eb db = (db1, Inr ())"
      "db_put D cf_metadata key_head_hash (hash_bytes (se_entry_hash e)) db1 = (db2, Inr ())"
      "db_put D cf_metadata key_chain_length (u64_be (i + 1)) db2 = (db', Inr ())"
    by (elim io_then_cases) simp_all
  show ?thesis
    using db_put_cases [OF assms(1) p(1)] db_put_cases [OF assms(1) p(2)] db_put_cases [OF assms(1) p(3)] eb by simp
qed

text \<open>A failed append has written at most the entry and the head hash.\<close>

lemma store_append_keeps:
  assumes "kv_lawful D v" "store_append D L i e db = (db', r)" "k \<noteq> key_chain_length" "k \<noteq> key_head_hash"
  shows "v db' cf_metadata k = v db cf_metadata k"
proof (cases "entry_to_bytes L e")
  case None
  then show ?thesis using assms(2) by (simp add: store_append_def io_bind_def)
next
  case (Some eb)
  from assms(2) Some have "io_then (db_put D cf_entries (u64_be i) eb)
      (io_then (db_put D cf_metadata key_head_hash (hash_bytes (se_entry_hash e)))
        (db_put D cf_metadata key_chain_length (u64_be (i + 1)))) db = (db', r)"
    by (simp add: store_append_def io_bind_def)
  moreover have "v db2 cf_metadata k = v db1 cf_metadata k"
    if "db_put D cf k' b db1 = (db2, r')" "cf \<noteq> cf_metadata \<or> k' \<noteq> k" for cf k' b db1 db2 r'
    using db_put_cases [OF assms(1) that(1)] that(2) by (auto simp: view_set_def)
  ultimately show ?thesis using assms(3,4) cf_distinct(1)
    by (elim io_then_cases) metis+
qed

section \<open>Witnesses\<close>

definition demo_signed :: signed_entry where
  "demo_signed = entry_sign demo_lib (demo_entry 1) [7] hash_zero"

definition empty_db :: "string \<Rightarrow> bytes \<Rightarrow> bytes option" where
  "empty_db cf k = None"

definition demo_db :: "string \<Rightarrow> bytes \<Rightarrow> bytes option" where
  "demo_db = fst (store_append mem_ops demo_lib 0 demo_signed empty_db)"

lemma empty_db_holds: "store_holds mem_ops (\<lambda>db. db) demo_lib empty_db []"
  by (simp add: store_holds_def mem_lawful demo_lib_lawful length_rec_def empty_db_def)

lemma demo_db_holds: "store_holds mem_ops (\<lambda>db. db) demo_lib demo_db [demo_signed]"
proof -
  have "entry_to_bytes demo_lib demo_signed \<noteq> None" by (simp add: entry_to_bytes_def demo_lib_def)
  then obtain db' where "store_append mem_ops demo_lib 0 demo_signed empty_db = (db', Inr ())"
    using store_append_reliable [OF mem_lawful] by blast
  then show ?thesis using st.app_ok [OF empty_db_holds, of demo_signed db'] by (simp add: demo_db_def)
qed

theorem compaction_preserves_chain_witness:
  "\<exists>db' r. store_compact mem_ops 0 demo_db = (db', r) \<and> store_holds mem_ops (\<lambda>db. db) demo_lib db' [demo_signed]"
proof -
  obtain db' r where c: "store_compact mem_ops 0 demo_db = (db', r)" by fastforce
  have "store_get_all mem_ops demo_lib db' = (db', Inr [demo_signed])"
    by (rule store_get_all_reliable [OF store_compact_outcome [OF demo_db_holds c] kv_reliable_reads [OF mem_lawful(2)]])
  then show ?thesis using compaction_preserves_chain [OF demo_db_holds c] c by blast
qed

end
