(* ===== verification/Merkle.thy ===== *)
theory Merkle
  imports AuditStore DemoLib
begin

text \<open>
  Model of \<^verbatim>\<open>arcxa-coordinator/src/bitemporal/audit/merkle.rs\<close>: the Merkle tree over entry hashes, its
  inclusion proofs and batches of them. The node table is a map from level and index to a hash, and
  the two \<^verbatim>\<open>unwrap\<close>s of the construction make it partial (\<open>None\<close> is a panic). The height is computed in
  floating point from a power of two, where the logarithm is exact; the model takes the integer
  logarithm. Sizes are natural numbers.
\<close>

section \<open>State and operations\<close>

record merkle_tree =
  mt_root :: hash
  mt_height :: nat
  mt_leaves :: "hash list"
  mt_nodes :: "nat \<times> nat \<Rightarrow> hash option"

record merkle_proof =
  mp_leaf_index :: nat
  mp_leaf_hash :: hash
  mp_siblings :: "hash list"
  mp_root :: hash

definition merkle_empty :: merkle_tree where
  "merkle_empty = \<lparr>mt_root = hash_zero, mt_height = 0, mt_leaves = [], mt_nodes = Map.empty\<rparr>"

definition hash_pair :: "audit_lib \<Rightarrow> hash \<Rightarrow> hash \<Rightarrow> hash" where
  "hash_pair L left right = hash_compute L (hash_bytes left @ hash_bytes right)"

text \<open>\<^verbatim>\<open>usize::next_power_of_two\<close> and \<^verbatim>\<open>log2\<close> of a power of two.\<close>

fun log2_nat :: "nat \<Rightarrow> nat" where
  "log2_nat n = (if n < 2 then 0 else Suc (log2_nat (n div 2)))"

declare log2_nat.simps [simp del]

definition next_power_of_two :: "nat \<Rightarrow> nat" where
  "next_power_of_two n = (if n \<le> 1 then 1 else 2 * 2 ^ log2_nat (n - 1))"

text \<open>One level of the bottom-up construction.\<close>

fun build_level :: "audit_lib \<Rightarrow> nat \<Rightarrow> nat list \<Rightarrow> (nat \<times> nat \<Rightarrow> hash option) \<Rightarrow> (nat \<times> nat \<Rightarrow> hash option) option" where
  "build_level L level [] nodes = Some nodes"
| "build_level L level (i # is) nodes =
     (case (nodes (level - 1, i * 2), nodes (level - 1, i * 2 + 1)) of
        (Some left, Some right) \<Rightarrow> build_level L level is (nodes((level, i) \<mapsto> hash_pair L left right))
      | _ \<Rightarrow> None)"

fun build_levels :: "audit_lib \<Rightarrow> nat \<Rightarrow> nat list \<Rightarrow> (nat \<times> nat \<Rightarrow> hash option) \<Rightarrow> (nat \<times> nat \<Rightarrow> hash option) option" where
  "build_levels L height [] nodes = Some nodes"
| "build_levels L height (level # levels) nodes =
     (let prev_level_size = 2 ^ (height - level + 1);
          level_size = prev_level_size div 2
      in case build_level L level [0..<level_size] nodes of
           None \<Rightarrow> None
         | Some nodes' \<Rightarrow> build_levels L height levels nodes')"

definition pad_leaves :: "hash list \<Rightarrow> hash list" where
  "pad_leaves leaves = leaves @ replicate (next_power_of_two (length leaves) - length leaves) hash_zero"

definition from_leaves :: "audit_lib \<Rightarrow> hash list \<Rightarrow> merkle_tree option" where
  "from_leaves L leaves0 =
     (if leaves0 = [] then Some merkle_empty
      else let leaves = pad_leaves leaves0;
               height = log2_nat (length leaves);
               nodes0 = (\<lambda>(level, i). if level = 0 \<and> i < length leaves then Some (leaves ! i) else None)
           in case build_levels L height [1..<height + 1] nodes0 of
                None \<Rightarrow> None
              | Some nodes \<Rightarrow>
                  (case nodes (height, 0) of
                     None \<Rightarrow> None
                   | Some root \<Rightarrow>
                       Some \<lparr>mt_root = root, mt_height = height, mt_leaves = leaves, mt_nodes = nodes\<rparr>))"

definition from_entries :: "audit_lib \<Rightarrow> signed_entry list \<Rightarrow> merkle_tree option" where
  "from_entries L entries =
     (if entries = [] then Some merkle_empty else from_leaves L (map se_entry_hash entries))"

definition merkle_len :: "merkle_tree \<Rightarrow> nat" where
  "merkle_len t = length (mt_leaves t)"

definition merkle_is_empty :: "merkle_tree \<Rightarrow> bool" where
  "merkle_is_empty t \<longleftrightarrow> mt_leaves t = []"

fun proof_siblings :: "(nat \<times> nat \<Rightarrow> hash option) \<Rightarrow> nat list \<Rightarrow> nat \<Rightarrow> hash list" where
  "proof_siblings nodes [] current = []"
| "proof_siblings nodes (level # levels) current =
     (let sibling_index = (if current mod 2 = 0 then current + 1 else current - 1)
      in (case nodes (level, sibling_index) of Some sibling \<Rightarrow> sibling | None \<Rightarrow> hash_zero)
         # proof_siblings nodes levels (current div 2))"

definition merkle_proof_of :: "merkle_tree \<Rightarrow> nat \<Rightarrow> merkle_proof option" where
  "merkle_proof_of t index =
     (if index \<ge> length (mt_leaves t) then None
      else Some \<lparr>mp_leaf_index = index, mp_leaf_hash = mt_leaves t ! index,
                 mp_siblings = proof_siblings (mt_nodes t) [0..<mt_height t] index, mp_root = mt_root t\<rparr>)"

fun fold_proof :: "audit_lib \<Rightarrow> hash list \<Rightarrow> nat \<Rightarrow> hash \<Rightarrow> hash" where
  "fold_proof L [] index current = current"
| "fold_proof L (sibling # siblings) index current =
     fold_proof L siblings (index div 2)
       (if index mod 2 = 0 then hash_pair L current sibling else hash_pair L sibling current)"

definition proof_verify :: "audit_lib \<Rightarrow> merkle_proof \<Rightarrow> bool" where
  "proof_verify L p \<longleftrightarrow> fold_proof L (mp_siblings p) (mp_leaf_index p) (mp_leaf_hash p) = mp_root p"

definition proof_size :: "merkle_proof \<Rightarrow> nat" where
  "proof_size p = 8 + 32 + length (mp_siblings p) * 32 + 32"

record batch_proof =
  bp_root :: hash
  bp_proofs :: "merkle_proof list"

definition batch_new :: "hash \<Rightarrow> merkle_proof list \<Rightarrow> batch_proof" where
  "batch_new root proofs = \<lparr>bp_root = root, bp_proofs = proofs\<rparr>"

definition batch_verify :: "audit_lib \<Rightarrow> batch_proof \<Rightarrow> bool" where
  "batch_verify L b \<longleftrightarrow> list_all (\<lambda>p. mp_root p = bp_root b \<and> proof_verify L p) (bp_proofs b)"

definition batch_len :: "batch_proof \<Rightarrow> nat" where
  "batch_len b = length (bp_proofs b)"

definition batch_is_empty :: "batch_proof \<Rightarrow> bool" where
  "batch_is_empty b \<longleftrightarrow> bp_proofs b = []"

definition batch_size :: "batch_proof \<Rightarrow> nat" where
  "batch_size b = 32 + sum_list (map proof_size (bp_proofs b))"

section \<open>Sizes\<close>

lemma log2_nat_bounds: "0 < n \<Longrightarrow> 2 ^ log2_nat n \<le> n \<and> n < 2 * 2 ^ log2_nat n"
proof (induction n rule: log2_nat.induct)
  case (1 n)
  show ?case
  proof (cases "n < 2")
    case True
    then show ?thesis using 1(2) by (simp add: log2_nat.simps [of n])
  next
    case False
    have "2 ^ log2_nat (n div 2) \<le> n div 2 \<and> n div 2 < 2 * 2 ^ log2_nat (n div 2)"
      using 1(1) [OF False] False by simp
    then show ?thesis using False by (simp add: log2_nat.simps [of n]) linarith
  qed
qed

lemma log2_nat_power [simp]: "log2_nat (2 ^ k) = k"
proof (induction k)
  case (Suc k)
  then show ?case by (simp add: log2_nat.simps [of "2 * 2 ^ k"])
qed (simp add: log2_nat.simps [of "Suc 0"])

lemma next_power_power: "\<exists>k. next_power_of_two n = 2 ^ k"
  by (auto simp: next_power_of_two_def intro: exI [of _ 0] exI [of _ "Suc _"])

lemma next_power_ge: "n \<le> next_power_of_two n"
  using log2_nat_bounds [of "n - 1"] by (auto simp: next_power_of_two_def)

lemma next_power_least:
  assumes "n \<le> 2 ^ k" shows "next_power_of_two n \<le> 2 ^ k"
proof (cases "n \<le> 1")
  case False
  then have "2 ^ log2_nat (n - 1) \<le> n - 1" using log2_nat_bounds [of "n - 1"] by simp
  then have "2 ^ log2_nat (n - 1) < (2 :: nat) ^ k" using assms False by linarith
  then have "log2_nat (n - 1) < k" by simp
  then have "(2 :: nat) ^ Suc (log2_nat (n - 1)) \<le> 2 ^ k" by (intro power_increasing) simp_all
  then show ?thesis using False by (simp add: next_power_of_two_def)
qed (simp add: next_power_of_two_def)

lemma length_pad_leaves: "length (pad_leaves ls) = next_power_of_two (length ls)"
  using next_power_ge [of "length ls"] by (simp add: pad_leaves_def)

section \<open>The reference tree\<close>

text \<open>The hash of the node at a level and an index, straight from the leaves.\<close>

fun node_hash :: "audit_lib \<Rightarrow> hash list \<Rightarrow> nat \<Rightarrow> nat \<Rightarrow> hash" where
  "node_hash L ls 0 i = ls ! i"
| "node_hash L ls (Suc l) i = hash_pair L (node_hash L ls l (2 * i)) (node_hash L ls l (2 * i + 1))"

text \<open>The node table is complete up to a level.\<close>

definition nodes_upto :: "audit_lib \<Rightarrow> hash list \<Rightarrow> nat \<Rightarrow> nat \<Rightarrow> (nat \<times> nat \<Rightarrow> hash option) \<Rightarrow> bool" where
  "nodes_upto L ls h lv nodes \<longleftrightarrow> (\<forall>l i. l \<le> lv \<longrightarrow> i < 2 ^ (h - l) \<longrightarrow> nodes (l, i) = Some (node_hash L ls l i))"

lemma build_level_ok:
  assumes "\<forall>i \<in> set is. nodes (level, 2 * i) = Some (node_hash L ls level (2 * i)) \<and>
      nodes (level, 2 * i + 1) = Some (node_hash L ls level (2 * i + 1))"
  shows "\<exists>nodes'. build_level L (Suc level) is nodes = Some nodes' \<and>
    (\<forall>i \<in> set is. nodes' (Suc level, i) = Some (node_hash L ls (Suc level) i)) \<and>
    (\<forall>l i. l \<noteq> Suc level \<or> i \<notin> set is \<longrightarrow> nodes' (l, i) = nodes (l, i))"
  using assms
proof (induction "is" arbitrary: nodes)
  case (Cons i "is")
  let ?n = "nodes((Suc level, i) \<mapsto> node_hash L ls (Suc level) i)"
  have step: "build_level L (Suc level) (i # is) nodes = build_level L (Suc level) is ?n"
    using Cons.prems by (simp add: mult.commute)
  have "\<forall>j \<in> set is. ?n (level, 2 * j) = Some (node_hash L ls level (2 * j)) \<and>
      ?n (level, 2 * j + 1) = Some (node_hash L ls level (2 * j + 1))" using Cons.prems by simp
  from Cons.IH [OF this] obtain nodes' where n: "build_level L (Suc level) is ?n = Some nodes'"
      "\<forall>j \<in> set is. nodes' (Suc level, j) = Some (node_hash L ls (Suc level) j)"
      "\<forall>l j. l \<noteq> Suc level \<or> j \<notin> set is \<longrightarrow> nodes' (l, j) = ?n (l, j)" by blast
  have "nodes' (Suc level, i) = Some (node_hash L ls (Suc level) i)"
    using n(2,3) by (cases "i \<in> set is") auto
  then show ?case using n step by auto
qed simp

lemma build_levels_ok:
  assumes "nodes_upto L ls h lv nodes" "lv \<le> h"
  shows "\<exists>nodes'. build_levels L h [Suc lv..<Suc h] nodes = Some nodes' \<and> nodes_upto L ls h h nodes'"
  using assms
proof (induction "h - lv" arbitrary: lv nodes)
  case (Suc n)
  then have lv: "lv < h" by simp
  have size: "2 ^ (h - Suc lv + 1) div 2 = (2 :: nat) ^ (h - Suc lv)" by simp
  have half: "(2 :: nat) ^ (h - lv) = 2 * 2 ^ (h - Suc lv)" using lv by (metis Suc_diff_Suc power_Suc)
  have "\<forall>i \<in> set [0..<2 ^ (h - Suc lv)]. nodes (lv, 2 * i) = Some (node_hash L ls lv (2 * i)) \<and>
      nodes (lv, 2 * i + 1) = Some (node_hash L ls lv (2 * i + 1))"
    using Suc.prems(1) unfolding nodes_upto_def half [symmetric] by (auto simp: half)
  from build_level_ok [OF this] obtain nodes' where
      n: "build_level L (Suc lv) [0..<2 ^ (h - Suc lv)] nodes = Some nodes'"
      "\<forall>i \<in> set [0..<2 ^ (h - Suc lv)]. nodes' (Suc lv, i) = Some (node_hash L ls (Suc lv) i)"
      "\<forall>l i. l \<noteq> Suc lv \<or> i \<notin> set [0..<2 ^ (h - Suc lv)] \<longrightarrow> nodes' (l, i) = nodes (l, i)" by blast
  have "nodes_upto L ls h (Suc lv) nodes'"
    unfolding nodes_upto_def
  proof (intro allI impI)
    fix l i :: nat assume "l \<le> Suc lv" "i < 2 ^ (h - l)"
    then show "nodes' (l, i) = Some (node_hash L ls l i)"
      using n(2,3) Suc.prems(1) unfolding nodes_upto_def by (cases "l = Suc lv") auto
  qed
  moreover have "n = h - Suc lv" "Suc lv \<le> h" using Suc.hyps(2) lv by auto
  ultimately have "\<exists>nodes''. build_levels L h [Suc (Suc lv)..<Suc h] nodes' = Some nodes'' \<and> nodes_upto L ls h h nodes''"
    using Suc.hyps(1) by blast
  moreover have "[Suc lv..<Suc h] = Suc lv # [Suc (Suc lv)..<Suc h]" using lv by (simp add: upt_conv_Cons)
  ultimately show ?case using n(1) by (simp only: build_levels.simps Let_def size) simp
qed simp

definition tree_height :: "hash list \<Rightarrow> nat" where
  "tree_height ls = log2_nat (next_power_of_two (length ls))"

lemma pad_length: "length (pad_leaves ls) = 2 ^ tree_height ls"
  using next_power_power [of "length ls"] by (auto simp: length_pad_leaves tree_height_def)

lemma from_leaves_ok:
  assumes "ls \<noteq> []"
  shows "\<exists>nodes. from_leaves L ls = Some \<lparr>mt_root = node_hash L (pad_leaves ls) (tree_height ls) 0,
      mt_height = tree_height ls, mt_leaves = pad_leaves ls, mt_nodes = nodes\<rparr> \<and>
    nodes_upto L (pad_leaves ls) (tree_height ls) (tree_height ls) nodes"
proof -
  let ?ls = "pad_leaves ls" and ?h = "tree_height ls"
  let ?n0 = "\<lambda>(level, i). if level = 0 \<and> i < length ?ls then Some (?ls ! i) else None"
  have h: "log2_nat (length ?ls) = ?h" by (simp add: length_pad_leaves tree_height_def)
  have "nodes_upto L ?ls ?h 0 ?n0" by (simp add: nodes_upto_def pad_length)
  from build_levels_ok [OF this] obtain nodes where
      n: "build_levels L ?h [Suc 0..<Suc ?h] ?n0 = Some nodes" "nodes_upto L ?ls ?h ?h nodes" by blast
  have root: "nodes (?h, 0) = Some (node_hash L ?ls ?h 0)" using n(2) by (simp add: nodes_upto_def)
  have "from_leaves L ls = Some \<lparr>mt_root = node_hash L ?ls ?h 0, mt_height = ?h, mt_leaves = ?ls, mt_nodes = nodes\<rparr>"
    unfolding from_leaves_def Let_def h using assms n(1) root by (simp del: upt_Suc)
  then show ?thesis using n(2) by blast
qed

section \<open>Proofs verify\<close>

lemma fold_proof_siblings:
  assumes "nodes_upto L ls h h nodes" "c < 2 ^ (h - l)" "l \<le> h"
  shows "fold_proof L (proof_siblings nodes [l..<h] c) c (node_hash L ls l c) = node_hash L ls h 0"
  using assms(2,3)
proof (induction "h - l" arbitrary: l c)
  case (Suc n)
  then have l: "l < h" by simp
  have half: "(2 :: nat) ^ (h - l) = 2 * 2 ^ (h - Suc l)" using l by (metis Suc_diff_Suc power_Suc)
  have up: "[l..<h] = l # [Suc l..<h]" using l by (simp add: upt_conv_Cons)
  let ?s = "if c mod 2 = 0 then c + 1 else c - 1"
  have "?s < 2 ^ (h - l)" using Suc.prems(1) unfolding half by presburger
  then have sib: "nodes (l, ?s) = Some (node_hash L ls l ?s)" using assms(1) l by (simp add: nodes_upto_def)
  have parent: "(if c mod 2 = 0 then hash_pair L (node_hash L ls l c) (node_hash L ls l ?s)
      else hash_pair L (node_hash L ls l ?s) (node_hash L ls l c)) = node_hash L ls (Suc l) (c div 2)"
  proof (cases "c mod 2 = 0")
    case True
    then have "2 * (c div 2) = c" by auto
    then show ?thesis using True by simp
  next
    case False
    then have "2 * (c div 2) = c - 1" "2 * (c div 2) + 1 = c" by presburger+
    then show ?thesis using False by simp
  qed
  have "c div 2 < 2 ^ (h - Suc l)" using Suc.prems(1) unfolding half by auto
  then have "fold_proof L (proof_siblings nodes [Suc l..<h] (c div 2)) (c div 2) (node_hash L ls (Suc l) (c div 2)) =
      node_hash L ls h 0" using Suc.hyps(2) l by (intro Suc.hyps(1)) simp_all
  then show ?case unfolding up proof_siblings.simps Let_def sib option.case fold_proof.simps parent .
qed simp

lemma proof_siblings_length: "length (proof_siblings nodes lv c) = length lv"
  by (induction nodes lv c rule: proof_siblings.induct) (simp_all add: Let_def)

text \<open>
  C9. Building a tree never panics, and every proof it hands out verifies: the root is the reference
  hash of the leaves padded with zero hashes to the next power of two, a proof exists for exactly the
  padded positions, has one sibling per level, carries the leaf and the root, and passes
  \<^verbatim>\<open>verify\<close>.
\<close>

theorem merkle_proofs_verify:
  assumes "ls \<noteq> []"
  shows "\<exists>t. from_leaves L ls = Some t \<and> mt_root t = node_hash L (pad_leaves ls) (tree_height ls) 0 \<and>
    length (mt_leaves t) = 2 ^ tree_height ls \<and>
    (\<forall>i. case merkle_proof_of t i of
       None \<Rightarrow> i \<ge> 2 ^ tree_height ls
     | Some p \<Rightarrow> i < 2 ^ tree_height ls \<and> proof_verify L p \<and> mp_leaf_index p = i \<and> mp_root p = mt_root t \<and>
         mp_leaf_hash p = (if i < length ls then ls ! i else hash_zero) \<and>
         length (mp_siblings p) = tree_height ls)"
proof -
  let ?h = "tree_height ls" and ?ls = "pad_leaves ls"
  obtain nodes where t: "from_leaves L ls = Some \<lparr>mt_root = node_hash L ?ls ?h 0, mt_height = ?h,
      mt_leaves = ?ls, mt_nodes = nodes\<rparr>" and n: "nodes_upto L ?ls ?h ?h nodes"
    using from_leaves_ok [OF assms] by blast
  have "fold_proof L (proof_siblings nodes [0..<?h] i) i (?ls ! i) = node_hash L ?ls ?h 0" if "i < 2 ^ ?h" for i
    using fold_proof_siblings [OF n, of i 0] that by simp
  moreover have "?ls ! i = (if i < length ls then ls ! i else hash_zero)" if "i < 2 ^ ?h" for i
    using that pad_length [of ls] by (auto simp: pad_leaves_def nth_append)
  ultimately show ?thesis
    unfolding t by (auto simp: merkle_proof_of_def pad_length proof_verify_def proof_siblings_length)
qed

section \<open>Soundness of verification\<close>

definition hash_ok :: "hash \<Rightarrow> bool" where
  "hash_ok h \<longleftrightarrow> length (hash_bytes h) = 32"

text \<open>The byte strings that checking a proof feeds to SHA-256.\<close>

fun proof_inputs :: "audit_lib \<Rightarrow> hash list \<Rightarrow> nat \<Rightarrow> hash \<Rightarrow> bytes list" where
  "proof_inputs L [] i cur = []"
| "proof_inputs L (s # ss) i cur =
     (let d = (if i mod 2 = 0 then hash_bytes cur @ hash_bytes s else hash_bytes s @ hash_bytes cur)
      in d # proof_inputs L ss (i div 2) (hash_compute L d))"

lemma fold_proof_inject:
  assumes "lib_lawful L" "length ss = length ts" "fold_proof L ss i x = fold_proof L ts i y"
    "hash_ok x" "hash_ok y" "list_all hash_ok ss" "list_all hash_ok ts"
  shows "x = y \<or> (\<exists>(a, b) \<in> set (zip (proof_inputs L ss i x) (proof_inputs L ts i y)). collides L a b)"
  using assms(2-7)
proof (induction ss ts arbitrary: i x y rule: list_induct2)
  case (Cons s ss t ts)
  define d e where "d = (if i mod 2 = 0 then hash_bytes x @ hash_bytes s else hash_bytes s @ hash_bytes x)"
    and "e = (if i mod 2 = 0 then hash_bytes y @ hash_bytes t else hash_bytes t @ hash_bytes y)"
  have f: "fold_proof L ss (i div 2) (hash_compute L d) = fold_proof L ts (i div 2) (hash_compute L e)"
    using Cons.prems(1) by (simp add: hash_pair_def d_def e_def split: if_splits)
  have inputs: "proof_inputs L (s # ss) i x = d # proof_inputs L ss (i div 2) (hash_compute L d)"
    "proof_inputs L (t # ts) i y = e # proof_inputs L ts (i div 2) (hash_compute L e)"
    by (simp_all add: d_def e_def Let_def)
  have ok: "hash_ok (hash_compute L d)" "hash_ok (hash_compute L e)"
    using hash_length [OF assms(1)] by (simp_all add: hash_ok_def)
  from Cons.IH [OF f ok] Cons.prems consider "hash_compute L d = hash_compute L e"
    | "\<exists>(a, b) \<in> set (zip (proof_inputs L ss (i div 2) (hash_compute L d))
          (proof_inputs L ts (i div 2) (hash_compute L e))). collides L a b" by auto
  then show ?case
  proof cases
    case 1
    then have "d = e \<or> collides L d e" by (auto simp: hash_compute_def collides_def)
    moreover have "x = y" if "d = e"
      using that Cons.prems(2-5) by (auto simp: d_def e_def hash_ok_def hash.expand split: if_splits)
    ultimately show ?thesis unfolding inputs by auto
  next
    case 2
    then show ?thesis unfolding inputs by auto
  qed
qed simp

text \<open>
  C10. Soundness of inclusion proofs: a proof of the tree's height that verifies against the tree's root
  at one of its positions shows the leaf the tree has there, or else the two runs of the check, on the
  proof and on the tree's own proof, feed SHA-256 two different inputs with the same digest.
\<close>

theorem merkle_proof_sound:
  assumes "lib_lawful L" "from_leaves L ls = Some t" "ls \<noteq> []" "list_all hash_ok ls"
    and "proof_verify L p" "mp_root p = mt_root t" "mp_leaf_index p < length (mt_leaves t)"
    and "length (mp_siblings p) = mt_height t" "hash_ok (mp_leaf_hash p)" "list_all hash_ok (mp_siblings p)"
    and "merkle_proof_of t (mp_leaf_index p) = Some q"
  shows "mp_leaf_hash p = mt_leaves t ! mp_leaf_index p \<or>
    (\<exists>(a, b) \<in> set (zip (proof_inputs L (mp_siblings p) (mp_leaf_index p) (mp_leaf_hash p))
                       (proof_inputs L (mp_siblings q) (mp_leaf_index p) (mp_leaf_hash q))). collides L a b)"
proof -
  let ?i = "mp_leaf_index p" and ?ls = "pad_leaves ls" and ?h = "tree_height ls"
  obtain nodes where t: "t = \<lparr>mt_root = node_hash L ?ls ?h 0, mt_height = ?h, mt_leaves = ?ls, mt_nodes = nodes\<rparr>"
    and n: "nodes_upto L ?ls ?h ?h nodes" using from_leaves_ok [OF assms(3), of L] assms(2) by auto
  have i: "?i < 2 ^ ?h" using assms(7) by (simp add: t pad_length)
  have q: "mp_siblings q = proof_siblings nodes [0..<?h] ?i" "mp_leaf_hash q = ?ls ! ?i"
    using assms(11) i by (auto simp: merkle_proof_of_def t pad_length)
  have eq: "fold_proof L (mp_siblings p) ?i (mp_leaf_hash p) = fold_proof L (mp_siblings q) ?i (mp_leaf_hash q)"
    using assms(5,6) fold_proof_siblings [OF n, of ?i 0] i by (simp add: proof_verify_def t q)
  have ls: "list_all hash_ok ?ls"
    using assms(4) by (auto simp: pad_leaves_def list_all_iff hash_zero_def hash_ok_def)
  have node: "hash_ok (node_hash L ?ls l j)" if "j < 2 ^ (?h - l)" "l \<le> ?h" for l j
    using that ls by (cases l) (auto simp: pad_length list_all_length hash_ok_def hash_pair_def hash_length [OF assms(1)])
  have "list_all hash_ok (proof_siblings nodes [l..<?h] c)" if "l \<le> ?h" "c < 2 ^ (?h - l)" for l c
    using that
  proof (induction "?h - l" arbitrary: l c)
    case (Suc k)
    then have l: "l < ?h" by simp
    have half: "(2 :: nat) ^ (?h - l) = 2 * 2 ^ (?h - Suc l)" using l by (metis Suc_diff_Suc power_Suc)
    let ?s = "if c mod 2 = 0 then c + 1 else c - 1"
    have s: "?s < 2 ^ (?h - l)" using Suc.prems(2) unfolding half by presburger
    then have sib: "nodes (l, ?s) = Some (node_hash L ?ls l ?s)" using n l by (simp add: nodes_upto_def)
    have "list_all hash_ok (proof_siblings nodes [Suc l..<?h] (c div 2))"
      using Suc.hyps(1) [of "Suc l" "c div 2"] Suc.hyps(2) Suc.prems(2) l unfolding half by auto
    moreover have "[l..<?h] = l # [Suc l..<?h]" using l by (simp add: upt_conv_Cons)
    ultimately show ?case using node [OF s] l unfolding proof_siblings.simps Let_def sib by (simp add: sib)
  qed simp
  then have "list_all hash_ok (mp_siblings q)" using q(1) i by simp
  moreover have "hash_ok (mp_leaf_hash q)" using ls i by (simp add: q(2) list_all_length pad_length)
  moreover have "length (mp_siblings p) = length (mp_siblings q)"
    using assms(8) by (simp add: q(1) proof_siblings_length t)
  ultimately show ?thesis
    using fold_proof_inject [OF assms(1) _ eq assms(9) _ assms(10)] q(2) by (simp add: t)
qed

text \<open>
  Padding is ambiguous: a list of leaves and the same list padded with zero hashes give the same
  tree, so a root does not determine how many entries were committed.
\<close>

lemma padding_is_ambiguous:
  assumes "ls \<noteq> []"
  shows "from_leaves L (pad_leaves ls) = from_leaves L ls"
proof -
  have "next_power_of_two (next_power_of_two n) = next_power_of_two n" for n
    using next_power_power [of n] next_power_least [of "next_power_of_two n"] next_power_ge [of "next_power_of_two n"]
    by (metis le_antisym order_refl)
  then have "pad_leaves (pad_leaves ls) = pad_leaves ls"
    by (simp add: pad_leaves_def [of "pad_leaves ls"] length_pad_leaves)
  moreover have "pad_leaves ls \<noteq> []" using assms by (simp add: pad_leaves_def)
  ultimately show ?thesis unfolding from_leaves_def using assms by simp
qed

text \<open>
  A batch of proofs taken from one tree verifies, whatever the indices.
\<close>

lemma batch_proofs_verify:
  assumes "from_leaves L ls = Some t"
  shows "batch_verify L (batch_new (mt_root t) (List.map_filter (merkle_proof_of t) idxs))"
proof (cases "ls = []")
  case True
  then have "merkle_proof_of t i = None" for i
    using assms by (auto simp: from_leaves_def merkle_empty_def merkle_proof_of_def)
  then show ?thesis by (simp add: batch_verify_def batch_new_def List.map_filter_def)
next
  case False
  obtain nodes where t: "t = \<lparr>mt_root = node_hash L (pad_leaves ls) (tree_height ls) 0, mt_height = tree_height ls,
      mt_leaves = pad_leaves ls, mt_nodes = nodes\<rparr>"
    and n: "nodes_upto L (pad_leaves ls) (tree_height ls) (tree_height ls) nodes"
    using from_leaves_ok [OF False, of L] assms by auto
  have "mp_root p = mt_root t \<and> proof_verify L p" if "merkle_proof_of t i = Some p" for i p
    using that fold_proof_siblings [OF n, of i 0]
    by (auto simp: merkle_proof_of_def t pad_length proof_verify_def split: if_splits)
  then show ?thesis
    by (auto simp: batch_verify_def batch_new_def List.map_filter_def list_all_iff)
qed

section \<open>Witnesses\<close>

definition demo_leaves :: "hash list" where
  "demo_leaves = [Hash (replicate 32 1), Hash (replicate 32 2), Hash (replicate 32 3)]"

lemma demo_leaves_ne: "demo_leaves \<noteq> []" "list_all hash_ok demo_leaves"
  by (simp_all add: demo_leaves_def hash_ok_def)

theorem merkle_proofs_verify_witness:
  "\<exists>t. from_leaves demo_lib demo_leaves = Some t \<and> length (mt_leaves t) = 4"
proof -
  have "tree_height demo_leaves = 2" by code_simp
  then show ?thesis using merkle_proofs_verify [OF demo_leaves_ne(1), of demo_lib] by auto
qed

lemma padding_is_ambiguous_witness:
  "from_leaves demo_lib (demo_leaves @ [hash_zero]) = from_leaves demo_lib demo_leaves"
proof -
  have "pad_leaves demo_leaves = demo_leaves @ [hash_zero]" by code_simp
  then show ?thesis using padding_is_ambiguous [OF demo_leaves_ne(1), of demo_lib] by simp
qed

lemma batch_proofs_verify_witness:
  "\<exists>t. from_leaves demo_lib demo_leaves = Some t \<and>
     batch_verify demo_lib (batch_new (mt_root t) (List.map_filter (merkle_proof_of t) [0, 3, 9]))"
proof -
  obtain t where "from_leaves demo_lib demo_leaves = Some t"
    using from_leaves_ok [OF demo_leaves_ne(1), of demo_lib] by blast
  then show ?thesis using batch_proofs_verify [of demo_lib demo_leaves t "[0, 3, 9]"] by blast
qed

theorem merkle_proof_sound_witness:
  "\<exists>t q. from_leaves demo_lib demo_leaves = Some t \<and> merkle_proof_of t 1 = Some q \<and>
     (mp_leaf_hash q = mt_leaves t ! 1 \<or>
      (\<exists>(a, b) \<in> set (zip (proof_inputs demo_lib (mp_siblings q) 1 (mp_leaf_hash q))
                       (proof_inputs demo_lib (mp_siblings q) 1 (mp_leaf_hash q))). collides demo_lib a b))"
proof -
  have h: "tree_height demo_leaves = 2" by code_simp
  obtain nodes where t: "from_leaves demo_lib demo_leaves = Some \<lparr>mt_root = node_hash demo_lib (pad_leaves demo_leaves) 2 0,
      mt_height = 2, mt_leaves = pad_leaves demo_leaves, mt_nodes = nodes\<rparr>" (is "_ = Some ?t")
    and n: "nodes_upto demo_lib (pad_leaves demo_leaves) 2 2 nodes"
    using from_leaves_ok [OF demo_leaves_ne(1), of demo_lib] by (auto simp: h)
  let ?q = "\<lparr>mp_leaf_index = 1, mp_leaf_hash = pad_leaves demo_leaves ! 1,
      mp_siblings = proof_siblings nodes [0..<2] 1, mp_root = mt_root ?t\<rparr>"
  have len: "length (pad_leaves demo_leaves) = 4" by (simp add: pad_length h)
  then have q: "merkle_proof_of ?t 1 = Some ?q" by (simp add: merkle_proof_of_def)
  have v: "proof_verify demo_lib ?q"
    using fold_proof_siblings [OF n, of 1 0] by (simp add: proof_verify_def)
  have s: "proof_siblings nodes [0..<2] 1 = [pad_leaves demo_leaves ! 0, node_hash demo_lib (pad_leaves demo_leaves) 1 1]"
    using n by (simp add: nodes_upto_def numeral_2_eq_2)
  have ok: "hash_ok (pad_leaves demo_leaves ! 0)" "hash_ok (pad_leaves demo_leaves ! 1)"
    by (simp_all add: pad_leaves_def demo_leaves_def hash_ok_def)
  have "hash_ok (node_hash demo_lib (pad_leaves demo_leaves) 1 1)"
    by (simp add: hash_ok_def hash_pair_def hash_length [OF demo_lib_lawful])
  then have sok: "list_all hash_ok (proof_siblings nodes [0..<2] 1)" using ok unfolding s by simp
  show ?thesis
    using merkle_proof_sound [OF demo_lib_lawful t demo_leaves_ne, of ?q ?q] q v ok sok len t
    by (simp add: proof_siblings_length)
qed

end
