(* ===== verification/AuditChain.thy ===== *)
theory AuditChain
  imports AuditStore Merkle
begin

text \<open>
  Model of \<^verbatim>\<open>arcxa-coordinator/src/bitemporal/audit/chain.rs\<close> and \<^verbatim>\<open>verifier.rs\<close>: the append-only audit
  chain, its persistence, import and export, its Merkle commitments, and the chain verifier. The
  entries sit behind a read-write lock, so an operation is one atomic step. The database of a chain
  with a store is threaded through the operations; \<open>None\<close> is a panic (\<^verbatim>\<open>expect\<close> on a failed write).
\<close>

section \<open>State and operations of the chain\<close>

record audit_chain =
  ch_entries :: "signed_entry list"
  ch_signing_key :: bytes
  ch_genesis_hash :: hash
  ch_has_store :: bool

definition chain_new :: "bytes \<Rightarrow> audit_chain" where
  "chain_new key = \<lparr>ch_entries = [], ch_signing_key = key, ch_genesis_hash = hash_zero, ch_has_store = False\<rparr>"

definition chain_new_with_store :: "'db kv_ops \<Rightarrow> audit_lib \<Rightarrow> bytes \<Rightarrow> ('db, audit_chain) io" where
  "chain_new_with_store D L key =
     io_then (store_set_genesis_hash D hash_zero)
    (io_then (store_set_public_key D (al_verifying_key L key))
     (io_return \<lparr>ch_entries = [], ch_signing_key = key, ch_genesis_hash = hash_zero, ch_has_store = True\<rparr>))"

definition chain_from_store :: "'db kv_ops \<Rightarrow> audit_lib \<Rightarrow> bytes \<Rightarrow> ('db, audit_chain) io" where
  "chain_from_store D L key =
     io_bind (store_get_all D L) (\<lambda>entries.
     io_bind (store_genesis_hash D) (\<lambda>genesis.
     io_bind (store_public_key D) (\<lambda>stored_pk.
       if (case stored_pk of Some pk \<Rightarrow> pk \<noteq> al_verifying_key L key | None \<Rightarrow> False)
       then io_fail (BadData ''public key mismatch'')
       else io_return \<lparr>ch_entries = entries, ch_signing_key = key,
                       ch_genesis_hash = (case genesis of Some h \<Rightarrow> h | None \<Rightarrow> hash_zero),
                       ch_has_store = True\<rparr>)))"

definition last_hash :: "hash \<Rightarrow> signed_entry list \<Rightarrow> hash" where
  "last_hash genesis entries = (if entries = [] then genesis else se_entry_hash (last entries))"

definition chain_append ::
  "'db kv_ops \<Rightarrow> audit_lib \<Rightarrow> audit_entry \<Rightarrow> audit_chain \<Rightarrow> 'db \<Rightarrow> 'db \<times> (signed_entry \<times> audit_chain) option" where
  "chain_append D L entry c db =
     (let previous = last_hash (ch_genesis_hash c) (ch_entries c);
          signed = entry_sign L entry (ch_signing_key c) previous;
          index = of_nat (length (ch_entries c));
          (db', r) = (if ch_has_store c then store_append D L index signed db else (db, Inr ()))
      in case r of
           Inl _ \<Rightarrow> (db', None)
         | Inr _ \<Rightarrow> (db', Some (signed, c\<lparr>ch_entries := ch_entries c @ [signed]\<rparr>)))"

definition chain_len :: "audit_chain \<Rightarrow> nat" where
  "chain_len c = length (ch_entries c)"

definition chain_get :: "audit_chain \<Rightarrow> nat \<Rightarrow> signed_entry option" where
  "chain_get c i = (if i < length (ch_entries c) then Some (ch_entries c ! i) else None)"

definition chain_last :: "audit_chain \<Rightarrow> signed_entry option" where
  "chain_last c = (if ch_entries c = [] then None else Some (last (ch_entries c)))"

definition chain_head_hash :: "audit_chain \<Rightarrow> hash" where
  "chain_head_hash c = (case chain_last c of Some e \<Rightarrow> se_entry_hash e | None \<Rightarrow> ch_genesis_hash c)"

datatype chain_error = BadGenesis | EntryFailed nat | ChainBroken nat hash hash

fun verify_loop :: "audit_lib \<Rightarrow> signed_entry list \<Rightarrow> nat list \<Rightarrow> chain_error + unit" where
  "verify_loop L es [] = Inr ()"
| "verify_loop L es (i # is) =
     (if \<not> entry_verify L (es ! i) then Inl (EntryFailed i)
      else if i > 0 \<and> se_previous_hash (es ! i) \<noteq> se_entry_hash (es ! (i - 1))
      then Inl (ChainBroken i (se_entry_hash (es ! (i - 1))) (se_previous_hash (es ! i)))
      else verify_loop L es is)"

definition chain_verify :: "audit_lib \<Rightarrow> audit_chain \<Rightarrow> chain_error + unit" where
  "chain_verify L c =
     (let es = ch_entries c
      in if es = [] then Inr ()
         else if se_previous_hash (es ! 0) \<noteq> ch_genesis_hash c then Inl BadGenesis
         else verify_loop L es [0..<length es])"

definition chain_export :: "audit_lib \<Rightarrow> audit_chain \<Rightarrow> bytes option" where
  "chain_export L c = al_encode_all L (ch_entries c)"

datatype import_error = BadBytes | BadChain chain_error

definition chain_import :: "audit_lib \<Rightarrow> bytes \<Rightarrow> audit_chain \<Rightarrow> import_error + audit_chain" where
  "chain_import L bs c =
     (case al_decode_all L bs of
        None \<Rightarrow> Inl BadBytes
      | Some imported \<Rightarrow>
          let temp = (chain_new (ch_signing_key c))\<lparr>ch_entries := imported\<rparr>
          in case chain_verify L temp of
               Inl e \<Rightarrow> Inl (BadChain e)
             | Inr _ \<Rightarrow> Inr (c\<lparr>ch_entries := ch_entries temp\<rparr>))"

definition chain_public_key :: "audit_lib \<Rightarrow> audit_chain \<Rightarrow> bytes" where
  "chain_public_key L c = al_verifying_key L (ch_signing_key c)"

text \<open>The Merkle operations; the outer option is the panic of the tree construction.\<close>

definition build_merkle_tree :: "audit_lib \<Rightarrow> audit_chain \<Rightarrow> merkle_tree option" where
  "build_merkle_tree L c = from_entries L (ch_entries c)"

definition chain_merkle_root :: "audit_lib \<Rightarrow> audit_chain \<Rightarrow> hash option" where
  "chain_merkle_root L c = map_option mt_root (build_merkle_tree L c)"

definition chain_merkle_proof :: "audit_lib \<Rightarrow> audit_chain \<Rightarrow> nat \<Rightarrow> merkle_proof option option" where
  "chain_merkle_proof L c index =
     (if index \<ge> chain_len c then Some None
      else map_option (\<lambda>t. merkle_proof_of t index) (build_merkle_tree L c))"

definition chain_batch_proof :: "audit_lib \<Rightarrow> audit_chain \<Rightarrow> nat list \<Rightarrow> batch_proof option" where
  "chain_batch_proof L c indices =
     map_option (\<lambda>t. batch_new (mt_root t) (List.map_filter (merkle_proof_of t) indices)) (build_merkle_tree L c)"

definition verify_with_merkle :: "audit_lib \<Rightarrow> audit_chain \<Rightarrow> bool option" where
  "verify_with_merkle L c =
     (if ch_entries c = [] then Some True
      else case build_merkle_tree L c of
             None \<Rightarrow> None
           | Some _ \<Rightarrow> map_option (batch_verify L) (chain_batch_proof L c [0..<length (ch_entries c)]))"

section \<open>The chain verifier\<close>

datatype verification_error =
    InvalidSignature nat
  | InvalidEntryHash nat
  | BrokenChain nat string string
  | BadGenesisLink string
  | DuplicateHash nat string
  | TimestampRegression nat u64 u64

record verification_result =
  vr_valid :: bool
  vr_entries_verified :: nat
  vr_errors :: "verification_error list"

definition vr_success :: "nat \<Rightarrow> verification_result" where
  "vr_success n = \<lparr>vr_valid = True, vr_entries_verified = n, vr_errors = []\<rparr>"

definition vr_failure :: "nat \<Rightarrow> verification_error list \<Rightarrow> verification_result" where
  "vr_failure n errs = \<lparr>vr_valid = False, vr_entries_verified = n, vr_errors = errs\<rparr>"

definition verify_linkage :: "signed_entry \<Rightarrow> signed_entry \<Rightarrow> bool" where
  "verify_linkage prev cur \<longleftrightarrow> se_previous_hash cur = se_entry_hash prev"

definition entry_errors :: "audit_lib \<Rightarrow> signed_entry list \<Rightarrow> nat \<Rightarrow> string set \<Rightarrow> verification_error list" where
  "entry_errors L es i seen =
     (let entry = es ! i; hash_hex = hash_to_hex L (se_entry_hash entry)
      in (if \<not> verify_signature L entry then [InvalidSignature i] else []) @
         (if \<not> verify_entry_hash L entry then [InvalidEntryHash i] else []) @
         (if hash_hex \<in> seen then [DuplicateHash i hash_hex] else []) @
         (if i > 0
          then (if se_previous_hash entry \<noteq> se_entry_hash (es ! (i - 1))
                then [BrokenChain i (hash_to_hex L (se_entry_hash (es ! (i - 1))))
                        (hash_to_hex L (se_previous_hash entry))] else []) @
               (if ae_timestamp (se_entry entry) < ae_timestamp (se_entry (es ! (i - 1)))
                then [TimestampRegression i (ae_timestamp (se_entry entry))
                        (ae_timestamp (se_entry (es ! (i - 1))))] else [])
          else []))"

fun verifier_loop :: "audit_lib \<Rightarrow> signed_entry list \<Rightarrow> nat list \<Rightarrow> string set \<Rightarrow> verification_error list" where
  "verifier_loop L es [] seen = []"
| "verifier_loop L es (i # is) seen =
     entry_errors L es i seen @ verifier_loop L es is (insert (hash_to_hex L (se_entry_hash (es ! i))) seen)"

definition verifier_verify :: "audit_lib \<Rightarrow> audit_chain \<Rightarrow> verification_result" where
  "verifier_verify L c =
     (let es = ch_entries c
      in if es = [] then vr_success 0
         else let errors =
                    (if se_previous_hash (es ! 0) \<noteq> hash_zero
                     then [BadGenesisLink (hash_to_hex L (se_previous_hash (es ! 0)))] else []) @
                    verifier_loop L es [0..<length es] {}
              in if errors = [] then vr_success (length es) else vr_failure (length es) errors)"

definition range_errors :: "audit_lib \<Rightarrow> signed_entry list \<Rightarrow> nat \<Rightarrow> verification_error list" where
  "range_errors L es i =
     (if \<not> entry_verify L (es ! i) then [InvalidSignature i] else []) @
     (if i > 0 \<and> \<not> verify_linkage (es ! (i - 1)) (es ! i)
      then [BrokenChain i (hash_to_hex L (se_entry_hash (es ! (i - 1)))) (hash_to_hex L (se_previous_hash (es ! i)))]
      else [])"

definition verify_range :: "audit_lib \<Rightarrow> signed_entry list \<Rightarrow> verification_result" where
  "verify_range L es =
     (if es = [] then vr_success 0
      else let errors = concat (map (range_errors L es) [0..<length es])
           in if errors = [] then vr_success (length es) else vr_failure (length es) errors)"

section \<open>What verification means\<close>

definition chain_linked :: "audit_lib \<Rightarrow> hash \<Rightarrow> signed_entry list \<Rightarrow> bool" where
  "chain_linked L genesis es \<longleftrightarrow>
     (\<forall>i < length es. entry_verify L (es ! i) \<and>
        se_previous_hash (es ! i) = (if i = 0 then genesis else se_entry_hash (es ! (i - 1))))"

lemma verify_loop_ok:
  "verify_loop L es is = Inr () \<longleftrightarrow>
     (\<forall>i \<in> set is. entry_verify L (es ! i) \<and> (i > 0 \<longrightarrow> se_previous_hash (es ! i) = se_entry_hash (es ! (i - 1))))"
  by (induction "is") auto

lemma chain_verify_ok: "chain_verify L c = Inr () \<longleftrightarrow> chain_linked L (ch_genesis_hash c) (ch_entries c)"
  by (auto simp: chain_verify_def chain_linked_def verify_loop_ok Let_def)

lemma chain_linked_append:
  "chain_linked L g (es @ [e]) \<longleftrightarrow> chain_linked L g es \<and> entry_verify L e \<and> se_previous_hash e = last_hash g es"
proof -
  let ?P = "\<lambda>xs i. entry_verify L (xs ! i) \<and>
      se_previous_hash (xs ! i) = (if i = 0 then g else se_entry_hash (xs ! (i - 1)))"
  have "?P (es @ [e]) i = ?P es i" if "i < length es" for i
    using that by (simp add: nth_append less_imp_diff_less)
  moreover have "?P (es @ [e]) (length es) \<longleftrightarrow> entry_verify L e \<and> se_previous_hash e = last_hash g es"
    by (simp add: nth_append last_hash_def last_conv_nth)
  ultimately show ?thesis unfolding chain_linked_def length_append_singleton All_less_Suc by auto
qed

lemma verifier_loop_empty:
  assumes "lib_lawful L"
  shows "verifier_loop L es is seen = [] \<longleftrightarrow>
    (\<forall>i \<in> set is. entry_verify L (es ! i) \<and>
       (i > 0 \<longrightarrow> se_previous_hash (es ! i) = se_entry_hash (es ! (i - 1)) \<and>
          ae_timestamp (se_entry (es ! (i - 1))) \<le> ae_timestamp (se_entry (es ! i)))) \<and>
    distinct (map (\<lambda>i. se_entry_hash (es ! i)) is) \<and>
    (\<forall>i \<in> set is. hash_to_hex L (se_entry_hash (es ! i)) \<notin> seen)"
proof (induction "is" arbitrary: seen)
  case (Cons i "is")
  have hex: "hash_to_hex L a = hash_to_hex L b \<longleftrightarrow> a = b" for a b by (rule hash_to_hex_inject [OF assms])
  have "entry_errors L es i seen = [] \<longleftrightarrow> entry_verify L (es ! i) \<and> hash_to_hex L (se_entry_hash (es ! i)) \<notin> seen \<and>
      (i > 0 \<longrightarrow> se_previous_hash (es ! i) = se_entry_hash (es ! (i - 1)) \<and>
          ae_timestamp (se_entry (es ! (i - 1))) \<le> ae_timestamp (se_entry (es ! i)))"
    by (auto simp: entry_errors_def Let_def entry_verify_def)
  then show ?case unfolding verifier_loop.simps append_is_Nil_conv Cons.IH by (auto simp: hex image_iff)
qed simp

text \<open>
  The two verifiers agree: the chain verifier reports a chain from the zero genesis hash as valid
  exactly when the chain's own check accepts it, no entry hash occurs twice and timestamps never go
  back.
\<close>

lemma verifiers_agree:
  assumes "lib_lawful L" "ch_genesis_hash c = hash_zero"
  shows "vr_valid (verifier_verify L c) \<longleftrightarrow>
    chain_verify L c = Inr () \<and> distinct (map se_entry_hash (ch_entries c)) \<and>
    sorted (map (ae_timestamp \<circ> se_entry) (ch_entries c))"
proof -
  let ?es = "ch_entries c"
  have hashes: "map (\<lambda>i. se_entry_hash (?es ! i)) [0..<length ?es] = map se_entry_hash ?es"
    by (rule nth_equalityI) simp_all
  have srt: "sorted (map (ae_timestamp \<circ> se_entry) ?es) \<longleftrightarrow>
      (\<forall>i < length ?es. i > 0 \<longrightarrow> ae_timestamp (se_entry (?es ! (i - 1))) \<le> ae_timestamp (se_entry (?es ! i)))"
    unfolding sorted_iff_nth_Suc by (auto simp: less_Suc_eq_0_disj) (metis Suc_pred diff_Suc_1)
  show ?thesis
  proof (cases "?es = []")
    case True
    then show ?thesis by (simp add: verifier_verify_def vr_success_def chain_verify_def)
  next
    case False
    have "vr_valid (verifier_verify L c) \<longleftrightarrow>
        se_previous_hash (?es ! 0) = hash_zero \<and> verifier_loop L ?es [0..<length ?es] {} = []"
      using False by (auto simp: verifier_verify_def vr_success_def vr_failure_def Let_def)
    then show ?thesis
      unfolding verifier_loop_empty [OF assms(1)] hashes srt chain_verify_ok chain_linked_def assms(2) using False by auto
  qed
qed

section \<open>Appending\<close>

lemma chain_append_cases:
  assumes "chain_append D L e c db = (db', r)"
  shows "(r = None \<and> ch_has_store c) \<or>
    (\<exists>s. s = entry_sign L e (ch_signing_key c) (last_hash (ch_genesis_hash c) (ch_entries c)) \<and>
      r = Some (s, c\<lparr>ch_entries := ch_entries c @ [s]\<rparr>) \<and>
      (if ch_has_store c then store_append D L (of_nat (length (ch_entries c))) s db = (db', Inr ()) else db' = db))"
  using assms by (auto simp: chain_append_def Let_def split: prod.splits sum.splits if_splits)

text \<open>A run of appends, up to the first panic.\<close>

fun chain_appends ::
  "'db kv_ops \<Rightarrow> audit_lib \<Rightarrow> audit_entry list \<Rightarrow> audit_chain \<Rightarrow> 'db \<Rightarrow> 'db \<times> audit_chain \<times> nat" where
  "chain_appends D L [] c db = (db, c, 0)"
| "chain_appends D L (e # es) c db =
     (case chain_append D L e c db of
        (db', None) \<Rightarrow> (db', c, 0)
      | (db', Some (_, c')) \<Rightarrow> (let (db'', c'', k) = chain_appends D L es c' db' in (db'', c'', Suc k)))"

text \<open>The signed entries that appending a list of entries produces.\<close>

fun sign_all :: "audit_lib \<Rightarrow> bytes \<Rightarrow> hash \<Rightarrow> audit_entry list \<Rightarrow> signed_entry list" where
  "sign_all L key prev [] = []"
| "sign_all L key prev (e # es) = entry_sign L e key prev # sign_all L key (compute_hash L e) es"

lemma last_hash_snoc: "last_hash g (es @ [e]) = se_entry_hash e"
  by (simp add: last_hash_def)

lemma appends_result:
  "\<exists>k \<le> length es. case chain_appends D L es c db of (db', c', k') \<Rightarrow>
     k' = k \<and> c' = c\<lparr>ch_entries := ch_entries c @
        sign_all L (ch_signing_key c) (last_hash (ch_genesis_hash c) (ch_entries c)) (take k es)\<rparr> \<and>
     (\<not> ch_has_store c \<longrightarrow> k = length es \<and> db' = db)"
proof (induction es arbitrary: c db)
  case (Cons e es)
  obtain db1 r where a: "chain_append D L e c db = (db1, r)" by fastforce
  let ?s = "entry_sign L e (ch_signing_key c) (last_hash (ch_genesis_hash c) (ch_entries c))"
  from chain_append_cases [OF a] show ?case
  proof
    assume "r = None \<and> ch_has_store c"
    then show ?thesis using a by (intro exI [of _ 0]) simp
  next
    assume "\<exists>s. s = ?s \<and> r = Some (s, c\<lparr>ch_entries := ch_entries c @ [s]\<rparr>) \<and>
      (if ch_has_store c then store_append D L (of_nat (length (ch_entries c))) s db = (db1, Inr ()) else db1 = db)"
    then have r: "r = Some (?s, c\<lparr>ch_entries := ch_entries c @ [?s]\<rparr>)" and d: "\<not> ch_has_store c \<longrightarrow> db1 = db"
      by auto
    obtain db2 c2 k2 where rest: "chain_appends D L es (c\<lparr>ch_entries := ch_entries c @ [?s]\<rparr>) db1 = (db2, c2, k2)"
      by (metis surj_pair)
    show ?thesis
      using Cons.IH [of "c\<lparr>ch_entries := ch_entries c @ [?s]\<rparr>" db1] a r d rest
      by (auto simp: last_hash_snoc Let_def intro!: exI [of _ "Suc k2"])
  qed
qed simp

lemma sign_all_linked:
  assumes "lib_lawful L" "chain_linked L g es"
  shows "chain_linked L g (es @ sign_all L key (last_hash g es) xs)"
  using assms(2)
proof (induction xs arbitrary: es)
  case (Cons x xs)
  have "chain_linked L g (es @ [entry_sign L x key (last_hash g es)])"
    using Cons.prems sign_verifies [OF assms(1)] by (simp add: chain_linked_append)
  from Cons.IH [OF this] show ?case by (simp add: last_hash_snoc)
qed simp

lemma appended_chain_ok:
  assumes "lib_lawful L" "chain_verify L c = Inr ()" "chain_appends D L es c db = (db', c', k)"
  shows "chain_verify L c' = Inr ()" "k \<le> length es"
    "map se_entry (ch_entries c') = map se_entry (ch_entries c) @ take k es"
    "\<not> ch_has_store c \<longrightarrow> k = length es"
proof -
  have k: "k \<le> length es" and c': "c' = c\<lparr>ch_entries := ch_entries c @
        sign_all L (ch_signing_key c) (last_hash (ch_genesis_hash c) (ch_entries c)) (take k es)\<rparr>"
    and st: "\<not> ch_has_store c \<longrightarrow> k = length es"
    using appends_result [where es = es and D = D and L = L and c = c and db = db] assms(3) by auto
  have "map se_entry (sign_all L key p xs) = xs" for key p xs
    by (induction xs arbitrary: p) simp_all
  then show "chain_verify L c' = Inr ()" "k \<le> length es"
    "map se_entry (ch_entries c') = map se_entry (ch_entries c) @ take k es" "\<not> ch_has_store c \<longrightarrow> k = length es"
    using sign_all_linked [OF assms(1), of "ch_genesis_hash c" "ch_entries c"] assms(2) k c' st
    unfolding chain_verify_ok by simp_all
qed

text \<open>
  Every chain that is built by appending verifies: starting from a chain that verifies, such as a
  new one, whatever entries are appended, in memory or with a store whose writes may fail, the chain
  afterwards verifies, extends the old one by the signed entries in order, and is complete when there
  is no store to fail.
\<close>

lemma appended_chain_verifies:
  assumes "lib_lawful L" "chain_verify L c = Inr ()" "chain_appends D L es c db = (db', c', k)"
  shows "chain_verify L c' = Inr () \<and> k \<le> length es \<and>
    map se_entry (ch_entries c') = map se_entry (ch_entries c) @ take k es \<and>
    (\<not> ch_has_store c \<longrightarrow> k = length es)"
  using appended_chain_ok [OF assms] by blast

section \<open>Tampering\<close>

lemma linked_prefixes:
  assumes "chain_linked L g es" "distinct (g # map se_entry_hash es)" "set xs \<subseteq> set es"
  shows "chain_linked L g xs \<longleftrightarrow> (\<exists>k \<le> length es. xs = take k es)"
proof
  assume xs: "chain_linked L g xs"
  have prev: "se_previous_hash (es ! i) = (if i = 0 then g else se_entry_hash (es ! (i - 1)))" if "i < length es" for i
    using assms(1) that by (simp add: chain_linked_def)
  have uniq: "i = j" if "i < length es" "j < length es" "se_entry_hash (es ! i) = se_entry_hash (es ! j)" for i j
    using nth_eq_iff_index_eq [of "map se_entry_hash es" i j] assms(2) that by simp
  have ng: "se_entry_hash (es ! i) \<noteq> g" if "i < length es" for i
    using assms(2) that by (metis distinct.simps(2) image_eqI list.set_map nth_mem)
  have at: "i < length es \<and> xs ! i = es ! i" if "i < length xs" for i
    using that
  proof (induction i rule: less_induct)
    case (less i)
    obtain j where j: "j < length es" "xs ! i = es ! j"
      using assms(3) less.prems nth_mem by (metis in_set_conv_nth subsetD)
    have px: "se_previous_hash (es ! j) = (if i = 0 then g else se_entry_hash (xs ! (i - 1)))"
      using xs less.prems j(2) unfolding chain_linked_def by metis
    show ?case
    proof (cases "i = 0")
      case True
      then have "j = 0" using px prev [OF j(1)] ng [of "j - 1"] j(1) by (auto split: if_splits)
      then show ?thesis using j True by simp
    next
      case False
      then have before: "i - 1 < length es" "xs ! (i - 1) = es ! (i - 1)" using less.IH [of "i - 1"] less.prems by auto
      then have "j \<noteq> 0" using px prev [OF j(1)] ng False by (auto split: if_splits)
      then have "j - 1 = i - 1" using px prev [OF j(1)] before False j(1) uniq [of "j - 1" "i - 1"] by auto
      then have "j = i" using False \<open>j \<noteq> 0\<close> by simp
      then show ?thesis using j by simp
    qed
  qed
  have "length xs \<le> length es"
  proof (cases xs)
    case (Cons x ys)
    then show ?thesis using at [of "length ys"] by simp
  qed simp
  moreover have "xs = take (length xs) es" using at by (intro nth_equalityI) (auto simp: calculation)
  ultimately show "\<exists>k \<le> length es. xs = take k es" by blast
next
  assume "\<exists>k \<le> length es. xs = take k es"
  then show "chain_linked L g xs" using assms(1) by (auto simp: chain_linked_def)
qed

text \<open>
  C12. Tampering with a verified chain is detected, under the laws of the cryptographic libraries (among
  them that different contents have different JSON forms).  Dropping, inserting copies of or reordering
  entries: among all sequences of entries taken from a chain that \<^verbatim>\<open>verify\<close> accepts, whose hashes are
  distinct and differ from the genesis hash, it accepts from the same genesis exactly the prefixes;
  truncation at the end is what the check cannot see.  Editing an entry in place, under its signature
  and public key: it is accepted only unchanged, or if the edit exhibits a SHA-256 collision of the
  two contents or one signature valid for two different messages.
\<close>

theorem only_prefixes_verify:
  assumes "lib_lawful L" "chain_verify L c = Inr ()"
    and "distinct (ch_genesis_hash c # map se_entry_hash (ch_entries c))"
  shows "(\<forall>xs. set xs \<subseteq> set (ch_entries c) \<longrightarrow>
      (chain_verify L (c\<lparr>ch_entries := xs\<rparr>) = Inr () \<longleftrightarrow>
        (\<exists>k \<le> length (ch_entries c). xs = take k (ch_entries c)))) \<and>
    (\<forall>i s s'. i < length (ch_entries c) \<and> s = ch_entries c ! i \<and>
      se_signature s' = se_signature s \<and> se_public_key s' = se_public_key s \<and>
      chain_verify L (c\<lparr>ch_entries := (ch_entries c)[i := s']\<rparr>) = Inr () \<longrightarrow>
      s' = s \<or> collides L (al_json L (se_entry s')) (al_json L (se_entry s)) \<or>
      signs_both L (se_public_key s) (se_signature s) (signed_message s') (signed_message s))"
proof -
  have linked: "chain_linked L (ch_genesis_hash c) (ch_entries c)"
    using assms(2) by (simp add: chain_verify_ok)
  have "entry_verify L (ch_entries c ! i)" if "i < length (ch_entries c)" for i
    using linked that by (simp add: chain_linked_def)
  moreover have "entry_verify L s'"
    if "i < length (ch_entries c)" "chain_verify L (c\<lparr>ch_entries := (ch_entries c)[i := s']\<rparr>) = Inr ()" for i s'
    using that by (auto simp: chain_verify_ok chain_linked_def)
  moreover have "chain_verify L (c\<lparr>ch_entries := xs\<rparr>) = Inr () \<longleftrightarrow>
      (\<exists>k \<le> length (ch_entries c). xs = take k (ch_entries c))" if "set xs \<subseteq> set (ch_entries c)" for xs
    using linked_prefixes [OF linked assms(3) that] by (simp add: chain_verify_ok)
  ultimately show ?thesis using verified_entries_agree [OF assms(1)] by blast
qed

lemma sign_all_new:
  assumes "lib_lawful L" shows "chain_linked L hash_zero (sign_all L key hash_zero xs)"
  using sign_all_linked [OF assms, of hash_zero "[]" key xs] by (simp add: chain_linked_def last_hash_def)

text \<open>
  The check does not bind the chain to its signer, nor the head hash to the history: a chain
  signed with any other key is accepted by \<^verbatim>\<open>import\<close>, and two histories that end in the same entry,
  signed with whatever keys, both verify and have the same head hash.
\<close>

lemma verification_ignores_signer_and_history:
  assumes "lib_lawful L" "al_encode_all L (sign_all L other hash_zero (es @ [e])) = Some bs"
  shows "\<exists>c'. chain_import L bs c = Inr c' \<and> ch_entries c' = sign_all L other hash_zero (es @ [e]) \<and>
    ch_signing_key c' = ch_signing_key c \<and>
    chain_head_hash c' = compute_hash L e \<and>
    (\<forall>key fs. chain_verify L ((chain_new key)\<lparr>ch_entries := sign_all L key hash_zero (fs @ [e])\<rparr>) = Inr () \<and>
       chain_head_hash ((chain_new key)\<lparr>ch_entries := sign_all L key hash_zero (fs @ [e])\<rparr>) = chain_head_hash c')"
proof -
  note linked = sign_all_new [OF assms(1)]
  have lasts: "sign_all L key p (xs @ [e]) \<noteq> [] \<and> se_entry_hash (last (sign_all L key p (xs @ [e]))) = compute_hash L e" for key p xs
    by (induction xs arbitrary: p) auto
  have "al_decode_all L bs = Some (sign_all L other hash_zero (es @ [e]))" using libD(8) [OF assms(1,2)] .
  then have "chain_import L bs c = Inr (c\<lparr>ch_entries := sign_all L other hash_zero (es @ [e])\<rparr>)"
    using linked chain_verify_ok [of L "(chain_new (ch_signing_key c))\<lparr>ch_entries := sign_all L other hash_zero (es @ [e])\<rparr>"]
    by (simp add: chain_import_def Let_def chain_new_def)
  then show ?thesis
    using linked lasts by (simp add: chain_verify_ok chain_new_def chain_head_hash_def chain_last_def)
qed

section \<open>Persistence\<close>

lemma appends_store:
  assumes "store_holds D v L db (ch_entries c)" "ch_has_store c" "length (ch_entries c) + length es < 2 ^ 64"
    and "chain_appends D L es c db = (db', c', k)"
  shows "store_holds D v L db' (ch_entries c') \<and>
    (\<forall>key. key \<noteq> key_chain_length \<and> key \<noteq> key_head_hash \<longrightarrow> v db' cf_metadata key = v db cf_metadata key)"
  using assms
proof (induction es arbitrary: c db k)
  case (Cons e es)
  have law: "kv_lawful D v" using Cons.prems(1) by (simp add: store_holds_def)
  let ?s = "entry_sign L e (ch_signing_key c) (last_hash (ch_genesis_hash c) (ch_entries c))"
  obtain db1 r where a: "store_append D L (of_nat (length (ch_entries c))) ?s db = (db1, r)" by fastforce
  have len: "Suc (length (ch_entries c)) < 2 ^ 64" using Cons.prems(3) by simp
  note keep = store_append_keeps [OF law a]
  show ?case
  proof (cases r)
    case (Inl err)
    then have "db' = db1" "c' = c" using Cons.prems(2,4) a by (simp_all add: chain_append_def Let_def)
    then show ?thesis using st.app_err [OF Cons.prems(1) len] a Inl keep by simp
  next
    case (Inr u)
    let ?c = "c\<lparr>ch_entries := ch_entries c @ [?s]\<rparr>"
    obtain k' where rest: "chain_appends D L es ?c db1 = (db', c', k')"
      using Cons.prems(2,4) a Inr by (auto simp: chain_append_def Let_def split: prod.splits)
    have "store_holds D v L db1 (ch_entries ?c)" using st.app_ok [OF Cons.prems(1) len] a Inr by simp
    from Cons.IH [OF this _ _ rest] show ?thesis using Cons.prems(2,3) keep by simp
  qed
qed simp

lemma from_store_ok:
  assumes "store_holds D v L db es" "kv_reads_ok D" "v db cf_metadata key_genesis_hash = Some (hash_bytes g)"
    "length (hash_bytes g) = 32" "v db cf_metadata key_public_key = Some (al_verifying_key L key)"
  shows "chain_from_store D L key db =
    (db, Inr \<lparr>ch_entries = es, ch_signing_key = key, ch_genesis_hash = g, ch_has_store = True\<rparr>)"
proof -
  have law: "kv_lawful D v" and lib: "lib_lawful L" using assms(1) by (simp_all add: store_holds_def)
  note get = db_get_reliable [OF law assms(2)]
  have "store_genesis_hash D db = (db, Inr (Some g))"
    using assms(3,4) by (simp add: store_genesis_hash_def store_hash_at_def io_bind_def get hash_from_bytes_def)
  moreover have "store_public_key D db = (db, Inr (Some (al_verifying_key L key)))"
    using assms(5) libD(3) [OF lib] by (simp add: store_public_key_def io_bind_def get)
  ultimately show ?thesis
    using store_get_all_reliable [OF assms(1,2)] by (simp add: chain_from_store_def io_bind_def)
qed

lemma new_with_store_view:
  assumes "kv_lawful D v" "chain_new_with_store D L key db = (db', Inr c)"
  shows "c = \<lparr>ch_entries = [], ch_signing_key = key, ch_genesis_hash = hash_zero, ch_has_store = True\<rparr> \<and>
    v db' = view_set cf_metadata key_public_key (Some (al_verifying_key L key))
             (view_set cf_metadata key_genesis_hash (Some (hash_bytes hash_zero)) (v db))"
proof -
  obtain db1 where p: "db_put D cf_metadata key_genesis_hash (hash_bytes hash_zero) db = (db1, Inr ())"
      "db_put D cf_metadata key_public_key (al_verifying_key L key) db1 = (db', Inr ())"
      "c = \<lparr>ch_entries = [], ch_signing_key = key, ch_genesis_hash = hash_zero, ch_has_store = True\<rparr>"
    using assms(2) unfolding chain_new_with_store_def store_set_genesis_hash_def store_set_public_key_def
    by (elim io_then_cases) simp_all
  then show ?thesis using db_put_cases [OF assms(1) p(1)] db_put_cases [OF assms(1) p(2)] by simp
qed

lemma metadata_keeps_holds:
  assumes "store_holds D v L db es" "v db' = view_set cf_metadata k x (v db)" "k \<noteq> key_chain_length"
  shows "store_holds D v L db' es"
  using assms length_rec_other [OF assms(2), of "length es"] stored_at_metadata [of v, OF assms(2)]
  by (intro store_holds_same [OF assms(1)]) (simp_all add: store_holds_def)

text \<open>
  C13. Crash recovery: a chain created on an empty store survives a failure of any write. Appends run
  until one of them panics on a failed write, or to the end; the chain loaded from the store
  afterwards has exactly the entries whose append had succeeded, and it verifies.
\<close>

theorem audit_chain_crash_recovery:
  assumes "store_holds D v L db0 []" "kv_reads_ok D" "chain_new_with_store D L key db0 = (db1, Inr c1)"
    and "chain_appends D L es c1 db1 = (db2, c2, k)" "length es < 2 ^ 64"
  shows "\<exists>c3. chain_from_store D L key db2 = (db2, Inr c3) \<and> ch_entries c3 = ch_entries c2 \<and>
    map se_entry (ch_entries c3) = take k es \<and> chain_verify L c3 = Inr ()"
proof -
  have law: "kv_lawful D v" and lib: "lib_lawful L" using assms(1) by (simp_all add: store_holds_def)
  have c1: "c1 = \<lparr>ch_entries = [], ch_signing_key = key, ch_genesis_hash = hash_zero, ch_has_store = True\<rparr>"
    and v1: "v db1 = view_set cf_metadata key_public_key (Some (al_verifying_key L key))
             (view_set cf_metadata key_genesis_hash (Some (hash_bytes hash_zero)) (v db0))"
    using new_with_store_view [OF law assms(3)] by blast+
  have "length_rec v db1 0" "\<And>i. i < length ([] :: signed_entry list) \<Longrightarrow> stored_at v db1 i = stored_at v db0 i"
    using assms(1) v1 key_distinct by (auto simp: store_holds_def length_rec_def view_set_def)
  then have h1: "store_holds D v L db1 (ch_entries c1)" using store_holds_same [OF assms(1)] c1 by simp
  have h2: "store_holds D v L db2 (ch_entries c2)"
    and keep: "\<And>x. x \<noteq> key_chain_length \<Longrightarrow> x \<noteq> key_head_hash \<Longrightarrow> v db2 cf_metadata x = v db1 cf_metadata x"
    using appends_store [OF h1 _ _ assms(4)] c1 assms(5) by auto
  have ks: "key_genesis_hash \<noteq> key_head_hash" "key_public_key \<noteq> key_head_hash"
    by (simp_all add: key_genesis_hash_def key_head_hash_def key_public_key_def)
  have "chain_from_store D L key db2 =
      (db2, Inr \<lparr>ch_entries = ch_entries c2, ch_signing_key = key, ch_genesis_hash = hash_zero, ch_has_store = True\<rparr>)"
    using keep ks key_distinct v1 by (intro from_store_ok [OF h2 assms(2)]) (simp_all add: view_set_def hash_zero_def)
  moreover have "chain_linked L hash_zero (ch_entries c2)" "map se_entry (ch_entries c2) = take k es"
  proof -
    have "chain_linked L hash_zero []" by (simp add: chain_linked_def)
    then have v0: "chain_verify L c1 = Inr ()" unfolding chain_verify_ok c1 by simp
    have "ch_genesis_hash c2 = hash_zero"
      using appends_result [where es = es and D = D and L = L and c = c1 and db = db1] assms(4) c1 by auto
    then show "chain_linked L hash_zero (ch_entries c2)" "map se_entry (ch_entries c2) = take k es"
      using appended_chain_ok [OF lib v0 assms(4)] c1 unfolding chain_verify_ok by simp_all
  qed
  ultimately show ?thesis unfolding chain_verify_ok by simp
qed

text \<open>
  Loading does not verify: \<^verbatim>\<open>from_store\<close> returns whatever entries the store holds, whether or not
  they pass the chain's check; it only compares the public key.
\<close>

lemma from_store_does_not_verify:
  assumes "store_holds D v L db es" "kv_reads_ok D" "v db cf_metadata key_genesis_hash = Some (hash_bytes hash_zero)"
    "v db cf_metadata key_public_key = Some (al_verifying_key L key)"
  shows "\<exists>c. chain_from_store D L key db = (db, Inr c) \<and> ch_entries c = es \<and>
    (chain_verify L c = Inr () \<longleftrightarrow> chain_linked L hash_zero es)"
  using from_store_ok [OF assms(1-3) _ assms(4)] unfolding chain_verify_ok by (simp add: hash_zero_def)

text \<open>
  Opening an existing store with \<^verbatim>\<open>new_with_store\<close> destroys its history: the chain starts empty, and
  its first append overwrites entry 0 and the stored length, so the store then holds the new entry
  alone, whatever it held before.
\<close>

lemma new_with_store_discards_history:
  assumes "store_holds D v L db old" "chain_new_with_store D L key db = (db1, Inr c)"
    and "chain_append D L e c db1 = (db2, Some (s, c'))"
  shows "store_holds D v L db2 [s] \<and> ch_entries c' = [s] \<and> se_entry s = e"
proof -
  have law: "kv_lawful D v" and lib: "lib_lawful L" using assms(1) by (simp_all add: store_holds_def)
  have c: "c = \<lparr>ch_entries = [], ch_signing_key = key, ch_genesis_hash = hash_zero, ch_has_store = True\<rparr>"
    using new_with_store_view [OF law assms(2)] by blast
  have s: "s = entry_sign L e key hash_zero" "ch_entries c' = [s]" and a: "store_append D L 0 s db1 = (db2, Inr ())"
    using chain_append_cases [OF assms(3)] c by (auto simp: last_hash_def)
  obtain eb where eb: "entry_to_bytes L s = Some eb"
    and v2: "v db2 = view_set cf_metadata key_chain_length (Some (u64_be (0 + 1)))
       (view_set cf_metadata key_head_hash (Some (hash_bytes (se_entry_hash s)))
         (view_set cf_entries (u64_be 0) (Some eb) (v db1)))"
    using store_append_view [OF law a] by blast
  have "stored_at v db2 0 = Some eb" using v2 cf_distinct by (simp add: stored_at_def view_set_def)
  moreover have "length_rec v db2 1" using v2 by (simp add: length_rec_def)
  moreover have "al_decode L eb = Some s" using eb libD(7) [OF lib] by (simp add: entry_to_bytes_def)
  ultimately show ?thesis using law lib s by (simp add: store_holds_def)
qed

section \<open>Merkle commitments of a chain\<close>

text \<open>
  Merkle proofs of a chain: every entry has a proof that verifies and carries the entry's hash and
  the chain's root; \<^verbatim>\<open>merkle_proof\<close> refuses indices past the end, yet \<^verbatim>\<open>batch_merkle_proof\<close> hands out
  verifying proofs for the zero padding; and \<^verbatim>\<open>verify_with_merkle\<close> accepts every chain, tampered with or
  not, because it checks the tree against itself.
\<close>

lemma chain_merkle_properties:
  assumes "ch_entries c \<noteq> []"
  shows "\<exists>root. chain_merkle_root L c = Some root \<and>
    (\<forall>i < chain_len c. \<exists>p. chain_merkle_proof L c i = Some (Some p) \<and> proof_verify L p \<and>
       mp_leaf_hash p = se_entry_hash (ch_entries c ! i) \<and> mp_root p = root) \<and>
    (\<forall>i \<ge> chain_len c. chain_merkle_proof L c i = Some None) \<and>
    (\<forall>i. chain_len c \<le> i \<and> i < next_power_of_two (chain_len c) \<longrightarrow>
       (\<exists>b p. chain_batch_proof L c [i] = Some b \<and> bp_proofs b = [p] \<and> batch_verify L b \<and> mp_leaf_hash p = hash_zero)) \<and>
    verify_with_merkle L c = Some True"
proof -
  let ?ls = "map se_entry_hash (ch_entries c)" and ?h = "tree_height (map se_entry_hash (ch_entries c))"
  have ne: "?ls \<noteq> []" using assms by simp
  obtain nodes where t: "from_leaves L ?ls = Some \<lparr>mt_root = node_hash L (pad_leaves ?ls) ?h 0, mt_height = ?h,
      mt_leaves = pad_leaves ?ls, mt_nodes = nodes\<rparr>" (is "_ = Some ?t")
    and n: "nodes_upto L (pad_leaves ?ls) ?h ?h nodes" using from_leaves_ok [OF ne] by blast
  have tree: "build_merkle_tree L c = Some ?t" using assms t by (simp add: build_merkle_tree_def from_entries_def)
  have size: "2 ^ ?h = next_power_of_two (chain_len c)" "chain_len c \<le> 2 ^ ?h"
    using pad_length [of ?ls] next_power_ge [of "chain_len c"] by (simp_all add: length_pad_leaves chain_len_def)
  have ok: "\<exists>p. merkle_proof_of ?t i = Some p \<and> proof_verify L p \<and> mp_root p = mt_root ?t \<and>
      mp_leaf_hash p = (if i < chain_len c then se_entry_hash (ch_entries c ! i) else hash_zero)" if "i < 2 ^ ?h" for i
    using fold_proof_siblings [OF n, of i 0] that pad_length [of ?ls]
    by (auto simp: merkle_proof_of_def proof_verify_def chain_len_def pad_leaves_def nth_append)
  have all: "mp_root p = mt_root ?t \<and> proof_verify L p" if "merkle_proof_of ?t i = Some p" for i p
    using ok [of i] that by (auto simp: merkle_proof_of_def pad_length split: if_splits)
  have batch: "batch_verify L (batch_new (mt_root ?t) (List.map_filter (merkle_proof_of ?t) is))" for "is"
    using all by (auto simp: batch_verify_def batch_new_def List.map_filter_def list_all_iff)
  have "\<exists>b p. chain_batch_proof L c [i] = Some b \<and> bp_proofs b = [p] \<and> batch_verify L b \<and> mp_leaf_hash p = hash_zero"
    if "chain_len c \<le> i" "i < next_power_of_two (chain_len c)" for i
    using ok [of i] that size batch [of "[i]"] by (auto simp: chain_batch_proof_def tree batch_new_def List.map_filter_def)
  moreover have "\<exists>p. chain_merkle_proof L c i = Some (Some p) \<and> proof_verify L p \<and>
       mp_leaf_hash p = se_entry_hash (ch_entries c ! i) \<and> mp_root p = mt_root ?t" if "i < chain_len c" for i
    using ok [of i] that size by (auto simp: chain_merkle_proof_def tree)
  moreover have "verify_with_merkle L c = Some True"
    using assms batch by (simp add: verify_with_merkle_def tree chain_batch_proof_def)
  ultimately show ?thesis by (auto simp: chain_merkle_root_def tree chain_merkle_proof_def)
qed

section \<open>Witnesses\<close>

definition demo_entries :: "signed_entry list" where
  "demo_entries = sign_all demo_lib [7] hash_zero [demo_entry 1, demo_entry 2]"

definition demo_chain :: audit_chain where
  "demo_chain = (chain_new [7])\<lparr>ch_entries := demo_entries\<rparr>"

lemma demo_linked: "chain_linked demo_lib hash_zero demo_entries"
  unfolding demo_entries_def by (rule sign_all_new [OF demo_lib_lawful])

lemma demo_verifies: "chain_verify demo_lib demo_chain = Inr ()" "chain_verify L (chain_new key) = Inr ()"
  using demo_linked by (simp_all add: chain_verify_ok demo_chain_def chain_new_def chain_linked_def)

lemma demo_hashes: "distinct (hash_zero # map se_entry_hash demo_entries)"
  by code_simp

lemma verifiers_agree_witness: "vr_valid (verifier_verify demo_lib demo_chain)"
proof -
  have "sorted (map (ae_timestamp \<circ> se_entry) (ch_entries demo_chain))" by code_simp
  then show ?thesis
    using verifiers_agree [OF demo_lib_lawful, of demo_chain] demo_verifies(1) demo_hashes
    by (simp add: demo_chain_def chain_new_def)
qed

lemma appended_chain_verifies_witness:
  "\<exists>db' c'. chain_appends mem_ops demo_lib [demo_entry 1, demo_entry 2] (chain_new [7]) empty_db = (db', c', 2) \<and>
     chain_verify demo_lib c' = Inr ()"
proof -
  obtain db' c' k where a: "chain_appends mem_ops demo_lib [demo_entry 1, demo_entry 2] (chain_new [7]) empty_db = (db', c', k)"
    by (metis surj_pair)
  show ?thesis
    using appended_chain_verifies [OF demo_lib_lawful demo_verifies(2) a] a by (simp add: chain_new_def)
qed

theorem only_prefixes_verify_witness:
  "chain_verify demo_lib demo_chain = Inr () \<and>
   chain_verify demo_lib (demo_chain\<lparr>ch_entries := [demo_entries ! 1]\<rparr>) \<noteq> Inr () \<and>
   chain_verify demo_lib (demo_chain\<lparr>ch_entries := [demo_entries ! 0]\<rparr>) = Inr ()"
proof -
  have e: "demo_entries = [demo_entries ! 0, demo_entries ! 1]" by (simp add: demo_entries_def)
  have "se_entry_hash (demo_entries ! 1) \<noteq> se_entry_hash (demo_entries ! 0)"
    using demo_hashes by (subst (asm) e) auto
  then have ne: "demo_entries ! 1 \<noteq> demo_entries ! 0" by metis
  have c: "ch_entries demo_chain = demo_entries" "ch_genesis_hash demo_chain = hash_zero"
    by (simp_all add: demo_chain_def chain_new_def)
  have sub: "set [demo_entries ! i] \<subseteq> set demo_entries" if "i < 2" for i
    using that by (auto simp: demo_entries_def less_2_cases_iff)
  have "[demo_entries ! 1] \<noteq> take k demo_entries" for k
    using ne by (subst (2) e) (cases k; simp add: take_Cons')
  moreover have "[demo_entries ! 0] = take 1 demo_entries" "1 \<le> length demo_entries"
    by (subst (2) e, simp) (subst e, simp)
  moreover have "distinct (ch_genesis_hash demo_chain # map se_entry_hash (ch_entries demo_chain))"
    using demo_hashes by (simp only: c)
  ultimately show ?thesis
    using conjunct1 [OF only_prefixes_verify [OF demo_lib_lawful demo_verifies(1)], rule_format, of "[demo_entries ! 0]"]
      conjunct1 [OF only_prefixes_verify [OF demo_lib_lawful demo_verifies(1)], rule_format, of "[demo_entries ! 1]"]
      sub [of 0] sub [of 1] demo_verifies(1)
    unfolding c by auto
qed

lemma verification_ignores_signer_and_history_witness:
  "\<exists>bs c'. al_encode_all demo_lib (sign_all demo_lib [9] hash_zero ([] @ [demo_entry 1])) = Some bs \<and>
     chain_import demo_lib bs demo_chain = Inr c' \<and> ch_signing_key c' = [7]"
proof -
  obtain bs where bs: "al_encode_all demo_lib (sign_all demo_lib [9] hash_zero ([] @ [demo_entry 1])) = Some bs"
    by (simp add: demo_lib_def)
  then show ?thesis
    using verification_ignores_signer_and_history [OF demo_lib_lawful bs, of demo_chain]
    by (auto simp: demo_chain_def chain_new_def)
qed

lemma mem_new_with_store: "\<exists>db1 c1. chain_new_with_store mem_ops demo_lib [7] db = (db1, Inr c1)"
  by (simp add: chain_new_with_store_def store_set_genesis_hash_def store_set_public_key_def io_then_def io_bind_def
      db_put_def mem_ops_def)

theorem audit_chain_crash_recovery_witness:
  "\<exists>db1 c1 db2 c2 k c3. chain_new_with_store mem_ops demo_lib [7] empty_db = (db1, Inr c1) \<and>
     chain_appends mem_ops demo_lib [demo_entry 1, demo_entry 2] c1 db1 = (db2, c2, k) \<and>
     chain_from_store mem_ops demo_lib [7] db2 = (db2, Inr c3) \<and> ch_entries c3 = ch_entries c2"
proof -
  obtain db1 c1 where n: "chain_new_with_store mem_ops demo_lib [7] empty_db = (db1, Inr c1)"
    using mem_new_with_store by blast
  obtain db2 c2 k where a: "chain_appends mem_ops demo_lib [demo_entry 1, demo_entry 2] c1 db1 = (db2, c2, k)"
    by (metis surj_pair)
  show ?thesis
    using audit_chain_crash_recovery [OF empty_db_holds kv_reliable_reads [OF mem_lawful(2)] n a] n a by auto
qed

definition opened_db :: "string \<Rightarrow> bytes \<Rightarrow> bytes option" where
  "opened_db = fst (chain_new_with_store mem_ops demo_lib [7] demo_db)"

lemma opened_db_view:
  "opened_db = view_set cf_metadata key_public_key (Some (al_verifying_key demo_lib [7]))
     (view_set cf_metadata key_genesis_hash (Some (hash_bytes hash_zero)) demo_db)"
  using new_with_store_view [OF mem_lawful(1), of demo_lib "[7]" demo_db] mem_new_with_store [of demo_db]
  by (auto simp: opened_db_def)

lemma from_store_does_not_verify_witness:
  "\<exists>c. chain_from_store mem_ops demo_lib [7] opened_db = (opened_db, Inr c) \<and> ch_entries c = [demo_signed]"
proof -
  let ?db = "view_set cf_metadata key_genesis_hash (Some (hash_bytes hash_zero)) demo_db"
  have "store_holds mem_ops (\<lambda>db. db) demo_lib ?db [demo_signed]"
    by (rule metadata_keeps_holds [OF demo_db_holds, where k = key_genesis_hash and db' = ?db]) (simp_all add: key_distinct)
  then have h: "store_holds mem_ops (\<lambda>db. db) demo_lib opened_db [demo_signed]"
    by (rule metadata_keeps_holds [where k = key_public_key and db' = opened_db])
      (simp_all add: key_distinct opened_db_view)
  have "opened_db cf_metadata key_genesis_hash = Some (hash_bytes hash_zero)"
    "opened_db cf_metadata key_public_key = Some (al_verifying_key demo_lib [7])"
    using key_distinct by (simp_all add: opened_db_view view_set_def)
  then show ?thesis using from_store_does_not_verify [OF h kv_reliable_reads [OF mem_lawful(2)]] by blast
qed

lemma new_with_store_discards_history_witness:
  "\<exists>db1 c db2 s c'. chain_new_with_store mem_ops demo_lib [7] demo_db = (db1, Inr c) \<and>
     chain_append mem_ops demo_lib (demo_entry 2) c db1 = (db2, Some (s, c')) \<and>
     store_holds mem_ops (\<lambda>db. db) demo_lib db2 [s]"
proof -
  obtain db1 c where n: "chain_new_with_store mem_ops demo_lib [7] demo_db = (db1, Inr c)"
    using mem_new_with_store by blast
  obtain db2 s c' where a: "chain_append mem_ops demo_lib (demo_entry 2) c db1 = (db2, Some (s, c'))"
  proof -
    let ?s = "entry_sign demo_lib (demo_entry 2) (ch_signing_key c) (last_hash (ch_genesis_hash c) (ch_entries c))"
    have "entry_to_bytes demo_lib ?s \<noteq> None" by (simp add: entry_to_bytes_def demo_lib_def)
    then obtain d where "store_append mem_ops demo_lib (of_nat (length (ch_entries c))) ?s db1 = (d, Inr ())"
      using store_append_reliable [OF mem_lawful] by blast
    moreover have "ch_has_store c" using new_with_store_view [OF mem_lawful(1) n] by simp
    ultimately show thesis using that by (simp add: chain_append_def Let_def)
  qed
  show ?thesis using new_with_store_discards_history [OF demo_db_holds n a] n a by blast
qed

lemma chain_merkle_properties_witness:
  "verify_with_merkle demo_lib demo_chain = Some True \<and> chain_merkle_proof demo_lib demo_chain 5 = Some None"
proof -
  have "ch_entries demo_chain \<noteq> []" "chain_len demo_chain = 2"
    by (simp_all add: demo_chain_def demo_entries_def chain_len_def)
  then show ?thesis using chain_merkle_properties [of demo_chain demo_lib] by auto
qed

end
