(* ===== verification/WalEntry.thy ===== *)
theory WalEntry
  imports AuditChain KV
begin

text \<open>
  Model of \<^verbatim>\<open>arcxa-coordinator/src/storage/wal/entry.rs\<close>: the entries of the write-ahead log and their
  serialized form. bincode and the CRC of \<^verbatim>\<open>crc32fast\<close> are library code, the record \<open>wal_lib\<close>; the laws
  \<open>wal_lib_ok\<close> are bincode's documented format (little-endian integers of fixed width in field order, an
  enumeration as a 32-bit variant number, so a header of 40 bytes that starts with the sequence number) and
  that it reads back what it wrote. Feeding a hasher twice hashes the concatenation. The lineage event in a
  payload is the type variable \<open>'ev\<close>. The clock of \<^verbatim>\<open>WalEntry::new\<close> is an argument.
\<close>

section \<open>Entries\<close>

type_synonym lsn = u64

definition lsn_zero :: lsn where
  "lsn_zero = 0"

definition lsn_next :: "lsn \<Rightarrow> lsn" where
  "lsn_next l = l + 1"

datatype entry_type =
    LineageWrite | QualityViolation | ProfileUpdate
  | RdfInsertTriple | RdfDeleteTriple | RdfInsertBatch | RdfUpdateTriple
  | TransactionBegin | TransactionPrepare | TransactionCommit | TransactionAbort
  | RocksDbWrite | KafkaPublish | ParquetFlush
  | Checkpoint | RotationMarker | CompactionMarker

record entry_flags =
  fl_compressed :: bool
  fl_encrypted :: bool
  fl_idempotent :: bool
  fl_requires_sync :: bool

definition entry_flags_default :: entry_flags where
  "entry_flags_default =
     \<lparr>fl_compressed = False, fl_encrypted = False, fl_idempotent = False, fl_requires_sync = True\<rparr>"

record entry_header =
  eh_lsn :: lsn
  eh_previous_lsn :: lsn
  eh_entry_type :: entry_type
  eh_timestamp_us :: u64
  eh_payload_size :: u32
  eh_checksum :: u32
  eh_flags :: entry_flags

datatype rdf_operation = RdfInsert | RdfDelete

record rdf_triple_entry =
  rt_subject :: string
  rt_predicate :: string
  rt_object :: string
  rt_datatype :: "string option"
  rt_language :: "string option"
  rt_graph :: string
  rt_shard_id :: string
  rt_operation :: rdf_operation
  rt_timestamp_us :: u64

datatype storage_type = RocksDb | Kafka | Parquet | Archive

record storage_options =
  so_partition :: "string option"
  so_replication :: "u8 option"
  so_compression :: "string option"

datatype isolation_level = ReadUncommitted | ReadCommitted | RepeatableRead | Serializable

record transaction_context =
  tc_tx_id :: u64
  tc_parent_tx_id :: "u64 option"
  tc_isolation_level :: isolation_level
  tc_participants :: "string list"

datatype transaction_op =
    TxBegin u64 u64
  | TxPrepare u64 "string list"
  | TxCommit u64 lsn
  | TxAbort u64 string

record storage_checkpoint =
  sc_storage_type :: storage_type
  sc_last_flushed_lsn :: lsn
  sc_pending_writes :: u64
  sc_state :: bytes

datatype 'ev entry_payload =
    PLineage 'ev
  | PLineageBatch "'ev list"
  | PQualityViolation string string "string list" string
  | PRdfTriple rdf_triple_entry
  | PRdfTripleBatch "rdf_triple_entry list"
  | PRdfUpdate rdf_triple_entry rdf_triple_entry
  | PStorageWrite storage_type bytes bytes storage_options
  | PTransaction transaction_op
  | PCheckpoint lsn "storage_checkpoint list"
  | PRaw bytes

record 'ev wal_entry =
  we_header :: entry_header
  we_payload :: "'ev entry_payload"
  we_transaction :: "transaction_context option"

section \<open>Making entries\<close>

text \<open>\<^verbatim>\<open>saturating_sub\<close> stops at zero.\<close>

definition lsn_before :: "lsn \<Rightarrow> lsn" where
  "lsn_before l = (if l = 0 then 0 else l - 1)"

definition wal_entry_new :: "u64 \<Rightarrow> lsn \<Rightarrow> entry_type \<Rightarrow> 'ev entry_payload \<Rightarrow> 'ev wal_entry" where
  "wal_entry_new now l ty p =
     \<lparr>we_header = \<lparr>eh_lsn = l, eh_previous_lsn = lsn_before l, eh_entry_type = ty, eh_timestamp_us = now,
        eh_payload_size = 0, eh_checksum = 0, eh_flags = entry_flags_default\<rparr>,
      we_payload = p, we_transaction = None\<rparr>"

definition set_idempotent :: "'ev wal_entry \<Rightarrow> 'ev wal_entry" where
  "set_idempotent e = e\<lparr>we_header := (we_header e)\<lparr>eh_flags := (eh_flags (we_header e))\<lparr>fl_idempotent := True\<rparr>\<rparr>\<rparr>"

definition wal_lineage :: "u64 \<Rightarrow> lsn \<Rightarrow> 'ev \<Rightarrow> 'ev wal_entry" where
  "wal_lineage now l ev = wal_entry_new now l LineageWrite (PLineage ev)"

definition rdf_insert :: "u64 \<Rightarrow> lsn \<Rightarrow> rdf_triple_entry \<Rightarrow> 'ev wal_entry" where
  "rdf_insert now l t = set_idempotent (wal_entry_new now l RdfInsertTriple (PRdfTriple t))"

definition rdf_delete :: "u64 \<Rightarrow> lsn \<Rightarrow> rdf_triple_entry \<Rightarrow> 'ev wal_entry" where
  "rdf_delete now l t = set_idempotent (wal_entry_new now l RdfDeleteTriple (PRdfTriple t))"

definition rdf_batch_insert :: "u64 \<Rightarrow> lsn \<Rightarrow> rdf_triple_entry list \<Rightarrow> 'ev wal_entry" where
  "rdf_batch_insert now l ts = set_idempotent (wal_entry_new now l RdfInsertBatch (PRdfTripleBatch ts))"

definition is_idempotent :: "'ev wal_entry \<Rightarrow> bool" where
  "is_idempotent e \<longleftrightarrow> fl_idempotent (eh_flags (we_header e)) \<or>
     eh_entry_type (we_header e) \<in> {Checkpoint, RotationMarker, CompactionMarker}"

section \<open>Serialized form\<close>

record 'ev wal_lib =
  wl_header :: "entry_header \<Rightarrow> bytes"
  wl_read_header :: "bytes \<Rightarrow> entry_header option"
  wl_payload :: "'ev entry_payload \<Rightarrow> bytes"
  wl_read_payload :: "bytes \<Rightarrow> 'ev entry_payload option"
  wl_tx :: "transaction_context \<Rightarrow> bytes"
  wl_read_tx :: "bytes \<Rightarrow> transaction_context option"
  wl_crc32 :: "bytes \<Rightarrow> u32"

text \<open>
  \<^verbatim>\<open>size_of::<EntryHeader>()\<close>: three 64-bit and two 32-bit integers, one byte for the type and four for
  the flags, padded to the alignment of eight.
\<close>

definition header_size :: nat where
  "header_size = 40"

definition u64_le :: "u64 \<Rightarrow> bytes" where
  "u64_le w = rev (u64_be w)"

definition u64_from_le :: "bytes \<Rightarrow> u64" where
  "u64_from_le bs = u64_from_be (rev bs)"

definition wal_lib_ok :: "'ev wal_lib \<Rightarrow> bool" where
  "wal_lib_ok L \<longleftrightarrow>
     (\<forall>h. length (wl_header L h) = header_size \<and> take 8 (wl_header L h) = u64_le (eh_lsn h) \<and>
          wl_read_header L (wl_header L h) = Some h) \<and>
     (\<forall>p. wl_read_payload L (wl_payload L p) = Some p) \<and>
     (\<forall>t. wl_tx L t \<noteq> [] \<and> wl_read_tx L (wl_tx L t) = Some t)"

definition tx_bytes :: "'ev wal_lib \<Rightarrow> transaction_context option \<Rightarrow> bytes" where
  "tx_bytes L t = (case t of None \<Rightarrow> [] | Some c \<Rightarrow> wl_tx L c)"

text \<open>\<^verbatim>\<open>to_bytes\<close> completes the header of the entry it is called on. A length cast to \<^verbatim>\<open>u32\<close> wraps around.\<close>

definition wal_to_bytes :: "'ev wal_lib \<Rightarrow> 'ev wal_entry \<Rightarrow> bytes \<times> 'ev wal_entry" where
  "wal_to_bytes L e =
     (let payload_bytes = wl_payload L (we_payload e);
          h = (we_header e)\<lparr>eh_payload_size := of_nat (length payload_bytes),
                eh_checksum := wl_crc32 L (payload_bytes @ tx_bytes L (we_transaction e))\<rparr>
      in (wl_header L h @ payload_bytes @ tx_bytes L (we_transaction e), e\<lparr>we_header := h\<rparr>))"

definition wal_from_bytes :: "'ev wal_lib \<Rightarrow> bytes \<Rightarrow> string + 'ev wal_entry" where
  "wal_from_bytes L data =
     (if length data < header_size then Inl ''Data too short for header''
      else case wl_read_header L (take header_size data) of
        None \<Rightarrow> Inl ''Header deserialize error''
      | Some h \<Rightarrow>
          let payload_end = header_size + unat (eh_payload_size h);
              body = take (unat (eh_payload_size h)) (drop header_size data) in
          if length data < payload_end then Inl ''Data too short for payload''
          else case wl_read_payload L body of
            None \<Rightarrow> Inl ''Payload deserialize error''
          | Some p \<Rightarrow>
              try_bind
                (if length data > payload_end
                 then (case wl_read_tx L (drop payload_end data) of
                         None \<Rightarrow> Inl ''Transaction deserialize error''
                       | Some t \<Rightarrow> Inr (Some t))
                 else Inr None)
                (\<lambda>tx. if wl_crc32 L (body @ tx_bytes L tx) \<noteq> eh_checksum h
                      then Inl ''Checksum validation failed''
                      else Inr \<lparr>we_header = h, we_payload = p, we_transaction = tx\<rparr>))"

definition size_bytes :: "'ev wal_entry \<Rightarrow> nat" where
  "size_bytes e = header_size + unat (eh_payload_size (we_header e))"

section \<open>Laws\<close>

lemma u64_le_laws [simp]: "length (u64_le w) = 8" "u64_from_le (u64_le w) = w"
  by (simp_all add: u64_le_def u64_from_le_def)

lemma wal_lib_okD:
  assumes "wal_lib_ok L"
  shows "length (wl_header L h) = header_size" "take 8 (wl_header L h) = u64_le (eh_lsn h)"
    "wl_read_header L (wl_header L h) = Some h" "wl_read_payload L (wl_payload L p) = Some p"
    "wl_tx L t \<noteq> []" "wl_read_tx L (wl_tx L t) = Some t"
  using assms by (simp_all add: wal_lib_ok_def)

text \<open>The payload is short enough for its length to fit the header.\<close>

definition payload_fits :: "'ev wal_lib \<Rightarrow> 'ev wal_entry \<Rightarrow> bool" where
  "payload_fits L e \<longleftrightarrow> length (wl_payload L (we_payload e)) < 2 ^ 32"

lemma wal_to_bytes_snd:
  "we_payload (snd (wal_to_bytes L e)) = we_payload e"
  "we_transaction (snd (wal_to_bytes L e)) = we_transaction e"
  "eh_lsn (we_header (snd (wal_to_bytes L e))) = eh_lsn (we_header e)"
  by (simp_all add: wal_to_bytes_def Let_def)

lemma wal_to_bytes_length:
  "wal_lib_ok L \<Longrightarrow> length (fst (wal_to_bytes L e)) =
     header_size + length (wl_payload L (we_payload e)) + length (tx_bytes L (we_transaction e))"
  by (simp add: wal_to_bytes_def Let_def wal_lib_okD)

lemma wal_to_bytes_lsn: "wal_lib_ok L \<Longrightarrow> take 8 (fst (wal_to_bytes L e)) = u64_le (eh_lsn (we_header e))"
  by (simp add: wal_to_bytes_def Let_def wal_lib_okD header_size_def)

lemma wal_from_to_bytes:
  assumes L: "wal_lib_ok L" and fits: "payload_fits L e"
  shows "wal_from_bytes L (fst (wal_to_bytes L e)) = Inr (snd (wal_to_bytes L e))"
proof -
  let ?pb = "wl_payload L (we_payload e)"
  have size: "unat (of_nat (length ?pb) :: u32) = length ?pb"
    using fits unfolding payload_fits_def by (intro unat_of_nat_small) simp
  show ?thesis
    using wal_lib_okD(1,3,4) [OF L] wal_lib_okD(5,6) [OF L]
    by (cases "we_transaction e") (simp_all add: wal_to_bytes_def wal_from_bytes_def Let_def size tx_bytes_def)
qed

text \<open>What is accepted carries the checksum of its payload and transaction.\<close>

lemma wal_from_bytes_checksum:
  assumes "wal_from_bytes L data = Inr e"
  shows "\<exists>body. wl_read_payload L body = Some (we_payload e) \<and> length body = unat (eh_payload_size (we_header e)) \<and>
    take (length body) (drop header_size data) = body \<and>
    wl_crc32 L (body @ tx_bytes L (we_transaction e)) = eh_checksum (we_header e)"
  using assms unfolding wal_from_bytes_def Let_def
  by (auto simp: try_bind_Inr_conv split: if_splits option.splits)

section \<open>Properties\<close>

text \<open>
  Entries survive serialization and their bodies are protected. An entry whose payload is shorter
  than 4 GiB reads back as it was, with its header completed. Bytes with the same header that are
  accepted have a payload and transaction with the original checksum, so corruption of the body goes
  unnoticed only on a collision of the CRC. The header itself is not covered: with any other sequence
  number, type, time or flags in it the bytes are accepted all the same.
\<close>

lemma wal_entry_roundtrip:
  assumes "wal_lib_ok L" "payload_fits L e"
  shows "wal_from_bytes L (fst (wal_to_bytes L e)) = Inr (snd (wal_to_bytes L e)) \<and>
    (\<forall>rest e'. wal_from_bytes L (wl_header L (we_header (snd (wal_to_bytes L e))) @ rest) = Inr e' \<longrightarrow>
       wl_crc32 L (take (length (wl_payload L (we_payload e))) rest @ tx_bytes L (we_transaction e')) =
       wl_crc32 L (wl_payload L (we_payload e) @ tx_bytes L (we_transaction e))) \<and>
    (\<forall>h. eh_payload_size h = eh_payload_size (we_header (snd (wal_to_bytes L e))) \<and>
         eh_checksum h = eh_checksum (we_header (snd (wal_to_bytes L e))) \<longrightarrow>
       wal_from_bytes L (wl_header L h @ wl_payload L (we_payload e) @ tx_bytes L (we_transaction e)) =
         Inr ((snd (wal_to_bytes L e))\<lparr>we_header := h\<rparr>))"
proof (intro conjI allI impI)
  show "wal_from_bytes L (fst (wal_to_bytes L e)) = Inr (snd (wal_to_bytes L e))"
    by (rule wal_from_to_bytes [OF assms])
  have size: "unat (of_nat (length (wl_payload L (we_payload e))) :: u32) = length (wl_payload L (we_payload e))"
    using assms(2) unfolding payload_fits_def by (intro unat_of_nat_small) simp
  have e: "eh_payload_size (we_header (snd (wal_to_bytes L e))) = of_nat (length (wl_payload L (we_payload e)))"
    "eh_checksum (we_header (snd (wal_to_bytes L e))) = wl_crc32 L (wl_payload L (we_payload e) @ tx_bytes L (we_transaction e))"
    by (simp_all add: wal_to_bytes_def Let_def)
  fix rest e' assume acc: "wal_from_bytes L (wl_header L (we_header (snd (wal_to_bytes L e))) @ rest) = Inr e'"
  then have h: "we_header e' = we_header (snd (wal_to_bytes L e))"
    using wal_lib_okD(1,3) [OF assms(1)]
    by (auto simp: wal_from_bytes_def Let_def try_bind_Inr_conv split: if_splits option.splits)
  show "wl_crc32 L (take (length (wl_payload L (we_payload e))) rest @ tx_bytes L (we_transaction e')) =
      wl_crc32 L (wl_payload L (we_payload e) @ tx_bytes L (we_transaction e))"
    using wal_from_bytes_checksum [OF acc] h e size wal_lib_okD(1) [OF assms(1)] by auto
next
  fix h :: entry_header assume h: "eh_payload_size h = eh_payload_size (we_header (snd (wal_to_bytes L e))) \<and>
     eh_checksum h = eh_checksum (we_header (snd (wal_to_bytes L e)))"
  define e2 where "e2 = e\<lparr>we_header := h\<rparr>"
  have "wal_to_bytes L e2 = (wl_header L h @ wl_payload L (we_payload e) @ tx_bytes L (we_transaction e), e2)"
    using h by (cases h) (simp add: wal_to_bytes_def Let_def e2_def)
  moreover have "payload_fits L e2" using assms(2) by (simp add: payload_fits_def e2_def)
  moreover have "e2 = (snd (wal_to_bytes L e))\<lparr>we_header := h\<rparr>" by (simp add: e2_def wal_to_bytes_def Let_def)
  ultimately show "wal_from_bytes L (wl_header L h @ wl_payload L (we_payload e) @ tx_bytes L (we_transaction e)) =
      Inr ((snd (wal_to_bytes L e))\<lparr>we_header := h\<rparr>)"
    using wal_from_to_bytes [OF assms(1), of e2] by simp
qed

end
