(* ===== verification/WalDemo.thy ===== *)
theory WalDemo
  imports WalEntry DemoLib
begin

text \<open>
  A concrete library for the witnesses of the write-ahead log: the laws \<open>wal_lib_ok\<close> hold for it. Its
  headers have the 40 bytes of bincode's format, its payloads are coded with the codecs of theory
  \<open>DemoLib\<close>, its checksum is the sum of the bytes. None of this models code of the program.
\<close>

section \<open>Headers\<close>

definition type_num :: "entry_type \<Rightarrow> nat" where
  "type_num t = (case t of LineageWrite \<Rightarrow> 0 | QualityViolation \<Rightarrow> 1 | ProfileUpdate \<Rightarrow> 2
     | RdfInsertTriple \<Rightarrow> 3 | RdfDeleteTriple \<Rightarrow> 4 | RdfInsertBatch \<Rightarrow> 5 | RdfUpdateTriple \<Rightarrow> 6
     | TransactionBegin \<Rightarrow> 7 | TransactionPrepare \<Rightarrow> 8 | TransactionCommit \<Rightarrow> 9 | TransactionAbort \<Rightarrow> 10
     | RocksDbWrite \<Rightarrow> 11 | KafkaPublish \<Rightarrow> 12 | ParquetFlush \<Rightarrow> 13
     | Checkpoint \<Rightarrow> 14 | RotationMarker \<Rightarrow> 15 | CompactionMarker \<Rightarrow> 16)"

definition num_type :: "nat \<Rightarrow> entry_type" where
  "num_type n = [LineageWrite, QualityViolation, ProfileUpdate, RdfInsertTriple, RdfDeleteTriple, RdfInsertBatch,
     RdfUpdateTriple, TransactionBegin, TransactionPrepare, TransactionCommit, TransactionAbort, RocksDbWrite,
     KafkaPublish, ParquetFlush, Checkpoint, RotationMarker, CompactionMarker] ! n"

lemma num_type_num: "num_type (type_num t) = t"
  by (cases t) (simp_all add: type_num_def num_type_def)

definition u32_bytes :: "u32 \<Rightarrow> bytes" where
  "u32_bytes w = rev (map (\<lambda>i. of_nat (unat w div 256 ^ i mod 256)) (rev [0..<4]))"

definition bytes_u32 :: "bytes \<Rightarrow> u32" where
  "bytes_u32 bs = of_nat (foldl (\<lambda>n b. 256 * n + unat b) 0 (rev bs))"

lemma bytes_u32_bytes [simp]: "bytes_u32 (u32_bytes w) = w" "length (u32_bytes w) = 4"
proof -
  have "foldl (\<lambda>n b. 256 * n + unat b) 0 (rev (u32_bytes w)) = unat w mod 256 ^ 4"
    unfolding u32_bytes_def rev_rev_ident horner_bytes by simp
  also have "\<dots> = unat w" using unat_lt [of w] by simp
  finally show "bytes_u32 (u32_bytes w) = w" by (simp add: bytes_u32_def)
qed (simp add: u32_bytes_def)

definition bool_byte :: "bool \<Rightarrow> u8" where
  "bool_byte b = (if b then 1 else 0)"

lemma bool_byte_eq [simp]: "bool_byte b = 1 \<longleftrightarrow> b"
  by (simp add: bool_byte_def)

definition demo_header :: "entry_header \<Rightarrow> bytes" where
  "demo_header h = u64_le (eh_lsn h) @ u64_le (eh_previous_lsn h) @ u64_le (eh_timestamp_us h) @
     u32_bytes (of_nat (type_num (eh_entry_type h))) @ u32_bytes (eh_payload_size h) @ u32_bytes (eh_checksum h) @
     [bool_byte (fl_compressed (eh_flags h)), bool_byte (fl_encrypted (eh_flags h)),
      bool_byte (fl_idempotent (eh_flags h)), bool_byte (fl_requires_sync (eh_flags h))]"

definition demo_read_header :: "bytes \<Rightarrow> entry_header option" where
  "demo_read_header bs = (if length bs \<noteq> 40 then None else
     let fl = drop 36 bs in
     Some \<lparr>eh_lsn = u64_from_le (take 8 bs), eh_previous_lsn = u64_from_le (take 8 (drop 8 bs)),
       eh_entry_type = num_type (unat (bytes_u32 (take 4 (drop 24 bs)))), eh_timestamp_us = u64_from_le (take 8 (drop 16 bs)),
       eh_payload_size = bytes_u32 (take 4 (drop 28 bs)), eh_checksum = bytes_u32 (take 4 (drop 32 bs)),
       eh_flags = \<lparr>fl_compressed = fl ! 0 = 1, fl_encrypted = fl ! 1 = 1, fl_idempotent = fl ! 2 = 1,
         fl_requires_sync = fl ! 3 = 1\<rparr>\<rparr>)"

lemma demo_header_read: "demo_read_header (demo_header h) = Some h"
proof -
  have "unat (of_nat (type_num t) :: u32) = type_num t" for t
    by (intro unat_of_nat_small) (cases t; simp add: type_num_def)
  then show ?thesis by (simp add: demo_read_header_def demo_header_def Let_def num_type_num)
qed

section \<open>Payloads\<close>

definition str_of :: "bytes \<Rightarrow> string" where
  "str_of bs = map (\<lambda>b. char_of (unat b)) bs"

lemma str_of_bytes [simp]: "str_bytes (str_of bs) = bs"
proof -
  have "(\<lambda>c. of_nat (of_char c)) \<circ> (\<lambda>b. char_of (unat b)) = (id :: u8 \<Rightarrow> u8)"
  proof
    fix b :: u8
    have "unat b mod 256 = unat b" using unat_lt [of b] by simp
    then show "((\<lambda>c. of_nat (of_char c)) \<circ> (\<lambda>b. char_of (unat b))) b = id b" by simp
  qed
  then show ?thesis by (simp add: str_bytes_def str_of_def)
qed

definition triple_tuple where
  "triple_tuple t = (rt_subject t, rt_predicate t, rt_object t, rt_datatype t, rt_language t, rt_graph t, rt_shard_id t,
     (if rt_operation t = RdfInsert then 0 else 1 :: nat), rt_timestamp_us t)"

definition tuple_triple where
  "tuple_triple x = (case x of (s, p, ob, d, l, g, sh, op, ts) \<Rightarrow>
     \<lparr>rt_subject = s, rt_predicate = p, rt_object = ob, rt_datatype = d, rt_language = l, rt_graph = g, rt_shard_id = sh,
      rt_operation = (if op = (0 :: nat) then RdfInsert else RdfDelete), rt_timestamp_us = ts\<rparr>)"

definition enc_triple :: "rdf_triple_entry \<Rightarrow> bytes" where
  "enc_triple = enc_map triple_tuple (enc_pair enc_str (enc_pair enc_str (enc_pair enc_str (enc_pair enc_opt
     (enc_pair enc_opt (enc_pair enc_str (enc_pair enc_str (enc_pair enc_nat enc_word))))))))"

definition dec_triple :: "bytes \<Rightarrow> rdf_triple_entry \<times> bytes" where
  "dec_triple = dec_map tuple_triple (dec_pair dec_str (dec_pair dec_str (dec_pair dec_str (dec_pair dec_opt
     (dec_pair dec_opt (dec_pair dec_str (dec_pair dec_str (dec_pair dec_nat dec_word))))))))"

lemma codec_triple: "codec enc_triple dec_triple"
  unfolding enc_triple_def dec_triple_def
proof (intro codec_map [where f = triple_tuple and g = tuple_triple] codec_pair codec_word codec_opt codec_str codec_nat)
  fix t :: rdf_triple_entry
  show "tuple_triple (triple_tuple t) = t"
    by (cases t, cases "rt_operation t") (simp_all add: triple_tuple_def tuple_triple_def)
qed

definition storage_num :: "storage_type \<Rightarrow> nat" where
  "storage_num t = (case t of RocksDb \<Rightarrow> 0 | Kafka \<Rightarrow> 1 | Parquet \<Rightarrow> 2 | Archive \<Rightarrow> 3)"

definition num_storage :: "nat \<Rightarrow> storage_type" where
  "num_storage n = [RocksDb, Kafka, Parquet, Archive] ! n"

lemma num_storage_num [simp]: "num_storage (storage_num t) = t"
  by (cases t) (simp_all add: storage_num_def num_storage_def)

definition opt_strs :: "string option \<Rightarrow> string list" where
  "opt_strs x = opt_list x"

lemma opt_round [simp]: "list_opt (opt_list x) = x"
  by (cases x) (simp_all add: opt_list_def list_opt_def)

definition check_tuple :: "storage_checkpoint \<Rightarrow> nat list \<times> string" where
  "check_tuple c = ([storage_num (sc_storage_type c), unat (sc_last_flushed_lsn c), unat (sc_pending_writes c)], str_of (sc_state c))"

definition tuple_check :: "nat list \<times> string \<Rightarrow> storage_checkpoint" where
  "tuple_check x = \<lparr>sc_storage_type = num_storage (fst x ! 0), sc_last_flushed_lsn = of_nat (fst x ! 1),
     sc_pending_writes = of_nat (fst x ! 2), sc_state = str_bytes (snd x)\<rparr>"

lemma tuple_check_tuple [simp]: "tuple_check (check_tuple c) = c"
  by (cases c) (simp add: check_tuple_def tuple_check_def)

text \<open>A payload as its constructor's number, numbers, strings, triples and checkpoints.\<close>

fun payload_tuple :: "string entry_payload \<Rightarrow> nat \<times> nat list \<times> string list list \<times> rdf_triple_entry list \<times> storage_checkpoint list" where
  "payload_tuple (PLineage e) = (0, [], [[e]], [], [])"
| "payload_tuple (PLineageBatch es) = (1, [], [es], [], [])"
| "payload_tuple (PQualityViolation a b cs d) = (2, [], [[a], [b], cs, [d]], [], [])"
| "payload_tuple (PRdfTriple t) = (3, [], [], [t], [])"
| "payload_tuple (PRdfTripleBatch ts) = (4, [], [], ts, [])"
| "payload_tuple (PRdfUpdate a b) = (5, [], [], [a, b], [])"
| "payload_tuple (PStorageWrite ty k v opts) =
     (6, storage_num ty # map unat (opt_list (so_replication opts)),
      [[str_of k], [str_of v], opt_list (so_partition opts), opt_list (so_compression opts)], [], [])"
| "payload_tuple (PTransaction (TxBegin a b)) = (7, [unat a, unat b], [], [], [])"
| "payload_tuple (PTransaction (TxPrepare a ps)) = (8, [unat a], [ps], [], [])"
| "payload_tuple (PTransaction (TxCommit a l)) = (9, [unat a, unat l], [], [], [])"
| "payload_tuple (PTransaction (TxAbort a r)) = (10, [unat a], [[r]], [], [])"
| "payload_tuple (PCheckpoint l cs) = (11, [unat l], [], [], cs)"
| "payload_tuple (PRaw b) = (12, [], [[str_of b]], [], [])"

definition tuple_payload where
  "tuple_payload x = (case x of (n :: nat, ns :: nat list, ss :: string list list, ts, cs) \<Rightarrow>
     if n = 0 then PLineage (ss ! 0 ! 0) else if n = 1 then PLineageBatch (ss ! 0)
     else if n = 2 then PQualityViolation (ss ! 0 ! 0) (ss ! 1 ! 0) (ss ! 2) (ss ! 3 ! 0)
     else if n = 3 then PRdfTriple (ts ! 0) else if n = 4 then PRdfTripleBatch ts else if n = 5 then PRdfUpdate (ts ! 0) (ts ! 1)
     else if n = 6 then PStorageWrite (num_storage (ns ! 0)) (str_bytes (ss ! 0 ! 0)) (str_bytes (ss ! 1 ! 0))
       \<lparr>so_partition = list_opt (ss ! 2), so_replication = list_opt (map of_nat (tl ns)), so_compression = list_opt (ss ! 3)\<rparr>
     else if n = 7 then PTransaction (TxBegin (of_nat (ns ! 0)) (of_nat (ns ! 1)))
     else if n = 8 then PTransaction (TxPrepare (of_nat (ns ! 0)) (ss ! 0))
     else if n = 9 then PTransaction (TxCommit (of_nat (ns ! 0)) (of_nat (ns ! 1)))
     else if n = 10 then PTransaction (TxAbort (of_nat (ns ! 0)) (ss ! 0 ! 0))
     else if n = 11 then PCheckpoint (of_nat (ns ! 0)) cs
     else PRaw (str_bytes (ss ! 0 ! 0)))"

lemma tuple_payload_tuple: "tuple_payload (payload_tuple p) = p"
proof -
  have map_id: "map (of_nat \<circ> unat) (xs :: u8 list) = xs" for xs by (induction xs) simp_all
  show ?thesis
    by (cases p rule: payload_tuple.cases) (simp_all add: tuple_payload_def map_id)
qed

definition enc_payload :: "string entry_payload \<Rightarrow> bytes" where
  "enc_payload = enc_map payload_tuple (enc_pair enc_nat (enc_pair (enc_list enc_nat) (enc_pair (enc_list (enc_list enc_str))
     (enc_pair (enc_list enc_triple) (enc_list (enc_map check_tuple (enc_pair (enc_list enc_nat) enc_str)))))))"

definition dec_payload :: "bytes \<Rightarrow> string entry_payload \<times> bytes" where
  "dec_payload = dec_map tuple_payload (dec_pair dec_nat (dec_pair (dec_list dec_nat) (dec_pair (dec_list (dec_list dec_str))
     (dec_pair (dec_list dec_triple) (dec_list (dec_map tuple_check (dec_pair (dec_list dec_nat) dec_str)))))))"

lemma codec_payload: "codec enc_payload dec_payload"
  unfolding enc_payload_def dec_payload_def
  by (rule codec_map [where f = payload_tuple and g = tuple_payload, OF _ tuple_payload_tuple])
    (intro codec_map [where f = check_tuple and g = tuple_check] codec_pair codec_list codec_str codec_nat codec_triple
      tuple_check_tuple)

definition level_num :: "isolation_level \<Rightarrow> nat" where
  "level_num l = (case l of ReadUncommitted \<Rightarrow> 0 | ReadCommitted \<Rightarrow> 1 | RepeatableRead \<Rightarrow> 2 | Serializable \<Rightarrow> 3)"

definition num_level :: "nat \<Rightarrow> isolation_level" where
  "num_level n = [ReadUncommitted, ReadCommitted, RepeatableRead, Serializable] ! n"

definition context_tuple where
  "context_tuple c = (unat (tc_tx_id c), map unat (opt_list (tc_parent_tx_id c)), level_num (tc_isolation_level c), tc_participants c)"

definition tuple_context where
  "tuple_context x = (case x of (i, ps, l, ss) \<Rightarrow> \<lparr>tc_tx_id = of_nat i, tc_parent_tx_id = list_opt (map of_nat ps),
     tc_isolation_level = num_level l, tc_participants = ss\<rparr>)"

lemma tuple_context_tuple: "tuple_context (context_tuple c) = c"
proof -
  have "num_level (level_num l) = l" for l by (cases l) (simp_all add: level_num_def num_level_def)
  moreover have "map (of_nat \<circ> unat) (xs :: u64 list) = xs" for xs by (induction xs) simp_all
  ultimately show ?thesis by (cases c) (simp add: context_tuple_def tuple_context_def)
qed

definition enc_context :: "transaction_context \<Rightarrow> bytes" where
  "enc_context = enc_map context_tuple (enc_pair enc_nat (enc_pair (enc_list enc_nat) (enc_pair enc_nat (enc_list enc_str))))"

definition dec_context :: "bytes \<Rightarrow> transaction_context \<times> bytes" where
  "dec_context = dec_map tuple_context (dec_pair dec_nat (dec_pair (dec_list dec_nat) (dec_pair dec_nat (dec_list dec_str))))"

lemma codec_context: "codec enc_context dec_context"
  unfolding enc_context_def dec_context_def
  by (rule codec_map [where f = context_tuple and g = tuple_context, OF _ tuple_context_tuple])
    (intro codec_pair codec_list codec_str codec_nat)

section \<open>The library\<close>

definition demo_wal_lib :: "string wal_lib" where
  "demo_wal_lib = \<lparr>wl_header = demo_header, wl_read_header = demo_read_header,
     wl_payload = enc_payload, wl_read_payload = (\<lambda>b. Some (fst (dec_payload b))),
     wl_tx = enc_context, wl_read_tx = (\<lambda>b. Some (fst (dec_context b))),
     wl_crc32 = (\<lambda>bs. of_nat (sum_list (map unat bs)))\<rparr>"

lemma demo_wal_lib_ok: "wal_lib_ok demo_wal_lib"
proof -
  have "enc_context t \<noteq> []" for t by (simp add: enc_context_def enc_map_def enc_pair_def enc_nat_def)
  moreover have "length (demo_header h) = 40" "take 8 (demo_header h) = u64_le (eh_lsn h)" for h
    by (simp_all add: demo_header_def)
  ultimately show ?thesis
    by (simp add: wal_lib_ok_def demo_wal_lib_def header_size_def demo_header_read codec_fst [OF codec_payload]
        codec_fst [OF codec_context])
qed

definition demo_wal_entry :: "string wal_entry" where
  "demo_wal_entry = wal_entry_new 5 0 RocksDbWrite (PRaw [1, 2, 3])"

lemma demo_payload_length: "length (wl_payload demo_wal_lib (we_payload demo_wal_entry)) = 33"
  by code_simp

lemma demo_fits: "payload_fits demo_wal_lib demo_wal_entry"
  by (simp add: payload_fits_def demo_payload_length)

lemma wal_entry_roundtrip_witness:
  "wal_from_bytes demo_wal_lib (fst (wal_to_bytes demo_wal_lib demo_wal_entry)) = Inr (snd (wal_to_bytes demo_wal_lib demo_wal_entry))"
  using wal_entry_roundtrip [OF demo_wal_lib_ok demo_fits] by blast

end
