(* ===== verification/FileWal.thy ===== *)
theory FileWal
  imports WalDemo
begin

text \<open>
  Model of \<^verbatim>\<open>arcxa-coordinator/src/storage/wal/file_wal.rs\<close> and of the parts of \<^verbatim>\<open>config.rs\<close> and \<^verbatim>\<open>errors.rs\<close>
  it uses: the write-ahead log in numbered segment files. The directory is a map from segment numbers to the
  bytes of their files; a memory map and its file are the same bytes. Each operation runs to its end before
  the next one starts; the readings of the clock and the outcomes of the system calls an operation makes (free
  space, write, sync, creation of a file) are its argument \<open>wal_env\<close>, so every theorem holds for every
  combination of failures. Metrics, logging, the group commit queue (which no operation uses) and the timer
  loops of the background workers are not modelled; what the compaction worker does on a tick is.
\<close>

section \<open>Configuration and errors\<close>

datatype fsync_mode = EveryWrite | BatchSync | OnDemand | Periodic

datatype rotation_policy =
    RotSize u64
  | RotTime nat
  | RotSizeAndTime u64 nat
  | RotEntryCount u64
  | RotCustom string

record wal_config =
  wc_max_file_size :: u64
  wc_preallocate :: bool
  wc_direct_io :: bool
  wc_min_free_disk_space :: u64
  wc_fsync_mode :: fsync_mode
  wc_rotation_policy :: rotation_policy
  wc_compaction_enabled :: bool
  wc_min_segments :: nat
  wc_archive_before_compact :: bool

datatype wal_error =
    WIo string
  | WCorruption lsn string bool
  | WChecksumMismatch lsn
  | WTransactionNotFound u64
  | WTransactionInvalidState u64 string
  | WTwoPhaseCommitFailed string
  | WCoordinationFailed string
  | WUnrecoverableCorruption lsn
  | WWalFull nat
  | WInsufficientDiskSpace u64 u64 u64
  | WInvalidLsn lsn
  | WTimeout string
  | WSerialization string
  | WKilled

text \<open>What the system answers during one operation.\<close>

datatype write_outcome = WriteOk | WriteFails nat

record wal_env =
  en_available :: "wal_error + u64"
  en_write :: "nat \<Rightarrow> write_outcome"
  en_sync :: "wal_error option"
  en_rotate_sync :: "wal_error option"
  en_create :: "nat option"
  en_now :: nat

section \<open>State\<close>

type_synonym disk = "u64 \<Rightarrow> bytes option"

record 'ev segment =
  seg_id :: u64
  seg_mapped :: bool
  seg_cursor :: nat
  seg_position :: nat
  seg_size :: nat
  seg_start_lsn :: lsn
  seg_end_lsn :: "lsn option"
  seg_created_at :: nat
  seg_entries :: "'ev wal_entry list"
  seg_dirty :: bool

record segment_info =
  si_id :: u64
  si_start_lsn :: lsn
  si_end_lsn :: "lsn option"
  si_size :: nat
  si_entries :: nat
  si_created_at :: nat
  si_archived :: bool

record segment_location =
  loc_segment :: u64
  loc_offset :: nat
  loc_size :: nat

record 'ev file_wal =
  fw_config :: wal_config
  fw_active :: "'ev segment"
  fw_segments :: "(u64, segment_info) btree"
  fw_current_lsn :: u64
  fw_committed_lsn :: u64
  fw_index :: "lsn \<Rightarrow> segment_location option"
  fw_disk :: disk
  fw_archive :: disk
  fw_shutdown :: bool

section \<open>Segments\<close>

text \<open>\<^verbatim>\<open>File::set_len\<close> cuts the file or extends it with zeros; a write replaces bytes from a position on.\<close>

definition set_len :: "nat \<Rightarrow> bytes \<Rightarrow> bytes" where
  "set_len n d = take n d @ replicate (n - length d) 0"

definition write_at :: "nat \<Rightarrow> bytes \<Rightarrow> bytes \<Rightarrow> bytes" where
  "write_at p bs d = take p d @ bs @ drop (p + length bs) d"

text \<open>
  \<open>en_create\<close> says which step fails, if any: opening the file, resizing it, or mapping it. The file is
  opened without truncation.
\<close>

definition create_segment :: "wal_config \<Rightarrow> wal_env \<Rightarrow> u64 \<Rightarrow> lsn \<Rightarrow> disk \<Rightarrow> disk \<times> (wal_error + 'ev segment)" where
  "create_segment cfg env sid start disk =
     (let opened = disk(sid \<mapsto> case disk sid of None \<Rightarrow> [] | Some d \<Rightarrow> d);
          sized = (if wc_preallocate cfg
                   then opened(sid \<mapsto> set_len (unat (wc_max_file_size cfg)) (the (opened sid))) else opened);
          seg = \<lparr>seg_id = sid, seg_mapped = \<not> wc_direct_io cfg, seg_cursor = 0, seg_position = 0,
                 seg_size = unat (wc_max_file_size cfg), seg_start_lsn = start, seg_end_lsn = None,
                 seg_created_at = en_now env, seg_entries = [], seg_dirty = False\<rparr>
      in case en_create env of
           None \<Rightarrow> (sized, Inr seg)
         | Some step \<Rightarrow> (if step = 0 then disk else if step = 1 then opened else sized, Inl (WIo ''create segment'')))"

text \<open>
  A store into the map beyond the end of the file kills the process (\<^verbatim>\<open>SIGBUS\<close>; the model draws the line at
  the last byte, the hardware at the last page). A failed flush comes after the bytes were copied; a failed
  \<^verbatim>\<open>write_all\<close> may have written some of them, which moves the file's cursor.
\<close>

definition stamp :: "lsn \<Rightarrow> 'ev wal_entry \<Rightarrow> 'ev wal_entry" where
  "stamp l e = e\<lparr>we_header := (we_header e)\<lparr>eh_lsn := l, eh_previous_lsn := lsn_before l\<rparr>\<rparr>"

definition write_entry_to_segment ::
  "'ev wal_lib \<Rightarrow> write_outcome \<Rightarrow> 'ev wal_entry \<Rightarrow> lsn \<Rightarrow> 'ev segment \<Rightarrow> disk \<Rightarrow>
   'ev segment \<times> disk \<times> (wal_error + nat)" where
  "write_entry_to_segment L out entry l seg disk =
     (let (bs, e) = wal_to_bytes L (stamp l entry); size = length bs;
          d = (case disk (seg_id seg) of None \<Rightarrow> [] | Some d \<Rightarrow> d);
          done = seg\<lparr>seg_position := seg_position seg + size, seg_entries := seg_entries seg @ [e], seg_dirty := True\<rparr>
      in if seg_position seg + size > seg_size seg then (seg, disk, Inl (WWalFull (seg_size seg)))
         else if seg_mapped seg then
           (if seg_position seg + size > length d then (seg, disk, Inl WKilled)
            else let disk' = disk(seg_id seg \<mapsto> write_at (seg_position seg) bs d) in
              case out of
                WriteOk \<Rightarrow> (done, disk', Inr size)
              | WriteFails _ \<Rightarrow> (seg, disk', Inl (WIo ''flush'')))
         else
           (case out of
              WriteOk \<Rightarrow>
                (done\<lparr>seg_cursor := seg_cursor seg + size\<rparr>, disk(seg_id seg \<mapsto> write_at (seg_cursor seg) bs d), Inr size)
            | WriteFails n \<Rightarrow>
                (seg\<lparr>seg_cursor := seg_cursor seg + length (take n bs)\<rparr>,
                 disk(seg_id seg \<mapsto> write_at (seg_cursor seg) (take n bs) d), Inl (WIo ''write''))))"

definition segment_sync :: "fsync_mode \<Rightarrow> wal_error option \<Rightarrow> 'ev segment \<Rightarrow> 'ev segment \<times> (wal_error + unit)" where
  "segment_sync mode err seg =
     (case mode of
        Periodic \<Rightarrow> (seg, Inr ())
      | _ \<Rightarrow> (case err of Some e \<Rightarrow> (seg, Inl e) | None \<Rightarrow> (seg\<lparr>seg_dirty := False\<rparr>, Inr ())))"

section \<open>Operations\<close>

definition file_wal_new :: "wal_config \<Rightarrow> wal_env \<Rightarrow> disk \<Rightarrow> disk \<times> (wal_error + 'ev file_wal)" where
  "file_wal_new cfg env disk =
     (case create_segment cfg env 0 lsn_zero disk of
        (disk', Inl e) \<Rightarrow> (disk', Inl e)
      | (disk', Inr seg) \<Rightarrow>
          (disk', Inr \<lparr>fw_config = cfg, fw_active = seg, fw_segments = [], fw_current_lsn = 0, fw_committed_lsn = 0,
             fw_index = (\<lambda>_. None), fw_disk = disk', fw_archive = (\<lambda>_. None), fw_shutdown = False\<rparr>))"

definition ensure_sufficient_disk_space :: "wal_env \<Rightarrow> nat \<Rightarrow> wal_config \<Rightarrow> wal_error + unit" where
  "ensure_sufficient_disk_space env required cfg =
     (if wc_min_free_disk_space cfg = 0 then Inr ()
      else try_bind (en_available env) (\<lambda>available.
        if available < wc_min_free_disk_space cfg
        then Inl (WInsufficientDiskSpace available (of_nat required) (wc_min_free_disk_space cfg))
        else Inr ()))"

text \<open>The age of a segment: the clock may have been set back, then \<^verbatim>\<open>elapsed\<close> fails and the default is zero.\<close>

definition should_rotate :: "wal_env \<Rightarrow> 'ev file_wal \<Rightarrow> bool" where
  "should_rotate env w =
     (let seg = fw_active w; age = en_now env - seg_created_at seg in
      case wc_rotation_policy (fw_config w) of
        RotSize m \<Rightarrow> unat m \<le> seg_position seg
      | RotTime a \<Rightarrow> a \<le> age
      | RotSizeAndTime m a \<Rightarrow> unat m \<le> seg_position seg \<or> a \<le> age
      | RotEntryCount n \<Rightarrow> unat n \<le> length (seg_entries seg)
      | RotCustom _ \<Rightarrow> False)"

definition info_of :: "'ev segment \<Rightarrow> segment_info" where
  "info_of seg = \<lparr>si_id = seg_id seg, si_start_lsn = seg_start_lsn seg, si_end_lsn = seg_end_lsn seg,
     si_size = seg_position seg, si_entries = length (seg_entries seg), si_created_at = seg_created_at seg,
     si_archived = False\<rparr>"

definition rotate_internal :: "wal_env \<Rightarrow> 'ev file_wal \<Rightarrow> 'ev file_wal \<times> (wal_error + unit)" where
  "rotate_internal env w =
     (case create_segment (fw_config w) env (seg_id (fw_active w) + 1) (fw_current_lsn w) (fw_disk w) of
        (disk', Inl e) \<Rightarrow> (w\<lparr>fw_disk := disk'\<rparr>, Inl e)
      | (disk', Inr fresh) \<Rightarrow>
          (let closed = (fw_active w)\<lparr>seg_end_lsn := Some (fw_current_lsn w)\<rparr> in
           case segment_sync OnDemand (en_rotate_sync env) closed of
             (seg, Inl e) \<Rightarrow> (w\<lparr>fw_disk := disk', fw_active := seg\<rparr>, Inl e)
           | (seg, Inr _) \<Rightarrow>
               (w\<lparr>fw_disk := disk', fw_segments := bt_insert (seg_id seg) (info_of seg) (fw_segments w),
                  fw_active := fresh\<rparr>, Inr ())))"

text \<open>One entry of \<^verbatim>\<open>append\<close> and of the loop of \<^verbatim>\<open>append_batch\<close>: the write and its index entry.\<close>

definition write_indexed ::
  "'ev wal_lib \<Rightarrow> write_outcome \<Rightarrow> 'ev wal_entry \<Rightarrow> lsn \<Rightarrow> 'ev file_wal \<Rightarrow> 'ev file_wal \<times> (wal_error + nat)" where
  "write_indexed L out entry l w =
     (case write_entry_to_segment L out entry l (fw_active w) (fw_disk w) of
        (seg, disk', Inl e) \<Rightarrow> (w\<lparr>fw_active := seg, fw_disk := disk'\<rparr>, Inl e)
      | (seg, disk', Inr n) \<Rightarrow>
          (w\<lparr>fw_active := seg, fw_disk := disk',
             fw_index := (fw_index w)(l \<mapsto>
               \<lparr>loc_segment = seg_id seg, loc_offset = seg_position seg - n, loc_size = n\<rparr>)\<rparr>, Inr n))"

text \<open>The step "Sync if required" of \<^verbatim>\<open>append\<close>.\<close>

definition sync_if_required :: "wal_env \<Rightarrow> 'ev file_wal \<Rightarrow> 'ev file_wal \<times> (wal_error + unit)" where
  "sync_if_required env w =
     (case wc_fsync_mode (fw_config w) of
        EveryWrite \<Rightarrow> (let (seg, r) = segment_sync EveryWrite (en_sync env) (fw_active w) in (w\<lparr>fw_active := seg\<rparr>, r))
      | _ \<Rightarrow> (w, Inr ()))"

definition wal_append :: "'ev wal_lib \<Rightarrow> wal_env \<Rightarrow> 'ev wal_entry \<Rightarrow> 'ev file_wal \<Rightarrow> 'ev file_wal \<times> (wal_error + lsn)" where
  "wal_append L env entry w =
     (let (bs, entry') = wal_to_bytes L entry in
      case ensure_sufficient_disk_space env (length bs) (fw_config w) of
        Inl e \<Rightarrow> (w, Inl e)
      | Inr _ \<Rightarrow>
          (let l = fw_current_lsn w in
           case write_indexed L (en_write env 0) entry' l (w\<lparr>fw_current_lsn := l + 1\<rparr>) of
             (w1, Inl e) \<Rightarrow> (w1, Inl e)
           | (w1, Inr _) \<Rightarrow>
               (case sync_if_required env w1 of
                  (w2, Inl e) \<Rightarrow> (w2, Inl e)
                | (w2, Inr _) \<Rightarrow>
                    if should_rotate env w2
                    then (case rotate_internal env w2 of (w3, Inl e) \<Rightarrow> (w3, Inl e) | (w3, Inr _) \<Rightarrow> (w3, Inr l))
                    else (w2, Inr l))))"

fun batch_loop ::
  "'ev wal_lib \<Rightarrow> wal_env \<Rightarrow> 'ev wal_entry list \<Rightarrow> nat \<Rightarrow> lsn \<Rightarrow> lsn list \<Rightarrow> 'ev file_wal \<Rightarrow>
   'ev file_wal \<times> (wal_error + lsn list)" where
  "batch_loop L env [] i start lsns w = (w, Inr lsns)"
| "batch_loop L env (e # es) i start lsns w =
     (case write_indexed L (en_write env i) e (start + of_nat i) w of
        (w1, Inl err) \<Rightarrow> (w1, Inl err)
      | (w1, Inr _) \<Rightarrow> batch_loop L env es (i + 1) start (lsns @ [start + of_nat i]) w1)"

definition wal_append_batch ::
  "'ev wal_lib \<Rightarrow> wal_env \<Rightarrow> 'ev wal_entry list \<Rightarrow> 'ev file_wal \<Rightarrow> 'ev file_wal \<times> (wal_error + lsn list)" where
  "wal_append_batch L env entries w =
     (case ensure_sufficient_disk_space env (sum_list (map (\<lambda>e. length (fst (wal_to_bytes L e))) entries)) (fw_config w) of
        Inl e \<Rightarrow> (w, Inl e)
      | Inr _ \<Rightarrow>
          (let start = fw_current_lsn w in
           case batch_loop L env entries 0 start [] (w\<lparr>fw_current_lsn := start + of_nat (length entries)\<rparr>) of
             (w1, Inl e) \<Rightarrow> (w1, Inl e)
           | (w1, Inr lsns) \<Rightarrow>
               if wc_fsync_mode (fw_config w1) = EveryWrite \<or> wc_fsync_mode (fw_config w1) = BatchSync
               then (case segment_sync (wc_fsync_mode (fw_config w1)) (en_sync env) (fw_active w1) of
                       (seg, Inl e) \<Rightarrow> (w1\<lparr>fw_active := seg\<rparr>, Inl e)
                     | (seg, Inr _) \<Rightarrow> (w1\<lparr>fw_active := seg\<rparr>, Inr lsns))
               else (w1, Inr lsns)))"

definition wal_sync :: "wal_env \<Rightarrow> 'ev file_wal \<Rightarrow> 'ev file_wal \<times> (wal_error + unit)" where
  "wal_sync env w = (let (seg, r) = segment_sync OnDemand (en_sync env) (fw_active w) in (w\<lparr>fw_active := seg\<rparr>, r))"

definition wal_commit :: "lsn \<Rightarrow> 'ev file_wal \<Rightarrow> 'ev file_wal" where
  "wal_commit l w = w\<lparr>fw_committed_lsn := l\<rparr>"

definition wal_commit_batch :: "lsn list \<Rightarrow> 'ev file_wal \<Rightarrow> 'ev file_wal" where
  "wal_commit_batch ls w = (if ls = [] then w else w\<lparr>fw_committed_lsn := Max (set ls)\<rparr>)"

definition tail_lsn :: "'ev file_wal \<Rightarrow> lsn" where
  "tail_lsn w = fw_current_lsn w"

definition head_lsn :: "'ev file_wal \<Rightarrow> lsn" where
  "head_lsn w = fw_committed_lsn w + 1"

definition wal_is_healthy :: "'ev file_wal \<Rightarrow> bool" where
  "wal_is_healthy w \<longleftrightarrow> \<not> fw_shutdown w \<and> seg_position (fw_active w) < seg_size (fw_active w)"

definition wal_truncate :: "lsn \<Rightarrow> 'ev file_wal \<Rightarrow> 'ev file_wal" where
  "wal_truncate up_to w =
     w\<lparr>fw_index := (\<lambda>l. if l > up_to then fw_index w l else None), fw_committed_lsn := up_to\<rparr>"

definition wal_close :: "wal_env \<Rightarrow> 'ev file_wal \<Rightarrow> 'ev file_wal \<times> (wal_error + unit)" where
  "wal_close env w = wal_sync env (w\<lparr>fw_shutdown := True\<rparr>)"

section \<open>Reading\<close>

definition has_checksum_word :: "string \<Rightarrow> bool" where
  "has_checksum_word msg = (\<exists>i \<le> length msg. take 8 (drop i msg) = ''Checksum'')"

definition wal_read :: "'ev wal_lib \<Rightarrow> lsn \<Rightarrow> 'ev file_wal \<Rightarrow> wal_error + 'ev wal_entry" where
  "wal_read L l w =
     (case fw_index w l of
        None \<Rightarrow> Inl (WInvalidLsn l)
      | Some loc \<Rightarrow>
          (case bt_get (fw_segments w) (loc_segment loc) of
             None \<Rightarrow> Inl (WInvalidLsn l)
           | Some info \<Rightarrow>
               (case fw_disk w (si_id info) of
                  None \<Rightarrow> Inl (WIo ''open'')
                | Some d \<Rightarrow>
                    if loc_offset loc + loc_size loc > length d then Inl (WIo ''read'')
                    else (case wal_from_bytes L (take (loc_size loc) (drop (loc_offset loc) d)) of
                            Inr e \<Rightarrow> Inr e
                          | Inl msg \<Rightarrow> if has_checksum_word msg then Inl (WChecksumMismatch l)
                                       else Inl (WCorruption l msg False)))))"

fun scan_loop :: "'ev wal_lib \<Rightarrow> lsn list \<Rightarrow> 'ev file_wal \<Rightarrow> wal_error + 'ev wal_entry list" where
  "scan_loop L [] w = Inr []"
| "scan_loop L (l # ls) w =
     (case wal_read L l w of
        Inr e \<Rightarrow> try_bind (scan_loop L ls w) (\<lambda>es. Inr (e # es))
      | Inl (WInvalidLsn _) \<Rightarrow> scan_loop L ls w
      | Inl err \<Rightarrow> Inl err)"

definition wal_scan :: "'ev wal_lib \<Rightarrow> lsn \<Rightarrow> lsn \<Rightarrow> 'ev file_wal \<Rightarrow> wal_error + 'ev wal_entry list" where
  "wal_scan L from until w = scan_loop L (map of_nat [unat from..<unat until]) w"

definition wal_find :: "'ev wal_lib \<Rightarrow> ('ev wal_entry \<Rightarrow> bool) \<Rightarrow> 'ev file_wal \<Rightarrow> wal_error + 'ev wal_entry list" where
  "wal_find L P w = try_bind (wal_scan L (head_lsn w) (tail_lsn w) w) (\<lambda>es. Inr (filter P es))"

section \<open>Compaction\<close>

definition compact_segment :: "segment_info \<Rightarrow> 'ev file_wal \<Rightarrow> 'ev file_wal \<times> (wal_error + unit)" where
  "compact_segment info w =
     (let archiving = wc_archive_before_compact (fw_config w) in
      if archiving \<and> fw_disk w (si_id info) = None then (w, Inl (WIo ''copy''))
      else
        let w1 = (if archiving then w\<lparr>fw_archive := (fw_archive w)(si_id info := fw_disk w (si_id info))\<rparr> else w);
            w2 = (case si_end_lsn info of
                    None \<Rightarrow> w1
                  | Some stop \<Rightarrow> w1\<lparr>fw_index := (\<lambda>l. if si_start_lsn info \<le> l \<and> l \<le> stop then None else fw_index w1 l)\<rparr>)
        in if fw_disk w2 (si_id info) = None then (w2, Inl (WIo ''remove''))
           else (w2\<lparr>fw_disk := (fw_disk w2)(si_id info := None)\<rparr>, Inr ()))"

definition compactable :: "'ev file_wal \<Rightarrow> segment_info list" where
  "compactable w = filter (\<lambda>info. \<not> si_archived info \<and>
     (case si_end_lsn info of None \<Rightarrow> False | Some stop \<Rightarrow> stop \<le> fw_committed_lsn w)) (map snd (fw_segments w))"

definition compaction_tick :: "'ev file_wal \<Rightarrow> 'ev file_wal" where
  "compaction_tick w =
     (if \<not> wc_compaction_enabled (fw_config w) then w
      else if length (compactable w) \<ge> wc_min_segments (fw_config w)
      then fold (\<lambda>info w. fst (compact_segment info w)) (compactable w) w
      else w)"

section \<open>Bytes of a segment\<close>

lemma length_write_at: "p \<le> length d \<Longrightarrow> length (write_at p bs d) = max (length d) (p + length bs)"
  by (simp add: write_at_def)

lemma write_at_same: "p \<le> length d \<Longrightarrow> take (length bs) (drop p (write_at p bs d)) = bs"
  by (simp add: write_at_def)

lemma write_at_before: "off + n \<le> p \<Longrightarrow> p \<le> length d \<Longrightarrow> take n (drop off (write_at p bs d)) = take n (drop off d)"
  by (simp add: write_at_def take_drop min_def)

lemma stamp_simps [simp]:
  "we_payload (stamp l e) = we_payload e" "we_transaction (stamp l e) = we_transaction e"
  "eh_lsn (we_header (stamp l e)) = l"
  by (simp_all add: stamp_def)

lemma payload_fits_stamp [simp]: "payload_fits L (stamp l e) = payload_fits L e"
  by (simp add: payload_fits_def)

text \<open>Serializing twice gives the same bytes: the second pass recomputes what the first one set.\<close>

lemma to_bytes_again: "wal_to_bytes L (stamp l (snd (wal_to_bytes L e))) = wal_to_bytes L (stamp l e)"
  by (simp add: wal_to_bytes_def stamp_def Let_def)

section \<open>What the log holds\<close>

text \<open>
  The abstract log maps a sequence number to the entry that was handed out that number, as \<^verbatim>\<open>append\<close>
  completes it. The relation: every index entry points into an existing file, at the bytes of the entry of
  its number, in a segment whose range contains the number; the active segment's file reaches up to the
  write position.
\<close>

definition logged :: "'ev wal_lib \<Rightarrow> lsn \<Rightarrow> 'ev wal_entry \<Rightarrow> 'ev wal_entry" where
  "logged L l e = snd (wal_to_bytes L (stamp l e))"

definition entry_bytes :: "'ev wal_lib \<Rightarrow> lsn \<Rightarrow> 'ev wal_entry \<Rightarrow> bytes" where
  "entry_bytes L l e = fst (wal_to_bytes L (stamp l e))"

lemma entry_bytes_logged:
  "entry_bytes L l e = wl_header L (we_header (logged L l e)) @ wl_payload L (we_payload (logged L l e)) @
     tx_bytes L (we_transaction (logged L l e))"
  by (simp add: entry_bytes_def logged_def wal_to_bytes_def Let_def)

definition bytes_at :: "disk \<Rightarrow> segment_location \<Rightarrow> bytes \<Rightarrow> bool" where
  "bytes_at disk loc bs \<longleftrightarrow> (\<exists>d. disk (loc_segment loc) = Some d \<and> loc_size loc = length bs \<and>
     loc_offset loc + length bs \<le> length d \<and> take (length bs) (drop (loc_offset loc) d) = bs)"

definition in_range :: "'ev file_wal \<Rightarrow> lsn \<Rightarrow> segment_location \<Rightarrow> bool" where
  "in_range w l loc \<longleftrightarrow>
     (loc_segment loc = seg_id (fw_active w) \<and> loc_offset loc + loc_size loc \<le> seg_position (fw_active w) \<and>
        seg_start_lsn (fw_active w) \<le> l) \<or>
     (\<exists>info stop. loc_segment loc < seg_id (fw_active w) \<and> bt_get (fw_segments w) (loc_segment loc) = Some info \<and>
        si_start_lsn info \<le> l \<and> si_end_lsn info = Some stop \<and> l \<le> stop)"

definition active_ok :: "'ev file_wal \<Rightarrow> bool" where
  "active_ok w \<longleftrightarrow> (\<exists>d. fw_disk w (seg_id (fw_active w)) = Some d \<and> seg_position (fw_active w) \<le> length d) \<and>
     (\<not> seg_mapped (fw_active w) \<longrightarrow> seg_cursor (fw_active w) = seg_position (fw_active w)) \<and>
     seg_start_lsn (fw_active w) \<le> fw_current_lsn w"

definition segments_ok :: "'ev file_wal \<Rightarrow> bool" where
  "segments_ok w \<longleftrightarrow> bt_wf (fw_segments w) \<and>
     (\<forall>k info. bt_get (fw_segments w) k = Some info \<longrightarrow> si_id info = k \<and> k < seg_id (fw_active w))"

definition wal_rel :: "'ev wal_lib \<Rightarrow> (lsn \<Rightarrow> 'ev wal_entry option) \<Rightarrow> 'ev file_wal \<Rightarrow> bool" where
  "wal_rel L A w \<longleftrightarrow> active_ok w \<and> segments_ok w \<and>
     (\<forall>l e. A l = Some e \<longrightarrow> l < fw_current_lsn w) \<and>
     (\<forall>l loc. fw_index w l = Some loc \<longrightarrow> in_range w l loc \<and>
        (\<exists>e. A l = Some (logged L l e) \<and> payload_fits L e \<and> bytes_at (fw_disk w) loc (entry_bytes L l e)))"

lemma wal_relD:
  assumes "wal_rel L A w"
  shows "active_ok w" "segments_ok w" "A l = Some e \<Longrightarrow> l < fw_current_lsn w"
    "fw_index w l = Some loc \<Longrightarrow> in_range w l loc"
    "fw_index w l = Some loc \<Longrightarrow> \<exists>e. A l = Some (logged L l e) \<and> payload_fits L e \<and> bytes_at (fw_disk w) loc (entry_bytes L l e)"
  using assms unfolding wal_rel_def by blast+

lemma in_range_cong:
  "seg_id (fw_active w') = seg_id (fw_active w) \<Longrightarrow> seg_position (fw_active w) \<le> seg_position (fw_active w') \<Longrightarrow>
   seg_start_lsn (fw_active w') = seg_start_lsn (fw_active w) \<Longrightarrow> fw_segments w' = fw_segments w \<Longrightarrow>
   in_range w l loc \<Longrightarrow> in_range w' l loc"
  unfolding in_range_def by auto

lemma bytes_at_write:
  assumes "bytes_at disk loc bs" "disk sid = Some d" "p \<le> length d"
    "loc_segment loc = sid \<longrightarrow> loc_offset loc + loc_size loc \<le> p"
  shows "bytes_at (disk(sid \<mapsto> write_at p new d)) loc bs"
  using assms by (auto simp: bytes_at_def length_write_at write_at_before max_def)

lemma bytes_at_other: "bytes_at disk loc bs \<Longrightarrow> loc_segment loc \<noteq> sid \<Longrightarrow> bytes_at (disk(sid := x)) loc bs"
  by (simp add: bytes_at_def)

lemma bytes_at_read:
  assumes "wal_lib_ok L" "payload_fits L e" "bytes_at disk loc (entry_bytes L l e)" "disk (loc_segment loc) = Some d"
  shows "loc_offset loc + loc_size loc \<le> length d"
    "wal_from_bytes L (take (loc_size loc) (drop (loc_offset loc) d)) = Inr (logged L l e)"
  using assms wal_from_to_bytes [OF assms(1), of "stamp l e"]
  by (auto simp: bytes_at_def entry_bytes_def logged_def)

section \<open>Every operation keeps the relation\<close>

lemma write_entry_cases:
  assumes "write_entry_to_segment L out e l seg disk = (seg', disk', r)"
    "disk (seg_id seg) = Some d" "seg_mapped seg \<or> out = WriteOk" "seg_mapped seg \<or> seg_cursor seg = seg_position seg"
  shows "(\<exists>err. r = Inl err \<and> seg' = seg \<and>
       (disk' = disk \<or> disk' = disk(seg_id seg \<mapsto> write_at (seg_position seg) (entry_bytes L l e) d))) \<or>
    (r = Inr (length (entry_bytes L l e)) \<and>
       disk' = disk(seg_id seg \<mapsto> write_at (seg_position seg) (entry_bytes L l e) d) \<and>
       seg' = seg\<lparr>seg_position := seg_position seg + length (entry_bytes L l e),
         seg_cursor := (if seg_mapped seg then seg_cursor seg else seg_position seg + length (entry_bytes L l e)),
         seg_entries := seg_entries seg @ [logged L l e], seg_dirty := True\<rparr>)"
  using assms
  by (cases seg) (auto simp: write_entry_to_segment_def entry_bytes_def logged_def Let_def split_beta
      split: if_splits write_outcome.splits)

lemma wal_rel_disk:
  assumes rel: "wal_rel L A w" and d: "fw_disk w (seg_id (fw_active w)) = Some d"
  shows "wal_rel L A (w\<lparr>fw_disk := (fw_disk w)(seg_id (fw_active w) \<mapsto> write_at (seg_position (fw_active w)) bs d)\<rparr>)"
    (is "wal_rel L A ?w")
proof -
  let ?seg = "fw_active w"
  have p: "seg_position ?seg \<le> length d" using wal_relD(1) [OF rel] d by (auto simp: active_ok_def)
  have "active_ok ?w" using wal_relD(1) [OF rel] d p by (auto simp: active_ok_def length_write_at)
  moreover have "segments_ok ?w" using wal_relD(2) [OF rel] by (simp add: segments_ok_def)
  moreover have "in_range ?w l loc" if "fw_index w l = Some loc" for l loc
    using wal_relD(4) [OF rel that] by (rule in_range_cong [rotated 4]) simp_all
  moreover have "bytes_at (fw_disk ?w) loc (entry_bytes L l e)"
    if "fw_index w l = Some loc" "bytes_at (fw_disk w) loc (entry_bytes L l e)" for l loc e
  proof -
    have "loc_segment loc = seg_id ?seg \<longrightarrow> loc_offset loc + loc_size loc \<le> seg_position ?seg"
      using wal_relD(4) [OF rel that(1)] by (auto simp: in_range_def)
    then show ?thesis using bytes_at_write [OF that(2) d p] by simp
  qed
  ultimately show ?thesis using wal_relD(3,5) [OF rel] unfolding wal_rel_def by fastforce
qed

lemma write_indexed_rel:
  assumes rel: "wal_rel L A w" and e: "payload_fits L e" "A l = Some (logged L l e)"
    and l: "seg_start_lsn (fw_active w) \<le> l" and out: "seg_mapped (fw_active w) \<or> out = WriteOk"
    and wi: "write_indexed L out e l w = (w', r)"
  shows "wal_rel L A w'" "fw_current_lsn w' = fw_current_lsn w" "fw_config w' = fw_config w" "fw_segments w' = fw_segments w"
    "seg_id (fw_active w') = seg_id (fw_active w)" "seg_start_lsn (fw_active w') = seg_start_lsn (fw_active w)"
    "seg_mapped (fw_active w') = seg_mapped (fw_active w)"
    "r = Inr n \<Longrightarrow> \<exists>loc. fw_index w' l = Some loc \<and> loc_segment loc = seg_id (fw_active w) \<and> loc_offset loc = seg_position (fw_active w)"
proof -
  let ?seg = "fw_active w" and ?bs = "entry_bytes L l e"
  obtain d where d: "fw_disk w (seg_id ?seg) = Some d" "seg_position ?seg \<le> length d"
    using wal_relD(1) [OF rel] by (auto simp: active_ok_def)
  have cur: "seg_mapped ?seg \<or> seg_cursor ?seg = seg_position ?seg" using wal_relD(1) [OF rel] by (auto simp: active_ok_def)
  obtain seg' disk' r0 where we: "write_entry_to_segment L out e l ?seg (fw_disk w) = (seg', disk', r0)"
    using prod_cases3 by blast
  let ?D = "(fw_disk w)(seg_id ?seg \<mapsto> write_at (seg_position ?seg) ?bs d)"
  let ?w1 = "w\<lparr>fw_disk := ?D\<rparr>"
  have w1: "wal_rel L A ?w1" by (rule wal_rel_disk [OF rel d(1)])
  from write_entry_cases [OF we d(1) out cur]
  consider (fail) err where "r0 = Inl err" "seg' = ?seg" "disk' = fw_disk w \<or> disk' = ?D"
    | (ok) "r0 = Inr (length ?bs)" "disk' = ?D"
      "seg' = ?seg\<lparr>seg_position := seg_position ?seg + length ?bs,
         seg_cursor := (if seg_mapped ?seg then seg_cursor ?seg else seg_position ?seg + length ?bs),
         seg_entries := seg_entries ?seg @ [logged L l e], seg_dirty := True\<rparr>" by blast
  then have "wal_rel L A w' \<and> fw_current_lsn w' = fw_current_lsn w \<and> fw_config w' = fw_config w \<and> fw_segments w' = fw_segments w \<and>
    seg_id (fw_active w') = seg_id ?seg \<and> seg_start_lsn (fw_active w') = seg_start_lsn ?seg \<and>
    seg_mapped (fw_active w') = seg_mapped ?seg \<and>
    (\<forall>n. r = Inr n \<longrightarrow> (\<exists>loc. fw_index w' l = Some loc \<and> loc_segment loc = seg_id ?seg \<and> loc_offset loc = seg_position ?seg))"
  proof cases
    case fail
    then have "w' = w \<or> w' = ?w1" "\<exists>err. r = Inl err" using wi we by (auto simp: write_indexed_def)
    then show ?thesis using rel w1 by auto
  next
    case ok
    let ?loc = "\<lparr>loc_segment = seg_id ?seg, loc_offset = seg_position ?seg, loc_size = length ?bs\<rparr>"
    have w': "w' = w\<lparr>fw_active := seg', fw_disk := ?D, fw_index := (fw_index w)(l \<mapsto> ?loc)\<rparr>"
      using wi we ok by (auto simp: write_indexed_def)
    have "active_ok w'" using wal_relD(1) [OF w1] cur d by (auto simp: active_ok_def w' ok(3) length_write_at)
    moreover have "segments_ok w'" using wal_relD(2) [OF w1] by (simp add: segments_ok_def w' ok(3))
    moreover have "in_range w' k loc" if "fw_index w' k = Some loc" for k loc
    proof (cases "k = l")
      case True
      then show ?thesis using that l by (auto simp: in_range_def w' ok(3))
    next
      case False
      then have "in_range ?w1 k loc" using that wal_relD(4) [OF w1, of k loc] by (simp add: w')
      then show ?thesis by (rule in_range_cong [rotated 4]) (simp_all add: w' ok(3))
    qed
    moreover have "\<exists>e'. A k = Some (logged L k e') \<and> payload_fits L e' \<and> bytes_at (fw_disk w') loc (entry_bytes L k e')"
      if "fw_index w' k = Some loc" for k loc
    proof (cases "k = l")
      case True
      then have "bytes_at (fw_disk w') loc ?bs"
        using that d by (auto simp: bytes_at_def w' length_write_at write_at_same)
      then show ?thesis using e True by blast
    next
      case False
      then show ?thesis using that wal_relD(5) [OF w1, of k loc] by (simp add: w')
    qed
    moreover have "A k = Some x \<Longrightarrow> k < fw_current_lsn w'" for k x using wal_relD(3) [OF w1] by (simp add: w')
    ultimately have "wal_rel L A w'" unfolding wal_rel_def by blast
    then show ?thesis by (simp add: w' ok(3))
  qed
  then show "wal_rel L A w'" "fw_current_lsn w' = fw_current_lsn w" "fw_config w' = fw_config w" "fw_segments w' = fw_segments w"
    "seg_id (fw_active w') = seg_id (fw_active w)" "seg_start_lsn (fw_active w') = seg_start_lsn (fw_active w)"
    "seg_mapped (fw_active w') = seg_mapped (fw_active w)"
    "r = Inr n \<Longrightarrow> \<exists>loc. fw_index w' l = Some loc \<and> loc_segment loc = seg_id (fw_active w) \<and> loc_offset loc = seg_position (fw_active w)" by blast+
qed

text \<open>Synchronization and the end of a segment change nothing the relation looks at.\<close>

definition same_place :: "'ev segment \<Rightarrow> 'ev segment \<Rightarrow> bool" where
  "same_place s t \<longleftrightarrow> seg_id s = seg_id t \<and> seg_position s = seg_position t \<and> seg_cursor s = seg_cursor t \<and>
     seg_mapped s = seg_mapped t \<and> seg_start_lsn s = seg_start_lsn t"

lemma same_place_sync: "same_place (fst (segment_sync m err seg)) seg"
  by (auto simp: segment_sync_def same_place_def split: fsync_mode.split option.split)

lemma sync_if_required_place: "\<exists>seg. fst (sync_if_required env w) = w\<lparr>fw_active := seg\<rparr> \<and> same_place seg (fw_active w)"
proof (cases "wc_fsync_mode (fw_config w) = EveryWrite")
  case True
  then show ?thesis using same_place_sync [of EveryWrite "en_sync env" "fw_active w"]
    by (auto simp: sync_if_required_def split_beta)
next
  case False
  then have "fst (sync_if_required env w) = w\<lparr>fw_active := fw_active w\<rparr>"
    by (simp add: sync_if_required_def split: fsync_mode.split)
  then show ?thesis unfolding same_place_def by blast
qed

lemma wal_rel_active:
  assumes "wal_rel L A w" "same_place seg (fw_active w)"
  shows "wal_rel L A (w\<lparr>fw_active := seg\<rparr>)"
  using assms unfolding wal_rel_def active_ok_def segments_ok_def in_range_def same_place_def by simp

lemma wal_rel_frame:
  assumes "wal_rel L A w" "fw_active w' = fw_active w" "fw_segments w' = fw_segments w" "fw_disk w' = fw_disk w"
    "fw_current_lsn w' = fw_current_lsn w" "\<And>l loc. fw_index w' l = Some loc \<Longrightarrow> fw_index w l = Some loc"
  shows "wal_rel L A w'"
  using assms unfolding wal_rel_def active_ok_def segments_ok_def in_range_def by simp

lemma create_segment_cases:
  assumes "create_segment cfg env sid start disk = (disk', r)"
  shows "\<exists>x. disk' = disk(sid := x)"
    "r = Inr seg \<Longrightarrow> seg_id seg = sid \<and> seg_position seg = 0 \<and> seg_cursor seg = 0 \<and> seg_start_lsn seg = start \<and>
       seg_mapped seg = (\<not> wc_direct_io cfg) \<and> (\<exists>d. disk' sid = Some d)"
  using assms by (auto simp: create_segment_def Let_def split: option.splits if_splits) (metis fun_upd_triv)+

lemma in_range_le: "in_range w l loc \<Longrightarrow> loc_segment loc \<le> seg_id (fw_active w)"
  by (auto simp: in_range_def)

lemma wal_rel_other_file:
  assumes rel: "wal_rel L A w" and sid: "seg_id (fw_active w) < sid"
  shows "wal_rel L A (w\<lparr>fw_disk := (fw_disk w)(sid := x)\<rparr>)"
proof -
  have "bytes_at ((fw_disk w)(sid := x)) loc bs" if "fw_index w l = Some loc" "bytes_at (fw_disk w) loc bs" for l loc bs
    using that in_range_le [OF wal_relD(4) [OF rel that(1)]] sid by (intro bytes_at_other) auto
  moreover have "active_ok (w\<lparr>fw_disk := (fw_disk w)(sid := x)\<rparr>)"
    using wal_relD(1) [OF rel] sid by (auto simp: active_ok_def)
  moreover have "in_range (w\<lparr>fw_disk := (fw_disk w)(sid := x)\<rparr>) l loc = in_range w l loc" for l loc
    by (simp add: in_range_def)
  ultimately show ?thesis
    using rel unfolding wal_rel_def segments_ok_def by fastforce
qed

lemma rotate_rel:
  fixes w :: "'ev file_wal"
  assumes rel: "wal_rel L A w" and sid: "unat (seg_id (fw_active w)) + 1 < 2 ^ 64"
    and rot: "rotate_internal env w = (w', r)"
  shows "wal_rel L A w'" "fw_current_lsn w' = fw_current_lsn w" "fw_index w' = fw_index w" "fw_config w' = fw_config w"
    "r = Inr () \<Longrightarrow> bt_get (fw_segments w') (seg_id (fw_active w)) \<noteq> None"
proof -
  let ?seg = "fw_active w" and ?sid = "seg_id (fw_active w) + 1"
  have lt: "seg_id ?seg < ?sid" using sid unat_Suc_word [of "seg_id ?seg"] by (simp add: word_less_nat_alt)
  obtain disk' and c :: "wal_error + 'ev segment" where c: "create_segment (fw_config w) env ?sid (fw_current_lsn w) (fw_disk w) = (disk', c)" by force
  from create_segment_cases(1) [OF c] obtain x where x: "disk' = (fw_disk w)(?sid := x)" by blast
  let ?w1 = "w\<lparr>fw_disk := disk'\<rparr>"
  have w1: "wal_rel L A ?w1" unfolding x by (rule wal_rel_other_file [OF rel lt])
  let ?closed = "?seg\<lparr>seg_end_lsn := Some (fw_current_lsn w)\<rparr>"
  obtain seg sr where sy: "segment_sync OnDemand (en_rotate_sync env) ?closed = (seg, sr)" by force
  have seg: "same_place seg ?seg" using same_place_sync [of OnDemand "en_rotate_sync env" ?closed] sy
    by (auto simp: same_place_def)
  have seg': "info_of seg = (info_of ?seg)\<lparr>si_end_lsn := Some (fw_current_lsn w)\<rparr>"
    using sy by (auto simp: segment_sync_def info_of_def split: option.splits)
  have "wal_rel L A w' \<and> fw_current_lsn w' = fw_current_lsn w \<and> fw_index w' = fw_index w \<and> fw_config w' = fw_config w \<and>
    (r = Inr () \<longrightarrow> bt_get (fw_segments w') (seg_id ?seg) \<noteq> None)"
  proof (cases c)
    case (Inl e)
    then show ?thesis using rot c w1 by (auto simp: rotate_internal_def)
  next
    case (Inr new)
    show ?thesis
    proof (cases sr)
      case (Inl e)
      then have "w' = ?w1\<lparr>fw_active := seg\<rparr>" "r = Inl e" using rot c Inr sy by (simp_all add: rotate_internal_def)
      then show ?thesis using wal_rel_active [OF w1, of seg] seg by simp
    next
      case (Inr u)
      then have w': "w' = w\<lparr>fw_disk := disk', fw_segments := bt_insert (seg_id seg) (info_of seg) (fw_segments w), fw_active := new\<rparr>"
        using rot c \<open>c = Inr new\<close> sy by (simp add: rotate_internal_def)
      have sid_seg: "seg_id seg = seg_id ?seg" using seg by (simp add: same_place_def)
      note new = create_segment_cases(2) [OF c \<open>c = Inr new\<close>]
      have "active_ok w'" using new by (auto simp: active_ok_def w')
      moreover have "segments_ok w'"
        using wal_relD(2) [OF rel] lt new sid_seg
        by (auto simp: segments_ok_def w' bt_wf_insert bt_get_insert info_of_def split: if_splits dest: less_trans)
      moreover have "in_range w' l loc" if idx: "fw_index w l = Some loc" for l loc
      proof -
        obtain e where "A l = Some (logged L l e)" using wal_relD(5) [OF rel idx] by blast
        then have "l < fw_current_lsn w" by (rule wal_relD(3) [OF rel])
        moreover have "bt_get (fw_segments w) (seg_id ?seg) = None"
          using wal_relD(2) [OF rel] by (cases "bt_get (fw_segments w) (seg_id ?seg)") (auto simp: segments_ok_def)
        ultimately show ?thesis
          using wal_relD(4) [OF rel idx] lt new sid_seg seg'
          by (auto simp: in_range_def w' bt_get_insert info_of_def dest: less_trans)
      qed
      ultimately have "wal_rel L A w'"
        using wal_relD(3,5) [OF w1] unfolding wal_rel_def by (simp add: w')
      then show ?thesis by (simp add: w' bt_get_insert sid_seg)
    qed
  qed
  then show "wal_rel L A w'" "fw_current_lsn w' = fw_current_lsn w" "fw_index w' = fw_index w" "fw_config w' = fw_config w"
    "r = Inr () \<Longrightarrow> bt_get (fw_segments w') (seg_id (fw_active w)) \<noteq> None" by blast+
qed

lemma compact_segment_frame:
  "fw_segments (fst (compact_segment info w)) = fw_segments w" "fw_current_lsn (fst (compact_segment info w)) = fw_current_lsn w"
  "fw_active (fst (compact_segment info w)) = fw_active w" "fw_config (fst (compact_segment info w)) = fw_config w"
  by (auto simp: compact_segment_def Let_def split: option.split)

lemma compact_segment_index:
  "fw_index (fst (compact_segment info w)) l = Some loc \<Longrightarrow> fw_index w l = Some loc"
  by (auto simp: compact_segment_def Let_def split: option.splits if_splits)

lemma compact_segment_disk:
  assumes "si_end_lsn info = Some stop"
  shows "fw_disk (fst (compact_segment info w)) = fw_disk w \<or>
    (fw_disk (fst (compact_segment info w)) = (fw_disk w)(si_id info := None) \<and>
     (\<forall>l. si_start_lsn info \<le> l \<and> l \<le> stop \<longrightarrow> fw_index (fst (compact_segment info w)) l = None))"
  using assms by (auto simp: compact_segment_def Let_def)

lemma compact_rel:
  assumes rel: "wal_rel L A w" and info: "bt_get (fw_segments w) k = Some info" "si_end_lsn info = Some stop"
  shows "wal_rel L A (fst (compact_segment info w))" (is "wal_rel L A ?w")
proof -
  have k: "si_id info = k" "k < seg_id (fw_active w)" using wal_relD(2) [OF rel] info(1) by (auto simp: segments_ok_def)
  note fr = compact_segment_frame [of info w]
  have "active_ok ?w" using wal_relD(1) [OF rel] compact_segment_disk [OF info(2), of w] k fr
    by (auto simp: active_ok_def)
  moreover have "segments_ok ?w" using wal_relD(2) [OF rel] by (simp add: segments_ok_def fr)
  moreover have "in_range ?w l loc" "\<exists>e. A l = Some (logged L l e) \<and> payload_fits L e \<and> bytes_at (fw_disk ?w) loc (entry_bytes L l e)"
    if i: "fw_index ?w l = Some loc" for l loc
  proof -
    have old: "fw_index w l = Some loc" by (rule compact_segment_index [OF i])
    then show "in_range ?w l loc" using wal_relD(4) [OF rel old] by (simp add: in_range_def fr)
    obtain e where e: "A l = Some (logged L l e)" "payload_fits L e" "bytes_at (fw_disk w) loc (entry_bytes L l e)"
      using wal_relD(5) [OF rel old] by blast
    have "bytes_at (fw_disk ?w) loc (entry_bytes L l e)"
    proof (cases "loc_segment loc = k")
      case True
      then have "si_start_lsn info \<le> l \<and> l \<le> stop"
        using wal_relD(4) [OF rel old] k info by (auto simp: in_range_def)
      then show ?thesis using compact_segment_disk [OF info(2), of w] i e(3) by auto
    next
      case False
      then show ?thesis using compact_segment_disk [OF info(2), of w] e(3) k bytes_at_other by auto
    qed
    then show "\<exists>e. A l = Some (logged L l e) \<and> payload_fits L e \<and> bytes_at (fw_disk ?w) loc (entry_bytes L l e)"
      using e by blast
  qed
  ultimately show ?thesis using wal_relD(3) [OF rel] unfolding wal_rel_def by (simp add: fr)
qed

lemma compaction_rel: "wal_rel L A w \<Longrightarrow> wal_rel L A (compaction_tick w)"
proof -
  assume rel: "wal_rel L A w"
  have "wal_rel L A (fold (\<lambda>info w. fst (compact_segment info w)) infos u)"
    if "wal_rel L A u" "\<forall>info \<in> set infos. \<exists>k stop. bt_get (fw_segments u) k = Some info \<and> si_end_lsn info = Some stop" for infos u
    using that
  proof (induction infos arbitrary: u)
    case (Cons info infos)
    then have "wal_rel L A (fst (compact_segment info u))" using compact_rel by fastforce
    with Cons show ?case by (simp add: compact_segment_frame)
  qed simp
  moreover have "\<forall>info \<in> set (compactable w). \<exists>k stop. bt_get (fw_segments w) k = Some info \<and> si_end_lsn info = Some stop"
    using wal_relD(2) [OF rel] by (auto simp: compactable_def segments_ok_def split: option.splits) (metis bt_get_mem)
  ultimately show ?thesis using rel by (auto simp: compaction_tick_def)
qed

section \<open>Runs of the log\<close>

datatype 'ev wal_command =
    WAppend wal_env "'ev wal_entry"
  | WAppendBatch wal_env "'ev wal_entry list"
  | WSync wal_env
  | WCommit lsn
  | WCommitBatch "lsn list"
  | WTruncate lsn
  | WCompactionTick
  | WClose wal_env

fun wal_exec :: "'ev wal_lib \<Rightarrow> 'ev wal_command \<Rightarrow> 'ev file_wal \<Rightarrow> 'ev file_wal" where
  "wal_exec L (WAppend env e) w = fst (wal_append L env e w)"
| "wal_exec L (WAppendBatch env es) w = fst (wal_append_batch L env es w)"
| "wal_exec L (WSync env) w = fst (wal_sync env w)"
| "wal_exec L (WCommit l) w = wal_commit l w"
| "wal_exec L (WCommitBatch ls) w = wal_commit_batch ls w"
| "wal_exec L (WTruncate l) w = wal_truncate l w"
| "wal_exec L WCompactionTick w = compaction_tick w"
| "wal_exec L (WClose env) w = fst (wal_close env w)"

text \<open>
  The guard: payloads below 4 GiB, counters that do not overflow, and no write that fails halfway when the
  segments are not memory-mapped (then the file's cursor and the position part ways).
\<close>

definition room :: "'ev file_wal \<Rightarrow> nat \<Rightarrow> bool" where
  "room w n \<longleftrightarrow> unat (fw_current_lsn w) + n < 2 ^ 64 \<and> unat (seg_id (fw_active w)) + 1 < 2 ^ 64"

fun wal_guard :: "'ev wal_lib \<Rightarrow> 'ev wal_command \<Rightarrow> 'ev file_wal \<Rightarrow> bool" where
  "wal_guard L (WAppend env e) w \<longleftrightarrow> payload_fits L e \<and> room w 1 \<and> (seg_mapped (fw_active w) \<or> en_write env 0 = WriteOk)"
| "wal_guard L (WAppendBatch env es) w \<longleftrightarrow> (\<forall>e \<in> set es. payload_fits L e) \<and> room w (length es) \<and>
     (seg_mapped (fw_active w) \<or> (\<forall>i. en_write env i = WriteOk))"
| "wal_guard L _ w \<longleftrightarrow> True"

text \<open>The sequence numbers handed out: to one entry, or to a batch from the first one on.\<close>

definition assign :: "'ev wal_lib \<Rightarrow> lsn \<Rightarrow> 'ev wal_entry list \<Rightarrow> (lsn \<Rightarrow> 'ev wal_entry option) \<Rightarrow> lsn \<Rightarrow> 'ev wal_entry option" where
  "assign L start es A = (\<lambda>l. if start \<le> l \<and> unat (l - start) < length es then Some (logged L l (es ! unat (l - start))) else A l)"

fun wal_spec :: "'ev wal_lib \<Rightarrow> 'ev wal_command \<Rightarrow> 'ev file_wal \<Rightarrow> (lsn \<Rightarrow> 'ev wal_entry option) \<Rightarrow> lsn \<Rightarrow> 'ev wal_entry option" where
  "wal_spec L (WAppend env e) w A =
     (if is_ok (ensure_sufficient_disk_space env (length (fst (wal_to_bytes L e))) (fw_config w))
      then assign L (fw_current_lsn w) [e] A else A)"
| "wal_spec L (WAppendBatch env es) w A =
     (if is_ok (ensure_sufficient_disk_space env (sum_list (map (\<lambda>e. length (fst (wal_to_bytes L e))) es)) (fw_config w))
      then assign L (fw_current_lsn w) es A else A)"
| "wal_spec L _ w A = A"

lemma unat_word_diff: "(a :: u64) \<le> b \<Longrightarrow> unat (b - a) = unat b - unat a"
  by (simp add: unat_sub_if' word_le_nat_alt)

lemma lsn_advance: "unat (l :: u64) + n < 2 ^ 64 \<Longrightarrow> unat (l + of_nat n) = unat l + n"
  by (simp add: unat_word_ariths unat_of_nat_small)

lemma assign_nth:
  assumes "unat start + length es < 2 ^ 64" "i < length es"
  shows "assign L start es A (start + of_nat i) = Some (logged L (start + of_nat i) (es ! i))"
proof -
  have "unat (start + of_nat i) = unat start + i" using assms by (intro lsn_advance) simp
  moreover have "unat (of_nat i :: u64) = i" using assms by (intro unat_of_nat_small) simp
  ultimately have "start \<le> start + of_nat i" "unat (start + of_nat i - start) = i"
    by (simp_all add: word_le_nat_alt)
  then show ?thesis using assms(2) by (simp add: assign_def)
qed

text \<open>Handing out numbers and moving the counter past them keeps the relation.\<close>

lemma assign_rel:
  assumes rel: "wal_rel L A w" and n: "unat (fw_current_lsn w) + length es < 2 ^ 64"
  shows "wal_rel L (assign L (fw_current_lsn w) es A) (w\<lparr>fw_current_lsn := fw_current_lsn w + of_nat (length es)\<rparr>)"
    (is "wal_rel L ?A ?w")
proof -
  let ?s = "fw_current_lsn w"
  have adv: "unat (?s + of_nat (length es)) = unat ?s + length es" by (rule lsn_advance [OF n])
  have old: "?A l = A l" if "A l = Some e" for l e
    using wal_relD(3) [OF rel that] by (auto simp: assign_def)
  have "l < ?s + of_nat (length es)" if "?A l = Some e" for l e
    using that wal_relD(3) [OF rel, of l e] adv
    by (auto simp: assign_def word_less_nat_alt word_le_nat_alt unat_word_diff split: if_splits)
  moreover have "active_ok ?w" using wal_relD(1) [OF rel] adv by (auto simp: active_ok_def word_le_nat_alt)
  moreover have "in_range ?w l loc = in_range w l loc" for l loc by (simp add: in_range_def)
  ultimately show ?thesis using rel old unfolding wal_rel_def segments_ok_def by fastforce
qed

lemma batch_loop_rel:
  assumes "wal_rel L A w" "\<forall>e \<in> set es. payload_fits L e"
    "\<And>j. j < length es \<Longrightarrow> A (start + of_nat (i + j)) = Some (logged L (start + of_nat (i + j)) (es ! j))"
    "\<And>j. j < length es \<Longrightarrow> seg_start_lsn (fw_active w) \<le> start + of_nat (i + j)"
    "seg_mapped (fw_active w) \<or> (\<forall>i. en_write env i = WriteOk)"
    "batch_loop L env es i start lsns w = (w', r)"
  shows "wal_rel L A w' \<and> fw_current_lsn w' = fw_current_lsn w \<and> (\<forall>ls. r = Inr ls \<longrightarrow>
    ls = lsns @ map (\<lambda>j. start + of_nat (i + j)) [0..<length es])"
  using assms
proof (induction es arbitrary: i lsns w)
  case (Cons e es)
  obtain w1 r1 where wi: "write_indexed L (en_write env i) e (start + of_nat i) w = (w1, r1)" by force
  have st: "payload_fits L e" "A (start + of_nat i) = Some (logged L (start + of_nat i) e)"
    "seg_start_lsn (fw_active w) \<le> start + of_nat i" "seg_mapped (fw_active w) \<or> en_write env i = WriteOk"
    using Cons.prems(2) Cons.prems(3) [of 0] Cons.prems(4) [of 0] Cons.prems(5) by auto
  note w1 = write_indexed_rel [OF Cons.prems(1) st wi]
  show ?case
  proof (cases r1)
    case (Inl err)
    then show ?thesis using Cons.prems(6) wi w1 by auto
  next
    case (Inr n)
    have shift: "start + of_nat (i + 1 + j) = start + of_nat (i + Suc j)" for j by simp
    have "A (start + of_nat (i + 1 + j)) = Some (logged L (start + of_nat (i + 1 + j)) (es ! j))" if "j < length es" for j
      using Cons.prems(3) [of "Suc j"] that unfolding shift by simp
    moreover have "seg_start_lsn (fw_active w1) \<le> start + of_nat (i + 1 + j)" if "j < length es" for j
      using Cons.prems(4) [of "Suc j"] that w1(6) unfolding shift by simp
    ultimately have "wal_rel L A w' \<and> fw_current_lsn w' = fw_current_lsn w1 \<and> (\<forall>ls. r = Inr ls \<longrightarrow>
        ls = (lsns @ [start + of_nat i]) @ map (\<lambda>j. start + of_nat (i + 1 + j)) [0..<length es])"
      using Cons.prems(2,5,6) wi Inr w1(1,7) by (intro Cons.IH) simp_all
    moreover have "map (\<lambda>j. start + of_nat (i + j)) [0..<length (e # es)] =
        (start + of_nat i) # map (\<lambda>j. start + of_nat (i + 1 + j)) [0..<length es]"
      unfolding shift by (simp add: map_upt_Suc del: upt_Suc)
    ultimately show ?thesis using w1(2) by simp
  qed
qed auto

lemma append_rel:
  assumes rel: "wal_rel L A w" and g: "wal_guard L (WAppend env e) w" and ap: "wal_append L env e w = (w', r)"
  shows "wal_rel L (wal_spec L (WAppend env e) w A) w' \<and> (\<forall>l. r = Inr l \<longrightarrow>
    l = fw_current_lsn w \<and> fw_current_lsn w' = l + 1 \<and> wal_spec L (WAppend env e) w A l = Some (logged L l e) \<and>
    (\<exists>loc. fw_index w' l = Some loc \<and> loc_segment loc = seg_id (fw_active w) \<and> loc_offset loc = seg_position (fw_active w)) \<and>
    (fw_segments w' = fw_segments w \<or> bt_get (fw_segments w') (seg_id (fw_active w)) \<noteq> None))"
proof (cases "ensure_sufficient_disk_space env (length (fst (wal_to_bytes L e))) (fw_config w)")
  case (Inl err)
  then have "w' = w" "r = Inl err" using ap by (simp_all add: wal_append_def split_beta)
  then show ?thesis using Inl rel by simp
next
  case (Inr u)
  let ?l = "fw_current_lsn w" and ?A = "assign L (fw_current_lsn w) [e] A" and ?e = "snd (wal_to_bytes L e)"
  have spec: "wal_spec L (WAppend env e) w A = ?A" using Inr by simp
  have room: "unat ?l + 1 < 2 ^ 64" "unat (seg_id (fw_active w)) + 1 < 2 ^ 64" using g by (auto simp: room_def)
  have same: "logged L ?l ?e = logged L ?l e" by (simp add: logged_def to_bytes_again)
  have nth: "?A ?l = Some (logged L ?l e)" using assign_nth [of ?l "[e]" 0 L A] room by simp
  let ?w0 = "w\<lparr>fw_current_lsn := ?l + 1\<rparr>"
  have w0: "wal_rel L ?A ?w0" using assign_rel [OF rel, of "[e]"] room by simp
  obtain w1 r1 where wi: "write_indexed L (en_write env 0) ?e ?l ?w0 = (w1, r1)" by force
  have "payload_fits L ?e" using g by (simp add: payload_fits_def wal_to_bytes_snd)
  moreover have "seg_start_lsn (fw_active ?w0) \<le> ?l" using wal_relD(1) [OF rel] by (simp add: active_ok_def)
  ultimately have w1: "wal_rel L ?A w1" "fw_current_lsn w1 = ?l + 1" "fw_segments w1 = fw_segments w"
      "seg_id (fw_active w1) = seg_id (fw_active w)"
      "\<And>n. r1 = Inr n \<Longrightarrow> \<exists>loc. fw_index w1 ?l = Some loc \<and> loc_segment loc = seg_id (fw_active w) \<and>
         loc_offset loc = seg_position (fw_active w)"
    using write_indexed_rel [OF w0 _ _ _ _ wi] g nth same by simp_all
  obtain w2 r2 where sy: "sync_if_required env w1 = (w2, r2)" by force
  then obtain seg where w2_def: "w2 = w1\<lparr>fw_active := seg\<rparr>" and place: "same_place seg (fw_active w1)"
    using sync_if_required_place [of env w1] by auto
  have w2: "wal_rel L ?A w2" unfolding w2_def by (rule wal_rel_active [OF w1(1) place])
  have frame2: "seg_id (fw_active w2) = seg_id (fw_active w)" "fw_current_lsn w2 = ?l + 1" "fw_index w2 = fw_index w1"
    "fw_segments w2 = fw_segments w"
    using place w1(2,3,4) by (simp_all add: same_place_def w2_def)
  obtain w3 r3 where rot: "rotate_internal env w2 = (w3, r3)" by force
  have w3: "wal_rel L ?A w3" "fw_current_lsn w3 = ?l + 1" "fw_index w3 = fw_index w1"
      "r3 = Inr () \<Longrightarrow> bt_get (fw_segments w3) (seg_id (fw_active w)) \<noteq> None"
    using rotate_rel [OF w2 _ rot] room frame2 by simp_all
  have "wal_append L env e w = (case r1 of Inl x \<Rightarrow> (w1, Inl x) | Inr _ \<Rightarrow>
      (case r2 of Inl x \<Rightarrow> (w2, Inl x) | Inr _ \<Rightarrow>
         if should_rotate env w2 then (case r3 of Inl x \<Rightarrow> (w3, Inl x) | Inr _ \<Rightarrow> (w3, Inr ?l)) else (w2, Inr ?l)))"
    by (simp add: wal_append_def split_beta Inr wi Let_def sy rot split: sum.split)
  then show ?thesis
    using ap w1 w2 w3 frame2 unfolding spec by (auto simp: nth split: sum.splits if_splits)
qed

lemma batch_rel:
  assumes rel: "wal_rel L A w" and g: "wal_guard L (WAppendBatch env es) w"
    and ap: "wal_append_batch L env es w = (w', r)"
  shows "wal_rel L (wal_spec L (WAppendBatch env es) w A) w' \<and> (\<forall>ls. r = Inr ls \<longrightarrow>
    ls = map (\<lambda>j. fw_current_lsn w + of_nat j) [0..<length es] \<and> fw_current_lsn w' = fw_current_lsn w + of_nat (length es))"
proof (cases "ensure_sufficient_disk_space env (sum_list (map (\<lambda>e. length (fst (wal_to_bytes L e))) es)) (fw_config w)")
  case (Inl err)
  then have "w' = w" "r = Inl err" using ap by (simp_all add: wal_append_batch_def)
  then show ?thesis using Inl rel by simp
next
  case (Inr u)
  let ?s = "fw_current_lsn w" and ?A = "assign L (fw_current_lsn w) es A"
  have room: "unat ?s + length es < 2 ^ 64" using g by (auto simp: room_def)
  have spec: "wal_spec L (WAppendBatch env es) w A = ?A" using Inr by simp
  let ?w0 = "w\<lparr>fw_current_lsn := ?s + of_nat (length es)\<rparr>"
  obtain w1 r1 where bl: "batch_loop L env es 0 ?s [] ?w0 = (w1, r1)" by force
  have "seg_start_lsn (fw_active ?w0) \<le> ?s + of_nat j" if "j < length es" for j
  proof -
    have "?s \<le> ?s + of_nat j" using room that lsn_advance [of ?s j] by (simp add: word_le_nat_alt)
    then show ?thesis using wal_relD(1) [OF rel] by (auto simp: active_ok_def)
  qed
  then have w1: "wal_rel L ?A w1 \<and> fw_current_lsn w1 = fw_current_lsn ?w0 \<and> (\<forall>ls. r1 = Inr ls \<longrightarrow>
      ls = [] @ map (\<lambda>j. ?s + of_nat (0 + j)) [0..<length es])"
    using g assign_nth [OF room] by (intro batch_loop_rel [OF assign_rel [OF rel room] _ _ _ _ bl]) simp_all
  have sync: "wal_rel L ?A (w1\<lparr>fw_active := fst (segment_sync m err (fw_active w1))\<rparr>)" for m err
    using wal_rel_active [OF conjunct1 [OF w1] same_place_sync] .
  show ?thesis
    using ap bl w1 sync Inr unfolding spec wal_append_batch_def
    by (auto simp: Let_def split: sum.splits if_splits prod.splits) (metis fst_conv)+
qed

lemma wal_exec_rel:
  assumes "wal_rel L A w" "wal_guard L c w"
  shows "wal_rel L (wal_spec L c w A) (wal_exec L c w)"
proof (cases c)
  case (WAppend env e)
  then show ?thesis using append_rel [OF assms(1), of env e] assms(2)
    by (cases "wal_append L env e w") fastforce
next
  case (WAppendBatch env es)
  then show ?thesis using batch_rel [OF assms(1), of env es] assms(2)
    by (cases "wal_append_batch L env es w") fastforce
next
  case (WSync env)
  then show ?thesis using wal_rel_active [OF assms(1) same_place_sync] by (simp add: wal_sync_def split_beta)
next
  case (WCommit l)
  then show ?thesis using wal_rel_frame [OF assms(1), of "wal_commit l w"] by (simp add: wal_commit_def)
next
  case (WCommitBatch ls)
  have "wal_rel L A (wal_commit_batch ls w)" by (rule wal_rel_frame [OF assms(1)]) (auto simp: wal_commit_batch_def split: if_splits)
  then show ?thesis using WCommitBatch by simp
next
  case (WTruncate l)
  have "wal_rel L A (wal_truncate l w)"
    by (rule wal_rel_frame [OF assms(1)]) (simp_all add: wal_truncate_def split: if_splits)
  then show ?thesis using WTruncate by simp
next
  case WCompactionTick
  then show ?thesis using compaction_rel [OF assms(1)] by simp
next
  case (WClose env)
  have "wal_rel L A (w\<lparr>fw_shutdown := True\<rparr>)" by (rule wal_rel_frame [OF assms(1)]) simp_all
  then show ?thesis using WClose wal_rel_active [OF _ same_place_sync] by (fastforce simp: wal_close_def wal_sync_def split_beta)
qed

interpretation fw: guarded_simulation "wal_rel L" "wal_guard L" "wal_exec L" "wal_spec L" for L
  by unfold_locales (rule wal_exec_rel)

lemma file_wal_new_rel:
  assumes "file_wal_new cfg env disk = (disk', Inr w)"
  shows "wal_rel L (\<lambda>_. None) w"
proof -
  obtain d seg where c: "create_segment cfg env 0 lsn_zero disk = (d, Inr seg)"
    and w: "w = \<lparr>fw_config = cfg, fw_active = seg, fw_segments = [], fw_current_lsn = 0, fw_committed_lsn = 0,
             fw_index = (\<lambda>_. None), fw_disk = d, fw_archive = (\<lambda>_. None), fw_shutdown = False\<rparr>"
    using assms by (auto simp: file_wal_new_def split: prod.splits sum.splits)
  show ?thesis
    using create_segment_cases(2) [OF c refl]
    by (auto simp: w wal_rel_def active_ok_def segments_ok_def lsn_zero_def)
qed

lemma wal_read_rel:
  assumes L: "wal_lib_ok L" and rel: "wal_rel L A w"
  shows "case wal_read L l w of Inr e \<Rightarrow> A l = Some e | Inl err \<Rightarrow> err = WInvalidLsn l"
    "fw_index w l = Some loc \<Longrightarrow> A l = Some e \<Longrightarrow> bt_get (fw_segments w) (loc_segment loc) \<noteq> None \<Longrightarrow> wal_read L l w = Inr e"
proof -
  have main: "wal_read L l w = Inr x \<and> A l = Some x" if idx: "fw_index w l = Some loc"
    and info: "bt_get (fw_segments w) (loc_segment loc) = Some info" and x: "A l = Some x" for loc info x
  proof -
    obtain e where e: "A l = Some (logged L l e)" "payload_fits L e" "bytes_at (fw_disk w) loc (entry_bytes L l e)"
      using wal_relD(5) [OF rel idx] by blast
    then obtain d where d: "fw_disk w (loc_segment loc) = Some d" by (auto simp: bytes_at_def)
    have "si_id info = loc_segment loc" using wal_relD(2) [OF rel] info by (simp add: segments_ok_def)
    then show ?thesis
      using bytes_at_read [OF L e(2,3) d] e(1) d idx info x by (simp add: wal_read_def)
  qed
  show "case wal_read L l w of Inr e \<Rightarrow> A l = Some e | Inl err \<Rightarrow> err = WInvalidLsn l"
  proof (cases "\<exists>loc info. fw_index w l = Some loc \<and> bt_get (fw_segments w) (loc_segment loc) = Some info")
    case True
    then obtain loc info where idx: "fw_index w l = Some loc" "bt_get (fw_segments w) (loc_segment loc) = Some info" by blast
    then obtain e where "A l = Some (logged L l e)" using wal_relD(5) [OF rel] by blast
    then show ?thesis using main [OF idx] by simp
  next
    case False
    then have "wal_read L l w = Inl (WInvalidLsn l)" by (auto simp: wal_read_def split: option.split)
    then show ?thesis by simp
  qed
  show "fw_index w l = Some loc \<Longrightarrow> A l = Some e \<Longrightarrow> bt_get (fw_segments w) (loc_segment loc) \<noteq> None \<Longrightarrow> wal_read L l w = Inr e"
    using main by blast
qed

lemma wal_read_iff:
  assumes "wal_lib_ok L" "wal_rel L A w"
  shows "is_ok (wal_read L l w) \<longleftrightarrow>
    (\<exists>loc. fw_index w l = Some loc \<and> bt_get (fw_segments w) (loc_segment loc) \<noteq> None)"
proof
  assume "is_ok (wal_read L l w)"
  then show "\<exists>loc. fw_index w l = Some loc \<and> bt_get (fw_segments w) (loc_segment loc) \<noteq> None"
    by (auto simp: wal_read_def split: option.splits)
next
  assume "\<exists>loc. fw_index w l = Some loc \<and> bt_get (fw_segments w) (loc_segment loc) \<noteq> None"
  then obtain loc where loc: "fw_index w l = Some loc" "bt_get (fw_segments w) (loc_segment loc) \<noteq> None" by blast
  then obtain e where "A l = Some e" using wal_relD(5) [OF assms(2) loc(1)] by blast
  then show "is_ok (wal_read L l w)" using wal_read_rel(2) [OF assms loc(1) _ loc(2)] by (simp add: is_ok_conv)
qed

lemma scan_loop_ok:
  assumes "wal_lib_ok L" "wal_rel L A w"
  shows "\<exists>es. scan_loop L ls w = Inr es \<and> set es \<subseteq> {e. \<exists>l \<in> set ls. A l = Some e}"
proof (induction ls)
  case (Cons l ls)
  then obtain es where es: "scan_loop L ls w = Inr es" "set es \<subseteq> {e. \<exists>l \<in> set ls. A l = Some e}" by blast
  show ?case
    using wal_read_rel(1) [OF assms, of l] es by (cases "wal_read L l w") auto
qed simp

section \<open>Properties\<close>

definition wal_log :: "'ev wal_lib \<Rightarrow> 'ev wal_command list \<Rightarrow> 'ev file_wal \<Rightarrow> lsn \<Rightarrow> 'ev wal_entry option" where
  "wal_log L cs w = spec_run (wal_spec L) (wal_exec L) cs w (\<lambda>_. None)"

text \<open>
  C15. Reads never lie. Open a log on any directory and run any appends, batches, syncs, commits,
  truncations, rotations and compactions, with failures of the system calls in between, under the
  conditions that the serialized parts of an entry can be read back, that payloads stay below 4 GiB, that the sequence numbers and segment ids do not overflow,
  and that no write of an append fails while the active segment is not memory-mapped (a failed or cut
  write there moves the file's cursor away from the recorded position, and later entries are then
  looked up in the wrong place); syncs, rotations, disk-space checks and writes to a mapped segment
  may fail.  Then reading a sequence number returns exactly the entry that was handed out that
  number, or says that there is none; it returns an entry for exactly the numbers that the index
  places in a closed segment; it never reports corruption, and a scan of any range succeeds.
\<close>

theorem wal_reads_what_was_appended:
  assumes "wal_lib_ok L" "file_wal_new cfg env disk = (disk', Inr w0)" "guarded_run (wal_guard L) (wal_exec L) cs w0"
  shows "(\<forall>l. case wal_read L l (fold (wal_exec L) cs w0) of
      Inr e \<Rightarrow> wal_log L cs w0 l = Some e
    | Inl err \<Rightarrow> err = WInvalidLsn l) \<and>
    (\<forall>l. is_ok (wal_read L l (fold (wal_exec L) cs w0)) \<longleftrightarrow>
      (\<exists>loc. fw_index (fold (wal_exec L) cs w0) l = Some loc \<and>
         bt_get (fw_segments (fold (wal_exec L) cs w0)) (loc_segment loc) \<noteq> None)) \<and>
    (\<forall>a b. is_ok (wal_scan L a b (fold (wal_exec L) cs w0)))"
proof -
  let ?w = "fold (wal_exec L) cs w0"
  have rel: "wal_rel L (wal_log L cs w0) ?w"
    unfolding wal_log_def by (rule fw.run_related [OF file_wal_new_rel [OF assms(2)] assms(3)])
  have "is_ok (wal_scan L a b ?w)" for a b
    using scan_loop_ok [OF assms(1) rel] by (auto simp: wal_scan_def is_ok_conv)
  then show ?thesis using wal_read_rel(1) [OF assms(1) rel] wal_read_iff [OF assms(1) rel] by blast
qed

text \<open>
  An appended entry becomes readable by rotation. In any reachable state, a successful append returns
  the next sequence number, which no earlier entry has, and moves the counter by one; when the append
  rotates the segment, reading the number returns the entry, and otherwise it is reported as invalid, as
  every entry of the active segment is.
\<close>

lemma append_readable_after_rotation:
  assumes "wal_lib_ok L" "file_wal_new cfg env0 disk = (disk', Inr w0)"
    "guarded_run (wal_guard L) (wal_exec L) (cs @ [WAppend env e]) w0"
    "wal_append L env e (fold (wal_exec L) cs w0) = (w', Inr l)"
  shows "l = tail_lsn (fold (wal_exec L) cs w0) \<and> wal_log L cs w0 l = None \<and> tail_lsn w' = l + 1 \<and>
    wal_read L l w' = (if fw_segments w' = fw_segments (fold (wal_exec L) cs w0)
      then Inl (WInvalidLsn l) else Inr (logged L l e))"
proof -
  let ?w = "fold (wal_exec L) cs w0"
  have run: "guarded_run (wal_guard L) (wal_exec L) cs w0" "wal_guard L (WAppend env e) ?w"
    using assms(3) guarded_run_append [of "wal_guard L" "wal_exec L" cs "[WAppend env e]" w0] by simp_all
  have rel: "wal_rel L (wal_log L cs w0) ?w"
    unfolding wal_log_def by (rule fw.run_related [OF file_wal_new_rel [OF assms(2)] run(1)])
  note ap = append_rel [OF rel run(2) assms(4)]
  let ?A = "wal_spec L (WAppend env e) ?w (wal_log L cs w0)"
  have rel': "wal_rel L ?A w'" and l: "l = fw_current_lsn ?w" "fw_current_lsn w' = l + 1" "?A l = Some (logged L l e)"
    using ap by blast+
  obtain loc where loc: "fw_index w' l = Some loc" "loc_segment loc = seg_id (fw_active ?w)"
    and rot: "fw_segments w' = fw_segments ?w \<or> bt_get (fw_segments w') (seg_id (fw_active ?w)) \<noteq> None"
    using ap by blast
  have none: "bt_get (fw_segments ?w) (seg_id (fw_active ?w)) = None"
    using wal_relD(2) [OF rel] by (cases "bt_get (fw_segments ?w) (seg_id (fw_active ?w))") (auto simp: segments_ok_def)
  have "wal_log L cs w0 l = None"
    using wal_relD(3) [OF rel, of l] l(1) by (cases "wal_log L cs w0 l") auto
  moreover have "wal_read L l w' = Inl (WInvalidLsn l)" if "fw_segments w' = fw_segments ?w"
    using that loc none by (simp add: wal_read_def)
  moreover have "wal_read L l w' = Inr (logged L l e)" if "fw_segments w' \<noteq> fw_segments ?w"
    using wal_read_rel(2) [OF assms(1) rel' loc(1) l(3)] loc(2) rot that by simp
  ultimately show ?thesis using l by (simp add: tail_lsn_def)
qed

text \<open>
  Opening an existing log forgets and overwrites it. Whatever files the directory holds, a new log
  starts at sequence number zero at the beginning of the first file with an empty index, so every earlier
  entry is reported as invalid; the first entry appended replaces the bytes at the beginning of that file.
\<close>

lemma reopen_overwrites_log:
  assumes "file_wal_new cfg env0 disk = (disk', Inr w)" "wal_guard L (WAppend env e) w"
    "wal_append L env e w = (w', Inr l)"
  shows "(\<forall>k. wal_read L k w = Inl (WInvalidLsn k)) \<and> l = 0 \<and>
    (\<exists>d. fw_disk w' 0 = Some d \<and> take (length (entry_bytes L 0 e)) d = entry_bytes L 0 e)"
proof -
  have new: "fw_index w = (\<lambda>_. None)" "fw_current_lsn w = 0" "seg_id (fw_active w) = 0" "seg_position (fw_active w) = 0"
    using assms(1) by (auto simp: file_wal_new_def create_segment_def Let_def split: prod.splits sum.splits option.splits)
  let ?A = "wal_spec L (WAppend env e) w (\<lambda>_. None)"
  note ap = append_rel [OF file_wal_new_rel [OF assms(1)] assms(2,3)]
  obtain loc where loc: "fw_index w' l = Some loc" "loc_segment loc = 0" "loc_offset loc = 0"
    using ap new by auto
  have rel': "wal_rel L ?A w'" and l': "l = fw_current_lsn w" "?A l = Some (logged L l e)" using ap by blast+
  then have l: "l = 0" "?A l = Some (logged L l e)" using new(2) by auto
  obtain e' where e': "?A l = Some (logged L l e')" "bytes_at (fw_disk w') loc (entry_bytes L l e')"
    using wal_relD(5) [OF rel' loc(1)] by blast
  have "entry_bytes L l e' = entry_bytes L l e"
    using e'(1) l(2) entry_bytes_logged [of L l e] entry_bytes_logged [of L l e'] by simp
  then show ?thesis using e'(2) loc l(1) new(1) by (auto simp: bytes_at_def wal_read_def)
qed

section \<open>Witnesses\<close>

definition demo_wal_config :: wal_config where
  "demo_wal_config = \<lparr>wc_max_file_size = 100, wc_preallocate = True, wc_direct_io = False, wc_min_free_disk_space = 0,
     wc_fsync_mode = BatchSync, wc_rotation_policy = RotEntryCount 1, wc_compaction_enabled = True, wc_min_segments = 2,
     wc_archive_before_compact = True\<rparr>"

definition demo_env :: wal_env where
  "demo_env = \<lparr>en_available = Inr 0, en_write = (\<lambda>_. WriteOk), en_sync = None, en_rotate_sync = None, en_create = None,
     en_now = 0\<rparr>"

definition demo_segment :: "string segment" where
  "demo_segment = \<lparr>seg_id = 0, seg_mapped = True, seg_cursor = 0, seg_position = 0, seg_size = 100, seg_start_lsn = 0,
     seg_end_lsn = None, seg_created_at = 0, seg_entries = [], seg_dirty = False\<rparr>"

definition demo_wal :: "string file_wal" where
  "demo_wal = \<lparr>fw_config = demo_wal_config, fw_active = demo_segment, fw_segments = [], fw_current_lsn = 0, fw_committed_lsn = 0,
     fw_index = (\<lambda>_. None), fw_disk = [0 \<mapsto> replicate 100 0], fw_archive = (\<lambda>_. None), fw_shutdown = False\<rparr>"

lemma demo_wal_new: "file_wal_new demo_wal_config demo_env (\<lambda>_. None) = ([0 \<mapsto> replicate 100 0], Inr demo_wal)"
  by (simp add: file_wal_new_def create_segment_def demo_wal_def demo_segment_def demo_wal_config_def demo_env_def set_len_def
      lsn_zero_def Let_def)

lemma demo_guard: "wal_guard demo_wal_lib (WAppend demo_env demo_wal_entry) demo_wal"
  by (simp add: demo_fits room_def demo_wal_def demo_segment_def)

lemma demo_length: "length (entry_bytes demo_wal_lib l demo_wal_entry) = 73"
  using demo_payload_length
  by (simp add: entry_bytes_def wal_to_bytes_length [OF demo_wal_lib_ok] header_size_def tx_bytes_def demo_wal_entry_def
      wal_entry_new_def)

lemma demo_append:
  "\<exists>w'. wal_append demo_wal_lib demo_env demo_wal_entry demo_wal = (w', Inr 0) \<and> fw_segments w' \<noteq> []"
proof -
  let ?e = "snd (wal_to_bytes demo_wal_lib demo_wal_entry)"
  let ?w0 = "demo_wal\<lparr>fw_current_lsn := 1\<rparr>"
  have len: "length (fst (wal_to_bytes demo_wal_lib (stamp 0 ?e))) = 73"
    using demo_length [of 0] by (simp add: entry_bytes_def to_bytes_again)
  obtain w1 where wi: "write_indexed demo_wal_lib WriteOk ?e 0 ?w0 = (w1, Inr 73)"
    "fw_config w1 = demo_wal_config" "length (seg_entries (fw_active w1)) = 1" "fw_segments w1 = []"
    using len by (auto simp: write_indexed_def write_entry_to_segment_def demo_wal_def demo_segment_def Let_def split_beta)
  have sy: "sync_if_required demo_env w1 = (w1, Inr ())" by (simp add: sync_if_required_def wi(2) demo_wal_config_def)
  have rot: "should_rotate demo_env w1" by (simp add: should_rotate_def wi(2,3) demo_wal_config_def Let_def)
  have "\<exists>w3. rotate_internal demo_env w1 = (w3, Inr ()) \<and> fw_segments w3 \<noteq> []"
    by (simp add: rotate_internal_def create_segment_def demo_env_def Let_def segment_sync_def wi(4))
  moreover have "fw_current_lsn demo_wal = 0" "en_write demo_env 0 = WriteOk"
    "ensure_sufficient_disk_space demo_env n (fw_config demo_wal) = Inr ()" for n
    by (simp_all add: demo_wal_def demo_env_def ensure_sufficient_disk_space_def demo_wal_config_def)
  ultimately show ?thesis using wi(1) sy rot by (auto simp: wal_append_def split_beta Let_def)
qed

lemma demo_run_guarded:
  "guarded_run (wal_guard demo_wal_lib) (wal_exec demo_wal_lib) ([] @ [WAppend demo_env demo_wal_entry]) demo_wal"
  using demo_guard by simp

theorem wal_reads_what_was_appended_witness:
  "\<forall>l. case wal_read demo_wal_lib l (fold (wal_exec demo_wal_lib) ([] @ [WAppend demo_env demo_wal_entry]) demo_wal) of
      Inr e \<Rightarrow> wal_log demo_wal_lib ([] @ [WAppend demo_env demo_wal_entry]) demo_wal l = Some e
    | Inl err \<Rightarrow> err = WInvalidLsn l"
  using wal_reads_what_was_appended [OF demo_wal_lib_ok demo_wal_new demo_run_guarded] by blast

lemma append_readable_after_rotation_witness:
  "\<exists>w'. wal_append demo_wal_lib demo_env demo_wal_entry demo_wal = (w', Inr 0) \<and>
     wal_read demo_wal_lib 0 w' = Inr (logged demo_wal_lib 0 demo_wal_entry)"
proof -
  obtain w' where w': "wal_append demo_wal_lib demo_env demo_wal_entry demo_wal = (w', Inr 0)" "fw_segments w' \<noteq> []"
    using demo_append by blast
  moreover have "fw_segments demo_wal = []" by (simp add: demo_wal_def)
  ultimately show ?thesis
    using append_readable_after_rotation [OF demo_wal_lib_ok demo_wal_new demo_run_guarded, of w' 0] by simp
qed

lemma reopen_overwrites_log_witness:
  "\<exists>w' d. wal_append demo_wal_lib demo_env demo_wal_entry demo_wal = (w', Inr 0) \<and> fw_disk w' 0 = Some d \<and>
     take 73 d = entry_bytes demo_wal_lib 0 demo_wal_entry"
proof -
  obtain w' where w': "wal_append demo_wal_lib demo_env demo_wal_entry demo_wal = (w', Inr 0)" using demo_append by blast
  then show ?thesis using reopen_overwrites_log [OF demo_wal_new demo_guard w'] demo_length [of 0] by auto
qed

end
