(* ===== verification/WalRecovery.thy ===== *)
theory WalRecovery
  imports FileWal "HOL-Library.AList"
begin

text \<open>
  Model of \<^verbatim>\<open>arcxa-coordinator/src/storage/wal/recovery.rs\<close>: finding the segment files of a log directory,
  reading, validating and repairing their entries, and deciding about the transactions in them. The
  directory is a list of file names with their bytes, in the order in which it is listed; files that exist
  can be opened and read. Times and log messages are not modelled.
\<close>

section \<open>Results\<close>

datatype corruption_tolerance = FailOnCorruption | SkipCorrupted | AttemptRepair | TruncateAtCorruption

datatype tx_recovery_status = RActive | RPrepared | RCommitted | RAborted

datatype recovery_decision = DCommit | DAbort | DReplay | DSkip

record transaction_recovery =
  tr_tx_id :: u64
  tr_status :: tx_recovery_status
  tr_entries :: "lsn list"
  tr_decision :: recovery_decision

record segment_file =
  sf_path :: string
  sf_id :: u64
  sf_size :: nat

record 'ev recovery_result =
  rr_recovered_entries :: "'ev wal_entry list"
  rr_last_valid_lsn :: lsn
  rr_corrupted_entries :: "(lsn \<times> wal_error) list"

record validation_report =
  vd_valid_segments :: nat
  vd_corrupted_segments :: "string list"
  vd_total_entries :: nat
  vd_valid_entries :: nat
  vd_checksum_failures :: "lsn list"

record repair_report =
  rp_repaired_segments :: "string list"
  rp_unrecoverable_segments :: "string list"
  rp_data_loss :: bool
  rp_recovered_bytes :: nat

record 'ev recovery_report =
  rc_result :: "'ev recovery_result"
  rc_validation :: validation_report
  rc_repair :: "repair_report option"
  rc_checkpoint_restored :: "lsn option"
  rc_transactions_recovered :: "transaction_recovery list"

type_synonym directory = "(string \<times> bytes) list"

section \<open>Segment files\<close>

text \<open>\<^verbatim>\<open>u64::from_str_radix(s, 10)\<close> on eight characters: digits, after an optional plus sign.\<close>

definition parse_u64 :: "string \<Rightarrow> u64 option" where
  "parse_u64 s =
     (let ds = (case s of c # cs \<Rightarrow> if c = CHR ''+'' then cs else s | [] \<Rightarrow> []) in
      if ds \<noteq> [] \<and> digits_only ds then Some (of_nat (read_digits ds)) else None)"

definition ends_with :: "string \<Rightarrow> string \<Rightarrow> bool" where
  "ends_with p s \<longleftrightarrow> length p \<le> length s \<and> drop (length s - length p) s = p"

text \<open>Slicing the characters 4 to 12 of a shorter name panics (\<open>None\<close>).\<close>

fun find_segments_loop :: "directory \<Rightarrow> segment_file list option" where
  "find_segments_loop [] = Some []"
| "find_segments_loop ((name, d) # rest) =
     (if starts_with ''wal_'' name \<and> ends_with ''.log'' name then
        (if length name < 12 then None
         else case parse_u64 (take 8 (drop 4 name)) of
           Some i \<Rightarrow> map_option (\<lambda>ss. \<lparr>sf_path = name, sf_id = i, sf_size = length d\<rparr> # ss) (find_segments_loop rest)
         | None \<Rightarrow> find_segments_loop rest)
      else find_segments_loop rest)"

definition find_segments :: "directory \<Rightarrow> segment_file list option" where
  "find_segments dir = map_option (sort_key sf_id) (find_segments_loop dir)"

section \<open>Reading entries\<close>

definition max_entry_size :: u64 where
  "max_entry_size = 1024 * 1024 * 10"

definition read_entry_at :: "'ev wal_lib \<Rightarrow> bytes \<Rightarrow> nat \<Rightarrow> wal_error + 'ev wal_entry option" where
  "read_entry_at L data pos =
     (let rest = drop pos data in
      if length rest < 8 then Inr None
      else let entry_size = u64_from_le (take 8 rest) in
        if entry_size = 0 \<or> entry_size > max_entry_size then Inr None
        else if length rest < unat entry_size then Inl (WIo ''read_exact'')
        else (case wal_from_bytes L (take (unat entry_size) rest) of
                Inr e \<Rightarrow> Inr (Some e)
              | Inl msg \<Rightarrow> Inl (WSerialization msg)))"

definition validate_entry :: "'ev wal_lib \<Rightarrow> 'ev wal_entry \<Rightarrow> bool" where
  "validate_entry L e =
     (let test_entry = e\<lparr>we_header := (we_header e)\<lparr>eh_checksum := 0\<rparr>\<rparr>;
          computed_checksum = wl_crc32 L (fst (wal_to_bytes L test_entry))
      in computed_checksum = eh_checksum (we_header e))"

definition readable_at :: "'ev wal_lib \<Rightarrow> bytes \<Rightarrow> nat \<Rightarrow> bool" where
  "readable_at L data pos \<longleftrightarrow> (case read_entry_at L data pos of Inr (Some _) \<Rightarrow> True | _ \<Rightarrow> False)"

function find_next_loop :: "'ev wal_lib \<Rightarrow> bytes \<Rightarrow> nat \<Rightarrow> nat \<Rightarrow> nat option" where
  "find_next_loop L data pos limit =
     (if pos < limit then (if readable_at L data pos then Some pos else find_next_loop L data (pos + 1) limit) else None)"
  by pat_completeness auto

termination
  by (relation "measure (\<lambda>(_, _, pos, limit). limit - pos)") auto

declare find_next_loop.simps [simp del]

definition max_search :: nat where
  "max_search = 1024 * 1024"

definition find_next_entry :: "'ev wal_lib \<Rightarrow> bytes \<Rightarrow> nat \<Rightarrow> nat option" where
  "find_next_entry L data start = find_next_loop L data (start + 1) (start + max_search)"

lemma find_next_loop_ge: "find_next_loop L data pos limit = Some p \<Longrightarrow> pos \<le> p"
proof (induction L data pos limit rule: find_next_loop.induct)
  case (1 L data pos limit)
  have "(if pos < limit then (if readable_at L data pos then Some pos else find_next_loop L data (pos + 1) limit) else None)
    = Some p"
    using 1(2) by (simp only: find_next_loop.simps [of L data pos limit])
  then show ?case using 1(1) by (auto split: if_splits)
qed

lemma find_next_entry_gt: "find_next_entry L data start = Some p \<Longrightarrow> start < p"
  using find_next_loop_ge [of L data "start + 1" "start + max_search" p] by (simp add: find_next_entry_def)

lemma size_bytes_pos: "0 < size_bytes e"
  by (simp add: size_bytes_def header_size_def)

lemma forward_less: "pos < sz \<Longrightarrow> pos < p \<Longrightarrow> sz - p < sz - (pos :: nat)"
  by arith

lemma past_entry: "pos < pos + size_bytes e"
  using size_bytes_pos [of e] by simp

lemmas scan_forward = forward_less forward_less [OF _ past_entry] forward_less [OF _ find_next_entry_gt]

section \<open>The loops over a segment\<close>

text \<open>The loop of \<^verbatim>\<open>recover\<close> over one segment: the entries, the corrupted ones and the last valid number so far.\<close>

function recover_loop ::
  "'ev wal_lib \<Rightarrow> corruption_tolerance \<Rightarrow> bytes \<Rightarrow> nat \<Rightarrow> nat \<Rightarrow> 'ev recovery_result \<Rightarrow> 'ev recovery_result" where
  "recover_loop L tol data sz pos acc =
     (if pos < sz then
        (case read_entry_at L data pos of
           Inr (Some e) \<Rightarrow>
             if validate_entry L e
             then recover_loop L tol data sz (pos + size_bytes e)
               (acc\<lparr>rr_last_valid_lsn := eh_lsn (we_header e), rr_recovered_entries := rr_recovered_entries acc @ [e]\<rparr>)
             else
               (let acc' = acc\<lparr>rr_corrupted_entries := rr_corrupted_entries acc @ [(eh_lsn (we_header e),
                      WCorruption (eh_lsn (we_header e)) ''Entry validation failed'' True)]\<rparr> in
                if tol = TruncateAtCorruption then acc'
                else recover_loop L tol data sz (pos + size_bytes e) acc')
         | Inr None \<Rightarrow> acc
         | Inl _ \<Rightarrow>
             (case find_next_entry L data pos of
                Some next_pos \<Rightarrow> recover_loop L tol data sz next_pos acc
              | None \<Rightarrow> acc))
      else acc)"
  by pat_completeness auto

termination
  by (relation "measure (\<lambda>(_, _, _, sz, pos, _). sz - pos)") (simp_all add: scan_forward)

declare recover_loop.simps [simp del]

text \<open>The loop of \<^verbatim>\<open>validate\<close>: entries, valid entries, checksum failures, and whether the segment is valid.\<close>

function validate_loop ::
  "'ev wal_lib \<Rightarrow> bytes \<Rightarrow> nat \<Rightarrow> nat \<Rightarrow> validation_report \<times> bool \<Rightarrow> validation_report \<times> bool" where
  "validate_loop L data sz pos acc =
     (if pos < sz then
        (case read_entry_at L data pos of
           Inr (Some e) \<Rightarrow>
             validate_loop L data sz (pos + size_bytes e)
               (let rep = (fst acc)\<lparr>vd_total_entries := vd_total_entries (fst acc) + 1\<rparr> in
                if validate_entry L e then (rep\<lparr>vd_valid_entries := vd_valid_entries rep + 1\<rparr>, snd acc)
                else (rep\<lparr>vd_checksum_failures := vd_checksum_failures rep @ [eh_lsn (we_header e)]\<rparr>, False))
         | Inr None \<Rightarrow> acc
         | Inl _ \<Rightarrow> (fst acc, False))
      else acc)"
  by pat_completeness auto

termination
  by (relation "measure (\<lambda>(_, _, sz, pos, _). sz - pos)") (simp_all add: scan_forward)

declare validate_loop.simps [simp del]

text \<open>The loop of \<^verbatim>\<open>repair_segment\<close>: the bytes written to the repair file so far.\<close>

function repair_loop :: "'ev wal_lib \<Rightarrow> bytes \<Rightarrow> nat \<Rightarrow> nat \<Rightarrow> bytes \<Rightarrow> bytes" where
  "repair_loop L data sz pos out =
     (if pos < sz then
        (case read_entry_at L data pos of
           Inr (Some e) \<Rightarrow>
             if validate_entry L e
             then repair_loop L data sz (pos + size_bytes e) (out @ fst (wal_to_bytes L e))
             else (case find_next_entry L data pos of Some p \<Rightarrow> repair_loop L data sz p out | None \<Rightarrow> out)
         | _ \<Rightarrow> (case find_next_entry L data pos of Some p \<Rightarrow> repair_loop L data sz p out | None \<Rightarrow> out))
      else out)"
  by pat_completeness auto

termination
  by (relation "measure (\<lambda>(_, _, sz, pos, _). sz - pos)") (simp_all add: scan_forward)

declare repair_loop.simps [simp del]

section \<open>The strategy over the segments\<close>

text \<open>The loops of \<^verbatim>\<open>recover\<close>, \<^verbatim>\<open>validate\<close> and \<^verbatim>\<open>repair\<close> over the segments; opening a file that is not there fails.\<close>

fun recover_segments ::
  "'ev wal_lib \<Rightarrow> corruption_tolerance \<Rightarrow> directory \<Rightarrow> segment_file list \<Rightarrow> 'ev recovery_result \<Rightarrow>
   wal_error + 'ev recovery_result" where
  "recover_segments L tol dir [] acc = Inr acc"
| "recover_segments L tol dir (s # ss) acc =
     (case map_of dir (sf_path s) of
        None \<Rightarrow> Inl (WIo ''open'')
      | Some data \<Rightarrow> recover_segments L tol dir ss (recover_loop L tol data (sf_size s) 0 acc))"

definition strategy_recover ::
  "'ev wal_lib \<Rightarrow> corruption_tolerance \<Rightarrow> directory \<Rightarrow> segment_file list \<Rightarrow> wal_error + 'ev recovery_result" where
  "strategy_recover L tol dir ss = recover_segments L tol dir ss
     \<lparr>rr_recovered_entries = [], rr_last_valid_lsn = lsn_zero, rr_corrupted_entries = []\<rparr>"

fun validate_segments ::
  "'ev wal_lib \<Rightarrow> directory \<Rightarrow> segment_file list \<Rightarrow> validation_report \<Rightarrow> wal_error + validation_report" where
  "validate_segments L dir [] rep = Inr rep"
| "validate_segments L dir (s # ss) rep =
     (case map_of dir (sf_path s) of
        None \<Rightarrow> Inl (WIo ''open'')
      | Some data \<Rightarrow>
          (case validate_loop L data (sf_size s) 0 (rep, True) of (rep', segment_valid) \<Rightarrow>
             validate_segments L dir ss
               (if segment_valid then rep'\<lparr>vd_valid_segments := vd_valid_segments rep' + 1\<rparr>
                else rep'\<lparr>vd_corrupted_segments := vd_corrupted_segments rep' @ [sf_path s]\<rparr>)))"

definition strategy_validate :: "'ev wal_lib \<Rightarrow> directory \<Rightarrow> segment_file list \<Rightarrow> wal_error + validation_report" where
  "strategy_validate L dir ss = validate_segments L dir ss
     \<lparr>vd_valid_segments = 0, vd_corrupted_segments = [], vd_total_entries = 0, vd_valid_entries = 0,
      vd_checksum_failures = []\<rparr>"

text \<open>
  Repairing one segment can fail (its file cannot be opened, or the repair file cannot be created, written
  or synced), or the rename of the repair file over the segment can.
\<close>

datatype repair_io = RepairOk | RepairFails | RenameFails

definition with_extension_repair :: "string \<Rightarrow> string" where
  "with_extension_repair p = take (length p - 4) p @ ''.repair''"

definition repair_segment :: "'ev wal_lib \<Rightarrow> repair_io \<Rightarrow> directory \<Rightarrow> segment_file \<Rightarrow> wal_error + bytes" where
  "repair_segment L io dir s =
     (case map_of dir (sf_path s) of
        None \<Rightarrow> Inl (WIo ''open'')
      | Some data \<Rightarrow> if io = RepairFails then Inl (WIo ''repair'') else Inr (repair_loop L data (sf_size s) 0 []))"

fun repair_segments ::
  "'ev wal_lib \<Rightarrow> (string \<Rightarrow> repair_io) \<Rightarrow> segment_file list \<Rightarrow> directory \<Rightarrow> repair_report \<Rightarrow>
   directory \<times> (wal_error + repair_report)" where
  "repair_segments L io [] dir rep = (dir, Inr rep)"
| "repair_segments L io (s # ss) dir rep =
     (let repair_path = with_extension_repair (sf_path s) in
      case repair_segment L (io (sf_path s)) dir s of
        Inr out \<Rightarrow>
          if io (sf_path s) = RenameFails then (AList.update repair_path out dir, Inl (WIo ''rename''))
          else repair_segments L io ss (AList.update (sf_path s) out (AList.delete repair_path dir))
            (rep\<lparr>rp_repaired_segments := rp_repaired_segments rep @ [sf_path s],
                 rp_recovered_bytes := rp_recovered_bytes rep + length out\<rparr>)
      | Inl _ \<Rightarrow>
          repair_segments L io ss (AList.delete repair_path dir)
            (rep\<lparr>rp_unrecoverable_segments := rp_unrecoverable_segments rep @ [sf_path s], rp_data_loss := True\<rparr>))"

definition strategy_repair ::
  "'ev wal_lib \<Rightarrow> (string \<Rightarrow> repair_io) \<Rightarrow> segment_file list \<Rightarrow> directory \<Rightarrow> directory \<times> (wal_error + repair_report)" where
  "strategy_repair L io ss dir = repair_segments L io ss dir
     \<lparr>rp_repaired_segments = [], rp_unrecoverable_segments = [], rp_data_loss = False, rp_recovered_bytes = 0\<rparr>"

section \<open>Checkpoints and transactions\<close>

definition find_last_checkpoint :: "'ev wal_entry list \<Rightarrow> lsn option" where
  "find_last_checkpoint es =
     map_option (\<lambda>e. eh_lsn (we_header e)) (find (\<lambda>e. eh_entry_type (we_header e) = Checkpoint) (rev es))"

type_synonym tx_table = "(u64 \<times> transaction_recovery) list"

definition tx_modify :: "u64 \<Rightarrow> (transaction_recovery \<Rightarrow> transaction_recovery) \<Rightarrow> tx_table \<Rightarrow> tx_table" where
  "tx_modify t f tab = (case map_of tab t of None \<Rightarrow> tab | Some r \<Rightarrow> AList.update t (f r) tab)"

text \<open>The match on the operation of a transaction entry: the table, the committed and the aborted identifiers.\<close>

definition tx_op_step :: "transaction_op \<Rightarrow> tx_table \<times> u64 set \<times> u64 set \<Rightarrow> tx_table \<times> u64 set \<times> u64 set" where
  "tx_op_step op st = (case st of (tab, committed, aborted) \<Rightarrow>
     (case op of
        TxBegin t _ \<Rightarrow>
          (AList.update t \<lparr>tr_tx_id = t, tr_status = RActive, tr_entries = [], tr_decision = DAbort\<rparr> tab, committed, aborted)
      | TxPrepare t _ \<Rightarrow> (tx_modify t (\<lambda>r. r\<lparr>tr_status := RPrepared\<rparr>) tab, committed, aborted)
      | TxCommit t _ \<Rightarrow>
          (tx_modify t (\<lambda>r. r\<lparr>tr_status := RCommitted, tr_decision := DSkip\<rparr>) tab, insert t committed, aborted)
      | TxAbort t _ \<Rightarrow>
          (tx_modify t (\<lambda>r. r\<lparr>tr_status := RAborted, tr_decision := DSkip\<rparr>) tab, committed, insert t aborted)))"

definition tx_op_of :: "'ev wal_entry \<Rightarrow> transaction_op option" where
  "tx_op_of e = (case we_payload e of PTransaction op \<Rightarrow> Some op | _ \<Rightarrow> None)"

definition tx_entry_step :: "'ev wal_entry \<Rightarrow> tx_table \<times> u64 set \<times> u64 set \<Rightarrow> tx_table \<times> u64 set \<times> u64 set" where
  "tx_entry_step e st =
     (case (case tx_op_of e of None \<Rightarrow> st | Some op \<Rightarrow> tx_op_step op st) of (tab, committed, aborted) \<Rightarrow>
        (case we_transaction e of
           None \<Rightarrow> (tab, committed, aborted)
         | Some c \<Rightarrow>
             (tx_modify (tc_tx_id c) (\<lambda>r. r\<lparr>tr_entries := tr_entries r @ [eh_lsn (we_header e)]\<rparr>) tab, committed, aborted)))"

definition tx_decide :: "u64 set \<Rightarrow> u64 set \<Rightarrow> transaction_recovery \<Rightarrow> transaction_recovery" where
  "tx_decide committed aborted r =
     (if tr_tx_id r \<notin> committed \<and> tr_tx_id r \<notin> aborted
      then (case tr_status r of
              RPrepared \<Rightarrow> r\<lparr>tr_decision := DAbort\<rparr>
            | RActive \<Rightarrow> r\<lparr>tr_decision := DAbort\<rparr>
            | _ \<Rightarrow> r)
      else r)"

text \<open>The order in which a hash map yields its values is not specified: here it is the order of insertion.\<close>

definition recover_transactions :: "'ev wal_entry list \<Rightarrow> transaction_recovery list" where
  "recover_transactions es =
     (case fold tx_entry_step es ([], {}, {}) of (tab, committed, aborted) \<Rightarrow>
        map (\<lambda>(_, r). tx_decide committed aborted r) tab)"

section \<open>The recovery manager\<close>

text \<open>The whole recovery; \<open>None\<close> is the panic on a short file name.\<close>

definition manager_recover ::
  "'ev wal_lib \<Rightarrow> corruption_tolerance \<Rightarrow> (string \<Rightarrow> repair_io) \<Rightarrow> directory \<Rightarrow>
   (directory \<times> (wal_error + 'ev recovery_report)) option" where
  "manager_recover L tol io dir =
     (case find_segments dir of
        None \<Rightarrow> None
      | Some ss \<Rightarrow> Some
          (case strategy_validate L dir ss of
             Inl e \<Rightarrow> (dir, Inl e)
           | Inr validation \<Rightarrow>
               (case strategy_recover L tol dir ss of
                  Inl e \<Rightarrow> (dir, Inl e)
                | Inr result \<Rightarrow>
                    let report = (\<lambda>rep. \<lparr>rc_result = result, rc_validation = validation, rc_repair = rep,
                      rc_checkpoint_restored = find_last_checkpoint (rr_recovered_entries result),
                      rc_transactions_recovered = recover_transactions (rr_recovered_entries result)\<rparr>) in
                    if vd_corrupted_segments validation = [] then (dir, Inr (report None))
                    else (case tol of
                        FailOnCorruption \<Rightarrow>
                          (dir, Inl (WUnrecoverableCorruption
                             (case rr_corrupted_entries result of [] \<Rightarrow> lsn_zero | (l, _) # _ \<Rightarrow> l)))
                      | AttemptRepair \<Rightarrow>
                          (case strategy_repair L io ss dir of
                             (dir', Inl e) \<Rightarrow> (dir', Inl e)
                           | (dir', Inr rep) \<Rightarrow> (dir', Inr (report (Some rep))))
                      | _ \<Rightarrow> (dir, Inr (report None))))))"

section \<open>What a scan collects\<close>

text \<open>The entries \<open>es\<close> and the corrupted numbers \<open>cs\<close> that scanning a file from a position on adds to a result.\<close>

definition scan_adds ::
  "'ev wal_lib \<Rightarrow> bytes \<Rightarrow> nat \<Rightarrow> 'ev recovery_result \<Rightarrow> 'ev recovery_result \<Rightarrow> 'ev wal_entry list \<Rightarrow> (lsn \<times> wal_error) list \<Rightarrow> bool" where
  "scan_adds L data n acc r es cs \<longleftrightarrow>
     rr_recovered_entries r = rr_recovered_entries acc @ es \<and>
     rr_corrupted_entries r = rr_corrupted_entries acc @ cs \<and>
     rr_last_valid_lsn r = last (rr_last_valid_lsn acc # map (\<lambda>e. eh_lsn (we_header e)) es) \<and>
     header_size * (length es + length cs) < n + header_size \<and>
     (\<forall>e \<in> set es. validate_entry L e \<and> (\<exists>p. read_entry_at L data p = Inr (Some e)))"

lemma scan_adds_Nil: "scan_adds L data n acc acc [] []"
  by (simp add: scan_adds_def header_size_def)

lemma scan_adds_mono: "scan_adds L data m acc r es cs \<Longrightarrow> m \<le> n \<Longrightarrow> scan_adds L data n acc r es cs"
  by (auto simp: scan_adds_def)

lemma scan_count_step: "header_size * k < sz - q + header_size \<Longrightarrow> pos < sz \<Longrightarrow> pos + header_size \<le> q \<Longrightarrow>
    header_size * (k + 1) < sz - pos + header_size"
  by (cases "q \<le> sz"; cases k) (simp_all add: header_size_def)

lemma scan_adds_entry:
  assumes "scan_adds L data (sz - q)
      (acc\<lparr>rr_last_valid_lsn := eh_lsn (we_header e), rr_recovered_entries := rr_recovered_entries acc @ [e]\<rparr>) r es cs"
    "pos < sz" "pos + header_size \<le> q" "validate_entry L e" "read_entry_at L data pos = Inr (Some e)"
  shows "scan_adds L data (sz - pos) acc r (e # es) cs"
  using assms(1) scan_count_step [OF _ assms(2,3), of "length es + length cs"] assms(4,5) by (auto simp: scan_adds_def)

lemma scan_adds_corrupted:
  assumes "scan_adds L data (sz - q) (acc\<lparr>rr_corrupted_entries := rr_corrupted_entries acc @ [c]\<rparr>) r es cs"
    "pos < sz" "pos + header_size \<le> q"
  shows "scan_adds L data (sz - pos) acc r es (c # cs)"
  using assms(1) scan_count_step [OF _ assms(2,3), of "length es + length cs"] by (auto simp: scan_adds_def)

lemma entry_end: "pos + header_size \<le> pos + size_bytes e"
  by (simp add: size_bytes_def)

text \<open>The branches of the loop.\<close>

lemma recover_loop_branches:
  "\<not> pos < sz \<Longrightarrow> recover_loop L tol data sz pos acc = acc"
  "read_entry_at L data pos = Inr None \<Longrightarrow> recover_loop L tol data sz pos acc = acc"
  "read_entry_at L data pos = Inl err \<Longrightarrow> find_next_entry L data pos = None \<Longrightarrow> recover_loop L tol data sz pos acc = acc"
  "pos < sz \<Longrightarrow> read_entry_at L data pos = Inl err \<Longrightarrow> find_next_entry L data pos = Some p \<Longrightarrow>
     recover_loop L tol data sz pos acc = recover_loop L tol data sz p acc"
  "pos < sz \<Longrightarrow> read_entry_at L data pos = Inr (Some e) \<Longrightarrow> validate_entry L e \<Longrightarrow>
     recover_loop L tol data sz pos acc = recover_loop L tol data sz (pos + size_bytes e)
       (acc\<lparr>rr_last_valid_lsn := eh_lsn (we_header e), rr_recovered_entries := rr_recovered_entries acc @ [e]\<rparr>)"
  "pos < sz \<Longrightarrow> read_entry_at L data pos = Inr (Some e) \<Longrightarrow> \<not> validate_entry L e \<Longrightarrow>
     recover_loop L tol data sz pos acc =
       (let acc' = acc\<lparr>rr_corrupted_entries := rr_corrupted_entries acc @ [(eh_lsn (we_header e),
              WCorruption (eh_lsn (we_header e)) ''Entry validation failed'' True)]\<rparr> in
        if tol = TruncateAtCorruption then acc' else recover_loop L tol data sz (pos + size_bytes e) acc')"
  by (subst recover_loop.simps, simp)+

lemma recover_loop_adds: "\<exists>es cs. scan_adds L data (sz - pos) acc (recover_loop L tol data sz pos acc) es cs"
proof (induction L tol data sz pos acc rule: recover_loop.induct)
  case (1 L tol data sz pos acc)
  have stay: ?case if "recover_loop L tol data sz pos acc = acc"
    unfolding that using scan_adds_Nil by blast
  show ?case
  proof (cases "pos < sz")
    case pos: True
    note IH = 1 [OF pos]
    show ?thesis
    proof (cases "read_entry_at L data pos")
      case (Inl err)
      show ?thesis
      proof (cases "find_next_entry L data pos")
        case (Some p)
        then have le: "sz - p \<le> sz - pos" using find_next_entry_gt by fastforce
        then show ?thesis unfolding recover_loop_branches(4) [OF pos Inl Some]
          using IH(1) [OF Inl Some] scan_adds_mono by blast
      qed (use stay recover_loop_branches(3) [OF Inl] in blast)
    next
      case (Inr x)
      show ?thesis
      proof (cases x)
        case None
        then show ?thesis using stay recover_loop_branches(2) Inr by blast
      next
        case (Some e)
        let ?c = "(eh_lsn (we_header e), WCorruption (eh_lsn (we_header e)) ''Entry validation failed'' True)"
        note rd = Inr [unfolded Some]
        show ?thesis
        proof (cases "validate_entry L e")
          case True
          show ?thesis unfolding recover_loop_branches(5) [OF pos rd True]
            using IH(2) [OF Inr Some True] scan_adds_entry [OF _ pos entry_end True rd] by blast
        next
          case False
          show ?thesis
          proof (cases "tol = TruncateAtCorruption")
            case True
            then show ?thesis unfolding recover_loop_branches(6) [OF pos rd False] Let_def
              using scan_adds_corrupted [OF scan_adds_Nil pos entry_end] by (simp only: simp_thms if_True) blast
          next
            case go: False
            then show ?thesis unfolding recover_loop_branches(6) [OF pos rd False] Let_def
              using IH(3) [OF Inr Some False refl go] scan_adds_corrupted [OF _ pos entry_end] by (simp only: simp_thms if_False) blast
          qed
        qed
      qed
    qed
  qed (use stay recover_loop_branches(1) in blast)
qed

lemma recover_segments_adds:
  assumes "recover_segments L tol dir ss acc = Inr r"
  shows "\<exists>es cs. rr_recovered_entries r = rr_recovered_entries acc @ es \<and>
    rr_corrupted_entries r = rr_corrupted_entries acc @ cs \<and>
    rr_last_valid_lsn r = last (rr_last_valid_lsn acc # map (\<lambda>e. eh_lsn (we_header e)) es) \<and>
    header_size * (length es + length cs) \<le> sum_list (map (\<lambda>s. sf_size s + header_size) ss) \<and>
    (\<forall>e \<in> set es. validate_entry L e \<and>
      (\<exists>s \<in> set ss. \<exists>data p. map_of dir (sf_path s) = Some data \<and> read_entry_at L data p = Inr (Some e)))"
  using assms
proof (induction ss arbitrary: acc)
  case (Cons s ss)
  then obtain data where d: "map_of dir (sf_path s) = Some data"
    and r: "recover_segments L tol dir ss (recover_loop L tol data (sf_size s) 0 acc) = Inr r"
    by (auto split: option.splits)
  obtain es cs where sa: "scan_adds L data (sf_size s) acc (recover_loop L tol data (sf_size s) 0 acc) es cs"
    using recover_loop_adds [of L data "sf_size s" 0 acc tol] by auto
  obtain es' cs' where IH: "rr_recovered_entries r = rr_recovered_entries (recover_loop L tol data (sf_size s) 0 acc) @ es'"
    "rr_corrupted_entries r = rr_corrupted_entries (recover_loop L tol data (sf_size s) 0 acc) @ cs'"
    "rr_last_valid_lsn r = last (rr_last_valid_lsn (recover_loop L tol data (sf_size s) 0 acc) # map (\<lambda>e. eh_lsn (we_header e)) es')"
    "header_size * (length es' + length cs') \<le> sum_list (map (\<lambda>s. sf_size s + header_size) ss)"
    "\<forall>e \<in> set es'. validate_entry L e \<and>
      (\<exists>s \<in> set ss. \<exists>data p. map_of dir (sf_path s) = Some data \<and> read_entry_at L data p = Inr (Some e))"
    using Cons.IH [OF r] by blast
  show ?case
    using sa IH d by (intro exI [of _ "es @ es'"] exI [of _ "cs @ cs'"]) (fastforce simp: scan_adds_def last_append distrib_left)
qed simp

section \<open>The entries of a segment\<close>

text \<open>
  The entries that follow one another in a segment: each is read where the one before ended, until
  the end of the file or a position with no entry, or until one cannot be read (\<open>False\<close>).
\<close>

function segment_walk :: "'ev wal_lib \<Rightarrow> bytes \<Rightarrow> nat \<Rightarrow> nat \<Rightarrow> 'ev wal_entry list \<times> bool" where
  "segment_walk L data sz pos =
     (if pos < sz then
        (case read_entry_at L data pos of
           Inr (Some e) \<Rightarrow> (case segment_walk L data sz (pos + size_bytes e) of (es, ok) \<Rightarrow> (e # es, ok))
         | Inr None \<Rightarrow> ([], True)
         | Inl _ \<Rightarrow> ([], False))
      else ([], True))"
  by pat_completeness auto

termination
  by (relation "measure (\<lambda>(_, _, sz, pos). sz - pos)") (simp_all add: scan_forward)

declare segment_walk.simps [simp del]

definition counts_entries :: "'ev wal_lib \<Rightarrow> 'ev wal_entry list \<Rightarrow> validation_report \<Rightarrow> validation_report" where
  "counts_entries L es rep = rep\<lparr>vd_total_entries := vd_total_entries rep + length es,
     vd_valid_entries := vd_valid_entries rep + length (filter (validate_entry L) es),
     vd_checksum_failures := vd_checksum_failures rep @
       map (\<lambda>e. eh_lsn (we_header e)) (filter (\<lambda>e. \<not> validate_entry L e) es)\<rparr>"

lemma validate_loop_walk:
  "validate_loop L data sz pos acc =
     (counts_entries L (fst (segment_walk L data sz pos)) (fst acc),
      snd acc \<and> snd (segment_walk L data sz pos) \<and> list_all (validate_entry L) (fst (segment_walk L data sz pos)))"
proof (induction L data sz pos acc rule: validate_loop.induct)
  case (1 L data sz pos acc)
  show ?case
  proof (cases "\<exists>e. pos < sz \<and> read_entry_at L data pos = Inr (Some e)")
    case True
    then obtain e where e: "pos < sz" "read_entry_at L data pos = Inr (Some e)" by blast
    obtain es ok where w: "segment_walk L data sz (pos + size_bytes e) = (es, ok)" by (metis surj_pair)
    have "segment_walk L data sz pos = (e # es, ok)" by (subst segment_walk.simps) (simp add: e w)
    then show ?thesis
      using 1 [OF e(1,2) refl] e by (subst validate_loop.simps) (simp add: w counts_entries_def Let_def)
  next
    case False
    then show ?thesis
      by (subst validate_loop.simps, subst (1 2 3) segment_walk.simps)
        (auto simp: counts_entries_def prod_eq_iff split: sum.splits option.splits)
  qed
qed

lemma recover_loop_walk:
  assumes "segment_walk L data sz pos = (es, True)" "list_all (validate_entry L) es"
  shows "recover_loop L tol data sz pos acc =
    acc\<lparr>rr_last_valid_lsn := last (rr_last_valid_lsn acc # map (\<lambda>e. eh_lsn (we_header e)) es),
        rr_recovered_entries := rr_recovered_entries acc @ es\<rparr>"
  using assms
proof (induction es arbitrary: pos acc)
  case Nil
  have "\<not> pos < sz \<or> read_entry_at L data pos = Inr None"
    using Nil(1) by (subst (asm) segment_walk.simps) (auto split: if_splits sum.splits option.splits prod.splits)
  then show ?case by (auto simp: recover_loop_branches(1,2))
next
  case (Cons e es)
  have e: "pos < sz" "read_entry_at L data pos = Inr (Some e)" "segment_walk L data sz (pos + size_bytes e) = (es, True)"
    using Cons.prems(1) by (subst (asm) segment_walk.simps, auto split: if_splits sum.splits option.splits prod.splits)+
  show ?case
    unfolding recover_loop_branches(5) [OF e(1,2), of tol acc] using Cons.prems(2) Cons.IH [OF e(3)]
    by (simp add: recover_loop_branches(5) [OF e(1,2)])
qed

text \<open>The walk through the file of a segment, and whether all of it is readable and valid.\<close>

definition walk_of :: "'ev wal_lib \<Rightarrow> directory \<Rightarrow> segment_file \<Rightarrow> 'ev wal_entry list \<times> bool" where
  "walk_of L dir s = segment_walk L (the (map_of dir (sf_path s))) (sf_size s) 0"

definition sound_segment :: "'ev wal_lib \<Rightarrow> directory \<Rightarrow> segment_file \<Rightarrow> bool" where
  "sound_segment L dir s \<longleftrightarrow> snd (walk_of L dir s) \<and> list_all (validate_entry L) (fst (walk_of L dir s))"

lemma validate_segments_walk:
  assumes "validate_segments L dir ss rep = Inr v"
  shows "vd_total_entries v = vd_total_entries rep + length (concat (map (fst \<circ> walk_of L dir) ss)) \<and>
    vd_valid_entries v = vd_valid_entries rep + length (filter (validate_entry L) (concat (map (fst \<circ> walk_of L dir) ss))) \<and>
    vd_checksum_failures v = vd_checksum_failures rep @ map (\<lambda>e. eh_lsn (we_header e))
      (filter (\<lambda>e. \<not> validate_entry L e) (concat (map (fst \<circ> walk_of L dir) ss))) \<and>
    vd_corrupted_segments v = vd_corrupted_segments rep @ map sf_path (filter (\<lambda>s. \<not> sound_segment L dir s) ss)"
  using assms
proof (induction ss arbitrary: rep)
  case (Cons s ss)
  then obtain data where d: "map_of dir (sf_path s) = Some data" by (auto split: option.splits)
  then have w: "segment_walk L data (sf_size s) 0 = walk_of L dir s" by (simp add: walk_of_def)
  let ?rep = "counts_entries L (fst (walk_of L dir s)) rep"
  have "validate_segments L dir ss
      (if sound_segment L dir s then ?rep\<lparr>vd_valid_segments := vd_valid_segments ?rep + 1\<rparr>
       else ?rep\<lparr>vd_corrupted_segments := vd_corrupted_segments ?rep @ [sf_path s]\<rparr>) = Inr v"
    using Cons.prems by (simp add: d validate_loop_walk w sound_segment_def)
  from Cons.IH [OF this] show ?case by (auto simp: counts_entries_def)
qed simp

lemma recover_segments_walk:
  assumes "recover_segments L tol dir ss acc = Inr r" "list_all (sound_segment L dir) ss"
  shows "rr_recovered_entries r = rr_recovered_entries acc @ concat (map (fst \<circ> walk_of L dir) ss) \<and>
    rr_corrupted_entries r = rr_corrupted_entries acc"
  using assms
proof (induction ss arbitrary: acc)
  case (Cons s ss)
  then obtain data where d: "map_of dir (sf_path s) = Some data" by (auto split: option.splits)
  obtain es where w: "segment_walk L data (sf_size s) 0 = (es, True)" "list_all (validate_entry L) es" "walk_of L dir s = (es, True)"
    using Cons.prems(2) d by (auto simp: sound_segment_def walk_of_def prod_eq_iff)
  have "recover_segments L tol dir ss (acc\<lparr>rr_last_valid_lsn := last (rr_last_valid_lsn acc # map (\<lambda>e. eh_lsn (we_header e)) es),
      rr_recovered_entries := rr_recovered_entries acc @ es\<rparr>) = Inr r"
    using Cons.prems(1) by (simp only: recover_segments.simps d option.case recover_loop_walk [OF w(1,2)])
  from Cons.IH [OF this] show ?case using Cons.prems(2) w(3) by simp
qed simp

section \<open>Transactions by identifier\<close>

definition begins :: "u64 \<Rightarrow> 'ev wal_entry \<Rightarrow> bool" where
  "begins t e = (case tx_op_of e of Some (TxBegin t' _) \<Rightarrow> t' = t | _ \<Rightarrow> False)"

definition status_of :: "u64 \<Rightarrow> 'ev wal_entry \<Rightarrow> tx_recovery_status option" where
  "status_of t e = (case tx_op_of e of
     Some (TxPrepare t' _) \<Rightarrow> if t' = t then Some RPrepared else None
   | Some (TxCommit t' _) \<Rightarrow> if t' = t then Some RCommitted else None
   | Some (TxAbort t' _) \<Rightarrow> if t' = t then Some RAborted else None
   | _ \<Rightarrow> None)"

definition finishes :: "u64 \<Rightarrow> 'ev wal_entry \<Rightarrow> bool" where
  "finishes t e \<longleftrightarrow> status_of t e = Some RCommitted \<or> status_of t e = Some RAborted"

definition in_tx :: "u64 \<Rightarrow> 'ev wal_entry \<Rightarrow> bool" where
  "in_tx t e = (case we_transaction e of None \<Rightarrow> False | Some c \<Rightarrow> tc_tx_id c = t)"

definition last_status :: "tx_recovery_status \<Rightarrow> u64 \<Rightarrow> 'ev wal_entry list \<Rightarrow> tx_recovery_status" where
  "last_status s t es = fold (\<lambda>e s. case status_of t e of None \<Rightarrow> s | Some s' \<Rightarrow> s') es s"

text \<open>What an entry does to the row of one transaction.\<close>

definition row_op :: "u64 \<Rightarrow> 'ev wal_entry \<Rightarrow> transaction_recovery option \<Rightarrow> transaction_recovery option" where
  "row_op t e v =
     (if begins t e then Some \<lparr>tr_tx_id = t, tr_status = RActive, tr_entries = [], tr_decision = DAbort\<rparr>
      else map_option (\<lambda>r. r\<lparr>tr_status := (case status_of t e of None \<Rightarrow> tr_status r | Some s \<Rightarrow> s),
             tr_decision := (if finishes t e then DSkip else tr_decision r)\<rparr>) v)"

definition row_step :: "u64 \<Rightarrow> 'ev wal_entry \<Rightarrow> transaction_recovery option \<Rightarrow> transaction_recovery option" where
  "row_step t e v =
     map_option (\<lambda>r. r\<lparr>tr_entries := tr_entries r @ (if in_tx t e then [eh_lsn (we_header e)] else [])\<rparr>) (row_op t e v)"

lemma map_of_tx_modify: "map_of (tx_modify k f tab) t = (if k = t then map_option f (map_of tab t) else map_of tab t)"
  by (auto simp: tx_modify_def hm_simps split: option.split)

lemma map_option_same: "map_option (\<lambda>r. r) v = v"
  by (cases v) simp_all

lemma tx_op_row:
  "map_of (fst (case tx_op_of e of None \<Rightarrow> st | Some op \<Rightarrow> tx_op_step op st)) t = row_op t e (map_of (fst st) t)"
proof -
  obtain tab c a where st: "st = (tab, c, a)" by (cases st)
  show ?thesis
  proof (cases "tx_op_of e")
    case None
    then show ?thesis by (simp add: row_op_def begins_def status_of_def finishes_def map_option_same)
  next
    case (Some op)
    then show ?thesis
      by (cases op) (simp_all add: st tx_op_step_def row_op_def begins_def status_of_def finishes_def map_of_tx_modify
          hm_simps map_option_same)
  qed
qed

lemma tx_entry_step_row: "map_of (fst (tx_entry_step e st)) t = row_step t e (map_of (fst st) t)"
proof -
  let ?st = "case tx_op_of e of None \<Rightarrow> st | Some op \<Rightarrow> tx_op_step op st"
  have "map_of (fst (tx_entry_step e st)) t =
      map_option (\<lambda>r. r\<lparr>tr_entries := tr_entries r @ (if in_tx t e then [eh_lsn (we_header e)] else [])\<rparr>) (map_of (fst ?st) t)"
    unfolding tx_entry_step_def
    by (cases ?st; cases "we_transaction e") (simp_all add: in_tx_def map_of_tx_modify map_option_same)
  then show ?thesis by (simp only: tx_op_row row_step_def)
qed

lemma fold_row: "map_of (fst (fold tx_entry_step es st)) t = fold (row_step t) es (map_of (fst st) t)"
  by (induction es arbitrary: st) (simp_all add: tx_entry_step_row)

lemma fold_row_after_begin:
  assumes "\<forall>e \<in> set es. \<not> begins t e"
  shows "fold (row_step t) es (Some r) = Some (r\<lparr>tr_status := last_status (tr_status r) t es,
    tr_entries := tr_entries r @ map (\<lambda>e. eh_lsn (we_header e)) (filter (in_tx t) es),
    tr_decision := (if \<exists>e \<in> set es. finishes t e then DSkip else tr_decision r)\<rparr>)"
  using assms
proof (induction es arbitrary: r)
  case (Cons e es)
  show ?case using Cons.prems by (simp add: row_step_def [of t e] row_op_def Cons.IH last_status_def split: option.split)
qed (simp add: last_status_def)

lemma fold_row_begin:
  assumes "begins t b" "\<forall>e \<in> set post. \<not> begins t e"
  shows "fold (row_step t) (pre @ b # post) v = Some \<lparr>tr_tx_id = t, tr_status = last_status RActive t post,
    tr_entries = map (\<lambda>e. eh_lsn (we_header e)) (filter (in_tx t) (b # post)),
    tr_decision = (if \<exists>e \<in> set post. finishes t e then DSkip else DAbort)\<rparr>"
  using assms by (simp add: row_step_def [of t b] row_op_def fold_row_after_begin)

lemma fold_row_no_begin: "\<forall>e \<in> set es. \<not> begins t e \<Longrightarrow> fold (row_step t) es None = None"
  by (induction es) (simp_all add: row_step_def row_op_def)

text \<open>The identifiers in the two sets, and the form of the table.\<close>

lemma tx_sets:
  "fst (snd (fold tx_entry_step es st)) \<union> snd (snd (fold tx_entry_step es st)) =
     {t. \<exists>e \<in> set es. finishes t e} \<union> (fst (snd st) \<union> snd (snd st))"
proof (induction es arbitrary: st)
  case (Cons e es)
  have "fst (snd (tx_entry_step e st)) \<union> snd (snd (tx_entry_step e st)) = {t. finishes t e} \<union> (fst (snd st) \<union> snd (snd st))"
    by (cases st; cases "tx_op_of e") (auto simp: tx_entry_step_def tx_op_step_def finishes_def status_of_def
        split: option.splits transaction_op.splits prod.splits if_splits)
  then show ?case using Cons by auto
qed simp

definition tx_table_wf :: "tx_table \<Rightarrow> bool" where
  "tx_table_wf tab \<longleftrightarrow> hm_wf tab \<and> (\<forall>k r. map_of tab k = Some r \<longrightarrow> tr_tx_id r = k)"

lemma tx_table_wf_update: "tx_table_wf tab \<Longrightarrow> tr_tx_id r = t \<Longrightarrow> tx_table_wf (AList.update t r tab)"
  by (simp add: tx_table_wf_def hm_get_update)

lemma tx_table_wf_modify: "tx_table_wf tab \<Longrightarrow> (\<And>r. tr_tx_id (f r) = tr_tx_id r) \<Longrightarrow> tx_table_wf (tx_modify t f tab)"
  by (simp add: tx_modify_def tx_table_wf_def hm_get_update split: option.split)

lemma tx_fold_wf: "tx_table_wf (fst st) \<Longrightarrow> tx_table_wf (fst (fold tx_entry_step es st))"
proof (induction es arbitrary: st)
  case (Cons e es)
  have "tx_table_wf (fst (tx_entry_step e st))" using Cons.prems
    by (auto simp: tx_entry_step_def tx_op_step_def split: option.split prod.split transaction_op.split
        intro!: tx_table_wf_update tx_table_wf_modify)
  then show ?case using Cons.IH by simp
qed simp

lemma filter_map_rows:
  assumes "hm_wf tab" "\<And>k r. (k, r) \<in> set tab \<Longrightarrow> tr_tx_id (f r) = k"
  shows "filter (\<lambda>r. tr_tx_id r = t) (map (\<lambda>(_, r). f r) tab) = (case map_of tab t of None \<Rightarrow> [] | Some r \<Rightarrow> [f r])"
  using assms
proof (induction tab)
  case (Cons kr tab)
  obtain k r where kr: "kr = (k, r)" by (cases kr)
  have k: "tr_tx_id (f r) = k" "k \<notin> fst ` set tab" "hm_wf tab"
    using Cons.prems by (simp_all add: kr hm_wf_def)
  then have "map_of tab k = None" by (simp add: map_of_eq_None_iff)
  moreover have "filter (\<lambda>r. tr_tx_id r = t) (map (\<lambda>(_, r). f r) tab) = (case map_of tab t of None \<Rightarrow> [] | Some r \<Rightarrow> [f r])"
    using Cons.IH [OF k(3)] Cons.prems(2) by simp
  ultimately show ?case using k(1) by (auto simp: kr)
qed simp

lemma tx_decide_id [simp]: "tr_tx_id (tx_decide c a r) = tr_tx_id r"
  by (simp add: tx_decide_def split: tx_recovery_status.split)

lemma tx_decide_abort: "tr_tx_id r \<in> c \<union> a \<or> tr_decision r = DAbort \<Longrightarrow> tx_decide c a r = r"
  by (auto simp: tx_decide_def split: tx_recovery_status.split)

lemma recover_transactions_row:
  "filter (\<lambda>r. tr_tx_id r = t) (recover_transactions es) =
     (case fold (row_step t) es None of None \<Rightarrow> []
      | Some r \<Rightarrow> [tx_decide (fst (snd (fold tx_entry_step es ([], {}, {})))) (snd (snd (fold tx_entry_step es ([], {}, {})))) r])"
proof -
  let ?st = "fold tx_entry_step es ([], {}, {})"
  let ?f = "tx_decide (fst (snd ?st)) (snd (snd ?st))"
  have wf: "tx_table_wf (fst ?st)" by (rule tx_fold_wf) (simp add: tx_table_wf_def)
  have "filter (\<lambda>r. tr_tx_id r = t) (map (\<lambda>(_, r). ?f r) (fst ?st)) =
      (case map_of (fst ?st) t of None \<Rightarrow> [] | Some r \<Rightarrow> [?f r])"
    by (rule filter_map_rows) (use wf in \<open>simp_all add: tx_table_wf_def hm_mem_get\<close>)
  then show ?thesis using fold_row [of es "([], {}, {})" t] by (simp add: recover_transactions_def split_beta)
qed

section \<open>Segment lists\<close>

lemma find_segments_loop_sound:
  assumes "find_segments_loop dir = Some ss"
  shows "s \<in> set ss \<Longrightarrow> \<exists>d. (sf_path s, d) \<in> set dir \<and> sf_size s = length d \<and> ends_with ''.log'' (sf_path s)"
    "sum_list (map (\<lambda>s. sf_size s + c) ss) \<le> sum_list (map (\<lambda>(n, d). length d + c) dir)"
  using assms
proof (induction dir arbitrary: ss rule: find_segments_loop.induct)
  case (2 name d rest)
  {
    case 1
    then show ?case using "2.IH"(1) "2.IH"(3) "2.IH"(5)
      by (fastforce split: if_splits option.splits)
  next
    case 2
    then show ?case using "2.IH"(2) "2.IH"(4) "2.IH"(6)
      by (fastforce split: if_splits option.splits)
  }
qed simp_all

lemma sum_list_insort: "sum_list (map f (insort_key k x xs)) = f x + sum_list (map (f :: _ \<Rightarrow> nat) xs)"
  by (induction xs) simp_all

lemma sum_list_sort: "sum_list (map f (sort_key k xs)) = sum_list (map (f :: _ \<Rightarrow> nat) xs)"
  by (induction xs) (simp_all add: sum_list_insort)

lemma find_segments_sound:
  assumes "find_segments dir = Some ss"
  shows "s \<in> set ss \<Longrightarrow> \<exists>d. (sf_path s, d) \<in> set dir \<and> sf_size s = length d \<and> ends_with ''.log'' (sf_path s)"
    "sum_list (map (\<lambda>s. sf_size s + c) ss) \<le> sum_list (map (\<lambda>(n, d). length d + c) dir)"
  using assms find_segments_loop_sound(1) [of dir _ s] find_segments_loop_sound(2) [of dir _ c]
  by (auto simp: find_segments_def sum_list_sort)

lemma recover_segments_total:
  "\<forall>s \<in> set ss. map_of dir (sf_path s) \<noteq> None \<Longrightarrow> \<exists>r. recover_segments L tol dir ss acc = Inr r"
  by (induction ss arbitrary: acc) auto

section \<open>Repair\<close>

text \<open>No entry that can be read from the file, at whatever position, passes the validation.\<close>

definition nothing_valid :: "'ev wal_lib \<Rightarrow> bytes \<Rightarrow> bool" where
  "nothing_valid L data \<longleftrightarrow> (\<forall>p. case read_entry_at L data p of Inr (Some e) \<Rightarrow> \<not> validate_entry L e | _ \<Rightarrow> True)"

lemma nothing_validD: "nothing_valid L data \<Longrightarrow> read_entry_at L data p = Inr (Some e) \<Longrightarrow> \<not> validate_entry L e"
  unfolding nothing_valid_def by (drule spec [of _ p]) simp

lemma nothing_valid_Nil: "nothing_valid L []"
  by (simp add: nothing_valid_def read_entry_at_def)

lemma repair_loop_empty:
  assumes "nothing_valid L data"
  shows "repair_loop L data sz pos out = out"
proof (induction "sz - pos" arbitrary: pos rule: less_induct)
  case less
  have "(case find_next_entry L data pos of Some p \<Rightarrow> repair_loop L data sz p out | None \<Rightarrow> out) = out" if "pos < sz"
    using less forward_less [OF that] find_next_entry_gt by (fastforce split: option.split)
  then show ?case using nothing_validD [OF assms, of pos]
    by (subst repair_loop.simps) (auto split: sum.split option.split)
qed

lemma ends_with_last: "ends_with p s \<Longrightarrow> p \<noteq> [] \<Longrightarrow> last s = last p"
  by (metis append_take_drop_id ends_with_def last_append)

lemma repair_path_not_log: "ends_with ''.log'' n \<Longrightarrow> n \<noteq> with_extension_repair p"
  using ends_with_last [of "''.log''" n] by (auto simp: with_extension_repair_def)

lemma repair_segments_empty:
  assumes "\<forall>s \<in> set ss. ends_with ''.log'' (sf_path s) \<and> io (sf_path s) = RepairOk \<and>
      (\<exists>d. map_of dir (sf_path s) = Some d \<and> nothing_valid L d)"
  shows "\<exists>dir'. repair_segments L io ss dir rep =
      (dir', Inr (rep\<lparr>rp_repaired_segments := rp_repaired_segments rep @ map sf_path ss\<rparr>)) \<and>
    (\<forall>n. ends_with ''.log'' n \<longrightarrow> map_of dir' n = (if n \<in> sf_path ` set ss then Some [] else map_of dir n))"
  using assms
proof (induction ss arbitrary: dir rep)
  case (Cons s ss)
  let ?dir = "AList.update (sf_path s) [] (AList.delete (with_extension_repair (sf_path s)) dir)"
  have get: "map_of ?dir n = (if n = sf_path s then Some [] else map_of dir n)" if "ends_with ''.log'' n" for n
    using repair_path_not_log [OF that] by (simp add: hm_simps)
  obtain d where d: "map_of dir (sf_path s) = Some d" "nothing_valid L d" "io (sf_path s) = RepairOk"
    using Cons.prems by auto
  have "\<forall>s' \<in> set ss. ends_with ''.log'' (sf_path s') \<and> io (sf_path s') = RepairOk \<and>
      (\<exists>d. map_of ?dir (sf_path s') = Some d \<and> nothing_valid L d)"
    using Cons.prems nothing_valid_Nil by (auto simp: get)
  from Cons.IH [OF this, of "rep\<lparr>rp_repaired_segments := rp_repaired_segments rep @ [sf_path s]\<rparr>"]
  obtain dir' where dir': "repair_segments L io ss ?dir
        (rep\<lparr>rp_repaired_segments := rp_repaired_segments rep @ [sf_path s]\<rparr>) =
      (dir', Inr (rep\<lparr>rp_repaired_segments := rp_repaired_segments rep @ map sf_path (s # ss)\<rparr>))"
    "\<forall>n. ends_with ''.log'' n \<longrightarrow> map_of dir' n = (if n \<in> sf_path ` set ss then Some [] else map_of ?dir n)"
    by auto
  have "repair_segments L io (s # ss) dir rep = repair_segments L io ss ?dir
      (rep\<lparr>rp_repaired_segments := rp_repaired_segments rep @ [sf_path s]\<rparr>)"
    using d by (simp add: repair_segment_def repair_loop_empty)
  then show ?case using dir' get by auto
qed simp

text \<open>
  The validation hashes the whole serialized entry, the checksum in the header covers payload and
  transaction only: an entry as \<^verbatim>\<open>to_bytes\<close> completes it passes only if the two happen to agree.
\<close>

lemma validate_needs_collision:
  "validate_entry L (snd (wal_to_bytes L e)) \<longleftrightarrow>
     wl_crc32 L (fst (wal_to_bytes L e)) = wl_crc32 L (wl_payload L (we_payload e) @ tx_bytes L (we_transaction e))"
  by (simp add: validate_entry_def wal_to_bytes_def Let_def)

section \<open>Properties\<close>

text \<open>
  C16. What recovery returns. Whatever bytes the files of the directory hold, recovery ends; if it
  returns a report, every recovered entry was read from a file of the directory and passed validation,
  the last valid sequence number is that of the last recovered entry, and the number of recovered and
  corrupted entries is bounded by the size of the files (a header per entry and one entry more per
  file). Walk through each segment file in the order of the segment ids, reading each entry where
  the one before ended: the validation report counts exactly the entries of these walks, the valid ones
  and the sequence numbers of those that fail, and names exactly the segments whose walk meets an
  unreadable or invalid entry. If it names none, as always in the mode that fails on corruption, the
  recovered entries are all entries of the walks, in order, and none is reported corrupted. That an
  entry passes validation is a condition on its checksums that the writer does not establish: see
  \<open>validate_needs_collision\<close>.
\<close>

theorem recovery_sound:
  assumes "manager_recover L tol io dir = Some (dir', Inr rep)" "find_segments dir = Some ss"
    and "es = concat (map (fst \<circ> walk_of L dir) ss)"
  shows "(\<forall>e \<in> set (rr_recovered_entries (rc_result rep)). validate_entry L e \<and>
      (\<exists>n data p. map_of dir n = Some data \<and> read_entry_at L data p = Inr (Some e))) \<and>
    rr_last_valid_lsn (rc_result rep) = last (0 # map (\<lambda>e. eh_lsn (we_header e)) (rr_recovered_entries (rc_result rep))) \<and>
    header_size * (length (rr_recovered_entries (rc_result rep)) + length (rr_corrupted_entries (rc_result rep)))
      \<le> sum_list (map (\<lambda>(n, d). length d + header_size) dir) \<and>
    vd_total_entries (rc_validation rep) = length es \<and>
    vd_valid_entries (rc_validation rep) = length (filter (validate_entry L) es) \<and>
    vd_checksum_failures (rc_validation rep) =
      map (\<lambda>e. eh_lsn (we_header e)) (filter (\<lambda>e. \<not> validate_entry L e) es) \<and>
    vd_corrupted_segments (rc_validation rep) = map sf_path (filter (\<lambda>s. \<not> sound_segment L dir s) ss) \<and>
    (tol = FailOnCorruption \<or> vd_corrupted_segments (rc_validation rep) = [] \<longrightarrow>
      vd_corrupted_segments (rc_validation rep) = [] \<and>
      rr_recovered_entries (rc_result rep) = es \<and> rr_corrupted_entries (rc_result rep) = [])"
proof -
  have rs: "strategy_recover L tol dir ss = Inr (rc_result rep)" and vs: "strategy_validate L dir ss = Inr (rc_validation rep)"
    and v: "tol = FailOnCorruption \<longrightarrow> vd_corrupted_segments (rc_validation rep) = []"
    using assms(1,2) by (auto simp: manager_recover_def Let_def split: option.splits sum.splits if_splits prod.splits
        corruption_tolerance.splits)
  note val = validate_segments_walk [OF vs [unfolded strategy_validate_def]]
  have all: "rr_recovered_entries (rc_result rep) = es \<and> rr_corrupted_entries (rc_result rep) = []"
    if "vd_corrupted_segments (rc_validation rep) = []"
    using recover_segments_walk [OF rs [unfolded strategy_recover_def]] that val assms(3)
    by (simp add: filter_empty_conv list_all_iff)
  have sound: "(\<forall>e \<in> set (rr_recovered_entries (rc_result rep)). validate_entry L e \<and>
      (\<exists>n data p. map_of dir n = Some data \<and> read_entry_at L data p = Inr (Some e))) \<and>
    rr_last_valid_lsn (rc_result rep) = last (0 # map (\<lambda>e. eh_lsn (we_header e)) (rr_recovered_entries (rc_result rep))) \<and>
    header_size * (length (rr_recovered_entries (rc_result rep)) + length (rr_corrupted_entries (rc_result rep)))
      \<le> sum_list (map (\<lambda>(n, d). length d + header_size) dir)"
    using recover_segments_adds [OF rs [unfolded strategy_recover_def]]
      find_segments_sound(2) [OF assms(2), of header_size] by (fastforce simp: lsn_zero_def)
  show ?thesis using sound val v all assms(3) by simp
qed

text \<open>
  The segment with the first entry of the log is not recovered. In any log reached by operations on a
  new log, take a segment file whose first entry has a sequence number that is zero or more than ten
  mebibytes, as the first segment has: scanning the file for recovery adds nothing, and validating it
  reports nothing, since the reader takes the sequence number for the size of the entry.
\<close>

lemma first_segment_not_recovered:
  assumes "wal_lib_ok L" "file_wal_new cfg env disk = (disk', Inr w0)" "guarded_run (wal_guard L) (wal_exec L) cs w0"
    "fw_index (fold (wal_exec L) cs w0) l = Some loc" "loc_offset loc = 0" "l = 0 \<or> max_entry_size < l"
    "fw_disk (fold (wal_exec L) cs w0) (loc_segment loc) = Some d"
  shows "recover_loop L tol d (length d) 0 acc = acc \<and> validate_loop L d (length d) 0 (rep, True) = (rep, True)"
proof -
  have rel: "wal_rel L (wal_log L cs w0) (fold (wal_exec L) cs w0)"
    unfolding wal_log_def by (rule fw.run_related [OF file_wal_new_rel [OF assms(2)] assms(3)])
  obtain e where "bytes_at (fw_disk (fold (wal_exec L) cs w0)) loc (entry_bytes L l e)"
    using wal_relD(5) [OF rel assms(4)] by blast
  then have at: "take (length (entry_bytes L l e)) d = entry_bytes L l e"
    using assms(5,7) by (auto simp: bytes_at_def)
  have bs: "take 8 (entry_bytes L l e) = u64_le l" "8 \<le> length (entry_bytes L l e)"
    using wal_lib_okD(1,2) [OF assms(1)]
    by (simp_all add: entry_bytes_logged header_size_def) (simp add: logged_def wal_to_bytes_snd)
  have "take 8 d = u64_le l" "8 \<le> length d"
    using arg_cong [OF at, of "take 8"] arg_cong [OF at, of length] bs by (simp_all add: min_def split: if_splits)
  then have rd: "read_entry_at L d 0 = Inr None"
    using assms(6) by (auto simp: read_entry_at_def Let_def)
  then show ?thesis using recover_loop_branches(2) [OF rd] by (subst validate_loop.simps) simp
qed

text \<open>
  Decisions about transactions. After the last Begin of a transaction, its recovered status is that of
  the last Prepare, Commit or Abort record, its entries are the later ones in its context, and it is
  skipped if a Commit or Abort record follows and aborted otherwise, also when it was prepared; there is
  exactly one row for it.
\<close>

lemma transaction_decisions:
  assumes "begins t b" "\<forall>e \<in> set post. \<not> begins t e"
  shows "filter (\<lambda>r. tr_tx_id r = t) (recover_transactions (pre @ b # post)) =
    [\<lparr>tr_tx_id = t, tr_status = last_status RActive t post,
      tr_entries = map (\<lambda>e. eh_lsn (we_header e)) (filter (in_tx t) (b # post)),
      tr_decision = (if \<exists>e \<in> set post. finishes t e then DSkip else DAbort)\<rparr>]"
  unfolding recover_transactions_row fold_row_begin [OF assms]
  using tx_sets [of "pre @ b # post" "([], {}, {})"] by (auto intro!: tx_decide_abort)

text \<open>
  Attempting repair empties a log whose entries do not validate. If no entry that can be read from the
  files passes validation, although some segment counts as corrupted, recovery with attempted repair
  replaces every segment by an empty file and reports success without data loss.
\<close>

lemma repair_empties_log:
  assumes "find_segments dir = Some ss" "distinct (map fst dir)" "\<forall>n. io n = RepairOk"
    "\<forall>d \<in> snd ` set dir. nothing_valid L d" "strategy_validate L dir ss = Inr v" "vd_corrupted_segments v \<noteq> []"
  shows "\<exists>dir' rep. manager_recover L AttemptRepair io dir = Some (dir', Inr rep) \<and>
    (\<forall>s \<in> set ss. map_of dir' (sf_path s) = Some []) \<and>
    rc_repair rep = Some \<lparr>rp_repaired_segments = map sf_path ss, rp_unrecoverable_segments = [], rp_data_loss = False,
      rp_recovered_bytes = 0\<rparr>"
proof -
  have mem: "\<exists>d. map_of dir (sf_path s) = Some d \<and> nothing_valid L d \<and> ends_with ''.log'' (sf_path s)" if "s \<in> set ss" for s
    using find_segments_sound(1) [OF assms(1) that] assms(2,4) by force
  then obtain r where r: "strategy_recover L AttemptRepair dir ss = Inr r"
    using recover_segments_total [of ss dir L AttemptRepair] by (force simp: strategy_recover_def)
  have "\<forall>s \<in> set ss. ends_with ''.log'' (sf_path s) \<and> io (sf_path s) = RepairOk \<and>
      (\<exists>d. map_of dir (sf_path s) = Some d \<and> nothing_valid L d)" using mem assms(3) by blast
  then obtain dir' where dir': "strategy_repair L io ss dir = (dir', Inr \<lparr>rp_repaired_segments = map sf_path ss,
      rp_unrecoverable_segments = [], rp_data_loss = False, rp_recovered_bytes = 0\<rparr>)"
    "\<forall>n. ends_with ''.log'' n \<longrightarrow> map_of dir' n = (if n \<in> sf_path ` set ss then Some [] else map_of dir n)"
    using repair_segments_empty [of ss io dir L
        "\<lparr>rp_repaired_segments = [], rp_unrecoverable_segments = [], rp_data_loss = False, rp_recovered_bytes = 0\<rparr>"]
    by (auto simp: strategy_repair_def)
  have "\<forall>s \<in> set ss. map_of dir' (sf_path s) = Some []" using dir'(2) mem by fastforce
  then show ?thesis using assms(1,5,6) r dir'(1) by (auto simp: manager_recover_def Let_def)
qed

section \<open>Witnesses\<close>

text \<open>A directory with one segment of eight bytes, which announce an entry of nine.\<close>

definition demo_dir :: directory where
  "demo_dir = [(''wal_00000000.log'', u64_le 9)]"

definition demo_segments :: "segment_file list" where
  "demo_segments = [\<lparr>sf_path = ''wal_00000000.log'', sf_id = 0, sf_size = 8\<rparr>]"

lemma demo_find_segments: "find_segments demo_dir = Some demo_segments"
  by (simp add: find_segments_def demo_dir_def demo_segments_def starts_with_def ends_with_def parse_u64_def read_digits_def)

lemma demo_read: "read_entry_at L (u64_le 9) p = (if p = 0 then Inl (WIo ''read_exact'') else Inr None)"
  by (auto simp: read_entry_at_def Let_def max_entry_size_def)

lemma demo_nothing_valid: "\<forall>d \<in> snd ` set demo_dir. nothing_valid L d"
  by (simp add: demo_dir_def nothing_valid_def demo_read)

lemma demo_validate:
  "strategy_validate L demo_dir demo_segments = Inr \<lparr>vd_valid_segments = 0, vd_corrupted_segments = [''wal_00000000.log''],
     vd_total_entries = 0, vd_valid_entries = 0, vd_checksum_failures = []\<rparr>"
  by (simp add: strategy_validate_def demo_segments_def demo_dir_def) (subst validate_loop.simps, simp add: demo_read)

lemma repair_empties_log_witness:
  "\<exists>dir' rep. manager_recover demo_wal_lib AttemptRepair (\<lambda>_. RepairOk) demo_dir = Some (dir', Inr rep) \<and>
     map_of dir' ''wal_00000000.log'' = Some [] \<and> map_option rp_data_loss (rc_repair rep) = Some False"
  using repair_empties_log [OF demo_find_segments _ _ demo_nothing_valid demo_validate, of "\<lambda>_. RepairOk"]
  by (force simp: demo_dir_def demo_segments_def)

text \<open>
  A library whose checksum is constant, so that every entry is valid, and a directory with one segment
  that holds one entry, whose sequence number is its size.
\<close>

definition flat_lib :: "string wal_lib" where
  "flat_lib = demo_wal_lib\<lparr>wl_crc32 := (\<lambda>_. 0)\<rparr>"

definition sized_entry :: "string wal_entry" where
  "sized_entry = snd (wal_to_bytes flat_lib (wal_entry_new 5 73 RocksDbWrite (PRaw [1, 2, 3])))"

definition sized_bytes :: bytes where
  "sized_bytes = fst (wal_to_bytes flat_lib (wal_entry_new 5 73 RocksDbWrite (PRaw [1, 2, 3])))"

lemma flat_lib_ok: "wal_lib_ok flat_lib"
  using demo_wal_lib_ok by (simp add: wal_lib_ok_def flat_lib_def)

lemma sized_payload: "length (wl_payload flat_lib (PRaw [1, 2, 3])) = 33"
  using demo_payload_length by (simp add: flat_lib_def demo_wal_entry_def wal_entry_new_def)

lemma sized_bytes_length: "length sized_bytes = 73"
  using sized_payload wal_lib_okD(1) [OF flat_lib_ok]
  by (simp add: sized_bytes_def wal_to_bytes_def wal_entry_new_def tx_bytes_def header_size_def Let_def)

lemma sized_read: "read_entry_at flat_lib sized_bytes 0 = Inr (Some sized_entry)"
proof -
  have "take 8 sized_bytes = u64_le 73"
    using wal_lib_okD(1,2) [OF flat_lib_ok]
    by (simp add: sized_bytes_def wal_to_bytes_def wal_entry_new_def header_size_def Let_def)
  moreover have "wal_from_bytes flat_lib sized_bytes = Inr sized_entry"
    unfolding sized_bytes_def sized_entry_def
    by (rule wal_from_to_bytes [OF flat_lib_ok]) (simp add: payload_fits_def wal_entry_new_def sized_payload)
  ultimately show ?thesis
    by (simp add: read_entry_at_def Let_def sized_bytes_length max_entry_size_def)
qed

lemma sized_entry_valid: "validate_entry flat_lib sized_entry" "size_bytes sized_entry = 73"
  by (simp_all add: validate_entry_def sized_entry_def wal_to_bytes_def Let_def size_bytes_def header_size_def
      wal_entry_new_def sized_payload) (simp_all add: flat_lib_def)

definition sized_dir :: directory where
  "sized_dir = [(''wal_00000000.log'', sized_bytes)]"

definition sized_segments :: "segment_file list" where
  "sized_segments = [\<lparr>sf_path = ''wal_00000000.log'', sf_id = 0, sf_size = 73\<rparr>]"

lemma sized_find_segments: "find_segments sized_dir = Some sized_segments"
  by (simp add: find_segments_def sized_dir_def sized_segments_def starts_with_def ends_with_def parse_u64_def read_digits_def
      sized_bytes_length)

lemma sized_walk: "segment_walk flat_lib sized_bytes 73 0 = ([sized_entry], True)"
  by (subst segment_walk.simps, subst segment_walk.simps) (simp add: sized_read sized_entry_valid)

lemma sized_walk_of: "concat (map (fst \<circ> walk_of flat_lib sized_dir) sized_segments) = [sized_entry]"
  by (simp add: walk_of_def sized_dir_def sized_segments_def sized_walk)

lemma sized_recover:
  "\<exists>rep. manager_recover flat_lib FailOnCorruption (\<lambda>_. RepairOk) sized_dir = Some (sized_dir, Inr rep)"
  unfolding manager_recover_def sized_find_segments
  by (simp add: strategy_validate_def strategy_recover_def sized_segments_def sized_dir_def validate_loop_walk sized_walk
      sized_entry_valid counts_entries_def Let_def)

theorem recovery_sound_witness:
  "\<exists>rep. manager_recover flat_lib FailOnCorruption (\<lambda>_. RepairOk) sized_dir = Some (sized_dir, Inr rep) \<and>
     rr_recovered_entries (rc_result rep) = [sized_entry] \<and> vd_valid_entries (rc_validation rep) = 1 \<and>
     rr_last_valid_lsn (rc_result rep) = 73"
proof -
  obtain rep where rep: "manager_recover flat_lib FailOnCorruption (\<lambda>_. RepairOk) sized_dir = Some (sized_dir, Inr rep)"
    using sized_recover by blast
  have "eh_lsn (we_header sized_entry) = 73"
    by (simp add: sized_entry_def wal_to_bytes_def wal_entry_new_def Let_def)
  then show ?thesis
    using recovery_sound [OF rep sized_find_segments sized_walk_of [symmetric]] rep sized_entry_valid by auto
qed

definition demo_tx_entry :: "transaction_op \<Rightarrow> string wal_entry" where
  "demo_tx_entry op = wal_entry_new 0 0 TransactionBegin (PTransaction op)"

lemma transaction_decisions_witness:
  "filter (\<lambda>r. tr_tx_id r = 7) (recover_transactions [demo_tx_entry (TxBegin 7 30), demo_tx_entry (TxPrepare 7 [])]) =
     [\<lparr>tr_tx_id = 7, tr_status = RPrepared, tr_entries = [], tr_decision = DAbort\<rparr>]"
  using transaction_decisions [of 7 "demo_tx_entry (TxBegin 7 30)" "[demo_tx_entry (TxPrepare 7 [])]" "[]"]
  by (simp add: begins_def tx_op_of_def demo_tx_entry_def wal_entry_new_def last_status_def status_of_def finishes_def in_tx_def)

lemma first_segment_not_recovered_witness:
  "\<exists>d. fw_disk (fold (wal_exec demo_wal_lib) [WAppend demo_env demo_wal_entry] demo_wal) 0 = Some d \<and>
     (\<forall>acc. recover_loop demo_wal_lib SkipCorrupted d (length d) 0 acc = acc)"
proof -
  let ?w = "fold (wal_exec demo_wal_lib) [WAppend demo_env demo_wal_entry] demo_wal"
  have run: "guarded_run (wal_guard demo_wal_lib) (wal_exec demo_wal_lib) [WAppend demo_env demo_wal_entry] demo_wal"
    using demo_run_guarded by simp
  obtain w' where w': "wal_append demo_wal_lib demo_env demo_wal_entry demo_wal = (w', Inr 0)" using demo_append by blast
  note ap = append_rel [OF file_wal_new_rel [OF demo_wal_new] demo_guard w']
  obtain loc where loc: "fw_index w' 0 = Some loc" "loc_segment loc = 0" "loc_offset loc = 0"
    using ap by (auto simp: demo_wal_def demo_segment_def)
  moreover have "fw_disk w' 0 \<noteq> None"
    using ap wal_relD(5) [OF _ loc(1)] loc(2) by (fastforce simp: bytes_at_def)
  moreover have "?w = w'" using w' by simp
  ultimately show ?thesis
    using first_segment_not_recovered [OF demo_wal_lib_ok demo_wal_new run, of 0 loc] by auto
qed

end
