(* ===== verification/WalCoord.thy ===== *)
theory WalCoord
  imports WalRecovery
begin

text \<open>
  Model of \<^verbatim>\<open>arcxa-coordinator/src/storage/wal/coordinator.rs\<close>: transactions over the storage tiers with
  the write-ahead log as their record. The log is used through the operations of the trait
  \<^verbatim>\<open>WriteAheadLog\<close>, the record \<open>wal_ops\<close>. A connected storage is the list of the batches it accepted;
  whether it accepts the next one is part of the environment of an operation, with the readings of the
  clocks. An operation holds the lock of its transaction from its start to its end, so operations on a
  transaction run one after the other. Storage participants only carry flags in the source, and no
  participant is contacted. Log messages are not modelled.
\<close>

section \<open>State\<close>

record ('w, 'ev) wal_ops =
  wo_append :: "'ev wal_entry \<Rightarrow> 'w \<Rightarrow> 'w \<times> (wal_error + lsn)"
  wo_append_batch :: "'ev wal_entry list \<Rightarrow> 'w \<Rightarrow> 'w \<times> (wal_error + lsn list)"
  wo_commit_batch :: "lsn list \<Rightarrow> 'w \<Rightarrow> 'w \<times> (wal_error + unit)"
  wo_sync :: "'w \<Rightarrow> 'w \<times> (wal_error + unit)"
  wo_tail_lsn :: "'w \<Rightarrow> lsn"

datatype tx_status = TActive | TPreparing | TPrepared | TCommitting | TCommitted | TAborting | TAborted

record participant =
  pt_storage_type :: storage_type
  pt_prepared :: bool
  pt_committed :: bool
  pt_rollback_data :: "bytes option"

record 'ev tx_state =
  ts_id :: u64
  ts_created_at :: nat
  ts_timeout :: nat
  ts_participants :: "participant list"
  ts_entries :: "'ev wal_entry list"
  ts_lsns :: "lsn list"
  ts_status :: tx_status
  ts_parent_tx :: "u64 option"

record ('w, 'ev) coordinator =
  co_wal :: 'w
  co_storage :: "'ev list list option"
  co_transactions :: "(u64, 'ev tx_state) hmap"
  co_next_tx_id :: u64

record co_env =
  ce_now :: nat
  ce_timestamp_us :: u64
  ce_storage_error :: "string option"

record co_recovery_result =
  cr_recovered :: nat
  cr_committed :: nat
  cr_aborted :: nat
  cr_failed :: "(u64 \<times> wal_error) list"
  cr_checkpoint_lsn :: lsn
  cr_end_lsn :: lsn

definition status_name :: "tx_status \<Rightarrow> string" where
  "status_name s = (case s of TActive \<Rightarrow> ''Active'' | TPreparing \<Rightarrow> ''Preparing'' | TPrepared \<Rightarrow> ''Prepared''
     | TCommitting \<Rightarrow> ''Committing'' | TCommitted \<Rightarrow> ''Committed'' | TAborting \<Rightarrow> ''Aborting'' | TAborted \<Rightarrow> ''Aborted'')"

definition storage_name :: "storage_type \<Rightarrow> string" where
  "storage_name t = (case t of RocksDb \<Rightarrow> ''RocksDb'' | Kafka \<Rightarrow> ''Kafka'' | Parquet \<Rightarrow> ''Parquet'' | Archive \<Rightarrow> ''Archive'')"

definition coordinator_new :: "'w \<Rightarrow> ('w, 'ev) coordinator" where
  "coordinator_new w = \<lparr>co_wal = w, co_storage = None, co_transactions = [], co_next_tx_id = 1\<rparr>"

definition connect_storage :: "'ev list list \<Rightarrow> ('w, 'ev) coordinator \<Rightarrow> ('w, 'ev) coordinator" where
  "connect_storage st c = c\<lparr>co_storage := Some st\<rparr>"

definition set_tx :: "u64 \<Rightarrow> 'ev tx_state \<Rightarrow> ('w, 'ev) coordinator \<Rightarrow> ('w, 'ev) coordinator" where
  "set_tx t st c = c\<lparr>co_transactions := AList.update t st (co_transactions c)\<rparr>"

definition remove_tx :: "u64 \<Rightarrow> ('w, 'ev) coordinator \<Rightarrow> ('w, 'ev) coordinator" where
  "remove_tx t c = c\<lparr>co_transactions := AList.delete t (co_transactions c)\<rparr>"

definition active_transaction_count :: "('w, 'ev) coordinator \<Rightarrow> nat" where
  "active_transaction_count c = length (co_transactions c)"

definition get_transaction_state :: "u64 \<Rightarrow> ('w, 'ev) coordinator \<Rightarrow> 'ev tx_state option" where
  "get_transaction_state t c = map_of (co_transactions c) t"

section \<open>The records an operation appends\<close>

definition tx_entry :: "co_env \<Rightarrow> entry_type \<Rightarrow> transaction_op \<Rightarrow> 'ev wal_entry" where
  "tx_entry env ty op = wal_entry_new (ce_timestamp_us env) lsn_zero ty (PTransaction op)"

definition begin_entry :: "co_env \<Rightarrow> u64 \<Rightarrow> 'ev wal_entry" where
  "begin_entry env t = tx_entry env TransactionBegin (TxBegin t 30000)"

definition lineage_entries :: "co_env \<Rightarrow> 'ev tx_state \<Rightarrow> u64 \<Rightarrow> 'ev list \<Rightarrow> 'ev wal_entry list" where
  "lineage_entries env st t evs =
     map (\<lambda>ev. (wal_lineage (ce_timestamp_us env) lsn_zero ev)\<lparr>we_transaction := Some
       \<lparr>tc_tx_id = t, tc_parent_tx_id = ts_parent_tx st, tc_isolation_level = ReadCommitted,
        tc_participants = [''rocksdb'', ''kafka'']\<rparr>\<rparr>) evs"

definition prepare_entry :: "co_env \<Rightarrow> 'ev tx_state \<Rightarrow> u64 \<Rightarrow> 'ev wal_entry" where
  "prepare_entry env st t =
     tx_entry env TransactionPrepare (TxPrepare t (map (\<lambda>p. storage_name (pt_storage_type p)) (ts_participants st)))"

definition commit_lsn :: "'ev tx_state \<Rightarrow> lsn" where
  "commit_lsn st = (if ts_lsns st = [] then lsn_zero else Max (set (ts_lsns st)))"

definition commit_entry :: "co_env \<Rightarrow> 'ev tx_state \<Rightarrow> u64 \<Rightarrow> 'ev wal_entry" where
  "commit_entry env st t = tx_entry env TransactionCommit (TxCommit t (commit_lsn st))"

definition abort_entry :: "co_env \<Rightarrow> string \<Rightarrow> u64 \<Rightarrow> 'ev wal_entry" where
  "abort_entry env reason t = tx_entry env TransactionAbort (TxAbort t reason)"

section \<open>Operations\<close>

definition co_begin_transaction ::
  "('w, 'ev) wal_ops \<Rightarrow> co_env \<Rightarrow> ('w, 'ev) coordinator \<Rightarrow> ('w, 'ev) coordinator \<times> (wal_error + u64)" where
  "co_begin_transaction W env c =
     (let t = co_next_tx_id c in
      case wo_append W (begin_entry env t) (co_wal c) of
        (w, Inl e) \<Rightarrow> (c\<lparr>co_next_tx_id := t + 1, co_wal := w\<rparr>, Inl e)
      | (w, Inr l) \<Rightarrow>
          (set_tx t \<lparr>ts_id = t, ts_created_at = ce_now env, ts_timeout = 30000, ts_participants = [], ts_entries = [],
             ts_lsns = [l], ts_status = TActive, ts_parent_tx = None\<rparr> (c\<lparr>co_next_tx_id := t + 1, co_wal := w\<rparr>), Inr t))"

text \<open>The lookup and the check of the status every operation starts with.\<close>

definition with_status :: "u64 \<Rightarrow> tx_status \<Rightarrow> ('w, 'ev) coordinator \<Rightarrow> wal_error + 'ev tx_state" where
  "with_status t s c =
     (case map_of (co_transactions c) t of
        None \<Rightarrow> Inl (WTransactionNotFound t)
      | Some st \<Rightarrow>
          if ts_status st \<noteq> s then Inl (WTransactionInvalidState t (status_name (ts_status st))) else Inr st)"

definition add_participant :: "storage_type \<Rightarrow> participant list \<Rightarrow> participant list" where
  "add_participant ty ps =
     (if \<exists>p \<in> set ps. pt_storage_type p = ty then ps
      else ps @ [\<lparr>pt_storage_type = ty, pt_prepared = False, pt_committed = False, pt_rollback_data = None\<rparr>])"

definition add_lineage ::
  "('w, 'ev) wal_ops \<Rightarrow> co_env \<Rightarrow> u64 \<Rightarrow> 'ev list \<Rightarrow> ('w, 'ev) coordinator \<Rightarrow>
   ('w, 'ev) coordinator \<times> (wal_error + lsn list)" where
  "add_lineage W env t evs c =
     (case with_status t TActive c of
        Inl e \<Rightarrow> (c, Inl e)
      | Inr st \<Rightarrow>
          (let entries = lineage_entries env st t evs in
           case wo_append_batch W entries (co_wal c) of
             (w, Inl e) \<Rightarrow> (c\<lparr>co_wal := w\<rparr>, Inl e)
           | (w, Inr lsns) \<Rightarrow>
               (set_tx t (st\<lparr>ts_entries := ts_entries st @ entries, ts_lsns := ts_lsns st @ lsns,
                  ts_participants := add_participant Kafka (add_participant RocksDb (ts_participants st))\<rparr>)
                  (c\<lparr>co_wal := w\<rparr>), Inr lsns)))"

definition prepare_participant :: "participant \<Rightarrow> participant" where
  "prepare_participant p =
     (case pt_storage_type p of
        RocksDb \<Rightarrow> p\<lparr>pt_rollback_data := Some [], pt_prepared := True\<rparr>
      | Kafka \<Rightarrow> p\<lparr>pt_prepared := True\<rparr>
      | Parquet \<Rightarrow> p\<lparr>pt_prepared := True\<rparr>
      | Archive \<Rightarrow> p)"

definition prepare ::
  "('w, 'ev) wal_ops \<Rightarrow> co_env \<Rightarrow> u64 \<Rightarrow> ('w, 'ev) coordinator \<Rightarrow> ('w, 'ev) coordinator \<times> (wal_error + unit)" where
  "prepare W env t c =
     (case with_status t TActive c of
        Inl e \<Rightarrow> (c, Inl e)
      | Inr st \<Rightarrow>
          (case wo_append W (prepare_entry env st t) (co_wal c) of
             (w, Inl e) \<Rightarrow> (set_tx t (st\<lparr>ts_status := TPreparing\<rparr>) (c\<lparr>co_wal := w\<rparr>), Inl e)
           | (w, Inr l) \<Rightarrow>
               (let ps = map prepare_participant (ts_participants st);
                    st' = st\<lparr>ts_lsns := ts_lsns st @ [l], ts_participants := ps\<rparr> in
                if \<forall>p \<in> set ps. pt_prepared p
                then (set_tx t (st'\<lparr>ts_status := TPrepared\<rparr>) (c\<lparr>co_wal := w\<rparr>), Inr ())
                else (set_tx t (st'\<lparr>ts_status := TAborting\<rparr>) (c\<lparr>co_wal := w\<rparr>),
                      Inl (WTwoPhaseCommitFailed ''Not all participants prepared'')))))"

fun payload_lineage :: "'ev entry_payload \<Rightarrow> 'ev option" where
  "payload_lineage (PLineage ev) = Some ev"
| "payload_lineage _ = None"

definition lineage_events :: "'ev tx_state \<Rightarrow> 'ev list" where
  "lineage_events st = List.map_filter (\<lambda>e. payload_lineage (we_payload e)) (ts_entries st)"

text \<open>The write to the connected storage: the storage afterwards, or the error.\<close>

definition storage_write :: "co_env \<Rightarrow> 'ev list \<Rightarrow> 'ev list list option \<Rightarrow> wal_error + 'ev list list option" where
  "storage_write env evs storage =
     (case storage of
        None \<Rightarrow> Inr None
      | Some batches \<Rightarrow>
          if evs = [] then Inr (Some batches)
          else (case ce_storage_error env of
                  Some msg \<Rightarrow> Inl (WCoordinationFailed msg)
                | None \<Rightarrow> Inr (Some (batches @ [evs]))))"

definition mark_committed :: "'ev list list option \<Rightarrow> 'ev tx_state \<Rightarrow> 'ev tx_state" where
  "mark_committed storage st =
     (if storage = None then st
      else st\<lparr>ts_participants := map (\<lambda>p. p\<lparr>pt_committed := True\<rparr>) (ts_participants st)\<rparr>)"

definition commit ::
  "('w, 'ev) wal_ops \<Rightarrow> co_env \<Rightarrow> u64 \<Rightarrow> ('w, 'ev) coordinator \<Rightarrow> ('w, 'ev) coordinator \<times> (wal_error + unit)" where
  "commit W env t c =
     (case with_status t TPrepared c of
        Inl e \<Rightarrow> (c, Inl e)
      | Inr st \<Rightarrow>
          (let st1 = st\<lparr>ts_status := TCommitting\<rparr> in
           case wo_append W (commit_entry env st t) (co_wal c) of
             (w, Inl e) \<Rightarrow> (set_tx t st1 (c\<lparr>co_wal := w\<rparr>), Inl e)
           | (w, Inr _) \<Rightarrow>
               (case storage_write env (lineage_events st) (co_storage c) of
                  Inl e \<Rightarrow> (set_tx t st1 (c\<lparr>co_wal := w\<rparr>), Inl e)
                | Inr storage \<Rightarrow>
                    let st2 = mark_committed storage st1 in
                    (case wo_commit_batch W (ts_lsns st2) w of
                       (w', Inl e) \<Rightarrow> (set_tx t st2 (c\<lparr>co_wal := w', co_storage := storage\<rparr>), Inl e)
                     | (w', Inr _) \<Rightarrow> (remove_tx t (c\<lparr>co_wal := w', co_storage := storage\<rparr>), Inr ())))))"

definition abort ::
  "('w, 'ev) wal_ops \<Rightarrow> co_env \<Rightarrow> u64 \<Rightarrow> string \<Rightarrow> ('w, 'ev) coordinator \<Rightarrow> ('w, 'ev) coordinator \<times> (wal_error + unit)" where
  "abort W env t reason c =
     (case map_of (co_transactions c) t of
        None \<Rightarrow> (c, Inl (WTransactionNotFound t))
      | Some st \<Rightarrow>
          if ts_status st = TCommitted \<or> ts_status st = TAborted then (c, Inr ())
          else (case wo_append W (abort_entry env reason t) (co_wal c) of
                  (w, Inl e) \<Rightarrow> (set_tx t (st\<lparr>ts_status := TAborting\<rparr>) (c\<lparr>co_wal := w\<rparr>), Inl e)
                | (w, Inr _) \<Rightarrow> (remove_tx t (c\<lparr>co_wal := w\<rparr>), Inr ())))"

definition storage_checkpoints :: "('w, 'ev) wal_ops \<Rightarrow> ('w, 'ev) coordinator \<Rightarrow> storage_checkpoint list" where
  "storage_checkpoints W c =
     (if co_storage c = None then []
      else map (\<lambda>ty. \<lparr>sc_storage_type = ty, sc_last_flushed_lsn = wo_tail_lsn W (co_wal c), sc_pending_writes = 0, sc_state = []\<rparr>)
             [RocksDb, Kafka])"

definition checkpoint_entry :: "('w, 'ev) wal_ops \<Rightarrow> co_env \<Rightarrow> ('w, 'ev) coordinator \<Rightarrow> 'ev wal_entry" where
  "checkpoint_entry W env c = wal_entry_new (ce_timestamp_us env) lsn_zero Checkpoint
     (PCheckpoint (wo_tail_lsn W (co_wal c)) (storage_checkpoints W c))"

definition checkpoint ::
  "('w, 'ev) wal_ops \<Rightarrow> co_env \<Rightarrow> ('w, 'ev) coordinator \<Rightarrow> ('w, 'ev) coordinator \<times> (wal_error + lsn)" where
  "checkpoint W env c =
     (case wo_append W (checkpoint_entry W env c) (co_wal c) of
        (w, Inl e) \<Rightarrow> (c\<lparr>co_wal := w\<rparr>, Inl e)
      | (w, Inr l) \<Rightarrow>
          (case wo_sync W w of
             (w', Inl e) \<Rightarrow> (c\<lparr>co_wal := w'\<rparr>, Inl e)
           | (w', Inr _) \<Rightarrow> (c\<lparr>co_wal := w'\<rparr>, Inr l)))"

text \<open>The work of one tick of the timeout handler.\<close>

definition timed_out :: "nat \<Rightarrow> ('w, 'ev) coordinator \<Rightarrow> u64 list" where
  "timed_out now c = map (\<lambda>(_, st). ts_id st) (filter (\<lambda>(_, st). now - ts_created_at st > ts_timeout st) (co_transactions c))"

definition timeout_tick :: "('w, 'ev) wal_ops \<Rightarrow> co_env \<Rightarrow> ('w, 'ev) coordinator \<Rightarrow> ('w, 'ev) coordinator" where
  "timeout_tick W env c = fold (\<lambda>t c. fst (abort W env t ''Transaction timeout'' c)) (timed_out (ce_now env) c) c"

section \<open>Recovery\<close>

definition co_find_last_checkpoint :: "('w, 'ev) coordinator \<Rightarrow> wal_error + lsn" where
  "co_find_last_checkpoint c = Inr 0"

definition scan_wal_for_recovery :: "lsn \<Rightarrow> lsn \<Rightarrow> ('w, 'ev) coordinator \<Rightarrow> wal_error + 'ev wal_entry list" where
  "scan_wal_for_recovery from until c = Inr []"

definition push_status :: "tx_status \<Rightarrow> lsn \<Rightarrow> u64 \<Rightarrow> (u64, 'ev tx_state) hmap \<Rightarrow> (u64, 'ev tx_state) hmap" where
  "push_status s l t m =
     (case map_of m t of None \<Rightarrow> m | Some st \<Rightarrow> AList.update t (st\<lparr>ts_status := s, ts_lsns := ts_lsns st @ [l]\<rparr>) m)"

definition reconstruct_step :: "nat \<Rightarrow> 'ev wal_entry \<Rightarrow> (u64, 'ev tx_state) hmap \<Rightarrow> (u64, 'ev tx_state) hmap" where
  "reconstruct_step now e m =
     (case tx_op_of e of
        None \<Rightarrow> m
      | Some (TxBegin t ms) \<Rightarrow>
          AList.update t \<lparr>ts_id = t, ts_created_at = now, ts_timeout = unat ms, ts_participants = [], ts_entries = [e],
            ts_lsns = [eh_lsn (we_header e)], ts_status = TActive, ts_parent_tx = None\<rparr> m
      | Some (TxPrepare t _) \<Rightarrow> push_status TPrepared (eh_lsn (we_header e)) t m
      | Some (TxCommit t _) \<Rightarrow> push_status TCommitted (eh_lsn (we_header e)) t m
      | Some (TxAbort t _) \<Rightarrow> push_status TAborted (eh_lsn (we_header e)) t m)"

definition reconstruct_transaction_states :: "nat \<Rightarrow> 'ev wal_entry list \<Rightarrow> wal_error + (u64, 'ev tx_state) hmap" where
  "reconstruct_transaction_states now es = Inr (fold (reconstruct_step now) es [])"

text \<open>Completing a transaction appends its record and syncs; the loops over the participants only log. A failure is
  reported with its error, which the source prints into a message.\<close>

definition append_and_sync ::
  "('w, 'ev) wal_ops \<Rightarrow> 'ev wal_entry \<Rightarrow> ('w, 'ev) coordinator \<Rightarrow> ('w, 'ev) coordinator \<times> (wal_error + unit)" where
  "append_and_sync W e c =
     (case wo_append W e (co_wal c) of
        (w, Inl err) \<Rightarrow> (c\<lparr>co_wal := w\<rparr>, Inl err)
      | (w, Inr _) \<Rightarrow> (case wo_sync W w of (w', r) \<Rightarrow> (c\<lparr>co_wal := w'\<rparr>, r)))"

definition recover_commit_transaction ::
  "('w, 'ev) wal_ops \<Rightarrow> co_env \<Rightarrow> u64 \<Rightarrow> ('w, 'ev) coordinator \<Rightarrow> ('w, 'ev) coordinator \<times> (wal_error + unit)" where
  "recover_commit_transaction W env t c =
     append_and_sync W (tx_entry env TransactionCommit (TxCommit t (wo_tail_lsn W (co_wal c)))) c"

definition recover_abort_transaction ::
  "('w, 'ev) wal_ops \<Rightarrow> co_env \<Rightarrow> u64 \<Rightarrow> ('w, 'ev) coordinator \<Rightarrow> ('w, 'ev) coordinator \<times> (wal_error + unit)" where
  "recover_abort_transaction W env t c = append_and_sync W (abort_entry env ''Recovered incomplete transaction'' t) c"

definition note_outcome ::
  "(co_recovery_result \<Rightarrow> co_recovery_result) \<Rightarrow> u64 \<Rightarrow> ('w, 'ev) coordinator \<times> (wal_error + unit) \<Rightarrow> co_recovery_result \<Rightarrow>
   ('w, 'ev) coordinator \<times> co_recovery_result" where
  "note_outcome count t out r =
     (case snd out of Inr _ \<Rightarrow> (fst out, count r) | Inl e \<Rightarrow> (fst out, r\<lparr>cr_failed := cr_failed r @ [(t, e)]\<rparr>))"

definition recover_decision ::
  "('w, 'ev) wal_ops \<Rightarrow> co_env \<Rightarrow> u64 \<times> 'ev tx_state \<Rightarrow> ('w, 'ev) coordinator \<times> co_recovery_result \<Rightarrow>
   ('w, 'ev) coordinator \<times> co_recovery_result" where
  "recover_decision W env x acc =
     (case x of (t, st) \<Rightarrow> case acc of (c, r0) \<Rightarrow>
        let r = r0\<lparr>cr_recovered := cr_recovered r0 + 1\<rparr>;
            committed = (\<lambda>r. r\<lparr>cr_committed := cr_committed r + 1\<rparr>);
            aborted = (\<lambda>r. r\<lparr>cr_aborted := cr_aborted r + 1\<rparr>) in
        case ts_status st of
          TPrepared \<Rightarrow> note_outcome committed t (recover_commit_transaction W env t c) r
        | TCommitting \<Rightarrow> note_outcome committed t (recover_commit_transaction W env t c) r
        | TAborting \<Rightarrow> note_outcome aborted t (recover_abort_transaction W env t c) r
        | TActive \<Rightarrow> note_outcome aborted t (recover_abort_transaction W env t c) r
        | TCommitted \<Rightarrow> (c, committed r)
        | TAborted \<Rightarrow> (c, aborted r)
        | TPreparing \<Rightarrow> (c, r))"

definition co_recover ::
  "('w, 'ev) wal_ops \<Rightarrow> co_env \<Rightarrow> ('w, 'ev) coordinator \<Rightarrow> ('w, 'ev) coordinator \<times> (wal_error + co_recovery_result)" where
  "co_recover W env c =
     (case co_find_last_checkpoint c of
        Inl e \<Rightarrow> (c, Inl e)
      | Inr start \<Rightarrow>
          (let tail = wo_tail_lsn W (co_wal c) in
           case scan_wal_for_recovery start tail c of
             Inl e \<Rightarrow> (c, Inl e)
           | Inr entries \<Rightarrow>
               (case reconstruct_transaction_states (ce_now env) entries of
                  Inl e \<Rightarrow> (c, Inl e)
                | Inr states \<Rightarrow>
                    (case fold (recover_decision W env) states (c, \<lparr>cr_recovered = 0, cr_committed = 0, cr_aborted = 0,
                       cr_failed = [], cr_checkpoint_lsn = start, cr_end_lsn = tail\<rparr>) of
                       (c', r) \<Rightarrow> (c', Inr r)))))"

text \<open>The scan returns no entries, so recovery does nothing.\<close>

lemma co_recover_nothing:
  "co_recover W env c = (c, Inr \<lparr>cr_recovered = 0, cr_committed = 0, cr_aborted = 0, cr_failed = [], cr_checkpoint_lsn = 0,
     cr_end_lsn = wo_tail_lsn W (co_wal c)\<rparr>)"
  by (simp add: co_recover_def co_find_last_checkpoint_def scan_wal_for_recovery_def reconstruct_transaction_states_def Let_def)

section \<open>The records of a transaction\<close>

fun op_tx :: "transaction_op \<Rightarrow> u64" where
  "op_tx (TxBegin t _) = t"
| "op_tx (TxPrepare t _) = t"
| "op_tx (TxCommit t _) = t"
| "op_tx (TxAbort t _) = t"

datatype rec_kind = KBegin | KPrepare | KCommit | KAbort

fun op_kind :: "transaction_op \<Rightarrow> rec_kind" where
  "op_kind (TxBegin _ _) = KBegin"
| "op_kind (TxPrepare _ _) = KPrepare"
| "op_kind (TxCommit _ _) = KCommit"
| "op_kind (TxAbort _ _) = KAbort"

definition kinds_of :: "u64 \<Rightarrow> transaction_op list \<Rightarrow> rec_kind list" where
  "kinds_of t ops = map op_kind (filter (\<lambda>op. op_tx op = t) ops)"

lemma kinds_of_simps [simp]:
  "kinds_of t [] = []" "kinds_of t (xs @ ys) = kinds_of t xs @ kinds_of t ys"
  "kinds_of t (op # xs) = (if op_tx op = t then [op_kind op] else []) @ kinds_of t xs"
  by (simp_all add: kinds_of_def)







section \<open>What the coordinator relies on\<close>

text \<open>
  The interface of the log as the coordinator uses it: an append that succeeds adds the record, one that
  fails may have added it, and nothing else changes the transaction records. The environment of an
  operation selects the operations of the log; the guard says when the log takes the entries.
\<close>

definition op_list :: "'ev wal_entry \<Rightarrow> transaction_op list" where
  "op_list e = (case tx_op_of e of None \<Rightarrow> [] | Some op \<Rightarrow> [op])"

datatype 'ev co_command =
    CBegin co_env
  | CAdd co_env u64 "'ev list"
  | CPrepare co_env u64
  | CCommit co_env u64
  | CAbort co_env u64 string
  | CCheckpoint co_env
  | CRecover co_env
  | CConnect "'ev list list"

fun co_exec :: "('env \<Rightarrow> ('w, 'ev) wal_ops) \<Rightarrow> 'env \<times> 'ev co_command \<Rightarrow> ('w, 'ev) coordinator \<Rightarrow> ('w, 'ev) coordinator" where
  "co_exec W (v, CBegin env) c = fst (co_begin_transaction (W v) env c)"
| "co_exec W (v, CAdd env t evs) c = fst (add_lineage (W v) env t evs c)"
| "co_exec W (v, CPrepare env t) c = fst (prepare (W v) env t c)"
| "co_exec W (v, CCommit env t) c = fst (commit (W v) env t c)"
| "co_exec W (v, CAbort env t reason) c = fst (abort (W v) env t reason c)"
| "co_exec W (v, CCheckpoint env) c = fst (checkpoint (W v) env c)"
| "co_exec W (v, CRecover env) c = fst (co_recover (W v) env c)"
| "co_exec W (v, CConnect st) c = connect_storage st c"





section \<open>The file log as the coordinator's log\<close>






lemma op_list_logged [simp]: "op_list (logged L l e) = op_list e"
  by (simp add: op_list_def tx_op_of_def logged_def wal_to_bytes_snd)

















section \<open>The events of a transaction\<close>

text \<open>The events added to each transaction since it began, computed from the results of the commands.\<close>

fun co_added ::
  "('env \<Rightarrow> ('w, 'ev) wal_ops) \<Rightarrow> 'env \<times> 'ev co_command \<Rightarrow> ('w, 'ev) coordinator \<Rightarrow> (u64 \<Rightarrow> 'ev list) \<Rightarrow> u64 \<Rightarrow> 'ev list" where
  "co_added W (v, CBegin env) c P =
     (case snd (co_begin_transaction (W v) env c) of Inr t \<Rightarrow> P(t := []) | Inl _ \<Rightarrow> P)"
| "co_added W (v, CAdd env t evs) c P =
     (if is_ok (snd (add_lineage (W v) env t evs c)) then P(t := P t @ evs) else P)"
| "co_added W _ c P = P"

definition added_rel :: "(u64 \<Rightarrow> 'ev list) \<Rightarrow> ('w, 'ev) coordinator \<Rightarrow> bool" where
  "added_rel P c \<longleftrightarrow> (\<forall>t st. map_of (co_transactions c) t = Some st \<longrightarrow> lineage_events st = P t)"

lemma lineage_events_add:
  "ts_entries st' = ts_entries st @ lineage_entries env st t evs \<Longrightarrow> lineage_events st' = lineage_events st @ evs"
  by (simp add: lineage_events_def lineage_entries_def List.map_filter_def comp_def wal_lineage_def wal_entry_new_def)

lemma added_keep: "added_rel P c \<Longrightarrow> co_transactions c' = co_transactions c \<Longrightarrow> added_rel P c'"
  by (simp add: added_rel_def)

lemma added_update:
  "added_rel P c \<Longrightarrow> co_transactions c' = co_transactions c \<Longrightarrow> lineage_events st' = P' t \<Longrightarrow>
   (\<And>t'. t' \<noteq> t \<Longrightarrow> P' t' = P t') \<Longrightarrow> added_rel P' (set_tx t st' c')"
  by (simp add: added_rel_def set_tx_def hm_simps)

lemma added_delete: "added_rel P c \<Longrightarrow> co_transactions c' = co_transactions c \<Longrightarrow> added_rel P (remove_tx t c')"
  by (simp add: added_rel_def remove_tx_def hm_simps)

text \<open>A new state of the transaction with the entries it had.\<close>

lemma added_same:
  assumes "added_rel P c" "map_of (co_transactions c) t = Some st" "ts_entries st' = ts_entries st"
    "co_transactions c' = co_transactions c"
  shows "added_rel P (set_tx t st' c')"
  by (rule added_update [OF assms(1,4)]) (use assms(1-3) in \<open>simp_all add: added_rel_def lineage_events_def\<close>)

lemma status_entry: "with_status t s c = Inr st \<Longrightarrow> map_of (co_transactions c) t = Some st"
  by (auto simp: with_status_def split: option.splits if_splits)

lemma begin_added:
  assumes "added_rel P c"
  shows "added_rel (co_added W (v, CBegin env) c P) (fst (co_begin_transaction (W v) env c))"
proof -
  obtain w r where ap: "wo_append (W v) (begin_entry env (co_next_tx_id c)) (co_wal c) = (w, r)" by force
  show ?thesis
  proof (cases r)
    case (Inl e)
    then show ?thesis using ap by (simp add: co_begin_transaction_def Let_def added_keep [OF assms])
  next
    case (Inr l)
    then show ?thesis using ap
      by (simp add: co_begin_transaction_def Let_def) (rule added_update [OF assms], simp_all add: lineage_events_def
          List.map_filter_def)
  qed
qed

lemma add_added:
  assumes "added_rel P c"
  shows "added_rel (co_added W (v, CAdd env t evs) c P) (fst (add_lineage (W v) env t evs c))"
proof (cases "with_status t TActive c")
  case st: (Inr st)
  obtain w r where ap: "wo_append_batch (W v) (lineage_entries env st t evs) (co_wal c) = (w, r)" by force
  have ev: "lineage_events st = P t" using assms status_entry [OF st] by (simp add: added_rel_def)
  show ?thesis
  proof (cases r)
    case (Inl e)
    then show ?thesis using st ap by (simp add: add_lineage_def added_keep [OF assms])
  next
    case (Inr ls)
    then show ?thesis using st ap ev
      by (simp add: add_lineage_def) (rule added_update [OF assms], simp_all add: lineage_events_add)
  qed
qed (use assms in \<open>simp add: add_lineage_def\<close>)

lemma prepare_added:
  assumes "added_rel P c"
  shows "added_rel P (fst (prepare (W v) env t c))"
proof (cases "with_status t TActive c")
  case st: (Inr st)
  obtain w r where ap: "wo_append (W v) (prepare_entry env st t) (co_wal c) = (w, r)" by force
  note same = added_same [OF assms status_entry [OF st]]
  show ?thesis
    using st ap by (cases r) (auto simp: prepare_def Let_def intro: same)
qed (use assms in \<open>simp add: prepare_def\<close>)

lemma mark_committed_entries [simp]: "ts_entries (mark_committed sto st) = ts_entries st"
  by (simp add: mark_committed_def)

lemma commit_added:
  assumes "added_rel P c"
  shows "added_rel P (fst (commit (W v) env t c))"
proof (cases "with_status t TPrepared c")
  case st: (Inr st)
  obtain w r where ap: "wo_append (W v) (commit_entry env st t) (co_wal c) = (w, r)" by force
  note same = added_same [OF assms status_entry [OF st]]
  show ?thesis
  proof (cases "is_ok r \<and> is_ok (storage_write env (lineage_events st) (co_storage c))")
    case False
    then show ?thesis using st ap
      by (cases r; cases "storage_write env (lineage_events st) (co_storage c)") (auto simp: commit_def Let_def intro: same)
  next
    case True
    then obtain l sto where ok: "r = Inr l" "storage_write env (lineage_events st) (co_storage c) = Inr sto"
      by (auto simp: is_ok_conv)
    obtain w' x where cb: "wo_commit_batch (W v) (ts_lsns (mark_committed sto (st\<lparr>ts_status := TCommitting\<rparr>))) w = (w', x)" by force
    show ?thesis using st ap ok cb
      by (cases x) (auto simp: commit_def Let_def intro: same added_delete [OF assms])
  qed
qed (use assms in \<open>simp add: commit_def\<close>)

lemma abort_added:
  assumes "added_rel P c"
  shows "added_rel P (fst (abort (W v) env t reason c))"
proof (cases "map_of (co_transactions c) t")
  case (Some st)
  obtain w r where ap: "wo_append (W v) (abort_entry env reason t) (co_wal c) = (w, r)" by force
  show ?thesis using Some ap assms
    by (cases r) (auto simp: abort_def  intro: added_same [OF assms Some] added_delete [OF assms])
qed (use assms in \<open>simp add: abort_def\<close>)

lemma checkpoint_added:
  assumes "added_rel P c"
  shows "added_rel P (fst (checkpoint (W v) env c))"
  by (rule added_keep [OF assms]) (simp add: checkpoint_def split: prod.split sum.split)

lemma co_exec_added:
  assumes "added_rel P c"
  shows "added_rel (co_added W x c P) (co_exec W x c)"
proof (cases x)
  case (Pair v cmd)
  show ?thesis unfolding Pair
    by (cases cmd) (use assms begin_added [of P c W v] add_added [of P c W v] prepare_added commit_added abort_added checkpoint_added
        in \<open>simp_all add: co_recover_nothing connect_storage_def added_rel_def\<close>)
qed

interpretation ce: guarded_simulation added_rel "\<lambda>_ _. True" "co_exec W" "co_added W" for W
  by unfold_locales (rule co_exec_added)

definition added_events ::
  "('env \<Rightarrow> ('w, 'ev) wal_ops) \<Rightarrow> ('env \<times> 'ev co_command) list \<Rightarrow> ('w, 'ev) coordinator \<Rightarrow> u64 \<Rightarrow> 'ev list" where
  "added_events W xs c = spec_run (co_added W) (co_exec W) xs c (\<lambda>_. [])"

section \<open>Properties\<close>


text \<open>
  A commit writes exactly the events of its transaction. Over any log and after any operations, a
  commit that succeeds hands the connected storage one batch: all events added to the transaction since it
  began, in the order they were added, and nothing else; without events or without a storage it writes
  nothing. The transaction is gone afterwards.
\<close>

lemma commit_writes_added_events:
  assumes "commit (W v) env t (fold (co_exec W) xs (coordinator_new w)) = (c', Inr ())"
  shows "co_storage c' = map_option (\<lambda>batches. if added_events W xs (coordinator_new w) t = [] then batches
        else batches @ [added_events W xs (coordinator_new w) t]) (co_storage (fold (co_exec W) xs (coordinator_new w))) \<and>
    get_transaction_state t c' = None"
proof -
  let ?c = "fold (co_exec W) xs (coordinator_new w)"
  have "added_rel (\<lambda>_. []) (coordinator_new w)" by (simp add: added_rel_def coordinator_new_def)
  then have rel: "added_rel (added_events W xs (coordinator_new w)) ?c"
    unfolding added_events_def by (rule ce.run_related [OF _ guarded_run_True])
  obtain st where st: "with_status t TPrepared ?c = Inr st"
    using assms by (auto simp: commit_def split: sum.splits)
  have "lineage_events st = added_events W xs (coordinator_new w) t"
    using rel status_entry [OF st] by (simp add: added_rel_def)
  then show ?thesis
    using assms st by (auto simp: commit_def Let_def storage_write_def remove_tx_def get_transaction_state_def hm_simps
        split: prod.splits sum.splits option.splits if_splits)
qed

text \<open>
  A commit whose storage write fails can be aborted. When the storage refuses the batch after the commit
  record was logged, the commit reports the storage error, leaves the storage and the transaction in place,
  and an abort (by the caller or by the timeout handler) then succeeds and logs an abort record behind the
  commit record.
\<close>

lemma failed_commit_then_abort:
  assumes "get_transaction_state t c = Some st" "ts_status st = TPrepared"
    "wo_append W (commit_entry env st t) (co_wal c) = (w1, Inr l1)"
    "co_storage c = Some batches" "lineage_events st \<noteq> []" "ce_storage_error env = Some msg"
    "wo_append W' (abort_entry env' reason t) w1 = (w2, Inr l2)"
  shows "\<exists>c1 c2. commit W env t c = (c1, Inl (WCoordinationFailed msg)) \<and> co_wal c1 = w1 \<and>
    abort W' env' t reason c1 = (c2, Inr ()) \<and> co_wal c2 = w2 \<and> co_storage c2 = Some batches \<and>
    get_transaction_state t c2 = None"
proof -
  let ?c1 = "set_tx t (st\<lparr>ts_status := TCommitting\<rparr>) (c\<lparr>co_wal := w1\<rparr>)"
  have "commit W env t c = (?c1, Inl (WCoordinationFailed msg))"
    using assms(1-6) by (simp add: commit_def with_status_def get_transaction_state_def storage_write_def Let_def)
  moreover have "abort W' env' t reason ?c1 = (remove_tx t (?c1\<lparr>co_wal := w2\<rparr>), Inr ())"
    using assms(7) by (simp add: abort_def set_tx_def hm_simps)
  ultimately show ?thesis
    using assms(4) by (auto simp: set_tx_def remove_tx_def get_transaction_state_def hm_simps)
qed

fun as_status :: "tx_recovery_status \<Rightarrow> tx_status" where
  "as_status RActive = TActive"
| "as_status RPrepared = TPrepared"
| "as_status RCommitted = TCommitted"
| "as_status RAborted = TAborted"

lemma reconstruct_row:
  "map_option ts_status (map_of (fold (reconstruct_step now) es m) t) =
     map_option (\<lambda>r. as_status (tr_status r)) (fold (row_step t) es v)"
  if "map_option ts_status (map_of m t) = map_option (\<lambda>r. as_status (tr_status r)) v"
  using that
proof (induction es arbitrary: m v)
  case (Cons e es)
  have "map_option ts_status (map_of (reconstruct_step now e m) t) = map_option (\<lambda>r. as_status (tr_status r)) (row_step t e v)"
  proof (cases "tx_op_of e")
    case None
    then show ?thesis using Cons.prems
      by (simp add: reconstruct_step_def row_step_def row_op_def begins_def status_of_def option.map_comp comp_def)
  next
    case (Some op)
    then show ?thesis using Cons.prems
      by (cases op; cases v) (auto simp: reconstruct_step_def push_status_def row_step_def row_op_def begins_def status_of_def hm_simps
          split: option.splits)
  qed
  then show ?case using Cons.IH by simp
qed simp

text \<open>
  The two recoveries see the same transactions. For every list of log entries and every transaction,
  the status the coordinator reconstructs is the status the recovery manager reports, and they know the
  same transactions.
\<close>

lemma recoveries_agree_on_status:
  "map (\<lambda>r. as_status (tr_status r)) (filter (\<lambda>r. tr_tx_id r = t) (recover_transactions es)) =
     (case reconstruct_transaction_states now es of Inl _ \<Rightarrow> []
      | Inr states \<Rightarrow> (case map_of states t of None \<Rightarrow> [] | Some st \<Rightarrow> [ts_status st]))"
proof -
  have keep: "tr_status (tx_decide a b r) = tr_status r" for a b r
    by (simp add: tx_decide_def split: tx_recovery_status.split)
  show ?thesis
    using reconstruct_row [of "[]" t None now es]
    by (auto simp: reconstruct_transaction_states_def recover_transactions_row keep split: option.splits)
qed

section \<open>Witnesses\<close>

text \<open>A log that is the list of its entries.\<close>

definition list_ops :: "('ev wal_entry list, 'ev) wal_ops" where
  "list_ops = \<lparr>wo_append = (\<lambda>e w. (w @ [e], Inr (of_nat (length w)))),
     wo_append_batch = (\<lambda>es w. (w @ es, Inr (map (\<lambda>i. of_nat (length w + i)) [0..<length es]))),
     wo_commit_batch = (\<lambda>ls w. (w, Inr ())), wo_sync = (\<lambda>w. (w, Inr ())), wo_tail_lsn = (\<lambda>w. of_nat (length w))\<rparr>"

definition calm :: co_env where
  "calm = \<lparr>ce_now = 0, ce_timestamp_us = 0, ce_storage_error = None\<rparr>"

definition demo_commands :: "(unit \<times> string co_command) list" where
  "demo_commands = [((), CConnect []), ((), CBegin calm), ((), CAdd calm 1 [''a'', ''b'']), ((), CPrepare calm 1)]"

definition demo_coordinator :: "(string wal_entry list, string) coordinator" where
  "demo_coordinator = fold (co_exec (\<lambda>_. list_ops)) demo_commands (coordinator_new [])"

lemma demo_prepared:
  "map_of (co_transactions demo_coordinator) 1 \<noteq> None"
  "ts_status (the (map_of (co_transactions demo_coordinator) 1)) = TPrepared"
  "lineage_events (the (map_of (co_transactions demo_coordinator) 1)) = [''a'', ''b'']"
  "co_storage demo_coordinator = Some []"
  by (simp_all add: demo_coordinator_def demo_commands_def coordinator_new_def connect_storage_def co_begin_transaction_def add_lineage_def
      prepare_def with_status_def list_ops_def calm_def set_tx_def Let_def add_participant_def prepare_participant_def
      lineage_events_def lineage_entries_def List.map_filter_def wal_lineage_def wal_entry_new_def)

lemma commit_writes_added_events_witness:
  "\<exists>c'. commit list_ops calm 1 demo_coordinator = (c', Inr ()) \<and> co_storage c' = Some [[''a'', ''b'']]"
proof -
  obtain c' where c': "commit list_ops calm 1 demo_coordinator = (c', Inr ())"
    using demo_prepared by (auto simp: commit_def with_status_def storage_write_def calm_def list_ops_def Let_def)
  have "added_events (\<lambda>_. list_ops) demo_commands (coordinator_new []) 1 = [''a'', ''b'']"
    by (simp add: added_events_def demo_commands_def coordinator_new_def connect_storage_def co_begin_transaction_def add_lineage_def
        with_status_def list_ops_def calm_def set_tx_def Let_def)
  then show ?thesis
    using commit_writes_added_events [of "\<lambda>_. list_ops" "()" calm 1 demo_commands "[]" c'] c' demo_prepared(4)
    by (simp add: demo_coordinator_def)
qed

lemma failed_commit_then_abort_witness:
  "\<exists>c1 c2. commit list_ops (calm\<lparr>ce_storage_error := Some ''down''\<rparr>) 1 demo_coordinator = (c1, Inl (WCoordinationFailed ''down'')) \<and>
     abort list_ops calm 1 ''Transaction timeout'' c1 = (c2, Inr ()) \<and> co_storage c2 = Some []"
proof -
  obtain st where st: "get_transaction_state 1 demo_coordinator = Some st" "ts_status st = TPrepared" "lineage_events st \<noteq> []"
    using demo_prepared by (auto simp: get_transaction_state_def)
  have ap: "wo_append list_ops e w = (w @ [e], Inr (of_nat (length w)))" for e :: "string wal_entry" and w
    by (simp add: list_ops_def)
  show ?thesis
    using failed_commit_then_abort [OF st(1,2) ap demo_prepared(4) st(3) _ ap, of "calm\<lparr>ce_storage_error := Some ''down''\<rparr>" "''down''"
        calm "''Transaction timeout''"] by auto
qed













end
