(* ===== verification/KafkaBreaker.thy ===== *)
theory KafkaBreaker
  imports WalCoord BreakerSpec
begin

text \<open>
  Model of \<^verbatim>\<open>arcxa-coordinator/src/storage/kafka/circuit_breaker.rs\<close>, the breaker in front of the message
  broker. Unlike the breaker of \<^verbatim>\<open>arcxa-core\<close> it limits the requests in flight while it is half open. The state
  is behind one lock; each of the steps \<open>kb_should_allow\<close>, \<open>kb_record_success\<close> and \<open>kb_record_failure\<close> is atomic, and
  \<open>kb_run\<close> interleaves the steps of several requests, also of requests that are cancelled between their two
  steps. \<open>kb_call\<close> is one request that runs to its end. Durations in milliseconds.
\<close>

section \<open>State and operations\<close>

datatype kb_state = KbClosed | KbOpen | KbHalfOpen

record kb_config =
  kb_failure_threshold :: u32
  kb_success_threshold :: u32
  kb_timeout :: nat
  kb_half_open_max_requests :: u32

definition kb_config_default :: kb_config where
  "kb_config_default = \<lparr>kb_failure_threshold = 5, kb_success_threshold = 3, kb_timeout = 30000, kb_half_open_max_requests = 3\<rparr>"

definition kb_config_production :: kb_config where
  "kb_config_production = \<lparr>kb_failure_threshold = 5, kb_success_threshold = 3, kb_timeout = 30000, kb_half_open_max_requests = 3\<rparr>"

definition kb_config_aggressive :: kb_config where
  "kb_config_aggressive = \<lparr>kb_failure_threshold = 3, kb_success_threshold = 2, kb_timeout = 10000, kb_half_open_max_requests = 5\<rparr>"

definition kb_config_conservative :: kb_config where
  "kb_config_conservative = \<lparr>kb_failure_threshold = 10, kb_success_threshold = 5, kb_timeout = 60000, kb_half_open_max_requests = 2\<rparr>"

record kafka_breaker =
  kb_cfg :: kb_config
  kb_st :: kb_state
  kb_failures :: u32
  kb_successes :: u32
  kb_opened_at :: "nat option"
  kb_half_open_requests :: u32
  kb_total_failures :: u64
  kb_total_successes :: u64
  kb_transitions :: u32

definition kb_new :: "kb_config \<Rightarrow> kafka_breaker" where
  "kb_new cfg = \<lparr>kb_cfg = cfg, kb_st = KbClosed, kb_failures = 0, kb_successes = 0, kb_opened_at = None,
     kb_half_open_requests = 0, kb_total_failures = 0, kb_total_successes = 0, kb_transitions = 0\<rparr>"

text \<open>The first step of \<^verbatim>\<open>should_allow_request\<close>: an open breaker becomes half open when its timeout has passed.\<close>

definition kb_tick :: "nat \<Rightarrow> kafka_breaker \<Rightarrow> kafka_breaker" where
  "kb_tick now b =
     (if kb_st b = KbOpen
      then (case kb_opened_at b of
              Some opened_at \<Rightarrow>
                if now - opened_at \<ge> kb_timeout (kb_cfg b)
                then b\<lparr>kb_st := KbHalfOpen, kb_successes := 0, kb_half_open_requests := 0, kb_transitions := kb_transitions b + 1\<rparr>
                else b
            | None \<Rightarrow> b)
      else b)"

definition kb_should_allow :: "nat \<Rightarrow> kafka_breaker \<Rightarrow> bool \<times> kafka_breaker" where
  "kb_should_allow now b =
     (let b = kb_tick now b in
      case kb_st b of
        KbClosed \<Rightarrow> (True, b)
      | KbOpen \<Rightarrow> (False, b)
      | KbHalfOpen \<Rightarrow>
          if kb_half_open_requests b < kb_half_open_max_requests (kb_cfg b)
          then (True, b\<lparr>kb_half_open_requests := kb_half_open_requests b + 1\<rparr>)
          else (False, b))"

text \<open>\<^verbatim>\<open>saturating_sub(1)\<close>.\<close>

definition less_one :: "u32 \<Rightarrow> u32" where
  "less_one n = (if n = 0 then 0 else n - 1)"

definition kb_record_success :: "kafka_breaker \<Rightarrow> kafka_breaker" where
  "kb_record_success b0 =
     (let b = b0\<lparr>kb_total_successes := kb_total_successes b0 + 1\<rparr> in
      case kb_st b of
        KbClosed \<Rightarrow> if kb_failures b > 0 then b\<lparr>kb_failures := 0\<rparr> else b
      | KbHalfOpen \<Rightarrow>
          (let b1 = b\<lparr>kb_successes := kb_successes b + 1, kb_half_open_requests := less_one (kb_half_open_requests b)\<rparr>
           in if kb_successes b1 \<ge> kb_success_threshold (kb_cfg b1)
              then b1\<lparr>kb_st := KbClosed, kb_failures := 0, kb_successes := 0, kb_opened_at := None,
                      kb_transitions := kb_transitions b1 + 1\<rparr>
              else b1)
      | KbOpen \<Rightarrow> b)"

definition kb_record_failure :: "nat \<Rightarrow> kafka_breaker \<Rightarrow> kafka_breaker" where
  "kb_record_failure now b0 =
     (let b = b0\<lparr>kb_total_failures := kb_total_failures b0 + 1\<rparr> in
      case kb_st b of
        KbClosed \<Rightarrow>
          (let b1 = b\<lparr>kb_failures := kb_failures b + 1, kb_successes := 0\<rparr>
           in if kb_failures b1 \<ge> kb_failure_threshold (kb_cfg b1)
              then b1\<lparr>kb_st := KbOpen, kb_opened_at := Some now, kb_transitions := kb_transitions b1 + 1\<rparr>
              else b1)
      | KbHalfOpen \<Rightarrow>
          b\<lparr>kb_half_open_requests := less_one (kb_half_open_requests b), kb_st := KbOpen,
            kb_failures := kb_failure_threshold (kb_cfg b), kb_successes := 0, kb_opened_at := Some now,
            kb_transitions := kb_transitions b + 1\<rparr>
      | KbOpen \<Rightarrow> b\<lparr>kb_failures := kb_failures b + 1\<rparr>)"

definition kb_open_message :: string where
  "kb_open_message = ''Circuit breaker is OPEN - request rejected''"

text \<open>
  \<^verbatim>\<open>call\<close>: the future handed to it runs only when the request is allowed; \<open>f\<close> is its result and \<open>after\<close> the time
  when it returned. The third component says whether it ran.
\<close>

definition kb_call :: "nat \<Rightarrow> nat \<Rightarrow> string + 't \<Rightarrow> kafka_breaker \<Rightarrow> kafka_breaker \<times> (string + 't) \<times> bool" where
  "kb_call now after f b =
     (case kb_should_allow now b of
        (False, b') \<Rightarrow> (b', Inl kb_open_message, False)
      | (True, b') \<Rightarrow>
          (case f of
             Inr result \<Rightarrow> (kb_record_success b', Inr result, True)
           | Inl e \<Rightarrow> (kb_record_failure after b', Inl e, True)))"

definition kb_is_open :: "kafka_breaker \<Rightarrow> bool" where
  "kb_is_open b \<longleftrightarrow> kb_st b = KbOpen"

record kb_metrics =
  km_state :: kb_state
  km_consecutive_failures :: u32
  km_consecutive_successes :: u32
  km_total_failures :: u64
  km_total_successes :: u64
  km_state_transitions :: u32
  km_time_in_open_state :: "nat option"

definition kb_metrics_snapshot :: "nat \<Rightarrow> kafka_breaker \<Rightarrow> kb_metrics" where
  "kb_metrics_snapshot now b = \<lparr>km_state = kb_st b, km_consecutive_failures = kb_failures b,
     km_consecutive_successes = kb_successes b, km_total_failures = kb_total_failures b,
     km_total_successes = kb_total_successes b, km_state_transitions = kb_transitions b,
     km_time_in_open_state = map_option (\<lambda>t. now - t) (kb_opened_at b)\<rparr>"

section \<open>One request at a time: the contract\<close>

text \<open>
  Between two requests that run to their ends no request is in flight. \<open>kb_enter\<close> is the check of such a request
  with its own slot left out, which is all the contract asks for.
\<close>

definition kb_inv :: "kafka_breaker \<Rightarrow> bool" where
  "kb_inv b \<longleftrightarrow> kb_half_open_requests b = 0 \<and> 0 < kb_half_open_max_requests (kb_cfg b) \<and>
     (kb_st b = KbClosed \<longrightarrow> unat (kb_failures b) < max 1 (unat (kb_failure_threshold (kb_cfg b)))) \<and>
     (kb_st b = KbOpen \<longrightarrow> kb_opened_at b \<noteq> None) \<and>
     (kb_st b = KbHalfOpen \<longrightarrow> unat (kb_successes b) < max 1 (unat (kb_success_threshold (kb_cfg b))))"

definition kb_view :: "kafka_breaker \<Rightarrow> breaker_view" where
  "kb_view b = (case kb_st b of
     KbClosed \<Rightarrow> VClosed (unat (kb_failures b))
   | KbOpen \<Rightarrow> VOpen (the (kb_opened_at b))
   | KbHalfOpen \<Rightarrow> VHalf (unat (kb_successes b)))"

definition kb_enter :: "nat \<Rightarrow> kafka_breaker \<Rightarrow> bool \<times> kafka_breaker" where
  "kb_enter now b = (let (a, b') = kb_should_allow now b in (a, b'\<lparr>kb_half_open_requests := 0\<rparr>))"

lemma less_one_simps [simp]: "less_one 0 = 0" "less_one 1 = 0"
  by (simp_all add: less_one_def)

lemma kb_inv_new: "0 < kb_half_open_max_requests cfg \<Longrightarrow> kb_inv (kb_new cfg)"
  by (simp add: kb_inv_def kb_new_def)

lemma kb_success_inv: "kb_inv b \<Longrightarrow> kb_inv (kb_record_success b)"
  using count_step [of "kb_successes b" "kb_success_threshold (kb_cfg b)"]
  by (cases "kb_st b") (auto simp: kb_inv_def kb_record_success_def Let_def)

lemma kb_failure_inv: "kb_inv b \<Longrightarrow> kb_inv (kb_record_failure now b)"
  using count_step [of "kb_failures b" "kb_failure_threshold (kb_cfg b)"]
  by (cases "kb_st b") (auto simp: kb_inv_def kb_record_failure_def Let_def)

lemma kb_enter_eq:
  assumes "kb_inv b"
  shows "kb_enter now b =
    (if kb_st b \<noteq> KbOpen then (True, b)
     else if now - the (kb_opened_at b) \<ge> kb_timeout (kb_cfg b)
     then (True, b\<lparr>kb_st := KbHalfOpen, kb_successes := 0, kb_half_open_requests := 0, kb_transitions := kb_transitions b + 1\<rparr>)
     else (False, b))"
  using assms
  by (cases "kb_st b"; cases "kb_opened_at b") (simp_all add: kb_inv_def kb_enter_def kb_should_allow_def kb_tick_def)

lemma kb_enter_inv: "kb_inv b \<Longrightarrow> kb_inv (snd (kb_enter now b))"
  by (simp add: kb_enter_eq) (simp add: kb_inv_def less_max_iff_disj)

lemma kb_config_same: "kb_cfg (kb_record_success b) = kb_cfg b" "kb_cfg (kb_record_failure now b) = kb_cfg b"
  "kb_cfg (snd (kb_should_allow now b)) = kb_cfg b" "kb_cfg (snd (kb_enter now b)) = kb_cfg b"
  by (cases "kb_st b"; simp add: kb_record_success_def kb_record_failure_def kb_should_allow_def kb_enter_def kb_tick_def Let_def
      split_beta split: option.split kb_state.split)+

lemma kb_enter_view:
  assumes "kb_inv b"
  shows "map_prod id kb_view (kb_enter now b) = view_allow (kb_timeout (kb_cfg b)) now (kb_view b)"
  by (cases "kb_st b") (simp_all add: kb_enter_eq [OF assms] kb_view_def)

lemma kb_fail_view:
  assumes "kb_inv b"
  shows "kb_view (kb_record_failure now b) = view_fail (unat (kb_failure_threshold (kb_cfg b))) now (kb_view b)"
  using assms count_step [of "kb_failures b" "kb_failure_threshold (kb_cfg b)"]
  by (cases "kb_st b") (auto simp: kb_inv_def kb_view_def kb_record_failure_def Let_def)

lemma kb_success_view:
  assumes "kb_inv b" "kb_view b = VHalf n"
  shows "kb_view (kb_record_success b) = view_half_success (unat (kb_success_threshold (kb_cfg b))) n"
  using assms count_step [of "kb_successes b" "kb_success_threshold (kb_cfg b)"]
  by (cases "kb_st b") (auto simp: kb_inv_def kb_view_def kb_record_success_def Let_def)

interpretation kb: breaker kb_view kb_enter kb_record_failure "\<lambda>_. kb_record_success"
  "\<lambda>b. unat (kb_failure_threshold (kb_cfg b))" "\<lambda>b. unat (kb_success_threshold (kb_cfg b))"
  "\<lambda>b. kb_timeout (kb_cfg b)" kb_inv
proof unfold_locales
  show "snd (kb_enter now b) = b" if "kb_inv b" "\<not> fst (kb_enter now b)" for now b
    using that(2) by (simp add: kb_enter_eq [OF that(1)] split: if_splits)
qed (simp_all add: kb_enter_view kb_fail_view kb_success_view kb_success_inv kb_failure_inv kb_enter_inv kb_config_same)

text \<open>A whole call of the code is a request of the contract: the slot it takes is given back when it returns.\<close>

lemma kb_allow_enter:
  assumes "kb_inv b"
  shows "kb_should_allow now b = (let (a, b') = kb_enter now b in
    (a, if kb_st b' = KbHalfOpen then b'\<lparr>kb_half_open_requests := 1\<rparr> else b'))"
proof -
  let ?b = "kb_tick now b"
  have t: "kb_half_open_requests ?b = 0" "0 < kb_half_open_max_requests (kb_cfg ?b)"
    using assms by (auto simp: kb_inv_def kb_tick_def split: option.split)
  then have same: "?b\<lparr>kb_half_open_requests := 0\<rparr> = ?b" by (metis kafka_breaker.surjective kafka_breaker.update_convs(6))
  show ?thesis
    using t by (cases "kb_st ?b") (simp_all add: kb_enter_def kb_should_allow_def same)
qed

lemma kb_slot_free:
  assumes "kb_half_open_requests b = 0" "kb_st b = KbHalfOpen"
  shows "kb_record_success (b\<lparr>kb_half_open_requests := 1\<rparr>) = kb_record_success b"
    "kb_record_failure now (b\<lparr>kb_half_open_requests := 1\<rparr>) = kb_record_failure now b"
  using assms by (simp_all add: kb_record_success_def kb_record_failure_def Let_def)

lemma kb_slot:
  assumes "kb_inv b"
  shows "fst (kb_should_allow now b) = fst (kb_enter now b)"
    "kb_record_success (snd (kb_should_allow now b)) = kb_record_success (snd (kb_enter now b))"
    "kb_record_failure after (snd (kb_should_allow now b)) = kb_record_failure after (snd (kb_enter now b))"
    "\<not> fst (kb_enter now b) \<Longrightarrow> snd (kb_should_allow now b) = snd (kb_enter now b)"
proof -
  have h: "kb_half_open_requests (snd (kb_enter now b)) = 0" by (simp add: kb_enter_def split_beta)
  show "fst (kb_should_allow now b) = fst (kb_enter now b)"
    "kb_record_success (snd (kb_should_allow now b)) = kb_record_success (snd (kb_enter now b))"
    "kb_record_failure after (snd (kb_should_allow now b)) = kb_record_failure after (snd (kb_enter now b))"
    using kb_slot_free [OF h] by (simp_all add: kb_allow_enter [OF assms] split_beta)
  assume "\<not> fst (kb_enter now b)"
  then have "kb_st (snd (kb_enter now b)) \<noteq> KbHalfOpen"
    by (simp add: kb_enter_eq [OF assms] split: if_splits)
  then show "snd (kb_should_allow now b) = snd (kb_enter now b)" by (simp add: kb_allow_enter [OF assms] split_beta)
qed

lemma kb_call_request:
  assumes "kb_inv b"
  shows "fst (kb_call now now f b) = snd (kb.request now (is_ok f) b)"
    "snd (snd (kb_call now now f b)) = fst (kb.request now (is_ok f) b)"
    "fst (snd (kb_call now now f b)) = (if fst (kb.request now (is_ok f) b) then f else Inl kb_open_message)"
  using kb_slot [OF assms, of now]
  by (cases f; cases "fst (kb_enter now b)"; simp add: kb_call_def kb.request_def split_beta)+

section \<open>Requests in flight at the same time\<close>

text \<open>
  The steps of concurrent requests in the order in which they take the lock, with the number of admitted requests that
  have not reported yet. A request whose future is dropped while it waits for the broker reports nothing.
\<close>

datatype kb_event = KbAsk nat | KbSucceed | KbFail nat | KbCancel

fun kb_guard :: "kb_event \<Rightarrow> kafka_breaker \<times> nat \<Rightarrow> bool" where
  "kb_guard (KbAsk now) s \<longleftrightarrow> True"
| "kb_guard _ s \<longleftrightarrow> 0 < snd s"

fun kb_exec :: "kb_event \<Rightarrow> kafka_breaker \<times> nat \<Rightarrow> kafka_breaker \<times> nat" where
  "kb_exec (KbAsk now) (b, n) = (let (a, b') = kb_should_allow now b in (b', if a then n + 1 else n))"
| "kb_exec KbSucceed (b, n) = (kb_record_success b, n - 1)"
| "kb_exec (KbFail now) (b, n) = (kb_record_failure now b, n - 1)"
| "kb_exec KbCancel (b, n) = (b, n - 1)"

definition kb_flight :: "kafka_breaker \<times> nat \<Rightarrow> bool" where
  "kb_flight s \<longleftrightarrow> (case s of (b, n) \<Rightarrow> 0 < kb_half_open_max_requests (kb_cfg b) \<and>
     (kb_st b = KbOpen \<longrightarrow> kb_opened_at b \<noteq> None) \<and>
     (kb_st b = KbHalfOpen \<longrightarrow> unat (kb_half_open_requests b) \<le> n))"

lemma kb_tick_flight: "kb_flight (b, n) \<Longrightarrow> kb_flight (kb_tick now b, n)"
  by (auto simp: kb_flight_def kb_tick_def split: option.split)

lemma slot_taken: "(c :: u32) < m \<Longrightarrow> unat c \<le> n \<Longrightarrow> unat (c + 1) \<le> n + 1"
  using unat_lt [of m] unat_Suc_word [of c] by (simp add: word_less_nat_alt)

lemma unat_less_one: "unat (less_one c) = unat c - 1"
  by (cases "c = 0") (simp_all add: less_one_def unat_minus_one)

lemma kb_ask_flight:
  assumes "kb_flight (b, n)"
  shows "kb_flight (kb_exec (KbAsk now) (b, n))"
  using kb_tick_flight [OF assms, of now] slot_taken [of "kb_half_open_requests (kb_tick now b)" _ n]
  by (cases "kb_st (kb_tick now b)") (auto simp: kb_flight_def kb_should_allow_def Let_def)

lemma kb_report_flight:
  assumes "kb_flight (b, n)" "0 < n"
  shows "kb_flight (kb_record_success b, n - 1)" "kb_flight (kb_record_failure now b, n - 1)"
  using assms
  by (cases "kb_st b"; auto simp: kb_flight_def kb_record_success_def kb_record_failure_def Let_def unat_less_one)+

lemma kb_step_flight: "kb_flight s \<Longrightarrow> kb_guard e s \<Longrightarrow> e \<noteq> KbCancel \<Longrightarrow> kb_flight (kb_exec e s)"
  using kb_ask_flight kb_report_flight by (cases s; cases e) auto

lemma kb_run_flight:
  "kb_flight s \<Longrightarrow> guarded_run kb_guard kb_exec es s \<Longrightarrow> KbCancel \<notin> set es \<Longrightarrow> kb_flight (fold kb_exec es s)"
proof (induction es arbitrary: s)
  case (Cons e es)
  from Cons.prems kb_step_flight [of s e] have "kb_flight (kb_exec e s)" by auto
  from Cons.IH [OF this] Cons.prems show ?case by simp
qed simp

lemma kb_run_config: "kb_cfg (fst (fold kb_exec es s)) = kb_cfg (fst s)"
proof (induction es arbitrary: s)
  case (Cons e es)
  have "kb_cfg (fst (kb_exec e s)) = kb_cfg (fst s)"
    by (cases s; cases e) (simp_all add: kb_config_same split_beta Let_def)
  with Cons show ?case by simp
qed simp

text \<open>
  Once all requests have reported, whatever the order in which their steps interleaved, the next request is refused only
  while the breaker is open and its timeout has not passed.
\<close>

lemma quiet_breaker_admits:
  assumes "0 < kb_half_open_max_requests cfg" "guarded_run kb_guard kb_exec es (kb_new cfg, 0)" "KbCancel \<notin> set es"
    and "fold kb_exec es (kb_new cfg, 0) = (b, 0)"
  shows "fst (kb_should_allow now b) \<longleftrightarrow> \<not> (kb_st b = KbOpen \<and> now - the (kb_opened_at b) < kb_timeout cfg)"
proof -
  have "kb_flight (kb_new cfg, 0)" using assms(1) by (simp add: kb_flight_def kb_new_def)
  from kb_run_flight [OF this assms(2,3)] have f: "kb_flight (b, 0)" by (simp add: assms(4))
  have cfg: "kb_cfg b = cfg" using kb_run_config [of es "(kb_new cfg, 0)"] by (simp add: assms(4)) (simp add: kb_new_def)
  show ?thesis
    using f by (cases "kb_st b"; cases "kb_opened_at b")
      (auto simp: kb_flight_def kb_should_allow_def kb_tick_def cfg word_less_nat_alt)
qed

text \<open>
  A dropped request never gives its slot back: when as many requests were dropped as there are slots, the half-open breaker
  refuses every later request, at any time. With a limit of zero that is so from the start.
\<close>

lemma wedged_breaker:
  assumes "kb_st b = KbHalfOpen" "kb_half_open_max_requests (kb_cfg b) \<le> kb_half_open_requests b"
  shows "fold kb_exec (map KbAsk ts) (b, 0) = (b, 0) \<and> (\<forall>t. \<not> fst (kb_should_allow t b))"
proof -
  have no: "kb_should_allow t b = (False, b)" for t using assms by (simp add: kb_should_allow_def kb_tick_def)
  then have "fold kb_exec (map KbAsk ts) (b, 0) = (b, 0)" by (induction ts) simp_all
  then show ?thesis using no by simp
qed

lemma dropped_requests_wedge_the_breaker:
  "\<exists>b. fold kb_exec ([KbAsk 0, KbFail 0, KbAsk 0, KbFail 0, KbAsk 0, KbFail 0] @
      [KbAsk 10000, KbAsk 10000, KbAsk 10000, KbAsk 10000, KbAsk 10000] @ [KbCancel, KbCancel, KbCancel, KbCancel, KbCancel]) (kb_new kb_config_aggressive, 0) = (b, 0) \<and>
    (\<forall>t. \<not> fst (kb_should_allow t b))"
proof -
  let ?b = "\<lparr>kb_cfg = kb_config_aggressive, kb_st = KbHalfOpen, kb_failures = 3, kb_successes = 0, kb_opened_at = Some 0,
     kb_half_open_requests = 5, kb_total_failures = 3, kb_total_successes = 0, kb_transitions = 2\<rparr>"
  have "fold kb_exec ([KbAsk 0, KbFail 0, KbAsk 0, KbFail 0, KbAsk 0, KbFail 0] @
      [KbAsk 10000, KbAsk 10000, KbAsk 10000, KbAsk 10000, KbAsk 10000] @ [KbCancel, KbCancel, KbCancel, KbCancel, KbCancel]) (kb_new kb_config_aggressive, 0) = (?b, 0)"
    by (simp add: kb_new_def kb_config_aggressive_def kb_should_allow_def kb_tick_def kb_record_failure_def Let_def)
  moreover have "\<forall>t. \<not> fst (kb_should_allow t ?b)"
    using wedged_breaker [of ?b "[]"] by (simp add: kb_config_aggressive_def)
  ultimately show ?thesis by blast
qed

end
