(* ===== verification/DurableSink.thy ===== *)
theory DurableSink
  imports FileWal KafkaBreaker
begin

text \<open>
  Model of \<^verbatim>\<open>arcxa-coordinator/src/storage/kafka/acknowledgment_tracker.rs\<close> and \<^verbatim>\<open>durable_sink.rs\<close>: lineage events are
  written to the file log, tracked, sent to the broker behind the breaker, and committed in the log when the broker has
  confirmed them. The log is the one of \<open>FileWal\<close>, the breaker that of \<open>KafkaBreaker\<close>. One send runs to its end before the
  next one starts. What a send reads from outside is its argument \<open>send_env\<close>: the identifier drawn by \<^verbatim>\<open>Uuid::new_v4\<close>, the
  clocks, the answers of the file system and the delivery result of the broker client. \<open>json\<close> stands for \<^verbatim>\<open>serde_json::to_vec\<close>
  on events. The records handed to the broker client are collected in \<open>sk_sent\<close>. An \<^verbatim>\<open>Instant\<close> is a natural number.
\<close>

section \<open>Acknowledgment tracker\<close>

record 'ev pending_ack =
  pa_event_id :: u128
  pa_lsn :: lsn
  pa_event :: 'ev
  pa_written_at :: nat
  pa_partition :: "int option"
  pa_offset :: "int option"
  pa_retry_count :: u32

definition pending_ack_new :: "nat \<Rightarrow> u128 \<Rightarrow> lsn \<Rightarrow> 'ev \<Rightarrow> 'ev pending_ack" where
  "pending_ack_new now eid l ev = \<lparr>pa_event_id = eid, pa_lsn = l, pa_event = ev, pa_written_at = now, pa_partition = None,
     pa_offset = None, pa_retry_count = 0\<rparr>"

definition with_kafka_location :: "int \<Rightarrow> int \<Rightarrow> 'ev pending_ack \<Rightarrow> 'ev pending_ack" where
  "with_kafka_location p off a = a\<lparr>pa_partition := Some p, pa_offset := Some off\<rparr>"

definition ack_age :: "nat \<Rightarrow> 'ev pending_ack \<Rightarrow> nat" where
  "ack_age now a = now - pa_written_at a"

definition increment_retry :: "'ev pending_ack \<Rightarrow> 'ev pending_ack" where
  "increment_retry a = a\<lparr>pa_retry_count := pa_retry_count a + 1\<rparr>"

record ack_config =
  ac_cleanup_interval :: nat
  ac_ack_retention :: nat
  ac_max_pending :: nat

definition ack_config_default :: ack_config where
  "ack_config_default = \<lparr>ac_cleanup_interval = 60000, ac_ack_retention = 3600000, ac_max_pending = 100000\<rparr>"

text \<open>The log, which the tracker shares with the sink, is passed to the operation that commits.\<close>

record 'ev ack_tracker =
  at_pending :: "(u128, 'ev pending_ack) hmap"
  at_acknowledged :: "(u128, nat \<times> lsn) hmap"
  at_config :: ack_config
  at_total_acknowledged :: u64
  at_total_pending :: u64

definition ack_tracker_new :: "ack_config \<Rightarrow> 'ev ack_tracker" where
  "ack_tracker_new cfg = \<lparr>at_pending = [], at_acknowledged = [], at_config = cfg, at_total_acknowledged = 0, at_total_pending = 0\<rparr>"

definition track_pending :: "nat \<Rightarrow> u128 \<Rightarrow> lsn \<Rightarrow> 'ev \<Rightarrow> 'ev ack_tracker \<Rightarrow> 'ev ack_tracker" where
  "track_pending now eid l ev t =
     t\<lparr>at_pending := AList.update eid (pending_ack_new now eid l ev) (at_pending t), at_total_pending := at_total_pending t + 1\<rparr>"

text \<open>
  The partition and the offset are put into the entry after it was taken out of the map, so nothing keeps them.
\<close>

definition mark_acknowledged :: "nat \<Rightarrow> u128 \<Rightarrow> int \<Rightarrow> int \<Rightarrow> 'ev ack_tracker \<times> 'ev file_wal \<Rightarrow> 'ev ack_tracker \<times> 'ev file_wal" where
  "mark_acknowledged now eid p off tw =
     (case tw of (t, w) \<Rightarrow>
      (case map_of (at_pending t) eid of
         Some pending \<Rightarrow>
           (let pending = with_kafka_location p off pending;
                t1 = t\<lparr>at_pending := AList.delete eid (at_pending t),
                       at_acknowledged := AList.update eid (now, pa_lsn pending) (at_acknowledged t)\<rparr>
            in (t1\<lparr>at_total_acknowledged := at_total_acknowledged t + 1, at_total_pending := at_total_pending t - 1\<rparr>,
                wal_commit (pa_lsn pending) w))
       | None \<Rightarrow> (t, w)))"

definition ack_mark_failed :: "u128 \<Rightarrow> 'ev ack_tracker \<Rightarrow> 'ev ack_tracker" where
  "ack_mark_failed eid t =
     (case map_of (at_pending t) eid of
        Some entry \<Rightarrow> t\<lparr>at_pending := AList.update eid (increment_retry entry) (at_pending t)\<rparr>
      | None \<Rightarrow> t)"

definition is_acknowledged :: "u128 \<Rightarrow> 'ev ack_tracker \<Rightarrow> bool" where
  "is_acknowledged eid t \<longleftrightarrow> map_of (at_acknowledged t) eid \<noteq> None"

definition get_pending :: "'ev ack_tracker \<Rightarrow> 'ev pending_ack list" where
  "get_pending t = map snd (at_pending t)"

definition pending_count :: "'ev ack_tracker \<Rightarrow> nat" where
  "pending_count t = length (at_pending t)"

definition acknowledged_count :: "'ev ack_tracker \<Rightarrow> nat" where
  "acknowledged_count t = length (at_acknowledged t)"

definition oldest_pending_age :: "nat \<Rightarrow> 'ev ack_tracker \<Rightarrow> nat option" where
  "oldest_pending_age now t =
     (if at_pending t = [] then None else Some (Max (set (map (ack_age now \<circ> snd) (at_pending t)))))"

definition cleanup_acknowledged :: "nat \<Rightarrow> 'ev ack_tracker \<Rightarrow> 'ev ack_tracker \<times> nat" where
  "cleanup_acknowledged now t =
     (let old = (\<lambda>(eid :: u128, acked_at, l :: lsn). acked_at + ac_ack_retention (at_config t) < now)
      in (t\<lparr>at_acknowledged := filter (Not \<circ> old) (at_acknowledged t)\<rparr>, length (filter old (at_acknowledged t))))"

definition is_at_capacity :: "'ev ack_tracker \<Rightarrow> bool" where
  "is_at_capacity t \<longleftrightarrow> ac_max_pending (at_config t) \<le> pending_count t"

record ack_metrics =
  am_pending_count :: nat
  am_acknowledged_count :: nat
  am_total_acknowledged :: u64
  am_total_pending :: u64
  am_oldest_pending_age :: "nat option"

definition ack_metrics_snapshot :: "nat \<Rightarrow> 'ev ack_tracker \<Rightarrow> ack_metrics" where
  "ack_metrics_snapshot now t = \<lparr>am_pending_count = pending_count t, am_acknowledged_count = acknowledged_count t,
     am_total_acknowledged = at_total_acknowledged t, am_total_pending = at_total_pending t,
     am_oldest_pending_age = oldest_pending_age now t\<rparr>"

section \<open>The sink\<close>

record kafka_message =
  msg_topic :: string
  msg_key :: u128
  msg_payload :: bytes

record kafka_config =
  kc_topic :: string
  kc_ack_tracking :: ack_config

record 'ev sink =
  sk_wal :: "'ev file_wal"
  sk_tracker :: "'ev ack_tracker"
  sk_breaker :: kafka_breaker
  sk_config :: kafka_config
  sk_sent :: "kafka_message list"

record send_env =
  se_event_id :: u128
  se_timestamp_us :: u64
  se_append :: wal_env
  se_sync :: wal_env
  se_track_at :: nat
  se_ask_at :: nat
  se_done_at :: nat
  se_ack_at :: nat
  se_delivery :: "string + int \<times> int"

text \<open>The client library checks the settings when the producer is created; \<open>client\<close> is its answer.\<close>

definition sink_new :: "string + unit \<Rightarrow> 'ev file_wal \<Rightarrow> kafka_config \<Rightarrow> string + 'ev sink" where
  "sink_new client w cfg = try_bind client (\<lambda>_.
     Inr \<lparr>sk_wal = w, sk_tracker = ack_tracker_new (kc_ack_tracking cfg), sk_breaker = kb_new kb_config_production,
          sk_config = cfg, sk_sent = []\<rparr>)"

definition kafka_entry :: "u64 \<Rightarrow> 'ev \<Rightarrow> 'ev wal_entry" where
  "kafka_entry now ev = wal_entry_new now lsn_zero KafkaPublish (PLineage ev)"

definition write_to_wal :: "'ev wal_lib \<Rightarrow> send_env \<Rightarrow> 'ev \<Rightarrow> 'ev file_wal \<Rightarrow> 'ev file_wal \<times> (wal_error + lsn)" where
  "write_to_wal L env ev w =
     (case wal_append L (se_append env) (kafka_entry (se_timestamp_us env) ev) w of
        (w1, Inl e) \<Rightarrow> (w1, Inl e)
      | (w1, Inr l) \<Rightarrow>
          (case wal_sync (se_sync env) w1 of
             (w2, Inl e) \<Rightarrow> (w2, Inl e)
           | (w2, Inr _) \<Rightarrow> (w2, Inr l)))"

definition send_to_kafka ::
  "('ev \<Rightarrow> string + bytes) \<Rightarrow> send_env \<Rightarrow> 'ev \<Rightarrow> kafka_config \<Rightarrow> (string + int \<times> int) \<times> kafka_message list" where
  "send_to_kafka json env ev cfg =
     (case json ev of
        Inl e \<Rightarrow> (Inl e, [])
      | Inr payload \<Rightarrow>
          (case se_delivery env of
             Inl e \<Rightarrow> Inl (''Kafka send failed: '' @ e)
           | Inr place \<Rightarrow> Inr place,
           [\<lparr>msg_topic = kc_topic cfg, msg_key = se_event_id env, msg_payload = payload\<rparr>]))"

text \<open>
  The check for backpressure only sleeps for a moment, and then goes on whatever the tracker holds: it changes nothing here.
  A rejection by the breaker is recognised by the text of its error.
\<close>

definition send_with_durability ::
  "'ev wal_lib \<Rightarrow> ('ev \<Rightarrow> string + bytes) \<Rightarrow> send_env \<Rightarrow> 'ev \<Rightarrow> 'ev sink \<Rightarrow> 'ev sink \<times> (wal_error + unit)" where
  "send_with_durability L json env ev s =
     (if is_acknowledged (se_event_id env) (sk_tracker s) then (s, Inr ())
      else case write_to_wal L env ev (sk_wal s) of
        (w, Inl e) \<Rightarrow> (s\<lparr>sk_wal := w\<rparr>, Inl e)
      | (w, Inr l) \<Rightarrow>
          (let t = track_pending (se_track_at env) (se_event_id env) l ev (sk_tracker s);
               (outcome, msgs) = send_to_kafka json env ev (sk_config s);
               (b, send_result, ran) = kb_call (se_ask_at env) (se_done_at env) outcome (sk_breaker s);
               s1 = s\<lparr>sk_wal := w, sk_tracker := t, sk_breaker := b, sk_sent := sk_sent s @ (if ran then msgs else [])\<rparr>
           in case send_result of
                Inr (p, off) \<Rightarrow>
                  (let (t', w') = mark_acknowledged (se_ack_at env) (se_event_id env) p off (t, w)
                   in (s1\<lparr>sk_tracker := t', sk_wal := w'\<rparr>, Inr ()))
              | Inl e \<Rightarrow>
                  if find_sub ''Circuit breaker is OPEN'' e \<noteq> None then (s1, Inr ())
                  else (s1\<lparr>sk_tracker := ack_mark_failed (se_event_id env) t\<rparr>, Inr ())))"

text \<open>
  The synchronous entry of the \<^verbatim>\<open>LineageSink\<close> trait. It needs the handle of a runtime, and blocking on that handle panics
  on a thread that is running a task of a runtime.
\<close>

datatype runtime = NoRuntime | HandleOnly | InsideTask

datatype 'a ran = Ran 'a | Panicked

datatype sink_error = NoTokioRuntime | SinkWal wal_error

definition sink_write ::
  "'ev wal_lib \<Rightarrow> ('ev \<Rightarrow> string + bytes) \<Rightarrow> runtime \<Rightarrow> send_env \<Rightarrow> 'ev \<Rightarrow> 'ev sink \<Rightarrow> 'ev sink \<times> (sink_error + unit) ran" where
  "sink_write L json rt env ev s =
     (case rt of
        NoRuntime \<Rightarrow> (s, Ran (Inl NoTokioRuntime))
      | InsideTask \<Rightarrow> (s, Panicked)
      | HandleOnly \<Rightarrow>
          (case send_with_durability L json env ev s of
             (s', Inl e) \<Rightarrow> (s', Ran (Inl (SinkWal e)))
           | (s', Inr _) \<Rightarrow> (s', Ran (Inr ()))))"

text \<open>All five queries of the trait answer the same.\<close>

definition sink_query :: "'ev sink \<Rightarrow> string + 'ev list" where
  "sink_query s = Inl ''Kafka sink does not support queries - use governance brain RDF store''"

section \<open>The outbox\<close>

text \<open>
  What the sink promises: for every identifier the event that was accepted under it and whether the broker has confirmed
  it, beside the entries that the log has handed out. The relation says where the sink keeps each of them.
\<close>

type_synonym 'ev outbox = "(u128 \<Rightarrow> ('ev \<times> bool) option) \<times> (lsn \<Rightarrow> 'ev wal_entry option)"

definition holds_event :: "'ev wal_lib \<Rightarrow> (lsn \<Rightarrow> 'ev wal_entry option) \<Rightarrow> lsn \<Rightarrow> 'ev \<Rightarrow> bool" where
  "holds_event L A l ev \<longleftrightarrow> (\<exists>now. A l = Some (logged L l (kafka_entry now ev)))"

definition event_tracked :: "'ev wal_lib \<Rightarrow> (lsn \<Rightarrow> 'ev wal_entry option) \<Rightarrow> u128 \<Rightarrow> 'ev \<Rightarrow> 'ev ack_tracker \<Rightarrow> bool" where
  "event_tracked L A eid ev t \<longleftrightarrow> map_of (at_acknowledged t) eid = None \<and>
     (\<exists>a. map_of (at_pending t) eid = Some a \<and> pa_event_id a = eid \<and> pa_event a = ev \<and> holds_event L A (pa_lsn a) ev)"

definition delivered :: "'ev wal_lib \<Rightarrow> ('ev \<Rightarrow> string + bytes) \<Rightarrow> (lsn \<Rightarrow> 'ev wal_entry option) \<Rightarrow> u128 \<Rightarrow> 'ev \<Rightarrow> 'ev sink \<Rightarrow> bool" where
  "delivered L json A eid ev s \<longleftrightarrow> map_of (at_pending (sk_tracker s)) eid = None \<and>
     (\<forall>t l. map_of (at_acknowledged (sk_tracker s)) eid = Some (t, l) \<longrightarrow> holds_event L A l ev) \<and>
     (\<exists>payload. json ev = Inr payload \<and>
        \<lparr>msg_topic = kc_topic (sk_config s), msg_key = eid, msg_payload = payload\<rparr> \<in> set (sk_sent s))"

definition untracked :: "u128 \<Rightarrow> 'ev ack_tracker \<Rightarrow> bool" where
  "untracked eid t \<longleftrightarrow> map_of (at_pending t) eid = None \<and> map_of (at_acknowledged t) eid = None"

definition kept :: "'ev wal_lib \<Rightarrow> ('ev \<Rightarrow> string + bytes) \<Rightarrow> 'ev outbox \<Rightarrow> u128 \<Rightarrow> 'ev sink \<Rightarrow> bool" where
  "kept L json OA eid s \<longleftrightarrow>
     (case fst OA eid of
        None \<Rightarrow> untracked eid (sk_tracker s)
      | Some (ev, False) \<Rightarrow> event_tracked L (snd OA) eid ev (sk_tracker s)
      | Some (ev, True) \<Rightarrow> delivered L json (snd OA) eid ev s)"

definition sink_rel :: "'ev wal_lib \<Rightarrow> ('ev \<Rightarrow> string + bytes) \<Rightarrow> 'ev outbox \<Rightarrow> 'ev sink \<Rightarrow> bool" where
  "sink_rel L json OA s \<longleftrightarrow> wal_rel L (snd OA) (sk_wal s) \<and> hm_wf (at_pending (sk_tracker s)) \<and> hm_wf (at_acknowledged (sk_tracker s)) \<and>
     at_total_pending (sk_tracker s) = of_nat (pending_count (sk_tracker s)) \<and>
     (\<forall>eid. kept L json OA eid s)"

text \<open>What happens to a sink: sends, the cleanup task of the tracker, and the compaction worker of the log.\<close>

datatype 'ev sink_command = Send send_env 'ev | Cleanup nat | Compact

fun sink_exec :: "'ev wal_lib \<Rightarrow> ('ev \<Rightarrow> string + bytes) \<Rightarrow> 'ev sink_command \<Rightarrow> 'ev sink \<Rightarrow> 'ev sink" where
  "sink_exec L json (Send env ev) s = fst (send_with_durability L json env ev s)"
| "sink_exec L json (Cleanup now) s = s\<lparr>sk_tracker := fst (cleanup_acknowledged now (sk_tracker s))\<rparr>"
| "sink_exec L json Compact s = s\<lparr>sk_wal := compaction_tick (sk_wal s)\<rparr>"

text \<open>The identifier drawn for a send is new, and the log has room for the entry.\<close>

fun sink_guard :: "'ev wal_lib \<Rightarrow> 'ev sink_command \<Rightarrow> 'ev sink \<Rightarrow> bool" where
  "sink_guard L (Send env ev) s \<longleftrightarrow> untracked (se_event_id env) (sk_tracker s) \<and>
     wal_guard L (WAppend (se_append env) (kafka_entry (se_timestamp_us env) ev)) (sk_wal s)"
| "sink_guard L _ s \<longleftrightarrow> True"

definition broker_answer :: "('ev \<Rightarrow> string + bytes) \<Rightarrow> send_env \<Rightarrow> 'ev \<Rightarrow> 'ev sink \<Rightarrow> string + int \<times> int" where
  "broker_answer json env ev s =
     fst (snd (kb_call (se_ask_at env) (se_done_at env) (fst (send_to_kafka json env ev (sk_config s))) (sk_breaker s)))"

fun sink_spec :: "'ev wal_lib \<Rightarrow> ('ev \<Rightarrow> string + bytes) \<Rightarrow> 'ev sink_command \<Rightarrow> 'ev sink \<Rightarrow> 'ev outbox \<Rightarrow> 'ev outbox" where
  "sink_spec L json (Send env ev) s OA =
     (if is_ok (snd (write_to_wal L env ev (sk_wal s)))
      then (fst OA)(se_event_id env \<mapsto> (ev, is_ok (broker_answer json env ev s))) else fst OA,
      wal_spec L (WAppend (se_append env) (kafka_entry (se_timestamp_us env) ev)) (sk_wal s) (snd OA))"
| "sink_spec L json _ s OA = OA"

subsection \<open>The log keeps what a send wrote\<close>

lemma wal_spec_keeps:
  assumes "wal_rel L A w" "A l = Some e"
  shows "wal_spec L (WAppend env x) w A l = Some e"
  using assms wal_relD(3) [OF assms] by (auto simp: assign_def)

lemma holds_event_keeps:
  "wal_rel L A w \<Longrightarrow> holds_event L A l ev \<Longrightarrow> holds_event L (wal_spec L (WAppend env x) w A) l ev"
  unfolding holds_event_def using wal_spec_keeps by fast

lemma write_to_wal_rel:
  assumes rel: "wal_rel L A w" and g: "wal_guard L (WAppend (se_append env) (kafka_entry (se_timestamp_us env) ev)) w"
    and wr: "write_to_wal L env ev w = (w', r)"
  shows "wal_rel L (wal_spec L (WAppend (se_append env) (kafka_entry (se_timestamp_us env) ev)) w A) w' \<and>
    (\<forall>l. r = Inr l \<longrightarrow> l = fw_current_lsn w \<and>
       holds_event L (wal_spec L (WAppend (se_append env) (kafka_entry (se_timestamp_us env) ev)) w A) l ev)"
proof -
  let ?e = "kafka_entry (se_timestamp_us env) ev"
  let ?A = "wal_spec L (WAppend (se_append env) ?e) w A"
  obtain w1 r1 where ap: "wal_append L (se_append env) ?e w = (w1, r1)" by force
  note one = append_rel [OF rel g ap]
  have w1: "wal_rel L ?A w1" using one by blast
  obtain seg r2 where sy: "segment_sync OnDemand (en_sync (se_sync env)) (fw_active w1) = (seg, r2)" by force
  have w2: "wal_rel L ?A (w1\<lparr>fw_active := seg\<rparr>)"
    using wal_rel_active [OF w1 same_place_sync, of OnDemand "en_sync (se_sync env)"] by (simp add: sy)
  show ?thesis
  proof (cases r1)
    case (Inl err)
    then show ?thesis using wr w1 by (auto simp: write_to_wal_def ap simp del: wal_spec.simps)
  next
    case (Inr l)
    then have l: "l = fw_current_lsn w" "?A l = Some (logged L l ?e)" using one by blast+
    then have h: "holds_event L ?A l ev" unfolding holds_event_def by blast
    show ?thesis using wr w2 l(1) h Inr
      by (cases r2) (auto simp: write_to_wal_def ap wal_sync_def sy simp del: wal_spec.simps)
  qed
qed

text \<open>The fields of a sink that a send leaves alone, and its tracker after a confirmation and after a failure.\<close>

lemma event_tracked_mono:
  assumes "event_tracked L A eid ev t" "wal_rel L A w"
    "map_of (at_pending t') eid = map_of (at_pending t) eid" "map_of (at_acknowledged t') eid = map_of (at_acknowledged t) eid"
  shows "event_tracked L (wal_spec L (WAppend env x) w A) eid ev t'"
  using assms(1,3,4) holds_event_keeps [OF assms(2)] unfolding event_tracked_def by fastforce

lemma delivered_mono:
  assumes "delivered L json A eid ev s" "wal_rel L A w"
    "map_of (at_pending (sk_tracker s')) eid = map_of (at_pending (sk_tracker s)) eid"
    "map_of (at_acknowledged (sk_tracker s')) eid = map_of (at_acknowledged (sk_tracker s)) eid"
    "sk_config s' = sk_config s" "set (sk_sent s) \<subseteq> set (sk_sent s')"
  shows "delivered L json (wal_spec L (WAppend env x) w A) eid ev s'"
  using assms(1,3-6) holds_event_keeps [OF assms(2)] unfolding delivered_def by auto

subsection \<open>One send\<close>

lemma update_fresh:
  "map_of m k = None \<Longrightarrow> AList.update k v m = m @ [(k, v)]" "map_of m k = None \<Longrightarrow> AList.delete k (m @ [(k, v)]) = m"
  "map_of m k = None \<Longrightarrow> AList.update k v (m @ [(k, u)]) = m @ [(k, v)]"
  by (induction m) (auto split: if_splits)

text \<open>The tracker after a send that the log accepted: confirmed, or pending with or without a failed attempt.\<close>

lemma send_logged:
  assumes u: "untracked (se_event_id env) (sk_tracker s)" and wr: "write_to_wal L env ev (sk_wal s) = (w, Inr l)"
    and sd: "send_with_durability L json env ev s = (s', r)"
  shows "r = Inr ()" "sk_config s' = sk_config s" "set (sk_sent s) \<subseteq> set (sk_sent s')"
    and "is_ok (broker_answer json env ev s) \<Longrightarrow> sk_wal s' = wal_commit l w \<and> at_pending (sk_tracker s') = at_pending (sk_tracker s) \<and>
      at_acknowledged (sk_tracker s') = AList.update (se_event_id env) (se_ack_at env, l) (at_acknowledged (sk_tracker s)) \<and>
      at_total_pending (sk_tracker s') = at_total_pending (sk_tracker s) \<and>
      (\<exists>payload. json ev = Inr payload \<and> \<lparr>msg_topic = kc_topic (sk_config s), msg_key = se_event_id env, msg_payload = payload\<rparr> \<in> set (sk_sent s'))"
    and "\<not> is_ok (broker_answer json env ev s) \<Longrightarrow> sk_wal s' = w \<and>
      (\<exists>a. at_pending (sk_tracker s') = at_pending (sk_tracker s) @ [(se_event_id env, a)] \<and>
         pa_event_id a = se_event_id env \<and> pa_lsn a = l \<and> pa_event a = ev) \<and>
      at_acknowledged (sk_tracker s') = at_acknowledged (sk_tracker s) \<and>
      at_total_pending (sk_tracker s') = at_total_pending (sk_tracker s) + 1"
proof -
  let ?k = "se_event_id env" and ?t = "sk_tracker s"
  have none: "map_of (at_pending ?t) ?k = None" "map_of (at_acknowledged ?t) ?k = None" using u by (simp_all add: untracked_def)
  have na: "\<not> is_acknowledged ?k ?t" by (simp add: is_acknowledged_def none)
  let ?new = "pending_ack_new (se_track_at env) ?k l ev"
  let ?u = "?t\<lparr>at_pending := at_pending ?t @ [(?k, ?new)], at_total_pending := at_total_pending ?t + 1\<rparr>"
  have tr: "track_pending (se_track_at env) ?k l ev ?t = ?u" by (simp add: track_pending_def update_fresh none)
  have get: "map_of (at_pending ?u) ?k = Some ?new" using none(1) by (simp add: map_add_def)
  obtain out msgs where sk: "send_to_kafka json env ev (sk_config s) = (out, msgs)" by force
  obtain b res run where call: "kb_call (se_ask_at env) (se_done_at env) out (sk_breaker s) = (b, res, run)" by (metis prod_cases3)
  have ans: "broker_answer json env ev s = res" by (simp add: broker_answer_def sk call)
  let ?s1 = "s\<lparr>sk_wal := w, sk_tracker := ?u, sk_breaker := b, sk_sent := sk_sent s @ (if run then msgs else [])\<rparr>"
  have acked: "s' = ?s1\<lparr>sk_tracker := ?t\<lparr>at_acknowledged := AList.update ?k (se_ack_at env, l) (at_acknowledged ?t),
      at_total_acknowledged := at_total_acknowledged ?t + 1\<rparr>, sk_wal := wal_commit l w\<rparr> \<and> r = Inr ()" if "res = Inr (p, off)" for p off
    using sd that get unfolding send_with_durability_def
    by (simp add: na wr tr sk call mark_acknowledged_def with_kafka_location_def pending_ack_new_def update_fresh none)
  have failed: "(s' = ?s1 \<or> s' = ?s1\<lparr>sk_tracker := ?u\<lparr>at_pending := at_pending ?t @ [(?k, increment_retry ?new)]\<rparr>\<rparr>) \<and> r = Inr ()"
    if "res = Inl e" for e
    using sd that get unfolding send_with_durability_def
    by (auto simp: na wr tr sk call ack_mark_failed_def update_fresh none Let_def split: if_splits)
  have msg: "run \<and> (\<exists>payload. json ev = Inr payload \<and> \<lparr>msg_topic = kc_topic (sk_config s), msg_key = ?k, msg_payload = payload\<rparr> \<in> set msgs)"
    if "res = Inr q" for q
    using sk call that unfolding kb_call_def send_to_kafka_def
    by (auto split: sum.splits prod.splits bool.splits)
  show "r = Inr ()" "sk_config s' = sk_config s" "set (sk_sent s) \<subseteq> set (sk_sent s')"
    using acked failed by (cases res; fastforce)+
  show "sk_wal s' = wal_commit l w \<and> at_pending (sk_tracker s') = at_pending ?t \<and>
      at_acknowledged (sk_tracker s') = AList.update ?k (se_ack_at env, l) (at_acknowledged ?t) \<and>
      at_total_pending (sk_tracker s') = at_total_pending ?t \<and>
      (\<exists>payload. json ev = Inr payload \<and> \<lparr>msg_topic = kc_topic (sk_config s), msg_key = ?k, msg_payload = payload\<rparr> \<in> set (sk_sent s'))"
    if ok: "is_ok (broker_answer json env ev s)"
  proof -
    obtain p off where res: "res = Inr (p, off)" using ok ans by (auto simp: is_ok_conv)
    show ?thesis using acked [OF res] msg [OF res] by auto
  qed
  show "sk_wal s' = w \<and> (\<exists>a. at_pending (sk_tracker s') = at_pending ?t @ [(?k, a)] \<and>
         pa_event_id a = ?k \<and> pa_lsn a = l \<and> pa_event a = ev) \<and>
      at_acknowledged (sk_tracker s') = at_acknowledged ?t \<and> at_total_pending (sk_tracker s') = at_total_pending ?t + 1"
    if no: "\<not> is_ok (broker_answer json env ev s)"
  proof -
    obtain e where res: "res = Inl e" using no ans by (cases res) auto
    show ?thesis using failed [OF res] by (auto simp: pending_ack_new_def increment_retry_def)
  qed
qed

lemma send_not_logged:
  assumes "untracked (se_event_id env) (sk_tracker s)" "write_to_wal L env ev (sk_wal s) = (w, Inl e)"
  shows "send_with_durability L json env ev s = (s\<lparr>sk_wal := w\<rparr>, Inl e)"
  using assms by (simp add: send_with_durability_def untracked_def is_acknowledged_def)

lemma kept_mono:
  assumes "kept L json (Q, A) eid s" "wal_rel L A w" "Q' eid = Q eid"
    "map_of (at_pending (sk_tracker s')) eid = map_of (at_pending (sk_tracker s)) eid"
    "map_of (at_acknowledged (sk_tracker s')) eid = map_of (at_acknowledged (sk_tracker s)) eid"
    "sk_config s' = sk_config s" "set (sk_sent s) \<subseteq> set (sk_sent s')"
  shows "kept L json (Q', wal_spec L (WAppend env x) w A) eid s'"
proof (cases "Q eid")
  case None
  then show ?thesis using assms(1,3-5) by (simp add: kept_def untracked_def)
next
  case (Some x)
  obtain ev d where "x = (ev, d)" by force
  then show ?thesis
    using Some assms(1,3) event_tracked_mono [OF _ assms(2,4,5)] delivered_mono [OF _ assms(2,4-7)]
    by (cases d) (simp_all add: kept_def)
qed

lemma sink_relD:
  assumes "sink_rel L json OA s"
  shows "wal_rel L (snd OA) (sk_wal s)" "hm_wf (at_pending (sk_tracker s))" "hm_wf (at_acknowledged (sk_tracker s))"
    "at_total_pending (sk_tracker s) = of_nat (pending_count (sk_tracker s))" "kept L json OA eid s"
  using assms by (simp_all add: sink_rel_def)

text \<open>A send that the log refused leaves the tracker as it was; one that it accepted is tracked or delivered.\<close>

lemma send_refused_rel:
  assumes rel: "sink_rel L json (Q, A) s" and g: "sink_guard L (Send env ev) s"
    and wr: "write_to_wal L env ev (sk_wal s) = (w, Inl e)"
  shows "sink_rel L json (Q, wal_spec L (WAppend (se_append env) (kafka_entry (se_timestamp_us env) ev)) (sk_wal s) A)
    (s\<lparr>sk_wal := w\<rparr>)"
proof -
  note d = sink_relD [OF rel]
  have "wal_rel L A (sk_wal s)" using d(1) by simp
  moreover from this have "kept L json (Q, wal_spec L (WAppend (se_append env) (kafka_entry (se_timestamp_us env) ev)) (sk_wal s) A)
      eid (s\<lparr>sk_wal := w\<rparr>)" for eid
    by (rule kept_mono [OF d(5)]) simp_all
  ultimately show ?thesis
    using d(2-4) conjunct1 [OF write_to_wal_rel [OF _ _ wr, of A]] g by (simp add: sink_rel_def del: wal_spec.simps)
qed

lemma send_accepted_rel:
  assumes rel: "sink_rel L json (Q, A) s" and g: "sink_guard L (Send env ev) s"
    and wr: "write_to_wal L env ev (sk_wal s) = (w, Inr l)" and sd: "send_with_durability L json env ev s = (s', r)"
  shows "sink_rel L json (Q(se_event_id env \<mapsto> (ev, is_ok (broker_answer json env ev s))),
      wal_spec L (WAppend (se_append env) (kafka_entry (se_timestamp_us env) ev)) (sk_wal s) A) s'"
    (is "sink_rel L json (?Q, ?A) s'")
proof -
  let ?k = "se_event_id env" and ?t = "sk_tracker s" and ?t' = "sk_tracker s'" and ?ok = "is_ok (broker_answer json env ev s)"
  note d = sink_relD [OF rel]
  have u: "untracked ?k ?t" and wg: "wal_guard L (WAppend (se_append env) (kafka_entry (se_timestamp_us env) ev)) (sk_wal s)"
    using g by simp_all
  note out = send_logged [OF u wr sd]
  have A: "wal_rel L A (sk_wal s)" using d(1) by simp
  have w: "wal_rel L ?A w" and h: "holds_event L ?A l ev" using write_to_wal_rel [OF A wg wr] by blast+
  have none: "map_of (at_pending ?t) ?k = None" "map_of (at_acknowledged ?t) ?k = None" using u by (simp_all add: untracked_def)
  have fresh: "?k \<notin> fst ` set (at_pending ?t)" using none(1) by (simp add: map_of_eq_None_iff)
  have w': "wal_rel L ?A (sk_wal s')"
    using w wal_rel_frame [OF w, of "wal_commit l w"] out(4,5) by (cases ?ok) (simp_all add: wal_commit_def)
  have pend: "hm_wf (at_pending ?t') \<and> at_total_pending ?t' = of_nat (pending_count ?t') \<and> hm_wf (at_acknowledged ?t')"
    using out(4,5) d(2-4) fresh by (cases ?ok) (auto simp: hm_wf_def distinct_update pending_count_def)
  have "kept L json (?Q, ?A) eid s'" for eid
  proof (cases "eid = ?k")
    case True
    then show ?thesis
      using out(2,4,5) h none by (cases ?ok) (auto simp: kept_def delivered_def event_tracked_def hm_get_update map_add_def simp del: wal_spec.simps)
  next
    case False
    then have "map_of (at_pending ?t') eid = map_of (at_pending ?t) eid" "map_of (at_acknowledged ?t') eid = map_of (at_acknowledged ?t) eid"
      using out(4,5) by (cases ?ok; auto simp: hm_get_update map_add_def split: option.split)+
    then show ?thesis using False out(2,3) by (intro kept_mono [OF d(5) A]) simp_all
  qed
  then show ?thesis using w' pend by (simp add: sink_rel_def)
qed

lemma filter_hm_wf: "hm_wf m \<Longrightarrow> hm_wf (filter P m)"
  by (induction m) (auto simp: hm_wf_def)

lemma map_of_filter: "hm_wf m \<Longrightarrow> map_of (filter P m) k = Some v \<Longrightarrow> map_of m k = Some v"
  by (auto simp: filter_hm_wf simp flip: hm_mem_get)

lemma kept_cleanup:
  assumes "hm_wf (at_acknowledged (sk_tracker s))" "kept L json OA eid s"
  shows "kept L json OA eid (s\<lparr>sk_tracker := fst (cleanup_acknowledged now (sk_tracker s))\<rparr>)"
proof -
  let ?t = "sk_tracker s" and ?t' = "fst (cleanup_acknowledged now (sk_tracker s))"
  have p: "at_pending ?t' = at_pending ?t" by (simp add: cleanup_acknowledged_def Let_def)
  have a: "map_of (at_acknowledged ?t') eid = Some v \<Longrightarrow> map_of (at_acknowledged ?t) eid = Some v" for v
    using map_of_filter [OF assms(1)] by (simp add: cleanup_acknowledged_def Let_def)
  then have n: "map_of (at_acknowledged ?t) eid = None \<Longrightarrow> map_of (at_acknowledged ?t') eid = None"
    by (cases "map_of (at_acknowledged ?t') eid") simp_all
  consider "fst OA eid = None" | ev where "fst OA eid = Some (ev, False)" | ev where "fst OA eid = Some (ev, True)"
    by (metis (full_types) not_Some_eq surj_pair)
  then show ?thesis
    using assms(2) a n by cases (auto simp: kept_def untracked_def event_tracked_def delivered_def p)
qed

lemma sink_step_rel:
  assumes rel: "sink_rel L json OA s" and g: "sink_guard L c s"
  shows "sink_rel L json (sink_spec L json c s OA) (sink_exec L json c s)"
proof (cases c)
  case (Send env ev)
  obtain Q A where OA: "OA = (Q, A)" by force
  obtain w r0 where wr: "write_to_wal L env ev (sk_wal s) = (w, r0)" by force
  obtain s' r where sd: "send_with_durability L json env ev s = (s', r)" by force
  show ?thesis
  proof (cases r0)
    case (Inl e)
    then have "send_with_durability L json env ev s = (s\<lparr>sk_wal := w\<rparr>, Inl e)"
      using g wr Send by (intro send_not_logged) simp_all
    then show ?thesis using send_refused_rel [of L json Q A s env ev w e] rel g wr Inl Send OA by (simp del: wal_spec.simps sink_guard.simps)
  next
    case (Inr l)
    then show ?thesis using send_accepted_rel [of L json Q A s env ev w l s' r] rel g wr sd Send OA by (simp del: wal_spec.simps sink_guard.simps)
  qed
next
  case (Cleanup now)
  have "kept L json OA eid (s\<lparr>sk_tracker := fst (cleanup_acknowledged now (sk_tracker s))\<rparr>)" for eid
    by (rule kept_cleanup [OF sink_relD(3,5) [OF rel]])
  then show ?thesis using rel Cleanup
    by (auto simp: sink_rel_def cleanup_acknowledged_def Let_def filter_hm_wf pending_count_def)
next
  case Compact
  have "kept L json OA eid (s\<lparr>sk_wal := compaction_tick (sk_wal s)\<rparr>)" for eid
    using sink_relD(5) [OF rel, of eid] by (auto simp: kept_def delivered_def split: option.splits bool.splits)
  then show ?thesis using rel Compact compaction_rel [OF sink_relD(1) [OF rel]] by (simp add: sink_rel_def)
qed

interpretation dk: guarded_simulation "sink_rel L json" "sink_guard L" "sink_exec L json" "sink_spec L json" for L json
  by unfold_locales (rule sink_step_rel)

section \<open>Properties\<close>

definition outbox_of :: "'ev wal_lib \<Rightarrow> ('ev \<Rightarrow> string + bytes) \<Rightarrow> 'ev sink_command list \<Rightarrow> 'ev sink \<Rightarrow> 'ev outbox" where
  "outbox_of L json cs s = spec_run (sink_spec L json) (sink_exec L json) cs s (\<lambda>_. None, \<lambda>_. None)"

lemma new_sink_rel:
  assumes "file_wal_new wcfg env0 disk = (disk', Inr w0)" "sink_new client w0 cfg = Inr s0"
  shows "sink_rel L json (\<lambda>_. None, \<lambda>_. None) s0"
  using assms(2) file_wal_new_rel [OF assms(1)]
  by (auto simp: sink_new_def sink_rel_def kept_def untracked_def ack_tracker_new_def pending_count_def try_bind_Inr_conv)

lemmas reachable_sink_rel = dk.run_related [OF new_sink_rel, folded outbox_of_def]

text \<open>
  C29. No accepted event is forgotten while the process runs. Open a log, create the sink on it, and send any events with
  failures of the file system and any answers of the broker, while acknowledgments are cleaned up and the log is
  compacted, under these conditions on each send: the identifier drawn for it (a random UUID) is not tracked yet, the
  event's entry is below 4 GiB, the counters of sequence numbers and segments do not overflow, and the write of the entry
  does not fail while the active segment is not memory-mapped (\<^verbatim>\<open>direct_io\<close>); disk-space checks, flushes, syncs and
  rotations may fail. Then an event whose send returned \<^verbatim>\<open>Ok\<close> and that the broker has not confirmed is pending under its
  identifier, with the event itself and a sequence number which the log gave to an entry with this event. A confirmed
  event was handed to the broker client under its identifier and is no longer pending. An identifier whose send failed
  is not tracked at all.
\<close>

theorem accepted_events_are_kept:
  assumes "file_wal_new wcfg env0 disk = (disk', Inr w0)" "sink_new client w0 cfg = Inr s0"
    and "guarded_run (sink_guard L) (sink_exec L json) cs s0"
  shows "case fst (outbox_of L json cs s0) eid of
      None \<Rightarrow> untracked eid (sk_tracker (fold (sink_exec L json) cs s0))
    | Some (ev, False) \<Rightarrow> event_tracked L (snd (outbox_of L json cs s0)) eid ev (sk_tracker (fold (sink_exec L json) cs s0))
    | Some (ev, True) \<Rightarrow> delivered L json (snd (outbox_of L json cs s0)) eid ev (fold (sink_exec L json) cs s0)"
  using sink_relD(5) [OF reachable_sink_rel [OF assms], of eid] by (simp add: kept_def)

text \<open>Whatever the broker does, a send returns \<^verbatim>\<open>Ok\<close> exactly when the log took the event.\<close>

lemma send_ok_iff_logged:
  assumes "untracked (se_event_id env) (sk_tracker s)"
  shows "is_ok (snd (send_with_durability L json env ev s)) \<longleftrightarrow> is_ok (snd (write_to_wal L env ev (sk_wal s)))"
proof -
  obtain w r where wr: "write_to_wal L env ev (sk_wal s) = (w, r)" by force
  obtain s' r' where sd: "send_with_durability L json env ev s = (s', r')" by force
  show ?thesis
  proof (cases r)
    case (Inl e)
    with wr have "write_to_wal L env ev (sk_wal s) = (w, Inl e)" by simp
    then show ?thesis using send_not_logged [OF assms, of L ev w e json] by simp
  next
    case (Inr l)
    with wr have "write_to_wal L env ev (sk_wal s) = (w, Inr l)" by simp
    then show ?thesis using send_logged(1) [OF assms _ sd] sd by simp
  qed
qed

subsection \<open>The committed position passes events that were not delivered\<close>

lemma logged_lsn: "eh_lsn (we_header (logged L l e)) = l"
  by (simp add: logged_def wal_to_bytes_def Let_def)

lemma wal_read_lsn:
  assumes "wal_lib_ok L" "wal_rel L A w" "wal_read L l w = Inr e"
  shows "eh_lsn (we_header e) = l"
proof -
  have "A l = Some e" using wal_read_rel(1) [OF assms(1,2), of l] assms(3) by simp
  moreover obtain loc where "fw_index w l = Some loc" using assms(3) by (cases "fw_index w l") (simp_all add: wal_read_def)
  ultimately show ?thesis using wal_relD(5) [OF assms(2)] logged_lsn by fastforce
qed

lemma scan_loop_reads: "scan_loop L ls w = Inr es \<Longrightarrow> e \<in> set es \<Longrightarrow> \<exists>l \<in> set ls. wal_read L l w = Inr e"
  by (induction ls arbitrary: es) (auto simp: try_bind_Inr_conv split: sum.splits wal_error.splits)

lemma wal_find_after_head:
  assumes "wal_lib_ok L" "wal_rel L A w" "wal_find L P w = Inr es" "e \<in> set es"
  shows "head_lsn w \<le> eh_lsn (we_header e)"
proof -
  obtain xs where xs: "scan_loop L (map of_nat [unat (head_lsn w)..<unat (tail_lsn w)]) w = Inr xs" "e \<in> set xs"
    using assms(3,4) by (auto simp: wal_find_def wal_scan_def try_bind_Inr_conv)
  then obtain n where n: "unat (head_lsn w) \<le> n" "n < unat (tail_lsn w)" "wal_read L (of_nat n) w = Inr e"
    using scan_loop_reads [OF xs] by auto
  have "n < 2 ^ 64" using n(2) unat_lt [of "tail_lsn w"] by simp
  then show ?thesis
    using wal_read_lsn [OF assms(1,2) n(3)] n(1) unat_of_nat_small [of n, where 'a = 64] by (simp add: word_le_nat_alt)
qed

text \<open>
  Confirming an event commits the log up to its number. Every event that was accepted earlier and is still waiting then lies
  below the head of the log: no search of the log finds it any more, although it was never delivered.
\<close>

lemma confirmation_passes_waiting_events:
  assumes L: "wal_lib_ok L" and new: "file_wal_new wcfg env0 disk = (disk', Inr w0)" "sink_new client w0 cfg = Inr s0"
    and run: "guarded_run (sink_guard L) (sink_exec L json) (cs @ [Send env ev]) s0"
    and waits: "(eid, a) \<in> set (at_pending (sk_tracker (fold (sink_exec L json) cs s0)))"
    and ok: "is_ok (snd (write_to_wal L env ev (sk_wal (fold (sink_exec L json) cs s0))))"
      "is_ok (broker_answer json env ev (fold (sink_exec L json) cs s0))"
    and s': "s' = fold (sink_exec L json) (cs @ [Send env ev]) s0"
  shows "(eid, a) \<in> set (at_pending (sk_tracker s')) \<and> pa_lsn a < head_lsn (sk_wal s') \<and>
    (wal_find L P (sk_wal s') = Inr es \<longrightarrow> (\<forall>e \<in> set es. eh_lsn (we_header e) \<noteq> pa_lsn a))"
proof -
  let ?s = "fold (sink_exec L json) cs s0" and ?OA = "outbox_of L json cs s0"
  have g: "guarded_run (sink_guard L) (sink_exec L json) cs s0" "sink_guard L (Send env ev) ?s"
    using run guarded_run_append [of "sink_guard L" "sink_exec L json" cs "[Send env ev]" s0] by simp_all
  note d = sink_relD [OF reachable_sink_rel [OF new g(1)]]
  have "map_of (at_pending (sk_tracker ?s)) eid = Some a" using waits hm_mem_get [OF d(2)] by simp
  then obtain x where "holds_event L (snd ?OA) (pa_lsn a) x"
    using d(5) [of eid] by (auto simp: kept_def untracked_def event_tracked_def delivered_def split: option.splits bool.splits)
  then have lt: "pa_lsn a < fw_current_lsn (sk_wal ?s)" using wal_relD(3) [OF d(1)] by (auto simp: holds_event_def)
  obtain w l where wr: "write_to_wal L env ev (sk_wal ?s) = (w, Inr l)" using ok(1)
    by (cases "write_to_wal L env ev (sk_wal ?s)") (auto simp: is_ok_conv)
  have l: "l = fw_current_lsn (sk_wal ?s)" using write_to_wal_rel [OF d(1) _ wr] g(2) by simp
  obtain r where sd: "send_with_durability L json env ev ?s = (s', r)" using s' by (cases "send_with_durability L json env ev ?s") simp
  have u: "untracked (se_event_id env) (sk_tracker ?s)" using g(2) by simp
  note out = send_logged(4) [OF u wr sd ok(2)]
  have "unat l + 1 < 2 ^ 64" using g(2) l by (simp add: room_def)
  then have "unat (l + 1) = unat l + 1" using unat_Suc_word [of l] by simp
  then have "pa_lsn a < l + 1" using lt l by (simp add: word_less_nat_alt)
  moreover have "head_lsn (sk_wal s') = l + 1" using out by (simp add: head_lsn_def wal_commit_def)
  ultimately have below: "pa_lsn a < head_lsn (sk_wal s')" by simp
  have rel': "wal_rel L (snd (outbox_of L json (cs @ [Send env ev]) s0)) (sk_wal s')"
    using sink_relD(1) [OF reachable_sink_rel [OF new run]] s' by simp
  have "eh_lsn (we_header e) \<noteq> pa_lsn a" if "wal_find L P (sk_wal s') = Inr es" "e \<in> set es" for e
    using wal_find_after_head [OF L rel' that] below by auto
  then show ?thesis using out waits below by auto
qed

subsection \<open>An outage of the broker\<close>

text \<open>The breaker and the records handed to the client after a send that the log accepted.\<close>

lemma send_breaker:
  assumes u: "untracked (se_event_id env) (sk_tracker s)" and wr: "is_ok (snd (write_to_wal L env ev (sk_wal s)))"
    and call: "kb_call (se_ask_at env) (se_done_at env) (fst (send_to_kafka json env ev (sk_config s))) (sk_breaker s) = (b, res, run)"
  shows "sk_breaker (sink_exec L json (Send env ev) s) = b" "broker_answer json env ev s = res"
    "\<not> run \<Longrightarrow> sk_sent (sink_exec L json (Send env ev) s) = sk_sent s"
proof -
  have na: "\<not> is_acknowledged (se_event_id env) (sk_tracker s)" using u by (simp add: is_acknowledged_def untracked_def)
  obtain w l where w: "write_to_wal L env ev (sk_wal s) = (w, Inr l)"
    using wr by (cases "write_to_wal L env ev (sk_wal s)") (auto simp: is_ok_conv)
  obtain out msgs where sk: "send_to_kafka json env ev (sk_config s) = (out, msgs)" by force
  show "sk_breaker (sink_exec L json (Send env ev) s) = b" "\<not> run \<Longrightarrow> sk_sent (sink_exec L json (Send env ev) s) = sk_sent s"
    using call by (cases res; simp add: send_with_durability_def na w sk split_beta Let_def)+
  show "broker_answer json env ev s = res" by (simp add: broker_answer_def call)
qed

lemma closed_call_fails:
  assumes "kb_st b = KbClosed" "\<not> is_ok f"
  shows "\<exists>e. kb_call now after f b = (kb_record_failure after b, Inl e, True)"
  using assms by (cases f) (simp_all add: kb_call_def kb_should_allow_def kb_tick_def)

lemma open_call_rejected:
  assumes "kb_view b = VOpen t" "kb_inv b" "now - t < kb_timeout (kb_cfg b)"
  shows "kb_call now after f b = (b, Inl kb_open_message, False)"
  using assms by (cases "kb_st b") (auto simp: kb_call_def kb_should_allow_def kb_tick_def kb_view_def kb_inv_def)

abbreviation sends :: "(send_env \<times> 'ev) list \<Rightarrow> 'ev sink_command list" where
  "sends xs \<equiv> map (\<lambda>(env, ev). Send env ev) xs"

fun log_takes :: "'ev wal_lib \<Rightarrow> 'ev sink_command \<Rightarrow> 'ev sink \<Rightarrow> bool" where
  "log_takes L (Send env ev) s \<longleftrightarrow> sink_guard L (Send env ev) s \<and> is_ok (snd (write_to_wal L env ev (sk_wal s)))"
| "log_takes L c s \<longleftrightarrow> True"

fun unanswered :: "'ev wal_lib \<Rightarrow> ('ev \<Rightarrow> string + bytes) \<Rightarrow> 'ev sink_command \<Rightarrow> 'ev sink \<Rightarrow> bool" where
  "unanswered L json (Send env ev) s \<longleftrightarrow> log_takes L (Send env ev) s \<and> \<not> is_ok (broker_answer json env ev s)"
| "unanswered L json c s \<longleftrightarrow> True"

lemma sink_exec_config: "log_takes L (Send env ev) s \<Longrightarrow> sk_config (sink_exec L json (Send env ev) s) = sk_config s"
  using send_logged(2) [of env s L ev]
  by (cases "write_to_wal L env ev (sk_wal s)"; cases "send_with_durability L json env ev s") (auto simp: is_ok_conv)

text \<open>Failing sends before the breaker opens count as failures, and none of them is answered.\<close>

lemma outage_opens:
  assumes "guarded_run (log_takes L) (sink_exec L json) (sends fs) s" "kb_inv (sk_breaker s)" "kb_view (sk_breaker s) = VClosed k"
    and "k + length fs \<le> max 1 (unat (kb_failure_threshold (kb_cfg (sk_breaker s))))" "k < max 1 (unat (kb_failure_threshold (kb_cfg (sk_breaker s))))"
    and "\<forall>(env, ev) \<in> set fs. \<not> is_ok (fst (send_to_kafka json env ev (sk_config s)))"
  shows "guarded_run (unanswered L json) (sink_exec L json) (sends fs) s \<and>
    sk_breaker (fold (sink_exec L json) (sends fs) s) = fold kb_record_failure (map (\<lambda>x. se_done_at (fst x)) fs) (sk_breaker s) \<and>
    sk_config (fold (sink_exec L json) (sends fs) s) = sk_config s"
  using assms
proof (induction fs arbitrary: s k)
  case (Cons x fs)
  obtain env ev where x: "x = (env, ev)" by force
  let ?b = "sk_breaker s" and ?s = "sink_exec L json (Send env ev) s" and ?after = "se_done_at env"
  have t: "log_takes L (Send env ev) s" and u: "untracked (se_event_id env) (sk_tracker s)" "is_ok (snd (write_to_wal L env ev (sk_wal s)))"
    and rest: "guarded_run (log_takes L) (sink_exec L json) (sends fs) ?s"
    using Cons.prems(1) x by simp_all
  have "kb_st ?b = KbClosed" using Cons.prems(3) by (cases "kb_st ?b") (simp_all add: kb_view_def)
  then obtain e where call: "kb_call (se_ask_at env) ?after (fst (send_to_kafka json env ev (sk_config s))) ?b = (kb_record_failure ?after ?b, Inl e, True)"
    using closed_call_fails Cons.prems(6) x by fastforce
  have b: "sk_breaker ?s = kb_record_failure ?after ?b" and ans: "\<not> is_ok (broker_answer json env ev s)"
    using send_breaker(1,2) [OF u call] by simp_all
  have c: "sk_config ?s = sk_config s" using sink_exec_config [OF t] .
  have view: "kb_view (sk_breaker ?s) = VClosed (k + 1)" if "fs \<noteq> []"
    using that kb_fail_view [OF Cons.prems(2), of ?after] Cons.prems(3,4) b by (cases fs) (auto split: if_splits)
  have inv: "kb_inv (sk_breaker ?s)" using kb_failure_inv [OF Cons.prems(2)] b by simp
  have cfg: "kb_cfg (sk_breaker ?s) = kb_cfg ?b" unfolding b by (rule kb_config_same)
  show ?case
  proof (cases "fs = []")
    case True
    then show ?thesis using x t ans b c by simp
  next
    case False
    have "k + 1 + length fs \<le> max 1 (unat (kb_failure_threshold (kb_cfg (sk_breaker ?s))))" using Cons.prems(4) cfg by simp
    moreover from this False have "k + 1 < max 1 (unat (kb_failure_threshold (kb_cfg (sk_breaker ?s))))" by (cases fs) simp_all
    moreover have "\<forall>(env, ev) \<in> set fs. \<not> is_ok (fst (send_to_kafka json env ev (sk_config ?s)))" using Cons.prems(6) c by simp
    ultimately have "guarded_run (unanswered L json) (sink_exec L json) (sends fs) ?s \<and>
        sk_breaker (fold (sink_exec L json) (sends fs) ?s) = fold kb_record_failure (map (\<lambda>x. se_done_at (fst x)) fs) (sk_breaker ?s) \<and>
        sk_config (fold (sink_exec L json) (sends fs) ?s) = sk_config ?s"
      by (rule Cons.IH [OF rest inv view [OF False]])
    then show ?thesis using x t ans b c by simp
  qed
qed simp

lemma outage_lasts:
  assumes "guarded_run (log_takes L) (sink_exec L json) (sends xs) s" "kb_inv (sk_breaker s)" "kb_view (sk_breaker s) = VOpen t"
    and "\<forall>(env, ev) \<in> set xs. se_ask_at env - t < kb_timeout (kb_cfg (sk_breaker s))"
  shows "guarded_run (unanswered L json) (sink_exec L json) (sends xs) s \<and>
    sk_breaker (fold (sink_exec L json) (sends xs) s) = sk_breaker s \<and> sk_sent (fold (sink_exec L json) (sends xs) s) = sk_sent s"
  using assms
proof (induction xs arbitrary: s)
  case (Cons x xs)
  obtain env ev where x: "x = (env, ev)" by force
  let ?s = "sink_exec L json (Send env ev) s"
  have t: "log_takes L (Send env ev) s" and u: "untracked (se_event_id env) (sk_tracker s)" "is_ok (snd (write_to_wal L env ev (sk_wal s)))"
    and rest: "guarded_run (log_takes L) (sink_exec L json) (sends xs) ?s" and early: "se_ask_at env - t < kb_timeout (kb_cfg (sk_breaker s))"
    using Cons.prems(1,4) x by simp_all
  note one = send_breaker [OF u open_call_rejected [OF Cons.prems(3,2) early]]
  have b: "sk_breaker ?s = sk_breaker s" using one(1) .
  have "guarded_run (unanswered L json) (sink_exec L json) (sends xs) ?s \<and>
      sk_breaker (fold (sink_exec L json) (sends xs) ?s) = sk_breaker ?s \<and> sk_sent (fold (sink_exec L json) (sends xs) ?s) = sk_sent ?s"
    by (rule Cons.IH [OF rest]) (use Cons.prems(2-4) b in simp_all)
  then show ?case using x t one by simp
qed simp

text \<open>Events that are not answered stay in the outbox as undelivered.\<close>

lemma undelivered_stays:
  assumes "sink_rel L json OA s" "guarded_run (sink_guard L) (sink_exec L json) (sends xs) s" "fst OA eid = Some (ev, False)"
  shows "fst (spec_run (sink_spec L json) (sink_exec L json) (sends xs) s OA) eid = Some (ev, False)"
  using assms
proof (induction xs arbitrary: s OA)
  case (Cons x xs)
  obtain env v where x: "x = (env, v)" by force
  have g: "sink_guard L (Send env v) s" using Cons.prems(2) x by simp
  have "event_tracked L (snd OA) eid ev (sk_tracker s)" using sink_relD(5) [OF Cons.prems(1), of eid] Cons.prems(3) by (simp add: kept_def)
  then have "se_event_id env \<noteq> eid" using g by (auto simp: event_tracked_def untracked_def)
  then have "fst (sink_spec L json (Send env v) s OA) eid = Some (ev, False)" using Cons.prems(3) by simp
  from Cons.IH [OF sink_step_rel [OF Cons.prems(1) g] _ this] Cons.prems(2) x show ?case by simp
qed simp

lemma unanswered_guard: "guarded_run (unanswered L json) ex (sends xs) s \<Longrightarrow> guarded_run (sink_guard L) ex (sends xs) s"
  by (induction xs arbitrary: s) (auto simp: split_beta)

lemma unanswered_undelivered:
  assumes "sink_rel L json OA s" "guarded_run (unanswered L json) (sink_exec L json) (sends xs) s" "(env, ev) \<in> set xs"
  shows "fst (spec_run (sink_spec L json) (sink_exec L json) (sends xs) s OA) (se_event_id env) = Some (ev, False)"
  using assms
proof (induction xs arbitrary: s OA)
  case (Cons x xs)
  obtain env' v where x: "x = (env', v)" by force
  let ?c = "Send env' v"
  have g: "sink_guard L ?c s" "unanswered L json ?c s" "guarded_run (unanswered L json) (sink_exec L json) (sends xs) (sink_exec L json ?c s)"
    using Cons.prems(2) x by simp_all
  note rel = sink_step_rel [OF Cons.prems(1) g(1)]
  show ?case
  proof (cases "(env, ev) = x")
    case True
    have "fst (sink_spec L json ?c s OA) (se_event_id env) = Some (ev, False)" using g(2) True x by simp
    from undelivered_stays [OF rel unanswered_guard [OF g(3)] this] show ?thesis using x by simp
  next
    case False
    then have "(env, ev) \<in> set xs" using Cons.prems(3) by simp
    from Cons.IH [OF rel g(3) this] show ?thesis using x by simp
  qed
qed simp

lemma log_takes_guard: "guarded_run (log_takes L) ex (sends xs) s \<Longrightarrow> guarded_run (sink_guard L) ex (sends xs) s"
  by (induction xs arbitrary: s) (auto simp: split_beta)

text \<open>
  An outage of the broker loses nothing and stops the traffic. With a new sink, let the first five sends fail at the
  broker; then every event sent within the next thirty seconds is accepted without anything being handed to the broker
  client, the breaker stays open, and all the events, those of the failed sends and those sent during the outage, are
  pending with their entries in the log.
\<close>

lemma outage_falls_back_to_log:
  assumes new: "file_wal_new wcfg env0 disk = (disk', Inr w0)" "sink_new client w0 cfg = Inr s0"
    and run: "guarded_run (log_takes L) (sink_exec L json) (sends (fs @ later)) s0"
    and fs: "length fs = 5" "\<forall>(env, ev) \<in> set fs. \<not> is_ok (fst (send_to_kafka json env ev cfg))"
    and soon: "\<forall>(env, ev) \<in> set later. se_ask_at env - se_done_at (fst (last fs)) < 30000"
  shows "kb_is_open (sk_breaker (fold (sink_exec L json) (sends (fs @ later)) s0)) \<and>
    sk_sent (fold (sink_exec L json) (sends (fs @ later)) s0) = sk_sent (fold (sink_exec L json) (sends fs) s0) \<and>
    (\<forall>(env, ev) \<in> set (fs @ later). event_tracked L (snd (outbox_of L json (sends (fs @ later)) s0)) (se_event_id env) ev
       (sk_tracker (fold (sink_exec L json) (sends (fs @ later)) s0)))"
proof -
  let ?s1 = "fold (sink_exec L json) (sends fs) s0" and ?s2 = "fold (sink_exec L json) (sends (fs @ later)) s0"
  have s0: "sk_breaker s0 = kb_new kb_config_production" "sk_config s0 = cfg"
    using new(2) by (auto simp: sink_new_def try_bind_Inr_conv)
  have b0: "kb_inv (sk_breaker s0)" "kb_view (sk_breaker s0) = VClosed 0" "unat (kb_failure_threshold (kb_cfg (sk_breaker s0))) = 5"
    "kb_timeout (kb_cfg (sk_breaker s0)) = 30000"
    by (simp_all add: s0 kb_inv_new kb_config_production_def) (simp_all add: kb_view_def kb_new_def)
  have runs: "guarded_run (log_takes L) (sink_exec L json) (sends fs) s0" "guarded_run (log_takes L) (sink_exec L json) (sends later) ?s1"
    using run by (simp_all add: guarded_run_append)
  have one: "guarded_run (unanswered L json) (sink_exec L json) (sends fs) s0"
    "sk_breaker ?s1 = fold kb_record_failure (map (\<lambda>x. se_done_at (fst x)) fs) (sk_breaker s0)"
    using outage_opens [OF runs(1) b0(1,2)] b0(3) fs s0(2) by simp_all
  have "kb_view (sk_breaker ?s1) = VOpen (map (\<lambda>x. se_done_at (fst x)) fs ! 4)"
    unfolding one(2) using kb.fail_run [OF b0(1,2), of "map (\<lambda>x. se_done_at (fst x)) fs"] fs(1) b0(3) by simp
  moreover have "map (\<lambda>x. se_done_at (fst x)) fs ! 4 = se_done_at (fst (last fs))" using fs(1) by (cases "fs = []") (simp_all add: last_conv_nth)
  ultimately have v: "kb_view (sk_breaker ?s1) = VOpen (se_done_at (fst (last fs)))" by simp
  have inv: "kb_inv (sk_breaker ?s1)" unfolding one(2) by (rule kb.inv_fail_run [OF b0(1)])
  have "kb_cfg (fold kb_record_failure ts b) = kb_cfg b" for ts b by (induction ts arbitrary: b) (simp_all add: kb_config_same)
  then have "kb_timeout (kb_cfg (sk_breaker ?s1)) = 30000" using b0(4) by (simp add: one(2))
  then have two: "guarded_run (unanswered L json) (sink_exec L json) (sends later) ?s1" "sk_breaker ?s2 = sk_breaker ?s1" "sk_sent ?s2 = sk_sent ?s1"
    using outage_lasts [OF runs(2) inv v] soon by simp_all
  have "guarded_run (unanswered L json) (sink_exec L json) (sends (fs @ later)) s0"
    using one(1) two(1) by (simp add: guarded_run_append)
  note un = unanswered_undelivered [OF new_sink_rel [OF new] this, folded outbox_of_def]
  note rel = reachable_sink_rel [OF new log_takes_guard [OF run]]
  have "event_tracked L (snd (outbox_of L json (sends (fs @ later)) s0)) (se_event_id env) ev (sk_tracker ?s2)" if "(env, ev) \<in> set (fs @ later)" for env ev
    using sink_relD(5) [OF rel, of "se_event_id env"] un [OF that] by (simp add: kept_def)
  moreover have "kb_is_open (sk_breaker ?s2)" using v two(2) by (cases "kb_st (sk_breaker ?s1)") (simp_all add: kb_view_def kb_is_open_def)
  ultimately show ?thesis using two(3) by blast
qed

section \<open>Witnesses\<close>

text \<open>A log that never rotates, a broker that is down, and sends numbered from zero.\<close>

definition demo_big_config :: wal_config where
  "demo_big_config = demo_wal_config\<lparr>wc_max_file_size := 10000, wc_direct_io := True, wc_rotation_policy := RotCustom []\<rparr>"

definition demo_kafka :: kafka_config where
  "demo_kafka = \<lparr>kc_topic = ''events'', kc_ack_tracking = ack_config_default\<rparr>"

definition demo_send :: "nat \<Rightarrow> send_env" where
  "demo_send i = \<lparr>se_event_id = of_nat i, se_timestamp_us = 0, se_append = demo_env, se_sync = demo_env, se_track_at = 0,
     se_ask_at = 0, se_done_at = 0, se_ack_at = 0, se_delivery = Inl ''down''\<rparr>"

definition demo_sends :: "nat \<Rightarrow> nat \<Rightarrow> (send_env \<times> string) list" where
  "demo_sends n m = map (\<lambda>i. (demo_send i, ''e'')) [n..<m]"

definition demo_json :: "string \<Rightarrow> string + bytes" where
  "demo_json ev = Inr [1]"

definition demo_ready :: "nat \<Rightarrow> string sink \<Rightarrow> bool" where
  "demo_ready n s \<longleftrightarrow> fw_config (sk_wal s) = demo_big_config \<and> \<not> seg_mapped (fw_active (sk_wal s)) \<and>
     seg_position (fw_active (sk_wal s)) = n * 152 \<and> seg_size (fw_active (sk_wal s)) = 10000 \<and> seg_id (fw_active (sk_wal s)) = 0 \<and>
     fw_current_lsn (sk_wal s) = of_nat n \<and> (\<forall>m. n \<le> m \<longrightarrow> m < 100 \<longrightarrow> untracked (of_nat m) (sk_tracker s))"

lemma demo_event_length: "length (wl_payload demo_wal_lib (PLineage ''e'')) = 112"
  by code_simp

lemma demo_kafka_entry_length: "length (entry_bytes demo_wal_lib l (kafka_entry 0 ''e'')) = 152"
  by (simp add: entry_bytes_def wal_to_bytes_length [OF demo_wal_lib_ok] header_size_def tx_bytes_def kafka_entry_def wal_entry_new_def
      demo_event_length)

lemma demo_write:
  assumes "demo_ready n s" "n < 50"
  obtains w where "write_to_wal demo_wal_lib (demo_send n) ''e'' (sk_wal s) = (w, Inr (of_nat n))"
    "fw_config w = demo_big_config" "\<not> seg_mapped (fw_active w)" "seg_position (fw_active w) = Suc n * 152"
    "seg_size (fw_active w) = 10000" "seg_id (fw_active w) = 0" "fw_current_lsn w = of_nat (Suc n)"
proof -
  let ?e = "kafka_entry 0 ''e''" and ?w = "sk_wal s"
  let ?f = "snd (wal_to_bytes demo_wal_lib ?e)" and ?start = "sk_wal s\<lparr>fw_current_lsn := of_nat (Suc n)\<rparr>"
  have r: "fw_config ?w = demo_big_config" "\<not> seg_mapped (fw_active ?w)" "seg_position (fw_active ?w) = n * 152"
      "seg_size (fw_active ?w) = 10000" "seg_id (fw_active ?w) = 0" "fw_current_lsn ?w = of_nat n"
    using assms(1) unfolding demo_ready_def by blast+
  have env: "se_append (demo_send n) = demo_env" "se_sync (demo_send n) = demo_env" "se_timestamp_us (demo_send n) = 0"
    by (simp_all add: demo_send_def)
  have len: "length (fst (wal_to_bytes demo_wal_lib (stamp l ?f))) = 152" for l
    using demo_kafka_entry_length [of l] by (simp add: entry_bytes_def to_bytes_again)
  obtain w1 where w1: "write_indexed demo_wal_lib WriteOk ?f (of_nat n) ?start = (w1, Inr 152)"
      "fw_config w1 = demo_big_config" "\<not> seg_mapped (fw_active w1)" "seg_position (fw_active w1) = n * 152 + 152"
      "seg_size (fw_active w1) = 10000" "seg_id (fw_active w1) = 0" "fw_current_lsn w1 = of_nat (Suc n)"
    using len r assms(2) by (auto simp: write_indexed_def write_entry_to_segment_def Let_def split_beta)
  have "sync_if_required demo_env w1 = (w1, Inr ())" "\<not> should_rotate demo_env w1"
      "ensure_sufficient_disk_space demo_env m demo_big_config = Inr ()" "en_write demo_env 0 = WriteOk" "en_sync demo_env = None" for m
    by (simp_all add: sync_if_required_def should_rotate_def ensure_sufficient_disk_space_def w1(2) demo_big_config_def
        demo_wal_config_def demo_env_def)
  then have "wal_append demo_wal_lib demo_env ?e ?w = (w1, Inr (of_nat n))"
      "wal_sync demo_env w1 = (w1\<lparr>fw_active := (fw_active w1)\<lparr>seg_dirty := False\<rparr>\<rparr>, Inr ())"
    using w1(1) r(1,6) by (simp_all add: wal_append_def split_beta Let_def wal_sync_def segment_sync_def add.commute)
  then show thesis using w1(2-7) by (intro that [of "w1\<lparr>fw_active := (fw_active w1)\<lparr>seg_dirty := False\<rparr>\<rparr>"]) (simp_all add: write_to_wal_def env)
qed

lemma demo_room: "room w 1" if "fw_current_lsn w = of_nat n" "n < 50" "seg_id (fw_active w) = 0"
  using that unat_of_nat_small [of n, where 'a = 64] by (simp add: room_def)

lemma demo_step:
  assumes "demo_ready n s" "n < 50"
  shows "log_takes demo_wal_lib (Send (demo_send n) ''e'') s \<and>
    demo_ready (Suc n) (sink_exec demo_wal_lib demo_json (Send (demo_send n) ''e'') s)"
proof -
  let ?env = "demo_send n"
  obtain w where w: "write_to_wal demo_wal_lib ?env ''e'' (sk_wal s) = (w, Inr (of_nat n))"
    "fw_config w = demo_big_config" "\<not> seg_mapped (fw_active w)" "seg_position (fw_active w) = Suc n * 152"
    "seg_size (fw_active w) = 10000" "seg_id (fw_active w) = 0" "fw_current_lsn w = of_nat (Suc n)"
    by (rule demo_write [OF assms])
  have u: "untracked (se_event_id ?env) (sk_tracker s)" and k: "se_event_id ?env = of_nat n"
    using assms by (simp_all add: demo_ready_def demo_send_def)
  obtain s' r where sd: "send_with_durability demo_wal_lib demo_json ?env ''e'' s = (s', r)" by force
  note out = send_logged [OF u w(1) sd]
  have wal: "sk_wal s' = w \<or> sk_wal s' = wal_commit (of_nat n) w"
    and maps: "map_of (at_pending (sk_tracker s')) x = map_of (at_pending (sk_tracker s)) x \<and>
      map_of (at_acknowledged (sk_tracker s')) x = map_of (at_acknowledged (sk_tracker s)) x" if "x \<noteq> se_event_id ?env" for x
    using out(4,5) that by (cases "is_ok (broker_answer demo_json ?env ''e'' s)"; auto simp: hm_get_update map_add_def split: option.split)+
  have ids: "of_nat m \<noteq> se_event_id ?env" if "Suc n \<le> m" "m < 100" for m
    using that assms(2) unat_of_nat_small [of m, where 'a = 128] unat_of_nat_small [of n, where 'a = 128] by (auto simp: k)
  have "untracked (of_nat m) (sk_tracker s')" if "Suc n \<le> m" "m < 100" for m
    using maps [OF ids [OF that]] assms(1) that by (simp add: demo_ready_def untracked_def)
  then have "demo_ready (Suc n) s'"
    using w(2-7) wal [OF ids [of 60]] assms(2) by (auto simp: demo_ready_def wal_commit_def)
  moreover have "payload_fits demo_wal_lib (kafka_entry 0 ''e'')"
    by (simp add: payload_fits_def kafka_entry_def wal_entry_new_def demo_event_length)
  moreover have "room (sk_wal s) 1" using assms by (intro demo_room [of _ n]) (simp_all add: demo_ready_def)
  ultimately show ?thesis
    using u w(1) sd by (simp add: demo_send_def demo_env_def)
qed

lemma demo_run:
  "demo_ready n s \<Longrightarrow> n + k \<le> 50 \<Longrightarrow>
    guarded_run (log_takes demo_wal_lib) (sink_exec demo_wal_lib demo_json) (sends (demo_sends n (n + k))) s"
proof (induction k arbitrary: n s)
  case (Suc k)
  have "[n..<n + Suc k] = n # [Suc n..<Suc n + k]" by (simp add: upt_conv_Cons del: upt_Suc)
  then have "demo_sends n (n + Suc k) = (demo_send n, ''e'') # demo_sends (Suc n) (Suc n + k)"
    unfolding demo_sends_def by (simp only: list.map)
  moreover have "log_takes demo_wal_lib (Send (demo_send n) ''e'') s"
      "demo_ready (Suc n) (sink_exec demo_wal_lib demo_json (Send (demo_send n) ''e'') s)"
    using demo_step [OF Suc.prems(1)] Suc.prems(2) by simp_all
  ultimately show ?case using Suc.IH [of "Suc n"] Suc.prems(2) by (simp del: log_takes.simps sink_exec.simps)
qed (simp add: demo_sends_def)

definition demo_big_wal :: "string file_wal" where
  "demo_big_wal = demo_wal\<lparr>fw_config := demo_big_config, fw_active := demo_segment\<lparr>seg_mapped := False, seg_size := 10000\<rparr>,
     fw_disk := [0 \<mapsto> replicate 10000 0]\<rparr>"

definition demo_sink :: "string sink" where
  "demo_sink = \<lparr>sk_wal = demo_big_wal, sk_tracker = ack_tracker_new ack_config_default, sk_breaker = kb_new kb_config_production,
     sk_config = demo_kafka, sk_sent = []\<rparr>"

lemma demo_big_new: "file_wal_new demo_big_config demo_env (\<lambda>_. None) = ([0 \<mapsto> replicate 10000 0], Inr demo_big_wal)"
  by (simp add: file_wal_new_def create_segment_def demo_big_wal_def demo_wal_def demo_segment_def demo_big_config_def demo_wal_config_def
      demo_env_def set_len_def lsn_zero_def Let_def)

lemma demo_sink_new: "sink_new (Inr ()) demo_big_wal demo_kafka = Inr demo_sink"
  by (simp add: sink_new_def demo_sink_def demo_kafka_def)

lemma demo_sink_ready: "demo_ready 0 demo_sink"
  by (simp add: demo_ready_def demo_sink_def demo_big_wal_def demo_wal_def demo_segment_def untracked_def ack_tracker_new_def)

lemma demo_sends_guarded: "guarded_run (log_takes demo_wal_lib) (sink_exec demo_wal_lib demo_json) (sends (demo_sends 0 k)) demo_sink" if "k \<le> 50"
  using demo_run [OF demo_sink_ready, of k] that by simp

lemma outage_falls_back_to_log_witness:
  "kb_is_open (sk_breaker (fold (sink_exec demo_wal_lib demo_json) (sends (demo_sends 0 5 @ demo_sends 5 8)) demo_sink)) \<and>
   sk_sent (fold (sink_exec demo_wal_lib demo_json) (sends (demo_sends 0 5 @ demo_sends 5 8)) demo_sink) =
     sk_sent (fold (sink_exec demo_wal_lib demo_json) (sends (demo_sends 0 5)) demo_sink)"
proof -
  have "demo_sends 0 5 @ demo_sends 5 8 = demo_sends 0 8" by (simp add: demo_sends_def upt_rec numeral_eq_Suc)
  then have run: "guarded_run (log_takes demo_wal_lib) (sink_exec demo_wal_lib demo_json) (sends (demo_sends 0 5 @ demo_sends 5 8)) demo_sink"
    using demo_sends_guarded [of 8] by simp
  have fails: "\<forall>(env, ev) \<in> set (demo_sends 0 5). \<not> is_ok (fst (send_to_kafka demo_json env ev demo_kafka))"
    by (auto simp: demo_sends_def demo_send_def send_to_kafka_def demo_json_def)
  have "\<forall>(env, ev) \<in> set (demo_sends 5 8). se_ask_at env - se_done_at (fst (last (demo_sends 0 5))) < 30000"
    by (auto simp: demo_sends_def demo_send_def)
  note soon = this
  have len: "length (demo_sends 0 5) = 5" by (simp add: demo_sends_def)
  show ?thesis using outage_falls_back_to_log [OF demo_big_new demo_sink_new run len fails soon] by blast
qed

theorem accepted_events_are_kept_witness:
  "case fst (outbox_of demo_wal_lib demo_json (sends (demo_sends 0 2)) demo_sink) 1 of
      None \<Rightarrow> untracked 1 (sk_tracker (fold (sink_exec demo_wal_lib demo_json) (sends (demo_sends 0 2)) demo_sink))
    | Some (ev, False) \<Rightarrow> event_tracked demo_wal_lib (snd (outbox_of demo_wal_lib demo_json (sends (demo_sends 0 2)) demo_sink)) 1 ev
        (sk_tracker (fold (sink_exec demo_wal_lib demo_json) (sends (demo_sends 0 2)) demo_sink))
    | Some (ev, True) \<Rightarrow> delivered demo_wal_lib demo_json (snd (outbox_of demo_wal_lib demo_json (sends (demo_sends 0 2)) demo_sink)) 1 ev
        (fold (sink_exec demo_wal_lib demo_json) (sends (demo_sends 0 2)) demo_sink)"
  by (rule accepted_events_are_kept [OF demo_big_new demo_sink_new log_takes_guard [OF demo_sends_guarded]]) simp

end
