(* ===== verification/KafkaReplay.thy ===== *)
theory KafkaReplay
  imports DurableSink
begin

text \<open>
  Model of \<^verbatim>\<open>arcxa-coordinator/src/storage/kafka/replay_manager.rs\<close> and of the part of \<^verbatim>\<open>storage/mod.rs\<close> that starts the
  durable sink and runs the recovery. The replay manager holds the sink and, as the start does it, the sink's own tracker.
  A replay makes any number of writes: write number \<open>k\<close> finds the environment \<open>envs k\<close>, and the state of a replay is the
  sink with the number of writes made so far. \<open>rt\<close> is the runtime the replay is polled on. The sleeps between attempts and
  batches, the durations in the report and its success rate, a floating point number, are not modelled; a failure is the
  number of its batch with the error.
\<close>

section \<open>Configuration and report\<close>

record replay_config =
  rp_batch_size :: nat
  rp_batch_interval :: nat
  rp_max_retry_attempts :: u32
  rp_retry_backoff :: nat
  rp_max_backoff :: nat

definition replay_config_default :: replay_config where
  "replay_config_default = \<lparr>rp_batch_size = 500, rp_batch_interval = 1000, rp_max_retry_attempts = 3, rp_retry_backoff = 1000,
     rp_max_backoff = 60000\<rparr>"

definition replay_config_aggressive :: replay_config where
  "replay_config_aggressive = \<lparr>rp_batch_size = 1000, rp_batch_interval = 100, rp_max_retry_attempts = 5, rp_retry_backoff = 500,
     rp_max_backoff = 30000\<rparr>"

definition replay_config_conservative :: replay_config where
  "replay_config_conservative = \<lparr>rp_batch_size = 100, rp_batch_interval = 5000, rp_max_retry_attempts = 3, rp_retry_backoff = 2000,
     rp_max_backoff = 120000\<rparr>"

record replay_report =
  rr_total_events :: nat
  rr_replayed_events :: nat
  rr_failed_events :: nat
  rr_failures :: "(nat \<times> string) list"
  rr_batches_processed :: nat
  rr_retry_attempts :: nat

definition report_successful :: "replay_report \<Rightarrow> bool" where
  "report_successful r \<longleftrightarrow> rr_failed_events r = 0"

definition empty_report :: replay_report where
  "empty_report = \<lparr>rr_total_events = 0, rr_replayed_events = 0, rr_failed_events = 0, rr_failures = [], rr_batches_processed = 0,
     rr_retry_attempts = 0\<rparr>"

section \<open>Replay\<close>

definition count_unacknowledged_events :: "'ev sink \<Rightarrow> nat" where
  "count_unacknowledged_events s = pending_count (sk_tracker s)"

definition find_unacknowledged_events :: "'ev sink \<Rightarrow> 'ev list" where
  "find_unacknowledged_events s = map pa_event (get_pending (sk_tracker s))"

type_synonym 'ev replay = "'ev sink \<times> nat"

fun replay_events ::
  "'ev wal_lib \<Rightarrow> ('ev \<Rightarrow> string + bytes) \<Rightarrow> runtime \<Rightarrow> (nat \<Rightarrow> send_env) \<Rightarrow> 'ev list \<Rightarrow> nat \<Rightarrow> 'ev replay \<Rightarrow> 'ev replay \<times> nat ran" where
  "replay_events L json rt envs [] replayed sk = (sk, Ran replayed)"
| "replay_events L json rt envs (ev # evs) replayed (s, k) =
     (case sink_write L json rt (envs k) ev s of
        (s', Panicked) \<Rightarrow> ((s', k + 1), Panicked)
      | (s', Ran (Inr _)) \<Rightarrow> replay_events L json rt envs evs (replayed + 1) (s', k + 1)
      | (s', Ran (Inl _)) \<Rightarrow> replay_events L json rt envs evs replayed (s', k + 1))"

definition replay_batch ::
  "'ev wal_lib \<Rightarrow> ('ev \<Rightarrow> string + bytes) \<Rightarrow> runtime \<Rightarrow> (nat \<Rightarrow> send_env) \<Rightarrow> 'ev list \<Rightarrow> 'ev replay \<Rightarrow> 'ev replay \<times> (string + nat) ran" where
  "replay_batch L json rt envs evs sk =
     (case replay_events L json rt envs evs 0 sk of
        (sk', Panicked) \<Rightarrow> (sk', Panicked)
      | (sk', Ran replayed) \<Rightarrow>
          (sk', Ran (if replayed = 0 then Inl ''No events replayed in batch'' else Inr replayed)))"

function replay_with_retry ::
  "'ev wal_lib \<Rightarrow> ('ev \<Rightarrow> string + bytes) \<Rightarrow> runtime \<Rightarrow> (nat \<Rightarrow> send_env) \<Rightarrow> replay_config \<Rightarrow> 'ev list \<Rightarrow> nat \<Rightarrow> nat \<Rightarrow> 'ev replay \<Rightarrow>
   'ev replay \<times> (string + nat \<times> nat) ran" where
  "replay_with_retry L json rt envs cfg evs attempt retry_count sk =
     (case replay_batch L json rt envs evs sk of
        (sk', Panicked) \<Rightarrow> (sk', Panicked)
      | (sk', Ran (Inr n)) \<Rightarrow> (sk', Ran (Inr (n, retry_count)))
      | (sk', Ran (Inl e)) \<Rightarrow>
          if attempt < unat (rp_max_retry_attempts cfg)
          then replay_with_retry L json rt envs cfg evs (attempt + 1) (retry_count + 1) sk'
          else (sk', Ran (Inl e)))"
  by pat_completeness auto
termination
  by (relation "measure (\<lambda>(L, json, rt, envs, cfg, evs, attempt, retry_count, sk). unat (rp_max_retry_attempts cfg) - attempt)") auto

declare replay_with_retry.simps [simp del]

definition replay_batch_with_retry ::
  "'ev wal_lib \<Rightarrow> ('ev \<Rightarrow> string + bytes) \<Rightarrow> runtime \<Rightarrow> (nat \<Rightarrow> send_env) \<Rightarrow> replay_config \<Rightarrow> 'ev list \<Rightarrow> 'ev replay \<Rightarrow>
   'ev replay \<times> (string + nat \<times> nat) ran" where
  "replay_batch_with_retry L json rt envs cfg evs sk = replay_with_retry L json rt envs cfg evs 0 0 sk"

text \<open>\<^verbatim>\<open>slice::chunks\<close>, which panics when the size is zero.\<close>

function chunks :: "nat \<Rightarrow> 'a list \<Rightarrow> 'a list list" where
  "chunks n xs = (if xs = [] \<or> n = 0 then [] else take n xs # chunks n (drop n xs))"
  by pat_completeness auto
termination
  by (relation "measure (\<lambda>(n, xs). length xs)") auto

declare chunks.simps [simp del]

fun replay_chunks ::
  "'ev wal_lib \<Rightarrow> ('ev \<Rightarrow> string + bytes) \<Rightarrow> runtime \<Rightarrow> (nat \<Rightarrow> send_env) \<Rightarrow> replay_config \<Rightarrow> (nat \<times> 'ev list) list \<Rightarrow> replay_report \<Rightarrow>
   'ev replay \<Rightarrow> 'ev replay \<times> replay_report ran" where
  "replay_chunks L json rt envs cfg [] rep sk = (sk, Ran rep)"
| "replay_chunks L json rt envs cfg ((batch_idx, chunk) # rest) rep sk =
     (case replay_batch_with_retry L json rt envs cfg chunk sk of
        (sk', Panicked) \<Rightarrow> (sk', Panicked)
      | (sk', Ran (Inr (replayed, retries))) \<Rightarrow>
          replay_chunks L json rt envs cfg rest
            (rep\<lparr>rr_replayed_events := rr_replayed_events rep + replayed, rr_retry_attempts := rr_retry_attempts rep + retries,
                 rr_batches_processed := rr_batches_processed rep + 1\<rparr>) sk'
      | (sk', Ran (Inl e)) \<Rightarrow>
          replay_chunks L json rt envs cfg rest
            (rep\<lparr>rr_failed_events := rr_failed_events rep + length chunk, rr_failures := rr_failures rep @ [(batch_idx + 1, e)]\<rparr>) sk')"

definition recover_on_startup ::
  "'ev wal_lib \<Rightarrow> ('ev \<Rightarrow> string + bytes) \<Rightarrow> runtime \<Rightarrow> (nat \<Rightarrow> send_env) \<Rightarrow> replay_config \<Rightarrow> 'ev replay \<Rightarrow> 'ev replay \<times> replay_report ran" where
  "recover_on_startup L json rt envs cfg sk =
     (let unacked = find_unacknowledged_events (fst sk) in
      if unacked = [] then (sk, Ran empty_report)
      else if rp_batch_size cfg = 0 then (sk, Panicked)
      else replay_chunks L json rt envs cfg (enumerate 0 (chunks (rp_batch_size cfg) unacked))
             (empty_report\<lparr>rr_total_events := length unacked\<rparr>) sk)"

section \<open>Start of the storage\<close>

datatype start_error = StartWal wal_error | StartClient string

definition durable_kafka_start ::
  "wal_config \<Rightarrow> wal_env \<Rightarrow> string + unit \<Rightarrow> kafka_config \<Rightarrow> disk \<Rightarrow> disk \<times> (start_error + 'ev sink)" where
  "durable_kafka_start wcfg env client cfg disk =
     (case file_wal_new wcfg env disk of
        (disk', Inl e) \<Rightarrow> (disk', Inl (StartWal e))
      | (disk', Inr w) \<Rightarrow>
          (case sink_new client w cfg of
             Inl e \<Rightarrow> (disk', Inl (StartClient e))
           | Inr s \<Rightarrow> (disk', Inr s)))"

text \<open>A storage without the durable sink has no replay manager.\<close>

definition recover_kafka_on_startup ::
  "'ev wal_lib \<Rightarrow> ('ev \<Rightarrow> string + bytes) \<Rightarrow> runtime \<Rightarrow> (nat \<Rightarrow> send_env) \<Rightarrow> replay_config option \<Rightarrow> 'ev replay \<Rightarrow> 'ev replay \<times> replay_report ran" where
  "recover_kafka_on_startup L json rt envs manager sk =
     (case manager of
        Some cfg \<Rightarrow> recover_on_startup L json rt envs cfg sk
      | None \<Rightarrow> (sk, Ran empty_report))"

section \<open>Batches\<close>

lemma chunks_Nil [simp]: "chunks n [] = []"
  by (simp add: chunks.simps)

lemma chunks_unfold: "0 < n \<Longrightarrow> xs \<noteq> [] \<Longrightarrow> chunks n xs = take n xs # chunks n (drop n xs)"
  by (simp add: chunks.simps [of n])

lemma chunks_Cons: "0 < n \<Longrightarrow> chunks n (x # xs) = (x # take (n - 1) xs) # chunks n (drop (n - 1) xs)"
  by (simp add: chunks_unfold take_Cons' drop_Cons')

lemma concat_chunks: "0 < n \<Longrightarrow> concat (chunks n xs) = xs"
proof (induction n xs rule: chunks.induct)
  case (1 n xs)
  then show ?case by (cases "xs = []") (simp_all add: chunks_unfold)
qed

lemma chunks_nonempty: "0 < n \<Longrightarrow> c \<in> set (chunks n xs) \<Longrightarrow> c \<noteq> [] \<and> length c \<le> n"
proof (induction n xs rule: chunks.induct)
  case (1 n xs)
  then show ?case by (cases "xs = []") (auto simp: chunks_unfold)
qed

section \<open>Replay against a log that takes every event\<close>

text \<open>The writes of a replay, one environment after the other.\<close>

fun replays :: "(nat \<Rightarrow> send_env) \<Rightarrow> nat \<Rightarrow> 'ev list \<Rightarrow> 'ev sink_command list" where
  "replays envs k [] = []"
| "replays envs k (ev # evs) = Send (envs k) ev # replays envs (k + 1) evs"

lemma replays_append: "replays envs k (xs @ ys) = replays envs k xs @ replays envs (k + length xs) ys"
  by (induction xs arbitrary: k) simp_all

lemma sink_write_taken:
  assumes "log_takes L (Send env ev) s"
  shows "sink_write L json HandleOnly env ev s = (sink_exec L json (Send env ev) s, Ran (Inr ()))"
  using assms send_ok_iff_logged [of env s L json ev]
  by (cases "send_with_durability L json env ev s") (auto simp: sink_write_def is_ok_conv)

lemma replay_events_taken:
  "guarded_run (log_takes L) (sink_exec L json) (replays envs k evs) s \<Longrightarrow>
   replay_events L json HandleOnly envs evs n (s, k) = ((fold (sink_exec L json) (replays envs k evs) s, k + length evs), Ran (n + length evs))"
proof (induction evs arbitrary: k s n)
  case (Cons ev evs)
  have t: "log_takes L (Send (envs k) ev) s"
    and rest: "guarded_run (log_takes L) (sink_exec L json) (replays envs (k + 1) evs) (sink_exec L json (Send (envs k) ev) s)"
    using Cons.prems by simp_all
  show ?case
    using Cons.IH [OF rest, of "n + 1"] by (simp add: sink_write_taken [OF t] del: sink_exec.simps)
qed simp

lemma replay_batch_taken:
  assumes "guarded_run (log_takes L) (sink_exec L json) (replays envs k evs) s" "evs \<noteq> []"
  shows "replay_batch_with_retry L json HandleOnly envs cfg evs (s, k) =
    ((fold (sink_exec L json) (replays envs k evs) s, k + length evs), Ran (Inr (length evs, 0)))"
  using assms(2) replay_events_taken [OF assms(1), of 0]
  by (simp add: replay_batch_with_retry_def replay_with_retry.simps [of L] replay_batch_def)

lemma replay_chunks_taken:
  assumes "guarded_run (log_takes L) (sink_exec L json) (replays envs k (concat (map snd cs))) s" "\<forall>c \<in> set cs. snd c \<noteq> []"
  shows "replay_chunks L json HandleOnly envs cfg cs rep (s, k) =
    ((fold (sink_exec L json) (replays envs k (concat (map snd cs))) s, k + length (concat (map snd cs))),
     Ran (rep\<lparr>rr_replayed_events := rr_replayed_events rep + length (concat (map snd cs)),
              rr_batches_processed := rr_batches_processed rep + length cs\<rparr>))"
  using assms
proof (induction cs arbitrary: k s rep)
  case (Cons c cs)
  obtain i evs where c: "c = (i, evs)" by force
  let ?s = "fold (sink_exec L json) (replays envs k evs) s"
  have runs: "guarded_run (log_takes L) (sink_exec L json) (replays envs k evs) s"
    "guarded_run (log_takes L) (sink_exec L json) (replays envs (k + length evs) (concat (map snd cs))) ?s"
    using Cons.prems(1) c by (simp_all add: replays_append guarded_run_append del: length_concat)
  have "evs \<noteq> []" using Cons.prems(2) c by simp
  note one = replay_batch_taken [OF runs(1) this, of cfg]
  show ?case
    using Cons.IH [OF runs(2)] Cons.prems(2) c
    by (simp add: one replays_append del: length_concat)
qed simp

lemma replay_keeps_pending:
  "guarded_run (log_takes L) (sink_exec L json) (replays envs k evs) s \<Longrightarrow>
   \<exists>more. at_pending (sk_tracker (fold (sink_exec L json) (replays envs k evs) s)) = at_pending (sk_tracker s) @ more"
proof (induction evs arbitrary: k s)
  case (Cons ev evs)
  let ?s = "sink_exec L json (Send (envs k) ev) s"
  have u: "untracked (se_event_id (envs k)) (sk_tracker s)"
    and rest: "guarded_run (log_takes L) (sink_exec L json) (replays envs (k + 1) evs) ?s"
    using Cons.prems by simp_all
  obtain w l where wr: "write_to_wal L (envs k) ev (sk_wal s) = (w, Inr l)"
    using Cons.prems by (cases "write_to_wal L (envs k) ev (sk_wal s)") (auto simp: is_ok_conv)
  obtain r where sd: "send_with_durability L json (envs k) ev s = (?s, r)" by (cases "send_with_durability L json (envs k) ev s") simp
  note out = send_logged(4,5) [OF u wr sd]
  have "\<exists>more. at_pending (sk_tracker ?s) = at_pending (sk_tracker s) @ more"
  proof (cases "is_ok (broker_answer json (envs k) ev s)")
    case True
    then show ?thesis using out(1) by auto
  next
    case False
    then show ?thesis using out(2) by blast
  qed
  with Cons.IH [OF rest] show ?case by (auto simp del: sink_exec.simps)
qed simp

section \<open>Properties\<close>

text \<open>
  Recovery replays every pending event once and reports success, whatever the broker does. When the log takes the
  writes, recovering sends each pending event again, in the order of the tracker and split into batches without retries,
  and the report counts all of them as replayed and none as failed, also when the broker confirmed none. The entries that
  were pending before are all still pending afterwards, because each event was sent under a new identifier: the next
  recovery sends them again.
\<close>

lemma recovery_replays_all_and_keeps_pending:
  assumes "0 < rp_batch_size cfg" "evs = find_unacknowledged_events s"
    and "guarded_run (log_takes L) (sink_exec L json) (replays envs k evs) s"
  shows "recover_on_startup L json HandleOnly envs cfg (s, k) =
      ((fold (sink_exec L json) (replays envs k evs) s, k + length evs),
       Ran \<lparr>rr_total_events = length evs, rr_replayed_events = length evs, rr_failed_events = 0, rr_failures = [],
            rr_batches_processed = length (chunks (rp_batch_size cfg) evs), rr_retry_attempts = 0\<rparr>) \<and>
    (\<exists>more. at_pending (sk_tracker (fold (sink_exec L json) (replays envs k evs) s)) = at_pending (sk_tracker s) @ more)"
proof -
  let ?cs = "chunks (rp_batch_size cfg) evs"
  have cat: "concat (map snd (enumerate 0 ?cs)) = evs" using concat_chunks [OF assms(1)] by simp
  have ne: "\<forall>c \<in> set (enumerate 0 ?cs). snd c \<noteq> []"
    using chunks_nonempty [OF assms(1), of _ evs] by (auto simp: in_set_enumerate_eq)
  note loop = replay_chunks_taken [of L json envs k "enumerate 0 ?cs" s, unfolded cat, OF assms(3) ne]
  have "recover_on_startup L json HandleOnly envs cfg (s, k) =
      ((fold (sink_exec L json) (replays envs k evs) s, k + length evs),
       Ran \<lparr>rr_total_events = length evs, rr_replayed_events = length evs, rr_failed_events = 0, rr_failures = [],
            rr_batches_processed = length ?cs, rr_retry_attempts = 0\<rparr>)"
    using assms(1) loop
    by (cases "evs = []") (simp_all add: recover_on_startup_def Let_def empty_report_def del: replay_chunks.simps(2) flip: assms(2))
  then show ?thesis using replay_keeps_pending [OF assms(3)] by blast
qed

text \<open>
  A restart forgets what was waiting. Let a process send any events and die with some of them undelivered. When the
  storage is started again on the directory it left, the recovery finds no event, touches nothing and reports success; the
  events that were waiting are not tracked, and no entry of the earlier log can be read any more.
\<close>

lemma restart_forgets_waiting_events:
  assumes "durable_kafka_start wcfg env0 client cfg disk = (disk', Inr s0)"
    and "guarded_run (sink_guard L) (sink_exec L json) cs s0"
    and "fst (outbox_of L json cs s0) eid = Some (ev, False)"
    and "durable_kafka_start wcfg env1 client' cfg (fw_disk (sk_wal (fold (sink_exec L json) cs s0))) = (disk2, Inr s1)"
  shows "ev \<in> set (find_unacknowledged_events (fold (sink_exec L json) cs s0)) \<and>
    (\<forall>rt envs rcfg k. recover_on_startup L json rt envs rcfg (s1, k) = ((s1, k), Ran empty_report)) \<and>
    report_successful empty_report \<and> untracked eid (sk_tracker s1) \<and> (\<forall>l. wal_read L l (sk_wal s1) = Inl (WInvalidLsn l))"
proof -
  have start: "\<exists>w d. file_wal_new c e dk = (d, Inr w) \<and> sink_new cl w kc = Inr (s :: 'a sink)"
    if "durable_kafka_start c e cl kc dk = (d', Inr s)" for c e cl kc dk d' s
    using that by (auto simp: durable_kafka_start_def split: prod.splits sum.splits)
  obtain w0 d0 where new: "file_wal_new wcfg env0 disk = (d0, Inr w0)" "sink_new client w0 cfg = Inr s0"
    using start [OF assms(1)] by blast
  obtain w1 d1 where again: "file_wal_new wcfg env1 (fw_disk (sk_wal (fold (sink_exec L json) cs s0))) = (d1, Inr w1)" "sink_new client' w1 cfg = Inr s1"
    using start [OF assms(4)] by blast
  have "event_tracked L (snd (outbox_of L json cs s0)) eid ev (sk_tracker (fold (sink_exec L json) cs s0))"
    using sink_relD(5) [OF reachable_sink_rel [OF new assms(2)], of eid] assms(3) by (simp add: kept_def)
  then have "ev \<in> set (find_unacknowledged_events (fold (sink_exec L json) cs s0))"
    by (force simp: event_tracked_def find_unacknowledged_events_def get_pending_def dest: map_of_SomeD)
  moreover have s1: "sk_tracker s1 = ack_tracker_new (kc_ack_tracking cfg)" "sk_wal s1 = w1"
    using again(2) by (auto simp: sink_new_def try_bind_Inr_conv)
  moreover have "fw_index w1 = (\<lambda>_. None)"
    using again(1) by (auto simp: file_wal_new_def create_segment_def Let_def split: prod.splits sum.splits option.splits)
  ultimately show ?thesis
    by (simp add: recover_on_startup_def find_unacknowledged_events_def get_pending_def ack_tracker_new_def untracked_def wal_read_def
        report_successful_def empty_report_def)
qed

text \<open>
  Recovery on a task of the runtime, which is where an asynchronous function runs, panics at the first pending event and
  replays none of them.
\<close>

lemma recovery_inside_task_panics:
  assumes "find_unacknowledged_events s \<noteq> []"
  shows "snd (recover_on_startup L json InsideTask envs cfg (s, k)) = Panicked \<and>
    fst (fst (recover_on_startup L json InsideTask envs cfg (s, k))) = s"
proof -
  obtain ev evs where evs: "find_unacknowledged_events s = ev # evs" using assms by (cases "find_unacknowledged_events s") auto
  have one: "replay_batch_with_retry L json InsideTask envs cfg (ev # xs) (s, k) = ((s, k + 1), Panicked)" for xs
    by (simp add: replay_batch_with_retry_def replay_with_retry.simps [of L] replay_batch_def sink_write_def)
  show ?thesis
    by (cases "rp_batch_size cfg = 0") (simp_all add: recover_on_startup_def evs Let_def chunks_Cons one)
qed

text \<open>A batch is attempted at most once more than the configured number of retries.\<close>

lemma replay_events_count: "snd (fst (replay_events L json rt envs evs n sk)) \<le> snd sk + length evs"
proof (induction L json rt envs evs n sk rule: replay_events.induct)
  case (2 L json rt envs ev evs replayed s k)
  obtain s' r where w: "sink_write L json rt (envs k) ev s = (s', r)" by force
  show ?case
  proof (cases r)
    case (Ran x)
    then show ?thesis using 2(1,2) [OF w [symmetric]] w by (cases x) force+
  qed (simp add: w)
qed simp

lemma replay_writes_bounded:
  "snd (fst (replay_with_retry L json rt envs cfg evs a r sk)) \<le> snd sk + (unat (rp_max_retry_attempts cfg) - a + 1) * length evs"
proof (induction L json rt envs cfg evs a r sk rule: replay_with_retry.induct)
  case (1 L json rt envs cfg evs a r sk)
  obtain sk' res where b: "replay_batch L json rt envs evs sk = (sk', res)" by (meson surj_pair)
  have le: "snd sk' \<le> snd sk + length evs"
    using replay_events_count [of L json rt envs evs 0 sk] b
    by (cases "replay_events L json rt envs evs 0 sk"; cases "snd (replay_events L json rt envs evs 0 sk)") (auto simp: replay_batch_def)
  consider "res = Panicked" | n where "res = Ran (Inr n)" | e where "res = Ran (Inl e)" "a < unat (rp_max_retry_attempts cfg)"
    | e where "res = Ran (Inl e)" "\<not> a < unat (rp_max_retry_attempts cfg)"
    by (metis ran.exhaust sum.exhaust)
  then show ?case
  proof cases
    case (3 e)
    have "snd (fst (replay_with_retry L json rt envs cfg evs (a + 1) (r + 1) sk')) \<le>
        snd sk' + (unat (rp_max_retry_attempts cfg) - (a + 1) + 1) * length evs"
      by (rule "1.IH" [OF b [symmetric] 3(1) refl 3(2)])
    moreover have "unat (rp_max_retry_attempts cfg) - a + 1 = (unat (rp_max_retry_attempts cfg) - (a + 1) + 1) + 1" using 3(2) by simp
    ultimately show ?thesis using le 3 by (simp add: replay_with_retry.simps [of L] b)
  qed (use le in \<open>simp_all add: replay_with_retry.simps [of L] b\<close>)
qed

section \<open>Witnesses\<close>

lemma demo_unanswered: "\<not> is_ok (broker_answer demo_json (demo_send 0) ''e'' demo_sink)"
  by (simp add: broker_answer_def send_to_kafka_def demo_json_def demo_send_def demo_sink_def kb_call_def kb_should_allow_def kb_tick_def kb_new_def)

definition demo_waiting :: "string sink" where
  "demo_waiting = sink_exec demo_wal_lib demo_json (Send (demo_send 0) ''e'') demo_sink"

lemma demo_waiting_takes:
  "log_takes demo_wal_lib (Send (demo_send 0) ''e'') demo_sink" "log_takes demo_wal_lib (Send (demo_send 1) ''e'') demo_waiting"
  using demo_step [OF demo_sink_ready] demo_step [of 1 demo_waiting] by (simp_all add: demo_waiting_def del: log_takes.simps sink_exec.simps)

lemma demo_waiting_events: "find_unacknowledged_events demo_waiting = [''e'']"
proof -
  have u: "untracked (se_event_id (demo_send 0)) (sk_tracker demo_sink)"
    and ok: "is_ok (snd (write_to_wal demo_wal_lib (demo_send 0) ''e'' (sk_wal demo_sink)))"
    using demo_waiting_takes(1) by simp_all
  obtain w l where wr: "write_to_wal demo_wal_lib (demo_send 0) ''e'' (sk_wal demo_sink) = (w, Inr l)"
    using ok by (cases "write_to_wal demo_wal_lib (demo_send 0) ''e'' (sk_wal demo_sink)") (auto simp: is_ok_conv)
  obtain r where sd: "send_with_durability demo_wal_lib demo_json (demo_send 0) ''e'' demo_sink = (demo_waiting, r)"
    by (cases "send_with_durability demo_wal_lib demo_json (demo_send 0) ''e'' demo_sink") (simp add: demo_waiting_def)
  have "at_pending (sk_tracker demo_sink) = []" by (simp add: demo_sink_def ack_tracker_new_def)
  then show ?thesis
    using send_logged(5) [OF u wr sd demo_unanswered] by (auto simp: find_unacknowledged_events_def get_pending_def)
qed

lemma recovery_replays_all_and_keeps_pending_witness:
  "snd (recover_on_startup demo_wal_lib demo_json HandleOnly demo_send replay_config_default (demo_waiting, 1)) =
     Ran \<lparr>rr_total_events = 1, rr_replayed_events = 1, rr_failed_events = 0, rr_failures = [], rr_batches_processed = 1, rr_retry_attempts = 0\<rparr>"
proof -
  have "guarded_run (log_takes demo_wal_lib) (sink_exec demo_wal_lib demo_json) (replays demo_send 1 [''e'']) demo_waiting"
    using demo_waiting_takes(2) by simp
  from recovery_replays_all_and_keeps_pending [OF _ demo_waiting_events [symmetric] this, of replay_config_default]
  show ?thesis by (simp add: replay_config_default_def chunks_Cons)
qed

lemma demo_start: "durable_kafka_start demo_big_config demo_env (Inr ()) demo_kafka (\<lambda>_. None) = ([0 \<mapsto> replicate 10000 0], Inr demo_sink)"
  by (simp add: durable_kafka_start_def demo_big_new demo_sink_new)

lemma restart_forgets_waiting_events_witness:
  "\<exists>disk (s1 :: string sink). durable_kafka_start demo_big_config demo_env (Inr ()) demo_kafka (fw_disk (sk_wal demo_waiting)) = (disk, Inr s1) \<and>
     find_unacknowledged_events demo_waiting = [''e''] \<and>
     recover_on_startup demo_wal_lib demo_json HandleOnly demo_send replay_config_default (s1, 0) = ((s1, 0), Ran empty_report)"
proof -
  have run: "guarded_run (sink_guard demo_wal_lib) (sink_exec demo_wal_lib demo_json) [Send (demo_send 0) ''e''] demo_sink"
    using demo_waiting_takes(1) by simp
  have out: "fst (outbox_of demo_wal_lib demo_json [Send (demo_send 0) ''e''] demo_sink) (se_event_id (demo_send 0)) = Some (''e'', False)"
    using demo_waiting_takes(1) demo_unanswered by (simp add: outbox_of_def)
  have state: "fold (sink_exec demo_wal_lib demo_json) [Send (demo_send 0) ''e''] demo_sink = demo_waiting" by (simp add: demo_waiting_def)
  have "\<exists>disk s1. durable_kafka_start demo_big_config demo_env (Inr ()) demo_kafka d = (disk, Inr (s1 :: string sink))" for d
    by (simp add: durable_kafka_start_def file_wal_new_def create_segment_def demo_env_def sink_new_def Let_def)
  then obtain disk and s1 :: "string sink" where s1: "durable_kafka_start demo_big_config demo_env (Inr ()) demo_kafka (fw_disk (sk_wal demo_waiting)) = (disk, Inr s1)"
    by blast
  show ?thesis
    using restart_forgets_waiting_events [OF demo_start run out, unfolded state, OF s1] s1 demo_waiting_events by blast
qed

end
