(* ===== verification/TemporalIndexes.thy ===== *)
theory TemporalIndexes
  imports KafkaReplay KV DemoLib "HOL-Library.Multiset"
begin

text \<open>
  Model of \<^verbatim>\<open>arcxa-coordinator/src/bitemporal/indexes.rs\<close> (and of the triples of
  \<^verbatim>\<open>governance/rdf_star.rs\<close> it indexes): six column families that hold the versions of every fact, with
  a bounded cache in front of the current ones. RocksDB is the interface of theory \<open>KV\<close>; the LRU cache,
  the bincode serializer and the parser of RFC 3339 dates are library code, taken as the records
  \<open>lru_ops\<close> and \<open>index_lib\<close> with the laws \<open>lru_lawful\<close> and \<open>index_lawful\<close>. The column families exist once
  the database is open. Metrics, logging, checkpoints, compaction and the floating point chain analysis
  are not modelled.
\<close>

section \<open>Triples and versions\<close>

datatype triple_value =
    Uri string
  | Literal string
  | TypedLiteral string string
  | LanguageLiteral string string

record annotation =
  ann_predicate :: string
  ann_object :: triple_value

record annotated_triple =
  at_subject :: string
  at_predicate :: string
  at_object :: string
  at_annotations :: "annotation list"

record version_ref =
  vr_version_id :: string
  vr_subject :: string
  vr_predicate :: string
  vr_object :: string
  vr_valid_from :: int
  vr_valid_to :: "int option"
  vr_tx_from :: int
  vr_tx_to :: "int option"
  vr_tx_seq :: u64
  vr_node_id :: u16

definition vr_is_current :: "version_ref \<Rightarrow> bool" where
  "vr_is_current r \<longleftrightarrow> vr_tx_to r = None"

definition vr_is_valid_at :: "version_ref \<Rightarrow> int \<Rightarrow> bool" where
  "vr_is_valid_at r t \<longleftrightarrow> vr_valid_from r \<le> t \<and> (case vr_valid_to r of None \<Rightarrow> True | Some vt \<Rightarrow> t < vt)"

definition vr_existed_at :: "version_ref \<Rightarrow> int \<Rightarrow> bool" where
  "vr_existed_at r t \<longleftrightarrow> vr_tx_from r \<le> t \<and> (case vr_tx_to r of None \<Rightarrow> True | Some tt \<Rightarrow> t < tt)"

record triple_metadata =
  md_version_id :: string
  md_subject :: string
  md_predicate :: string
  md_object :: string
  md_valid_from :: int
  md_valid_to :: "int option"
  md_tx_from :: int
  md_tx_to :: "int option"
  md_tx_seq :: u64
  md_node_id :: u16

definition version_of :: "triple_metadata \<Rightarrow> version_ref" where
  "version_of m =
     \<lparr>vr_version_id = md_version_id m, vr_subject = md_subject m, vr_predicate = md_predicate m,
      vr_object = md_object m, vr_valid_from = md_valid_from m, vr_valid_to = md_valid_to m,
      vr_tx_from = md_tx_from m, vr_tx_to = md_tx_to m, vr_tx_seq = md_tx_seq m, vr_node_id = md_node_id m\<rparr>"

section \<open>Libraries\<close>

record index_lib =
  il_encode_meta :: "triple_metadata \<Rightarrow> bytes option"
  il_decode_meta :: "bytes \<Rightarrow> triple_metadata option"
  il_encode_chain :: "string list \<Rightarrow> bytes option"
  il_decode_chain :: "bytes \<Rightarrow> string list option"
  il_rfc3339 :: "string \<Rightarrow> int option"

definition index_lawful :: "index_lib \<Rightarrow> bool" where
  "index_lawful L \<longleftrightarrow>
     (\<forall>m b. il_encode_meta L m = Some b \<longrightarrow> il_decode_meta L b = Some m) \<and>
     (\<forall>c b. il_encode_chain L c = Some b \<longrightarrow> il_decode_chain L b = Some c)"

text \<open>
  The cache: \<^verbatim>\<open>get\<close> may reorder the entries but changes no binding, \<^verbatim>\<open>put\<close> binds its key and may
  evict others, \<^verbatim>\<open>pop\<close> unbinds its key.
\<close>

record 'c lru_ops =
  lru_get :: "string \<Rightarrow> 'c \<Rightarrow> version_ref option \<times> 'c"
  lru_put :: "string \<Rightarrow> version_ref \<Rightarrow> 'c \<Rightarrow> 'c"
  lru_pop :: "string \<Rightarrow> 'c \<Rightarrow> 'c"
  lru_clear :: "'c \<Rightarrow> 'c"

definition lru_lawful :: "'c lru_ops \<Rightarrow> ('c \<Rightarrow> string \<Rightarrow> version_ref option) \<Rightarrow> bool" where
  "lru_lawful C w \<longleftrightarrow>
     (\<forall>k c. fst (lru_get C k c) = w c k \<and> w (snd (lru_get C k c)) = w c) \<and>
     (\<forall>k r c. w (lru_put C k r c) k = Some r) \<and>
     (\<forall>k r c k'. k' \<noteq> k \<longrightarrow> w (lru_put C k r c) k' = w c k' \<or> w (lru_put C k r c) k' = None) \<and>
     (\<forall>k c. w (lru_pop C k c) = (w c)(k := None)) \<and>
     (\<forall>c k. w (lru_clear C c) k = None)"

section \<open>Strings and keys\<close>

text \<open>
  A \<^verbatim>\<open>String\<close> is the list of its UTF-8 bytes. \<^verbatim>\<open>String::from_utf8\<close> accepts exactly the well-formed
  sequences: no overlong forms, no surrogates, nothing above U+10FFFF.
\<close>

definition cont :: "u8 \<Rightarrow> bool" where
  "cont b \<longleftrightarrow> 0x80 \<le> b \<and> b \<le> 0xBF"

fun utf8_ok :: "bytes \<Rightarrow> bool" where
  "utf8_ok [] = True"
| "utf8_ok (a # bs) =
     (if a < 0x80 then utf8_ok bs
      else case bs of
        b # cs \<Rightarrow>
          if 0xC2 \<le> a \<and> a \<le> 0xDF then cont b \<and> utf8_ok cs
          else (case cs of
            c # ds \<Rightarrow>
              if 0xE0 \<le> a \<and> a \<le> 0xEF
              then cont b \<and> cont c \<and> (a = 0xE0 \<longrightarrow> 0xA0 \<le> b) \<and> (a = 0xED \<longrightarrow> b \<le> 0x9F) \<and> utf8_ok ds
              else (case ds of
                d # es \<Rightarrow>
                  0xF0 \<le> a \<and> a \<le> 0xF4 \<and> cont b \<and> cont c \<and> cont d \<and>
                  (a = 0xF0 \<longrightarrow> 0x90 \<le> b) \<and> (a = 0xF4 \<longrightarrow> b \<le> 0x8F) \<and> utf8_ok es
              | [] \<Rightarrow> False)
          | [] \<Rightarrow> False)
      | [] \<Rightarrow> False)"

definition from_utf8 :: "bytes \<Rightarrow> string option" where
  "from_utf8 bs = (if utf8_ok bs then Some (map (\<lambda>b. char_of (unat b)) bs) else None)"

text \<open>
  \<^verbatim>\<open>{:016x}\<close> of a \<^verbatim>\<open>u64\<close> and \<^verbatim>\<open>{:04x}\<close> of a \<^verbatim>\<open>u16\<close> print exactly 16 and 4 digits, the highest first.
  \<^verbatim>\<open>timestamp_millis\<close> drops the nanoseconds.
\<close>

definition hex_char :: "nat \<Rightarrow> char" where
  "hex_char d = char_of (if d < 10 then 48 + d else 87 + d)"

definition show_hex :: "nat \<Rightarrow> nat \<Rightarrow> string" where
  "show_hex width n = map (\<lambda>i. hex_char (n div 16 ^ i mod 16)) (rev [0..<width])"

definition timestamp_millis :: "int \<Rightarrow> int" where
  "timestamp_millis t = t div 1000000"

definition tx_key :: "u64 \<Rightarrow> u16 \<Rightarrow> string \<Rightarrow> string" where
  "tx_key seq node vid = show_hex 16 (unat seq) @ '':'' @ show_hex 4 (unat node) @ '':'' @ vid"

definition sp_key :: "string \<Rightarrow> string \<Rightarrow> string" where
  "sp_key s p = s @ ''|'' @ p"

definition time_key :: "int \<Rightarrow> string \<Rightarrow> string \<Rightarrow> string" where
  "time_key t s p = show_int (timestamp_millis t) @ ''|'' @ s @ ''|'' @ p"

definition cf_version_chains :: string where "cf_version_chains = ''version_chains''"
definition cf_tx_index :: string where "cf_tx_index = ''tx_index''"
definition cf_valid_time :: string where "cf_valid_time = ''valid_time''"
definition cf_system_time :: string where "cf_system_time = ''system_time''"
definition cf_current_version :: string where "cf_current_version = ''current_version''"
definition cf_reverse_index :: string where "cf_reverse_index = ''reverse_index''"

section \<open>Operations\<close>

text \<open>The state of \<^verbatim>\<open>TemporalIndexes\<close>, and a database operation and a cache operation run in it.\<close>

record ('db, 'c) temporal_indexes =
  ti_db :: 'db
  ti_cache :: 'c

definition on_db :: "('db, 'a) io \<Rightarrow> (('db, 'c) temporal_indexes, 'a) io" where
  "on_db m s = (s\<lparr>ti_db := fst (m (ti_db s))\<rparr>, snd (m (ti_db s)))"

definition on_cache :: "('c \<Rightarrow> 'c) \<Rightarrow> (('db, 'c) temporal_indexes, unit) io" where
  "on_cache f s = (s\<lparr>ti_cache := f (ti_cache s)\<rparr>, Inr ())"

definition valid_from_uri :: string where
  "valid_from_uri = ''http://graphica.io/ontology#validFrom''"

definition valid_to_uri :: string where
  "valid_to_uri = ''http://graphica.io/ontology#validTo''"

text \<open>The loop over the annotations; a date that does not parse ends it with an error.\<close>

fun valid_time_loop ::
  "index_lib \<Rightarrow> annotation list \<Rightarrow> int option \<Rightarrow> int option \<Rightarrow> kv_error + int option \<times> int option" where
  "valid_time_loop L [] vf vt = Inr (vf, vt)"
| "valid_time_loop L (a # as) vf vt =
     (if ann_predicate a = valid_from_uri then
        (case ann_object a of
           TypedLiteral val _ \<Rightarrow>
             (case il_rfc3339 L val of None \<Rightarrow> Inl (BadData ''date'') | Some t \<Rightarrow> valid_time_loop L as (Some t) vt)
         | _ \<Rightarrow> valid_time_loop L as vf vt)
      else if ann_predicate a = valid_to_uri then
        (case ann_object a of
           TypedLiteral val _ \<Rightarrow>
             (case il_rfc3339 L val of None \<Rightarrow> Inl (BadData ''date'') | Some t \<Rightarrow> valid_time_loop L as vf (Some t))
         | Literal lit \<Rightarrow> valid_time_loop L as vf (if lit = ''MAX'' then None else vt)
         | _ \<Rightarrow> valid_time_loop L as vf vt)
      else valid_time_loop L as vf vt)"

definition extract_valid_time :: "index_lib \<Rightarrow> annotated_triple \<Rightarrow> kv_error + int \<times> int option" where
  "extract_valid_time L t =
     try_bind (valid_time_loop L (at_annotations t) None None) (\<lambda>(vf, vt).
       case vf of None \<Rightarrow> Inl (BadData ''Missing validFrom annotation'') | Some f \<Rightarrow> Inr (f, vt))"

definition io_of_result :: "kv_error + 'a \<Rightarrow> ('s, 'a) io" where
  "io_of_result r s = (s, r)"

definition new_metadata :: "annotated_triple \<Rightarrow> string \<Rightarrow> transaction_id \<Rightarrow> int \<times> int option \<Rightarrow> triple_metadata" where
  "new_metadata t vid tx vt =
     \<lparr>md_version_id = vid, md_subject = at_subject t, md_predicate = at_predicate t, md_object = at_object t,
      md_valid_from = fst vt, md_valid_to = snd vt, md_tx_from = tx_timestamp tx, md_tx_to = None,
      md_tx_seq = tx_seq tx, md_node_id = tx_node_id tx\<rparr>"

text \<open>The numbered steps of \<^verbatim>\<open>index_version\<close>, each with its early return, and the whole.\<close>

definition put_version :: "'db kv_ops \<Rightarrow> index_lib \<Rightarrow> triple_metadata \<Rightarrow> (('db, 'c) temporal_indexes, unit) io" where
  "put_version D L m =
     (let tk = str_bytes (tx_key (md_tx_seq m) (md_node_id m) (md_version_id m)) in
      io_bind (io_of_option (BadData ''serialize'') (il_encode_meta L m)) (\<lambda>mb.
      io_then (on_db (db_put D cf_tx_index tk mb))
              (on_db (db_put D cf_reverse_index (str_bytes (md_version_id m)) tk))))"

definition push_chain :: "'db kv_ops \<Rightarrow> index_lib \<Rightarrow> string \<Rightarrow> string \<Rightarrow> (('db, 'c) temporal_indexes, unit) io" where
  "push_chain D L sk vid =
     io_bind (on_db (db_get D cf_version_chains (str_bytes sk))) (\<lambda>old.
     let chain = (case old of None \<Rightarrow> []
                  | Some b \<Rightarrow> (case il_decode_chain L b of None \<Rightarrow> [] | Some c \<Rightarrow> c)) in
     io_bind (io_of_option (BadData ''serialize'') (il_encode_chain L (chain @ [vid]))) (\<lambda>cb.
       on_db (db_put D cf_version_chains (str_bytes sk) cb)))"

definition set_current :: "'db kv_ops \<Rightarrow> 'c lru_ops \<Rightarrow> string \<Rightarrow> string \<Rightarrow> (('db, 'c) temporal_indexes, unit) io" where
  "set_current D C sk vid =
     io_then (on_db (db_put D cf_current_version (str_bytes sk) (str_bytes vid)))
             (on_cache (lru_pop C sk))"

definition put_times :: "'db kv_ops \<Rightarrow> triple_metadata \<Rightarrow> (('db, 'c) temporal_indexes, unit) io" where
  "put_times D m =
     io_then (on_db (db_put D cf_valid_time (str_bytes (time_key (md_valid_from m) (md_subject m) (md_predicate m)))
                (str_bytes (md_version_id m))))
             (on_db (db_put D cf_system_time (str_bytes (time_key (md_tx_from m) (md_subject m) (md_predicate m)))
                (str_bytes (md_version_id m))))"

definition index_version ::
  "'db kv_ops \<Rightarrow> 'c lru_ops \<Rightarrow> index_lib \<Rightarrow> annotated_triple \<Rightarrow> string \<Rightarrow> transaction_id \<Rightarrow>
   (('db, 'c) temporal_indexes, unit) io" where
  "index_version D C L t vid tx =
     io_bind (io_of_result (extract_valid_time L t)) (\<lambda>vt.
     let m = new_metadata t vid tx vt; sk = sp_key (at_subject t) (at_predicate t) in
     io_then (put_version D L m)
    (io_then (push_chain D L sk vid)
    (io_then (set_current D C sk vid)
             (put_times D m))))"

definition get_version_by_id :: "'db kv_ops \<Rightarrow> index_lib \<Rightarrow> string \<Rightarrow> ('db, version_ref option) io" where
  "get_version_by_id D L vid =
     io_bind (db_get D cf_reverse_index (str_bytes vid)) (\<lambda>r.
       case r of
         None \<Rightarrow> io_return None
       | Some kb \<Rightarrow>
           io_bind (io_of_option (BadData ''utf8'') (from_utf8 kb)) (\<lambda>tk.
           io_bind (db_get D cf_tx_index (str_bytes tk)) (\<lambda>mr.
             case mr of
               None \<Rightarrow> io_return None
             | Some mb \<Rightarrow>
                 io_bind (io_of_option (BadData ''deserialize'') (il_decode_meta L mb)) (\<lambda>m.
                   io_return (Some (version_of m))))))"

text \<open>The slow path of \<^verbatim>\<open>find_current_version\<close>: the database alone.\<close>

definition current_from_db :: "'db kv_ops \<Rightarrow> index_lib \<Rightarrow> string \<Rightarrow> ('db, version_ref option) io" where
  "current_from_db D L sk =
     io_bind (db_get D cf_current_version (str_bytes sk)) (\<lambda>r.
       case r of
         None \<Rightarrow> io_return None
       | Some vb \<Rightarrow> io_bind (io_of_option (BadData ''utf8'') (from_utf8 vb)) (get_version_by_id D L))"

definition find_current_version ::
  "'db kv_ops \<Rightarrow> 'c lru_ops \<Rightarrow> index_lib \<Rightarrow> string \<Rightarrow> string \<Rightarrow>
   (('db, 'c) temporal_indexes, version_ref option) io" where
  "find_current_version D C L s p st =
     (let sk = sp_key s p; (hit, c) = lru_get C sk (ti_cache st); st' = st\<lparr>ti_cache := c\<rparr> in
      case hit of
        Some r \<Rightarrow> (st', Inr (Some r))
      | None \<Rightarrow>
          io_bind (on_db (current_from_db D L sk)) (\<lambda>found.
            case found of
              None \<Rightarrow> io_return None
            | Some r \<Rightarrow> io_then (on_cache (lru_put C sk r)) (io_return (Some r))) st')"

fun collect_versions :: "'db kv_ops \<Rightarrow> index_lib \<Rightarrow> string list \<Rightarrow> ('db, version_ref list) io" where
  "collect_versions D L [] = io_return []"
| "collect_versions D L (vid # vids) =
     io_bind (get_version_by_id D L vid) (\<lambda>r.
     io_bind (collect_versions D L vids) (\<lambda>rest.
       io_return (case r of Some x \<Rightarrow> x # rest | None \<Rightarrow> rest)))"

text \<open>\<^verbatim>\<open>sort_by_key\<close> is stable.\<close>

definition get_version_chain :: "'db kv_ops \<Rightarrow> index_lib \<Rightarrow> string \<Rightarrow> string \<Rightarrow> ('db, version_ref list) io" where
  "get_version_chain D L s p =
     io_bind (db_get D cf_version_chains (str_bytes (sp_key s p))) (\<lambda>r.
       case r of
         None \<Rightarrow> io_return []
       | Some b \<Rightarrow>
           io_bind (io_of_option (BadData ''deserialize'') (il_decode_chain L b)) (\<lambda>vids.
           io_bind (collect_versions D L vids) (\<lambda>vs. io_return (sort_key vr_tx_seq vs))))"

text \<open>\<^verbatim>\<open>Iterator::max_by_key\<close>: the last of the greatest elements.\<close>

fun max_by_key :: "('a \<Rightarrow> 'k::linorder) \<Rightarrow> 'a list \<Rightarrow> 'a option" where
  "max_by_key f [] = None"
| "max_by_key f (x # xs) =
     (case max_by_key f xs of None \<Rightarrow> Some x | Some y \<Rightarrow> if f y < f x then Some x else Some y)"

definition find_version_at ::
  "'db kv_ops \<Rightarrow> index_lib \<Rightarrow> string \<Rightarrow> string \<Rightarrow> int \<Rightarrow> int \<Rightarrow> ('db, version_ref option) io" where
  "find_version_at D L s p valid_time system_time =
     io_bind (get_version_chain D L s p) (\<lambda>chain.
       io_return (max_by_key vr_tx_seq
         (filter (\<lambda>r. vr_is_valid_at r valid_time \<and> vr_existed_at r system_time) chain)))"

definition supersede_version ::
  "'db kv_ops \<Rightarrow> 'c lru_ops \<Rightarrow> index_lib \<Rightarrow> string \<Rightarrow> int \<Rightarrow> (('db, 'c) temporal_indexes, unit) io" where
  "supersede_version D C L vid superseded_at =
     io_bind (on_db (db_get D cf_reverse_index (str_bytes vid))) (\<lambda>r.
     io_bind (io_of_option (BadData ''not found in reverse index'') r) (\<lambda>kb.
     io_bind (io_of_option (BadData ''utf8'') (from_utf8 kb)) (\<lambda>tk.
     io_bind (on_db (db_get D cf_tx_index (str_bytes tk))) (\<lambda>mr.
     io_bind (io_of_option (BadData ''metadata not found'') mr) (\<lambda>mb.
     io_bind (io_of_option (BadData ''deserialize'') (il_decode_meta L mb)) (\<lambda>m.
     let m' = m\<lparr>md_tx_to := Some superseded_at\<rparr> in
     io_bind (io_of_option (BadData ''serialize'') (il_encode_meta L m')) (\<lambda>mb'.
     io_then (on_db (db_put D cf_tx_index (str_bytes tk) mb'))
             (on_cache (lru_pop C (sp_key (md_subject m') (md_predicate m')))))))))))"

definition clear_cache :: "'c lru_ops \<Rightarrow> (('db, 'c) temporal_indexes, unit) io" where
  "clear_cache C = on_cache (lru_clear C)"

section \<open>Reasoning about operations that can fail\<close>

text \<open>
  The weakest precondition of an operation for a postcondition on success and one on failure, and the
  operations that only read: they leave the state as it is, return \<open>x\<close> if they return, and return when no
  read of the database fails.
\<close>

definition wp :: "('s, 'a) io \<Rightarrow> ('a \<Rightarrow> 's \<Rightarrow> bool) \<Rightarrow> ('s \<Rightarrow> bool) \<Rightarrow> 's \<Rightarrow> bool" where
  "wp m Q E s = (case m s of (s', Inl _) \<Rightarrow> E s' | (s', Inr a) \<Rightarrow> Q a s')"

definition reads :: "'db kv_ops \<Rightarrow> ('db, 'a) io \<Rightarrow> 'db \<Rightarrow> 'a \<Rightarrow> bool" where
  "reads D m db x \<longleftrightarrow> m db = (db, Inr x) \<or> (\<not> kv_reads_ok D \<and> (\<exists>e. m db = (db, Inl e)))"

lemma wp_bind: "wp m (\<lambda>a. wp (f a) Q E) E s \<Longrightarrow> wp (io_bind m f) Q E s"
  by (auto simp: wp_def io_bind_def split: prod.splits sum.splits)

lemma wp_then: "wp m (\<lambda>_. wp n Q E) E s \<Longrightarrow> wp (io_then m n) Q E s"
  unfolding io_then_def by (rule wp_bind)

lemma wp_option: "(x = None \<Longrightarrow> E s) \<Longrightarrow> (\<And>a. x = Some a \<Longrightarrow> Q a s) \<Longrightarrow> wp (io_of_option e x) Q E s"
  by (cases x) (simp_all add: wp_def)

lemma wp_result: "(\<And>e. r = Inl e \<Longrightarrow> E s) \<Longrightarrow> (\<And>a. r = Inr a \<Longrightarrow> Q a s) \<Longrightarrow> wp (io_of_result r) Q E s"
  by (cases r) (simp_all add: wp_def io_of_result_def)

lemma wp_cache: "Q () (s\<lparr>ti_cache := f (ti_cache s)\<rparr>) \<Longrightarrow> wp (on_cache f) Q E s"
  by (simp add: wp_def on_cache_def)

lemma wp_put:
  assumes "kv_lawful D v" "\<not> kv_reliable D \<Longrightarrow> E s"
    "\<And>db'. v db' = view_set cf k (Some b) (v (ti_db s)) \<Longrightarrow> Q () (s\<lparr>ti_db := db'\<rparr>)"
  shows "wp (on_db (db_put D cf k b)) Q E s"
proof (cases "db_put D cf k b (ti_db s)")
  case (Pair db' r)
  from db_put_cases [OF assms(1) Pair] consider (fail) e where "r = Inl e" "db' = ti_db s"
    | (ok) "r = Inr ()" "v db' = view_set cf k (Some b) (v (ti_db s))" by blast
  then show ?thesis
  proof cases
    case fail
    then have "\<not> kv_reliable D" using db_put_reliable [OF assms(1), of cf k b "ti_db s"] Pair by auto
    then show ?thesis using assms(2) fail Pair by (simp add: wp_def on_db_def)
  next
    case ok
    then show ?thesis using assms(3) Pair by (simp add: wp_def on_db_def)
  qed
qed

lemma wp_reads: "reads D m (ti_db s) x \<Longrightarrow> (\<not> kv_reads_ok D \<Longrightarrow> E s) \<Longrightarrow> Q x s \<Longrightarrow> wp (on_db m) Q E s"
  by (auto simp: wp_def on_db_def reads_def)

lemma wpD: "wp m Q E s \<Longrightarrow> m s = (s', Inr a) \<Longrightarrow> Q a s'"
  and wp_any: "wp m (\<lambda>_. E) E s \<Longrightarrow> E (fst (m s))"
  by (auto simp: wp_def split: prod.splits sum.splits)

lemma reads_get: "kv_lawful D v \<Longrightarrow> reads D (db_get D cf k) db (v db cf k)"
proof -
  assume D: "kv_lawful D v"
  obtain r where r: "db_get D cf k db = (db, r)" by (simp add: db_get_def)
  show ?thesis
    using db_get_cases [OF D r] r db_get_reliable [OF D] by (cases "kv_reads_ok D") (auto simp: reads_def)
qed

lemma reads_return: "reads D (io_return x) db x"
  by (simp add: reads_def)

lemma reads_pair [simp]: "reads D (\<lambda>db. (db, Inr x)) db x"
  by (simp add: reads_def)

lemma reads_bind: "reads D m db x \<Longrightarrow> reads D (f x) db y \<Longrightarrow> reads D (io_bind m f) db y"
  by (auto simp: reads_def io_bind_def)

lemma io_bind_return: "io_bind (io_return a) f = f a"
  by (rule ext) (simp add: io_bind_def)

lemma reads_ok: "reads D m db x \<Longrightarrow> kv_reads_ok D \<Longrightarrow> m db = (db, Inr x)"
  by (simp add: reads_def)

section \<open>Strings and keys: laws\<close>

lemma char_bytes: "(unat (of_nat (of_char c :: nat) :: u8)) = of_char c"
  by (intro unat_of_nat_small) simp

lemma from_utf8_str: "from_utf8 (str_bytes s) = (if utf8_ok (str_bytes s) then Some s else None)"
proof -
  have "(\<lambda>b :: u8. char_of (unat b)) \<circ> (\<lambda>c. of_nat (of_char c)) = (id :: char \<Rightarrow> char)"
    by (rule ext) (simp add: char_bytes)
  then have "map (\<lambda>b. char_of (unat b)) (str_bytes s) = s"
    by (simp add: str_bytes_def)
  then show ?thesis by (simp add: from_utf8_def)
qed

lemma str_bytes_append: "str_bytes (a @ b) = str_bytes a @ str_bytes b"
  by (simp add: str_bytes_def)

lemma utf8_ascii_append: "(\<forall>b \<in> set as. b < 0x80) \<Longrightarrow> utf8_ok (as @ bs) = utf8_ok bs"
  by (induction as) simp_all

lemma ascii_string: "(\<forall>c \<in> set s. (of_char c :: nat) < 128) \<Longrightarrow> \<forall>b \<in> set (str_bytes s). b < 0x80"
  by (auto simp: str_bytes_def word_less_nat_alt char_bytes)

lemma length_show_hex [simp]: "length (show_hex w n) = w"
  by (simp add: show_hex_def)

lemma hex_ascii: "c \<in> set (show_hex w n) \<Longrightarrow> (of_char c :: nat) < 128"
proof -
  assume "c \<in> set (show_hex w n)"
  then obtain d where "c = hex_char d" "d < 16" by (auto simp: show_hex_def)
  then show ?thesis by (simp add: hex_char_def)
qed

lemma tx_key_vid: "tx_key a b u = tx_key a' b' u' \<Longrightarrow> u = u'"
  by (simp add: tx_key_def)

lemma tx_key_utf8: "utf8_ok (str_bytes (tx_key a b u)) = utf8_ok (str_bytes u)"
proof -
  have key: "tx_key a b u = (show_hex 16 (unat a) @ '':'' @ show_hex 4 (unat b) @ '':'') @ u"
    by (simp add: tx_key_def)
  show ?thesis unfolding key str_bytes_append [of _ u]
    by (rule utf8_ascii_append [OF ascii_string]) (auto dest: hex_ascii)
qed

lemmas cf_defs = cf_version_chains_def cf_tx_index_def cf_valid_time_def cf_system_time_def
  cf_current_version_def cf_reverse_index_def

section \<open>What the indexes represent\<close>

text \<open>
  The abstract index: the versions by identifier, the current version and the chain of versions of each
  subject and predicate. \<open>represents\<close> says that the column families hold it; \<open>coherent\<close> that the cache
  holds nothing but current versions.
\<close>

record index_spec =
  sp_meta :: "string \<Rightarrow> triple_metadata option"
  sp_current :: "string \<Rightarrow> string option"
  sp_chain :: "string \<Rightarrow> string list"

definition spec_empty :: index_spec where
  "spec_empty = \<lparr>sp_meta = (\<lambda>_. None), sp_current = (\<lambda>_. None), sp_chain = (\<lambda>_. [])\<rparr>"

definition meta_key :: "triple_metadata \<Rightarrow> bytes" where
  "meta_key m = str_bytes (tx_key (md_tx_seq m) (md_node_id m) (md_version_id m))"

definition fact_key :: "triple_metadata \<Rightarrow> string" where
  "fact_key m = sp_key (md_subject m) (md_predicate m)"

definition spec_lookup :: "index_spec \<Rightarrow> string \<Rightarrow> version_ref option" where
  "spec_lookup A k = Option.bind (sp_current A k) (\<lambda>vid. map_option version_of (sp_meta A vid))"

definition spec_versions :: "index_spec \<Rightarrow> string \<Rightarrow> version_ref list" where
  "spec_versions A k = List.map_filter (\<lambda>vid. map_option version_of (sp_meta A vid)) (sp_chain A k)"

definition spec_index :: "triple_metadata \<Rightarrow> index_spec \<Rightarrow> index_spec" where
  "spec_index m A = A\<lparr>sp_meta := (sp_meta A)(md_version_id m \<mapsto> m),
     sp_chain := (sp_chain A)(fact_key m := sp_chain A (fact_key m) @ [md_version_id m]),
     sp_current := (sp_current A)(fact_key m \<mapsto> md_version_id m)\<rparr>"

definition spec_supersede :: "string \<Rightarrow> int \<Rightarrow> index_spec \<Rightarrow> index_spec" where
  "spec_supersede vid t A =
     (case sp_meta A vid of None \<Rightarrow> A | Some m \<Rightarrow> A\<lparr>sp_meta := (sp_meta A)(vid \<mapsto> m\<lparr>md_tx_to := Some t\<rparr>)\<rparr>)"

definition stored_meta :: "index_lib \<Rightarrow> (string \<Rightarrow> bytes \<Rightarrow> bytes option) \<Rightarrow> string \<Rightarrow> triple_metadata \<Rightarrow> bool" where
  "stored_meta L w vid m \<longleftrightarrow> md_version_id m = vid \<and> utf8_ok (str_bytes vid) \<and>
     w cf_reverse_index (str_bytes vid) = Some (meta_key m) \<and>
     (\<exists>b. w cf_tx_index (meta_key m) = Some b \<and> il_decode_meta L b = Some m)"

definition represents :: "index_lib \<Rightarrow> (string \<Rightarrow> bytes \<Rightarrow> bytes option) \<Rightarrow> index_spec \<Rightarrow> bool" where
  "represents L w A \<longleftrightarrow>
     (\<forall>vid m. sp_meta A vid = Some m \<longrightarrow> stored_meta L w vid m) \<and>
     (\<forall>vid. sp_meta A vid = None \<longrightarrow> w cf_reverse_index (str_bytes vid) = None) \<and>
     (\<forall>k. w cf_current_version (str_bytes k) = map_option str_bytes (sp_current A k)) \<and>
     (\<forall>k vid. sp_current A k = Some vid \<longrightarrow> (\<exists>m. sp_meta A vid = Some m \<and> fact_key m = k)) \<and>
     (\<forall>k. (w cf_version_chains (str_bytes k) = None \<and> sp_chain A k = []) \<or>
          (\<exists>b. w cf_version_chains (str_bytes k) = Some b \<and> il_decode_chain L b = Some (sp_chain A k))) \<and>
     (\<forall>k. \<forall>vid \<in> set (sp_chain A k). \<exists>m. sp_meta A vid = Some m \<and> fact_key m = k)"

definition coherent :: "('c \<Rightarrow> string \<Rightarrow> version_ref option) \<Rightarrow> index_spec \<Rightarrow> 'c \<Rightarrow> bool" where
  "coherent w A c \<longleftrightarrow> (\<forall>k r. w c k = Some r \<longrightarrow> spec_lookup A k = Some r)"

lemma representsD:
  assumes "represents L w A"
  shows "sp_meta A vid = Some m \<Longrightarrow> stored_meta L w vid m"
    "sp_meta A vid = None \<Longrightarrow> w cf_reverse_index (str_bytes vid) = None"
    "w cf_current_version (str_bytes k) = map_option str_bytes (sp_current A k)"
    "sp_current A k = Some vid \<Longrightarrow> \<exists>m. sp_meta A vid = Some m \<and> fact_key m = k"
    "(w cf_version_chains (str_bytes k) = None \<and> sp_chain A k = []) \<or>
       (\<exists>b. w cf_version_chains (str_bytes k) = Some b \<and> il_decode_chain L b = Some (sp_chain A k))"
    "vid \<in> set (sp_chain A k) \<Longrightarrow> \<exists>m. sp_meta A vid = Some m \<and> fact_key m = k"
  using assms unfolding represents_def by blast+

lemma represents_empty: "(\<And>cf k. w cf k = None) \<Longrightarrow> represents L w spec_empty"
  by (simp add: represents_def spec_empty_def)

lemma meta_key_vid: "meta_key m = meta_key m' \<Longrightarrow> md_version_id m = md_version_id m'"
  unfolding meta_key_def str_bytes_inject by (rule tx_key_vid)

lemma stored_meta_frame:
  "stored_meta L w vid m \<Longrightarrow> cf \<noteq> cf_reverse_index \<Longrightarrow> cf \<noteq> cf_tx_index \<or> k \<noteq> meta_key m \<Longrightarrow>
   stored_meta L (view_set cf k x w) vid m"
  by (auto simp: stored_meta_def view_set_other)

text \<open>One lemma per write of the code: what the column families represent afterwards.\<close>

lemma represents_time_put:
  "represents L w A \<Longrightarrow> cf = cf_valid_time \<or> cf = cf_system_time \<Longrightarrow> represents L (view_set cf k x w) A"
  unfolding represents_def stored_meta_def view_set_def by (elim disjE) (simp_all add: cf_defs)

lemma represents_tx_put:
  assumes "represents L w A" "sp_meta A (md_version_id m) = None"
  shows "represents L (view_set cf_tx_index (meta_key m) x w) A"
proof -
  have "stored_meta L (view_set cf_tx_index (meta_key m) x w) vid m'" if "sp_meta A vid = Some m'" for vid m'
  proof (rule stored_meta_frame [OF representsD(1) [OF assms(1) that]])
    have "md_version_id m' = vid" using representsD(1) [OF assms(1) that] by (simp add: stored_meta_def)
    then show "cf_tx_index \<noteq> cf_tx_index \<or> meta_key m \<noteq> meta_key m'"
      using assms(2) that by (auto dest: meta_key_vid)
  qed (simp add: cf_defs)
  moreover have "view_set cf_tx_index (meta_key m) x w cf k = w cf k" if "cf \<noteq> cf_tx_index" for cf k
    using that by (simp add: view_set_other)
  ultimately show ?thesis using assms(1) unfolding represents_def by (simp add: cf_defs)
qed

lemma represents_rev_put:
  assumes "represents L w A" "sp_meta A (md_version_id m) = None" "utf8_ok (str_bytes (md_version_id m))"
    "w cf_tx_index (meta_key m) = Some b" "il_decode_meta L b = Some m"
  shows "represents L (view_set cf_reverse_index (str_bytes (md_version_id m)) (Some (meta_key m)) w)
    (A\<lparr>sp_meta := (sp_meta A)(md_version_id m \<mapsto> m)\<rparr>)" (is "represents L ?w ?A")
proof -
  have same: "?w cf k = w cf k" if "cf \<noteq> cf_reverse_index" for cf k using that by (simp add: view_set_other)
  have other: "?w cf_reverse_index (str_bytes u) = w cf_reverse_index (str_bytes u)" if "u \<noteq> md_version_id m" for u
    using that by (simp add: view_set_other)
  have cf: "cf_tx_index \<noteq> cf_reverse_index" "cf_current_version \<noteq> cf_reverse_index"
    "cf_version_chains \<noteq> cf_reverse_index" by (simp_all add: cf_defs)
  have "stored_meta L ?w u m'" if "sp_meta ?A u = Some m'" for u m'
  proof (cases "u = md_version_id m")
    case True
    then show ?thesis using that assms(3-5) same [OF cf(1)] by (simp add: stored_meta_def)
  next
    case False
    with that have "stored_meta L w u m'" using representsD(1) [OF assms(1)] by simp
    then show ?thesis using False by (simp add: stored_meta_def same [OF cf(1)] other)
  qed
  moreover have "?w cf_reverse_index (str_bytes u) = None" if "sp_meta ?A u = None" for u
    using that representsD(2) [OF assms(1), of u] other [of u] by (cases "u = md_version_id m") simp_all
  moreover have "\<exists>m'. sp_meta ?A u = Some m' \<and> fact_key m' = k"
    if "sp_current A k = Some u \<or> u \<in> set (sp_chain A k)" for k u
    using that representsD(4,6) [OF assms(1), where k = k and vid = u] assms(2) by fastforce
  ultimately show ?thesis
    using representsD(3,5) [OF assms(1)] unfolding represents_def by (simp add: same cf)
qed

lemma represents_chain_put:
  assumes "represents L w A" "sp_meta A vid = Some m" "il_decode_chain L b = Some (sp_chain A (fact_key m) @ [vid])"
  shows "represents L (view_set cf_version_chains (str_bytes (fact_key m)) (Some b) w)
    (A\<lparr>sp_chain := (sp_chain A)(fact_key m := sp_chain A (fact_key m) @ [vid])\<rparr>)" (is "represents L ?w ?A")
proof -
  have same: "?w cf k = w cf k" if "cf \<noteq> cf_version_chains" for cf k using that by (simp add: view_set_other)
  have cf: "cf_tx_index \<noteq> cf_version_chains" "cf_current_version \<noteq> cf_version_chains"
    "cf_reverse_index \<noteq> cf_version_chains" by (simp_all add: cf_defs)
  have "stored_meta L ?w = stored_meta L w"
    by (intro ext) (simp add: stored_meta_def same cf)
  moreover have "(?w cf_version_chains (str_bytes k) = None \<and> sp_chain ?A k = []) \<or>
      (\<exists>b. ?w cf_version_chains (str_bytes k) = Some b \<and> il_decode_chain L b = Some (sp_chain ?A k))" for k
    using representsD(5) [OF assms(1), of k] assms(3) by (cases "k = fact_key m") (simp_all add: view_set_other)
  moreover have "\<exists>m'. sp_meta A u = Some m' \<and> fact_key m' = k" if "u \<in> set (sp_chain ?A k)" for u k
    using that representsD(6) [OF assms(1), of u k] assms(2) by (auto split: if_splits)
  ultimately show ?thesis
    using representsD(1-4) [OF assms(1)] unfolding represents_def by (simp add: same cf)
qed

lemma represents_current_put:
  assumes "represents L w A" "sp_meta A vid = Some m"
  shows "represents L (view_set cf_current_version (str_bytes (fact_key m)) (Some (str_bytes vid)) w)
    (A\<lparr>sp_current := (sp_current A)(fact_key m \<mapsto> vid)\<rparr>)" (is "represents L ?w ?A")
proof -
  have same: "?w cf k = w cf k" if "cf \<noteq> cf_current_version" for cf k using that by (simp add: view_set_other)
  have cf: "cf_tx_index \<noteq> cf_current_version" "cf_version_chains \<noteq> cf_current_version"
    "cf_reverse_index \<noteq> cf_current_version" by (simp_all add: cf_defs)
  have "stored_meta L ?w = stored_meta L w"
    by (intro ext) (simp add: stored_meta_def same cf)
  moreover have "?w cf_current_version (str_bytes k) = map_option str_bytes (sp_current ?A k)" for k
    using representsD(3) [OF assms(1), of k] by (cases "k = fact_key m") (simp_all add: view_set_other)
  ultimately show ?thesis
    using representsD(1,2,4-6) [OF assms(1)] assms(2) unfolding represents_def by (simp add: same cf)
qed

lemma represents_supersede_put:
  assumes "represents L w A" "sp_meta A vid = Some m" "il_decode_meta L b = Some (m\<lparr>md_tx_to := x\<rparr>)"
  shows "represents L (view_set cf_tx_index (meta_key m) (Some b) w)
    (A\<lparr>sp_meta := (sp_meta A)(vid \<mapsto> m\<lparr>md_tx_to := x\<rparr>)\<rparr>)" (is "represents L ?w ?A")
proof -
  have same: "?w cf k = w cf k" if "cf \<noteq> cf_tx_index" for cf k using that by (simp add: view_set_other)
  have cf: "cf_current_version \<noteq> cf_tx_index" "cf_version_chains \<noteq> cf_tx_index"
    "cf_reverse_index \<noteq> cf_tx_index" by (simp_all add: cf_defs)
  have st: "stored_meta L w vid m" by (rule representsD(1) [OF assms(1,2)])
  have key: "meta_key (m\<lparr>md_tx_to := x\<rparr>) = meta_key m" "fact_key (m\<lparr>md_tx_to := x\<rparr>) = fact_key m"
    by (simp_all add: meta_key_def fact_key_def)
  have "stored_meta L ?w u m'" if "sp_meta ?A u = Some m'" for u m'
  proof (cases "u = vid")
    case True
    then show ?thesis using that st assms(3) same [OF cf(3)] by (auto simp: stored_meta_def key)
  next
    case False
    with that have s': "stored_meta L w u m'" using representsD(1) [OF assms(1)] by simp
    then have "meta_key m \<noteq> meta_key m'" using False st by (auto simp: stored_meta_def dest: meta_key_vid)
    then show ?thesis using s' by (intro stored_meta_frame) (auto simp: cf_defs)
  qed
  moreover have "\<exists>m'. sp_meta ?A u = Some m' \<and> fact_key m' = k"
    if "sp_current A k = Some u \<or> u \<in> set (sp_chain A k)" for k u
    using that representsD(4,6) [OF assms(1), where k = k and vid = u] assms(2) key by fastforce
  moreover have "sp_meta A u = None" if "sp_meta ?A u = None" for u using that by (simp split: if_splits)
  ultimately show ?thesis
    using representsD(2,3,5) [OF assms(1)] unfolding represents_def by (simp add: same cf)
qed

section \<open>The operations on what is represented\<close>

definition ix_state ::
  "'db kv_ops \<Rightarrow> 'db kv_view \<Rightarrow> 'c lru_ops \<Rightarrow> ('c \<Rightarrow> string \<Rightarrow> version_ref option) \<Rightarrow> index_lib \<Rightarrow>
   index_spec \<Rightarrow> ('db, 'c) temporal_indexes \<Rightarrow> bool" where
  "ix_state D v C w L A s \<longleftrightarrow> kv_lawful D v \<and> lru_lawful C w \<and> index_lawful L \<and>
     represents L (v (ti_db s)) A \<and> coherent w A (ti_cache s)"

text \<open>No operation fails for want of a serialized form.\<close>

definition encodes_all :: "index_lib \<Rightarrow> bool" where
  "encodes_all L \<longleftrightarrow> (\<forall>m. il_encode_meta L m \<noteq> None) \<and> (\<forall>c. il_encode_chain L c \<noteq> None)"

text \<open>A failed \<^verbatim>\<open>index_version\<close> leaves each of the three parts as it was or as it was to be.\<close>

definition leftover :: "triple_metadata \<Rightarrow> index_spec \<Rightarrow> index_spec \<Rightarrow> bool" where
  "leftover m A A' \<longleftrightarrow> sp_meta A' \<in> {sp_meta A, sp_meta (spec_index m A)} \<and>
     sp_chain A' \<in> {sp_chain A, sp_chain (spec_index m A)} \<and>
     sp_current A' \<in> {sp_current A, sp_current (spec_index m A)}"

lemma get_version_by_id_reads:
  assumes D: "kv_lawful D v" and rep: "represents L (v db) A"
  shows "reads D (get_version_by_id D L vid) db (map_option version_of (sp_meta A vid))"
proof (cases "sp_meta A vid")
  case None
  then show ?thesis
    using reads_get [OF D, of cf_reverse_index "str_bytes vid" db] representsD(2) [OF rep None] unfolding get_version_by_id_def
    by (intro reads_bind [where x = None]) (simp_all add: reads_return)
next
  case (Some m)
  from representsD(1) [OF rep Some] obtain b where b: "md_version_id m = vid" "utf8_ok (str_bytes vid)"
    "v db cf_reverse_index (str_bytes vid) = Some (meta_key m)" "v db cf_tx_index (meta_key m) = Some b"
    "il_decode_meta L b = Some m"
    by (auto simp: stored_meta_def)
  let ?tk = "tx_key (md_tx_seq m) (md_node_id m) vid"
  have tk: "from_utf8 (meta_key m) = Some ?tk"
    using b(1,2) by (simp add: meta_key_def from_utf8_str tx_key_utf8)
  have tx: "reads D (db_get D cf_tx_index (str_bytes ?tk)) db (Some b)"
    using reads_get [OF D, of cf_tx_index "str_bytes ?tk" db] b(1,4) by (simp add: meta_key_def)
  have rev: "reads D (db_get D cf_reverse_index (str_bytes vid)) db (Some (meta_key m))"
    using reads_get [OF D, of cf_reverse_index "str_bytes vid" db] b(3) by simp
  show ?thesis
    unfolding get_version_by_id_def
    by (rule reads_bind [OF rev], simp add: tk io_bind_return, rule reads_bind [OF tx])
      (simp add: b(5) Some io_bind_return reads_return)
qed

lemma current_from_db_reads:
  assumes D: "kv_lawful D v" and rep: "represents L (v db) A"
  shows "reads D (current_from_db D L k) db (spec_lookup A k)"
proof -
  have get: "reads D (db_get D cf_current_version (str_bytes k)) db (map_option str_bytes (sp_current A k))"
    using reads_get [OF D, of cf_current_version "str_bytes k" db] representsD(3) [OF rep] by simp
  show ?thesis
  proof (cases "sp_current A k")
    case None
    then show ?thesis unfolding current_from_db_def
      by (intro reads_bind [OF get]) (simp add: spec_lookup_def reads_return)
  next
    case (Some vid)
    then obtain m where "sp_meta A vid = Some m" using representsD(4) [OF rep] by blast
    then have "utf8_ok (str_bytes vid)" using representsD(1) [OF rep] by (simp add: stored_meta_def)
    then show ?thesis unfolding current_from_db_def using Some get_version_by_id_reads [OF D rep, of vid]
      by (intro reads_bind [OF get]) (simp add: spec_lookup_def from_utf8_str reads_bind [OF reads_return])
  qed
qed

lemma collect_versions_reads:
  assumes "kv_lawful D v" "represents L (v db) A"
  shows "reads D (collect_versions D L vids) db (List.map_filter (\<lambda>vid. map_option version_of (sp_meta A vid)) vids)"
proof (induction vids)
  case (Cons vid vids)
  show ?case unfolding collect_versions.simps
    by (rule reads_bind [OF get_version_by_id_reads [OF assms]], rule reads_bind [OF Cons.IH])
      (simp add: List.map_filter_simps reads_return split: option.split)
qed (unfold collect_versions.simps List.map_filter_simps, rule reads_return)

lemma get_version_chain_reads:
  assumes D: "kv_lawful D v" and rep: "represents L (v db) A"
  shows "reads D (get_version_chain D L s p) db (sort_key vr_tx_seq (spec_versions A (sp_key s p)))"
proof -
  let ?k = "sp_key s p"
  note get = reads_get [OF D, of cf_version_chains "str_bytes ?k" db]
  from representsD(5) [OF rep, of ?k] show ?thesis
  proof (elim disjE exE conjE)
    assume "v db cf_version_chains (str_bytes ?k) = None" "sp_chain A ?k = []"
    then show ?thesis unfolding get_version_chain_def
      by (intro reads_bind [OF get]) (simp add: spec_versions_def List.map_filter_simps reads_return)
  next
    fix b assume "v db cf_version_chains (str_bytes ?k) = Some b" "il_decode_chain L b = Some (sp_chain A ?k)"
    then show ?thesis unfolding get_version_chain_def
      by (intro reads_bind [OF get])
        (auto simp: spec_versions_def intro!: reads_bind [OF reads_return] reads_bind [OF collect_versions_reads [OF D rep]] reads_return)
  qed
qed

lemma coherent_get: "lru_lawful C w \<Longrightarrow> coherent w A c \<Longrightarrow> coherent w A (snd (lru_get C k c))"
  by (simp add: coherent_def lru_lawful_def)

lemma coherent_put:
  "lru_lawful C w \<Longrightarrow> coherent w A c \<Longrightarrow> spec_lookup A k = Some r \<Longrightarrow> coherent w A (lru_put C k r c)"
  unfolding coherent_def lru_lawful_def by (metis option.distinct(1) option.inject)

lemma coherent_pop:
  "lru_lawful C w \<Longrightarrow> coherent w A c \<Longrightarrow> (\<And>k'. k' \<noteq> k \<Longrightarrow> spec_lookup A' k' = spec_lookup A k') \<Longrightarrow>
   coherent w A' (lru_pop C k c)"
  by (auto simp: coherent_def lru_lawful_def)

lemma coherent_clear: "lru_lawful C w \<Longrightarrow> coherent w A (lru_clear C c)"
  by (simp add: coherent_def lru_lawful_def)

lemma coherent_same: "coherent w A c \<Longrightarrow> (\<And>k. spec_lookup A' k = spec_lookup A k) \<Longrightarrow> coherent w A' c"
  by (simp add: coherent_def)

lemma find_current_version_wp:
  assumes "ix_state D v C w L A st"
  shows "wp (find_current_version D C L s p) (\<lambda>r s'. r = spec_lookup A (sp_key s p) \<and> ix_state D v C w L A s')
    (\<lambda>s'. \<not> kv_reads_ok D \<and> ix_state D v C w L A s') st"
proof -
  let ?k = "sp_key s p"
  obtain hit c where g: "lru_get C ?k (ti_cache st) = (hit, c)" by force
  have laws: "kv_lawful D v" "lru_lawful C w" "represents L (v (ti_db st)) A" "coherent w A (ti_cache st)"
    using assms by (auto simp: ix_state_def)
  have hit: "hit = w (ti_cache st) ?k" using laws(2) g unfolding lru_lawful_def by (metis fst_conv)
  have c: "coherent w A c" using coherent_get [OF laws(2,4), of ?k] g by simp
  let ?st = "st\<lparr>ti_cache := c\<rparr>"
  have st: "ix_state D v C w L A ?st" using assms c by (simp add: ix_state_def)
  show ?thesis
  proof (cases hit)
    case None
    have "wp (io_bind (on_db (current_from_db D L ?k)) (\<lambda>found. case found of None \<Rightarrow> io_return None
        | Some r \<Rightarrow> io_then (on_cache (lru_put C ?k r)) (io_return (Some r))))
      (\<lambda>r s'. r = spec_lookup A ?k \<and> ix_state D v C w L A s') (\<lambda>s'. \<not> kv_reads_ok D \<and> ix_state D v C w L A s') ?st"
    proof (rule wp_bind, rule wp_reads)
      show "reads D (current_from_db D L ?k) (ti_db ?st) (spec_lookup A ?k)"
        using current_from_db_reads [OF laws(1,3)] by simp
    next
      show "wp (case spec_lookup A ?k of None \<Rightarrow> io_return None
          | Some r \<Rightarrow> io_then (on_cache (lru_put C ?k r)) (io_return (Some r)))
        (\<lambda>r s'. r = spec_lookup A ?k \<and> ix_state D v C w L A s') (\<lambda>s'. \<not> kv_reads_ok D \<and> ix_state D v C w L A s') ?st"
      proof (cases "spec_lookup A ?k")
        case (Some r)
        then show ?thesis using st coherent_put [OF laws(2) c Some]
          by (simp add: wp_def io_then_def io_bind_def on_cache_def ix_state_def)
      qed (simp add: wp_def st)
    qed (use st in simp)
    then show ?thesis using None g by (simp add: wp_def find_current_version_def Let_def)
  next
    case (Some r)
    then have "spec_lookup A ?k = Some r" using laws(4) hit by (simp add: coherent_def)
    then show ?thesis using Some g st by (simp add: wp_def find_current_version_def)
  qed
qed

lemma new_metadata_keys [simp]:
  "md_version_id (new_metadata t vid tx vt) = vid"
  "meta_key (new_metadata t vid tx vt) = str_bytes (tx_key (tx_seq tx) (tx_node_id tx) vid)"
  "fact_key (new_metadata t vid tx vt) = sp_key (at_subject t) (at_predicate t)"
  by (simp_all add: new_metadata_def meta_key_def fact_key_def)

lemma spec_lookup_fresh:
  assumes "represents L w A" "sp_meta A vid = None"
  shows "spec_lookup (A\<lparr>sp_meta := (sp_meta A)(vid \<mapsto> m)\<rparr>) k = spec_lookup A k"
  using representsD(4) [OF assms(1), of k] assms(2) by (cases "sp_current A k") (auto simp: spec_lookup_def)

lemma spec_supersede_lookup:
  assumes "represents L w A" "sp_meta A vid = Some m" "k \<noteq> fact_key m"
  shows "spec_lookup (A\<lparr>sp_meta := (sp_meta A)(vid \<mapsto> m')\<rparr>) k = spec_lookup A k"
  using representsD(4) [OF assms(1), of k] assms(2,3) by (cases "sp_current A k") (auto simp: spec_lookup_def)

lemma wp_mono: "wp m Q E s \<Longrightarrow> (\<And>a s'. Q a s' \<Longrightarrow> Q' a s') \<Longrightarrow> (\<And>s'. E s' \<Longrightarrow> E' s') \<Longrightarrow> wp m Q' E' s"
  by (auto simp: wp_def split: prod.splits sum.splits)

abbreviation may_fail :: "'db kv_ops \<Rightarrow> index_lib \<Rightarrow> bool" where
  "may_fail D L \<equiv> \<not> (kv_reliable D \<and> encodes_all L)"

lemma put_version_wp:
  assumes "ix_state D v C w L A s" "sp_meta A (md_version_id m) = None" "utf8_ok (str_bytes (md_version_id m))"
  shows "wp (put_version D L m) (\<lambda>_ s'. ix_state D v C w L (A\<lparr>sp_meta := (sp_meta A)(md_version_id m \<mapsto> m)\<rparr>) s')
    (\<lambda>s'. may_fail D L \<and> ix_state D v C w L A s') s"
  unfolding put_version_def Let_def meta_key_def [symmetric]
proof (rule wp_bind, rule wp_option)
  assume "il_encode_meta L m = None"
  then show "may_fail D L \<and> ix_state D v C w L A s" using assms(1) by (auto simp: encodes_all_def)
next
  fix mb assume mb: "il_encode_meta L m = Some mb"
  have laws: "kv_lawful D v" "index_lawful L" and rep: "represents L (v (ti_db s)) A"
    using assms(1) by (auto simp: ix_state_def)
  have dec: "il_decode_meta L mb = Some m" using laws(2) mb by (simp add: index_lawful_def)
  show "wp (io_then (on_db (db_put D cf_tx_index (meta_key m) mb))
      (on_db (db_put D cf_reverse_index (str_bytes (md_version_id m)) (meta_key m))))
    (\<lambda>_ s'. ix_state D v C w L (A\<lparr>sp_meta := (sp_meta A)(md_version_id m \<mapsto> m)\<rparr>) s')
    (\<lambda>s'. may_fail D L \<and> ix_state D v C w L A s') s"
  proof (rule wp_then, rule wp_put [OF laws(1)])
    fix db' assume db': "v db' = view_set cf_tx_index (meta_key m) (Some mb) (v (ti_db s))"
    let ?s = "s\<lparr>ti_db := db'\<rparr>"
    have rep': "represents L (v db') A" unfolding db' by (rule represents_tx_put [OF rep assms(2)])
    have st': "ix_state D v C w L A ?s" using assms(1) rep' by (simp add: ix_state_def)
    show "wp (on_db (db_put D cf_reverse_index (str_bytes (md_version_id m)) (meta_key m)))
      (\<lambda>_ s'. ix_state D v C w L (A\<lparr>sp_meta := (sp_meta A)(md_version_id m \<mapsto> m)\<rparr>) s')
      (\<lambda>s'. may_fail D L \<and> ix_state D v C w L A s') ?s"
    proof (rule wp_put [OF laws(1)])
      fix db2 assume "v db2 = view_set cf_reverse_index (str_bytes (md_version_id m)) (Some (meta_key m)) (v (ti_db ?s))"
      then have "represents L (v db2) (A\<lparr>sp_meta := (sp_meta A)(md_version_id m \<mapsto> m)\<rparr>)"
        using represents_rev_put [OF rep' assms(2,3) _ dec] by (simp add: db')
      moreover have "coherent w (A\<lparr>sp_meta := (sp_meta A)(md_version_id m \<mapsto> m)\<rparr>) (ti_cache s)"
        using assms(1) by (intro coherent_same [OF _ spec_lookup_fresh [OF rep assms(2)]]) (simp add: ix_state_def)
      ultimately show "ix_state D v C w L (A\<lparr>sp_meta := (sp_meta A)(md_version_id m \<mapsto> m)\<rparr>) (?s\<lparr>ti_db := db2\<rparr>)"
        using assms(1) by (simp add: ix_state_def)
    qed (use st' in simp)
  qed (use assms(1) in simp)
qed

lemma push_chain_wp:
  assumes "ix_state D v C w L A s" "sp_meta A vid = Some m"
  shows "wp (push_chain D L (fact_key m) vid)
    (\<lambda>_ s'. ix_state D v C w L (A\<lparr>sp_chain := (sp_chain A)(fact_key m := sp_chain A (fact_key m) @ [vid])\<rparr>) s')
    (\<lambda>s'. may_fail D L \<and> ix_state D v C w L A s') s"
proof -
  let ?k = "fact_key m"
  have laws: "kv_lawful D v" "index_lawful L" and rep: "represents L (v (ti_db s)) A" and coh: "coherent w A (ti_cache s)"
    using assms(1) by (auto simp: ix_state_def)
  have chain: "(case v (ti_db s) cf_version_chains (str_bytes ?k) of None \<Rightarrow> []
      | Some b \<Rightarrow> (case il_decode_chain L b of None \<Rightarrow> [] | Some c \<Rightarrow> c)) = sp_chain A ?k"
    using representsD(5) [OF rep, of ?k] by (elim disjE exE conjE) simp_all
  have "wp (io_bind (io_of_option (BadData ''serialize'') (il_encode_chain L (sp_chain A ?k @ [vid])))
      (\<lambda>cb. on_db (db_put D cf_version_chains (str_bytes ?k) cb)))
    (\<lambda>_ s'. ix_state D v C w L (A\<lparr>sp_chain := (sp_chain A)(?k := sp_chain A ?k @ [vid])\<rparr>) s')
    (\<lambda>s'. may_fail D L \<and> ix_state D v C w L A s') s"
  proof (rule wp_bind, rule wp_option)
    assume "il_encode_chain L (sp_chain A ?k @ [vid]) = None"
    then show "may_fail D L \<and> ix_state D v C w L A s" using assms(1) by (auto simp: encodes_all_def)
  next
    fix cb assume "il_encode_chain L (sp_chain A ?k @ [vid]) = Some cb"
    then have dec: "il_decode_chain L cb = Some (sp_chain A ?k @ [vid])" using laws(2) by (simp add: index_lawful_def)
    show "wp (on_db (db_put D cf_version_chains (str_bytes ?k) cb))
      (\<lambda>_ s'. ix_state D v C w L (A\<lparr>sp_chain := (sp_chain A)(?k := sp_chain A ?k @ [vid])\<rparr>) s')
      (\<lambda>s'. may_fail D L \<and> ix_state D v C w L A s') s"
    proof (rule wp_put [OF laws(1)])
      fix db' assume "v db' = view_set cf_version_chains (str_bytes ?k) (Some cb) (v (ti_db s))"
      then show "ix_state D v C w L (A\<lparr>sp_chain := (sp_chain A)(?k := sp_chain A ?k @ [vid])\<rparr>) (s\<lparr>ti_db := db'\<rparr>)"
        using assms(1) represents_chain_put [OF rep assms(2) dec] by (simp add: ix_state_def coherent_def spec_lookup_def)
    qed (use assms(1) in simp)
  qed
  note put = this
  show ?thesis unfolding push_chain_def Let_def
    by (rule wp_bind, rule wp_reads [OF reads_get [OF laws(1)]])
      (use assms(1) kv_reliable_reads [of D] put in \<open>auto simp: chain\<close>)
qed

lemma set_current_wp:
  assumes "ix_state D v C w L A s" "sp_meta A vid = Some m"
  shows "wp (set_current D C (fact_key m) vid)
    (\<lambda>_ s'. ix_state D v C w L (A\<lparr>sp_current := (sp_current A)(fact_key m \<mapsto> vid)\<rparr>) s')
    (\<lambda>s'. may_fail D L \<and> ix_state D v C w L A s') s"
  unfolding set_current_def
proof (rule wp_then, rule wp_put)
  show D: "kv_lawful D v" using assms(1) by (simp add: ix_state_def)
  have st: "represents L (v (ti_db s)) A" "lru_lawful C w" "coherent w A (ti_cache s)"
    using assms(1) by (auto simp: ix_state_def)
  fix db' assume "v db' = view_set cf_current_version (str_bytes (fact_key m)) (Some (str_bytes vid)) (v (ti_db s))"
  then have "represents L (v db') (A\<lparr>sp_current := (sp_current A)(fact_key m \<mapsto> vid)\<rparr>)"
    using represents_current_put [OF st(1) assms(2)] by simp
  moreover have "coherent w (A\<lparr>sp_current := (sp_current A)(fact_key m \<mapsto> vid)\<rparr>) (lru_pop C (fact_key m) (ti_cache s))"
    by (rule coherent_pop [OF st(2,3)]) (simp add: spec_lookup_def)
  ultimately show "wp (on_cache (lru_pop C (fact_key m)))
    (\<lambda>_ s'. ix_state D v C w L (A\<lparr>sp_current := (sp_current A)(fact_key m \<mapsto> vid)\<rparr>) s')
    (\<lambda>s'. may_fail D L \<and> ix_state D v C w L A s') (s\<lparr>ti_db := db'\<rparr>)"
    using assms(1) by (intro wp_cache) (simp add: ix_state_def)
qed (use assms(1) in simp)

lemma put_times_wp:
  assumes "ix_state D v C w L A s"
  shows "wp (put_times D m) (\<lambda>_ s'. ix_state D v C w L A s') (\<lambda>s'. may_fail D L \<and> ix_state D v C w L A s') s"
proof -
  have put: "wp (on_db (db_put D cf k b)) (\<lambda>_ s'. ix_state D v C w L A s') (\<lambda>s'. may_fail D L \<and> ix_state D v C w L A s') s'"
    if "ix_state D v C w L A s'" "cf = cf_valid_time \<or> cf = cf_system_time" for s' cf k b
  proof (rule wp_put)
    show "kv_lawful D v" using that(1) by (simp add: ix_state_def)
    fix db' assume "v db' = view_set cf k (Some b) (v (ti_db s'))"
    then show "ix_state D v C w L A (s'\<lparr>ti_db := db'\<rparr>)"
      using that represents_time_put [OF _ that(2)] by (simp add: ix_state_def)
  qed (use that in simp)
  show ?thesis unfolding put_times_def
    by (rule wp_then, rule wp_mono [OF put [OF assms]]) (use put in simp_all)
qed

lemma index_version_wp:
  assumes st: "ix_state D v C w L A s" and fresh: "sp_meta A vid = None" and u: "utf8_ok (str_bytes vid)"
  shows "wp (index_version D C L t vid tx)
    (\<lambda>_ s'. \<exists>vt. extract_valid_time L t = Inr vt \<and> ix_state D v C w L (spec_index (new_metadata t vid tx vt) A) s')
    (\<lambda>s'. (may_fail D L \<or> \<not> is_ok (extract_valid_time L t)) \<and>
       (\<exists>A' vt. leftover (new_metadata t vid tx vt) A A' \<and> ix_state D v C w L A' s')) s"
    (is "wp _ ?Q ?E s")
  unfolding index_version_def Let_def
proof (rule wp_bind, rule wp_result)
  fix e assume "extract_valid_time L t = Inl e"
  then show "?E s" using st by (auto simp: leftover_def)
next
  fix vt assume vt: "extract_valid_time L t = Inr vt"
  let ?k = "sp_key (at_subject t) (at_predicate t)"
  define m where "m = new_metadata t vid tx vt"
  have m: "md_version_id m = vid" "fact_key m = ?k" by (simp_all add: m_def)
  define A1 where "A1 = A\<lparr>sp_meta := (sp_meta A)(vid \<mapsto> m)\<rparr>"
  define A2 where "A2 = A1\<lparr>sp_chain := (sp_chain A1)(?k := sp_chain A1 ?k @ [vid])\<rparr>"
  define A3 where "A3 = A2\<lparr>sp_current := (sp_current A2)(?k \<mapsto> vid)\<rparr>"
  have A3: "A3 = spec_index m A" by (simp add: A3_def A2_def A1_def spec_index_def m)
  have left: "leftover m A A" "leftover m A A1" "leftover m A A2" "leftover m A A3"
    by (simp_all add: leftover_def A1_def A2_def A3_def spec_index_def m)
  have fail: "?E s'" if "may_fail D L \<and> ix_state D v C w L A' s'" "leftover m A A'" for A' s'
    using that unfolding m_def by blast
  have meta: "sp_meta A1 vid = Some m" "sp_meta A2 vid = Some m" by (simp_all add: A2_def A1_def)
  have s4: "wp (put_times D m) ?Q ?E s'" if "ix_state D v C w L A3 s'" for s'
    by (rule wp_mono [OF put_times_wp [OF that]]) (use vt A3 m_def in blast, rule fail [OF _ left(4)])
  have s3: "wp (io_then (set_current D C ?k vid) (put_times D m)) ?Q ?E s'" if "ix_state D v C w L A2 s'" for s'
    by (rule wp_then, rule wp_mono [OF set_current_wp [OF that meta(2), unfolded m(2)]])
      (rule s4, simp add: A3_def, rule fail [OF _ left(3)])
  have s2: "wp (io_then (push_chain D L ?k vid) (io_then (set_current D C ?k vid) (put_times D m))) ?Q ?E s'"
    if "ix_state D v C w L A1 s'" for s'
    by (rule wp_then, rule wp_mono [OF push_chain_wp [OF that meta(1), unfolded m(2)]])
      (rule s3, simp add: A2_def, rule fail [OF _ left(2)])
  show "wp (io_then (put_version D L (new_metadata t vid tx vt)) (io_then (push_chain D L ?k vid)
      (io_then (set_current D C ?k vid) (put_times D (new_metadata t vid tx vt))))) ?Q ?E s"
    unfolding m_def [symmetric]
    by (rule wp_then, rule wp_mono [OF put_version_wp [OF st, of m, unfolded m(1), OF fresh u]])
      (rule s2, simp add: A1_def, rule fail [OF _ left(1)])
qed

lemma supersede_version_wp:
  assumes st: "ix_state D v C w L A s"
  shows "wp (supersede_version D C L vid at)
    (\<lambda>_ s'. sp_meta A vid \<noteq> None \<and> ix_state D v C w L (spec_supersede vid at A) s')
    (\<lambda>s'. (may_fail D L \<or> sp_meta A vid = None) \<and> ix_state D v C w L A s') s"
    (is "wp _ ?Q ?E s")
proof -
  have laws: "kv_lawful D v" "lru_lawful C w" "index_lawful L"
    and rep: "represents L (v (ti_db s)) A" and coh: "coherent w A (ti_cache s)"
    using st by (auto simp: ix_state_def)
  have E: "?E s" if "\<not> kv_reads_ok D" using that st kv_reliable_reads by auto
  show ?thesis
  proof (cases "sp_meta A vid")
    case None
    show ?thesis unfolding supersede_version_def
      by (rule wp_bind, rule wp_reads [OF reads_get [OF laws(1)]], erule E)
        (use st representsD(2) [OF rep None] None in \<open>simp add: wp_def io_bind_def\<close>)
  next
    case (Some m)
    from representsD(1) [OF rep Some] obtain b where b: "md_version_id m = vid" "utf8_ok (str_bytes vid)"
      "v (ti_db s) cf_reverse_index (str_bytes vid) = Some (meta_key m)"
      "v (ti_db s) cf_tx_index (meta_key m) = Some b" "il_decode_meta L b = Some m"
      by (auto simp: stored_meta_def)
    let ?tk = "tx_key (md_tx_seq m) (md_node_id m) vid" and ?m = "m\<lparr>md_tx_to := Some at\<rparr>"
    have tk: "from_utf8 (meta_key m) = Some ?tk" "str_bytes ?tk = meta_key m"
      using b(1,2) by (simp_all add: meta_key_def from_utf8_str tx_key_utf8)
    have last: "wp (io_then (on_db (db_put D cf_tx_index (meta_key m) mb))
        (on_cache (lru_pop C (fact_key m)))) ?Q ?E s" if mb: "il_encode_meta L ?m = Some mb" for mb
    proof (rule wp_then, rule wp_put [OF laws(1)])
      fix db' assume "v db' = view_set cf_tx_index (meta_key m) (Some mb) (v (ti_db s))"
      moreover have "il_decode_meta L mb = Some ?m" using laws(3) mb by (simp add: index_lawful_def)
      ultimately have "represents L (v db') (spec_supersede vid at A)"
        using represents_supersede_put [OF rep Some, of mb] by (simp add: spec_supersede_def Some)
      moreover have "coherent w (spec_supersede vid at A) (lru_pop C (fact_key m) (ti_cache s))"
        using spec_supersede_lookup [OF rep Some] by (intro coherent_pop [OF laws(2) coh]) (simp add: spec_supersede_def Some)
      ultimately show "wp (on_cache (lru_pop C (fact_key m))) ?Q ?E (s\<lparr>ti_db := db'\<rparr>)"
        using st Some by (intro wp_cache) (simp add: ix_state_def)
    qed (use st in simp)
    have enc: "wp (io_bind (io_of_option (BadData ''serialize'') (il_encode_meta L ?m)) (\<lambda>mb'.
        io_then (on_db (db_put D cf_tx_index (meta_key m) mb')) (on_cache (lru_pop C (fact_key m))))) ?Q ?E s"
      by (rule wp_bind, rule wp_option) (use st last in \<open>auto simp: encodes_all_def\<close>)
    show ?thesis unfolding supersede_version_def
      by (rule wp_bind, rule wp_reads [OF reads_get [OF laws(1)]], erule E, simp only: b(3) tk io_simps io_bind_return,
          rule wp_bind, rule wp_reads [OF reads_get [OF laws(1)]], erule E)
        (use enc in \<open>simp add: b(4,5) io_bind_return fact_key_def Let_def\<close>)
  qed
qed

section \<open>Runs\<close>

text \<open>
  A store with a cache in front of it, as its clients see it: commands that may fail keep the store
  representing something, and a lookup through the cache and a direct one both return what is
  represented. In every such store the cache is transparent.
\<close>

locale cached_store =
  fixes holds :: "'a \<Rightarrow> 's \<Rightarrow> bool"
    and guard :: "'c \<Rightarrow> 's \<Rightarrow> bool"
    and exec :: "'c \<Rightarrow> 's \<Rightarrow> 's"
    and cached :: "'k \<Rightarrow> 's \<Rightarrow> 'e + 'v"
    and direct :: "'k \<Rightarrow> 's \<Rightarrow> 'e + 'v"
    and meaning :: "'a \<Rightarrow> 'k \<Rightarrow> 'v"
  assumes exec_holds: "holds A s \<Longrightarrow> guard c s \<Longrightarrow> \<exists>A'. holds A' (exec c s)"
    and cached_meaning: "holds A s \<Longrightarrow> cached k s = Inr x \<Longrightarrow> x = meaning A k"
    and direct_meaning: "holds A s \<Longrightarrow> direct k s = Inr x \<Longrightarrow> x = meaning A k"
    and cached_progress: "holds A s \<Longrightarrow> is_ok (direct k s) \<Longrightarrow> is_ok (cached k s)"
begin

lemma run_holds: "holds A s \<Longrightarrow> guarded_run guard exec cs s \<Longrightarrow> \<exists>A'. holds A' (fold exec cs s)"
proof (induction cs arbitrary: A s)
  case (Cons c cs)
  then obtain A' where "holds A' (exec c s)" using exec_holds by force
  then show ?case using Cons by simp
qed auto

lemma transparent:
  assumes "holds A s" "guarded_run guard exec cs s" "direct k (fold exec cs s) = Inr x"
  shows "cached k (fold exec cs s) = Inr x"
proof -
  obtain A' where A': "holds A' (fold exec cs s)" using run_holds [OF assms(1,2)] by blast
  obtain y where y: "cached k (fold exec cs s) = Inr y"
    using cached_progress [OF A', of k] assms(3) unfolding is_ok_conv by blast
  then show ?thesis using cached_meaning [OF A' y] direct_meaning [OF A' assms(3)] by simp
qed

end

datatype ix_command =
    IxIndex annotated_triple string transaction_id
  | IxSupersede string int
  | IxFindCurrent string string
  | IxClearCache

text \<open>A command and the state it leaves, whether it succeeds or fails.\<close>

fun ix_exec :: "'db kv_ops \<Rightarrow> 'c lru_ops \<Rightarrow> index_lib \<Rightarrow> ix_command \<Rightarrow> ('db, 'c) temporal_indexes \<Rightarrow> ('db, 'c) temporal_indexes" where
  "ix_exec D C L (IxIndex t vid tx) s = fst (index_version D C L t vid tx s)"
| "ix_exec D C L (IxSupersede vid at) s = fst (supersede_version D C L vid at s)"
| "ix_exec D C L (IxFindCurrent sub p) s = fst (find_current_version D C L sub p s)"
| "ix_exec D C L IxClearCache s = fst (clear_cache C s)"

text \<open>New versions come with new identifiers (UUIDs), in UTF-8 as every string.\<close>

fun ix_fresh :: "'db kv_view \<Rightarrow> ix_command \<Rightarrow> ('db, 'c) temporal_indexes \<Rightarrow> bool" where
  "ix_fresh v (IxIndex t vid tx) s \<longleftrightarrow> utf8_ok (str_bytes vid) \<and> v (ti_db s) cf_reverse_index (str_bytes vid) = None"
| "ix_fresh v _ s \<longleftrightarrow> True"

lemma fresh_not_indexed:
  assumes "represents L w A" "w cf_reverse_index (str_bytes vid) = None"
  shows "sp_meta A vid = None"
  using representsD(1) [OF assms(1), of vid] assms(2) by (cases "sp_meta A vid") (auto simp: stored_meta_def)

lemma ix_exec_state:
  assumes "ix_state D v C w L A s" "ix_fresh v c s"
  shows "\<exists>A'. ix_state D v C w L A' (ix_exec D C L c s)"
proof (cases c)
  case (IxIndex t vid tx)
  then have "sp_meta A vid = None" "utf8_ok (str_bytes vid)"
    using assms fresh_not_indexed [of L "v (ti_db s)" A vid] by (auto simp: ix_state_def)
  from index_version_wp [OF assms(1) this]
  have "wp (index_version D C L t vid tx) (\<lambda>_ s'. \<exists>A'. ix_state D v C w L A' s') (\<lambda>s'. \<exists>A'. ix_state D v C w L A' s') s"
    by (rule wp_mono) blast+
  then show ?thesis using IxIndex wp_any by force
next
  case (IxSupersede vid at)
  have "wp (supersede_version D C L vid at) (\<lambda>_ s'. \<exists>A'. ix_state D v C w L A' s') (\<lambda>s'. \<exists>A'. ix_state D v C w L A' s') s"
    by (rule wp_mono [OF supersede_version_wp [OF assms(1)]]) blast+
  then show ?thesis using IxSupersede wp_any by force
next
  case (IxFindCurrent sub p)
  have "wp (find_current_version D C L sub p) (\<lambda>_ s'. \<exists>A'. ix_state D v C w L A' s') (\<lambda>s'. \<exists>A'. ix_state D v C w L A' s') s"
    by (rule wp_mono [OF find_current_version_wp [OF assms(1)]]) blast+
  then show ?thesis using IxFindCurrent wp_any by force
next
  case IxClearCache
  then show ?thesis using assms(1) coherent_clear [of C w A]
    by (auto simp: ix_state_def clear_cache_def on_cache_def)
qed

lemma direct_lookup:
  assumes "ix_state D v C w L A s" "snd (current_from_db D L k (ti_db s)) = Inr x"
  shows "x = spec_lookup A k"
  using current_from_db_reads [of D v L "ti_db s" A k] assms by (auto simp: ix_state_def reads_def)

lemma cached_lookup:
  assumes "ix_state D v C w L A s" "snd (find_current_version D C L sub p s) = Inr x"
  shows "x = spec_lookup A (sp_key sub p)"
  using find_current_version_wp [OF assms(1), of sub p] assms(2)
  by (auto simp: wp_def split: prod.splits sum.splits)

lemma cached_lookup_progress:
  assumes "is_ok (snd (current_from_db D L (sp_key sub p) (ti_db s)))"
  shows "is_ok (snd (find_current_version D C L sub p s))"
proof -
  obtain db' x where x: "current_from_db D L (sp_key sub p) (ti_db s) = (db', Inr x)"
    using assms unfolding is_ok_conv by (metis prod.collapse)
  show ?thesis
    by (cases x) (auto simp: find_current_version_def Let_def x on_db_def io_bind_def io_then_def on_cache_def
        split: prod.splits option.splits)
qed

interpretation ix: cached_store "ix_state D v C w L" "ix_fresh v" "ix_exec D C L"
  "\<lambda>k s. snd (find_current_version D C L (fst k) (snd k) s)"
  "\<lambda>k s. snd (current_from_db D L (sp_key (fst k) (snd k)) (ti_db s))"
  "\<lambda>A k. spec_lookup A (sp_key (fst k) (snd k))" for D v C w L
  by unfold_locales (auto intro: ix_exec_state cached_lookup direct_lookup cached_lookup_progress)

definition ix_empty :: "'db kv_view \<Rightarrow> ('c \<Rightarrow> string \<Rightarrow> version_ref option) \<Rightarrow> ('db, 'c) temporal_indexes \<Rightarrow> bool" where
  "ix_empty v w s \<longleftrightarrow> (\<forall>cf k. v (ti_db s) cf k = None) \<and> (\<forall>k. w (ti_cache s) k = None)"

lemma ix_empty_state:
  assumes "kv_lawful D v" "lru_lawful C w" "index_lawful L" "ix_empty v w s"
  shows "ix_state D v C w L spec_empty s"
  using assms represents_empty [of "v (ti_db s)" L] by (simp add: ix_state_def ix_empty_def coherent_def)

section \<open>Operations that succeed\<close>

lemma wp_no_failure: "wp m Q E s \<Longrightarrow> (\<And>s'. \<not> E s') \<Longrightarrow> \<exists>s' a. m s = (s', Inr a) \<and> Q a s'"
  by (auto simp: wp_def split: prod.splits sum.splits)

lemma index_version_ok:
  assumes "ix_state D v C w L A s" "sp_meta A vid = None" "utf8_ok (str_bytes vid)"
    "kv_reliable D" "encodes_all L" "extract_valid_time L t = Inr vt"
  shows "\<exists>s'. index_version D C L t vid tx s = (s', Inr ()) \<and> ix_state D v C w L (spec_index (new_metadata t vid tx vt) A) s'"
  using wp_no_failure [OF index_version_wp [OF assms(1-3), of t tx]] assms(4-6) by simp

lemma supersede_version_ok:
  assumes "ix_state D v C w L A s" "sp_meta A vid \<noteq> None" "kv_reliable D" "encodes_all L"
  shows "\<exists>s'. supersede_version D C L vid at s = (s', Inr ()) \<and> ix_state D v C w L (spec_supersede vid at A) s'"
  using wp_no_failure [OF supersede_version_wp [OF assms(1), of vid at]] assms(2-4) by simp

lemma find_current_version_ok:
  assumes "ix_state D v C w L A s" "kv_reads_ok D"
  shows "\<exists>s'. find_current_version D C L sub p s = (s', Inr (spec_lookup A (sp_key sub p))) \<and> ix_state D v C w L A s'"
  using wp_no_failure [OF find_current_version_wp [OF assms(1), of sub p]] assms(2) by auto

lemma find_current_value:
  "ix_state D v C w L A s \<Longrightarrow> kv_reads_ok D \<Longrightarrow> snd (find_current_version D C L sub p s) = Inr (spec_lookup A (sp_key sub p))"
  by (drule (1) find_current_version_ok [of _ _ _ _ _ _ _ sub p]) auto

lemma get_version_chain_value:
  "ix_state D v C w L A s \<Longrightarrow> kv_reads_ok D \<Longrightarrow>
   snd (get_version_chain D L sub p (ti_db s)) = Inr (sort_key vr_tx_seq (spec_versions A (sp_key sub p)))"
  using reads_ok [OF get_version_chain_reads, of D v L "ti_db s" A sub p] by (simp add: ix_state_def)

lemma map_filter_append: "List.map_filter f (xs @ ys) = List.map_filter f xs @ List.map_filter f ys"
  by (simp add: List.map_filter_def)

lemma spec_index_versions:
  assumes "represents L w A" "sp_meta A (md_version_id m) = None"
  shows "spec_versions (spec_index m A) (fact_key m) = spec_versions A (fact_key m) @ [version_of m]"
proof -
  have "List.map_filter (\<lambda>vid. map_option version_of (((sp_meta A)(md_version_id m \<mapsto> m)) vid)) vids =
      List.map_filter (\<lambda>vid. map_option version_of (sp_meta A vid)) vids"
    if "\<forall>vid \<in> set vids. sp_meta A vid \<noteq> None" for vids
    using that assms(2) by (induction vids) (auto simp: List.map_filter_simps)
  moreover have "\<forall>vid \<in> set (sp_chain A (fact_key m)). sp_meta A vid \<noteq> None"
    using representsD(6) [OF assms(1)] by fastforce
  ultimately show ?thesis by (simp add: spec_versions_def spec_index_def map_filter_append List.map_filter_simps)
qed

section \<open>Libraries for the witnesses\<close>

definition meta_tuple where
  "meta_tuple m = (md_version_id m, md_subject m, md_predicate m, md_object m, md_valid_from m, opt_list (md_valid_to m),
     md_tx_from m, opt_list (md_tx_to m), md_tx_seq m, md_node_id m)"

definition tuple_meta where
  "tuple_meta t = (case t of (i, s, p, ob, vf, vt, tf, tt, sq, n) \<Rightarrow>
     \<lparr>md_version_id = i, md_subject = s, md_predicate = p, md_object = ob, md_valid_from = vf, md_valid_to = list_opt vt,
      md_tx_from = tf, md_tx_to = list_opt tt, md_tx_seq = sq, md_node_id = n\<rparr>)"

abbreviation "enc_int \<equiv> enc_map int_pair (enc_pair enc_nat enc_nat)"
abbreviation "dec_int \<equiv> dec_map pair_int (dec_pair dec_nat dec_nat)"

definition enc_meta :: "triple_metadata \<Rightarrow> bytes" where
  "enc_meta = enc_map meta_tuple (enc_pair enc_str (enc_pair enc_str (enc_pair enc_str (enc_pair enc_str
     (enc_pair enc_int (enc_pair (enc_list enc_int) (enc_pair enc_int (enc_pair (enc_list enc_int) (enc_pair enc_word enc_word)))))))))"

definition dec_meta :: "bytes \<Rightarrow> triple_metadata \<times> bytes" where
  "dec_meta = dec_map tuple_meta (dec_pair dec_str (dec_pair dec_str (dec_pair dec_str (dec_pair dec_str
     (dec_pair dec_int (dec_pair (dec_list dec_int) (dec_pair dec_int (dec_pair (dec_list dec_int) (dec_pair dec_word dec_word)))))))))"

lemma codec_meta: "codec enc_meta dec_meta"
proof -
  have "list_opt (opt_list x) = x" for x :: "int option" by (cases x) (simp_all add: opt_list_def list_opt_def)
  then show ?thesis unfolding enc_meta_def dec_meta_def
    by (intro codec_map [where f = meta_tuple and g = tuple_meta] codec_pair codec_word codec_int codec_list codec_str)
      (simp add: meta_tuple_def tuple_meta_def)
qed

definition demo_index_lib :: index_lib where
  "demo_index_lib = \<lparr>il_encode_meta = (\<lambda>m. Some (enc_meta m)), il_decode_meta = (\<lambda>b. Some (fst (dec_meta b))),
     il_encode_chain = (\<lambda>c. Some (enc_list enc_str c)), il_decode_chain = (\<lambda>b. Some (fst (dec_list dec_str b))),
     il_rfc3339 = (\<lambda>s. Some (int (length s)))\<rparr>"

definition demo_lru :: "(string \<Rightarrow> version_ref option) lru_ops" where
  "demo_lru = \<lparr>lru_get = (\<lambda>k c. (c k, c)), lru_put = (\<lambda>k r c. c(k \<mapsto> r)), lru_pop = (\<lambda>k c. c(k := None)),
     lru_clear = (\<lambda>_ _. None)\<rparr>"

definition demo_indexes :: "(string \<Rightarrow> bytes \<Rightarrow> bytes option, string \<Rightarrow> version_ref option) temporal_indexes" where
  "demo_indexes = \<lparr>ti_db = (\<lambda>_ _. None), ti_cache = (\<lambda>_. None)\<rparr>"

definition demo_triple :: "string \<Rightarrow> string \<Rightarrow> string \<Rightarrow> annotated_triple" where
  "demo_triple s p ob = \<lparr>at_subject = s, at_predicate = p, at_object = ob,
     at_annotations = [\<lparr>ann_predicate = valid_from_uri, ann_object = TypedLiteral ''2024'' ''dateTime''\<rparr>]\<rparr>"

lemma demo_index_lawful: "index_lawful demo_index_lib" "encodes_all demo_index_lib" "lru_lawful demo_lru (\<lambda>c. c)"
  "ix_empty (\<lambda>db. db) (\<lambda>c. c) demo_indexes"
  by (simp_all add: index_lawful_def encodes_all_def demo_index_lib_def codec_fst [OF codec_meta]
      codec_fst [OF codec_list [OF codec_str]] lru_lawful_def demo_lru_def ix_empty_def demo_indexes_def)

lemma demo_valid_time: "extract_valid_time demo_index_lib (demo_triple s p ob) = Inr (4, None)"
  by (simp add: extract_valid_time_def demo_triple_def demo_index_lib_def)

lemmas demo_laws = mem_lawful(1) demo_index_lawful(3,1,4)

section \<open>Properties\<close>

text \<open>
  C14. The cache is transparent. After any sequence of operations, with whatever failures of the
  database between and inside them, as long as new versions come with new identifiers:
  \<^verbatim>\<open>find_current_version\<close> returns through the cache exactly what the database alone would answer.
\<close>

theorem cache_is_transparent:
  assumes "kv_lawful D v" "lru_lawful C w" "index_lawful L" "ix_empty v w s0"
    "guarded_run (ix_fresh v) (ix_exec D C L) cs s0"
    "snd (current_from_db D L (sp_key sub p) (ti_db (fold (ix_exec D C L) cs s0))) = Inr x"
  shows "snd (find_current_version D C L sub p (fold (ix_exec D C L) cs s0)) = Inr x"
  using ix.transparent [OF ix_empty_state [OF assms(1-4)] assms(5), of "(sub, p)" x] assms(6) by simp

definition demo_run :: "ix_command list" where
  "demo_run = [IxIndex (demo_triple ''s'' ''p'' ''o'') ''v'' (transaction_id_new 1 7 1),
     IxFindCurrent ''s'' ''p'', IxSupersede ''v'' 9]"

definition demo_meta :: triple_metadata where
  "demo_meta = new_metadata (demo_triple ''s'' ''p'' ''o'') ''v'' (transaction_id_new 1 7 1) (4, None)"

definition demo_after :: "(string \<Rightarrow> bytes \<Rightarrow> bytes option, string \<Rightarrow> version_ref option) temporal_indexes" where
  "demo_after = fold (ix_exec mem_ops demo_lru demo_index_lib) demo_run demo_indexes"

lemma ascii_v: "utf8_ok (str_bytes ''v'')"
  by (simp add: str_bytes_def)

lemma demo_run_fresh: "guarded_run (ix_fresh (\<lambda>db. db)) (ix_exec mem_ops demo_lru demo_index_lib) demo_run demo_indexes"
  by (simp add: demo_run_def demo_indexes_def ascii_v)

lemma demo_after_state:
  "ix_state mem_ops (\<lambda>db. db) demo_lru (\<lambda>c. c) demo_index_lib (spec_supersede ''v'' 9 (spec_index demo_meta spec_empty)) demo_after"
proof -
  let ?I = "ix_state mem_ops (\<lambda>db. db) demo_lru (\<lambda>c. c) demo_index_lib"
  have "?I spec_empty demo_indexes" by (rule ix_empty_state [OF demo_laws])
  then obtain s1 where s1: "index_version mem_ops demo_lru demo_index_lib (demo_triple ''s'' ''p'' ''o'') ''v''
      (transaction_id_new 1 7 1) demo_indexes = (s1, Inr ())" "?I (spec_index demo_meta spec_empty) s1"
    unfolding demo_meta_def
    using index_version_ok [OF _ _ ascii_v mem_lawful(2) demo_index_lawful(2) demo_valid_time]
    by (metis index_spec.select_convs(1) spec_empty_def)
  obtain s2 r where s2: "find_current_version mem_ops demo_lru demo_index_lib ''s'' ''p'' s1 = (s2, r)"
      "?I (spec_index demo_meta spec_empty) s2"
    using find_current_version_ok [OF s1(2) kv_reliable_reads [OF mem_lawful(2)]] by metis
  have "sp_meta (spec_index demo_meta spec_empty) ''v'' \<noteq> None"
    by (simp add: spec_index_def demo_meta_def)
  from supersede_version_ok [OF s2(2) this mem_lawful(2) demo_index_lawful(2), of 9]
  show ?thesis by (auto simp: demo_after_def demo_run_def s1(1) s2(1))
qed

lemma demo_after_lookup: "spec_lookup (spec_supersede ''v'' 9 (spec_index demo_meta spec_empty)) (sp_key ''s'' ''p'') =
    Some (version_of (demo_meta\<lparr>md_tx_to := Some 9\<rparr>))"
  by (simp add: spec_lookup_def spec_supersede_def spec_index_def demo_meta_def demo_triple_def)

theorem cache_is_transparent_witness:
  "snd (find_current_version mem_ops demo_lru demo_index_lib ''s'' ''p'' demo_after) =
     Inr (Some (version_of (demo_meta\<lparr>md_tx_to := Some 9\<rparr>)))"
  unfolding demo_after_def
proof (rule cache_is_transparent [OF demo_laws demo_run_fresh], fold demo_after_def)
  have "represents demo_index_lib (ti_db demo_after) (spec_supersede ''v'' 9 (spec_index demo_meta spec_empty))"
    using demo_after_state by (simp add: ix_state_def)
  from reads_ok [OF current_from_db_reads [where v = "\<lambda>db. db", OF mem_lawful(1) this] kv_reliable_reads [OF mem_lawful(2)]]
  show "snd (current_from_db mem_ops demo_index_lib (sp_key ''s'' ''p'') (ti_db demo_after)) =
      Inr (Some (version_of (demo_meta\<lparr>md_tx_to := Some 9\<rparr>)))"
    by (simp add: demo_after_lookup)
qed

lemma run_state:
  assumes "kv_lawful D v" "lru_lawful C w" "index_lawful L" "ix_empty v w s0"
    "guarded_run (ix_fresh v) (ix_exec D C L) cs s0"
  shows "\<exists>A. ix_state D v C w L A (fold (ix_exec D C L) cs s0)"
  by (rule ix.run_holds [OF ix_empty_state [OF assms(1-4)] assms(5)])

lemma spec_index_lookup:
  "spec_lookup (spec_index m A) (fact_key m) = Some (version_of m)"
  "represents L w A \<Longrightarrow> sp_meta A (md_version_id m) = None \<Longrightarrow> k \<noteq> fact_key m \<Longrightarrow>
     spec_lookup (spec_index m A) k = spec_lookup A k"
proof -
  assume "represents L w A" "sp_meta A (md_version_id m) = None" "k \<noteq> fact_key m"
  then show "spec_lookup (spec_index m A) k = spec_lookup A k"
    using representsD(4) [of L w A k] by (cases "sp_current A k") (auto simp: spec_lookup_def spec_index_def)
qed (simp add: spec_lookup_def spec_index_def)

text \<open>
  A new version becomes the current one. In any state the operations can reach, on a database that
  does not fail, \<^verbatim>\<open>index_version\<close> of a triple with a valid time and a new identifier succeeds; then
  \<^verbatim>\<open>find_current_version\<close> returns exactly the indexed version, every fact with another key keeps its
  current version, and the fact's version chain gains exactly that version and is sorted by sequence.
\<close>

lemma indexed_version_is_current:
  assumes "kv_lawful D v" "lru_lawful C w" "index_lawful L" "ix_empty v w s0"
    "guarded_run (ix_fresh v) (ix_exec D C L) (cs @ [IxIndex t vid tx]) s0"
    "kv_reliable D" "encodes_all L" "extract_valid_time L t = Inr vt"
  shows "\<exists>s' vs vs'. index_version D C L t vid tx (fold (ix_exec D C L) cs s0) = (s', Inr ()) \<and>
    snd (find_current_version D C L (at_subject t) (at_predicate t) s') = Inr (Some (version_of (new_metadata t vid tx vt))) \<and>
    (\<forall>sub p. sp_key sub p \<noteq> sp_key (at_subject t) (at_predicate t) \<longrightarrow>
       snd (find_current_version D C L sub p s') = snd (find_current_version D C L sub p (fold (ix_exec D C L) cs s0))) \<and>
    snd (get_version_chain D L (at_subject t) (at_predicate t) (ti_db (fold (ix_exec D C L) cs s0))) = Inr vs \<and>
    snd (get_version_chain D L (at_subject t) (at_predicate t) (ti_db s')) = Inr vs' \<and>
    mset vs' = add_mset (version_of (new_metadata t vid tx vt)) (mset vs) \<and> sorted (map vr_tx_seq vs')"
proof -
  let ?s = "fold (ix_exec D C L) cs s0" and ?m = "new_metadata t vid tx vt"
  have run: "guarded_run (ix_fresh v) (ix_exec D C L) (cs @ ds) s0 \<longleftrightarrow>
      guarded_run (ix_fresh v) (ix_exec D C L) cs s0 \<and> guarded_run (ix_fresh v) (ix_exec D C L) ds ?s" for ds
    by (rule guarded_run_append)
  obtain A where A: "ix_state D v C w L A ?s" using run_state [OF assms(1-4)] assms(5) run by blast
  have rep: "represents L (v (ti_db ?s)) A" using A by (simp add: ix_state_def)
  have fresh: "sp_meta A vid = None" "utf8_ok (str_bytes vid)"
    using assms(5) fresh_not_indexed [OF rep] by (simp_all add: run)
  obtain s' where s': "index_version D C L t vid tx ?s = (s', Inr ())" "ix_state D v C w L (spec_index ?m A) s'"
    using index_version_ok [OF A fresh assms(6-8)] by blast
  note reads = kv_reliable_reads [OF assms(6)]
  have "spec_versions (spec_index ?m A) (sp_key (at_subject t) (at_predicate t)) =
      spec_versions A (sp_key (at_subject t) (at_predicate t)) @ [version_of ?m]"
    using spec_index_versions [OF rep, of ?m] fresh(1) by simp
  moreover have "spec_lookup (spec_index ?m A) k = spec_lookup A k" if "k \<noteq> sp_key (at_subject t) (at_predicate t)" for k
    using spec_index_lookup(2) [OF rep, of ?m k] fresh(1) that by simp
  moreover have "spec_lookup (spec_index ?m A) (sp_key (at_subject t) (at_predicate t)) = Some (version_of ?m)"
    using spec_index_lookup(1) [of ?m A] by simp
  ultimately show ?thesis
    using s'(1) find_current_value [OF s'(2) reads] find_current_value [OF A reads]
      get_version_chain_value [OF s'(2) reads] get_version_chain_value [OF A reads]
    by (intro exI [of _ s'] exI conjI) (assumption | simp)+
qed

lemma indexed_version_is_current_witness:
  "\<exists>s'. index_version mem_ops demo_lru demo_index_lib (demo_triple ''s'' ''p'' ''o'') ''v'' (transaction_id_new 1 7 1)
      demo_indexes = (s', Inr ()) \<and>
    snd (find_current_version mem_ops demo_lru demo_index_lib ''s'' ''p'' s') = Inr (Some (version_of demo_meta))"
proof -
  have "guarded_run (ix_fresh (\<lambda>db. db)) (ix_exec mem_ops demo_lru demo_index_lib)
      ([] @ [IxIndex (demo_triple ''s'' ''p'' ''o'') ''v'' (transaction_id_new 1 7 1)]) demo_indexes"
    by (simp add: ascii_v demo_indexes_def)
  from indexed_version_is_current [OF demo_laws this mem_lawful(2) demo_index_lawful(2) demo_valid_time]
  show ?thesis by (auto simp: demo_triple_def demo_meta_def)
qed

text \<open>
  Superseding takes effect at once and keeps the version current. On a database that does not fail,
  \<^verbatim>\<open>supersede_version\<close> of the current version of a fact succeeds, and the next \<^verbatim>\<open>find_current_version\<close>
  already sees the new end of its transaction time, cache or not; but it still returns that version,
  although it is no longer current, until another version of the fact is indexed.
\<close>

lemma superseded_version_stays_current:
  assumes "kv_lawful D v" "lru_lawful C w" "index_lawful L" "ix_empty v w s0"
    "guarded_run (ix_fresh v) (ix_exec D C L) cs s0" "kv_reliable D" "encodes_all L"
    "snd (find_current_version D C L sub p (fold (ix_exec D C L) cs s0)) = Inr (Some r)"
  shows "\<exists>s'. supersede_version D C L (vr_version_id r) at (fold (ix_exec D C L) cs s0) = (s', Inr ()) \<and>
    snd (find_current_version D C L sub p s') = Inr (Some (r\<lparr>vr_tx_to := Some at\<rparr>)) \<and>
    \<not> vr_is_current (r\<lparr>vr_tx_to := Some at\<rparr>)"
proof -
  let ?s = "fold (ix_exec D C L) cs s0"
  note reads = kv_reliable_reads [OF assms(6)]
  obtain A where A: "ix_state D v C w L A ?s" using run_state [OF assms(1-5)] by blast
  then have "spec_lookup A (sp_key sub p) = Some r" using find_current_value [OF A reads] assms(8) by simp
  then obtain vid m where m: "sp_current A (sp_key sub p) = Some vid" "sp_meta A vid = Some m" "r = version_of m"
    by (auto simp: spec_lookup_def Option.bind_eq_Some_conv)
  have "md_version_id m = vid" using A representsD(1) [OF _ m(2)] by (auto simp: ix_state_def stored_meta_def)
  then have vid: "vr_version_id r = vid" using m(3) by (simp add: version_of_def)
  obtain s' where s': "supersede_version D C L vid at ?s = (s', Inr ())" "ix_state D v C w L (spec_supersede vid at A) s'"
    using supersede_version_ok [OF A _ assms(6,7), of vid at] m(2) by blast
  have "spec_lookup (spec_supersede vid at A) (sp_key sub p) = Some (r\<lparr>vr_tx_to := Some at\<rparr>)"
    using m by (simp add: spec_lookup_def spec_supersede_def version_of_def)
  then show ?thesis using s' find_current_value [OF s'(2) reads] vid by (simp add: vr_is_current_def)
qed

lemma superseded_version_stays_current_witness:
  "\<exists>r s'. supersede_version mem_ops demo_lru demo_index_lib ''v'' 11 demo_after = (s', Inr ()) \<and>
     snd (find_current_version mem_ops demo_lru demo_index_lib ''s'' ''p'' s') = Inr (Some r) \<and> \<not> vr_is_current r"
proof -
  have "snd (find_current_version mem_ops demo_lru demo_index_lib ''s'' ''p'' demo_after) =
      Inr (Some (version_of (demo_meta\<lparr>md_tx_to := Some 9\<rparr>)))"
    using find_current_value [OF demo_after_state kv_reliable_reads [OF mem_lawful(2)]] by (simp add: demo_after_lookup)
  moreover have "vr_version_id (version_of (demo_meta\<lparr>md_tx_to := Some 9\<rparr>)) = ''v''"
    by (simp add: version_of_def demo_meta_def new_metadata_def)
  ultimately show ?thesis
    using superseded_version_stays_current [OF demo_laws demo_run_fresh mem_lawful(2) demo_index_lawful(2),
        folded demo_after_def, of "''s''" "''p''" _ 11] by fastforce
qed

lemma max_by_key_None [simp]: "max_by_key f xs = None \<longleftrightarrow> xs = []"
  by (cases xs) (auto split: option.split)

lemma max_by_key_Some: "max_by_key f xs = Some x \<Longrightarrow> x \<in> set xs \<and> (\<forall>y \<in> set xs. f y \<le> f x)"
proof (induction xs arbitrary: x)
  case (Cons a xs)
  then show ?case by (cases "max_by_key f xs") (fastforce split: if_splits)+
qed simp

text \<open>
  Time travel finds the latest version. In any state the operations can reach, while no read fails,
  \<^verbatim>\<open>find_version_at\<close> returns a version of the fact's chain that was valid at the one time and known to the
  system at the other, the one with the greatest sequence number, and none exactly when there is none.
\<close>

lemma time_travel_finds_latest:
  assumes "kv_lawful D v" "lru_lawful C w" "index_lawful L" "ix_empty v w s0"
    "guarded_run (ix_fresh v) (ix_exec D C L) cs s0" "kv_reads_ok D"
  shows "\<exists>vs r. snd (get_version_chain D L sub p (ti_db (fold (ix_exec D C L) cs s0))) = Inr vs \<and>
    snd (find_version_at D L sub p vt st (ti_db (fold (ix_exec D C L) cs s0))) = Inr r \<and>
    (case r of None \<Rightarrow> \<forall>x \<in> set vs. \<not> (vr_is_valid_at x vt \<and> vr_existed_at x st)
     | Some x \<Rightarrow> x \<in> set vs \<and> vr_is_valid_at x vt \<and> vr_existed_at x st \<and>
         (\<forall>y \<in> set vs. vr_is_valid_at y vt \<and> vr_existed_at y st \<longrightarrow> vr_tx_seq y \<le> vr_tx_seq x))"
proof -
  let ?db = "ti_db (fold (ix_exec D C L) cs s0)"
  obtain A where A: "ix_state D v C w L A (fold (ix_exec D C L) cs s0)" using run_state [OF assms(1-5)] by blast
  then have rep: "represents L (v ?db) A" by (simp add: ix_state_def)
  define vs where "vs = sort_key vr_tx_seq (spec_versions A (sp_key sub p))"
  define ms where "ms = filter (\<lambda>x. vr_is_valid_at x vt \<and> vr_existed_at x st) vs"
  have chain: "get_version_chain D L sub p ?db = (?db, Inr vs)"
    using reads_ok [OF get_version_chain_reads [OF assms(1) rep] assms(6)] by (simp add: vs_def)
  then have at: "snd (find_version_at D L sub p vt st ?db) = Inr (max_by_key vr_tx_seq ms)"
    by (simp add: find_version_at_def io_bind_def ms_def)
  have "case max_by_key vr_tx_seq ms of None \<Rightarrow> \<forall>x \<in> set vs. \<not> (vr_is_valid_at x vt \<and> vr_existed_at x st)
     | Some x \<Rightarrow> x \<in> set vs \<and> vr_is_valid_at x vt \<and> vr_existed_at x st \<and>
         (\<forall>y \<in> set vs. vr_is_valid_at y vt \<and> vr_existed_at y st \<longrightarrow> vr_tx_seq y \<le> vr_tx_seq x)"
  proof (cases "max_by_key vr_tx_seq ms")
    case None
    then show ?thesis unfolding ms_def by (auto simp: filter_empty_conv)
  next
    case (Some x)
    then show ?thesis using max_by_key_Some [OF Some] by (auto simp: ms_def)
  qed
  then show ?thesis using chain at by (intro exI [of _ vs] exI) auto
qed

lemma time_travel_finds_latest_witness:
  "\<exists>r. snd (find_version_at mem_ops demo_index_lib ''s'' ''p'' 5 8 (ti_db demo_after)) = Inr r"
  using time_travel_finds_latest [OF demo_laws demo_run_fresh kv_reliable_reads [OF mem_lawful(2)],
      of "''s''" "''p''" 5 8] unfolding demo_after_def by blast

text \<open>
  Facts share a key. The key of a fact joins subject and predicate with a bar, and either may
  contain one: after \<^verbatim>\<open>index_version\<close> of a triple whose subject is \<^verbatim>\<open>a|b\<close> and predicate \<^verbatim>\<open>c\<close>, the current
  version of subject \<^verbatim>\<open>a\<close> and predicate \<^verbatim>\<open>b|c\<close> is that triple's, which is about another subject.
\<close>

lemma fact_keys_collide:
  assumes "kv_lawful D v" "lru_lawful C w" "index_lawful L" "ix_empty v w s0" "kv_reliable D" "encodes_all L"
    "extract_valid_time L t = Inr vt" "utf8_ok (str_bytes vid)" "at_subject t = a @ ''|'' @ b" "at_predicate t = c"
  shows "\<exists>s' r. index_version D C L t vid tx s0 = (s', Inr ()) \<and>
    snd (find_current_version D C L a (b @ ''|'' @ c) s') = Inr (Some r) \<and> vr_subject r \<noteq> a"
proof -
  let ?m = "new_metadata t vid tx vt"
  obtain s' where s': "index_version D C L t vid tx s0 = (s', Inr ())" "ix_state D v C w L (spec_index ?m spec_empty) s'"
    using index_version_ok [OF ix_empty_state [OF assms(1-4)] _ assms(8,5,6,7)] by (auto simp: spec_empty_def)
  have "sp_key a (b @ ''|'' @ c) = fact_key ?m" using assms(9,10) by (simp add: sp_key_def)
  then have "snd (find_current_version D C L a (b @ ''|'' @ c) s') = Inr (Some (version_of ?m))"
    using find_current_value [OF s'(2) kv_reliable_reads [OF assms(5)]] spec_index_lookup(1) [of ?m spec_empty] by simp
  moreover have "vr_subject (version_of ?m) \<noteq> a" using assms(9) by (simp add: version_of_def new_metadata_def)
  ultimately show ?thesis using s'(1) by blast
qed

lemma fact_keys_collide_witness:
  "\<exists>s' r. index_version mem_ops demo_lru demo_index_lib (demo_triple ''a|b'' ''c'' ''o'') ''v'' (transaction_id_new 1 7 1)
      demo_indexes = (s', Inr ()) \<and>
    snd (find_current_version mem_ops demo_lru demo_index_lib ''a'' ''b|c'' s') = Inr (Some r) \<and> vr_subject r \<noteq> ''a''"
  using fact_keys_collide [OF demo_laws mem_lawful(2) demo_index_lawful(2) demo_valid_time ascii_v,
      of "''a|b''" "''c''" "''o''" "''a''" "''b''" "''c''"] by (simp add: demo_triple_def)

end
