(* ===== verification/ExprLang.thy ===== *)
theory ExprLang
  imports Prelude
begin

text \<open>
  Model of the expression language of \<^verbatim>\<open>arcxa-coordinator/src/mapping/loader/transformation\<close>: the syntax of
  \<^verbatim>\<open>ast.rs\<close>, the values of \<^verbatim>\<open>types.rs\<close>, the function registry of \<^verbatim>\<open>functions.rs\<close> and the evaluator of
  \<^verbatim>\<open>executor.rs\<close>. An \<^verbatim>\<open>i64\<close> is a 64-bit word that wraps around, as in the release build; a division that
  overflows panics in every build, which is the error \<open>EPanic\<close>. Floating point numbers, decimals and dates
  are values of library types: the type variable \<open>'x\<close>, with the library's operations in the record
  \<open>expr_lib\<close>. Strings are lists of characters of one byte.
\<close>

section \<open>Syntax\<close>

type_synonym i64 = "64 word"

datatype 'x literal = LString string | LInteger i64 | LFloat 'x | LBoolean bool | LNull

datatype binary_op =
    OpAdd | OpSubtract | OpMultiply | OpDivide | OpModulo
  | OpConcat
  | OpEqual | OpNotEqual | OpLessThan | OpLessThanOrEqual | OpGreaterThan | OpGreaterThanOrEqual
  | OpAnd | OpOr
  | OpLike | OpNotLike

datatype unary_op = OpNegate | OpNot | OpIsNull | OpIsNotNull

datatype data_type = TyString | TyInteger | TyFloat | TyBoolean | TyDate | TyTimestamp | TyDecimal u8 u8 | TyUnknown

datatype 'x expression =
    Literal "'x literal"
  | Variable string
  | FunctionCall string "'x expression list"
  | BinaryOp "'x expression" binary_op "'x expression"
  | UnaryOp unary_op "'x expression"
  | Case "('x expression \<times> 'x expression) list" "'x expression option"
  | Cast "'x expression" data_type

section \<open>Values\<close>

datatype 'x val =
    VString string
  | VInteger i64
  | VFloat 'x
  | VDecimal 'x
  | VBoolean bool
  | VDate 'x
  | VTimestamp 'x
  | VNull
  | VArray "'x val list"

datatype eval_error =
    EVariableNotFound string
  | EUnknownFunction string
  | EArguments string nat
  | EConvert string
  | EDivisionByZero
  | EModuloByZero
  | EModuloOperands
  | ENegate
  | ECompare
  | EFunction string
  | ECheck string
  | EJoin
  | EPanic

record 'x expr_lib =
  xl_add :: "'x \<Rightarrow> 'x \<Rightarrow> 'x"
  xl_sub :: "'x \<Rightarrow> 'x \<Rightarrow> 'x"
  xl_mul :: "'x \<Rightarrow> 'x \<Rightarrow> 'x"
  xl_div :: "'x \<Rightarrow> 'x \<Rightarrow> 'x"
  xl_neg :: "'x \<Rightarrow> 'x"
  xl_eq :: "'x \<Rightarrow> 'x \<Rightarrow> bool"
  xl_lt :: "'x \<Rightarrow> 'x \<Rightarrow> bool"
  xl_zero :: 'x
  xl_of_int :: "i64 \<Rightarrow> 'x"
  xl_to_int :: "'x \<Rightarrow> i64"
  xl_show :: "'x \<Rightarrow> string"
  xl_parse :: "string \<Rightarrow> 'x option"
  xl_dec_eq :: "'x \<Rightarrow> 'x \<Rightarrow> bool"
  xl_dec_to_int :: "'x \<Rightarrow> i64 option"
  xl_dec_to_float :: "'x \<Rightarrow> 'x option"
  xl_dec_show :: "'x \<Rightarrow> string"
  xl_dec_parse :: "string \<Rightarrow> 'x option"
  xl_dec_of_int :: "i64 \<Rightarrow> 'x"
  xl_dec_of_float :: "'x \<Rightarrow> 'x option"
  xl_dec_zero :: 'x
  xl_date_show :: "'x \<Rightarrow> string"
  xl_date_parse :: "string \<Rightarrow> 'x option"
  xl_ts_show :: "'x \<Rightarrow> string"
  xl_ts_parse :: "string \<Rightarrow> 'x option"
  xl_ts_date :: "'x \<Rightarrow> 'x"
  xl_lowercase :: "string \<Rightarrow> string"
  xl_uppercase :: "string \<Rightarrow> string"
  xl_trim :: "string \<Rightarrow> string"

text \<open>Signed integers: printing, parsing, and division that truncates towards zero.\<close>

definition show_i64 :: "i64 \<Rightarrow> string" where
  "show_i64 i = (if sint i < 0 then CHR ''-'' # show_nat (nat (- sint i)) else show_nat (nat (sint i)))"

definition parse_i64 :: "string \<Rightarrow> i64 option" where
  "parse_i64 s =
     (case parse_int s of
        Some n \<Rightarrow> if - (2 ^ 63) \<le> n \<and> n < 2 ^ 63 then Some (of_int n) else None
      | None \<Rightarrow> None)"

definition quot :: "int \<Rightarrow> int \<Rightarrow> int" where
  "quot a b = sgn a * sgn b * (\<bar>a\<bar> div \<bar>b\<bar>)"

definition overflows :: "i64 \<Rightarrow> i64 \<Rightarrow> bool" where
  "overflows l r \<longleftrightarrow> sint l = - (2 ^ 63) \<and> sint r = -1"

definition i64_div :: "i64 \<Rightarrow> i64 \<Rightarrow> i64" where
  "i64_div l r = of_int (quot (sint l) (sint r))"

definition i64_rem :: "i64 \<Rightarrow> i64 \<Rightarrow> i64" where
  "i64_rem l r = of_int (sint l - sint r * quot (sint l) (sint r))"

section \<open>Operations of values\<close>

definition is_null :: "'x val \<Rightarrow> bool" where
  "is_null v = (case v of VNull \<Rightarrow> True | _ \<Rightarrow> False)"

fun as_string :: "'x expr_lib \<Rightarrow> 'x val \<Rightarrow> string" where
  "as_string X (VString s) = s"
| "as_string X (VInteger i) = show_i64 i"
| "as_string X (VFloat f) = xl_show X f"
| "as_string X (VDecimal d) = xl_dec_show X d"
| "as_string X (VBoolean b) = (if b then ''true'' else ''false'')"
| "as_string X (VDate d) = xl_date_show X d"
| "as_string X (VTimestamp t) = xl_ts_show X t"
| "as_string X VNull = ''''"
| "as_string X (VArray vs) = join '','' (map (as_string X) vs)"

definition or_convert :: "string \<Rightarrow> 'a option \<Rightarrow> eval_error + 'a" where
  "or_convert what r = (case r of None \<Rightarrow> Inl (EConvert what) | Some a \<Rightarrow> Inr a)"

definition as_integer :: "'x expr_lib \<Rightarrow> 'x val \<Rightarrow> eval_error + i64" where
  "as_integer X v =
     (case v of
        VInteger i \<Rightarrow> Inr i
      | VFloat f \<Rightarrow> Inr (xl_to_int X f)
      | VDecimal d \<Rightarrow> Inr (case xl_dec_to_int X d of None \<Rightarrow> 0 | Some i \<Rightarrow> i)
      | VString s \<Rightarrow> or_convert ''integer'' (parse_i64 (xl_trim X s))
      | VBoolean b \<Rightarrow> Inr (if b then 1 else 0)
      | _ \<Rightarrow> Inl (EConvert ''integer''))"

definition as_float :: "'x expr_lib \<Rightarrow> 'x val \<Rightarrow> eval_error + 'x" where
  "as_float X v =
     (case v of
        VFloat f \<Rightarrow> Inr f
      | VInteger i \<Rightarrow> Inr (xl_of_int X i)
      | VDecimal d \<Rightarrow> Inr (case xl_dec_to_float X d of None \<Rightarrow> xl_zero X | Some f \<Rightarrow> f)
      | VString s \<Rightarrow> or_convert ''float'' (xl_parse X (xl_trim X s))
      | VBoolean b \<Rightarrow> Inr (if b then xl_of_int X 1 else xl_zero X)
      | _ \<Rightarrow> Inl (EConvert ''float''))"

definition as_boolean :: "'x expr_lib \<Rightarrow> 'x val \<Rightarrow> bool" where
  "as_boolean X v =
     (case v of
        VBoolean b \<Rightarrow> b
      | VInteger i \<Rightarrow> i \<noteq> 0
      | VFloat f \<Rightarrow> \<not> xl_eq X f (xl_zero X)
      | VString s \<Rightarrow> s \<noteq> [] \<and> s \<noteq> ''0'' \<and> xl_lowercase X s \<noteq> ''false''
      | VNull \<Rightarrow> False
      | _ \<Rightarrow> True)"

definition as_date :: "'x expr_lib \<Rightarrow> 'x val \<Rightarrow> eval_error + 'x" where
  "as_date X v =
     (case v of
        VDate d \<Rightarrow> Inr d
      | VTimestamp t \<Rightarrow> Inr (xl_ts_date X t)
      | VString s \<Rightarrow> or_convert ''date'' (xl_date_parse X (xl_trim X s))
      | _ \<Rightarrow> Inl (EConvert ''date''))"

definition cast_decimal :: "'x expr_lib \<Rightarrow> 'x val \<Rightarrow> eval_error + 'x val" where
  "cast_decimal X v =
     (case v of
        VDecimal d \<Rightarrow> Inr (VDecimal d)
      | VString s \<Rightarrow> try_bind (or_convert ''decimal'' (xl_dec_parse X s)) (\<lambda>d. Inr (VDecimal d))
      | VInteger i \<Rightarrow> Inr (VDecimal (xl_dec_of_int X i))
      | VFloat f \<Rightarrow> Inr (VDecimal (case xl_dec_of_float X f of None \<Rightarrow> xl_dec_zero X | Some d \<Rightarrow> d))
      | _ \<Rightarrow> Inl (EConvert ''decimal''))"

definition cast_timestamp :: "'x expr_lib \<Rightarrow> 'x val \<Rightarrow> eval_error + 'x val" where
  "cast_timestamp X v =
     (case v of
        VTimestamp t \<Rightarrow> Inr (VTimestamp t)
      | VString s \<Rightarrow> try_bind (or_convert ''timestamp'' (xl_ts_parse X (xl_trim X s))) (\<lambda>t. Inr (VTimestamp t))
      | _ \<Rightarrow> Inl (EConvert ''timestamp''))"

definition val_cast :: "'x expr_lib \<Rightarrow> data_type \<Rightarrow> 'x val \<Rightarrow> eval_error + 'x val" where
  "val_cast X ty v =
     (case ty of
        TyString \<Rightarrow> Inr (VString (as_string X v))
      | TyInteger \<Rightarrow> try_bind (as_integer X v) (\<lambda>i. Inr (VInteger i))
      | TyFloat \<Rightarrow> try_bind (as_float X v) (\<lambda>f. Inr (VFloat f))
      | TyBoolean \<Rightarrow> Inr (VBoolean (as_boolean X v))
      | TyDate \<Rightarrow> try_bind (as_date X v) (\<lambda>d. Inr (VDate d))
      | TyDecimal _ _ \<Rightarrow> cast_decimal X v
      | TyTimestamp \<Rightarrow> cast_timestamp X v
      | TyUnknown \<Rightarrow> Inr v)"

definition coerce_types :: "'x expr_lib \<Rightarrow> 'x val \<Rightarrow> 'x val \<Rightarrow> 'x val \<times> 'x val" where
  "coerce_types X l r =
     (case (l, r) of
        (VNull, _) \<Rightarrow> (l, r)
      | (_, VNull) \<Rightarrow> (l, r)
      | (VString _, VString _) \<Rightarrow> (l, r)
      | (VInteger _, VInteger _) \<Rightarrow> (l, r)
      | (VFloat _, VFloat _) \<Rightarrow> (l, r)
      | (VBoolean _, VBoolean _) \<Rightarrow> (l, r)
      | (VDate _, VDate _) \<Rightarrow> (l, r)
      | (VInteger i, VFloat _) \<Rightarrow> (VFloat (xl_of_int X i), r)
      | (VFloat _, VInteger i) \<Rightarrow> (l, VFloat (xl_of_int X i))
      | _ \<Rightarrow> (VString (as_string X l), VString (as_string X r)))"

text \<open>The derived equality: floats and decimals are compared by their own equality.\<close>

fun val_eq :: "'x expr_lib \<Rightarrow> 'x val \<Rightarrow> 'x val \<Rightarrow> bool" where
  "val_eq X (VString a) v = (case v of VString b \<Rightarrow> a = b | _ \<Rightarrow> False)"
| "val_eq X (VInteger a) v = (case v of VInteger b \<Rightarrow> a = b | _ \<Rightarrow> False)"
| "val_eq X (VFloat a) v = (case v of VFloat b \<Rightarrow> xl_eq X a b | _ \<Rightarrow> False)"
| "val_eq X (VDecimal a) v = (case v of VDecimal b \<Rightarrow> xl_dec_eq X a b | _ \<Rightarrow> False)"
| "val_eq X (VBoolean a) v = (case v of VBoolean b \<Rightarrow> a = b | _ \<Rightarrow> False)"
| "val_eq X (VDate a) v = (case v of VDate b \<Rightarrow> a = b | _ \<Rightarrow> False)"
| "val_eq X (VTimestamp a) v = (case v of VTimestamp b \<Rightarrow> a = b | _ \<Rightarrow> False)"
| "val_eq X VNull v = (case v of VNull \<Rightarrow> True | _ \<Rightarrow> False)"
| "val_eq X (VArray as) v = (case v of VArray bs \<Rightarrow> list_all2 (val_eq X) as bs | _ \<Rightarrow> False)"

section \<open>Functions\<close>

record 'x transform_function =
  tf_execute :: "'x val list \<Rightarrow> eval_error + 'x val"
  tf_min_args :: nat
  tf_max_args :: "nat option"

text \<open>The registry maps upper-case names to functions.\<close>

type_synonym 'x registry = "string \<Rightarrow> 'x transform_function option"

definition registry_execute :: "'x expr_lib \<Rightarrow> 'x registry \<Rightarrow> string \<Rightarrow> 'x val list \<Rightarrow> eval_error + 'x val" where
  "registry_execute X fs name args =
     (case fs (xl_uppercase X name) of
        None \<Rightarrow> Inl (EUnknownFunction name)
      | Some f \<Rightarrow>
          if length args < tf_min_args f then Inl (EArguments name (length args))
          else (case tf_max_args f of
                  Some m \<Rightarrow> if length args > m then Inl (EArguments name (length args)) else tf_execute f args
                | None \<Rightarrow> tf_execute f args))"

definition registry_register ::
  "'x expr_lib \<Rightarrow> string \<Rightarrow> 'x transform_function \<Rightarrow> 'x registry \<Rightarrow> 'x registry" where
  "registry_register X name f fs = fs(xl_uppercase X name \<mapsto> f)"

definition has_function :: "'x expr_lib \<Rightarrow> string \<Rightarrow> 'x registry \<Rightarrow> bool" where
  "has_function X name fs \<longleftrightarrow> fs (xl_uppercase X name) \<noteq> None"

fun coalesce_execute :: "'x val list \<Rightarrow> eval_error + 'x val" where
  "coalesce_execute [] = Inr VNull"
| "coalesce_execute (arg # args) =
     (case arg of
        VNull \<Rightarrow> coalesce_execute args
      | VString s \<Rightarrow> if s \<noteq> [] then Inr arg else coalesce_execute args
      | _ \<Rightarrow> Inr arg)"

definition coalesce_function :: "'x transform_function" where
  "coalesce_function = \<lparr>tf_execute = coalesce_execute, tf_min_args = 1, tf_max_args = None\<rparr>"

definition nullif_function :: "'x expr_lib \<Rightarrow> 'x transform_function" where
  "nullif_function X =
     \<lparr>tf_execute = (\<lambda>args. Inr (if val_eq X (args ! 0) (args ! 1) then VNull else args ! 0)),
      tf_min_args = 2, tf_max_args = Some 2\<rparr>"

definition ifnull_function :: "'x transform_function" where
  "ifnull_function =
     \<lparr>tf_execute = (\<lambda>args. Inr (if is_null (args ! 0) then args ! 1 else args ! 0)), tf_min_args = 2, tf_max_args = Some 2\<rparr>"

definition concat_function :: "'x expr_lib \<Rightarrow> 'x transform_function" where
  "concat_function X =
     \<lparr>tf_execute = (\<lambda>args. Inr (VString (concat (map (as_string X) (filter (\<lambda>v. \<not> is_null v) args))))),
      tf_min_args = 1, tf_max_args = None\<rparr>"

section \<open>Evaluation\<close>

definition compare_words :: "i64 \<Rightarrow> i64 \<Rightarrow> int" where
  "compare_words l r = (if sint l < sint r then -1 else if sint l = sint r then 0 else 1)"

fun compare_strings :: "string \<Rightarrow> string \<Rightarrow> int" where
  "compare_strings [] [] = 0"
| "compare_strings [] (_ # _) = -1"
| "compare_strings (_ # _) [] = 1"
| "compare_strings (a # as) (b # bs) =
     (if (of_char a :: nat) < of_char b then -1 else if a = b then compare_strings as bs else 1)"

definition compare_values :: "'x expr_lib \<Rightarrow> 'x val \<Rightarrow> 'x val \<Rightarrow> eval_error + int" where
  "compare_values X l r =
     (case (l, r) of
        (VInteger a, VInteger b) \<Rightarrow> Inr (compare_words a b)
      | (VFloat a, VFloat b) \<Rightarrow> Inr (if xl_lt X a b then -1 else if xl_lt X b a then 1 else 0)
      | (VString a, VString b) \<Rightarrow> Inr (compare_strings a b)
      | (VBoolean a, VBoolean b) \<Rightarrow> Inr (if a = b then 0 else if b then -1 else 1)
      | _ \<Rightarrow> Inl ECompare)"

text \<open>
  The loop of \<^verbatim>\<open>match_like_pattern\<close> over the parts from number \<open>i\<close> of \<open>n\<close> on; \<open>rest\<close> is the text from
  the current position. A part that is empty is skipped.
\<close>

fun like_loop :: "bool \<Rightarrow> bool \<Rightarrow> nat \<Rightarrow> nat \<Rightarrow> string list \<Rightarrow> string \<Rightarrow> bool" where
  "like_loop starts ends n i [] rest = True"
| "like_loop starts ends n i (part # parts) rest =
     (if part = [] then like_loop starts ends n (i + 1) parts rest
      else if i = 0 \<and> \<not> starts then
        (if take (length part) rest \<noteq> part then False
         else like_loop starts ends n (i + 1) parts (drop (length part) rest))
      else if i = n - 1 \<and> \<not> ends then
        length part \<le> length rest \<and> drop (length rest - length part) rest = part
      else (case find_sub part rest of
              Some idx \<Rightarrow> like_loop starts ends n (i + 1) parts (drop (idx + length part) rest)
            | None \<Rightarrow> False))"

definition percent :: char where
  "percent = CHR 0x25"

definition match_like_pattern :: "string \<Rightarrow> string \<Rightarrow> bool" where
  "match_like_pattern text pattern =
     (if percent \<in> set pattern then
        let parts = split_on percent pattern in
        like_loop (hd pattern = percent) (last pattern = percent) (length parts) 0 parts text
      else text = pattern)"

definition arith ::
  "'x expr_lib \<Rightarrow> (i64 \<Rightarrow> i64 \<Rightarrow> i64) \<Rightarrow> ('x \<Rightarrow> 'x \<Rightarrow> 'x) \<Rightarrow> 'x val \<Rightarrow> 'x val \<Rightarrow> eval_error + 'x val" where
  "arith X f g l r =
     (case (l, r) of
        (VInteger a, VInteger b) \<Rightarrow> Inr (VInteger (f a b))
      | (VFloat a, VFloat b) \<Rightarrow> Inr (VFloat (g a b))
      | _ \<Rightarrow> try_bind (as_float X l) (\<lambda>a. try_bind (as_float X r) (\<lambda>b. Inr (VFloat (g a b)))))"

definition modulo :: "'x val \<Rightarrow> 'x val \<Rightarrow> eval_error + 'x val" where
  "modulo l r =
     (case (l, r) of
        (VInteger a, VInteger b) \<Rightarrow>
          if b = 0 then Inl EModuloByZero else if overflows a b then Inl EPanic else Inr (VInteger (i64_rem a b))
      | _ \<Rightarrow> Inl EModuloOperands)"

definition compare_op :: "'x expr_lib \<Rightarrow> (int \<Rightarrow> bool) \<Rightarrow> 'x val \<Rightarrow> 'x val \<Rightarrow> eval_error + 'x val" where
  "compare_op X P l r =
     (case coerce_types X l r of (l', r') \<Rightarrow> try_bind (compare_values X l' r') (\<lambda>c. Inr (VBoolean (P c))))"

definition eval_binary_op :: "'x expr_lib \<Rightarrow> 'x val \<Rightarrow> binary_op \<Rightarrow> 'x val \<Rightarrow> eval_error + 'x val" where
  "eval_binary_op X l op r =
     (if op \<noteq> OpEqual \<and> op \<noteq> OpNotEqual \<and> (is_null l \<or> is_null r) then Inr VNull
      else (case op of
          OpAdd \<Rightarrow> arith X (+) (xl_add X) l r
        | OpSubtract \<Rightarrow> arith X (-) (xl_sub X) l r
        | OpMultiply \<Rightarrow> arith X (*) (xl_mul X) l r
        | OpDivide \<Rightarrow> try_bind (as_float X l) (\<lambda>a. try_bind (as_float X r) (\<lambda>b.
            if xl_eq X b (xl_zero X) then Inl EDivisionByZero else Inr (VFloat (xl_div X a b))))
        | OpModulo \<Rightarrow> modulo l r
        | OpConcat \<Rightarrow> Inr (VString (as_string X l @ as_string X r))
        | OpEqual \<Rightarrow> (case coerce_types X l r of (l', r') \<Rightarrow> Inr (VBoolean (val_eq X l' r')))
        | OpNotEqual \<Rightarrow> (case coerce_types X l r of (l', r') \<Rightarrow> Inr (VBoolean (\<not> val_eq X l' r')))
        | OpLessThan \<Rightarrow> compare_op X (\<lambda>c. c < 0) l r
        | OpLessThanOrEqual \<Rightarrow> compare_op X (\<lambda>c. c \<le> 0) l r
        | OpGreaterThan \<Rightarrow> compare_op X (\<lambda>c. c > 0) l r
        | OpGreaterThanOrEqual \<Rightarrow> compare_op X (\<lambda>c. c \<ge> 0) l r
        | OpAnd \<Rightarrow> Inr (VBoolean (as_boolean X l \<and> as_boolean X r))
        | OpOr \<Rightarrow> Inr (VBoolean (as_boolean X l \<or> as_boolean X r))
        | OpLike \<Rightarrow> Inr (VBoolean (match_like_pattern (as_string X l) (as_string X r)))
        | OpNotLike \<Rightarrow> Inr (VBoolean (\<not> match_like_pattern (as_string X l) (as_string X r)))))"

definition eval_unary_op :: "'x expr_lib \<Rightarrow> unary_op \<Rightarrow> 'x val \<Rightarrow> eval_error + 'x val" where
  "eval_unary_op X op v =
     (case op of
        OpNegate \<Rightarrow> (case v of
            VInteger i \<Rightarrow> Inr (VInteger (- i))
          | VFloat f \<Rightarrow> Inr (VFloat (xl_neg X f))
          | VNull \<Rightarrow> Inr VNull
          | _ \<Rightarrow> Inl ENegate)
      | OpNot \<Rightarrow> Inr (VBoolean (\<not> as_boolean X v))
      | OpIsNull \<Rightarrow> Inr (VBoolean (is_null v))
      | OpIsNotNull \<Rightarrow> Inr (VBoolean (\<not> is_null v)))"

fun eval_literal :: "'x literal \<Rightarrow> 'x val" where
  "eval_literal (LString s) = VString s"
| "eval_literal (LInteger i) = VInteger i"
| "eval_literal (LFloat f) = VFloat f"
| "eval_literal (LBoolean b) = VBoolean b"
| "eval_literal LNull = VNull"

type_synonym 'x ctx = "string \<Rightarrow> 'x val option"

text \<open>The measure of recursions over an expression, a list of arguments, or the branches of a case.\<close>

definition args_size :: "'x expression list \<Rightarrow> nat" where
  "args_size es = size_list size es"

definition case_size :: "('x expression \<times> 'x expression) list \<Rightarrow> 'x expression option \<Rightarrow> nat" where
  "case_size conds els = size_list (size_prod size size) conds + size_option size els"

function (sequential) eval_expr :: "'x expr_lib \<Rightarrow> 'x registry \<Rightarrow> 'x ctx \<Rightarrow> 'x expression \<Rightarrow> eval_error + 'x val"
  and eval_args :: "'x expr_lib \<Rightarrow> 'x registry \<Rightarrow> 'x ctx \<Rightarrow> 'x expression list \<Rightarrow> eval_error + 'x val list"
  and eval_case :: "'x expr_lib \<Rightarrow> 'x registry \<Rightarrow> 'x ctx \<Rightarrow> ('x expression \<times> 'x expression) list \<Rightarrow>
    'x expression option \<Rightarrow> eval_error + 'x val" where
  "eval_expr X fs c (Literal l) = Inr (eval_literal l)"
| "eval_expr X fs c (Variable name) = (case c name of None \<Rightarrow> Inl (EVariableNotFound name) | Some v \<Rightarrow> Inr v)"
| "eval_expr X fs c (FunctionCall name args) =
     try_bind (eval_args X fs c args) (\<lambda>vs. registry_execute X fs name vs)"
| "eval_expr X fs c (BinaryOp l op r) =
     try_bind (eval_expr X fs c l) (\<lambda>lv. try_bind (eval_expr X fs c r) (\<lambda>rv. eval_binary_op X lv op rv))"
| "eval_expr X fs c (UnaryOp op e) = try_bind (eval_expr X fs c e) (\<lambda>v. eval_unary_op X op v)"
| "eval_expr X fs c (Case conds els) = eval_case X fs c conds els"
| "eval_expr X fs c (Cast e ty) = try_bind (eval_expr X fs c e) (\<lambda>v. val_cast X ty v)"
| "eval_args X fs c [] = Inr []"
| "eval_args X fs c (e # es) =
     try_bind (eval_expr X fs c e) (\<lambda>v. try_bind (eval_args X fs c es) (\<lambda>vs. Inr (v # vs)))"
| "eval_case X fs c [] els = (case els of Some e \<Rightarrow> eval_expr X fs c e | None \<Rightarrow> Inr VNull)"
| "eval_case X fs c ((cond, then_expr) # conds) els =
     try_bind (eval_expr X fs c cond) (\<lambda>v.
       if as_boolean X v then eval_expr X fs c then_expr else eval_case X fs c conds els)"
  by pat_completeness auto

termination
  by (relation "measure (case_sum (\<lambda>(_, _, _, e). size e) (case_sum (\<lambda>(_, _, _, es). args_size es)
        (\<lambda>(_, _, _, conds, els). case_size conds els)))") (simp_all add: args_size_def case_size_def)

section \<open>What a pattern means\<close>

text \<open>
  The meaning of a \<^verbatim>\<open>LIKE\<close> pattern, by recursion on the pattern: a per cent sign stands for any string,
  every other character for itself.
\<close>

fun like :: "string \<Rightarrow> string \<Rightarrow> bool" where
  "like [] t = (t = [])"
| "like (c # p) t =
     (if c = percent then \<exists>k \<le> length t. like p (drop k t)
      else (case t of [] \<Rightarrow> False | d # t' \<Rightarrow> d = c \<and> like p t'))"

text \<open>The same for the parts of a pattern between its per cent signs: the parts in order with gaps between them.\<close>

fun segments :: "string list \<Rightarrow> string \<Rightarrow> bool" where
  "segments [] t = False"
| "segments [p] t = (t = p)"
| "segments (p # q # ps) t = (\<exists>g u. t = p @ g @ u \<and> segments (q # ps) u)"

definition after_gap :: "string list \<Rightarrow> string \<Rightarrow> bool" where
  "after_gap ps t \<longleftrightarrow> (\<exists>g u. t = g @ u \<and> segments ps u)"

lemma segments_Cons: "ps \<noteq> [] \<Longrightarrow> segments (p # ps) t \<longleftrightarrow> (\<exists>u. t = p @ u \<and> after_gap ps u)"
  by (cases ps) (auto simp: after_gap_def)

lemma split_on_step: "x \<noteq> c \<Longrightarrow> split_on c s = p # ps \<Longrightarrow> split_on c (x # s) = (x # p) # ps"
  by simp

lemma segments_first_char: "segments ((x # p) # ps) t \<longleftrightarrow> (\<exists>t'. t = x # t' \<and> segments (p # ps) t')"
  by (cases ps) auto

lemma after_gap_drop: "after_gap ps t \<longleftrightarrow> (\<exists>k \<le> length t. segments ps (drop k t))"
proof
  assume "after_gap ps t"
  then obtain g u where "t = g @ u" "segments ps u"
    by (auto simp: after_gap_def)
  thus "\<exists>k \<le> length t. segments ps (drop k t)"
    by (intro exI [of _ "length g"]) simp
next
  assume "\<exists>k \<le> length t. segments ps (drop k t)"
  then obtain k where "segments ps (drop k t)"
    by blast
  thus "after_gap ps t"
    unfolding after_gap_def by (intro exI [of _ "take k t"] exI [of _ "drop k t"]) simp
qed

lemma like_segments: "like p t \<longleftrightarrow> segments (split_on percent p) t"
proof (induction p arbitrary: t)
  case (Cons x p)
  obtain q qs where split: "split_on percent p = q # qs"
    by (cases "split_on percent p") auto
  show ?case
  proof (cases "x = percent")
    case True
    thus ?thesis
      by (simp add: Cons.IH segments_Cons after_gap_drop)
  next
    case False
    thus ?thesis
      by (simp add: split segments_first_char Cons.IH split: list.split)
  qed
qed simp

lemma after_gap_prefix: "after_gap ps u \<Longrightarrow> after_gap ps (g @ u)"
  unfolding after_gap_def by (metis append.assoc)

lemma find_sub_Some: "find_sub p t = Some i \<Longrightarrow> \<exists>g u. length g = i \<and> t = g @ p @ u"
proof (induction t arbitrary: i)
  case (Cons c t)
  show ?case
  proof (cases "take (length p) (c # t) = p")
    case True
    hence "i = 0" "c # t = p @ drop (length p) (c # t)"
      using Cons.prems append_take_drop_id [of "length p" "c # t"] by simp_all
    thus ?thesis
      by (metis append_Nil list.size(3))
  next
    case False
    then obtain j where "find_sub p t = Some j" "i = Suc j"
      using Cons.prems by auto
    then obtain g u where "length g = j" "t = g @ p @ u"
      using Cons.IH by blast
    thus ?thesis
      using \<open>i = Suc j\<close> by (intro exI [of _ "c # g"] exI [of _ u]) simp
  qed
qed (auto split: if_splits)

lemma find_sub_first: "\<exists>i \<le> length g. find_sub p (g @ p @ u) = Some i"
proof (induction g)
  case Nil
  have "take (length p) (p @ u) = p"
    by simp
  thus ?case
    by (cases "p @ u") simp_all
qed auto

text \<open>The greedy choice is safe: what can follow some occurrence of a part can follow the first one.\<close>

lemma greedy_choice:
  assumes "ps \<noteq> []" "find_sub p t = Some i"
  shows "after_gap (p # ps) t \<longleftrightarrow> after_gap ps (drop (i + length p) t)"
proof
  obtain g u where t: "length g = i" "t = g @ p @ u"
    using find_sub_Some [OF assms(2)] by blast
  {
    assume "after_gap (p # ps) t"
    then obtain g' u' where t': "t = g' @ p @ u'" "after_gap ps u'"
      using assms(1) by (auto simp: after_gap_def [of "p # ps"] segments_Cons)
    have "i \<le> length g'"
      using find_sub_first [of g' p u'] assms(2) t'(1) by auto
    hence "drop (i + length p) t = drop (i + length p) (g' @ p) @ u'"
      using t'(1) by simp
    thus "after_gap ps (drop (i + length p) t)"
      using after_gap_prefix [OF t'(2)] by metis
  next
    assume "after_gap ps (drop (i + length p) t)"
    hence "segments (p # ps) (p @ u)"
      using t assms(1) by (auto simp: segments_Cons)
    thus "after_gap (p # ps) t"
      using t(2) unfolding after_gap_def by blast
  }
qed

lemma not_found:
  assumes "ps \<noteq> []" "find_sub p t = None"
  shows "\<not> after_gap (p # ps) t"
proof
  assume "after_gap (p # ps) t"
  then obtain g u where "t = g @ p @ u"
    using assms(1) by (auto simp: after_gap_def [of "p # ps"] segments_Cons)
  thus False
    using find_sub_first [of g p u] assms(2) by auto
qed

lemma after_gap_empty_part: "ps \<noteq> [] \<Longrightarrow> after_gap ([] # ps) t \<longleftrightarrow> after_gap ps t"
  using after_gap_prefix by (auto simp: after_gap_def [of "[] # ps"] segments_Cons)

lemma after_gap_single: "after_gap [p] t \<longleftrightarrow> length p \<le> length t \<and> drop (length t - length p) t = p"
  by (auto simp: after_gap_def) (metis append_take_drop_id)

lemma like_loop_after_gap:
  "ps \<noteq> [] \<Longrightarrow> i > 0 \<Longrightarrow> n = i + length ps \<Longrightarrow> ends = (last ps = []) \<Longrightarrow>
     like_loop starts ends n i ps t \<longleftrightarrow> after_gap ps t"
proof (induction ps arbitrary: i t)
  case (Cons p ps)
  show ?case
  proof (cases "ps = []")
    case True
    thus ?thesis
      using Cons.prems by (auto simp: after_gap_single)
  next
    case False
    have IH: "like_loop starts (last ps = []) (Suc (i + length ps)) (Suc i) ps u \<longleftrightarrow> after_gap ps u" for u
      using Cons.IH [of "Suc i" u] Cons.prems False by simp
    show ?thesis
    proof (cases "p = []")
      case True
      thus ?thesis
        using after_gap_empty_part [OF False] Cons.prems False by (simp add: IH)
    next
      case p: False
      have loop: "like_loop starts ends n i (p # ps) t \<longleftrightarrow>
          (case find_sub p t of Some idx \<Rightarrow> after_gap ps (drop (idx + length p) t) | None \<Rightarrow> False)"
        using p False Cons.prems by (cases "find_sub p t") (simp_all add: IH)
      show ?thesis
        unfolding loop using greedy_choice [OF False] not_found [OF False] by (auto split: option.split)
    qed
  qed
qed simp

lemma split_on_tl: "c \<in> set p \<Longrightarrow> tl (split_on c p) \<noteq> []"
  by (induction p) auto

lemma split_on_absent: "c \<notin> set p \<Longrightarrow> split_on c p = [p]"
  by (induction p) auto

lemma split_on_single: "split_on c p = [q] \<Longrightarrow> p = q"
  using split_on_tl [of c p] split_on_absent [of c p] by fastforce

lemma split_on_last: "p \<noteq> [] \<Longrightarrow> last (split_on c p) = [] \<longleftrightarrow> last p = c"
proof (induction p)
  case (Cons x p)
  show ?case
    using Cons.IH split_on_single [of c p "[]"]
    by (cases "p = []"; cases "split_on c p") (auto split: if_splits)
qed simp

lemma split_on_hd: "p \<noteq> [] \<Longrightarrow> hd (split_on c p) = [] \<longleftrightarrow> hd p = c"
  by (cases p) auto

text \<open>
  The matcher of \<^verbatim>\<open>LIKE\<close>, which looks for the parts of the pattern one after the other and never
  goes back, decides the meaning of the pattern, for every text and every pattern.
\<close>

lemma match_like_pattern_correct: "match_like_pattern text pattern \<longleftrightarrow> like pattern text"
proof (cases "percent \<in> set pattern")
  case True
  then obtain p ps where parts: "split_on percent pattern = p # ps" "ps \<noteq> []"
    using split_on_tl by (metis list.exhaust_sel split_on_not_Nil)
  have pat: "pattern \<noteq> []"
    using True by auto
  have hd: "hd pattern = percent \<longleftrightarrow> p = []" and last: "last pattern = percent \<longleftrightarrow> last ps = []"
    using split_on_hd [OF pat, of percent] split_on_last [OF pat, of percent] parts by auto
  have loop: "like_loop s (last ps = []) (Suc (length ps)) (Suc 0) ps t \<longleftrightarrow> after_gap ps t" for s t
    using like_loop_after_gap [OF parts(2), of 1] by simp
  have "take (length p) text = p \<longleftrightarrow> (\<exists>u. text = p @ u)"
    by (metis append_eq_conv_conj append_take_drop_id)
  thus ?thesis
    using True parts(2)
    by (auto simp: match_like_pattern_def like_segments parts(1) Let_def hd last loop segments_Cons
        simp del: like_loop.simps(1))
next
  case False
  thus ?thesis
    by (auto simp: match_like_pattern_def like_segments split_on_absent)
qed

end
