(* ===== verification/ExprOpt.thy ===== *)
theory ExprOpt
  imports ExprLang
begin

text \<open>
  Model of \<^verbatim>\<open>arcxa-coordinator/src/mapping/loader/transformation/optimizer.rs\<close> and of the analyses of
  \<^verbatim>\<open>ast.rs\<close>: constant folding, algebraic simplification and the optimizer that runs them in turn. The
  integer arithmetic of folding panics where the division overflows; the result of a pass that can panic is an
  \<open>option\<close> whose \<open>None\<close> is that panic.
\<close>

section \<open>Analyses\<close>

definition constant_function :: "string \<Rightarrow> bool" where
  "constant_function name \<longleftrightarrow> name \<in> {''CURRENT_DATE'', ''PI'', ''E''}"

fun is_constant :: "'x expression \<Rightarrow> bool" where
  "is_constant (Literal l) = True"
| "is_constant (FunctionCall name args) = (constant_function name \<or> list_all is_constant args)"
| "is_constant (BinaryOp l op r) = (is_constant l \<and> is_constant r)"
| "is_constant (UnaryOp op e) = is_constant e"
| "is_constant (Cast e ty) = is_constant e"
| "is_constant (Variable name) = False"
| "is_constant (Case conds els) = False"

fun has_variables :: "'x expression \<Rightarrow> bool" where
  "has_variables (Variable name) = True"
| "has_variables (FunctionCall name args) = list_ex has_variables args"
| "has_variables (BinaryOp l op r) = (has_variables l \<or> has_variables r)"
| "has_variables (UnaryOp op e) = has_variables e"
| "has_variables (Case conds els) =
     (list_ex (\<lambda>(cond, then_expr). has_variables cond \<or> has_variables then_expr) conds \<or>
      (case els of Some e \<Rightarrow> has_variables e | None \<Rightarrow> False))"
| "has_variables (Cast e ty) = has_variables e"
| "has_variables (Literal l) = False"

definition inferred_call_type :: "string \<Rightarrow> data_type" where
  "inferred_call_type name =
     (if name \<in> {''UPPER'', ''LOWER'', ''TRIM'', ''LTRIM'', ''RTRIM'', ''REPLACE'', ''CONCAT''} then TyString
      else if name \<in> {''LENGTH'', ''ABS'', ''ROUND'', ''FLOOR'', ''CEIL''} then TyInteger
      else if name = ''CURRENT_DATE'' then TyDate
      else TyUnknown)"

fun infer_type :: "'x expr_lib \<Rightarrow> 'x expression \<Rightarrow> data_type" where
  "infer_type X (Literal l) =
     (case l of LString _ \<Rightarrow> TyString | LInteger _ \<Rightarrow> TyInteger | LFloat _ \<Rightarrow> TyFloat | LBoolean _ \<Rightarrow> TyBoolean | LNull \<Rightarrow> TyUnknown)"
| "infer_type X (Variable name) = TyUnknown"
| "infer_type X (FunctionCall name args) = inferred_call_type (xl_uppercase X name)"
| "infer_type X (BinaryOp l op r) =
     (if op = OpConcat then TyString
      else if op \<in> {OpAdd, OpSubtract, OpMultiply, OpDivide, OpModulo} then
        (case infer_type X l of TyFloat \<Rightarrow> TyFloat | TyDecimal _ _ \<Rightarrow> TyFloat | _ \<Rightarrow> TyInteger)
      else TyBoolean)"
| "infer_type X (UnaryOp op e) = (if op = OpNegate then infer_type X e else TyBoolean)"
| "infer_type X (Case ((cond, then_expr) # conds) els) = infer_type X then_expr"
| "infer_type X (Case [] els) = (case els of Some e \<Rightarrow> infer_type X e | None \<Rightarrow> TyUnknown)"
| "infer_type X (Cast e ty) = ty"

section \<open>Constant folding\<close>

definition keep_binary :: "'x literal \<Rightarrow> binary_op \<Rightarrow> 'x literal \<Rightarrow> 'x expression option" where
  "keep_binary l op r = Some (BinaryOp (Literal l) op (Literal r))"

definition fold_integers :: "i64 \<Rightarrow> binary_op \<Rightarrow> i64 \<Rightarrow> 'x expression option" where
  "fold_integers l op r =
     (case op of
        OpAdd \<Rightarrow> Some (Literal (LInteger (l + r)))
      | OpSubtract \<Rightarrow> Some (Literal (LInteger (l - r)))
      | OpMultiply \<Rightarrow> Some (Literal (LInteger (l * r)))
      | OpDivide \<Rightarrow>
          if r \<noteq> 0 then (if overflows l r then None else Some (Literal (LInteger (i64_div l r))))
          else keep_binary (LInteger l) op (LInteger r)
      | OpModulo \<Rightarrow>
          if r \<noteq> 0 then (if overflows l r then None else Some (Literal (LInteger (i64_rem l r))))
          else keep_binary (LInteger l) op (LInteger r)
      | OpEqual \<Rightarrow> Some (Literal (LBoolean (l = r)))
      | OpNotEqual \<Rightarrow> Some (Literal (LBoolean (l \<noteq> r)))
      | OpLessThan \<Rightarrow> Some (Literal (LBoolean (sint l < sint r)))
      | OpLessThanOrEqual \<Rightarrow> Some (Literal (LBoolean (sint l \<le> sint r)))
      | OpGreaterThan \<Rightarrow> Some (Literal (LBoolean (sint l > sint r)))
      | OpGreaterThanOrEqual \<Rightarrow> Some (Literal (LBoolean (sint l \<ge> sint r)))
      | _ \<Rightarrow> keep_binary (LInteger l) op (LInteger r))"

definition fold_floats :: "'x expr_lib \<Rightarrow> 'x \<Rightarrow> binary_op \<Rightarrow> 'x \<Rightarrow> 'x expression option" where
  "fold_floats X l op r =
     (case op of
        OpAdd \<Rightarrow> Some (Literal (LFloat (xl_add X l r)))
      | OpSubtract \<Rightarrow> Some (Literal (LFloat (xl_sub X l r)))
      | OpMultiply \<Rightarrow> Some (Literal (LFloat (xl_mul X l r)))
      | OpDivide \<Rightarrow>
          if \<not> xl_eq X r (xl_zero X) then Some (Literal (LFloat (xl_div X l r)))
          else keep_binary (LFloat l) op (LFloat r)
      | _ \<Rightarrow> keep_binary (LFloat l) op (LFloat r))"

definition evaluate_binary_literals ::
  "'x expr_lib \<Rightarrow> 'x literal \<Rightarrow> binary_op \<Rightarrow> 'x literal \<Rightarrow> 'x expression option" where
  "evaluate_binary_literals X l op r =
     (case (l, r) of
        (LInteger a, LInteger b) \<Rightarrow> fold_integers a op b
      | (LFloat a, LFloat b) \<Rightarrow> fold_floats X a op b
      | (LString a, LString b) \<Rightarrow> if op = OpConcat then Some (Literal (LString (a @ b))) else keep_binary l op r
      | (LBoolean a, LBoolean b) \<Rightarrow>
          if op = OpAnd then Some (Literal (LBoolean (a \<and> b)))
          else if op = OpOr then Some (Literal (LBoolean (a \<or> b)))
          else keep_binary l op r
      | _ \<Rightarrow> keep_binary l op r)"

definition evaluate_unary_literal :: "'x expr_lib \<Rightarrow> unary_op \<Rightarrow> 'x literal \<Rightarrow> 'x expression" where
  "evaluate_unary_literal X op l =
     (case (op, l) of
        (OpNegate, LInteger i) \<Rightarrow> Literal (LInteger (- i))
      | (OpNegate, LFloat f) \<Rightarrow> Literal (LFloat (xl_neg X f))
      | (OpNot, LBoolean b) \<Rightarrow> Literal (LBoolean (\<not> b))
      | (OpIsNull, LNull) \<Rightarrow> Literal (LBoolean True)
      | (OpIsNull, _) \<Rightarrow> Literal (LBoolean False)
      | (OpIsNotNull, LNull) \<Rightarrow> Literal (LBoolean False)
      | (OpIsNotNull, _) \<Rightarrow> Literal (LBoolean True)
      | _ \<Rightarrow> UnaryOp op (Literal l))"

definition fold_binary ::
  "'x expr_lib \<Rightarrow> 'x expression \<Rightarrow> binary_op \<Rightarrow> 'x expression \<Rightarrow> 'x expression option" where
  "fold_binary X l op r =
     (case (l, r) of
        (Literal a, Literal b) \<Rightarrow> evaluate_binary_literals X a op b
      | _ \<Rightarrow> Some (BinaryOp l op r))"

definition fold_unary :: "'x expr_lib \<Rightarrow> unary_op \<Rightarrow> 'x expression \<Rightarrow> 'x expression" where
  "fold_unary X op e = (case e of Literal l \<Rightarrow> evaluate_unary_literal X op l | _ \<Rightarrow> UnaryOp op e)"

definition is_bool_literal :: "bool \<Rightarrow> 'x expression \<Rightarrow> bool" where
  "is_bool_literal b e = (case e of Literal (LBoolean b') \<Rightarrow> b' = b | _ \<Rightarrow> False)"

text \<open>The end of the arm for \<^verbatim>\<open>CASE\<close>: the loop that looks for a true condition, and the filter of the false ones.\<close>

definition fold_case :: "('x expression \<times> 'x expression) list \<Rightarrow> 'x expression option \<Rightarrow> 'x expression" where
  "fold_case conds els =
     (case find (\<lambda>(cond, _). is_bool_literal True cond) conds of
        Some (_, then_expr) \<Rightarrow> then_expr
      | None \<Rightarrow>
          let rest = filter (\<lambda>(cond, _). \<not> is_bool_literal False cond) conds in
          if rest = [] then (case els of Some e \<Rightarrow> e | None \<Rightarrow> Literal LNull)
          else Case rest els)"

definition pair_option :: "'a option \<Rightarrow> 'b option \<Rightarrow> ('a \<times> 'b) option" where
  "pair_option a b = Option.bind a (\<lambda>x. map_option (Pair x) b)"

definition option_option :: "'a option option \<Rightarrow> 'a option option" where
  "option_option r = (case r of None \<Rightarrow> Some None | Some a \<Rightarrow> map_option Some a)"

fun fold_constants :: "'x expr_lib \<Rightarrow> 'x expression \<Rightarrow> 'x expression option" where
  "fold_constants X (BinaryOp l op r) =
     Option.bind (fold_constants X l) (\<lambda>l'. Option.bind (fold_constants X r) (\<lambda>r'. fold_binary X l' op r'))"
| "fold_constants X (UnaryOp op e) = map_option (fold_unary X op) (fold_constants X e)"
| "fold_constants X (FunctionCall name args) = map_option (FunctionCall name) (those (map (fold_constants X) args))"
| "fold_constants X (Case conds els) =
     Option.bind (those (map (\<lambda>(cond, then_expr). pair_option (fold_constants X cond) (fold_constants X then_expr)) conds))
       (\<lambda>conds'. map_option (fold_case conds') (option_option (map_option (fold_constants X) els)))"
| "fold_constants X (Cast e ty) = map_option (\<lambda>e'. Cast e' ty) (fold_constants X e)"
| "fold_constants X (Literal l) = Some (Literal l)"
| "fold_constants X (Variable name) = Some (Variable name)"

section \<open>Algebraic simplification\<close>

definition is_int_literal :: "i64 \<Rightarrow> 'x expression \<Rightarrow> bool" where
  "is_int_literal i e = (case e of Literal (LInteger j) \<Rightarrow> j = i | _ \<Rightarrow> False)"

definition same_variable :: "'x expression \<Rightarrow> 'x expression \<Rightarrow> bool" where
  "same_variable l r = (case (l, r) of (Variable a, Variable b) \<Rightarrow> a = b | _ \<Rightarrow> False)"

definition simplify_binary :: "'x expression \<Rightarrow> binary_op \<Rightarrow> 'x expression \<Rightarrow> 'x expression" where
  "simplify_binary l op r =
     (case op of
        OpAdd \<Rightarrow> if is_int_literal 0 r then l else if is_int_literal 0 l then r else BinaryOp l op r
      | OpSubtract \<Rightarrow> if is_int_literal 0 r then l else BinaryOp l op r
      | OpMultiply \<Rightarrow>
          if is_int_literal 0 r \<or> is_int_literal 0 l then Literal (LInteger 0)
          else if is_int_literal 1 r then l else if is_int_literal 1 l then r else BinaryOp l op r
      | OpDivide \<Rightarrow> if is_int_literal 1 r then l else BinaryOp l op r
      | OpAnd \<Rightarrow>
          if is_bool_literal True r then l else if is_bool_literal True l then r
          else if is_bool_literal False r \<or> is_bool_literal False l then Literal (LBoolean False)
          else BinaryOp l op r
      | OpOr \<Rightarrow>
          if is_bool_literal True r \<or> is_bool_literal True l then Literal (LBoolean True)
          else if is_bool_literal False r then l else if is_bool_literal False l then r
          else BinaryOp l op r
      | OpEqual \<Rightarrow> if same_variable l r then Literal (LBoolean True) else BinaryOp l op r
      | _ \<Rightarrow> BinaryOp l op r)"

definition simplify_unary :: "unary_op \<Rightarrow> 'x expression \<Rightarrow> 'x expression" where
  "simplify_unary op e =
     (case e of
        UnaryOp op' inner \<Rightarrow>
          if op = OpNot \<and> op' = OpNot \<or> op = OpNegate \<and> op' = OpNegate then inner else UnaryOp op e
      | _ \<Rightarrow> UnaryOp op e)"

definition is_null_literal :: "'x expression \<Rightarrow> bool" where
  "is_null_literal e = (case e of Literal LNull \<Rightarrow> True | _ \<Rightarrow> False)"

definition simplify_call :: "'x expr_lib \<Rightarrow> string \<Rightarrow> 'x expression list \<Rightarrow> 'x expression" where
  "simplify_call X name args =
     (if xl_uppercase X name = ''COALESCE'' then
        (case filter (\<lambda>arg. \<not> is_null_literal arg) args of
           [] \<Rightarrow> Literal LNull
         | [arg] \<Rightarrow> arg
         | non_null_args \<Rightarrow> FunctionCall name non_null_args)
      else FunctionCall name args)"

fun simplify_algebraic :: "'x expr_lib \<Rightarrow> 'x expression \<Rightarrow> 'x expression" where
  "simplify_algebraic X (BinaryOp l op r) = simplify_binary (simplify_algebraic X l) op (simplify_algebraic X r)"
| "simplify_algebraic X (UnaryOp op e) = simplify_unary op (simplify_algebraic X e)"
| "simplify_algebraic X (FunctionCall name args) = simplify_call X name (map (simplify_algebraic X) args)"
| "simplify_algebraic X (Case conds els) =
     Case (map (\<lambda>(cond, then_expr). (simplify_algebraic X cond, simplify_algebraic X then_expr)) conds)
       (map_option (simplify_algebraic X) els)"
| "simplify_algebraic X (Cast e ty) = Cast (simplify_algebraic X e) ty"
| "simplify_algebraic X (Literal l) = Literal l"
| "simplify_algebraic X (Variable name) = Variable name"

definition eliminate_common_subexpressions :: "'x expression \<Rightarrow> 'x expression" where
  "eliminate_common_subexpressions e = e"

record expression_optimizer =
  enable_constant_folding :: bool
  enable_algebraic_simplification :: bool
  enable_cse :: bool

definition optimizer_new :: expression_optimizer where
  "optimizer_new = \<lparr>enable_constant_folding = True, enable_algebraic_simplification = True, enable_cse = True\<rparr>"

definition optimize :: "expression_optimizer \<Rightarrow> 'x expr_lib \<Rightarrow> 'x expression \<Rightarrow> 'x expression option" where
  "optimize opt X e =
     Option.bind (if enable_constant_folding opt then fold_constants X e else Some e) (\<lambda>e1.
       let e2 = (if enable_algebraic_simplification opt then simplify_algebraic X e1 else e1) in
       Some (if enable_cse opt then eliminate_common_subexpressions e2 else e2))"

section \<open>Where folding keeps the meaning\<close>

text \<open>
  Folding changes the meaning of two forms: the quotient of two integer literals, which the evaluator computes as a
  float, and a \<^verbatim>\<open>CASE\<close> with a condition that is literally true after one that is not decided, which drops
  the earlier branch. \<open>fold_safe\<close> excludes exactly these.
\<close>

definition folds_to_integer :: "'x expr_lib \<Rightarrow> 'x expression \<Rightarrow> bool" where
  "folds_to_integer X e = (case fold_constants X e of Some (Literal (LInteger _)) \<Rightarrow> True | _ \<Rightarrow> False)"

fun true_first :: "'x expression list \<Rightarrow> bool" where
  "true_first [] = True"
| "true_first (cond # conds) =
     (is_bool_literal True cond \<or>
      (if is_bool_literal False cond then true_first conds else list_all (\<lambda>c. \<not> is_bool_literal True c) conds))"

definition decided_in_order :: "'x expr_lib \<Rightarrow> ('x expression \<times> 'x expression) list \<Rightarrow> bool" where
  "decided_in_order X conds =
     (case those (map (\<lambda>(cond, _). fold_constants X cond) conds) of None \<Rightarrow> True | Some conds' \<Rightarrow> true_first conds')"

fun fold_safe :: "'x expr_lib \<Rightarrow> 'x expression \<Rightarrow> bool" where
  "fold_safe X (BinaryOp l op r) =
     (fold_safe X l \<and> fold_safe X r \<and> \<not> (op = OpDivide \<and> folds_to_integer X l \<and> folds_to_integer X r))"
| "fold_safe X (UnaryOp op e) = fold_safe X e"
| "fold_safe X (FunctionCall name args) = list_all (fold_safe X) args"
| "fold_safe X (Case conds els) =
     (list_all (\<lambda>(cond, then_expr). fold_safe X cond \<and> fold_safe X then_expr) conds \<and>
      (case els of Some e \<Rightarrow> fold_safe X e | None \<Rightarrow> True) \<and> decided_in_order X conds)"
| "fold_safe X (Cast e ty) = fold_safe X e"
| "fold_safe X (Literal l) = True"
| "fold_safe X (Variable name) = True"

lemma those_Some: "those xs = Some ys \<longleftrightarrow> list_all2 (\<lambda>x y. x = Some y) xs ys"
  by (induction xs arbitrary: ys) (auto simp: list_all2_Cons1 split: option.split)

lemma pair_option_Some: "pair_option a b = Some p \<longleftrightarrow> a = Some (fst p) \<and> b = Some (snd p)"
  by (cases a; cases b; cases p) (auto simp: pair_option_def)

lemma eval_args_cong:
  "list_all2 (\<lambda>a a'. eval_expr X fs c a' = eval_expr X fs c a) args args' \<Longrightarrow>
     eval_args X fs c args' = eval_args X fs c args"
  by (induction rule: list_all2_induct) auto

lemma eval_case_cong:
  "list_all2 (\<lambda>p p'. eval_expr X fs c (fst p') = eval_expr X fs c (fst p) \<and>
       eval_expr X fs c (snd p') = eval_expr X fs c (snd p)) conds conds' \<Longrightarrow>
   rel_option (\<lambda>e e'. eval_expr X fs c e' = eval_expr X fs c e) els els' \<Longrightarrow>
     eval_case X fs c conds' els' = eval_case X fs c conds els"
proof (induction rule: list_all2_induct)
  case Nil
  thus ?case
    by (cases els; cases els') auto
next
  case (Cons p ps q qs)
  thus ?case
    by (cases p; cases q; cases "eval_expr X fs c (fst p)") auto
qed

lemma as_boolean_simps [simp]: "as_boolean X (VBoolean b) = b" "\<not> as_boolean X VNull"
  by (simp_all add: as_boolean_def)

lemma is_bool_literal_iff: "is_bool_literal b e \<longleftrightarrow> e = Literal (LBoolean b)"
  by (auto simp: is_bool_literal_def split: expression.split literal.split)

lemma is_int_literal_iff: "is_int_literal i e \<longleftrightarrow> e = Literal (LInteger i)"
  by (auto simp: is_int_literal_def split: expression.split literal.split)

lemma eval_case_filter:
  "eval_case X fs c (filter (\<lambda>(cond, _). \<not> is_bool_literal False cond) conds) els = eval_case X fs c conds els"
proof (induction conds)
  case (Cons p conds)
  thus ?case
    by (cases p; cases "eval_expr X fs c (fst p)") (auto simp: is_bool_literal_iff)
qed simp

lemma find_none_true:
  "list_all (\<lambda>c. \<not> is_bool_literal True c) (map fst conds) \<Longrightarrow>
     find (\<lambda>(cond, _). is_bool_literal True cond) conds = None"
  by (auto simp: find_None_iff list_all_iff)

lemma eval_fold_case_undecided:
  assumes "find (\<lambda>(cond, _). is_bool_literal True cond) conds = None"
  shows "eval_expr X fs c (fold_case conds els) = eval_case X fs c conds els"
proof (cases "filter (\<lambda>(cond, _). \<not> is_bool_literal False cond) conds = []")
  case True
  hence "eval_case X fs c conds els = eval_case X fs c [] els"
    using eval_case_filter [of X fs c conds els] by simp
  thus ?thesis
    using assms True by (cases els) (simp_all add: fold_case_def)
next
  case False
  thus ?thesis
    using assms eval_case_filter [of X fs c conds els] by (simp add: fold_case_def Let_def)
qed

lemma eval_fold_case:
  "true_first (map fst conds) \<Longrightarrow> eval_expr X fs c (fold_case conds els) = eval_case X fs c conds els"
proof (induction conds)
  case Nil
  show ?case
    by (rule eval_fold_case_undecided) simp
next
  case (Cons p conds)
  obtain cond then_expr where p: "p = (cond, then_expr)"
    by (cases p)
  consider "is_bool_literal True cond" | "is_bool_literal False cond" "true_first (map fst conds)"
    | "\<not> is_bool_literal True cond" "list_all (\<lambda>c. \<not> is_bool_literal True c) (map fst conds)"
    using Cons.prems p by (auto split: if_splits)
  thus ?case
  proof cases
    case 1
    thus ?thesis
      by (simp add: p fold_case_def is_bool_literal_iff)
  next
    case 2
    hence "fold_case (p # conds) els = fold_case conds els"
      by (cases "find (\<lambda>(cond, _). is_bool_literal True cond) conds")
        (simp_all add: p fold_case_def is_bool_literal_iff)
    thus ?thesis
      using 2 Cons.IH by (simp add: p is_bool_literal_iff)
  next
    case 3
    thus ?thesis
      using find_none_true [of "p # conds"] by (intro eval_fold_case_undecided) (simp add: p)
  qed
qed

lemma eval_keep_binary: "keep_binary l op r = Some e \<Longrightarrow>
    eval_expr X fs c e = eval_binary_op X (eval_literal l) op (eval_literal r)"
  by (auto simp: keep_binary_def)

lemma eval_fold_integers:
  assumes "fold_integers a op b = Some e" "op \<noteq> OpDivide"
  shows "eval_expr X fs c e = eval_binary_op X (VInteger a) op (VInteger b)"
  using assms
  by (cases op) (auto simp: fold_integers_def eval_binary_op_def is_null_def arith_def modulo_def coerce_types_def
      compare_op_def compare_values_def compare_words_def keep_binary_def split: if_splits)

lemma eval_fold_floats:
  assumes "fold_floats X a op b = Some e"
  shows "eval_expr X fs c e = eval_binary_op X (VFloat a) op (VFloat b)"
  using assms
  by (cases op) (auto simp: fold_floats_def eval_binary_op_def is_null_def arith_def as_float_def keep_binary_def
      split: if_splits)

lemma eval_evaluate_binary_literals:
  assumes "evaluate_binary_literals X l op r = Some e"
    and "\<not> (op = OpDivide \<and> (\<exists>a b. l = LInteger a \<and> r = LInteger b))"
  shows "eval_expr X fs c e = eval_binary_op X (eval_literal l) op (eval_literal r)"
proof (cases l)
  case (LString a)
  thus ?thesis
    using assms by (cases r) (auto simp: evaluate_binary_literals_def eval_binary_op_def is_null_def keep_binary_def
        split: if_splits)
next
  case (LInteger a)
  thus ?thesis
    using assms eval_keep_binary eval_fold_integers
    by (cases r) (auto simp: evaluate_binary_literals_def, fastforce+)
next
  case (LFloat a)
  thus ?thesis
    using assms eval_keep_binary eval_fold_floats
    by (cases r) (auto simp: evaluate_binary_literals_def, fastforce+)
next
  case (LBoolean a)
  thus ?thesis
    using assms by (cases r) (auto simp: evaluate_binary_literals_def eval_binary_op_def is_null_def keep_binary_def
        split: if_splits)
next
  case LNull
  thus ?thesis
    using assms by (cases r) (auto simp: evaluate_binary_literals_def keep_binary_def)
qed

lemma eval_fold_unary: "eval_expr X fs c (fold_unary X op e) = eval_expr X fs c (UnaryOp op e)"
proof (cases e)
  case (Literal l)
  thus ?thesis
    by (cases op; cases l) (auto simp: fold_unary_def evaluate_unary_literal_def eval_unary_op_def is_null_def)
qed (auto simp: fold_unary_def)

lemma eval_fold_binary:
  assumes "fold_binary X l op r = Some e"
    and "\<not> (op = OpDivide \<and> (\<exists>a b. l = Literal (LInteger a) \<and> r = Literal (LInteger b)))"
  shows "eval_expr X fs c e = eval_expr X fs c (BinaryOp l op r)"
proof (cases "\<exists>a b. l = Literal a \<and> r = Literal b")
  case True
  then obtain a b where "l = Literal a" "r = Literal b"
    by blast
  thus ?thesis
    using assms eval_evaluate_binary_literals [of X a op b e fs c] by (simp add: fold_binary_def)
next
  case False
  hence "fold_binary X l op r = Some (BinaryOp l op r)"
    by (auto simp: fold_binary_def split: expression.split)
  thus ?thesis
    using assms by simp
qed

lemma decided_in_order_folded:
  assumes "decided_in_order X conds"
    and "those (map (\<lambda>(cond, then_expr). pair_option (fold_constants X cond) (fold_constants X then_expr)) conds) = Some conds'"
  shows "true_first (map fst conds')"
proof -
  have "list_all2 (\<lambda>p q. fold_constants X (fst p) = Some (fst q)) conds conds'"
    using assms(2) unfolding those_Some list_all2_map1
    by (rule list_all2_mono) (simp add: pair_option_Some case_prod_beta)
  hence "those (map (\<lambda>(cond, _). fold_constants X cond) conds) = Some (map fst conds')"
    by (simp add: those_Some list_all2_map1 list_all2_map2 case_prod_beta)
  thus ?thesis
    using assms(1) by (simp add: decided_in_order_def)
qed

lemma eval_fold_constants:
  "fold_safe X e \<Longrightarrow> fold_constants X e = Some e' \<Longrightarrow> eval_expr X fs c e' = eval_expr X fs c e"
proof (induction X e arbitrary: e' rule: fold_constants.induct)
  case (1 X l op r)
  then obtain l' r' where lr: "fold_constants X l = Some l'" "fold_constants X r = Some r'" "fold_binary X l' op r' = Some e'"
    by (auto simp: bind_eq_Some_conv)
  have "\<not> (op = OpDivide \<and> (\<exists>a b. l' = Literal (LInteger a) \<and> r' = Literal (LInteger b)))"
    using "1.prems"(1) lr(1,2) by (auto simp: folds_to_integer_def)
  thus ?case
    using eval_fold_binary [OF lr(3), of fs c] "1.IH" "1.prems"(1) lr by auto
next
  case (2 X op e)
  thus ?case
    by (auto simp: eval_fold_unary)
next
  case (3 X name args)
  then obtain args' where args: "list_all2 (\<lambda>a a'. fold_constants X a = Some a') args args'" "e' = FunctionCall name args'"
    by (auto simp: those_Some list_all2_map1)
  have "list_all2 (\<lambda>a a'. eval_expr X fs c a' = eval_expr X fs c a) args args'"
    using args(1) by (rule list.rel_mono_strong) (use "3.IH" "3.prems"(1) in \<open>auto simp: list_all_iff\<close>)
  thus ?case
    using eval_args_cong args(2) by fastforce
next
  case (4 X conds els)
  then obtain conds' els' where folded:
    "those (map (\<lambda>(cond, then_expr). pair_option (fold_constants X cond) (fold_constants X then_expr)) conds) = Some conds'"
    "option_option (map_option (fold_constants X) els) = Some els'" "e' = fold_case conds' els'"
    by (auto simp: bind_eq_Some_conv)
  have rel: "list_all2 (\<lambda>p p'. pair_option (fold_constants X (fst p)) (fold_constants X (snd p)) = Some p') conds conds'"
    using folded(1) by (simp add: those_Some list_all2_map1 case_prod_beta)
  have conds: "list_all2 (\<lambda>p p'. eval_expr X fs c (fst p') = eval_expr X fs c (fst p) \<and>
      eval_expr X fs c (snd p') = eval_expr X fs c (snd p)) conds conds'"
    using rel
  proof (rule list.rel_mono_strong)
    fix p p'
    assume p: "p \<in> set conds" "pair_option (fold_constants X (fst p)) (fold_constants X (snd p)) = Some p'"
    have safe: "fold_safe X (fst p)" "fold_safe X (snd p)" using "4.prems"(1) p(1) by (auto simp: list_all_iff)
    show "eval_expr X fs c (fst p') = eval_expr X fs c (fst p) \<and> eval_expr X fs c (snd p') = eval_expr X fs c (snd p)"
      using "4.IH"(1) [OF p(1) prod.collapse safe(1)] "4.IH"(2) [OF p(1) prod.collapse safe(2)] p(2)
      by (auto simp: pair_option_Some)
  qed
  have els: "rel_option (\<lambda>e e'. eval_expr X fs c e' = eval_expr X fs c e) els els'"
    using folded(2) "4.IH"(3) [OF folded(1)] "4.prems"(1) by (cases els) (auto simp: option_option_def)
  have "eval_expr X fs c e' = eval_case X fs c conds' els'"
    unfolding folded(3) using decided_in_order_folded [OF _ folded(1)] "4.prems"(1)
    by (intro eval_fold_case) simp
  thus ?case
    using eval_case_cong [OF conds els] by simp
next
  case (5 X e ty)
  thus ?case
    by auto
qed auto

section \<open>Where simplification keeps the meaning\<close>

text \<open>
  Expressions whose value, when they have one, is an integer, respectively a boolean. A row gives every variable a
  string, so a variable is neither.
\<close>

fun yields_int :: "'x expression \<Rightarrow> bool" where
  "yields_int (Literal l) = (case l of LInteger _ \<Rightarrow> True | _ \<Rightarrow> False)"
| "yields_int (BinaryOp l op r) =
     (op \<in> {OpAdd, OpSubtract, OpMultiply, OpModulo} \<and> yields_int l \<and> yields_int r)"
| "yields_int (UnaryOp op e) = (op = OpNegate \<and> yields_int e)"
| "yields_int (Cast e ty) = (ty = TyInteger)"
| "yields_int (Variable _) = False"
| "yields_int (FunctionCall _ _) = False"
| "yields_int (Case _ _) = False"

fun yields_bool :: "'x expression \<Rightarrow> bool" where
  "yields_bool (Literal l) = (case l of LBoolean _ \<Rightarrow> True | _ \<Rightarrow> False)"
| "yields_bool (BinaryOp l op r) =
     (op \<in> {OpEqual, OpNotEqual} \<or> op \<in> {OpAnd, OpOr} \<and> yields_bool l \<and> yields_bool r)"
| "yields_bool (UnaryOp op e) = (op \<noteq> OpNegate)"
| "yields_bool (Cast e ty) = (ty = TyBoolean)"
| "yields_bool (Variable _) = False"
| "yields_bool (FunctionCall _ _) = False"
| "yields_bool (Case _ _) = False"

text \<open>The conditions under which the rules for a binary operator, a unary operator and a call apply soundly.\<close>

definition binary_safe ::
  "'x expression \<Rightarrow> 'x expression \<Rightarrow> binary_op \<Rightarrow> 'x expression \<Rightarrow> 'x expression \<Rightarrow> bool" where
  "binary_safe l l' op r r' \<longleftrightarrow>
     (op \<in> {OpAdd, OpSubtract, OpMultiply} \<longrightarrow>
        (is_int_literal 0 r' \<or> is_int_literal 1 r' \<longrightarrow> yields_int l) \<and>
        (is_int_literal 0 l' \<or> is_int_literal 1 l' \<longrightarrow> yields_int r)) \<and>
     (op = OpDivide \<longrightarrow> \<not> is_int_literal 1 r') \<and>
     (op \<in> {OpAnd, OpOr} \<longrightarrow>
        (is_bool_literal True r' \<or> is_bool_literal False r' \<longrightarrow> yields_bool l) \<and>
        (is_bool_literal True l' \<or> is_bool_literal False l' \<longrightarrow> yields_bool r))"

definition unary_safe :: "unary_op \<Rightarrow> 'x expression \<Rightarrow> bool" where
  "unary_safe op e' =
     (case e' of
        UnaryOp op' inner \<Rightarrow>
          (op = OpNot \<and> op' = OpNot \<longrightarrow> yields_bool inner) \<and> (op = OpNegate \<and> op' = OpNegate \<longrightarrow> yields_int inner)
      | _ \<Rightarrow> True)"

definition call_safe :: "'x expr_lib \<Rightarrow> string \<Rightarrow> 'x expression list \<Rightarrow> bool" where
  "call_safe X name args' \<longleftrightarrow>
     (xl_uppercase X name = ''COALESCE'' \<longrightarrow>
        (case filter (\<lambda>arg. \<not> is_null_literal arg) args' of [arg] \<Rightarrow> yields_int arg \<or> yields_bool arg | _ \<Rightarrow> True))"

fun simplify_safe :: "'x expr_lib \<Rightarrow> 'x expression \<Rightarrow> bool" where
  "simplify_safe X (BinaryOp l op r) =
     (simplify_safe X l \<and> simplify_safe X r \<and> binary_safe l (simplify_algebraic X l) op r (simplify_algebraic X r))"
| "simplify_safe X (UnaryOp op e) = (simplify_safe X e \<and> unary_safe op (simplify_algebraic X e))"
| "simplify_safe X (FunctionCall name args) =
     (list_all (simplify_safe X) args \<and> call_safe X name (map (simplify_algebraic X) args))"
| "simplify_safe X (Case conds els) =
     (list_all (\<lambda>(cond, then_expr). simplify_safe X cond \<and> simplify_safe X then_expr) conds \<and>
      (case els of Some e \<Rightarrow> simplify_safe X e | None \<Rightarrow> True))"
| "simplify_safe X (Cast e ty) = simplify_safe X e"
| "simplify_safe X (Literal l) = True"
| "simplify_safe X (Variable name) = True"

definition string_row :: "'x ctx \<Rightarrow> bool" where
  "string_row c \<longleftrightarrow> (\<forall>x v. c x = Some v \<longrightarrow> (\<exists>s. v = VString s))"

lemma yields_int_value: "yields_int e \<Longrightarrow> eval_expr X fs c e = Inr v \<Longrightarrow> \<exists>i. v = VInteger i"
proof (induction e arbitrary: v rule: yields_int.induct)
  case (1 l)
  thus ?case
    by (cases l) auto
next
  case (2 l op r)
  then obtain a b where "eval_expr X fs c l = Inr (VInteger a)" "eval_expr X fs c r = Inr (VInteger b)"
    by (fastforce simp: try_bind_Inr_conv)
  thus ?case
    using "2.prems" by (auto simp: eval_binary_op_def is_null_def arith_def modulo_def split: if_splits)
next
  case (3 op e)
  then obtain i where "eval_expr X fs c e = Inr (VInteger i)"
    by (fastforce simp: try_bind_Inr_conv)
  thus ?case
    using "3.prems" by (auto simp: eval_unary_op_def)
qed (auto simp: try_bind_Inr_conv val_cast_def)

lemma yields_bool_value: "yields_bool e \<Longrightarrow> eval_expr X fs c e = Inr v \<Longrightarrow> \<exists>b. v = VBoolean b"
proof (induction e arbitrary: v rule: yields_bool.induct)
  case (1 l)
  thus ?case
    by (cases l) auto
next
  case (2 l op r)
  then obtain lv rv where lv: "eval_expr X fs c l = Inr lv" "eval_expr X fs c r = Inr rv"
      "eval_binary_op X lv op rv = Inr v"
    by (auto simp: try_bind_Inr_conv)
  show ?case
  proof (cases "op \<in> {OpEqual, OpNotEqual}")
    case True
    thus ?thesis
      using lv(3) by (auto simp: eval_binary_op_def split: prod.splits)
  next
    case False
    then obtain a b where "lv = VBoolean a" "rv = VBoolean b" "op \<in> {OpAnd, OpOr}"
      using 2 lv by fastforce
    thus ?thesis
      using lv(3) by (auto simp: eval_binary_op_def is_null_def)
  qed
next
  case (3 op e)
  thus ?case
    by (cases op) (auto simp: try_bind_Inr_conv eval_unary_op_def)
qed (auto simp: try_bind_Inr_conv val_cast_def)

lemma eval_binary_integers [simp]:
  "eval_binary_op X (VInteger a) OpAdd (VInteger b) = Inr (VInteger (a + b))"
  "eval_binary_op X (VInteger a) OpSubtract (VInteger b) = Inr (VInteger (a - b))"
  "eval_binary_op X (VInteger a) OpMultiply (VInteger b) = Inr (VInteger (a * b))"
  by (simp_all add: eval_binary_op_def is_null_def arith_def)

lemma eval_binary_booleans [simp]:
  "eval_binary_op X (VBoolean a) OpAnd (VBoolean b) = Inr (VBoolean (a \<and> b))"
  "eval_binary_op X (VBoolean a) OpOr (VBoolean b) = Inr (VBoolean (a \<or> b))"
  by (simp_all add: eval_binary_op_def is_null_def)

lemma eval_int_literal: "is_int_literal i e \<Longrightarrow> eval_expr X fs c e = Inr (VInteger i)"
  by (simp add: is_int_literal_iff)

lemma eval_bool_literal: "is_bool_literal b e \<Longrightarrow> eval_expr X fs c e = Inr (VBoolean b)"
  by (simp add: is_bool_literal_iff)

lemma eval_simplify_integers:
  assumes "op \<in> {OpAdd, OpSubtract, OpMultiply}"
    and "eval_expr X fs c l = Inr (VInteger a)" "eval_expr X fs c r = Inr (VInteger b)"
  shows "eval_expr X fs c (simplify_binary l op r) = eval_binary_op X (VInteger a) op (VInteger b)"
proof -
  have "is_int_literal i l \<Longrightarrow> a = i" "is_int_literal i r \<Longrightarrow> b = i" for i
    using assms eval_int_literal [of i l X fs c] eval_int_literal [of i r X fs c] by auto
  moreover have "op = OpAdd \<or> op = OpSubtract \<or> op = OpMultiply"
    using assms(1) by blast
  ultimately show ?thesis
    using assms(2,3) by (elim disjE) (auto simp: simplify_binary_def)
qed

lemma eval_simplify_arith:
  assumes "op \<in> {OpAdd, OpSubtract, OpMultiply}"
    and "eval_expr X fs c l = Inr lv" "eval_expr X fs c r = Inr rv" "eval_expr X fs c l' = Inr lv" "eval_expr X fs c r' = Inr rv"
    and "eval_binary_op X lv op rv = Inr v" "binary_safe l l' op r r'"
  shows "eval_expr X fs c (simplify_binary l' op r') = Inr v"
proof (cases "\<exists>i \<in> {0, 1}. is_int_literal i l' \<or> is_int_literal i r'")
  case True
  then obtain i where "i \<in> {0, 1}" "is_int_literal i l' \<or> is_int_literal i r'"
    by blast
  then obtain a b where ab: "lv = VInteger a" "rv = VInteger b"
  proof (elim conjE disjE)
    assume "i \<in> {0, 1}" "is_int_literal i l'"
    hence "yields_int r" "lv = VInteger i"
      using assms(1,4,7) eval_int_literal [of i l' X fs c] by (auto simp: binary_safe_def)
    thus thesis
      using yields_int_value [OF _ assms(3)] that by blast
  next
    assume "i \<in> {0, 1}" "is_int_literal i r'"
    hence "yields_int l" "rv = VInteger i"
      using assms(1,5,7) eval_int_literal [of i r' X fs c] by (auto simp: binary_safe_def)
    thus thesis
      using yields_int_value [OF _ assms(2)] that by blast
  qed
  show ?thesis
    using eval_simplify_integers [OF assms(1,4,5) [unfolded ab]] assms(6) unfolding ab by simp
next
  case False
  hence "simplify_binary l' op r' = BinaryOp l' op r'"
    using assms(1) by (cases op) (auto simp: simplify_binary_def)
  thus ?thesis
    using assms(4,5,6) by simp
qed

lemma eval_simplify_booleans:
  assumes "op \<in> {OpAnd, OpOr}"
    and "eval_expr X fs c l = Inr (VBoolean a)" "eval_expr X fs c r = Inr (VBoolean b)"
  shows "eval_expr X fs c (simplify_binary l op r) = eval_binary_op X (VBoolean a) op (VBoolean b)"
proof -
  have "is_bool_literal i l \<Longrightarrow> a = i" "is_bool_literal i r \<Longrightarrow> b = i" for i
    using assms eval_bool_literal [of i l X fs c] eval_bool_literal [of i r X fs c] by auto
  moreover have "op = OpAnd \<or> op = OpOr"
    using assms(1) by blast
  ultimately show ?thesis
    using assms(2,3) by (elim disjE) (auto simp: simplify_binary_def)
qed

lemma eval_simplify_logic:
  assumes "op \<in> {OpAnd, OpOr}"
    and "eval_expr X fs c l = Inr lv" "eval_expr X fs c r = Inr rv" "eval_expr X fs c l' = Inr lv" "eval_expr X fs c r' = Inr rv"
    and "eval_binary_op X lv op rv = Inr v" "binary_safe l l' op r r'"
  shows "eval_expr X fs c (simplify_binary l' op r') = Inr v"
proof (cases "\<exists>i. is_bool_literal i l' \<or> is_bool_literal i r'")
  case True
  then obtain i where "is_bool_literal i l' \<or> is_bool_literal i r'"
    by blast
  then obtain a b where ab: "lv = VBoolean a" "rv = VBoolean b"
  proof (elim disjE)
    assume "is_bool_literal i l'"
    hence "yields_bool r" "lv = VBoolean i"
      using assms(1,4,7) eval_bool_literal [of i l' X fs c] by (cases i; auto simp: binary_safe_def)+
    thus thesis
      using yields_bool_value [OF _ assms(3)] that by blast
  next
    assume "is_bool_literal i r'"
    hence "yields_bool l" "rv = VBoolean i"
      using assms(1,5,7) eval_bool_literal [of i r' X fs c] by (cases i; auto simp: binary_safe_def)+
    thus thesis
      using yields_bool_value [OF _ assms(2)] that by blast
  qed
  show ?thesis
    using eval_simplify_booleans [OF assms(1,4,5) [unfolded ab]] assms(6) unfolding ab by simp
next
  case False
  hence "simplify_binary l' op r' = BinaryOp l' op r'"
    using assms(1) by (cases op) (auto simp: simplify_binary_def)
  thus ?thesis
    using assms(4,5,6) by simp
qed

lemma eval_simplify_equal:
  assumes "string_row c" "eval_expr X fs c l' = Inr lv" "eval_expr X fs c r' = Inr rv"
    "eval_binary_op X lv OpEqual rv = Inr v"
  shows "eval_expr X fs c (simplify_binary l' OpEqual r') = Inr v"
proof (cases "same_variable l' r'")
  case True
  then obtain x where x: "l' = Variable x" "r' = Variable x"
    by (auto simp: same_variable_def split: expression.splits)
  then obtain s where "lv = VString s" "rv = VString s"
    using assms(1-3) by (force simp: string_row_def split: option.splits)
  thus ?thesis
    using assms(4) True by (simp add: simplify_binary_def eval_binary_op_def coerce_types_def)
next
  case False
  thus ?thesis
    using assms by (simp add: simplify_binary_def)
qed

lemma eval_simplify_binary:
  assumes "string_row c"
    and "eval_expr X fs c l = Inr lv" "eval_expr X fs c r = Inr rv" "eval_expr X fs c l' = Inr lv" "eval_expr X fs c r' = Inr rv"
    and "eval_binary_op X lv op rv = Inr v" "binary_safe l l' op r r'"
  shows "eval_expr X fs c (simplify_binary l' op r') = Inr v"
proof -
  consider "op \<in> {OpAdd, OpSubtract, OpMultiply}" | "op \<in> {OpAnd, OpOr}" | "op = OpEqual"
    | "simplify_binary l' op r' = BinaryOp l' op r'"
    using assms(7) by (cases op) (auto simp: simplify_binary_def binary_safe_def)
  thus ?thesis
  proof cases
    case 1
    thus ?thesis
      using eval_simplify_arith [OF _ assms(2-7)] by simp
  next
    case 2
    thus ?thesis
      using eval_simplify_logic [OF _ assms(2-7)] by simp
  next
    case 3
    thus ?thesis
      using assms eval_simplify_equal by simp
  next
    case 4
    thus ?thesis
      using assms by simp
  qed
qed

lemma eval_simplify_unary:
  assumes "eval_expr X fs c e' = Inr w" "eval_unary_op X op w = Inr v" "unary_safe op e'"
  shows "eval_expr X fs c (simplify_unary op e') = Inr v"
proof (cases "\<exists>inner. e' = UnaryOp op inner \<and> op \<in> {OpNot, OpNegate}")
  case True
  then obtain inner u where e': "e' = UnaryOp op inner" "op \<in> {OpNot, OpNegate}"
      "eval_expr X fs c inner = Inr u" "eval_unary_op X op u = Inr w"
    using assms(1) by (auto simp: try_bind_Inr_conv)
  have "op = OpNot \<Longrightarrow> \<exists>b. u = VBoolean b" "op = OpNegate \<Longrightarrow> \<exists>i. u = VInteger i"
    using assms(3) e' yields_bool_value yields_int_value by (auto simp: unary_safe_def)
  thus ?thesis
    using e' assms(2) by (auto simp: simplify_unary_def eval_unary_op_def)
next
  case False
  hence "simplify_unary op e' = UnaryOp op e'"
    by (auto simp: simplify_unary_def split: expression.split)
  thus ?thesis
    using assms by simp
qed

lemma is_null_literal_iff: "is_null_literal e \<longleftrightarrow> e = Literal LNull"
  by (auto simp: is_null_literal_def split: expression.split literal.split)

lemma eval_args_without_nulls:
  "eval_args X fs c args = Inr vs \<Longrightarrow>
     \<exists>vs'. eval_args X fs c (filter (\<lambda>arg. \<not> is_null_literal arg) args) = Inr vs' \<and>
       coalesce_execute vs' = coalesce_execute vs \<and> length vs' \<le> length vs"
proof (induction args arbitrary: vs)
  case (Cons arg args)
  then obtain v ws where "eval_expr X fs c arg = Inr v" "eval_args X fs c args = Inr ws" "vs = v # ws"
    by (auto simp: try_bind_Inr_conv)
  moreover obtain ws' where "eval_args X fs c (filter (\<lambda>arg. \<not> is_null_literal arg) args) = Inr ws'"
      "coalesce_execute ws' = coalesce_execute ws" "length ws' \<le> length ws"
    using Cons.IH calculation(2) by blast
  ultimately show ?case
    by (cases v) (auto simp: is_null_literal_iff)
qed simp

lemma eval_args_length: "eval_args X fs c args = Inr vs \<Longrightarrow> length vs = length args"
  by (induction args arbitrary: vs) (auto simp: try_bind_Inr_conv)

lemma eval_simplify_call:
  assumes "fs ''COALESCE'' = Some coalesce_function" "eval_args X fs c args' = Inr vs"
    and "registry_execute X fs name vs = Inr v" "call_safe X name args'"
  shows "eval_expr X fs c (simplify_call X name args') = Inr v"
proof (cases "xl_uppercase X name = ''COALESCE''")
  case True
  let ?rest = "filter (\<lambda>arg. \<not> is_null_literal arg) args'"
  obtain ws where ws: "eval_args X fs c ?rest = Inr ws" "coalesce_execute ws = coalesce_execute vs"
    using eval_args_without_nulls [OF assms(2)] by blast
  have v: "coalesce_execute ws = Inr v"
    using assms(1,3) True ws(2) by (simp add: registry_execute_def coalesce_function_def split: if_splits)
  consider "?rest = []" | arg where "?rest = [arg]" | a b rest where "?rest = a # b # rest"
    by (cases ?rest; cases "tl ?rest") auto
  thus ?thesis
  proof cases
    case 1
    thus ?thesis
      using True ws v by (simp add: simplify_call_def)
  next
    case (2 arg)
    then obtain w where w: "eval_expr X fs c arg = Inr w" "ws = [w]"
      using ws(1) by (auto simp: try_bind_Inr_conv)
    have "yields_int arg \<or> yields_bool arg"
      using assms(4) True 2 by (simp add: call_safe_def)
    hence "(\<exists>i. w = VInteger i) \<or> (\<exists>b. w = VBoolean b)"
      using w(1) yields_int_value yields_bool_value by blast
    thus ?thesis
      using True 2 w v by (auto simp: simplify_call_def)
  next
    case (3 a b rest)
    have "ws \<noteq> []"
      using eval_args_length [OF ws(1)] 3 by auto
    thus ?thesis
      using True 3 ws(1) v assms(1)
      by (cases ws) (simp_all add: simplify_call_def registry_execute_def coalesce_function_def)
  qed
next
  case False
  thus ?thesis
    using assms by (simp add: simplify_call_def)
qed

lemma eval_args_refine:
  "list_all2 (\<lambda>a a'. \<forall>v. eval_expr X fs c a = Inr v \<longrightarrow> eval_expr X fs c a' = Inr v) args args' \<Longrightarrow>
     eval_args X fs c args = Inr vs \<Longrightarrow> eval_args X fs c args' = Inr vs"
  by (induction arbitrary: vs rule: list_all2_induct) (auto simp: try_bind_Inr_conv)

lemma eval_case_refine:
  "list_all2 (\<lambda>p p'. (\<forall>v. eval_expr X fs c (fst p) = Inr v \<longrightarrow> eval_expr X fs c (fst p') = Inr v) \<and>
       (\<forall>v. eval_expr X fs c (snd p) = Inr v \<longrightarrow> eval_expr X fs c (snd p') = Inr v)) conds conds' \<Longrightarrow>
   rel_option (\<lambda>e e'. \<forall>v. eval_expr X fs c e = Inr v \<longrightarrow> eval_expr X fs c e' = Inr v) els els' \<Longrightarrow>
     eval_case X fs c conds els = Inr v \<Longrightarrow> eval_case X fs c conds' els' = Inr v"
proof (induction rule: list_all2_induct)
  case Nil
  thus ?case
    by (cases els; cases els') auto
next
  case (Cons p ps q qs)
  thus ?case
    by (cases p; cases q) (auto simp: try_bind_Inr_conv split: if_splits)
qed

lemma eval_simplify_algebraic:
  assumes "string_row c" "fs ''COALESCE'' = Some coalesce_function"
  shows "simplify_safe X e \<Longrightarrow> eval_expr X fs c e = Inr v \<Longrightarrow> eval_expr X fs c (simplify_algebraic X e) = Inr v"
proof (induction X e arbitrary: v rule: simplify_algebraic.induct)
  case (1 X l op r)
  then obtain lv rv where lv: "eval_expr X fs c l = Inr lv" "eval_expr X fs c r = Inr rv" "eval_binary_op X lv op rv = Inr v"
    by (auto simp: try_bind_Inr_conv)
  thus ?case
    using eval_simplify_binary [OF assms(1) lv(1,2) _ _ lv(3)] 1 by simp
next
  case (2 X op e)
  then obtain w where "eval_expr X fs c e = Inr w" "eval_unary_op X op w = Inr v"
    by (auto simp: try_bind_Inr_conv)
  thus ?case
    using eval_simplify_unary [of X fs c "simplify_algebraic X e" w op v] 2 by simp
next
  case (3 X name args)
  then obtain vs where vs: "eval_args X fs c args = Inr vs" "registry_execute X fs name vs = Inr v"
    by (auto simp: try_bind_Inr_conv)
  have "list_all2 (\<lambda>a a'. \<forall>v. eval_expr X fs c a = Inr v \<longrightarrow> eval_expr X fs c a' = Inr v) args (map (simplify_algebraic X) args)"
    unfolding list_all2_map2 using 3 by (intro list.rel_refl_strong) (auto simp: list_all_iff)
  thus ?case
    using eval_simplify_call [OF assms(2) eval_args_refine vs(2)] vs(1) "3.prems"(1) by simp
next
  case (4 X conds els)
  have conds: "list_all2 (\<lambda>p p'. (\<forall>v. eval_expr X fs c (fst p) = Inr v \<longrightarrow> eval_expr X fs c (fst p') = Inr v) \<and>
       (\<forall>v. eval_expr X fs c (snd p) = Inr v \<longrightarrow> eval_expr X fs c (snd p') = Inr v)) conds
       (map (\<lambda>(cond, then_expr). (simplify_algebraic X cond, simplify_algebraic X then_expr)) conds)"
    unfolding list_all2_map2 using "4.IH"(1,2) "4.prems"(1)
    by (intro list.rel_refl_strong) (fastforce simp: list_all_iff)
  have els: "rel_option (\<lambda>e e'. \<forall>v. eval_expr X fs c e = Inr v \<longrightarrow> eval_expr X fs c e' = Inr v) els
      (map_option (simplify_algebraic X) els)"
    using "4.IH"(3) "4.prems"(1) by (cases els) auto
  show ?case
    using eval_case_refine [OF conds els] "4.prems"(2) by simp
next
  case (5 X e ty)
  thus ?case
    by (auto simp: try_bind_Inr_conv)
qed auto

definition optimize_safe :: "expression_optimizer \<Rightarrow> 'x expr_lib \<Rightarrow> 'x expression \<Rightarrow> bool" where
  "optimize_safe opt X e \<longleftrightarrow>
     (enable_constant_folding opt \<longrightarrow> fold_safe X e) \<and>
     (enable_algebraic_simplification opt \<longrightarrow>
        (case (if enable_constant_folding opt then fold_constants X e else Some e) of
           Some e1 \<Rightarrow> simplify_safe X e1 | None \<Rightarrow> True))"

text \<open>
  The optimizer keeps results: on a row of strings, where the expression is safe for the passes that are enabled,
  every value that the expression as written evaluates to is also the value of the optimized expression.
\<close>

lemma optimize_keeps_results:
  assumes "optimize opt X e = Some e'" "optimize_safe opt X e"
    and "string_row c" "fs ''COALESCE'' = Some coalesce_function"
    and "eval_expr X fs c e = Inr v"
  shows "eval_expr X fs c e' = Inr v"
proof -
  obtain e1 where e1: "(if enable_constant_folding opt then fold_constants X e else Some e) = Some e1"
      "e' = (if enable_algebraic_simplification opt then simplify_algebraic X e1 else e1)"
    using assms(1) by (auto simp: optimize_def eliminate_common_subexpressions_def Let_def bind_eq_Some_conv)
  have "eval_expr X fs c e1 = Inr v"
    using e1(1) assms(2,5) eval_fold_constants [of X e e1 fs c] by (auto simp: optimize_safe_def split: if_splits)
  thus ?thesis
    using eval_simplify_algebraic [of c fs X e1 v] assms(2-4) e1 by (auto simp: optimize_safe_def)
qed

section \<open>Properties\<close>

text \<open>A library for examples: the numbers are integers, and names are in upper case already.\<close>

definition demo_expr_lib :: "int expr_lib" where
  "demo_expr_lib =
     \<lparr>xl_add = (+), xl_sub = (-), xl_mul = (*), xl_div = (div), xl_neg = uminus, xl_eq = (=), xl_lt = (<), xl_zero = 0,
      xl_of_int = sint, xl_to_int = of_int, xl_show = (\<lambda>i. show_i64 (of_int i)), xl_parse = parse_int,
      xl_dec_eq = (=), xl_dec_to_int = (\<lambda>i. Some (of_int i)), xl_dec_to_float = Some,
      xl_dec_show = (\<lambda>i. show_i64 (of_int i)), xl_dec_parse = parse_int, xl_dec_of_int = sint,
      xl_dec_of_float = Some, xl_dec_zero = 0, xl_date_show = (\<lambda>i. show_i64 (of_int i)), xl_date_parse = parse_int,
      xl_ts_show = (\<lambda>i. show_i64 (of_int i)), xl_ts_parse = parse_int, xl_ts_date = id,
      xl_lowercase = id, xl_uppercase = id, xl_trim = id\<rparr>"

definition demo_registry :: "int registry" where
  "demo_registry = registry_register demo_expr_lib ''COALESCE'' coalesce_function (\<lambda>_. None)"

text \<open>
  Constant folding keeps the meaning of an expression: where it does not panic, and the expression divides no
  integer literals and decides its \<^verbatim>\<open>CASE\<close> branches in order, the folded expression has the value, or the
  error, of the original one in every context and with every registry.
\<close>

lemma fold_constants_keeps_meaning:
  "fold_safe X e \<Longrightarrow> fold_constants X e = Some e' \<Longrightarrow> eval_expr X fs c e' = eval_expr X fs c e"
  by (rule eval_fold_constants)

lemma fold_constants_keeps_meaning_witness:
  "eval_expr demo_expr_lib demo_registry [''x'' \<mapsto> VString ''a''] (BinaryOp (Variable ''x'') OpConcat (Literal (LString ''bc''))) =
   eval_expr demo_expr_lib demo_registry [''x'' \<mapsto> VString ''a'']
     (Case [(BinaryOp (Literal (LInteger 4)) OpLessThan (Literal (LInteger 3)), Variable ''y''),
            (BinaryOp (Literal (LInteger 3)) OpLessThan (Literal (LInteger 4)),
             BinaryOp (Variable ''x'') OpConcat (BinaryOp (Literal (LString ''b'')) OpConcat (Literal (LString ''c''))))] None)"
  by (rule fold_constants_keeps_meaning)
    (simp_all add: decided_in_order_def fold_binary_def evaluate_binary_literals_def fold_integers_def
      is_bool_literal_def pair_option_def option_option_def fold_case_def)

text \<open>
  Outside that fragment the optimizer changes results. For every library: a variable plus zero becomes the
  variable, a string where the sum is a number; the quotient of two integer literals becomes an integer where the
  evaluator gives a float; a \<^verbatim>\<open>CASE\<close> whose second condition is literally true becomes its second branch,
  whatever the first condition is.
\<close>

lemma optimizer_changes_results:
  "optimize optimizer_new X (BinaryOp (Variable x) OpAdd (Literal (LInteger 0))) = Some (Variable x) \<and>
   eval_expr X fs [x \<mapsto> VString s] (Variable x) \<noteq>
     eval_expr X fs [x \<mapsto> VString s] (BinaryOp (Variable x) OpAdd (Literal (LInteger 0))) \<and>
   optimize optimizer_new X (BinaryOp (Literal (LInteger 7)) OpDivide (Literal (LInteger 2))) = Some (Literal (LInteger 3)) \<and>
   eval_expr X fs c (Literal (LInteger 3)) \<noteq>
     eval_expr X fs c (BinaryOp (Literal (LInteger 7)) OpDivide (Literal (LInteger 2))) \<and>
   optimize optimizer_new X (Case [(BinaryOp (Variable x) OpEqual (Literal (LString s)), Literal (LInteger 1)),
       (Literal (LBoolean True), Literal (LInteger 2))] None) = Some (Literal (LInteger 2)) \<and>
   eval_expr X fs [x \<mapsto> VString s] (Case [(BinaryOp (Variable x) OpEqual (Literal (LString s)), Literal (LInteger 1)),
       (Literal (LBoolean True), Literal (LInteger 2))] None) = Inr (VInteger 1)"
proof (intro conjI)
  show "optimize optimizer_new X (BinaryOp (Variable x) OpAdd (Literal (LInteger 0))) = Some (Variable x)"
    by (simp add: optimizer_new_def optimize_def fold_binary_def simplify_binary_def is_int_literal_def
        eliminate_common_subexpressions_def)
  show "eval_expr X fs [x \<mapsto> VString s] (Variable x) \<noteq>
     eval_expr X fs [x \<mapsto> VString s] (BinaryOp (Variable x) OpAdd (Literal (LInteger 0)))"
    by (simp add: eval_binary_op_def is_null_def arith_def as_float_def or_convert_def split: option.split)
  show "optimize optimizer_new X (BinaryOp (Literal (LInteger 7)) OpDivide (Literal (LInteger 2))) = Some (Literal (LInteger 3))"
    by (simp add: optimizer_new_def optimize_def fold_binary_def evaluate_binary_literals_def fold_integers_def
        overflows_def i64_div_def quot_def eliminate_common_subexpressions_def)
  show "eval_expr X fs c (Literal (LInteger 3)) \<noteq>
     eval_expr X fs c (BinaryOp (Literal (LInteger 7)) OpDivide (Literal (LInteger 2)))"
    by (simp add: eval_binary_op_def is_null_def as_float_def)
  show "optimize optimizer_new X (Case [(BinaryOp (Variable x) OpEqual (Literal (LString s)), Literal (LInteger 1)),
       (Literal (LBoolean True), Literal (LInteger 2))] None) = Some (Literal (LInteger 2))"
    by (simp add: optimizer_new_def optimize_def fold_binary_def pair_option_def option_option_def fold_case_def
        is_bool_literal_def eliminate_common_subexpressions_def)
  show "eval_expr X fs [x \<mapsto> VString s] (Case [(BinaryOp (Variable x) OpEqual (Literal (LString s)), Literal (LInteger 1)),
       (Literal (LBoolean True), Literal (LInteger 2))] None) = Inr (VInteger 1)"
    by (simp add: eval_binary_op_def coerce_types_def)
qed

end
