(* ===== verification/ExprEngine.thy ===== *)
theory ExprEngine
  imports ExprOpt
begin

text \<open>
  Model of the rest of \<^verbatim>\<open>arcxa-coordinator/src/mapping/loader/transformation\<close>: the type checker of
  \<^verbatim>\<open>types.rs\<close>, the plans and the executor of \<^verbatim>\<open>executor.rs\<close>, the plan cache of \<^verbatim>\<open>cache.rs\<close>
  and the engine of \<^verbatim>\<open>mod.rs\<close>. The least-recently-used map behind the cache is a library: its operations are
  the record \<open>plan_lru\<close> and what the cache relies on is \<open>plan_lru_law\<close>. The parser is the parameter \<open>parse\<close>
  and the derived debug form of an expression the parameter \<open>dbg\<close>.
\<close>

section \<open>The type checker\<close>

definition call_type :: "string \<Rightarrow> nat \<Rightarrow> eval_error + data_type" where
  "call_type name n =
     (if name \<in> {''UPPER'', ''LOWER'', ''TRIM'', ''LTRIM'', ''RTRIM''} then
        (if n \<noteq> 1 then Inl (ECheck name) else Inr TyString)
      else if name = ''CONCAT'' then (if n = 0 then Inl (ECheck name) else Inr TyString)
      else if name = ''LENGTH'' then (if n \<noteq> 1 then Inl (ECheck name) else Inr TyInteger)
      else if name = ''SUBSTRING'' then (if n < 2 \<or> n > 3 then Inl (ECheck name) else Inr TyString)
      else Inr TyUnknown)"

definition check_binary_op_types :: "bool \<Rightarrow> data_type \<Rightarrow> binary_op \<Rightarrow> data_type \<Rightarrow> eval_error + data_type" where
  "check_binary_op_types strict l op r =
     (if op \<in> {OpAdd, OpSubtract, OpMultiply, OpDivide, OpModulo} then
        (if strict then
           (if l = TyInteger \<and> r = TyInteger then Inr TyInteger
            else if l = TyFloat \<or> r = TyFloat then Inr TyFloat
            else if l = TyUnknown \<or> r = TyUnknown then Inr TyUnknown
            else Inl (ECheck ''arithmetic''))
         else Inr TyFloat)
      else if op = OpConcat then Inr TyString
      else if op \<in> {OpEqual, OpNotEqual, OpLessThan, OpLessThanOrEqual, OpGreaterThan, OpGreaterThanOrEqual} then Inr TyBoolean
      else if op \<in> {OpAnd, OpOr} then
        (if strict \<and> l \<noteq> TyBoolean \<and> l \<noteq> TyUnknown then Inl (ECheck ''logical'') else Inr TyBoolean)
      else (if strict \<and> l \<noteq> TyString \<and> l \<noteq> TyUnknown then Inl (ECheck ''LIKE'') else Inr TyBoolean))"

definition check_unary_op_type :: "bool \<Rightarrow> unary_op \<Rightarrow> data_type \<Rightarrow> eval_error + data_type" where
  "check_unary_op_type strict op t =
     (case op of
        OpNegate \<Rightarrow> if strict \<and> t \<notin> {TyInteger, TyFloat, TyUnknown} then Inl (ECheck ''negation'') else Inr t
      | OpNot \<Rightarrow> if strict \<and> t \<noteq> TyBoolean \<and> t \<noteq> TyUnknown then Inl (ECheck ''NOT'') else Inr TyBoolean
      | _ \<Rightarrow> Inr TyBoolean)"

fun literal_type :: "'x literal \<Rightarrow> data_type" where
  "literal_type (LString _) = TyString"
| "literal_type (LInteger _) = TyInteger"
| "literal_type (LFloat _) = TyFloat"
| "literal_type (LBoolean _) = TyBoolean"
| "literal_type LNull = TyUnknown"

function (sequential) check :: "bool \<Rightarrow> 'x expr_lib \<Rightarrow> 'x expression \<Rightarrow> eval_error + data_type"
  and check_first :: "bool \<Rightarrow> 'x expr_lib \<Rightarrow> 'x expression list \<Rightarrow> eval_error + data_type"
  and check_conds :: "bool \<Rightarrow> 'x expr_lib \<Rightarrow> ('x expression \<times> 'x expression) list \<Rightarrow> eval_error + unit" where
  "check strict X (Literal l) = Inr (literal_type l)"
| "check strict X (Variable name) = Inr TyUnknown"
| "check strict X (FunctionCall name args) =
     (if xl_uppercase X name = ''COALESCE'' then
        (if args = [] then Inl (ECheck ''COALESCE'') else check_first strict X args)
      else call_type (xl_uppercase X name) (length args))"
| "check strict X (BinaryOp l op r) =
     try_bind (check strict X l) (\<lambda>lt. try_bind (check strict X r) (\<lambda>rt. check_binary_op_types strict lt op rt))"
| "check strict X (UnaryOp op e) = try_bind (check strict X e) (\<lambda>t. check_unary_op_type strict op t)"
| "check strict X (Cast e ty) = Inr ty"
| "check strict X (Case conds els) =
     try_bind (check_conds strict X conds) (\<lambda>_.
       case conds of
         (_, then_expr) # _ \<Rightarrow> check strict X then_expr
       | [] \<Rightarrow> (case els of Some e \<Rightarrow> check strict X e | None \<Rightarrow> Inr TyUnknown))"
| "check_first strict X [] = Inr TyUnknown"
| "check_first strict X (arg # args) =
     try_bind (check strict X arg) (\<lambda>t. if t \<noteq> TyUnknown then Inr t else check_first strict X args)"
| "check_conds strict X [] = Inr ()"
| "check_conds strict X ((cond, _) # conds) =
     try_bind (check strict X cond) (\<lambda>t.
       if strict \<and> t \<noteq> TyBoolean \<and> t \<noteq> TyUnknown then Inl (ECheck ''CASE'') else check_conds strict X conds)"
  by pat_completeness auto

termination
  by (relation "measure (case_sum (\<lambda>(_, _, e). size e) (case_sum (\<lambda>(_, _, es). args_size es)
        (\<lambda>(_, _, conds). size_list (size_prod size size) conds)))") (auto simp: args_size_def)

section \<open>Execution plans\<close>

record 'x execution_plan =
  plan_root :: "'x expression"
  plan_constants :: "string \<Rightarrow> 'x val option"
  plan_required_fields :: "string list"
  plan_is_parallel_safe :: bool

fun extract_required_fields :: "'x expression \<Rightarrow> string list \<Rightarrow> string list" where
  "extract_required_fields (Variable name) acc = (if name \<in> set acc then acc else acc @ [name])"
| "extract_required_fields (FunctionCall name args) acc = fold extract_required_fields args acc"
| "extract_required_fields (BinaryOp l op r) acc = extract_required_fields r (extract_required_fields l acc)"
| "extract_required_fields (UnaryOp op e) acc = extract_required_fields e acc"
| "extract_required_fields (Case conds els) acc =
     (let acc1 = fold (\<lambda>(cond, then_expr) acc2. extract_required_fields then_expr (extract_required_fields cond acc2)) conds acc in
      case els of Some e \<Rightarrow> extract_required_fields e acc1 | None \<Rightarrow> acc1)"
| "extract_required_fields (Cast e ty) acc = extract_required_fields e acc"
| "extract_required_fields (Literal l) acc = acc"

type_synonym 'x constants = "string \<Rightarrow> 'x val option"

text \<open>The constants of an expression; an evaluation that panics ends the compilation.\<close>

definition precompute_here ::
  "('x expression \<Rightarrow> string) \<Rightarrow> 'x expr_lib \<Rightarrow> 'x registry \<Rightarrow> 'x expression \<Rightarrow> 'x constants \<Rightarrow> 'x constants option" where
  "precompute_here dbg X fs e consts =
     (if is_constant e \<and> \<not> has_variables e then
        (case eval_expr X fs (\<lambda>_. None) e of
           Inr v \<Rightarrow> Some (consts(dbg e \<mapsto> v))
         | Inl EPanic \<Rightarrow> None
         | Inl _ \<Rightarrow> Some consts)
      else Some consts)"

fun precompute_constants ::
  "('x expression \<Rightarrow> string) \<Rightarrow> 'x expr_lib \<Rightarrow> 'x registry \<Rightarrow> 'x expression \<Rightarrow> 'x constants option \<Rightarrow> 'x constants option" where
  "precompute_constants dbg X fs (FunctionCall name args) acc =
     fold (precompute_constants dbg X fs) args (Option.bind acc (precompute_here dbg X fs (FunctionCall name args)))"
| "precompute_constants dbg X fs (BinaryOp l op r) acc =
     precompute_constants dbg X fs r (precompute_constants dbg X fs l (Option.bind acc (precompute_here dbg X fs (BinaryOp l op r))))"
| "precompute_constants dbg X fs (UnaryOp op e) acc =
     precompute_constants dbg X fs e (Option.bind acc (precompute_here dbg X fs (UnaryOp op e)))"
| "precompute_constants dbg X fs (Case conds els) acc =
     (let acc1 = fold (\<lambda>(cond, then_expr) acc'. precompute_constants dbg X fs then_expr (precompute_constants dbg X fs cond acc')) conds
                   (Option.bind acc (precompute_here dbg X fs (Case conds els))) in
      case els of Some e \<Rightarrow> precompute_constants dbg X fs e acc1 | None \<Rightarrow> acc1)"
| "precompute_constants dbg X fs (Cast e ty) acc =
     precompute_constants dbg X fs e (Option.bind acc (precompute_here dbg X fs (Cast e ty)))"
| "precompute_constants dbg X fs (Literal l) acc = Option.bind acc (precompute_here dbg X fs (Literal l))"
| "precompute_constants dbg X fs (Variable name) acc = Option.bind acc (precompute_here dbg X fs (Variable name))"

definition from_ast ::
  "('x expression \<Rightarrow> string) \<Rightarrow> 'x expr_lib \<Rightarrow> 'x registry \<Rightarrow> 'x expression \<Rightarrow> 'x execution_plan option" where
  "from_ast dbg X fs e =
     map_option (\<lambda>consts. \<lparr>plan_root = e, plan_constants = consts, plan_required_fields = extract_required_fields e [],
         plan_is_parallel_safe = True\<rparr>)
       (precompute_constants dbg X fs e (Some (\<lambda>_. None)))"

section \<open>Execution\<close>

type_synonym row = "string \<Rightarrow> string option"

definition row_context :: "row \<Rightarrow> 'x ctx" where
  "row_context row = (\<lambda>name. map_option VString (row name))"

definition execute_single :: "'x expr_lib \<Rightarrow> 'x registry \<Rightarrow> 'x execution_plan \<Rightarrow> row \<Rightarrow> eval_error + 'x val" where
  "execute_single X fs plan row = eval_expr X fs (row_context row) (plan_root plan)"

text \<open>
  A large batch is evaluated in parallel on a worker, which keeps the order of the rows; a panic of the worker is the
  error of joining it. A panic in a small batch is the caller's.
\<close>

definition execute_batch ::
  "'x expr_lib \<Rightarrow> 'x registry \<Rightarrow> 'x execution_plan \<Rightarrow> row list \<Rightarrow> eval_error + (eval_error + 'x val) list" where
  "execute_batch X fs plan batch =
     (if plan_is_parallel_safe plan \<and> length batch > 100 then
        (let results = map (\<lambda>row. eval_expr X fs (row_context row) (plan_root plan)) batch in
         if list_ex (\<lambda>r. r = Inl EPanic) results then Inl EJoin else Inr results)
      else
        (let results = map (execute_single X fs plan) batch in
         if list_ex (\<lambda>r. r = Inl EPanic) results then Inl EPanic else Inr results))"

section \<open>The plan cache and the engine\<close>

record ('c, 'p) plan_lru =
  pl_new :: "nat \<Rightarrow> 'c"
  pl_get :: "'c \<Rightarrow> string \<Rightarrow> 'p option \<times> 'c"
  pl_put :: "'c \<Rightarrow> string \<Rightarrow> 'p \<Rightarrow> 'c"
  pl_clear :: "'c \<Rightarrow> 'c"

definition cache_new :: "('c, 'p) plan_lru \<Rightarrow> nat \<Rightarrow> 'c" where
  "cache_new L capacity = pl_new L (if capacity = 0 then 100 else capacity)"

definition cache_get :: "('c, 'p) plan_lru \<Rightarrow> string \<Rightarrow> 'c \<Rightarrow> 'p option \<times> 'c" where
  "cache_get L expression c = pl_get L c expression"

definition cache_insert :: "('c, 'p) plan_lru \<Rightarrow> string \<Rightarrow> 'p \<Rightarrow> 'c \<Rightarrow> 'c" where
  "cache_insert L expression plan c = pl_put L c expression plan"

definition cache_clear :: "('c, 'p) plan_lru \<Rightarrow> 'c \<Rightarrow> 'c" where
  "cache_clear L c = pl_clear L c"

record 'x engine =
  en_parse :: "string \<Rightarrow> eval_error + 'x expression"
  en_dbg :: "'x expression \<Rightarrow> string"
  en_lib :: "'x expr_lib"
  en_strict :: bool
  en_optimizer :: expression_optimizer
  en_functions :: "'x registry"

text \<open>What compiling an expression does when it is not in the cache.\<close>

definition compile_fresh :: "'x engine \<Rightarrow> string \<Rightarrow> eval_error + 'x execution_plan" where
  "compile_fresh E expression =
     try_bind (en_parse E expression) (\<lambda>ast.
     try_bind (check (en_strict E) (en_lib E) ast) (\<lambda>_.
     (case optimize (en_optimizer E) (en_lib E) ast of
        None \<Rightarrow> Inl EPanic
      | Some optimized \<Rightarrow>
          (case from_ast (en_dbg E) (en_lib E) (en_functions E) optimized of None \<Rightarrow> Inl EPanic | Some plan \<Rightarrow> Inr plan))))"

definition compile ::
  "('c, 'x execution_plan) plan_lru \<Rightarrow> 'x engine \<Rightarrow> string \<Rightarrow> 'c \<Rightarrow> (eval_error + 'x execution_plan) \<times> 'c" where
  "compile L E expression c =
     (case cache_get L expression c of
        (Some plan, c1) \<Rightarrow> (Inr plan, c1)
      | (None, c1) \<Rightarrow>
          (case compile_fresh E expression of
             Inl e \<Rightarrow> (Inl e, c1)
           | Inr plan \<Rightarrow> (Inr plan, cache_insert L expression plan c1)))"

definition engine_execute ::
  "('c, 'x execution_plan) plan_lru \<Rightarrow> 'x engine \<Rightarrow> string \<Rightarrow> row \<Rightarrow> 'c \<Rightarrow> (eval_error + 'x val) \<times> 'c" where
  "engine_execute L E expression row c =
     (case compile L E expression c of
        (Inl e, c1) \<Rightarrow> (Inl e, c1)
      | (Inr plan, c1) \<Rightarrow> (execute_single (en_lib E) (en_functions E) plan row, c1))"

definition engine_execute_batch ::
  "('c, 'x execution_plan) plan_lru \<Rightarrow> 'x engine \<Rightarrow> string \<Rightarrow> row list \<Rightarrow> 'c \<Rightarrow>
     (eval_error + (eval_error + 'x val) list) \<times> 'c" where
  "engine_execute_batch L E expression batch c =
     (case compile L E expression c of
        (Inl e, c1) \<Rightarrow> (Inl e, c1)
      | (Inr plan, c1) \<Rightarrow> (execute_batch (en_lib E) (en_functions E) plan batch, c1))"

section \<open>Soundness of strict checking\<close>

fun has_type :: "data_type \<Rightarrow> 'x val \<Rightarrow> bool" where
  "has_type TyString v = (case v of VString _ \<Rightarrow> True | VNull \<Rightarrow> True | _ \<Rightarrow> False)"
| "has_type TyInteger v = (case v of VInteger _ \<Rightarrow> True | VNull \<Rightarrow> True | _ \<Rightarrow> False)"
| "has_type TyFloat v = (case v of VFloat _ \<Rightarrow> True | VNull \<Rightarrow> True | _ \<Rightarrow> False)"
| "has_type TyBoolean v = (case v of VBoolean _ \<Rightarrow> True | VNull \<Rightarrow> True | _ \<Rightarrow> False)"
| "has_type TyDate v = (case v of VDate _ \<Rightarrow> True | VNull \<Rightarrow> True | _ \<Rightarrow> False)"
| "has_type TyTimestamp v = (case v of VTimestamp _ \<Rightarrow> True | VNull \<Rightarrow> True | _ \<Rightarrow> False)"
| "has_type (TyDecimal _ _) v = (case v of VDecimal _ \<Rightarrow> True | VNull \<Rightarrow> True | _ \<Rightarrow> False)"
| "has_type TyUnknown v = True"

text \<open>
  The expressions that the checker judges by all that they evaluate: no quotient of two integers, a \<^verbatim>\<open>CASE\<close>
  whose branches have one type (the checker looks at the first only), and calls of unknown type.
\<close>

fun judged :: "'x expr_lib \<Rightarrow> 'x expression \<Rightarrow> bool" where
  "judged X (BinaryOp l op r) =
     (judged X l \<and> judged X r \<and>
      \<not> (op = OpDivide \<and> check True X l = Inr TyInteger \<and> check True X r = Inr TyInteger))"
| "judged X (UnaryOp op e) = judged X e"
| "judged X (FunctionCall name args) = (check True X (FunctionCall name args) = Inr TyUnknown)"
| "judged X (Case conds els) =
     (list_all (\<lambda>(_, t). judged X t \<and> check True X t = check True X (snd (hd conds))) conds \<and>
      (case els of Some e \<Rightarrow> judged X e \<and> (conds \<noteq> [] \<longrightarrow> check True X e = check True X (snd (hd conds))) | None \<Rightarrow> True))"
| "judged X (Cast e ty) = True"
| "judged X (Literal l) = True"
| "judged X (Variable name) = True"

lemma has_type_VNull [simp]: "has_type t VNull"
  by (cases t) auto

lemma has_type_simps:
  "has_type TyInteger v \<longleftrightarrow> (\<exists>i. v = VInteger i) \<or> v = VNull"
  "has_type TyFloat v \<longleftrightarrow> (\<exists>f. v = VFloat f) \<or> v = VNull"
  by (cases v; simp)+

lemma compare_op_type: "compare_op X P l r = Inr v \<Longrightarrow> has_type TyBoolean v"
  by (auto simp: compare_op_def try_bind_Inr_conv split: prod.splits)

lemma arith_type: "arith X f g l r = Inr v \<Longrightarrow> (\<exists>a b. l = VInteger a \<and> r = VInteger b \<and> v = VInteger (f a b)) \<or> (\<exists>x. v = VFloat x)"
  unfolding arith_def
  by (cases "\<exists>a b. l = VInteger a \<and> r = VInteger b") (auto simp: try_bind_Inr_conv split: val.splits)

lemma modulo_type: "modulo l r = Inr v \<Longrightarrow> \<exists>a b i. l = VInteger a \<and> r = VInteger b \<and> v = VInteger i"
  by (auto simp: modulo_def split: val.splits if_splits)

lemma arithmetic_op_type:
  assumes "op \<in> {OpAdd, OpSubtract, OpMultiply, OpDivide, OpModulo}" "eval_binary_op X l op r = Inr v"
  shows "v = VNull \<or> (\<exists>x. v = VFloat x) \<or> (\<exists>a b i. op \<noteq> OpDivide \<and> l = VInteger a \<and> r = VInteger b \<and> v = VInteger i)"
proof (cases "is_null l \<or> is_null r")
  case True
  thus ?thesis
    using assms by (auto simp: eval_binary_op_def)
next
  case False
  hence "arith X (+) (xl_add X) l r = Inr v \<and> op = OpAdd \<or> arith X (-) (xl_sub X) l r = Inr v \<and> op = OpSubtract \<or>
      arith X (*) (xl_mul X) l r = Inr v \<and> op = OpMultiply \<or> (\<exists>x. v = VFloat x) \<or> modulo l r = Inr v \<and> op = OpModulo"
    using assms by (auto simp: eval_binary_op_def try_bind_Inr_conv split: if_splits)
  thus ?thesis
    using arith_type [of X _ _ l r v] modulo_type [of l r v] by (elim disjE conjE) blast+
qed

lemma other_op_type:
  assumes "op \<notin> {OpAdd, OpSubtract, OpMultiply, OpDivide, OpModulo}" "eval_binary_op X l op r = Inr v"
  shows "has_type (if op = OpConcat then TyString else TyBoolean) v"
  using assms compare_op_type [of X _ l r v]
  by (cases op) (auto simp: eval_binary_op_def split: if_splits prod.splits)

lemma binary_op_type:
  assumes "check_binary_op_types True lt op rt = Inr t" "has_type lt l" "has_type rt r"
    and "eval_binary_op X l op r = Inr v" "\<not> (op = OpDivide \<and> lt = TyInteger \<and> rt = TyInteger)"
  shows "has_type t v"
proof (cases "op \<in> {OpAdd, OpSubtract, OpMultiply, OpDivide, OpModulo}")
  case True
  have t: "lt = TyInteger \<and> rt = TyInteger \<and> t = TyInteger \<or> (lt = TyFloat \<or> rt = TyFloat) \<and> t = TyFloat \<or> t = TyUnknown"
    using assms(1) True by (auto simp: check_binary_op_types_def split: if_splits)
  show ?thesis
    using arithmetic_op_type [OF True assms(4)]
  proof (elim disjE exE conjE)
    fix x assume v: "v = VFloat x"
    have "t \<noteq> TyInteger"
    proof
      assume "t = TyInteger"
      hence "lt = TyInteger" "rt = TyInteger"
        using t by auto
      hence "is_null l \<or> is_null r \<or> (\<exists>a b. l = VInteger a \<and> r = VInteger b)" "op \<noteq> OpDivide"
        using assms(2,3,5) by (auto simp: is_null_def split: val.splits)
      thus False
        using True assms(4) v
        by (elim insertE; auto simp: eval_binary_op_def arith_def is_null_def modulo_def split: if_splits)
    qed
    thus ?thesis
      using t v by auto
  next
    fix a b i assume "l = VInteger a" "r = VInteger b" "v = VInteger i"
    thus ?thesis
      using t assms(2,3) by (auto simp: has_type_simps)
  qed simp
next
  case False
  have "t = (if op = OpConcat then TyString else TyBoolean)"
    using assms(1) False by (auto simp: check_binary_op_types_def split: if_splits)
  thus ?thesis
    using other_op_type [OF False assms(4)] by simp
qed

lemma unary_op_type:
  assumes "check_unary_op_type True op s = Inr t" "has_type s w" "eval_unary_op X op w = Inr v"
  shows "has_type t v"
  using assms
  by (cases op) (auto simp: check_unary_op_type_def eval_unary_op_def has_type_simps split: if_splits val.splits)

lemma val_cast_type: "val_cast X ty w = Inr v \<Longrightarrow> has_type ty v"
  by (cases ty) (auto simp: val_cast_def try_bind_Inr_conv cast_decimal_def cast_timestamp_def split: val.splits)

lemma eval_case_branch:
  "eval_case X fs c conds els = Inr v \<Longrightarrow>
     (\<exists>p \<in> set conds. eval_expr X fs c (snd p) = Inr v) \<or> (\<exists>e. els = Some e \<and> eval_expr X fs c e = Inr v) \<or>
     els = None \<and> v = VNull"
  by (induction conds) (auto simp: try_bind_Inr_conv split: option.splits if_splits)

lemma strict_check_type:
  "judged X e \<Longrightarrow> check True X e = Inr t \<Longrightarrow> eval_expr X fs c e = Inr v \<Longrightarrow> has_type t v"
proof (induction X e arbitrary: t v rule: judged.induct)
  case (1 X l op r)
  then obtain lt rt lv rv where sub: "check True X l = Inr lt" "check True X r = Inr rt" "check_binary_op_types True lt op rt = Inr t"
      "eval_expr X fs c l = Inr lv" "eval_expr X fs c r = Inr rv" "eval_binary_op X lv op rv = Inr v"
    by (auto simp: try_bind_Inr_conv)
  show ?case
    using sub(1,2) 1 by (intro binary_op_type [OF sub(3) _ _ sub(6)]) (auto simp: sub)
next
  case (2 X op e)
  then obtain s w where sub: "check True X e = Inr s" "check_unary_op_type True op s = Inr t"
      "eval_expr X fs c e = Inr w" "eval_unary_op X op w = Inr v"
    by (auto simp: try_bind_Inr_conv)
  thus ?case
    using 2 by (intro unary_op_type [OF sub(2) _ sub(4)]) auto
next
  case (4 X conds els)
  have types: "(\<exists>p \<in> set conds. check True X (snd p) = Inr t \<and> eval_expr X fs c (snd p) = Inr v) \<or>
      (\<exists>e. els = Some e \<and> check True X e = Inr t \<and> eval_expr X fs c e = Inr v) \<or> v = VNull"
  proof (cases conds)
    case Nil
    thus ?thesis
      using "4.prems" by (auto split: option.splits)
  next
    case (Cons p ps)
    hence "check True X (snd p) = Inr t"
      using "4.prems"(2) by (auto simp: try_bind_Inr_conv split: prod.splits)
    thus ?thesis
      using eval_case_branch [of X fs c conds els v] "4.prems" Cons
      by (fastforce simp: list_all_iff)
  qed
  thus ?case
    using "4.IH" "4.prems"(1) by (elim disjE bexE exE conjE) (force simp: list_all_iff)+
next
  case (6 X l)
  thus ?case
    by (cases l) auto
qed (auto simp: try_bind_Inr_conv val_cast_type)

section \<open>The fields a plan needs\<close>

fun variables :: "'x expression \<Rightarrow> string set" where
  "variables (Variable name) = {name}"
| "variables (FunctionCall name args) = (\<Union>e \<in> set args. variables e)"
| "variables (BinaryOp l op r) = variables l \<union> variables r"
| "variables (UnaryOp op e) = variables e"
| "variables (Case conds els) =
     (\<Union>(cond, then_expr) \<in> set conds. variables cond \<union> variables then_expr) \<union> (\<Union>e \<in> set_option els. variables e)"
| "variables (Cast e ty) = variables e"
| "variables (Literal l) = {}"

lemma fold_extract_args:
  "(\<And>e acc. e \<in> set args \<Longrightarrow> set (extract_required_fields e acc) = set acc \<union> variables e) \<Longrightarrow>
     set (fold extract_required_fields args acc) = set acc \<union> (\<Union>e \<in> set args. variables e)"
  by (induction args arbitrary: acc) auto

lemma fold_extract_conds:
  "(\<And>p acc. p \<in> set conds \<Longrightarrow> set (extract_required_fields (fst p) acc) = set acc \<union> variables (fst p)) \<Longrightarrow>
   (\<And>p acc. p \<in> set conds \<Longrightarrow> set (extract_required_fields (snd p) acc) = set acc \<union> variables (snd p)) \<Longrightarrow>
     set (fold (\<lambda>(cond, then_expr) acc2. extract_required_fields then_expr (extract_required_fields cond acc2)) conds acc) =
       set acc \<union> (\<Union>(cond, then_expr) \<in> set conds. variables cond \<union> variables then_expr)"
proof (induction conds arbitrary: acc)
  case (Cons p conds)
  obtain a b where p: "p = (a, b)"
    by (cases p)
  show ?case
    using Cons.IH Cons.prems(1,2) [of p] Cons.prems by (simp add: p Un_assoc)
qed simp

lemma extract_required_fields_set: "set (extract_required_fields e acc) = set acc \<union> variables e"
proof (induction e arbitrary: acc)
  case (FunctionCall name args)
  thus ?case
    by (simp add: fold_extract_args)
next
  case (Case conds els)
  have "set (fold (\<lambda>(cond, then_expr) acc2. extract_required_fields then_expr (extract_required_fields cond acc2)) conds acc) =
       set acc \<union> (\<Union>(cond, then_expr) \<in> set conds. variables cond \<union> variables then_expr)"
    using Case(1,2) by (intro fold_extract_conds) (metis fsts.intros snds.intros surjective_pairing)+
  thus ?case
    using Case(3) by (cases els) (auto simp: Let_def)
qed auto

lemma eval_agree:
  "(\<forall>x \<in> variables e. c x = c' x) \<Longrightarrow> eval_expr X fs c e = eval_expr X fs c' e"
  "(\<forall>e \<in> set es. \<forall>x \<in> variables e. c x = c' x) \<Longrightarrow> eval_args X fs c es = eval_args X fs c' es"
  "(\<forall>(a, b) \<in> set conds. \<forall>x \<in> variables a \<union> variables b. c x = c' x) \<Longrightarrow>
     (\<forall>e \<in> set_option els. \<forall>x \<in> variables e. c x = c' x) \<Longrightarrow> eval_case X fs c conds els = eval_case X fs c' conds els"
proof (induction X fs c e and X fs c es and X fs c conds els rule: eval_expr_eval_args_eval_case.induct)
  case (11 X fs c cond then_expr conds els)
  hence "eval_expr X fs c cond = eval_expr X fs c' cond"
    by simp
  thus ?case
    using 11 by (cases "eval_expr X fs c' cond") auto
qed (auto split: option.splits)

section \<open>Requests to the engine\<close>

datatype engine_request = Compile string | Execute string row | ExecuteBatch string "row list"

datatype 'x response =
    RPlan "eval_error + 'x execution_plan"
  | RValue "eval_error + 'x val"
  | RBatch "eval_error + (eval_error + 'x val) list"

fun engine_step :: "('c, 'x execution_plan) plan_lru \<Rightarrow> 'x engine \<Rightarrow> engine_request \<Rightarrow> 'c \<Rightarrow> 'x response \<times> 'c" where
  "engine_step L E (Compile s) c = (case compile L E s c of (r, c1) \<Rightarrow> (RPlan r, c1))"
| "engine_step L E (Execute s row) c = (case engine_execute L E s row c of (r, c1) \<Rightarrow> (RValue r, c1))"
| "engine_step L E (ExecuteBatch s rows) c = (case engine_execute_batch L E s rows c of (r, c1) \<Rightarrow> (RBatch r, c1))"

fun engine_run :: "('c, 'x execution_plan) plan_lru \<Rightarrow> 'x engine \<Rightarrow> engine_request list \<Rightarrow> 'c \<Rightarrow> 'x response list" where
  "engine_run L E [] c = []"
| "engine_run L E (req # reqs) c = (case engine_step L E req c of (r, c1) \<Rightarrow> r # engine_run L E reqs c1)"

text \<open>The answer of an engine without a cache.\<close>

fun fresh_response :: "'x engine \<Rightarrow> engine_request \<Rightarrow> 'x response" where
  "fresh_response E (Compile s) = RPlan (compile_fresh E s)"
| "fresh_response E (Execute s row) =
     RValue (try_bind (compile_fresh E s) (\<lambda>plan. execute_single (en_lib E) (en_functions E) plan row))"
| "fresh_response E (ExecuteBatch s rows) =
     RBatch (try_bind (compile_fresh E s) (\<lambda>plan. execute_batch (en_lib E) (en_functions E) plan rows))"

text \<open>
  What the engine relies on of the least-recently-used map, with \<open>peek\<close> its look-up without effects: a new map is
  empty, a look-up changes no entry, and after an insertion there are only the new entry and earlier ones.
\<close>

definition plan_lru_law :: "('c, 'p) plan_lru \<Rightarrow> ('c \<Rightarrow> string \<Rightarrow> 'p option) \<Rightarrow> bool" where
  "plan_lru_law L peek \<longleftrightarrow>
     (\<forall>n k. peek (pl_new L n) k = None) \<and>
     (\<forall>c k. fst (pl_get L c k) = peek c k) \<and>
     (\<forall>c k j. peek (snd (pl_get L c k)) j = peek c j) \<and>
     (\<forall>c k p j q. peek (pl_put L c k p) j = Some q \<longrightarrow> j = k \<and> q = p \<or> peek c j = Some q)"

definition cache_ok :: "('c \<Rightarrow> string \<Rightarrow> 'x execution_plan option) \<Rightarrow> 'x engine \<Rightarrow> 'c \<Rightarrow> bool" where
  "cache_ok peek E c \<longleftrightarrow> (\<forall>s plan. peek c s = Some plan \<longrightarrow> compile_fresh E s = Inr plan)"

lemma cache_ok_new: "plan_lru_law L peek \<Longrightarrow> cache_ok peek E (cache_new L n)"
  by (auto simp: plan_lru_law_def cache_ok_def cache_new_def)

lemma compile_transparent:
  assumes "plan_lru_law L peek" "cache_ok peek E c"
  shows "fst (compile L E s c) = compile_fresh E s \<and> cache_ok peek E (snd (compile L E s c))"
proof -
  obtain r c1 where get: "pl_get L c s = (r, c1)"
    by (cases "pl_get L c s")
  have r: "r = peek c s" and c1: "peek c1 j = peek c j" for j
    using assms(1) get unfolding plan_lru_law_def by (metis fst_conv, metis snd_conv)
  have ok1: "cache_ok peek E c1"
    using assms(2) c1 by (simp add: cache_ok_def)
  have put: "cache_ok peek E (pl_put L c1 s plan)" if "compile_fresh E s = Inr plan" for plan
    using assms(1) ok1 that unfolding plan_lru_law_def cache_ok_def by metis
  show ?thesis
  proof (cases "peek c s")
    case None
    thus ?thesis
      using r ok1 put by (cases "compile_fresh E s") (simp_all add: compile_def cache_get_def cache_insert_def get)
  next
    case (Some plan)
    thus ?thesis
      using r ok1 assms(2) by (simp add: compile_def cache_get_def get cache_ok_def)
  qed
qed

lemma engine_step_transparent:
  assumes "plan_lru_law L peek" "cache_ok peek E c"
  shows "fst (engine_step L E req c) = fresh_response E req \<and> cache_ok peek E (snd (engine_step L E req c))"
proof -
  let ?s = "case req of Compile s \<Rightarrow> s | Execute s _ \<Rightarrow> s | ExecuteBatch s _ \<Rightarrow> s"
  obtain c1 where "compile L E ?s c = (compile_fresh E ?s, c1)" "cache_ok peek E c1"
    using compile_transparent [OF assms, of ?s] by (metis prod.collapse)
  thus ?thesis
    by (cases req; cases "compile_fresh E ?s") (simp_all add: engine_execute_def engine_execute_batch_def)
qed

lemma engine_run_transparent:
  "plan_lru_law L peek \<Longrightarrow> cache_ok peek E c \<Longrightarrow> engine_run L E reqs c = map (fresh_response E) reqs"
proof (induction reqs arbitrary: c)
  case (Cons req reqs)
  thus ?case
    using engine_step_transparent [OF Cons.prems, of req] by (auto split: prod.split)
qed simp

section \<open>Properties\<close>

text \<open>
  C19. Strict type checking is sound: where the checker accepts an expression of the judged fragment with a type,
  every value the expression evaluates to is of that type or null.
\<close>

theorem strict_check_sound:
  assumes "judged X e" "check True X e = Inr t" "eval_expr X fs c e = Inr v"
  shows "has_type t v"
  using assms by (rule strict_check_type)

theorem strict_check_sound_witness:
  "has_type TyInteger (VInteger 6 :: int val)"
proof (rule strict_check_sound [where X = demo_expr_lib and fs = demo_registry and c = "\<lambda>_. None" and
      e = "Case [(BinaryOp (Literal (LString ''ab'')) OpLike (Literal (LString ''b'')), Literal (LInteger 1)),
                 (Literal (LBoolean True), BinaryOp (Literal (LInteger 2)) OpMultiply (Literal (LInteger 3)))] None"])
qed (simp_all add: check_binary_op_types_def eval_binary_op_def is_null_def match_like_pattern_def percent_def arith_def)

text \<open>
  A plan reads only its required fields: two rows that agree on them give the same value or the same error.
\<close>

lemma required_fields_suffice:
  assumes "from_ast dbg X fs e = Some plan" "\<forall>field \<in> set (plan_required_fields plan). row field = row' field"
  shows "execute_single X fs plan row = execute_single X fs plan row'"
proof -
  have plan: "plan_root plan = e" "set (plan_required_fields plan) = variables e"
    using assms(1) by (auto simp: from_ast_def extract_required_fields_set)
  show ?thesis
    unfolding execute_single_def plan(1)
    using assms(2) plan(2) by (intro eval_agree(1)) (simp add: row_context_def)
qed

lemma required_fields_suffice_witness:
  "\<exists>plan. from_ast (\<lambda>_. []) demo_expr_lib demo_registry (UnaryOp OpNot (Variable ''x'')) = Some plan \<and>
     execute_single demo_expr_lib demo_registry plan [''x'' \<mapsto> ''1''] =
     execute_single demo_expr_lib demo_registry plan [''x'' \<mapsto> ''1'', ''y'' \<mapsto> ''2'']"
proof -
  obtain plan where plan: "from_ast (\<lambda>_. []) demo_expr_lib demo_registry (UnaryOp OpNot (Variable ''x'')) = Some plan"
      "plan_required_fields plan = [''x'']"
    by (simp add: from_ast_def precompute_here_def)
  show ?thesis
    using required_fields_suffice [OF plan(1), of "[''x'' \<mapsto> ''1'']" "[''x'' \<mapsto> ''1'', ''y'' \<mapsto> ''2'']"] plan by simp
qed

text \<open>
  The plan cache is invisible: every answer of the engine to a sequence of requests, from its creation, is the
  answer of an engine that compiles the expression anew each time, whatever the cache evicts.
\<close>

lemma engine_cache_invisible:
  assumes "plan_lru_law L peek"
  shows "engine_run L E reqs (cache_new L n) = map (fresh_response E) reqs"
  using engine_run_transparent [OF assms cache_ok_new [OF assms]] .

text \<open>A least-recently-used map for examples: a capacity and the entries, the last used one first.\<close>

definition demo_plan_lru :: "(nat \<times> (string \<times> 'p) list, 'p) plan_lru" where
  "demo_plan_lru =
     \<lparr>pl_new = (\<lambda>n. (n, [])),
      pl_get = (\<lambda>(n, es) k. (map_of es k, (n, case map_of es k of None \<Rightarrow> es | Some p \<Rightarrow> (k, p) # AList.delete k es))),
      pl_put = (\<lambda>(n, es) k p. (n, take n ((k, p) # AList.delete k es))),
      pl_clear = (\<lambda>(n, es). (n, []))\<rparr>"

definition demo_plan_peek :: "nat \<times> (string \<times> 'p) list \<Rightarrow> string \<Rightarrow> 'p option" where
  "demo_plan_peek c k = map_of (snd c) k"

lemma map_of_take: "map_of (take n es) k = Some p \<Longrightarrow> map_of es k = Some p"
  by (metis append_take_drop_id map_add_Some_iff map_of_append)

lemma demo_plan_lru_law: "plan_lru_law (demo_plan_lru :: (nat \<times> (string \<times> 'p) list, 'p) plan_lru) demo_plan_peek"
  unfolding plan_lru_law_def demo_plan_lru_def demo_plan_peek_def
  by (auto simp: hm_get_delete split: option.split if_splits dest!: map_of_take)

definition demo_engine :: "int engine" where
  "demo_engine =
     \<lparr>en_parse = (\<lambda>s. Inr (BinaryOp (Cast (Variable s) TyInteger) OpMultiply (Literal (LInteger 1)))), en_dbg = (\<lambda>_. []),
      en_lib = demo_expr_lib, en_strict = False, en_optimizer = optimizer_new, en_functions = demo_registry\<rparr>"

lemma engine_cache_invisible_witness:
  "engine_run demo_plan_lru demo_engine [Execute ''a'' [''a'' \<mapsto> ''7''], Compile ''b'', Execute ''a'' (\<lambda>_. None)] (cache_new demo_plan_lru 1) =
   map (fresh_response demo_engine) [Execute ''a'' [''a'' \<mapsto> ''7''], Compile ''b'', Execute ''a'' (\<lambda>_. None)]"
  using engine_cache_invisible [OF demo_plan_lru_law] .

text \<open>
  C18. What the engine answers is what the expression means: after any requests, when the expression parses to a safe
  syntax tree that compiles and evaluates on the row as written, the engine answers with that value.
\<close>

theorem engine_executes_as_written:
  assumes "plan_lru_law L peek" "en_parse E s = Inr ast" "compile_fresh E s = Inr plan"
    and "optimize_safe (en_optimizer E) (en_lib E) ast" "en_functions E ''COALESCE'' = Some coalesce_function"
    and "eval_expr (en_lib E) (en_functions E) (row_context row) ast = Inr v"
  shows "last (engine_run L E (reqs @ [Execute s row]) (cache_new L n)) = RValue (Inr v)"
proof -
  obtain e' where e': "optimize (en_optimizer E) (en_lib E) ast = Some e'" "plan_root plan = e'"
    using assms(2,3)
    by (auto simp: compile_fresh_def from_ast_def try_bind_Inr_conv split: option.splits)
  have "string_row (row_context row :: 'b ctx)"
    by (auto simp: string_row_def row_context_def)
  hence "eval_expr (en_lib E) (en_functions E) (row_context row) e' = Inr v"
    using optimize_keeps_results [OF e'(1) assms(4) _ assms(5,6)] by blast
  hence "execute_single (en_lib E) (en_functions E) plan row = Inr v"
    by (simp add: execute_single_def e'(2))
  thus ?thesis
    using engine_run_transparent [OF assms(1) cache_ok_new [OF assms(1)]] assms(3) by simp
qed

theorem engine_executes_as_written_witness:
  "last (engine_run demo_plan_lru demo_engine ([Compile ''b''] @ [Execute ''a'' [''a'' \<mapsto> ''7'']]) (cache_new demo_plan_lru 1)) =
     RValue (Inr (VInteger 7))"
proof (rule engine_executes_as_written [OF demo_plan_lru_law])
  show "en_parse demo_engine ''a'' = Inr (BinaryOp (Cast (Variable ''a'') TyInteger) OpMultiply (Literal (LInteger 1)))"
    by (simp add: demo_engine_def)
  show "compile_fresh demo_engine ''a'' =
      Inr \<lparr>plan_root = Cast (Variable ''a'') TyInteger, plan_constants = (\<lambda>_. None), plan_required_fields = [''a''],
        plan_is_parallel_safe = True\<rparr>"
    by (simp add: compile_fresh_def demo_engine_def check_binary_op_types_def optimize_def optimizer_new_def fold_binary_def
        simplify_binary_def is_int_literal_def eliminate_common_subexpressions_def from_ast_def precompute_here_def)
qed (simp_all add: demo_engine_def optimize_safe_def optimizer_new_def fold_binary_def folds_to_integer_def binary_safe_def
    demo_registry_def registry_register_def demo_expr_lib_def row_context_def val_cast_def as_integer_def or_convert_def
    parse_i64_def parse_int_def read_digits_def)

end
