(* ===== verification/RecordStore.thy ===== *)
theory RecordStore
  imports ExprEngine
begin

text \<open>
  What the workflow engine relies on in a store of records: the contract of the in-memory backends of
  \<^verbatim>\<open>arcxa-coordinator/src/workflows/storage/persistence\<close>. A record is saved under its key only when the key is
  free, and updated or deleted only when it is present. A record may carry a part that the store keeps elsewhere
  (an execution its logs), so the laws speak of a view of the record.
\<close>

datatype store_error = AlreadyExists string | NotFound string

locale record_store =
  fixes key :: "'v \<Rightarrow> string"
    and view :: "'v \<Rightarrow> 'w"
    and wf :: "'s \<Rightarrow> bool"
    and get :: "string \<Rightarrow> 's \<Rightarrow> 'v option"
    and save :: "'v \<Rightarrow> 's \<Rightarrow> store_error + 's"
    and update :: "'v \<Rightarrow> 's \<Rightarrow> store_error + 's"
    and delete :: "string \<Rightarrow> 's \<Rightarrow> store_error + 's"
  assumes get_key: "wf s \<Longrightarrow> get k s = Some v \<Longrightarrow> key v = k"
    and save_dup: "wf s \<Longrightarrow> get (key v) s \<noteq> None \<Longrightarrow> save v s = Inl (AlreadyExists (key v))"
    and save_new: "wf s \<Longrightarrow> get (key v) s = None \<Longrightarrow>
      \<exists>s'. save v s = Inr s' \<and> wf s' \<and> (\<forall>k. map_option view (get k s') = (if k = key v then Some (view v) else map_option view (get k s)))"
    and update_absent: "wf s \<Longrightarrow> get (key v) s = None \<Longrightarrow> update v s = Inl (NotFound (key v))"
    and update_present: "wf s \<Longrightarrow> get (key v) s \<noteq> None \<Longrightarrow>
      \<exists>s'. update v s = Inr s' \<and> wf s' \<and> (\<forall>k. map_option view (get k s') = (if k = key v then Some (view v) else map_option view (get k s)))"
    and delete_absent: "wf s \<Longrightarrow> get k s = None \<Longrightarrow> delete k s = Inl (NotFound k)"
    and delete_present: "wf s \<Longrightarrow> get k s \<noteq> None \<Longrightarrow>
      \<exists>s'. delete k s = Inr s' \<and> wf s' \<and> (\<forall>k'. map_option view (get k' s') = (if k' = k then None else map_option view (get k' s)))"
begin

definition contents :: "'s \<Rightarrow> string \<Rightarrow> 'w option" where
  "contents s k = map_option view (get k s)"

lemma contents_None: "contents s k = None \<longleftrightarrow> get k s = None"
  by (simp add: contents_def)

lemma save_contents: "wf s \<Longrightarrow> save v s = Inr s' \<Longrightarrow> wf s' \<and> contents s (key v) = None \<and> contents s' = (contents s)(key v \<mapsto> view v)"
  using save_dup [of s v] save_new [of s v] by (cases "get (key v) s") (auto simp: contents_def fun_eq_iff)

lemma update_contents:
  "wf s \<Longrightarrow> update v s = Inr s' \<Longrightarrow> wf s' \<and> contents s (key v) \<noteq> None \<and> contents s' = (contents s)(key v \<mapsto> view v)"
  using update_absent [of s v] update_present [of s v] by (cases "get (key v) s") (auto simp: contents_def fun_eq_iff)

lemma delete_contents: "wf s \<Longrightarrow> delete k s = Inr s' \<Longrightarrow> wf s' \<and> contents s k \<noteq> None \<and> contents s' = (contents s)(k := None)"
  using delete_absent [of s k] delete_present [of s k] by (cases "get k s") (auto simp: contents_def fun_eq_iff)

lemma save_total: "wf s \<Longrightarrow> is_ok (save v s) \<longleftrightarrow> contents s (key v) = None"
  using save_dup [of s v] save_new [of s v] by (cases "get (key v) s") (auto simp: contents_def)

lemma update_total: "wf s \<Longrightarrow> is_ok (update v s) \<longleftrightarrow> contents s (key v) \<noteq> None"
  using update_absent [of s v] update_present [of s v] by (cases "get (key v) s") (auto simp: contents_def)

lemma save_again: "wf s \<Longrightarrow> save v s = Inr s' \<Longrightarrow> key v' = key v \<Longrightarrow> save v' s' = Inl (AlreadyExists (key v))"
  using save_contents [of s v s'] save_dup [of s' v'] contents_None [of s' "key v"] by auto

text \<open>Fetch a record, change it, write it back: the convenience operations of the stores.\<close>

lemma modify_contents:
  assumes s: "wf s" "get k s = Some v" and f: "key (f v) = key v" "update (f v) s = Inr s'"
  shows "wf s' \<and> contents s' = (contents s)(k \<mapsto> view (f v))"
  using update_contents [OF s(1) f(2)] get_key [OF s] f(1) by simp

lemma modify_ok: "wf s \<Longrightarrow> get k s = Some v \<Longrightarrow> key (f v) = key v \<Longrightarrow> \<exists>s'. update (f v) s = Inr s'"
  using update_present [of s "f v"] get_key [of s k v] by auto

end

end
