(* ===== verification/WorkflowRouting.thy ===== *)
theory WorkflowRouting
  imports RecordStore
begin

text \<open>
  Model of workflow routing: the conditions, routes and workflows of
  \<^verbatim>\<open>arcxa-coordinator/src/workflows/domain\<close> (\<^verbatim>\<open>condition.rs\<close>, \<^verbatim>\<open>route.rs\<close>,
  \<^verbatim>\<open>workflow.rs\<close>), the evaluator of \<^verbatim>\<open>workflows/engine/evaluator.rs\<close> and the router of
  \<^verbatim>\<open>workflows/engine/router.rs\<close>. A JSON object is the list of its entries in the order of their keys.
  Numbers of JSON and floating point are the types \<open>'n\<close> and \<open>'x\<close> with the operations of \<open>json_lib\<close>,
  which also has the regular expression library. What an action does is not looked at here; its type is \<open>'a\<close>.
\<close>

section \<open>Data\<close>

datatype 'n json = JNull | JBool bool | JNum 'n | JStr string | JArr "'n json list" | JObj "(string \<times> 'n json) list"

record ('n, 'x) json_lib =
  jn_eq :: "'n \<Rightarrow> 'n \<Rightarrow> bool"
  jn_f64 :: "'n \<Rightarrow> 'x"
  jf_lt :: "'x \<Rightarrow> 'x \<Rightarrow> bool"
  jf_le :: "'x \<Rightarrow> 'x \<Rightarrow> bool"
  jf_parse :: "string \<Rightarrow> 'x option"
  rx_new :: "string \<Rightarrow> (string \<Rightarrow> bool) option"

fun json_eq :: "('n, 'x) json_lib \<Rightarrow> 'n json \<Rightarrow> 'n json \<Rightarrow> bool" where
  "json_eq L JNull v = (case v of JNull \<Rightarrow> True | _ \<Rightarrow> False)"
| "json_eq L (JBool a) v = (case v of JBool b \<Rightarrow> a = b | _ \<Rightarrow> False)"
| "json_eq L (JNum a) v = (case v of JNum b \<Rightarrow> jn_eq L a b | _ \<Rightarrow> False)"
| "json_eq L (JStr a) v = (case v of JStr b \<Rightarrow> a = b | _ \<Rightarrow> False)"
| "json_eq L (JArr as) v = (case v of JArr bs \<Rightarrow> list_all2 (json_eq L) as bs | _ \<Rightarrow> False)"
| "json_eq L (JObj as) v =
     (case v of JObj bs \<Rightarrow> list_all2 (\<lambda>a b. fst a = fst b \<and> json_eq L (snd a) (snd b)) as bs | _ \<Rightarrow> False)"

definition json_get :: "string \<Rightarrow> 'n json \<Rightarrow> 'n json option" where
  "json_get k v = (case v of JObj kvs \<Rightarrow> map_of kvs k | _ \<Rightarrow> None)"

datatype 'n condition =
    CEquals string "'n json"
  | CNotEquals string "'n json"
  | CGreaterThan string "'n json"
  | CLessThan string "'n json"
  | CGreaterThanOrEqual string "'n json"
  | CLessThanOrEqual string "'n json"
  | CContains string string
  | CMatches string string
  | CExists string
  | CIsNull string
  | CIn string "'n json list"
  | CAnd "'n condition list"
  | COr "'n condition list"
  | CNot "'n condition"
  | CAlways
  | CNever

datatype route_error =
    FieldNotFound string
  | NotAString string
  | NotNumeric
  | InvalidPattern string
  | EmptyField
  | EmptyConnective
  | EmptyRouteId
  | EmptyRouteName
  | NoActions
  | EmptyWorkflowId
  | EmptyWorkflowName
  | NoRoutes
  | DefaultNotFound string
  | DuplicateRoute string
  | Disabled string

record ('n, 'a) route =
  rt_id :: string
  rt_name :: string
  rt_condition :: "'n condition"
  rt_actions :: "'a list"
  rt_priority :: int
  rt_enabled :: bool

record ('n, 'a) workflow =
  wf_id :: string
  wf_name :: string
  wf_routes :: "('n, 'a) route list"
  wf_default_route :: "string option"
  wf_version :: u32
  wf_updated_at :: nat
  wf_enabled :: bool

section \<open>Conditions\<close>

fun split_dots :: "string \<Rightarrow> string list" where
  "split_dots [] = [[]]"
| "split_dots (c # cs) = (if c = CHR ''.'' then [] # split_dots cs else (c # hd (split_dots cs)) # tl (split_dots cs))"

fun extract_path :: "'n json \<Rightarrow> string list \<Rightarrow> 'n json option" where
  "extract_path current [] = Some current"
| "extract_path current (part # parts) = Option.bind (json_get part current) (\<lambda>v. extract_path v parts)"

definition extract_field :: "'n json \<Rightarrow> string \<Rightarrow> 'n json option" where
  "extract_field data field = extract_path data (split_dots field)"

definition required_field :: "'n json \<Rightarrow> string \<Rightarrow> route_error + 'n json" where
  "required_field data field = (case extract_field data field of None \<Rightarrow> Inl (FieldNotFound field) | Some v \<Rightarrow> Inr v)"

definition as_f64 :: "('n, 'x) json_lib \<Rightarrow> 'n json \<Rightarrow> 'x option" where
  "as_f64 L v = (case v of JNum n \<Rightarrow> Some (jn_f64 L n) | _ \<Rightarrow> None)"

definition str_f64 :: "('n, 'x) json_lib \<Rightarrow> 'n json \<Rightarrow> 'x option" where
  "str_f64 L v = (case v of JStr s \<Rightarrow> jf_parse L s | _ \<Rightarrow> None)"

definition compare_numeric ::
  "('n, 'x) json_lib \<Rightarrow> ('x \<Rightarrow> 'x \<Rightarrow> bool) \<Rightarrow> 'n json \<Rightarrow> 'n json \<Rightarrow> route_error + bool" where
  "compare_numeric L cmp a b =
     (case (as_f64 L a, as_f64 L b) of
        (Some x, Some y) \<Rightarrow> Inr (cmp x y)
      | (Some x, None) \<Rightarrow> (case str_f64 L b of Some y \<Rightarrow> Inr (cmp x y) | None \<Rightarrow> Inl NotNumeric)
      | (None, Some y) \<Rightarrow> (case str_f64 L a of Some x \<Rightarrow> Inr (cmp x y) | None \<Rightarrow> Inl NotNumeric)
      | (None, None) \<Rightarrow> Inl NotNumeric)"

fun str_contains :: "string \<Rightarrow> string \<Rightarrow> bool" where
  "str_contains p [] = (p = [])"
| "str_contains p (c # cs) = (take (length p) (c # cs) = p \<or> str_contains p cs)"

text \<open>The conditions that look at one field.\<close>

fun evaluate_field :: "('n, 'x) json_lib \<Rightarrow> 'n condition \<Rightarrow> 'n json \<Rightarrow> route_error + bool" where
  "evaluate_field L (CEquals field value) data = try_bind (required_field data field) (\<lambda>v. Inr (json_eq L v value))"
| "evaluate_field L (CNotEquals field value) data = try_bind (required_field data field) (\<lambda>v. Inr (\<not> json_eq L v value))"
| "evaluate_field L (CGreaterThan field value) data =
     try_bind (required_field data field) (\<lambda>v. compare_numeric L (\<lambda>a b. jf_lt L b a) v value)"
| "evaluate_field L (CLessThan field value) data =
     try_bind (required_field data field) (\<lambda>v. compare_numeric L (\<lambda>a b. jf_lt L a b) v value)"
| "evaluate_field L (CGreaterThanOrEqual field value) data =
     try_bind (required_field data field) (\<lambda>v. compare_numeric L (\<lambda>a b. jf_le L b a) v value)"
| "evaluate_field L (CLessThanOrEqual field value) data =
     try_bind (required_field data field) (\<lambda>v. compare_numeric L (\<lambda>a b. jf_le L a b) v value)"
| "evaluate_field L (CContains field substring) data =
     try_bind (required_field data field) (\<lambda>v. case v of JStr s \<Rightarrow> Inr (str_contains substring s) | _ \<Rightarrow> Inl (NotAString field))"
| "evaluate_field L (CMatches field pattern) data =
     try_bind (required_field data field) (\<lambda>v.
       case v of
         JStr s \<Rightarrow> (case rx_new L pattern of None \<Rightarrow> Inl (InvalidPattern pattern) | Some matches \<Rightarrow> Inr (matches s))
       | _ \<Rightarrow> Inl (NotAString field))"
| "evaluate_field L (CExists field) data = Inr (extract_field data field \<noteq> None)"
| "evaluate_field L (CIsNull field) data =
     Inr (case extract_field data field of None \<Rightarrow> True | Some v \<Rightarrow> (case v of JNull \<Rightarrow> True | _ \<Rightarrow> False))"
| "evaluate_field L (CIn field values) data =
     try_bind (required_field data field) (\<lambda>v. Inr (list_ex (\<lambda>w. json_eq L w v) values))"
| "evaluate_field L CNever data = Inr False"
| "evaluate_field L _ data = Inr True"

function (sequential) evaluate :: "('n, 'x) json_lib \<Rightarrow> 'n condition \<Rightarrow> 'n json \<Rightarrow> route_error + bool"
  and evaluate_and :: "('n, 'x) json_lib \<Rightarrow> 'n condition list \<Rightarrow> 'n json \<Rightarrow> route_error + bool"
  and evaluate_or :: "('n, 'x) json_lib \<Rightarrow> 'n condition list \<Rightarrow> 'n json \<Rightarrow> route_error + bool" where
  "evaluate L (CAnd conditions) data = evaluate_and L conditions data"
| "evaluate L (COr conditions) data = evaluate_or L conditions data"
| "evaluate L (CNot condition) data = try_bind (evaluate L condition data) (\<lambda>b. Inr (\<not> b))"
| "evaluate L condition data = evaluate_field L condition data"
| "evaluate_and L [] data = Inr True"
| "evaluate_and L (cond # conds) data =
     try_bind (evaluate L cond data) (\<lambda>b. if b then evaluate_and L conds data else Inr False)"
| "evaluate_or L [] data = Inr False"
| "evaluate_or L (cond # conds) data =
     try_bind (evaluate L cond data) (\<lambda>b. if b then Inr True else evaluate_or L conds data)"
  by pat_completeness auto

termination
  by (relation "measure (case_sum (\<lambda>(_, c, _). size c) (case_sum (\<lambda>(_, cs, _). size_list size cs) (\<lambda>(_, cs, _). size_list size cs)))")
    auto

definition validate_field :: "string \<Rightarrow> route_error + unit" where
  "validate_field field = (if field = [] then Inl EmptyField else Inr ())"

function (sequential) condition_validate :: "('n, 'x) json_lib \<Rightarrow> 'n condition \<Rightarrow> route_error + unit"
  and validate_all :: "('n, 'x) json_lib \<Rightarrow> 'n condition list \<Rightarrow> route_error + unit" where
  "condition_validate L (CEquals field _) = validate_field field"
| "condition_validate L (CNotEquals field _) = validate_field field"
| "condition_validate L (CGreaterThan field _) = validate_field field"
| "condition_validate L (CLessThan field _) = validate_field field"
| "condition_validate L (CGreaterThanOrEqual field _) = validate_field field"
| "condition_validate L (CLessThanOrEqual field _) = validate_field field"
| "condition_validate L (CContains field _) = validate_field field"
| "condition_validate L (CExists field) = validate_field field"
| "condition_validate L (CIsNull field) = validate_field field"
| "condition_validate L (CIn field _) = validate_field field"
| "condition_validate L (CMatches field pattern) =
     try_bind (validate_field field) (\<lambda>_. if rx_new L pattern = None then Inl (InvalidPattern pattern) else Inr ())"
| "condition_validate L (CAnd conditions) = (if conditions = [] then Inl EmptyConnective else validate_all L conditions)"
| "condition_validate L (COr conditions) = (if conditions = [] then Inl EmptyConnective else validate_all L conditions)"
| "condition_validate L (CNot condition) = condition_validate L condition"
| "condition_validate L CAlways = Inr ()"
| "condition_validate L CNever = Inr ()"
| "validate_all L [] = Inr ()"
| "validate_all L (cond # conds) = try_bind (condition_validate L cond) (\<lambda>_. validate_all L conds)"
  by pat_completeness auto

termination
  by (relation "measure (case_sum (\<lambda>(_, c). size c) (\<lambda>(_, cs). size_list size cs))") auto

section \<open>Routes and workflows\<close>

definition route_with_priority :: "string \<Rightarrow> string \<Rightarrow> 'n condition \<Rightarrow> 'a list \<Rightarrow> int \<Rightarrow> ('n, 'a) route" where
  "route_with_priority rid name cond actions priority =
     \<lparr>rt_id = rid, rt_name = name, rt_condition = cond, rt_actions = actions, rt_priority = priority, rt_enabled = True\<rparr>"

definition route_new :: "string \<Rightarrow> string \<Rightarrow> 'n condition \<Rightarrow> 'a list \<Rightarrow> ('n, 'a) route" where
  "route_new rid name cond actions =
     \<lparr>rt_id = rid, rt_name = name, rt_condition = cond, rt_actions = actions, rt_priority = 0, rt_enabled = True\<rparr>"

definition set_enabled :: "bool \<Rightarrow> ('n, 'a) route \<Rightarrow> ('n, 'a) route" where
  "set_enabled b r = r\<lparr>rt_enabled := b\<rparr>"

definition route_validate :: "('n, 'x) json_lib \<Rightarrow> ('n, 'a) route \<Rightarrow> route_error + unit" where
  "route_validate L r =
     (if rt_id r = [] then Inl EmptyRouteId
      else if rt_name r = [] then Inl EmptyRouteName
      else try_bind (condition_validate L (rt_condition r)) (\<lambda>_. if rt_actions r = [] then Inl NoActions else Inr ()))"

definition workflow_new :: "nat \<Rightarrow> string \<Rightarrow> string \<Rightarrow> ('n, 'a) route list \<Rightarrow> ('n, 'a) workflow" where
  "workflow_new now rid name routes =
     \<lparr>wf_id = rid, wf_name = name, wf_routes = routes, wf_default_route = None, wf_version = 1, wf_updated_at = now,
      wf_enabled = True\<rparr>"

definition with_default_route :: "string \<Rightarrow> ('n, 'a) workflow \<Rightarrow> ('n, 'a) workflow" where
  "with_default_route rid w = w\<lparr>wf_default_route := Some rid\<rparr>"

text \<open>A stable sort by descending priority.\<close>

definition routes_by_priority :: "('n, 'a) workflow \<Rightarrow> ('n, 'a) route list" where
  "routes_by_priority w = sort_key (\<lambda>r. - rt_priority r) (wf_routes w)"

definition enabled_routes :: "('n, 'a) workflow \<Rightarrow> ('n, 'a) route list" where
  "enabled_routes w = filter rt_enabled (wf_routes w)"

definition find_route :: "string \<Rightarrow> ('n, 'a) workflow \<Rightarrow> ('n, 'a) route option" where
  "find_route rid w = find (\<lambda>r. rt_id r = rid) (wf_routes w)"

definition increment_version :: "nat \<Rightarrow> ('n, 'a) workflow \<Rightarrow> ('n, 'a) workflow" where
  "increment_version now w = w\<lparr>wf_version := wf_version w + 1, wf_updated_at := now\<rparr>"

fun validate_routes :: "('n, 'x) json_lib \<Rightarrow> ('n, 'a) route list \<Rightarrow> route_error + unit" where
  "validate_routes L [] = Inr ()"
| "validate_routes L (r # rs) = try_bind (route_validate L r) (\<lambda>_. validate_routes L rs)"

fun check_duplicates :: "string set \<Rightarrow> ('n, 'a) route list \<Rightarrow> route_error + unit" where
  "check_duplicates seen [] = Inr ()"
| "check_duplicates seen (r # rs) =
     (if rt_id r \<in> seen then Inl (DuplicateRoute (rt_id r)) else check_duplicates (insert (rt_id r) seen) rs)"

definition workflow_validate :: "('n, 'x) json_lib \<Rightarrow> ('n, 'a) workflow \<Rightarrow> route_error + unit" where
  "workflow_validate L w =
     (if wf_id w = [] then Inl EmptyWorkflowId
      else if wf_name w = [] then Inl EmptyWorkflowName
      else if wf_routes w = [] then Inl NoRoutes
      else try_bind (validate_routes L (wf_routes w)) (\<lambda>_.
        try_bind (case wf_default_route w of
                    None \<Rightarrow> Inr ()
                  | Some rid \<Rightarrow> if list_ex (\<lambda>r. rt_id r = rid) (wf_routes w) then Inr () else Inl (DefaultNotFound rid)) (\<lambda>_.
        check_duplicates {} (wf_routes w))))"

section \<open>Routing\<close>

text \<open>The loop over the enabled routes; an evaluation that fails skips the route.\<close>

fun first_match :: "('n, 'x) json_lib \<Rightarrow> 'n json \<Rightarrow> ('n, 'a) route list \<Rightarrow> ('n, 'a) route option" where
  "first_match L data [] = None"
| "first_match L data (r # rs) =
     (case evaluate L (rt_condition r) data of
        Inr True \<Rightarrow> Some r
      | Inr False \<Rightarrow> first_match L data rs
      | Inl _ \<Rightarrow> first_match L data rs)"

definition select_route :: "('n, 'x) json_lib \<Rightarrow> ('n, 'a) workflow \<Rightarrow> 'n json \<Rightarrow> route_error + ('n, 'a) route option" where
  "select_route L w data =
     (if \<not> wf_enabled w then Inl (Disabled (wf_name w))
      else
        (case first_match L data (filter rt_enabled (routes_by_priority w)) of
           Some r \<Rightarrow> Inr (Some r)
         | None \<Rightarrow> Inr (Option.bind (wf_default_route w) (\<lambda>rid. find_route rid w))))"

definition evaluate_all_routes :: "('n, 'x) json_lib \<Rightarrow> ('n, 'a) workflow \<Rightarrow> 'n json \<Rightarrow> (('n, 'a) route \<times> bool) list" where
  "evaluate_all_routes L w data =
     map (\<lambda>r. (r, case evaluate L (rt_condition r) data of Inr b \<Rightarrow> b | Inl _ \<Rightarrow> False)) (filter rt_enabled (wf_routes w))"

record route_stats =
  rs_total_samples :: nat
  rs_route_matches :: "string \<Rightarrow> nat option"
  rs_no_match_count :: nat
  rs_default_route_count :: nat
  rs_error_count :: nat

definition count_sample ::
  "('n, 'x) json_lib \<Rightarrow> ('n, 'a) workflow \<Rightarrow> 'n json \<Rightarrow> route_stats \<Rightarrow> route_stats" where
  "count_sample L w data s =
     (case select_route L w data of
        Inr (Some r) \<Rightarrow>
          s\<lparr>rs_route_matches := (rs_route_matches s)(rt_id r \<mapsto> (case rs_route_matches s (rt_id r) of Some n \<Rightarrow> n | None \<Rightarrow> 0) + 1),
            rs_default_route_count := rs_default_route_count s + (if wf_default_route w = Some (rt_id r) then 1 else 0)\<rparr>
      | Inr None \<Rightarrow> s\<lparr>rs_no_match_count := rs_no_match_count s + 1\<rparr>
      | Inl _ \<Rightarrow> s\<lparr>rs_error_count := rs_error_count s + 1\<rparr>)"

definition get_route_stats :: "('n, 'x) json_lib \<Rightarrow> ('n, 'a) workflow \<Rightarrow> 'n json list \<Rightarrow> route_stats" where
  "get_route_stats L w samples =
     fold (count_sample L w) samples
       \<lparr>rs_total_samples = length samples, rs_route_matches = (\<lambda>_. None), rs_no_match_count = 0, rs_default_route_count = 0,
        rs_error_count = 0\<rparr>"

section \<open>What the router selects\<close>

definition matches :: "('n, 'x) json_lib \<Rightarrow> 'n json \<Rightarrow> ('n, 'a) route \<Rightarrow> bool" where
  "matches L data r \<longleftrightarrow> rt_enabled r \<and> evaluate L (rt_condition r) data = Inr True"

lemma first_match_find: "first_match L data rs = find (\<lambda>r. evaluate L (rt_condition r) data = Inr True) rs"
proof (induction rs)
  case (Cons r rs)
  thus ?case
    by (cases "evaluate L (rt_condition r) data") (auto split: bool.split)
qed simp

lemma find_filter: "find P (filter Q xs) = find (\<lambda>x. Q x \<and> P x) xs"
  by (induction xs) auto

lemma find_eq_hd_filter: "find P xs = (case filter P xs of [] \<Rightarrow> None | x # _ \<Rightarrow> Some x)"
  by (induction xs) auto

text \<open>The head of a stably sorted list: nothing before it in the original list is as small.\<close>

lemma hd_sort_key:
  "ys \<noteq> [] \<Longrightarrow> \<exists>pre post. ys = pre @ hd (sort_key f ys) # post \<and>
     (\<forall>y \<in> set pre. f (hd (sort_key f ys)) < f y) \<and> (\<forall>y \<in> set post. f (hd (sort_key f ys)) \<le> f y)"
proof (induction ys)
  case (Cons y ys)
  show ?case
  proof (cases "ys = []")
    case False
    then obtain h zs where zs: "sort_key f ys = h # zs"
      by (metis list.exhaust set_empty set_sort)
    then obtain pre post where ih: "ys = pre @ h # post" "\<forall>z \<in> set pre. f h < f z" "\<forall>z \<in> set post. f h \<le> f z"
      using Cons.IH False by auto
    show ?thesis
    proof (cases "f y \<le> f h")
      case True
      hence "f y \<le> f z" if "z \<in> set ys" for z
        using that ih by fastforce
      moreover have "hd (sort_key f (y # ys)) = y"
        using zs True by simp
      ultimately show ?thesis
        by (intro exI [of _ "[]"] exI [of _ ys]) simp
    next
      case smaller: False
      hence "hd (sort_key f (y # ys)) = h"
        using zs by simp
      thus ?thesis
        using ih smaller by (intro exI [of _ "y # pre"] exI [of _ post]) auto
    qed
  qed (auto intro: exI [of _ "[]"])
qed simp

lemma filter_split: "filter P xs = pre @ h # post \<Longrightarrow>
    \<exists>pre' post'. xs = pre' @ h # post' \<and> P h \<and> filter P pre' = pre \<and> filter P post' = post"
proof (induction pre arbitrary: xs)
  case Nil
  then obtain us vs where "xs = us @ h # vs" "\<forall>u \<in> set us. \<not> P u" "P h" "post = filter P vs"
    by (auto simp: filter_eq_Cons_iff)
  thus ?case
    by (intro exI [of _ us] exI [of _ vs]) (auto simp: filter_empty_conv)
next
  case (Cons p pre)
  then obtain us vs where us: "xs = us @ p # vs" "\<forall>u \<in> set us. \<not> P u" "P p" "filter P vs = pre @ h # post"
    by (auto simp: filter_eq_Cons_iff)
  then obtain pre' post' where "vs = pre' @ h # post'" "P h" "filter P pre' = pre" "filter P post' = post"
    using Cons.IH by blast
  thus ?case
    using us by (intro exI [of _ "us @ p # pre'"] exI [of _ post']) (auto simp: filter_empty_conv)
qed

lemma first_match_sorted:
  "first_match L data (filter rt_enabled (routes_by_priority w)) =
     (case sort_key (\<lambda>r. - rt_priority r) (filter (matches L data) (wf_routes w)) of [] \<Rightarrow> None | r # _ \<Rightarrow> Some r)"
  by (simp add: first_match_find find_filter routes_by_priority_def find_eq_hd_filter filter_sort matches_def [abs_def])

lemma selected_route:
  assumes "wf_enabled w" "\<exists>r \<in> set (wf_routes w). matches L data r"
  shows "\<exists>pre r post. wf_routes w = pre @ r # post \<and> matches L data r \<and> select_route L w data = Inr (Some r) \<and>
     (\<forall>r' \<in> set pre. matches L data r' \<longrightarrow> rt_priority r' < rt_priority r) \<and>
     (\<forall>r' \<in> set post. matches L data r' \<longrightarrow> rt_priority r' \<le> rt_priority r)"
proof -
  let ?ms = "filter (matches L data) (wf_routes w)"
  have ne: "?ms \<noteq> []"
    using assms(2) by (auto simp: filter_empty_conv)
  then obtain h zs where zs: "sort_key (\<lambda>r. - rt_priority r) ?ms = h # zs"
    by (metis list.exhaust set_empty set_sort)
  hence sel: "select_route L w data = Inr (Some h)"
    using assms(1) by (simp add: select_route_def first_match_sorted)
  obtain pre post where ms: "?ms = pre @ h # post" "\<forall>r \<in> set pre. - rt_priority h < - rt_priority r"
      "\<forall>r \<in> set post. - rt_priority h \<le> - rt_priority r"
    using hd_sort_key [OF ne, of "\<lambda>r. - rt_priority r"] zs by auto
  then obtain pre' post' where split: "wf_routes w = pre' @ h # post'" "matches L data h"
      "filter (matches L data) pre' = pre" "filter (matches L data) post' = post"
    using filter_split [OF ms(1)] by blast
  have "rt_priority r < rt_priority h" if "r \<in> set pre'" "matches L data r" for r
    using that ms(2) split(3) by auto
  moreover have "rt_priority r \<le> rt_priority h" if "r \<in> set post'" "matches L data r" for r
    using that ms(3) split(4) by auto
  ultimately show ?thesis
    using sel split(1,2) by (intro exI [of _ pre'] exI [of _ h] exI [of _ post'] conjI ballI impI) auto
qed

lemma check_duplicates_ok: "check_duplicates seen rs = Inr () \<Longrightarrow> distinct (map rt_id rs)"
proof -
  have "check_duplicates seen rs = Inr () \<Longrightarrow> distinct (map rt_id rs) \<and> rt_id ` set rs \<inter> seen = {}" for seen
    by (induction rs arbitrary: seen) (auto split: if_splits)
  thus "check_duplicates seen rs = Inr () \<Longrightarrow> distinct (map rt_id rs)"
    by blast
qed

lemma validated_default:
  assumes "workflow_validate L w = Inr ()" "wf_default_route w = Some rid"
  shows "\<exists>r. find_route rid w = Some r"
proof -
  have "list_ex (\<lambda>r. rt_id r = rid) (wf_routes w)"
    using assms by (auto simp: workflow_validate_def try_bind_Inr_conv split: if_splits)
  thus ?thesis
    by (cases "find_route rid w") (auto simp: find_route_def list_ex_iff find_None_iff)
qed

text \<open>
  The router selects by priority: of the enabled routes whose condition evaluates to true it takes the one of highest
  priority, and of several of these the first one in the workflow; a condition that cannot be evaluated does not match.
  Without a match it takes the default route, and a validated workflow that names a default always gets a route.
\<close>

lemma route_selection:
  assumes "wf_enabled w"
  shows "(if \<exists>r \<in> set (wf_routes w). matches L data r then
            \<exists>pre r post. wf_routes w = pre @ r # post \<and> matches L data r \<and> select_route L w data = Inr (Some r) \<and>
              (\<forall>r' \<in> set pre. matches L data r' \<longrightarrow> rt_priority r' < rt_priority r) \<and>
              (\<forall>r' \<in> set post. matches L data r' \<longrightarrow> rt_priority r' \<le> rt_priority r)
          else select_route L w data = Inr (Option.bind (wf_default_route w) (\<lambda>rid. find_route rid w))) \<and>
         (workflow_validate L w = Inr () \<and> wf_default_route w \<noteq> None \<longrightarrow> (\<exists>r. select_route L w data = Inr (Some r)))"
proof (cases "\<exists>r \<in> set (wf_routes w). matches L data r")
  case True
  show ?thesis
    unfolding if_P [OF True] using selected_route [OF assms True] by blast
next
  case False
  hence "filter (matches L data) (wf_routes w) = []"
    by (simp add: filter_empty_conv)
  hence "select_route L w data = Inr (Option.bind (wf_default_route w) (\<lambda>rid. find_route rid w))"
    using assms by (simp add: select_route_def first_match_sorted)
  thus ?thesis
    using False validated_default [of L w] by auto
qed

definition demo_json_lib :: "(int, int) json_lib" where
  "demo_json_lib =
     \<lparr>jn_eq = (=), jn_f64 = id, jf_lt = (<), jf_le = (\<le>), jf_parse = (\<lambda>_. None), rx_new = (\<lambda>p. Some (\<lambda>s. s = p))\<rparr>"

definition demo_workflow :: "(int, unit) workflow" where
  "demo_workflow =
     with_default_route ''c'' (workflow_new 0 ''w'' ''w''
       [route_with_priority ''a'' ''low'' (CGreaterThan ''n'' (JNum 1)) [()] 1,
        route_with_priority ''b'' ''high'' (CEquals ''n'' (JNum 5)) [()] 2,
        route_new ''c'' ''default'' (CEquals ''missing'' JNull) [()]])"

lemma route_selection_witness:
  "\<exists>r. select_route demo_json_lib demo_workflow (JObj [(''n'', JNum 3)]) = Inr (Some r) \<and> rt_id r = ''a'' \<and>
     workflow_validate demo_json_lib demo_workflow = Inr ()"
proof -
  have valid: "workflow_validate demo_json_lib demo_workflow = Inr ()"
    by (simp add: workflow_validate_def demo_workflow_def with_default_route_def workflow_new_def route_with_priority_def
        route_new_def route_validate_def validate_field_def)
  have m: "filter (matches demo_json_lib (JObj [(''n'', JNum 3)])) (wf_routes demo_workflow) = [hd (wf_routes demo_workflow)]"
    by (simp add: demo_workflow_def with_default_route_def workflow_new_def route_with_priority_def route_new_def matches_def
        required_field_def extract_field_def json_get_def compare_numeric_def as_f64_def demo_json_lib_def)
  hence mem: "r = hd (wf_routes demo_workflow)"
    if "r \<in> set (wf_routes demo_workflow)" "matches demo_json_lib (JObj [(''n'', JNum 3)]) r" for r
  proof -
    have "r \<in> set (filter (matches demo_json_lib (JObj [(''n'', JNum 3)])) (wf_routes demo_workflow))"
      using that by simp
    thus ?thesis
      unfolding m by simp
  qed
  have "hd (wf_routes demo_workflow) \<in> set (filter (matches demo_json_lib (JObj [(''n'', JNum 3)])) (wf_routes demo_workflow))"
    unfolding m by simp
  hence ex: "\<exists>r \<in> set (wf_routes demo_workflow). matches demo_json_lib (JObj [(''n'', JNum 3)]) r"
    by auto
  have enabled: "wf_enabled demo_workflow" and id: "rt_id (hd (wf_routes demo_workflow)) = ''a''"
    by (simp_all add: demo_workflow_def with_default_route_def workflow_new_def route_with_priority_def)
  obtain pre r post where r: "wf_routes demo_workflow = pre @ r # post" "matches demo_json_lib (JObj [(''n'', JNum 3)]) r"
      "select_route demo_json_lib demo_workflow (JObj [(''n'', JNum 3)]) = Inr (Some r)"
    using route_selection [OF enabled, of demo_json_lib "JObj [(''n'', JNum 3)]", unfolded if_P [OF ex]] by blast
  have "r = hd (wf_routes demo_workflow)"
    by (rule mem [OF _ r(2)]) (simp add: r(1))
  thus ?thesis
    using r(3) valid id by blast
qed

text \<open>The default route is taken also when it is disabled.\<close>

lemma disabled_default_is_taken:
  assumes "wf_enabled w" "\<forall>r \<in> set (wf_routes w). \<not> matches L data r"
    and "wf_default_route w = Some rid" "find_route rid w = Some r" "\<not> rt_enabled r"
  shows "select_route L w data = Inr (Some r)"
proof -
  have "filter (matches L data) (wf_routes w) = []"
    using assms(2) by (simp add: filter_empty_conv)
  thus ?thesis
    using assms by (simp add: select_route_def first_match_sorted)
qed

end
