(* ===== verification/WorkflowExec.thy ===== *)
theory WorkflowExec
  imports RecordStore WorkflowRouting "HOL-Library.Multiset"
begin

text \<open>
  Model of workflow executions: the records of \<^verbatim>\<open>arcxa-coordinator/src/workflows/domain/execution.rs\<close>, the
  in-memory backend of \<^verbatim>\<open>workflows/storage/persistence/in_memory_backend.rs\<close> and the execution store of
  \<^verbatim>\<open>workflows/storage/execution_store.rs\<close> over it. Times are milliseconds, passed where the code reads the clock; the
  duration of an execution is a 64-bit integer as in the code. The locks of the backend cannot be poisoned, since nothing
  panics while they are held. The telemetry fields of an execution are left out: no operation here reads them. Lowercase
  conversion of strings is a parameter.
\<close>

section \<open>Executions\<close>

datatype action_status = ASuccess | AFailed | ASkipped | APaused

record 'n action_result =
  ar_action_type :: string
  ar_status :: action_status
  ar_duration_ms :: u64
  ar_error :: "string option"
  ar_output :: "'n json option"

datatype execution_status = XPending | XRunning | XPaused | XCompleted | XFailed | XStopped | XAborted

datatype log_level = LDebug | LInfo | LWarning | LError

record 'n execution_log =
  lg_timestamp :: int
  lg_level :: log_level
  lg_step_id :: "string option"
  lg_message :: string
  lg_details :: "'n json option"

record 'n execution =
  ex_execution_id :: string
  ex_workflow_id :: string
  ex_workflow_name :: string
  ex_status :: execution_status
  ex_input :: "'n json"
  ex_output :: "'n json option"
  ex_matched_route :: "(string \<times> string) option"
  ex_started_at :: int
  ex_updated_at :: int
  ex_completed_at :: "int option"
  ex_duration_ms :: "u64 option"
  ex_error :: "string option"
  ex_logs :: "'n execution_log list"
  ex_triggered_by :: "string option"
  ex_checkpoint_action_index :: "nat option"
  ex_intermediate_data :: "'n json option"
  ex_action_results :: "'n action_result list"

definition execution_terminal :: "execution_status \<Rightarrow> bool" where
  "execution_terminal s \<longleftrightarrow> s \<in> {XCompleted, XFailed, XStopped, XAborted}"

definition execution_is_error :: "execution_status \<Rightarrow> bool" where
  "execution_is_error s \<longleftrightarrow> s \<in> {XFailed, XStopped, XAborted}"

definition status_from_str :: "(string \<Rightarrow> string) \<Rightarrow> string \<Rightarrow> execution_status option" where
  "status_from_str lower s =
     (let t = lower s in
      if t = ''pending'' then Some XPending
      else if t = ''running'' then Some XRunning
      else if t = ''paused'' then Some XPaused
      else if t = ''completed'' then Some XCompleted
      else if t = ''failed'' then Some XFailed
      else if t = ''stopped'' then Some XStopped
      else if t = ''aborted'' then Some XAborted
      else None)"

definition status_display :: "execution_status \<Rightarrow> string" where
  "status_display s =
     (case s of
        XPending \<Rightarrow> ''pending'' | XRunning \<Rightarrow> ''running'' | XPaused \<Rightarrow> ''paused'' | XCompleted \<Rightarrow> ''completed''
      | XFailed \<Rightarrow> ''failed'' | XStopped \<Rightarrow> ''stopped'' | XAborted \<Rightarrow> ''aborted'')"

definition execution_new :: "int \<Rightarrow> string \<Rightarrow> string \<Rightarrow> string \<Rightarrow> 'n json \<Rightarrow> string option \<Rightarrow> 'n execution" where
  "execution_new now execution_id workflow_id workflow_name input triggered_by =
     \<lparr>ex_execution_id = execution_id, ex_workflow_id = workflow_id, ex_workflow_name = workflow_name, ex_status = XPending,
      ex_input = input, ex_output = None, ex_matched_route = None, ex_started_at = now, ex_updated_at = now,
      ex_completed_at = None, ex_duration_ms = None, ex_error = None, ex_logs = [], ex_triggered_by = triggered_by,
      ex_checkpoint_action_index = None, ex_intermediate_data = None, ex_action_results = []\<rparr>"

definition execution_update_status :: "int \<Rightarrow> execution_status \<Rightarrow> 'n execution \<Rightarrow> 'n execution" where
  "execution_update_status now s e =
     (let e = e\<lparr>ex_status := s, ex_updated_at := now\<rparr> in
      if execution_terminal s \<and> ex_completed_at e = None
      then e\<lparr>ex_completed_at := Some now, ex_duration_ms := Some (word_of_int (now - ex_started_at e))\<rparr>
      else e)"

definition execution_add_log :: "int \<Rightarrow> 'n execution_log \<Rightarrow> 'n execution \<Rightarrow> 'n execution" where
  "execution_add_log now log e = e\<lparr>ex_logs := ex_logs e @ [log], ex_updated_at := now\<rparr>"

definition set_matched_route :: "string \<Rightarrow> string \<Rightarrow> 'n execution \<Rightarrow> 'n execution" where
  "set_matched_route rid name e = e\<lparr>ex_matched_route := Some (rid, name)\<rparr>"

definition execution_set_output :: "'n json \<Rightarrow> 'n execution \<Rightarrow> 'n execution" where
  "execution_set_output output e = e\<lparr>ex_output := Some output\<rparr>"

definition execution_set_error :: "int \<Rightarrow> string \<Rightarrow> 'n execution \<Rightarrow> 'n execution" where
  "execution_set_error now err e = execution_update_status now XFailed (e\<lparr>ex_error := Some err\<rparr>)"

definition can_stop :: "'n execution \<Rightarrow> bool" where
  "can_stop e \<longleftrightarrow> ex_status e \<in> {XPending, XRunning, XPaused}"

definition can_pause :: "'n execution \<Rightarrow> bool" where
  "can_pause e \<longleftrightarrow> ex_status e \<in> {XRunning, XPending}"

definition can_resume :: "'n execution \<Rightarrow> bool" where
  "can_resume e \<longleftrightarrow> ex_status e = XPaused"

definition execution_checkpoint :: "int \<Rightarrow> nat \<Rightarrow> 'n json \<Rightarrow> 'n execution \<Rightarrow> 'n execution" where
  "execution_checkpoint now action_index data e =
     e\<lparr>ex_checkpoint_action_index := Some action_index, ex_intermediate_data := Some data, ex_updated_at := now\<rparr>"

definition has_checkpoint :: "'n execution \<Rightarrow> bool" where
  "has_checkpoint e \<longleftrightarrow> ex_checkpoint_action_index e \<noteq> None"

definition clear_checkpoint :: "int \<Rightarrow> 'n execution \<Rightarrow> 'n execution" where
  "clear_checkpoint now e = e\<lparr>ex_checkpoint_action_index := None, ex_intermediate_data := None, ex_updated_at := now\<rparr>"

record execution_filters =
  fl_workflow_id :: "string option"
  fl_status :: "execution_status option"
  fl_start_date :: "int option"
  fl_end_date :: "int option"
  fl_search :: "string option"

definition filters_match :: "(string \<Rightarrow> string) \<Rightarrow> execution_filters \<Rightarrow> 'n execution \<Rightarrow> bool" where
  "filters_match lower f e \<longleftrightarrow>
     (case fl_workflow_id f of None \<Rightarrow> True | Some w \<Rightarrow> ex_workflow_id e = w) \<and>
     (case fl_status f of None \<Rightarrow> True | Some s \<Rightarrow> ex_status e = s) \<and>
     (case fl_start_date f of None \<Rightarrow> True | Some t \<Rightarrow> \<not> ex_started_at e < t) \<and>
     (case fl_end_date f of None \<Rightarrow> True | Some t \<Rightarrow> \<not> ex_started_at e > t) \<and>
     (case fl_search f of
        None \<Rightarrow> True
      | Some q \<Rightarrow>
          str_contains (lower q) (lower (ex_execution_id e)) \<or> str_contains (lower q) (lower (ex_workflow_name e)) \<or>
          (case ex_error e of None \<Rightarrow> False | Some err \<Rightarrow> str_contains (lower q) (lower err)))"

section \<open>The in-memory backend\<close>

record 'n exec_backend =
  eb_executions :: "(string, 'n execution) hmap"
  eb_logs :: "(string, 'n execution_log list) hmap"

definition eb_new :: "'n exec_backend" where
  "eb_new = \<lparr>eb_executions = [], eb_logs = []\<rparr>"

definition merge_logs :: "'n exec_backend \<Rightarrow> 'n execution \<Rightarrow> 'n execution" where
  "merge_logs b e = (case map_of (eb_logs b) (ex_execution_id e) of Some logs \<Rightarrow> e\<lparr>ex_logs := logs\<rparr> | None \<Rightarrow> e)"

definition eb_save :: "'n execution \<Rightarrow> 'n exec_backend \<Rightarrow> store_error + 'n exec_backend" where
  "eb_save e b =
     (if map_of (eb_executions b) (ex_execution_id e) \<noteq> None then Inl (AlreadyExists (ex_execution_id e))
      else Inr (b\<lparr>eb_executions := AList.update (ex_execution_id e) e (eb_executions b)\<rparr>))"

definition eb_get :: "string \<Rightarrow> 'n exec_backend \<Rightarrow> 'n execution option" where
  "eb_get k b = map_option (merge_logs b) (map_of (eb_executions b) k)"

definition eb_update :: "'n execution \<Rightarrow> 'n exec_backend \<Rightarrow> store_error + 'n exec_backend" where
  "eb_update e b =
     (if map_of (eb_executions b) (ex_execution_id e) = None then Inl (NotFound (ex_execution_id e))
      else Inr (b\<lparr>eb_executions := AList.update (ex_execution_id e) e (eb_executions b)\<rparr>))"

definition eb_delete :: "string \<Rightarrow> 'n exec_backend \<Rightarrow> store_error + 'n exec_backend" where
  "eb_delete k b =
     (if map_of (eb_executions b) k = None then Inl (NotFound k)
      else Inr (b\<lparr>eb_executions := AList.delete k (eb_executions b), eb_logs := AList.delete k (eb_logs b)\<rparr>))"

text \<open>Newest first, then the page.\<close>

definition newest_page :: "nat option \<Rightarrow> nat \<Rightarrow> 'n execution list \<Rightarrow> 'n execution list" where
  "newest_page limit offset es =
     (let ds = drop offset (sort_key (\<lambda>e. - ex_started_at e) es) in case limit of Some n \<Rightarrow> take n ds | None \<Rightarrow> ds)"

definition eb_list_where ::
  "('n execution \<Rightarrow> bool) \<Rightarrow> nat option \<Rightarrow> nat \<Rightarrow> 'n exec_backend \<Rightarrow> 'n execution list" where
  "eb_list_where P limit offset b = map (merge_logs b) (newest_page limit offset (filter P (map snd (eb_executions b))))"

definition eb_list_by_workflow :: "string \<Rightarrow> nat option \<Rightarrow> nat \<Rightarrow> 'n exec_backend \<Rightarrow> 'n execution list" where
  "eb_list_by_workflow w limit offset b = eb_list_where (\<lambda>e. ex_workflow_id e = w) limit offset b"

definition eb_list_by_status :: "execution_status \<Rightarrow> nat option \<Rightarrow> nat \<Rightarrow> 'n exec_backend \<Rightarrow> 'n execution list" where
  "eb_list_by_status s limit offset b = eb_list_where (\<lambda>e. ex_status e = s) limit offset b"

definition eb_list_by_time_range :: "int \<Rightarrow> int \<Rightarrow> nat option \<Rightarrow> nat \<Rightarrow> 'n exec_backend \<Rightarrow> 'n execution list" where
  "eb_list_by_time_range t0 t1 limit offset b =
     eb_list_where (\<lambda>e. ex_started_at e \<ge> t0 \<and> ex_started_at e \<le> t1) limit offset b"

definition eb_add_log :: "string \<Rightarrow> 'n execution_log \<Rightarrow> 'n exec_backend \<Rightarrow> store_error + 'n exec_backend" where
  "eb_add_log k log b =
     (if map_of (eb_executions b) k = None then Inl (NotFound k)
      else
        (let logs = (case map_of (eb_logs b) k of Some logs \<Rightarrow> logs | None \<Rightarrow> []) in
         Inr (b\<lparr>eb_logs := AList.update k (logs @ [log]) (eb_logs b)\<rparr>)))"

definition eb_get_logs :: "string \<Rightarrow> 'n exec_backend \<Rightarrow> store_error + 'n execution_log list" where
  "eb_get_logs k b =
     (if map_of (eb_executions b) k = None then Inl (NotFound k)
      else Inr (case map_of (eb_logs b) k of Some logs \<Rightarrow> logs | None \<Rightarrow> []))"

definition eb_count_total :: "'n exec_backend \<Rightarrow> nat" where
  "eb_count_total b = length (eb_executions b)"

definition eb_count_by_status :: "execution_status \<Rightarrow> 'n exec_backend \<Rightarrow> nat" where
  "eb_count_by_status s b = length (filter (\<lambda>e. ex_status e = s) (map snd (eb_executions b)))"

section \<open>The execution store\<close>

definition store_modify ::
  "('n execution \<Rightarrow> 'n execution) \<Rightarrow> string \<Rightarrow> 'n exec_backend \<Rightarrow> store_error + 'n exec_backend" where
  "store_modify f k b = (case eb_get k b of None \<Rightarrow> Inl (NotFound k) | Some e \<Rightarrow> eb_update (f e) b)"

definition store_update_status :: "int \<Rightarrow> string \<Rightarrow> execution_status \<Rightarrow> 'n exec_backend \<Rightarrow> store_error + 'n exec_backend" where
  "store_update_status now k s b = store_modify (execution_update_status now s) k b"

definition store_set_output :: "string \<Rightarrow> 'n json \<Rightarrow> 'n exec_backend \<Rightarrow> store_error + 'n exec_backend" where
  "store_set_output k output b = store_modify (execution_set_output output) k b"

definition store_set_error :: "int \<Rightarrow> string \<Rightarrow> string \<Rightarrow> 'n exec_backend \<Rightarrow> store_error + 'n exec_backend" where
  "store_set_error now k err b = store_modify (execution_set_error now err) k b"

text \<open>1 January 2000 and 1 January 2100, the range that stands for every time.\<close>

definition min_time :: int where
  "min_time = 946684800000"

definition max_time :: int where
  "max_time = 4102444800000"

definition list_filtered ::
  "(string \<Rightarrow> string) \<Rightarrow> execution_filters \<Rightarrow> nat option \<Rightarrow> nat option \<Rightarrow> 'n exec_backend \<Rightarrow> 'n execution list" where
  "list_filtered lower f limit offset b =
     (let es =
        (case fl_status f of
           Some s \<Rightarrow> eb_list_by_status s None 0 b
         | None \<Rightarrow>
             (case (fl_start_date f, fl_end_date f) of
                (Some t0, Some t1) \<Rightarrow> eb_list_by_time_range t0 t1 None 0 b
              | _ \<Rightarrow> eb_list_by_time_range min_time max_time None 0 b)) in
      newest_page limit (case offset of Some n \<Rightarrow> n | None \<Rightarrow> 0) (filter (filters_match lower f) es))"

definition count_filtered :: "(string \<Rightarrow> string) \<Rightarrow> execution_filters \<Rightarrow> 'n exec_backend \<Rightarrow> nat" where
  "count_filtered lower f b =
     (case fl_status f of Some s \<Rightarrow> eb_count_by_status s b | None \<Rightarrow> length (list_filtered lower f None None b))"

section \<open>The backend is a store of records\<close>

definition eb_wf :: "'n exec_backend \<Rightarrow> bool" where
  "eb_wf b \<longleftrightarrow>
     hm_wf (eb_executions b) \<and> hm_wf (eb_logs b) \<and>
     (\<forall>(k, e) \<in> set (eb_executions b). ex_execution_id e = k) \<and>
     fst ` set (eb_logs b) \<subseteq> fst ` set (eb_executions b)"

definition without_logs :: "'n execution \<Rightarrow> 'n execution" where
  "without_logs e = e\<lparr>ex_logs := []\<rparr>"

lemma merge_logs_simps [simp]:
  "ex_execution_id (merge_logs b e) = ex_execution_id e" "ex_status (merge_logs b e) = ex_status e"
  "ex_started_at (merge_logs b e) = ex_started_at e" "ex_workflow_id (merge_logs b e) = ex_workflow_id e"
  "ex_workflow_name (merge_logs b e) = ex_workflow_name e" "ex_error (merge_logs b e) = ex_error e"
  "without_logs (merge_logs b e) = without_logs e"
  by (simp_all add: merge_logs_def without_logs_def split: option.split)

lemma eb_wf_new: "eb_wf eb_new"
  by (simp add: eb_wf_def eb_new_def)

lemma eb_wf_key: "eb_wf b \<Longrightarrow> map_of (eb_executions b) k = Some e \<Longrightarrow> ex_execution_id e = k"
  by (fastforce simp: eb_wf_def dest: map_of_SomeD)

lemma eb_get_None [simp]: "eb_get k b = None \<longleftrightarrow> map_of (eb_executions b) k = None"
  by (simp add: eb_get_def)

lemma eb_get_view: "map_option without_logs (eb_get k b) = map_option without_logs (map_of (eb_executions b) k)"
  by (simp add: eb_get_def option.map_comp comp_def)

lemma set_update_subset: "set (AList.update k v m) \<subseteq> insert (k, v) (set m)"
  by (induction m) auto

lemma eb_wf_put:
  assumes "eb_wf b"
  shows "eb_wf (b\<lparr>eb_executions := AList.update (ex_execution_id e) e (eb_executions b)\<rparr>)"
proof -
  have "\<forall>(k, e') \<in> set (AList.update (ex_execution_id e) e (eb_executions b)). ex_execution_id e' = k"
    using assms set_update_subset [of "ex_execution_id e" e "eb_executions b"] by (fastforce simp: eb_wf_def)
  moreover have "fst ` set (AList.update (ex_execution_id e) e (eb_executions b)) = insert (ex_execution_id e) (fst ` set (eb_executions b))"
    by (simp add: dom_update)
  ultimately show ?thesis
    using assms by (auto simp: eb_wf_def)
qed

lemma keys_delete: "fst ` set (AList.delete k m) = fst ` set m - {k}"
  using arg_cong [OF delete_keys [of k m], of set] by simp

lemma eb_wf_delete:
  assumes "eb_wf b"
  shows "eb_wf (b\<lparr>eb_executions := AList.delete k (eb_executions b), eb_logs := AList.delete k (eb_logs b)\<rparr>)"
proof -
  have "\<forall>(k, e) \<in> set (AList.delete k (eb_executions b)). ex_execution_id e = k"
    using assms by (simp add: eb_wf_def AList.delete_eq)
  moreover have "fst ` set (AList.delete k (eb_logs b)) \<subseteq> fst ` set (AList.delete k (eb_executions b))"
    using assms unfolding keys_delete by (simp add: eb_wf_def Diff_mono)
  ultimately show ?thesis
    using assms by (simp add: eb_wf_def)
qed

lemma eb_wf_log: "eb_wf b \<Longrightarrow> eb_add_log k log b = Inr b' \<Longrightarrow> eb_wf b'"
proof -
  assume wf: "eb_wf b" and ok: "eb_add_log k log b = Inr b'"
  then obtain logs where b': "b' = b\<lparr>eb_logs := AList.update k logs (eb_logs b)\<rparr>"
    and k: "k \<in> fst ` set (eb_executions b)"
    by (auto simp: eb_add_log_def Let_def map_of_eq_None_iff split: if_splits)
  have "fst ` set (AList.update k logs (eb_logs b)) = insert k (fst ` set (eb_logs b))"
    by (simp add: dom_update)
  thus "eb_wf b'"
    using wf k by (auto simp: b' eb_wf_def)
qed

interpretation exec_store: record_store ex_execution_id without_logs eb_wf eb_get eb_save eb_update eb_delete
proof unfold_locales
  fix b :: "'n exec_backend" and k e
  assume wf: "eb_wf b"
  show "ex_execution_id e = k" if "eb_get k b = Some e"
    using that eb_wf_key [OF wf] by (auto simp: eb_get_def)
  show "eb_save e b = Inl (AlreadyExists (ex_execution_id e))" if "eb_get (ex_execution_id e) b \<noteq> None"
    using that by (simp add: eb_save_def)
  show "\<exists>b'. eb_save e b = Inr b' \<and> eb_wf b' \<and> (\<forall>k. map_option without_logs (eb_get k b') =
      (if k = ex_execution_id e then Some (without_logs e) else map_option without_logs (eb_get k b)))"
    if "eb_get (ex_execution_id e) b = None"
    using that eb_wf_put [OF wf] by (simp add: eb_save_def eb_get_view update_conv')
  show "eb_update e b = Inl (NotFound (ex_execution_id e))" if "eb_get (ex_execution_id e) b = None"
    using that by (simp add: eb_update_def)
  show "\<exists>b'. eb_update e b = Inr b' \<and> eb_wf b' \<and> (\<forall>k. map_option without_logs (eb_get k b') =
      (if k = ex_execution_id e then Some (without_logs e) else map_option without_logs (eb_get k b)))"
    if "eb_get (ex_execution_id e) b \<noteq> None"
    using that eb_wf_put [OF wf] by (simp add: eb_update_def eb_get_view update_conv')
  show "eb_delete k b = Inl (NotFound k)" if "eb_get k b = None"
    using that by (simp add: eb_delete_def)
  show "\<exists>b'. eb_delete k b = Inr b' \<and> eb_wf b' \<and> (\<forall>k'. map_option without_logs (eb_get k' b') =
      (if k' = k then None else map_option without_logs (eb_get k' b)))" if "eb_get k b \<noteq> None"
    using that eb_wf_delete [OF wf] by (simp add: eb_delete_def eb_get_view delete_conv')
qed

text \<open>A log that is added is read back, after those added before it.\<close>

lemma logs_read_back:
  assumes "eb_add_log k log b = Inr b'"
  shows "\<exists>logs. eb_get_logs k b = Inr logs \<and> eb_get_logs k b' = Inr (logs @ [log])"
  using assms by (auto simp: eb_add_log_def eb_get_logs_def Let_def update_conv' split: if_splits)

section \<open>Queries\<close>

lemma filters_match_merge [simp]: "filters_match lower f (merge_logs b e) = filters_match lower f e"
  unfolding filters_match_def merge_logs_simps ..

lemma newest_page_all: "newest_page None 0 es = sort_key (\<lambda>e. - ex_started_at e) es"
  by (simp add: newest_page_def)

lemma mset_list_where: "mset (eb_list_where P None 0 b) = image_mset (merge_logs b) (mset (filter P (map snd (eb_executions b))))"
  by (simp add: eb_list_where_def newest_page_all)

definition all_executions :: "'n exec_backend \<Rightarrow> 'n execution list" where
  "all_executions b = map (merge_logs b) (map snd (eb_executions b))"

lemma mset_filter_list_where:
  assumes "\<And>e. e \<in> set (map snd (eb_executions b)) \<Longrightarrow> filters_match lower f e \<Longrightarrow> P e"
  shows "mset (filter (filters_match lower f) (eb_list_where P None 0 b)) = mset (filter (filters_match lower f) (all_executions b))"
proof -
  have "filter (filters_match lower f) (filter P (map snd (eb_executions b))) = filter (filters_match lower f) (map snd (eb_executions b))"
    unfolding filter_filter using assms by (intro filter_cong) auto
  hence "mset (filter (filters_match lower f) (filter P (map snd (eb_executions b)))) = mset (filter (filters_match lower f) (map snd (eb_executions b)))"
    by (rule arg_cong)
  thus ?thesis
    unfolding all_executions_def mset_filter mset_list_where mset_map filter_mset_image_mset filters_match_merge by simp
qed

lemma list_filtered_all:
  "list_filtered lower f limit offset b =
     newest_page limit (case offset of Some n \<Rightarrow> n | None \<Rightarrow> 0) (filter (filters_match lower f)
       (case fl_status f of
          Some s \<Rightarrow> eb_list_where (\<lambda>e. ex_status e = s) None 0 b
        | None \<Rightarrow>
            (case (fl_start_date f, fl_end_date f) of
               (Some t0, Some t1) \<Rightarrow> eb_list_where (\<lambda>e. ex_started_at e \<ge> t0 \<and> ex_started_at e \<le> t1) None 0 b
             | _ \<Rightarrow> eb_list_where (\<lambda>e. ex_started_at e \<ge> min_time \<and> ex_started_at e \<le> max_time) None 0 b)))"
  unfolding list_filtered_def eb_list_by_status_def eb_list_by_time_range_def Let_def ..

lemma mset_list_filtered:
  assumes "\<And>e. e \<in> set (map snd (eb_executions b)) \<Longrightarrow> min_time \<le> ex_started_at e \<and> ex_started_at e \<le> max_time"
  shows "mset (list_filtered lower f None None b) = mset (filter (filters_match lower f) (all_executions b))"
proof -
  consider (status) s where "fl_status f = Some s"
    | (dates) t0 t1 where "fl_status f = None" "fl_start_date f = Some t0" "fl_end_date f = Some t1"
    | (range) "fl_status f = None" "fl_start_date f = None \<or> fl_end_date f = None"
    by (cases "fl_status f"; cases "fl_start_date f"; cases "fl_end_date f") auto
  thus ?thesis
  proof cases
    case status
    thus ?thesis
      using mset_filter_list_where [of b lower f "\<lambda>e. ex_status e = s"]
      by (simp add: list_filtered_all newest_page_all filters_match_def)
  next
    case dates
    thus ?thesis
      using mset_filter_list_where [of b lower f "\<lambda>e. ex_started_at e \<ge> t0 \<and> ex_started_at e \<le> t1"]
      by (simp add: list_filtered_all newest_page_all filters_match_def)
  next
    case range
    thus ?thesis
      using mset_filter_list_where [of b lower f "\<lambda>e. ex_started_at e \<ge> min_time \<and> ex_started_at e \<le> max_time"] assms
      by (cases "fl_start_date f"; cases "fl_end_date f") (simp_all add: list_filtered_all newest_page_all)
  qed
qed

text \<open>
  A query for executions returns exactly the stored executions that match the filters, each once and with its logs,
  the newest first, and a page of it is a segment of that list; provided the executions started between the years 2000
  and 2100.
\<close>

lemma list_filtered_correct:
  assumes "\<And>e. e \<in> set (map snd (eb_executions b)) \<Longrightarrow> min_time \<le> ex_started_at e \<and> ex_started_at e \<le> max_time"
  shows "mset (list_filtered lower f None None b) = mset (filter (filters_match lower f) (all_executions b)) \<and>
     sorted_wrt (\<lambda>d e. ex_started_at d \<ge> ex_started_at e) (list_filtered lower f None None b) \<and>
     list_filtered lower f (Some n) (Some m) b = take n (drop m (list_filtered lower f None None b))"
proof (intro conjI)
  show "mset (list_filtered lower f None None b) = mset (filter (filters_match lower f) (all_executions b))"
    by (rule mset_list_filtered [OF assms])
  have "sorted (map (\<lambda>e. - ex_started_at e) (list_filtered lower f None None b))"
    by (simp add: list_filtered_all newest_page_all)
  thus "sorted_wrt (\<lambda>d e. ex_started_at d \<ge> ex_started_at e) (list_filtered lower f None None b)"
    by (simp add: sorted_map)
  show "list_filtered lower f (Some n) (Some m) b = take n (drop m (list_filtered lower f None None b))"
    by (simp add: list_filtered_def newest_page_def Let_def)
qed

definition demo_execution :: "string \<Rightarrow> string \<Rightarrow> int \<Rightarrow> unit execution" where
  "demo_execution k w t = execution_new t k w w JNull None"

definition demo_backend :: "unit exec_backend" where
  "demo_backend =
     \<lparr>eb_executions = [(''e1'', demo_execution ''e1'' ''w1'' 1000000000000), (''e2'', demo_execution ''e2'' ''w2'' 1000000000001)],
      eb_logs = []\<rparr>"

definition demo_filters :: execution_filters where
  "demo_filters = \<lparr>fl_workflow_id = Some ''w1'', fl_status = Some XPending, fl_start_date = None, fl_end_date = None, fl_search = None\<rparr>"

lemma demo_matches: "filter (filters_match id demo_filters) (all_executions demo_backend) = [demo_execution ''e1'' ''w1'' 1000000000000]"
  by (simp add: all_executions_def demo_backend_def demo_filters_def filters_match_def merge_logs_def demo_execution_def execution_new_def)

lemma list_filtered_correct_witness:
  "mset (list_filtered id demo_filters None None demo_backend) = {#demo_execution ''e1'' ''w1'' 1000000000000#}"
proof -
  have "min_time \<le> ex_started_at e \<and> ex_started_at e \<le> max_time" if "e \<in> set (map snd (eb_executions demo_backend))" for e
    using that by (auto simp: demo_backend_def demo_execution_def execution_new_def min_time_def max_time_def)
  thus ?thesis
    using list_filtered_correct [of demo_backend id demo_filters 0 0] by (simp add: demo_matches)
qed

text \<open>The count for a filter with a status ignores the other filters.\<close>

lemma count_ignores_filters:
  "count_filtered id demo_filters demo_backend = 2" "length (filter (filters_match id demo_filters) (all_executions demo_backend)) = 1"
  by (simp_all add: demo_matches, simp add: count_filtered_def demo_filters_def eb_count_by_status_def demo_backend_def
      demo_execution_def execution_new_def)

end
