(* ===== verification/Approvals.thy ===== *)
theory Approvals
  imports WorkflowExec
begin

text \<open>
  Model of approval requests: \<^verbatim>\<open>arcxa-coordinator/src/workflows/domain/approval.rs\<close>, the in-memory backend of
  \<^verbatim>\<open>workflows/storage/persistence/approval_backend.rs\<close> and the store of
  \<^verbatim>\<open>workflows/storage/approval_store.rs\<close>. Times are milliseconds without bounds, passed where the code reads the
  clock; an operation that reads it twice reads the same time. A decision through the store fetches the request, changes the
  copy and writes it back: the last section takes these steps apart.
\<close>

section \<open>Requests\<close>

datatype approval_status = PendingApproval | Approved | Rejected | Expired | CancelledApproval

record 'n approval =
  ap_request_id :: string
  ap_approval_type :: string
  ap_execution_id :: string
  ap_workflow_id :: string
  ap_action_index :: nat
  ap_payload :: "'n json"
  ap_status :: approval_status
  ap_created_at :: int
  ap_expires_at :: int
  ap_approved_by :: "string option"
  ap_approved_at :: "int option"
  ap_rejected_by :: "string option"
  ap_rejected_at :: "int option"
  ap_rejection_reason :: "string option"
  ap_metadata :: "'n json option"

datatype approval_error =
    NotPending approval_status
  | ExpiredRequest
  | TerminalRequest approval_status
  | ApprovalStore store_error

text \<open>The timeout in seconds is cast from \<^verbatim>\<open>u64\<close> to \<^verbatim>\<open>i64\<close>.\<close>

definition deadline :: "int \<Rightarrow> u64 \<Rightarrow> int" where
  "deadline now timeout_secs = now + 1000 * sint timeout_secs"

definition approval_new ::
  "int \<Rightarrow> string \<Rightarrow> string \<Rightarrow> string \<Rightarrow> string \<Rightarrow> nat \<Rightarrow> 'n json \<Rightarrow> u64 \<Rightarrow> 'n approval" where
  "approval_new now request_id approval_type execution_id workflow_id action_index payload timeout_secs =
     \<lparr>ap_request_id = request_id, ap_approval_type = approval_type, ap_execution_id = execution_id,
      ap_workflow_id = workflow_id, ap_action_index = action_index, ap_payload = payload, ap_status = PendingApproval,
      ap_created_at = now, ap_expires_at = deadline now timeout_secs, ap_approved_by = None, ap_approved_at = None,
      ap_rejected_by = None, ap_rejected_at = None, ap_rejection_reason = None, ap_metadata = None\<rparr>"

definition approval_terminal :: "approval_status \<Rightarrow> bool" where
  "approval_terminal s \<longleftrightarrow> s \<in> {Approved, Rejected, Expired, CancelledApproval}"

definition approval_is_rejected :: "approval_status \<Rightarrow> bool" where
  "approval_is_rejected s \<longleftrightarrow> s \<in> {Rejected, Expired, CancelledApproval}"

definition is_expired :: "int \<Rightarrow> 'n approval \<Rightarrow> bool" where
  "is_expired now r \<longleftrightarrow> now > ap_expires_at r"

definition approve :: "int \<Rightarrow> string \<Rightarrow> 'n approval \<Rightarrow> approval_error + 'n approval" where
  "approve now user r =
     (if ap_status r \<noteq> PendingApproval then Inl (NotPending (ap_status r))
      else if is_expired now r then Inl ExpiredRequest
      else Inr (r\<lparr>ap_status := Approved, ap_approved_by := Some user, ap_approved_at := Some now\<rparr>))"

definition reject :: "int \<Rightarrow> string \<Rightarrow> string option \<Rightarrow> 'n approval \<Rightarrow> approval_error + 'n approval" where
  "reject now user reason r =
     (if ap_status r \<noteq> PendingApproval then Inl (NotPending (ap_status r))
      else Inr (r\<lparr>ap_status := Rejected, ap_rejected_by := Some user, ap_rejected_at := Some now, ap_rejection_reason := reason\<rparr>))"

definition cancel_request :: "'n approval \<Rightarrow> approval_error + 'n approval" where
  "cancel_request r =
     (if approval_terminal (ap_status r) \<and> ap_status r \<noteq> PendingApproval then Inl (TerminalRequest (ap_status r))
      else Inr (r\<lparr>ap_status := CancelledApproval\<rparr>))"

definition expire :: "'n approval \<Rightarrow> approval_error + 'n approval" where
  "expire r =
     (if ap_status r \<noteq> PendingApproval then Inl (NotPending (ap_status r)) else Inr (r\<lparr>ap_status := Expired\<rparr>))"

definition can_decide :: "int \<Rightarrow> 'n approval \<Rightarrow> bool" where
  "can_decide now r \<longleftrightarrow> ap_status r = PendingApproval \<and> \<not> is_expired now r"

definition time_remaining_secs :: "int \<Rightarrow> 'n approval \<Rightarrow> u64" where
  "time_remaining_secs now r = (if now > ap_expires_at r then 0 else word_of_int ((ap_expires_at r - now) div 1000))"

definition is_urgent :: "int \<Rightarrow> 'n approval \<Rightarrow> bool" where
  "is_urgent now r \<longleftrightarrow> ap_status r = PendingApproval \<and> time_remaining_secs now r < 3600"

definition set_metadata :: "'n json \<Rightarrow> 'n approval \<Rightarrow> 'n approval" where
  "set_metadata m r = r\<lparr>ap_metadata := Some m\<rparr>"

section \<open>The in-memory backend\<close>

type_synonym 'n approvals = "(string, 'n approval) hmap"

definition ab_save :: "'n approval \<Rightarrow> 'n approvals \<Rightarrow> store_error + 'n approvals" where
  "ab_save r b =
     (if map_of b (ap_request_id r) \<noteq> None then Inl (AlreadyExists (ap_request_id r))
      else Inr (AList.update (ap_request_id r) r b))"

definition ab_get :: "string \<Rightarrow> 'n approvals \<Rightarrow> 'n approval option" where
  "ab_get k b = map_of b k"

definition ab_update :: "'n approval \<Rightarrow> 'n approvals \<Rightarrow> store_error + 'n approvals" where
  "ab_update r b =
     (if map_of b (ap_request_id r) = None then Inl (NotFound (ap_request_id r))
      else Inr (AList.update (ap_request_id r) r b))"

definition ab_delete :: "string \<Rightarrow> 'n approvals \<Rightarrow> store_error + 'n approvals" where
  "ab_delete k b = (if map_of b k = None then Inl (NotFound k) else Inr (AList.delete k b))"

definition ab_list_by_execution :: "string \<Rightarrow> 'n approvals \<Rightarrow> 'n approval list" where
  "ab_list_by_execution x b = sort_key (\<lambda>r. - ap_created_at r) (filter (\<lambda>r. ap_execution_id r = x) (map snd b))"

definition ab_list_by_workflow :: "string \<Rightarrow> nat \<Rightarrow> nat \<Rightarrow> 'n approvals \<Rightarrow> 'n approval list" where
  "ab_list_by_workflow w limit offset b =
     take limit (drop offset (sort_key (\<lambda>r. - ap_created_at r) (filter (\<lambda>r. ap_workflow_id r = w) (map snd b))))"

definition ab_list_by_status :: "approval_status \<Rightarrow> nat \<Rightarrow> nat \<Rightarrow> 'n approvals \<Rightarrow> 'n approval list" where
  "ab_list_by_status s limit offset b =
     take limit (drop offset (sort_key (\<lambda>r. - ap_created_at r) (filter (\<lambda>r. ap_status r = s) (map snd b))))"

definition ab_list_pending :: "nat \<Rightarrow> 'n approvals \<Rightarrow> 'n approval list" where
  "ab_list_pending limit b = take limit (sort_key ap_expires_at (filter (\<lambda>r. ap_status r = PendingApproval) (map snd b)))"

definition ab_find_expired :: "int \<Rightarrow> nat \<Rightarrow> 'n approvals \<Rightarrow> 'n approval list" where
  "ab_find_expired as_of limit b =
     take limit (sort_key ap_expires_at (filter (\<lambda>r. ap_status r = PendingApproval \<and> ap_expires_at r < as_of) (map snd b)))"

definition ab_find_urgent :: "int \<Rightarrow> u64 \<Rightarrow> nat \<Rightarrow> 'n approvals \<Rightarrow> 'n approval list" where
  "ab_find_urgent now within_secs limit b =
     take limit (sort_key ap_expires_at
       (filter (\<lambda>r. ap_status r = PendingApproval \<and> ap_expires_at r > now \<and> ap_expires_at r \<le> deadline now within_secs)
         (map snd b)))"

definition ab_count_by_status :: "approval_status \<Rightarrow> 'n approvals \<Rightarrow> nat" where
  "ab_count_by_status s b = length (filter (\<lambda>r. ap_status r = s) (map snd b))"

section \<open>Decisions through the store\<close>

datatype decision = DApprove string | DReject string "string option" | DCancel | DExpire

definition decide :: "int \<Rightarrow> decision \<Rightarrow> 'n approval \<Rightarrow> approval_error + 'n approval" where
  "decide now d r =
     (case d of
        DApprove user \<Rightarrow> approve now user r
      | DReject user reason \<Rightarrow> reject now user reason r
      | DCancel \<Rightarrow> cancel_request r
      | DExpire \<Rightarrow> expire r)"

definition get_required :: "string \<Rightarrow> 'n approvals \<Rightarrow> approval_error + 'n approval" where
  "get_required k b = (case ab_get k b of None \<Rightarrow> Inl (ApprovalStore (NotFound k)) | Some r \<Rightarrow> Inr r)"

definition store_put :: "'n approval \<Rightarrow> 'n approvals \<Rightarrow> approval_error + 'n approvals" where
  "store_put r b = (case ab_update r b of Inl e \<Rightarrow> Inl (ApprovalStore e) | Inr b' \<Rightarrow> Inr b')"

definition store_decide :: "int \<Rightarrow> decision \<Rightarrow> string \<Rightarrow> 'n approvals \<Rightarrow> approval_error + 'n approvals" where
  "store_decide now d k b = try_bind (get_required k b) (\<lambda>r. try_bind (decide now d r) (\<lambda>r'. store_put r' b))"

section \<open>The life of a request\<close>

lemmas decision_defs = approve_def reject_def cancel_request_def expire_def

lemma decide_pending: "decide now d r = Inr r' \<Longrightarrow> ap_status r = PendingApproval"
  by (cases d; cases "ap_status r") (auto simp: decide_def decision_defs approval_terminal_def split: if_splits)

lemma decide_terminal: "decide now d r = Inr r' \<Longrightarrow> approval_terminal (ap_status r')"
  by (cases d) (auto simp: decide_def decision_defs approval_terminal_def split: if_splits)

lemma decide_key: "decide now d r = Inr r' \<Longrightarrow> ap_request_id r' = ap_request_id r \<and> ap_expires_at r' = ap_expires_at r"
  by (cases d) (auto simp: decide_def decision_defs split: if_splits)

text \<open>What the fields of a request say about its status.\<close>

definition approval_wf :: "'n approval \<Rightarrow> bool" where
  "approval_wf r \<longleftrightarrow>
     (ap_approved_by r \<noteq> None \<longleftrightarrow> ap_status r = Approved) \<and>
     (case ap_approved_at r of None \<Rightarrow> ap_status r \<noteq> Approved | Some t \<Rightarrow> ap_status r = Approved \<and> t \<le> ap_expires_at r) \<and>
     (ap_rejected_by r \<noteq> None \<longleftrightarrow> ap_status r = Rejected) \<and> (ap_rejected_at r \<noteq> None \<longleftrightarrow> ap_status r = Rejected) \<and>
     (ap_rejection_reason r \<noteq> None \<longrightarrow> ap_status r = Rejected)"

lemma approval_wf_new: "approval_wf (approval_new now rid ty x w i p t)"
  by (simp add: approval_wf_def approval_new_def)

lemma decide_wf:
  assumes "approval_wf r" "decide now d r = Inr r'"
  shows "approval_wf r'"
proof -
  have "ap_status r = PendingApproval"
    using decide_pending [OF assms(2)] .
  thus ?thesis
    using assms
    by (cases d) (auto simp: decide_def decision_defs approval_wf_def is_expired_def split: if_splits option.splits)
qed

definition approvals_wf :: "'n approvals \<Rightarrow> bool" where
  "approvals_wf b \<longleftrightarrow> hm_wf b \<and> (\<forall>(k, r) \<in> set b. ap_request_id r = k)"

lemma approvals_wf_key: "approvals_wf b \<Longrightarrow> map_of b k = Some r \<Longrightarrow> ap_request_id r = k"
  by (fastforce simp: approvals_wf_def dest: map_of_SomeD)

lemma approvals_wf_put: "approvals_wf b \<Longrightarrow> approvals_wf (AList.update (ap_request_id r) r b)"
  using set_update_subset [of "ap_request_id r" r b] by (fastforce simp: approvals_wf_def)

lemma approvals_wf_delete: "approvals_wf b \<Longrightarrow> approvals_wf (AList.delete k b)"
  by (simp add: approvals_wf_def) (simp add: AList.delete_eq)

interpretation approval_store: record_store ap_request_id "\<lambda>r. r" approvals_wf ab_get ab_save ab_update ab_delete
proof unfold_locales
  fix b :: "'n approvals" and k r
  assume wf: "approvals_wf b"
  show "ap_request_id r = k" if "ab_get k b = Some r"
    using that approvals_wf_key [OF wf] by (simp add: ab_get_def)
  show "ab_save r b = Inl (AlreadyExists (ap_request_id r))" if "ab_get (ap_request_id r) b \<noteq> None"
    using that by (simp add: ab_save_def ab_get_def)
  show "\<exists>b'. ab_save r b = Inr b' \<and> approvals_wf b' \<and> (\<forall>k. map_option (\<lambda>r. r) (ab_get k b') =
      (if k = ap_request_id r then Some r else map_option (\<lambda>r. r) (ab_get k b)))" if "ab_get (ap_request_id r) b = None"
    using that approvals_wf_put [OF wf] by (simp add: ab_save_def ab_get_def update_conv' option.map_ident)
  show "ab_update r b = Inl (NotFound (ap_request_id r))" if "ab_get (ap_request_id r) b = None"
    using that by (simp add: ab_update_def ab_get_def)
  show "\<exists>b'. ab_update r b = Inr b' \<and> approvals_wf b' \<and> (\<forall>k. map_option (\<lambda>r. r) (ab_get k b') =
      (if k = ap_request_id r then Some r else map_option (\<lambda>r. r) (ab_get k b)))" if "ab_get (ap_request_id r) b \<noteq> None"
    using that approvals_wf_put [OF wf] by (simp add: ab_update_def ab_get_def update_conv' option.map_ident)
  show "ab_delete k b = Inl (NotFound k)" if "ab_get k b = None"
    using that by (simp add: ab_delete_def ab_get_def)
  show "\<exists>b'. ab_delete k b = Inr b' \<and> approvals_wf b' \<and> (\<forall>k'. map_option (\<lambda>r. r) (ab_get k' b') =
      (if k' = k then None else map_option (\<lambda>r. r) (ab_get k' b)))" if "ab_get k b \<noteq> None"
    using that approvals_wf_delete [OF wf] by (simp add: ab_delete_def ab_get_def delete_conv' option.map_ident)
qed

lemma approval_contents: "approval_store.contents b k = ab_get k b"
  by (simp add: approval_store.contents_def option.map_ident)

lemma store_put_Inr [simp]: "store_put r b = Inr b' \<longleftrightarrow> ab_update r b = Inr b'"
  by (simp add: store_put_def split: sum.split)

text \<open>A decision succeeds exactly when the request takes it, and then it changes this request only.\<close>

lemma store_decide_ok:
  assumes "approvals_wf b"
  shows "store_decide now d k b = Inr b' \<longleftrightarrow>
     (\<exists>r r'. ab_get k b = Some r \<and> decide now d r = Inr r' \<and> b' = AList.update k r' b)"
proof
  assume "store_decide now d k b = Inr b'"
  then obtain r r' where r: "ab_get k b = Some r" "decide now d r = Inr r'" "ab_update r' b = Inr b'"
    by (auto simp: store_decide_def get_required_def try_bind_Inr_conv split: option.splits)
  moreover have "ap_request_id r' = k"
    using decide_key [OF r(2)] approval_store.get_key [OF assms r(1)] by simp
  ultimately show "\<exists>r r'. ab_get k b = Some r \<and> decide now d r = Inr r' \<and> b' = AList.update k r' b"
    by (auto simp: ab_update_def split: if_splits)
next
  assume "\<exists>r r'. ab_get k b = Some r \<and> decide now d r = Inr r' \<and> b' = AList.update k r' b"
  then obtain r r' where r: "ab_get k b = Some r" "decide now d r = Inr r'" "b' = AList.update k r' b"
    by blast
  moreover have "ap_request_id r' = k"
    using decide_key [OF r(2)] approval_store.get_key [OF assms r(1)] by simp
  ultimately show "store_decide now d k b = Inr b'"
    by (simp add: store_decide_def get_required_def ab_update_def ab_get_def)
qed

lemma store_decide_wf: "approvals_wf b \<Longrightarrow> store_decide now d k b = Inr b' \<Longrightarrow> approvals_wf b'"
proof -
  assume wf: "approvals_wf b" and ok: "store_decide now d k b = Inr b'"
  then obtain r r' where r: "ab_get k b = Some r" "decide now d r = Inr r'" "b' = AList.update k r' b"
    using store_decide_ok [OF wf] by blast
  moreover have "ap_request_id r' = k"
    using decide_key [OF r(2)] approval_store.get_key [OF wf r(1)] by simp
  ultimately show "approvals_wf b'"
    using approvals_wf_put [OF wf, of r'] by simp
qed

section \<open>Sequences of decisions\<close>

type_synonym decision_call = "int \<times> decision \<times> string"

definition decide_step :: "decision_call \<Rightarrow> 'n approvals \<Rightarrow> 'n approvals" where
  "decide_step call b = (case call of (now, d, k) \<Rightarrow> (case store_decide now d k b of Inr b' \<Rightarrow> b' | Inl _ \<Rightarrow> b))"

text \<open>The first call of a sequence that the request takes.\<close>

fun first_decision :: "decision_call list \<Rightarrow> string \<Rightarrow> 'n approval \<Rightarrow> 'n approval" where
  "first_decision [] k r = r"
| "first_decision ((now, d, k') # calls) k r =
     (if k' = k then (case decide now d r of Inr r' \<Rightarrow> r' | Inl _ \<Rightarrow> first_decision calls k r) else first_decision calls k r)"

lemma decide_step_get:
  assumes "approvals_wf b"
  shows "approvals_wf (decide_step (now, d, k') b) \<and>
     ab_get k (decide_step (now, d, k') b) =
       (if k' = k then map_option (\<lambda>r. case decide now d r of Inr r' \<Rightarrow> r' | Inl _ \<Rightarrow> r) (ab_get k b) else ab_get k b)"
proof (cases "store_decide now d k' b")
  case (Inl e)
  hence "\<And>r r'. ab_get k' b = Some r \<Longrightarrow> decide now d r \<noteq> Inr r'"
    using store_decide_ok [OF assms, of now d k'] by fastforce
  hence "ab_get k' b = map_option (\<lambda>r. case decide now d r of Inr r' \<Rightarrow> r' | Inl _ \<Rightarrow> r) (ab_get k' b)"
    by (cases "ab_get k' b") (auto split: sum.split)
  thus ?thesis
    using assms Inl by (auto simp: decide_step_def)
next
  case (Inr b')
  then obtain r r' where "ab_get k' b = Some r" "decide now d r = Inr r'" "b' = AList.update k' r' b"
    using store_decide_ok [OF assms] by blast
  thus ?thesis
    using Inr store_decide_wf [OF assms Inr] by (auto simp: decide_step_def ab_get_def update_conv')
qed

lemma first_decision_decided: "ap_status r \<noteq> PendingApproval \<Longrightarrow> first_decision calls k r = r"
  by (induction calls k r rule: first_decision.induct) (auto split: sum.split dest: decide_pending)

lemma run_decisions:
  assumes "approvals_wf b" "ab_get k b = Some r"
  shows "ab_get k (fold decide_step calls b) = Some (first_decision calls k r)"
  using assms
proof (induction calls arbitrary: b r)
  case (Cons call calls)
  obtain now d k' where call: "call = (now, d, k')"
    by (cases call)
  note step = decide_step_get [OF Cons.prems(1), of now d k' k]
  show ?case
  proof (cases "k' = k \<and> is_ok (decide now d r)")
    case True
    then obtain r' where r': "decide now d r = Inr r'"
      by (auto simp: is_ok_conv)
    hence "ap_status r' \<noteq> PendingApproval"
      using decide_terminal [OF r'] by (auto simp: approval_terminal_def)
    thus ?thesis
      using True r' step Cons.IH [of "decide_step (now, d, k') b" r'] Cons.prems(2) by (simp add: call first_decision_decided)
  next
    case False
    hence "ab_get k (decide_step (now, d, k') b) = Some r"
      using step Cons.prems(2) by (auto split: sum.split)
    thus ?thesis
      using False step Cons.IH [of "decide_step (now, d, k') b" r] by (auto simp: call split: sum.split)
  qed
qed simp

lemma first_decision_approved:
  "ap_status r = PendingApproval \<Longrightarrow> ap_status (first_decision calls k r) = Approved \<Longrightarrow>
     \<exists>now user. (now, DApprove user, k) \<in> set calls \<and> now \<le> ap_expires_at r \<and>
       first_decision calls k r = r\<lparr>ap_status := Approved, ap_approved_by := Some user, ap_approved_at := Some now\<rparr>"
proof (induction calls)
  case (Cons call calls)
  obtain now d k' where call: "call = (now, d, k')"
    by (cases call)
  show ?case
  proof (cases "k' = k \<and> is_ok (decide now d r)")
    case True
    then obtain r' where r': "decide now d r = Inr r'"
      by (auto simp: is_ok_conv)
    hence fst: "first_decision (call # calls) k r = r'"
      using True by (simp add: call)
    have "ap_status r' = Approved"
      using Cons.prems(2) unfolding fst .
    then obtain user where "d = DApprove user" "now \<le> ap_expires_at r"
        "r' = r\<lparr>ap_status := Approved, ap_approved_by := Some user, ap_approved_at := Some now\<rparr>"
      using r' by (cases d) (auto simp: decide_def decision_defs is_expired_def split: if_splits)
    thus ?thesis
      using True fst by (intro exI [of _ now] exI [of _ user]) (simp add: call)
  next
    case False
    hence "first_decision (call # calls) k r = first_decision calls k r"
      by (auto simp: call split: sum.split)
    thus ?thesis
      using Cons by auto
  qed
qed simp

section \<open>Decisions at the same time\<close>

text \<open>
  A decision is three steps: a client fetches the request, decides on its copy, and writes it back; other clients can come
  in between. The state has the store and, per client, the copy it decided on.
\<close>

type_synonym 'n race = "'n approvals \<times> (nat \<Rightarrow> 'n approval option)"

inductive race_step :: "'n race \<Rightarrow> 'n race \<Rightarrow> bool" where
  fetches: "get_required k b = Inr r \<Longrightarrow> decide now d r = Inr r' \<Longrightarrow> race_step (b, p) (b, p(c \<mapsto> r'))"
| writes: "p c = Some r \<Longrightarrow> store_put r b = Inr b' \<Longrightarrow> race_step (b, p) (b', p(c := None))"

definition race_status :: "'n race \<Rightarrow> string \<Rightarrow> approval_status option" where
  "race_status s k = map_option ap_status (ab_get k (fst s))"

text \<open>The steps of a decision in one go are the call that \<open>store_decide\<close> describes.\<close>

lemma store_decide_steps:
  assumes "store_decide now d k b = Inr b'"
  shows "race_step\<^sup>*\<^sup>* (b, p) (b', p(c := None))"
proof -
  obtain r r' where r: "get_required k b = Inr r" "decide now d r = Inr r'" "store_put r' b = Inr b'"
    using assms by (auto simp: store_decide_def try_bind_Inr_conv)
  have "race_step (b, p) (b, p(c \<mapsto> r'))" by (rule race_step.fetches [OF r(1,2)])
  moreover have "race_step (b, p(c \<mapsto> r')) (b', (p(c \<mapsto> r'))(c := None))" by (rule race_step.writes [OF _ r(3)]) simp
  ultimately show ?thesis by simp
qed

text \<open>Whatever the clients do, a request is what it was or what one decision makes of it, and so is every copy.\<close>

definition decided_from :: "'n approvals \<Rightarrow> string \<Rightarrow> 'n approval \<Rightarrow> bool" where
  "decided_from b k r' \<longleftrightarrow> (\<exists>r now d. ab_get k b = Some r \<and> decide now d r = Inr r')"

definition race_inv :: "'n approvals \<Rightarrow> 'n race \<Rightarrow> bool" where
  "race_inv b s \<longleftrightarrow> approvals_wf (fst s) \<and>
     (\<forall>k. (ab_get k (fst s) = None \<longleftrightarrow> ab_get k b = None) \<and>
        (\<forall>r. ab_get k (fst s) = Some r \<longrightarrow> ab_get k b = Some r \<or> decided_from b k r)) \<and>
     (\<forall>c r. snd s c = Some r \<longrightarrow> decided_from b (ap_request_id r) r)"

lemma decided_from_terminal: "decided_from b k r' \<Longrightarrow> ap_status r' \<noteq> PendingApproval"
  using decide_terminal by (fastforce simp: decided_from_def approval_terminal_def)

lemma race_inv_start: "approvals_wf b \<Longrightarrow> race_inv b (b, \<lambda>_. None)"
  by (simp add: race_inv_def)

lemma race_inv_step:
  assumes "race_inv b s" "race_step s s'"
  shows "race_inv b s'"
  using assms(2,1)
proof (induction rule: race_step.induct)
  case (fetches k b1 r now d r' p c)
  have get: "ab_get k b1 = Some r" using fetches(1) by (auto simp: get_required_def split: option.splits)
  have "\<not> decided_from b k r" using decided_from_terminal decide_pending [OF fetches(2)] by blast
  then have "ab_get k b = Some r" using fetches(3) get by (auto simp: race_inv_def)
  moreover have "ap_request_id r' = k"
    using decide_key [OF fetches(2)] approval_store.get_key [OF _ get] fetches(3) by (simp add: race_inv_def)
  ultimately have "decided_from b (ap_request_id r') r'" using fetches(2) by (auto simp: decided_from_def)
  then show ?case using fetches(3) by (simp add: race_inv_def)
next
  case (writes p c r b1 b2)
  have b2: "b2 = AList.update (ap_request_id r) r b1" using writes(2) by (simp add: ab_update_def split: if_splits)
  have "decided_from b (ap_request_id r) r" using writes(1,3) by (simp add: race_inv_def)
  moreover from this have "ab_get (ap_request_id r) b \<noteq> None" by (auto simp: decided_from_def)
  ultimately show ?case
    using writes(3) approvals_wf_put [of b1 r] by (auto simp: race_inv_def b2 ab_get_def update_conv')
qed

lemma race_inv_run: "race_step\<^sup>*\<^sup>* s s' \<Longrightarrow> race_inv b s \<Longrightarrow> race_inv b s'"
  by (induction rule: rtranclp_induct) (auto intro: race_inv_step)

text \<open>A decided request of which no client holds a copy.\<close>

definition decision_final :: "string \<Rightarrow> 'n approval \<Rightarrow> 'n race \<Rightarrow> bool" where
  "decision_final k r s \<longleftrightarrow> ab_get k (fst s) = Some r \<and> ap_status r \<noteq> PendingApproval \<and>
     approvals_wf (fst s) \<and> (\<forall>c r'. snd s c = Some r' \<longrightarrow> ap_request_id r' \<noteq> k)"

lemma decision_final_step:
  assumes "decision_final k r s" "race_step s s'"
  shows "decision_final k r s'"
  using assms(2,1)
proof (induction rule: race_step.induct)
  case (fetches k' b1 r1 now d r' p c)
  have get: "ab_get k' b1 = Some r1" using fetches(1) by (auto simp: get_required_def split: option.splits)
  have "k' \<noteq> k" using fetches(3) get decide_pending [OF fetches(2)] by (auto simp: decision_final_def)
  moreover have "ap_request_id r' = k'"
    using decide_key [OF fetches(2)] approval_store.get_key [OF _ get] fetches(3) by (simp add: decision_final_def)
  ultimately show ?case using fetches(3) by (simp add: decision_final_def)
next
  case (writes p c r' b1 b2)
  have "b2 = AList.update (ap_request_id r') r' b1" using writes(2) by (simp add: ab_update_def split: if_splits)
  moreover have "ap_request_id r' \<noteq> k" using writes(1,3) by (simp add: decision_final_def)
  ultimately show ?case
    using writes(3) approvals_wf_put [of b1 r'] by (auto simp: decision_final_def ab_get_def update_conv')
qed

lemma decision_final_run: "race_step\<^sup>*\<^sup>* s s' \<Longrightarrow> decision_final k r s \<Longrightarrow> decision_final k r s'"
  by (induction rule: rtranclp_induct) (auto intro: decision_final_step)

lemma decide_approved:
  assumes "decide now d r = Inr r'" "ap_status r' = Approved"
  shows "\<exists>user. now \<le> ap_expires_at r \<and>
    r' = r\<lparr>ap_status := Approved, ap_approved_by := Some user, ap_approved_at := Some now\<rparr>"
  using assms by (cases d) (auto simp: decide_def decision_defs is_expired_def split: if_splits)

text \<open>
  C22. A request takes one decision.  The code does not lock the store between reading a request and writing the decided copy
  back, so clients interleave.  However their approvals, rejections, cancellations and expirations interleave, at any time
  the stored request is the original one or what a single decision makes of the original, with consistent fields; a request
  that was decided before stays as it was; an approval records a user and a time not after the deadline.  A decision that
  is stored is final once no client holds a decided copy of this request that it has yet to write (while one does, its write
  replaces the stored decision: \<open>racing_decisions\<close>).  And when the calls follow one another, the request ends with the
  first of them that it takes, no later call changes it, and it is approved only by a call for it before its deadline.
\<close>

theorem approvals_decided_once:
  assumes "approvals_wf b" "ab_get k b = Some r" "approval_wf r" "race_step\<^sup>*\<^sup>* (b, \<lambda>_. None) (b1, p1)"
  shows "(\<exists>r1. ab_get k b1 = Some r1 \<and> approval_wf r1 \<and> (r1 = r \<or> (\<exists>now d. decide now d r = Inr r1)) \<and>
       (ap_status r \<noteq> PendingApproval \<longrightarrow> r1 = r) \<and>
       (ap_status r = PendingApproval \<and> ap_status r1 = Approved \<longrightarrow> (\<exists>now user. now \<le> ap_expires_at r \<and>
          r1 = r\<lparr>ap_status := Approved, ap_approved_by := Some user, ap_approved_at := Some now\<rparr>)) \<and>
       (ap_status r1 \<noteq> PendingApproval \<and> (\<forall>c r'. p1 c = Some r' \<longrightarrow> ap_request_id r' \<noteq> k) \<longrightarrow>
          (\<forall>b2 p2. race_step\<^sup>*\<^sup>* (b1, p1) (b2, p2) \<longrightarrow> ab_get k b2 = Some r1))) \<and>
     ab_get k (fold decide_step calls b) = Some (first_decision calls k r) \<and>
     (ap_status r = PendingApproval \<and> ap_status (first_decision calls k r) = Approved \<longrightarrow>
        (\<exists>now user. (now, DApprove user, k) \<in> set calls \<and> now \<le> ap_expires_at r \<and>
           first_decision calls k r = r\<lparr>ap_status := Approved, ap_approved_by := Some user, ap_approved_at := Some now\<rparr>))"
proof -
  have inv: "race_inv b (b1, p1)" by (rule race_inv_run [OF assms(4) race_inv_start [OF assms(1)]])
  then have "ab_get k b1 \<noteq> None" using assms(2) by (simp add: race_inv_def)
  then obtain r1 where got: "ab_get k b1 = Some r1" by blast
  then have "ab_get k b = Some r1 \<or> decided_from b k r1" using inv by (simp add: race_inv_def)
  then have r1: "ab_get k b1 = Some r1" "r1 = r \<or> (\<exists>now d. decide now d r = Inr r1)"
    using assms(2) got by (auto simp: decided_from_def)
  have "approval_wf r1" using r1(2) decide_wf [OF assms(3)] assms(3) by blast
  moreover have "r1 = r" if "ap_status r \<noteq> PendingApproval" using r1(2) that decide_pending by blast
  moreover have "\<exists>now user. now \<le> ap_expires_at r \<and>
      r1 = r\<lparr>ap_status := Approved, ap_approved_by := Some user, ap_approved_at := Some now\<rparr>"
    if "ap_status r = PendingApproval" "ap_status r1 = Approved"
    using r1(2) that decide_approved by fastforce
  moreover have "ab_get k b2 = Some r1"
    if "ap_status r1 \<noteq> PendingApproval" "\<forall>c r'. p1 c = Some r' \<longrightarrow> ap_request_id r' \<noteq> k" "race_step\<^sup>*\<^sup>* (b1, p1) (b2, p2)" for b2 p2
    using decision_final_run [OF that(3), of k r1] that(1,2) r1(1) inv by (simp add: decision_final_def race_inv_def)
  ultimately show ?thesis using r1 run_decisions [OF assms(1,2)] first_decision_approved [of r calls k] by blast
qed

definition demo_approval :: "unit approval" where
  "demo_approval = approval_new 0 ''a1'' ''ddl_execution'' ''e1'' ''w1'' 2 JNull 60"

definition demo_decisions :: "decision_call list" where
  "demo_decisions = [(70000, DApprove ''eve'', ''a1''), (50000, DApprove ''bob'', ''a1''), (50001, DReject ''eve'' None, ''a1'')]"

lemma deadline_demo: "deadline 0 60 = 60000"
  by (simp add: deadline_def)

theorem approvals_decided_once_witness:
  "\<exists>b1. race_step\<^sup>*\<^sup>* ([(''a1'', demo_approval)], \<lambda>_. None) (b1, \<lambda>_. None) \<and> (\<exists>r1. ab_get ''a1'' b1 = Some r1 \<and> approval_wf r1) \<and>
     ab_get ''a1'' (fold decide_step demo_decisions [(''a1'', demo_approval)]) =
       Some (demo_approval\<lparr>ap_status := Approved, ap_approved_by := Some ''bob'', ap_approved_at := Some 50000\<rparr>)"
proof -
  let ?b = "[(''a1'', demo_approval)]"
  have b: "approvals_wf ?b" "ab_get ''a1'' ?b = Some demo_approval"
    by (simp_all add: approvals_wf_def hm_wf_def demo_approval_def approval_new_def ab_get_def)
  have r: "approval_wf demo_approval"
    unfolding demo_approval_def by (rule approval_wf_new)
  define app where "app = demo_approval\<lparr>ap_status := Approved, ap_approved_by := Some ''bob'', ap_approved_at := Some 50000\<rparr>"
  have dec: "decide 50000 (DApprove ''bob'') demo_approval = Inr app"
    by (simp add: app_def decide_def approve_def demo_approval_def approval_new_def is_expired_def deadline_demo)
  have "store_decide 50000 (DApprove ''bob'') ''a1'' ?b = Inr (AList.update ''a1'' app ?b)"
    unfolding store_decide_ok [OF b(1)] using b(2) dec by blast
  from store_decide_steps [OF this, of "\<lambda>_. None" 0]
  have run: "race_step\<^sup>*\<^sup>* (?b, \<lambda>_. None) (AList.update ''a1'' app ?b, \<lambda>_. None)" by (simp add: fun_upd_idem)
  have "first_decision demo_decisions ''a1'' demo_approval =
      demo_approval\<lparr>ap_status := Approved, ap_approved_by := Some ''bob'', ap_approved_at := Some 50000\<rparr>"
    by (simp add: demo_decisions_def decide_def approve_def demo_approval_def approval_new_def is_expired_def deadline_demo)
  thus ?thesis
    using approvals_decided_once [OF b r run, of demo_decisions] run by auto
qed

text \<open>
  Two clients that decide at the same time can both succeed: a request that is approved in the store is later rejected
  there. So a stored decision is final only when no other client is between its read and its write.
\<close>

lemma racing_decisions:
  "\<exists>s1 s2. race_step\<^sup>*\<^sup>* ([(''a1'', demo_approval)], \<lambda>_. None) s1 \<and> race_status s1 ''a1'' = Some Approved \<and>
     race_step\<^sup>*\<^sup>* s1 s2 \<and> race_status s2 ''a1'' = Some Rejected"
proof -
  define app where "app = demo_approval\<lparr>ap_status := Approved, ap_approved_by := Some ''bob'', ap_approved_at := Some 1\<rparr>"
  define rej where "rej = demo_approval\<lparr>ap_status := Rejected, ap_rejected_by := Some ''eve'', ap_rejected_at := Some 1\<rparr>"
  have dec: "decide 1 (DApprove ''bob'') demo_approval = Inr app" "decide 1 (DReject ''eve'' None) demo_approval = Inr rej"
    by (simp_all add: decide_def approve_def reject_def is_expired_def app_def rej_def demo_approval_def approval_new_def deadline_demo)
  have get: "get_required ''a1'' [(''a1'', demo_approval)] = Inr demo_approval"
    by (simp add: get_required_def ab_get_def)
  have ids: "ap_request_id app = ''a1''" "ap_request_id rej = ''a1''"
    by (simp_all add: app_def rej_def demo_approval_def approval_new_def)
  let ?p = "(\<lambda>_. None) :: nat \<Rightarrow> unit approval option"
  have 1: "race_step ([(''a1'', demo_approval)], ?p) ([(''a1'', demo_approval)], ?p(0 \<mapsto> app))"
    by (rule race_step.fetches [OF get dec(1)])
  have 2: "race_step ([(''a1'', demo_approval)], ?p(0 \<mapsto> app)) ([(''a1'', demo_approval)], ?p(0 \<mapsto> app, 1 \<mapsto> rej))"
    by (rule race_step.fetches [OF get dec(2)])
  have 3: "race_step ([(''a1'', demo_approval)], ?p(0 \<mapsto> app, 1 \<mapsto> rej)) ([(''a1'', app)], (?p(0 \<mapsto> app, 1 \<mapsto> rej))(0 := None))"
    by (rule race_step.writes [where r = app]) (simp_all add: ab_update_def ids)
  have 4: "race_step ([(''a1'', app)], (?p(0 \<mapsto> app, 1 \<mapsto> rej))(0 := None)) ([(''a1'', rej)], (?p(0 \<mapsto> app, 1 \<mapsto> rej))(0 := None, 1 := None))"
    by (rule race_step.writes [where r = rej]) (simp_all add: ab_update_def ids)
  have "race_status ([(''a1'', app)], q) ''a1'' = Some Approved" "race_status ([(''a1'', rej)], q) ''a1'' = Some Rejected" for q
    by (simp_all add: race_status_def ab_get_def app_def rej_def)
  thus ?thesis
    using 1 2 3 4 by (meson converse_rtranclp_into_rtranclp r_into_rtranclp rtranclp_trans)
qed

end
