(* ===== verification/BatchJobs.thy ===== *)
theory BatchJobs
  imports Approvals "HOL-Library.Multiset"
begin

text \<open>
  Model of batch jobs: the records of \<^verbatim>\<open>arcxa-coordinator/src/workflows/domain/batch_job.rs\<close> and the
  dependency resolver of \<^verbatim>\<open>workflows/engine/batch_executor.rs\<close>, which orders the executions of a job
  into waves after a depth-first search for cycles. A point in time is a natural number, passed where the code
  reads the clock. The description of a data source is the type variable \<open>'s\<close>, a percentage the type variable
  \<open>'f\<close>. The order in which the search takes the keys of a hash map is a parameter.
\<close>

section \<open>Records\<close>

datatype wx_status = WPending | WRunning | WCompleted | WFailed | WRetrying | WCancelled

datatype batch_status =
    BPending | BValidating | BRunning | BPaused | BCompleted | BPartiallyCompleted | BFailed | BCancelled

datatype transaction_mode = PerFile | AllOrNothing | Batched nat

record 's exec_ref =
  er_execution_id :: string
  er_source :: 's
  er_target_table :: string
  er_status :: wx_status
  er_dependencies :: "string list"
  er_attempt_number :: nat

record 'f batch_progress =
  pg_total_files :: nat
  pg_pending :: nat
  pg_in_progress :: nat
  pg_completed :: nat
  pg_failed :: nat
  pg_retrying :: nat
  pg_percent :: 'f

record batch_config =
  bc_max_parallel :: nat
  bc_stop_on_error :: bool
  bc_retry_failed :: bool
  bc_max_retries :: nat
  bc_transaction_mode :: transaction_mode

record ('s, 'f) batch_job =
  bj_job_id :: string
  bj_name :: string
  bj_workflow_id :: string
  bj_status :: batch_status
  bj_progress :: "'f batch_progress"
  bj_config :: batch_config
  bj_executions :: "'s exec_ref list"
  bj_created_at :: nat
  bj_updated_at :: nat
  bj_started_at :: "nat option"
  bj_completed_at :: "nat option"
  bj_created_by :: string

datatype batch_error =
    EmptyName
  | EmptyBatchWorkflow
  | NoExecutions
  | NoParallelism
  | InvalidDependency string string
  | CircularDependency string
  | TooManyIterations
  | Deadlock nat

text \<open>The percentage as the code computes it from the executions that are done and all executions, and zero.\<close>

record 'f percent_lib =
  pc_of :: "nat \<Rightarrow> nat \<Rightarrow> 'f"
  pc_zero :: 'f

definition progress_new :: "'f percent_lib \<Rightarrow> 'f batch_progress" where
  "progress_new P =
     \<lparr>pg_total_files = 0, pg_pending = 0, pg_in_progress = 0, pg_completed = 0, pg_failed = 0, pg_retrying = 0,
      pg_percent = pc_zero P\<rparr>"

definition batch_job_new ::
  "'f percent_lib \<Rightarrow> nat \<Rightarrow> string \<Rightarrow> string \<Rightarrow> string \<Rightarrow> batch_config \<Rightarrow> string \<Rightarrow> ('s, 'f) batch_job" where
  "batch_job_new P now job_id name workflow_id config created_by =
     \<lparr>bj_job_id = job_id, bj_name = name, bj_workflow_id = workflow_id, bj_status = BPending, bj_progress = progress_new P,
      bj_config = config, bj_executions = [], bj_created_at = now, bj_updated_at = now, bj_started_at = None,
      bj_completed_at = None, bj_created_by = created_by\<rparr>"

definition add_execution :: "nat \<Rightarrow> 's exec_ref \<Rightarrow> ('s, 'f) batch_job \<Rightarrow> ('s, 'f) batch_job" where
  "add_execution now e job =
     (let es = bj_executions job @ [e] in
      job\<lparr>bj_executions := es,
          bj_progress := (bj_progress job)\<lparr>pg_total_files := length es, pg_pending := length es\<rparr>,
          bj_updated_at := now\<rparr>)"

definition batch_terminal :: "batch_status \<Rightarrow> bool" where
  "batch_terminal s \<longleftrightarrow> s \<in> {BCompleted, BPartiallyCompleted, BFailed, BCancelled}"

definition update_status :: "nat \<Rightarrow> batch_status \<Rightarrow> ('s, 'f) batch_job \<Rightarrow> ('s, 'f) batch_job" where
  "update_status now s job =
     job\<lparr>bj_status := s,
         bj_updated_at := now,
         bj_started_at :=
           (if s \<in> {BRunning, BValidating} \<and> bj_started_at job = None then Some now else bj_started_at job),
         bj_completed_at :=
           (if batch_terminal s \<and> bj_completed_at job = None then Some now else bj_completed_at job)\<rparr>"

definition count_status :: "'s exec_ref \<Rightarrow> 'f batch_progress \<Rightarrow> 'f batch_progress" where
  "count_status e p =
     (case er_status e of
        WPending \<Rightarrow> p\<lparr>pg_pending := pg_pending p + 1\<rparr>
      | WRunning \<Rightarrow> p\<lparr>pg_in_progress := pg_in_progress p + 1\<rparr>
      | WCompleted \<Rightarrow> p\<lparr>pg_completed := pg_completed p + 1\<rparr>
      | WFailed \<Rightarrow> p\<lparr>pg_failed := pg_failed p + 1\<rparr>
      | WRetrying \<Rightarrow> p\<lparr>pg_retrying := pg_retrying p + 1\<rparr>
      | WCancelled \<Rightarrow> p\<lparr>pg_failed := pg_failed p + 1\<rparr>)"

definition recalculate_progress :: "'f percent_lib \<Rightarrow> nat \<Rightarrow> ('s, 'f) batch_job \<Rightarrow> ('s, 'f) batch_job" where
  "recalculate_progress P now job =
     (let total = length (bj_executions job);
          p = fold count_status (bj_executions job) ((progress_new P)\<lparr>pg_total_files := total\<rparr>);
          done = pg_completed p + pg_failed p in
      job\<lparr>bj_progress := p\<lparr>pg_percent := (if total > 0 then pc_of P done total else pc_zero P)\<rparr>, bj_updated_at := now\<rparr>)"

definition can_cancel :: "('s, 'f) batch_job \<Rightarrow> bool" where
  "can_cancel job \<longleftrightarrow> \<not> batch_terminal (bj_status job)"

text \<open>The first dependency that is no execution of the job.\<close>

definition missing_dependency :: "'s exec_ref list \<Rightarrow> (string \<times> string) option" where
  "missing_dependency es =
     (let ids = map er_execution_id es in
      find (\<lambda>(_, d). d \<notin> set ids) (concat (map (\<lambda>e. map (Pair (er_execution_id e)) (er_dependencies e)) es)))"

definition batch_validate :: "('s, 'f) batch_job \<Rightarrow> batch_error + unit" where
  "batch_validate job =
     (if bj_name job = [] then Inl EmptyName
      else if bj_workflow_id job = [] then Inl EmptyBatchWorkflow
      else if bj_executions job = [] then Inl NoExecutions
      else if bc_max_parallel (bj_config job) = 0 then Inl NoParallelism
      else (case missing_dependency (bj_executions job) of
              Some (e, d) \<Rightarrow> Inl (InvalidDependency e d)
            | None \<Rightarrow> Inr ()))"

definition dependencies_satisfied :: "string set \<Rightarrow> 's exec_ref \<Rightarrow> bool" where
  "dependencies_satisfied completed e \<longleftrightarrow> list_all (\<lambda>d. d \<in> completed) (er_dependencies e)"

section \<open>The search for cycles\<close>

type_synonym 's exec_map = "string \<Rightarrow> 's exec_ref option"

type_synonym dfs_state = "string set \<times> string set"

text \<open>
  The depth-first search with the visited identifiers and those on the recursion stack. The first argument bounds the
  depth of the recursion; \<open>None\<close> is reached only when it is too small.
\<close>

fun has_cycle :: "nat \<Rightarrow> 's exec_map \<Rightarrow> string \<Rightarrow> dfs_state \<Rightarrow> (bool \<times> dfs_state) option"
  and cycle_deps :: "nat \<Rightarrow> 's exec_map \<Rightarrow> string list \<Rightarrow> dfs_state \<Rightarrow> (bool \<times> dfs_state) option" where
  "has_cycle 0 g x st = None"
| "has_cycle (Suc n) g x (visited, stack) =
     Option.bind (cycle_deps n g (case g x of Some e \<Rightarrow> er_dependencies e | None \<Rightarrow> []) (insert x visited, insert x stack))
       (\<lambda>(found, (visited', stack')). if found then Some (True, (visited', stack')) else Some (False, (visited', stack' - {x})))"
| "cycle_deps n g [] st = Some (False, st)"
| "cycle_deps n g (d # ds) (visited, stack) =
     (if d \<notin> visited then
        Option.bind (has_cycle n g d (visited, stack)) (\<lambda>(found, st). if found then Some (True, st) else cycle_deps n g ds st)
      else if d \<in> stack then Some (True, (visited, stack))
      else cycle_deps n g ds (visited, stack))"

fun detect_loop :: "nat \<Rightarrow> 's exec_map \<Rightarrow> string list \<Rightarrow> dfs_state \<Rightarrow> (batch_error + unit) option" where
  "detect_loop n g [] st = Some (Inr ())"
| "detect_loop n g (x # xs) (visited, stack) =
     (if x \<notin> visited then
        Option.bind (has_cycle n g x (visited, stack))
          (\<lambda>(found, st). if found then Some (Inl (CircularDependency x)) else detect_loop n g xs st)
      else detect_loop n g xs (visited, stack))"

definition detect_circular_dependencies :: "nat \<Rightarrow> string list \<Rightarrow> 's exec_map \<Rightarrow> (batch_error + unit) option" where
  "detect_circular_dependencies n keys g = detect_loop n g keys ({}, {})"

section \<open>Waves\<close>

definition exec_by_id :: "'s exec_ref list \<Rightarrow> 's exec_map" where
  "exec_by_id es = map_of (rev (map (\<lambda>e. (er_execution_id e, e)) es))"

definition ready :: "string set \<Rightarrow> 's exec_ref list \<Rightarrow> 's exec_ref list" where
  "ready completed remaining = filter (dependencies_satisfied completed) remaining"

definition waiting :: "string set \<Rightarrow> 's exec_ref list \<Rightarrow> 's exec_ref list" where
  "waiting completed remaining = filter (\<lambda>e. \<not> dependencies_satisfied completed e) remaining"

text \<open>The loop that takes off the executions whose dependencies are complete; it counts its rounds.\<close>

function (sequential) build_waves ::
  "nat \<Rightarrow> nat \<Rightarrow> 's exec_ref list \<Rightarrow> string set \<Rightarrow> 's exec_ref list list \<Rightarrow> batch_error + 's exec_ref list list" where
  "build_waves max_iterations iterations [] completed waves = Inr waves"
| "build_waves max_iterations iterations remaining completed waves =
     (if iterations + 1 > max_iterations then Inl TooManyIterations
      else
        let current_wave = ready completed remaining; still_waiting = waiting completed remaining in
        if current_wave = [] \<and> still_waiting \<noteq> [] then Inl (Deadlock (length still_waiting))
        else build_waves max_iterations (iterations + 1) still_waiting
               (completed \<union> set (map er_execution_id current_wave))
               (if current_wave \<noteq> [] then waves @ [current_wave] else waves))"
  by pat_completeness auto

termination
  by (relation "measure (\<lambda>(max_iterations, iterations, _). max_iterations - iterations)") auto

definition resolve_dependencies :: "string list \<Rightarrow> 's exec_ref list \<Rightarrow> (batch_error + 's exec_ref list list) option" where
  "resolve_dependencies keys es =
     (case missing_dependency es of
        Some (e, d) \<Rightarrow> Some (Inl (InvalidDependency e d))
      | None \<Rightarrow>
          Option.bind (detect_circular_dependencies (length es + 1) keys (exec_by_id es)) (\<lambda>r.
            Some (try_bind r (\<lambda>_. build_waves (length es + 1) 0 es {} []))))"

section \<open>The search is right\<close>

definition depends :: "'s exec_map \<Rightarrow> (string \<times> string) set" where
  "depends g = {(a, b). \<exists>e. g a = Some e \<and> b \<in> set (er_dependencies e)}"

text \<open>A set of identifiers that the search has finished with: it leads nowhere else, and no member is on a cycle.\<close>

definition settled :: "'s exec_map \<Rightarrow> string set \<Rightarrow> bool" where
  "settled g D \<longleftrightarrow> depends g `` D \<subseteq> D \<and> (\<forall>x \<in> D. (x, x) \<notin> (depends g)\<^sup>+)"

lemma settled_reach: "settled g D \<Longrightarrow> x \<in> D \<Longrightarrow> (x, y) \<in> (depends g)\<^sup>* \<Longrightarrow> y \<in> D"
  unfolding settled_def by (metis Image_closed_trancl ImageI)

lemma settled_insert:
  assumes "settled g D" "x \<notin> D" "depends g `` {x} \<subseteq> D"
  shows "settled g (insert x D)"
proof -
  have "(x, x) \<notin> (depends g)\<^sup>+"
  proof
    assume "(x, x) \<in> (depends g)\<^sup>+"
    then obtain y where "(x, y) \<in> depends g" "(y, x) \<in> (depends g)\<^sup>*"
      by (meson tranclD)
    thus False
      using assms settled_reach [of g D y x] by blast
  qed
  thus ?thesis
    using assms by (auto simp: settled_def)
qed

lemma depends_Some: "g x = Some e \<Longrightarrow> depends g `` {x} = set (er_dependencies e)"
  by (auto simp: depends_def)

lemma depends_dom: "(x, y) \<in> depends g \<Longrightarrow> x \<in> dom g"
  by (auto simp: depends_def)

lemma depends_None: "g x = None \<Longrightarrow> depends g `` {x} = {}"
  by (auto simp: depends_def)

lemma depends_list:
  "depends g `` {x} = set (case g x of Some e \<Rightarrow> er_dependencies e | None \<Rightarrow> [])"
  by (cases "g x") (simp_all add: depends_Some depends_None)

definition dfs_inv :: "'s exec_map \<Rightarrow> string \<Rightarrow> dfs_state \<Rightarrow> bool" where
  "dfs_inv g x st \<longleftrightarrow>
     (case st of (visited, stack) \<Rightarrow>
        stack \<subseteq> visited \<and> settled g (visited - stack) \<and> (\<forall>y \<in> stack. (y, x) \<in> (depends g)\<^sup>*))"

definition cyclic :: "'s exec_map \<Rightarrow> bool" where
  "cyclic g \<longleftrightarrow> (\<exists>x. (x, x) \<in> (depends g)\<^sup>+)"

lemma dfs_inv_push: "dfs_inv g x (visited, stack) \<Longrightarrow> x \<notin> visited \<Longrightarrow> dfs_inv g x (insert x visited, insert x stack)"
proof -
  assume inv: "dfs_inv g x (visited, stack)" and x: "x \<notin> visited"
  hence "insert x visited - insert x stack = visited - stack"
    by (auto simp: dfs_inv_def)
  thus ?thesis
    using inv by (auto simp: dfs_inv_def)
qed

lemma dfs_inv_step: "dfs_inv g x st \<Longrightarrow> (x, d) \<in> depends g \<Longrightarrow> dfs_inv g d st"
  by (auto simp: dfs_inv_def intro: rtrancl_into_rtrancl)

lemma dfs_correct:
  "has_cycle n g x st = Some (found, st') \<Longrightarrow> x \<notin> fst st \<Longrightarrow> dfs_inv g x st \<Longrightarrow>
     (if found then cyclic g else snd st' = snd st \<and> insert x (fst st) \<subseteq> fst st' \<and> settled g (fst st' - snd st))"
  "cycle_deps n g ds st = Some (found, st') \<Longrightarrow> set ds \<subseteq> depends g `` {y} \<Longrightarrow> dfs_inv g y st \<Longrightarrow>
     (if found then cyclic g else snd st' = snd st \<and> fst st \<union> set ds \<subseteq> fst st' \<and> set ds \<inter> snd st = {} \<and> settled g (fst st' - snd st))"
proof (induction n g x st and n g ds st arbitrary: found st' and found st' y rule: has_cycle_cycle_deps.induct)
  case (2 n g x visited stack)
  then obtain found1 visited1 stack1 where deps:
    "cycle_deps n g (case g x of Some e \<Rightarrow> er_dependencies e | None \<Rightarrow> []) (insert x visited, insert x stack) = Some (found1, (visited1, stack1))"
    "(found, st') = (if found1 then (True, (visited1, stack1)) else (False, (visited1, stack1 - {x})))"
    by (auto simp: bind_eq_Some_conv split: if_splits)
  have inv: "dfs_inv g x (insert x visited, insert x stack)"
    using dfs_inv_push "2.prems"(2,3) by simp
  note IH = "2.IH" [OF deps(1) _ inv, unfolded depends_list, OF subset_refl]
  show ?case
  proof (cases found1)
    case True
    thus ?thesis
      using IH deps(2) by simp
  next
    case False
    have post: "stack1 = insert x stack" "insert x visited \<subseteq> visited1" "settled g (visited1 - insert x stack)"
      and succ: "depends g `` {x} \<subseteq> visited1 - insert x stack"
      using IH False by (auto simp: depends_list)
    have x: "x \<notin> stack"
      using "2.prems"(2,3) by (auto simp: dfs_inv_def)
    have "settled g (insert x (visited1 - insert x stack))"
      using settled_insert [OF post(3) _ succ] by simp
    moreover have "insert x (visited1 - insert x stack) = visited1 - stack"
      using post(2) x by blast
    ultimately show ?thesis
      using deps(2) False post x by auto
  qed
next
  case (4 n g d ds visited stack)
  have edge: "(y, d) \<in> depends g" and rest: "set ds \<subseteq> depends g `` {y}"
    using "4.prems"(2) by auto
  have sub: "stack \<subseteq> visited" and reach: "\<And>z. z \<in> stack \<Longrightarrow> (z, y) \<in> (depends g)\<^sup>*"
    using "4.prems"(3) by (auto simp: dfs_inv_def)
  consider (new) "d \<notin> visited" | (onstack) "d \<in> visited" "d \<in> stack" | (old) "d \<in> visited" "d \<notin> stack"
    by blast
  thus ?case
  proof cases
    case new
    then obtain found1 st1 where hc: "has_cycle n g d (visited, stack) = Some (found1, st1)"
        "if found1 then (found, st') = (True, st1) else cycle_deps n g ds st1 = Some (found, st')"
      using "4.prems"(1) by (auto simp: bind_eq_Some_conv split: if_splits)
    note one = "4.IH"(1) [OF new hc(1) _ dfs_inv_step [OF "4.prems"(3) edge]]
    show ?thesis
    proof (cases found1)
      case True
      thus ?thesis
        using one hc(2) new by simp
    next
      case False
      obtain visited1 where st1: "st1 = (visited1, stack)" "insert d visited \<subseteq> visited1" "settled g (visited1 - stack)"
        using one new False by (cases st1) auto
      have inv1: "dfs_inv g y (visited1, stack)"
        using st1 sub reach by (auto simp: dfs_inv_def)
      have "cycle_deps n g ds (visited1, stack) = Some (found, st')"
        using hc(2) False st1(1) by simp
      thus ?thesis
        using "4.IH"(2) [OF new, of "(found1, st1)" found1 st1 found st' y] hc(1) False st1 rest inv1 new sub
        by (auto split: if_splits)
    qed
  next
    case onstack
    hence "(d, d) \<in> (depends g)\<^sup>+"
      using reach edge by (meson rtrancl_into_trancl1)
    thus ?thesis
      using "4.prems"(1) onstack by (auto simp: cyclic_def)
  next
    case old
    thus ?thesis
      using "4.IH"(3) [of found st' y] "4.prems" rest by (auto split: if_splits)
  qed
qed (auto simp: dfs_inv_def)

text \<open>The depth of the recursion is bounded by the identifiers not yet visited.\<close>

lemma dfs_grows:
  "has_cycle n g x st = Some (found, st') \<Longrightarrow> fst st \<subseteq> fst st'"
  "cycle_deps n g ds st = Some (found, st') \<Longrightarrow> fst st \<subseteq> fst st'"
proof (induction n g x st and n g ds st arbitrary: found st' and found st' rule: has_cycle_cycle_deps.induct)
  case (2 n g x visited stack)
  then obtain found1 stack1 where
    "cycle_deps n g (case g x of Some e \<Rightarrow> er_dependencies e | None \<Rightarrow> []) (insert x visited, insert x stack) = Some (found1, (fst st', stack1))"
    by (auto simp: bind_eq_Some_conv split: if_splits)
  thus ?case
    using "2.IH" by fastforce
next
  case (4 n g d ds visited stack)
  show ?case
  proof (cases "d \<in> visited")
    case True
    thus ?thesis
      using "4.IH"(3) "4.prems" by (auto split: if_splits)
  next
    case False
    then obtain found1 st1 where hc: "has_cycle n g d (visited, stack) = Some (found1, st1)"
        "if found1 then st' = st1 else cycle_deps n g ds st1 = Some (found, st')"
      using "4.prems" by (auto simp: bind_eq_Some_conv split: if_splits)
    thus ?thesis
      using "4.IH"(1) [OF False hc(1)] "4.IH"(2) [OF False hc(1) refl] by (cases found1) auto
  qed
qed auto

lemma card_unvisited: "finite U \<Longrightarrow> x \<in> U \<Longrightarrow> x \<notin> visited \<Longrightarrow> card (U - visited) \<le> Suc n \<Longrightarrow> card (U - insert x visited) \<le> n"
  by (metis Diff_insert card_Suc_Diff1 DiffI Suc_le_mono finite_Diff)

lemma dfs_fuel:
  assumes "finite U" "depends g `` U \<subseteq> U"
  shows "x \<in> U \<Longrightarrow> x \<notin> fst st \<Longrightarrow> card (U - fst st) \<le> n \<Longrightarrow> \<exists>r. has_cycle n g x st = Some r"
    and "set ds \<subseteq> U \<Longrightarrow> card (U - fst st) \<le> n \<Longrightarrow> \<exists>r. cycle_deps n g ds st = Some r"
  using assms
proof (induction n g x st and n g ds st rule: has_cycle_cycle_deps.induct)
  case (1 g x st)
  thus ?case
    using card_gt_0_iff [of "U - fst st"] by auto
next
  case (2 n g x visited stack)
  have "set (case g x of Some e \<Rightarrow> er_dependencies e | None \<Rightarrow> []) \<subseteq> U"
    using "2.prems" depends_list [of g x] by blast
  then obtain r where "cycle_deps n g (case g x of Some e \<Rightarrow> er_dependencies e | None \<Rightarrow> []) (insert x visited, insert x stack) = Some r"
    using "2.IH" "2.prems" card_unvisited [of U x visited n] by auto
  thus ?case
    by (cases r) auto
next
  case (4 n g d ds visited stack)
  have mono: "card (U - visited1) \<le> n" if "visited \<subseteq> visited1" for visited1
    using that "4.prems" card_mono [of "U - visited" "U - visited1"] by (simp add: Diff_mono finite_Diff le_trans)
  show ?case
  proof (cases "d \<in> visited")
    case True
    thus ?thesis
      using "4.IH"(3) "4.prems" by auto
  next
    case False
    then obtain found1 visited1 stack1 where hc: "has_cycle n g d (visited, stack) = Some (found1, (visited1, stack1))"
      using "4.IH"(1) "4.prems" by auto
    have "card (U - visited1) \<le> n"
      using mono dfs_grows(1) [OF hc] by simp
    thus ?thesis
      using "4.IH"(2) [OF False] hc False "4.prems" by (cases found1) auto
  qed
qed auto

lemma detect_loop_correct:
  assumes "finite U" "depends g `` U \<subseteq> U" "card U \<le> n"
  shows "set xs \<subseteq> U \<Longrightarrow> settled g visited \<Longrightarrow>
    \<exists>r. detect_loop n g xs (visited, {}) = Some r \<and> (is_ok r \<longrightarrow> (\<exists>D. set xs \<union> visited \<subseteq> D \<and> settled g D)) \<and> (\<not> is_ok r \<longrightarrow> cyclic g)"
proof (induction xs arbitrary: visited)
  case (Cons x xs)
  show ?case
  proof (cases "x \<in> visited")
    case True
    then obtain r where "detect_loop n g xs (visited, {}) = Some r"
        "is_ok r \<longrightarrow> (\<exists>D. set xs \<union> visited \<subseteq> D \<and> settled g D)" "\<not> is_ok r \<longrightarrow> cyclic g"
      using Cons.IH [of visited] Cons.prems by auto
    thus ?thesis
      using True by (intro exI [of _ r]) auto
  next
    case False
    have "card (U - visited) \<le> n"
      using assms(1,3) card_mono [of U "U - visited"] by auto
    then obtain found visited1 stack1 where hc: "has_cycle n g x (visited, {}) = Some (found, (visited1, stack1))"
      using dfs_fuel(1) [OF assms(1,2), of x "(visited, {})" n] False Cons.prems(1) by auto
    have inv: "dfs_inv g x (visited, {})"
      using Cons.prems(2) by (simp add: dfs_inv_def)
    note post = dfs_correct(1) [OF hc _ inv]
    show ?thesis
    proof (cases found)
      case True
      thus ?thesis
        using post False hc by simp
    next
      case not_found: False
      hence v1: "stack1 = {}" "insert x visited \<subseteq> visited1" "settled g visited1"
        using post False by auto
      then obtain r where r: "detect_loop n g xs (visited1, {}) = Some r"
          "is_ok r \<longrightarrow> (\<exists>D. set xs \<union> visited1 \<subseteq> D \<and> settled g D)" "\<not> is_ok r \<longrightarrow> cyclic g"
        using Cons.IH [of visited1] Cons.prems(1) by auto
      have "detect_loop n g (x # xs) (visited, {}) = Some r"
        using hc not_found False v1(1) r(1) by simp
      moreover have "set (x # xs) \<union> visited \<subseteq> D" if "set xs \<union> visited1 \<subseteq> D" for D
        using that v1(2) by auto
      ultimately show ?thesis
        using r(2,3) by blast
    qed
  qed
qed (auto simp: settled_def)

lemma settled_empty: "settled g {}"
  by (simp add: settled_def)

lemma detect_circular_correct:
  assumes "finite (dom g)" "depends g `` dom g \<subseteq> dom g" "set keys = dom g" "card (dom g) \<le> n"
  shows "\<exists>r. detect_circular_dependencies n keys g = Some r \<and> (is_ok r \<longleftrightarrow> \<not> cyclic g)"
proof -
  obtain r where r: "detect_loop n g keys ({}, {}) = Some r"
      "is_ok r \<longrightarrow> (\<exists>D. set keys \<subseteq> D \<and> settled g D)" "\<not> is_ok r \<longrightarrow> cyclic g"
    using detect_loop_correct [OF assms(1,2,4), of keys "{}"] assms(3) settled_empty [of g] by auto
  have "\<not> cyclic g" if "set keys \<subseteq> D" "settled g D" for D
  proof
    assume "cyclic g"
    then obtain x where x: "(x, x) \<in> (depends g)\<^sup>+"
      by (auto simp: cyclic_def)
    hence "x \<in> dom g"
      using depends_dom tranclD by metis
    thus False
      using x that assms(3) by (auto simp: settled_def)
  qed
  thus ?thesis
    using r by (auto simp: detect_circular_dependencies_def)
qed

section \<open>The waves are right\<close>

definition ids :: "'s exec_ref list \<Rightarrow> string set" where
  "ids es = er_execution_id ` set es"

text \<open>Every execution comes after the executions it depends on.\<close>

fun in_order :: "string set \<Rightarrow> 's exec_ref list list \<Rightarrow> bool" where
  "in_order completed [] = True"
| "in_order completed (wave # waves) =
     (list_all (dependencies_satisfied completed) wave \<and> in_order (completed \<union> ids wave) waves)"

lemma in_order_snoc:
  "in_order completed (waves @ [wave]) \<longleftrightarrow>
     in_order completed waves \<and> list_all (dependencies_satisfied (completed \<union> ids (concat waves))) wave"
  by (induction waves arbitrary: completed) (auto simp: ids_def image_Un Un_assoc)

lemma in_order_nth:
  "in_order completed waves \<Longrightarrow> i < length waves \<Longrightarrow> e \<in> set (waves ! i) \<Longrightarrow>
     set (er_dependencies e) \<subseteq> completed \<union> ids (concat (take i waves))"
proof (induction waves arbitrary: completed i)
  case (Cons wave waves)
  show ?case
  proof (cases i)
    case 0
    thus ?thesis
      using Cons.prems by (auto simp: list_all_iff dependencies_satisfied_def)
  next
    case (Suc j)
    thus ?thesis
      using Cons.IH [of "completed \<union> ids wave" j] Cons.prems by (auto simp: ids_def)
  qed
qed simp

lemma build_waves_step:
  "remaining \<noteq> [] \<Longrightarrow> build_waves m i remaining completed waves =
     (if i + 1 > m then Inl TooManyIterations
      else if ready completed remaining = [] \<and> waiting completed remaining \<noteq> [] then
        Inl (Deadlock (length (waiting completed remaining)))
      else build_waves m (i + 1) (waiting completed remaining) (completed \<union> ids (ready completed remaining))
             (if ready completed remaining \<noteq> [] then waves @ [ready completed remaining] else waves))"
  by (cases remaining) (simp_all add: Let_def ids_def)

declare build_waves.simps(2) [simp del]

lemma ready_waiting_mset: "mset (ready completed es) + mset (waiting completed es) = mset es"
  unfolding ready_def waiting_def mset_filter by (rule multiset_partition [symmetric])

lemma ready_waiting_set: "set es = set (ready completed es) \<union> set (waiting completed es)"
  by (auto simp: ready_def waiting_def)

lemma ready_satisfied: "list_all (dependencies_satisfied completed) (ready completed es)"
  by (simp add: ready_def list_all_iff)

lemma build_waves_sound:
  "build_waves m i remaining completed waves = Inr result \<Longrightarrow> completed = ids (concat waves) \<Longrightarrow> in_order {} waves \<Longrightarrow>
     in_order {} result \<and> mset (concat result) = mset (concat waves) + mset remaining"
proof (induction "m - i" arbitrary: i remaining completed waves rule: less_induct)
  case less
  show ?case
  proof (cases "remaining = []")
    case True
    thus ?thesis
      using less.prems by simp
  next
    case False
    let ?now = "ready completed remaining"
    let ?waves = "if ?now \<noteq> [] then waves @ [?now] else waves"
    have step: "i < m" "build_waves m (i + 1) (waiting completed remaining) (completed \<union> ids ?now) ?waves = Inr result"
      using less.prems(1) False by (auto simp: build_waves_step simp del: One_nat_def split: if_splits)
    have "completed \<union> ids ?now = ids (concat ?waves)"
      using less.prems(2) by (auto simp: ids_def image_Un)
    moreover have "in_order {} ?waves"
      using less.prems(2,3) ready_satisfied by (auto simp: in_order_snoc)
    ultimately have "in_order {} result" "mset (concat result) = mset (concat ?waves) + mset (waiting completed remaining)"
      using less.hyps [OF _ step(2)] step(1) by auto
    moreover have "mset (concat ?waves) = mset (concat waves) + mset ?now"
      by simp
    ultimately show ?thesis
      using ready_waiting_mset [of completed remaining] by (simp add: add.assoc)
  qed
qed

lemma find_None_all: "find P xs = None \<longleftrightarrow> (\<forall>x \<in> set xs. \<not> P x)"
  by (auto simp: find_None_iff)

lemma missing_dependency_None:
  "missing_dependency es = None \<longleftrightarrow> (\<forall>e \<in> set es. set (er_dependencies e) \<subseteq> ids es)"
  by (auto simp: missing_dependency_def find_None_all ids_def Let_def)

lemma exec_by_id_get:
  "distinct (map er_execution_id es) \<Longrightarrow> e \<in> set es \<Longrightarrow> exec_by_id es (er_execution_id e) = Some e"
  unfolding exec_by_id_def by (intro map_of_is_SomeI) (auto simp: rev_map [symmetric] comp_def)

lemma exec_by_id_dom: "dom (exec_by_id es) = ids es"
  by (auto simp: exec_by_id_def dom_map_of_conv_image_fst ids_def image_image)

lemma exec_by_id_Some: "exec_by_id es x = Some e \<Longrightarrow> e \<in> set es \<and> x = er_execution_id e"
  unfolding exec_by_id_def by (auto dest!: map_of_SomeD)

lemma card_ids: "card (ids es) \<le> length es"
  unfolding ids_def by (metis card_length card_image_le finite_set le_trans)

lemma depends_finite: "finite (depends (exec_by_id es))"
proof -
  have "depends (exec_by_id es) \<subseteq> (\<Union>e \<in> set es. {er_execution_id e} \<times> set (er_dependencies e))"
    using exec_by_id_Some by (fastforce simp: depends_def)
  thus ?thesis
    by (rule finite_subset) auto
qed

text \<open>Without a cycle the loop always finds an execution whose dependencies are complete.\<close>

lemma build_waves_progress:
  assumes "acyclic (depends (exec_by_id es))" "distinct (map er_execution_id es)"
  shows "i + length remaining \<le> m \<Longrightarrow> set remaining \<subseteq> set es \<Longrightarrow>
     (\<forall>e \<in> set remaining. set (er_dependencies e) \<subseteq> completed \<union> ids remaining) \<Longrightarrow>
     \<exists>result. build_waves m i remaining completed waves = Inr result"
proof (induction "m - i" arbitrary: i remaining completed waves rule: less_induct)
  case less
  show ?case
  proof (cases "remaining = []")
    case False
    let ?now = "ready completed remaining"
    have "wf ((depends (exec_by_id es))\<inverse>)"
      using assms(1) depends_finite finite_acyclic_wf_converse by blast
    moreover have "ids remaining \<noteq> {}"
      using False by (simp add: ids_def)
    ultimately obtain z where z: "z \<in> ids remaining" "\<And>y. (z, y) \<in> depends (exec_by_id es) \<Longrightarrow> y \<notin> ids remaining"
      by (metis all_not_in_conv wfE_min converse_iff)
    then obtain e where e: "e \<in> set remaining" "z = er_execution_id e"
      by (auto simp: ids_def)
    have "depends (exec_by_id es) `` {z} = set (er_dependencies e)"
      using e less.prems(2) by (intro depends_Some) (auto intro: exec_by_id_get [OF assms(2)])
    hence "set (er_dependencies e) \<inter> ids remaining = {}"
      using z(2) by blast
    hence "dependencies_satisfied completed e"
      using e(1) less.prems(3) by (auto simp: dependencies_satisfied_def list_all_iff)
    hence now: "?now \<noteq> []" "length ?now > 0"
      using e(1) by (auto simp: ready_def filter_empty_conv)
    have "length ?now + length (waiting completed remaining) = length remaining"
      by (metis ready_waiting_mset size_mset size_union)
    hence fits: "i < m" "i + 1 + length (waiting completed remaining) \<le> m"
      using less.prems(1) now(2) by linarith+
    have "ids remaining = ids ?now \<union> ids (waiting completed remaining)"
      using ready_waiting_set [of remaining completed] by (auto simp: ids_def)
    hence "\<forall>e \<in> set (waiting completed remaining).
        set (er_dependencies e) \<subseteq> (completed \<union> ids ?now) \<union> ids (waiting completed remaining)"
      using less.prems(3) ready_waiting_set [of remaining completed] by blast
    hence "\<exists>result. build_waves m (i + 1) (waiting completed remaining) (completed \<union> ids ?now) (waves @ [?now]) = Inr result"
      using less.hyps [OF _ fits(2)] fits(1) less.prems(2) ready_waiting_set [of remaining completed] by auto
    thus ?thesis
      using fits(1) now(1) by (simp add: build_waves_step [OF False])
  qed simp
qed

section \<open>Properties\<close>

lemma resolve_dependencies_spec:
  assumes "distinct (map er_execution_id es)" "set keys = er_execution_id ` set es"
  shows "\<exists>r. resolve_dependencies keys es = Some r \<and>
     (is_ok r \<longleftrightarrow> (\<forall>e \<in> set es. set (er_dependencies e) \<subseteq> er_execution_id ` set es) \<and> acyclic (depends (exec_by_id es))) \<and>
     (\<forall>waves. r = Inr waves \<longrightarrow>
        mset (concat waves) = mset es \<and>
        (\<forall>i < length waves. \<forall>e \<in> set (waves ! i).
           set (er_dependencies e) \<subseteq> er_execution_id ` set (concat (take i waves))))"
proof (cases "missing_dependency es")
  case (Some p)
  hence "\<not> (\<forall>e \<in> set es. set (er_dependencies e) \<subseteq> ids es)"
    using missing_dependency_None [of es] by auto
  thus ?thesis
    using Some by (cases p) (auto simp: resolve_dependencies_def ids_def)
next
  case None
  let ?g = "exec_by_id es"
  have deps: "\<forall>e \<in> set es. set (er_dependencies e) \<subseteq> ids es"
    using None missing_dependency_None by blast
  have closed: "depends ?g `` dom ?g \<subseteq> dom ?g"
    using deps exec_by_id_Some unfolding exec_by_id_dom by (fastforce simp: depends_def)
  have "card (dom ?g) \<le> length es + 1"
    using card_ids [of es] by (simp add: exec_by_id_dom)
  moreover have "finite (dom ?g)" "set keys = dom ?g"
    using assms(2) by (simp_all add: exec_by_id_dom ids_def)
  ultimately obtain d where d: "detect_circular_dependencies (length es + 1) keys ?g = Some d" "is_ok d \<longleftrightarrow> \<not> cyclic ?g"
    using detect_circular_correct [OF _ closed] by blast
  have acyclic: "acyclic (depends ?g) \<longleftrightarrow> \<not> cyclic ?g"
    by (simp add: acyclic_def cyclic_def)
  let ?r = "try_bind d (\<lambda>_. build_waves (length es + 1) 0 es {} [])"
  have r: "resolve_dependencies keys es = Some ?r"
    using None d(1) by (simp add: resolve_dependencies_def)
  have "is_ok ?r \<longleftrightarrow> acyclic (depends ?g)"
  proof (cases d)
    case (Inr u)
    hence ac: "acyclic (depends ?g)"
      using d(2) acyclic by simp
    hence "\<exists>result. build_waves (length es + 1) 0 es {} [] = Inr result"
      using deps by (intro build_waves_progress [OF _ assms(1)]) auto
    thus ?thesis
      using Inr ac by auto
  qed (use d(2) acyclic in auto)
  moreover have "mset (concat waves) = mset es \<and>
      (\<forall>i < length waves. \<forall>e \<in> set (waves ! i). set (er_dependencies e) \<subseteq> ids (concat (take i waves)))"
    if "?r = Inr waves" for waves
    using that build_waves_sound [of "length es + 1" 0 es "{}" "[]" waves] in_order_nth [of "{}" waves]
    by (simp add: try_bind_Inr_conv ids_def)
  ultimately show ?thesis
    using r deps unfolding ids_def [symmetric] by (intro exI [of _ ?r]) blast
qed

text \<open>
  C20. The resolver always answers, and its answer is right: for executions with different identifiers, in whatever order the
  search takes them, it returns waves exactly when every dependency exists and none is circular. The waves contain every
  execution once, and each execution is in a later wave than all executions it depends on.
\<close>

theorem resolve_dependencies_correct:
  assumes "distinct (map er_execution_id es)" "set keys = er_execution_id ` set es"
  shows "\<exists>r. resolve_dependencies keys es = Some r \<and>
     (is_ok r \<longleftrightarrow> (\<forall>e \<in> set es. set (er_dependencies e) \<subseteq> er_execution_id ` set es) \<and> acyclic (depends (exec_by_id es))) \<and>
     (\<forall>waves. r = Inr waves \<longrightarrow>
        mset (concat waves) = mset es \<and>
        (\<forall>i < length waves. \<forall>e \<in> set (waves ! i).
           set (er_dependencies e) \<subseteq> er_execution_id ` set (concat (take i waves))))"
  by (rule resolve_dependencies_spec [OF assms])

definition demo_exec :: "string \<Rightarrow> string list \<Rightarrow> unit exec_ref" where
  "demo_exec x ds =
     \<lparr>er_execution_id = x, er_source = (), er_target_table = x, er_status = WPending, er_dependencies = ds,
      er_attempt_number = 0\<rparr>"

theorem resolve_dependencies_correct_witness:
  "\<exists>r. resolve_dependencies [''a'', ''b''] [demo_exec ''b'' [''a''], demo_exec ''a'' []] = Some r \<and>
     r = Inr [[demo_exec ''a'' []], [demo_exec ''b'' [''a'']]] \<and> acyclic (depends (exec_by_id [demo_exec ''b'' [''a''], demo_exec ''a'' []]))"
proof -
  have r: "resolve_dependencies [''a'', ''b''] [demo_exec ''b'' [''a''], demo_exec ''a'' []] =
      Some (Inr [[demo_exec ''a'' []], [demo_exec ''b'' [''a'']]])"
    by (simp add: resolve_dependencies_def missing_dependency_def demo_exec_def detect_circular_dependencies_def
        exec_by_id_def build_waves_step ready_def waiting_def ids_def dependencies_satisfied_def)
  show ?thesis
    using resolve_dependencies_correct [of "[demo_exec ''b'' [''a''], demo_exec ''a'' []]" "[''a'', ''b'']"] r
    by (auto simp: demo_exec_def)
qed

end
