(* ===== verification/BatchTx.thy ===== *)
theory BatchTx
  imports BatchJobs
begin

text \<open>
  Model of the transaction coordinator of \<^verbatim>\<open>arcxa-coordinator/src/workflows/engine/transaction_coordinator.rs\<close>:
  the boundaries of the transactions in which the files of a batch job are loaded, in its three modes. The map of
  transactions is an association list in an arbitrary order. The results show what a mode promises for every sequence of
  calls: the single transaction of the mode \<open>AllOrNothing\<close> and the consecutive groups of the mode \<open>Batched\<close>.
\<close>

section \<open>Transactions\<close>

datatype transaction_state = TxNotStarted | TxActive | TxCommitted | TxRolledBack

record transaction_info =
  ti_transaction_id :: string
  ti_state :: transaction_state
  ti_file_ids :: "string list"
  ti_started_at :: "nat option"
  ti_ended_at :: "nat option"
  ti_error :: "string option"

definition txn_new :: "string \<Rightarrow> transaction_info" where
  "txn_new txid =
     \<lparr>ti_transaction_id = txid, ti_state = TxNotStarted, ti_file_ids = [], ti_started_at = None, ti_ended_at = None,
      ti_error = None\<rparr>"

definition txn_begin :: "nat \<Rightarrow> transaction_info \<Rightarrow> transaction_info" where
  "txn_begin now t = t\<lparr>ti_state := TxActive, ti_started_at := Some now\<rparr>"

definition txn_add_file :: "string \<Rightarrow> transaction_info \<Rightarrow> transaction_info" where
  "txn_add_file file t = t\<lparr>ti_file_ids := ti_file_ids t @ [file]\<rparr>"

definition txn_commit :: "nat \<Rightarrow> transaction_info \<Rightarrow> transaction_info" where
  "txn_commit now t = t\<lparr>ti_state := TxCommitted, ti_ended_at := Some now\<rparr>"

definition txn_rollback :: "nat \<Rightarrow> string \<Rightarrow> transaction_info \<Rightarrow> transaction_info" where
  "txn_rollback now err t = t\<lparr>ti_state := TxRolledBack, ti_ended_at := Some now, ti_error := Some err\<rparr>"

record tx_coordinator =
  tc_job_id :: string
  tc_mode :: transaction_mode
  tc_transactions :: "(string, transaction_info) hmap"
  tc_current :: "string option"
  tc_batch_counter :: nat
  tc_batch_files :: "string list"

datatype tx_error = TransactionNotFound string

section \<open>The coordinator\<close>

definition tx_new :: "('s, 'f) batch_job \<Rightarrow> tx_coordinator" where
  "tx_new job =
     \<lparr>tc_job_id = bj_job_id job, tc_mode = bc_transaction_mode (bj_config job), tc_transactions = [], tc_current = None,
      tc_batch_counter = 0, tc_batch_files = []\<rparr>"

definition file_txn_id :: "string \<Rightarrow> string \<Rightarrow> string" where
  "file_txn_id job file = ''txn_'' @ job @ ''_'' @ file"

definition all_txn_id :: "string \<Rightarrow> string" where
  "all_txn_id job = ''txn_'' @ job @ ''_all''"

definition batch_txn_id :: "string \<Rightarrow> nat \<Rightarrow> string" where
  "batch_txn_id job n = ''txn_'' @ job @ ''_batch_'' @ show_nat n"

text \<open>Start a transaction for its first file, and add a file to one that exists.\<close>

definition start_txn :: "nat \<Rightarrow> string \<Rightarrow> string \<Rightarrow> tx_coordinator \<Rightarrow> tx_coordinator" where
  "start_txn now txid file c =
     c\<lparr>tc_transactions := AList.update txid (txn_add_file file (txn_begin now (txn_new txid))) (tc_transactions c)\<rparr>"

definition join_txn :: "string \<Rightarrow> string \<Rightarrow> tx_coordinator \<Rightarrow> tx_coordinator" where
  "join_txn txid file c =
     (case map_of (tc_transactions c) txid of
        Some t \<Rightarrow> c\<lparr>tc_transactions := AList.update txid (txn_add_file file t) (tc_transactions c)\<rparr>
      | None \<Rightarrow> c)"

definition commit_transaction_internal :: "nat \<Rightarrow> string \<Rightarrow> tx_coordinator \<Rightarrow> tx_error + tx_coordinator" where
  "commit_transaction_internal now txid c =
     (case map_of (tc_transactions c) txid of
        Some t \<Rightarrow>
          Inr (if ti_state t = TxActive
               then c\<lparr>tc_transactions := AList.update txid (txn_commit now t) (tc_transactions c)\<rparr> else c)
      | None \<Rightarrow> Inl (TransactionNotFound txid))"

definition rollback_transaction :: "nat \<Rightarrow> string \<Rightarrow> string \<Rightarrow> tx_coordinator \<Rightarrow> tx_error + tx_coordinator" where
  "rollback_transaction now txid err c =
     (case map_of (tc_transactions c) txid of
        Some t \<Rightarrow>
          Inr (if ti_state t = TxActive
               then c\<lparr>tc_transactions := AList.update txid (txn_rollback now err t) (tc_transactions c)\<rparr> else c)
      | None \<Rightarrow> Inl (TransactionNotFound txid))"

text \<open>In the mode \<open>Batched\<close>: close the batch when it is full.\<close>

definition close_full_batch :: "nat \<Rightarrow> nat \<Rightarrow> tx_coordinator \<Rightarrow> tx_error + tx_coordinator" where
  "close_full_batch now batch_size c =
     (if length (tc_batch_files c) \<ge> batch_size then
        try_bind (case tc_current c of Some txid \<Rightarrow> commit_transaction_internal now txid c | None \<Rightarrow> Inr c) (\<lambda>c.
          Inr (c\<lparr>tc_batch_files := [], tc_batch_counter := tc_batch_counter c + 1, tc_current := None\<rparr>))
      else Inr c)"

definition join_batch :: "nat \<Rightarrow> string \<Rightarrow> tx_coordinator \<Rightarrow> string \<times> tx_coordinator" where
  "join_batch now file c =
     (case tc_current c of
        Some txid \<Rightarrow> (txid, (join_txn txid file c)\<lparr>tc_batch_files := tc_batch_files c @ [file]\<rparr>)
      | None \<Rightarrow>
          (let txid = batch_txn_id (tc_job_id c) (tc_batch_counter c) in
           (txid, (start_txn now txid file c)\<lparr>tc_current := Some txid, tc_batch_files := tc_batch_files c @ [file]\<rparr>)))"

definition begin_file_transaction :: "nat \<Rightarrow> string \<Rightarrow> tx_coordinator \<Rightarrow> tx_error + (string \<times> tx_coordinator)" where
  "begin_file_transaction now file c =
     (case tc_mode c of
        PerFile \<Rightarrow> (let txid = file_txn_id (tc_job_id c) file in Inr (txid, start_txn now txid file c))
      | AllOrNothing \<Rightarrow>
          (case tc_current c of
             Some txid \<Rightarrow> Inr (txid, join_txn txid file c)
           | None \<Rightarrow>
               (let txid = all_txn_id (tc_job_id c) in Inr (txid, (start_txn now txid file c)\<lparr>tc_current := Some txid\<rparr>)))
      | Batched batch_size \<Rightarrow> try_bind (close_full_batch now batch_size c) (\<lambda>c. Inr (join_batch now file c)))"

definition commit_transaction :: "nat \<Rightarrow> string \<Rightarrow> tx_coordinator \<Rightarrow> tx_error + tx_coordinator" where
  "commit_transaction now txid c =
     (case tc_mode c of
        PerFile \<Rightarrow> commit_transaction_internal now txid c
      | AllOrNothing \<Rightarrow> Inr c
      | Batched _ \<Rightarrow> Inr c)"

record tx_summary =
  sm_total :: nat
  sm_committed :: nat
  sm_rolled_back :: nat
  sm_transactions :: "transaction_info list"

definition get_summary :: "tx_coordinator \<Rightarrow> tx_summary" where
  "get_summary c =
     (let ts = map snd (tc_transactions c) in
      \<lparr>sm_total = length ts, sm_committed = length (filter (\<lambda>t. ti_state t = TxCommitted) ts),
       sm_rolled_back = length (filter (\<lambda>t. ti_state t = TxRolledBack) ts), sm_transactions = ts\<rparr>)"

definition all_committed :: "tx_summary \<Rightarrow> bool" where
  "all_committed s \<longleftrightarrow> sm_total s > 0 \<and> sm_committed s = sm_total s"

definition has_rollbacks :: "tx_summary \<Rightarrow> bool" where
  "has_rollbacks s \<longleftrightarrow> sm_rolled_back s > 0"

text \<open>The end of the job. The coordinator after it is returned with the summary.\<close>

definition settle_current :: "nat \<Rightarrow> bool \<Rightarrow> string \<Rightarrow> tx_coordinator \<Rightarrow> tx_error + tx_coordinator" where
  "settle_current now success err c =
     (case tc_current c of
        Some txid \<Rightarrow> if success then commit_transaction_internal now txid c else rollback_transaction now txid err c
      | None \<Rightarrow> Inr c)"

definition tx_finalize :: "nat \<Rightarrow> bool \<Rightarrow> tx_coordinator \<Rightarrow> tx_error + (tx_summary \<times> tx_coordinator)" where
  "tx_finalize now success c =
     (case tc_mode c of
        PerFile \<Rightarrow> Inr (get_summary c, c)
      | AllOrNothing \<Rightarrow>
          try_bind (settle_current now success ''Batch job had failures - rolling back all changes'' c) (\<lambda>c. Inr (get_summary c, c))
      | Batched _ \<Rightarrow>
          try_bind (settle_current now success ''Final batch had failures'' c) (\<lambda>c. Inr (get_summary c, c)))"

section \<open>Sequences of calls\<close>

datatype tx_call = Begin string | Commit string | Rollback string string

text \<open>A call that returns an error leaves the coordinator as it was.\<close>

definition tx_step :: "nat \<times> tx_call \<Rightarrow> tx_coordinator \<Rightarrow> tx_coordinator" where
  "tx_step nc c =
     (case nc of
        (now, Begin file) \<Rightarrow> (case begin_file_transaction now file c of Inr (_, c') \<Rightarrow> c' | Inl _ \<Rightarrow> c)
      | (now, Commit txid) \<Rightarrow> (case commit_transaction now txid c of Inr c' \<Rightarrow> c' | Inl _ \<Rightarrow> c)
      | (now, Rollback txid err) \<Rightarrow> (case rollback_transaction now txid err c of Inr c' \<Rightarrow> c' | Inl _ \<Rightarrow> c))"

definition begun :: "(nat \<times> tx_call) list \<Rightarrow> string list" where
  "begun calls = List.map_filter (\<lambda>nc. case snd nc of Begin file \<Rightarrow> Some file | _ \<Rightarrow> None) calls"

lemma begun_simps [simp]:
  "begun [] = []"
  "begun (calls @ [(now, Begin file)]) = begun calls @ [file]"
  "begun (calls @ [(now, Commit txid)]) = begun calls"
  "begun (calls @ [(now, Rollback txid err)]) = begun calls"
  by (simp_all add: begun_def map_filter_def)

lemma batch_txn_id_inject [simp]: "batch_txn_id job m = batch_txn_id job n \<longleftrightarrow> m = n"
  by (simp add: batch_txn_id_def)

section \<open>All or nothing\<close>

definition rolled_back_by :: "string \<Rightarrow> (nat \<times> tx_call) list \<Rightarrow> bool" where
  "rolled_back_by txid calls \<longleftrightarrow>
     (\<exists>pre now err post. calls = pre @ (now, Rollback txid err) # post \<and> begun pre \<noteq> [])"

lemma rolled_back_by_snoc:
  "rolled_back_by txid (calls @ [x]) \<longleftrightarrow>
     rolled_back_by txid calls \<or> (\<exists>now err. x = (now, Rollback txid err)) \<and> begun calls \<noteq> []"
proof
  assume "rolled_back_by txid (calls @ [x])"
  then obtain pre now err post where "calls @ [x] = pre @ (now, Rollback txid err) # post" "begun pre \<noteq> []"
    by (auto simp: rolled_back_by_def)
  thus "rolled_back_by txid calls \<or> (\<exists>now err. x = (now, Rollback txid err)) \<and> begun calls \<noteq> []"
    unfolding rolled_back_by_def by (cases post rule: rev_cases) (auto, blast)
next
  assume "rolled_back_by txid calls \<or> (\<exists>now err. x = (now, Rollback txid err)) \<and> begun calls \<noteq> []"
  thus "rolled_back_by txid (calls @ [x])"
  proof
    assume "rolled_back_by txid calls"
    then obtain pre now err post where "calls = pre @ (now, Rollback txid err) # post" "begun pre \<noteq> []"
      by (auto simp: rolled_back_by_def)
    thus ?thesis
      unfolding rolled_back_by_def by (intro exI [of _ pre] exI [of _ now] exI [of _ err] exI [of _ "post @ [x]"]) simp
  qed (auto simp: rolled_back_by_def)
qed

lemma rolled_back_by_simps [simp]:
  "\<not> rolled_back_by txid []"
  "rolled_back_by txid (calls @ [(now, Begin file)]) = rolled_back_by txid calls"
  "rolled_back_by txid (calls @ [(now, Commit txid')]) = rolled_back_by txid calls"
  "rolled_back_by txid (calls @ [(now, Rollback txid' err)]) \<longleftrightarrow> rolled_back_by txid calls \<or> txid' = txid \<and> begun calls \<noteq> []"
  by (auto simp: rolled_back_by_snoc) (simp add: rolled_back_by_def)

lemma rolled_back_begun: "rolled_back_by txid calls \<Longrightarrow> begun calls \<noteq> []"
  by (auto simp: rolled_back_by_def begun_def map_filter_def)

definition aon_state :: "string \<Rightarrow> (nat \<times> tx_call) list \<Rightarrow> tx_coordinator \<Rightarrow> bool" where
  "aon_state job calls c \<longleftrightarrow>
     tc_mode c = AllOrNothing \<and> tc_job_id c = job \<and>
     (if begun calls = [] then tc_transactions c = [] \<and> tc_current c = None
      else tc_current c = Some (all_txn_id job) \<and>
        (\<exists>t. tc_transactions c = [(all_txn_id job, t)] \<and> ti_file_ids t = begun calls \<and>
           ti_state t = (if rolled_back_by (all_txn_id job) calls then TxRolledBack else TxActive)))"

lemmas txn_defs = txn_new_def txn_begin_def txn_add_file_def txn_commit_def txn_rollback_def

lemma aon_step:
  assumes "aon_state job calls c"
  shows "aon_state job (calls @ [nc]) (tx_step nc c)"
proof -
  obtain now call where nc: "nc = (now, call)"
    by (cases nc)
  show ?thesis
  proof (cases call)
    case (Begin f)
    show ?thesis
      using assms rolled_back_begun [of "all_txn_id job" calls]
      by (cases "begun calls = []")
        (auto simp: nc Begin aon_state_def tx_step_def begin_file_transaction_def start_txn_def join_txn_def txn_defs Let_def)
  next
    case (Commit txid)
    show ?thesis
      using assms by (simp add: nc Commit aon_state_def tx_step_def commit_transaction_def)
  next
    case (Rollback txid err)
    show ?thesis
      using assms
      by (cases "begun calls = []") (auto simp: nc Rollback aon_state_def tx_step_def rollback_transaction_def txn_defs)
  qed
qed

lemma aon_run:
  assumes "bc_transaction_mode (bj_config job) = AllOrNothing"
  shows "aon_state (bj_job_id job) calls (fold tx_step calls (tx_new job))"
proof (induction calls rule: rev_induct)
  case Nil
  show ?case
    using assms by (simp add: aon_state_def tx_new_def)
next
  case (snoc nc calls)
  thus ?case
    using aon_step by simp
qed

text \<open>
  C21. In the mode \<open>AllOrNothing\<close> a batch job is atomic: whatever calls are made, all files are in one transaction, in the
  order of their calls, and at the end that transaction is committed when the job succeeded and no rollback was
  asked for, and rolled back otherwise. No file is left with an open transaction, and the summary counts that transaction.
\<close>

theorem all_or_nothing:
  assumes "bc_transaction_mode (bj_config job) = AllOrNothing" "begun calls \<noteq> []"
  shows "\<exists>s c t. tx_finalize now success (fold tx_step calls (tx_new job)) = Inr (s, c) \<and>
     tc_transactions c = [(all_txn_id (bj_job_id job), t)] \<and> ti_file_ids t = begun calls \<and>
     ti_state t = (if success \<and> \<not> rolled_back_by (all_txn_id (bj_job_id job)) calls then TxCommitted else TxRolledBack) \<and>
     all_committed s = (ti_state t = TxCommitted) \<and> has_rollbacks s = (ti_state t = TxRolledBack)"
  using aon_run [OF assms(1), of calls] assms(2)
  by (cases success)
    (auto simp: aon_state_def tx_finalize_def settle_current_def commit_transaction_internal_def rollback_transaction_def
      txn_defs get_summary_def all_committed_def has_rollbacks_def)

section \<open>Batches\<close>

text \<open>The files of the group with number \<open>i\<close>, and the number of the group that takes files.\<close>

definition file_group :: "nat \<Rightarrow> string list \<Rightarrow> nat \<Rightarrow> string list" where
  "file_group n files i = take n (drop (i * n) files)"

definition last_group :: "nat \<Rightarrow> string list \<Rightarrow> nat" where
  "last_group n files = (length files - 1) div n"

lemma last_group_bounds:
  assumes "0 < n" "files \<noteq> []"
  shows "last_group n files * n < length files" "length files \<le> (last_group n files + 1) * n"
proof -
  have "length files > 0"
    using assms(2) by simp
  moreover have "last_group n files * n \<le> length files - 1"
    by (simp add: last_group_def)
  moreover have "length files - 1 < (last_group n files + 1) * n"
    using assms(1) by (simp add: last_group_def dividend_less_div_times)
  ultimately show "last_group n files * n < length files" "length files \<le> (last_group n files + 1) * n"
    by linarith+
qed

lemma last_group_snoc:
  assumes "0 < n" "files \<noteq> []"
  shows "last_group n (files @ [f]) = (if length files - last_group n files * n \<ge> n then last_group n files + 1 else last_group n files)"
proof -
  let ?k = "last_group n files"
  have "length files div n = (if length files \<ge> (?k + 1) * n then ?k + 1 else ?k)"
    using last_group_bounds [OF assms] assms(1)
    by (auto simp: algebra_simps not_le intro!: div_nat_eqI)
  moreover have "length files - ?k * n \<ge> n \<longleftrightarrow> length files \<ge> (?k + 1) * n"
    using last_group_bounds(1) [OF assms] by (auto simp: algebra_simps)
  ultimately show ?thesis
    by (simp add: last_group_def)
qed

lemma group_snoc_old: "(i + 1) * n \<le> length files \<Longrightarrow> file_group n (files @ [f]) i = file_group n files i"
  by (simp add: file_group_def algebra_simps)

lemma group_last: "0 < n \<Longrightarrow> files \<noteq> [] \<Longrightarrow> file_group n files (last_group n files) = drop (last_group n files * n) files"
  using last_group_bounds(2) [of n files] by (simp add: file_group_def algebra_simps)

definition settled_state :: "transaction_state \<Rightarrow> bool" where
  "settled_state s \<longleftrightarrow> s \<in> {TxCommitted, TxRolledBack}"

text \<open>
  The transaction of each group that has been started holds that group; all but the last one are settled, and one is
  rolled back only by a call that names it. The set \<open>R\<close> has the transactions named in calls of rollback.
\<close>

definition group_state :: "string set \<Rightarrow> nat \<Rightarrow> string \<Rightarrow> nat \<Rightarrow> transaction_state \<Rightarrow> bool" where
  "group_state R k txid i s \<longleftrightarrow>
     s \<noteq> TxNotStarted \<and> (i < k \<longrightarrow> settled_state s) \<and> (i = k \<longrightarrow> s \<noteq> TxCommitted) \<and> (s = TxRolledBack \<longrightarrow> txid \<in> R)"

definition groups_ok :: "string \<Rightarrow> nat \<Rightarrow> string set \<Rightarrow> string list \<Rightarrow> nat \<Rightarrow> (string \<Rightarrow> transaction_info option) \<Rightarrow> bool" where
  "groups_ok job n R files k M \<longleftrightarrow>
     dom M = batch_txn_id job ` {..k} \<and>
     (\<forall>i \<le> k. \<exists>t. M (batch_txn_id job i) = Some t \<and> ti_file_ids t = file_group n files i \<and>
        group_state R k (batch_txn_id job i) i (ti_state t))"

definition batch_state :: "string \<Rightarrow> nat \<Rightarrow> string set \<Rightarrow> string list \<Rightarrow> tx_coordinator \<Rightarrow> bool" where
  "batch_state job n R files c \<longleftrightarrow>
     tc_mode c = Batched n \<and> tc_job_id c = job \<and>
     (if files = [] then tc_transactions c = [] \<and> tc_current c = None \<and> tc_batch_counter c = 0 \<and> tc_batch_files c = []
      else
        tc_batch_counter c = last_group n files \<and> tc_current c = Some (batch_txn_id job (last_group n files)) \<and>
        tc_batch_files c = drop (last_group n files * n) files \<and>
        groups_ok job n R files (last_group n files) (map_of (tc_transactions c)))"

lemma groups_ok_get:
  assumes "groups_ok job n R files k M" "i \<le> k"
  obtains t where "M (batch_txn_id job i) = Some t" "ti_file_ids t = file_group n files i"
    "group_state R k (batch_txn_id job i) i (ti_state t)"
  using assms unfolding groups_ok_def by blast

lemma groups_ok_rollback:
  assumes ok: "groups_ok job n R files k M" and t: "M txid = Some t"
    and t': "ti_file_ids t' = ti_file_ids t" "ti_state t' = TxRolledBack"
  shows "groups_ok job n (insert txid R) files k (M(txid \<mapsto> t'))"
proof -
  have "dom (M(txid \<mapsto> t')) = batch_txn_id job ` {..k}"
    using ok t by (auto simp: groups_ok_def)
  moreover have "\<exists>u. (M(txid \<mapsto> t')) (batch_txn_id job i) = Some u \<and> ti_file_ids u = file_group n files i \<and>
      group_state (insert txid R) k (batch_txn_id job i) i (ti_state u)" if i: "i \<le> k" for i
  proof -
    obtain u where "M (batch_txn_id job i) = Some u" "ti_file_ids u = file_group n files i"
        "group_state R k (batch_txn_id job i) i (ti_state u)"
      using groups_ok_get [OF ok i] by blast
    thus ?thesis
      using t t' by (cases "batch_txn_id job i = txid") (auto simp: group_state_def settled_state_def)
  qed
  ultimately show ?thesis
    by (simp add: groups_ok_def)
qed

lemma groups_ok_mono: "groups_ok job n R files k M \<Longrightarrow> R \<subseteq> R' \<Longrightarrow> groups_ok job n R' files k M"
  unfolding groups_ok_def group_state_def by (meson subsetD)

lemma groups_ok_join:
  assumes ok: "groups_ok job n R files k M" and t: "M (batch_txn_id job k) = Some t"
    and fit: "\<And>i. i < k \<Longrightarrow> (i + 1) * n \<le> length files" and grp: "file_group n (files @ [f]) k = file_group n files k @ [f]"
  shows "groups_ok job n R (files @ [f]) k (M(batch_txn_id job k \<mapsto> txn_add_file f t))"
proof -
  have "dom (M(batch_txn_id job k \<mapsto> txn_add_file f t)) = batch_txn_id job ` {..k}"
    using ok t by (auto simp: groups_ok_def)
  moreover have "\<exists>u. (M(batch_txn_id job k \<mapsto> txn_add_file f t)) (batch_txn_id job i) = Some u \<and>
      ti_file_ids u = file_group n (files @ [f]) i \<and> group_state R k (batch_txn_id job i) i (ti_state u)"
    if i: "i \<le> k" for i
  proof -
    obtain u where u: "M (batch_txn_id job i) = Some u" "ti_file_ids u = file_group n files i"
        "group_state R k (batch_txn_id job i) i (ti_state u)"
      using groups_ok_get [OF ok i] by blast
    show ?thesis
    proof (cases "i = k")
      case True
      thus ?thesis
        using u t grp by (auto simp: txn_add_file_def)
    next
      case False
      hence "file_group n (files @ [f]) i = file_group n files i"
        using i fit [of i] by (auto intro: group_snoc_old)
      thus ?thesis
        using u False by simp
    qed
  qed
  ultimately show ?thesis
    by (simp add: groups_ok_def)
qed

lemma groups_ok_start:
  assumes ok: "groups_ok job n R files k M" and t: "M (batch_txn_id job k) = Some t"
    and t1: "ti_file_ids t1 = ti_file_ids t" "settled_state (ti_state t1)" "ti_state t1 = TxRolledBack \<Longrightarrow> ti_state t = TxRolledBack"
    and fit: "\<And>i. i \<le> k \<Longrightarrow> (i + 1) * n \<le> length files" and grp: "file_group n (files @ [f]) (k + 1) = [f]"
    and t2: "ti_file_ids t2 = [f]" "ti_state t2 = TxActive"
  shows "groups_ok job n R (files @ [f]) (k + 1) (M(batch_txn_id job k \<mapsto> t1, batch_txn_id job (k + 1) \<mapsto> t2))"
proof -
  let ?M = "M(batch_txn_id job k \<mapsto> t1, batch_txn_id job (k + 1) \<mapsto> t2)"
  have "{..k + 1} = insert (k + 1) {..k}"
    by auto
  hence "dom ?M = batch_txn_id job ` {..k + 1}"
    using ok by (auto simp: groups_ok_def)
  moreover have "\<exists>u. ?M (batch_txn_id job i) = Some u \<and> ti_file_ids u = file_group n (files @ [f]) i \<and>
      group_state R (k + 1) (batch_txn_id job i) i (ti_state u)" if "i \<le> k + 1" for i
  proof (cases "i = k + 1")
    case True
    thus ?thesis
      using grp t2 by (simp add: group_state_def)
  next
    case False
    hence i: "i \<le> k" and same: "file_group n (files @ [f]) i = file_group n files i"
      using that fit [of i] by (auto intro: group_snoc_old)
    obtain u where u: "M (batch_txn_id job i) = Some u" "ti_file_ids u = file_group n files i"
        "group_state R k (batch_txn_id job i) i (ti_state u)"
      using groups_ok_get [OF ok i] by blast
    show ?thesis
    proof (cases "i = k")
      case True
      hence "ti_state t1 \<noteq> TxNotStarted" "t = u"
        using t t1(2) u(1) by (auto simp: settled_state_def)
      thus ?thesis
        using u t1 True same by (auto simp: group_state_def)
    next
      case False
      thus ?thesis
        using u i same by (auto simp: group_state_def)
    qed
  qed
  ultimately show ?thesis
    by (simp add: groups_ok_def)
qed

lemma batch_begin_first:
  assumes "0 < n" "batch_state job n R [] c"
  shows "\<exists>txid c'. begin_file_transaction now f c = Inr (txid, c') \<and> batch_state job n R [f] c'"
  using assms
  by (auto simp: batch_state_def begin_file_transaction_def close_full_batch_def join_batch_def start_txn_def txn_defs Let_def
      groups_ok_def group_state_def last_group_def file_group_def)

lemma batch_begin_full:
  assumes n: "0 < n" and ne: "files \<noteq> []" and st: "batch_state job n R files c" and full: "length files - last_group n files * n \<ge> n"
  shows "\<exists>txid c'. begin_file_transaction now f c = Inr (txid, c') \<and> batch_state job n R (files @ [f]) c'"
proof -
  let ?k = "last_group n files"
  have len: "length files = (?k + 1) * n"
    using last_group_bounds [OF n ne] full by (simp add: algebra_simps)
  have next_group: "last_group n (files @ [f]) = ?k + 1" "file_group n (files @ [f]) (?k + 1) = [f]"
    "drop ((?k + 1) * n) (files @ [f]) = [f]"
    using last_group_snoc [OF n ne, of f] full n by (simp_all add: len file_group_def)
  have fit: "(i + 1) * n \<le> length files" if "i \<le> ?k" for i
    using that by (simp add: len del: mult_Suc)
  have ok: "groups_ok job n R files ?k (map_of (tc_transactions c))"
    using st ne by (simp add: batch_state_def)
  obtain t where t: "map_of (tc_transactions c) (batch_txn_id job ?k) = Some t" "ti_state t = TxActive \<or> ti_state t = TxRolledBack"
    using groups_ok_get [OF ok order_refl] by (metis group_state_def transaction_state.exhaust)
  define t1 where "t1 = (if ti_state t = TxActive then txn_commit now t else t)"
  have t1: "ti_file_ids t1 = ti_file_ids t" "settled_state (ti_state t1)" "ti_state t1 = TxRolledBack \<Longrightarrow> ti_state t = TxRolledBack"
    using t(2) by (auto simp: t1_def txn_commit_def settled_state_def)
  have upd: "(map_of (tc_transactions c))(batch_txn_id job ?k \<mapsto> t) = map_of (tc_transactions c)"
    using t(1) by (simp add: map_upd_triv)
  define t2 where "t2 = txn_add_file f (txn_begin now (txn_new (batch_txn_id job (?k + 1))))"
  have "groups_ok job n R (files @ [f]) (?k + 1)
      ((map_of (tc_transactions c))(batch_txn_id job ?k \<mapsto> t1, batch_txn_id job (?k + 1) \<mapsto> t2))"
    by (rule groups_ok_start [OF ok t(1) t1 fit next_group(2)]) (simp_all add: t2_def txn_defs)
  thus ?thesis
    using st ne full t(1) next_group upd
    by (cases "ti_state t = TxActive")
      (auto simp: batch_state_def begin_file_transaction_def close_full_batch_def join_batch_def start_txn_def Let_def t1_def t2_def
        commit_transaction_internal_def update_conv')
qed

lemma batch_begin_more:
  assumes n: "0 < n" and ne: "files \<noteq> []" and st: "batch_state job n R files c" and room: "length files - last_group n files * n < n"
  shows "\<exists>txid c'. begin_file_transaction now f c = Inr (txid, c') \<and> batch_state job n R (files @ [f]) c'"
proof -
  let ?k = "last_group n files"
  have b: "?k * n < length files" "length files < (?k + 1) * n"
    using last_group_bounds(1) [OF n ne] room by (simp_all add: algebra_simps)
  have same: "last_group n (files @ [f]) = ?k" "drop (?k * n) (files @ [f]) = drop (?k * n) files @ [f]"
    using last_group_snoc [OF n ne, of f] room b by simp_all
  hence grp: "file_group n (files @ [f]) ?k = file_group n files ?k @ [f]"
    using b by (simp add: file_group_def algebra_simps)
  have fit: "(i + 1) * n \<le> length files" if "i < ?k" for i
  proof -
    have "(i + 1) * n \<le> ?k * n"
      using that by (intro mult_right_mono) simp_all
    thus ?thesis
      using b(1) by linarith
  qed
  have ok: "groups_ok job n R files ?k (map_of (tc_transactions c))"
    using st ne by (simp add: batch_state_def)
  obtain t where t: "map_of (tc_transactions c) (batch_txn_id job ?k) = Some t"
    using groups_ok_get [OF ok order_refl] by blast
  show ?thesis
    using st ne room t same groups_ok_join [OF ok t fit grp]
    by (auto simp: batch_state_def begin_file_transaction_def close_full_batch_def join_batch_def join_txn_def update_conv')
qed

lemma batch_begin:
  assumes "0 < n" "batch_state job n R files c"
  shows "\<exists>txid c'. begin_file_transaction now f c = Inr (txid, c') \<and> batch_state job n R (files @ [f]) c'"
proof (cases "files = []")
  case True
  thus ?thesis
    using batch_begin_first assms by simp
next
  case False
  thus ?thesis
    using batch_begin_full [OF assms(1) False assms(2)] batch_begin_more [OF assms(1) False assms(2)] by (meson not_le)
qed

lemma batch_rollback:
  assumes "batch_state job n R files c" "rollback_transaction now txid err c = Inr c'"
  shows "batch_state job n (insert txid R) files c'"
proof -
  obtain t where t: "map_of (tc_transactions c) txid = Some t"
      "c' = (if ti_state t = TxActive then c\<lparr>tc_transactions := AList.update txid (txn_rollback now err t) (tc_transactions c)\<rparr> else c)"
    using assms(2) by (auto simp: rollback_transaction_def split: option.splits)
  have "groups_ok job n (insert txid R) files k ((map_of (tc_transactions c))(txid \<mapsto> txn_rollback now err t))"
    if "groups_ok job n R files k (map_of (tc_transactions c))" for k
    by (rule groups_ok_rollback [OF that t(1)]) (simp_all add: txn_rollback_def)
  moreover have "files \<noteq> []"
    using assms(1) t(1) by (auto simp: batch_state_def split: if_splits)
  ultimately show ?thesis
    using assms(1) t(2) by (auto simp: batch_state_def update_conv' intro: groups_ok_mono)
qed

lemma batch_state_mono: "batch_state job n R files c \<Longrightarrow> R \<subseteq> R' \<Longrightarrow> batch_state job n R' files c"
  unfolding batch_state_def by (metis groups_ok_mono)

definition rollback_ids :: "(nat \<times> tx_call) list \<Rightarrow> string set" where
  "rollback_ids calls = {txid. \<exists>now err. (now, Rollback txid err) \<in> set calls}"

lemma rollback_ids_simps [simp]:
  "rollback_ids [] = {}"
  "rollback_ids (calls @ [(now, Begin file)]) = rollback_ids calls"
  "rollback_ids (calls @ [(now, Commit txid)]) = rollback_ids calls"
  "rollback_ids (calls @ [(now, Rollback txid err)]) = insert txid (rollback_ids calls)"
  by (auto simp: rollback_ids_def)

lemma batch_step:
  assumes n: "0 < n" and st: "batch_state job n (rollback_ids calls) (begun calls) c"
  shows "batch_state job n (rollback_ids (calls @ [nc])) (begun (calls @ [nc])) (tx_step nc c)"
proof -
  obtain now call where nc: "nc = (now, call)"
    by (cases nc)
  show ?thesis
  proof (cases call)
    case (Begin f)
    obtain txid c' where "begin_file_transaction now f c = Inr (txid, c')" "batch_state job n (rollback_ids calls) (begun calls @ [f]) c'"
      using batch_begin [OF n st] by blast
    thus ?thesis
      by (simp add: nc Begin tx_step_def)
  next
    case (Commit txid)
    show ?thesis
      using st by (simp add: nc Commit tx_step_def commit_transaction_def batch_state_def)
  next
    case (Rollback txid err)
    show ?thesis
      using st batch_rollback [OF st, of now txid err] batch_state_mono [OF st subset_insertI, of txid]
      by (auto simp: nc Rollback tx_step_def split: sum.split)
  qed
qed

lemma batch_run:
  assumes "bc_transaction_mode (bj_config job) = Batched n" "0 < n"
  shows "batch_state (bj_job_id job) n (rollback_ids calls) (begun calls) (fold tx_step calls (tx_new job))"
proof (induction calls rule: rev_induct)
  case Nil
  show ?case
    using assms by (simp add: batch_state_def tx_new_def)
next
  case (snoc nc calls)
  thus ?case
    using batch_step [OF assms(2)] by simp
qed

lemma settle_current_batch:
  assumes ok: "groups_ok job n R files k (map_of (tc_transactions c))" and cur: "tc_current c = Some (batch_txn_id job k)"
  shows "\<exists>c'. settle_current now success err c = Inr c' \<and> dom (map_of (tc_transactions c')) = batch_txn_id job ` {..k} \<and>
     (\<forall>i \<le> k. \<exists>t. map_of (tc_transactions c') (batch_txn_id job i) = Some t \<and> ti_file_ids t = file_group n files i \<and>
        (ti_state t = TxCommitted \<and> (i = k \<longrightarrow> success) \<or> ti_state t = TxRolledBack \<and> (batch_txn_id job i \<in> R \<or> i = k \<and> \<not> success)))"
proof -
  obtain t where t: "map_of (tc_transactions c) (batch_txn_id job k) = Some t" "ti_file_ids t = file_group n files k"
      "group_state R k (batch_txn_id job k) k (ti_state t)"
    using groups_ok_get [OF ok order_refl] by blast
  define t' where "t' = (if ti_state t \<noteq> TxActive then t else if success then txn_commit now t else txn_rollback now err t)"
  have t': "ti_file_ids t' = file_group n files k"
    "ti_state t' = TxCommitted \<and> success \<or> ti_state t' = TxRolledBack \<and> (batch_txn_id job k \<in> R \<or> \<not> success)"
    using t(2,3) by (cases "ti_state t"; simp add: t'_def txn_defs group_state_def)+
  have upd: "(map_of (tc_transactions c))(batch_txn_id job k \<mapsto> t) = map_of (tc_transactions c)"
    using t(1) by (simp add: map_upd_triv)
  obtain c' where c': "settle_current now success err c = Inr c'"
      "map_of (tc_transactions c') = (map_of (tc_transactions c))(batch_txn_id job k \<mapsto> t')"
    using cur t(1) upd
    by (cases success)
      (auto simp: settle_current_def commit_transaction_internal_def rollback_transaction_def update_conv' t'_def)
  have "\<exists>u. map_of (tc_transactions c') (batch_txn_id job i) = Some u \<and> ti_file_ids u = file_group n files i \<and>
      (ti_state u = TxCommitted \<and> (i = k \<longrightarrow> success) \<or> ti_state u = TxRolledBack \<and> (batch_txn_id job i \<in> R \<or> i = k \<and> \<not> success))"
    if i: "i \<le> k" for i
  proof (cases "i = k")
    case True
    thus ?thesis
      using t' by (simp add: c'(2))
  next
    case False
    obtain u where "map_of (tc_transactions c) (batch_txn_id job i) = Some u" "ti_file_ids u = file_group n files i"
        "group_state R k (batch_txn_id job i) i (ti_state u)"
      using groups_ok_get [OF ok i] by blast
    thus ?thesis
      using False i by (auto simp: c'(2) group_state_def settled_state_def)
  qed
  moreover have "dom (map_of (tc_transactions c')) = batch_txn_id job ` {..k}"
    using ok by (auto simp: c'(2) groups_ok_def)
  ultimately show ?thesis
    using c'(1) by blast
qed

text \<open>
  In the mode \<open>Batched n\<close> the files are grouped by n in the order in which they were begun, one transaction per group
  and no other. At the end every transaction is committed or rolled back, so the files of a group share one outcome, and a
  group fails alone: it is rolled back only when a call names its transaction, the last group also when the job failed.
\<close>

lemma batched_groups:
  assumes "bc_transaction_mode (bj_config job) = Batched n" "0 < n" "begun calls \<noteq> []"
  shows "\<exists>s c. tx_finalize now success (fold tx_step calls (tx_new job)) = Inr (s, c) \<and>
     dom (map_of (tc_transactions c)) = batch_txn_id (bj_job_id job) ` {..(length (begun calls) - 1) div n} \<and>
     (\<forall>i \<le> (length (begun calls) - 1) div n. \<exists>t.
        map_of (tc_transactions c) (batch_txn_id (bj_job_id job) i) = Some t \<and>
        ti_file_ids t = take n (drop (i * n) (begun calls)) \<and>
        (ti_state t = TxCommitted \<and> (i = (length (begun calls) - 1) div n \<longrightarrow> success) \<or>
         ti_state t = TxRolledBack \<and>
           (batch_txn_id (bj_job_id job) i \<in> rollback_ids calls \<or> i = (length (begun calls) - 1) div n \<and> \<not> success)))"
proof -
  let ?c = "fold tx_step calls (tx_new job)" and ?k = "last_group n (begun calls)" and ?job = "bj_job_id job"
  have st: "tc_mode ?c = Batched n" "tc_current ?c = Some (batch_txn_id ?job ?k)"
      "groups_ok ?job n (rollback_ids calls) (begun calls) ?k (map_of (tc_transactions ?c))"
    using batch_run [OF assms(1,2), of calls] assms(3) by (simp_all add: batch_state_def)
  show ?thesis
    using settle_current_batch [OF st(3,2), of now success "''Final batch had failures''"] st(1)
    by (force simp: tx_finalize_def last_group_def file_group_def)
qed

section \<open>Examples\<close>

definition demo_tx_job :: "transaction_mode \<Rightarrow> (unit, unit) batch_job" where
  "demo_tx_job mode =
     batch_job_new \<lparr>pc_of = (\<lambda>_ _. ()), pc_zero = ()\<rparr> 0 ''j'' ''load'' ''w''
       \<lparr>bc_max_parallel = 1, bc_stop_on_error = False, bc_retry_failed = False, bc_max_retries = 0, bc_transaction_mode = mode\<rparr> ''ann''"

definition demo_calls :: "(nat \<times> tx_call) list" where
  "demo_calls = [(1, Begin ''a''), (2, Begin ''b''), (3, Rollback ''txn_j_all'' ''disk full''), (4, Begin ''c'')]"

lemma demo_tx_job_mode: "bc_transaction_mode (bj_config (demo_tx_job mode)) = mode" "bj_job_id (demo_tx_job mode) = ''j''"
  by (simp_all add: demo_tx_job_def batch_job_new_def)

lemma begun_demo: "begun demo_calls = [''a'', ''b'', ''c'']"
  by (simp add: begun_def demo_calls_def map_filter_def)

theorem all_or_nothing_witness:
  "\<exists>s c t. tx_finalize 9 True (fold tx_step demo_calls (tx_new (demo_tx_job AllOrNothing))) = Inr (s, c) \<and>
     tc_transactions c = [(''txn_j_all'', t)] \<and> ti_file_ids t = [''a'', ''b'', ''c''] \<and> ti_state t = TxRolledBack"
proof -
  have "demo_calls = [(1, Begin ''a''), (2, Begin ''b'')] @ (3, Rollback (all_txn_id ''j'') ''disk full'') # [(4, Begin ''c'')]"
    by (simp add: demo_calls_def all_txn_id_def)
  moreover have "begun [(1, Begin ''a''), (2, Begin ''b'')] \<noteq> []"
    by (simp add: begun_def map_filter_def)
  ultimately have "rolled_back_by (all_txn_id ''j'') demo_calls"
    unfolding rolled_back_by_def by blast
  thus ?thesis
    using all_or_nothing [OF demo_tx_job_mode(1), of demo_calls 9 True] by (auto simp: demo_tx_job_mode begun_demo all_txn_id_def)
qed

lemma batched_groups_witness:
  "\<exists>s c t. tx_finalize 9 True (fold tx_step demo_calls (tx_new (demo_tx_job (Batched 2)))) = Inr (s, c) \<and>
     map_of (tc_transactions c) (batch_txn_id ''j'' 1) = Some t \<and> ti_file_ids t = [''c''] \<and> ti_state t = TxCommitted"
proof -
  have "rollback_ids demo_calls = {''txn_j_all''}"
    by (auto simp: rollback_ids_def demo_calls_def)
  hence "batch_txn_id ''j'' 1 \<notin> rollback_ids demo_calls"
    by (simp add: batch_txn_id_def)
  thus ?thesis
    using batched_groups [OF demo_tx_job_mode(1), of 2 demo_calls 9 True]
    by (fastforce simp: demo_tx_job_mode begun_demo)
qed

text \<open>
  A file that is begun after the rollback of the current transaction joins the transaction that was rolled back, and both
  its begin and its commit succeed.
\<close>

lemma joins_rolled_back:
  assumes "tc_mode c = AllOrNothing" "tc_current c = Some txid" "map_of (tc_transactions c) txid = Some t" "ti_state t = TxRolledBack"
  shows "\<exists>c' t'. begin_file_transaction now f c = Inr (txid, c') \<and> commit_transaction now txid c' = Inr c' \<and>
     map_of (tc_transactions c') txid = Some t' \<and> f \<in> set (ti_file_ids t') \<and> ti_state t' = TxRolledBack"
  using assms by (simp add: begin_file_transaction_def join_txn_def commit_transaction_def txn_defs update_conv')

end
