(* ===== verification/ActionExec.thy ===== *)
theory ActionExec
  imports BatchTx Approvals "HOL-Library.List_Lexorder" "HOL-Library.Char_ord"
begin

text \<open>
  Model of the actions of a route, \<^verbatim>\<open>arcxa-coordinator/src/workflows/domain/action.rs\<close>, and of their execution,
  \<^verbatim>\<open>workflows/engine/executor.rs\<close>. The services an action may call (the transformer registry, the rule executor, the
  Kafka producer, the HTTP client, the lineage generator) are optional, as in the execution context of the code; each is a
  function on the state of the world outside, of type \<open>'w\<close>, which also yields the clock, the elapsed time and fresh
  identifiers. Approval requests go to the store of the theory \<open>Approvals\<close>. Strings are ASCII. Metrics and log messages are
  left out.
\<close>

section \<open>Actions\<close>

datatype 'n action =
    Transform string "'n json"
  | Validate string
  | SendToKafka string "string option"
  | SendToHttp string string "(string \<times> string) list"
  | RecordLineage string "'n json"
  | Log string string
  | SetField string "'n json"
  | RemoveField string
  | Custom string "'n json"
  | Notify string string string
  | IncrementMetric string "(string \<times> string) list"
  | WaitForApproval string string "'n json" u64 "string option"

definition action_type :: "'n action \<Rightarrow> string" where
  "action_type a =
     (case a of
        Transform _ _ \<Rightarrow> ''Transform'' | Validate _ \<Rightarrow> ''Validate'' | SendToKafka _ _ \<Rightarrow> ''SendToKafka''
      | SendToHttp _ _ _ \<Rightarrow> ''SendToHttp'' | RecordLineage _ _ \<Rightarrow> ''RecordLineage'' | Log _ _ \<Rightarrow> ''Log''
      | SetField _ _ \<Rightarrow> ''SetField'' | RemoveField _ \<Rightarrow> ''RemoveField'' | Custom _ _ \<Rightarrow> ''Custom''
      | Notify _ _ _ \<Rightarrow> ''Notify'' | IncrementMetric _ _ \<Rightarrow> ''IncrementMetric''
      | WaitForApproval _ _ _ _ _ \<Rightarrow> ''WaitForApproval'')"

definition is_parallel_safe :: "'n action \<Rightarrow> bool" where
  "is_parallel_safe a =
     (case a of
        Transform _ _ \<Rightarrow> False | SetField _ _ \<Rightarrow> False | RemoveField _ \<Rightarrow> False | WaitForApproval _ _ _ _ _ \<Rightarrow> False
      | _ \<Rightarrow> True)"

datatype action_error = EmptyApprovalId | EmptyApprovalType | TimeoutTooShort | TimeoutTooLong

definition action_validate :: "'n action \<Rightarrow> action_error + unit" where
  "action_validate a =
     (case a of
        WaitForApproval approval_id approval_type _ timeout_secs _ \<Rightarrow>
          if trim approval_id = [] then Inl EmptyApprovalId
          else if trim approval_type = [] then Inl EmptyApprovalType
          else if timeout_secs < 60 then Inl TimeoutTooShort
          else if timeout_secs > 2592000 then Inl TimeoutTooLong
          else Inr ()
      | _ \<Rightarrow> Inr ())"

section \<open>Services and context\<close>

text \<open>What a call of a service yields: its result, and the world after it.\<close>

type_synonym ('a, 'w) call = "'w \<Rightarrow> (string + 'a) \<times> 'w"

record ('n, 'w) services =
  sv_now :: "'w \<Rightarrow> int \<times> 'w"
  sv_elapsed_ms :: "'w \<Rightarrow> u64 \<times> 'w"
  sv_uuid :: "'w \<Rightarrow> string \<times> 'w"
  sv_environment :: "string option"
  sv_num :: "int \<Rightarrow> 'n"
  sv_as_i64 :: "'n \<Rightarrow> int option"
  sv_render :: "'n json \<Rightarrow> string"
  sv_rfc3339 :: "int \<Rightarrow> string"
  sv_transformers :: "(string \<Rightarrow> 'n json \<Rightarrow> 'n json \<Rightarrow> 'w \<Rightarrow> (string + unit) \<times> 'n json \<times> 'w) option"
  sv_rules :: "(string \<Rightarrow> 'n json \<Rightarrow> (bool \<times> 'n json, 'w) call) option"
  sv_kafka :: "(string \<Rightarrow> 'n json \<Rightarrow> string option \<Rightarrow> (string \<times> int \<times> int \<times> int, 'w) call) option"
  sv_http :: "(string \<Rightarrow> string \<Rightarrow> 'n json \<Rightarrow> (string \<times> string) list option \<Rightarrow> (nat \<times> nat \<times> nat \<times> 'n json, 'w) call) option"
  sv_lineage_delivery :: "(string \<Rightarrow> string \<Rightarrow> string \<Rightarrow> string \<times> int \<times> int \<times> int \<Rightarrow> (unit, 'w) call) option"
  sv_lineage_event :: "(string \<Rightarrow> string \<Rightarrow> string \<Rightarrow> string \<Rightarrow> 'n json \<Rightarrow> (unit, 'w) call) option"

record exec_context =
  cx_workflow_id :: string
  cx_route_id :: string
  cx_execution_id :: "string option"
  cx_action_index :: nat
  cx_approvals :: bool

text \<open>The state an action works on: the data of the workflow, the approval requests and the world.\<close>

record ('n, 'w) exec_state =
  st_data :: "'n json"
  st_approvals :: "'n approvals"
  st_world :: 'w

type_synonym 'n outcome = "action_status \<times> string option \<times> 'n json option"

definition json_obj :: "(string \<times> 'n json) list \<Rightarrow> 'n json" where
  "json_obj kvs = JObj (foldl (\<lambda>t (k, v). bt_insert k v t) [] kvs)"

section \<open>The single actions\<close>

definition execute_transform :: "('n, 'w) services \<Rightarrow> string \<Rightarrow> 'n json \<Rightarrow> ('n, 'w) exec_state \<Rightarrow> 'n outcome \<times> ('n, 'w) exec_state" where
  "execute_transform S transformer config st =
     (case sv_transformers S of
        Some f \<Rightarrow>
          (case f transformer config (st_data st) (st_world st) of
             (Inr _, data, w) \<Rightarrow> ((ASuccess, None, None), st\<lparr>st_data := data, st_world := w\<rparr>)
           | (Inl e, data, w) \<Rightarrow> ((AFailed, Some (''Transformer failed: '' @ e), None), st\<lparr>st_data := data, st_world := w\<rparr>))
      | None \<Rightarrow> ((AFailed, Some ''No transformer registry available'', None), st))"

definition execute_validate :: "('n, 'w) services \<Rightarrow> string \<Rightarrow> ('n, 'w) exec_state \<Rightarrow> 'n outcome \<times> ('n, 'w) exec_state" where
  "execute_validate S rule_id st =
     (case sv_rules S of
        Some f \<Rightarrow>
          (case f rule_id (st_data st) (st_world st) of
             (Inr (ok, output), w) \<Rightarrow> ((if ok then ASuccess else AFailed, None, Some output), st\<lparr>st_world := w\<rparr>)
           | (Inl e, w) \<Rightarrow> ((AFailed, Some (''Rule execution error: '' @ e), None), st\<lparr>st_world := w\<rparr>))
      | None \<Rightarrow> ((ASuccess, None, None), st))"

text \<open>The lineage of a delivery is recorded when there is a generator and an execution; its errors are ignored.\<close>

definition record_delivery :: "('n, 'w) services \<Rightarrow> exec_context \<Rightarrow> string \<times> int \<times> int \<times> int \<Rightarrow> 'w \<Rightarrow> 'w" where
  "record_delivery S cx delivery w =
     (case (sv_lineage_delivery S, cx_execution_id cx) of
        (Some f, Some x) \<Rightarrow> snd (f x (cx_workflow_id cx) (cx_route_id cx) delivery w)
      | _ \<Rightarrow> w)"

definition execute_send_to_kafka ::
  "('n, 'w) services \<Rightarrow> exec_context \<Rightarrow> string \<Rightarrow> string option \<Rightarrow> ('n, 'w) exec_state \<Rightarrow> 'n outcome \<times> ('n, 'w) exec_state" where
  "execute_send_to_kafka S cx topic partition_key st =
     (case sv_kafka S of
        Some f \<Rightarrow>
          (case f topic (st_data st) partition_key (st_world st) of
             (Inr (t, p, off, ms), w) \<Rightarrow>
               ((ASuccess, None,
                 Some (json_obj [(''topic'', JStr t), (''partition'', JNum (sv_num S p)), (''offset'', JNum (sv_num S off)),
                                 (''latency_ms'', JNum (sv_num S ms))])),
                st\<lparr>st_world := record_delivery S cx (t, p, off, ms) w\<rparr>)
           | (Inl e, w) \<Rightarrow> ((AFailed, Some (''Kafka delivery failed: '' @ e), None), st\<lparr>st_world := w\<rparr>))
      | None \<Rightarrow>
          ((ASuccess, None,
            Some (json_obj [(''topic'', JStr topic), (''bytes'', JNum (sv_num S (int (length (sv_render S (st_data st)))))),
                            (''stubbed'', JBool True)])), st))"

definition execute_send_to_http ::
  "('n, 'w) services \<Rightarrow> string \<Rightarrow> string \<Rightarrow> (string \<times> string) list \<Rightarrow> ('n, 'w) exec_state \<Rightarrow> 'n outcome \<times> ('n, 'w) exec_state" where
  "execute_send_to_http S url http_method headers st =
     (case sv_http S of
        Some f \<Rightarrow>
          (case f http_method url (st_data st) (if headers \<noteq> [] then Some headers else None) (st_world st) of
             (Inr (status, ms, retries, body), w) \<Rightarrow>
               (let success = (200 \<le> status \<and> status < 300) in
                ((if success then ASuccess else AFailed,
                  if \<not> success then Some (''HTTP '' @ url @ '' returned status '' @ show_nat status) else None,
                  Some (json_obj [(''url'', JStr url), (''method'', JStr http_method), (''status_code'', JNum (sv_num S (int status))),
                                  (''latency_ms'', JNum (sv_num S (int ms))), (''retries'', JNum (sv_num S (int retries))), (''body'', body)])),
                 st\<lparr>st_world := w\<rparr>))
           | (Inl e, w) \<Rightarrow> ((AFailed, Some (''HTTP request failed: '' @ e), None), st\<lparr>st_world := w\<rparr>))
      | None \<Rightarrow>
          ((ASuccess, None,
            Some (json_obj [(''url'', JStr url), (''method'', JStr http_method), (''status_code'', JNum (sv_num S 200)),
                            (''stubbed'', JBool True)])), st))"

definition execute_record_lineage ::
  "('n, 'w) services \<Rightarrow> exec_context \<Rightarrow> string \<Rightarrow> 'n json \<Rightarrow> ('n, 'w) exec_state \<Rightarrow> 'n outcome \<times> ('n, 'w) exec_state" where
  "execute_record_lineage S cx event_type metadata st =
     (case sv_lineage_event S of
        Some f \<Rightarrow>
          (let x = (case cx_execution_id cx of Some x \<Rightarrow> x | None \<Rightarrow> ''unknown'') in
           (case f x (cx_workflow_id cx) (cx_route_id cx) event_type metadata (st_world st) of
              (Inr _, w) \<Rightarrow>
                ((ASuccess, None,
                  Some (json_obj [(''event_type'', JStr event_type), (''execution_id'', JStr x),
                                  (''workflow_id'', JStr (cx_workflow_id cx)), (''route_id'', JStr (cx_route_id cx)),
                                  (''stored'', JBool True)])), st\<lparr>st_world := w\<rparr>)
            | (Inl e, w) \<Rightarrow> ((AFailed, Some (''Lineage recording failed: '' @ e), None), st\<lparr>st_world := w\<rparr>)))
      | None \<Rightarrow>
          ((ASuccess, None,
            Some (json_obj [(''event_type'', JStr event_type), (''metadata'', metadata),
                            (''workflow_id'', JStr (cx_workflow_id cx)), (''route_id'', JStr (cx_route_id cx)),
                            (''stubbed'', JBool True)])), st))"

definition execute_set_field :: "string \<Rightarrow> 'n json \<Rightarrow> 'n json \<Rightarrow> 'n outcome \<times> 'n json" where
  "execute_set_field field value data =
     (if CHR ''.'' \<in> set field then ((AFailed, Some ''Nested field setting not implemented'', None), data)
      else
        (case data of
           JObj kvs \<Rightarrow> ((ASuccess, None, None), JObj (bt_insert field value kvs))
         | _ \<Rightarrow> ((AFailed, Some ''Data is not an object'', None), data)))"

definition execute_remove_field :: "string \<Rightarrow> 'n json \<Rightarrow> 'n outcome \<times> 'n json" where
  "execute_remove_field field data =
     (case data of
        JObj kvs \<Rightarrow> ((ASuccess, None, None), JObj (bt_remove field kvs))
      | _ \<Rightarrow> ((AFailed, Some ''Data is not an object'', None), data))"

section \<open>Waiting for an approval\<close>

definition quoted :: "string \<Rightarrow> string" where
  "quoted s = CHR 0x22 # s @ [CHR 0x22]"

text \<open>The name of the field in the first reference to the data, and the last word of a condition read as a number.\<close>

definition data_field :: "string \<Rightarrow> string option" where
  "data_field cond =
     (case find_sub ''${data.'' cond of
        None \<Rightarrow> None
      | Some i \<Rightarrow> map_option (\<lambda>j. take (j - 7) (drop (i + 7) cond)) (find_sub ''}'' (drop i cond)))"

definition last_word :: "string \<Rightarrow> string option" where
  "last_word s =
     (let r = dropWhile is_space (rev s) in if r = [] then None else Some (rev (takeWhile (\<lambda>c. \<not> is_space c) r)))"

definition is_digit :: "char \<Rightarrow> bool" where
  "is_digit c \<longleftrightarrow> 48 \<le> (of_char c :: nat) \<and> (of_char c :: nat) \<le> 57"

definition parse_threshold :: "string \<Rightarrow> int option" where
  "parse_threshold s =
     (let neg = (s \<noteq> [] \<and> hd s = CHR ''-''); ds = (if s \<noteq> [] \<and> hd s \<in> {CHR ''-'', CHR ''+''} then tl s else s) in
      if ds = [] \<or> \<not> list_all is_digit ds then None
      else
        (let v = (if neg then - int (read_digits ds) else int (read_digits ds)) in
         if - (2 ^ 63) \<le> v \<and> v < 2 ^ 63 then Some v else None))"

definition skip_env :: "('n, 'w) services \<Rightarrow> string \<Rightarrow> bool" where
  "skip_env S cond \<longleftrightarrow>
     str_contains ''${env.ENVIRONMENT}'' cond \<and>
     (case sv_environment S of Some v \<Rightarrow> str_contains (quoted v) cond | None \<Rightarrow> False)"

definition skip_value :: "string \<Rightarrow> 'n json \<Rightarrow> bool" where
  "skip_value cond v \<longleftrightarrow>
     (case v of
        JStr s \<Rightarrow> s \<in> {''low'', ''dev'', ''staging''} \<and> str_contains (''== '' @ quoted s) cond
      | _ \<Rightarrow> False)"

definition skip_number :: "('n, 'w) services \<Rightarrow> string \<Rightarrow> 'n json \<Rightarrow> bool" where
  "skip_number S cond v \<longleftrightarrow>
     (case v of
        JNum n \<Rightarrow>
          (case (sv_as_i64 S n, Option.bind (last_word cond) parse_threshold) of
             (Some x, Some threshold) \<Rightarrow>
               str_contains ''< '' cond \<and> x < threshold \<or> str_contains ''<= '' cond \<and> x \<le> threshold \<or>
               str_contains ''> '' cond \<and> x > threshold
           | _ \<Rightarrow> False)
      | _ \<Rightarrow> False)"

definition should_skip_approval :: "('n, 'w) services \<Rightarrow> string \<Rightarrow> 'n json \<Rightarrow> bool" where
  "should_skip_approval S cond data \<longleftrightarrow>
     skip_env S cond \<or>
     (case Option.bind (data_field cond) (\<lambda>f. json_get f data) of
        None \<Rightarrow> False
      | Some v \<Rightarrow>
          skip_value cond v \<or>
          (str_contains ''< '' cond \<or> str_contains ''<= '' cond \<or> str_contains ''> '' cond) \<and> skip_number S cond v)"

definition show_store_error :: "store_error \<Rightarrow> string" where
  "show_store_error e =
     (case e of
        AlreadyExists k \<Rightarrow> ''ApprovalRequest '' @ [CHR 0x27] @ k @ [CHR 0x27] @ '' already exists''
      | NotFound k \<Rightarrow> ''ApprovalRequest '' @ [CHR 0x27] @ k @ [CHR 0x27] @ '' not found'')"

definition approval_request ::
  "('n, 'w) services \<Rightarrow> exec_context \<Rightarrow> string \<Rightarrow> string \<Rightarrow> string \<Rightarrow> 'n json \<Rightarrow> u64 \<Rightarrow> string \<Rightarrow> int \<Rightarrow> 'n approval" where
  "approval_request S cx approval_id approval_type x payload timeout_secs request_id now =
     (approval_new now request_id approval_type x (cx_workflow_id cx) (cx_action_index cx) payload timeout_secs)
       \<lparr>ap_metadata :=
          Some (json_obj [(''approval_id'', JStr approval_id), (''route_id'', JStr (cx_route_id cx)),
                          (''timeout_secs'', JNum (sv_num S (uint timeout_secs)))])\<rparr>"

definition execute_wait_for_approval ::
  "('n, 'w) services \<Rightarrow> exec_context \<Rightarrow> string \<Rightarrow> string \<Rightarrow> 'n json \<Rightarrow> u64 \<Rightarrow> string option \<Rightarrow>
     ('n, 'w) exec_state \<Rightarrow> 'n outcome \<times> ('n, 'w) exec_state" where
  "execute_wait_for_approval S cx approval_id approval_type payload timeout_secs skip_if st =
     (if (case skip_if of Some cond \<Rightarrow> should_skip_approval S cond (st_data st) | None \<Rightarrow> False) then
        ((ASuccess, Some (''Approval skipped (condition: '' @ the skip_if @ '')''),
          Some (json_obj [(''skipped'', JBool True), (''reason'', JStr ''skip_if condition met''), (''condition'', JStr (the skip_if))])),
         st)
      else if \<not> cx_approvals cx then
        ((AFailed, Some ''Approval store not configured - cannot create approval request'', None), st)
      else
        (case cx_execution_id cx of
           None \<Rightarrow> ((AFailed, Some ''Execution ID not available - cannot create approval request'', None), st)
         | Some x \<Rightarrow>
             (let (u, w1) = sv_uuid S (st_world st); request_id = ''appr_'' @ approval_id @ ''_'' @ u; (now, w2) = sv_now S w1;
                  r = approval_request S cx approval_id approval_type x payload timeout_secs request_id now in
              (case ab_save r (st_approvals st) of
                 Inr b \<Rightarrow>
                   ((APaused, None,
                     Some (json_obj [(''request_id'', JStr request_id), (''approval_type'', JStr approval_type),
                                     (''status'', JStr ''pending''), (''expires_at'', JStr (sv_rfc3339 S (ap_expires_at r))),
                                     (''timeout_secs'', JNum (sv_num S (uint timeout_secs)))])),
                    st\<lparr>st_approvals := b, st_world := w2\<rparr>)
               | Inl e \<Rightarrow>
                   ((AFailed, Some (''Failed to create approval request: '' @ show_store_error e), None), st\<lparr>st_world := w2\<rparr>)))))"

section \<open>Executing a list of actions\<close>

definition run_action ::
  "('n, 'w) services \<Rightarrow> exec_context \<Rightarrow> 'n action \<Rightarrow> ('n, 'w) exec_state \<Rightarrow> 'n outcome \<times> ('n, 'w) exec_state" where
  "run_action S cx a st =
     (case a of
        Transform transformer config \<Rightarrow> execute_transform S transformer config st
      | Validate rule_id \<Rightarrow> execute_validate S rule_id st
      | SendToKafka topic partition_key \<Rightarrow> execute_send_to_kafka S cx topic partition_key st
      | SendToHttp url http_method headers \<Rightarrow> execute_send_to_http S url http_method headers st
      | RecordLineage event_type metadata \<Rightarrow> execute_record_lineage S cx event_type metadata st
      | Log _ _ \<Rightarrow> ((ASuccess, None, None), st)
      | SetField field value \<Rightarrow> (let (out, data) = execute_set_field field value (st_data st) in (out, st\<lparr>st_data := data\<rparr>))
      | RemoveField field \<Rightarrow> (let (out, data) = execute_remove_field field (st_data st) in (out, st\<lparr>st_data := data\<rparr>))
      | Custom _ _ \<Rightarrow> ((ASuccess, None, None), st)
      | Notify _ _ _ \<Rightarrow> ((ASuccess, None, None), st)
      | IncrementMetric _ _ \<Rightarrow> ((ASuccess, None, None), st)
      | WaitForApproval approval_id approval_type payload timeout_secs skip_if \<Rightarrow>
          execute_wait_for_approval S cx approval_id approval_type payload timeout_secs skip_if st)"

definition execute_action ::
  "('n, 'w) services \<Rightarrow> exec_context \<Rightarrow> 'n action \<Rightarrow> ('n, 'w) exec_state \<Rightarrow> 'n action_result \<times> ('n, 'w) exec_state" where
  "execute_action S cx a st =
     (let ((status, err, output), st1) = run_action S cx a st; (ms, w) = sv_elapsed_ms S (st_world st1) in
      (\<lparr>ar_action_type = action_type a, ar_status = status, ar_duration_ms = ms, ar_error = err, ar_output = output\<rparr>,
       st1\<lparr>st_world := w\<rparr>))"

fun execute_actions ::
  "('n, 'w) services \<Rightarrow> exec_context \<Rightarrow> 'n action list \<Rightarrow> ('n, 'w) exec_state \<Rightarrow> 'n action_result list \<times> ('n, 'w) exec_state" where
  "execute_actions S cx [] st = ([], st)"
| "execute_actions S cx (a # as) st =
     (case execute_action S cx a st of
        (r, st1) \<Rightarrow>
          if ar_status r = APaused then ([r], st1)
          else (case execute_actions S cx as st1 of (rs, st2) \<Rightarrow> (r # rs, st2)))"

section \<open>What an action does\<close>

text \<open>Setting a field is read back, removing it makes it absent, and every other field is left alone.\<close>

lemma set_field_get:
  assumes "CHR ''.'' \<notin> set field"
  shows "execute_set_field field v (JObj kvs) = ((ASuccess, None, None), JObj (bt_insert field v kvs)) \<and>
     json_get f (JObj (bt_insert field v kvs)) = (if f = field then Some v else json_get f (JObj kvs))"
  using assms by (simp add: execute_set_field_def json_get_def bt_get_insert flip: bt_get_map_of)

lemma remove_field_get:
  "execute_remove_field field (JObj kvs) = ((ASuccess, None, None), JObj (bt_remove field kvs)) \<and>
   json_get f (JObj (bt_remove field kvs)) = (if f = field then None else json_get f (JObj kvs))"
  by (simp add: execute_remove_field_def json_get_def bt_get_remove flip: bt_get_map_of)

lemma set_field_not_paused: "fst (fst (execute_set_field field v data)) \<noteq> APaused"
  by (cases data) (auto simp: execute_set_field_def)

lemma remove_field_not_paused: "fst (fst (execute_remove_field field data)) \<noteq> APaused"
  by (cases data) (auto simp: execute_remove_field_def)

lemma transform_frame: "fst (fst (execute_transform S t c st)) \<noteq> APaused \<and> st_approvals (snd (execute_transform S t c st)) = st_approvals st"
proof (cases "sv_transformers S")
  case (Some f)
  obtain res data w where "f t c (st_data st) (st_world st) = (res, data, w)"
    by (cases "f t c (st_data st) (st_world st)") auto
  thus ?thesis
    using Some by (cases res) (simp_all add: execute_transform_def)
qed (simp add: execute_transform_def)

lemma validate_frame: "fst (fst (execute_validate S x st)) \<noteq> APaused \<and> st_approvals (snd (execute_validate S x st)) = st_approvals st"
proof (cases "sv_rules S")
  case (Some f)
  obtain res w where "f x (st_data st) (st_world st) = (res, w)"
    by (cases "f x (st_data st) (st_world st)") auto
  thus ?thesis
    using Some by (cases res) (auto simp: execute_validate_def split: if_splits)
qed (simp add: execute_validate_def)

lemma kafka_frame:
  "fst (fst (execute_send_to_kafka S cx t k st)) \<noteq> APaused \<and> st_approvals (snd (execute_send_to_kafka S cx t k st)) = st_approvals st"
proof (cases "sv_kafka S")
  case (Some f)
  obtain res w where "f t (st_data st) k (st_world st) = (res, w)"
    by (cases "f t (st_data st) k (st_world st)") auto
  thus ?thesis
    using Some by (cases res) (auto simp: execute_send_to_kafka_def)
qed (simp add: execute_send_to_kafka_def)

lemma http_frame:
  "fst (fst (execute_send_to_http S u m h st)) \<noteq> APaused \<and> st_approvals (snd (execute_send_to_http S u m h st)) = st_approvals st"
proof (cases "sv_http S")
  case (Some f)
  obtain res w where "f m u (st_data st) (if h \<noteq> [] then Some h else None) (st_world st) = (res, w)"
    by (cases "f m u (st_data st) (if h \<noteq> [] then Some h else None) (st_world st)") auto
  thus ?thesis
    using Some by (cases res) (auto simp: execute_send_to_http_def Let_def split: if_splits)
qed (simp add: execute_send_to_http_def)

lemma lineage_frame:
  "fst (fst (execute_record_lineage S cx e m st)) \<noteq> APaused \<and> st_approvals (snd (execute_record_lineage S cx e m st)) = st_approvals st"
proof (cases "sv_lineage_event S")
  case (Some f)
  obtain res w where "f (case cx_execution_id cx of Some x \<Rightarrow> x | None \<Rightarrow> ''unknown'') (cx_workflow_id cx) (cx_route_id cx) e m (st_world st) = (res, w)"
    by (metis surj_pair)
  thus ?thesis
    using Some by (cases res) (simp_all add: execute_record_lineage_def Let_def)
qed (simp add: execute_record_lineage_def)

lemmas action_frames = transform_frame validate_frame kafka_frame http_frame lineage_frame

definition is_wait :: "'n action \<Rightarrow> bool" where
  "is_wait a = (case a of WaitForApproval _ _ _ _ _ \<Rightarrow> True | _ \<Rightarrow> False)"

lemma run_action_frame:
  assumes "\<not> is_wait a"
  shows "fst (fst (run_action S cx a st)) \<noteq> APaused \<and> st_approvals (snd (run_action S cx a st)) = st_approvals st"
  using assms
  by (cases a)
    (simp_all add: run_action_def is_wait_def Let_def split_beta action_frames set_field_not_paused remove_field_not_paused)

text \<open>A waiting action pauses only with a new pending request in the store, and never without a store.\<close>

lemma wait_outcome:
  assumes "execute_wait_for_approval S cx i ty p t skip st = ((status, err, output), st')"
  shows "st_data st' = st_data st \<and>
     (if status = APaused then
        cx_approvals cx \<and>
        (\<exists>x r. cx_execution_id cx = Some x \<and> ab_save r (st_approvals st) = Inr (st_approvals st') \<and>
           ap_status r = PendingApproval \<and> ap_execution_id r = x \<and> ap_workflow_id r = cx_workflow_id cx \<and> ap_payload r = p \<and>
           ap_expires_at r = deadline (ap_created_at r) t \<and> approval_wf r)
      else st_approvals st' = st_approvals st)"
proof (cases "(case skip of Some cond \<Rightarrow> should_skip_approval S cond (st_data st) | None \<Rightarrow> False) \<or> \<not> cx_approvals cx \<or> cx_execution_id cx = None")
  case True
  thus ?thesis
    using assms by (cases "cx_execution_id cx") (auto simp: execute_wait_for_approval_def split: if_splits)
next
  case False
  then obtain x where x: "cx_execution_id cx = Some x"
    by auto
  obtain u w1 where u: "sv_uuid S (st_world st) = (u, w1)"
    by (cases "sv_uuid S (st_world st)")
  obtain now w2 where now: "sv_now S w1 = (now, w2)"
    by (cases "sv_now S w1")
  define r where "r = approval_request S cx i ty x p t (''appr_'' @ i @ ''_'' @ u) now"
  have r: "ap_status r = PendingApproval" "ap_execution_id r = x" "ap_workflow_id r = cx_workflow_id cx" "ap_payload r = p"
    "ap_expires_at r = deadline (ap_created_at r) t" "approval_wf r"
    by (simp_all add: r_def approval_request_def approval_new_def approval_wf_def)
  show ?thesis
  proof (cases "ab_save r (st_approvals st)")
    case (Inl e)
    thus ?thesis
      using assms False x u now by (auto simp: execute_wait_for_approval_def r_def Let_def)
  next
    case (Inr b)
    hence "status = APaused" "st_approvals st' = b" "st_data st' = st_data st"
      using assms False x u now by (auto simp: execute_wait_for_approval_def r_def Let_def)
    thus ?thesis
      using False x Inr r by auto
  qed
qed

section \<open>What a list of actions does\<close>

definition paused :: "'n action_result list \<Rightarrow> bool" where
  "paused rs \<longleftrightarrow> list_ex (\<lambda>r. ar_status r = APaused) rs"

lemma paused_simps [simp]: "\<not> paused []" "paused (r # rs) \<longleftrightarrow> ar_status r = APaused \<or> paused rs"
  by (simp_all add: paused_def)

lemma execute_actions_append:
  "execute_actions S cx (as @ bs) st =
     (case execute_actions S cx as st of
        (rs, st1) \<Rightarrow> if paused rs then (rs, st1) else (case execute_actions S cx bs st1 of (qs, st2) \<Rightarrow> (rs @ qs, st2)))"
proof (induction as arbitrary: st)
  case (Cons a as)
  obtain r st1 where "execute_action S cx a st = (r, st1)"
    by (cases "execute_action S cx a st")
  thus ?case
    using Cons.IH [of st1] by (auto split: prod.splits)
qed simp

text \<open>The request that a pausing action has put into the store.\<close>

definition requested :: "exec_context \<Rightarrow> ('n, 'w) exec_state \<Rightarrow> ('n, 'w) exec_state \<Rightarrow> bool" where
  "requested cx st st' \<longleftrightarrow>
     cx_approvals cx \<and>
     (\<exists>x r. cx_execution_id cx = Some x \<and> ab_save r (st_approvals st) = Inr (st_approvals st') \<and> ap_status r = PendingApproval \<and>
        ap_execution_id r = x \<and> ap_workflow_id r = cx_workflow_id cx \<and> approval_wf r)"

lemma execute_action_outcome:
  assumes "execute_action S cx a st = (r, st')"
  shows "ar_action_type r = action_type a \<and>
     (if ar_status r = APaused then is_wait a \<and> requested cx st st' \<and> st_data st' = st_data st
      else st_approvals st' = st_approvals st)"
proof -
  obtain status err outp st1 where run: "run_action S cx a st = ((status, err, outp), st1)"
    by (metis prod_cases3 surj_pair)
  have r: "ar_action_type r = action_type a" "ar_status r = status" "st_approvals st' = st_approvals st1" "st_data st' = st_data st1"
    using assms by (auto simp: execute_action_def run split: prod.splits)
  show ?thesis
  proof (cases "is_wait a")
    case True
    then obtain i ty p t skip where "a = WaitForApproval i ty p t skip"
      by (cases a) (auto simp: is_wait_def)
    hence "execute_wait_for_approval S cx i ty p t skip st = ((status, err, outp), st1)"
      using run by (simp add: run_action_def)
    thus ?thesis
      using wait_outcome r True unfolding requested_def by (cases "status = APaused") (fastforce, fastforce)
  next
    case False
    thus ?thesis
      using run_action_frame [OF False, of S cx st] run r by auto
  qed
qed

lemma actions_outcome:
  assumes "execute_actions S cx as st = (rs, st')"
  shows "map ar_action_type rs = map action_type (take (length rs) as) \<and>
     (if paused rs then
        length rs \<le> length as \<and> rs \<noteq> [] \<and> ar_status (last rs) = APaused \<and> \<not> paused (butlast rs) \<and>
        is_wait (as ! (length rs - 1)) \<and> requested cx st st'
      else length rs = length as \<and> st_approvals st' = st_approvals st)"
  using assms
proof (induction as arbitrary: st rs)
  case (Cons a as)
  obtain r st1 where r: "execute_action S cx a st = (r, st1)"
    by (cases "execute_action S cx a st")
  note out = execute_action_outcome [OF r]
  show ?case
  proof (cases "ar_status r = APaused")
    case True
    thus ?thesis
      using Cons.prems out by (auto simp: r)
  next
    case False
    then obtain qs where qs: "execute_actions S cx as st1 = (qs, st')" "rs = r # qs"
      using Cons.prems by (auto simp: r split: prod.splits)
    have same: "st_approvals st1 = st_approvals st"
      using out False by simp
    have "requested cx st st' = requested cx st1 st'"
      by (simp add: requested_def same)
    thus ?thesis
      using Cons.IH [OF qs(1)] out False qs(2) same
      by (cases "paused qs") (auto simp: nth_Cons' Suc_diff_Suc)
  qed
qed simp

text \<open>
  Actions run in their order, each once, and go on after one that fails; they stop only at one that pauses. Each result
  belongs to the action at its place. A pause comes from a waiting action, with a new pending request for this execution in
  the approval store; without a pause the store of requests is as it was.
\<close>

lemma actions_run_in_order:
  assumes "execute_actions S cx as st = (rs, st')"
  shows "map ar_action_type rs = map action_type (take (length rs) as) \<and>
     (if paused rs then
        length rs \<le> length as \<and> rs \<noteq> [] \<and> ar_status (last rs) = APaused \<and> \<not> paused (butlast rs) \<and>
        is_wait (as ! (length rs - 1)) \<and> requested cx st st'
      else length rs = length as \<and> st_approvals st' = st_approvals st)"
  by (rule actions_outcome [OF assms])

section \<open>Examples\<close>

definition no_services :: "string option \<Rightarrow> (int, unit) services" where
  "no_services env =
     \<lparr>sv_now = (\<lambda>w. (0, w)), sv_elapsed_ms = (\<lambda>w. (1, w)), sv_uuid = (\<lambda>w. (''u'', w)), sv_environment = env, sv_num = id,
      sv_as_i64 = Some, sv_render = (\<lambda>_. []), sv_rfc3339 = (\<lambda>_. []), sv_transformers = None, sv_rules = None, sv_kafka = None,
      sv_http = None, sv_lineage_delivery = None, sv_lineage_event = None\<rparr>"

definition demo_context :: "bool \<Rightarrow> exec_context" where
  "demo_context b =
     \<lparr>cx_workflow_id = ''w'', cx_route_id = ''r'', cx_execution_id = Some ''e1'', cx_action_index = 0, cx_approvals = b\<rparr>"

definition demo_actions :: "int action list" where
  "demo_actions = [SetField ''a'' (JNum 1), WaitForApproval ''id'' ''ddl'' JNull 60 None, RemoveField ''a'']"

definition demo_action_state :: "(int, unit) exec_state" where
  "demo_action_state = \<lparr>st_data = JObj [], st_approvals = [], st_world = ()\<rparr>"

lemmas demo_action_defs = no_services_def demo_context_def demo_actions_def demo_action_state_def execute_action_def run_action_def
  execute_set_field_def execute_remove_field_def execute_wait_for_approval_def Let_def ab_save_def approval_request_def approval_new_def

lemma actions_run_in_order_witness:
  "\<exists>rs st'. execute_actions (no_services None) (demo_context True) demo_actions demo_action_state = (rs, st') \<and> length rs = 2 \<and>
     ar_status (last rs) = APaused \<and> requested (demo_context True) demo_action_state st'"
proof -
  obtain rs st' where run: "execute_actions (no_services None) (demo_context True) demo_actions demo_action_state = (rs, st')"
    by (cases "execute_actions (no_services None) (demo_context True) demo_actions demo_action_state")
  hence "length rs = 2 \<and> paused rs"
    by (auto simp: demo_action_defs)
  thus ?thesis
    using run actions_run_in_order [OF run] by auto
qed

text \<open>
  The test of the environment only looks for its quoted name anywhere in the condition, so a condition that asks for
  another environment skips the approval just where it should not.
\<close>

lemma skip_looks_for_name_only:
  "should_skip_approval (no_services (Some ''prod'')) (quoted ''${env.ENVIRONMENT}'' @ '' != '' @ quoted ''prod'') data"
  by (simp add: should_skip_approval_def skip_env_def no_services_def quoted_def)

end
