(* ===== verification/BatchExec.thy ===== *)
theory BatchExec
  imports BatchJobs ActionExec
begin

text \<open>
  Model of the batch executor, \<^verbatim>\<open>arcxa-coordinator/src/workflows/engine/batch_executor.rs\<close>: it runs the executions of a
  batch job wave by wave, each with retries, through the actions of the first route of the workflow, and resumes an
  execution that is paused. The state is the store of jobs, the in-memory execution store, the approval requests and the
  world outside; an operation returns a result and the state after it, also when it fails. The tasks of a wave run one after
  the other in the order of the wave: each works on the record of its own execution. The order in which the results of a
  wave and the keys of a hash map are taken is a parameter. The job store is its contents; its cache and its indexes are left out.
\<close>

section \<open>State and environment\<close>

datatype exec_error =
    JobNotFound string
  | WorkflowNotFound string
  | WorkflowDisabled string
  | BatchInvalid batch_error
  | Unresolved batch_error
  | NotCancellable batch_status
  | StoppedOnError exec_error
  | StoreFailed store_error
  | WorkflowWithoutRoutes string
  | ActionsFailed nat
  | NotPaused execution_status
  | NoCheckpoint
  | NoCheckpointData
  | NoIntermediateData
  | RecordMissing string

record ('n, 's, 'f, 'w) batch_engine =
  en_jobs :: "(string, ('s, 'f) batch_job) hmap"
  en_execs :: "'n exec_backend"
  en_approvals :: "'n approvals"
  en_world :: 'w

record ('n, 's, 'f, 'w) batch_env =
  be_services :: "('n, 'w) services"
  be_sleep :: "u64 \<Rightarrow> 'w \<Rightarrow> 'w"
  be_percent :: "'f percent_lib"
  be_source_json :: "'s \<Rightarrow> 'n json"
  be_workflows :: "string \<Rightarrow> ('n, 'n action) workflow option"
  be_keys :: "'s exec_ref list \<Rightarrow> string list"
  be_order :: "(string \<times> (exec_error + unit)) list \<Rightarrow> (string \<times> (exec_error + unit)) list"

text \<open>An operation on the state that may fail; the question mark operator.\<close>

type_synonym ('a, 'e) run = "'e \<Rightarrow> (exec_error + 'a) \<times> 'e"

definition run_bind :: "('a, 'e) run \<Rightarrow> ('a \<Rightarrow> ('b, 'e) run) \<Rightarrow> ('b, 'e) run" where
  "run_bind m f en = (case m en of (Inl e, en') \<Rightarrow> (Inl e, en') | (Inr a, en') \<Rightarrow> f a en')"

definition run_return :: "'a \<Rightarrow> ('a, 'e) run" where
  "run_return a en = (Inr a, en)"

definition run_fail :: "exec_error \<Rightarrow> ('a, 'e) run" where
  "run_fail e en = (Inl e, en)"

definition clock :: "('n, 'w) services \<Rightarrow> (int, ('n, 's, 'f, 'w) batch_engine) run" where
  "clock S en = (case sv_now S (en_world en) of (now, w) \<Rightarrow> (Inr now, en\<lparr>en_world := w\<rparr>))"

definition save_exec :: "'n execution \<Rightarrow> (unit, ('n, 's, 'f, 'w) batch_engine) run" where
  "save_exec x en =
     (case eb_save x (en_execs en) of Inl e \<Rightarrow> (Inl (StoreFailed e), en) | Inr b \<Rightarrow> (Inr (), en\<lparr>en_execs := b\<rparr>))"

definition put_exec :: "'n execution \<Rightarrow> (unit, ('n, 's, 'f, 'w) batch_engine) run" where
  "put_exec x en =
     (case eb_update x (en_execs en) of Inl e \<Rightarrow> (Inl (StoreFailed e), en) | Inr b \<Rightarrow> (Inr (), en\<lparr>en_execs := b\<rparr>))"

definition get_exec :: "string \<Rightarrow> ('n execution, ('n, 's, 'f, 'w) batch_engine) run" where
  "get_exec k en = (case eb_get k (en_execs en) of None \<Rightarrow> (Inl (RecordMissing k), en) | Some x \<Rightarrow> (Inr x, en))"

definition get_job :: "string \<Rightarrow> (('s, 'f) batch_job, ('n, 's, 'f, 'w) batch_engine) run" where
  "get_job k en = (case map_of (en_jobs en) k of None \<Rightarrow> (Inl (JobNotFound k), en) | Some job \<Rightarrow> (Inr job, en))"

definition put_job :: "('s, 'f) batch_job \<Rightarrow> (unit, ('n, 's, 'f, 'w) batch_engine) run" where
  "put_job job en = (Inr (), en\<lparr>en_jobs := AList.update (bj_job_id job) job (en_jobs en)\<rparr>)"

definition get_workflow :: "('n, 's, 'f, 'w) batch_env \<Rightarrow> string \<Rightarrow> (('n, 'n action) workflow, ('n, 's, 'f, 'w) batch_engine) run" where
  "get_workflow E k en = (case be_workflows E k of None \<Rightarrow> (Inl (WorkflowNotFound k), en) | Some flow \<Rightarrow> (Inr flow, en))"

definition first_route :: "('n, 'n action) workflow \<Rightarrow> (('n, 'n action) route, ('n, 's, 'f, 'w) batch_engine) run" where
  "first_route flow en = (case wf_routes flow of [] \<Rightarrow> (Inl (WorkflowWithoutRoutes (wf_id flow)), en) | r # _ \<Rightarrow> (Inr r, en))"

section \<open>One execution\<close>

text \<open>The context has a rule executor and no other service, and no approval store.\<close>

definition batch_services :: "('n, 'w) services \<Rightarrow> ('n, 'w) services" where
  "batch_services S =
     S\<lparr>sv_transformers := None, sv_kafka := None, sv_http := None, sv_lineage_delivery := None, sv_lineage_event := None\<rparr>"

definition batch_context :: "('n, 'n action) workflow \<Rightarrow> ('n, 'n action) route \<Rightarrow> string option \<Rightarrow> nat \<Rightarrow> exec_context" where
  "batch_context flow route x index =
     \<lparr>cx_workflow_id = wf_id flow, cx_route_id = rt_id route, cx_execution_id = x, cx_action_index = index, cx_approvals = False\<rparr>"

definition run_actions ::
  "('n, 'w) services \<Rightarrow> exec_context \<Rightarrow> 'n action list \<Rightarrow> 'n json \<Rightarrow> ('n action_result list \<times> 'n json, ('n, 's, 'f, 'w) batch_engine) run" where
  "run_actions S cx as data en =
     (case execute_actions S cx as \<lparr>st_data = data, st_approvals = en_approvals en, st_world = en_world en\<rparr> of
        (rs, st) \<Rightarrow> (Inr (rs, st_data st), en\<lparr>en_approvals := st_approvals st, en_world := st_world st\<rparr>))"

definition checkpoint_data :: "('n, 'w) services \<Rightarrow> 'n action_result \<Rightarrow> 'n json \<Rightarrow> nat \<Rightarrow> nat \<Rightarrow> 'n json" where
  "checkpoint_data S pr data action_count executed =
     json_obj
       [(''paused_action_type'', JStr (ar_action_type pr)),
        (''paused_action_output'', case ar_output pr of Some v \<Rightarrow> v | None \<Rightarrow> JNull),
        (''intermediate_data'', data), (''total_actions'', JNum (sv_num S (int action_count))),
        (''executed_actions'', JNum (sv_num S (int executed)))]"

text \<open>Save a checkpoint at an action index, pause the record, and let \<open>f\<close> store the results.\<close>

definition save_pause ::
  "('n, 'w) services \<Rightarrow> string \<Rightarrow> nat \<Rightarrow> 'n json \<Rightarrow> ('n execution \<Rightarrow> 'n execution) \<Rightarrow> (unit, ('n, 's, 'f, 'w) batch_engine) run" where
  "save_pause S k index cp f =
     run_bind (get_exec k) (\<lambda>x. run_bind (clock S) (\<lambda>t1. run_bind (clock S) (\<lambda>t2.
       put_exec (f (execution_update_status t2 XPaused (execution_checkpoint t1 index cp x))))))"

definition batch_input :: "('n, 's, 'f, 'w) batch_env \<Rightarrow> 's exec_ref \<Rightarrow> 'n json" where
  "batch_input E e =
     json_obj [(''source'', be_source_json E (er_source e)), (''target_table'', JStr (er_target_table e)),
               (''batch_execution'', JBool True)]"

definition execute_workflow_internal ::
  "('n, 's, 'f, 'w) batch_env \<Rightarrow> ('n, 'n action) workflow \<Rightarrow> 's exec_ref \<Rightarrow> (unit, ('n, 's, 'f, 'w) batch_engine) run" where
  "execute_workflow_internal E flow e =
     (let S = be_services E; k = er_execution_id e in
      run_bind (clock S) (\<lambda>now.
      run_bind (save_exec (execution_new now k (wf_id flow) (wf_name flow) (batch_input E e) None)) (\<lambda>_.
      run_bind (first_route flow) (\<lambda>route.
      run_bind (run_actions (batch_services S) (batch_context flow route None 0) (rt_actions route) (be_source_json E (er_source e)))
        (\<lambda>(rs, data).
      case find (\<lambda>r. ar_status r = APaused) rs of
        Some pr \<Rightarrow>
          save_pause S k (length rs - 1) (checkpoint_data S pr data (length (rt_actions route)) (length rs))
            (\<lambda>x. x\<lparr>ex_action_results := rs\<rparr>)
      | None \<Rightarrow>
          (let failed = filter (\<lambda>r. ar_status r = AFailed) rs in
           if failed \<noteq> [] then run_fail (ActionsFailed (length failed))
           else
             run_bind (get_exec k) (\<lambda>x. run_bind (clock S) (\<lambda>t.
               put_exec ((execution_update_status t XCompleted x)\<lparr>ex_action_results := rs\<rparr>)))))))))"

definition backoff_ms :: "nat \<Rightarrow> u64" where
  "backoff_ms attempt = min (1000 * 2 ^ (attempt - 1)) 30000"

function execute_with_retry ::
  "('n, 's, 'f, 'w) batch_env \<Rightarrow> ('n, 'n action) workflow \<Rightarrow> batch_config \<Rightarrow> 's exec_ref \<Rightarrow> nat \<Rightarrow> (unit, ('n, 's, 'f, 'w) batch_engine) run" where
  "execute_with_retry E flow cfg e attempt en =
     (case execute_workflow_internal E flow e en of
        (Inr _, en1) \<Rightarrow> (Inr (), en1)
      | (Inl err, en1) \<Rightarrow>
          if attempt + 1 > bc_max_retries cfg \<or> \<not> bc_retry_failed cfg then (Inl err, en1)
          else execute_with_retry E flow cfg e (attempt + 1)
                 (en1\<lparr>en_world := be_sleep E (backoff_ms (attempt + 1)) (en_world en1)\<rparr>))"
  by pat_completeness auto

termination
  by (relation "measure (\<lambda>(E, flow, cfg, e, attempt, en). bc_max_retries cfg - attempt)") auto

declare execute_with_retry.simps [simp del]

section \<open>Waves and jobs\<close>

type_synonym results = "(string, exec_error + unit) hmap"

fun execute_wave ::
  "('n, 's, 'f, 'w) batch_env \<Rightarrow> ('n, 'n action) workflow \<Rightarrow> batch_config \<Rightarrow> 's exec_ref list \<Rightarrow> results \<Rightarrow>
     ('n, 's, 'f, 'w) batch_engine \<Rightarrow> results \<times> ('n, 's, 'f, 'w) batch_engine" where
  "execute_wave E flow cfg [] results en = (results, en)"
| "execute_wave E flow cfg (e # es) results en =
     (case execute_with_retry E flow cfg e 0 en of
        (res, en1) \<Rightarrow> execute_wave E flow cfg es (AList.update (er_execution_id e) res results) en1)"

text \<open>Sort the results into the completed and the failed; with \<^verbatim>\<open>stop_on_error\<close> the first error ends the loop.\<close>

fun process_results :: "bool \<Rightarrow> (string \<times> (exec_error + unit)) list \<Rightarrow> string set \<times> string set \<Rightarrow> (exec_error option) \<times> string set \<times> string set" where
  "process_results stop [] (completed, failed) = (None, completed, failed)"
| "process_results stop ((k, Inr _) # rs) (completed, failed) = process_results stop rs (insert k completed, failed)"
| "process_results stop ((k, Inl e) # rs) (completed, failed) =
     (if stop then (Some e, completed, insert k failed) else process_results stop rs (completed, insert k failed))"

definition update_batch_progress ::
  "('n, 's, 'f, 'w) batch_env \<Rightarrow> ('s, 'f) batch_job \<Rightarrow> (('s, 'f) batch_job, ('n, 's, 'f, 'w) batch_engine) run" where
  "update_batch_progress E job =
     run_bind (clock (be_services E)) (\<lambda>t.
       (let job' = recalculate_progress (be_percent E) (nat t) job in run_bind (put_job job') (\<lambda>_. run_return job')))"

fun run_waves ::
  "('n, 's, 'f, 'w) batch_env \<Rightarrow> ('n, 'n action) workflow \<Rightarrow> 's exec_ref list list \<Rightarrow> ('s, 'f) batch_job \<Rightarrow>
     string set \<times> string set \<Rightarrow> (('s, 'f) batch_job \<times> string set \<times> string set, ('n, 's, 'f, 'w) batch_engine) run" where
  "run_waves E flow [] job acc en = (Inr (job, acc), en)"
| "run_waves E flow (wave # waves) job acc en =
     (case execute_wave E flow (bj_config job) wave [] en of
        (results, en1) \<Rightarrow>
          (case process_results (bc_stop_on_error (bj_config job)) (be_order E results) acc of
             (Some e, _) \<Rightarrow>
               run_bind (clock (be_services E)) (\<lambda>t. run_bind (put_job (update_status (nat t) BFailed job)) (\<lambda>_.
                 run_fail (StoppedOnError e))) en1
           | (None, acc') \<Rightarrow> run_bind (update_batch_progress E job) (\<lambda>job'. run_waves E flow waves job' acc') en1))"

definition final_status :: "string set \<Rightarrow> string set \<Rightarrow> batch_status" where
  "final_status completed failed =
     (if failed = {} then BCompleted else if completed = {} then BFailed else BPartiallyCompleted)"

definition resolve_run ::
  "('n, 's, 'f, 'w) batch_env \<Rightarrow> 's exec_ref list \<Rightarrow> ('s exec_ref list list, ('n, 's, 'f, 'w) batch_engine) run" where
  "resolve_run E es =
     (case resolve_dependencies (be_keys E es) es of
        Some (Inr waves) \<Rightarrow> run_return waves
      | Some (Inl e) \<Rightarrow> run_fail (Unresolved e)
      | None \<Rightarrow> run_fail (Unresolved TooManyIterations))"

definition execute_batch_job :: "('n, 's, 'f, 'w) batch_env \<Rightarrow> string \<Rightarrow> (unit, ('n, 's, 'f, 'w) batch_engine) run" where
  "execute_batch_job E job_id =
     run_bind (get_job job_id) (\<lambda>job.
     run_bind (get_workflow E (bj_workflow_id job)) (\<lambda>flow.
     if \<not> wf_enabled flow then run_fail (WorkflowDisabled (wf_id flow))
     else
       (case batch_validate job of
          Inl e \<Rightarrow> run_fail (BatchInvalid e)
        | Inr _ \<Rightarrow>
            run_bind (clock (be_services E)) (\<lambda>t.
            (let job = update_status (nat t) BRunning job in
             run_bind (put_job job) (\<lambda>_.
             run_bind (resolve_run E (bj_executions job)) (\<lambda>waves.
             run_bind (run_waves E flow waves job ({}, {})) (\<lambda>(job, completed, failed).
             run_bind (clock (be_services E)) (\<lambda>t1. run_bind (clock (be_services E)) (\<lambda>t2.
               put_job (recalculate_progress (be_percent E) (nat t2)
                 (update_status (nat t1) (final_status completed failed) job))))))))))))"

definition cancel_batch :: "('n, 's, 'f, 'w) batch_env \<Rightarrow> string \<Rightarrow> (unit, ('n, 's, 'f, 'w) batch_engine) run" where
  "cancel_batch E job_id =
     run_bind (get_job job_id) (\<lambda>job.
       if \<not> can_cancel job then run_fail (NotCancellable (bj_status job))
       else run_bind (clock (be_services E)) (\<lambda>t. put_job (update_status (nat t) BCancelled job)))"

section \<open>Resuming a paused execution\<close>

definition require :: "exec_error \<Rightarrow> 'a option \<Rightarrow> ('a, 'e) run" where
  "require e v = (case v of None \<Rightarrow> run_fail e | Some a \<Rightarrow> run_return a)"

text \<open>
  The common part of \<^verbatim>\<open>BatchJobExecutor::resume_execution\<close> and \<^verbatim>\<open>resume_workflow_execution\<close> of the approval
  handlers; they differ in \<open>keep\<close>, which stores the results of the resumed actions.
\<close>

definition run_resumed ::
  "('n, 's, 'f, 'w) batch_env \<Rightarrow> ('n action_result list \<Rightarrow> 'n execution \<Rightarrow> 'n execution) \<Rightarrow> string \<Rightarrow> 'n execution \<Rightarrow>
     ('n, 'n action) workflow \<Rightarrow> ('n, 'n action) route \<Rightarrow> nat \<Rightarrow> 'n json \<Rightarrow> (unit, ('n, 's, 'f, 'w) batch_engine) run" where
  "run_resumed E keep k x flow route start data =
     (let S = be_services E in
      run_bind (clock S) (\<lambda>t1. run_bind (clock S) (\<lambda>t2.
      (let x1 = clear_checkpoint t2 (execution_update_status t1 XRunning x) in
       run_bind (put_exec x1) (\<lambda>_.
       run_bind (run_actions (batch_services S) (batch_context flow route (Some k) start) (drop start (rt_actions route)) data)
         (\<lambda>(rs, data').
       case find (\<lambda>r. ar_status r = APaused) rs of
         Some pr \<Rightarrow>
           save_pause S k (start + length rs - 1)
             (checkpoint_data S pr data' (length (rt_actions route)) (start + length rs - 1 + 1)) (keep rs)
       | None \<Rightarrow>
           (let failed = filter (\<lambda>r. ar_status r = AFailed) rs in
            run_bind (clock S) (\<lambda>t.
              if failed \<noteq> [] then
                run_bind (put_exec (execution_update_status t XFailed x1)) (\<lambda>_. run_fail (ActionsFailed (length failed)))
              else put_exec (keep rs (execution_update_status t XCompleted x1))))))))))"

definition resume_core ::
  "('n, 's, 'f, 'w) batch_env \<Rightarrow> ('n action_result list \<Rightarrow> 'n execution \<Rightarrow> 'n execution) \<Rightarrow> string \<Rightarrow> (unit, ('n, 's, 'f, 'w) batch_engine) run" where
  "resume_core E keep k =
     run_bind (get_exec k) (\<lambda>x.
     if ex_status x \<noteq> XPaused then run_fail (NotPaused (ex_status x))
     else
       run_bind (require NoCheckpoint (ex_checkpoint_action_index x)) (\<lambda>index.
       run_bind (require NoCheckpointData (ex_intermediate_data x)) (\<lambda>cp.
       run_bind (require NoIntermediateData (json_get ''intermediate_data'' cp)) (\<lambda>data.
       run_bind (get_workflow E (ex_workflow_id x)) (\<lambda>flow.
       run_bind (first_route flow) (\<lambda>route.
       if index + 1 \<ge> length (rt_actions route) then
         run_bind (clock (be_services E)) (\<lambda>t. put_exec (execution_update_status t XCompleted x))
       else run_resumed E keep k x flow route (index + 1) data))))))"

definition append_results :: "'n action_result list \<Rightarrow> 'n execution \<Rightarrow> 'n execution" where
  "append_results rs x = x\<lparr>ex_action_results := ex_action_results x @ rs\<rparr>"

definition resume_execution :: "('n, 's, 'f, 'w) batch_env \<Rightarrow> string \<Rightarrow> (unit, ('n, 's, 'f, 'w) batch_engine) run" where
  "resume_execution E k = resume_core E append_results k"

definition resume_workflow_execution :: "('n, 's, 'f, 'w) batch_env \<Rightarrow> string \<Rightarrow> (unit, ('n, 's, 'f, 'w) batch_engine) run" where
  "resume_workflow_execution E k = resume_core E (\<lambda>_ x. x) k"

section \<open>One execution: what it leaves in the store\<close>

lemma run_bind_Inr: "m en = (Inr a, en') \<Longrightarrow> run_bind m f en = f a en'"
  by (simp add: run_bind_def)

lemma run_bind_Inl: "m en = (Inl e, en') \<Longrightarrow> run_bind m f en = (Inl e, en')"
  by (simp add: run_bind_def)

lemma clock_eq: "clock S en = (Inr (fst (sv_now S (en_world en))), en\<lparr>en_world := snd (sv_now S (en_world en))\<rparr>)"
  by (simp add: clock_def split_beta)

lemma run_bind_clock [simp]:
  "run_bind (clock S) f en = f (fst (sv_now S (en_world en))) (en\<lparr>en_world := snd (sv_now S (en_world en))\<rparr>)"
  by (rule run_bind_Inr) (rule clock_eq)

lemma run_simps [simp]: "run_return a en = (Inr a, en)" "run_fail e en = (Inl e, en)"
  by (simp_all add: run_return_def run_fail_def)

text \<open>Without an approval store nothing pauses.\<close>

lemma batch_not_paused:
  assumes "execute_actions S cx as st = (rs, st')" "\<not> cx_approvals cx"
  shows "find (\<lambda>r. ar_status r = APaused) rs = None \<and> st_approvals st' = st_approvals st \<and> length rs = length as"
proof -
  have np: "\<not> paused rs"
  proof
    assume p: "paused rs"
    show False
      using actions_outcome [OF assms(1), unfolded if_P [OF p]] assms(2) by (simp add: requested_def)
  qed
  hence "find (\<lambda>r. ar_status r = APaused) rs = None"
    by (auto simp: paused_def list_ex_iff find_None_iff)
  thus ?thesis
    using actions_outcome [OF assms(1), unfolded if_not_P [OF np]] by simp
qed

definition exec_status_of :: "string \<Rightarrow> ('n, 's, 'f, 'w) batch_engine \<Rightarrow> execution_status option" where
  "exec_status_of k en = map_option ex_status (eb_get k (en_execs en))"

lemma status_of_world [simp]:
  "exec_status_of k (en\<lparr>en_world := w\<rparr>) = exec_status_of k en" "exec_status_of k (en\<lparr>en_approvals := a\<rparr>) = exec_status_of k en"
  by (simp_all add: exec_status_of_def)

text \<open>What changes is the record of one execution, and the world.\<close>

definition only_record :: "string \<Rightarrow> ('n, 's, 'f, 'w) batch_engine \<Rightarrow> ('n, 's, 'f, 'w) batch_engine \<Rightarrow> bool" where
  "only_record k en en' \<longleftrightarrow>
     eb_wf (en_execs en') \<and> en_jobs en' = en_jobs en \<and> en_approvals en' = en_approvals en \<and>
     (\<forall>k'. k' \<noteq> k \<longrightarrow> exec_status_of k' en' = exec_status_of k' en)"

lemma only_record_refl: "eb_wf (en_execs en) \<Longrightarrow> only_record k en en"
  by (simp add: only_record_def)

lemma only_record_trans: "only_record k a b \<Longrightarrow> only_record k b c \<Longrightarrow> only_record k a c"
  by (simp add: only_record_def)

lemma only_record_world: "eb_wf (en_execs en) \<Longrightarrow> only_record k en (en\<lparr>en_world := w\<rparr>)"
  by (simp add: only_record_def exec_status_of_def)

lemma status_of_contents: "exec_status_of k en = map_option ex_status (exec_store.contents (en_execs en) k)"
  by (simp add: exec_status_of_def exec_store.contents_def option.map_comp comp_def without_logs_def)

lemma save_exec_new:
  assumes "eb_wf (en_execs en)" "exec_status_of (ex_execution_id x) en = None"
  shows "\<exists>en'. save_exec x en = (Inr (), en') \<and> only_record (ex_execution_id x) en en' \<and>
     exec_status_of (ex_execution_id x) en' = Some (ex_status x) \<and> en_world en' = en_world en"
proof -
  obtain b where b: "eb_save x (en_execs en) = Inr b"
    using exec_store.save_total [OF assms(1), of x] assms(2) by (auto simp: is_ok_conv status_of_contents)
  note c = exec_store.save_contents [OF assms(1) b]
  show ?thesis
    using b c by (auto simp: save_exec_def only_record_def status_of_contents without_logs_def)
qed

lemma save_exec_dup:
  assumes "eb_wf (en_execs en)" "exec_status_of (ex_execution_id x) en \<noteq> None"
  shows "save_exec x en = (Inl (StoreFailed (AlreadyExists (ex_execution_id x))), en)"
  using exec_store.save_dup [OF assms(1), of x] assms(2) by (simp add: save_exec_def exec_status_of_def)

lemma put_exec_ok:
  assumes "eb_wf (en_execs en)" "exec_status_of (ex_execution_id x) en \<noteq> None"
  shows "\<exists>en'. put_exec x en = (Inr (), en') \<and> only_record (ex_execution_id x) en en' \<and>
     exec_status_of (ex_execution_id x) en' = Some (ex_status x) \<and> en_world en' = en_world en"
proof -
  obtain b where b: "eb_update x (en_execs en) = Inr b"
    using exec_store.update_total [OF assms(1), of x] assms(2) by (auto simp: is_ok_conv status_of_contents)
  note c = exec_store.update_contents [OF assms(1) b]
  show ?thesis
    using b c by (auto simp: put_exec_def only_record_def status_of_contents without_logs_def)
qed

text \<open>The execution of a record that is in the store already: it fails and changes nothing.\<close>

lemma internal_dup:
  assumes "eb_wf (en_execs en)" "exec_status_of (er_execution_id e) en \<noteq> None"
  shows "\<exists>w. execute_workflow_internal E flow e en =
     (Inl (StoreFailed (AlreadyExists (er_execution_id e))), en\<lparr>en_world := w\<rparr>)"
proof -
  define en1 where "en1 = en\<lparr>en_world := snd (sv_now (be_services E) (en_world en))\<rparr>"
  have "save_exec (execution_new t (er_execution_id e) a b c d) en1 = (Inl (StoreFailed (AlreadyExists (er_execution_id e))), en1)" for t a b c d
    using save_exec_dup [of en1 "execution_new t (er_execution_id e) a b c d"] assms
    by (simp add: en1_def execution_new_def exec_status_of_def)
  thus ?thesis
    by (auto simp: execute_workflow_internal_def Let_def run_bind_Inl en1_def intro!: exI)
qed

text \<open>The results of the actions of an execution, and those that failed.\<close>

definition failures :: "'n action_result list \<Rightarrow> 'n action_result list" where
  "failures rs = filter (\<lambda>r. ar_status r = AFailed) rs"

lemma internal_complete:
  assumes "eb_wf (en_execs en)" "exec_status_of k en \<noteq> None"
  shows "\<exists>en'. run_bind (get_exec k) (\<lambda>x. run_bind (clock S) (\<lambda>t.
       put_exec ((execution_update_status t XCompleted x)\<lparr>ex_action_results := rs\<rparr>))) en = (Inr (), en') \<and>
     only_record k en en' \<and> exec_status_of k en' = Some XCompleted"
proof -
  obtain x where x: "eb_get k (en_execs en) = Some x"
    using assms(2) by (cases "eb_get k (en_execs en)") (simp_all add: exec_status_of_def)
  define x' where "x' = (execution_update_status (fst (sv_now S (en_world en))) XCompleted x)\<lparr>ex_action_results := rs\<rparr>"
  define en1 where "en1 = en\<lparr>en_world := snd (sv_now S (en_world en))\<rparr>"
  have x': "ex_execution_id x' = k" "ex_status x' = XCompleted"
    using exec_store.get_key [OF assms(1) x] by (simp_all add: x'_def execution_update_status_def Let_def)
  have en1: "only_record k en en1" "eb_wf (en_execs en1)" "exec_status_of k en1 \<noteq> None"
    using only_record_world [OF assms(1)] assms by (simp_all add: en1_def exec_status_of_def)
  obtain en2 where "put_exec x' en1 = (Inr (), en2)" "only_record k en1 en2" "exec_status_of k en2 = Some XCompleted"
    using put_exec_ok [OF en1(2), of x'] en1(3) x' by auto
  moreover have "get_exec k en = (Inr x, en)"
    by (simp add: get_exec_def x)
  ultimately show ?thesis
    using only_record_trans [OF en1(1)] by (auto simp: run_bind_Inr x'_def en1_def)
qed

lemma internal_new:
  assumes ok: "eb_wf (en_execs en)" and new: "exec_status_of (er_execution_id e) en = None" and route: "wf_routes flow = route # rest"
  shows "\<exists>rs st en' st0. execute_workflow_internal E flow e en =
       (if failures rs = [] then Inr () else Inl (ActionsFailed (length (failures rs))), en') \<and>
     execute_actions (batch_services (be_services E)) (batch_context flow route None 0) (rt_actions route) st0 = (rs, st) \<and>
     st_data st0 = be_source_json E (er_source e) \<and>
     only_record (er_execution_id e) en en' \<and>
     exec_status_of (er_execution_id e) en' = Some (if failures rs = [] then XCompleted else XPending)"
proof -
  let ?S = "be_services E" and ?k = "er_execution_id e"
  define en1 where "en1 = en\<lparr>en_world := snd (sv_now ?S (en_world en))\<rparr>"
  define x where "x = execution_new (fst (sv_now ?S (en_world en))) ?k (wf_id flow) (wf_name flow) (batch_input E e) None"
  have en1: "only_record ?k en en1" "eb_wf (en_execs en1)" "exec_status_of ?k en1 = None"
    using only_record_world [OF ok] ok new by (simp_all add: en1_def exec_status_of_def)
  have x: "ex_execution_id x = ?k" "ex_status x = XPending"
    by (simp_all add: x_def execution_new_def)
  obtain en2 where en2: "save_exec x en1 = (Inr (), en2)" "only_record ?k en1 en2" "exec_status_of ?k en2 = Some XPending"
    using save_exec_new [OF en1(2), of x] en1(3) x by auto
  define st0 where "st0 = \<lparr>st_data = be_source_json E (er_source e), st_approvals = en_approvals en2, st_world = en_world en2\<rparr>"
  obtain rs st where run: "execute_actions (batch_services ?S) (batch_context flow route None 0) (rt_actions route) st0 = (rs, st)"
    by (cases "execute_actions (batch_services ?S) (batch_context flow route None 0) (rt_actions route) st0")
  have np: "find (\<lambda>r. ar_status r = APaused) rs = None" "st_approvals st = en_approvals en2"
    using batch_not_paused [OF run] by (simp_all add: batch_context_def st0_def)
  define en3 where "en3 = en2\<lparr>en_approvals := st_approvals st, en_world := st_world st\<rparr>"
  have acts: "run_actions (batch_services ?S) (batch_context flow route None 0) (rt_actions route) (be_source_json E (er_source e)) en2 =
      (Inr (rs, st_data st), en3)"
    using run by (simp add: run_actions_def st0_def en3_def)
  have en3: "only_record ?k en2 en3" "eb_wf (en_execs en3)" "exec_status_of ?k en3 = Some XPending"
    using en2(2,3) np(2) by (simp_all add: en3_def only_record_def exec_status_of_def)
  have upto: "only_record ?k en en3"
    using only_record_trans [OF only_record_trans [OF en1(1) en2(2)] en3(1)] .
  have body: "execute_workflow_internal E flow e en =
      (if failures rs \<noteq> [] then (Inl (ActionsFailed (length (failures rs))), en3)
       else run_bind (get_exec ?k) (\<lambda>x. run_bind (clock ?S) (\<lambda>t.
              put_exec ((execution_update_status t XCompleted x)\<lparr>ex_action_results := rs\<rparr>))) en3)"
    using en2(1) acts np(1)
    by (simp add: execute_workflow_internal_def Let_def run_bind_Inr first_route_def route failures_def flip: x_def en1_def)
  show ?thesis
  proof (cases "failures rs = []")
    case True
    obtain en4 where "execute_workflow_internal E flow e en = (Inr (), en4)" "only_record ?k en3 en4" "exec_status_of ?k en4 = Some XCompleted"
      using internal_complete [OF en3(2), of ?k ?S rs] en3(3) body True by auto
    thus ?thesis
      using True run only_record_trans [OF upto] by (intro exI conjI) (auto simp: st0_def)
  next
    case False
    thus ?thesis
      using body run upto en3(3) by (intro exI conjI) (auto simp: st0_def)
  qed
qed

section \<open>Retries\<close>

lemma retry_dup:
  "eb_wf (en_execs en) \<Longrightarrow> exec_status_of (er_execution_id e) en \<noteq> None \<Longrightarrow>
     \<exists>w. execute_with_retry E flow cfg e attempt en = (Inl (StoreFailed (AlreadyExists (er_execution_id e))), en\<lparr>en_world := w\<rparr>)"
proof (induction E flow cfg e attempt en rule: execute_with_retry.induct)
  case (1 E flow cfg e attempt en)
  obtain w where w: "execute_workflow_internal E flow e en = (Inl (StoreFailed (AlreadyExists (er_execution_id e))), en\<lparr>en_world := w\<rparr>)"
    using internal_dup [OF "1.prems"] by blast
  show ?case
  proof (cases "attempt + 1 > bc_max_retries cfg \<or> \<not> bc_retry_failed cfg")
    case True
    thus ?thesis
      by (subst execute_with_retry.simps) (auto simp: w)
  next
    case False
    let ?en = "en\<lparr>en_world := w, en_world := be_sleep E (backoff_ms (attempt + 1)) w\<rparr>"
    have "eb_wf (en_execs ?en)" "exec_status_of (er_execution_id e) ?en \<noteq> None"
      using "1.prems" by (simp_all add: exec_status_of_def)
    hence "\<exists>w'. execute_with_retry E flow cfg e (attempt + 1) ?en = (Inl (StoreFailed (AlreadyExists (er_execution_id e))), ?en\<lparr>en_world := w'\<rparr>)"
      using "1.IH" [OF w [symmetric] refl False] by simp
    thus ?thesis
      using False by (subst execute_with_retry.simps) (auto simp: w)
  qed
qed

lemma retry_new:
  fixes en :: "('n, 's, 'f, 'w) batch_engine"
  assumes ok: "eb_wf (en_execs en)" and new: "exec_status_of (er_execution_id e) en = None" and route: "wf_routes flow = route # rest"
  shows "\<exists>res en'. execute_with_retry E flow cfg e 0 en = (res, en') \<and>
     is_ok res = is_ok (fst (execute_workflow_internal E flow e en)) \<and>
     only_record (er_execution_id e) en en' \<and> exec_status_of (er_execution_id e) en' = Some (if is_ok res then XCompleted else XPending)"
proof -
  obtain rs :: "'n action_result list" and en1 where first: "execute_workflow_internal E flow e en =
      (if failures rs = [] then Inr () else Inl (ActionsFailed (length (failures rs))), en1)"
      "only_record (er_execution_id e) en en1" "exec_status_of (er_execution_id e) en1 = Some (if failures rs = [] then XCompleted else XPending)"
    using internal_new [OF assms, of E] by (elim exE conjE) (rule that)
  show ?thesis
  proof (cases "failures rs = []")
    case True
    thus ?thesis
      using first by (subst execute_with_retry.simps) simp
  next
    case False
    let ?en = "en1\<lparr>en_world := be_sleep E (backoff_ms 1) (en_world en1)\<rparr>"
    have en: "eb_wf (en_execs ?en)" "exec_status_of (er_execution_id e) ?en \<noteq> None"
      using first(2,3) by (simp_all add: only_record_def)
    obtain w where w: "execute_with_retry E flow cfg e 1 ?en = (Inl (StoreFailed (AlreadyExists (er_execution_id e))), ?en\<lparr>en_world := w\<rparr>)"
      using retry_dup [OF en] by blast
    have "only_record (er_execution_id e) en (en1\<lparr>en_world := w\<rparr>)" "exec_status_of (er_execution_id e) (en1\<lparr>en_world := w\<rparr>) = Some XPending"
      using first(2,3) False by (simp_all add: only_record_def)
    thus ?thesis
      using False first w by (subst execute_with_retry.simps) simp
  qed
qed

text \<open>
  Retries never help: an execution with retries succeeds exactly when its first attempt does. The first attempt has put
  its record into the store, and every further attempt is refused there because the record exists.
\<close>

lemma retries_never_help:
  assumes "eb_wf (en_execs en)" "wf_routes flow \<noteq> []"
  shows "is_ok (fst (execute_with_retry E flow cfg e 0 en)) = is_ok (fst (execute_workflow_internal E flow e en))"
proof (cases "exec_status_of (er_execution_id e) en = None")
  case True
  obtain route rest where "wf_routes flow = route # rest"
    using assms(2) by (cases "wf_routes flow") auto
  thus ?thesis
    using retry_new [OF assms(1) True] by (metis fst_conv)
next
  case False
  thus ?thesis
    using retry_dup [OF assms(1) False] internal_dup [OF assms(1) False] by (metis fst_conv is_ok_simps(2))
qed

section \<open>Backoff\<close>

text \<open>
  The delay before a retry doubles from one second up to thirty seconds. The arithmetic is exact up to attempt 55; from
  attempt 62 on the product wraps to zero and there is no delay.
\<close>

lemma backoff_value:
  assumes "1 \<le> attempt" "attempt \<le> 55"
  shows "unat (backoff_ms attempt) = min (1000 * 2 ^ (attempt - 1)) 30000"
proof -
  have "(2::nat) ^ (attempt - 1) \<le> 2 ^ 54"
    using assms by (intro power_increasing) auto
  hence small: "1000 * 2 ^ (attempt - 1) < (2::nat) ^ 64"
    by simp
  have "(1000 * 2 ^ (attempt - 1) :: u64) = of_nat (1000 * 2 ^ (attempt - 1))"
    by simp
  hence "unat (1000 * 2 ^ (attempt - 1) :: u64) = 1000 * 2 ^ (attempt - 1)"
    using unat_of_nat_small [of "1000 * 2 ^ (attempt - 1)", where 'a = 64] small by simp
  thus ?thesis
    by (simp add: backoff_ms_def min_def word_le_nat_alt)
qed

lemma backoff_wraps: "attempt \<ge> 62 \<Longrightarrow> backoff_ms attempt = 0"
proof -
  assume "attempt \<ge> 62"
  hence "attempt - 1 = 61 + (attempt - 62)"
    by simp
  then obtain d where "attempt - 1 = 61 + d"
    by (rule that)
  hence "(1000 * 2 ^ (attempt - 1) :: u64) = 1000 * 2 ^ 61 * 2 ^ d"
    by (simp add: power_add)
  also have "(1000 * 2 ^ 61 :: u64) = 0"
    by simp
  finally show ?thesis
    by (simp add: backoff_ms_def)
qed

section \<open>A job\<close>

text \<open>What changes are the records of the executions \<open>K\<close>; the jobs may change.\<close>

definition only_records :: "string set \<Rightarrow> ('n, 's, 'f, 'w) batch_engine \<Rightarrow> ('n, 's, 'f, 'w) batch_engine \<Rightarrow> bool" where
  "only_records K en en' \<longleftrightarrow> eb_wf (en_execs en') \<and> (\<forall>k. k \<notin> K \<longrightarrow> exec_status_of k en' = exec_status_of k en)"

lemma only_records_trans: "only_records K a b \<Longrightarrow> only_records L b c \<Longrightarrow> only_records (K \<union> L) a c"
  by (simp add: only_records_def)

definition ended :: "exec_error + unit \<Rightarrow> execution_status option" where
  "ended res = Some (if is_ok res then XCompleted else XPending)"

lemma execute_wave_outcome:
  assumes "eb_wf (en_execs en)" "distinct (map er_execution_id es)" "\<forall>e \<in> set es. exec_status_of (er_execution_id e) en = None"
    and "wf_routes flow \<noteq> []"
  shows "\<exists>results' en'. execute_wave E flow cfg es results en = (results', en') \<and>
     only_records (er_execution_id ` set es) en en' \<and>
     (\<forall>e \<in> set es. \<exists>res. map_of results' (er_execution_id e) = Some res \<and> exec_status_of (er_execution_id e) en' = ended res) \<and>
     (\<forall>k. k \<notin> er_execution_id ` set es \<longrightarrow> map_of results' k = map_of results k) \<and>
     fst ` set results' = fst ` set results \<union> er_execution_id ` set es \<and> (hm_wf results \<longrightarrow> hm_wf results')"
  using assms
proof (induction es arbitrary: results en)
  case Nil
  thus ?case
    by (simp add: only_records_def)
next
  case (Cons e es)
  let ?k = "er_execution_id e"
  obtain route rest where "wf_routes flow = route # rest"
    using Cons.prems(4) by (cases "wf_routes flow") auto
  then obtain res en1 where first: "execute_with_retry E flow cfg e 0 en = (res, en1)" "only_record ?k en en1"
      "exec_status_of ?k en1 = ended res"
    using retry_new [OF Cons.prems(1), of e flow] Cons.prems(3) unfolding ended_def by fastforce
  have en1: "eb_wf (en_execs en1)" "\<forall>e' \<in> set es. exec_status_of (er_execution_id e') en1 = None"
  proof -
    have "er_execution_id e' \<noteq> ?k" if "e' \<in> set es" for e'
      using Cons.prems(2) that by (metis distinct.simps(2) image_eqI list.map(2) list.set_map)
    thus "eb_wf (en_execs en1)" "\<forall>e' \<in> set es. exec_status_of (er_execution_id e') en1 = None"
      using first(2) Cons.prems(3) by (simp_all add: only_record_def)
  qed
  obtain results' en' where rest: "execute_wave E flow cfg es (AList.update ?k res results) en1 = (results', en')"
      "only_records (er_execution_id ` set es) en1 en'"
      "\<forall>e' \<in> set es. \<exists>res. map_of results' (er_execution_id e') = Some res \<and> exec_status_of (er_execution_id e') en' = ended res"
      "\<forall>k. k \<notin> er_execution_id ` set es \<longrightarrow> map_of results' k = map_of (AList.update ?k res results) k"
      "fst ` set results' = fst ` set (AList.update ?k res results) \<union> er_execution_id ` set es"
      "hm_wf (AList.update ?k res results) \<longrightarrow> hm_wf results'"
    using Cons.IH [OF en1(1) _ en1(2) Cons.prems(4), of "AList.update ?k res results"] Cons.prems(2) by auto
  have k: "?k \<notin> er_execution_id ` set es"
    using Cons.prems(2) by auto
  have "only_records {?k} en en1"
    using first(2) by (simp add: only_record_def only_records_def)
  hence "only_records (er_execution_id ` set (e # es)) en en'"
    using only_records_trans [OF _ rest(2), of "{?k}" en] by simp
  moreover have "map_of results' ?k = Some res" "exec_status_of ?k en' = ended res"
    using rest(2,4) k first(3) by (simp_all add: only_records_def update_conv')
  ultimately show ?case
    using rest first(1) k by (auto simp: update_conv' dom_update)
qed

lemma process_all:
  "process_results False rs (completed, failed) =
     (None, completed \<union> {k. \<exists>res. (k, res) \<in> set rs \<and> is_ok res}, failed \<union> {k. \<exists>res. (k, res) \<in> set rs \<and> \<not> is_ok res})"
proof (induction rs arbitrary: completed failed)
  case (Cons r rs)
  obtain k res where r: "r = (k, res)"
    by (cases r)
  show ?case
    using Cons.IH by (cases res) (auto simp: r)
qed simp

lemma run_bind_put_job [simp]:
  "run_bind (put_job job) f en = f () (en\<lparr>en_jobs := AList.update (bj_job_id job) job (en_jobs en)\<rparr>)"
  by (simp add: run_bind_def put_job_def)

lemma recalculate_keeps [simp]:
  "bj_job_id (recalculate_progress P t job) = bj_job_id job" "bj_config (recalculate_progress P t job) = bj_config job"
  "bj_executions (recalculate_progress P t job) = bj_executions job" "bj_status (recalculate_progress P t job) = bj_status job"
  by (simp_all add: recalculate_progress_def Let_def)

lemma update_status_keeps [simp]:
  "bj_job_id (update_status t s job) = bj_job_id job" "bj_config (update_status t s job) = bj_config job"
  "bj_executions (update_status t s job) = bj_executions job" "bj_status (update_status t s job) = s"
  by (simp_all add: update_status_def)

lemma recalculate_executions:
  "bj_executions job = bj_executions job' \<Longrightarrow>
     bj_progress (recalculate_progress P t job) = bj_progress (recalculate_progress P t' job')"
  by (simp add: recalculate_progress_def Let_def)

lemma progress_run:
  "\<exists>job' en'. update_batch_progress E job en = (Inr job', en') \<and> en_execs en' = en_execs en \<and> bj_job_id job' = bj_job_id job \<and>
     bj_config job' = bj_config job \<and> bj_executions job' = bj_executions job"
  by (simp add: update_batch_progress_def Let_def)

definition with_exec_status :: "execution_status \<Rightarrow> string set \<Rightarrow> ('n, 's, 'f, 'w) batch_engine \<Rightarrow> string set" where
  "with_exec_status s K en = {k \<in> K. exec_status_of k en = Some s}"

lemma with_status_union:
  "only_records L a b \<Longrightarrow> K \<inter> L = {} \<Longrightarrow> with_exec_status s K a \<union> with_exec_status s L b = with_exec_status s (K \<union> L) b"
  by (auto simp: with_exec_status_def only_records_def)

lemma wave_status:
  assumes "hm_wf results" "fst ` set results = K" "\<forall>k \<in> K. \<exists>res. map_of results k = Some res \<and> exec_status_of k en = ended res"
  shows "{k. \<exists>res. (k, res) \<in> set results \<and> is_ok res} = with_exec_status XCompleted K en"
    "{k. \<exists>res. (k, res) \<in> set results \<and> \<not> is_ok res} = with_exec_status XPending K en"
    "\<forall>k \<in> K. exec_status_of k en \<in> {Some XCompleted, Some XPending}"
proof -
  have mem: "(k, res) \<in> set results \<longleftrightarrow> map_of results k = Some res" for k res
    using hm_mem_get [OF assms(1)] .
  have dom: "map_of results k = Some res \<Longrightarrow> k \<in> K \<and> exec_status_of k en = ended res" for k res
    using assms(2,3) mem [of k res] by force
  show "{k. \<exists>res. (k, res) \<in> set results \<and> is_ok res} = with_exec_status XCompleted K en"
    using dom assms(3) unfolding mem with_exec_status_def by (fastforce simp: ended_def split: if_splits)
  show "{k. \<exists>res. (k, res) \<in> set results \<and> \<not> is_ok res} = with_exec_status XPending K en"
    using dom assms(3) unfolding mem with_exec_status_def by (fastforce simp: ended_def split: if_splits)
  show "\<forall>k \<in> K. exec_status_of k en \<in> {Some XCompleted, Some XPending}"
    using assms(3) unfolding ended_def by (metis insertCI)
qed

lemma run_waves_outcome:
  assumes "eb_wf (en_execs en)" "distinct (map er_execution_id (concat waves))"
    and "\<forall>e \<in> set (concat waves). exec_status_of (er_execution_id e) en = None"
    and "wf_routes flow \<noteq> []" "\<not> bc_stop_on_error (bj_config job)" "\<And>rs. set (be_order E rs) = set rs"
  shows "\<exists>job' en'. run_waves E flow waves job (completed, failed) en =
       (Inr (job', completed \<union> with_exec_status XCompleted (er_execution_id ` set (concat waves)) en',
          failed \<union> with_exec_status XPending (er_execution_id ` set (concat waves)) en'), en') \<and>
     only_records (er_execution_id ` set (concat waves)) en en' \<and>
     (\<forall>k \<in> er_execution_id ` set (concat waves). exec_status_of k en' \<in> {Some XCompleted, Some XPending}) \<and>
     bj_job_id job' = bj_job_id job \<and> bj_executions job' = bj_executions job"
  using assms(1-5)
proof (induction waves arbitrary: job completed failed en)
  case Nil
  thus ?case
    by (simp add: with_exec_status_def only_records_def)
next
  case (Cons wave waves)
  let ?K = "er_execution_id ` set wave" and ?L = "er_execution_id ` set (concat waves)"
  have disj: "?K \<inter> ?L = {}" "distinct (map er_execution_id wave)" "distinct (map er_execution_id (concat waves))"
    using Cons.prems(2) by auto
  obtain results en1 where w: "execute_wave E flow (bj_config job) wave [] en = (results, en1)" "only_records ?K en en1"
      "\<forall>e \<in> set wave. \<exists>res. map_of results (er_execution_id e) = Some res \<and> exec_status_of (er_execution_id e) en1 = ended res"
      "fst ` set results = ?K" "hm_wf results"
    using execute_wave_outcome [OF Cons.prems(1) disj(2) _ Cons.prems(4), of E "bj_config job" "[]"] Cons.prems(3) by auto
  have st: "\<forall>k \<in> ?K. \<exists>res. map_of results k = Some res \<and> exec_status_of k en1 = ended res"
    using w(3) by blast
  have proc: "process_results (bc_stop_on_error (bj_config job)) (be_order E results) (completed, failed) =
      (None, completed \<union> with_exec_status XCompleted ?K en1, failed \<union> with_exec_status XPending ?K en1)"
    using Cons.prems(5) wave_status [OF w(5,4) st] by (simp add: process_all assms(6))
  obtain job2 en2 where p: "update_batch_progress E job en1 = (Inr job2, en2)" "en_execs en2 = en_execs en1"
      "bj_job_id job2 = bj_job_id job" "bj_config job2 = bj_config job" "bj_executions job2 = bj_executions job"
    using progress_run [of E job en1] by blast
  have same: "exec_status_of k en2 = exec_status_of k en1" for k
    by (simp add: exec_status_of_def p(2))
  have en2: "eb_wf (en_execs en2)" "\<forall>e \<in> set (concat waves). exec_status_of (er_execution_id e) en2 = None"
  proof -
    have "er_execution_id e \<notin> ?K" "exec_status_of (er_execution_id e) en = None" if "e \<in> set (concat waves)" for e
      using that disj(1) Cons.prems(3) by (blast, simp)
    thus "eb_wf (en_execs en2)" "\<forall>e \<in> set (concat waves). exec_status_of (er_execution_id e) en2 = None"
      using w(2) unfolding same p(2) only_records_def by simp_all
  qed
  have stop2: "\<not> bc_stop_on_error (bj_config job2)"
    using Cons.prems(5) p(4) by simp
  obtain job' en' where r: "run_waves E flow waves job2 (completed \<union> with_exec_status XCompleted ?K en1, failed \<union> with_exec_status XPending ?K en1) en2 =
       (Inr (job', completed \<union> with_exec_status XCompleted ?K en1 \<union> with_exec_status XCompleted ?L en',
          failed \<union> with_exec_status XPending ?K en1 \<union> with_exec_status XPending ?L en'), en')"
      "only_records ?L en2 en'" "\<forall>k \<in> ?L. exec_status_of k en' \<in> {Some XCompleted, Some XPending}" "bj_job_id job' = bj_job_id job2"
      "bj_executions job' = bj_executions job2"
    using Cons.IH [OF en2(1) disj(3) en2(2) Cons.prems(4) stop2, of "completed \<union> with_exec_status XCompleted ?K en1"
        "failed \<union> with_exec_status XPending ?K en1"]
    by (elim exE conjE) (rule that)
  have L: "only_records ?L en1 en'"
    using r(2) by (simp add: only_records_def same)
  have all: "with_exec_status s ?K en1 \<union> with_exec_status s ?L en' = with_exec_status s (?K \<union> ?L) en'" for s
    using with_status_union [OF L disj(1)] .
  have early: "\<forall>k \<in> ?K. exec_status_of k en' \<in> {Some XCompleted, Some XPending}"
  proof
    fix k
    assume k: "k \<in> ?K"
    hence "k \<notin> ?L"
      using disj(1) by blast
    hence "exec_status_of k en' = exec_status_of k en1"
      using L by (simp add: only_records_def)
    thus "exec_status_of k en' \<in> {Some XCompleted, Some XPending}"
      using wave_status(3) [OF w(5,4) st] k by metis
  qed
  have ids: "er_execution_id ` set (concat (wave # waves)) = ?K \<union> ?L"
    by auto
  have "run_waves E flow (wave # waves) job (completed, failed) en =
      (Inr (job', completed \<union> with_exec_status XCompleted (?K \<union> ?L) en', failed \<union> with_exec_status XPending (?K \<union> ?L) en'), en')"
    using r(1) [unfolded Un_assoc all] by (simp add: w(1) proc run_bind_Inr [where m = "update_batch_progress E job", OF p(1)] Un_assoc)
  thus ?case
    unfolding ids using only_records_trans [OF w(2) L] early r(3-5) p(3,5) by auto
qed

lemma resolve_run_ok:
  assumes "distinct (map er_execution_id es)" "set (be_keys E es) = er_execution_id ` set es"
    and "missing_dependency es = None" "acyclic (depends (exec_by_id es))"
  shows "\<exists>waves. resolve_run E es en = (Inr waves, en) \<and> mset (concat waves) = mset es"
proof -
  have "\<forall>e \<in> set es. set (er_dependencies e) \<subseteq> er_execution_id ` set es"
    using assms(3) missing_dependency_None [of es] by (simp add: ids_def)
  then obtain waves where "resolve_dependencies (be_keys E es) es = Some (Inr waves)" "mset (concat waves) = mset es"
    using resolve_dependencies_spec [OF assms(1,2)] assms(4) by (auto simp: is_ok_conv)
  thus ?thesis
    by (simp add: resolve_run_def)
qed

lemma batch_validate_deps: "batch_validate job = Inr () \<Longrightarrow> missing_dependency (bj_executions job) = None"
  by (auto simp: batch_validate_def split: if_splits option.splits)

text \<open>
  A batch job whose executions have new identifiers and no circular dependency runs to its end. Every execution is run, its
  record is completed or still pending, and the stored status of the job tells the outcome: completed when every execution
  completed, failed when none did, partially completed otherwise. The progress of the job, though, is counted from the
  references as they were submitted.
\<close>

lemma batch_status_tells_outcome:
  assumes job: "map_of (en_jobs en) job_id = Some job" "bj_job_id job = job_id" "batch_validate job = Inr ()"
      "\<not> bc_stop_on_error (bj_config job)"
    and flow: "be_workflows E (bj_workflow_id job) = Some flow" "wf_enabled flow" "wf_routes flow \<noteq> []"
    and es: "distinct (map er_execution_id (bj_executions job))" "acyclic (depends (exec_by_id (bj_executions job)))"
      "\<forall>e \<in> set (bj_executions job). eb_get (er_execution_id e) (en_execs en) = None"
    and env: "\<And>es. set (be_keys E es) = er_execution_id ` set es" "\<And>rs. set (be_order E rs) = set rs"
    and "eb_wf (en_execs en)"
  shows "\<exists>en' job'. execute_batch_job E job_id en = (Inr (), en') \<and> map_of (en_jobs en') job_id = Some job' \<and>
     (\<forall>e \<in> set (bj_executions job). exec_status_of (er_execution_id e) en' \<in> {Some XCompleted, Some XPending}) \<and>
     (\<exists>t. bj_progress job' = bj_progress (recalculate_progress (be_percent E) t job)) \<and>
     bj_status job' =
       (if \<forall>e \<in> set (bj_executions job). exec_status_of (er_execution_id e) en' = Some XCompleted then BCompleted
        else if \<forall>e \<in> set (bj_executions job). exec_status_of (er_execution_id e) en' \<noteq> Some XCompleted then BFailed
        else BPartiallyCompleted)"
proof -
  let ?S = "be_services E" and ?ids = "er_execution_id ` set (bj_executions job)"
  define job1 where "job1 = update_status (nat (fst (sv_now ?S (en_world en)))) BRunning job"
  define en1 where "en1 = en\<lparr>en_world := snd (sv_now ?S (en_world en)), en_jobs := AList.update job_id job1 (en_jobs en)\<rparr>"
  obtain waves where waves: "resolve_run E (bj_executions job) en1 = (Inr waves, en1)" "mset (concat waves) = mset (bj_executions job)"
    using resolve_run_ok [OF es(1) env(1) batch_validate_deps [OF job(3)] es(2)] by blast
  have set_waves: "set (concat waves) = set (bj_executions job)"
    using waves(2) by (metis set_mset_mset)
  have dist: "distinct (map er_execution_id (concat waves))"
    using es(1) waves(2) by (metis distinct_map mset_eq_imp_distinct_iff set_waves)
  have new: "\<forall>e \<in> set (concat waves). exec_status_of (er_execution_id e) en1 = None"
    unfolding set_waves using es(3) by (simp add: en1_def exec_status_of_def)
  have wf1: "eb_wf (en_execs en1)" "\<not> bc_stop_on_error (bj_config job1)"
    using assms(13) job(4) by (simp_all add: en1_def job1_def)
  obtain job2 en2 where run: "run_waves E flow waves job1 ({}, {}) en1 =
      (Inr (job2, with_exec_status XCompleted ?ids en2, with_exec_status XPending ?ids en2), en2)"
      "\<forall>k \<in> ?ids. exec_status_of k en2 \<in> {Some XCompleted, Some XPending}" "bj_job_id job2 = job_id"
      "bj_executions job2 = bj_executions job"
    using run_waves_outcome [OF wf1(1) dist new flow(3) wf1(2) env(2), of "{}" "{}"] job(2)
    unfolding set_waves by (auto simp: job1_def)
  define en' where "en' = snd (execute_batch_job E job_id en)"
  obtain job' t where fin: "execute_batch_job E job_id en = (Inr (), en')" "en_execs en' = en_execs en2"
      "bj_progress job' = bj_progress (recalculate_progress (be_percent E) t job)"
      "map_of (en_jobs en') job_id = Some job'" "bj_status job' = final_status (with_exec_status XCompleted ?ids en2) (with_exec_status XPending ?ids en2)"
  proof -
    have load: "get_job job_id en = (Inr job, en)" "get_workflow E (bj_workflow_id job) en = (Inr flow, en)"
      using job(1) flow(1) by (simp_all add: get_job_def get_workflow_def)
    note steps = waves(1) [unfolded en1_def job1_def] run(1) [unfolded en1_def job1_def]
    have "execute_batch_job E job_id en =
        run_bind (clock ?S) (\<lambda>t1. run_bind (clock ?S) (\<lambda>t2.
          put_job (recalculate_progress (be_percent E) (nat t2)
            (update_status (nat t1) (final_status (with_exec_status XCompleted ?ids en2) (with_exec_status XPending ?ids en2)) job2)))) en2"
      using job(2,3) flow(2)
      by (simp add: execute_batch_job_def run_bind_Inr [where m = "get_job job_id", OF load(1)]
          run_bind_Inr [where m = "get_workflow E (bj_workflow_id job)", OF load(2)] Let_def
          run_bind_Inr [where m = "resolve_run E (bj_executions job)", OF steps(1)]
          run_bind_Inr [where m = "run_waves E flow waves (update_status (nat (fst (sv_now ?S (en_world en)))) BRunning job) ({}, {})", OF steps(2)])
    then obtain t1 t2 w where ex: "execute_batch_job E job_id en = put_job (recalculate_progress (be_percent E) t2
        (update_status t1 (final_status (with_exec_status XCompleted ?ids en2) (with_exec_status XPending ?ids en2)) job2)) (en2\<lparr>en_world := w\<rparr>)"
      by simp
    show thesis
      by (rule that [OF _ _ recalculate_executions [OF trans [OF update_status_keeps(3) run(4)]]])
        (use run(3) in \<open>simp_all add: ex en'_def put_job_def update_conv'\<close>)
  qed
  have st: "exec_status_of k en' = exec_status_of k en2" for k
    by (simp add: exec_status_of_def fin(2))
  have "final_status (with_exec_status XCompleted ?ids en2) (with_exec_status XPending ?ids en2) =
      (if \<forall>k \<in> ?ids. exec_status_of k en2 = Some XCompleted then BCompleted
       else if \<forall>k \<in> ?ids. exec_status_of k en2 \<noteq> Some XCompleted then BFailed else BPartiallyCompleted)"
    using run(2) by (force simp: final_status_def with_exec_status_def)
  thus ?thesis
    using fin run(2) by (auto simp: st)
qed

text \<open>The progress of a job that was submitted with pending references: nothing is ever counted as completed.\<close>

lemma count_pending:
  "\<forall>e \<in> set es. er_status e = WPending \<Longrightarrow>
     pg_pending (fold count_status es p) = pg_pending p + length es \<and> pg_completed (fold count_status es p) = pg_completed p \<and>
     pg_failed (fold count_status es p) = pg_failed p"
  by (induction es arbitrary: p) (simp_all add: count_status_def)

lemma progress_stays_pending:
  assumes "\<forall>e \<in> set (bj_executions job). er_status e = WPending"
  shows "pg_pending (bj_progress (recalculate_progress P t job)) = length (bj_executions job) \<and>
     pg_completed (bj_progress (recalculate_progress P t job)) = 0"
  by (simp add: recalculate_progress_def Let_def progress_new_def count_pending [OF assms])

text \<open>The executor writes back its own copy of the job, so a cancellation in the meantime is lost.\<close>

lemma cancel_is_overwritten:
  assumes "map_of (en_jobs en) (bj_job_id job) = Some job" "can_cancel job"
  shows "\<exists>en1 job1 en2 job2. cancel_batch E (bj_job_id job) en = (Inr (), en1) \<and>
     map_of (en_jobs en1) (bj_job_id job) = Some job1 \<and> bj_status job1 = BCancelled \<and>
     update_batch_progress E job en1 = (Inr job2, en2) \<and> map_of (en_jobs en2) (bj_job_id job) = Some job2 \<and>
     bj_status job2 = bj_status job"
proof -
  have "get_job (bj_job_id job) en = (Inr job, en)"
    using assms(1) by (simp add: get_job_def)
  thus ?thesis
    using assms(2)
    by (simp add: cancel_batch_def run_bind_Inr [where m = "get_job (bj_job_id job)"] put_job_def update_batch_progress_def Let_def
        update_conv')
qed

text \<open>A job whose dependencies cannot be resolved is left in the state running.\<close>

lemma unresolved_stays_running:
  assumes "map_of (en_jobs en) (bj_job_id job) = Some job" "batch_validate job = Inr ()"
    and "be_workflows E (bj_workflow_id job) = Some flow" "wf_enabled flow"
    and "resolve_dependencies (be_keys E (bj_executions job)) (bj_executions job) = Some (Inl e)"
  shows "\<exists>en' job'. execute_batch_job E (bj_job_id job) en = (Inl (Unresolved e), en') \<and>
     map_of (en_jobs en') (bj_job_id job) = Some job' \<and> bj_status job' = BRunning"
proof -
  have load: "get_job (bj_job_id job) en = (Inr job, en)" "get_workflow E (bj_workflow_id job) en = (Inr flow, en)"
    using assms(1,3) by (simp_all add: get_job_def get_workflow_def)
  have res: "run_bind (resolve_run E (bj_executions job)) f en1 = (Inl (Unresolved e), en1)"
    for f :: "_ \<Rightarrow> (unit, _) run" and en1
    by (rule run_bind_Inl) (simp add: resolve_run_def assms(5))
  show ?thesis
    using assms(2,4)
    by (simp add: execute_batch_job_def run_bind_Inr [where m = "get_job (bj_job_id job)", OF load(1)]
        run_bind_Inr [where m = "get_workflow E (bj_workflow_id job)", OF load(2)] Let_def res update_conv')
qed

section \<open>Pause and resume\<close>

text \<open>Storing the results changes neither the key nor the status of a record.\<close>

definition keeps :: "('n execution \<Rightarrow> 'n execution) \<Rightarrow> bool" where
  "keeps f \<longleftrightarrow>
     (\<forall>x. ex_execution_id (f x) = ex_execution_id x \<and> ex_status (f x) = ex_status x \<and> ex_workflow_id (f x) = ex_workflow_id x \<and>
        ex_checkpoint_action_index (f x) = ex_checkpoint_action_index x \<and> ex_intermediate_data (f x) = ex_intermediate_data x)"

lemma keeps_append [simp]: "keeps (append_results rs)"
  by (simp add: keeps_def append_results_def)

lemma keeps_id [simp]: "keeps (\<lambda>x. x)"
  by (simp add: keeps_def)

lemma execution_update_status_simps [simp]:
  "ex_execution_id (execution_update_status t s x) = ex_execution_id x" "ex_status (execution_update_status t s x) = s"
  "ex_workflow_id (execution_update_status t s x) = ex_workflow_id x"
  "ex_checkpoint_action_index (execution_update_status t s x) = ex_checkpoint_action_index x"
  "ex_intermediate_data (execution_update_status t s x) = ex_intermediate_data x"
  by (simp_all add: execution_update_status_def Let_def)

lemma put_exec_run:
  assumes "eb_wf (en_execs en)" "exec_status_of (ex_execution_id x) en \<noteq> None"
  obtains en' where "put_exec x en = (Inr (), en')" "only_record (ex_execution_id x) en en'"
    "exec_status_of (ex_execution_id x) en' = Some (ex_status x)" "en_world en' = en_world en"
  using put_exec_ok [OF assms] by auto

lemma run_resumed_outcome:
  assumes ok: "eb_wf (en_execs en)" and x: "ex_execution_id x = k" "exec_status_of k en \<noteq> None" and keep: "\<And>rs. keeps (keep rs)"
  shows "\<exists>rs st st0 en'. run_resumed E keep k x flow route start data en =
       (if failures rs = [] then Inr () else Inl (ActionsFailed (length (failures rs))), en') \<and>
     execute_actions (batch_services (be_services E)) (batch_context flow route (Some k) start) (drop start (rt_actions route)) st0 = (rs, st) \<and>
     st_data st0 = data \<and> only_record k en en' \<and> exec_status_of k en' = Some (if failures rs = [] then XCompleted else XFailed)"
proof -
  let ?S = "be_services E"
  obtain t1 t2 w where clk: "run_bind (clock ?S) (\<lambda>t1. run_bind (clock ?S) (f t1)) en = f t1 t2 (en\<lparr>en_world := w\<rparr>)"
    for f :: "int \<Rightarrow> int \<Rightarrow> (unit, _) run"
    by simp
  define x1 where "x1 = clear_checkpoint t2 (execution_update_status t1 XRunning x)"
  have x1: "ex_execution_id x1 = k"
    by (simp add: x1_def clear_checkpoint_def x(1))
  obtain en2 where put: "put_exec x1 (en\<lparr>en_world := w\<rparr>) = (Inr (), en2)" "only_record k (en\<lparr>en_world := w\<rparr>) en2"
      "exec_status_of k en2 = Some (ex_status x1)"
    using put_exec_run [of "en\<lparr>en_world := w\<rparr>" x1] ok x(2) x1 by auto
  define st0 where "st0 = \<lparr>st_data = data, st_approvals = en_approvals en2, st_world = en_world en2\<rparr>"
  obtain rs st where run: "execute_actions (batch_services ?S) (batch_context flow route (Some k) start) (drop start (rt_actions route)) st0 = (rs, st)"
    by (cases "execute_actions (batch_services ?S) (batch_context flow route (Some k) start) (drop start (rt_actions route)) st0")
  have np: "find (\<lambda>r. ar_status r = APaused) rs = None" "st_approvals st = en_approvals en2"
    using batch_not_paused [OF run] by (simp_all add: batch_context_def st0_def)
  define en3 where "en3 = en2\<lparr>en_approvals := st_approvals st, en_world := st_world st\<rparr>"
  have acts: "run_actions (batch_services ?S) (batch_context flow route (Some k) start) (drop start (rt_actions route)) data en2 =
      (Inr (rs, st_data st), en3)"
    using run by (simp add: run_actions_def st0_def en3_def)
  have en3: "only_record k en en3" "eb_wf (en_execs en3)" "exec_status_of k en3 \<noteq> None"
    using put(2,3) np(2) by (simp_all add: en3_def only_record_def)
  have body: "run_resumed E keep k x flow route start data en =
      run_bind (clock ?S) (\<lambda>t.
        if failures rs \<noteq> [] then run_bind (put_exec (execution_update_status t XFailed x1)) (\<lambda>_. run_fail (ActionsFailed (length (failures rs))))
        else put_exec (keep rs (execution_update_status t XCompleted x1))) en3"
    using np(1) unfolding run_resumed_def Let_def clk x1_def [symmetric]
    by (simp add: failures_def run_bind_Inr [where m = "put_exec x1", OF put(1)]
        run_bind_Inr [where m = "run_actions (batch_services ?S) (batch_context flow route (Some k) start) (drop start (rt_actions route)) data", OF acts])
  define en4 where "en4 = en3\<lparr>en_world := snd (sv_now ?S (en_world en3))\<rparr>"
  have en4: "eb_wf (en_execs en4)" "exec_status_of k en4 \<noteq> None" "only_record k en en4"
    using en3 by (simp_all add: en4_def only_record_def)
  define y where "y = (if failures rs \<noteq> [] then execution_update_status (fst (sv_now ?S (en_world en3))) XFailed x1
    else keep rs (execution_update_status (fst (sv_now ?S (en_world en3))) XCompleted x1))"
  have y: "ex_execution_id y = k" "ex_status y = (if failures rs = [] then XCompleted else XFailed)"
    using keep [of rs] x1 by (auto simp: y_def keeps_def)
  obtain en' where en': "put_exec y en4 = (Inr (), en')" "only_record k en4 en'" "exec_status_of k en' = Some (ex_status y)"
    using put_exec_run [OF en4(1), of y] en4(2) y(1) by auto
  have "run_resumed E keep k x flow route start data en =
       (if failures rs = [] then Inr () else Inl (ActionsFailed (length (failures rs))), en') \<and> only_record k en en' \<and> exec_status_of k en' = Some (ex_status y)"
  proof -
    have "run_resumed E keep k x flow route start data en =
        (if failures rs \<noteq> [] then run_bind (put_exec y) (\<lambda>_. run_fail (ActionsFailed (length (failures rs)))) en4 else put_exec y en4)"
      by (simp add: body y_def en4_def)
    thus ?thesis
      using only_record_trans [OF en4(3) en'(2)] en'(1,3) by (simp add: run_bind_Inr [where m = "put_exec y", OF en'(1)])
  qed
  thus ?thesis
    using run y(2) by (intro exI [of _ rs] exI [of _ st] exI [of _ st0] exI [of _ en']) (simp add: st0_def)
qed

lemma resume_core_outcome:
  assumes ok: "eb_wf (en_execs en)" "eb_get k (en_execs en) = Some x" and x: "ex_status x = XPaused"
      "ex_checkpoint_action_index x = Some i" "ex_intermediate_data x = Some cp" "json_get ''intermediate_data'' cp = Some data"
    and flow: "be_workflows E (ex_workflow_id x) = Some flow" "wf_routes flow = route # rest" and keep: "\<And>rs. keeps (keep rs)"
  shows "\<exists>rs st st0 en'. resume_core E keep k en =
       (if failures rs = [] then Inr () else Inl (ActionsFailed (length (failures rs))), en') \<and>
     execute_actions (batch_services (be_services E)) (batch_context flow route (Some k) (i + 1)) (drop (i + 1) (rt_actions route)) st0 = (rs, st) \<and>
     st_data st0 = data \<and> only_record k en en' \<and> exec_status_of k en' = Some (if failures rs = [] then XCompleted else XFailed)"
proof -
  have k: "ex_execution_id x = k" "exec_status_of k en \<noteq> None"
    using exec_store.get_key [OF ok] ok(2) by (simp_all add: exec_status_of_def)
  have load: "get_exec k en = (Inr x, en)" "get_workflow E (ex_workflow_id x) en = (Inr flow, en)" "first_route flow en = (Inr route, en)"
    using ok(2) flow by (simp_all add: get_exec_def get_workflow_def first_route_def)
  have body: "resume_core E keep k en =
      (if i + 1 \<ge> length (rt_actions route) then run_bind (clock (be_services E)) (\<lambda>t. put_exec (execution_update_status t XCompleted x)) en
       else run_resumed E keep k x flow route (i + 1) data en)"
    using x
    by (simp add: resume_core_def require_def run_bind_Inr [where m = "get_exec k", OF load(1)]
        run_bind_Inr [where m = "get_workflow E (ex_workflow_id x)", OF load(2)] run_bind_Inr [where m = "first_route flow", OF load(3)]
        run_bind_Inr [where m = "run_return a" for a, OF run_simps(1)])
  show ?thesis
  proof (cases "i + 1 \<ge> length (rt_actions route)")
    case True
    let ?en1 = "en\<lparr>en_world := snd (sv_now (be_services E) (en_world en))\<rparr>"
    let ?y = "execution_update_status (fst (sv_now (be_services E) (en_world en))) XCompleted x"
    obtain en' where "put_exec ?y ?en1 = (Inr (), en')" "only_record k ?en1 en'" "exec_status_of k en' = Some XCompleted"
      using put_exec_run [of ?en1 ?y] ok(1) k by auto
    thus ?thesis
      using body True by (intro exI [of _ "[]"] exI [of _ "\<lparr>st_data = data, st_approvals = [], st_world = w\<rparr>" for w] exI [of _ en'])
        (simp add: failures_def only_record_def)
  next
    case False
    thus ?thesis
      using run_resumed_outcome [where keep = keep and E = E and flow = flow and route = route and start = "i + 1" and data = data, OF ok(1) k keep] body
      by simp
  qed
qed

text \<open>A checkpoint gives back the data it was made of.\<close>

lemma checkpoint_data_get: "json_get ''intermediate_data'' (checkpoint_data S pr data n m) = Some data"
  by (simp add: checkpoint_data_def json_obj_def json_get_def bt_get_insert flip: bt_get_map_of)

lemma save_pause_record:
  assumes ok: "eb_wf (en_execs en)" "eb_get k (en_execs en) = Some x" and f: "keeps f" and run: "save_pause S k i cp f en = (Inr (), en')"
  shows "eb_wf (en_execs en') \<and> (\<exists>y. eb_get k (en_execs en') = Some y \<and> ex_status y = XPaused \<and> ex_checkpoint_action_index y = Some i \<and>
     ex_intermediate_data y = Some cp \<and> ex_workflow_id y = ex_workflow_id x)"
proof -
  have k: "ex_execution_id x = k"
    using exec_store.get_key [OF ok] .
  obtain t1 t2 w where run': "put_exec (f (execution_update_status t2 XPaused (execution_checkpoint t1 i cp x))) (en\<lparr>en_world := w\<rparr>) = (Inr (), en')"
  proof -
    have get: "get_exec k en = (Inr x, en)"
      using ok(2) by (simp add: get_exec_def)
    show thesis
      using run that unfolding save_pause_def run_bind_Inr [where m = "get_exec k", OF get] by simp
  qed
  define y where "y = f (execution_update_status t2 XPaused (execution_checkpoint t1 i cp x))"
  have y: "ex_execution_id y = k" "ex_status y = XPaused" "ex_checkpoint_action_index y = Some i" "ex_intermediate_data y = Some cp"
    "ex_workflow_id y = ex_workflow_id x"
    using f k by (simp_all add: y_def keeps_def execution_checkpoint_def)
  obtain b where b: "eb_update y (en_execs en) = Inr b" "en_execs en' = b"
    using run' by (auto simp: y_def put_exec_def split: sum.splits)
  have c: "eb_wf b" "exec_store.contents b k = Some (without_logs y)"
    using exec_store.update_contents [OF ok(1) b(1)] y(1) by simp_all
  then obtain z where z: "eb_get k b = Some z" "without_logs z = without_logs y"
    by (auto simp: exec_store.contents_def)
  have "ex_status z = ex_status (without_logs z)" "ex_checkpoint_action_index z = ex_checkpoint_action_index (without_logs z)"
    "ex_intermediate_data z = ex_intermediate_data (without_logs z)" "ex_workflow_id z = ex_workflow_id (without_logs z)"
    by (simp_all add: without_logs_def)
  hence "ex_status z = XPaused" "ex_checkpoint_action_index z = Some i" "ex_intermediate_data z = Some cp" "ex_workflow_id z = ex_workflow_id x"
    unfolding z(2) using y by (simp_all add: without_logs_def)
  thus ?thesis
    using c(1) z(1) b(2) by blast
qed

lemma save_pause_total:
  assumes ok: "eb_wf (en_execs en)" "eb_get k (en_execs en) = Some x" and f: "keeps f"
  shows "\<exists>en'. save_pause S k i cp f en = (Inr (), en')"
proof -
  have get: "get_exec k en = (Inr x, en)"
    using ok(2) by (simp add: get_exec_def)
  have "\<exists>en'. put_exec (f (execution_update_status t2 XPaused (execution_checkpoint t1 i cp x))) (en\<lparr>en_world := w\<rparr>) = (Inr (), en')" for t1 t2 w
  proof -
    have "ex_execution_id (f (execution_update_status t2 XPaused (execution_checkpoint t1 i cp x))) = k"
      using exec_store.get_key [OF ok] f by (simp add: keeps_def execution_checkpoint_def)
    moreover have "exec_status_of k en = Some (ex_status x)"
      using ok(2) by (simp add: exec_status_of_def)
    ultimately show ?thesis
      using put_exec_ok [of "en\<lparr>en_world := w\<rparr>" "f (execution_update_status t2 XPaused (execution_checkpoint t1 i cp x))"] ok(1) by auto
  qed
  thus ?thesis
    unfolding save_pause_def run_bind_Inr [where m = "get_exec k", OF get] by simp
qed

text \<open>
  An execution that was paused with a checkpoint continues where it stopped: resuming runs exactly the actions after the
  paused one, on the data of the checkpoint, and leaves the record completed when none of them fails, failed otherwise; no
  other record and no approval request changes.
\<close>

lemma resume_continues_after_pause:
  assumes "eb_wf (en_execs en)" "eb_get k (en_execs en) = Some x" "be_workflows E (ex_workflow_id x) = Some flow" "wf_routes flow = route # rest"
    and "save_pause S k i (checkpoint_data S pr data n m) (append_results rs0) en = (Inr (), en1)"
  shows "\<exists>rs st st0 en2. resume_execution E k en1 =
       (if failures rs = [] then Inr () else Inl (ActionsFailed (length (failures rs))), en2) \<and>
     execute_actions (batch_services (be_services E)) (batch_context flow route (Some k) (i + 1)) (drop (i + 1) (rt_actions route)) st0 = (rs, st) \<and>
     st_data st0 = data \<and> only_record k en1 en2 \<and> exec_status_of k en2 = Some (if failures rs = [] then XCompleted else XFailed)"
proof -
  obtain y where y: "eb_wf (en_execs en1)" "eb_get k (en_execs en1) = Some y" "ex_status y = XPaused"
      "ex_checkpoint_action_index y = Some i" "ex_intermediate_data y = Some (checkpoint_data S pr data n m)" "ex_workflow_id y = ex_workflow_id x"
    using save_pause_record [OF assms(1,2) keeps_append assms(5)] by blast
  show ?thesis
    unfolding resume_execution_def
    by (rule resume_core_outcome [where keep = append_results, OF y(1-5) checkpoint_data_get _ assms(4) keeps_append]) (simp add: y(6) assms(3))
qed

section \<open>Examples\<close>

definition demo_flow :: "(int, int action) workflow" where
  "demo_flow = workflow_new 0 ''w'' ''w'' [route_new ''r'' ''r'' CAlways [Log ''info'' ''start'', Log ''info'' ''end'']]"

definition demo_batch_env :: "(int, unit, unit, unit) batch_env" where
  "demo_batch_env =
     \<lparr>be_services = no_services None, be_sleep = (\<lambda>_ w. w), be_percent = \<lparr>pc_of = (\<lambda>_ _. ()), pc_zero = ()\<rparr>,
      be_source_json = (\<lambda>_. JObj []), be_workflows = (\<lambda>k. if k = ''w'' then Some demo_flow else None),
      be_keys = map er_execution_id, be_order = id\<rparr>"

definition demo_job :: "(unit, unit) batch_job" where
  "demo_job =
     add_execution 0 (demo_exec ''a'' []) (batch_job_new (be_percent demo_batch_env) 0 ''j'' ''load'' ''w''
       \<lparr>bc_max_parallel = 1, bc_stop_on_error = False, bc_retry_failed = True, bc_max_retries = 3, bc_transaction_mode = PerFile\<rparr> ''ann'')"

definition demo_batch_engine :: "(int, unit, unit, unit) batch_engine" where
  "demo_batch_engine = \<lparr>en_jobs = [(''j'', demo_job)], en_execs = eb_new, en_approvals = [], en_world = ()\<rparr>"

lemma demo_flow_routes: "wf_routes demo_flow = [route_new ''r'' ''r'' CAlways [Log ''info'' ''start'', Log ''info'' ''end'']]" "wf_enabled demo_flow"
  by (simp_all add: demo_flow_def workflow_new_def)

lemma demo_job_simps:
  "bj_job_id demo_job = ''j''" "bj_workflow_id demo_job = ''w''" "bj_executions demo_job = [demo_exec ''a'' []]"
  "\<not> bc_stop_on_error (bj_config demo_job)" "bc_max_parallel (bj_config demo_job) = 1" "bj_name demo_job = ''load''"
  by (simp_all add: demo_job_def add_execution_def batch_job_new_def Let_def)

lemma retries_never_help_witness:
  "eb_wf (en_execs demo_batch_engine) \<and> wf_routes demo_flow \<noteq> [] \<and>
   is_ok (fst (execute_with_retry demo_batch_env demo_flow (bj_config demo_job) (demo_exec ''a'' []) 0 demo_batch_engine)) =
   is_ok (fst (execute_workflow_internal demo_batch_env demo_flow (demo_exec ''a'' []) demo_batch_engine))"
proof -
  have ok: "eb_wf (en_execs demo_batch_engine)" "wf_routes demo_flow \<noteq> []"
    by (simp_all add: demo_batch_engine_def eb_wf_new demo_flow_routes)
  show ?thesis
    using ok retries_never_help [OF ok] by blast
qed

lemma batch_status_tells_outcome_witness:
  "\<exists>en' job'. execute_batch_job demo_batch_env ''j'' demo_batch_engine = (Inr (), en') \<and> map_of (en_jobs en') ''j'' = Some job' \<and>
     bj_status job' \<in> {BCompleted, BFailed}"
proof -
  have job: "map_of (en_jobs demo_batch_engine) ''j'' = Some demo_job" "batch_validate demo_job = Inr ()"
    by (simp_all add: demo_batch_engine_def batch_validate_def demo_job_simps missing_dependency_def demo_exec_def)
  have flow: "be_workflows demo_batch_env (bj_workflow_id demo_job) = Some demo_flow"
    by (simp add: demo_batch_env_def demo_job_simps)
  have "depends (exec_by_id (bj_executions demo_job)) = {}"
    by (auto simp: depends_def exec_by_id_def demo_job_simps demo_exec_def split: if_splits)
  hence es: "distinct (map er_execution_id (bj_executions demo_job))" "acyclic (depends (exec_by_id (bj_executions demo_job)))"
      "\<forall>e \<in> set (bj_executions demo_job). eb_get (er_execution_id e) (en_execs demo_batch_engine) = None"
    by (simp_all add: demo_job_simps demo_exec_def acyclic_def demo_batch_engine_def eb_new_def)
  have env: "\<And>es. set (be_keys demo_batch_env es) = er_execution_id ` set es" "\<And>rs. set (be_order demo_batch_env rs) = set rs" "eb_wf (en_execs demo_batch_engine)"
    by (simp_all add: demo_batch_env_def demo_batch_engine_def eb_wf_new)
  show ?thesis
    using batch_status_tells_outcome [OF job(1) demo_job_simps(1) job(2) demo_job_simps(4) flow demo_flow_routes(2) _ es env]
    by (auto simp: demo_flow_routes demo_job_simps split: if_splits)
qed

definition demo_record :: "int execution" where
  "demo_record = execution_new 0 ''a'' ''w'' ''w'' JNull None"

definition paused_engine :: "(int, unit, unit, unit) batch_engine" where
  "paused_engine = demo_batch_engine\<lparr>en_execs := \<lparr>eb_executions = [(''a'', demo_record)], eb_logs = []\<rparr>\<rparr>"

definition demo_result :: "int action_result" where
  "demo_result = \<lparr>ar_action_type = ''WaitForApproval'', ar_status = APaused, ar_duration_ms = 0, ar_error = None, ar_output = None\<rparr>"

lemma resume_continues_after_pause_witness:
  "\<exists>en1 rs st st0 en2. save_pause (no_services None) ''a'' 0 (checkpoint_data (no_services None) demo_result (JNum 7) 2 1) (append_results []) paused_engine = (Inr (), en1) \<and>
     resume_execution demo_batch_env ''a'' en1 = (Inr (), en2) \<and>
     execute_actions (batch_services (no_services None)) (batch_context demo_flow (hd (wf_routes demo_flow)) (Some ''a'') 1) [Log ''info'' ''end''] st0 = (rs, st) \<and>
     st_data st0 = JNum 7 \<and> exec_status_of ''a'' en2 = Some XCompleted"
proof -
  have ok: "eb_wf (en_execs paused_engine)" "eb_get ''a'' (en_execs paused_engine) = Some demo_record"
    by (simp_all add: paused_engine_def eb_wf_def hm_wf_def demo_record_def execution_new_def eb_get_def merge_logs_def)
  obtain en1 where p: "save_pause (no_services None) ''a'' 0 (checkpoint_data (no_services None) demo_result (JNum 7) 2 1) (append_results []) paused_engine = (Inr (), en1)"
    using save_pause_total [OF ok keeps_append] by blast
  have flow: "be_workflows demo_batch_env (ex_workflow_id demo_record) = Some demo_flow"
    by (simp add: demo_batch_env_def demo_record_def execution_new_def)
  obtain rs st st0 en2 where r: "resume_execution demo_batch_env ''a'' en1 = (if failures rs = [] then Inr () else Inl (ActionsFailed (length (failures rs))), en2)"
      "execute_actions (batch_services (no_services None)) (batch_context demo_flow (hd (wf_routes demo_flow)) (Some ''a'') 1) [Log ''info'' ''end''] st0 = (rs, st)"
      "st_data st0 = JNum 7" "exec_status_of ''a'' en2 = Some (if failures rs = [] then XCompleted else XFailed)"
    using resume_continues_after_pause [OF ok flow demo_flow_routes(1) p]
    by (auto simp: demo_batch_env_def demo_flow_routes route_new_def)
  have "failures rs = []"
    using r(2) by (auto simp: failures_def execute_action_def run_action_def split: prod.splits)
  thus ?thesis
    using p r by (intro exI conjI) auto
qed

end
