(* ===== verification/ApprovalFlow.thy ===== *)
theory ApprovalFlow
  imports BatchExec
begin

text \<open>
  Model of what moves an execution that waits for an approval: the handlers of
  \<^verbatim>\<open>arcxa-coordinator/src/workflows/api/approval_handlers.rs\<close> and the timeout handler of
  \<^verbatim>\<open>workflows/governance/approval_timeout_handler.rs\<close>, on the state of the theory \<open>BatchExec\<close>. The task that resumes an
  execution after an approval is returned by the handler and run as a step of its own, since the code spawns it.
\<close>

section \<open>Handlers\<close>

datatype api_error = EmptyUser | EmptyReason | InvalidStatus approval_error | RequestMissing approval_error

definition decide_handler ::
  "('n, 'w) services \<Rightarrow> decision \<Rightarrow> string \<Rightarrow> ('n, 's, 'f, 'w) batch_engine \<Rightarrow> (api_error + 'n approval) \<times> ('n, 's, 'f, 'w) batch_engine" where
  "decide_handler S d k en =
     (case sv_now S (en_world en) of
        (now, w) \<Rightarrow>
          (case store_decide now d k (en_approvals en) of
             Inl e \<Rightarrow> (Inl (InvalidStatus e), en\<lparr>en_world := w\<rparr>)
           | Inr b \<Rightarrow>
               (let en' = en\<lparr>en_approvals := b, en_world := w\<rparr> in
                (case get_required k b of Inl e \<Rightarrow> (Inl (RequestMissing e), en') | Inr r \<Rightarrow> (Inr r, en')))))"

text \<open>The handler of an approval also names the execution to resume.\<close>

definition approve_approval ::
  "('n, 'w) services \<Rightarrow> string \<Rightarrow> string \<Rightarrow> ('n, 's, 'f, 'w) batch_engine \<Rightarrow> ((api_error + 'n approval) \<times> string option) \<times> ('n, 's, 'f, 'w) batch_engine" where
  "approve_approval S k user en =
     (if trim user = [] then ((Inl EmptyUser, None), en)
      else
        (case decide_handler S (DApprove user) k en of
           (Inl e, en') \<Rightarrow> ((Inl e, None), en')
         | (Inr r, en') \<Rightarrow> ((Inr r, if ap_execution_id r \<noteq> [] then Some (ap_execution_id r) else None), en')))"

definition reject_approval ::
  "('n, 'w) services \<Rightarrow> string \<Rightarrow> string \<Rightarrow> string \<Rightarrow> ('n, 's, 'f, 'w) batch_engine \<Rightarrow> (api_error + 'n approval) \<times> ('n, 's, 'f, 'w) batch_engine" where
  "reject_approval S k user reason en =
     (if trim user = [] then (Inl EmptyUser, en)
      else if trim reason = [] then (Inl EmptyReason, en)
      else decide_handler S (DReject user (Some reason)) k en)"

definition cancel_approval ::
  "('n, 'w) services \<Rightarrow> string \<Rightarrow> ('n, 's, 'f, 'w) batch_engine \<Rightarrow> (api_error + 'n approval) \<times> ('n, 's, 'f, 'w) batch_engine" where
  "cancel_approval S k en = decide_handler S DCancel k en"

section \<open>Timeouts\<close>

definition fail_workflow_execution :: "('n, 'w) services \<Rightarrow> string \<Rightarrow> (unit, ('n, 's, 'f, 'w) batch_engine) run" where
  "fail_workflow_execution S k =
     run_bind (get_exec k) (\<lambda>x.
       if ex_status x = XPaused then
         run_bind (clock S) (\<lambda>t1. run_bind (clock S) (\<lambda>t2.
           put_exec (clear_checkpoint t2 (execution_update_status t1 XFailed x))))
       else run_return ())"

text \<open>One expired request: mark it, then fail its execution; an error of the first step skips the request.\<close>

definition expire_request ::
  "('n, 'w) services \<Rightarrow> int \<Rightarrow> 'n approval \<Rightarrow> nat \<times> ('n, 's, 'f, 'w) batch_engine \<Rightarrow> nat \<times> ('n, 's, 'f, 'w) batch_engine" where
  "expire_request S now r acc =
     (case acc of
        (n, en) \<Rightarrow>
          if ap_expires_at r \<le> now then
            (case store_decide now DExpire (ap_request_id r) (en_approvals en) of
               Inl _ \<Rightarrow> (n, en)
             | Inr b \<Rightarrow>
                 (let en1 = en\<lparr>en_approvals := b\<rparr> in
                  (n + 1, if ap_execution_id r \<noteq> [] then snd (fail_workflow_execution S (ap_execution_id r) en1) else en1)))
          else (n, en))"

definition process_expired_approvals ::
  "('n, 'w) services \<Rightarrow> ('n, 's, 'f, 'w) batch_engine \<Rightarrow> nat \<times> ('n, 's, 'f, 'w) batch_engine" where
  "process_expired_approvals S en =
     (case sv_now S (en_world en) of
        (now, w) \<Rightarrow>
          fold (expire_request S now) (ab_list_by_status PendingApproval 1000 0 (en_approvals en)) (0, en\<lparr>en_world := w\<rparr>))"

section \<open>What the timeout handler does\<close>

lemma fail_execution_outcome:
  assumes ok: "eb_wf (en_execs en)"
  shows "only_record k en (snd (fail_workflow_execution S k en)) \<and>
     exec_status_of k (snd (fail_workflow_execution S k en)) = (if exec_status_of k en = Some XPaused then Some XFailed else exec_status_of k en)"
proof (cases "eb_get k (en_execs en)")
  case None
  have get: "get_exec k en = (Inl (RecordMissing k), en)"
    unfolding get_exec_def None by simp
  have "exec_status_of k en = None"
    unfolding exec_status_of_def None by simp
  thus ?thesis
    using ok by (simp add: fail_workflow_execution_def run_bind_Inl [where m = "get_exec k", OF get] only_record_refl)
next
  case (Some x)
  hence get: "get_exec k en = (Inr x, en)" "exec_status_of k en = Some (ex_status x)"
    by (simp_all add: get_exec_def exec_status_of_def)
  show ?thesis
  proof (cases "ex_status x = XPaused")
    case True
    obtain t1 t2 w where run: "snd (fail_workflow_execution S k en) =
        snd (put_exec (clear_checkpoint t2 (execution_update_status t1 XFailed x)) (en\<lparr>en_world := w\<rparr>))"
      using True by (simp add: fail_workflow_execution_def run_bind_Inr [where m = "get_exec k", OF get(1)])
    define y where "y = clear_checkpoint t2 (execution_update_status t1 XFailed x)"
    have y: "ex_execution_id y = k" "ex_status y = XFailed"
      using exec_store.get_key [OF ok Some] by (simp_all add: y_def clear_checkpoint_def)
    obtain en' where "put_exec y (en\<lparr>en_world := w\<rparr>) = (Inr (), en')" "only_record k (en\<lparr>en_world := w\<rparr>) en'" "exec_status_of k en' = Some XFailed"
      using put_exec_ok [of "en\<lparr>en_world := w\<rparr>" y] ok y get(2) by auto
    thus ?thesis
      using True get(2) run by (simp add: y_def only_record_def)
  next
    case False
    thus ?thesis
      using get ok by (simp add: fail_workflow_execution_def run_bind_Inr [where m = "get_exec k", OF get(1)] only_record_refl)
  qed
qed

definition due :: "int \<Rightarrow> 'n approval \<Rightarrow> bool" where
  "due now r \<longleftrightarrow> ap_status r = PendingApproval \<and> ap_expires_at r \<le> now"

text \<open>The effect of a list of pending requests: those due are expired, and the paused executions they name fail.\<close>

definition expired_by :: "int \<Rightarrow> 'n approval list \<Rightarrow> ('n, 's, 'f, 'w) batch_engine \<Rightarrow> ('n, 's, 'f, 'w) batch_engine \<Rightarrow> bool" where
  "expired_by now rs en en' \<longleftrightarrow>
     (\<forall>k. ab_get k (en_approvals en') =
        (if \<exists>r \<in> set rs. ap_request_id r = k \<and> due now r then map_option (\<lambda>r. r\<lparr>ap_status := Expired\<rparr>) (ab_get k (en_approvals en))
         else ab_get k (en_approvals en))) \<and>
     (\<forall>x. exec_status_of x en' =
        (if exec_status_of x en = Some XPaused \<and> x \<noteq> [] \<and> (\<exists>r \<in> set rs. ap_execution_id r = x \<and> due now r) then Some XFailed
         else exec_status_of x en)) \<and>
     eb_wf (en_execs en') \<and> approvals_wf (en_approvals en') \<and> en_jobs en' = en_jobs en"

lemma expire_request_outcome:
  assumes ok: "eb_wf (en_execs en)" "approvals_wf (en_approvals en)"
    and r: "ab_get (ap_request_id r) (en_approvals en) = Some r" "ap_status r = PendingApproval"
  shows "\<exists>en'. expire_request S now r (n, en) = (n + (if due now r then 1 else 0), en') \<and> expired_by now [r] en en'"
proof (cases "ap_expires_at r \<le> now")
  case False
  thus ?thesis
    using ok by (simp add: expire_request_def expired_by_def due_def)
next
  case True
  let ?k = "ap_request_id r" and ?x = "ap_execution_id r"
  have due: "due now r"
    using True r(2) by (simp add: due_def)
  define b where "b = AList.update ?k (r\<lparr>ap_status := Expired\<rparr>) (en_approvals en)"
  have b: "store_decide now DExpire ?k (en_approvals en) = Inr b"
    using store_decide_ok [OF ok(2)] r by (simp add: b_def decide_def expire_def)
  have wf: "approvals_wf b"
    using store_decide_wf [OF ok(2) b] .
  have get: "ab_get k b = (if k = ?k then Some (r\<lparr>ap_status := Expired\<rparr>) else ab_get k (en_approvals en))" for k
    by (simp add: b_def ab_get_def update_conv')
  define en1 where "en1 = en\<lparr>en_approvals := b\<rparr>"
  define en' where "en' = (if ?x \<noteq> [] then snd (fail_workflow_execution S ?x en1) else en1)"
  have step: "expire_request S now r (n, en) = (n + 1, en')"
    using True b by (simp add: expire_request_def en'_def en1_def)
  have en1: "eb_wf (en_execs en1)" "exec_status_of x en1 = exec_status_of x en" "en_jobs en1 = en_jobs en" for x
    using ok(1) by (simp_all add: en1_def)
  have "en_approvals en' = b \<and> eb_wf (en_execs en') \<and> en_jobs en' = en_jobs en \<and>
      (\<forall>x. exec_status_of x en' = (if exec_status_of x en = Some XPaused \<and> x \<noteq> [] \<and> x = ?x then Some XFailed else exec_status_of x en))"
  proof (cases "?x = []")
    case True
    thus ?thesis
      using en1 by (auto simp: en'_def en1_def)
  next
    case False
    hence en': "en' = snd (fail_workflow_execution S ?x en1)"
      by (simp add: en'_def)
    have frame: "only_record ?x en1 en'" "exec_status_of ?x en' = (if exec_status_of ?x en = Some XPaused then Some XFailed else exec_status_of ?x en)"
      using fail_execution_outcome [OF en1(1), of ?x S] by (simp_all add: en' en1(2))
    have "exec_status_of x en' = (if exec_status_of x en = Some XPaused \<and> x \<noteq> [] \<and> x = ?x then Some XFailed else exec_status_of x en)" for x
      using frame False by (cases "x = ?x") (simp_all add: only_record_def en1(2))
    thus ?thesis
      using frame(1) en1(3) by (simp add: only_record_def en1_def)
  qed
  hence "expired_by now [r] en en'"
    using get wf due r(1) by (auto simp: expired_by_def)
  thus ?thesis
    using step due by auto
qed

lemma expired_by_Cons:
  assumes one: "expired_by now [r] en en1" and more: "expired_by now rs en1 en2" and new: "ap_request_id r \<notin> ap_request_id ` set rs"
  shows "expired_by now (r # rs) en en2"
proof -
  have "ab_get k (en_approvals en2) =
      (if \<exists>r' \<in> set (r # rs). ap_request_id r' = k \<and> due now r' then map_option (\<lambda>r. r\<lparr>ap_status := Expired\<rparr>) (ab_get k (en_approvals en))
       else ab_get k (en_approvals en))" for k
  proof (cases "k = ap_request_id r")
    case True
    hence "\<not> (\<exists>r' \<in> set rs. ap_request_id r' = k \<and> due now r')"
      using new by (metis image_eqI)
    thus ?thesis
      using one more True by (auto simp: expired_by_def)
  next
    case False
    thus ?thesis
      using one more by (auto simp: expired_by_def)
  qed
  moreover have "exec_status_of x en2 =
      (if exec_status_of x en = Some XPaused \<and> x \<noteq> [] \<and> (\<exists>r' \<in> set (r # rs). ap_execution_id r' = x \<and> due now r') then Some XFailed
       else exec_status_of x en)" for x
    using one more by (auto simp: expired_by_def)
  ultimately show ?thesis
    using one more by (simp add: expired_by_def)
qed

lemma expire_requests_outcome:
  assumes "eb_wf (en_execs en)" "approvals_wf (en_approvals en)" "distinct (map ap_request_id rs)"
    and "\<forall>r \<in> set rs. ab_get (ap_request_id r) (en_approvals en) = Some r \<and> ap_status r = PendingApproval"
  shows "\<exists>en'. fold (expire_request S now) rs (n, en) = (n + length (filter (due now) rs), en') \<and> expired_by now rs en en'"
  using assms
proof (induction rs arbitrary: n en)
  case Nil
  thus ?case
    by (simp add: expired_by_def)
next
  case (Cons r rs)
  obtain en1 where one: "expire_request S now r (n, en) = (n + (if due now r then 1 else 0), en1)" "expired_by now [r] en en1"
    using expire_request_outcome [OF Cons.prems(1,2), of r S now n] Cons.prems(4) by (meson list.set_intros(1))
  have new: "ap_request_id r \<notin> ap_request_id ` set rs"
    using Cons.prems(3) by simp
  have "ab_get (ap_request_id r') (en_approvals en1) = Some r' \<and> ap_status r' = PendingApproval" if "r' \<in> set rs" for r'
  proof -
    have "ap_request_id r' \<noteq> ap_request_id r"
      using new that by (metis image_eqI)
    thus ?thesis
      using one(2) Cons.prems(4) that by (simp add: expired_by_def)
  qed
  then obtain en2 where more: "fold (expire_request S now) rs (n + (if due now r then 1 else 0), en1) =
      (n + (if due now r then 1 else 0) + length (filter (due now) rs), en2)" "expired_by now rs en1 en2"
    using Cons.IH [of en1 "n + (if due now r then 1 else 0)"] one(2) Cons.prems(3) by (auto simp: expired_by_def)
  show ?case
    using one(1) more(1) expired_by_Cons [OF one(2) more(2) new] by (intro exI [of _ en2]) simp
qed

lemma pending_list:
  assumes "approvals_wf b" "ab_count_by_status PendingApproval b \<le> 1000"
  shows "distinct (map ap_request_id (ab_list_by_status PendingApproval 1000 0 b))"
    "r \<in> set (ab_list_by_status PendingApproval 1000 0 b) \<longleftrightarrow> ab_get (ap_request_id r) b = Some r \<and> ap_status r = PendingApproval"
    "length (filter (due now) (ab_list_by_status PendingApproval 1000 0 b)) = length (filter (due now) (map snd b))"
proof -
  let ?ps = "filter (\<lambda>r. ap_status r = PendingApproval) (map snd b)"
  have l: "ab_list_by_status PendingApproval 1000 0 b = sort_key (\<lambda>r. - ap_created_at r) ?ps"
    using assms(2) by (simp add: ab_list_by_status_def ab_count_by_status_def)
  have keys: "map ap_request_id (map snd b) = map fst b"
    using assms(1) by (auto simp: approvals_wf_def)
  have "distinct (map ap_request_id ?ps)"
    by (rule distinct_map_filter, unfold keys) (use assms(1) in \<open>simp add: approvals_wf_def hm_wf_def\<close>)
  thus "distinct (map ap_request_id (ab_list_by_status PendingApproval 1000 0 b))"
    unfolding l by (simp add: distinct_map)
  have "r \<in> set (map snd b) \<longleftrightarrow> ab_get (ap_request_id r) b = Some r"
  proof
    assume "r \<in> set (map snd b)"
    then obtain k where k: "(k, r) \<in> set b"
      by auto
    hence "ap_request_id r = k"
      using assms(1) by (auto simp: approvals_wf_def)
    thus "ab_get (ap_request_id r) b = Some r"
      using k assms(1) by (simp add: ab_get_def approvals_wf_def hm_wf_def)
  next
    assume "ab_get (ap_request_id r) b = Some r"
    thus "r \<in> set (map snd b)"
      by (force simp: ab_get_def dest: map_of_SomeD)
  qed
  thus "r \<in> set (ab_list_by_status PendingApproval 1000 0 b) \<longleftrightarrow> ab_get (ap_request_id r) b = Some r \<and> ap_status r = PendingApproval"
    unfolding l by auto
  have "filter (due now) ?ps = filter (due now) (map snd b)"
    unfolding filter_filter by (rule filter_cong) (auto simp: due_def)
  thus "length (filter (due now) (ab_list_by_status PendingApproval 1000 0 b)) = length (filter (due now) (map snd b))"
    unfolding l filter_sort by (metis length_sort)
qed

text \<open>
  The timeout handler enforces the deadlines: when at most 1000 requests are pending, a run at the time \<open>now\<close> expires
  exactly the pending requests whose deadline has come, fails exactly the paused executions that wait for one of them, leaves every
  other request and execution alone, and reports how many requests it expired.
\<close>

lemma timeouts_enforced:
  assumes "eb_wf (en_execs en)" "approvals_wf (en_approvals en)" "ab_count_by_status PendingApproval (en_approvals en) \<le> 1000"
    and "sv_now S (en_world en) = (now, w)"
  shows "\<exists>en'. process_expired_approvals S en = (length (filter (due now) (map snd (en_approvals en))), en') \<and>
     (\<forall>k. ab_get k (en_approvals en') = map_option (\<lambda>r. if due now r then r\<lparr>ap_status := Expired\<rparr> else r) (ab_get k (en_approvals en))) \<and>
     (\<forall>x. exec_status_of x en' =
        (if exec_status_of x en = Some XPaused \<and> x \<noteq> [] \<and> (\<exists>k r. ab_get k (en_approvals en) = Some r \<and> ap_execution_id r = x \<and> due now r)
         then Some XFailed else exec_status_of x en)) \<and>
     en_jobs en' = en_jobs en"
proof -
  let ?b = "en_approvals en" and ?en = "en\<lparr>en_world := w\<rparr>"
  let ?rs = "ab_list_by_status PendingApproval 1000 0 ?b"
  note pl = pending_list [OF assms(2,3)]
  have "\<forall>r \<in> set ?rs. ab_get (ap_request_id r) (en_approvals ?en) = Some r \<and> ap_status r = PendingApproval"
    using pl(2) by simp
  then obtain en' where run: "fold (expire_request S now) ?rs (0, ?en) = (length (filter (due now) ?rs), en')" "expired_by now ?rs ?en en'"
    using expire_requests_outcome [of ?en ?rs S now 0] assms(1,2) pl(1) by auto
  have key: "ap_request_id r = k" if "ab_get k ?b = Some r" for k r
    using approval_store.get_key [OF assms(2) that] .
  have mem: "(\<exists>r \<in> set ?rs. ap_request_id r = k \<and> due now r) \<longleftrightarrow> (\<exists>r. ab_get k ?b = Some r \<and> due now r)" for k
    using pl(2) key by (auto simp: due_def)
  have ex: "(\<exists>r \<in> set ?rs. ap_execution_id r = x \<and> due now r) \<longleftrightarrow> (\<exists>k r. ab_get k ?b = Some r \<and> ap_execution_id r = x \<and> due now r)" for x
    using pl(2) key by (auto simp: due_def)
  have "ab_get k (en_approvals en') = map_option (\<lambda>r. if due now r then r\<lparr>ap_status := Expired\<rparr> else r) (ab_get k ?b)" for k
    using run(2) unfolding expired_by_def mem by (cases "ab_get k ?b") auto
  moreover have "process_expired_approvals S en = (length (filter (due now) (map snd ?b)), en')"
    using run(1) pl(3) [of now] by (simp add: process_expired_approvals_def assms(4))
  moreover have "exec_status_of x en' =
      (if exec_status_of x en = Some XPaused \<and> x \<noteq> [] \<and> (\<exists>k r. ab_get k ?b = Some r \<and> ap_execution_id r = x \<and> due now r)
       then Some XFailed else exec_status_of x en)" for x
    using run(2) unfolding expired_by_def ex by simp blast
  moreover have "en_jobs en' = en_jobs en"
    using run(2) by (simp add: expired_by_def)
  ultimately show ?thesis
    by blast
qed

section \<open>What an approval does\<close>

lemma approve_handler_ok:
  assumes "approvals_wf (en_approvals en)" "ab_get k (en_approvals en) = Some r" "ap_status r = PendingApproval"
    and "sv_now S (en_world en) = (now, w)" "now \<le> ap_expires_at r" "trim user \<noteq> []"
  shows "\<exists>b. approve_approval S k user en =
      ((Inr (r\<lparr>ap_status := Approved, ap_approved_by := Some user, ap_approved_at := Some now\<rparr>),
        if ap_execution_id r \<noteq> [] then Some (ap_execution_id r) else None), en\<lparr>en_approvals := b, en_world := w\<rparr>)"
proof -
  define r' where "r' = r\<lparr>ap_status := Approved, ap_approved_by := Some user, ap_approved_at := Some now\<rparr>"
  define b where "b = AList.update k r' (en_approvals en)"
  have "store_decide now (DApprove user) k (en_approvals en) = Inr b"
    using store_decide_ok [OF assms(1)] assms(2,3,5) by (simp add: decide_def approve_def is_expired_def b_def r'_def)
  moreover have "get_required k b = Inr r'"
    by (simp add: get_required_def ab_get_def b_def update_conv')
  ultimately show ?thesis
    using assms(4,6) by (intro exI [of _ b]) (simp add: approve_approval_def decide_handler_def r'_def)
qed

text \<open>
  C23. An approval that comes before the deadline is recorded with its user, and the task it starts takes the waiting execution
  on: the actions after the pause are run on the data of the checkpoint, and the execution ends completed when none of them
  fails, failed otherwise.
\<close>

theorem approved_execution_resumes:
  assumes req: "approvals_wf (en_approvals en)" "ab_get k (en_approvals en) = Some r" "ap_status r = PendingApproval"
      "ap_execution_id r = x" "x \<noteq> []"
    and call: "sv_now (be_services E) (en_world en) = (now, w)" "now \<le> ap_expires_at r" "trim user \<noteq> []"
    and exec: "eb_wf (en_execs en)" "eb_get x (en_execs en) = Some e" "ex_status e = XPaused" "ex_checkpoint_action_index e = Some i"
      "ex_intermediate_data e = Some cp" "json_get ''intermediate_data'' cp = Some data"
    and flow: "be_workflows E (ex_workflow_id e) = Some flow" "wf_routes flow = route # rest"
  shows "\<exists>r' en1 rs st st0 en2. approve_approval (be_services E) k user en = ((Inr r', Some x), en1) \<and>
     ap_status r' = Approved \<and> ap_approved_by r' = Some user \<and>
     resume_workflow_execution E x en1 = (if failures rs = [] then Inr () else Inl (ActionsFailed (length (failures rs))), en2) \<and>
     execute_actions (batch_services (be_services E)) (batch_context flow route (Some x) (i + 1)) (drop (i + 1) (rt_actions route)) st0 = (rs, st) \<and>
     st_data st0 = data \<and> only_record x en1 en2 \<and> exec_status_of x en2 = Some (if failures rs = [] then XCompleted else XFailed)"
proof -
  obtain b where a: "approve_approval (be_services E) k user en =
      ((Inr (r\<lparr>ap_status := Approved, ap_approved_by := Some user, ap_approved_at := Some now\<rparr>), Some x),
       en\<lparr>en_approvals := b, en_world := w\<rparr>)"
    using approve_handler_ok [OF req(1-3) call] req(4,5) by auto
  have e: "eb_wf (en_execs (en\<lparr>en_approvals := b, en_world := w\<rparr>))" "eb_get x (en_execs (en\<lparr>en_approvals := b, en_world := w\<rparr>)) = Some e"
    using exec(1,2) by simp_all
  have keep: "keeps ((\<lambda>_ x. x) rs)" for rs :: "'a action_result list"
    by simp
  show ?thesis
    using a resume_core_outcome [where keep = "\<lambda>_ x. x", OF e exec(3-6) flow keep]
    unfolding resume_workflow_execution_def by fastforce
qed

text \<open>A rejection changes no execution: the one that waits stays paused.\<close>

lemma reject_leaves_executions: "en_execs (snd (reject_approval S k user reason en)) = en_execs en"
  by (auto simp: reject_approval_def decide_handler_def Let_def split: prod.split sum.split)

text \<open>After a resume a message for Kafka is reported as sent, and nothing is sent.\<close>

lemma resumed_kafka_is_stubbed:
  "\<exists>out. execute_send_to_kafka (batch_services S) cx topic key st = ((ASuccess, None, Some out), st)"
  by (simp add: execute_send_to_kafka_def batch_services_def)

section \<open>Examples\<close>

definition waiting_record :: "int execution" where
  "waiting_record =
     demo_record\<lparr>ex_status := XPaused, ex_checkpoint_action_index := Some 0,
       ex_intermediate_data := Some (JObj [(''intermediate_data'', JNum 7)])\<rparr>"

definition waiting_request :: "int approval" where
  "waiting_request = approval_new 0 ''q'' ''ddl'' ''a'' ''w'' 0 JNull 60"

definition waiting_engine :: "(int, unit, unit, unit) batch_engine" where
  "waiting_engine =
     \<lparr>en_jobs = [], en_execs = \<lparr>eb_executions = [(''a'', waiting_record)], eb_logs = []\<rparr>, en_approvals = [(''q'', waiting_request)],
      en_world = ()\<rparr>"

definition clock_env :: "int \<Rightarrow> (int, unit, unit, unit) batch_env" where
  "clock_env t = demo_batch_env\<lparr>be_services := (no_services None)\<lparr>sv_now := (\<lambda>w. (t, w))\<rparr>\<rparr>"

lemma waiting_engine_ok:
  "eb_wf (en_execs waiting_engine)" "approvals_wf (en_approvals waiting_engine)"
  "ab_get ''q'' (en_approvals waiting_engine) = Some waiting_request" "eb_get ''a'' (en_execs waiting_engine) = Some waiting_record"
  by (simp_all add: waiting_engine_def eb_wf_def hm_wf_def approvals_wf_def waiting_record_def demo_record_def execution_new_def
      waiting_request_def approval_new_def ab_get_def eb_get_def merge_logs_def)

lemma waiting_simps:
  "ap_status waiting_request = PendingApproval" "ap_execution_id waiting_request = ''a''" "ap_expires_at waiting_request = 60000"
  "ex_status waiting_record = XPaused" "ex_checkpoint_action_index waiting_record = Some 0" "ex_workflow_id waiting_record = ''w''"
  "ex_intermediate_data waiting_record = Some (JObj [(''intermediate_data'', JNum 7)])"
  by (simp_all add: waiting_request_def approval_new_def deadline_demo waiting_record_def demo_record_def execution_new_def)

lemma timeouts_enforced_witness:
  "\<exists>en'. process_expired_approvals (be_services (clock_env 60000)) waiting_engine = (1, en') \<and>
     map_option ap_status (ab_get ''q'' (en_approvals en')) = Some Expired \<and> exec_status_of ''a'' en' = Some XFailed"
proof -
  have count: "ab_count_by_status PendingApproval (en_approvals waiting_engine) \<le> 1000"
    by (simp add: ab_count_by_status_def waiting_engine_def)
  have now: "sv_now (be_services (clock_env 60000)) (en_world waiting_engine) = (60000, ())"
    by (simp add: clock_env_def)
  have paused: "exec_status_of ''a'' waiting_engine = Some XPaused"
    unfolding exec_status_of_def waiting_engine_ok(4) by (simp add: waiting_simps)
  have due: "due 60000 waiting_request"
    by (simp add: due_def waiting_simps)
  have "filter (due 60000) (map snd (en_approvals waiting_engine)) = [waiting_request]"
    using due by (simp add: waiting_engine_def)
  hence one: "length (filter (due 60000) (map snd (en_approvals waiting_engine))) = 1"
    by simp
  obtain en' where en': "process_expired_approvals (be_services (clock_env 60000)) waiting_engine = (1, en')"
      and req: "\<forall>k. ab_get k (en_approvals en') = map_option (\<lambda>r. if due 60000 r then r\<lparr>ap_status := Expired\<rparr> else r) (ab_get k (en_approvals waiting_engine))"
      and failed: "\<forall>x. exec_status_of x en' =
        (if exec_status_of x waiting_engine = Some XPaused \<and> x \<noteq> [] \<and>
            (\<exists>k r. ab_get k (en_approvals waiting_engine) = Some r \<and> ap_execution_id r = x \<and> due 60000 r)
         then Some XFailed else exec_status_of x waiting_engine)"
    using timeouts_enforced [OF waiting_engine_ok(1,2) count now, unfolded one] by blast
  have "\<exists>k r. ab_get k (en_approvals waiting_engine) = Some r \<and> ap_execution_id r = ''a'' \<and> due 60000 r"
    using waiting_engine_ok(3) waiting_simps(2) due by blast
  hence "exec_status_of ''a'' en' = Some XFailed"
    using failed [rule_format, of "''a''"] paused by simp
  moreover have "map_option ap_status (ab_get ''q'' (en_approvals en')) = Some Expired"
    using req [rule_format, of "''q''"] waiting_engine_ok(3) due by simp
  ultimately show ?thesis
    using en' by blast
qed

theorem approved_execution_resumes_witness:
  "\<exists>r' en1 en2. approve_approval (be_services (clock_env 50000)) ''q'' ''bob'' waiting_engine = ((Inr r', Some ''a''), en1) \<and>
     ap_status r' = Approved \<and> resume_workflow_execution (clock_env 50000) ''a'' en1 = (Inr (), en2) \<and> exec_status_of ''a'' en2 = Some XCompleted"
proof -
  have now: "sv_now (be_services (clock_env 50000)) (en_world waiting_engine) = (50000, ())"
    by (simp add: clock_env_def)
  have user: "trim ''bob'' \<noteq> []"
    by (simp add: trim_def is_space_def)
  have flow: "be_workflows (clock_env 50000) (ex_workflow_id waiting_record) = Some demo_flow"
    by (simp add: clock_env_def demo_batch_env_def waiting_simps)
  have data: "json_get ''intermediate_data'' (JObj [(''intermediate_data'', JNum 7)]) = Some (JNum 7)"
    by (simp add: json_get_def)
  have soon: "50000 \<le> ap_expires_at waiting_request"
    by (simp add: waiting_simps)
  obtain r' en1 rs st st0 en2 where r: "approve_approval (be_services (clock_env 50000)) ''q'' ''bob'' waiting_engine = ((Inr r', Some ''a''), en1)"
      "ap_status r' = Approved"
      "resume_workflow_execution (clock_env 50000) ''a'' en1 = (if failures rs = [] then Inr () else Inl (ActionsFailed (length (failures rs))), en2)"
      "execute_actions (batch_services (be_services (clock_env 50000))) (batch_context demo_flow (hd (wf_routes demo_flow)) (Some ''a'') 1) [Log ''info'' ''end''] st0 = (rs, st)"
      "exec_status_of ''a'' en2 = Some (if failures rs = [] then XCompleted else XFailed)"
    using approved_execution_resumes [OF waiting_engine_ok(2,3) waiting_simps(1,2) _ now soon user waiting_engine_ok(1,4) waiting_simps(4,5,7) data flow demo_flow_routes(1)]
    by (auto simp: demo_flow_routes route_new_def)
  have "failures rs = []"
    using r(4) by (auto simp: failures_def execute_action_def run_action_def split: prod.splits)
  thus ?thesis
    using r by auto
qed

end
