(* ===== verification/DeadLetters.thy ===== *)
theory DeadLetters
  imports TemporalIndexes CircuitBreaker "HOL-Library.Multiset" "HOL-Library.Sublist"
begin

text \<open>
  Model of \<^verbatim>\<open>arcxa-core/src/ingestion/dlq.rs\<close> and \<^verbatim>\<open>dlq_tiered.rs\<close>, the dead letter queue on disk and the one with a bounded
  buffer in memory behind it, and of \<^verbatim>\<open>arcxa-core/src/reliability/retry_strategy.rs\<close>, which retries an operation through the
  circuit breaker and hands failed events to the queue. Each write finds an environment: the clock, the name that the clock
  gives to the file of the hour, whether a file can be opened, and how far a line gets. \<open>json\<close> stands for \<^verbatim>\<open>serde_json::to_string\<close>
  on records. A panic is \<open>None\<close>; a panic inside the standard library's mutex poisons it. Logging and metrics are not modelled.
\<close>

section \<open>The queue on disk\<close>

record 'ev dlq_record =
  dr_event :: 'ev
  dr_error :: string
  dr_failed_at :: int
  dr_retry_count :: u32
  dr_original_timestamp :: int

datatype line_outcome = LineOk | LineCut nat | LineUnflushed

record dlq_env =
  de_now :: int
  de_filename :: string
  de_open :: bool
  de_line :: line_outcome

text \<open>The file is opened at the first write and kept; the directory holds the contents of all files.\<close>

record dead_letter_queue =
  dq_writer :: "string option"
  dq_poisoned :: bool
  dq_files :: "(string, string) hmap"

definition dlq_new :: "(string, string) hmap \<Rightarrow> dead_letter_queue" where
  "dlq_new files = \<lparr>dq_writer = None, dq_poisoned = False, dq_files = files\<rparr>"

definition dlq_record_of :: "dlq_env \<Rightarrow> 'ev \<Rightarrow> string \<Rightarrow> u32 \<Rightarrow> 'ev dlq_record" where
  "dlq_record_of env ev err n = \<lparr>dr_event = ev, dr_error = err, dr_failed_at = de_now env, dr_retry_count = n,
     dr_original_timestamp = de_now env\<rparr>"

definition file_text :: "string \<Rightarrow> dead_letter_queue \<Rightarrow> string" where
  "file_text f d = (case map_of (dq_files d) f of None \<Rightarrow> [] | Some s \<Rightarrow> s)"

definition append_text :: "string \<Rightarrow> string \<Rightarrow> dead_letter_queue \<Rightarrow> dead_letter_queue" where
  "append_text f s d = d\<lparr>dq_files := AList.update f (file_text f d @ s) (dq_files d)\<rparr>"

text \<open>\<^verbatim>\<open>get_or_insert_with\<close> on the writer. The closure panics when the file cannot be opened.\<close>

definition dlq_open :: "dlq_env \<Rightarrow> dead_letter_queue \<Rightarrow> dead_letter_queue \<times> string option" where
  "dlq_open env d =
     (case dq_writer d of
        Some f \<Rightarrow> (d, Some f)
      | None \<Rightarrow>
          if de_open env then (append_text (de_filename env) [] (d\<lparr>dq_writer := Some (de_filename env)\<rparr>), Some (de_filename env))
          else (d\<lparr>dq_poisoned := True\<rparr>, None))"

definition newline :: char where
  "newline = CHR 0x0A"

definition dlq_write ::
  "('ev dlq_record \<Rightarrow> string + string) \<Rightarrow> dlq_env \<Rightarrow> 'ev \<Rightarrow> string \<Rightarrow> u32 \<Rightarrow> dead_letter_queue \<Rightarrow>
   dead_letter_queue \<times> (string + unit) option" where
  "dlq_write json env ev err n d =
     (if dq_poisoned d then (d, None)
      else case dlq_open env d of
        (d1, None) \<Rightarrow> (d1, None)
      | (d1, Some f) \<Rightarrow>
          (case json (dlq_record_of env ev err n) of
             Inl e \<Rightarrow> (d1, Some (Inl e))
           | Inr text \<Rightarrow>
               (case de_line env of
                  LineOk \<Rightarrow> (append_text f (text @ [newline]) d1, Some (Inr ()))
                | LineCut k \<Rightarrow> (append_text f (take k (text @ [newline])) d1, Some (Inl ''write''))
                | LineUnflushed \<Rightarrow> (append_text f (text @ [newline]) d1, Some (Inl ''flush'')))))"

text \<open>\<^verbatim>\<open>str::lines\<close> yields a last line also when no newline ends it; the extension of a name needs a stem before the dot.\<close>

fun count_lines :: "string \<Rightarrow> nat" where
  "count_lines [] = 0"
| "count_lines (c # cs) = (if c = newline then 1 + count_lines cs else max 1 (count_lines cs))"

definition is_jsonl :: "string \<Rightarrow> bool" where
  "is_jsonl name \<longleftrightarrow> length name > 6 \<and> drop (length name - 6) name = ''.jsonl''"

record dlq_stats =
  qs_total_records :: nat
  qs_total_size_bytes :: nat

definition dlq_get_stats :: "dead_letter_queue \<Rightarrow> dlq_stats" where
  "dlq_get_stats d =
     (let texts = map snd (filter (\<lambda>(f, _). is_jsonl f) (dq_files d))
      in \<lparr>qs_total_records = sum_list (map count_lines texts), qs_total_size_bytes = sum_list (map length texts)\<rparr>)"

section \<open>The tiered queue\<close>

record 'ev tiered_dlq =
  tq_primary :: dead_letter_queue
  tq_secondary :: "'ev dlq_record list"
  tq_memory_capacity :: nat

definition default_memory_capacity :: nat where
  "default_memory_capacity = 10000"

definition tiered_new :: "dead_letter_queue \<Rightarrow> nat \<Rightarrow> 'ev tiered_dlq" where
  "tiered_new primary capacity = \<lparr>tq_primary = primary, tq_secondary = [], tq_memory_capacity = capacity\<rparr>"

definition tiered_write ::
  "('ev dlq_record \<Rightarrow> string + string) \<Rightarrow> dlq_env \<Rightarrow> 'ev \<Rightarrow> string \<Rightarrow> u32 \<Rightarrow> 'ev tiered_dlq \<Rightarrow> 'ev tiered_dlq \<times> (string + unit) option" where
  "tiered_write json env ev err n t =
     (case dlq_write json env ev err n (tq_primary t) of
        (p, None) \<Rightarrow> (t\<lparr>tq_primary := p\<rparr>, None)
      | (p, Some (Inr _)) \<Rightarrow> (t\<lparr>tq_primary := p\<rparr>, Some (Inr ()))
      | (p, Some (Inl _)) \<Rightarrow>
          if length (tq_secondary t) < tq_memory_capacity t
          then (t\<lparr>tq_primary := p, tq_secondary := tq_secondary t @ [dlq_record_of env ev err n]\<rparr>, Some (Inr ()))
          else (t\<lparr>tq_primary := p\<rparr>, Some (Inl ''Both primary and secondary DLQ full'')))"

text \<open>The drain takes a record out before it writes it, and puts it back when the write fails. \<open>envs\<close> are those of its writes.\<close>

fun drain_loop ::
  "('ev dlq_record \<Rightarrow> string + string) \<Rightarrow> (nat \<Rightarrow> dlq_env) \<Rightarrow> nat \<Rightarrow> 'ev dlq_record list \<Rightarrow> dead_letter_queue \<Rightarrow>
   dead_letter_queue \<times> 'ev dlq_record list \<times> nat option" where
  "drain_loop json envs drained [] p = (p, [], Some drained)"
| "drain_loop json envs drained (r # rs) p =
     (case dlq_write json (envs drained) (dr_event r) (dr_error r) (dr_retry_count r) p of
        (p', None) \<Rightarrow> (p', rs, None)
      | (p', Some (Inr _)) \<Rightarrow> drain_loop json envs (drained + 1) rs p'
      | (p', Some (Inl _)) \<Rightarrow> (p', r # rs, Some drained))"

definition drain_secondary ::
  "('ev dlq_record \<Rightarrow> string + string) \<Rightarrow> (nat \<Rightarrow> dlq_env) \<Rightarrow> 'ev tiered_dlq \<Rightarrow> 'ev tiered_dlq \<times> nat option" where
  "drain_secondary json envs t =
     (let (p, rest, r) = drain_loop json envs 0 (tq_secondary t) (tq_primary t) in (t\<lparr>tq_primary := p, tq_secondary := rest\<rparr>, r))"

definition drain_tick ::
  "('ev dlq_record \<Rightarrow> string + string) \<Rightarrow> (nat \<Rightarrow> dlq_env) \<Rightarrow> 'ev tiered_dlq \<Rightarrow> 'ev tiered_dlq \<times> nat option" where
  "drain_tick json envs t = (if tq_secondary t = [] then (t, Some 0) else drain_secondary json envs t)"

record tiered_stats =
  ts_primary_records :: nat
  ts_primary_size_bytes :: nat
  ts_secondary_records :: nat
  ts_secondary_capacity :: nat

definition tiered_get_stats :: "'ev tiered_dlq \<Rightarrow> tiered_stats" where
  "tiered_get_stats t =
     (let s = dlq_get_stats (tq_primary t)
      in \<lparr>ts_primary_records = qs_total_records s, ts_primary_size_bytes = qs_total_size_bytes s,
          ts_secondary_records = length (tq_secondary t), ts_secondary_capacity = tq_memory_capacity t\<rparr>)"

section \<open>Retries through the circuit breaker\<close>

record retry_config =
  rc_max_retries :: u32
  rc_initial_backoff_ms :: u64

definition retry_config_default :: retry_config where
  "retry_config_default = \<lparr>rc_max_retries = 3, rc_initial_backoff_ms = 100\<rparr>"

datatype 'e retry_outcome = RSuccess u32 | RCircuitOpen | RPermanentFailure 'e u32

text \<open>
  The operation runs again at each attempt that the breaker lets through, and a rejected attempt ends the retries: attempt
  \<open>i\<close> finds the result \<open>ops i\<close>, at the time \<open>fst (clock i)\<close>, and returns at \<open>snd (clock i)\<close>. The result also holds the
  sleeps. The shift of the backoff wraps around in a build without overflow checks, and panics in one with them.
\<close>

definition retry_backoff_ms :: "retry_config \<Rightarrow> nat \<Rightarrow> u64" where
  "retry_backoff_ms cfg retry_attempt = rc_initial_backoff_ms cfg * 2 ^ (retry_attempt - 1)"

fun retry_with_backoff ::
  "retry_config \<Rightarrow> (nat \<Rightarrow> 'e + 't) \<Rightarrow> (nat \<Rightarrow> nat \<times> nat) \<Rightarrow> nat list \<Rightarrow> 'e \<Rightarrow> u64 list \<Rightarrow> circuit_breaker \<Rightarrow>
   circuit_breaker \<times> 'e retry_outcome \<times> u64 list" where
  "retry_with_backoff cfg ops clock [] last_error slept b = (b, RPermanentFailure last_error (rc_max_retries cfg), slept)"
| "retry_with_backoff cfg ops clock (i # rest) last_error slept b =
     (case cb_call (fst (clock i)) (snd (clock i)) (ops i) b of
        (b', Inr _) \<Rightarrow> (b', RSuccess (of_nat i), slept @ [retry_backoff_ms cfg i])
      | (b', Inl CbOpenError) \<Rightarrow> (b', RCircuitOpen, slept @ [retry_backoff_ms cfg i])
      | (b', Inl (CallFailed e)) \<Rightarrow> retry_with_backoff cfg ops clock rest e (slept @ [retry_backoff_ms cfg i]) b')"

definition retry_execute ::
  "retry_config \<Rightarrow> (nat \<Rightarrow> 'e + 't) \<Rightarrow> (nat \<Rightarrow> nat \<times> nat) \<Rightarrow> circuit_breaker \<Rightarrow> circuit_breaker \<times> 'e retry_outcome \<times> u64 list" where
  "retry_execute cfg ops clock b =
     (case cb_call (fst (clock 0)) (snd (clock 0)) (ops 0) b of
        (b', Inr _) \<Rightarrow> (b', RSuccess 0, [])
      | (b', Inl CbOpenError) \<Rightarrow> (b', RCircuitOpen, [])
      | (b', Inl (CallFailed e)) \<Rightarrow> retry_with_backoff cfg ops clock [1..<unat (rc_max_retries cfg) + 1] e [] b')"

definition circuit_open_text :: string where
  "circuit_open_text = ''circuit_breaker_open''"

definition handle_retry_outcome ::
  "('ev dlq_record \<Rightarrow> string + string) \<Rightarrow> dlq_env \<Rightarrow> string retry_outcome \<Rightarrow> 'ev \<Rightarrow> 'ev tiered_dlq \<Rightarrow> 'ev tiered_dlq \<times> bool option" where
  "handle_retry_outcome json env outcome ev t =
     (case outcome of
        RSuccess _ \<Rightarrow> (t, Some True)
      | RCircuitOpen \<Rightarrow>
          (case tiered_write json env ev circuit_open_text 0 t of (t', None) \<Rightarrow> (t', None) | (t', Some _) \<Rightarrow> (t', Some False))
      | RPermanentFailure err retries \<Rightarrow>
          (case tiered_write json env ev err retries t of (t', None) \<Rightarrow> (t', None) | (t', Some _) \<Rightarrow> (t', Some False)))"

section \<open>No letter is lost\<close>

text \<open>What identifies a letter: a drain writes it under a new time.\<close>

definition letter :: "'ev dlq_record \<Rightarrow> 'ev \<times> string \<times> u32" where
  "letter r = (dr_event r, dr_error r, dr_retry_count r)"

lemma letter_of [simp]: "letter (dlq_record_of env ev err n) = (ev, err, n)"
  by (simp add: letter_def dlq_record_of_def)

definition json_line :: "('ev dlq_record \<Rightarrow> string + string) \<Rightarrow> 'ev dlq_record \<Rightarrow> string" where
  "json_line json r = (case json r of Inl _ \<Rightarrow> [] | Inr text \<Rightarrow> text @ [newline])"

text \<open>
  The open file's text consists of pieces, among them the lines of the stored records, each with its newline, in their order.
  A piece is what one write appended: after a write that was cut off, the next line follows the fragment without a line break.
\<close>

definition holds_lines :: "('ev dlq_record \<Rightarrow> string + string) \<Rightarrow> 'ev dlq_record list \<Rightarrow> dead_letter_queue \<Rightarrow> bool" where
  "holds_lines json rs d \<longleftrightarrow> rs = [] \<or>
     (\<exists>f pieces. dq_writer d = Some f \<and> file_text f d = concat pieces \<and> subseq (map (json_line json) rs) pieces)"

lemma file_text_append [simp]: "file_text f (append_text f s d) = file_text f d @ s"
  by (simp add: file_text_def append_text_def hm_get_update)

lemma append_text_writer [simp]: "dq_writer (append_text f s d) = dq_writer d"
  by (simp add: append_text_def)

lemma holds_lines_append:
  assumes "holds_lines json rs d" "dq_writer d = Some f"
  shows "holds_lines json rs (append_text f s d)"
proof -
  have "\<exists>pieces. file_text f (append_text f s d) = concat pieces \<and> subseq (map (json_line json) rs) pieces" if ne: "rs \<noteq> []"
  proof -
    obtain pieces where "file_text f d = concat pieces" "subseq (map (json_line json) rs) pieces"
      using assms ne by (auto simp: holds_lines_def)
    then have "file_text f (append_text f s d) = concat (pieces @ [s]) \<and> subseq (map (json_line json) rs) (pieces @ [s])"
      using list_emb_append_mono [of "(=)" "map (json_line json) rs" pieces "[]" "[s]"] by simp
    then show ?thesis by blast
  qed
  then show ?thesis using assms(2) by (auto simp: holds_lines_def)
qed

lemma holds_lines_line:
  assumes "holds_lines json rs d" "dq_writer d = Some f" "json r = Inr text"
  shows "holds_lines json (rs @ [r]) (append_text f (text @ [newline]) d)"
proof -
  obtain pieces where "file_text f d = concat pieces" "subseq (map (json_line json) rs) pieces"
  proof (cases "rs = []")
    case True
    show thesis by (rule that [of "[file_text f d]"]) (simp_all add: True)
  next
    case False
    then show thesis using assms(1,2) that by (auto simp: holds_lines_def)
  qed
  then have "file_text f (append_text f (text @ [newline]) d) = concat (pieces @ [text @ [newline]]) \<and>
      subseq (map (json_line json) (rs @ [r])) (pieces @ [text @ [newline]])"
    using assms(3) by (simp add: json_line_def list_emb_append_mono)
  then show ?thesis using assms(2) unfolding holds_lines_def by (metis append_text_writer)
qed

lemma dlq_open_lines:
  assumes "holds_lines json rs d" "dlq_open env d = (d', Some f)"
  shows "holds_lines json rs d' \<and> dq_writer d' = Some f"
  using assms by (auto simp: dlq_open_def holds_lines_def split: option.splits if_splits)

lemma dlq_write_lines:
  assumes "holds_lines json rs d" "dlq_write json env ev err n d = (d', r)"
  shows "r = Some (Inr ()) \<Longrightarrow> holds_lines json (rs @ [dlq_record_of env ev err n]) d'"
    "r \<noteq> None \<Longrightarrow> holds_lines json rs d'"
proof -
  obtain d1 o1 where op: "dlq_open env d = (d1, o1)" by force
  show "r = Some (Inr ()) \<Longrightarrow> holds_lines json (rs @ [dlq_record_of env ev err n]) d'"
    using assms(2) dlq_open_lines [OF assms(1), of env d1] holds_lines_line [of json rs d1]
    by (auto simp: dlq_write_def op split: if_splits option.splits sum.splits line_outcome.splits)
  show "r \<noteq> None \<Longrightarrow> holds_lines json rs d'"
    using assms(2) dlq_open_lines [OF assms(1), of env d1] holds_lines_append [of json rs d1]
    by (auto simp: dlq_write_def op split: if_splits option.splits sum.splits line_outcome.splits)
qed

text \<open>
  Runs of the queue without a panic. The abstract state has the letters whose writes returned \<^verbatim>\<open>Ok\<close> and the records that
  reached the disk, in their order.
\<close>

datatype 'ev dlq_command = LWrite dlq_env 'ev string u32 | LDrain "nat \<Rightarrow> dlq_env"

fun dlq_exec :: "('ev dlq_record \<Rightarrow> string + string) \<Rightarrow> 'ev dlq_command \<Rightarrow> 'ev tiered_dlq \<Rightarrow> 'ev tiered_dlq" where
  "dlq_exec json (LWrite env ev err n) t = fst (tiered_write json env ev err n t)"
| "dlq_exec json (LDrain envs) t = fst (drain_tick json envs t)"

fun dlq_no_panic :: "('ev dlq_record \<Rightarrow> string + string) \<Rightarrow> 'ev dlq_command \<Rightarrow> 'ev tiered_dlq \<Rightarrow> bool" where
  "dlq_no_panic json (LWrite env ev err n) t \<longleftrightarrow> snd (tiered_write json env ev err n t) \<noteq> None"
| "dlq_no_panic json (LDrain envs) t \<longleftrightarrow> snd (drain_tick json envs t) \<noteq> None"

type_synonym 'ev letters = "('ev \<times> string \<times> u32) multiset \<times> 'ev dlq_record list"

fun dlq_spec :: "('ev dlq_record \<Rightarrow> string + string) \<Rightarrow> 'ev dlq_command \<Rightarrow> 'ev tiered_dlq \<Rightarrow> 'ev letters \<Rightarrow> 'ev letters" where
  "dlq_spec json (LWrite env ev err n) t (acc, st) =
     (if snd (tiered_write json env ev err n t) = Some (Inr ()) then add_mset (ev, err, n) acc else acc,
      if snd (dlq_write json env ev err n (tq_primary t)) = Some (Inr ()) then st @ [dlq_record_of env ev err n] else st)"
| "dlq_spec json (LDrain envs) t (acc, st) =
     (acc, st @ map (\<lambda>i. dlq_record_of (envs i) (dr_event (tq_secondary t ! i)) (dr_error (tq_secondary t ! i)) (dr_retry_count (tq_secondary t ! i)))
              [0..<the (snd (drain_tick json envs t))])"

definition letters_rel :: "('ev dlq_record \<Rightarrow> string + string) \<Rightarrow> 'ev letters \<Rightarrow> 'ev tiered_dlq \<Rightarrow> bool" where
  "letters_rel json AS t \<longleftrightarrow> (case AS of (acc, st) \<Rightarrow>
     acc = mset (map letter st) + mset (map letter (tq_secondary t)) \<and> length (tq_secondary t) \<le> tq_memory_capacity t \<and>
     holds_lines json st (tq_primary t))"

lemma write_letters_rel:
  assumes rel: "letters_rel json (acc, st) t" and g: "dlq_no_panic json (LWrite env ev err n) t"
  shows "letters_rel json (dlq_spec json (LWrite env ev err n) t (acc, st)) (dlq_exec json (LWrite env ev err n) t)"
proof -
  obtain p r where w: "dlq_write json env ev err n (tq_primary t) = (p, r)" by force
  have h: "holds_lines json st (tq_primary t)" using rel by (simp add: letters_rel_def)
  note lines = dlq_write_lines [OF h w]
  consider "r = None" | "r = Some (Inr ())" | e where "r = Some (Inl e)" by (cases r) (auto, metis old.unit.exhaust sum.exhaust)
  then show ?thesis
    using rel g lines by cases (auto simp: letters_rel_def tiered_write_def w)
qed

lemma drain_loop_letters:
  assumes "holds_lines json st p" "drain_loop json envs k rs p = (p', rest, Some m)"
  shows "\<exists>j. m = k + j \<and> rest = drop j rs \<and> j \<le> length rs \<and>
    holds_lines json (st @ map (\<lambda>i. dlq_record_of (envs (k + i)) (dr_event (rs ! i)) (dr_error (rs ! i)) (dr_retry_count (rs ! i))) [0..<j]) p'"
  using assms
proof (induction rs arbitrary: st k p)
  case (Cons x rs)
  let ?r = "dlq_record_of (envs k) (dr_event x) (dr_error x) (dr_retry_count x)"
  obtain q r where w: "dlq_write json (envs k) (dr_event x) (dr_error x) (dr_retry_count x) p = (q, r)" by force
  note lines = dlq_write_lines [OF Cons.prems(1) w]
  consider "r = Some (Inr ())" | e where "r = Some (Inl e)" using Cons.prems(2) w by (cases r) (auto, metis old.unit.exhaust sum.exhaust)
  then show ?case
  proof cases
    case 1
    then have "drain_loop json envs (k + 1) rs q = (p', rest, Some m)" using Cons.prems(2) w by simp
    from Cons.IH [OF lines(1) [OF 1] this] obtain j where j: "m = k + 1 + j" "rest = drop j rs" "j \<le> length rs"
      "holds_lines json ((st @ [?r]) @ map (\<lambda>i. dlq_record_of (envs (k + 1 + i)) (dr_event (rs ! i)) (dr_error (rs ! i)) (dr_retry_count (rs ! i))) [0..<j]) p'"
      by blast
    have "[?r] @ map (\<lambda>i. dlq_record_of (envs (k + 1 + i)) (dr_event (rs ! i)) (dr_error (rs ! i)) (dr_retry_count (rs ! i))) [0..<j] =
        map (\<lambda>i. dlq_record_of (envs (k + i)) (dr_event ((x # rs) ! i)) (dr_error ((x # rs) ! i)) (dr_retry_count ((x # rs) ! i))) [0..<Suc j]"
      by (simp add: map_upt_Suc del: upt_Suc)
    then show ?thesis using j by (intro exI [of _ "Suc j"]) (simp del: upt_Suc)
  next
    case 2
    then show ?thesis using Cons.prems(2) w lines(2) by auto
  qed
qed simp

lemma drain_letters_rel:
  assumes rel: "letters_rel json (acc, st) t" and g: "dlq_no_panic json (LDrain envs) t"
  shows "letters_rel json (dlq_spec json (LDrain envs) t (acc, st)) (dlq_exec json (LDrain envs) t)"
proof (cases "tq_secondary t = []")
  case True
  then show ?thesis using rel by (simp add: drain_tick_def)
next
  case False
  let ?sec = "tq_secondary t"
  obtain p rest r where d: "drain_loop json envs 0 ?sec (tq_primary t) = (p, rest, r)" by (metis prod_cases3)
  then obtain m where m: "r = Some m" using g False by (auto simp: drain_tick_def drain_secondary_def)
  define new where "new = map (\<lambda>i. dlq_record_of (envs i) (dr_event (?sec ! i)) (dr_error (?sec ! i)) (dr_retry_count (?sec ! i))) [0..<m]"
  have h: "holds_lines json st (tq_primary t)" "acc = mset (map letter st) + mset (map letter ?sec)" "length ?sec \<le> tq_memory_capacity t"
    using rel by (simp_all add: letters_rel_def)
  have j: "rest = drop m ?sec" "m \<le> length ?sec" "holds_lines json (st @ new) p"
    using drain_loop_letters [OF h(1), of envs 0 ?sec p rest m] d m by (auto simp: new_def)
  have "map letter new = map letter (take m ?sec)"
    using j(2) by (intro nth_equalityI) (simp_all add: new_def, simp add: letter_def)
  moreover have "mset (map letter (take m ?sec)) + mset (map letter (drop m ?sec)) = mset (map letter ?sec)"
    by (simp only: append_take_drop_id flip: map_append mset_append)
  ultimately have "mset (map letter new) + mset (map letter rest) = mset (map letter ?sec)"
    unfolding j(1) by (simp only:)
  then have "letters_rel json (acc, st @ new) (t\<lparr>tq_primary := p, tq_secondary := rest\<rparr>)"
    using h(2,3) j by (simp add: letters_rel_def add.assoc)
  moreover have "dlq_spec json (LDrain envs) t (acc, st) = (acc, st @ new)" "dlq_exec json (LDrain envs) t = t\<lparr>tq_primary := p, tq_secondary := rest\<rparr>"
    using False d m by (simp_all add: new_def drain_tick_def drain_secondary_def)
  ultimately show ?thesis by (simp only:)
qed

lemma letters_step:
  assumes "letters_rel json AS t" "dlq_no_panic json c t"
  shows "letters_rel json (dlq_spec json c t AS) (dlq_exec json c t)"
proof -
  obtain acc st where AS: "AS = (acc, st)" by force
  show ?thesis
    using write_letters_rel [of json acc st t] drain_letters_rel [of json acc st t] assms AS by (cases c) blast+
qed

interpretation dl: guarded_simulation "letters_rel json" "dlq_no_panic json" "dlq_exec json" "dlq_spec json" for json
  by unfold_locales (rule letters_step)

text \<open>
  A queue meets a panic only at the first write, when the file cannot be opened: the lock is then poisoned, and the buffer has
  never been used.
\<close>

definition queue_rel :: "('ev dlq_record \<Rightarrow> string + string) \<Rightarrow> 'ev letters \<Rightarrow> 'ev tiered_dlq \<Rightarrow> bool" where
  "queue_rel json AS t \<longleftrightarrow> letters_rel json AS t \<and> (dq_writer (tq_primary t) = None \<longrightarrow> tq_secondary t = []) \<and>
     (dq_poisoned (tq_primary t) \<longrightarrow> dq_writer (tq_primary t) = None)"

lemma dlq_write_opens:
  assumes "\<not> dq_poisoned d" "dq_writer d \<noteq> None \<or> de_open env" "dlq_write json env ev err n d = (d', r)"
  shows "r \<noteq> None \<and> dq_writer d' \<noteq> None \<and> \<not> dq_poisoned d'"
  using assms by (auto simp: dlq_write_def dlq_open_def append_text_def split: option.splits sum.splits line_outcome.splits if_splits)

lemma dlq_write_panics:
  assumes "dq_writer d = None" "dq_poisoned d \<or> \<not> de_open env"
  shows "dlq_write json env ev err n d = (d\<lparr>dq_poisoned := True\<rparr>, None)"
  using assms by (auto simp: dlq_write_def dlq_open_def)

lemma drain_loop_opened:
  assumes "\<not> dq_poisoned p" "dq_writer p \<noteq> None" "drain_loop json envs k rs p = (p', rest, r)"
  shows "r \<noteq> None \<and> dq_writer p' \<noteq> None \<and> \<not> dq_poisoned p'"
  using assms
proof (induction rs arbitrary: k p)
  case (Cons x rs)
  obtain q w where wr: "dlq_write json (envs k) (dr_event x) (dr_error x) (dr_retry_count x) p = (q, w)" by force
  have q: "w \<noteq> None" "dq_writer q \<noteq> None" "\<not> dq_poisoned q" using dlq_write_opens [OF Cons.prems(1) _ wr] Cons.prems(2) by auto
  then show ?case using Cons.prems(3) Cons.IH [OF q(3,2)] wr by (auto split: option.splits sum.splits)
qed auto

lemma queue_write_rel:
  assumes rel: "queue_rel json (acc, st) t"
  shows "queue_rel json (dlq_spec json (LWrite env ev err n) t (acc, st)) (dlq_exec json (LWrite env ev err n) t)"
proof (cases "dq_writer (tq_primary t) = None \<and> (dq_poisoned (tq_primary t) \<or> \<not> de_open env)")
  case True
  note panic = dlq_write_panics [of "tq_primary t" env json ev err n]
  have "letters_rel json (acc, st) (t\<lparr>tq_primary := (tq_primary t)\<lparr>dq_poisoned := True\<rparr>\<rparr>)"
    using rel by (simp add: queue_rel_def letters_rel_def holds_lines_def file_text_def)
  then show ?thesis using True rel panic by (auto simp: queue_rel_def tiered_write_def)
next
  case False
  obtain p r where w: "dlq_write json env ev err n (tq_primary t) = (p, r)" by force
  have can: "\<not> dq_poisoned (tq_primary t)" "dq_writer (tq_primary t) \<noteq> None \<or> de_open env"
    using False rel by (auto simp: queue_rel_def)
  have p: "r \<noteq> None" "dq_writer p \<noteq> None" "\<not> dq_poisoned p" using dlq_write_opens [OF can w] by auto
  have "dlq_no_panic json (LWrite env ev err n) t" using p(1) by (auto simp: tiered_write_def w split: option.splits sum.splits)
  moreover have "tq_primary (dlq_exec json (LWrite env ev err n) t) = p" by (auto simp: tiered_write_def w split: option.splits sum.splits)
  ultimately show ?thesis using write_letters_rel [of json acc st t env ev err n] rel p by (auto simp add: queue_rel_def simp del: dlq_no_panic.simps dlq_exec.simps dlq_spec.simps)
qed

lemma queue_drain_rel:
  assumes rel: "queue_rel json (acc, st) t"
  shows "queue_rel json (dlq_spec json (LDrain envs) t (acc, st)) (dlq_exec json (LDrain envs) t)"
proof (cases "tq_secondary t = []")
  case True
  then show ?thesis using rel by (simp add: drain_tick_def)
next
  case False
  obtain p rest r where d: "drain_loop json envs 0 (tq_secondary t) (tq_primary t) = (p, rest, r)" by (metis prod_cases3)
  have "\<not> dq_poisoned (tq_primary t)" "dq_writer (tq_primary t) \<noteq> None" using rel False by (auto simp: queue_rel_def)
  from drain_loop_opened [OF this d] have p: "r \<noteq> None" "dq_writer p \<noteq> None" "\<not> dq_poisoned p" by auto
  have "dlq_no_panic json (LDrain envs) t" using p(1) by (simp add: drain_tick_def False drain_secondary_def d)
  moreover have "tq_primary (dlq_exec json (LDrain envs) t) = p" by (simp add: drain_tick_def False drain_secondary_def d)
  ultimately show ?thesis
    using drain_letters_rel [of json acc st t envs] rel p by (auto simp add: queue_rel_def simp del: dlq_no_panic.simps dlq_exec.simps dlq_spec.simps)
qed

lemma queue_panics:
  assumes rel: "queue_rel json AS t"
  shows "dlq_no_panic json c t \<longleftrightarrow> (case c of
      LWrite env ev err n \<Rightarrow> \<not> dq_poisoned (tq_primary t) \<and> (dq_writer (tq_primary t) \<noteq> None \<or> de_open env)
    | LDrain envs \<Rightarrow> True)"
proof (cases c)
  case (LWrite env ev err n)
  show ?thesis
  proof (cases "\<not> dq_poisoned (tq_primary t) \<and> (dq_writer (tq_primary t) \<noteq> None \<or> de_open env)")
    case True
    obtain p r where w: "dlq_write json env ev err n (tq_primary t) = (p, r)" by force
    have "r \<noteq> None" using dlq_write_opens [OF _ _ w] True by blast
    then have "dlq_no_panic json (LWrite env ev err n) t" by (auto simp: tiered_write_def w split: option.splits sum.splits)
    then show ?thesis using True LWrite by (simp del: dlq_no_panic.simps)
  next
    case False
    then have "dq_writer (tq_primary t) = None" "dq_poisoned (tq_primary t) \<or> \<not> de_open env"
      using rel by (auto simp: queue_rel_def)
    from dlq_write_panics [OF this, of json ev err n] show ?thesis using False LWrite by (simp add: tiered_write_def)
  qed
next
  case (LDrain envs)
  show ?thesis
  proof (cases "tq_secondary t = []")
    case True
    then show ?thesis by (simp add: LDrain drain_tick_def)
  next
    case False
    obtain p rest r where d: "drain_loop json envs 0 (tq_secondary t) (tq_primary t) = (p, rest, r)" by (metis prod_cases3)
    have "\<not> dq_poisoned (tq_primary t)" "dq_writer (tq_primary t) \<noteq> None" using rel False by (auto simp: queue_rel_def)
    from drain_loop_opened [OF this d] show ?thesis by (simp add: LDrain drain_tick_def False drain_secondary_def d)
  qed
qed

lemma queue_step:
  assumes "queue_rel json AS t"
  shows "queue_rel json (dlq_spec json c t AS) (dlq_exec json c t)"
proof -
  obtain acc st where AS: "AS = (acc, st)" by force
  show ?thesis
    using queue_write_rel [of json acc st t] queue_drain_rel [of json acc st t] assms AS by (cases c) blast+
qed

interpretation dq: guarded_simulation "queue_rel json" "\<lambda>_ _. True" "dlq_exec json" "dlq_spec json" for json
  by unfold_locales (rule queue_step)

section \<open>Properties\<close>

definition letters_of :: "('ev dlq_record \<Rightarrow> string + string) \<Rightarrow> 'ev dlq_command list \<Rightarrow> 'ev tiered_dlq \<Rightarrow> 'ev letters" where
  "letters_of json cs t = spec_run (dlq_spec json) (dlq_exec json) cs t ({#}, [])"

text \<open>
  C30. No accepted dead letter is lost. Start with an empty buffer on any directory, and write letters and drain the buffer in
  any order, while lines are cut off, cannot be flushed or cannot be serialized. The letters whose writes returned \<^verbatim>\<open>Ok\<close> are
  then, with their multiplicities, exactly those stored on disk together with those in the buffer; the text of each stored
  letter, with its newline, is a piece of the open file's text, in the order of the writes (after a line that was cut off, the
  next one continues the fragment, so it is not a line of its own); and the buffer never exceeds its capacity. A write returns
  \<^verbatim>\<open>Ok\<close> or an error, and a drain returns, unless the file could not be opened when it was first needed: that write panics
  and poisons the lock, every later write panics too (in a build whose panics unwind; the release profile aborts), no write returns \<^verbatim>\<open>Ok\<close>, and nothing is stored or buffered.
\<close>

theorem dead_letters_conserved:
  assumes "letters_of json cs (tiered_new (dlq_new files) capacity) = (accepted, stored)"
    and "t = fold (dlq_exec json) cs (tiered_new (dlq_new files) capacity)"
  shows "accepted = mset (map letter stored) + mset (map letter (tq_secondary t)) \<and>
    length (tq_secondary t) \<le> tq_memory_capacity t \<and> holds_lines json stored (tq_primary t) \<and>
    (dlq_no_panic json c t \<longleftrightarrow> (case c of
        LWrite env ev err n \<Rightarrow> \<not> dq_poisoned (tq_primary t) \<and> (dq_writer (tq_primary t) \<noteq> None \<or> de_open env)
      | LDrain envs \<Rightarrow> True)) \<and>
    (dq_poisoned (tq_primary t) \<longrightarrow> accepted = {#} \<and> stored = [] \<and> tq_secondary t = [])"
proof -
  have "queue_rel json ({#}, []) (tiered_new (dlq_new files) capacity)"
    by (simp add: queue_rel_def letters_rel_def tiered_new_def dlq_new_def holds_lines_def)
  from dq.run_related [OF this guarded_run_True, of cs] have rel: "queue_rel json (accepted, stored) t"
    using assms by (simp add: letters_of_def)
  then have "dlq_no_panic json c t \<longleftrightarrow> (case c of
        LWrite env ev err n \<Rightarrow> \<not> dq_poisoned (tq_primary t) \<and> (dq_writer (tq_primary t) \<noteq> None \<or> de_open env)
      | LDrain envs \<Rightarrow> True)"
    by (rule queue_panics)
  moreover have "stored = []" "tq_secondary t = []" if "dq_poisoned (tq_primary t)"
    using rel that by (auto simp: queue_rel_def letters_rel_def holds_lines_def)
  ultimately show ?thesis using rel by (auto simp: queue_rel_def letters_rel_def)
qed

text \<open>
  A file that cannot be opened is not an error but a panic, and it poisons the lock: every later write panics too, so the buffer
  in memory is never used.
\<close>

lemma unopened_file_poisons_queue:
  assumes "dq_writer (tq_primary t) = None" "\<not> dq_poisoned (tq_primary t)" "\<not> de_open env"
  shows "\<exists>t'. tiered_write json env ev err n t = (t', None) \<and> tq_secondary t' = tq_secondary t \<and>
    (\<forall>env' ev' err' n'. tiered_write json env' ev' err' n' t' = (t', None))"
  using assms by (simp add: tiered_write_def dlq_write_def dlq_open_def)

text \<open>A drain that panics has already taken out the record it was writing: the record is lost.\<close>

lemma panicking_drain_loses_record:
  assumes "dq_writer p = None" "\<not> dq_poisoned p" "\<not> de_open (envs 0)"
  shows "drain_loop json envs 0 (r # rs) p = (p\<lparr>dq_poisoned := True\<rparr>, rs, None)"
  using assms by (simp add: dlq_write_def dlq_open_def)

text \<open>With lines free of newlines the statistics count the letters.\<close>

lemma count_lines_line: "newline \<notin> set l \<Longrightarrow> count_lines (l @ newline # s) = 1 + count_lines s"
  by (induction l) auto

lemma count_lines_concat:
  "(\<forall>l \<in> set ls. newline \<notin> set l) \<Longrightarrow> count_lines (concat (map (\<lambda>l. l @ [newline]) ls)) = length ls"
  by (induction ls) (simp_all add: count_lines_line)

section \<open>Retries\<close>

lemma cb_call_result:
  "case snd (cb_call now after f b) of
     Inr r \<Rightarrow> f = Inr r \<and> fst (cb_check now b)
   | Inl CbOpenError \<Rightarrow> \<not> fst (cb_check now b)
   | Inl (CallFailed e) \<Rightarrow> f = Inl e \<and> fst (cb_check now b)"
  by (cases f; cases "cb_check now b"; cases "fst (cb_check now b)") (simp_all add: cb_call_def)

text \<open>
  The breaker as attempt \<open>k\<close> finds it, after the calls of the attempts before, whether it lets the attempt through, and the
  attempts before \<open>k\<close>: all let through, and all failed.
\<close>

fun breaker_before :: "(nat \<Rightarrow> 'e + 't) \<Rightarrow> (nat \<Rightarrow> nat \<times> nat) \<Rightarrow> circuit_breaker \<Rightarrow> nat \<Rightarrow> circuit_breaker" where
  "breaker_before ops clock b 0 = b"
| "breaker_before ops clock b (Suc k) = fst (cb_call (fst (clock k)) (snd (clock k)) (ops k) (breaker_before ops clock b k))"

definition let_through :: "(nat \<Rightarrow> 'e + 't) \<Rightarrow> (nat \<Rightarrow> nat \<times> nat) \<Rightarrow> circuit_breaker \<Rightarrow> nat \<Rightarrow> bool" where
  "let_through ops clock b k \<longleftrightarrow> fst (cb_check (fst (clock k)) (breaker_before ops clock b k))"

definition attempts_failed :: "(nat \<Rightarrow> 'e + 't) \<Rightarrow> (nat \<Rightarrow> nat \<times> nat) \<Rightarrow> circuit_breaker \<Rightarrow> nat \<Rightarrow> bool" where
  "attempts_failed ops clock b k \<longleftrightarrow> (\<forall>j < k. let_through ops clock b j \<and> \<not> is_ok (ops j))"

lemma attempts_failed_Suc:
  "attempts_failed ops clock b (Suc k) \<longleftrightarrow> attempts_failed ops clock b k \<and> let_through ops clock b k \<and> \<not> is_ok (ops k)"
  by (auto simp: attempts_failed_def less_Suc_eq)

text \<open>The sleeps before the retries, as 64-bit words of the initial backoff doubled each time.\<close>

definition doubled :: "retry_config \<Rightarrow> nat \<Rightarrow> u64 list" where
  "doubled cfg k = map (\<lambda>i. of_nat (unat (rc_initial_backoff_ms cfg) * 2 ^ i)) [0..<k]"

lemma doubled_Suc: "doubled cfg (Suc k) = doubled cfg k @ [retry_backoff_ms cfg (Suc k)]"
  by (simp add: doubled_def retry_backoff_ms_def)

fun outcome_sound ::
  "retry_config \<Rightarrow> (nat \<Rightarrow> 'e + 't) \<Rightarrow> (nat \<Rightarrow> nat \<times> nat) \<Rightarrow> circuit_breaker \<Rightarrow> 'e retry_outcome \<Rightarrow> nat \<Rightarrow> bool" where
  "outcome_sound cfg ops clock b (RSuccess n) k \<longleftrightarrow> unat n = k \<and> let_through ops clock b k \<and> is_ok (ops k)"
| "outcome_sound cfg ops clock b (RPermanentFailure e n) k \<longleftrightarrow>
     n = rc_max_retries cfg \<and> unat n = k \<and> let_through ops clock b k \<and> ops k = Inl e"
| "outcome_sound cfg ops clock b RCircuitOpen k \<longleftrightarrow> \<not> let_through ops clock b k"

lemma retry_loop_sound:
  assumes "0 < i" "i \<le> unat (rc_max_retries cfg) + 1" "attempts_failed ops clock b i" "ops (i - 1) = Inl e" "slept = doubled cfg (i - 1)"
    and "retry_with_backoff cfg ops clock [i..<unat (rc_max_retries cfg) + 1] e slept (breaker_before ops clock b i) = (b', out, slept')"
  shows "\<exists>k \<le> unat (rc_max_retries cfg). attempts_failed ops clock b k \<and> outcome_sound cfg ops clock b out k \<and>
    slept' = doubled cfg k \<and> b' = breaker_before ops clock b (Suc k)"
  using assms
proof (induction "unat (rc_max_retries cfg) + 1 - i" arbitrary: i e slept)
  case 0
  then have i: "i = Suc (unat (rc_max_retries cfg))" by simp
  then show ?case using 0 by (intro exI [of _ "unat (rc_max_retries cfg)"]) (auto simp: attempts_failed_Suc)
next
  case (Suc m)
  let ?n = "unat (rc_max_retries cfg)" and ?b = "breaker_before ops clock b i"
  have i: "i \<le> ?n" using Suc.hyps(2) by simp
  have list: "[i..<?n + 1] = i # [Suc i..<?n + 1]" using i by (simp add: upt_conv_Cons del: upt_Suc)
  have small: "i < 2 ^ 32" using i unat_lt [of "rc_max_retries cfg"] by simp
  then have word: "unat (of_nat i :: u32) = i" using unat_of_nat_small [of i, where 'a = 32] by simp
  have sl: "slept @ [retry_backoff_ms cfg i] = doubled cfg i" using Suc.prems(1,5) by (cases i) (simp_all add: doubled_Suc)
  obtain b1 r where call: "cb_call (fst (clock i)) (snd (clock i)) (ops i) ?b = (b1, r)" by force
  then have after: "b1 = breaker_before ops clock b (Suc i)" by simp
  note res = cb_call_result [where now = "fst (clock i)" and after = "snd (clock i)" and f = "ops i" and b = ?b, unfolded call, folded let_through_def]
  consider x where "r = Inr x" | "r = Inl CbOpenError" | e' where "r = Inl (CallFailed e')" by (metis cb_error.exhaust sum.exhaust)
  then show ?case
  proof cases
    case 1
    then have "out = RSuccess (of_nat i)" "slept' = doubled cfg i" "b' = b1" using Suc.prems(6) call sl unfolding list by auto
    then show ?thesis using 1 Suc.prems(3) res word i after by (intro exI [of _ i]) simp
  next
    case 2
    then have "out = RCircuitOpen" "slept' = doubled cfg i" "b' = b1" using Suc.prems(6) call sl unfolding list by auto
    then show ?thesis using 2 Suc.prems(3) res i after by (intro exI [of _ i]) simp
  next
    case (3 e')
    then have op: "ops i = Inl e'" "let_through ops clock b i" using res by simp_all
    have loop: "retry_with_backoff cfg ops clock [Suc i..<?n + 1] e' (doubled cfg i) (breaker_before ops clock b (Suc i)) = (b', out, slept')"
      unfolding after [symmetric] using Suc.prems(6) call 3 sl unfolding list by simp
    have "m = ?n + 1 - Suc i" using Suc.hyps(2) by simp
    from Suc.hyps(1) [OF this _ _ _ _ _ loop] show ?thesis using i op Suc.prems(3) by (simp add: attempts_failed_Suc)
  qed
qed

text \<open>
  C31. Retries end at the first success. Whatever state the breaker is in and however the operation behaves, executing it ends
  with some attempt \<open>k\<close>, at most the number of configured retries, after the attempts before \<open>k\<close> were all let through by the
  breaker and all failed. It reports success exactly with the number of an attempt that the breaker let through and that
  succeeded; a permanent failure only at the last attempt, with the error of that attempt; and an open breaker only when the
  breaker, as the failed calls before have left it, rejects attempt \<open>k\<close>. The breaker afterwards is the one these calls leave.
  Before retry \<open>i\<close> it slept for the initial backoff doubled \<open>i - 1\<close> times, modulo \<open>2\<^sup>6\<^sup>4\<close> milliseconds: the power wraps
  around in a release build, to zero from retry 65 on.
\<close>

theorem retries_end_at_first_success:
  assumes "retry_execute cfg ops clock b = (b', out, slept)"
  shows "\<exists>k \<le> unat (rc_max_retries cfg). attempts_failed ops clock b k \<and> outcome_sound cfg ops clock b out k \<and>
    slept = doubled cfg k \<and> b' = breaker_before ops clock b (Suc k)"
proof -
  obtain b1 r where call: "cb_call (fst (clock 0)) (snd (clock 0)) (ops 0) b = (b1, r)" by force
  then have after: "b1 = breaker_before ops clock b (Suc 0)" by simp
  have none: "attempts_failed ops clock b 0" "doubled cfg 0 = []" by (simp_all add: attempts_failed_def doubled_def)
  have start: "let_through ops clock b 0 \<longleftrightarrow> fst (cb_check (fst (clock 0)) b)" by (simp add: let_through_def)
  note res = cb_call_result [where now = "fst (clock 0)" and after = "snd (clock 0)" and f = "ops 0" and b = b, unfolded call, folded start]
  consider x where "r = Inr x" | "r = Inl CbOpenError" | e where "r = Inl (CallFailed e)" by (metis cb_error.exhaust sum.exhaust)
  then show ?thesis
  proof cases
    case 1
    then have "out = RSuccess 0" "slept = []" "b' = b1" using assms call by (auto simp: retry_execute_def)
    then show ?thesis using 1 res none after by (intro exI [of _ 0]) simp
  next
    case 2
    then have "out = RCircuitOpen" "slept = []" "b' = b1" using assms call by (auto simp: retry_execute_def)
    then show ?thesis using 2 res none after by (intro exI [of _ 0]) simp
  next
    case (3 e)
    then have op: "ops 0 = Inl e" "let_through ops clock b 0" using res by simp_all
    have "retry_with_backoff cfg ops clock [Suc 0..<unat (rc_max_retries cfg) + 1] e [] (breaker_before ops clock b (Suc 0)) = (b', out, slept)"
      unfolding after [symmetric] using assms call 3 by (simp add: retry_execute_def)
    from retry_loop_sound [OF _ _ _ _ _ this] show ?thesis using op none by (simp add: attempts_failed_Suc)
  qed
qed

text \<open>The backoff is exact while it fits into 64 bits, and zero from the sixty-fifth retry on.\<close>

lemma backoff_exact:
  assumes "unat (rc_initial_backoff_ms cfg) * 2 ^ (i - 1) < 2 ^ 64"
  shows "unat (retry_backoff_ms cfg i) = unat (rc_initial_backoff_ms cfg) * 2 ^ (i - 1)"
proof (cases "rc_initial_backoff_ms cfg = 0")
  case False
  then have pos: "0 < unat (rc_initial_backoff_ms cfg)" by (simp add: unat_gt_0)
  then have "(2 :: nat) ^ (i - 1) < 2 ^ 64" using assms by (metis (no_types, lifting) le_less_trans less_eq_nat.simps(2) mult_le_mono1 mult_1 One_nat_def Suc_leI)
  then have "unat (2 ^ (i - 1) :: u64) = 2 ^ (i - 1)" using unat_of_nat_small [of "2 ^ (i - 1)", where 'a = 64] by simp
  then show ?thesis using assms by (simp add: retry_backoff_ms_def unat_word_ariths)
qed (simp add: retry_backoff_ms_def)

lemma retry_backoff_wraps: "64 < i \<Longrightarrow> retry_backoff_ms cfg i = 0"
proof -
  assume "64 < i"
  then have "(2 :: u64) ^ (i - 1) = 0" by simp
  then show ?thesis unfolding retry_backoff_ms_def by (simp only: mult_zero_right)
qed

subsection \<open>An operation that always fails\<close>

text \<open>
  With a new breaker, an operation that always fails meets the open breaker exactly when the failure threshold is at most the
  number of retries, provided that the timeout of the breaker does not pass meanwhile.
\<close>

lemma failing_call:
  assumes "cb_view b = VClosed n" "\<not> is_ok f"
  shows "\<exists>e. cb_call now after f b = (on_failure after b, Inl (CallFailed e))"
proof -
  have "cb_st b = CbClosed" using assms(1) by (cases "cb_st b") (simp_all add: cb_view_def)
  then show ?thesis using assms(2) by (cases f) (simp_all add: cb_call_def cb_check_def)
qed

lemma rejected_call:
  assumes "cb_view b = VOpen t" "now - t < cb_timeout (cb_cfg b)"
  shows "cb_call now after f b = (b, Inl CbOpenError)"
  using assms by (cases "cb_st b") (simp_all add: cb_call_def cb_check_def cb_view_def)

lemma failure_run_config: "cb_cfg (fold on_failure ts b) = cb_cfg b"
  by (induction ts arbitrary: b) (simp_all add: cb_config_same)

definition failures_until :: "nat \<Rightarrow> (nat \<Rightarrow> nat \<times> nat) \<Rightarrow> circuit_breaker \<Rightarrow> circuit_breaker" where
  "failures_until i clock b = fold on_failure (map (\<lambda>j. snd (clock j)) [0..<i]) b"

lemma failures_until_Suc: "failures_until (Suc i) clock b = on_failure (snd (clock i)) (failures_until i clock b)"
  by (simp add: failures_until_def)

lemma failures_until_view:
  fixes bcfg :: cb_config
  defines "thr \<equiv> max 1 (unat (cb_failure_threshold bcfg))"
  shows "cb_view (failures_until i clock (cb_new name bcfg)) = (if i < thr then VClosed i else VOpen (snd (clock (thr - 1))))"
proof -
  have "cb_view (cb_new name bcfg) = VClosed 0" "cb_cfg (cb_new name bcfg) = bcfg" by (simp_all add: cb_view_def cb_new_def)
  from cb.fail_run [OF cb_inv_new this(1), of "map (\<lambda>j. snd (clock j)) [0..<i]"] this(2) show ?thesis
    by (auto simp: failures_until_def thr_def)
qed

lemma failing_loop:
  fixes bcfg :: cb_config
  defines "thr \<equiv> max 1 (unat (cb_failure_threshold bcfg))"
  assumes fails: "\<And>j. \<not> is_ok (ops j)" and soon: "fst (clock thr) - snd (clock (thr - 1)) < cb_timeout bcfg"
    and i: "i \<le> thr" "i \<le> unat (rc_max_retries cfg) + 1"
  shows "fst (snd (retry_with_backoff cfg ops clock [i..<unat (rc_max_retries cfg) + 1] e slept (failures_until i clock (cb_new name bcfg)))) =
      RCircuitOpen \<longleftrightarrow> thr \<le> unat (rc_max_retries cfg)"
  using i
proof (induction "unat (rc_max_retries cfg) + 1 - i" arbitrary: i e slept)
  case 0
  then have "i = unat (rc_max_retries cfg) + 1" by simp
  then show ?case using 0 by simp
next
  case (Suc m)
  let ?n = "unat (rc_max_retries cfg)" and ?b = "failures_until i clock (cb_new name bcfg)"
  have le: "i \<le> ?n" using Suc.hyps(2) by simp
  then have list: "[i..<?n + 1] = i # [Suc i..<?n + 1]" by (simp add: upt_conv_Cons del: upt_Suc)
  have cfg: "cb_cfg ?b = bcfg" by (simp add: failures_until_def failure_run_config cb_new_def)
  note view = failures_until_view [of i clock name bcfg, folded thr_def]
  show ?case
  proof (cases "i < thr")
    case True
    with view have "cb_view ?b = VClosed i" by simp
    then obtain e' where call: "cb_call (fst (clock i)) (snd (clock i)) (ops i) ?b = (on_failure (snd (clock i)) ?b, Inl (CallFailed e'))"
      using failing_call [OF _ fails] by blast
    have "m = ?n + 1 - Suc i" using Suc.hyps(2) by simp
    from Suc.hyps(1) [OF this, of e' "slept @ [retry_backoff_ms cfg i]"] show ?thesis
      using True le unfolding list by (simp add: call failures_until_Suc del: upt_Suc)
  next
    case False
    then have at: "i = thr" using Suc.prems(1) by simp
    with view have "cb_view ?b = VOpen (snd (clock (thr - 1)))" by simp
    from rejected_call [OF this, of "fst (clock i)" "snd (clock i)" "ops i"] show ?thesis
      using soon at le unfolding list cfg by simp
  qed
qed

lemma failing_operation_outcome:
  fixes bcfg :: cb_config
  defines "thr \<equiv> max 1 (unat (cb_failure_threshold bcfg))"
  assumes fails: "\<And>j. \<not> is_ok (ops j)" and soon: "fst (clock thr) - snd (clock (thr - 1)) < cb_timeout bcfg"
  shows "fst (snd (retry_execute cfg ops clock (cb_new name bcfg))) = RCircuitOpen \<longleftrightarrow> thr \<le> unat (rc_max_retries cfg)"
proof -
  have "cb_view (cb_new name bcfg) = VClosed 0" by (simp add: cb_view_def cb_new_def)
  then obtain e where call: "cb_call (fst (clock 0)) (snd (clock 0)) (ops 0) (cb_new name bcfg) = (on_failure (snd (clock 0)) (cb_new name bcfg), Inl (CallFailed e))"
    using failing_call [OF _ fails] by blast
  have "failures_until 1 clock (cb_new name bcfg) = on_failure (snd (clock 0)) (cb_new name bcfg)" by (simp add: failures_until_def)
  then show ?thesis
    using failing_loop [where clock = clock and bcfg = bcfg and i = 1 and cfg = cfg and e = e and slept = "[]" and name = name, OF fails] soon by (simp add: retry_execute_def call thr_def del: upt_Suc)
qed

text \<open>
  With the default settings a storage that fails opens the breaker at the first attempt of the second event. Its letter then
  says that the breaker was open, with no retries, and the error of the attempt that was made is gone.
\<close>

lemma retry_default:
  "retry_execute retry_config_default ops clock b =
     (case cb_call (fst (clock 0)) (snd (clock 0)) (ops 0) b of
        (b', Inr _) \<Rightarrow> (b', RSuccess 0, [])
      | (b', Inl CbOpenError) \<Rightarrow> (b', RCircuitOpen, [])
      | (b', Inl (CallFailed e)) \<Rightarrow> retry_with_backoff retry_config_default ops clock [1, 2, 3] e [] b')"
  "retry_backoff_ms retry_config_default (Suc 0) = 100" "retry_backoff_ms retry_config_default 2 = 200" "retry_backoff_ms retry_config_default 3 = 400"
proof -
  have "[1..<unat (rc_max_retries retry_config_default) + 1] = [1, 2, 3]" by (simp add: retry_config_default_def upt_rec)
  then show "retry_execute retry_config_default ops clock b =
     (case cb_call (fst (clock 0)) (snd (clock 0)) (ops 0) b of
        (b', Inr _) \<Rightarrow> (b', RSuccess 0, [])
      | (b', Inl CbOpenError) \<Rightarrow> (b', RCircuitOpen, [])
      | (b', Inl (CallFailed e)) \<Rightarrow> retry_with_backoff retry_config_default ops clock [1, 2, 3] e [] b')"
    unfolding retry_execute_def by (simp only:)
qed (simp_all add: retry_config_default_def retry_backoff_ms_def)

lemmas cb_eval = cb_with_defaults_def cb_new_def cb_config_default_def cb_call_def cb_check_def on_failure_def on_success_def Let_def

lemma second_event_loses_error:
  "snd (retry_execute retry_config_default (\<lambda>_. Inl ''disk full'' :: string + unit) (\<lambda>_. (0, 0))
      (fst (retry_execute retry_config_default (\<lambda>_. Inl ''disk full'' :: string + unit) (\<lambda>_. (0, 0)) (cb_with_defaults ''storage'')))) =
    (RCircuitOpen, [100])"
  by (simp add: retry_default cb_eval word_le_nat_alt)

lemma open_breaker_letter:
  "fst (handle_retry_outcome json env RCircuitOpen ev t) = fst (tiered_write json env ev circuit_open_text 0 t)"
  by (simp add: handle_retry_outcome_def split: prod.split option.split)

section \<open>Witnesses\<close>

definition demo_line :: "line_outcome \<Rightarrow> dlq_env" where
  "demo_line out = \<lparr>de_now = 5, de_filename = ''dlq-1.jsonl'', de_open = True, de_line = out\<rparr>"

definition demo_letters :: "string dlq_command list" where
  "demo_letters = [LWrite (demo_line LineOk) ''a'' ''e1'' 1, LWrite (demo_line (LineCut 1)) ''b'' ''e2'' 2, LDrain (\<lambda>_. demo_line LineOk)]"

definition demo_letter_json :: "string dlq_record \<Rightarrow> string + string" where
  "demo_letter_json r = Inr (dr_event r)"

definition demo_queue :: "string tiered_dlq" where
  "demo_queue = tiered_new (dlq_new []) 10"

theorem dead_letters_conserved_witness:
  "fst (letters_of demo_letter_json demo_letters demo_queue) = {#(''a'', ''e1'', 1), (''b'', ''e2'', 2)#} \<and>
   map letter (snd (letters_of demo_letter_json demo_letters demo_queue)) = [(''a'', ''e1'', 1), (''b'', ''e2'', 2)] \<and>
   tq_secondary (fold (dlq_exec demo_letter_json) demo_letters demo_queue) = []"
proof -
  define t where "t = fold (dlq_exec demo_letter_json) demo_letters (tiered_new (dlq_new []) 10)"
  obtain acc st where ls: "letters_of demo_letter_json demo_letters (tiered_new (dlq_new []) 10) = (acc, st)" by force
  have "map letter (snd (letters_of demo_letter_json demo_letters (tiered_new (dlq_new []) 10))) = [(''a'', ''e1'', 1), (''b'', ''e2'', 2)]"
    "tq_secondary t = []"
    unfolding t_def by code_simp+
  moreover from this have "acc = {#(''a'', ''e1'', 1), (''b'', ''e2'', 2)#}"
    using dead_letters_conserved [OF ls t_def] ls by simp
  ultimately show ?thesis using ls by (simp add: demo_queue_def t_def)
qed

theorem retries_end_at_first_success_witness:
  "\<exists>k \<le> 3. attempts_failed (\<lambda>i. if i < 2 then Inl ''busy'' else Inr ()) (\<lambda>_. (0, 0)) (cb_with_defaults ''storage'') k \<and>
     outcome_sound retry_config_default (\<lambda>i. if i < 2 then Inl ''busy'' else Inr ()) (\<lambda>_. (0, 0)) (cb_with_defaults ''storage'') (RSuccess 2) k \<and>
     [100, 200] = doubled retry_config_default k"
proof -
  have "retry_execute retry_config_default (\<lambda>i. if i < 2 then Inl ''busy'' else Inr ()) (\<lambda>_. (0, 0)) (cb_with_defaults ''storage'') =
      (cb_with_defaults ''storage'', RSuccess 2, [100, 200])"
    by (simp add: retry_default cb_eval word_le_nat_alt)
  from retries_end_at_first_success [OF this] show ?thesis by (auto simp: retry_config_default_def)
qed

end
