(* ===== verification/AsyncWriter.thy ===== *)
theory AsyncWriter
  imports DeadLetters
begin

text \<open>
  Model of \<^verbatim>\<open>arcxa-coordinator/src/storage/async_writer.rs\<close>, the task that takes lineage events out of a channel, collects them
  into batches and writes each batch to the store, behind the circuit breaker and before the tiered dead letter queue. The
  store is a parameter, as in the code: the two operations of the trait \<^verbatim>\<open>AsyncLineageSink\<close> that the task calls, over a state of
  any type. The channel is given by what the task receives. The task of the queue that drains its buffer runs between the
  steps of this one. The materialization of stored events, a task of its own that changes nothing here, logging and metrics
  are not modelled. Arithmetic wraps around, as in a build without overflow checks.
\<close>

section \<open>The store\<close>

record ('s, 'ev) lineage_sink =
  ls_write :: "'ev \<Rightarrow> 's \<Rightarrow> 's \<times> (string + unit)"
  ls_write_batch :: "'ev list \<Rightarrow> 's \<Rightarrow> 's \<times> (string + unit)"

text \<open>The default of the trait for batches writes one event after the other.\<close>

fun default_write_batch :: "('ev \<Rightarrow> 's \<Rightarrow> 's \<times> (string + unit)) \<Rightarrow> 'ev list \<Rightarrow> 's \<Rightarrow> 's \<times> (string + unit)" where
  "default_write_batch wr [] s = (s, Inr ())"
| "default_write_batch wr (ev # evs) s =
     (case wr ev s of (s', Inl e) \<Rightarrow> (s', Inl e) | (s', Inr _) \<Rightarrow> default_write_batch wr evs s')"

section \<open>The task\<close>

record async_writer_config =
  ac_min_batch_size :: nat
  ac_max_batch_size :: nat
  ac_max_wait_ms :: u64
  ac_channel_buffer :: nat
  ac_enable_circuit_breaker :: bool

definition async_writer_config_default :: async_writer_config where
  "async_writer_config_default = \<lparr>ac_min_batch_size = 100, ac_max_batch_size = 1000, ac_max_wait_ms = 250,
     ac_channel_buffer = 10000, ac_enable_circuit_breaker = True\<rparr>"

record ('s, 'ev) async_writer =
  aw_store :: 's
  aw_dlq :: "'ev tiered_dlq"
  aw_breaker :: "circuit_breaker option"
  aw_batch :: "'ev list"
  aw_batch_start :: nat
  aw_total_written :: u64
  aw_total_failed :: u64

definition storage_breaker :: circuit_breaker where
  "storage_breaker = cb_new ''async_storage'' \<lparr>cb_failure_threshold = 5, cb_timeout = 30000, cb_success_threshold = 2\<rparr>"

definition async_writer_start :: "async_writer_config \<Rightarrow> 's \<Rightarrow> 'ev tiered_dlq \<Rightarrow> nat \<Rightarrow> ('s, 'ev) async_writer" where
  "async_writer_start cfg s t now =
     \<lparr>aw_store = s, aw_dlq = t, aw_breaker = (if ac_enable_circuit_breaker cfg then Some storage_breaker else None),
      aw_batch = [], aw_batch_start = now, aw_total_written = 0, aw_total_failed = 0\<rparr>"

text \<open>
  The attempts of one event. The attempt never exceeds the maximum, so that the counter does not wrap around. The result also
  holds the sleeps.
\<close>

function write_with_retries ::
  "('s, 'ev) lineage_sink \<Rightarrow> 'ev \<Rightarrow> nat \<Rightarrow> nat \<Rightarrow> u64 \<Rightarrow> u64 list \<Rightarrow> 's \<Rightarrow> 's \<times> (string + unit) \<times> u64 list" where
  "write_with_retries sk ev max_retries attempt delay_ms slept s =
     (case ls_write sk ev s of
        (s', Inr _) \<Rightarrow> (s', Inr (), slept)
      | (s', Inl e) \<Rightarrow>
          if attempt + 1 \<ge> max_retries then (s', Inl e, slept)
          else write_with_retries sk ev max_retries (attempt + 1) (delay_ms * 2) (slept @ [delay_ms]) s')"
  by pat_completeness auto
termination
  by (relation "measure (\<lambda>(_, _, m, a, _). m - a)") auto

declare write_with_retries.simps [simp del]

definition retry_write :: "('s, 'ev) lineage_sink \<Rightarrow> 'ev \<Rightarrow> u32 \<Rightarrow> 's \<Rightarrow> 's \<times> (string + unit) \<times> u64 list" where
  "retry_write sk ev max_retries s = write_with_retries sk ev (unat max_retries) 0 100 [] s"

definition breaker_open_text :: string where
  "breaker_open_text = ''Circuit breaker open''"

definition after_retries_text :: string where
  "after_retries_text = ''Write failed after retries: ''"

text \<open>Both loops that write to the queue log its errors and go on. Write \<open>i\<close> finds the environment \<open>envs i\<close>.\<close>

fun reject_events ::
  "('ev dlq_record \<Rightarrow> string + string) \<Rightarrow> (nat \<Rightarrow> dlq_env) \<Rightarrow> nat \<Rightarrow> 'ev list \<Rightarrow> 'ev tiered_dlq \<Rightarrow> 'ev tiered_dlq \<times> bool" where
  "reject_events json envs i [] t = (t, True)"
| "reject_events json envs i (ev # evs) t =
     (case tiered_write json (envs i) ev breaker_open_text 1 t of
        (t', None) \<Rightarrow> (t', False)
      | (t', Some _) \<Rightarrow> reject_events json envs (i + 1) evs t')"

fun write_each ::
  "('s, 'ev) lineage_sink \<Rightarrow> ('ev dlq_record \<Rightarrow> string + string) \<Rightarrow> (nat \<Rightarrow> dlq_env) \<Rightarrow> nat \<Rightarrow> 'ev list \<Rightarrow> u64 \<Rightarrow>
   's \<Rightarrow> 'ev tiered_dlq \<Rightarrow> 's \<times> 'ev tiered_dlq \<times> u64 option" where
  "write_each sk json envs i [] success_count s t = (s, t, Some success_count)"
| "write_each sk json envs i (ev # evs) success_count s t =
     (case retry_write sk ev 3 s of
        (s', Inr _, _) \<Rightarrow> write_each sk json envs (i + 1) evs (success_count + 1) s' t
      | (s', Inl e, _) \<Rightarrow>
          (case tiered_write json (envs i) ev (after_retries_text @ e) 3 t of
             (t', None) \<Rightarrow> (s', t', None)
           | (t', Some _) \<Rightarrow> write_each sk json envs (i + 1) evs success_count s' t'))"

text \<open>The times at which a failed batch is recorded and a flush is over, and the environments of its writes to the queue.\<close>

record flush_env =
  fe_failed_at :: nat
  fe_over :: nat
  fe_envs :: "nat \<Rightarrow> dlq_env"

definition flush_batch ::
  "('s, 'ev) lineage_sink \<Rightarrow> ('ev dlq_record \<Rightarrow> string + string) \<Rightarrow> flush_env \<Rightarrow> ('s, 'ev) async_writer \<Rightarrow>
   ('s, 'ev) async_writer \<times> u64 option" where
  "flush_batch sk json fe w =
     (if aw_batch w = [] then (w, Some 0)
      else if (case aw_breaker w of Some b \<Rightarrow> cb_is_open b | None \<Rightarrow> False) then
        (case reject_events json (fe_envs fe) 0 (aw_batch w) (aw_dlq w) of
           (t', ok) \<Rightarrow> (w\<lparr>aw_batch := [], aw_dlq := t'\<rparr>, if ok then Some 0 else None))
      else case ls_write_batch sk (aw_batch w) (aw_store w) of
        (s', Inr _) \<Rightarrow>
          (w\<lparr>aw_batch := [], aw_store := s', aw_breaker := map_option cb_record_success (aw_breaker w)\<rparr>,
           Some (of_nat (length (aw_batch w))))
      | (s', Inl _) \<Rightarrow>
          (case write_each sk json (fe_envs fe) 0 (aw_batch w) 0 s' (aw_dlq w) of
             (s'', t', r) \<Rightarrow>
               (w\<lparr>aw_batch := [], aw_store := s'', aw_dlq := t',
                  aw_breaker := map_option (cb_record_failure (fe_failed_at fe)) (aw_breaker w)\<rparr>, r)))"

datatype 'ev writer_event =
    Received 'ev nat flush_env
  | ChannelClosed flush_env
  | WaitElapsed nat flush_env
  | QueueDrain "nat \<Rightarrow> dlq_env"

datatype writer_status = WriterRunning | WriterFinished | WriterPanicked

definition batch_age_ms :: "nat \<Rightarrow> ('s, 'ev) async_writer \<Rightarrow> u64" where
  "batch_age_ms now w = of_nat (now - aw_batch_start w)"

definition should_flush :: "async_writer_config \<Rightarrow> nat \<Rightarrow> ('s, 'ev) async_writer \<Rightarrow> bool" where
  "should_flush cfg now w \<longleftrightarrow> length (aw_batch w) \<ge> ac_max_batch_size cfg \<or>
     length (aw_batch w) \<ge> ac_min_batch_size cfg \<and> batch_age_ms now w \<ge> ac_max_wait_ms cfg"

definition flush_and_count ::
  "('s, 'ev) lineage_sink \<Rightarrow> ('ev dlq_record \<Rightarrow> string + string) \<Rightarrow> flush_env \<Rightarrow> ('s, 'ev) async_writer \<Rightarrow>
   ('s, 'ev) async_writer \<times> writer_status" where
  "flush_and_count sk json fe w =
     (case flush_batch sk json fe w of
        (w', None) \<Rightarrow> (w', WriterPanicked)
      | (w', Some written) \<Rightarrow>
          (w'\<lparr>aw_total_written := aw_total_written w' + written,
              aw_total_failed := aw_total_failed w' + (of_nat (length (aw_batch w)) - written),
              aw_batch_start := fe_over fe\<rparr>, WriterRunning))"

text \<open>On the way out the length of the batch is taken after the flush has drained it.\<close>

definition flush_and_exit ::
  "('s, 'ev) lineage_sink \<Rightarrow> ('ev dlq_record \<Rightarrow> string + string) \<Rightarrow> flush_env \<Rightarrow> ('s, 'ev) async_writer \<Rightarrow>
   ('s, 'ev) async_writer \<times> writer_status" where
  "flush_and_exit sk json fe w =
     (if aw_batch w = [] then (w, WriterFinished)
      else case flush_batch sk json fe w of
        (w', None) \<Rightarrow> (w', WriterPanicked)
      | (w', Some written) \<Rightarrow>
          (w'\<lparr>aw_total_written := aw_total_written w' + written,
              aw_total_failed := aw_total_failed w' + (of_nat (length (aw_batch w')) - written)\<rparr>, WriterFinished))"

fun writer_step ::
  "async_writer_config \<Rightarrow> ('s, 'ev) lineage_sink \<Rightarrow> ('ev dlq_record \<Rightarrow> string + string) \<Rightarrow> 'ev writer_event \<Rightarrow>
   ('s, 'ev) async_writer \<Rightarrow> ('s, 'ev) async_writer \<times> writer_status" where
  "writer_step cfg sk json (Received ev now fe) w =
     (let w1 = w\<lparr>aw_batch := aw_batch w @ [ev]\<rparr>
      in if should_flush cfg now w1 then flush_and_count sk json fe w1 else (w1, WriterRunning))"
| "writer_step cfg sk json (ChannelClosed fe) w = flush_and_exit sk json fe w"
| "writer_step cfg sk json (WaitElapsed now fe) w =
     (if aw_batch w \<noteq> [] \<and> batch_age_ms now w \<ge> ac_max_wait_ms cfg then flush_and_count sk json fe w else (w, WriterRunning))"
| "writer_step cfg sk json (QueueDrain envs) w = (w\<lparr>aw_dlq := fst (drain_tick json envs (aw_dlq w))\<rparr>, WriterRunning)"

fun run_async_writer ::
  "async_writer_config \<Rightarrow> ('s, 'ev) lineage_sink \<Rightarrow> ('ev dlq_record \<Rightarrow> string + string) \<Rightarrow> 'ev writer_event list \<Rightarrow>
   ('s, 'ev) async_writer \<Rightarrow> ('s, 'ev) async_writer \<times> writer_status" where
  "run_async_writer cfg sk json [] w = (w, WriterRunning)"
| "run_async_writer cfg sk json (c # cs) w =
     (case writer_step cfg sk json c w of
        (w', WriterRunning) \<Rightarrow> run_async_writer cfg sk json cs w'
      | (w', status) \<Rightarrow> (w', status))"

section \<open>Every event is accounted for\<close>

subsection \<open>The store keeps what it confirms\<close>

text \<open>
  What the task relies on: a store never drops events, and has an event or a batch after it confirmed it. A failed operation
  may have stored events.
\<close>

definition sink_keeps :: "('s, 'ev) lineage_sink \<Rightarrow> ('s \<Rightarrow> 'ev set) \<Rightarrow> bool" where
  "sink_keeps sk stored \<longleftrightarrow>
     (\<forall>ev s s' r. ls_write sk ev s = (s', r) \<longrightarrow> stored s \<subseteq> stored s' \<and> (is_ok r \<longrightarrow> ev \<in> stored s')) \<and>
     (\<forall>evs s s' r. ls_write_batch sk evs s = (s', r) \<longrightarrow> stored s \<subseteq> stored s' \<and> (is_ok r \<longrightarrow> set evs \<subseteq> stored s'))"

lemma default_write_batch_keeps:
  assumes "\<And>ev s s' r. wr ev s = (s', r) \<Longrightarrow> stored s \<subseteq> stored s' \<and> (is_ok r \<longrightarrow> ev \<in> stored s')"
    and "default_write_batch wr evs s = (s', r)"
  shows "stored s \<subseteq> stored s' \<and> (is_ok r \<longrightarrow> set evs \<subseteq> stored s')"
  using assms(2)
proof (induction evs arbitrary: s)
  case (Cons ev evs)
  obtain s1 r1 where w: "wr ev s = (s1, r1)" by force
  note one = assms(1) [OF w]
  show ?case
  proof (cases r1)
    case (Inl e)
    then show ?thesis using Cons.prems w one by auto
  next
    case (Inr u)
    then show ?thesis using Cons.IH [of s1] Cons.prems w one by auto
  qed
qed simp

lemma write_with_retries_keeps:
  assumes "sink_keeps sk stored" "write_with_retries sk ev m a d sl s = (s', r, sl')"
  shows "stored s \<subseteq> stored s' \<and> (is_ok r \<longrightarrow> ev \<in> stored s')"
  using assms
proof (induction sk ev m a d sl s rule: write_with_retries.induct)
  case (1 sk ev m a d sl s)
  obtain s1 r1 where w: "ls_write sk ev s = (s1, r1)" by force
  have one: "stored s \<subseteq> stored s1" "is_ok r1 \<Longrightarrow> ev \<in> stored s1" using 1(2) w unfolding sink_keeps_def by blast+
  show ?case
  proof (cases r1)
    case (Inl e)
    show ?thesis
    proof (cases "m \<le> a + 1")
      case True
      then show ?thesis using 1(3) w one Inl by (simp add: write_with_retries.simps [of sk ev m a])
    next
      case False
      then have "write_with_retries sk ev m (a + 1) (d * 2) (sl @ [d]) s1 = (s', r, sl')"
        using 1(3) w Inl by (simp add: write_with_retries.simps [of sk ev m a])
      from 1(1) [OF w [symmetric] Inl False 1(2) this] show ?thesis using one by blast
    qed
  next
    case (Inr u)
    then show ?thesis using 1(3) w one by (simp add: write_with_retries.simps [of sk ev m a])
  qed
qed

lemma retry_write_keeps:
  "sink_keeps sk stored \<Longrightarrow> retry_write sk ev m s = (s', r, sl) \<Longrightarrow> stored s \<subseteq> stored s' \<and> (is_ok r \<longrightarrow> ev \<in> stored s')"
  unfolding retry_write_def by (rule write_with_retries_keeps)

text \<open>Three attempts, with sleeps of 100 and 200 milliseconds between them.\<close>

lemma retry_write_three:
  "retry_write sk ev 3 s =
     (case ls_write sk ev s of (s1, Inr _) \<Rightarrow> (s1, Inr (), []) | (s1, Inl _) \<Rightarrow>
      (case ls_write sk ev s1 of (s2, Inr _) \<Rightarrow> (s2, Inr (), [100]) | (s2, Inl _) \<Rightarrow>
       (case ls_write sk ev s2 of (s3, Inr _) \<Rightarrow> (s3, Inr (), [100, 200]) | (s3, Inl e) \<Rightarrow> (s3, Inl e, [100, 200]))))"
  by (simp add: retry_write_def write_with_retries.simps split: prod.split sum.split)

subsection \<open>The queue holds what it accepts\<close>

abbreviation poisoned :: "'ev tiered_dlq \<Rightarrow> bool" where
  "poisoned t \<equiv> dq_poisoned (tq_primary t)"

lemma dlq_write_poisons:
  "dlq_write json env ev err n d = (d', r) \<Longrightarrow> (r = None \<longrightarrow> dq_poisoned d') \<and> (dq_poisoned d \<longrightarrow> dq_poisoned d' \<and> r = None)"
  by (auto simp: dlq_write_def dlq_open_def append_text_def split: if_splits option.splits sum.splits line_outcome.splits)

lemma tiered_write_poisons:
  assumes "tiered_write json env ev err n t = (t', r)"
  shows "r = None \<Longrightarrow> poisoned t'" "poisoned t \<Longrightarrow> poisoned t' \<and> r = None"
  using assms dlq_write_poisons [of json env ev err n "tq_primary t"]
  by (auto simp: tiered_write_def split: prod.splits option.splits sum.splits if_splits)

lemma drain_loop_poisons:
  "drain_loop json envs k rs p = (p', rest, r) \<Longrightarrow>
     (r = None \<longrightarrow> dq_poisoned p') \<and> (dq_poisoned p \<longrightarrow> dq_poisoned p')"
proof (induction rs arbitrary: k p)
  case (Cons x rs)
  obtain q o1 where w: "dlq_write json (envs k) (dr_event x) (dr_error x) (dr_retry_count x) p = (q, o1)" by force
  show ?case
    using Cons.prems Cons.IH [of "k + 1" q] dlq_write_poisons [OF w] w by (auto split: option.splits sum.splits)
qed auto

lemma drain_tick_poisons:
  assumes "drain_tick json envs t = (t', r)"
  shows "r = None \<Longrightarrow> poisoned t'" "poisoned t \<Longrightarrow> poisoned t'"
  using assms drain_loop_poisons [of json envs 0 "tq_secondary t" "tq_primary t"]
  by (auto simp: drain_tick_def drain_secondary_def split: if_splits prod.splits)

text \<open>
  The events \<open>dead\<close> are, with their multiplicities, those of the letters on disk, each with its line, and in the buffer. The
  queue refused events only after it had accepted as many as its buffer can hold.
\<close>

definition queue_holds :: "('ev dlq_record \<Rightarrow> string + string) \<Rightarrow> 'ev tiered_dlq \<Rightarrow> 'ev multiset \<Rightarrow> 'ev multiset \<Rightarrow> bool" where
  "queue_holds json t dead refused \<longleftrightarrow>
     (\<exists>acc on_disk. letters_rel json (acc, on_disk) t \<and> dead = image_mset fst acc) \<and>
     (refused = {#} \<or> tq_memory_capacity t \<le> size dead)"

lemma queue_holds_write:
  assumes q: "queue_holds json t dead refused" and w: "tiered_write json env ev err n t = (t', Some r)"
  shows "queue_holds json t' (add_mset ev dead) refused \<or> queue_holds json t' dead (add_mset ev refused)"
proof -
  obtain acc on_disk where rel: "letters_rel json (acc, on_disk) t" and dead: "dead = image_mset fst acc"
    and full: "refused = {#} \<or> tq_memory_capacity t \<le> size dead"
    using q by (auto simp: queue_holds_def)
  have cap: "tq_memory_capacity t' = tq_memory_capacity t"
    using w by (auto simp: tiered_write_def split: prod.splits option.splits sum.splits if_splits)
  have no_panic: "dlq_no_panic json (LWrite env ev err n) t" using w by simp
  note step = write_letters_rel [OF rel no_panic]
  show ?thesis
  proof (cases r)
    case (Inl e)
    then have "tq_memory_capacity t \<le> length (tq_secondary t)"
      using w by (auto simp: tiered_write_def split: prod.splits option.splits sum.splits if_splits)
    then have "tq_memory_capacity t \<le> size dead" using rel unfolding dead by (simp add: letters_rel_def)
    then show ?thesis using step w Inl unfolding queue_holds_def dead by (auto simp: cap)
  next
    case (Inr u)
    then have "dlq_spec json (LWrite env ev err n) t (acc, on_disk) = (add_mset (ev, err, n) acc,
        if snd (dlq_write json env ev err n (tq_primary t)) = Some (Inr ()) then on_disk @ [dlq_record_of env ev err n] else on_disk)"
      using w by simp
    with step w have "\<exists>st. letters_rel json (add_mset (ev, err, n) acc, st) t'" by (metis dlq_exec.simps(1) fst_conv)
    then have "\<exists>acc' st. letters_rel json (acc', st) t' \<and> add_mset ev dead = image_mset fst acc'"
      unfolding dead by (metis fst_conv image_mset_add_mset)
    moreover have "refused = {#} \<or> tq_memory_capacity t' \<le> size (add_mset ev dead)" using full cap by auto
    ultimately show ?thesis unfolding queue_holds_def by blast
  qed
qed

lemma queue_holds_drain:
  assumes q: "queue_holds json t dead refused" and d: "drain_tick json envs t = (t', Some m)"
  shows "queue_holds json t' dead refused"
proof -
  obtain acc on_disk where rel: "letters_rel json (acc, on_disk) t" and dead: "dead = image_mset fst acc"
    using q by (auto simp: queue_holds_def)
  have cap: "tq_memory_capacity t' = tq_memory_capacity t"
    using d by (auto simp: drain_tick_def drain_secondary_def split: if_splits prod.splits)
  have "dlq_no_panic json (LDrain envs) t" using d by simp
  from drain_letters_rel [OF rel this] have "\<exists>st. letters_rel json (acc, st) t'" using d by auto
  then show ?thesis using q unfolding queue_holds_def dead cap by blast
qed

subsection \<open>A flush\<close>

lemma reject_events_holds:
  assumes "queue_holds json t dead refused" "reject_events json envs i evs t = (t', ok)" "\<not> poisoned t'"
  shows "ok \<and> (\<exists>d r. mset evs = d + r \<and> queue_holds json t' (dead + d) (refused + r))"
  using assms
proof (induction evs arbitrary: i t dead refused)
  case (Cons ev evs)
  obtain t1 r1 where w: "tiered_write json (envs i) ev breaker_open_text 1 t = (t1, r1)" by force
  then obtain r2 where r1: "r1 = Some r2" using Cons.prems(2,3) tiered_write_poisons(1) [OF w] by (cases r1) auto
  have rest: "reject_events json envs (i + 1) evs t1 = (t', ok)" using Cons.prems(2) w r1 by simp
  from queue_holds_write [OF Cons.prems(1) w [unfolded r1]] show ?case
  proof
    assume "queue_holds json t1 (add_mset ev dead) refused"
    from Cons.IH [OF this rest Cons.prems(3)] obtain d r where "ok" "mset evs = d + r" "queue_holds json t' (add_mset ev dead + d) (refused + r)"
      by blast
    then show ?thesis by (intro conjI exI [of _ "add_mset ev d"] exI [of _ r]) simp_all
  next
    assume "queue_holds json t1 dead (add_mset ev refused)"
    from Cons.IH [OF this rest Cons.prems(3)] obtain d r where "ok" "mset evs = d + r" "queue_holds json t' (dead + d) (add_mset ev refused + r)"
      by blast
    then show ?thesis by (intro conjI exI [of _ d] exI [of _ "add_mset ev r"]) simp_all
  qed
qed simp

definition each_outcome ::
  "('ev dlq_record \<Rightarrow> string + string) \<Rightarrow> ('s \<Rightarrow> 'ev set) \<Rightarrow> 'ev multiset \<Rightarrow> u64 \<Rightarrow> 's \<Rightarrow> 's \<Rightarrow> 'ev tiered_dlq \<Rightarrow> u64 option \<Rightarrow>
   'ev multiset \<Rightarrow> 'ev multiset \<Rightarrow> bool" where
  "each_outcome json stored evs n s s' t' res dead refused \<longleftrightarrow> stored s \<subseteq> stored s' \<and>
     (\<exists>k d r. evs = k + d + r \<and> set_mset k \<subseteq> stored s' \<and> queue_holds json t' (dead + d) (refused + r) \<and> res = Some (n + of_nat (size k)))"

lemma each_outcome_cons:
  assumes "stored s \<subseteq> stored s1"
  shows "each_outcome json stored evs (n + 1) s1 s' t' res dead refused \<Longrightarrow> ev \<in> stored s1 \<Longrightarrow> each_outcome json stored (add_mset ev evs) n s s' t' res dead refused"
    and "each_outcome json stored evs n s1 s' t' res (add_mset ev dead) refused \<Longrightarrow> each_outcome json stored (add_mset ev evs) n s s' t' res dead refused"
    and "each_outcome json stored evs n s1 s' t' res dead (add_mset ev refused) \<Longrightarrow> each_outcome json stored (add_mset ev evs) n s s' t' res dead refused"
proof -
  assume "each_outcome json stored evs (n + 1) s1 s' t' res dead refused" and ev: "ev \<in> stored s1"
  then obtain k d r where "stored s1 \<subseteq> stored s'" "evs = k + d + r" "set_mset k \<subseteq> stored s'" "queue_holds json t' (dead + d) (refused + r)"
    "res = Some (n + 1 + of_nat (size k))" by (auto simp: each_outcome_def)
  then show "each_outcome json stored (add_mset ev evs) n s s' t' res dead refused"
    using assms ev unfolding each_outcome_def by (intro conjI exI [of _ "add_mset ev k"] exI [of _ d] exI [of _ r]) auto
next
  assume "each_outcome json stored evs n s1 s' t' res (add_mset ev dead) refused"
  then obtain k d r where "stored s1 \<subseteq> stored s'" "evs = k + d + r" "set_mset k \<subseteq> stored s'" "queue_holds json t' (add_mset ev dead + d) (refused + r)"
    "res = Some (n + of_nat (size k))" by (auto simp: each_outcome_def)
  then show "each_outcome json stored (add_mset ev evs) n s s' t' res dead refused"
    using assms unfolding each_outcome_def by (intro conjI exI [of _ k] exI [of _ "add_mset ev d"] exI [of _ r]) auto
next
  assume "each_outcome json stored evs n s1 s' t' res dead (add_mset ev refused)"
  then obtain k d r where "stored s1 \<subseteq> stored s'" "evs = k + d + r" "set_mset k \<subseteq> stored s'" "queue_holds json t' (dead + d) (add_mset ev refused + r)"
    "res = Some (n + of_nat (size k))" by (auto simp: each_outcome_def)
  then show "each_outcome json stored (add_mset ev evs) n s s' t' res dead refused"
    using assms unfolding each_outcome_def by (intro conjI exI [of _ k] exI [of _ d] exI [of _ "add_mset ev r"]) auto
qed

lemma write_each_outcome:
  assumes sk: "sink_keeps sk stored"
  shows "queue_holds json t dead refused \<Longrightarrow> write_each sk json envs i evs n s t = (s', t', res) \<Longrightarrow> \<not> poisoned t' \<Longrightarrow>
    each_outcome json stored (mset evs) n s s' t' res dead refused"
proof (induction evs arbitrary: i n s t dead refused)
  case Nil
  then show ?case by (simp add: each_outcome_def)
next
  case (Cons ev evs)
  obtain s1 r1 sl where w: "retry_write sk ev 3 s = (s1, r1, sl)" by (metis prod_cases3)
  note keeps = retry_write_keeps [OF sk w]
  show ?case
  proof (cases r1)
    case (Inr u)
    then have "write_each sk json envs (i + 1) evs (n + 1) s1 t = (s', t', res)" using Cons.prems(2) w by simp
    from Cons.IH [OF Cons.prems(1) this Cons.prems(3)] show ?thesis
      using each_outcome_cons(1) [of stored s s1] keeps Inr by simp
  next
    case (Inl e)
    obtain t1 r2 where q: "tiered_write json (envs i) ev (after_retries_text @ e) 3 t = (t1, r2)" by force
    then obtain r3 where r2: "r2 = Some r3" using Cons.prems(2,3) tiered_write_poisons(1) [OF q] w Inl by (cases r2) auto
    have rest: "write_each sk json envs (i + 1) evs n s1 t1 = (s', t', res)" using Cons.prems(2) w Inl q r2 by simp
    from queue_holds_write [OF Cons.prems(1) q [unfolded r2]] show ?thesis
      using Cons.IH [OF _ rest Cons.prems(3)] each_outcome_cons(2,3) [of stored s s1] keeps by auto
  qed
qed

text \<open>
  The account of a task: the events it received are, with their multiplicities, those in the batch, those the store has
  confirmed, those in the dead letter queue, and those the queue refused.
\<close>

definition ledger ::
  "('ev dlq_record \<Rightarrow> string + string) \<Rightarrow> ('s \<Rightarrow> 'ev set) \<Rightarrow> 'ev list \<Rightarrow> ('s, 'ev) async_writer \<Rightarrow>
   'ev multiset \<Rightarrow> 'ev multiset \<Rightarrow> 'ev multiset \<Rightarrow> bool" where
  "ledger json stored received w confirmed dead refused \<longleftrightarrow>
     mset received = mset (aw_batch w) + confirmed + dead + refused \<and> set_mset confirmed \<subseteq> stored (aw_store w) \<and>
     queue_holds json (aw_dlq w) dead refused"

lemma flush_batch_ledger:
  assumes sk: "sink_keeps sk stored" and l: "ledger json stored received w confirmed dead refused"
    and f: "flush_batch sk json fe w = (w', res)" "\<not> poisoned (aw_dlq w')"
  shows "\<exists>k d r. res = Some (of_nat (size k)) \<and> mset (aw_batch w) = k + d + r \<and> ledger json stored received w' (confirmed + k) (dead + d) (refused + r)"
proof -
  have q: "queue_holds json (aw_dlq w) dead refused" and m: "mset received = mset (aw_batch w) + confirmed + dead + refused"
    and st: "set_mset confirmed \<subseteq> stored (aw_store w)" using l by (auto simp: ledger_def)
  consider "aw_batch w = []" | "aw_batch w \<noteq> []" "case aw_breaker w of Some b \<Rightarrow> cb_is_open b | None \<Rightarrow> False"
    | "aw_batch w \<noteq> []" "\<not> (case aw_breaker w of Some b \<Rightarrow> cb_is_open b | None \<Rightarrow> False)" by blast
  then show ?thesis
  proof cases
    case 1
    then show ?thesis using f l by (auto simp: flush_batch_def)
  next
    case 2
    obtain t' ok where e: "reject_events json (fe_envs fe) 0 (aw_batch w) (aw_dlq w) = (t', ok)" by force
    have w': "w' = w\<lparr>aw_batch := [], aw_dlq := t'\<rparr>" "res = (if ok then Some 0 else None)" using f(1) 2 e by (auto simp: flush_batch_def)
    then have "\<not> poisoned t'" using f(2) by simp
    from reject_events_holds [OF q e this] obtain d r where "ok" "mset (aw_batch w) = d + r" "queue_holds json t' (dead + d) (refused + r)"
      by blast
    then show ?thesis using m st w' by (intro exI [of _ "{#}"] exI [of _ d] exI [of _ r]) (simp add: ledger_def)
  next
    case 3
    obtain s1 r1 where b: "ls_write_batch sk (aw_batch w) (aw_store w) = (s1, r1)" by force
    have keeps: "stored (aw_store w) \<subseteq> stored s1" "is_ok r1 \<Longrightarrow> set (aw_batch w) \<subseteq> stored s1"
      using sk b unfolding sink_keeps_def by blast+
    show ?thesis
    proof (cases r1)
      case (Inr u)
      then have w': "aw_batch w' = []" "aw_store w' = s1" "aw_dlq w' = aw_dlq w" "res = Some (of_nat (length (aw_batch w)))"
        using f(1) 3 b by (auto simp: flush_batch_def)
      then show ?thesis using m st q keeps Inr
        by (intro exI [of _ "mset (aw_batch w)"] exI [of _ "{#}"]) (auto simp: ledger_def)
    next
      case (Inl e)
      obtain s2 t' r2 where e: "write_each sk json (fe_envs fe) 0 (aw_batch w) 0 s1 (aw_dlq w) = (s2, t', r2)" by (metis prod_cases3)
      have w': "aw_batch w' = []" "aw_store w' = s2" "aw_dlq w' = t'" "res = r2"
        using f(1) 3 b Inl e by (auto simp: flush_batch_def)
      from write_each_outcome [OF sk q e] f(2) have "each_outcome json stored (mset (aw_batch w)) 0 s1 s2 t' r2 dead refused"
        unfolding w' by blast
      then obtain k d r where "stored s1 \<subseteq> stored s2" "mset (aw_batch w) = k + d + r" "set_mset k \<subseteq> stored s2"
        "queue_holds json t' (dead + d) (refused + r)" "r2 = Some (of_nat (size k))" by (auto simp: each_outcome_def)
      then show ?thesis using m st keeps(1) w' by (intro exI [of _ k] exI [of _ d] exI [of _ r]) (auto simp: ledger_def)
    qed
  qed
qed

lemma flush_batch_rest:
  "flush_batch sk json fe w = (w', res) \<Longrightarrow>
     aw_batch w' = [] \<and> aw_total_written w' = aw_total_written w \<and> aw_total_failed w' = aw_total_failed w"
  by (auto simp: flush_batch_def split: if_splits prod.splits sum.splits)

subsection \<open>The task\<close>

definition balanced :: "('ev dlq_record \<Rightarrow> string + string) \<Rightarrow> ('s \<Rightarrow> 'ev set) \<Rightarrow> 'ev list \<Rightarrow> ('s, 'ev) async_writer \<Rightarrow> bool" where
  "balanced json stored received w \<longleftrightarrow> (\<exists>confirmed dead refused. ledger json stored received w confirmed dead refused \<and>
     aw_total_written w = of_nat (size confirmed) \<and> aw_total_failed w = of_nat (size dead + size refused))"

lemma flush_and_count_balanced:
  assumes sk: "sink_keeps sk stored" and b: "balanced json stored received w"
    and f: "flush_and_count sk json fe w = (w', status)" "\<not> poisoned (aw_dlq w')"
  shows "status = WriterRunning \<and> aw_batch w' = [] \<and> balanced json stored received w'"
proof -
  obtain confirmed dead refused where l: "ledger json stored received w confirmed dead refused"
    and n: "aw_total_written w = of_nat (size confirmed)" "aw_total_failed w = of_nat (size dead + size refused)"
    using b by (auto simp: balanced_def)
  obtain w1 res where fb: "flush_batch sk json fe w = (w1, res)" by force
  have "aw_dlq w' = aw_dlq w1" using f(1) fb by (auto simp: flush_and_count_def split: option.splits)
  with flush_batch_ledger [OF sk l fb] f(2) obtain k d r where res: "res = Some (of_nat (size k))" and m: "mset (aw_batch w) = k + d + r"
    and l1: "ledger json stored received w1 (confirmed + k) (dead + d) (refused + r)" by auto
  have "length (aw_batch w) = size k + size d + size r" using m by (metis size_mset size_union)
  with flush_batch_rest [OF fb] f(1) fb res n have "status = WriterRunning" "aw_batch w' = []" "aw_dlq w' = aw_dlq w1" "aw_store w' = aw_store w1"
    "aw_total_written w' = of_nat (size (confirmed + k))" "aw_total_failed w' = of_nat (size (dead + d) + size (refused + r))"
    by (auto simp: flush_and_count_def)
  moreover have "ledger json stored received w' (confirmed + k) (dead + d) (refused + r)"
    using l1 calculation flush_batch_rest [OF fb] by (simp add: ledger_def)
  ultimately show ?thesis unfolding balanced_def by blast
qed

lemma flush_and_exit_ledger:
  assumes sk: "sink_keeps sk stored" and b: "balanced json stored received w"
    and f: "flush_and_exit sk json fe w = (w', status)" "\<not> poisoned (aw_dlq w')"
  shows "status = WriterFinished \<and> aw_batch w' = [] \<and> (\<exists>confirmed dead refused. ledger json stored received w' confirmed dead refused \<and>
    aw_total_written w' = of_nat (size confirmed))"
proof (cases "aw_batch w = []")
  case True
  then show ?thesis using f b by (auto simp: flush_and_exit_def balanced_def)
next
  case False
  obtain confirmed dead refused where l: "ledger json stored received w confirmed dead refused"
    and n: "aw_total_written w = of_nat (size confirmed)" using b by (auto simp: balanced_def)
  obtain w1 res where fb: "flush_batch sk json fe w = (w1, res)" by force
  have "aw_dlq w' = aw_dlq w1" using f(1) fb False by (auto simp: flush_and_exit_def split: option.splits)
  with flush_batch_ledger [OF sk l fb] f(2) obtain k d r where res: "res = Some (of_nat (size k))"
    and l1: "ledger json stored received w1 (confirmed + k) (dead + d) (refused + r)" by auto
  have "status = WriterFinished" "aw_batch w' = []" "aw_dlq w' = aw_dlq w1" "aw_store w' = aw_store w1"
    "aw_total_written w' = of_nat (size (confirmed + k))"
    using flush_batch_rest [OF fb] f(1) fb res n False by (auto simp: flush_and_exit_def)
  moreover have "ledger json stored received w' (confirmed + k) (dead + d) (refused + r)"
    using l1 calculation flush_batch_rest [OF fb] by (simp add: ledger_def)
  ultimately show ?thesis by blast
qed

text \<open>A lock that is poisoned stays poisoned.\<close>

lemma reject_events_poisoned: "reject_events json envs i evs t = (t', ok) \<Longrightarrow> poisoned t \<Longrightarrow> poisoned t'"
  by (induction evs arbitrary: i t) (auto split: prod.splits option.splits dest: tiered_write_poisons)

lemma write_each_poisoned: "write_each sk json envs i evs n s t = (s', t', res) \<Longrightarrow> poisoned t \<Longrightarrow> poisoned t'"
  by (induction evs arbitrary: i n s t) (fastforce split: prod.splits option.splits sum.splits dest: tiered_write_poisons)+

lemma flush_batch_poisoned: "flush_batch sk json fe w = (w', res) \<Longrightarrow> poisoned (aw_dlq w) \<Longrightarrow> poisoned (aw_dlq w')"
  by (auto simp: flush_batch_def split: if_splits prod.splits sum.splits dest: reject_events_poisoned write_each_poisoned)

lemma writer_step_poisoned:
  assumes "writer_step cfg sk json c w = (w', status)" "poisoned (aw_dlq w)"
  shows "poisoned (aw_dlq w')"
proof (cases c)
  case (QueueDrain envs)
  then show ?thesis using assms drain_tick_poisons(2) [of json envs "aw_dlq w"] by (cases "drain_tick json envs (aw_dlq w)") auto
qed (use assms in \<open>auto simp: flush_and_count_def flush_and_exit_def Let_def split: if_splits prod.splits option.splits
       dest: flush_batch_poisoned\<close>)

lemma run_poisoned: "run_async_writer cfg sk json cs w = (w', status) \<Longrightarrow> poisoned (aw_dlq w) \<Longrightarrow> poisoned (aw_dlq w')"
  by (induction cs arbitrary: w) (auto split: prod.splits writer_status.splits dest: writer_step_poisoned)

text \<open>What the task receives before the channel is closed.\<close>

fun received_event :: "'ev writer_event \<Rightarrow> 'ev list" where
  "received_event (Received ev _ _) = [ev]"
| "received_event _ = []"

fun received_events :: "'ev writer_event list \<Rightarrow> 'ev list" where
  "received_events [] = []"
| "received_events (ChannelClosed _ # cs) = []"
| "received_events (c # cs) = received_event c @ received_events cs"

lemma balanced_push: "balanced json stored received w \<Longrightarrow> balanced json stored (received @ [ev]) (w\<lparr>aw_batch := aw_batch w @ [ev]\<rparr>)"
  by (fastforce simp: balanced_def ledger_def)

lemma balanced_drain:
  assumes "balanced json stored received w" "drain_tick json envs (aw_dlq w) = (t', Some m)"
  shows "balanced json stored received (w\<lparr>aw_dlq := t'\<rparr>)"
proof -
  obtain confirmed dead refused where "ledger json stored received w confirmed dead refused"
    "aw_total_written w = of_nat (size confirmed)" "aw_total_failed w = of_nat (size dead + size refused)"
    using assms(1) by (auto simp: balanced_def)
  then show ?thesis using queue_holds_drain [OF _ assms(2)] unfolding balanced_def
    by (intro exI [of _ confirmed] exI [of _ dead] exI [of _ refused]) (simp add: ledger_def)
qed

definition batch_bounded :: "async_writer_config \<Rightarrow> ('s, 'ev) async_writer \<Rightarrow> bool" where
  "batch_bounded cfg w \<longleftrightarrow> length (aw_batch w) < max 1 (ac_max_batch_size cfg)"

lemma writer_step_balanced:
  assumes sk: "sink_keeps sk stored" and b: "balanced json stored received w" "batch_bounded cfg w"
    and st: "writer_step cfg sk json c w = (w', status)" "\<not> poisoned (aw_dlq w')" and open_ch: "\<And>fe. c \<noteq> ChannelClosed fe"
  shows "status = WriterRunning \<and> balanced json stored (received @ received_event c) w' \<and> batch_bounded cfg w'"
proof (cases c)
  case (Received ev now fe)
  let ?w1 = "w\<lparr>aw_batch := aw_batch w @ [ev]\<rparr>"
  have b1: "balanced json stored (received @ [ev]) ?w1" by (rule balanced_push [OF b(1)])
  show ?thesis
  proof (cases "should_flush cfg now ?w1")
    case True
    then have "flush_and_count sk json fe ?w1 = (w', status)" using st Received by simp
    from flush_and_count_balanced [OF sk b1 this st(2)] show ?thesis using Received by (simp add: batch_bounded_def)
  next
    case False
    then have "w' = ?w1" "status = WriterRunning" using st Received by simp_all
    moreover have "batch_bounded cfg ?w1" using False by (simp add: batch_bounded_def should_flush_def)
    ultimately show ?thesis using b1 Received by simp
  qed
next
  case (WaitElapsed now fe)
  then show ?thesis using st b flush_and_count_balanced [OF sk b(1), of fe w' status]
    by (auto simp: batch_bounded_def split: if_splits)
next
  case (QueueDrain envs)
  obtain t' r where d: "drain_tick json envs (aw_dlq w) = (t', r)" by force
  have w': "w' = w\<lparr>aw_dlq := t'\<rparr>" "status = WriterRunning" using st QueueDrain d by auto
  then obtain m where "r = Some m" using st(2) drain_tick_poisons(1) [OF d] by (cases r) auto
  with d have "balanced json stored received w'" unfolding w' by (intro balanced_drain [OF b(1)]) simp
  then show ?thesis using w' b(2) QueueDrain by (simp add: batch_bounded_def)
qed (use open_ch in simp)

lemma run_balanced:
  assumes sk: "sink_keeps sk stored"
  shows "balanced json stored received w \<Longrightarrow> batch_bounded cfg w \<Longrightarrow> run_async_writer cfg sk json cs w = (w', status) \<Longrightarrow> \<not> poisoned (aw_dlq w') \<Longrightarrow>
    status = WriterRunning \<and> balanced json stored (received @ received_events cs) w' \<and> batch_bounded cfg w' \<or>
    status = WriterFinished \<and> aw_batch w' = [] \<and> (\<exists>confirmed dead refused. ledger json stored (received @ received_events cs) w' confirmed dead refused \<and>
      aw_total_written w' = of_nat (size confirmed))"
proof (induction cs arbitrary: w received)
  case (Cons c cs)
  obtain w1 s1 where step: "writer_step cfg sk json c w = (w1, s1)" by force
  have np: "\<not> poisoned (aw_dlq w1)" using Cons.prems(3,4) step by (cases s1) (auto dest: run_poisoned)
  show ?case
  proof (cases "\<exists>fe. c = ChannelClosed fe")
    case True
    then obtain fe where c: "c = ChannelClosed fe" by blast
    then have f: "flush_and_exit sk json fe w = (w1, s1)" using step by simp
    from flush_and_exit_ledger [OF sk Cons.prems(1) f np] show ?thesis using Cons.prems(3) step c by auto
  next
    case False
    with writer_step_balanced [OF sk Cons.prems(1,2) step np] have s1: "s1 = WriterRunning"
      "balanced json stored (received @ received_event c) w1" "batch_bounded cfg w1" by blast+
    moreover have "received_events (c # cs) = received_event c @ received_events cs" using False by (cases c) auto
    ultimately show ?thesis
      using Cons.IH [OF s1(2,3) _ Cons.prems(4)] Cons.prems(3) step by simp
  qed
qed simp

section \<open>The breaker that stays open\<close>

text \<open>The task asks only whether the breaker is open. The time after which a call would be let through again plays no role.\<close>

lemma flush_batch_open:
  assumes "aw_breaker w = Some b" "cb_is_open b" "flush_batch sk json fe w = (w', res)"
  shows "aw_store w' = aw_store w \<and> aw_breaker w' = Some b \<and> aw_total_written w' = aw_total_written w \<and> (res = None \<or> res = Some 0)"
  using assms by (auto simp: flush_batch_def split: if_splits prod.splits)

definition frozen :: "circuit_breaker \<Rightarrow> ('s, 'ev) async_writer \<Rightarrow> ('s, 'ev) async_writer \<Rightarrow> bool" where
  "frozen b w w' \<longleftrightarrow> aw_store w' = aw_store w \<and> aw_breaker w' = Some b \<and> aw_total_written w' = aw_total_written w"

lemma flush_open:
  assumes "aw_breaker w = Some b" "cb_is_open b"
  shows "frozen b w (fst (flush_and_count sk json fe w))" "frozen b w (fst (flush_and_exit sk json fe w))"
proof -
  obtain w1 res where f: "flush_batch sk json fe w = (w1, res)" by force
  note same = flush_batch_open [OF assms f]
  show "frozen b w (fst (flush_and_count sk json fe w))" using same by (cases res) (auto simp: flush_and_count_def f frozen_def)
  show "frozen b w (fst (flush_and_exit sk json fe w))" using same assms(1) by (cases res) (auto simp: flush_and_exit_def f frozen_def)
qed

lemma writer_step_open:
  assumes "aw_breaker w = Some b" "cb_is_open b"
  shows "frozen b w (fst (writer_step cfg sk json c w))"
proof (cases c)
  case (Received ev now fe)
  let ?w1 = "w\<lparr>aw_batch := aw_batch w @ [ev]\<rparr>"
  have "frozen b ?w1 (fst (flush_and_count sk json fe ?w1))" using assms by (intro flush_open) simp_all
  then show ?thesis using Received assms(1) by (auto simp: frozen_def Let_def)
next
  case (WaitElapsed now fe)
  then show ?thesis using flush_open(1) [OF assms, of sk json fe] assms(1) by (auto simp: frozen_def)
next
  case (ChannelClosed fe)
  then show ?thesis using flush_open(2) [OF assms, of sk json fe] by simp
next
  case (QueueDrain envs)
  then show ?thesis using assms(1) by (simp add: frozen_def)
qed

lemma run_open:
  assumes "aw_breaker w = Some b" "cb_is_open b" "run_async_writer cfg sk json cs w = (w', status)"
  shows "frozen b w w'"
  using assms
proof (induction cs arbitrary: w)
  case Nil
  then show ?case by (simp add: frozen_def)
next
  case (Cons c cs)
  obtain w1 s1 where step: "writer_step cfg sk json c w = (w1, s1)" by force
  have one: "frozen b w w1" using writer_step_open [OF Cons.prems(1,2), of cfg sk json c] step by simp
  show ?case
  proof (cases s1)
    case WriterRunning
    then have "frozen b w1 w'" using Cons.IH [of w1] Cons.prems one step by (simp add: frozen_def)
    then show ?thesis using one by (simp add: frozen_def)
  qed (use Cons.prems(3) step one in simp_all)
qed

text \<open>The flushes of a run.\<close>

fun flushes :: "async_writer_config \<Rightarrow> 'ev writer_event \<Rightarrow> ('s, 'ev) async_writer \<Rightarrow> bool" where
  "flushes cfg (Received ev now fe) w \<longleftrightarrow> should_flush cfg now (w\<lparr>aw_batch := aw_batch w @ [ev]\<rparr>)"
| "flushes cfg (WaitElapsed now fe) w \<longleftrightarrow> aw_batch w \<noteq> [] \<and> batch_age_ms now w \<ge> ac_max_wait_ms cfg"
| "flushes cfg _ w \<longleftrightarrow> False"

fun flush_count ::
  "async_writer_config \<Rightarrow> ('s, 'ev) lineage_sink \<Rightarrow> ('ev dlq_record \<Rightarrow> string + string) \<Rightarrow> 'ev writer_event list \<Rightarrow> ('s, 'ev) async_writer \<Rightarrow> nat" where
  "flush_count cfg sk json [] w = 0"
| "flush_count cfg sk json (c # cs) w =
     (if flushes cfg c w then 1 else 0) + flush_count cfg sk json cs (fst (writer_step cfg sk json c w))"

definition batches_fail :: "('s, 'ev) lineage_sink \<Rightarrow> bool" where
  "batches_fail sk \<longleftrightarrow> (\<forall>evs s. \<not> is_ok (snd (ls_write_batch sk evs s)))"

lemma failing_flush:
  assumes "batches_fail sk" "aw_batch w \<noteq> []" "aw_breaker w = Some b"
  shows "aw_breaker (fst (flush_batch sk json fe w)) = Some (on_failure (fe_failed_at fe) b)"
proof -
  obtain s1 r1 where b: "ls_write_batch sk (aw_batch w) (aw_store w) = (s1, r1)" by force
  moreover have "\<not> is_ok r1" using assms(1) b unfolding batches_fail_def by (metis snd_conv)
  ultimately obtain e where "ls_write_batch sk (aw_batch w) (aw_store w) = (s1, Inl e)" by (cases r1) auto
  then show ?thesis using assms(2,3)
    by (cases "cb_st b") (auto simp: flush_batch_def cb_is_open_def cb_record_failure_def on_failure_def split: prod.splits)
qed

lemma failing_count:
  assumes "batches_fail sk" "aw_batch w \<noteq> []" "aw_breaker w = Some b"
  shows "\<exists>t. aw_breaker (fst (flush_and_count sk json fe w)) = Some (on_failure t b)"
  using failing_flush [OF assms, of json fe] by (auto simp: flush_and_count_def split: prod.splits option.splits)

lemma failing_step:
  assumes "batches_fail sk" "aw_breaker w = Some b" "\<And>fe. c \<noteq> ChannelClosed fe"
  shows "\<exists>ts. length ts = (if flushes cfg c w then 1 else 0) \<and> aw_breaker (fst (writer_step cfg sk json c w)) = Some (fold on_failure ts b)"
proof (cases "flushes cfg c w")
  case True
  then obtain w1 fe where "writer_step cfg sk json c w = flush_and_count sk json fe w1" "aw_batch w1 \<noteq> []" "aw_breaker w1 = Some b"
    using assms(2) by (cases c) (auto simp: Let_def)
  with failing_count [OF assms(1)] obtain t where "aw_breaker (fst (writer_step cfg sk json c w)) = Some (on_failure t b)" by metis
  then show ?thesis using True by (intro exI [of _ "[t]"]) simp
next
  case False
  then show ?thesis using assms(2,3) by (cases c) (auto simp: Let_def)
qed

lemma failing_run:
  assumes "batches_fail sk"
  shows "aw_breaker w = Some b \<Longrightarrow> run_async_writer cfg sk json cs w = (w', WriterRunning) \<Longrightarrow>
    \<exists>ts. length ts = flush_count cfg sk json cs w \<and> aw_breaker w' = Some (fold on_failure ts b)"
proof (induction cs arbitrary: w b)
  case (Cons c cs)
  obtain w1 s1 where step: "writer_step cfg sk json c w = (w1, s1)" by force
  then have s1: "s1 = WriterRunning" and rest: "run_async_writer cfg sk json cs w1 = (w', WriterRunning)"
    using Cons.prems(2) by (cases s1; simp)+
  have "c \<noteq> ChannelClosed fe" for fe using step s1 by (auto simp: flush_and_exit_def split: if_splits prod.splits option.splits)
  from failing_step [OF assms Cons.prems(1) this, of cfg json] step obtain ts where
    ts: "length ts = (if flushes cfg c w then 1 else 0)" "aw_breaker w1 = Some (fold on_failure ts b)" by auto
  from Cons.IH [OF ts(2) rest] obtain us where "length us = flush_count cfg sk json cs w1" "aw_breaker w' = Some (fold on_failure us (fold on_failure ts b))"
    by blast
  then show ?case using ts(1) step by (intro exI [of _ "ts @ us"]) simp
qed simp

lemma storage_breaker_opens:
  assumes "5 \<le> length ts"
  shows "cb_is_open (fold on_failure ts storage_breaker)"
proof -
  have v: "cb_view storage_breaker = VClosed 0" and i: "cb_inv storage_breaker"
    and thr: "unat (cb_failure_threshold (cb_cfg storage_breaker)) = 5"
    by (simp_all add: storage_breaker_def cb_inv_new, simp_all add: cb_view_def cb_new_def)
  have "cb_view (fold on_failure ts storage_breaker) = VOpen (ts ! 4)"
    using cb.fail_run [OF i v] thr assms by simp
  then show ?thesis by (cases "cb_st (fold on_failure ts storage_breaker)") (simp_all add: cb_view_def cb_is_open_def)
qed

section \<open>Properties\<close>

definition new_writer :: "async_writer_config \<Rightarrow> 's \<Rightarrow> (string, string) hmap \<Rightarrow> nat \<Rightarrow> nat \<Rightarrow> ('s, 'ev) async_writer" where
  "new_writer cfg s files capacity now = async_writer_start cfg s (tiered_new (dlq_new files) capacity) now"

lemma new_writer_balanced: "balanced json stored [] (new_writer cfg s files capacity now)" "batch_bounded cfg (new_writer cfg s files capacity now)"
proof -
  let ?t = "tiered_new (dlq_new files) capacity"
  have "letters_rel json ({#}, []) ?t" by (simp add: letters_rel_def tiered_new_def holds_lines_def)
  then have "queue_holds json ?t {#} {#}" by (auto simp: queue_holds_def)
  then show "balanced json stored [] (new_writer cfg s files capacity now)"
    unfolding balanced_def by (intro exI [of _ "{#}"]) (simp add: ledger_def new_writer_def async_writer_start_def)
qed (simp add: batch_bounded_def new_writer_def async_writer_start_def)

text \<open>
  C33. The writer accounts for every event. Let a store keep what it confirms, and start the writer on it with an empty dead
  letter queue. Whatever the writer receives, at whatever times, however the store and the queue fail, and whenever the buffer of the
  queue is drained in between: unless the file of the queue could not be opened, the writer has not panicked, and the events it
  received are, with their multiplicities, those in its batch, those the store confirmed and has, those in the dead letter
  queue, and those the queue refused, which happens only after it has accepted as many as its buffer holds. It
  counted the confirmed ones as written, and before the shutdown the dead and refused ones as failed, as far as 64 bits can tell; the batch is below its
  maximal size; and after the shutdown it is empty.
\<close>

theorem writer_accounts_for_every_event:
  assumes "sink_keeps sk stored"
    and "run_async_writer cfg sk json cs (new_writer cfg s files capacity now) = (w, status)"
    and "\<not> poisoned (aw_dlq w)"
  shows "status \<noteq> WriterPanicked \<and> length (aw_batch w) < max 1 (ac_max_batch_size cfg) \<and> (status = WriterFinished \<longrightarrow> aw_batch w = []) \<and>
    (\<exists>confirmed dead refused. ledger json stored (received_events cs) w confirmed dead refused \<and>
       aw_total_written w = of_nat (size confirmed) \<and>
       (status = WriterRunning \<longrightarrow> aw_total_failed w = of_nat (size dead + size refused)))"
  using run_balanced [OF assms(1) new_writer_balanced assms(2,3)]
  by (auto simp: balanced_def batch_bounded_def)

text \<open>
  An outage ends the storage of events for good. When the breaker is enabled and the batches of five flushes have failed,
  nothing is written to the store any more, whatever the writer receives and however much time passes, also when the store
  works again: the store and the count of written events stay as they are.
\<close>

lemma outage_ends_storage:
  assumes "ac_enable_circuit_breaker cfg" and "batches_fail sk"
    and "run_async_writer cfg sk json cs (new_writer cfg s files capacity now) = (w, WriterRunning)"
    and "5 \<le> flush_count cfg sk json cs (new_writer cfg s files capacity now)"
    and "run_async_writer cfg recovered json later w = (w', status)"
  shows "aw_store w' = aw_store w \<and> aw_total_written w' = aw_total_written w"
proof -
  have "aw_breaker (new_writer cfg s files capacity now) = Some storage_breaker"
    using assms(1) by (simp add: new_writer_def async_writer_start_def)
  from failing_run [OF assms(2) this assms(3)] obtain ts where
    ts: "length ts = flush_count cfg sk json cs (new_writer cfg s files capacity now)" "aw_breaker w = Some (fold on_failure ts storage_breaker)"
    by blast
  have "cb_is_open (fold on_failure ts storage_breaker)" using storage_breaker_opens ts(1) assms(4) by simp
  from run_open [OF ts(2) this assms(5)] show ?thesis by (simp add: frozen_def)
qed

text \<open>At the shutdown the failures are counted as the negative of the events written last: after a success the count wraps around.\<close>

lemma shutdown_count_wraps:
  assumes "aw_batch w \<noteq> []" "\<not> (case aw_breaker w of Some b \<Rightarrow> cb_is_open b | None \<Rightarrow> False)"
    and "ls_write_batch sk (aw_batch w) (aw_store w) = (s', Inr ())"
  shows "aw_total_failed (fst (flush_and_exit sk json fe w)) = aw_total_failed w - of_nat (length (aw_batch w))"
  using assms by (simp add: flush_and_exit_def flush_batch_def)

text \<open>
  The age of a batch plays no role while it is below its minimal size and events keep arriving: they all wait, whatever the
  times of their arrival.
\<close>

lemma few_events_wait:
  assumes "length (aw_batch w) + length evs < ac_min_batch_size cfg" "length (aw_batch w) + length evs < ac_max_batch_size cfg"
  shows "run_async_writer cfg sk json (map (\<lambda>(ev, now, fe). Received ev now fe) evs) w = (w\<lparr>aw_batch := aw_batch w @ map fst evs\<rparr>, WriterRunning)"
  using assms
proof (induction evs arbitrary: w)
  case (Cons x evs)
  obtain ev now fe where x: "x = (ev, now, fe)" by (metis prod_cases3)
  have "\<not> should_flush cfg now (w\<lparr>aw_batch := aw_batch w @ [ev]\<rparr>)" using Cons.prems by (simp add: should_flush_def)
  then show ?case using Cons.IH [of "w\<lparr>aw_batch := aw_batch w @ [ev]\<rparr>"] Cons.prems x by simp
qed simp

section \<open>Witnesses\<close>

definition demo_write :: "string \<Rightarrow> string list \<Rightarrow> string list \<times> (string + unit)" where
  "demo_write ev s = (s @ [ev], Inr ())"

definition demo_event_sink :: "(string list, string) lineage_sink" where
  "demo_event_sink = \<lparr>ls_write = demo_write, ls_write_batch = default_write_batch demo_write\<rparr>"

definition demo_broken_sink :: "(string list, string) lineage_sink" where
  "demo_broken_sink = \<lparr>ls_write = (\<lambda>ev s. (s, Inl ''down'')), ls_write_batch = (\<lambda>evs s. (s, Inl ''down''))\<rparr>"

definition demo_flush :: flush_env where
  "demo_flush = \<lparr>fe_failed_at = 7, fe_over = 8, fe_envs = (\<lambda>_. demo_line LineOk)\<rparr>"

definition demo_writer_config :: async_writer_config where
  "demo_writer_config = async_writer_config_default\<lparr>ac_min_batch_size := 1, ac_max_batch_size := 1\<rparr>"

definition demo_arrivals :: "string writer_event list" where
  "demo_arrivals = [Received ''a'' 1 demo_flush, Received ''b'' 2 demo_flush]"

definition demo_outage :: "string writer_event list" where
  "demo_outage = (let c = Received ''x'' 1 demo_flush in [c, c, c, c, c])"

definition demo_writer :: "(string list, string) async_writer" where
  "demo_writer = new_writer demo_writer_config [] [] 10 0"

definition demo_end :: "(string list, string) async_writer" where
  "demo_end = fst (run_async_writer demo_writer_config demo_broken_sink demo_letter_json demo_arrivals demo_writer)"

definition demo_opened :: "(string list, string) async_writer" where
  "demo_opened = fst (run_async_writer demo_writer_config demo_broken_sink demo_letter_json demo_outage demo_writer)"

lemmas writer_eval = demo_writer_def new_writer_def async_writer_start_def demo_writer_config_def async_writer_config_default_def
  demo_broken_sink_def demo_flush_def should_flush_def flush_and_count_def flush_batch_def retry_write_three
  tiered_write_def dlq_write_def dlq_open_def tiered_new_def dlq_new_def demo_line_def demo_letter_json_def append_text_def
  cb_record_failure_def cb_is_open_def storage_breaker_def cb_eval word_le_nat_alt

lemma demo_broken_keeps: "sink_keeps demo_broken_sink set"
  by (simp add: sink_keeps_def demo_broken_sink_def)

lemma demo_event_sink_keeps: "sink_keeps demo_event_sink set"
proof -
  have one: "demo_write ev s = (s', r) \<Longrightarrow> set s \<subseteq> set s' \<and> (is_ok r \<longrightarrow> ev \<in> set s')" for ev s s' r
    by (auto simp: demo_write_def)
  show ?thesis
    using one default_write_batch_keeps [where wr = demo_write and stored = set, OF one] unfolding sink_keeps_def demo_event_sink_def by simp
qed

lemma demo_end_eval: "snd (run_async_writer demo_writer_config demo_broken_sink demo_letter_json demo_arrivals demo_writer) = WriterRunning"
  "\<not> poisoned (aw_dlq demo_end)"
  by (simp_all add: demo_end_def demo_arrivals_def writer_eval)

lemma demo_opened_eval: "snd (run_async_writer demo_writer_config demo_broken_sink demo_letter_json demo_outage demo_writer) = WriterRunning"
  "5 \<le> flush_count demo_writer_config demo_broken_sink demo_letter_json demo_outage demo_writer"
  by (simp_all add: demo_outage_def writer_eval)

theorem writer_accounts_for_every_event_witness:
  "\<exists>confirmed dead refused. ledger demo_letter_json set [''a'', ''b''] demo_end confirmed dead refused \<and>
     aw_total_written demo_end = of_nat (size confirmed) \<and> aw_total_failed demo_end = of_nat (size dead + size refused)"
proof -
  have run: "run_async_writer demo_writer_config demo_broken_sink demo_letter_json demo_arrivals (new_writer demo_writer_config [] [] 10 0) =
      (demo_end, WriterRunning)"
    using demo_end_eval(1) unfolding demo_end_def demo_writer_def by (metis prod.collapse)
  from writer_accounts_for_every_event [OF demo_broken_keeps run demo_end_eval(2)] show ?thesis by (simp add: demo_arrivals_def)
qed

lemma outage_ends_storage_witness:
  "aw_store (fst (run_async_writer demo_writer_config demo_event_sink demo_letter_json demo_arrivals demo_opened)) = aw_store demo_opened"
proof -
  have run: "run_async_writer demo_writer_config demo_broken_sink demo_letter_json demo_outage (new_writer demo_writer_config [] [] 10 0) =
      (demo_opened, WriterRunning)"
    using demo_opened_eval(1) unfolding demo_opened_def demo_writer_def by (metis prod.collapse)
  have "ac_enable_circuit_breaker demo_writer_config" "batches_fail demo_broken_sink"
    by (simp_all add: demo_writer_config_def async_writer_config_default_def batches_fail_def demo_broken_sink_def)
  from outage_ends_storage [OF this run demo_opened_eval(2) [unfolded demo_writer_def] prod.collapse [symmetric]] show ?thesis by blast
qed

end
