(* ===== verification/BatchStore.thy ===== *)
theory BatchStore
  imports AsyncWriter KV BatchJobs "HOL-Library.List_Lexorder" "HOL-Library.Char_ord" "HOL-Library.Sublist"
begin

text \<open>
  Model of the persistent store of batch jobs, \<^verbatim>\<open>arcxa-coordinator/src/workflows/storage/batch_job_store.rs\<close>: a
  RocksDB database with a column family for the jobs and two for indexes by user and by status, and a cache in
  memory. RocksDB and serde are parameters: a write batch is atomic and may fail, a lookup and an iteration may
  fail, and an iteration yields the entries from a key on in the order of the keys. Keys and values are strings of
  bytes.
\<close>

section \<open>The database and the encoding\<close>

datatype batch_op = BPut string string string | BDel string string

text \<open>An iteration is the list of the entries it yields and the error that ended it, if any.\<close>

record 'db batch_db =
  bd_get :: "string \<Rightarrow> string \<Rightarrow> 'db \<Rightarrow> kv_error + string option"
  bd_write :: "batch_op list \<Rightarrow> 'db \<Rightarrow> kv_error + 'db"
  bd_iter :: "string \<Rightarrow> string \<Rightarrow> 'db \<Rightarrow> (string \<times> string) list \<times> kv_error option"

record ('s, 'f) job_serde =
  jd_enc :: "('s, 'f) batch_job \<Rightarrow> string option"
  jd_dec :: "string \<Rightarrow> ('s, 'f) batch_job option"

type_synonym ('s, 'f, 'db) job_store = "'db \<times> (string, ('s, 'f) batch_job) hmap"

definition bs_lookup :: "'db batch_db \<Rightarrow> string \<Rightarrow> string \<Rightarrow> (('s, 'f, 'db) job_store, string option) io" where
  "bs_lookup D cf k st = (st, bd_get D cf k (fst st))"

definition bs_write :: "'db batch_db \<Rightarrow> batch_op list \<Rightarrow> (('s, 'f, 'db) job_store, unit) io" where
  "bs_write D ops st = (case bd_write D ops (fst st) of Inl e \<Rightarrow> (st, Inl e) | Inr db \<Rightarrow> ((db, snd st), Inr ()))"

definition bs_cache ::
  "((string, ('s, 'f) batch_job) hmap \<Rightarrow> (string, ('s, 'f) batch_job) hmap) \<Rightarrow> (('s, 'f, 'db) job_store, unit) io" where
  "bs_cache f st = ((fst st, f (snd st)), Inr ())"

section \<open>Keys\<close>

definition cf_batch_jobs :: string where "cf_batch_jobs = ''batch_jobs''"

definition cf_index_by_user :: string where "cf_index_by_user = ''batch_job_by_user''"

definition cf_index_by_status :: string where "cf_index_by_status = ''batch_job_by_status''"

definition job_status_name :: "batch_status \<Rightarrow> string" where
  "job_status_name s =
     (case s of
        BPending \<Rightarrow> ''Pending'' | BValidating \<Rightarrow> ''Validating'' | BRunning \<Rightarrow> ''Running'' | BPaused \<Rightarrow> ''Paused''
      | BCompleted \<Rightarrow> ''Completed'' | BPartiallyCompleted \<Rightarrow> ''PartiallyCompleted'' | BFailed \<Rightarrow> ''Failed''
      | BCancelled \<Rightarrow> ''Cancelled'')"

text \<open>A number printed with at least twenty digits, and the key of an index entry.\<close>

definition pad20 :: "nat \<Rightarrow> string" where
  "pad20 n = replicate (20 - length (show_nat n)) (CHR ''0'') @ show_nat n"

definition index_key :: "string \<Rightarrow> nat \<Rightarrow> string \<Rightarrow> string" where
  "index_key name t job_id = name @ '':'' @ pad20 t @ '':'' @ job_id"

definition user_index_key :: "('s, 'f) batch_job \<Rightarrow> string" where
  "user_index_key job = index_key (bj_created_by job) (bj_created_at job) (bj_job_id job)"

definition status_index_key :: "('s, 'f) batch_job \<Rightarrow> string" where
  "status_index_key job = index_key (job_status_name (bj_status job)) (bj_created_at job) (bj_job_id job)"

section \<open>Operations\<close>

definition bs_create :: "'db batch_db \<Rightarrow> ('s, 'f) job_serde \<Rightarrow> ('s, 'f) batch_job \<Rightarrow> (('s, 'f, 'db) job_store, unit) io" where
  "bs_create D J job =
     (let k = bj_job_id job in
      io_bind (io_of_option (BadData ''Failed to serialize batch job'') (jd_enc J job)) (\<lambda>json.
      io_then
        (bs_write D
           [BPut cf_batch_jobs k json, BPut cf_index_by_user (user_index_key job) k,
            BPut cf_index_by_status (status_index_key job) k])
        (bs_cache (AList.update k job))))"

definition bs_get :: "'db batch_db \<Rightarrow> ('s, 'f) job_serde \<Rightarrow> string \<Rightarrow> (('s, 'f, 'db) job_store, ('s, 'f) batch_job option) io" where
  "bs_get D J k st =
     (case map_of (snd st) k of
        Some job \<Rightarrow> (st, Inr (Some job))
      | None \<Rightarrow>
          io_bind (bs_lookup D cf_batch_jobs k) (\<lambda>r.
            case r of
              None \<Rightarrow> io_return None
            | Some json \<Rightarrow>
                io_bind (io_of_option (BadData ''Failed to deserialize batch job'') (jd_dec J json)) (\<lambda>job.
                  io_then (bs_cache (AList.update k job)) (io_return (Some job)))) st)"

definition reindex_status :: "('s, 'f) batch_job option \<Rightarrow> ('s, 'f) batch_job \<Rightarrow> batch_op list" where
  "reindex_status old job =
     (case old of
        None \<Rightarrow> []
      | Some old_job \<Rightarrow>
          if bj_status old_job \<noteq> bj_status job then
            [BDel cf_index_by_status (index_key (job_status_name (bj_status old_job)) (bj_created_at old_job) (bj_job_id job)),
             BPut cf_index_by_status (status_index_key job) (bj_job_id job)]
          else [])"

definition bs_update :: "'db batch_db \<Rightarrow> ('s, 'f) job_serde \<Rightarrow> ('s, 'f) batch_job \<Rightarrow> (('s, 'f, 'db) job_store, unit) io" where
  "bs_update D J job =
     (let k = bj_job_id job in
      io_bind (bs_get D J k) (\<lambda>old.
      io_bind (io_of_option (BadData ''Failed to serialize batch job'') (jd_enc J job)) (\<lambda>json.
      io_then (bs_write D (BPut cf_batch_jobs k json # reindex_status old job)) (bs_cache (AList.update k job)))))"

definition bs_delete :: "'db batch_db \<Rightarrow> ('s, 'f) job_serde \<Rightarrow> string \<Rightarrow> (('s, 'f, 'db) job_store, bool) io" where
  "bs_delete D J k =
     io_bind (bs_get D J k) (\<lambda>r.
       case r of
         None \<Rightarrow> io_return False
       | Some job \<Rightarrow>
           io_then
             (bs_write D
                [BDel cf_batch_jobs k, BDel cf_index_by_user (index_key (bj_created_by job) (bj_created_at job) k),
                 BDel cf_index_by_status (index_key (job_status_name (bj_status job)) (bj_created_at job) k)])
             (io_then (bs_cache (AList.delete k)) (io_return True)))"

section \<open>Queries\<close>

text \<open>
  The loop over an index: it stops at the first key without the prefix, or when the limit is reached; a limit is
  looked at after an identifier was taken.
\<close>

fun scan_index :: "string \<Rightarrow> nat option \<Rightarrow> (string \<times> string) list \<Rightarrow> kv_error option \<Rightarrow> string list \<Rightarrow> kv_error + string list" where
  "scan_index p limit [] err found = (case err of None \<Rightarrow> Inr found | Some e \<Rightarrow> Inl e)"
| "scan_index p limit ((k, x) # items) err found =
     (if \<not> prefix p k then Inr found
      else if (case limit of None \<Rightarrow> False | Some n \<Rightarrow> length (found @ [x]) \<ge> n) then Inr (found @ [x])
      else scan_index p limit items err (found @ [x]))"

definition bs_scan :: "'db batch_db \<Rightarrow> string \<Rightarrow> string \<Rightarrow> nat option \<Rightarrow> (('s, 'f, 'db) job_store, string list) io" where
  "bs_scan D cf p limit st = (case bd_iter D cf p (fst st) of (items, err) \<Rightarrow> (st, scan_index p limit items err []))"

fun bs_fetch :: "'db batch_db \<Rightarrow> ('s, 'f) job_serde \<Rightarrow> string list \<Rightarrow> (('s, 'f, 'db) job_store, ('s, 'f) batch_job list) io" where
  "bs_fetch D J [] st = io_return [] st"
| "bs_fetch D J (k # ks) st =
     io_bind (bs_get D J k) (\<lambda>r. io_bind (bs_fetch D J ks) (\<lambda>jobs.
       io_return (case r of Some job \<Rightarrow> job # jobs | None \<Rightarrow> jobs))) st"

definition newest_first :: "('s, 'f) batch_job list \<Rightarrow> ('s, 'f) batch_job list" where
  "newest_first jobs = sort_key (\<lambda>job. - int (bj_created_at job)) jobs"

definition bs_list_by_user ::
  "'db batch_db \<Rightarrow> ('s, 'f) job_serde \<Rightarrow> string \<Rightarrow> nat \<Rightarrow> nat \<Rightarrow> (('s, 'f, 'db) job_store, ('s, 'f) batch_job list) io" where
  "bs_list_by_user D J user limit offset =
     io_bind (bs_scan D cf_index_by_user (user @ '':'') None) (\<lambda>found.
     io_bind (bs_fetch D J (take limit (drop offset found))) (\<lambda>jobs. io_return (newest_first jobs)))"

definition bs_list_by_status ::
  "'db batch_db \<Rightarrow> ('s, 'f) job_serde \<Rightarrow> batch_status \<Rightarrow> nat \<Rightarrow> (('s, 'f, 'db) job_store, ('s, 'f) batch_job list) io" where
  "bs_list_by_status D J s limit =
     io_bind (bs_scan D cf_index_by_status (job_status_name s @ '':'') (Some limit)) (\<lambda>found. bs_fetch D J found)"

definition bs_count_by_status :: "'db batch_db \<Rightarrow> batch_status \<Rightarrow> (('s, 'f, 'db) job_store, nat) io" where
  "bs_count_by_status D s =
     io_bind (bs_scan D cf_index_by_status (job_status_name s @ '':'') None) (\<lambda>found. io_return (length found))"

fun decode_jobs :: "('s, 'f) job_serde \<Rightarrow> nat \<Rightarrow> (string \<times> string) list \<Rightarrow> kv_error option \<Rightarrow> ('s, 'f) batch_job list \<Rightarrow> kv_error + ('s, 'f) batch_job list" where
  "decode_jobs J limit [] err jobs = (case err of None \<Rightarrow> Inr jobs | Some e \<Rightarrow> Inl e)"
| "decode_jobs J limit ((_, json) # items) err jobs =
     (case jd_dec J json of
        None \<Rightarrow> Inl (BadData ''Failed to deserialize batch job'')
      | Some job \<Rightarrow>
          if length (jobs @ [job]) \<ge> limit then Inr (jobs @ [job]) else decode_jobs J limit items err (jobs @ [job]))"

definition bs_list_all ::
  "'db batch_db \<Rightarrow> ('s, 'f) job_serde \<Rightarrow> nat \<Rightarrow> (('s, 'f, 'db) job_store, ('s, 'f) batch_job list) io" where
  "bs_list_all D J limit st =
     (case bd_iter D cf_batch_jobs [] (fst st) of
        (items, err) \<Rightarrow>
          (st, case decode_jobs J limit items err [] of Inl e \<Rightarrow> Inl e | Inr jobs \<Rightarrow> Inr (newest_first jobs)))"

definition all_statuses :: "batch_status list" where
  "all_statuses = [BPending, BValidating, BRunning, BPaused, BCompleted, BPartiallyCompleted, BFailed, BCancelled]"

fun count_statuses ::
  "'db batch_db \<Rightarrow> batch_status list \<Rightarrow> (batch_status, nat) hmap \<Rightarrow> (('s, 'f, 'db) job_store, (batch_status, nat) hmap) io" where
  "count_statuses D [] m st = io_return m st"
| "count_statuses D (s # ss) m st = io_bind (bs_count_by_status D s) (\<lambda>n. count_statuses D ss (AList.update s n m)) st"

record store_stats =
  ss_total_jobs :: nat
  ss_by_status :: "(batch_status, nat) hmap"
  ss_cache_size :: nat

text \<open>The limit of the list of all jobs is \<^verbatim>\<open>usize::MAX\<close>.\<close>

definition bs_get_stats :: "'db batch_db \<Rightarrow> ('s, 'f) job_serde \<Rightarrow> (('s, 'f, 'db) job_store, store_stats) io" where
  "bs_get_stats D J =
     io_bind (bs_list_all D J (2 ^ 64 - 1)) (\<lambda>jobs. io_bind (count_statuses D all_statuses []) (\<lambda>m st.
       io_return \<lparr>ss_total_jobs = length jobs, ss_by_status = m, ss_cache_size = length (snd st)\<rparr> st))"

text \<open>One round of \<^verbatim>\<open>clear_all\<close>: delete every key of a column family in one batch.\<close>

definition clear_family :: "'db batch_db \<Rightarrow> string \<Rightarrow> (('s, 'f, 'db) job_store, unit) io" where
  "clear_family D cf st =
     (case bd_iter D cf [] (fst st) of
        (items, None) \<Rightarrow> bs_write D (map (\<lambda>(k, _). BDel cf k) items) st
      | (_, Some e) \<Rightarrow> (st, Inl e))"

definition bs_clear_all :: "'db batch_db \<Rightarrow> (('s, 'f, 'db) job_store, unit) io" where
  "bs_clear_all D =
     io_then (clear_family D cf_batch_jobs) (io_then (clear_family D cf_index_by_user)
       (io_then (clear_family D cf_index_by_status) (bs_cache (\<lambda>_. []))))"

section \<open>Laws of the database and of the encoding\<close>

definition apply_op :: "batch_op \<Rightarrow> (string \<Rightarrow> (string, string) btree) \<Rightarrow> string \<Rightarrow> (string, string) btree" where
  "apply_op op w =
     (case op of BPut cf k x \<Rightarrow> w(cf := bt_insert k x (w cf)) | BDel cf k \<Rightarrow> w(cf := bt_remove k (w cf)))"

definition bdb_lawful :: "'db batch_db \<Rightarrow> ('db \<Rightarrow> string \<Rightarrow> (string, string) btree) \<Rightarrow> bool" where
  "bdb_lawful D v \<longleftrightarrow>
     (\<forall>db cf. bt_wf (v db cf)) \<and>
     (\<forall>cf k db r. bd_get D cf k db = Inr r \<longrightarrow> r = bt_get (v db cf) k) \<and>
     (\<forall>ops db db'. bd_write D ops db = Inr db' \<longrightarrow> v db' = fold apply_op ops (v db)) \<and>
     (\<forall>cf k db items. bd_iter D cf k db = (items, None) \<longrightarrow> items = bt_from k (v db cf)) \<and>
     (\<forall>cf k db items e. bd_iter D cf k db = (items, Some e) \<longrightarrow> prefix items (bt_from k (v db cf)))"

definition bdb_reads_ok :: "'db batch_db \<Rightarrow> bool" where
  "bdb_reads_ok D \<longleftrightarrow> (\<forall>cf k db. is_ok (bd_get D cf k db) \<and> snd (bd_iter D cf k db) = None)"

definition serde_lawful :: "('s, 'f) job_serde \<Rightarrow> bool" where
  "serde_lawful J \<longleftrightarrow> (\<forall>job json. jd_enc J job = Some json \<longrightarrow> jd_dec J json = Some job)"

lemma bdb_lawfulD:
  assumes "bdb_lawful D v"
  shows "bt_wf (v db cf)" "bd_get D cf k db = Inr r \<Longrightarrow> r = bt_get (v db cf) k"
    "bd_write D ops db = Inr db' \<Longrightarrow> v db' = fold apply_op ops (v db)"
    "bd_iter D cf k db = (items, None) \<Longrightarrow> items = bt_from k (v db cf)"
    "bd_iter D cf k db = (items, Some e) \<Longrightarrow> prefix items (bt_from k (v db cf))"
  using assms unfolding bdb_lawful_def by blast+

lemma batch_cf_distinct [simp]:
  "cf_batch_jobs \<noteq> cf_index_by_user" "cf_batch_jobs \<noteq> cf_index_by_status" "cf_index_by_user \<noteq> cf_index_by_status"
  "cf_index_by_user \<noteq> cf_batch_jobs" "cf_index_by_status \<noteq> cf_batch_jobs" "cf_index_by_status \<noteq> cf_index_by_user"
  by (simp_all add: cf_batch_jobs_def cf_index_by_user_def cf_index_by_status_def)

section \<open>Indexes\<close>

text \<open>The jobs of the store, by identifier. Identifiers are made from a UUID and contain no colon.\<close>

type_synonym ('s, 'f) jobs = "string \<Rightarrow> ('s, 'f) batch_job option"

definition jobs_ok :: "('s, 'f) jobs \<Rightarrow> bool" where
  "jobs_ok A \<longleftrightarrow> (\<forall>x job. A x = Some job \<longrightarrow> bj_job_id job = x \<and> CHR '':'' \<notin> set x)"

definition index_ok :: "(('s, 'f) batch_job \<Rightarrow> string) \<Rightarrow> ('s, 'f) jobs \<Rightarrow> (string, string) btree \<Rightarrow> bool" where
  "index_ok key A t \<longleftrightarrow> bt_wf t \<and> (\<forall>k x. bt_get t k = Some x \<longleftrightarrow> (\<exists>job. A x = Some job \<and> key job = k))"

lemma jobs_okD: "jobs_ok A \<Longrightarrow> A x = Some job \<Longrightarrow> bj_job_id job = x \<and> CHR '':'' \<notin> set x"
  by (simp add: jobs_ok_def)

lemma index_okD: "index_ok key A t \<Longrightarrow> bt_get t k = Some x \<longleftrightarrow> (\<exists>job. A x = Some job \<and> key job = k)"
  by (simp add: index_ok_def)

text \<open>An index whose keys end with the identifier follows every change of the jobs.\<close>

locale job_index =
  fixes key :: "('s, 'f) batch_job \<Rightarrow> string"
  assumes key_id: "key i = key j \<Longrightarrow> CHR '':'' \<notin> set (bj_job_id i) \<Longrightarrow> CHR '':'' \<notin> set (bj_job_id j) \<Longrightarrow> bj_job_id i = bj_job_id j"
begin

lemma index_put:
  assumes "index_ok key A t" "jobs_ok A" "A x = None" "bj_job_id job = x" "CHR '':'' \<notin> set x"
  shows "index_ok key (A(x \<mapsto> job)) (bt_insert (key job) x t)"
proof -
  have other: "key j \<noteq> key job" if "A y = Some j" for y j
    using key_id [of j job] jobs_okD [OF assms(2) that] assms(3-5) that by auto
  have "bt_get (bt_insert (key job) x t) k = Some y \<longleftrightarrow> (\<exists>j. (A(x \<mapsto> job)) y = Some j \<and> key j = k)" for k y
  proof (cases "k = key job")
    case True
    thus ?thesis
      using other by (auto simp: bt_get_insert)
  next
    case False
    thus ?thesis
      using index_okD [OF assms(1), of k y] assms(3) by (auto simp: bt_get_insert)
  qed
  thus ?thesis
    using assms(1) unfolding index_ok_def by (simp add: bt_wf_insert)
qed

lemma index_drop:
  assumes "index_ok key A t" "jobs_ok A" "A x = Some job"
  shows "index_ok key (A(x := None)) (bt_remove (key job) t)"
proof -
  have other: "y = x" if "A y = Some j" "key j = key job" for y j
    using key_id [OF that(2)] jobs_okD [OF assms(2) that(1)] jobs_okD [OF assms(2,3)] by simp
  have "bt_get (bt_remove (key job) t) k = Some y \<longleftrightarrow> (\<exists>j. (A(x := None)) y = Some j \<and> key j = k)" for k y
  proof (cases "k = key job")
    case True
    thus ?thesis
      using other by (auto simp: bt_get_remove)
  next
    case False
    thus ?thesis
      using index_okD [OF assms(1), of k y] assms(3) by (auto simp: bt_get_remove)
  qed
  thus ?thesis
    using assms(1) unfolding index_ok_def by (simp add: bt_wf_remove)
qed

lemma index_keep:
  assumes "index_ok key A t" "A x = Some old" "key job = key old"
  shows "index_ok key (A(x \<mapsto> job)) t"
proof -
  have "(\<exists>j. (A(x \<mapsto> job)) y = Some j \<and> key j = k) \<longleftrightarrow> (\<exists>j. A y = Some j \<and> key j = k)" for y k
    using assms(2,3) by (cases "y = x") simp_all
  thus ?thesis
    using assms(1) unfolding index_ok_def by simp
qed

lemma index_move:
  assumes "index_ok key A t" "jobs_ok A" "A x = Some old" "bj_job_id job = x"
  shows "index_ok key (A(x \<mapsto> job)) (bt_insert (key job) x (bt_remove (key old) t))"
proof -
  have "jobs_ok (A(x := None))"
    using assms(2) by (simp add: jobs_ok_def)
  thus ?thesis
    using index_put [OF index_drop [OF assms(1-3)], of x job] jobs_okD [OF assms(2,3)] assms(4) by simp
qed

text \<open>Each job is in the index once.\<close>

lemma index_values:
  assumes "index_ok key A t"
  shows "distinct (map snd t)" "set (map snd (filter (\<lambda>(k, _). P k) t)) = {x. \<exists>job. A x = Some job \<and> P (key job)}"
proof -
  have t: "bt_wf t"
    using assms by (simp add: index_ok_def)
  have mem: "(k, x) \<in> set t \<longleftrightarrow> (\<exists>job. A x = Some job \<and> key job = k)" for k x
    using bt_get_mem [OF t, of k x] bt_get_Some_mem [of t k x] index_okD [OF assms, of k x] by blast
  have "inj_on snd (set t)"
    by (rule inj_onI) (auto simp: mem)
  moreover have "distinct t"
    using bt_wf_distinct [OF t] by (simp add: distinct_map)
  ultimately show "distinct (map snd t)"
    by (simp add: distinct_map)
  show "set (map snd (filter (\<lambda>(k, _). P k) t)) = {x. \<exists>job. A x = Some job \<and> P (key job)}"
    by (force simp: mem)
qed

end

lemma last_field:
  assumes "a @ CHR '':'' # i = b @ CHR '':'' # j" "CHR '':'' \<notin> set i" "CHR '':'' \<notin> set j"
  shows "i = j"
proof -
  have "takeWhile (\<lambda>c. c \<noteq> CHR '':'') (rev (a @ CHR '':'' # i)) = rev i" if "CHR '':'' \<notin> set i" for a i
    using that by (simp add: takeWhile_append)
  thus ?thesis
    using assms by (metis rev_rev_ident)
qed

lemma index_key_id:
  assumes "index_key m s i = index_key n t j" "CHR '':'' \<notin> set i" "CHR '':'' \<notin> set j"
  shows "i = j"
  using last_field [of "m @ '':'' @ pad20 s" i "n @ '':'' @ pad20 t" j] assms by (simp add: index_key_def)

interpretation by_user: job_index user_index_key
  by unfold_locales (auto simp: user_index_key_def intro: index_key_id)

interpretation by_status: job_index status_index_key
  by unfold_locales (auto simp: status_index_key_def intro: index_key_id)

section \<open>The store follows its jobs\<close>

definition store_rel ::
  "'db batch_db \<Rightarrow> ('db \<Rightarrow> string \<Rightarrow> (string, string) btree) \<Rightarrow> ('s, 'f) job_serde \<Rightarrow> ('s, 'f) jobs \<Rightarrow> ('s, 'f, 'db) job_store \<Rightarrow> bool" where
  "store_rel D v J A st \<longleftrightarrow>
     bdb_lawful D v \<and> serde_lawful J \<and> jobs_ok A \<and>
     (\<forall>k. map_option (jd_dec J) (bt_get (v (fst st) cf_batch_jobs) k) = map_option Some (A k)) \<and>
     (\<forall>k job. map_of (snd st) k = Some job \<longrightarrow> A k = Some job) \<and>
     index_ok user_index_key A (v (fst st) cf_index_by_user) \<and>
     index_ok status_index_key A (v (fst st) cf_index_by_status)"

lemma store_relD:
  assumes "store_rel D v J A st"
  shows "bdb_lawful D v" "serde_lawful J" "jobs_ok A"
    "map_option (jd_dec J) (bt_get (v (fst st) cf_batch_jobs) k) = map_option Some (A k)"
    "map_of (snd st) k = Some job \<Longrightarrow> A k = Some job"
    "index_ok user_index_key A (v (fst st) cf_index_by_user)" "index_ok status_index_key A (v (fst st) cf_index_by_status)"
  using assms by (simp_all add: store_rel_def)

lemma bs_get_spec:
  assumes "store_rel D v J A st"
  shows "\<exists>c r. bs_get D J k st = ((fst st, c), r) \<and> store_rel D v J A (fst st, c) \<and>
     (r = Inr (A k) \<or> \<not> bdb_reads_ok D \<and> (\<exists>e. r = Inl e))"
proof (cases "map_of (snd st) k")
  case (Some job)
  thus ?thesis
    using assms store_relD(5) [OF assms Some] by (cases st) (simp add: bs_get_def)
next
  case None
  show ?thesis
  proof (cases "bd_get D cf_batch_jobs k (fst st)")
    case (Inl e)
    hence "\<not> bdb_reads_ok D"
      unfolding bdb_reads_ok_def by (metis is_ok_simps(2))
    thus ?thesis
      using None assms Inl by (cases st) (simp add: bs_get_def io_bind_def bs_lookup_def)
  next
    case (Inr r)
    hence r: "r = bt_get (v (fst st) cf_batch_jobs) k"
      by (rule bdb_lawfulD(2) [OF store_relD(1) [OF assms]])
    have keep: "store_rel D v J A (fst st, AList.update k job (snd st))" if "A k = Some job" for job
      using assms that by (auto simp: store_rel_def hm_get_update)
    show ?thesis
    proof (cases "A k")
      case None
      hence "r = None"
        using store_relD(4) [OF assms, of k] r by simp
      thus ?thesis
        using Inr \<open>map_of (snd st) k = None\<close> None assms by (cases st) (simp add: bs_get_def io_bind_def bs_lookup_def)
    next
      case (Some job)
      then obtain json where "r = Some json" "jd_dec J json = Some job"
        using store_relD(4) [OF assms, of k] r by auto
      thus ?thesis
        using Inr \<open>map_of (snd st) k = None\<close> Some keep [OF Some]
        by (simp add: bs_get_def io_bind_def io_then_def bs_lookup_def bs_cache_def)
    qed
  qed
qed

lemma bs_write_spec:
  assumes "bdb_lawful D v"
  shows "(\<exists>e. bs_write D ops st = (st, Inl e)) \<or>
     (\<exists>db. bs_write D ops st = ((db, snd st), Inr ()) \<and> v db = fold apply_op ops (v (fst st)))"
  using bdb_lawfulD(3) [OF assms, of ops "fst st"] by (cases "bd_write D ops (fst st)") (auto simp: bs_write_def)

lemma jobs_ok_put: "jobs_ok A \<Longrightarrow> bj_job_id job = k \<Longrightarrow> CHR '':'' \<notin> set k \<Longrightarrow> jobs_ok (A(k \<mapsto> job))"
  by (simp add: jobs_ok_def)

lemma jobs_ok_drop: "jobs_ok A \<Longrightarrow> jobs_ok (A(k := None))"
  by (simp add: jobs_ok_def)

lemma bs_create_spec:
  assumes rel: "store_rel D v J A st" and new: "A (bj_job_id job) = None" "CHR '':'' \<notin> set (bj_job_id job)"
  shows "(\<exists>st' e. bs_create D J job st = (st', Inl e) \<and> store_rel D v J A st') \<or>
     (\<exists>st'. bs_create D J job st = (st', Inr ()) \<and> store_rel D v J (A(bj_job_id job \<mapsto> job)) st')"
proof (cases "jd_enc J job")
  case None
  thus ?thesis
    using rel by (simp add: bs_create_def Let_def io_bind_def)
next
  case (Some json)
  let ?k = "bj_job_id job"
  let ?ops = "[BPut cf_batch_jobs ?k json, BPut cf_index_by_user (user_index_key job) ?k, BPut cf_index_by_status (status_index_key job) ?k]"
  consider e where "bs_write D ?ops st = (st, Inl e)"
    | db where "bs_write D ?ops st = ((db, snd st), Inr ())" "v db = fold apply_op ?ops (v (fst st))"
    using bs_write_spec [OF store_relD(1) [OF rel]] by blast
  thus ?thesis
  proof cases
    case 1
    thus ?thesis
      using Some rel by (simp add: bs_create_def Let_def io_bind_def io_then_def)
  next
    case (2 db)
    have dec: "jd_dec J json = Some job"
      using store_relD(2) [OF rel] Some by (simp add: serde_lawful_def)
    have "store_rel D v J (A(?k \<mapsto> job)) (db, AList.update ?k job (snd st))"
      using rel new dec unfolding store_rel_def
      by (simp add: 2(2) apply_op_def bt_get_insert hm_get_update jobs_ok_put by_user.index_put by_status.index_put)
    thus ?thesis
      using 2(1) Some by (simp add: bs_create_def Let_def io_bind_def io_then_def bs_cache_def)
  qed
qed

lemma bs_update_spec:
  assumes rel: "store_rel D v J A st" and old: "A (bj_job_id job) = Some old"
    and same: "bj_created_by job = bj_created_by old" "bj_created_at job = bj_created_at old"
  shows "(\<exists>st' e. bs_update D J job st = (st', Inl e) \<and> store_rel D v J A st') \<or>
     (\<exists>st'. bs_update D J job st = (st', Inr ()) \<and> store_rel D v J (A(bj_job_id job \<mapsto> job)) st')"
proof -
  let ?k = "bj_job_id job"
  obtain c r where g: "bs_get D J ?k st = ((fst st, c), r)" "store_rel D v J A (fst st, c)" "r = Inr (Some old) \<or> (\<exists>e. r = Inl e)"
    using bs_get_spec [OF rel, of ?k] old by auto
  have k: "bj_job_id old = ?k" "CHR '':'' \<notin> set ?k"
    using jobs_okD [OF store_relD(3) [OF rel] old] by simp_all
  show ?thesis
  proof (cases "\<exists>json. r = Inr (Some old) \<and> jd_enc J job = Some json")
    case False
    thus ?thesis
      using g by (cases "jd_enc J job") (auto simp: bs_update_def Let_def io_bind_def)
  next
    case True
    then obtain json where json: "r = Inr (Some old)" "jd_enc J job = Some json" "jd_dec J json = Some job"
      using store_relD(2) [OF rel] by (auto simp: serde_lawful_def)
    let ?ops = "BPut cf_batch_jobs ?k json # reindex_status (Some old) job"
    consider e where "bs_write D ?ops (fst st, c) = ((fst st, c), Inl e)"
      | db where "bs_write D ?ops (fst st, c) = ((db, c), Inr ())" "v db = fold apply_op ?ops (v (fst st))"
      using bs_write_spec [OF store_relD(1) [OF rel], of ?ops "(fst st, c)"] by auto
    thus ?thesis
    proof cases
      case 1
      thus ?thesis
        using g json by (simp add: bs_update_def Let_def io_bind_def io_then_def)
    next
      case (2 db)
      have user: "user_index_key job = user_index_key old"
        using same k by (simp add: user_index_key_def)
      have status: "index_ok status_index_key (A(?k \<mapsto> job)) (v db cf_index_by_status)"
      proof (cases "bj_status old = bj_status job")
        case True
        hence "status_index_key job = status_index_key old"
          using same k by (simp add: status_index_key_def)
        thus ?thesis
          using True by_status.index_keep [OF store_relD(7) [OF g(2)] old] by (simp add: 2(2) apply_op_def reindex_status_def)
      next
        case False
        have "index_key (job_status_name (bj_status old)) (bj_created_at old) ?k = status_index_key old"
          using k by (simp add: status_index_key_def)
        thus ?thesis
          using False by_status.index_move [OF store_relD(7,3) [OF g(2)] old refl] by (simp add: 2(2) apply_op_def reindex_status_def)
      qed
      have views: "v db cf_batch_jobs = bt_insert ?k json (v (fst st) cf_batch_jobs)" "v db cf_index_by_user = v (fst st) cf_index_by_user"
        by (simp_all add: 2(2) reindex_status_def apply_op_def)
      have "store_rel D v J (A(?k \<mapsto> job)) (db, AList.update ?k job c)"
        using g(2) json(3) old k(2) status by_user.index_keep [OF store_relD(6) [OF g(2)] old user] unfolding store_rel_def
        by (simp add: views bt_get_insert hm_get_update jobs_ok_put)
      thus ?thesis
        using 2(1) g json by (simp add: bs_update_def Let_def io_bind_def io_then_def bs_cache_def)
    qed
  qed
qed

lemma bs_delete_spec:
  assumes rel: "store_rel D v J A st"
  shows "(\<exists>st' e. bs_delete D J k st = (st', Inl e) \<and> store_rel D v J A st') \<or>
     (\<exists>st'. bs_delete D J k st = (st', Inr (A k \<noteq> None)) \<and> store_rel D v J (A(k := None)) st')"
proof -
  obtain c r where g: "bs_get D J k st = ((fst st, c), r)" "store_rel D v J A (fst st, c)" "r = Inr (A k) \<or> (\<exists>e. r = Inl e)"
    using bs_get_spec [OF rel, of k] by auto
  show ?thesis
  proof (cases "\<exists>job. r = Inr (Some job) \<and> A k = Some job")
    case False
    hence "r = Inr None \<and> A k = None \<or> (\<exists>e. r = Inl e)"
      using g(3) by (cases "A k") auto
    moreover have "A(k := None) = A" if "A k = None"
      using that by auto
    ultimately show ?thesis
      using g by (auto simp: bs_delete_def io_bind_def)
  next
    case True
    then obtain job where job: "r = Inr (Some job)" "A k = Some job"
      by blast
    have keys: "index_key (bj_created_by job) (bj_created_at job) k = user_index_key job"
        "index_key (job_status_name (bj_status job)) (bj_created_at job) k = status_index_key job"
      using jobs_okD [OF store_relD(3) [OF rel] job(2)] by (simp_all add: user_index_key_def status_index_key_def)
    let ?ops = "[BDel cf_batch_jobs k, BDel cf_index_by_user (user_index_key job), BDel cf_index_by_status (status_index_key job)]"
    consider e where "bs_write D ?ops (fst st, c) = ((fst st, c), Inl e)"
      | db where "bs_write D ?ops (fst st, c) = ((db, c), Inr ())" "v db = fold apply_op ?ops (v (fst st))"
      using bs_write_spec [OF store_relD(1) [OF rel], of ?ops "(fst st, c)"] by auto
    thus ?thesis
    proof cases
      case 1
      thus ?thesis
        using g job by (simp add: bs_delete_def io_bind_def io_then_def keys)
    next
      case (2 db)
      have "store_rel D v J (A(k := None)) (db, AList.delete k c)"
        using g(2) job(2) unfolding store_rel_def
        by (simp add: 2(2) apply_op_def bt_get_remove hm_get_delete jobs_ok_drop by_user.index_drop by_status.index_drop)
      thus ?thesis
        using 2(1) g job by (simp add: bs_delete_def io_bind_def io_then_def bs_cache_def keys)
    qed
  qed
qed

lemma apply_deletes: "fold apply_op (map (\<lambda>(k, _). BDel cf k) items) w = w(cf := fold bt_remove (map fst items) (w cf))"
  by (induction items arbitrary: w) (auto simp: apply_op_def)

lemma bt_remove_all: "bt_wf t \<Longrightarrow> fold bt_remove (map fst t) t = []"
proof (rule bt_eqI)
  assume t: "bt_wf t"
  show "bt_wf (fold bt_remove (map fst t) t)"
    using t by (rule bt.wf_fold_del)
  show "bt_get (fold bt_remove (map fst t) t) k = bt_get [] k" for k
    using bt.get_fold_del [OF t, of "map fst t" k] by (simp add: bt_get_None)
qed simp

lemma clear_family_spec:
  assumes "bdb_lawful D v" "clear_family D cf st = (st', Inr ())"
  shows "v (fst st') = (v (fst st))(cf := []) \<and> snd st' = snd st"
proof -
  obtain items where it: "bd_iter D cf [] (fst st) = (items, None)" "bs_write D (map (\<lambda>(k, _). BDel cf k) items) st = (st', Inr ())"
    using assms(2) by (auto simp: clear_family_def split: prod.splits option.splits)
  have "items = v (fst st) cf"
    using bdb_lawfulD(4) [OF assms(1) it(1)] by (simp add: bt_from_def filter_eq_self)
  thus ?thesis
    using bs_write_spec [OF assms(1), of "map (\<lambda>(k, _). BDel cf k) items" st] it(2)
      bt_remove_all [OF bdb_lawfulD(1) [OF assms(1)], of "fst st" cf] by (auto simp: apply_deletes)
qed

lemma bs_clear_all_spec:
  assumes rel: "store_rel D v J A st" and run: "bs_clear_all D st = (st', Inr ())"
  shows "store_rel D v J Map.empty st'"
proof -
  note D = store_relD(1) [OF rel]
  obtain st1 st2 st3 where c: "clear_family D cf_batch_jobs st = (st1, Inr ())" "clear_family D cf_index_by_user st1 = (st2, Inr ())"
      "clear_family D cf_index_by_status st2 = (st3, Inr ())" "st' = (fst st3, [])"
    using run unfolding bs_clear_all_def by (auto elim!: io_then_cases simp: bs_cache_def)
  have "v (fst st3) = (v (fst st))(cf_batch_jobs := [], cf_index_by_user := [], cf_index_by_status := [])"
    using clear_family_spec [OF D c(1)] clear_family_spec [OF D c(2)] clear_family_spec [OF D c(3)] by simp
  thus ?thesis
    using D store_relD(2) [OF rel] c(4) by (simp add: store_rel_def jobs_ok_def index_ok_def)
qed

section \<open>Sequences of operations\<close>

datatype ('s, 'f) store_call =
    SCreate "('s, 'f) batch_job" | SUpdate "('s, 'f) batch_job" | SDelete string | SGet string | SClear

definition bs_run :: "'db batch_db \<Rightarrow> ('s, 'f) job_serde \<Rightarrow> ('s, 'f) store_call \<Rightarrow> ('s, 'f, 'db) job_store \<Rightarrow> ('s, 'f, 'db) job_store \<times> bool" where
  "bs_run D J c st =
     (case c of
        SCreate job \<Rightarrow> map_prod (\<lambda>x. x) is_ok (bs_create D J job st)
      | SUpdate job \<Rightarrow> map_prod (\<lambda>x. x) is_ok (bs_update D J job st)
      | SDelete k \<Rightarrow> map_prod (\<lambda>x. x) is_ok (bs_delete D J k st)
      | SGet k \<Rightarrow> map_prod (\<lambda>x. x) is_ok (bs_get D J k st)
      | SClear \<Rightarrow> map_prod (\<lambda>x. x) is_ok (bs_clear_all D st))"

definition bs_exec :: "'db batch_db \<Rightarrow> ('s, 'f) job_serde \<Rightarrow> ('s, 'f) store_call \<Rightarrow> ('s, 'f, 'db) job_store \<Rightarrow> ('s, 'f, 'db) job_store" where
  "bs_exec D J c st = fst (bs_run D J c st)"

text \<open>What the callers keep to: a job is created under a new identifier, and an update keeps who created it and when.\<close>

definition bs_guard ::
  "'db batch_db \<Rightarrow> ('db \<Rightarrow> string \<Rightarrow> (string, string) btree) \<Rightarrow> ('s, 'f) job_serde \<Rightarrow> ('s, 'f) store_call \<Rightarrow> ('s, 'f, 'db) job_store \<Rightarrow> bool" where
  "bs_guard D v J c st \<longleftrightarrow>
     (case c of
        SCreate job \<Rightarrow> CHR '':'' \<notin> set (bj_job_id job) \<and> bt_get (v (fst st) cf_batch_jobs) (bj_job_id job) = None
      | SUpdate job \<Rightarrow>
          (case Option.bind (bt_get (v (fst st) cf_batch_jobs) (bj_job_id job)) (jd_dec J) of
             Some old \<Rightarrow> bj_created_by job = bj_created_by old \<and> bj_created_at job = bj_created_at old
           | None \<Rightarrow> False)
      | SClear \<Rightarrow> snd (bs_run D J c st)
      | _ \<Rightarrow> True)"

text \<open>What the calls mean for the jobs: an operation that reports success has its effect, one that fails has none.\<close>

definition bs_spec ::
  "'db batch_db \<Rightarrow> ('s, 'f) job_serde \<Rightarrow> ('s, 'f) store_call \<Rightarrow> ('s, 'f, 'db) job_store \<Rightarrow> ('s, 'f) jobs \<Rightarrow> ('s, 'f) jobs" where
  "bs_spec D J c st A =
     (if snd (bs_run D J c st) then
        (case c of
           SCreate job \<Rightarrow> A(bj_job_id job \<mapsto> job)
         | SUpdate job \<Rightarrow> A(bj_job_id job \<mapsto> job)
         | SDelete k \<Rightarrow> A(k := None)
         | SGet _ \<Rightarrow> A
         | SClear \<Rightarrow> Map.empty)
      else A)"

lemma store_step:
  assumes rel: "store_rel D v J A st" and g: "bs_guard D v J c st"
  shows "store_rel D v J (bs_spec D J c st A) (bs_exec D J c st)"
proof (cases c)
  case (SCreate job)
  hence new: "A (bj_job_id job) = None" "CHR '':'' \<notin> set (bj_job_id job)"
    using g store_relD(4) [OF rel, of "bj_job_id job"] by (simp_all add: bs_guard_def)
  show ?thesis
    using bs_create_spec [OF rel new] SCreate by (auto simp: bs_spec_def bs_exec_def bs_run_def)
next
  case (SUpdate job)
  then obtain old where old: "A (bj_job_id job) = Some old" "bj_created_by job = bj_created_by old" "bj_created_at job = bj_created_at old"
    using g store_relD(4) [OF rel, of "bj_job_id job"]
    by (cases "A (bj_job_id job)"; cases "bt_get (v (fst st) cf_batch_jobs) (bj_job_id job)") (auto simp: bs_guard_def split: option.splits)
  show ?thesis
    using bs_update_spec [OF rel old] SUpdate by (auto simp: bs_spec_def bs_exec_def bs_run_def)
next
  case (SDelete k)
  thus ?thesis
    using bs_delete_spec [OF rel, of k] by (auto simp: bs_spec_def bs_exec_def bs_run_def)
next
  case (SGet k)
  thus ?thesis
    using bs_get_spec [OF rel, of k] by (auto simp: bs_spec_def bs_exec_def bs_run_def)
next
  case SClear
  then obtain st' where "bs_clear_all D st = (st', Inr ())"
    using g by (cases "bs_clear_all D st") (auto simp: bs_guard_def bs_run_def is_ok_conv)
  thus ?thesis
    using bs_clear_all_spec [OF rel] SClear by (simp add: bs_spec_def bs_exec_def bs_run_def)
qed

interpretation bs: guarded_simulation "store_rel D v J" "bs_guard D v J" "bs_exec D J" "bs_spec D J" for D v J
  by unfold_locales (rule store_step)

section \<open>Queries over an index\<close>

text \<open>In the order of the keys, the keys with a common prefix follow one another.\<close>

lemma prefix_le: "prefix p k \<Longrightarrow> p \<le> (k :: string)"
proof (induction p arbitrary: k)
  case (Cons c p)
  thus ?case
    by (cases k) auto
qed simp

lemma prefix_contiguous: "p \<le> k \<Longrightarrow> \<not> prefix p k \<Longrightarrow> k < l \<Longrightarrow> \<not> prefix p (l :: string)"
proof (induction p arbitrary: k l)
  case (Cons c p)
  thus ?case
    by (cases k; cases l) (auto simp: less_le_not_le)
qed simp

lemma takeWhile_prefix:
  fixes p :: string
  assumes "bt_wf t" "\<forall>k \<in> fst ` set t. p \<le> k"
  shows "takeWhile (\<lambda>(k, _). prefix p k) t = filter (\<lambda>(k, _). prefix p k) t"
  using assms
proof (induction t)
  case (Cons e t)
  obtain k x where e: "e = (k, x)"
    by force
  show ?case
  proof (cases "prefix p k")
    case True
    thus ?thesis
      using Cons e by (auto simp: bt_wf_Cons)
  next
    case False
    have "\<not> prefix p l" if "l \<in> fst ` set t" for l
      using Cons.prems e that prefix_contiguous [of p k l] False by (auto simp: bt_wf_Cons)
    hence "filter (\<lambda>(k, _). prefix p k) t = []"
      by (force simp: filter_empty_conv)
    thus ?thesis
      using False e by simp
  qed
qed simp

lemma from_prefix:
  fixes p :: string
  assumes "bt_wf t"
  shows "takeWhile (\<lambda>(k, _). prefix p k) (bt_from p t) = filter (\<lambda>(k, _). prefix p k) t"
proof -
  have "filter (\<lambda>(k, _). prefix p k) (bt_from p t) = filter (\<lambda>(k, _). prefix p k) t"
    unfolding bt_from_def filter_filter by (rule filter_cong) (auto dest: prefix_le)
  moreover have "\<forall>k \<in> fst ` set (bt_from p t). p \<le> k"
    by (auto simp: bt_from_def)
  ultimately show ?thesis
    using takeWhile_prefix [OF bt_wf_from [OF assms, of p]] by metis
qed

lemma scan_all: "scan_index p None items None acc = Inr (acc @ map snd (takeWhile (\<lambda>(k, _). prefix p k) items))"
  by (induction items arbitrary: acc) auto

lemma scan_limited:
  "length acc < n \<Longrightarrow>
   scan_index p (Some n) items None acc = Inr (take n (acc @ map snd (takeWhile (\<lambda>(k, _). prefix p k) items)))"
proof (induction items arbitrary: acc)
  case (Cons e items)
  obtain k x where e: "e = (k, x)"
    by force
  show ?case
  proof (cases "Suc (length acc) < n")
    case True
    thus ?thesis
      using Cons.IH [of "acc @ [x]"] e Cons.prems by simp
  next
    case False
    hence "n = Suc (length acc)"
      using Cons.prems by simp
    thus ?thesis
      using e by simp
  qed
qed simp

lemma scan_interrupted:
  "scan_index p limit items err acc = Inr r \<Longrightarrow> err \<noteq> None \<or> rest = [] \<Longrightarrow> scan_index p limit (items @ rest) None acc = Inr r"
  by (induction items arbitrary: acc) (auto split: if_splits option.splits)

text \<open>What a scan of an index finds: the identifiers of the jobs whose key has the prefix, each once.\<close>

definition indexed :: "(string, string) btree \<Rightarrow> string \<Rightarrow> string list" where
  "indexed t p = map snd (filter (\<lambda>(k, _). prefix p k) t)"

lemma bs_scan_spec:
  assumes "bdb_lawful D v" "limit \<noteq> Some 0"
  shows "\<exists>r. bs_scan D cf p limit st = (st, r) \<and>
     (r = Inr (case limit of None \<Rightarrow> indexed (v (fst st) cf) p | Some n \<Rightarrow> take n (indexed (v (fst st) cf) p)) \<or>
      \<not> bdb_reads_ok D \<and> (\<exists>e. r = Inl e))"
proof -
  obtain items err where it: "bd_iter D cf p (fst st) = (items, err)"
    by force
  obtain rest where rest: "bt_from p (v (fst st) cf) = items @ rest" "err \<noteq> None \<or> rest = []"
    using bdb_lawfulD(4,5) [OF assms(1), of cf p "fst st"] it by (cases err) (auto simp: prefix_def)
  have full: "scan_index p limit (items @ rest) None [] =
      Inr (case limit of None \<Rightarrow> indexed (v (fst st) cf) p | Some n \<Rightarrow> take n (indexed (v (fst st) cf) p))"
    using assms(2) scan_limited [of "[]" _ p "items @ rest"] from_prefix [OF bdb_lawfulD(1) [OF assms(1)], of p "fst st" cf]
    by (cases limit) (auto simp: scan_all indexed_def rest(1) [symmetric])
  show ?thesis
  proof (cases "scan_index p limit items err []")
    case (Inr r)
    thus ?thesis
      using scan_interrupted [OF Inr rest(2)] full by (simp add: bs_scan_def it)
  next
    case (Inl e)
    hence "err \<noteq> None"
      using full rest(2) by (cases err) auto
    hence "\<not> bdb_reads_ok D"
      using it unfolding bdb_reads_ok_def by (metis snd_conv)
    thus ?thesis
      using Inl by (simp add: bs_scan_def it)
  qed
qed

lemma bs_fetch_spec:
  assumes "store_rel D v J A st" "\<forall>k \<in> set ks. A k \<noteq> None"
  shows "\<exists>st' r. bs_fetch D J ks st = (st', r) \<and> store_rel D v J A st' \<and>
     (r = Inr (map (\<lambda>k. the (A k)) ks) \<or> \<not> bdb_reads_ok D \<and> (\<exists>e. r = Inl e))"
  using assms
proof (induction ks arbitrary: st)
  case (Cons k ks)
  obtain c r where g: "bs_get D J k st = ((fst st, c), r)" "store_rel D v J A (fst st, c)"
      "r = Inr (A k) \<or> \<not> bdb_reads_ok D \<and> (\<exists>e. r = Inl e)"
    using bs_get_spec [OF Cons.prems(1), of k] by blast
  obtain st' r' where f: "bs_fetch D J ks (fst st, c) = (st', r')" "store_rel D v J A st'"
      "r' = Inr (map (\<lambda>k. the (A k)) ks) \<or> \<not> bdb_reads_ok D \<and> (\<exists>e. r' = Inl e)"
    using Cons.IH [OF g(2)] Cons.prems(2) by auto
  show ?case
    using g f Cons.prems(2) by (cases st') (auto simp: io_bind_def)
qed simp

section \<open>Properties\<close>

text \<open>The right answer; an error only from a database whose reads can fail.\<close>

definition answers :: "'db batch_db \<Rightarrow> kv_error + 'a \<Rightarrow> 'a \<Rightarrow> bool" where
  "answers D r x \<longleftrightarrow> r = Inr x \<or> \<not> bdb_reads_ok D \<and> (\<exists>e. r = Inl e)"

definition bs_after :: "'db batch_db \<Rightarrow> ('s, 'f) job_serde \<Rightarrow> ('s, 'f) store_call list \<Rightarrow> 'db \<Rightarrow> ('s, 'f, 'db) job_store" where
  "bs_after D J calls db = fold (bs_exec D J) calls (db, [])"

definition jobs_after :: "'db batch_db \<Rightarrow> ('s, 'f) job_serde \<Rightarrow> ('s, 'f) store_call list \<Rightarrow> 'db \<Rightarrow> ('s, 'f) jobs" where
  "jobs_after D J calls db = spec_run (bs_spec D J) (bs_exec D J) calls (db, []) Map.empty"

lemma store_rel_empty: "bdb_lawful D v \<Longrightarrow> serde_lawful J \<Longrightarrow> \<forall>cf. v db cf = [] \<Longrightarrow> store_rel D v J Map.empty (db, [])"
  by (simp add: store_rel_def jobs_ok_def index_ok_def)

lemma status_prefix: "prefix (job_status_name s @ '':'') (status_index_key job) \<longleftrightarrow> bj_status job = s"
  by (cases s; cases "bj_status job") (simp_all add: status_index_key_def index_key_def job_status_name_def)

lemma prefix_field: "CHR '':'' \<notin> set u \<Longrightarrow> CHR '':'' \<notin> set w \<Longrightarrow> prefix (u @ '':'') (w @ '':'' @ r) \<longleftrightarrow> w = u"
proof (induction u arbitrary: w)
  case Nil
  thus ?case
    by (cases w) auto
next
  case (Cons c u)
  thus ?case
    by (cases w) auto
qed

lemma user_prefix:
  "CHR '':'' \<notin> set u \<Longrightarrow> CHR '':'' \<notin> set (bj_created_by job) \<Longrightarrow> prefix (u @ '':'') (user_index_key job) \<longleftrightarrow> bj_created_by job = u"
  using prefix_field [of u "bj_created_by job"] by (simp add: user_index_key_def index_key_def)

lemma list_scanned:
  assumes rel: "store_rel D v J A st" and ok: "limit \<noteq> Some 0" "set (indexed (v (fst st) cf) p) \<subseteq> {x. A x \<noteq> None}"
    and f: "\<And>xs. set (f xs) \<subseteq> set xs"
  shows "\<exists>st' r. io_bind (bs_scan D cf p limit) (\<lambda>found. bs_fetch D J (f found)) st = (st', r) \<and>
     answers D r (map (\<lambda>x. the (A x)) (f (case limit of None \<Rightarrow> indexed (v (fst st) cf) p | Some n \<Rightarrow> take n (indexed (v (fst st) cf) p))))"
proof -
  let ?xs = "case limit of None \<Rightarrow> indexed (v (fst st) cf) p | Some n \<Rightarrow> take n (indexed (v (fst st) cf) p)"
  have "set ?xs \<subseteq> {x. A x \<noteq> None}"
    using ok(2) by (cases limit) (auto dest: in_set_takeD)
  hence sub: "\<forall>k \<in> set (f ?xs). A k \<noteq> None"
    using f by blast
  consider "bs_scan D cf p limit st = (st, Inr ?xs)" | e where "bs_scan D cf p limit st = (st, Inl e)" "\<not> bdb_reads_ok D"
    using bs_scan_spec [OF store_relD(1) [OF rel] ok(1), of cf p st] by blast
  thus ?thesis
    using bs_fetch_spec [OF rel sub] by cases (auto simp: io_bind_def answers_def)
qed

lemma by_status_found:
  assumes "store_rel D v J A st"
  shows "distinct (indexed (v (fst st) cf_index_by_status) (job_status_name s @ '':''))"
    "set (indexed (v (fst st) cf_index_by_status) (job_status_name s @ '':'')) = {x. \<exists>job. A x = Some job \<and> bj_status job = s}"
proof -
  note i = by_status.index_values [OF store_relD(7) [OF assms]]
  show "distinct (indexed (v (fst st) cf_index_by_status) (job_status_name s @ '':''))"
    unfolding indexed_def using i(1) by (rule distinct_map_filter)
  show "set (indexed (v (fst st) cf_index_by_status) (job_status_name s @ '':'')) = {x. \<exists>job. A x = Some job \<and> bj_status job = s}"
    unfolding indexed_def i(2) by (simp add: status_prefix)
qed

lemma by_user_found:
  assumes "store_rel D v J A st"
  shows "distinct (indexed (v (fst st) cf_index_by_user) p)"
    "set (indexed (v (fst st) cf_index_by_user) p) = {x. \<exists>job. A x = Some job \<and> prefix p (user_index_key job)}"
  using by_user.index_values [OF store_relD(6) [OF assms]] by (simp_all add: indexed_def distinct_map_filter)

text \<open>
  C24. The store keeps the jobs, its indexes and its cache together: from an empty database, after any calls, whichever of them fail, a lookup
  returns the job that the successful calls left, a count the number of jobs with a status, a list by status with a limit
  above zero the first of exactly these jobs (with the limit zero the code returns one), and a list by user a page of exactly
  the jobs of the user, the newest of the page first, provided user names contain no colon. An error comes only from a
  database whose reads can fail. The conditions on the callers: they create jobs under new identifiers without a colon, they
  update jobs that exist and keep in an update who created the job and when (an update that changes them leaves the old
  entry of the user index behind), and they do not go on after a failed \<^verbatim>\<open>clear_all\<close>.
\<close>

theorem batch_store_refines:
  assumes "bdb_lawful D v" "serde_lawful J" "\<forall>cf. v db cf = []"
    and "guarded_run (bs_guard D v J) (bs_exec D J) calls (db, [])"
    and "A = jobs_after D J calls db" "st = bs_after D J calls db"
  shows "answers D (snd (bs_get D J k st)) (A k) \<and>
     answers D (snd (bs_count_by_status D s st)) (card {x. \<exists>job. A x = Some job \<and> bj_status job = s}) \<and>
     (\<exists>xs. distinct xs \<and> set xs = {x. \<exists>job. A x = Some job \<and> bj_status job = s} \<and>
        (\<forall>n > 0. answers D (snd (bs_list_by_status D J s n st)) (map (\<lambda>x. the (A x)) (take n xs)))) \<and>
     (CHR '':'' \<notin> set u \<and> (\<forall>x job. A x = Some job \<longrightarrow> CHR '':'' \<notin> set (bj_created_by job)) \<longrightarrow>
      (\<exists>xs. distinct xs \<and> set xs = {x. \<exists>job. A x = Some job \<and> bj_created_by job = u} \<and>
        (\<forall>n m. answers D (snd (bs_list_by_user D J u n m st)) (newest_first (map (\<lambda>x. the (A x)) (take n (drop m xs)))))))"
proof (intro conjI impI)
  have rel: "store_rel D v J A st"
    using bs.run_related [OF store_rel_empty [OF assms(1-3)] assms(4)] by (simp add: assms(5,6) jobs_after_def bs_after_def)
  show "answers D (snd (bs_get D J k st)) (A k)"
    using bs_get_spec [OF rel, of k] by (auto simp: answers_def)
  let ?p = "job_status_name s @ '':''" and ?xs = "indexed (v (fst st) cf_index_by_status) (job_status_name s @ '':'')"
  note found = by_status_found [OF rel, of s]
  obtain r where "bs_scan D cf_index_by_status ?p None st = (st, r)" "r = Inr ?xs \<or> \<not> bdb_reads_ok D \<and> (\<exists>e. r = Inl e)"
    using bs_scan_spec [OF assms(1), of None cf_index_by_status ?p st] by auto
  moreover have "length ?xs = card {x. \<exists>job. A x = Some job \<and> bj_status job = s}"
    using distinct_card [OF found(1)] found(2) by simp
  ultimately show "answers D (snd (bs_count_by_status D s st)) (card {x. \<exists>job. A x = Some job \<and> bj_status job = s})"
    by (auto simp: bs_count_by_status_def io_bind_def answers_def)
  have known: "set ?xs \<subseteq> {x. A x \<noteq> None}"
    using found(2) by auto
  have "answers D (snd (bs_list_by_status D J s n st)) (map (\<lambda>x. the (A x)) (take n ?xs))" if "n > 0" for n
    using list_scanned [OF rel _ known, of "Some n" "\<lambda>xs. xs"] that by (auto simp: bs_list_by_status_def)
  thus "\<exists>xs. distinct xs \<and> set xs = {x. \<exists>job. A x = Some job \<and> bj_status job = s} \<and>
        (\<forall>n > 0. answers D (snd (bs_list_by_status D J s n st)) (map (\<lambda>x. the (A x)) (take n xs)))"
    using found by blast
  assume u: "CHR '':'' \<notin> set u \<and> (\<forall>x job. A x = Some job \<longrightarrow> CHR '':'' \<notin> set (bj_created_by job))"
  let ?ys = "indexed (v (fst st) cf_index_by_user) (u @ '':'')"
  note mine = by_user_found [OF rel, of "u @ '':''"]
  have "set ?ys = {x. \<exists>job. A x = Some job \<and> bj_created_by job = u}"
    using mine(2) u user_prefix [of u] by blast
  moreover have "answers D (snd (bs_list_by_user D J u n m st)) (newest_first (map (\<lambda>x. the (A x)) (take n (drop m ?ys))))" for n m
  proof -
    have eq: "bs_list_by_user D J u n m st =
        io_bind (io_bind (bs_scan D cf_index_by_user (u @ '':'') None) (\<lambda>found. bs_fetch D J (take n (drop m found))))
          (\<lambda>jobs. io_return (newest_first jobs)) st"
      by (simp add: bs_list_by_user_def io_bind_def split: prod.splits sum.splits)
    have sub: "set (take n (drop m xs)) \<subseteq> set xs" for xs :: "string list"
      by (meson in_set_dropD in_set_takeD subsetI)
    have known: "set ?ys \<subseteq> {x. A x \<noteq> None}"
      using mine(2) by auto
    obtain st' r where "io_bind (bs_scan D cf_index_by_user (u @ '':'') None) (\<lambda>found. bs_fetch D J (take n (drop m found))) st = (st', r)"
        "answers D r (map (\<lambda>x. the (A x)) (take n (drop m ?ys)))"
      using list_scanned [OF rel _ known sub, of None] by auto
    thus ?thesis
      unfolding eq by (auto simp: answers_def io_bind_Inr io_bind_Inl)
  qed
  ultimately show "\<exists>xs. distinct xs \<and> set xs = {x. \<exists>job. A x = Some job \<and> bj_created_by job = u} \<and>
        (\<forall>n m. answers D (snd (bs_list_by_user D J u n m st)) (newest_first (map (\<lambda>x. the (A x)) (take n (drop m xs)))))"
    using mine(1) by blast
qed

section \<open>Examples\<close>

text \<open>A database that keeps the operations written to it, and an encoding that knows two states of one job.\<close>

definition log_view :: "batch_op list \<Rightarrow> string \<Rightarrow> (string, string) btree" where
  "log_view db = fold apply_op db (\<lambda>_. [])"

definition log_db :: "batch_op list batch_db" where
  "log_db = \<lparr>bd_get = (\<lambda>cf k db. Inr (bt_get (log_view db cf) k)), bd_write = (\<lambda>ops db. Inr (db @ ops)),
     bd_iter = (\<lambda>cf k db. (bt_from k (log_view db cf), None))\<rparr>"

lemma log_db_simps [simp]:
  "bd_get log_db cf k db = Inr (bt_get (log_view db cf) k)" "bd_write log_db ops db = Inr (db @ ops)"
  "bd_iter log_db cf k db = (bt_from k (log_view db cf), None)"
  by (simp_all add: log_db_def)

lemma log_view_wf: "(\<forall>cf. bt_wf (w cf)) \<Longrightarrow> bt_wf (fold apply_op ops w cf)"
proof (induction ops arbitrary: w)
  case (Cons op ops)
  have "\<forall>cf. bt_wf (apply_op op w cf)"
    using Cons.prems by (simp add: apply_op_def bt_wf_insert bt_wf_remove split: batch_op.splits)
  thus ?case
    using Cons.IH by simp
qed simp

lemma log_db_lawful: "bdb_lawful log_db log_view" "bdb_reads_ok log_db"
  by (simp_all add: bdb_lawful_def bdb_reads_ok_def log_view_def log_view_wf)

definition demo_batch :: "string \<Rightarrow> batch_status \<Rightarrow> (unit, unit) batch_job" where
  "demo_batch user s =
     (batch_job_new \<lparr>pc_of = (\<lambda>_ _. ()), pc_zero = ()\<rparr> 7 ''j1'' ''load'' ''w''
       \<lparr>bc_max_parallel = 1, bc_stop_on_error = False, bc_retry_failed = False, bc_max_retries = 0,
        bc_transaction_mode = PerFile\<rparr> user)\<lparr>bj_status := s\<rparr>"

definition demo_serde :: "string \<Rightarrow> (unit, unit) job_serde" where
  "demo_serde user =
     \<lparr>jd_enc = (\<lambda>job. if job = demo_batch user BPending then Some ''p'' else if job = demo_batch user BRunning then Some ''r'' else None),
      jd_dec = (\<lambda>json. if json = ''p'' then Some (demo_batch user BPending) else if json = ''r'' then Some (demo_batch user BRunning) else None)\<rparr>"

lemma demo_serde_lawful: "serde_lawful (demo_serde user)"
  by (auto simp: serde_lawful_def demo_serde_def split: if_splits)

lemma demo_batch_simps [simp]:
  "bj_job_id (demo_batch user s) = ''j1''" "bj_status (demo_batch user s) = s" "bj_created_by (demo_batch user s) = user"
  "bj_created_at (demo_batch user s) = 7"
  by (simp_all add: demo_batch_def batch_job_new_def)

lemma demo_enc [simp]:
  "jd_enc (demo_serde user) (demo_batch user BPending) = Some ''p''" "jd_enc (demo_serde user) (demo_batch user BRunning) = Some ''r''"
  "jd_dec (demo_serde user) ''p'' = Some (demo_batch user BPending)" "jd_dec (demo_serde user) ''r'' = Some (demo_batch user BRunning)"
proof -
  have "demo_batch user BRunning \<noteq> demo_batch user BPending"
    by (metis batch_status.distinct(3) demo_batch_simps(2))
  thus "jd_enc (demo_serde user) (demo_batch user BRunning) = Some ''r''"
    by (simp add: demo_serde_def)
qed (simp_all add: demo_serde_def)

definition demo_store_calls :: "string \<Rightarrow> (unit, unit) store_call list" where
  "demo_store_calls user = [SCreate (demo_batch user BPending), SUpdate (demo_batch user BRunning)]"

lemma demo_create:
  "bs_run log_db (demo_serde user) (SCreate (demo_batch user BPending)) ([], []) =
     (([BPut cf_batch_jobs ''j1'' ''p'', BPut cf_index_by_user (index_key user 7 ''j1'') ''j1'',
        BPut cf_index_by_status (index_key ''Pending'' 7 ''j1'') ''j1''], [(''j1'', demo_batch user BPending)]), True)"
  by (simp add: bs_run_def bs_create_def Let_def io_bind_def io_then_def bs_write_def bs_cache_def user_index_key_def
      status_index_key_def job_status_name_def)

lemma demo_update:
  "bs_run log_db (demo_serde user) (SUpdate (demo_batch user BRunning)) (db, [(''j1'', demo_batch user BPending)]) =
     ((db @ [BPut cf_batch_jobs ''j1'' ''r'', BDel cf_index_by_status (index_key ''Pending'' 7 ''j1''),
        BPut cf_index_by_status (index_key ''Running'' 7 ''j1'') ''j1''], [(''j1'', demo_batch user BRunning)]), True)"
  by (simp add: bs_run_def bs_update_def bs_get_def reindex_status_def Let_def io_bind_def io_then_def bs_write_def
      bs_cache_def status_index_key_def job_status_name_def)

lemma demo_guarded: "guarded_run (bs_guard log_db log_view (demo_serde user)) (bs_exec log_db (demo_serde user)) (demo_store_calls user) ([], [])"
  by (simp add: demo_store_calls_def bs_guard_def bs_exec_def demo_create demo_update log_view_def apply_op_def)

lemma demo_jobs: "jobs_after log_db (demo_serde user) (demo_store_calls user) [] = [''j1'' \<mapsto> demo_batch user BRunning]"
  by (simp add: jobs_after_def demo_store_calls_def bs_spec_def bs_exec_def demo_create demo_update)

lemma demo_after:
  "bs_after log_db (demo_serde user) (demo_store_calls user) [] =
     ([BPut cf_batch_jobs ''j1'' ''p'', BPut cf_index_by_user (index_key user 7 ''j1'') ''j1'',
       BPut cf_index_by_status (index_key ''Pending'' 7 ''j1'') ''j1'', BPut cf_batch_jobs ''j1'' ''r'',
       BDel cf_index_by_status (index_key ''Pending'' 7 ''j1''),
       BPut cf_index_by_status (index_key ''Running'' 7 ''j1'') ''j1''], [(''j1'', demo_batch user BRunning)])"
  by (simp add: bs_after_def demo_store_calls_def bs_exec_def demo_create demo_update)

theorem batch_store_refines_witness:
  "snd (bs_get log_db (demo_serde ''ann'') ''j1'' (bs_after log_db (demo_serde ''ann'') (demo_store_calls ''ann'') [])) =
     Inr (Some (demo_batch ''ann'' BRunning)) \<and>
   snd (bs_count_by_status log_db BPending (bs_after log_db (demo_serde ''ann'') (demo_store_calls ''ann'') [])) = Inr 0 \<and>
   snd (bs_list_by_user log_db (demo_serde ''ann'') ''ann'' 10 0 (bs_after log_db (demo_serde ''ann'') (demo_store_calls ''ann'') [])) =
     Inr [demo_batch ''ann'' BRunning]"
proof -
  let ?J = "demo_serde ''ann''" and ?cs = "demo_store_calls ''ann''"
  have empty: "\<forall>cf. log_view [] cf = []"
    by (simp add: log_view_def)
  have answer: "answers log_db r x \<longleftrightarrow> r = Inr x" for r :: "kv_error + 'a" and x
    using log_db_lawful(2) by (simp add: answers_def)
  note refines = batch_store_refines [where k = "''j1''" and s = BPending and u = "''ann''",
      OF log_db_lawful(1) demo_serde_lawful empty demo_guarded [of "''ann''"] refl refl, unfolded demo_jobs answer]
  have owner: "CHR '':'' \<notin> set ''ann'' \<and>
      (\<forall>x job. [''j1'' \<mapsto> demo_batch ''ann'' BRunning] x = Some job \<longrightarrow> CHR '':'' \<notin> set (bj_created_by job))"
    by simp
  obtain xs where xs: "distinct xs" "set xs = {x. \<exists>job. [''j1'' \<mapsto> demo_batch ''ann'' BRunning] x = Some job \<and> bj_created_by job = ''ann''}"
      "\<forall>n m. snd (bs_list_by_user log_db ?J ''ann'' n m (bs_after log_db ?J ?cs [])) =
         Inr (newest_first (map (\<lambda>x. the ([''j1'' \<mapsto> demo_batch ''ann'' BRunning] x)) (take n (drop m xs))))"
    using refines owner by blast
  have set: "set xs = {''j1''}"
    unfolding xs(2) by auto
  hence "length xs = 1"
    using distinct_card [OF xs(1)] by simp
  hence "xs = [''j1'']"
    using set by (cases xs) simp_all
  hence "snd (bs_list_by_user log_db ?J ''ann'' 10 0 (bs_after log_db ?J ?cs [])) = Inr [demo_batch ''ann'' BRunning]"
    using xs(3) by (simp add: newest_first_def)
  moreover have "{x. \<exists>job. [''j1'' \<mapsto> demo_batch ''ann'' BRunning] x = Some job \<and> bj_status job = BPending} = {}"
    by (auto split: if_splits)
  ultimately show ?thesis
    using refines by simp
qed

text \<open>A user sees the jobs of every user whose name begins with the own name and a colon.\<close>

lemma colon_names_leak:
  "snd (bs_list_by_user log_db (demo_serde ''a:b'') ''a'' 10 0 (bs_after log_db (demo_serde ''a:b'') (demo_store_calls ''a:b'') [])) =
     Inr [demo_batch ''a:b'' BRunning]"
  by (simp add: demo_after bs_list_by_user_def bs_scan_def io_bind_def log_view_def apply_op_def bt_from_def index_key_def bs_get_def
      newest_first_def)

text \<open>Updating a job that was not created stores it without an index entry.\<close>

lemma update_without_create:
  "snd (bs_count_by_status log_db BRunning (bs_exec log_db (demo_serde u) (SUpdate (demo_batch u BRunning)) ([], []))) = Inr 0"
  by (simp add: bs_exec_def bs_run_def bs_update_def bs_get_def bs_lookup_def reindex_status_def Let_def io_bind_def io_then_def bs_write_def
      bs_cache_def bs_count_by_status_def bs_scan_def log_view_def apply_op_def bt_from_def)

end
