(* ===== verification/WorkflowDag.thy ===== *)
theory WorkflowDag
  imports ApprovalFlow "HOL-Library.Multiset"
begin

text \<open>
  Model of \<^verbatim>\<open>arcxa-core/src/orchestration/workflow/dag.rs\<close> and of the validation in \<^verbatim>\<open>definition.rs\<close>: the dependency graph of a
  workflow, its execution order and its parallel batches. The graph is one of the petgraph library, whose operations are the
  record \<open>petgraph\<close>; \<open>petgraph_ok\<close> states what its documentation says of them, in terms of the node weights and the edges of a
  graph: indices count up from zero, the cycle check and the topological sort are right, and neighbours are those of the edges.
  A step is its identifier, its dependencies and the rest \<open>'c\<close>, of which only the validation is used.
\<close>

section \<open>Steps and their validation\<close>

record 'c workflow_step =
  st_id :: string
  st_config :: 'c
  st_depends_on :: "string list"

datatype dag_error =
    NoSteps
  | DuplicateStep string
  | EmptyStepId
  | BadConfig string
  | UnknownDependency string string
  | CyclicDependencies
  | NoTopologicalOrder
  | UnknownStep string

definition validate_step :: "('c \<Rightarrow> string option) \<Rightarrow> 'c workflow_step \<Rightarrow> dag_error + unit" where
  "validate_step config_error s =
     (if st_id s = [] then Inl EmptyStepId
      else case config_error (st_config s) of Some e \<Rightarrow> Inl (BadConfig e) | None \<Rightarrow> Inr ())"

fun duplicate_ids :: "string set \<Rightarrow> 'c workflow_step list \<Rightarrow> dag_error + unit" where
  "duplicate_ids seen [] = Inr ()"
| "duplicate_ids seen (s # ss) = (if st_id s \<in> seen then Inl (DuplicateStep (st_id s)) else duplicate_ids (insert (st_id s) seen) ss)"

fun validate_steps :: "('c \<Rightarrow> string option) \<Rightarrow> 'c workflow_step list \<Rightarrow> dag_error + unit" where
  "validate_steps config_error [] = Inr ()"
| "validate_steps config_error (s # ss) = try_bind (validate_step config_error s) (\<lambda>_. validate_steps config_error ss)"

definition validate_definition :: "('c \<Rightarrow> string option) \<Rightarrow> 'c workflow_step list \<Rightarrow> dag_error + unit" where
  "validate_definition config_error ss =
     (if ss = [] then Inl NoSteps
      else try_bind (duplicate_ids {} ss) (\<lambda>_. validate_steps config_error ss))"

section \<open>The graph library\<close>

record 'g petgraph =
  pg_new :: 'g
  pg_add_node :: "string \<Rightarrow> 'g \<Rightarrow> 'g \<times> nat"
  pg_add_edge :: "nat \<Rightarrow> nat \<Rightarrow> 'g \<Rightarrow> 'g"
  pg_incoming :: "nat \<Rightarrow> 'g \<Rightarrow> nat list"
  pg_outgoing :: "nat \<Rightarrow> 'g \<Rightarrow> nat list"
  pg_weight :: "nat \<Rightarrow> 'g \<Rightarrow> string"
  pg_is_cyclic :: "'g \<Rightarrow> bool"
  pg_toposort :: "'g \<Rightarrow> nat list option"

definition sorts :: "nat list \<Rightarrow> nat \<Rightarrow> (nat \<times> nat) set \<Rightarrow> bool" where
  "sorts xs n E \<longleftrightarrow> distinct xs \<and> set xs = {..<n} \<and> (\<forall>ys i zs. xs = ys @ i # zs \<longrightarrow> (\<forall>a. (a, i) \<in> E \<longrightarrow> a \<in> set ys))"

definition petgraph_ok :: "'g petgraph \<Rightarrow> ('g \<Rightarrow> string list) \<Rightarrow> ('g \<Rightarrow> (nat \<times> nat) set) \<Rightarrow> bool" where
  "petgraph_ok G nodes edges \<longleftrightarrow>
     nodes (pg_new G) = [] \<and> edges (pg_new G) = {} \<and>
     (\<forall>w g. snd (pg_add_node G w g) = length (nodes g) \<and> nodes (fst (pg_add_node G w g)) = nodes g @ [w] \<and>
        edges (fst (pg_add_node G w g)) = edges g) \<and>
     (\<forall>a b g. a < length (nodes g) \<longrightarrow> b < length (nodes g) \<longrightarrow>
        nodes (pg_add_edge G a b g) = nodes g \<and> edges (pg_add_edge G a b g) = insert (a, b) (edges g)) \<and>
     (\<forall>i g. set (pg_incoming G i g) = {a. (a, i) \<in> edges g} \<and> set (pg_outgoing G i g) = {b. (i, b) \<in> edges g}) \<and>
     (\<forall>i g. i < length (nodes g) \<longrightarrow> pg_weight G i g = nodes g ! i) \<and>
     (\<forall>g. pg_is_cyclic G g \<longleftrightarrow> \<not> acyclic (edges g)) \<and>
     (\<forall>g. case pg_toposort G g of None \<Rightarrow> \<not> acyclic (edges g) | Some xs \<Rightarrow> sorts xs (length (nodes g)) (edges g))"

section \<open>The executor\<close>

record ('g, 'c) dag_executor =
  dg_graph :: 'g
  dg_step_index :: "string \<Rightarrow> nat option"
  dg_index_step :: "nat \<Rightarrow> 'c workflow_step option"

fun add_nodes :: "'g petgraph \<Rightarrow> 'c workflow_step list \<Rightarrow> ('g, 'c) dag_executor \<Rightarrow> ('g, 'c) dag_executor" where
  "add_nodes G [] d = d"
| "add_nodes G (s # ss) d =
     (let (g, idx) = pg_add_node G (st_id s) (dg_graph d)
      in add_nodes G ss \<lparr>dg_graph = g, dg_step_index = (dg_step_index d)(st_id s \<mapsto> idx), dg_index_step = (dg_index_step d)(idx \<mapsto> s)\<rparr>)"

fun add_dependencies :: "'g petgraph \<Rightarrow> (string \<Rightarrow> nat option) \<Rightarrow> string \<Rightarrow> nat \<Rightarrow> string list \<Rightarrow> 'g \<Rightarrow> dag_error + 'g" where
  "add_dependencies G index sid step_idx [] g = Inr g"
| "add_dependencies G index sid step_idx (dep # deps) g =
     (case index dep of
        None \<Rightarrow> Inl (UnknownDependency sid dep)
      | Some dep_idx \<Rightarrow> add_dependencies G index sid step_idx deps (pg_add_edge G dep_idx step_idx g))"

text \<open>\<^verbatim>\<open>step_index[&step.id]\<close> is always there: the first loop put it in.\<close>

fun add_edges :: "'g petgraph \<Rightarrow> (string \<Rightarrow> nat option) \<Rightarrow> 'c workflow_step list \<Rightarrow> 'g \<Rightarrow> dag_error + 'g" where
  "add_edges G index [] g = Inr g"
| "add_edges G index (s # ss) g =
     try_bind (add_dependencies G index (st_id s) (the (index (st_id s))) (st_depends_on s) g) (add_edges G index ss)"

definition from_workflow :: "'g petgraph \<Rightarrow> 'c workflow_step list \<Rightarrow> dag_error + ('g, 'c) dag_executor" where
  "from_workflow G ss =
     (let d = add_nodes G ss \<lparr>dg_graph = pg_new G, dg_step_index = (\<lambda>_. None), dg_index_step = (\<lambda>_. None)\<rparr>
      in try_bind (add_edges G (dg_step_index d) ss (dg_graph d)) (\<lambda>g.
           if pg_is_cyclic G g then Inl CyclicDependencies else Inr (d\<lparr>dg_graph := g\<rparr>)))"

definition execution_order :: "'g petgraph \<Rightarrow> ('g, 'c) dag_executor \<Rightarrow> dag_error + 'c workflow_step list" where
  "execution_order G d =
     (case pg_toposort G (dg_graph d) of
        None \<Rightarrow> Inl NoTopologicalOrder
      | Some xs \<Rightarrow> Inr (map (the \<circ> dg_index_step d) xs))"

definition raise_level :: "(nat \<Rightarrow> nat option) \<Rightarrow> nat \<Rightarrow> nat \<Rightarrow> nat" where
  "raise_level visited incoming level = (case visited incoming of Some dep_level \<Rightarrow> max level (dep_level + 1) | None \<Rightarrow> level)"

definition node_level :: "(nat \<Rightarrow> nat option) \<Rightarrow> nat list \<Rightarrow> nat" where
  "node_level visited incoming = fold (raise_level visited) incoming 0"

definition push_batch :: "nat \<Rightarrow> 'a \<Rightarrow> 'a list list \<Rightarrow> 'a list list" where
  "push_batch level x batches =
     (let bs = batches @ replicate (level + 1 - length batches) [] in bs[level := bs ! level @ [x]])"

fun level_loop ::
  "'g petgraph \<Rightarrow> ('g, 'c) dag_executor \<Rightarrow> nat list \<Rightarrow> (nat \<Rightarrow> nat option) \<Rightarrow> 'c workflow_step list list \<Rightarrow>
   (nat \<Rightarrow> nat option) \<times> 'c workflow_step list list" where
  "level_loop G d [] visited batches = (visited, batches)"
| "level_loop G d (i # is) visited batches =
     (let level = node_level visited (pg_incoming G i (dg_graph d))
      in level_loop G d is (visited(i \<mapsto> level)) (push_batch level (the (dg_index_step d i)) batches))"

definition parallel_batches :: "'g petgraph \<Rightarrow> ('g, 'c) dag_executor \<Rightarrow> dag_error + 'c workflow_step list list" where
  "parallel_batches G d =
     (case pg_toposort G (dg_graph d) of
        None \<Rightarrow> Inl NoTopologicalOrder
      | Some xs \<Rightarrow> Inr (snd (level_loop G d xs (\<lambda>_. None) [])))"

definition get_dependencies :: "'g petgraph \<Rightarrow> string \<Rightarrow> ('g, 'c) dag_executor \<Rightarrow> dag_error + string list" where
  "get_dependencies G sid d =
     (case dg_step_index d sid of
        None \<Rightarrow> Inl (UnknownStep sid)
      | Some i \<Rightarrow> Inr (map (\<lambda>j. pg_weight G j (dg_graph d)) (pg_incoming G i (dg_graph d))))"

definition get_dependents :: "'g petgraph \<Rightarrow> string \<Rightarrow> ('g, 'c) dag_executor \<Rightarrow> dag_error + string list" where
  "get_dependents G sid d =
     (case dg_step_index d sid of
        None \<Rightarrow> Inl (UnknownStep sid)
      | Some i \<Rightarrow> Inr (map (\<lambda>j. pg_weight G j (dg_graph d)) (pg_outgoing G i (dg_graph d))))"

section \<open>The graph of a workflow\<close>

lemma petgraph_okD:
  assumes "petgraph_ok G nodes edges"
  shows "nodes (pg_new G) = []" "edges (pg_new G) = {}"
    "pg_add_node G w g = (g', i) \<Longrightarrow> i = length (nodes g) \<and> nodes g' = nodes g @ [w] \<and> edges g' = edges g"
    "a < length (nodes g) \<Longrightarrow> b < length (nodes g) \<Longrightarrow> nodes (pg_add_edge G a b g) = nodes g \<and> edges (pg_add_edge G a b g) = insert (a, b) (edges g)"
    "set (pg_incoming G j g) = {a. (a, j) \<in> edges g}" "set (pg_outgoing G j g) = {b. (j, b) \<in> edges g}"
    "j < length (nodes g) \<Longrightarrow> pg_weight G j g = nodes g ! j" "pg_is_cyclic G g \<longleftrightarrow> \<not> acyclic (edges g)"
    "pg_toposort G g = Some xs \<Longrightarrow> sorts xs (length (nodes g)) (edges g)" "pg_toposort G g = None \<Longrightarrow> \<not> acyclic (edges g)"
proof -
  note ok = assms [unfolded petgraph_ok_def]
  have top: "case pg_toposort G g of None \<Rightarrow> \<not> acyclic (edges g) | Some xs \<Rightarrow> sorts xs (length (nodes g)) (edges g)" using ok by blast
  show "nodes (pg_new G) = []" "edges (pg_new G) = {}" "set (pg_incoming G j g) = {a. (a, j) \<in> edges g}"
    "set (pg_outgoing G j g) = {b. (j, b) \<in> edges g}" "pg_is_cyclic G g \<longleftrightarrow> \<not> acyclic (edges g)"
    using ok by blast+
  show "j < length (nodes g) \<Longrightarrow> pg_weight G j g = nodes g ! j"
    "a < length (nodes g) \<Longrightarrow> b < length (nodes g) \<Longrightarrow> nodes (pg_add_edge G a b g) = nodes g \<and> edges (pg_add_edge G a b g) = insert (a, b) (edges g)"
    using ok by blast+
  show "pg_toposort G g = Some xs \<Longrightarrow> sorts xs (length (nodes g)) (edges g)" "pg_toposort G g = None \<Longrightarrow> \<not> acyclic (edges g)"
    using top by simp_all
  have "snd (pg_add_node G w g) = length (nodes g) \<and> nodes (fst (pg_add_node G w g)) = nodes g @ [w] \<and> edges (fst (pg_add_node G w g)) = edges g"
    using ok by blast
  then show "pg_add_node G w g = (g', i) \<Longrightarrow> i = length (nodes g) \<and> nodes g' = nodes g @ [w] \<and> edges g' = edges g" by auto
qed

text \<open>The last step with an identifier is the one that the index keeps.\<close>

definition index_of :: "'c workflow_step list \<Rightarrow> string \<Rightarrow> nat option" where
  "index_of ss = map_of (rev (zip (map st_id ss) [0..<length ss]))"

lemma index_of_snoc: "index_of (ss @ [s]) = (index_of ss)(st_id s \<mapsto> length ss)"
  by (rule ext) (simp add: index_of_def)

lemma index_of_Some: "index_of ss sid = Some i \<Longrightarrow> i < length ss \<and> st_id (ss ! i) = sid"
  using map_of_SomeD [of "rev (zip (map st_id ss) [0..<length ss])" sid i] by (auto simp: index_of_def set_zip)

lemma index_of_None: "index_of ss sid = None \<longleftrightarrow> sid \<notin> st_id ` set ss"
  by (force simp: index_of_def map_of_eq_None_iff set_zip in_set_conv_nth image_iff)

lemma index_of_distinct: "distinct (map st_id ss) \<Longrightarrow> i < length ss \<Longrightarrow> index_of ss (st_id (ss ! i)) = Some i"
  using index_of_None [of ss "st_id (ss ! i)"] index_of_Some [of ss "st_id (ss ! i)"]
  by (cases "index_of ss (st_id (ss ! i))") (auto simp: distinct_conv_nth)

lemma add_nodes_result:
  assumes ok: "petgraph_ok G nodes edges"
    and "nodes (dg_graph d) = map st_id done'" "edges (dg_graph d) = {}" "dg_step_index d = index_of done'"
      "dg_index_step d = (\<lambda>i. if i < length done' then Some (done' ! i) else None)"
  shows "nodes (dg_graph (add_nodes G ss d)) = map st_id (done' @ ss) \<and> edges (dg_graph (add_nodes G ss d)) = {} \<and>
    dg_step_index (add_nodes G ss d) = index_of (done' @ ss) \<and>
    dg_index_step (add_nodes G ss d) = (\<lambda>i. if i < length (done' @ ss) then Some ((done' @ ss) ! i) else None)"
  using assms(2-5)
proof (induction ss arbitrary: d done')
  case (Cons s ss)
  obtain g i where add: "pg_add_node G (st_id s) (dg_graph d) = (g, i)" by force
  note node = petgraph_okD(3) [OF ok add]
  let ?d = "\<lparr>dg_graph = g, dg_step_index = (dg_step_index d)(st_id s \<mapsto> i), dg_index_step = (dg_index_step d)(i \<mapsto> s)\<rparr>"
  have "nodes (dg_graph ?d) = map st_id (done' @ [s])" "edges (dg_graph ?d) = {}" "dg_step_index ?d = index_of (done' @ [s])"
    using node Cons.prems by (simp_all add: index_of_snoc)
  moreover have "dg_index_step ?d = (\<lambda>i. if i < length (done' @ [s]) then Some ((done' @ [s]) ! i) else None)"
    using node Cons.prems by (auto simp: nth_append fun_eq_iff)
  ultimately show ?case using Cons.IH [of ?d "done' @ [s]", unfolded append_assoc append_Cons append_Nil] by (simp add: add)
qed (simp cong: if_cong)

definition edges_of :: "(string \<Rightarrow> nat option) \<Rightarrow> 'c workflow_step list \<Rightarrow> (nat \<times> nat) set" where
  "edges_of index ss = {(j, i). \<exists>s \<in> set ss. \<exists>dep \<in> set (st_depends_on s). index dep = Some j \<and> index (st_id s) = Some i}"

definition known_dependencies :: "(string \<Rightarrow> nat option) \<Rightarrow> 'c workflow_step list \<Rightarrow> bool" where
  "known_dependencies index ss \<longleftrightarrow> (\<forall>s \<in> set ss. \<forall>dep \<in> set (st_depends_on s). index dep \<noteq> None)"

lemma add_dependencies_result:
  assumes ok: "petgraph_ok G nodes edges" and "k < length (nodes g)" "\<And>dep j. index dep = Some j \<Longrightarrow> j < length (nodes g)"
  shows "case add_dependencies G index sid k deps g of
      Inl err \<Rightarrow> \<exists>dep \<in> set deps. index dep = None \<and> err = UnknownDependency sid dep
    | Inr g' \<Rightarrow> nodes g' = nodes g \<and> edges g' = edges g \<union> {(j, i). i = k \<and> (\<exists>dep \<in> set deps. index dep = Some j)} \<and>
        (\<forall>dep \<in> set deps. index dep \<noteq> None)"
  using assms(2,3)
proof (induction deps arbitrary: g)
  case (Cons dep deps)
  show ?case
  proof (cases "index dep")
    case (Some j)
    note edge = petgraph_okD(4) [OF ok Cons.prems(2) [OF Some] Cons.prems(1)]
    from Cons.IH [of "pg_add_edge G j k g"] edge Cons.prems Some show ?thesis
      by (auto split: sum.splits)
  qed simp
qed auto

lemma add_edges_result:
  assumes ok: "petgraph_ok G nodes edges" and "\<And>dep j. index dep = Some j \<Longrightarrow> j < length (nodes g)" "\<And>s. s \<in> set ss \<Longrightarrow> index (st_id s) \<noteq> None"
  shows "case add_edges G index ss g of
      Inl err \<Rightarrow> \<exists>s \<in> set ss. \<exists>dep \<in> set (st_depends_on s). index dep = None \<and> err = UnknownDependency (st_id s) dep
    | Inr g' \<Rightarrow> nodes g' = nodes g \<and> edges g' = edges g \<union> edges_of index ss \<and> known_dependencies index ss"
  using assms(2,3)
proof (induction ss arbitrary: g)
  case (Cons s ss)
  obtain k where k: "index (st_id s) = Some k" using Cons.prems(2) [of s] by auto
  let ?r = "add_dependencies G index (st_id s) k (st_depends_on s) g"
  have one: "case ?r of
      Inl err \<Rightarrow> \<exists>dep \<in> set (st_depends_on s). index dep = None \<and> err = UnknownDependency (st_id s) dep
    | Inr g' \<Rightarrow> nodes g' = nodes g \<and> edges g' = edges g \<union> {(j, i). i = k \<and> (\<exists>dep \<in> set (st_depends_on s). index dep = Some j)} \<and>
        (\<forall>dep \<in> set (st_depends_on s). index dep \<noteq> None)"
    by (rule add_dependencies_result [OF ok Cons.prems(1) [OF k] Cons.prems(1)])
  show ?case
  proof (cases ?r)
    case (Inl err)
    then show ?thesis using one k by auto
  next
    case (Inr g')
    then have g': "nodes g' = nodes g" "edges g' = edges g \<union> {(j, i). i = k \<and> (\<exists>dep \<in> set (st_depends_on s). index dep = Some j)}"
        "\<forall>dep \<in> set (st_depends_on s). index dep \<noteq> None" using one by simp_all
    have rest: "case add_edges G index ss g' of
      Inl err \<Rightarrow> \<exists>s \<in> set ss. \<exists>dep \<in> set (st_depends_on s). index dep = None \<and> err = UnknownDependency (st_id s) dep
    | Inr g'' \<Rightarrow> nodes g'' = nodes g' \<and> edges g'' = edges g' \<union> edges_of index ss \<and> known_dependencies index ss"
      by (rule Cons.IH) (use Cons.prems g'(1) in auto)
    have "edges_of index (s # ss) = {(j, i). i = k \<and> (\<exists>dep \<in> set (st_depends_on s). index dep = Some j)} \<union> edges_of index ss"
      using k by (auto simp: edges_of_def)
    then show ?thesis
      using rest g' Inr k by (cases "add_edges G index ss g'") (auto simp: known_dependencies_def)
  qed
qed (simp add: edges_of_def known_dependencies_def)

text \<open>What the built executor holds, and when there is none.\<close>

definition built :: "('g \<Rightarrow> string list) \<Rightarrow> ('g \<Rightarrow> (nat \<times> nat) set) \<Rightarrow> 'c workflow_step list \<Rightarrow> ('g, 'c) dag_executor \<Rightarrow> bool" where
  "built nodes edges ss d \<longleftrightarrow> nodes (dg_graph d) = map st_id ss \<and> edges (dg_graph d) = edges_of (index_of ss) ss \<and>
     dg_step_index d = index_of ss \<and> (\<forall>i < length ss. dg_index_step d i = Some (ss ! i))"

lemma from_workflow_result:
  assumes ok: "petgraph_ok G nodes edges"
  shows "case from_workflow G ss of
      Inl err \<Rightarrow> (\<exists>s \<in> set ss. \<exists>dep \<in> set (st_depends_on s). index_of ss dep = None \<and> err = UnknownDependency (st_id s) dep) \<or>
        known_dependencies (index_of ss) ss \<and> \<not> acyclic (edges_of (index_of ss) ss) \<and> err = CyclicDependencies
    | Inr d \<Rightarrow> built nodes edges ss d \<and> known_dependencies (index_of ss) ss \<and> acyclic (edges_of (index_of ss) ss)"
proof -
  let ?start = "\<lparr>dg_graph = pg_new G, dg_step_index = (\<lambda>_. None), dg_index_step = (\<lambda>_. None)\<rparr>"
  define d where "d = add_nodes G ss ?start"
  have d: "nodes (dg_graph d) = map st_id ss" "edges (dg_graph d) = {}" "dg_step_index d = index_of ss"
      "dg_index_step d = (\<lambda>i. if i < length ss then Some (ss ! i) else None)"
    using add_nodes_result [OF ok, of ?start "[]" ss] petgraph_okD(1,2) [OF ok] by (simp_all add: d_def index_of_def cong: if_cong)
  have e: "case add_edges G (index_of ss) ss (dg_graph d) of
      Inl err \<Rightarrow> \<exists>s \<in> set ss. \<exists>dep \<in> set (st_depends_on s). index_of ss dep = None \<and> err = UnknownDependency (st_id s) dep
    | Inr g' \<Rightarrow> nodes g' = nodes (dg_graph d) \<and> edges g' = edges (dg_graph d) \<union> edges_of (index_of ss) ss \<and> known_dependencies (index_of ss) ss"
    by (rule add_edges_result [OF ok]) (use index_of_Some [of ss] d(1) in \<open>auto simp: index_of_None\<close>)
  have f: "from_workflow G ss = try_bind (add_edges G (index_of ss) ss (dg_graph d)) (\<lambda>g.
      if pg_is_cyclic G g then Inl CyclicDependencies else Inr (d\<lparr>dg_graph := g\<rparr>))"
    by (simp add: from_workflow_def d(3) flip: d_def)
  show ?thesis
    using e d petgraph_okD(8) [OF ok] unfolding f
    by (cases "add_edges G (index_of ss) ss (dg_graph d)") (auto simp: built_def)
qed

section \<open>Levels\<close>

lemma level_fold:
  "(\<forall>a \<in> set inc. \<forall>l. visited a = Some l \<longrightarrow> l < fold (raise_level visited) inc m) \<and> m \<le> fold (raise_level visited) inc m \<and>
   (fold (raise_level visited) inc m = m \<or> (\<exists>a \<in> set inc. visited a = Some (fold (raise_level visited) inc m - 1)))"
proof (induction inc arbitrary: m)
  case (Cons a inc)
  let ?m = "raise_level visited a m"
  note IH = Cons.IH [of ?m]
  have "m \<le> ?m" "?m = m \<or> visited a = Some (?m - 1)" "\<And>l. visited a = Some l \<Longrightarrow> l < ?m"
    by (auto simp: raise_level_def max_def split: option.splits)
  then have r: "m \<le> ?m" "?m = m \<or> visited a = Some (?m - 1)" "\<And>l. visited a = Some l \<Longrightarrow> l < fold (raise_level visited) inc ?m"
    using IH by (auto intro: less_le_trans)
  show ?case
  proof (intro conjI)
    show "\<forall>x \<in> set (a # inc). \<forall>l. visited x = Some l \<longrightarrow> l < fold (raise_level visited) (a # inc) m"
      using IH r(3) by simp
    show "m \<le> fold (raise_level visited) (a # inc) m" using IH r(1) by simp
    show "fold (raise_level visited) (a # inc) m = m \<or>
        (\<exists>x \<in> set (a # inc). visited x = Some (fold (raise_level visited) (a # inc) m - 1))"
      using IH r(2) by (cases "fold (raise_level visited) inc ?m = ?m") auto
  qed
qed simp

lemma node_level_bounds:
  "a \<in> set inc \<Longrightarrow> visited a = Some l \<Longrightarrow> l < node_level visited inc"
  "0 < node_level visited inc \<Longrightarrow> \<exists>a \<in> set inc. visited a = Some (node_level visited inc - 1)"
  using level_fold [of inc visited 0] unfolding node_level_def by auto

lemma push_batch_nth:
  "length (push_batch l x bs) = max (length bs) (l + 1)"
  "k < length (push_batch l x bs) \<Longrightarrow> push_batch l x bs ! k = (if k < length bs then bs ! k else []) @ (if k = l then [x] else [])"
  by (auto simp: push_batch_def Let_def nth_append nth_list_update)

text \<open>
  The state of the loop after a prefix of the order: the batches list the visited steps by their levels, each level is above
  those of all dependencies and, when it is not zero, just above that of one of them, and no batch is empty.
\<close>

definition levels_ok :: "(nat \<times> nat) set \<Rightarrow> (nat \<Rightarrow> 'a) \<Rightarrow> nat list \<Rightarrow> (nat \<Rightarrow> nat option) \<Rightarrow> 'a list list \<Rightarrow> bool" where
  "levels_ok E step ps visited bs \<longleftrightarrow> dom visited = set ps \<and>
     (\<forall>k < length bs. bs ! k = map step (filter (\<lambda>i. visited i = Some k) ps) \<and> bs ! k \<noteq> []) \<and>
     (\<forall>i l. visited i = Some l \<longrightarrow> l < length bs \<and> (\<forall>a. (a, i) \<in> E \<longrightarrow> (\<exists>m < l. visited a = Some m)) \<and>
        (0 < l \<longrightarrow> (\<exists>a. (a, i) \<in> E \<and> visited a = Some (l - 1))))"

lemma levels_ok_step:
  assumes inv: "levels_ok E step ps visited bs" and new: "i \<notin> set ps" "\<And>a. (a, i) \<in> E \<Longrightarrow> a \<in> set ps" and inc: "set inc = {a. (a, i) \<in> E}"
    and lv: "lv = node_level visited inc"
  shows "levels_ok E step (ps @ [i]) (visited(i \<mapsto> lv)) (push_batch lv (step i) bs)"
proof -
  have dom: "dom visited = set ps"
    and nth: "\<And>k. k < length bs \<Longrightarrow> bs ! k = map step (filter (\<lambda>i. visited i = Some k) ps) \<and> bs ! k \<noteq> []"
    and old: "\<And>j l. visited j = Some l \<Longrightarrow> l < length bs \<and> (\<forall>a. (a, j) \<in> E \<longrightarrow> (\<exists>m < l. visited a = Some m)) \<and>
        (0 < l \<longrightarrow> (\<exists>a. (a, j) \<in> E \<and> visited a = Some (l - 1)))"
    using inv unfolding levels_ok_def by blast+
  have i: "visited i = None" using dom new(1) by (auto simp: domIff)
  have above: "\<exists>m < lv. visited a = Some m" if edge: "(a, i) \<in> E" for a
  proof -
    obtain m where "visited a = Some m" using new(2) [OF edge] dom by auto
    then show ?thesis using node_level_bounds(1) [of a inc visited m] edge inc lv by auto
  qed
  have just: "\<exists>a. (a, i) \<in> E \<and> visited a = Some (lv - 1)" if "0 < lv"
    using node_level_bounds(2) [of visited inc] that inc lv by auto
  have le: "lv \<le> length bs"
  proof (cases "lv = 0")
    case False
    then obtain a where "visited a = Some (lv - 1)" using just by auto
    then have "lv - 1 < length bs" using old by blast
    then show ?thesis by simp
  qed simp
  then have len: "length (push_batch lv (step i) bs) = max (length bs) (lv + 1)" by (simp add: push_batch_nth)
  have other: "filter (\<lambda>j. (visited(i \<mapsto> lv)) j = Some k) ps = filter (\<lambda>j. visited j = Some k) ps" for k
    using new(1) by (intro filter_cong) auto
  have empty: "filter (\<lambda>j. visited j = Some (length bs)) ps = []" using old by (fastforce simp: filter_empty_conv)
  have "push_batch lv (step i) bs ! k = map step (filter (\<lambda>j. (visited(i \<mapsto> lv)) j = Some k) (ps @ [i])) \<and> push_batch lv (step i) bs ! k \<noteq> []"
    if "k < length (push_batch lv (step i) bs)" for k
    unfolding push_batch_nth(2) [OF that] filter_append other
    using nth [of k] le that len empty by (cases "k < length bs") (auto simp: not_less)
  moreover have "l < length (push_batch lv (step i) bs) \<and> (\<forall>a. (a, j) \<in> E \<longrightarrow> (\<exists>m < l. (visited(i \<mapsto> lv)) a = Some m)) \<and>
      (0 < l \<longrightarrow> (\<exists>a. (a, j) \<in> E \<and> (visited(i \<mapsto> lv)) a = Some (l - 1)))" if "(visited(i \<mapsto> lv)) j = Some l" for j l
  proof (cases "j = i")
    case True
    then show ?thesis using that len above just i by (auto split: if_splits) (metis option.distinct(1))+
  next
    case False
    then show ?thesis using old [of j l] that len i by (auto split: if_splits)
  qed
  moreover have "dom (visited(i \<mapsto> lv)) = set (ps @ [i])" using dom by auto
  ultimately show ?thesis unfolding levels_ok_def by blast
qed

lemma level_loop_ok:
  assumes ok: "petgraph_ok G nodes edges" and E: "E = edges (dg_graph d)"
    and "levels_ok E (\<lambda>i. the (dg_index_step d i)) ps visited bs" "sorts (ps @ is) n E"
  shows "\<exists>v. levels_ok E (\<lambda>i. the (dg_index_step d i)) (ps @ is) v (snd (level_loop G d is visited bs))"
  using assms(3,4)
proof (induction "is" arbitrary: ps visited bs)
  case (Cons i "is")
  let ?lv = "node_level visited (pg_incoming G i (dg_graph d))"
  have s: "distinct (ps @ i # is)" "\<And>a. (a, i) \<in> E \<Longrightarrow> a \<in> set ps" using Cons.prems(2) unfolding sorts_def by blast+
  have "levels_ok E (\<lambda>i. the (dg_index_step d i)) (ps @ [i]) (visited(i \<mapsto> ?lv)) (push_batch ?lv (the (dg_index_step d i)) bs)"
    by (rule levels_ok_step [OF Cons.prems(1) _ _ _ refl]) (use s petgraph_okD(5) [OF ok] E in auto)
  from Cons.IH [OF this] Cons.prems(2) show ?case by (simp add: Let_def fun_upd_def)
qed auto

section \<open>Properties\<close>

lemma duplicate_ids_distinct: "duplicate_ids seen ss = Inr () \<longleftrightarrow> distinct (map st_id ss) \<and> st_id ` set ss \<inter> seen = {}"
  by (induction ss arbitrary: seen) auto

lemma validated_distinct: "validate_definition config_error ss = Inr () \<Longrightarrow> distinct (map st_id ss)"
  by (auto simp: validate_definition_def try_bind_Inr_conv duplicate_ids_distinct split: if_splits)

lemma edge_dependency:
  assumes "distinct (map st_id ss)"
  shows "(j, i) \<in> edges_of (index_of ss) ss \<longleftrightarrow> i < length ss \<and> j < length ss \<and> st_id (ss ! j) \<in> set (st_depends_on (ss ! i))"
proof
  assume "(j, i) \<in> edges_of (index_of ss) ss"
  then obtain s dep where s: "s \<in> set ss" "dep \<in> set (st_depends_on s)" "index_of ss dep = Some j" "index_of ss (st_id s) = Some i"
    by (auto simp: edges_of_def)
  obtain k where k: "k < length ss" "s = ss ! k" using s(1) by (auto simp: in_set_conv_nth)
  then have "k = i" using index_of_distinct [OF assms k(1)] s(4) by simp
  then show "i < length ss \<and> j < length ss \<and> st_id (ss ! j) \<in> set (st_depends_on (ss ! i))"
    using k s(2) index_of_Some [OF s(3)] by simp
next
  assume "i < length ss \<and> j < length ss \<and> st_id (ss ! j) \<in> set (st_depends_on (ss ! i))"
  then show "(j, i) \<in> edges_of (index_of ss) ss"
    using index_of_distinct [OF assms] unfolding edges_of_def by (auto intro!: bexI [of _ "ss ! i"])
qed

lemma built_order:
  assumes ok: "petgraph_ok G nodes edges" and b: "built nodes edges ss d" and ac: "acyclic (edges_of (index_of ss) ss)"
  obtains xs where "pg_toposort G (dg_graph d) = Some xs" "sorts xs (length ss) (edges_of (index_of ss) ss)"
  using b ac petgraph_okD(9,10) [OF ok, of "dg_graph d"]
  by (cases "pg_toposort G (dg_graph d)") (auto simp: built_def)

lemma dependency_index:
  assumes "distinct (map st_id ss)" "known_dependencies (index_of ss) ss" "i < length ss" "dep \<in> set (st_depends_on (ss ! i))"
  obtains j where "(j, i) \<in> edges_of (index_of ss) ss" "j < length ss" "st_id (ss ! j) = dep"
proof -
  obtain j where "index_of ss dep = Some j" using assms(2-4) unfolding known_dependencies_def by fastforce
  then have "j < length ss" "st_id (ss ! j) = dep" using index_of_Some by blast+
  then show thesis using that edge_dependency [OF assms(1), of j i] assms(3,4) by blast
qed

lemma mset_sorted:
  assumes "sorts xs (length ss) E"
  shows "mset (map ((!) ss) xs) = mset ss"
proof -
  have "mset xs = mset [0..<length ss]"
    using assms by (intro iffD1 [OF set_eq_iff_mset_eq_distinct]) (auto simp: sorts_def)
  then have "mset (map ((!) ss) xs) = mset (map ((!) ss) [0..<length ss])" by simp
  then show ?thesis by (simp only: map_nth)
qed

lemma mset_levels:
  "mset (concat (map (\<lambda>k. map f (filter (\<lambda>i. v i = Some k) xs)) [0..<m])) = mset (map f (filter (\<lambda>i. \<exists>k < m. v i = Some k) xs))"
proof (induction m)
  case (Suc m)
  have "mset (filter (\<lambda>i. \<exists>k < m. v i = Some k) ys) + mset (filter (\<lambda>i. v i = Some m) ys) =
      mset (filter (\<lambda>i. \<exists>k < Suc m. v i = Some k) ys)" for ys
    by (induction ys) (auto simp: less_Suc_eq)
  from arg_cong [OF this, of "image_mset f"] Suc show ?case by simp
qed simp

lemma built_step: "built nodes edges ss d \<Longrightarrow> i < length ss \<Longrightarrow> the (dg_index_step d i) = ss ! i"
  by (simp add: built_def)

text \<open>
  The execution order of a validated workflow has every step exactly once, after all the steps it depends on.
\<close>

lemma execution_order_correct:
  assumes ok: "petgraph_ok G nodes edges" and val: "validate_definition config_error ss = Inr ()" and wf: "from_workflow G ss = Inr d"
  shows "\<exists>order. execution_order G d = Inr order \<and> mset order = mset ss \<and>
    (\<forall>before s rest. order = before @ s # rest \<longrightarrow> set (st_depends_on s) \<subseteq> st_id ` set before)"
proof -
  note dist = validated_distinct [OF val]
  have b: "built nodes edges ss d" "known_dependencies (index_of ss) ss" "acyclic (edges_of (index_of ss) ss)"
    using from_workflow_result [OF ok, of ss] wf by simp_all
  obtain xs where xs: "pg_toposort G (dg_graph d) = Some xs" "sorts xs (length ss) (edges_of (index_of ss) ss)"
    by (rule built_order [OF ok b(1,3)])
  have bound: "set xs = {..<length ss}" using xs(2) by (simp add: sorts_def)
  have order: "execution_order G d = Inr (map ((!) ss) xs)"
    using xs(1) bound built_step [OF b(1)] by (simp add: execution_order_def)
  have "set (st_depends_on s) \<subseteq> st_id ` set before" if split: "map ((!) ss) xs = before @ s # rest" for before s rest
  proof
    fix dep assume dep: "dep \<in> set (st_depends_on s)"
    obtain ys i zs where ys: "xs = ys @ i # zs" "before = map ((!) ss) ys" "s = ss ! i" using split by (auto simp: map_eq_append_conv)
    have i: "i < length ss" using bound ys(1) by auto
    obtain j where j: "(j, i) \<in> edges_of (index_of ss) ss" "st_id (ss ! j) = dep"
      by (rule dependency_index [OF dist b(2) i]) (use dep ys(3) in auto)
    have "j \<in> set ys" using xs(2) ys(1) j(1) unfolding sorts_def by blast
    then show "dep \<in> st_id ` set before" using j(2) ys(2) by auto
  qed
  then show ?thesis using order mset_sorted [OF xs(2)] by blast
qed

text \<open>
  C32. The parallel batches of a validated workflow have every step exactly once and none of them is empty. All steps that a
  step depends on are in earlier batches, and the batch just before that of a step has one of them: no step could be put into
  an earlier batch.
\<close>

theorem parallel_batches_correct:
  assumes ok: "petgraph_ok G nodes edges" and val: "validate_definition config_error ss = Inr ()" and wf: "from_workflow G ss = Inr d"
  shows "\<exists>bs. parallel_batches G d = Inr bs \<and> mset (concat bs) = mset ss \<and> [] \<notin> set bs \<and>
    (\<forall>k < length bs. \<forall>s \<in> set (bs ! k). (\<forall>dep \<in> set (st_depends_on s). \<exists>j < k. dep \<in> st_id ` set (bs ! j)) \<and>
       (0 < k \<longrightarrow> (\<exists>t \<in> set (bs ! (k - 1)). st_id t \<in> set (st_depends_on s))))"
proof -
  note dist = validated_distinct [OF val]
  let ?E = "edges_of (index_of ss) ss"
  have b: "built nodes edges ss d" "known_dependencies (index_of ss) ss" "acyclic ?E"
    using from_workflow_result [OF ok, of ss] wf by simp_all
  obtain xs where xs: "pg_toposort G (dg_graph d) = Some xs" "sorts xs (length ss) ?E"
    by (rule built_order [OF ok b(1,3)])
  have bound: "set xs = {..<length ss}" using xs(2) by (simp add: sorts_def)
  define bs where "bs = snd (level_loop G d xs (\<lambda>_. None) [])"
  have E: "?E = edges (dg_graph d)" using b(1) by (simp add: built_def)
  have "levels_ok ?E (\<lambda>i. the (dg_index_step d i)) [] (\<lambda>_. None) []" by (simp add: levels_ok_def)
  from level_loop_ok [OF ok E this, of xs] xs(2) obtain v where v: "levels_ok ?E (\<lambda>i. the (dg_index_step d i)) xs v bs"
    by (auto simp: bs_def)
  have dom: "dom v = {..<length ss}" using v bound unfolding levels_ok_def by blast
  have nth: "bs ! k = map ((!) ss) (filter (\<lambda>i. v i = Some k) xs)" "bs ! k \<noteq> []" if "k < length bs" for k
  proof -
    have "bs ! k = map (\<lambda>i. the (dg_index_step d i)) (filter (\<lambda>i. v i = Some k) xs)" using v that unfolding levels_ok_def by blast
    also have "\<dots> = map ((!) ss) (filter (\<lambda>i. v i = Some k) xs)"
      using bound built_step [OF b(1)] by (intro map_cong refl) auto
    finally show "bs ! k = map ((!) ss) (filter (\<lambda>i. v i = Some k) xs)" .
    show "bs ! k \<noteq> []" using v that unfolding levels_ok_def by blast
  qed
  have level: "l < length bs \<and> (\<forall>a. (a, i) \<in> ?E \<longrightarrow> (\<exists>m < l. v a = Some m)) \<and> (0 < l \<longrightarrow> (\<exists>a. (a, i) \<in> ?E \<and> v a = Some (l - 1)))"
    if "v i = Some l" for i l using v that unfolding levels_ok_def by blast
  have member: "ss ! i \<in> set (bs ! l)" if "v i = Some l" for i l
  proof -
    have "i \<in> set xs" using that dom bound by auto
    then show ?thesis using nth(1) [of l] level [OF that] that by auto
  qed
  have eq: "bs = map (\<lambda>k. map ((!) ss) (filter (\<lambda>i. v i = Some k) xs)) [0..<length bs]"
    by (rule nth_equalityI) (simp_all add: nth(1))
  have all: "filter (\<lambda>i. \<exists>k < length bs. v i = Some k) xs = xs"
  proof (rule filter_True, rule ballI)
    fix i assume "i \<in> set xs"
    then obtain l where "v i = Some l" using dom bound by auto
    then show "\<exists>k < length bs. v i = Some k" using level by blast
  qed
  have "mset (concat bs) = mset (concat (map (\<lambda>k. map ((!) ss) (filter (\<lambda>i. v i = Some k) xs)) [0..<length bs]))"
    using arg_cong [OF eq, of "\<lambda>x. mset (concat x)"] .
  also have "\<dots> = mset (map ((!) ss) xs)" unfolding mset_levels all ..
  also have "\<dots> = mset ss" by (rule mset_sorted [OF xs(2)])
  finally have perm: "mset (concat bs) = mset ss" .
  have "(\<forall>dep \<in> set (st_depends_on s). \<exists>j < k. dep \<in> st_id ` set (bs ! j)) \<and>
      (0 < k \<longrightarrow> (\<exists>t \<in> set (bs ! (k - 1)). st_id t \<in> set (st_depends_on s)))" if k: "k < length bs" "s \<in> set (bs ! k)" for k s
  proof -
    obtain i where i: "v i = Some k" "s = ss ! i" "i < length ss" using k nth(1) [OF k(1)] bound by auto
    have "\<exists>j < k. dep \<in> st_id ` set (bs ! j)" if dep: "dep \<in> set (st_depends_on s)" for dep
    proof -
      obtain a where a: "(a, i) \<in> ?E" "st_id (ss ! a) = dep"
        by (rule dependency_index [OF dist b(2) i(3)]) (use dep i(2) in auto)
      then obtain m where "m < k" "v a = Some m" using level [OF i(1)] by blast
      then show ?thesis using member [of a m] a(2) by blast
    qed
    moreover have "\<exists>t \<in> set (bs ! (k - 1)). st_id t \<in> set (st_depends_on s)" if pos: "0 < k"
    proof -
      obtain a where a: "(a, i) \<in> ?E" "v a = Some (k - 1)" using level [OF i(1)] pos by blast
      then show ?thesis using member [OF a(2)] edge_dependency [OF dist, of a i] i(2) by blast
    qed
    ultimately show ?thesis by blast
  qed
  moreover have "parallel_batches G d = Inr bs" by (simp add: parallel_batches_def xs(1) bs_def)
  moreover have "[] \<notin> set bs" using nth(2) by (auto simp: in_set_conv_nth)
  ultimately show ?thesis using perm by blast
qed

text \<open>
  The two queries return the identifiers of the steps on the edges of the step in question, also for a step that was indexed
  twice; for an unknown identifier they fail.
\<close>

lemma dependency_queries:
  assumes ok: "petgraph_ok G nodes edges" and val: "validate_definition config_error ss = Inr ()" and wf: "from_workflow G ss = Inr d"
    and i: "i < length ss"
  shows "\<exists>deps. get_dependencies G (st_id (ss ! i)) d = Inr deps \<and> set deps = set (st_depends_on (ss ! i))"
proof -
  note dist = validated_distinct [OF val]
  have b: "built nodes edges ss d" "known_dependencies (index_of ss) ss" using from_workflow_result [OF ok, of ss] wf by simp_all
  let ?E = "edges_of (index_of ss) ss"
  have inc: "set (pg_incoming G i (dg_graph d)) = {a. (a, i) \<in> ?E}" using petgraph_okD(5) [OF ok] b(1) by (simp add: built_def)
  have w: "pg_weight G a (dg_graph d) = st_id (ss ! a)" if "(a, i) \<in> ?E" for a
    using petgraph_okD(7) [OF ok, of a "dg_graph d"] b(1) edge_dependency [OF dist, of a i] that by (simp add: built_def)
  have "(\<lambda>a. pg_weight G a (dg_graph d)) ` {a. (a, i) \<in> ?E} = (\<lambda>a. st_id (ss ! a)) ` {a. (a, i) \<in> ?E}"
    using w by (intro image_cong) auto
  also have "\<dots> = set (st_depends_on (ss ! i))"
  proof
    show "(\<lambda>a. st_id (ss ! a)) ` {a. (a, i) \<in> ?E} \<subseteq> set (st_depends_on (ss ! i))" using edge_dependency [OF dist, of _ i] by auto
    show "set (st_depends_on (ss ! i)) \<subseteq> (\<lambda>a. st_id (ss ! a)) ` {a. (a, i) \<in> ?E}"
    proof
      fix dep assume dep: "dep \<in> set (st_depends_on (ss ! i))"
      obtain j where "(j, i) \<in> ?E" "st_id (ss ! j) = dep" by (rule dependency_index [OF dist b(2) i dep])
      then show "dep \<in> (\<lambda>a. st_id (ss ! a)) ` {a. (a, i) \<in> ?E}" by blast
    qed
  qed
  finally show ?thesis
    using index_of_distinct [OF dist i] b(1) inc by (simp add: get_dependencies_def built_def)
qed

section \<open>Witnesses\<close>

text \<open>A graph library that fulfils the laws: nodes and edges in lists, and a sort that picks a node without open dependencies.\<close>

type_synonym demo_graph = "string list \<times> (nat \<times> nat) list"

definition demo_edges :: "demo_graph \<Rightarrow> (nat \<times> nat) list" where
  "demo_edges g = filter (\<lambda>(a, b). a < length (fst g) \<and> b < length (fst g)) (snd g)"

fun demo_sort :: "nat \<Rightarrow> (nat \<times> nat) list \<Rightarrow> nat \<Rightarrow> nat list \<Rightarrow> nat list" where
  "demo_sort n E 0 xs = xs"
| "demo_sort n E (Suc m) xs =
     (case find (\<lambda>i. i \<notin> set xs \<and> (\<forall>(a, b) \<in> set E. b = i \<longrightarrow> a \<in> set xs)) [0..<n] of
        None \<Rightarrow> xs
      | Some i \<Rightarrow> demo_sort n E m (xs @ [i]))"

definition demo_toposort :: "demo_graph \<Rightarrow> nat list option" where
  "demo_toposort g = (let xs = demo_sort (length (fst g)) (demo_edges g) (length (fst g)) []
     in if length xs = length (fst g) then Some xs else None)"

definition demo_petgraph :: "demo_graph petgraph" where
  "demo_petgraph = \<lparr>pg_new = ([], []), pg_add_node = (\<lambda>w g. ((fst g @ [w], demo_edges g), length (fst g))),
     pg_add_edge = (\<lambda>a b g. (fst g, (a, b) # snd g)),
     pg_incoming = (\<lambda>i g. map fst (filter (\<lambda>(a, b). b = i) (demo_edges g))),
     pg_outgoing = (\<lambda>i g. map snd (filter (\<lambda>(a, b). a = i) (demo_edges g))),
     pg_weight = (\<lambda>i g. fst g ! i), pg_is_cyclic = (\<lambda>g. demo_toposort g = None), pg_toposort = demo_toposort\<rparr>"

definition topological :: "nat list \<Rightarrow> nat \<Rightarrow> (nat \<times> nat) set \<Rightarrow> bool" where
  "topological xs n E \<longleftrightarrow> distinct xs \<and> set xs \<subseteq> {..<n} \<and> (\<forall>ys i zs. xs = ys @ i # zs \<longrightarrow> (\<forall>a. (a, i) \<in> E \<longrightarrow> a \<in> set ys))"

lemma topological_snoc:
  assumes "topological xs n E" "i < n" "i \<notin> set xs" "\<And>a. (a, i) \<in> E \<Longrightarrow> a \<in> set xs"
  shows "topological (xs @ [i]) n E"
proof -
  have "a \<in> set ys" if "xs @ [i] = ys @ j # zs" "(a, j) \<in> E" for ys j zs a
    using that assms by (cases zs rule: rev_cases) (auto simp: topological_def)
  then show ?thesis using assms unfolding topological_def by auto
qed

lemma demo_sort_topological:
  "topological xs n (set E) \<Longrightarrow> topological (demo_sort n E m xs) n (set E) \<and>
    (length (demo_sort n E m xs) = length xs + m \<or>
     (\<forall>i < n. i \<notin> set (demo_sort n E m xs) \<longrightarrow> (\<exists>a. (a, i) \<in> set E \<and> a \<notin> set (demo_sort n E m xs))))"
proof (induction m arbitrary: xs)
  case (Suc m)
  let ?P = "\<lambda>i. i \<notin> set xs \<and> (\<forall>(a, b) \<in> set E. b = i \<longrightarrow> a \<in> set xs)"
  show ?case
  proof (cases "find ?P [0..<n]")
    case None
    then have "\<not> ?P i" if "i < n" for i using that by (auto simp: find_None_iff)
    then show ?thesis using Suc.prems None by fastforce
  next
    case (Some i)
    then have "i < n" "?P i" by (auto simp: find_Some_iff)
    then have "topological (xs @ [i]) n (set E)" by (intro topological_snoc [OF Suc.prems]) auto
    from Suc.IH [OF this] Some show ?thesis by auto
  qed
qed simp

lemma topological_acyclic:
  assumes "topological xs n E" "E \<subseteq> set xs \<times> set xs"
  shows "acyclic E"
proof -
  define pos where "pos i = length (takeWhile (\<lambda>j. j \<noteq> i) xs)" for i
  have pos: "pos i = length ys" if "xs = ys @ i # zs" for ys i zs
    using that assms(1) by (auto simp: pos_def topological_def takeWhile_append)
  have "(a, i) \<in> measure pos" if e: "(a, i) \<in> E" for a i
  proof -
    have "i \<in> set xs" using e assms(2) by auto
    then obtain ys zs where xs: "xs = ys @ i # zs" by (meson split_list)
    then have "a \<in> set ys" using e assms(1) unfolding topological_def by blast
    then obtain us vs where "ys = us @ a # vs" by (meson split_list)
    then show ?thesis using pos [OF xs] pos [of us a "vs @ i # zs"] xs by simp
  qed
  then have "E \<subseteq> measure pos" by auto
  then show ?thesis by (rule wf_acyclic [OF wf_subset [OF wf_measure]])
qed

lemma demo_toposort_correct:
  "case demo_toposort g of None \<Rightarrow> \<not> acyclic (set (demo_edges g))
    | Some xs \<Rightarrow> sorts xs (length (fst g)) (set (demo_edges g)) \<and> acyclic (set (demo_edges g))"
proof -
  let ?n = "length (fst g)" and ?E = "demo_edges g"
  let ?xs = "demo_sort ?n ?E ?n []"
  have "topological [] ?n (set ?E)" by (simp add: topological_def)
  from demo_sort_topological [OF this, of ?n] have t: "topological ?xs ?n (set ?E)"
    and stop: "length ?xs = ?n \<or> (\<forall>i < ?n. i \<notin> set ?xs \<longrightarrow> (\<exists>a. (a, i) \<in> set ?E \<and> a \<notin> set ?xs))" by auto
  have edges: "set ?E \<subseteq> {..<?n} \<times> {..<?n}" by (auto simp: demo_edges_def)
  have sub: "distinct ?xs" "set ?xs \<subseteq> {..<?n}" using t by (simp_all add: topological_def)
  show ?thesis
  proof (cases "length ?xs = ?n")
    case True
    then have "set ?xs = {..<?n}" using sub by (intro card_subset_eq) (simp_all add: distinct_card)
    then have "sorts ?xs ?n (set ?E)" "acyclic (set ?E)"
      using t edges topological_acyclic [OF t] by (simp_all add: sorts_def topological_def)
    then show ?thesis using True by (simp add: demo_toposort_def Let_def)
  next
    case False
    let ?R = "{i. i < ?n \<and> i \<notin> set ?xs}"
    have nonempty: "?R \<noteq> {}"
    proof
      assume "?R = {}"
      then have "set ?xs = {..<?n}" using sub(2) by auto
      then show False using False sub(1) distinct_card [of ?xs] by simp
    qed
    have down: "\<exists>a \<in> ?R. (a, i) \<in> set ?E" if r: "i \<in> ?R" for i
    proof -
      obtain a where "(a, i) \<in> set ?E" "a \<notin> set ?xs" using stop False r by blast
      then show ?thesis using edges by auto
    qed
    have "\<not> wf (set ?E)"
    proof
      assume "wf (set ?E)"
      then show False
      proof (rule wfE_min' [OF _ nonempty])
        fix z assume "z \<in> ?R" "\<And>y. (y, z) \<in> set ?E \<Longrightarrow> y \<notin> ?R"
        then show False using down by blast
      qed
    qed
    then have "\<not> acyclic (set ?E)" using finite_acyclic_wf [of "set ?E"] by auto
    then show ?thesis using False by (simp add: demo_toposort_def Let_def)
  qed
qed

lemma demo_petgraph_ok: "petgraph_ok demo_petgraph fst (\<lambda>g. set (demo_edges g))"
proof -
  have "pg_is_cyclic demo_petgraph g \<longleftrightarrow> \<not> acyclic (set (demo_edges g))" for g
    using demo_toposort_correct [of g] by (cases "demo_toposort g") (simp_all add: demo_petgraph_def)
  moreover have "case pg_toposort demo_petgraph g of None \<Rightarrow> \<not> acyclic (set (demo_edges g))
      | Some xs \<Rightarrow> sorts xs (length (fst g)) (set (demo_edges g))" for g
    using demo_toposort_correct [of g] by (cases "demo_toposort g") (simp_all add: demo_petgraph_def)
  ultimately show ?thesis
    unfolding petgraph_ok_def
    by (intro conjI allI) (auto simp: demo_petgraph_def demo_edges_def image_iff)
qed

definition demo_steps :: "unit workflow_step list" where
  "demo_steps = [\<lparr>st_id = ''load'', st_config = (), st_depends_on = [''clean'', ''read'']\<rparr>, \<lparr>st_id = ''read'', st_config = (), st_depends_on = []\<rparr>,
     \<lparr>st_id = ''clean'', st_config = (), st_depends_on = [''read'']\<rparr>]"

lemma demo_steps_valid: "validate_definition (\<lambda>_. None) demo_steps = Inr ()"
  by (simp add: validate_definition_def demo_steps_def validate_step_def)

lemma demo_dag: "\<exists>d. from_workflow demo_petgraph demo_steps = Inr d"
  by (simp add: from_workflow_def demo_steps_def demo_petgraph_def demo_toposort_def demo_edges_def Let_def upt_rec)

lemma execution_order_correct_witness:
  "\<exists>d order. from_workflow demo_petgraph demo_steps = Inr d \<and> execution_order demo_petgraph d = Inr order \<and> mset order = mset demo_steps"
  using demo_dag execution_order_correct [OF demo_petgraph_ok demo_steps_valid] by blast

theorem parallel_batches_correct_witness:
  "\<exists>d bs. from_workflow demo_petgraph demo_steps = Inr d \<and> parallel_batches demo_petgraph d = Inr bs \<and> mset (concat bs) = mset demo_steps"
  using demo_dag parallel_batches_correct [OF demo_petgraph_ok demo_steps_valid] by blast

end
