(* ===== verification/Deployments.thy ===== *)
theory Deployments
  imports WorkflowDag WorkflowRouting
begin

text \<open>
  Model of the deployment of workflows: the records of \<^verbatim>\<open>arcxa-coordinator/src/workflows/deployment/types.rs\<close>, the store of
  \<^verbatim>\<open>store.rs\<close>, the engine of \<^verbatim>\<open>engine.rs\<close> there, and the store of workflows of \<^verbatim>\<open>workflows/storage/workflow_store.rs\<close> that the
  engine writes to. Parsing the file, building the workflow and the validators of the schema are parameters, as is the
  identifier of a new deployment; the clock is a function of the number of the reading. A hash map is an
  association list in the order in which it is iterated.
\<close>

section \<open>Deployments\<close>

datatype deployment_strategy = Direct | BlueGreen u8 | Canary u8 u8 u64

datatype deployment_status =
    DpPending
  | DpInProgress
  | DpValidating
  | DpActive
  | DpFailed string
  | DpRolledBack string int
  | DpPaused

record validation_result =
  vr_validator :: string
  vr_passed :: bool
  vr_error :: "string option"
  vr_validated_at :: int

record health_check =
  hc_check_name :: string
  hc_healthy :: bool
  hc_response_time_ms :: u64
  hc_error :: "string option"
  hc_checked_at :: int

record rollback_info =
  ri_target :: string
  ri_reason :: string
  ri_by :: string
  ri_at :: int
  ri_automatic :: bool

record deployment =
  dp_id :: string
  dp_workflow_id :: string
  dp_version :: string
  dp_strategy :: deployment_strategy
  dp_status :: deployment_status
  dp_environment :: string
  dp_deployed_by :: string
  dp_started_at :: int
  dp_completed_at :: "int option"
  dp_previous :: "string option"
  dp_metadata :: "(string, string) hmap"
  dp_validation_results :: "validation_result list"
  dp_health_checks :: "health_check list"
  dp_rollback_info :: "rollback_info option"

record deployment_request =
  dq_workflow_file :: string
  dq_environment :: string
  dq_strategy :: deployment_strategy
  dq_deployed_by :: string
  dq_metadata :: "(string, string) hmap"
  dq_skip_validation :: bool
  dq_dry_run :: bool

record rollback_request =
  rq_deployment_id :: string
  rq_target :: "string option"
  rq_reason :: string
  rq_by :: string

record deployment_history =
  dh_workflow_id :: string
  dh_total :: nat
  dh_active :: "deployment option"
  dh_recent :: "deployment list"
  dh_rollbacks :: nat

definition deployment_new ::
  "int \<Rightarrow> string \<Rightarrow> string \<Rightarrow> string \<Rightarrow> deployment_strategy \<Rightarrow> string \<Rightarrow> string \<Rightarrow> deployment" where
  "deployment_new now i w version strategy environment by =
     \<lparr>dp_id = i, dp_workflow_id = w, dp_version = version, dp_strategy = strategy, dp_status = DpPending,
      dp_environment = environment, dp_deployed_by = by, dp_started_at = now, dp_completed_at = None, dp_previous = None,
      dp_metadata = [], dp_validation_results = [], dp_health_checks = [], dp_rollback_info = None\<rparr>"

definition dp_is_active :: "deployment \<Rightarrow> bool" where
  "dp_is_active d = (case dp_status d of DpActive \<Rightarrow> True | _ \<Rightarrow> False)"

definition dp_is_failed :: "deployment \<Rightarrow> bool" where
  "dp_is_failed d = (case dp_status d of DpFailed _ \<Rightarrow> True | _ \<Rightarrow> False)"

definition dp_is_rolled_back :: "deployment \<Rightarrow> bool" where
  "dp_is_rolled_back d = (case dp_status d of DpRolledBack _ _ \<Rightarrow> True | _ \<Rightarrow> False)"

definition mark_complete :: "int \<Rightarrow> deployment \<Rightarrow> deployment" where
  "mark_complete now d = d\<lparr>dp_status := DpActive, dp_completed_at := Some now\<rparr>"

definition mark_failed :: "int \<Rightarrow> string \<Rightarrow> deployment \<Rightarrow> deployment" where
  "mark_failed now reason d = d\<lparr>dp_status := DpFailed reason, dp_completed_at := Some now\<rparr>"

definition mark_rolled_back :: "int \<Rightarrow> string \<Rightarrow> deployment \<Rightarrow> deployment" where
  "mark_rolled_back now reason d = d\<lparr>dp_status := DpRolledBack reason now\<rparr>"

definition add_validation_result :: "int \<Rightarrow> string \<Rightarrow> bool \<Rightarrow> string option \<Rightarrow> deployment \<Rightarrow> deployment" where
  "add_validation_result now validator passed err d =
     d\<lparr>dp_validation_results := dp_validation_results d @
         [\<lparr>vr_validator = validator, vr_passed = passed, vr_error = err, vr_validated_at = now\<rparr>]\<rparr>"

definition add_health_check :: "int \<Rightarrow> string \<Rightarrow> bool \<Rightarrow> u64 \<Rightarrow> string option \<Rightarrow> deployment \<Rightarrow> deployment" where
  "add_health_check now name healthy ms err d =
     d\<lparr>dp_health_checks := dp_health_checks d @
         [\<lparr>hc_check_name = name, hc_healthy = healthy, hc_response_time_ms = ms, hc_error = err, hc_checked_at = now\<rparr>]\<rparr>"

definition all_validations_passed :: "deployment \<Rightarrow> bool" where
  "all_validations_passed d \<longleftrightarrow> dp_validation_results d \<noteq> [] \<and> list_all vr_passed (dp_validation_results d)"

definition all_health_checks_passed :: "deployment \<Rightarrow> bool" where
  "all_health_checks_passed d \<longleftrightarrow> dp_health_checks d \<noteq> [] \<and> list_all hc_healthy (dp_health_checks d)"

section \<open>The store of deployments\<close>

record deployment_store =
  ds_deployments :: "(string, deployment) hmap"
  ds_active :: "(string \<times> string, string) hmap"

definition ds_new :: deployment_store where
  "ds_new = \<lparr>ds_deployments = [], ds_active = []\<rparr>"

definition ds_create :: "deployment \<Rightarrow> deployment_store \<Rightarrow> deployment_store" where
  "ds_create d s = s\<lparr>ds_deployments := AList.update (dp_id d) d (ds_deployments s)\<rparr>"

definition ds_get :: "string \<Rightarrow> deployment_store \<Rightarrow> deployment option" where
  "ds_get i s = map_of (ds_deployments s) i"

definition ds_update :: "deployment \<Rightarrow> deployment_store \<Rightarrow> deployment_store" where
  "ds_update d s = s\<lparr>ds_deployments := AList.update (dp_id d) d (ds_deployments s)\<rparr>"

definition ds_set_active :: "string \<Rightarrow> string \<Rightarrow> string \<Rightarrow> deployment_store \<Rightarrow> deployment_store" where
  "ds_set_active w env i s = s\<lparr>ds_active := AList.update (w, env) i (ds_active s)\<rparr>"

definition ds_get_active :: "string \<Rightarrow> string \<Rightarrow> deployment_store \<Rightarrow> deployment option" where
  "ds_get_active w env s = Option.bind (map_of (ds_active s) (w, env)) (\<lambda>i. ds_get i s)"

definition by_start :: "deployment list \<Rightarrow> deployment list" where
  "by_start ds = sort_key (\<lambda>d. - dp_started_at d) ds"

definition ds_get_history :: "string \<Rightarrow> nat \<Rightarrow> deployment_store \<Rightarrow> deployment_history" where
  "ds_get_history w limit s =
     (let ds = by_start (filter (\<lambda>d. dp_workflow_id d = w) (map snd (ds_deployments s))) in
      \<lparr>dh_workflow_id = w, dh_total = length ds, dh_active = List.find dp_is_active ds, dh_recent = take limit ds,
       dh_rollbacks = length (filter dp_is_rolled_back ds)\<rparr>)"

definition ds_list_all :: "nat \<Rightarrow> deployment_store \<Rightarrow> deployment list" where
  "ds_list_all limit s = take limit (by_start (map snd (ds_deployments s)))"

definition ds_list_by_environment :: "string \<Rightarrow> nat \<Rightarrow> deployment_store \<Rightarrow> deployment list" where
  "ds_list_by_environment env limit s =
     take limit (by_start (filter (\<lambda>d. dp_environment d = env) (map snd (ds_deployments s))))"

definition ds_get_previous :: "string \<Rightarrow> string \<Rightarrow> string \<Rightarrow> deployment_store \<Rightarrow> deployment option" where
  "ds_get_previous w env current s =
     (case by_start (filter (\<lambda>d. dp_workflow_id d = w \<and> dp_environment d = env \<and> dp_id d \<noteq> current \<and> dp_is_active d)
              (map snd (ds_deployments s))) of
        [] \<Rightarrow> None
      | d # _ \<Rightarrow> Some d)"

definition ds_delete :: "string \<Rightarrow> deployment_store \<Rightarrow> deployment_store" where
  "ds_delete i s = s\<lparr>ds_deployments := AList.delete i (ds_deployments s)\<rparr>"

definition ds_count :: "deployment_store \<Rightarrow> nat" where
  "ds_count s = length (ds_deployments s)"

section \<open>The store of workflows\<close>

datatype deploy_error =
    ParseFailed string
  | BuildFailed string
  | ValidationFailed
  | WorkflowInvalid route_error
  | WorkflowExists string
  | WorkflowNotFound string
  | DeploymentNotFound string
  | NoPreviousDeployment
  | TargetFailed

type_synonym ('n, 'a) workflow_store = "(string, ('n, 'a) workflow) hmap"

definition ws_create ::
  "('n, 'x) json_lib \<Rightarrow> ('n, 'a) workflow \<Rightarrow> ('n, 'a) workflow_store \<Rightarrow> deploy_error + ('n, 'a) workflow_store" where
  "ws_create L w s =
     (case workflow_validate L w of
        Inl e \<Rightarrow> Inl (WorkflowInvalid e)
      | Inr _ \<Rightarrow> if map_of s (wf_id w) \<noteq> None then Inl (WorkflowExists (wf_id w)) else Inr (AList.update (wf_id w) w s))"

definition ws_get :: "string \<Rightarrow> ('n, 'a) workflow_store \<Rightarrow> ('n, 'a) workflow option" where
  "ws_get i s = map_of s i"

definition ws_get_required :: "string \<Rightarrow> ('n, 'a) workflow_store \<Rightarrow> deploy_error + ('n, 'a) workflow" where
  "ws_get_required i s = (case ws_get i s of None \<Rightarrow> Inl (WorkflowNotFound i) | Some w \<Rightarrow> Inr w)"

definition ws_update ::
  "('n, 'x) json_lib \<Rightarrow> nat \<Rightarrow> string \<Rightarrow> ('n, 'a) workflow \<Rightarrow> ('n, 'a) workflow_store \<Rightarrow> deploy_error + ('n, 'a) workflow_store" where
  "ws_update L now i w s =
     (case workflow_validate L w of
        Inl e \<Rightarrow> Inl (WorkflowInvalid e)
      | Inr _ \<Rightarrow> if map_of s i = None then Inl (WorkflowNotFound i) else Inr (AList.update i (increment_version now w) s))"

definition ws_delete :: "string \<Rightarrow> ('n, 'a) workflow_store \<Rightarrow> deploy_error + ('n, 'a) workflow_store" where
  "ws_delete i s = (if map_of s i = None then Inl (WorkflowNotFound i) else Inr (AList.delete i s))"

definition ws_count :: "('n, 'a) workflow_store \<Rightarrow> nat" where
  "ws_count s = length s"

definition ws_exists :: "string \<Rightarrow> ('n, 'a) workflow_store \<Rightarrow> bool" where
  "ws_exists i s \<longleftrightarrow> map_of s i \<noteq> None"

section \<open>The engine\<close>

record ('n, 'a, 'sc) deploy_env =
  de_parse :: "string \<Rightarrow> string + 'sc"
  de_build :: "'sc \<Rightarrow> string + ('n, 'a) workflow"
  de_version :: "'sc \<Rightarrow> string option"
  de_validators :: "'sc \<Rightarrow> bool \<times> string list"

record ('n, 'a) deploy_engine =
  en_deployments :: deployment_store
  en_workflows :: "('n, 'a) workflow_store"

definition validate_workflow :: "('n, 'a, 'sc) deploy_env \<Rightarrow> 'sc \<Rightarrow> (string \<times> bool \<times> string option) list" where
  "validate_workflow E schema =
     (case de_validators E schema of
        (valid, errors) \<Rightarrow>
          if \<not> valid then map (\<lambda>e. (''composite'', False, Some e)) errors else [(''composite'', True, None)])"

fun add_results :: "(nat \<Rightarrow> int) \<Rightarrow> nat \<Rightarrow> (string \<times> bool \<times> string option) list \<Rightarrow> deployment \<Rightarrow> deployment" where
  "add_results clk n [] d = d"
| "add_results clk n ((validator, passed, err) # rs) d =
     add_results clk (n + 1) rs (add_validation_result (clk n) validator passed err d)"

definition deploy_strategy ::
  "('n, 'x) json_lib \<Rightarrow> ('n, 'a) workflow \<Rightarrow> deployment_strategy \<Rightarrow> deployment \<Rightarrow> ('n, 'a) workflow_store \<Rightarrow>
     deploy_error + (deployment \<times> ('n, 'a) workflow_store)" where
  "deploy_strategy L w strategy d ws =
     try_bind (ws_create L w ws) (\<lambda>ws'.
       Inr (case strategy of
              Direct \<Rightarrow> d
            | BlueGreen percentage \<Rightarrow>
                d\<lparr>dp_metadata := AList.update ''traffic_percentage'' (show_nat (unat percentage)) (dp_metadata d)\<rparr>
            | Canary first increment interval \<Rightarrow>
                d\<lparr>dp_metadata := AList.update ''canary_interval'' (show_nat (unat interval))
                    (AList.update ''canary_increment'' (show_nat (unat increment))
                      (AList.update ''canary_initial'' (show_nat (unat first)) (dp_metadata d)))\<rparr>, ws'))"

text \<open>The health checks are a stub that reports one healthy check.\<close>

definition perform_health_checks :: "(string \<times> bool \<times> u64 \<times> string option) list" where
  "perform_health_checks = [(''workflow_ready'', True, 10, None)]"

fun add_checks :: "(nat \<Rightarrow> int) \<Rightarrow> nat \<Rightarrow> (string \<times> bool \<times> u64 \<times> string option) list \<Rightarrow> deployment \<Rightarrow> deployment" where
  "add_checks clk n [] d = d"
| "add_checks clk n ((name, healthy, ms, err) # cs) d = add_checks clk (n + 1) cs (add_health_check (clk n) name healthy ms err d)"

text \<open>What \<^verbatim>\<open>deploy\<close> does once the record is validated and stored.\<close>

definition finish_deploy ::
  "('n, 'x) json_lib \<Rightarrow> (nat \<Rightarrow> int) \<Rightarrow> nat \<Rightarrow> ('n, 'a) workflow \<Rightarrow> deployment_request \<Rightarrow> deployment \<Rightarrow> ('n, 'a) deploy_engine \<Rightarrow>
     ('n, 'a) deploy_engine \<times> (deploy_error + deployment)" where
  "finish_deploy L clk n w req d en =
     (let d1 = d\<lparr>dp_status := DpInProgress\<rparr>;
          en1 = en\<lparr>en_deployments := ds_update d1 (ds_create d (en_deployments en))\<rparr> in
      case deploy_strategy L w (dq_strategy req) d1 (en_workflows en1) of
        Inl e \<Rightarrow> (en1, Inl e)
      | Inr (d2, ws) \<Rightarrow>
          (let d3 = add_checks clk n perform_health_checks d2;
               m = n + length perform_health_checks in
           if all_health_checks_passed d3 \<or> dp_health_checks d3 = [] then
             (let d4 = mark_complete (clk m) d3 in
              (en1\<lparr>en_workflows := ws,
                  en_deployments := ds_update d4 (ds_set_active (wf_id w) (dq_environment req) (dp_id d4) (en_deployments en1))\<rparr>, Inr d4))
           else
             (let d4 = mark_failed (clk m) ''Health checks failed'' d3 in
              (en1\<lparr>en_workflows := ws, en_deployments := ds_update d4 (en_deployments en1)\<rparr>, Inr d4))))"

definition new_record ::
  "('n, 'a, 'sc) deploy_env \<Rightarrow> int \<Rightarrow> string \<Rightarrow> deployment_request \<Rightarrow> 'sc \<Rightarrow> ('n, 'a) workflow \<Rightarrow> deployment option \<Rightarrow> deployment" where
  "new_record E now i req schema w previous =
     (deployment_new now i (wf_id w) (case de_version E schema of Some v \<Rightarrow> v | None \<Rightarrow> ''1.0.0'') (dq_strategy req)
        (dq_environment req) (dq_deployed_by req))\<lparr>dp_metadata := dq_metadata req, dp_previous := map_option dp_id previous\<rparr>"

definition deploy ::
  "('n, 'x) json_lib \<Rightarrow> ('n, 'a, 'sc) deploy_env \<Rightarrow> (nat \<Rightarrow> int) \<Rightarrow> string \<Rightarrow> deployment_request \<Rightarrow> ('n, 'a) deploy_engine \<Rightarrow>
     ('n, 'a) deploy_engine \<times> (deploy_error + deployment)" where
  "deploy L E clk i req en =
     (case de_parse E (dq_workflow_file req) of
        Inl e \<Rightarrow> (en, Inl (ParseFailed e))
      | Inr schema \<Rightarrow>
          (case de_build E schema of
             Inl e \<Rightarrow> (en, Inl (BuildFailed e))
           | Inr w \<Rightarrow>
               (let previous = ds_get_active (wf_id w) (dq_environment req) (en_deployments en);
                    d = new_record E (clk 0) i req schema w previous;
                    results = (if dq_skip_validation req then [] else validate_workflow E schema);
                    d1 = add_results clk 1 results d;
                    n = 1 + length results in
                if \<not> dq_skip_validation req \<and> \<not> all_validations_passed d1 then
                  (en\<lparr>en_deployments := ds_create (mark_failed (clk n) ''Validation failed'' d1) (en_deployments en)\<rparr>, Inl ValidationFailed)
                else if dq_dry_run req then
                  (let d2 = d1\<lparr>dp_status := DpValidating\<rparr> in (en\<lparr>en_deployments := ds_create d2 (en_deployments en)\<rparr>, Inr d2))
                else finish_deploy L clk n w req d1 en)))"

definition rollback ::
  "(nat \<Rightarrow> int) \<Rightarrow> rollback_request \<Rightarrow> ('n, 'a) deploy_engine \<Rightarrow> ('n, 'a) deploy_engine \<times> (deploy_error + deployment)" where
  "rollback clk req en =
     (case ds_get (rq_deployment_id req) (en_deployments en) of
        None \<Rightarrow> (en, Inl (DeploymentNotFound (rq_deployment_id req)))
      | Some current \<Rightarrow>
          (case (case rq_target req of Some t \<Rightarrow> Some t | None \<Rightarrow> dp_previous current) of
             None \<Rightarrow> (en, Inl NoPreviousDeployment)
           | Some tid \<Rightarrow>
               (case ds_get tid (en_deployments en) of
                  None \<Rightarrow> (en, Inl (DeploymentNotFound tid))
                | Some target \<Rightarrow>
                    if dp_is_failed target then (en, Inl TargetFailed)
                    else
                      (let current1 = current\<lparr>dp_rollback_info :=
                             Some \<lparr>ri_target = dp_id target, ri_reason = rq_reason req, ri_by = rq_by req, ri_at = clk 0,
                                   ri_automatic = False\<rparr>\<rparr>;
                           current2 = mark_rolled_back (clk 1) (rq_reason req) current1 in
                       (en\<lparr>en_deployments :=
                             ds_set_active (dp_workflow_id target) (dp_environment target) (dp_id target)
                               (ds_update current2 (en_deployments en))\<rparr>, Inr target)))))"

definition list_deployments :: "string option \<Rightarrow> nat \<Rightarrow> ('n, 'a) deploy_engine \<Rightarrow> deployment list" where
  "list_deployments environment limit en =
     (case environment of
        Some env \<Rightarrow> ds_list_by_environment env limit (en_deployments en)
      | None \<Rightarrow> ds_list_all limit (en_deployments en))"

section \<open>What a deployment does\<close>

lemmas deployment_update_defs = mark_complete_def mark_failed_def mark_rolled_back_def add_validation_result_def add_health_check_def

lemma ds_get_put [simp]:
  "ds_get i (ds_create d s) = (if i = dp_id d then Some d else ds_get i s)"
  "ds_get i (ds_update d s) = (if i = dp_id d then Some d else ds_get i s)"
  "ds_get i (ds_set_active w env k s) = ds_get i s"
  "ds_active (ds_create d s) = ds_active s" "ds_active (ds_update d s) = ds_active s"
  by (simp_all add: ds_get_def ds_create_def ds_update_def ds_set_active_def hm_simps)

lemma ds_set_active_get [simp]: "map_of (ds_active (ds_set_active w env k s)) x = (if x = (w, env) then Some k else map_of (ds_active s) x)"
  by (simp add: ds_set_active_def hm_simps)

text \<open>The parts of a record that no operation of the engine changes.\<close>

definition dp_key :: "deployment \<Rightarrow> string \<times> string \<times> string \<times> string option" where
  "dp_key d = (dp_id d, dp_workflow_id d, dp_environment d, dp_previous d)"

lemma dp_key_simps [simp]:
  "dp_key (d\<lparr>dp_status := st\<rparr>) = dp_key d" "dp_key (d\<lparr>dp_metadata := md\<rparr>) = dp_key d" "dp_key (mark_complete now d) = dp_key d"
  "dp_key (mark_failed now reason d) = dp_key d" "dp_key (mark_rolled_back now reason d) = dp_key d"
  "dp_key (d\<lparr>dp_rollback_info := ri\<rparr>) = dp_key d" "dp_key (add_validation_result now v b e d) = dp_key d"
  "dp_key (add_health_check now nm b ms e d) = dp_key d"
  by (simp_all add: dp_key_def deployment_update_defs)

lemma mark_simps [simp]:
  "dp_id (mark_failed now reason d) = dp_id d" "dp_status (mark_failed now reason d) = DpFailed reason"
  "dp_health_checks (mark_failed now reason d) = dp_health_checks d"
  "dp_id (mark_rolled_back now reason d) = dp_id d" "dp_status (mark_rolled_back now reason d) = DpRolledBack reason now"
  "dp_health_checks (mark_rolled_back now reason d) = dp_health_checks d"
  by (simp_all add: mark_failed_def mark_rolled_back_def)

lemma dp_keyD: "dp_key d = dp_key d' \<Longrightarrow> dp_id d = dp_id d' \<and> dp_workflow_id d = dp_workflow_id d' \<and> dp_environment d = dp_environment d' \<and> dp_previous d = dp_previous d'"
  by (simp add: dp_key_def)

lemma add_results_key [simp]: "dp_key (add_results clk n rs d) = dp_key d"
  by (induction clk n rs d rule: add_results.induct) simp_all

lemma add_results_rest [simp]:
  "dp_health_checks (add_results clk n rs d) = dp_health_checks d" "dp_status (add_results clk n rs d) = dp_status d"
  "map vr_passed (dp_validation_results (add_results clk n rs d)) = map vr_passed (dp_validation_results d) @ map (\<lambda>(_, b, _). b) rs"
  by (induction clk n rs d rule: add_results.induct) (simp_all add: add_validation_result_def)

lemma validations_passed:
  assumes "dp_validation_results d = []"
  shows "all_validations_passed (add_results clk n (validate_workflow E schema) d) \<longleftrightarrow> fst (de_validators E schema)"
proof -
  have ps: "map vr_passed (dp_validation_results (add_results clk n (validate_workflow E schema) d)) = map (\<lambda>(_, b, _). b) (validate_workflow E schema)"
    using assms by simp
  have conv: "all_validations_passed d' \<longleftrightarrow> map vr_passed (dp_validation_results d') \<noteq> [] \<and> list_all id (map vr_passed (dp_validation_results d'))" for d'
    by (simp add: all_validations_passed_def list_all_iff)
  show ?thesis
    unfolding conv ps by (cases "de_validators E schema") (auto simp: validate_workflow_def list_all_iff)
qed

lemma strategy_cases:
  assumes "workflow_validate L w = Inr ()"
  shows "deploy_strategy L w strategy d ws = (if map_of ws (wf_id w) \<noteq> None then Inl (WorkflowExists (wf_id w))
     else Inr (fst (sum.projr (deploy_strategy L w strategy d ws)), AList.update (wf_id w) w ws))"
    "deploy_strategy L w strategy d ws = Inr (d', ws') \<Longrightarrow> dp_key d' = dp_key d \<and> dp_health_checks d' = dp_health_checks d"
  using assms by (auto simp: deploy_strategy_def ws_create_def try_bind_def split: sum.splits if_splits deployment_strategy.splits)

text \<open>A workflow that is already stored stops the deployment; a new one is stored and its deployment becomes active.\<close>

lemma finish_exists:
  assumes "workflow_validate L w = Inr ()" "map_of (en_workflows en) (wf_id w) \<noteq> None"
  shows "finish_deploy L clk n w req d en =
      (en\<lparr>en_deployments := ds_update (d\<lparr>dp_status := DpInProgress\<rparr>) (ds_create d (en_deployments en))\<rparr>, Inl (WorkflowExists (wf_id w)))"
  using strategy_cases(1) [OF assms(1), of "dq_strategy req" "d\<lparr>dp_status := DpInProgress\<rparr>" "en_workflows en"] assms(2)
  by (simp add: finish_deploy_def Let_def)

lemma finish_releases:
  assumes valid: "workflow_validate L w = Inr ()" and fresh: "dp_health_checks d = []" and new: "map_of (en_workflows en) (wf_id w) = None"
  shows "\<exists>d'. finish_deploy L clk n w req d en =
       (en\<lparr>en_workflows := AList.update (wf_id w) w (en_workflows en),
           en_deployments := ds_update d' (ds_set_active (wf_id w) (dq_environment req) (dp_id d)
              (ds_update (d\<lparr>dp_status := DpInProgress\<rparr>) (ds_create d (en_deployments en))))\<rparr>, Inr d') \<and>
     dp_key d' = dp_key d \<and> dp_status d' = DpActive \<and> dp_health_checks d' \<noteq> []"
proof -
  let ?d1 = "d\<lparr>dp_status := DpInProgress\<rparr>"
  obtain d2 where d2: "deploy_strategy L w (dq_strategy req) ?d1 (en_workflows en) = Inr (d2, AList.update (wf_id w) w (en_workflows en))"
    using strategy_cases(1) [OF valid, of "dq_strategy req" ?d1 "en_workflows en"] new by simp
  have k: "dp_key d2 = dp_key d" "dp_health_checks d2 = []"
    using strategy_cases(2) [OF valid d2] fresh by simp_all
  hence "dp_id d2 = dp_id d"
    by (simp add: dp_key_def)
  thus ?thesis
    using k d2 by (simp add: finish_deploy_def Let_def perform_health_checks_def all_health_checks_passed_def add_health_check_def dp_key_def mark_complete_def)
qed

text \<open>The record a deployment starts with.\<close>

lemma new_record_simps [simp]:
  "dp_key (new_record E now i req schema w p) = (i, wf_id w, dq_environment req, map_option dp_id p)"
  "dp_health_checks (new_record E now i req schema w p) = []" "dp_validation_results (new_record E now i req schema w p) = []"
  by (simp_all add: new_record_def deployment_new_def dp_key_def)

text \<open>
  Deploying a workflow. For a file that parses and builds into a valid workflow \<open>w\<close>: the deployment is recorded under the new
  identifier, with the deployment that was active in the environment as its predecessor, and no other record changes.
  When the validators find an error the call fails and the record says so; a dry run ends with the status Validating; when
  the store has a workflow of that identifier the call fails and the record stays in progress; in these cases the
  workflows and the active deployments are unchanged. Otherwise the call returns the deployment as active,
  the store has the workflow, and the deployment is the active one of the workflow in this environment and of no other.
\<close>

lemma deploy_outcome:
  assumes parse: "de_parse E (dq_workflow_file req) = Inr schema" and build: "de_build E schema = Inr w"
    and valid: "workflow_validate L w = Inr ()"
  shows "let en' = fst (deploy L E clk i req en); r = snd (deploy L E clk i req en); s = en_deployments en; s' = en_deployments en' in
     (\<exists>d. ds_get i s' = Some d \<and>
        dp_key d = (i, wf_id w, dq_environment req, map_option dp_id (ds_get_active (wf_id w) (dq_environment req) s)) \<and>
        (if \<not> dq_skip_validation req \<and> \<not> fst (de_validators E schema) then
           r = Inl ValidationFailed \<and> dp_status d = DpFailed ''Validation failed'' \<and> en_workflows en' = en_workflows en \<and> ds_active s' = ds_active s
         else if dq_dry_run req then
           r = Inr d \<and> dp_status d = DpValidating \<and> en_workflows en' = en_workflows en \<and> ds_active s' = ds_active s
         else if ws_exists (wf_id w) (en_workflows en) then
           r = Inl (WorkflowExists (wf_id w)) \<and> dp_status d = DpInProgress \<and> en_workflows en' = en_workflows en \<and> ds_active s' = ds_active s
         else
           r = Inr d \<and> dp_status d = DpActive \<and> ds_get_active (wf_id w) (dq_environment req) s' = Some d \<and>
           (\<forall>k. ws_get k (en_workflows en') = (if k = wf_id w then Some w else ws_get k (en_workflows en))) \<and>
           (\<forall>k. k \<noteq> (wf_id w, dq_environment req) \<longrightarrow> map_of (ds_active s') k = map_of (ds_active s) k))) \<and>
     (\<forall>k. k \<noteq> i \<longrightarrow> ds_get k s' = ds_get k s)"
proof -
  let ?start = "new_record E (clk 0) i req schema w (ds_get_active (wf_id w) (dq_environment req) (en_deployments en))"
  let ?rs = "if dq_skip_validation req then [] else validate_workflow E schema"
  let ?d = "add_results clk 1 ?rs ?start"
  have key: "dp_key ?d = (i, wf_id w, dq_environment req, map_option dp_id (ds_get_active (wf_id w) (dq_environment req) (en_deployments en)))"
    by simp
  have di: "dp_id ?d = i"
    using key unfolding dp_key_def by blast
  have h: "dp_health_checks ?d = []"
    by simp
  have passed: "(\<not> dq_skip_validation req \<and> \<not> all_validations_passed ?d) \<longleftrightarrow> (\<not> dq_skip_validation req \<and> \<not> fst (de_validators E schema))"
    using validations_passed [of ?start clk 1 E schema] by simp
  have eq: "deploy L E clk i req en =
      (if \<not> dq_skip_validation req \<and> \<not> fst (de_validators E schema) then
         (en\<lparr>en_deployments := ds_create (mark_failed (clk (1 + length ?rs)) ''Validation failed'' ?d) (en_deployments en)\<rparr>, Inl ValidationFailed)
       else if dq_dry_run req then
         (en\<lparr>en_deployments := ds_create (?d\<lparr>dp_status := DpValidating\<rparr>) (en_deployments en)\<rparr>, Inr (?d\<lparr>dp_status := DpValidating\<rparr>))
       else finish_deploy L clk (1 + length ?rs) w req ?d en)"
    unfolding deploy_def parse build sum.case Let_def passed ..
  consider (invalid) "\<not> dq_skip_validation req \<and> \<not> fst (de_validators E schema)"
    | (dry) "\<not> (\<not> dq_skip_validation req \<and> \<not> fst (de_validators E schema))" "dq_dry_run req"
    | (exists) "\<not> (\<not> dq_skip_validation req \<and> \<not> fst (de_validators E schema))" "\<not> dq_dry_run req" "ws_exists (wf_id w) (en_workflows en)"
    | (new) "\<not> (\<not> dq_skip_validation req \<and> \<not> fst (de_validators E schema))" "\<not> dq_dry_run req" "\<not> ws_exists (wf_id w) (en_workflows en)"
    by blast
  thus ?thesis
  proof cases
    case invalid
    let ?f = "mark_failed (clk (1 + length ?rs)) ''Validation failed'' ?d"
    have "dp_key ?f = dp_key ?d" "dp_id ?f = i" "dp_status ?f = DpFailed ''Validation failed''"
      using di by (simp_all only: dp_key_simps mark_simps)
    thus ?thesis
      unfolding eq Let_def using invalid key by simp
  next
    case dry
    have "dp_key (?d\<lparr>dp_status := DpValidating\<rparr>) = dp_key ?d" "dp_id (?d\<lparr>dp_status := DpValidating\<rparr>) = i"
      using di by simp_all
    thus ?thesis
      unfolding eq Let_def if_not_P [OF dry(1)] using dry(2) key by simp
  next
    case exists
    have "dp_key (?d\<lparr>dp_status := DpInProgress\<rparr>) = dp_key ?d" "dp_id (?d\<lparr>dp_status := DpInProgress\<rparr>) = i"
      using di by simp_all
    moreover have "map_of (en_workflows en) (wf_id w) \<noteq> None"
      using exists(3) by (simp add: ws_exists_def)
    ultimately show ?thesis
      unfolding eq Let_def if_not_P [OF exists(1)] finish_exists [OF valid \<open>map_of (en_workflows en) (wf_id w) \<noteq> None\<close>]
      using exists(2,3) key di by simp
  next
    case new
    have none: "map_of (en_workflows en) (wf_id w) = None"
      using new(3) by (simp add: ws_exists_def)
    obtain d' where d': "finish_deploy L clk (1 + length ?rs) w req ?d en =
         (en\<lparr>en_workflows := AList.update (wf_id w) w (en_workflows en),
             en_deployments := ds_update d' (ds_set_active (wf_id w) (dq_environment req) (dp_id ?d)
                (ds_update (?d\<lparr>dp_status := DpInProgress\<rparr>) (ds_create ?d (en_deployments en))))\<rparr>, Inr d')"
        "dp_key d' = dp_key ?d" "dp_status d' = DpActive"
      using finish_releases [OF valid h none, of clk "1 + length ?rs" req] by blast
    have i': "dp_id d' = i"
      using d'(2) di by (simp add: dp_key_def)
    show ?thesis
      unfolding eq Let_def if_not_P [OF new(1)] d'(1)
      using new(2,3) key di d'(2,3) i' by (simp add: ds_get_active_def ws_get_def hm_simps)
  qed
qed

section \<open>Histories of the engine\<close>

text \<open>The states the engine can reach: identifiers of deployments are fresh.\<close>

inductive dep_reach :: "('n, 'x) json_lib \<Rightarrow> ('n, 'a, 'sc) deploy_env \<Rightarrow> ('n, 'a) deploy_engine \<Rightarrow> bool" for L E where
  start: "dep_reach L E \<lparr>en_deployments = ds_new, en_workflows = []\<rparr>"
| deploy: "dep_reach L E en \<Longrightarrow> ds_get i (en_deployments en) = None \<Longrightarrow> dep_reach L E (fst (deploy L E clk i req en))"
| rollback: "dep_reach L E en \<Longrightarrow> dep_reach L E (fst (rollback clk req en))"

text \<open>
  The invariant: records have their own identifier; the active deployment of a workflow and an environment, and the
  predecessor of a deployment, are deployments of that workflow in that environment; a deployment whose health was checked
  has its workflow in the store, and is the only such deployment of the workflow.
\<close>

definition released :: "deployment \<Rightarrow> bool" where
  "released d \<longleftrightarrow> dp_health_checks d \<noteq> []"

definition dep_inv :: "('n, 'a) deploy_engine \<Rightarrow> bool" where
  "dep_inv en \<longleftrightarrow>
     (\<forall>i d. ds_get i (en_deployments en) = Some d \<longrightarrow> dp_id d = i) \<and>
     (\<forall>w env i. map_of (ds_active (en_deployments en)) (w, env) = Some i \<longrightarrow>
        (\<exists>d. ds_get i (en_deployments en) = Some d \<and> dp_workflow_id d = w \<and> dp_environment d = env)) \<and>
     (\<forall>i d p. ds_get i (en_deployments en) = Some d \<longrightarrow> dp_previous d = Some p \<longrightarrow>
        (\<exists>d'. ds_get p (en_deployments en) = Some d' \<and> dp_workflow_id d' = dp_workflow_id d \<and> dp_environment d' = dp_environment d)) \<and>
     (\<forall>i d. ds_get i (en_deployments en) = Some d \<longrightarrow> dp_is_active d \<longrightarrow> released d) \<and>
     (\<forall>i d. ds_get i (en_deployments en) = Some d \<longrightarrow> released d \<longrightarrow> ws_exists (dp_workflow_id d) (en_workflows en)) \<and>
     (\<forall>i j d d'. ds_get i (en_deployments en) = Some d \<longrightarrow> ds_get j (en_deployments en) = Some d' \<longrightarrow> released d \<longrightarrow> released d' \<longrightarrow>
        dp_workflow_id d = dp_workflow_id d' \<longrightarrow> i = j)"

lemma dep_invD:
  assumes "dep_inv en"
  shows "ds_get i (en_deployments en) = Some d \<Longrightarrow> dp_id d = i"
    "map_of (ds_active (en_deployments en)) (w, env) = Some i \<Longrightarrow>
       \<exists>d. ds_get i (en_deployments en) = Some d \<and> dp_workflow_id d = w \<and> dp_environment d = env"
    "ds_get i (en_deployments en) = Some d \<Longrightarrow> dp_previous d = Some p \<Longrightarrow>
       \<exists>d'. ds_get p (en_deployments en) = Some d' \<and> dp_workflow_id d' = dp_workflow_id d \<and> dp_environment d' = dp_environment d"
    "ds_get i (en_deployments en) = Some d \<Longrightarrow> dp_is_active d \<Longrightarrow> released d"
    "ds_get i (en_deployments en) = Some d \<Longrightarrow> released d \<Longrightarrow> ws_exists (dp_workflow_id d) (en_workflows en)"
    "ds_get i (en_deployments en) = Some d \<Longrightarrow> ds_get j (en_deployments en) = Some d' \<Longrightarrow> released d \<Longrightarrow> released d' \<Longrightarrow>
       dp_workflow_id d = dp_workflow_id d' \<Longrightarrow> i = j"
  using assms unfolding dep_inv_def by blast+

lemma dep_inv_start: "dep_inv \<lparr>en_deployments = ds_new, en_workflows = []\<rparr>"
  by (simp add: dep_inv_def ds_new_def ds_get_def)

lemma previous_ok:
  assumes "dep_inv en" "map_option dp_id (ds_get_active w env (en_deployments en)) = Some p"
  shows "\<exists>d'. ds_get p (en_deployments en) = Some d' \<and> dp_workflow_id d' = w \<and> dp_environment d' = env"
proof -
  obtain k d' where "map_of (ds_active (en_deployments en)) (w, env) = Some k" "ds_get k (en_deployments en) = Some d'" "dp_id d' = p"
    using assms(2) by (auto simp: ds_get_active_def bind_eq_Some_conv)
  thus ?thesis
    using dep_invD(2) [OF assms(1), of w env k] dep_invD(1) [OF assms(1), of k d'] by auto
qed

text \<open>A new record that is not released, with the active deployments and the workflows unchanged.\<close>

lemma dep_inv_record:
  assumes inv: "dep_inv en" and new: "ds_get i (en_deployments en) = None"
    and d: "dp_key d = (i, w, env, map_option dp_id (ds_get_active w env (en_deployments en)))" "\<not> released d" "\<not> dp_is_active d"
    and s: "\<And>k. ds_get k s = (if k = i then Some d else ds_get k (en_deployments en))" "ds_active s = ds_active (en_deployments en)"
  shows "dep_inv (en\<lparr>en_deployments := s\<rparr>)"
proof -
  have di: "dp_id d = i" "dp_workflow_id d = w" "dp_environment d = env" "dp_previous d = map_option dp_id (ds_get_active w env (en_deployments en))"
    using d(1) by (simp_all add: dp_key_def)
  have act: "k \<noteq> i" if "map_of (ds_active (en_deployments en)) (w', env') = Some k" for w' env' k
    using dep_invD(2) [OF inv that] new by auto
  have prev: "p \<noteq> i" if "ds_get k (en_deployments en) = Some d'" "dp_previous d' = Some p" for k d' p
    using dep_invD(3) [OF inv that] new by auto
  have new_prev: "\<exists>d'. p \<noteq> i \<and> ds_get p (en_deployments en) = Some d' \<and> dp_workflow_id d' = w \<and> dp_environment d' = env" if "dp_previous d = Some p" for p
    using previous_ok [OF inv, of w env p] that di(4) new by auto
  show ?thesis
    unfolding dep_inv_def
    apply (intro conjI)
    subgoal using di(1) dep_invD(1) [OF inv] by (simp add: s)
    subgoal using dep_invD(2) [OF inv] act by (fastforce simp: s)
    subgoal using dep_invD(3) [OF inv] prev new_prev di(2,3) by (fastforce simp: s split: if_splits)
    subgoal using dep_invD(4) [OF inv] d(3) by (simp add: s)
    subgoal using dep_invD(5) [OF inv] d(2) by (simp add: s)
    subgoal using dep_invD(6) [OF inv] d(2) by (auto simp: s split: if_splits)
    done
qed

text \<open>A release: the workflow was not stored before.\<close>

lemma dep_inv_release:
  assumes inv: "dep_inv en" and new: "ds_get i (en_deployments en) = None" "\<not> ws_exists (wf_id w) (en_workflows en)"
    and d: "dp_key d = (i, wf_id w, env, map_option dp_id (ds_get_active (wf_id w) env (en_deployments en)))" "released d"
    and s: "\<And>k. ds_get k s = (if k = i then Some d else ds_get k (en_deployments en))"
      "\<And>x. map_of (ds_active s) x = (if x = (wf_id w, env) then Some i else map_of (ds_active (en_deployments en)) x)"
  shows "dep_inv (en\<lparr>en_workflows := AList.update (wf_id w) w (en_workflows en), en_deployments := s\<rparr>)"
proof -
  have di: "dp_id d = i" "dp_workflow_id d = wf_id w" "dp_environment d = env"
      "dp_previous d = map_option dp_id (ds_get_active (wf_id w) env (en_deployments en))"
    using d(1) by (simp_all add: dp_key_def)
  have act: "k \<noteq> i" if "map_of (ds_active (en_deployments en)) (w', env') = Some k" for w' env' k
    using dep_invD(2) [OF inv that] new(1) by auto
  have prev: "p \<noteq> i" if "ds_get k (en_deployments en) = Some d'" "dp_previous d' = Some p" for k d' p
    using dep_invD(3) [OF inv that] new(1) by auto
  have new_prev: "\<exists>d'. p \<noteq> i \<and> ds_get p (en_deployments en) = Some d' \<and> dp_workflow_id d' = wf_id w \<and> dp_environment d' = env" if "dp_previous d = Some p" for p
    using previous_ok [OF inv, of "wf_id w" env p] that di(4) new(1) by auto
  have ws: "ws_exists x (AList.update (wf_id w) w (en_workflows en)) \<longleftrightarrow> x = wf_id w \<or> ws_exists x (en_workflows en)" for x
    by (simp add: ws_exists_def hm_simps)
  have fresh: "dp_workflow_id d' \<noteq> wf_id w" if "ds_get k (en_deployments en) = Some d'" "released d'" for k d'
    using dep_invD(5) [OF inv that] new(2) by auto
  show ?thesis
    unfolding dep_inv_def
    apply (intro conjI)
    subgoal using di(1) dep_invD(1) [OF inv] by (simp add: s)
    subgoal using dep_invD(2) [OF inv] act di(2,3) by (fastforce simp: s split: if_splits)
    subgoal using dep_invD(3) [OF inv] prev new_prev di(2,3) by (fastforce simp: s split: if_splits)
    subgoal using dep_invD(4) [OF inv] d(2) by (simp add: s)
    subgoal using dep_invD(5) [OF inv] di(2) by (auto simp: s ws split: if_splits)
    subgoal using dep_invD(6) [OF inv] fresh di(2) by (simp add: s) metis
    done
qed

lemma rollback_failed: "snd (rollback clk req en) = Inl e \<Longrightarrow> fst (rollback clk req en) = en"
  by (auto simp: rollback_def Let_def split: option.splits if_splits)

lemma rollback_succeeded:
  assumes "snd (rollback clk req en) = Inr target"
  shows "\<exists>current tid c. ds_get (rq_deployment_id req) (en_deployments en) = Some current \<and>
     (rq_target req = Some tid \<or> rq_target req = None \<and> dp_previous current = Some tid) \<and>
     ds_get tid (en_deployments en) = Some target \<and> \<not> dp_is_failed target \<and>
     fst (rollback clk req en) = en\<lparr>en_deployments := ds_set_active (dp_workflow_id target) (dp_environment target) (dp_id target)
          (ds_update c (en_deployments en))\<rparr> \<and>
     dp_key c = dp_key current \<and> dp_health_checks c = dp_health_checks current \<and> dp_status c = DpRolledBack (rq_reason req) (clk 1)"
proof -
  obtain current where c: "ds_get (rq_deployment_id req) (en_deployments en) = Some current"
    using assms by (auto simp: rollback_def split: option.splits)
  obtain tid where t: "(case rq_target req of Some t \<Rightarrow> Some t | None \<Rightarrow> dp_previous current) = Some tid"
    using assms c by (cases "case rq_target req of Some t \<Rightarrow> Some t | None \<Rightarrow> dp_previous current") (auto simp: rollback_def)
  have "ds_get tid (en_deployments en) = Some target" "\<not> dp_is_failed target"
    using assms unfolding rollback_def c option.case t by (auto simp: Let_def split: option.splits if_splits)
  thus ?thesis
    using c t unfolding rollback_def by (auto simp: Let_def split: option.splits)
qed

lemma dep_inv_rollback:
  assumes inv: "dep_inv en"
  shows "dep_inv (fst (rollback clk req en))"
proof (cases "snd (rollback clk req en)")
  case (Inl e)
  thus ?thesis
    using rollback_failed inv by metis
next
  case (Inr target)
  then obtain current tid c where c: "ds_get (rq_deployment_id req) (en_deployments en) = Some current"
      "ds_get tid (en_deployments en) = Some target"
      "fst (rollback clk req en) = en\<lparr>en_deployments := ds_set_active (dp_workflow_id target) (dp_environment target) (dp_id target)
          (ds_update c (en_deployments en))\<rparr>"
      "dp_key c = dp_key current" "dp_health_checks c = dp_health_checks current" "dp_status c = DpRolledBack (rq_reason req) (clk 1)"
    using rollback_succeeded [of clk req en target] by blast
  have key: "dp_id c = rq_deployment_id req" "dp_workflow_id c = dp_workflow_id current" "dp_environment c = dp_environment current"
      "dp_previous c = dp_previous current" "dp_id target = tid"
    using dp_keyD [OF c(4)] dep_invD(1) [OF inv c(1)] dep_invD(1) [OF inv c(2)] by simp_all
  define s where "s = ds_set_active (dp_workflow_id target) (dp_environment target) (dp_id target) (ds_update c (en_deployments en))"
  have g: "ds_get k s = (if k = rq_deployment_id req then Some c else ds_get k (en_deployments en))" for k
    by (simp add: s_def key)
  have a: "map_of (ds_active s) x = (if x = (dp_workflow_id target, dp_environment target) then Some tid else map_of (ds_active (en_deployments en)) x)" for x
    by (simp add: s_def key)
  have same: "\<exists>d. ds_get k s = Some d \<and> dp_workflow_id d = dp_workflow_id d' \<and> dp_environment d = dp_environment d'"
    if "ds_get k (en_deployments en) = Some d'" for k d'
    using that c(1) key by (auto simp: g)
  have origin: "\<exists>d'. ds_get k (en_deployments en) = Some d' \<and> dp_key d = dp_key d' \<and> (released d \<longleftrightarrow> released d') \<and> (dp_is_active d \<longrightarrow> dp_is_active d')"
    if "ds_get k s = Some d" for k d
    using that c by (auto simp: g released_def dp_is_active_def split: if_splits)
  have actives: "\<exists>d. ds_get k s = Some d \<and> dp_workflow_id d = w \<and> dp_environment d = env" if "map_of (ds_active s) (w, env) = Some k" for w env k
  proof (cases "(w, env) = (dp_workflow_id target, dp_environment target)")
    case True
    thus ?thesis
      using that same [OF c(2)] by (simp add: a)
  next
    case False
    hence "map_of (ds_active (en_deployments en)) (w, env) = Some k"
      using that by (simp only: a if_False)
    thus ?thesis
      using dep_invD(2) [OF inv, of w env k] same [of k] by fastforce
  qed
  have previous: "\<exists>d'. ds_get p s = Some d' \<and> dp_workflow_id d' = dp_workflow_id d \<and> dp_environment d' = dp_environment d"
    if d: "ds_get k s = Some d" "dp_previous d = Some p" for k d p
  proof -
    obtain e where e: "ds_get k (en_deployments en) = Some e" "dp_key d = dp_key e"
      using origin [OF d(1)] by blast
    obtain e' where "ds_get p (en_deployments en) = Some e'" "dp_workflow_id e' = dp_workflow_id e" "dp_environment e' = dp_environment e"
      using dep_invD(3) [OF inv e(1), of p] dp_keyD [OF e(2)] d(2) by auto
    thus ?thesis
      using same [of p e'] dp_keyD [OF e(2)] by auto
  qed
  have active: "released d" if d: "ds_get k s = Some d" "dp_is_active d" for k d
    using origin [OF d(1)] dep_invD(4) [OF inv, of k] d(2) by blast
  have stored: "ws_exists (dp_workflow_id d) (en_workflows en)" if d: "ds_get k s = Some d" "released d" for k d
    using origin [OF d(1)] dep_invD(5) [OF inv, of k] d(2) dp_keyD by metis
  have single: "k = j"
    if d: "ds_get k s = Some d" "ds_get j s = Some d'" "released d" "released d'" "dp_workflow_id d = dp_workflow_id d'" for k j d d'
  proof -
    obtain e e' where e: "ds_get k (en_deployments en) = Some e" "dp_key d = dp_key e" "released e"
        "ds_get j (en_deployments en) = Some e'" "dp_key d' = dp_key e'" "released e'"
      using origin [OF d(1)] origin [OF d(2)] d(3,4) by blast
    show ?thesis
      using dep_invD(6) [OF inv e(1,4,3,6)] dp_keyD [OF e(2)] dp_keyD [OF e(5)] d(5) by simp
  qed
  have "dep_inv (en\<lparr>en_deployments := s\<rparr>)"
    unfolding dep_inv_def
    apply (intro conjI)
    subgoal using dep_invD(1) [OF inv] key(1) by (simp add: g)
    subgoal using actives by simp
    subgoal using previous by simp
    subgoal using active by simp
    subgoal using stored by simp
    subgoal using single by simp
    done
  thus ?thesis
    by (simp add: c(3) s_def)
qed

lemma dep_inv_finish:
  assumes inv: "dep_inv en" and new: "ds_get i (en_deployments en) = None"
    and d: "dp_key d = (i, wf_id w, dq_environment req, map_option dp_id (ds_get_active (wf_id w) (dq_environment req) (en_deployments en)))"
      "dp_health_checks d = []"
  shows "dep_inv (fst (finish_deploy L clk n w req d en))"
proof (cases "workflow_validate L w = Inr () \<and> map_of (en_workflows en) (wf_id w) = None")
  case True
  obtain d' where d': "finish_deploy L clk n w req d en =
       (en\<lparr>en_workflows := AList.update (wf_id w) w (en_workflows en),
           en_deployments := ds_update d' (ds_set_active (wf_id w) (dq_environment req) (dp_id d)
              (ds_update (d\<lparr>dp_status := DpInProgress\<rparr>) (ds_create d (en_deployments en))))\<rparr>, Inr d')"
      "dp_key d' = dp_key d" "dp_health_checks d' \<noteq> []"
    using finish_releases [OF conjunct1 [OF True] d(2) conjunct2 [OF True], of clk n req] by blast
  have di: "dp_id d = i" "dp_id d' = i"
    using d(1) d'(2) by (simp_all add: dp_key_def)
  show ?thesis
    unfolding d'(1) fst_conv
    by (rule dep_inv_release [OF inv new, where d = d' and env = "dq_environment req"])
      (use True d(1) d' di in \<open>simp_all add: released_def ws_exists_def\<close>)
next
  case False
  let ?d1 = "d\<lparr>dp_status := DpInProgress\<rparr>"
  have "\<exists>e. ws_create L w (en_workflows en) = Inl e"
    using False by (auto simp: ws_create_def split: sum.splits)
  then obtain e where "deploy_strategy L w (dq_strategy req) ?d1 (en_workflows en) = Inl e"
    by (auto simp: deploy_strategy_def)
  hence eq: "fst (finish_deploy L clk n w req d en) = en\<lparr>en_deployments := ds_update ?d1 (ds_create d (en_deployments en))\<rparr>"
    by (simp add: finish_deploy_def Let_def)
  have di: "dp_id d = i"
    using d(1) by (simp add: dp_key_def)
  show ?thesis
    unfolding eq
    by (rule dep_inv_record [OF inv new, where d = ?d1 and w = "wf_id w" and env = "dq_environment req"])
      (use d di in \<open>simp_all add: released_def dp_is_active_def\<close>)
qed

lemma dep_inv_deploy:
  assumes inv: "dep_inv en" and new: "ds_get i (en_deployments en) = None"
  shows "dep_inv (fst (deploy L E clk i req en))"
proof (cases "\<exists>schema w. de_parse E (dq_workflow_file req) = Inr schema \<and> de_build E schema = Inr w")
  case False
  hence "fst (deploy L E clk i req en) = en"
    by (auto simp: deploy_def split: sum.splits)
  thus ?thesis
    using inv by simp
next
  case True
  then obtain schema w where p: "de_parse E (dq_workflow_file req) = Inr schema" "de_build E schema = Inr w"
    by blast
  define rs where "rs = (if dq_skip_validation req then [] else validate_workflow E schema)"
  define d where "d = add_results clk 1 rs (new_record E (clk 0) i req schema w (ds_get_active (wf_id w) (dq_environment req) (en_deployments en)))"
  have key: "dp_key d = (i, wf_id w, dq_environment req, map_option dp_id (ds_get_active (wf_id w) (dq_environment req) (en_deployments en)))"
      "dp_health_checks d = []"
    by (simp_all add: d_def)
  have di: "dp_id d = i"
    using key(1) by (simp add: dp_key_def)
  have rec: "dep_inv (en\<lparr>en_deployments := ds_create d' (en_deployments en)\<rparr>)"
    if "dp_key d' = dp_key d" "dp_health_checks d' = []" "\<not> dp_is_active d'" for d'
  proof (rule dep_inv_record [OF inv new, where d = d' and w = "wf_id w" and env = "dq_environment req"])
    show "dp_key d' = (i, wf_id w, dq_environment req, map_option dp_id (ds_get_active (wf_id w) (dq_environment req) (en_deployments en)))"
      using that(1) key(1) by simp
    show "ds_get k (ds_create d' (en_deployments en)) = (if k = i then Some d' else ds_get k (en_deployments en))" for k
      using dp_keyD [OF that(1)] di by simp
  qed (use that in \<open>simp_all add: released_def\<close>)
  have "fst (deploy L E clk i req en) \<in>
      {en\<lparr>en_deployments := ds_create (mark_failed (clk (1 + length rs)) ''Validation failed'' d) (en_deployments en)\<rparr>,
       en\<lparr>en_deployments := ds_create (d\<lparr>dp_status := DpValidating\<rparr>) (en_deployments en)\<rparr>,
       fst (finish_deploy L clk (1 + length rs) w req d en)}"
    unfolding deploy_def p sum.case Let_def rs_def [symmetric] d_def [symmetric] by auto
  thus ?thesis
    using rec [of "mark_failed (clk (1 + length rs)) ''Validation failed'' d"] rec [of "d\<lparr>dp_status := DpValidating\<rparr>"]
      dep_inv_finish [OF inv new key, of L clk "1 + length rs"] key(2)
    by (auto simp: dp_is_active_def)
qed

lemma dep_reach_inv: "dep_reach L E en \<Longrightarrow> dep_inv en"
  by (induction rule: dep_reach.induct) (simp_all add: dep_inv_start dep_inv_deploy dep_inv_rollback)

text \<open>
  A workflow can be deployed once. In every state the engine can reach: when a workflow has an active deployment, in whatever
  environment, each later deployment of a workflow with the same identifier that is no dry run and passes the validators
  fails because the workflow exists, and its record stays in progress for ever, since no operation but a rollback of this
  record changes it; the stored workflow and the active deployments stay the old ones.
\<close>

lemma redeployment_fails:
  assumes reach: "dep_reach L E en" and old: "ds_get j (en_deployments en) = Some d" "dp_status d = DpActive"
    and parse: "de_parse E (dq_workflow_file req) = Inr schema" "de_build E schema = Inr w" "workflow_validate L w = Inr ()"
    and req: "wf_id w = dp_workflow_id d" "dq_skip_validation req \<or> fst (de_validators E schema)" "\<not> dq_dry_run req"
  shows "snd (deploy L E clk i req en) = Inl (WorkflowExists (dp_workflow_id d)) \<and>
     (\<exists>d'. ds_get i (en_deployments (fst (deploy L E clk i req en))) = Some d' \<and> dp_status d' = DpInProgress) \<and>
     en_workflows (fst (deploy L E clk i req en)) = en_workflows en \<and>
     ds_active (en_deployments (fst (deploy L E clk i req en))) = ds_active (en_deployments en)"
proof -
  have "released d"
    using dep_invD(4) [OF dep_reach_inv [OF reach] old(1)] old(2) by (simp add: dp_is_active_def)
  hence stored: "map_of (en_workflows en) (wf_id w) \<noteq> None"
    using dep_invD(5) [OF dep_reach_inv [OF reach] old(1)] req(1) by (simp add: ws_exists_def)
  define rs where "rs = (if dq_skip_validation req then [] else validate_workflow E schema)"
  define r where "r = add_results clk 1 rs (new_record E (clk 0) i req schema w (ds_get_active (wf_id w) (dq_environment req) (en_deployments en)))"
  have "dp_key r = (i, wf_id w, dq_environment req, map_option dp_id (ds_get_active (wf_id w) (dq_environment req) (en_deployments en)))"
    by (simp add: r_def)
  hence "dp_id r = i"
    by (simp add: dp_key_def)
  moreover have "\<not> (\<not> dq_skip_validation req \<and> \<not> all_validations_passed r)"
    using req(2) validations_passed [of "new_record E (clk 0) i req schema w (ds_get_active (wf_id w) (dq_environment req) (en_deployments en))" clk 1 E schema]
    by (auto simp: r_def rs_def)
  hence "deploy L E clk i req en = finish_deploy L clk (1 + length rs) w req r en"
    unfolding deploy_def parse sum.case Let_def rs_def [symmetric] r_def [symmetric] using req(3) by auto
  ultimately show ?thesis
    using finish_exists [OF parse(3) stored, of clk "1 + length rs" req r] req(1) by simp
qed

text \<open>
  Rolling back. A call that fails changes nothing. A call that succeeds marks the deployment as rolled back; the target, which
  has not failed, becomes the active deployment of its workflow and environment, and when no target was asked for it is the
  predecessor, of the same workflow and environment as the deployment that is rolled back. No other record and no other
  active deployment changes, and the stored workflows do not change either.
\<close>

lemma rollback_outcome:
  assumes reach: "dep_reach L E en"
  shows "case snd (rollback clk req en) of
      Inl e \<Rightarrow> fst (rollback clk req en) = en
    | Inr target \<Rightarrow>
        (let s = en_deployments en; s' = en_deployments (fst (rollback clk req en)) in
         \<exists>current current'. ds_get (rq_deployment_id req) s = Some current \<and> ds_get (rq_deployment_id req) s' = Some current' \<and>
           dp_key current' = dp_key current \<and> dp_status current' = DpRolledBack (rq_reason req) (clk 1) \<and>
           ds_get (dp_id target) s = Some target \<and> \<not> dp_is_failed target \<and>
           map_of (ds_active s') (dp_workflow_id target, dp_environment target) = Some (dp_id target) \<and>
           (rq_target req = None \<longrightarrow> dp_workflow_id target = dp_workflow_id current \<and> dp_environment target = dp_environment current) \<and>
           (\<forall>k. k \<noteq> rq_deployment_id req \<longrightarrow> ds_get k s' = ds_get k s) \<and>
           (\<forall>x. x \<noteq> (dp_workflow_id target, dp_environment target) \<longrightarrow> map_of (ds_active s') x = map_of (ds_active s) x) \<and>
           en_workflows (fst (rollback clk req en)) = en_workflows en)"
proof (cases "snd (rollback clk req en)")
  case (Inl e)
  thus ?thesis
    using rollback_failed by simp
next
  case (Inr target)
  note inv = dep_reach_inv [OF reach]
  obtain current tid c where c: "ds_get (rq_deployment_id req) (en_deployments en) = Some current"
      "rq_target req = Some tid \<or> rq_target req = None \<and> dp_previous current = Some tid"
      "ds_get tid (en_deployments en) = Some target" "\<not> dp_is_failed target"
      "fst (rollback clk req en) = en\<lparr>en_deployments := ds_set_active (dp_workflow_id target) (dp_environment target) (dp_id target)
          (ds_update c (en_deployments en))\<rparr>"
      "dp_key c = dp_key current" "dp_status c = DpRolledBack (rq_reason req) (clk 1)"
    using rollback_succeeded [OF Inr] by blast
  have ids: "dp_id c = rq_deployment_id req" "dp_id target = tid"
    using dp_keyD [OF c(6)] dep_invD(1) [OF inv c(1)] dep_invD(1) [OF inv c(3)] by simp_all
  have "dp_workflow_id target = dp_workflow_id current \<and> dp_environment target = dp_environment current" if "rq_target req = None"
    using that c(2,3) dep_invD(3) [OF inv c(1), of tid] by auto
  thus ?thesis
    using Inr c ids by (simp add: Let_def)
qed

section \<open>Instances\<close>

definition demo_deploy_env :: "(int, unit, unit) deploy_env" where
  "demo_deploy_env =
     \<lparr>de_parse = (\<lambda>_. Inr ()), de_build = (\<lambda>_. Inr demo_workflow), de_version = (\<lambda>_. None), de_validators = (\<lambda>_. (True, []))\<rparr>"

definition demo_request :: "string \<Rightarrow> deployment_request" where
  "demo_request env =
     \<lparr>dq_workflow_file = ''w.yaml'', dq_environment = env, dq_strategy = Canary 10 20 300, dq_deployed_by = ''ann'', dq_metadata = [],
      dq_skip_validation = False, dq_dry_run = False\<rparr>"

definition demo_deploy_engine :: "(int, unit) deploy_engine" where
  "demo_deploy_engine = fst (deploy demo_json_lib demo_deploy_env int ''d1'' (demo_request ''dev'') \<lparr>en_deployments = ds_new, en_workflows = []\<rparr>)"

lemma demo_workflow_valid: "workflow_validate demo_json_lib demo_workflow = Inr ()"
  by (simp add: workflow_validate_def demo_workflow_def with_default_route_def workflow_new_def route_with_priority_def
      route_new_def route_validate_def validate_field_def)

lemma demo_deploy_simps [simp]:
  "de_parse demo_deploy_env file = Inr ()" "de_build demo_deploy_env u = Inr demo_workflow" "fst (de_validators demo_deploy_env u)"
  "dq_environment (demo_request env) = env" "\<not> dq_dry_run (demo_request env)" "wf_id demo_workflow = ''w''"
  by (simp_all add: demo_deploy_env_def demo_request_def demo_workflow_def with_default_route_def workflow_new_def)

lemma demo_deploy_engine_reach: "dep_reach demo_json_lib demo_deploy_env demo_deploy_engine"
  unfolding demo_deploy_engine_def by (rule dep_reach.deploy [OF dep_reach.start]) (simp add: ds_get_def ds_new_def)

lemma demo_deploy_engine_active: "\<exists>d. ds_get ''d1'' (en_deployments demo_deploy_engine) = Some d \<and> dp_status d = DpActive \<and> dp_workflow_id d = ''w''"
proof -
  let ?en = "\<lparr>en_deployments = ds_new, en_workflows = []\<rparr> :: (int, unit) deploy_engine"
  let ?d = "add_results int 1 [(''composite'', True, None)] (new_record demo_deploy_env 0 ''d1'' (demo_request ''dev'') () demo_workflow None)"
  have "deploy demo_json_lib demo_deploy_env int ''d1'' (demo_request ''dev'') ?en =
      finish_deploy demo_json_lib int 2 demo_workflow (demo_request ''dev'') ?d ?en"
    by (simp add: deploy_def validate_workflow_def ds_get_active_def ds_new_def Let_def all_validations_passed_def add_validation_result_def
        demo_request_def demo_deploy_env_def new_record_def deployment_new_def numeral_2_eq_2)
  moreover have "dp_health_checks ?d = []"
    by (simp only: add_results_rest new_record_simps)
  then obtain d' where "finish_deploy demo_json_lib int 2 demo_workflow (demo_request ''dev'') ?d ?en =
       (?en\<lparr>en_workflows := AList.update (wf_id demo_workflow) demo_workflow (en_workflows ?en),
           en_deployments := ds_update d' (ds_set_active (wf_id demo_workflow) (dq_environment (demo_request ''dev'')) (dp_id ?d)
              (ds_update (?d\<lparr>dp_status := DpInProgress\<rparr>) (ds_create ?d (en_deployments ?en))))\<rparr>, Inr d')"
      "dp_key d' = dp_key ?d" "dp_status d' = DpActive"
    using finish_releases [OF demo_workflow_valid, of ?d ?en int 2 "demo_request ''dev''"] by force
  moreover from this(2) have "dp_id d' = ''d1''" "dp_workflow_id d' = ''w''"
    by (simp_all add: dp_key_def new_record_def deployment_new_def add_validation_result_def)
  ultimately show ?thesis
    by (simp add: demo_deploy_engine_def)
qed

lemma deploy_outcome_witness:
  "\<exists>d. snd (deploy demo_json_lib demo_deploy_env int ''d1'' (demo_request ''dev'') \<lparr>en_deployments = ds_new, en_workflows = []\<rparr>) = Inr d \<and>
     dp_status d = DpActive \<and> ds_get_active ''w'' ''dev'' (en_deployments demo_deploy_engine) = Some d"
proof -
  have "\<not> ws_exists ''w'' ([] :: (int, unit) workflow_store)"
    by (simp add: ws_exists_def)
  thus ?thesis
    using deploy_outcome [where E = demo_deploy_env and L = demo_json_lib and req = "demo_request ''dev''" and schema = "()" and w = demo_workflow
        and en = "\<lparr>en_deployments = ds_new, en_workflows = []\<rparr>" and i = "''d1''" and clk = int]
    by (simp add: demo_workflow_valid Let_def demo_deploy_engine_def [symmetric]) blast
qed

lemma redeployment_fails_witness:
  "snd (deploy demo_json_lib demo_deploy_env int ''d2'' (demo_request ''prod'') demo_deploy_engine) = Inl (WorkflowExists ''w'')"
proof -
  obtain d where "ds_get ''d1'' (en_deployments demo_deploy_engine) = Some d" "dp_status d = DpActive" "dp_workflow_id d = ''w''"
    using demo_deploy_engine_active by blast
  thus ?thesis
    using redeployment_fails [OF demo_deploy_engine_reach, of "''d1''" d "demo_request ''prod''" "()" demo_workflow int "''d2''"]
    by (simp add: demo_workflow_valid)
qed

definition demo_rollback :: rollback_request where
  "demo_rollback = \<lparr>rq_deployment_id = ''d1'', rq_target = Some ''d1'', rq_reason = ''bug'', rq_by = ''ann''\<rparr>"

lemma demo_rolled_back: "\<exists>d. snd (rollback int demo_rollback demo_deploy_engine) = Inr d \<and> dp_workflow_id d = ''w'' \<and> dp_status d = DpActive"
  using demo_deploy_engine_active by (auto simp: rollback_def demo_rollback_def dp_is_failed_def Let_def)

lemma rollback_outcome_witness:
  "\<exists>target current. snd (rollback int demo_rollback demo_deploy_engine) = Inr target \<and>
     ds_get ''d1'' (en_deployments (fst (rollback int demo_rollback demo_deploy_engine))) = Some current \<and> dp_status current = DpRolledBack ''bug'' 1"
proof -
  obtain target where t: "snd (rollback int demo_rollback demo_deploy_engine) = Inr target"
    using demo_rolled_back by blast
  thus ?thesis
    using rollback_outcome [OF demo_deploy_engine_reach, of int demo_rollback] by (auto simp: Let_def demo_rollback_def)
qed

text \<open>A deployment can be rolled back to itself: then the active deployment is one that is rolled back, and the caller is told that it is active.\<close>

lemma rollback_to_itself:
  "\<exists>target d env. snd (rollback int demo_rollback demo_deploy_engine) = Inr target \<and> dp_status target = DpActive \<and>
     ds_get_active ''w'' env (en_deployments (fst (rollback int demo_rollback demo_deploy_engine))) = Some d \<and> dp_is_rolled_back d"
proof -
  obtain d where d: "ds_get ''d1'' (en_deployments demo_deploy_engine) = Some d" "dp_status d = DpActive" "dp_workflow_id d = ''w''"
    using demo_deploy_engine_active by blast
  have "dp_id d = ''d1''"
    using dep_invD(1) [OF dep_reach_inv [OF demo_deploy_engine_reach] d(1)] .
  thus ?thesis
    using d by (auto simp: rollback_def demo_rollback_def dp_is_failed_def Let_def ds_get_active_def dp_is_rolled_back_def mark_rolled_back_def
        intro!: exI [of _ "dp_environment d"])
qed

end
