(* ===== verification/AsyncRetry.thy ===== *)
theory AsyncRetry
  imports Deployments
begin

text \<open>
  Model of \<^verbatim>\<open>arcxa-core/src/reliability/async_retry.rs\<close>: retrying an asynchronous operation, with a decision per error and with
  counters. Attempt \<open>i\<close> of the operation returns \<open>ops i\<close>, and the caller's closure decides on the error of attempt \<open>i\<close> by
  \<open>should_retry i\<close>. The delays, which are computed with floating point numbers, and the rates of the counters are not modelled;
  each result comes with the number of the attempt that gave it.
\<close>

section \<open>The three loops\<close>

function retry_async :: "u32 \<Rightarrow> (nat \<Rightarrow> 'e + 't) \<Rightarrow> nat \<Rightarrow> ('e + 't) \<times> nat" where
  "retry_async max_retries ops attempt =
     (case ops attempt of
        Inr r \<Rightarrow> (Inr r, attempt)
      | Inl e \<Rightarrow> if attempt \<ge> unat max_retries then (Inl e, attempt) else retry_async max_retries ops (attempt + 1))"
  by pat_completeness auto
termination
  by (relation "measure (\<lambda>(m, ops, attempt). unat m - attempt)") auto

function retry_async_with :: "u32 \<Rightarrow> (nat \<Rightarrow> 'e + 't) \<Rightarrow> (nat \<Rightarrow> 'e \<Rightarrow> bool) \<Rightarrow> nat \<Rightarrow> ('e + 't) \<times> nat" where
  "retry_async_with max_retries ops should_retry attempt =
     (case ops attempt of
        Inr r \<Rightarrow> (Inr r, attempt)
      | Inl e \<Rightarrow>
          if \<not> should_retry attempt e then (Inl e, attempt)
          else if attempt \<ge> unat max_retries then (Inl e, attempt)
          else retry_async_with max_retries ops should_retry (attempt + 1))"
  by pat_completeness auto
termination
  by (relation "measure (\<lambda>(m, ops, should_retry, attempt). unat m - attempt)") auto

record retry_metrics =
  rm_total_attempts :: u64
  rm_successful_first_try :: u64
  rm_successful_after_retry :: u64
  rm_failed_after_retries :: u64

definition retry_metrics_new :: retry_metrics where
  "retry_metrics_new = \<lparr>rm_total_attempts = 0, rm_successful_first_try = 0, rm_successful_after_retry = 0, rm_failed_after_retries = 0\<rparr>"

function metrics_loop :: "u32 \<Rightarrow> (nat \<Rightarrow> 'e + 't) \<Rightarrow> nat \<Rightarrow> retry_metrics \<Rightarrow> ('e + 't) \<times> retry_metrics" where
  "metrics_loop max_retries ops attempt m =
     (case ops attempt of
        Inr r \<Rightarrow>
          (Inr r, if attempt = 0 then m\<lparr>rm_successful_first_try := rm_successful_first_try m + 1\<rparr>
                  else m\<lparr>rm_successful_after_retry := rm_successful_after_retry m + 1\<rparr>)
      | Inl e \<Rightarrow>
          if attempt \<ge> unat max_retries then (Inl e, m\<lparr>rm_failed_after_retries := rm_failed_after_retries m + 1\<rparr>)
          else metrics_loop max_retries ops (attempt + 1) m)"
  by pat_completeness auto
termination
  by (relation "measure (\<lambda>(mx, ops, attempt, m). unat mx - attempt)") auto

definition retry_async_with_metrics :: "u32 \<Rightarrow> (nat \<Rightarrow> 'e + 't) \<Rightarrow> retry_metrics \<Rightarrow> ('e + 't) \<times> retry_metrics" where
  "retry_async_with_metrics max_retries ops m = metrics_loop max_retries ops 0 (m\<lparr>rm_total_attempts := rm_total_attempts m + 1\<rparr>)"

declare retry_async.simps [simp del] retry_async_with.simps [simp del] metrics_loop.simps [simp del]

section \<open>What they compute\<close>

text \<open>The attempt whose result is returned: the first that ends the loop, or the last one allowed.\<close>

definition final_attempt :: "nat \<Rightarrow> (nat \<Rightarrow> bool) \<Rightarrow> nat \<Rightarrow> nat" where
  "final_attempt n stops i = (case find stops [i..<n] of Some j \<Rightarrow> j | None \<Rightarrow> max i n)"

lemma final_attempt_stop: "stops i \<Longrightarrow> final_attempt n stops i = i"
  by (cases "i < n") (simp_all add: final_attempt_def upt_conv_Cons)

lemma final_attempt_last: "n \<le> i \<Longrightarrow> final_attempt n stops i = i"
  by (simp add: final_attempt_def)

lemma final_attempt_step: "\<not> stops i \<Longrightarrow> i < n \<Longrightarrow> final_attempt n stops i = final_attempt n stops (i + 1)"
  by (simp add: final_attempt_def upt_conv_Cons del: upt_Suc)

lemma retry_async_with_final:
  "retry_async_with m ops should_retry i =
     (let j = final_attempt (unat m) (\<lambda>k. case ops k of Inr _ \<Rightarrow> True | Inl e \<Rightarrow> \<not> should_retry k e) i in (ops j, j))"
proof (induction m ops should_retry i rule: retry_async_with.induct)
  case (1 m ops should_retry i)
  let ?stops = "\<lambda>k. case ops k of Inr _ \<Rightarrow> True | Inl e \<Rightarrow> \<not> should_retry k e"
  show ?case
  proof (cases "?stops i \<or> unat m \<le> i")
    case True
    then have "final_attempt (unat m) ?stops i = i" using final_attempt_stop [of ?stops i] final_attempt_last by blast
    then show ?thesis using True by (auto simp: retry_async_with.simps [of m ops should_retry i] split: sum.splits)
  next
    case False
    then obtain e where e: "ops i = Inl e" "should_retry i e" "\<not> unat m \<le> i" by (auto split: sum.splits)
    then have "retry_async_with m ops should_retry i = retry_async_with m ops should_retry (i + 1)"
      by (simp add: retry_async_with.simps [of m ops should_retry i])
    moreover have "final_attempt (unat m) ?stops i = final_attempt (unat m) ?stops (i + 1)"
      using final_attempt_step [of ?stops i "unat m"] False by simp
    ultimately show ?thesis using "1.IH" [OF e(1)] e(2,3) by simp
  qed
qed

lemma retry_async_always: "retry_async m ops i = retry_async_with m ops (\<lambda>_ _. True) i"
proof (induction m ops i rule: retry_async.induct)
  case (1 m ops i)
  show ?case
    unfolding retry_async.simps [of m ops i] retry_async_with.simps [of m ops _ i]
    using 1 by (cases "ops i") simp_all
qed

text \<open>
  Retrying returns the result of the first attempt that succeeds, or, when the first \<^verbatim>\<open>max_retries + 1\<close> all fail, the error of
  the last of them; with a decision per error it also stops at the first error that is not worth a retry.
\<close>

lemma retry_async_correct:
  "retry_async_with m ops should_retry 0 =
     (let j = final_attempt (unat m) (\<lambda>k. case ops k of Inr _ \<Rightarrow> True | Inl e \<Rightarrow> \<not> should_retry k e) 0 in (ops j, j)) \<and>
   retry_async m ops 0 = (let j = final_attempt (unat m) (\<lambda>k. is_ok (ops k)) 0 in (ops j, j)) \<and>
   final_attempt (unat m) stops 0 \<le> unat m"
proof -
  have "(\<lambda>k. case ops k of Inr _ \<Rightarrow> True | Inl e \<Rightarrow> \<not> True) = (\<lambda>k. is_ok (ops k))" by (auto simp: is_ok_def split: sum.split)
  then have "retry_async m ops 0 = (let j = final_attempt (unat m) (\<lambda>k. is_ok (ops k)) 0 in (ops j, j))"
    unfolding retry_async_always retry_async_with_final by simp
  moreover have "final_attempt (unat m) stops 0 \<le> unat m"
    by (auto simp: final_attempt_def find_Some_iff split: option.split)
  ultimately show ?thesis by (simp add: retry_async_with_final)
qed

text \<open>The counters add up: each call is counted once as a success at once, a success after retries, or a failure.\<close>

definition metrics_balanced :: "retry_metrics \<Rightarrow> bool" where
  "metrics_balanced m \<longleftrightarrow>
     rm_total_attempts m = rm_successful_first_try m + rm_successful_after_retry m + rm_failed_after_retries m"

lemma metrics_loop_result: "fst (metrics_loop n ops i m) = fst (retry_async n ops i)"
  and metrics_loop_balance:
    "rm_total_attempts m = rm_successful_first_try m + rm_successful_after_retry m + rm_failed_after_retries m + 1 \<Longrightarrow>
     metrics_balanced (snd (metrics_loop n ops i m))"
proof (induction n ops i m rule: metrics_loop.induct)
  case (1 n ops i m)
  { case 1 show ?case
      unfolding metrics_loop.simps [of n ops i] retry_async.simps [of n ops i]
      using "1.IH"(1) by (cases "ops i") simp_all }
  { case 2 then show ?case
      unfolding metrics_loop.simps [of n ops i]
      using "1.IH"(2) by (cases "ops i") (simp_all add: metrics_balanced_def algebra_simps) }
qed

lemma retry_metrics_balanced:
  assumes "metrics_balanced m"
  shows "metrics_balanced (snd (retry_async_with_metrics n ops m)) \<and> fst (retry_async_with_metrics n ops m) = fst (retry_async n ops 0)"
  using assms unfolding retry_async_with_metrics_def metrics_loop_result
  by (intro conjI metrics_loop_balance refl) (simp add: metrics_balanced_def)

end
