(* ===== verification/SqlIdent.thy ===== *)
theory SqlIdent
  imports AsyncRetry
begin

text \<open>
  Model of \<^verbatim>\<open>arcxa-core/src/security/sql_validation.rs\<close>: the validation of identifiers, types and foreign key actions that
  are put into SQL statements. The matcher of regular expressions is a parameter; the hypothesis \<open>rx_lawful\<close> says which
  strings the two patterns of the source match. Strings are ASCII: the patterns match no other strings, and
  actions with other characters are not modelled.
\<close>

section \<open>Validation\<close>

datatype database_type = PostgreSQL | MySQL | DB2 | Snowflake | Oracle

datatype sql_error =
    EmptyName
  | TooLong string
  | InvalidName string
  | ReservedName string
  | TooManyParts string
  | Semicolon string
  | CommentSyntax string
  | InvalidType string
  | DangerousKeyword string string
  | InvalidAction string

definition identifier_pattern :: string where
  "identifier_pattern = ''^[a-zA-Z_][a-zA-Z0-9_]{0,127}$''"

definition type_pattern :: string where
  "type_pattern = ''^[A-Z][A-Z0-9 ]*('' @ [CHR 0x5C] @ ''([0-9]+(,[0-9]+)?'' @ [CHR 0x5C] @ '')'' @ '')?$''"

definition is_upper :: "char \<Rightarrow> bool" where
  "is_upper c \<longleftrightarrow> 65 \<le> (of_char c :: nat) \<and> (of_char c :: nat) \<le> 90"

definition is_lower :: "char \<Rightarrow> bool" where
  "is_lower c \<longleftrightarrow> 97 \<le> (of_char c :: nat) \<and> (of_char c :: nat) \<le> 122"

definition ascii_digit :: "char \<Rightarrow> bool" where
  "ascii_digit c \<longleftrightarrow> 48 \<le> (of_char c :: nat) \<and> (of_char c :: nat) \<le> 57"

definition upper_char :: "char \<Rightarrow> char" where
  "upper_char c = (if is_lower c then char_of ((of_char c :: nat) - 32) else c)"

definition to_uppercase :: "string \<Rightarrow> string" where
  "to_uppercase s = map upper_char s"

definition reserved_keywords :: "string list" where
  "reserved_keywords =
     [''SELECT'', ''INSERT'', ''UPDATE'', ''DELETE'', ''DROP'', ''CREATE'', ''ALTER'', ''TABLE'', ''DATABASE'', ''INDEX'', ''VIEW'',
      ''PROCEDURE'', ''FUNCTION'', ''TRIGGER'', ''FROM'', ''WHERE'', ''JOIN'', ''UNION'', ''AND'', ''OR'', ''NOT'', ''NULL'', ''TRUE'', ''FALSE'']"

definition is_reserved_keyword :: "string \<Rightarrow> bool" where
  "is_reserved_keyword w \<longleftrightarrow> w \<in> set reserved_keywords"

definition validate_identifier :: "(string \<Rightarrow> string \<Rightarrow> bool) \<Rightarrow> string \<Rightarrow> sql_error + string" where
  "validate_identifier rx s =
     (if s = [] then Inl EmptyName
      else if length s > 128 then Inl (TooLong s)
      else if \<not> rx identifier_pattern s then Inl (InvalidName s)
      else if is_reserved_keyword (to_uppercase s) then Inl (ReservedName s)
      else Inr s)"

fun split_at :: "char \<Rightarrow> string \<Rightarrow> string list" where
  "split_at x [] = [[]]"
| "split_at x (c # cs) = (if c = x then [] # split_at x cs else (c # hd (split_at x cs)) # tl (split_at x cs))"

fun validate_parts :: "(string \<Rightarrow> string \<Rightarrow> bool) \<Rightarrow> string list \<Rightarrow> sql_error + unit" where
  "validate_parts rx [] = Inr ()"
| "validate_parts rx (p # ps) = try_bind (validate_identifier rx p) (\<lambda>_. validate_parts rx ps)"

definition validate_qualified_identifier :: "(string \<Rightarrow> string \<Rightarrow> bool) \<Rightarrow> string \<Rightarrow> sql_error + string" where
  "validate_qualified_identifier rx s =
     (let parts = split_at (CHR ''.'') s in
      if parts = [] then Inl EmptyName
      else if length parts > 3 then Inl (TooManyParts s)
      else try_bind (validate_parts rx parts) (\<lambda>_. Inr s))"

definition quote_identifier :: "(string \<Rightarrow> string \<Rightarrow> bool) \<Rightarrow> string \<Rightarrow> database_type \<Rightarrow> sql_error + string" where
  "quote_identifier rx s db =
     try_bind (validate_identifier rx s) (\<lambda>validated.
       Inr (case db of
              PostgreSQL \<Rightarrow> [CHR 0x22] @ validated @ [CHR 0x22]
            | DB2 \<Rightarrow> [CHR 0x22] @ validated @ [CHR 0x22]
            | MySQL \<Rightarrow> [CHR 0x60] @ validated @ [CHR 0x60]
            | Snowflake \<Rightarrow> to_uppercase validated
            | Oracle \<Rightarrow> [CHR 0x22] @ validated @ [CHR 0x22]))"

definition dangerous_keywords :: "string list" where
  "dangerous_keywords =
     [''DROP'', ''DELETE'', ''INSERT'', ''UPDATE'', ''UNION'', ''SELECT'', ''FROM'', ''WHERE'', ''EXEC'', ''EXECUTE'', ''ALTER'']"

definition validate_sql_type :: "(string \<Rightarrow> string \<Rightarrow> bool) \<Rightarrow> string \<Rightarrow> sql_error + string" where
  "validate_sql_type rx s =
     (if s = [] then Inl EmptyName
      else if length s > 100 then Inl (TooLong s)
      else if CHR '';'' \<in> set s then Inl (Semicolon s)
      else if contains s ''--'' \<or> contains s ''/*'' \<or> contains s ''*/'' then Inl (CommentSyntax s)
      else if \<not> rx type_pattern s then Inl (InvalidType s)
      else (case List.find (contains (to_uppercase s)) dangerous_keywords of
              Some k \<Rightarrow> Inl (DangerousKeyword k s)
            | None \<Rightarrow> Inr s))"

function split_whitespace :: "string \<Rightarrow> string list" where
  "split_whitespace s =
     (case dropWhile is_space s of
        [] \<Rightarrow> []
      | c # cs \<Rightarrow> (c # takeWhile (\<lambda>x. \<not> is_space x) cs) # split_whitespace (dropWhile (\<lambda>x. \<not> is_space x) cs))"
  by pat_completeness auto
termination
proof (relation "measure length", goal_cases)
  case (2 s c cs)
  have "length (c # cs) \<le> length s"
    using length_dropWhile_le [of is_space s] 2 by simp
  thus ?case
    using length_dropWhile_le [of "\<lambda>x. \<not> is_space x" cs] by simp
qed simp

declare split_whitespace.simps [simp del]

fun join_space :: "string list \<Rightarrow> string" where
  "join_space [] = []"
| "join_space [w] = w"
| "join_space (w # ws) = w @ '' '' @ join_space ws"

definition valid_actions :: "string list" where
  "valid_actions = [''CASCADE'', ''SET NULL'', ''SET DEFAULT'', ''RESTRICT'', ''NO ACTION'']"

definition validate_fk_action :: "string \<Rightarrow> sql_error + string" where
  "validate_fk_action action =
     (let normalized = join_space (split_whitespace (to_uppercase (trim action))) in
      if normalized \<in> set valid_actions then Inr action else Inl (InvalidAction action))"

section \<open>The languages of the patterns\<close>

definition is_letter :: "char \<Rightarrow> bool" where
  "is_letter c \<longleftrightarrow> is_upper c \<or> is_lower c"

definition name_char :: "char \<Rightarrow> bool" where
  "name_char c \<longleftrightarrow> is_letter c \<or> ascii_digit c \<or> c = CHR ''_''"

definition ident_shape :: "string \<Rightarrow> bool" where
  "ident_shape s \<longleftrightarrow> s \<noteq> [] \<and> \<not> ascii_digit (hd s) \<and> list_all name_char s \<and> length s \<le> 128"

definition type_char :: "char \<Rightarrow> bool" where
  "type_char c \<longleftrightarrow> is_upper c \<or> ascii_digit c \<or> c = CHR '' ''"

definition number_shape :: "string \<Rightarrow> bool" where
  "number_shape s \<longleftrightarrow> s \<noteq> [] \<and> list_all ascii_digit s"

definition params_shape :: "string \<Rightarrow> bool" where
  "params_shape s \<longleftrightarrow>
     s = [] \<or>
     hd s = CHR ''('' \<and> length s > 1 \<and> last s = CHR '')'' \<and>
       (let ns = split_at (CHR '','') (butlast (tl s)) in length ns \<le> 2 \<and> list_all number_shape ns)"

definition type_shape :: "string \<Rightarrow> bool" where
  "type_shape s \<longleftrightarrow> s \<noteq> [] \<and> is_upper (hd s) \<and> params_shape (dropWhile type_char s)"

definition rx_lawful :: "(string \<Rightarrow> string \<Rightarrow> bool) \<Rightarrow> bool" where
  "rx_lawful rx \<longleftrightarrow> (\<forall>s. rx identifier_pattern s = ident_shape s) \<and> (\<forall>s. rx type_pattern s = type_shape s)"

lemmas char_defs = is_upper_def is_lower_def ascii_digit_def is_letter_def name_char_def type_char_def is_space_def

lemma upper_char_code: "(of_char (upper_char c) :: nat) = (if is_lower c then of_char c - 32 else of_char c)"
  by (auto simp: upper_char_def is_lower_def)

lemma char_code_eq: "c = d \<longleftrightarrow> (of_char c :: nat) = of_char d"
  by simp

lemma upper_char_props:
  "name_char (upper_char c) = name_char c" "is_space (upper_char c) = is_space c"
  "is_upper (upper_char c) \<longleftrightarrow> is_letter c" "upper_char c = CHR '' '' \<longleftrightarrow> c = CHR '' ''"
  unfolding char_defs char_code_eq upper_char_code by auto

lemma validate_identifier_ok:
  assumes "rx_lawful rx"
  shows "validate_identifier rx s = Inr s' \<longleftrightarrow> s' = s \<and> ident_shape s \<and> \<not> is_reserved_keyword (to_uppercase s)"
  using assms by (auto simp: validate_identifier_def rx_lawful_def ident_shape_def)

section \<open>What passes validation\<close>

lemma upper_name: "ident_shape s \<Longrightarrow> to_uppercase s \<noteq> [] \<and> list_all name_char (to_uppercase s) \<and> \<not> ascii_digit (hd (to_uppercase s))"
proof -
  assume "ident_shape s"
  moreover have "ascii_digit (upper_char c) = ascii_digit c" for c
    unfolding char_defs char_code_eq upper_char_code by auto
  ultimately show ?thesis
    by (auto simp: ident_shape_def to_uppercase_def list_all_iff upper_char_props hd_map)
qed

lemma quote_identifier_ok:
  assumes "rx_lawful rx"
  shows "is_ok (quote_identifier rx s db) \<longleftrightarrow> ident_shape s \<and> to_uppercase s \<notin> set reserved_keywords"
  using validate_identifier_ok [OF assms, of s]
  by (cases "validate_identifier rx s") (auto simp: quote_identifier_def is_reserved_keyword_def)

lemma quote_identifier_shape:
  assumes "rx_lawful rx" "quote_identifier rx s db = Inr q"
  shows "\<exists>mark body. q = mark @ body @ mark \<and> list_all name_char body \<and>
    (if db = Snowflake then mark = [] \<and> body = to_uppercase s
     else mark = [if db = MySQL then CHR 0x60 else CHR 0x22] \<and> body = s)"
proof -
  have shape: "ident_shape s" using quote_identifier_ok [OF assms(1), of s db] assms(2) by simp
  then have "list_all name_char s" by (simp add: ident_shape_def)
  moreover have "validate_identifier rx s = Inr s"
    using assms(2) validate_identifier_ok [OF assms(1), of s]
    by (cases "validate_identifier rx s") (auto simp: quote_identifier_def)
  ultimately show ?thesis
    using assms(2) upper_name [OF shape] by (cases db) (auto simp: quote_identifier_def)
qed

text \<open>Parts that are put into a statement without quotes.\<close>

definition inert_char :: "char \<Rightarrow> bool" where
  "inert_char c \<longleftrightarrow> name_char c \<or> is_space c \<or> c = CHR ''.'' \<or> c = CHR '','' \<or> c = CHR ''('' \<or> c = CHR '')''"

lemma space_white [simp]: "is_space (CHR '' '')"
  by (simp add: is_space_def)

lemma type_char_inert: "type_char c \<Longrightarrow> inert_char c"
  by (auto simp: inert_char_def type_char_def name_char_def is_letter_def)

lemma split_at_chars: "split_at x s \<noteq> [] \<and> set s \<subseteq> insert x (\<Union> (set ` set (split_at x s)))"
proof (induction s)
  case (Cons c cs)
  then obtain p ps where "split_at x cs = p # ps"
    by (cases "split_at x cs") auto
  thus ?case
    using Cons by auto
qed simp

lemma split_at_parts: "c \<in> set s \<Longrightarrow> c = x \<or> (\<exists>p \<in> set (split_at x s). c \<in> set p)"
  using split_at_chars [of x s] by blast

lemma validate_parts_ok:
  assumes "rx_lawful rx" "validate_parts rx ps = Inr u" "p \<in> set ps"
  shows "ident_shape p"
  using assms(2,3) validate_identifier_ok [OF assms(1)] by (induction ps) (auto simp: try_bind_Inr_conv)

lemma qualified_inert:
  assumes rx: "rx_lawful rx" and s: "validate_qualified_identifier rx s = Inr s'" and c: "c \<in> set s"
  shows "s' = s \<and> inert_char c"
proof -
  have parts: "validate_parts rx (split_at (CHR ''.'') s) = Inr ()" and "s' = s"
    using s by (auto simp: validate_qualified_identifier_def Let_def try_bind_Inr_conv split: if_splits)
  moreover have "name_char c" if "p \<in> set (split_at (CHR ''.'') s)" "c \<in> set p" for p
    using validate_parts_ok [OF rx parts that(1)] that(2) by (auto simp: ident_shape_def list_all_iff)
  ultimately show ?thesis
    using split_at_parts [OF c, of "CHR ''.''"] by (auto simp: inert_char_def)
qed

lemma params_inert:
  assumes "params_shape s" "c \<in> set s"
  shows "ascii_digit c \<or> c = CHR '','' \<or> c = CHR ''('' \<or> c = CHR '')''"
proof -
  obtain t where t: "s = CHR ''('' # t @ [CHR '')'']" "list_all number_shape (split_at (CHR '','') t)"
  proof -
    have s: "s \<noteq> []" "hd s = CHR ''(''" "length s > 1" "last s = CHR '')''" "list_all number_shape (split_at (CHR '','') (butlast (tl s)))"
      using assms by (auto simp: params_shape_def Let_def)
    hence "tl s \<noteq> []"
      by (cases s) auto
    hence "s = CHR ''('' # butlast (tl s) @ [CHR '')'']"
      using s append_butlast_last_id [of "tl s"] by (cases s) auto
    thus thesis
      using that s(5) by blast
  qed
  moreover have "ascii_digit c" if "p \<in> set (split_at (CHR '','') t)" "c \<in> set p" for p
    using that t(2) by (auto simp: list_all_iff number_shape_def)
  ultimately show ?thesis
    using assms(2) split_at_parts [of c t "CHR '',''"] by auto
qed

lemma type_inert:
  assumes "rx_lawful rx" "validate_sql_type rx s = Inr s'" "c \<in> set s"
  shows "s' = s \<and> inert_char c"
proof -
  have shape: "params_shape (dropWhile type_char s)" and "s' = s"
    using assms(1,2) by (auto simp: validate_sql_type_def rx_lawful_def type_shape_def split: if_splits option.splits)
  moreover have "c \<in> set (takeWhile type_char s) \<or> c \<in> set (dropWhile type_char s)"
    using assms(3) by (metis Un_iff set_append takeWhile_dropWhile_id)
  hence "type_char c \<or> c \<in> set (dropWhile type_char s)"
    by (auto dest: set_takeWhileD)
  moreover have "inert_char c" if "type_char c"
    using that type_char_inert by blast
  moreover have "inert_char c" if "ascii_digit c"
    using that by (simp add: inert_char_def name_char_def)
  ultimately show ?thesis
    using params_inert [OF shape, of c] by (auto simp: inert_char_def)
qed

lemma words_nonwhite: "c \<in> set s \<Longrightarrow> \<not> is_space c \<Longrightarrow> \<exists>w \<in> set (split_whitespace s). c \<in> set w"
proof (induction s rule: split_whitespace.induct)
  case (1 s)
  have c: "c \<in> set (dropWhile is_space s)"
    using "1.prems" by (metis Un_iff set_append set_takeWhileD takeWhile_dropWhile_id)
  then obtain x xs where d: "dropWhile is_space s = x # xs"
    by (cases "dropWhile is_space s") auto
  have eq: "split_whitespace s = (x # takeWhile (\<lambda>y. \<not> is_space y) xs) # split_whitespace (dropWhile (\<lambda>y. \<not> is_space y) xs)"
    by (subst split_whitespace.simps) (simp add: d)
  have "c = x \<or> c \<in> set (takeWhile (\<lambda>y. \<not> is_space y) xs) \<or> c \<in> set (dropWhile (\<lambda>y. \<not> is_space y) xs)"
    using c d by (metis Un_iff set_ConsD set_append takeWhile_dropWhile_id)
  thus ?case
    using "1.IH" [OF d _ "1.prems"(2)] unfolding eq by auto
qed

lemma join_space_chars: "w \<in> set ws \<Longrightarrow> set w \<subseteq> set (join_space ws)"
  by (induction ws rule: join_space.induct) auto

lemma trim_nonwhite: "c \<in> set s \<Longrightarrow> \<not> is_space c \<Longrightarrow> c \<in> set (trim s)"
proof -
  have drop: "c \<in> set (dropWhile is_space xs)" if "c \<in> set xs" "\<not> is_space c" for xs
    using that by (metis Un_iff set_append set_takeWhileD takeWhile_dropWhile_id)
  assume "c \<in> set s" "\<not> is_space c"
  thus ?thesis
    using drop [of "rev (dropWhile is_space s)"] drop [of s] by (simp add: trim_def)
qed

lemma action_inert:
  assumes a: "validate_fk_action s = Inr s'" and c: "c \<in> set s"
  shows "s' = s \<and> inert_char c"
proof -
  let ?n = "join_space (split_whitespace (to_uppercase (trim s)))"
  have n: "?n \<in> set valid_actions" and "s' = s"
    using a by (auto simp: validate_fk_action_def Let_def split: if_splits)
  have upper: "is_upper d \<or> d = CHR '' ''" if "d \<in> set ?n" for d
    using n that unfolding valid_actions_def by (auto simp: char_defs)
  have "inert_char c"
  proof (cases "is_space c")
    case False
    hence "upper_char c \<in> set (to_uppercase (trim s))"
      using trim_nonwhite [OF c] by (simp add: to_uppercase_def)
    hence "upper_char c \<in> set ?n"
      using words_nonwhite [of "upper_char c"] join_space_chars False by (fastforce simp: upper_char_props)
    hence "is_letter c \<or> c = CHR '' ''"
      using upper [of "upper_char c"] by (simp add: upper_char_props)
    thus ?thesis
      by (auto simp: inert_char_def name_char_def)
  qed (simp add: inert_char_def)
  thus ?thesis
    using \<open>s' = s\<close> by simp
qed

lemma validate_parts_iff:
  assumes "rx_lawful rx"
  shows "is_ok (validate_parts rx ps) \<longleftrightarrow> (\<forall>p \<in> set ps. ident_shape p \<and> to_uppercase p \<notin> set reserved_keywords)"
proof (induction ps)
  case (Cons p ps)
  then show ?case
    using validate_identifier_ok [OF assms, of p] by (cases "validate_identifier rx p") (auto simp: is_reserved_keyword_def)
qed simp

lemma qualified_iff:
  assumes "rx_lawful rx"
  shows "is_ok (validate_qualified_identifier rx s) \<longleftrightarrow>
    length (split_at (CHR ''.'') s) \<le> 3 \<and>
    (\<forall>p \<in> set (split_at (CHR ''.'') s). ident_shape p \<and> to_uppercase p \<notin> set reserved_keywords)"
  using validate_parts_iff [OF assms, of "split_at (CHR ''.'') s"] split_at_chars [of "CHR ''.''" s]
  by (cases "validate_parts rx (split_at (CHR ''.'') s)") (auto simp: validate_qualified_identifier_def Let_def)

text \<open>
  C28. What the validation lets into a statement. Let the matcher implement the two patterns. The strings that can be quoted are
  exactly those of 1 to 128 letters, digits and underscores that do not start with a digit and are not one of the listed
  keywords; the quoted text is this string between the quote marks of the dialect, with no quote mark in it, and for
  Snowflake the string in upper case without marks. A qualified identifier is accepted exactly when it has at most three
  parts between dots, all of them such strings. A qualified identifier, a type or a foreign key action that is accepted is
  passed on unchanged, and each of its characters is a letter, a digit, an underscore, white space, a dot, a comma or a
  parenthesis: there is no quote mark, no semicolon and no character of a comment sign.
\<close>

theorem accepted_fragments_inert:
  assumes rx: "rx_lawful rx"
  shows "(is_ok (quote_identifier rx s db) \<longleftrightarrow>
       s \<noteq> [] \<and> length s \<le> 128 \<and> (\<forall>c \<in> set s. is_letter c \<or> ascii_digit c \<or> c = CHR ''_'') \<and> \<not> ascii_digit (hd s) \<and>
       to_uppercase s \<notin> set reserved_keywords) \<and>
     (\<forall>q. quote_identifier rx s db = Inr q \<longrightarrow>
       (\<exists>mark body. q = mark @ body @ mark \<and> set mark \<inter> set body = {} \<and>
          (if db = Snowflake then mark = [] \<and> body = to_uppercase s
           else mark = [if db = MySQL then CHR 0x60 else CHR 0x22] \<and> body = s))) \<and>
     (is_ok (validate_qualified_identifier rx s) \<longleftrightarrow>
       length (split_at (CHR ''.'') s) \<le> 3 \<and> (\<forall>p \<in> set (split_at (CHR ''.'') s). is_ok (quote_identifier rx p db))) \<and>
     (\<forall>s'. validate_qualified_identifier rx s = Inr s' \<or> validate_sql_type rx s = Inr s' \<or> validate_fk_action s = Inr s' \<longrightarrow>
       s' = s \<and> (\<forall>c \<in> set s. is_letter c \<or> ascii_digit c \<or> is_space c \<or> c \<in> set ''_.,()''))"
proof -
  have "is_ok (quote_identifier rx s db) \<longleftrightarrow>
       s \<noteq> [] \<and> length s \<le> 128 \<and> (\<forall>c \<in> set s. is_letter c \<or> ascii_digit c \<or> c = CHR ''_'') \<and> \<not> ascii_digit (hd s) \<and>
       to_uppercase s \<notin> set reserved_keywords"
    unfolding quote_identifier_ok [OF rx] by (auto simp: ident_shape_def list_all_iff name_char_def)
  moreover have "\<exists>mark body. q = mark @ body @ mark \<and> set mark \<inter> set body = {} \<and>
          (if db = Snowflake then mark = [] \<and> body = to_uppercase s
           else mark = [if db = MySQL then CHR 0x60 else CHR 0x22] \<and> body = s)"
    if "quote_identifier rx s db = Inr q" for q
  proof -
    have "\<not> name_char (CHR 0x22)" "\<not> name_char (CHR 0x60)" by (simp_all add: char_defs)
    then show ?thesis
      using quote_identifier_shape [OF rx that] unfolding list_all_iff by (fastforce split: if_splits)
  qed
  moreover have "is_ok (validate_qualified_identifier rx s) \<longleftrightarrow>
       length (split_at (CHR ''.'') s) \<le> 3 \<and> (\<forall>p \<in> set (split_at (CHR ''.'') s). is_ok (quote_identifier rx p db))"
    unfolding qualified_iff [OF rx] quote_identifier_ok [OF rx] by blast
  moreover have "s' = s \<and> (\<forall>c \<in> set s. is_letter c \<or> ascii_digit c \<or> is_space c \<or> c \<in> set ''_.,()'')"
    if ok: "validate_qualified_identifier rx s = Inr s' \<or> validate_sql_type rx s = Inr s' \<or> validate_fk_action s = Inr s'" for s'
  proof -
    have "inert_char c" if "c \<in> set s" for c
      using ok qualified_inert [OF rx _ that] type_inert [OF rx _ that] action_inert [OF _ that] by blast
    moreover have "s' = s"
      using ok by (auto simp: validate_qualified_identifier_def validate_sql_type_def validate_fk_action_def Let_def try_bind_Inr_conv
          split: if_splits option.splits)
    ultimately show ?thesis by (auto simp: inert_char_def name_char_def)
  qed
  ultimately show ?thesis by blast
qed

definition demo_rx :: "string \<Rightarrow> string \<Rightarrow> bool" where
  "demo_rx p s = (if p = identifier_pattern then ident_shape s else p = type_pattern \<and> type_shape s)"

lemma demo_rx_lawful: "rx_lawful demo_rx"
  by (simp add: rx_lawful_def demo_rx_def identifier_pattern_def type_pattern_def)

theorem accepted_fragments_inert_witness:
  "is_ok (quote_identifier demo_rx ''orders'' MySQL) \<and> \<not> is_ok (quote_identifier demo_rx ''select'' MySQL) \<and>
   is_ok (validate_qualified_identifier demo_rx ''shop.orders'')"
proof -
  have "to_uppercase ''orders'' \<notin> set reserved_keywords" "to_uppercase ''shop'' \<notin> set reserved_keywords"
    "to_uppercase ''select'' \<in> set reserved_keywords"
    by code_simp+
  moreover have "\<forall>c \<in> set ''orders''. is_letter c" "\<forall>c \<in> set ''shop''. is_letter c" "\<not> ascii_digit (hd ''orders'')" "\<not> ascii_digit (hd ''shop'')"
    by code_simp+
  moreover have "split_at (CHR ''.'') ''shop.orders'' = [''shop'', ''orders'']" by code_simp
  ultimately show ?thesis
    unfolding accepted_fragments_inert [OF demo_rx_lawful, where db = MySQL and s = "''shop.orders''", THEN conjunct2, THEN conjunct2, THEN conjunct1]
      conjunct1 [OF accepted_fragments_inert [OF demo_rx_lawful, where db = MySQL]]
    by simp
qed

text \<open>The search for keywords in types looks for substrings: an innocent type name that contains one is rejected.\<close>

lemma substring_keywords_reject_types: "validate_sql_type demo_rx ''DROPDOWN'' = Inl (DangerousKeyword ''DROP'' ''DROPDOWN'')"
  by code_simp

end
