(* ===== verification/Erasure.thy ===== *)
theory Erasure
  imports SqlIdent
begin

text \<open>
  Model of \<^verbatim>\<open>arcxa-core/src/gdpr\<close>: data subjects (\<^verbatim>\<open>types.rs\<close>), requests for erasure and their reports (\<^verbatim>\<open>data_erasure.rs\<close>), and the
  retention policies and legal holds (\<^verbatim>\<open>retention.rs\<close>). Times are in milliseconds; \<open>now\<close> is the time of a call and \<open>fresh\<close> an identifier
  that is made for it. Refusals are values in place of texts.
\<close>

section \<open>Data subjects and requests\<close>

record data_subject_id =
  ds_id :: string
  ds_id_type :: string

definition ds_user :: "string \<Rightarrow> data_subject_id" where
  "ds_user i = \<lparr>ds_id = i, ds_id_type = ''user_id''\<rparr>"

definition ds_email :: "string \<Rightarrow> data_subject_id" where
  "ds_email i = \<lparr>ds_id = i, ds_id_type = ''email''\<rparr>"

definition ds_tenant :: "string \<Rightarrow> data_subject_id" where
  "ds_tenant i = \<lparr>ds_id = i, ds_id_type = ''tenant_id''\<rparr>"

datatype erasure_strategy = HardDelete | Tombstone | Anonymize | ArchiveThenDelete

record erasure_request =
  er_request_id :: string
  er_data_subject :: data_subject_id
  er_requested_at :: int
  er_requested_by :: string
  er_reason :: "string option"
  er_dry_run :: bool
  er_target_backends :: "string list option"
  er_strategy :: "erasure_strategy option"

definition erasure_request_new :: "string \<Rightarrow> int \<Rightarrow> data_subject_id \<Rightarrow> string \<Rightarrow> erasure_request" where
  "erasure_request_new fresh now subject requested_by =
     \<lparr>er_request_id = fresh, er_data_subject = subject, er_requested_at = now, er_requested_by = requested_by, er_reason = None,
      er_dry_run = False, er_target_backends = None, er_strategy = None\<rparr>"

definition as_dry_run :: "erasure_request \<Rightarrow> erasure_request" where
  "as_dry_run r = r\<lparr>er_dry_run := True\<rparr>"

definition with_strategy :: "erasure_strategy \<Rightarrow> erasure_request \<Rightarrow> erasure_request" where
  "with_strategy s r = r\<lparr>er_strategy := Some s\<rparr>"

definition with_reason :: "string \<Rightarrow> erasure_request \<Rightarrow> erasure_request" where
  "with_reason x r = r\<lparr>er_reason := Some x\<rparr>"

definition targeting_backends :: "string list \<Rightarrow> erasure_request \<Rightarrow> erasure_request" where
  "targeting_backends bs r = r\<lparr>er_target_backends := Some bs\<rparr>"

section \<open>Reports\<close>

record backend_result =
  br_backend_name :: string
  br_success :: bool
  br_records_erased :: u64
  br_strategy_used :: erasure_strategy
  br_details :: "(string, u64) hmap"
  br_error_message :: "string option"
  br_warnings :: "string list"

definition backend_success :: "string \<Rightarrow> u64 \<Rightarrow> erasure_strategy \<Rightarrow> backend_result" where
  "backend_success name n s = \<lparr>br_backend_name = name, br_success = True, br_records_erased = n, br_strategy_used = s, br_details = [],
     br_error_message = None, br_warnings = []\<rparr>"

definition backend_failure :: "string \<Rightarrow> string \<Rightarrow> erasure_strategy \<Rightarrow> backend_result" where
  "backend_failure name e s = \<lparr>br_backend_name = name, br_success = False, br_records_erased = 0, br_strategy_used = s, br_details = [],
     br_error_message = Some e, br_warnings = []\<rparr>"

definition with_detail :: "string \<Rightarrow> u64 \<Rightarrow> backend_result \<Rightarrow> backend_result" where
  "with_detail category n b = b\<lparr>br_details := AList.update category n (br_details b)\<rparr>"

definition with_warning :: "string \<Rightarrow> backend_result \<Rightarrow> backend_result" where
  "with_warning x b = b\<lparr>br_warnings := br_warnings b @ [x]\<rparr>"

record erasure_result =
  el_request :: erasure_request
  el_started_at :: int
  el_completed_at :: int
  el_success :: bool
  el_backend_results :: "(string, backend_result) hmap"
  el_total_records_erased :: u64
  el_total_backends_processed :: nat
  el_backends_succeeded :: nat
  el_backends_failed :: nat
  el_audit_event_id :: string

definition erasure_result_new :: "erasure_request \<Rightarrow> string \<Rightarrow> int \<Rightarrow> erasure_result" where
  "erasure_result_new request audit_event_id now =
     \<lparr>el_request = request, el_started_at = now, el_completed_at = now, el_success = True, el_backend_results = [], el_total_records_erased = 0,
      el_total_backends_processed = 0, el_backends_succeeded = 0, el_backends_failed = 0, el_audit_event_id = audit_event_id\<rparr>"

definition add_backend_result :: "string \<Rightarrow> backend_result \<Rightarrow> erasure_result \<Rightarrow> erasure_result" where
  "add_backend_result name b r =
     (let r1 = r\<lparr>el_total_backends_processed := el_total_backends_processed r + 1,
                 el_total_records_erased := el_total_records_erased r + br_records_erased b\<rparr>;
          r2 = (if br_success b then r1\<lparr>el_backends_succeeded := el_backends_succeeded r1 + 1\<rparr>
                else r1\<lparr>el_backends_failed := el_backends_failed r1 + 1, el_success := False\<rparr>)
      in r2\<lparr>el_backend_results := AList.update name b (el_backend_results r2)\<rparr>)"

definition finalize_result :: "int \<Rightarrow> erasure_result \<Rightarrow> erasure_result" where
  "finalize_result now r = r\<lparr>el_completed_at := now\<rparr>"

definition result_summary :: "erasure_result \<Rightarrow> string" where
  "result_summary r =
     (if el_success r then
        ''Successfully erased '' @ show_nat (unat (el_total_records_erased r)) @ '' records from '' @ show_nat (el_backends_succeeded r) @ '' backends''
      else
        ''Partial erasure: '' @ show_nat (unat (el_total_records_erased r)) @ '' records from '' @ show_nat (el_backends_succeeded r) @ ''/'' @
        show_nat (el_total_backends_processed r) @ '' backends ('' @ show_nat (el_backends_failed r) @ '' failed)'')"

definition add_all :: "(string \<times> backend_result) list \<Rightarrow> erasure_result \<Rightarrow> erasure_result" where
  "add_all bs r = fold (\<lambda>(n, b). add_backend_result n b) bs r"

text \<open>What a report tells about the results that were added to it.\<close>

definition accounts :: "backend_result list \<Rightarrow> erasure_result \<Rightarrow> bool" where
  "accounts bs r \<longleftrightarrow> el_total_backends_processed r = length bs \<and> el_backends_succeeded r = length (filter br_success bs) \<and>
     el_backends_failed r = length (filter (\<lambda>b. \<not> br_success b) bs) \<and> (el_success r \<longleftrightarrow> list_all br_success bs) \<and>
     el_total_records_erased r = sum_list (map br_records_erased bs)"

lemma accounts_new: "accounts [] (erasure_result_new request audit now)"
  by (simp add: accounts_def erasure_result_new_def)

lemma accounts_add: "accounts bs r \<Longrightarrow> accounts (bs @ [b]) (add_backend_result n b r)"
  by (simp add: accounts_def add_backend_result_def Let_def)

lemma accounts_add_all: "accounts bs r \<Longrightarrow> accounts (bs @ map snd cs) (add_all cs r)"
proof (induction cs arbitrary: bs r)
  case (Cons c cs)
  from Cons.IH [OF accounts_add [OF Cons.prems, of "snd c" "fst c"]] show ?case by (simp add: add_all_def split_beta)
qed (simp add: add_all_def)

lemma accounts_finalize: "accounts bs (finalize_result now r) \<longleftrightarrow> accounts bs r"
  by (simp add: accounts_def finalize_result_def)

lemma add_request [simp]: "el_request (add_backend_result n b r) = el_request r" "el_request (finalize_result now r) = el_request r"
  by (simp_all add: add_backend_result_def finalize_result_def Let_def)

lemma add_all_request [simp]: "el_request (add_all cs r) = el_request r"
  by (induction cs arbitrary: r) (simp_all add: add_all_def split_beta)

text \<open>
  Results are kept by the name of the backend, and a second one of the same name replaces the first, which is still counted.
\<close>

lemma same_name_replaced:
  "el_backend_results (add_backend_result n b (add_backend_result n a r)) = el_backend_results (add_backend_result n b r)"
  "el_total_backends_processed (add_backend_result n b (add_backend_result n a r)) = el_total_backends_processed r + 2"
proof -
  have "AList.update n b (AList.update n a m) = AList.update n b m" for m :: "(string, backend_result) hmap" by (induction m) auto
  then show "el_backend_results (add_backend_result n b (add_backend_result n a r)) = el_backend_results (add_backend_result n b r)"
    by (simp add: add_backend_result_def Let_def)
qed (simp add: add_backend_result_def Let_def)

section \<open>Retention\<close>

datatype data_category =
    PersonalIdentifiers | Financial | AuditLogs | UserContent | SystemLogs | MarketingData | AnalyticsData | BackupData
  | CustomCategory string

record retention_policy =
  rp_id :: string
  rp_name :: string
  rp_data_category :: data_category
  rp_min_retention_days :: "int option"
  rp_max_retention_days :: "int option"
  rp_legal_basis :: string
  rp_jurisdiction :: "string option"
  rp_allow_override :: bool
  rp_metadata :: "(string, string) hmap"

definition retention_policy_new :: "string \<Rightarrow> string \<Rightarrow> data_category \<Rightarrow> int option \<Rightarrow> int option \<Rightarrow> retention_policy" where
  "retention_policy_new fresh name category min_days max_days =
     \<lparr>rp_id = fresh, rp_name = name, rp_data_category = category, rp_min_retention_days = min_days, rp_max_retention_days = max_days,
      rp_legal_basis = '''', rp_jurisdiction = None, rp_allow_override = False, rp_metadata = []\<rparr>"

definition day_ms :: int where
  "day_ms = 24 * 60 * 60 * 1000"

text \<open>\<^verbatim>\<open>num_days\<close> truncates towards zero.\<close>

definition num_days :: "int \<Rightarrow> int" where
  "num_days t = sgn t * (\<bar>t\<bar> div day_ms)"

datatype refusal = SubjectHeld string | CategoryHeld data_category nat | TooYoung int int

definition policy_can_delete :: "int \<Rightarrow> retention_policy \<Rightarrow> int \<Rightarrow> refusal + bool" where
  "policy_can_delete now p created_at =
     (let age = num_days (now - created_at);
          expired = (case rp_max_retention_days p of Some max_days \<Rightarrow> if age > max_days then Inr True else Inr True | None \<Rightarrow> Inr True)
      in case rp_min_retention_days p of
           Some min_days \<Rightarrow> if age < min_days then Inl (TooYoung min_days age) else expired
         | None \<Rightarrow> expired)"

definition expiry_date :: "retention_policy \<Rightarrow> int \<Rightarrow> int option" where
  "expiry_date p created_at = map_option (\<lambda>days. created_at + days * day_ms) (rp_max_retention_days p)"

record legal_hold =
  lh_id :: string
  lh_name :: string
  lh_placed_at :: int
  lh_placed_by :: string
  lh_reason :: string
  lh_data_subjects :: "string list"
  lh_data_categories :: "data_category list"
  lh_expires_at :: "int option"
  lh_active :: bool
  lh_metadata :: "(string, string) hmap"

definition legal_hold_new :: "string \<Rightarrow> int \<Rightarrow> string \<Rightarrow> string \<Rightarrow> string \<Rightarrow> legal_hold" where
  "legal_hold_new fresh now name placed_by reason =
     \<lparr>lh_id = fresh, lh_name = name, lh_placed_at = now, lh_placed_by = placed_by, lh_reason = reason, lh_data_subjects = [],
      lh_data_categories = [], lh_expires_at = None, lh_active = True, lh_metadata = []\<rparr>"

definition add_data_subject :: "string \<Rightarrow> legal_hold \<Rightarrow> legal_hold" where
  "add_data_subject s h = h\<lparr>lh_data_subjects := lh_data_subjects h @ [s]\<rparr>"

definition add_data_category :: "data_category \<Rightarrow> legal_hold \<Rightarrow> legal_hold" where
  "add_data_category c h = h\<lparr>lh_data_categories := lh_data_categories h @ [c]\<rparr>"

definition with_expiry :: "int \<Rightarrow> legal_hold \<Rightarrow> legal_hold" where
  "with_expiry t h = h\<lparr>lh_expires_at := Some t\<rparr>"

definition hold_is_active :: "int \<Rightarrow> legal_hold \<Rightarrow> bool" where
  "hold_is_active now h \<longleftrightarrow> lh_active h \<and> (case lh_expires_at h of Some expiry \<Rightarrow> now < expiry | None \<Rightarrow> True)"

definition covers_subject :: "int \<Rightarrow> string \<Rightarrow> legal_hold \<Rightarrow> bool" where
  "covers_subject now s h \<longleftrightarrow> hold_is_active now h \<and> s \<in> set (lh_data_subjects h)"

definition covers_category :: "int \<Rightarrow> data_category \<Rightarrow> legal_hold \<Rightarrow> bool" where
  "covers_category now c h \<longleftrightarrow> hold_is_active now h \<and> c \<in> set (lh_data_categories h)"

definition release_hold :: "legal_hold \<Rightarrow> legal_hold" where
  "release_hold h = h\<lparr>lh_active := False\<rparr>"

record retention_manager =
  rm_policies :: "(data_category, retention_policy) hmap"
  rm_legal_holds :: "(string, legal_hold) hmap"

definition retention_manager_new :: retention_manager where
  "retention_manager_new = \<lparr>rm_policies = [], rm_legal_holds = []\<rparr>"

definition add_policy :: "retention_policy \<Rightarrow> retention_manager \<Rightarrow> retention_manager" where
  "add_policy p m = m\<lparr>rm_policies := AList.update (rp_data_category p) p (rm_policies m)\<rparr>"

definition get_policy :: "data_category \<Rightarrow> retention_manager \<Rightarrow> retention_policy option" where
  "get_policy c m = map_of (rm_policies m) c"

definition add_legal_hold :: "legal_hold \<Rightarrow> retention_manager \<Rightarrow> retention_manager" where
  "add_legal_hold h m = m\<lparr>rm_legal_holds := AList.update (lh_id h) h (rm_legal_holds m)\<rparr>"

definition remove_legal_hold :: "string \<Rightarrow> retention_manager \<Rightarrow> retention_manager" where
  "remove_legal_hold i m = m\<lparr>rm_legal_holds := AList.delete i (rm_legal_holds m)\<rparr>"

definition holds_of :: "retention_manager \<Rightarrow> legal_hold list" where
  "holds_of m = map snd (rm_legal_holds m)"

definition get_active_holds_for_subject :: "int \<Rightarrow> string \<Rightarrow> retention_manager \<Rightarrow> legal_hold list" where
  "get_active_holds_for_subject now s m = filter (covers_subject now s) (holds_of m)"

definition is_subject_under_hold :: "int \<Rightarrow> string \<Rightarrow> retention_manager \<Rightarrow> bool" where
  "is_subject_under_hold now s m \<longleftrightarrow> list_ex (covers_subject now s) (holds_of m)"

definition manager_can_delete :: "int \<Rightarrow> data_category \<Rightarrow> string \<Rightarrow> int \<Rightarrow> retention_manager \<Rightarrow> refusal + bool" where
  "manager_can_delete now c s created_at m =
     (if is_subject_under_hold now s m then Inl (SubjectHeld s)
      else
        let category_holds = filter (covers_category now c) (holds_of m)
        in if category_holds \<noteq> [] then Inl (CategoryHeld c (length category_holds))
           else case get_policy c m of Some p \<Rightarrow> policy_can_delete now p created_at | None \<Rightarrow> Inr True)"

definition default_policy :: "string \<Rightarrow> string \<Rightarrow> data_category \<Rightarrow> int option \<Rightarrow> int option \<Rightarrow> string \<Rightarrow> string option \<Rightarrow> bool \<Rightarrow> retention_policy" where
  "default_policy fresh name c min_days max_days basis juris over =
     \<lparr>rp_id = fresh, rp_name = name, rp_data_category = c, rp_min_retention_days = min_days, rp_max_retention_days = max_days,
      rp_legal_basis = basis, rp_jurisdiction = juris, rp_allow_override = over, rp_metadata = []\<rparr>"

definition retention_manager_default :: "string \<Rightarrow> string \<Rightarrow> string \<Rightarrow> retention_manager" where
  "retention_manager_default i j k =
     add_policy (default_policy k ''Personal Data Retention'' PersonalIdentifiers None (Some 1095) ''GDPR Article 5(1)(e) - Storage Limitation'' (Some ''EU'') True)
       (add_policy (default_policy j ''Audit Log Retention'' AuditLogs (Some 2555) None ''Regulatory compliance'' None False)
         (add_policy (default_policy i ''Financial Records Retention'' Financial (Some 2555) (Some 3650) ''Tax law compliance'' None False)
           retention_manager_new))"

text \<open>
  Data can be deleted exactly when no active hold covers the subject or the category and the data is as old as the policy of the
  category demands. The maximal retention plays no role.
\<close>

lemma manager_can_delete_iff:
  "manager_can_delete now c s created_at m = Inr b \<longleftrightarrow> b \<and>
     (\<forall>h \<in> set (holds_of m). \<not> covers_subject now s h \<and> \<not> covers_category now c h) \<and>
     (\<forall>p min_days. get_policy c m = Some p \<longrightarrow> rp_min_retention_days p = Some min_days \<longrightarrow> min_days \<le> num_days (now - created_at))"
  by (auto simp: manager_can_delete_def is_subject_under_hold_def list_ex_iff filter_empty_conv Let_def policy_can_delete_def
      split: option.splits if_splits)

text \<open>A hold that is added covers its subjects until it expires or is removed.\<close>

lemma hold_protects:
  assumes "hm_wf (rm_legal_holds m)" "covers_subject now s h"
  shows "is_subject_under_hold now s (add_legal_hold h m)" "lh_id h \<noteq> i \<Longrightarrow> is_subject_under_hold now s (remove_legal_hold i (add_legal_hold h m))"
proof -
  have wf: "hm_wf (rm_legal_holds (add_legal_hold h m))" "map_of (rm_legal_holds (add_legal_hold h m)) (lh_id h) = Some h"
    using assms(1) by (simp_all add: add_legal_hold_def hm_get_update hm_wf_def distinct_update)
  then show "is_subject_under_hold now s (add_legal_hold h m)"
    using assms(2) map_of_SomeD [OF wf(2)] unfolding is_subject_under_hold_def holds_of_def list_ex_iff by force
  assume "lh_id h \<noteq> i"
  then have "map_of (rm_legal_holds (remove_legal_hold i (add_legal_hold h m))) (lh_id h) = Some h"
    using wf(2) by (simp add: remove_legal_hold_def hm_get_delete)
  then show "is_subject_under_hold now s (remove_legal_hold i (add_legal_hold h m))"
    using assms(2) map_of_SomeD unfolding is_subject_under_hold_def holds_of_def list_ex_iff by force
qed

end
