(* ===== verification/RowKeys.thy ===== *)
theory RowKeys
  imports Erasure "HOL-Library.Char_ord" "HOL-Library.List_Lexorder"
begin

text \<open>
  Model of the row identifiers of \<^verbatim>\<open>arcxa-core/src/core/lineage/row_level.rs\<close>, with their printing as keys and the parser of
  keys. A \<^verbatim>\<open>BTreeMap\<close> is the list of its entries in the order of the keys. The texts of errors are left out.
\<close>

section \<open>Identifiers\<close>

datatype row_database_type = Postgres | DB2 | Oracle | SAPHANA | MySQL | Snowflake | Databricks

datatype source_type = SrcCsv | SrcDatabase row_database_type | SrcKafka | SrcS3

datatype row_position =
    RowNumber u64
  | PrimaryKey "(string, string) btree"
  | KafkaOffset "32 word" "64 word"
  | ParquetIndex u64

record row_id =
  ri_source_type :: source_type
  ri_source_id :: string
  ri_position :: row_position

definition row_csv :: "string \<Rightarrow> u64 \<Rightarrow> row_id" where
  "row_csv file_path row_number = \<lparr>ri_source_type = SrcCsv, ri_source_id = file_path, ri_position = RowNumber row_number\<rparr>"

definition row_database :: "row_database_type \<Rightarrow> string \<Rightarrow> (string, string) btree \<Rightarrow> row_id" where
  "row_database db_type table primary_keys =
     \<lparr>ri_source_type = SrcDatabase db_type, ri_source_id = table, ri_position = PrimaryKey primary_keys\<rparr>"

definition row_kafka :: "string \<Rightarrow> 32 word \<Rightarrow> 64 word \<Rightarrow> row_id" where
  "row_kafka topic part off = \<lparr>ri_source_type = SrcKafka, ri_source_id = topic, ri_position = KafkaOffset part off\<rparr>"

definition row_s3 :: "string \<Rightarrow> string \<Rightarrow> u64 \<Rightarrow> row_id" where
  "row_s3 bucket key index = \<lparr>ri_source_type = SrcS3, ri_source_id = bucket @ ''/'' @ key, ri_position = ParquetIndex index\<rparr>"

section \<open>Printing\<close>

fun show_database :: "row_database_type \<Rightarrow> string" where
  "show_database Postgres = ''postgres''"
| "show_database DB2 = ''db2''"
| "show_database Oracle = ''oracle''"
| "show_database SAPHANA = ''saphana''"
| "show_database MySQL = ''mysql''"
| "show_database Snowflake = ''snowflake''"
| "show_database Databricks = ''databricks''"

fun show_source :: "source_type \<Rightarrow> string" where
  "show_source SrcCsv = ''csv''"
| "show_source (SrcDatabase db) = show_database db"
| "show_source SrcKafka = ''kafka''"
| "show_source SrcS3 = ''s3''"

definition show_pair :: "string \<times> string \<Rightarrow> string" where
  "show_pair kv = fst kv @ ''='' @ snd kv"

fun show_position :: "row_position \<Rightarrow> string" where
  "show_position (RowNumber n) = show_nat (unat n)"
| "show_position (PrimaryKey keys) = join '','' (map show_pair keys)"
| "show_position (KafkaOffset part off) = ''p'' @ show_int (sint part) @ '':o'' @ show_int (sint off)"
| "show_position (ParquetIndex idx) = ''r'' @ show_nat (unat idx)"

definition to_key :: "row_id \<Rightarrow> string" where
  "to_key r = show_source (ri_source_type r) @ '':'' @ ri_source_id r @ '':'' @ show_position (ri_position r)"

section \<open>Parsing\<close>

text \<open>\<^verbatim>\<open>str::split_once\<close>, and a split at the last occurrence as the code makes it with \<^verbatim>\<open>rfind\<close>.\<close>

definition split_once :: "char \<Rightarrow> string \<Rightarrow> (string \<times> string) option" where
  "split_once c s = (if c \<in> set s then Some (takeWhile (\<lambda>x. x \<noteq> c) s, tl (dropWhile (\<lambda>x. x \<noteq> c) s)) else None)"

definition split_last :: "char \<Rightarrow> string \<Rightarrow> (string \<times> string) option" where
  "split_last c s = map_option (\<lambda>(b, a). (rev a, rev b)) (split_once c (rev s))"

definition trim_start_matches :: "char \<Rightarrow> string \<Rightarrow> string" where
  "trim_start_matches c s = dropWhile (\<lambda>x. x = c) s"

text \<open>Parsing of numbers fails when the value does not fit; a minus sign is refused by the unsigned types.\<close>

definition parse_row_u64 :: "string \<Rightarrow> u64 option" where
  "parse_row_u64 s =
     (if s \<noteq> [] \<and> hd s = CHR ''-'' then None
      else case parse_int s of Some n \<Rightarrow> if n < 2 ^ 64 then Some (of_int n) else None | None \<Rightarrow> None)"

definition parse_partition :: "string \<Rightarrow> 32 word option" where
  "parse_partition s = (case parse_int s of Some n \<Rightarrow> if - (2 ^ 31) \<le> n \<and> n < 2 ^ 31 then Some (of_int n) else None | None \<Rightarrow> None)"

definition parse_offset :: "string \<Rightarrow> 64 word option" where
  "parse_offset s = (case parse_int s of Some n \<Rightarrow> if - (2 ^ 63) \<le> n \<and> n < 2 ^ 63 then Some (of_int n) else None | None \<Rightarrow> None)"

datatype key_error =
    MissingSourceType
  | MissingRowNumber
  | InvalidNumber
  | InvalidDatabaseKey
  | InvalidPrimaryKey
  | MissingPartition
  | MissingOffset
  | MissingRowIndex
  | InvalidS3Path
  | UnsupportedSource string

definition or_error :: "'e \<Rightarrow> 'a option \<Rightarrow> 'e + 'a" where
  "or_error e x = (case x of None \<Rightarrow> Inl e | Some a \<Rightarrow> Inr a)"

lemma or_error_simps [simp]: "or_error e (Some a) = Inr a" "or_error e None = Inl e"
  by (simp_all add: or_error_def)

definition parse_csv_key :: "string \<Rightarrow> key_error + row_id" where
  "parse_csv_key rest =
     try_bind (or_error MissingRowNumber (split_last (CHR '':'') rest)) (\<lambda>(path, number).
       try_bind (or_error InvalidNumber (parse_row_u64 number)) (\<lambda>row_number. Inr (row_csv path row_number)))"

fun parse_pairs :: "string list \<Rightarrow> (string, string) btree \<Rightarrow> key_error + (string, string) btree" where
  "parse_pairs [] pk = Inr pk"
| "parse_pairs (pair # pairs) pk =
     (case split_once (CHR ''='') pair of
        None \<Rightarrow> Inl InvalidPrimaryKey
      | Some (key, value) \<Rightarrow> parse_pairs pairs (bt_insert key value pk))"

definition parse_database_key :: "row_database_type \<Rightarrow> string \<Rightarrow> key_error + row_id" where
  "parse_database_key db_type rest =
     try_bind (or_error InvalidDatabaseKey (split_once (CHR '':'') rest)) (\<lambda>(table, pk_part).
       try_bind (parse_pairs (split_on (CHR '','') pk_part) []) (\<lambda>pk. Inr (row_database db_type table pk)))"

text \<open>\<^verbatim>\<open>splitn(3, ':')\<close>: the third part is all that is left.\<close>

definition parse_kafka_key :: "string \<Rightarrow> key_error + row_id" where
  "parse_kafka_key rest =
     try_bind (or_error MissingPartition (split_once (CHR '':'') rest)) (\<lambda>(topic, others).
       (case split_once (CHR '':'') others of
          None \<Rightarrow> try_bind (or_error InvalidNumber (parse_partition (trim_start_matches (CHR ''p'') others))) (\<lambda>_. Inl MissingOffset)
        | Some (part, off) \<Rightarrow>
            try_bind (or_error InvalidNumber (parse_partition (trim_start_matches (CHR ''p'') part))) (\<lambda>p.
              try_bind (or_error InvalidNumber (parse_offset (trim_start_matches (CHR ''o'') off))) (\<lambda>off. Inr (row_kafka topic p off)))))"

definition parse_s3_key :: "string \<Rightarrow> key_error + row_id" where
  "parse_s3_key rest =
     try_bind (or_error MissingRowIndex (split_last (CHR '':'') rest)) (\<lambda>(bucket_key, index).
       try_bind (or_error InvalidNumber (parse_row_u64 (trim_start_matches (CHR ''r'') index))) (\<lambda>row_index.
         try_bind (or_error InvalidS3Path (split_once (CHR ''/'') bucket_key)) (\<lambda>(bucket, object_key). Inr (row_s3 bucket object_key row_index))))"

definition database_of :: "string \<Rightarrow> row_database_type option" where
  "database_of s =
     (if s = ''db2'' then Some DB2 else if s = ''postgres'' then Some Postgres else if s = ''oracle'' then Some Oracle
      else if s = ''hana'' \<or> s = ''saphana'' then Some SAPHANA else if s = ''mysql'' then Some MySQL
      else if s = ''snowflake'' then Some Snowflake else if s = ''databricks'' then Some Databricks else None)"

definition from_key :: "string \<Rightarrow> key_error + row_id" where
  "from_key key =
     try_bind (or_error MissingSourceType (split_once (CHR '':'') key)) (\<lambda>(source, rest).
       if source = ''csv'' then parse_csv_key rest
       else if source = ''kafka'' then parse_kafka_key rest
       else if source = ''s3'' then parse_s3_key rest
       else case database_of source of Some db \<Rightarrow> parse_database_key db rest | None \<Rightarrow> Inl (UnsupportedSource source))"

section \<open>Splitting what was joined\<close>

lemma split_once_append: "c \<notin> set a \<Longrightarrow> split_once c (a @ c # b) = Some (a, b)"
  by (auto simp: split_once_def takeWhile_append dropWhile_append)

lemma split_last_append: "c \<notin> set b \<Longrightarrow> split_last c (a @ c # b) = Some (a, b)"
  using split_once_append [of c "rev b" "rev a"] by (simp add: split_last_def)

lemma split_on_append: "c \<notin> set a \<Longrightarrow> split_on c (a @ c # b) = a # split_on c b"
  by (induction a) auto

lemma split_on_plain: "c \<notin> set a \<Longrightarrow> split_on c a = [a]"
  by (induction a) auto

lemma split_on_join: "xs \<noteq> [] \<Longrightarrow> (\<forall>x \<in> set xs. c \<notin> set x) \<Longrightarrow> split_on c (join [c] xs) = xs"
  by (induction "[c]" xs rule: join.induct) (simp_all add: split_on_plain split_on_append)

subsection \<open>Numbers\<close>

lemma digits_only_conv: "digits_only s \<longleftrightarrow> (\<forall>c \<in> set s. 48 \<le> (of_char c :: nat) \<and> (of_char c :: nat) \<le> 57)"
  by (induction s) auto

lemma show_nat_parts: "show_nat n \<noteq> []" "digits_only (show_nat n)"
proof -
  show "show_nat n \<noteq> []" by (simp add: show_nat.simps [of n])
  show "digits_only (show_nat n)" using show_nat_digits [of _ n] by (simp add: digits_only_conv)
qed

lemma digit_not: "digits_only s \<Longrightarrow> \<not> (48 \<le> (of_char c :: nat) \<and> (of_char c :: nat) \<le> 57) \<Longrightarrow> c \<notin> set s"
  by (auto simp: digits_only_conv)

lemma show_nat_not:
  "CHR ''-'' \<notin> set (show_nat n)" "CHR ''+'' \<notin> set (show_nat n)" "CHR '':'' \<notin> set (show_nat n)"
  "CHR ''p'' \<notin> set (show_nat n)" "CHR ''o'' \<notin> set (show_nat n)" "CHR ''r'' \<notin> set (show_nat n)"
  by (rule digit_not [OF show_nat_parts(2)], simp)+

lemma parse_show_nat: "parse_int (show_nat n) = Some (int n)"
proof -
  obtain c cs where s: "show_nat n = c # cs" using show_nat_parts(1) by (cases "show_nat n") auto
  have "c \<noteq> CHR ''-''" "c \<noteq> CHR ''+''" using show_nat_not(1,2) [of n] s by auto
  then show ?thesis using show_nat_parts(2) [of n] read_show_nat [of n] s by (simp add: parse_int_def)
qed

lemma parse_show_int: "parse_int (show_int i) = Some i"
proof (cases "i < 0")
  case True
  then show ?thesis using show_nat_parts [of "nat (- i)"] read_show_nat [of "nat (- i)"] by (simp add: show_int_def parse_int_def)
next
  case False
  then show ?thesis by (simp add: show_int_def parse_show_nat)
qed

lemma show_int_not: "CHR '':'' \<notin> set (show_int i)" "CHR ''p'' \<notin> set (show_int i)" "CHR ''o'' \<notin> set (show_int i)"
  by (auto simp: show_int_def show_nat_not)

lemma trim_prefix: "c \<notin> set s \<Longrightarrow> trim_start_matches c (c # s) = s"
  by (cases s) (auto simp: trim_start_matches_def)

lemma parse_row_u64_show: "parse_row_u64 (show_nat (unat (n :: u64))) = Some n"
proof -
  have "hd (show_nat (unat n)) \<noteq> CHR ''-''" using show_nat_not(1) [of "unat n"] show_nat_parts(1) [of "unat n"] by (metis list.set_sel(1))
  moreover have "uint n < 2 ^ 64" using uint_lt2p [of n] by simp
  ultimately show ?thesis by (simp add: parse_row_u64_def parse_show_nat)
qed

lemma parse_partition_show: "parse_partition (show_int (sint n)) = Some n"
  using sint_ge [of n] sint_lt [of n] by (simp add: parse_partition_def parse_show_int)

lemma parse_offset_show: "parse_offset (show_int (sint n)) = Some n"
  using sint_ge [of n] sint_lt [of n] by (simp add: parse_offset_def parse_show_int)

section \<open>The round trip\<close>

text \<open>
  The identifiers whose keys can be parsed: the position fits the kind of source; a table and a topic have no colon; there is a
  primary key, whose names have neither commas nor equality signs and whose values have no commas; and the object of a bucket has a slash.
\<close>

fun key_safe :: "row_id \<Rightarrow> bool" where
  "key_safe r \<longleftrightarrow>
     (case (ri_source_type r, ri_position r) of
        (SrcCsv, RowNumber _) \<Rightarrow> True
      | (SrcDatabase _, PrimaryKey keys) \<Rightarrow>
          CHR '':'' \<notin> set (ri_source_id r) \<and> keys \<noteq> [] \<and> bt_wf keys \<and>
          list_all (\<lambda>(k, v). CHR ''='' \<notin> set k \<and> CHR '','' \<notin> set k \<and> CHR '','' \<notin> set v) keys
      | (SrcKafka, KafkaOffset _ _) \<Rightarrow> CHR '':'' \<notin> set (ri_source_id r)
      | (SrcS3, ParquetIndex _) \<Rightarrow> CHR ''/'' \<in> set (ri_source_id r)
      | _ \<Rightarrow> False)"

lemma bt_insert_last: "bt_wf (t @ [(k, v)]) \<Longrightarrow> bt_insert k v t = t @ [(k, v)]"
  by (induction t) (auto simp: bt_wf_Cons)

lemma parse_pairs_show:
  "bt_wf (done_keys @ keys) \<Longrightarrow> list_all (\<lambda>(k, v). CHR ''='' \<notin> set k) keys \<Longrightarrow> parse_pairs (map show_pair keys) done_keys = Inr (done_keys @ keys)"
proof (induction keys arbitrary: done_keys)
  case (Cons kv keys)
  obtain k v where kv: "kv = (k, v)" by force
  have "bt_wf (done_keys @ [(k, v)])" using Cons.prems(1) kv by (simp add: bt_wf_def sorted_wrt_append)
  then have "bt_insert k v done_keys = done_keys @ [(k, v)]" by (rule bt_insert_last)
  then show ?case using Cons.IH [of "done_keys @ [(k, v)]"] Cons.prems kv by (simp add: show_pair_def split_once_append)
qed simp

lemma split_slash: "CHR ''/'' \<in> set s \<Longrightarrow> \<exists>bucket key. split_once (CHR ''/'') s = Some (bucket, key) \<and> bucket @ ''/'' @ key = s"
proof -
  assume "CHR ''/'' \<in> set s"
  then obtain a b where "s = a @ CHR ''/'' # b" "CHR ''/'' \<notin> set a" by (meson split_list_first)
  then show ?thesis by (simp add: split_once_append)
qed

lemma source_no_colon: "CHR '':'' \<notin> set (show_source t)"
  by (cases t; simp; rename_tac d; case_tac d; simp)

lemma database_of_show: "database_of (show_database d) = Some d" "show_database d \<noteq> ''csv''" "show_database d \<noteq> ''kafka''" "show_database d \<noteq> ''s3''"
  by (cases d; simp add: database_of_def)+

text \<open>
  C35. Keys of rows can be read back. Parsing the key of a row identifier gives the identifier: for rows of files whatever the path, for rows of object stores,
  for messages of topics without colons, and for rows of tables without colons whose primary key is free of the separators.
\<close>

theorem row_key_roundtrip:
  assumes "key_safe r"
  shows "from_key (to_key r) = Inr r"
proof -
  have head: "split_once (CHR '':'') (to_key r) = Some (show_source (ri_source_type r), ri_source_id r @ CHR '':'' # show_position (ri_position r))"
    using split_once_append [OF source_no_colon] by (simp add: to_key_def)
  consider (csv) n where "ri_source_type r = SrcCsv" "ri_position r = RowNumber n"
    | (db) d keys where "ri_source_type r = SrcDatabase d" "ri_position r = PrimaryKey keys"
    | (kafka) p off where "ri_source_type r = SrcKafka" "ri_position r = KafkaOffset p off"
    | (s3) i where "ri_source_type r = SrcS3" "ri_position r = ParquetIndex i"
    using assms by (auto split: source_type.splits row_position.splits)
  then show ?thesis
  proof cases
    case csv
    have "split_last (CHR '':'') (ri_source_id r @ CHR '':'' # show_nat (unat n)) = Some (ri_source_id r, show_nat (unat n))"
      by (rule split_last_append [OF show_nat_not(3)])
    then show ?thesis using head csv by (simp add: from_key_def parse_csv_key_def parse_row_u64_show row_csv_def)
  next
    case db
    then have safe: "CHR '':'' \<notin> set (ri_source_id r)" "keys \<noteq> []" "bt_wf keys" "list_all (\<lambda>(k, v). CHR ''='' \<notin> set k) keys"
      "\<forall>x \<in> set (map show_pair keys). CHR '','' \<notin> set x"
      using assms by (auto simp: list_all_iff show_pair_def)
    have "split_on (CHR '','') (join '','' (map show_pair keys)) = map show_pair keys" by (rule split_on_join) (use safe in simp_all)
    moreover have "parse_pairs (map show_pair keys) [] = Inr keys" using parse_pairs_show [of "[]" keys] safe by simp
    ultimately show ?thesis using head db
      by (simp add: from_key_def database_of_show parse_database_key_def split_once_append [OF safe(1)] row_database_def)
  next
    case kafka
    then have "CHR '':'' \<notin> set (ri_source_id r)" using assms by simp
    moreover have "split_once (CHR '':'') ((CHR ''p'' # show_int (sint p)) @ CHR '':'' # CHR ''o'' # show_int (sint off)) =
        Some (CHR ''p'' # show_int (sint p), CHR ''o'' # show_int (sint off))"
      by (rule split_once_append) (simp add: show_int_not)
    ultimately show ?thesis using head kafka
      by (simp add: from_key_def parse_kafka_key_def split_once_append trim_prefix show_int_not parse_partition_show parse_offset_show row_kafka_def)
  next
    case s3
    then obtain bucket key where slash: "split_once (CHR ''/'') (ri_source_id r) = Some (bucket, key)" "bucket @ ''/'' @ key = ri_source_id r"
      using assms split_slash [of "ri_source_id r"] by auto
    have "split_last (CHR '':'') (ri_source_id r @ CHR '':'' # CHR ''r'' # show_nat (unat i)) = Some (ri_source_id r, CHR ''r'' # show_nat (unat i))"
      by (rule split_last_append) (simp add: show_nat_not)
    then show ?thesis using head s3 slash
      by (simp add: from_key_def parse_s3_key_def trim_prefix show_nat_not parse_row_u64_show row_s3_def)
  qed
qed

text \<open>A comma in a value: two rows of a table have the same key.\<close>

definition comma_row :: row_id where
  "comma_row = row_database Postgres ''people'' [(''name'', ''Smith,role=boss'')]"

definition split_row :: row_id where
  "split_row = row_database Postgres ''people'' [(''name'', ''Smith''), (''role'', ''boss'')]"

lemma row_keys_collide: "to_key comma_row = to_key split_row" "comma_row \<noteq> split_row"
  by (simp_all add: comma_row_def split_row_def row_database_def to_key_def show_pair_def)

theorem row_key_roundtrip_witness:
  "from_key (to_key (row_csv ''C:/in.csv'' 7)) = Inr (row_csv ''C:/in.csv'' 7)"
  by (rule row_key_roundtrip) (simp add: row_csv_def)

end
