(* ===== verification/RowStore.thy ===== *)
theory RowStore
  imports RowKeys Erasure
begin

text \<open>
  Model of \<^verbatim>\<open>arcxa-coordinator/src/storage/row_lineage_store.rs\<close>, the store of row lineage with its buffer, its column families and the erasure
  of tenants and users. RocksDB holds values of the types that the code serializes: a write batch is a list of operations that is applied as a whole. The first error
  that an operation meets in the database or in serialization is given to it as \<open>err\<close>; every such error leaves the database as
  it was. The iteration over a column family yields its entries. Transformations and violations of rules are abstract; the averages of statistics, the search for keys,
  logging and the formats of older versions are not modelled.
\<close>

section \<open>Events\<close>

datatype 'q processing_outcome =
    ProcessedTo string
  | FilteredOut string string
  | ValidationFailed "'q list"
  | ProcessingFailed string

record ('t, 'q) row_event =
  re_row_id :: row_id
  re_batch_id :: string
  re_job_id :: string
  re_step_id :: "string option"
  re_timestamp :: int
  re_outcome :: "'q processing_outcome"
  re_transformations :: "'t list"
  re_output_row_id :: "row_id option"
  re_tenant_id :: string
  re_correlation_id :: "string option"

record job_statistics =
  js_job_id :: string
  js_total_rows :: u64
  js_success_count :: u64
  js_filtered_count :: u64
  js_failed_count :: u64
  js_filter_reasons :: "(string, u64) hmap"
  js_start_time :: int

section \<open>The database\<close>

record ('t, 'q) row_db =
  rd_by_row :: "(string, ('t, 'q) row_event list) hmap"
  rd_by_batch :: "(string, row_id list) hmap"
  rd_by_job :: "(string, string list) hmap"
  rd_filtered :: "(string, row_id \<times> string) hmap"
  rd_stats :: "(string, job_statistics) hmap"
  rd_transforms :: "(string, 't list) hmap"
  rd_by_tenant :: "(string, row_id list) hmap"

definition row_db_empty :: "('t, 'q) row_db" where
  "row_db_empty = \<lparr>rd_by_row = [], rd_by_batch = [], rd_by_job = [], rd_filtered = [], rd_stats = [], rd_transforms = [], rd_by_tenant = []\<rparr>"

datatype ('t, 'q) lineage_op =
    PutRow string "('t, 'q) row_event list"
  | DeleteRow string
  | PutBatch string "row_id list"
  | PutJob string "string list"
  | PutFiltered string "row_id \<times> string"
  | PutStats string job_statistics
  | DeleteTransforms string
  | PutTenant string "row_id list"
  | DeleteTenant string

fun apply_lineage_op :: "('t, 'q) lineage_op \<Rightarrow> ('t, 'q) row_db \<Rightarrow> ('t, 'q) row_db" where
  "apply_lineage_op (PutRow k v) d = d\<lparr>rd_by_row := AList.update k v (rd_by_row d)\<rparr>"
| "apply_lineage_op (DeleteRow k) d = d\<lparr>rd_by_row := AList.delete k (rd_by_row d)\<rparr>"
| "apply_lineage_op (PutBatch k v) d = d\<lparr>rd_by_batch := AList.update k v (rd_by_batch d)\<rparr>"
| "apply_lineage_op (PutJob k v) d = d\<lparr>rd_by_job := AList.update k v (rd_by_job d)\<rparr>"
| "apply_lineage_op (PutFiltered k v) d = d\<lparr>rd_filtered := AList.update k v (rd_filtered d)\<rparr>"
| "apply_lineage_op (PutStats k v) d = d\<lparr>rd_stats := AList.update k v (rd_stats d)\<rparr>"
| "apply_lineage_op (DeleteTransforms k) d = d\<lparr>rd_transforms := AList.delete k (rd_transforms d)\<rparr>"
| "apply_lineage_op (PutTenant k v) d = d\<lparr>rd_by_tenant := AList.update k v (rd_by_tenant d)\<rparr>"
| "apply_lineage_op (DeleteTenant k) d = d\<lparr>rd_by_tenant := AList.delete k (rd_by_tenant d)\<rparr>"

definition write_batch :: "string option \<Rightarrow> ('t, 'q) lineage_op list \<Rightarrow> ('t, 'q) row_db \<Rightarrow> ('t, 'q) row_db \<times> (string + unit)" where
  "write_batch err ops d = (case err of Some e \<Rightarrow> (d, Inl e) | None \<Rightarrow> (fold apply_lineage_op ops d, Inr ()))"

section \<open>Writing\<close>

text \<open>The events of a row are read from the database, which does not have those of the batch that is being built.\<close>

definition append_event :: "('t, 'q) row_db \<Rightarrow> row_id \<Rightarrow> ('t, 'q) row_event \<Rightarrow> ('t, 'q) lineage_op" where
  "append_event d r ev = PutRow (to_key r) ((case map_of (rd_by_row d) (to_key r) of None \<Rightarrow> [] | Some evs \<Rightarrow> evs) @ [ev])"

definition row_index_ops :: "('t, 'q) row_db \<Rightarrow> ('t, 'q) row_event \<Rightarrow> ('t, 'q) lineage_op list" where
  "row_index_ops d ev = append_event d (re_row_id ev) ev # (case re_output_row_id ev of None \<Rightarrow> [] | Some r \<Rightarrow> [append_event d r ev])"

definition new_job_statistics :: "string \<Rightarrow> int \<Rightarrow> job_statistics" where
  "new_job_statistics job_id start_time = \<lparr>js_job_id = job_id, js_total_rows = 0, js_success_count = 0, js_filtered_count = 0, js_failed_count = 0,
     js_filter_reasons = [], js_start_time = start_time\<rparr>"

definition load_job_statistics :: "('t, 'q) row_db \<Rightarrow> string \<Rightarrow> int \<Rightarrow> job_statistics" where
  "load_job_statistics d job_id start_time =
     (case map_of (rd_stats d) job_id of
        Some stats \<Rightarrow> if start_time < js_start_time stats then stats\<lparr>js_start_time := start_time\<rparr> else stats
      | None \<Rightarrow> new_job_statistics job_id start_time)"

definition count_outcome :: "'q processing_outcome \<Rightarrow> job_statistics \<Rightarrow> job_statistics" where
  "count_outcome outcome s =
     (case outcome of
        ProcessedTo _ \<Rightarrow> s\<lparr>js_success_count := js_success_count s + 1\<rparr>
      | FilteredOut reason _ \<Rightarrow>
          s\<lparr>js_filtered_count := js_filtered_count s + 1, js_filter_reasons := hm_entry reason 0 (\<lambda>n. n + 1) (js_filter_reasons s)\<rparr>
      | ValidationFailed _ \<Rightarrow> s\<lparr>js_failed_count := js_failed_count s + 1\<rparr>
      | ProcessingFailed _ \<Rightarrow> s\<lparr>js_failed_count := js_failed_count s + 1\<rparr>)"

definition update_stats :: "('t, 'q) row_db \<Rightarrow> ('t, 'q) row_event \<Rightarrow> (string, job_statistics) hmap \<Rightarrow> (string, job_statistics) hmap" where
  "update_stats d ev stats =
     (let s = (case map_of stats (re_job_id ev) of Some s \<Rightarrow> s | None \<Rightarrow> load_job_statistics d (re_job_id ev) (re_timestamp ev));
          s1 = s\<lparr>js_total_rows := js_total_rows s + 1\<rparr>;
          s2 = (if re_timestamp ev < js_start_time s1 then s1\<lparr>js_start_time := re_timestamp ev\<rparr> else s1)
      in AList.update (re_job_id ev) (count_outcome (re_outcome ev) s2) stats)"

text \<open>\<^verbatim>\<open>entry(k).or_default().push(v)\<close> for all events, and the entries of the resulting map.\<close>

definition group_events :: "('e \<Rightarrow> string) \<Rightarrow> ('e \<Rightarrow> 'v) \<Rightarrow> 'e list \<Rightarrow> (string, 'v list) hmap" where
  "group_events key val events = fold (\<lambda>ev m. hm_entry (key ev) [] (\<lambda>vs. vs @ [val ev]) m) events []"

definition filtered_ops :: "('t, 'q) row_event \<Rightarrow> ('t, 'q) lineage_op list" where
  "filtered_ops ev =
     (case re_outcome ev of
        FilteredOut reason _ \<Rightarrow> [PutFiltered (re_job_id ev @ '':'' @ show_int (re_timestamp ev div 1000)) (re_row_id ev, reason)]
      | _ \<Rightarrow> [])"

definition tenant_op :: "('t, 'q) row_db \<Rightarrow> string \<times> row_id list \<Rightarrow> ('t, 'q) lineage_op" where
  "tenant_op d = (\<lambda>(tenant, rows). PutTenant tenant ((case map_of (rd_by_tenant d) tenant of None \<Rightarrow> [] | Some rs \<Rightarrow> rs) @ rows))"

definition write_ops :: "('t, 'q) row_db \<Rightarrow> ('t, 'q) row_event list \<Rightarrow> ('t, 'q) lineage_op list" where
  "write_ops d events =
     concat (map (row_index_ops d) events) @
     map (\<lambda>(b, rows). PutBatch b rows) (group_events re_batch_id re_row_id events) @
     map (\<lambda>(j, bs). PutJob j (remdups (sort bs))) (group_events re_job_id re_batch_id events) @
     concat (map filtered_ops events) @
     map (\<lambda>(j, s). PutStats j s) (fold (update_stats d) events []) @
     map (tenant_op d) (group_events re_tenant_id re_row_id events)"

definition write_events_internal ::
  "string option \<Rightarrow> ('t, 'q) row_event list \<Rightarrow> ('t, 'q) row_db \<Rightarrow> ('t, 'q) row_db \<times> (string + unit)" where
  "write_events_internal err events d = (if events = [] then (d, Inr ()) else write_batch err (write_ops d events) d)"

record ('t, 'q) row_store =
  rs_db :: "('t, 'q) row_db"
  rs_buffer :: "('t, 'q) row_event list"
  rs_max_buffer_size :: nat

definition row_store_new :: "('t, 'q) row_store" where
  "row_store_new = \<lparr>rs_db = row_db_empty, rs_buffer = [], rs_max_buffer_size = 1000\<rparr>"

definition persist_events :: "string option \<Rightarrow> ('t, 'q) row_event list \<Rightarrow> ('t, 'q) row_store \<Rightarrow> ('t, 'q) row_store \<times> (string + unit)" where
  "persist_events err events s = (case write_events_internal err events (rs_db s) of (d, r) \<Rightarrow> (s\<lparr>rs_db := d\<rparr>, r))"

definition write_row :: "string option \<Rightarrow> ('t, 'q) row_event \<Rightarrow> ('t, 'q) row_store \<Rightarrow> ('t, 'q) row_store \<times> (string + unit)" where
  "write_row err ev s =
     (let buffer = rs_buffer s @ [ev]
      in if length buffer \<ge> rs_max_buffer_size s then persist_events err buffer (s\<lparr>rs_buffer := []\<rparr>)
         else (s\<lparr>rs_buffer := buffer\<rparr>, Inr ()))"

definition flush_buffer :: "string option \<Rightarrow> ('t, 'q) row_store \<Rightarrow> ('t, 'q) row_store \<times> (string + unit)" where
  "flush_buffer err s = (if rs_buffer s = [] then (s, Inr ()) else persist_events err (rs_buffer s) (s\<lparr>rs_buffer := []\<rparr>))"

definition write_rows_batch ::
  "string option \<Rightarrow> string option \<Rightarrow> ('t, 'q) row_event list \<Rightarrow> ('t, 'q) row_store \<Rightarrow> ('t, 'q) row_store \<times> (string + unit)" where
  "write_rows_batch flush_err err events s =
     (if events = [] then (s, Inr ())
      else case flush_buffer flush_err s of (s1, Inl e) \<Rightarrow> (s1, Inl e) | (s1, Inr _) \<Rightarrow> persist_events err events s1)"

section \<open>Reading\<close>

definition get_row_lineage :: "row_id \<Rightarrow> ('t, 'q) row_store \<Rightarrow> ('t, 'q) row_event list" where
  "get_row_lineage r s = (case map_of (rd_by_row (rs_db s)) (to_key r) of None \<Rightarrow> [] | Some evs \<Rightarrow> evs)"

definition get_batch_lineage :: "string \<Rightarrow> ('t, 'q) row_store \<Rightarrow> ('t, 'q) row_event list" where
  "get_batch_lineage b s =
     (case map_of (rd_by_batch (rs_db s)) b of None \<Rightarrow> [] | Some rows \<Rightarrow> concat (map (\<lambda>r. get_row_lineage r s) rows))"

definition get_row_transformations :: "row_id \<Rightarrow> ('t, 'q) row_store \<Rightarrow> 't list" where
  "get_row_transformations r s = concat (map re_transformations (get_row_lineage r s))"

definition get_job_stats :: "int \<Rightarrow> string \<Rightarrow> ('t, 'q) row_store \<Rightarrow> job_statistics" where
  "get_job_stats now job_id s = (case map_of (rd_stats (rs_db s)) job_id of Some st \<Rightarrow> st | None \<Rightarrow> new_job_statistics job_id now)"

section \<open>Erasure\<close>

definition get_tenant_row_ids :: "string \<Rightarrow> ('t, 'q) row_db \<Rightarrow> row_id list" where
  "get_tenant_row_ids tenant d = (case map_of (rd_by_tenant d) tenant of None \<Rightarrow> [] | Some rs \<Rightarrow> rs)"

definition count_tenant_records :: "string \<Rightarrow> ('t, 'q) row_db \<Rightarrow> u64" where
  "count_tenant_records tenant d = of_nat (length (get_tenant_row_ids tenant d))"

definition of_user :: "string \<Rightarrow> ('t, 'q) row_event \<Rightarrow> bool" where
  "of_user u ev \<longleftrightarrow> re_correlation_id ev = Some u \<or> re_tenant_id ev = u"

definition count_user_records :: "string \<Rightarrow> ('t, 'q) row_db \<Rightarrow> u64" where
  "count_user_records u d = sum_list (map (\<lambda>(_, evs). of_nat (length (filter (of_user u) evs))) (rd_by_row d))"

definition user_row_ops :: "string \<Rightarrow> string \<times> ('t, 'q) row_event list \<Rightarrow> ('t, 'q) lineage_op list" where
  "user_row_ops u = (\<lambda>(key, evs).
     if filter (of_user u) evs = [] then []
     else
       let kept = filter (\<lambda>e. \<not> of_user u e) evs
       in if kept = [] then [DeleteRow key, DeleteTransforms key] else [PutRow key kept])"

text \<open>The rows that are removed as a whole, by the tenants of their events; each by the row of its first event.\<close>

definition note_removed :: "string \<Rightarrow> string \<times> ('t, 'q) row_event list \<Rightarrow> (string, row_id list) hmap \<Rightarrow> (string, row_id list) hmap" where
  "note_removed u = (\<lambda>(key, evs) m.
     let removed = filter (of_user u) evs
     in if removed \<noteq> [] \<and> filter (\<lambda>e. \<not> of_user u e) evs = []
        then fold (\<lambda>e. hm_entry (re_tenant_id e) [] (List.insert (re_row_id (hd removed)))) removed m else m)"

definition tenant_cleanup_ops :: "('t, 'q) row_db \<Rightarrow> string \<times> row_id list \<Rightarrow> ('t, 'q) lineage_op list" where
  "tenant_cleanup_ops d = (\<lambda>(tenant, removed).
     case map_of (rd_by_tenant d) tenant of
       None \<Rightarrow> []
     | Some rows \<Rightarrow>
         let left = filter (\<lambda>r. r \<notin> set removed) rows in if left = [] then [DeleteTenant tenant] else [PutTenant tenant left])"

definition erase_user_records :: "string option \<Rightarrow> string \<Rightarrow> ('t, 'q) row_db \<Rightarrow> ('t, 'q) row_db \<times> (string + u64)" where
  "erase_user_records err u d =
     (let ops = concat (map (user_row_ops u) (rd_by_row d)) @ concat (map (tenant_cleanup_ops d) (fold (note_removed u) (rd_by_row d) []))
      in case write_batch err ops d of (d', Inl e) \<Rightarrow> (d', Inl e) | (d', Inr _) \<Rightarrow> (d', Inr (count_user_records u d)))"

definition row_lineage_name :: string where
  "row_lineage_name = ''row_lineage''"

definition row_result :: "erasure_request \<Rightarrow> string \<Rightarrow> int \<Rightarrow> backend_result \<Rightarrow> erasure_result" where
  "row_result request audit now b = finalize_result now (add_backend_result row_lineage_name b (erasure_result_new request audit now))"

definition dry_run_result :: "u64 \<Rightarrow> backend_result" where
  "dry_run_result n = with_warning (''Dry run - no data was actually deleted. Would have deleted '' @ show_nat (unat n) @ '' records.'')
     (with_detail ''row_lineage_events_would_be_deleted'' n (backend_success row_lineage_name 0 HardDelete))"

definition tenant_delete_ops :: "string \<Rightarrow> row_id list \<Rightarrow> ('t, 'q) lineage_op list" where
  "tenant_delete_ops tenant rows = concat (map (\<lambda>r. [DeleteRow (to_key r), DeleteTransforms (to_key r)]) rows) @ [DeleteTenant tenant]"

definition erase_user_subject ::
  "string option \<Rightarrow> string \<Rightarrow> int \<Rightarrow> erasure_request \<Rightarrow> ('t, 'q) row_store \<Rightarrow> ('t, 'q) row_store \<times> (string + erasure_result)" where
  "erase_user_subject err audit now request s =
     (let u = ds_id (er_data_subject request)
      in if er_dry_run request then
           (s, case err of Some e \<Rightarrow> Inl e | None \<Rightarrow> Inr (row_result request audit now (dry_run_result (count_user_records u (rs_db s)))))
         else case erase_user_records err u (rs_db s) of
           (d, Inl e) \<Rightarrow> (s\<lparr>rs_db := d\<rparr>, Inl e)
         | (d, Inr n) \<Rightarrow>
             (s\<lparr>rs_db := d\<rparr>, Inr (row_result request audit now (with_detail ''row_lineage_events'' n (backend_success row_lineage_name n HardDelete)))))"

definition erase_tenant_subject ::
  "string option \<Rightarrow> string \<Rightarrow> int \<Rightarrow> erasure_request \<Rightarrow> ('t, 'q) row_store \<Rightarrow> ('t, 'q) row_store \<times> (string + erasure_result)" where
  "erase_tenant_subject err audit now request s =
     (let tenant = ds_id (er_data_subject request); rows = get_tenant_row_ids tenant (rs_db s)
      in case err of
           Some e \<Rightarrow> (s, Inl e)
         | None \<Rightarrow>
             if er_dry_run request then (s, Inr (row_result request audit now (dry_run_result (count_tenant_records tenant (rs_db s)))))
             else if rows = [] then
               (s, Inr (row_result request audit now (with_warning ''No data found for tenant'' (backend_success row_lineage_name 0 HardDelete))))
             else
               (s\<lparr>rs_db := fold apply_lineage_op (tenant_delete_ops tenant rows) (rs_db s)\<rparr>,
                Inr (row_result request audit now (with_detail ''tenant_index_entries'' 1 (with_detail ''row_lineage_events'' (of_nat (length rows))
                  (backend_success row_lineage_name (of_nat (length rows)) HardDelete))))))"

definition unsupported_subject :: "string \<Rightarrow> string" where
  "unsupported_subject kind =
     ''Unsupported data subject type: '' @ kind @ ''. Supported types: '' @ [CHR 0x27] @ ''tenant_id'' @ [CHR 0x27] @ '', '' @ [CHR 0x27] @ ''user_id'' @ [CHR 0x27] @ ''.''"

definition row_erase_data_subject ::
  "string option \<Rightarrow> string \<Rightarrow> int \<Rightarrow> erasure_request \<Rightarrow> ('t, 'q) row_store \<Rightarrow> ('t, 'q) row_store \<times> (string + erasure_result)" where
  "row_erase_data_subject err audit now request s =
     (let kind = ds_id_type (er_data_subject request)
      in if kind = ''user_id'' then erase_user_subject err audit now request s
         else if kind \<noteq> ''tenant_id'' then
           (s, Inr (row_result request audit now (backend_failure row_lineage_name (unsupported_subject kind) HardDelete)))
         else erase_tenant_subject err audit now request s)"

definition row_count_data_subject :: "string option \<Rightarrow> data_subject_id \<Rightarrow> ('t, 'q) row_store \<Rightarrow> string + u64" where
  "row_count_data_subject err subject s =
     (case err of
        Some e \<Rightarrow> Inl e
      | None \<Rightarrow>
          if ds_id_type subject = ''tenant_id'' then Inr (count_tenant_records (ds_id subject) (rs_db s))
          else if ds_id_type subject = ''user_id'' then Inr (count_user_records (ds_id subject) (rs_db s))
          else Inl (unsupported_subject (ds_id_type subject)))"

section \<open>What a write stores\<close>

definition row_events :: "string \<Rightarrow> ('t, 'q) row_db \<Rightarrow> ('t, 'q) row_event list" where
  "row_events k d = (case map_of (rd_by_row d) k of None \<Rightarrow> [] | Some evs \<Rightarrow> evs)"

lemma get_row_lineage_events: "get_row_lineage r s = row_events (to_key r) (rs_db s)"
  by (simp add: get_row_lineage_def row_events_def)

fun touches_rows :: "('t, 'q) lineage_op \<Rightarrow> bool" where
  "touches_rows (PutRow _ _) = True"
| "touches_rows (DeleteRow _) = True"
| "touches_rows _ = False"

fun touches_tenants :: "('t, 'q) lineage_op \<Rightarrow> bool" where
  "touches_tenants (PutTenant _ _) = True"
| "touches_tenants (DeleteTenant _) = True"
| "touches_tenants _ = False"

lemma apply_other:
  "\<not> touches_rows op \<Longrightarrow> rd_by_row (apply_lineage_op op d) = rd_by_row d"
  "\<not> touches_tenants op \<Longrightarrow> rd_by_tenant (apply_lineage_op op d) = rd_by_tenant d"
  by (cases op; simp)+

lemma fold_other_rows: "(\<And>op. op \<in> set ops \<Longrightarrow> \<not> touches_rows op) \<Longrightarrow> rd_by_row (fold apply_lineage_op ops d) = rd_by_row d"
  by (induction ops arbitrary: d) (simp_all add: apply_other)

lemma fold_other_tenants: "(\<And>op. op \<in> set ops \<Longrightarrow> \<not> touches_tenants op) \<Longrightarrow> rd_by_tenant (fold apply_lineage_op ops d) = rd_by_tenant d"
  by (induction ops arbitrary: d) (simp_all add: apply_other)

definition concerns :: "string \<Rightarrow> ('t, 'q) row_event \<Rightarrow> bool" where
  "concerns k ev \<longleftrightarrow> to_key (re_row_id ev) = k \<or> (case re_output_row_id ev of None \<Rightarrow> False | Some r \<Rightarrow> to_key r = k)"

lemma row_index_one:
  "map_of (rd_by_row (fold apply_lineage_op (row_index_ops d0 ev) d)) k =
     (if concerns k ev then Some (row_events k d0 @ [ev]) else map_of (rd_by_row d) k)"
  by (auto simp: row_index_ops_def append_event_def hm_get_update concerns_def row_events_def split: option.splits)

definition latest_event :: "string \<Rightarrow> ('t, 'q) row_event list \<Rightarrow> ('t, 'q) row_event list" where
  "latest_event k events = (let es = filter (concerns k) events in if es = [] then [] else [last es])"

lemma row_index_lookup:
  "map_of (rd_by_row (fold apply_lineage_op (concat (map (row_index_ops d0) events)) d)) k =
     (if latest_event k events = [] then map_of (rd_by_row d) k else Some (row_events k d0 @ latest_event k events))"
  by (induction events rule: rev_induct) (simp_all add: latest_event_def Let_def row_index_one)

lemma write_ops_rows:
  "map_of (rd_by_row (fold apply_lineage_op (write_ops d events) d)) k =
     (if latest_event k events = [] then map_of (rd_by_row d) k else Some (row_events k d @ latest_event k events))"
proof -
  let ?rows = "concat (map (row_index_ops d) events)"
  define others where "others = map (\<lambda>(b, rows). PutBatch b rows :: ('a, 'b) lineage_op) (group_events re_batch_id re_row_id events) @
     map (\<lambda>(j, bs). PutJob j (remdups (sort bs))) (group_events re_job_id re_batch_id events) @ concat (map filtered_ops events) @
     map (\<lambda>(j, s). PutStats j s) (fold (update_stats d) events []) @ map (tenant_op d) (group_events re_tenant_id re_row_id events)"
  have "\<not> touches_rows op" if "op \<in> set others" for op
    using that by (auto simp: others_def filtered_ops_def tenant_op_def split: processing_outcome.splits)
  then have "rd_by_row (fold apply_lineage_op (?rows @ others) d) = rd_by_row (fold apply_lineage_op ?rows d)"
    by (simp add: fold_other_rows)
  moreover have "write_ops d events = ?rows @ others" by (simp add: write_ops_def others_def)
  ultimately show ?thesis by (simp add: row_index_lookup del: fold_append)
qed

text \<open>
  A write of events that succeeds adds to each row the last one of the events that concern it: of several events for a row in one call, the
  others are lost.
\<close>

lemma write_keeps_last_event:
  assumes "persist_events None events s = (s', r)"
  shows "r = Inr ()" "get_row_lineage row s' = get_row_lineage row s @ latest_event (to_key row) events"
  using assms write_ops_rows [of "rs_db s" events "to_key row"]
  by (auto simp: persist_events_def write_events_internal_def write_batch_def get_row_lineage_events row_events_def latest_event_def split: if_splits)

text \<open>A write that fails leaves the database as it was; events that were buffered are lost.\<close>

lemma failed_flush_loses_events:
  assumes "rs_buffer s \<noteq> []"
  shows "flush_buffer (Some e) s = (s\<lparr>rs_buffer := []\<rparr>, Inl e)"
  using assms by (simp add: flush_buffer_def persist_events_def write_events_internal_def write_batch_def)

section \<open>Erasing a user\<close>

definition user_kept :: "string \<Rightarrow> ('t, 'q) row_event list \<Rightarrow> ('t, 'q) row_event list option" where
  "user_kept u evs = (if filter (of_user u) evs \<noteq> [] \<and> filter (\<lambda>e. \<not> of_user u e) evs = [] then None else Some (filter (\<lambda>e. \<not> of_user u e) evs))"

lemma user_row_ops_lookup:
  assumes "map_of (rd_by_row d) key = Some evs"
  shows "map_of (rd_by_row (fold apply_lineage_op (user_row_ops u (key, evs)) d)) k = (if k = key then user_kept u evs else map_of (rd_by_row d) k)"
  using assms by (auto simp: user_row_ops_def user_kept_def Let_def hm_get_update hm_get_delete filter_empty_conv filter_id_conv)

lemma user_rows_lookup:
  assumes "distinct (map fst entries)" "\<And>key evs. (key, evs) \<in> set entries \<Longrightarrow> map_of (rd_by_row d) key = Some evs"
  shows "map_of (rd_by_row (fold apply_lineage_op (concat (map (user_row_ops u) entries)) d)) k =
    (case map_of entries k of None \<Rightarrow> map_of (rd_by_row d) k | Some evs \<Rightarrow> user_kept u evs)"
  using assms
proof (induction entries arbitrary: d)
  case (Cons x entries)
  obtain key evs where x: "x = (key, evs)" by force
  let ?d = "fold apply_lineage_op (user_row_ops u (key, evs)) d"
  note one = user_row_ops_lookup [OF Cons.prems(2) [of key evs], of u]
  have "map_of (rd_by_row ?d) key' = Some evs'" if "(key', evs') \<in> set entries" for key' evs'
  proof -
    have "key' \<noteq> key" using that Cons.prems(1) x by (force simp: image_iff)
    then show ?thesis using one Cons.prems(2) [of key' evs'] that x by simp
  qed
  moreover have "map_of entries key = None" using Cons.prems(1) x by (simp add: map_of_eq_None_iff)
  ultimately show ?case using Cons.IH [of ?d] Cons.prems(1) one x by (auto split: option.split)
qed simp

lemma cleanup_no_rows: "op \<in> set (tenant_cleanup_ops d x) \<Longrightarrow> \<not> touches_rows op"
  by (auto simp: tenant_cleanup_ops_def Let_def split: prod.splits option.splits if_splits)

lemma user_row_ops_no_tenants: "op \<in> set (user_row_ops u x) \<Longrightarrow> \<not> touches_tenants op"
  by (auto simp: user_row_ops_def Let_def split: prod.splits if_splits)

lemma erase_user_rows:
  assumes "hm_wf (rd_by_row d)" "erase_user_records None u d = (d', r)"
  shows "map_of (rd_by_row d') k = (case map_of (rd_by_row d) k of None \<Rightarrow> None | Some evs \<Rightarrow> user_kept u evs)"
    and "r = Inr (count_user_records u d)"
proof -
  let ?ops = "concat (map (user_row_ops u) (rd_by_row d))" and ?clean = "concat (map (tenant_cleanup_ops d) (fold (note_removed u) (rd_by_row d) []))"
  have d': "d' = fold apply_lineage_op ?clean (fold apply_lineage_op ?ops d)" and r: "r = Inr (count_user_records u d)"
    using assms(2) by (auto simp: erase_user_records_def write_batch_def Let_def)
  have "rd_by_row d' = rd_by_row (fold apply_lineage_op ?ops d)" unfolding d' by (rule fold_other_rows) (auto dest: cleanup_no_rows)
  then show "map_of (rd_by_row d') k = (case map_of (rd_by_row d) k of None \<Rightarrow> None | Some evs \<Rightarrow> user_kept u evs)"
    using user_rows_lookup [of "rd_by_row d" d u k] assms(1) by (auto simp: hm_wf_def split: option.split)
  show "r = Inr (count_user_records u d)" by (rule r)
qed

lemma erase_user_events:
  assumes "hm_wf (rd_by_row d)" "erase_user_records None u d = (d', r)"
  shows "row_events k d' = filter (\<lambda>e. \<not> of_user u e) (row_events k d)"
  using erase_user_rows(1) [OF assms, of k] by (auto simp: row_events_def user_kept_def split: option.splits if_splits)

section \<open>The index of tenants\<close>

lemma group_events_lookup:
  "map_of (group_events key val events) k = (let vs = map val (filter (\<lambda>e. key e = k) events) in if vs = [] then None else Some vs)"
  by (induction events rule: rev_induct) (auto simp: group_events_def hm_entry_lookup Let_def)

lemma hm_entry_wf: "hm_wf m \<Longrightarrow> hm_wf (hm_entry k d f m)"
  by (simp add: hm_entry_def hm_wf_def distinct_update)

lemma group_events_wf: "hm_wf (group_events key val events)"
  by (induction events rule: rev_induct) (simp_all add: group_events_def hm_entry_wf)

lemma tenant_ops_lookup:
  "distinct (map fst groups) \<Longrightarrow> map_of (rd_by_tenant (fold apply_lineage_op (map (tenant_op d0) groups) d)) t =
     (case map_of groups t of None \<Rightarrow> map_of (rd_by_tenant d) t | Some rows \<Rightarrow> Some (get_tenant_row_ids t d0 @ rows))"
proof (induction groups arbitrary: d)
  case (Cons x groups)
  obtain t' rows where x: "x = (t', rows)" by force
  then have "map_of groups t' = None" using Cons.prems by (simp add: map_of_eq_None_iff)
  then show ?case using Cons x by (auto simp: tenant_op_def hm_get_update get_tenant_row_ids_def split: option.splits)
qed simp

lemma write_ops_tenants:
  "get_tenant_row_ids t (fold apply_lineage_op (write_ops d events) d) =
     get_tenant_row_ids t d @ map re_row_id (filter (\<lambda>e. re_tenant_id e = t) events)"
proof -
  define others where "others = concat (map (row_index_ops d) events) @ map (\<lambda>(b, rows). PutBatch b rows :: ('a, 'b) lineage_op) (group_events re_batch_id re_row_id events) @
     map (\<lambda>(j, bs). PutJob j (remdups (sort bs))) (group_events re_job_id re_batch_id events) @ concat (map filtered_ops events) @
     map (\<lambda>(j, s). PutStats j s) (fold (update_stats d) events [])"
  let ?tenants = "map (tenant_op d) (group_events re_tenant_id re_row_id events)"
  have "\<not> touches_tenants op" if "op \<in> set others" for op
    using that by (auto simp: others_def filtered_ops_def row_index_ops_def append_event_def split: processing_outcome.splits option.splits)
  then have same: "rd_by_tenant (fold apply_lineage_op others d) = rd_by_tenant d" by (rule fold_other_tenants)
  have ops: "write_ops d events = others @ ?tenants" by (simp add: write_ops_def others_def)
  have "map_of (rd_by_tenant (fold apply_lineage_op (write_ops d events) d)) t =
      (case map_of (group_events re_tenant_id re_row_id events) t of None \<Rightarrow> map_of (rd_by_tenant d) t | Some rows \<Rightarrow> Some (get_tenant_row_ids t d @ rows))"
    using tenant_ops_lookup [OF group_events_wf [unfolded hm_wf_def], of d re_tenant_id re_row_id events "fold apply_lineage_op others d" t]
    unfolding ops fold_append comp_apply by (simp only: same)
  then show ?thesis by (auto simp: get_tenant_row_ids_def group_events_lookup Let_def split: option.splits if_splits)
qed

text \<open>What the erasure relies on: an event is stored at the key of its row, and its row is in the index of its tenant.\<close>

definition tenants_indexed :: "('t, 'q) row_db \<Rightarrow> bool" where
  "tenants_indexed d \<longleftrightarrow> hm_wf (rd_by_row d) \<and>
     (\<forall>k e. e \<in> set (row_events k d) \<longrightarrow> to_key (re_row_id e) = k \<and> re_row_id e \<in> set (get_tenant_row_ids (re_tenant_id e) d))"

definition plain :: "('t, 'q) row_event \<Rightarrow> bool" where
  "plain e \<longleftrightarrow> re_output_row_id e = None"

lemma apply_wf: "hm_wf (rd_by_row d) \<Longrightarrow> hm_wf (rd_by_row (apply_lineage_op op d))"
  by (cases op) (simp_all add: hm_wf_def distinct_update distinct_delete)

lemma fold_apply_wf: "hm_wf (rd_by_row d) \<Longrightarrow> hm_wf (rd_by_row (fold apply_lineage_op ops d))"
  by (induction ops arbitrary: d) (simp_all add: apply_wf)

lemma latest_mem: "e \<in> set (latest_event k events) \<Longrightarrow> e \<in> set events \<and> concerns k e"
  using last_in_set [of "filter (concerns k) events"] by (auto simp: latest_event_def Let_def split: if_splits)

lemma write_row_events: "row_events k (fold apply_lineage_op (write_ops d events) d) = row_events k d @ latest_event k events"
  using write_ops_rows [of d events k] by (auto simp: row_events_def split: if_splits)

lemma write_events_indexed:
  assumes "tenants_indexed d" "\<forall>e \<in> set events. plain e" "write_events_internal err events d = (d', r)"
  shows "tenants_indexed d'"
proof (cases "events = [] \<or> err \<noteq> None")
  case True
  then show ?thesis using assms by (auto simp: write_events_internal_def write_batch_def split: option.splits if_splits)
next
  case False
  then have d': "d' = fold apply_lineage_op (write_ops d events) d" using assms(3) by (auto simp: write_events_internal_def write_batch_def)
  have "to_key (re_row_id e) = k \<and> re_row_id e \<in> set (get_tenant_row_ids (re_tenant_id e) d')" if e: "e \<in> set (row_events k d')" for k e
  proof (cases "e \<in> set (row_events k d)")
    case True
    then show ?thesis using assms(1) unfolding d' tenants_indexed_def write_ops_tenants by auto
  next
    case False
    with e have "e \<in> set (latest_event k events)" unfolding d' write_row_events by simp
    from latest_mem [OF this] show ?thesis
      using assms(2) unfolding d' write_ops_tenants by (auto simp: concerns_def plain_def)
  qed
  then show ?thesis using assms(1) fold_apply_wf [of d] unfolding tenants_indexed_def d' by blast
qed

subsection \<open>Erasing a user\<close>

lemma note_removed_one:
  assumes "map_of (fold (\<lambda>e. hm_entry (re_tenant_id e) [] (List.insert r)) removed m) t = Some row_ids" "x \<in> set row_ids"
  shows "x = r \<or> (\<exists>row_ids'. map_of m t = Some row_ids' \<and> x \<in> set row_ids')"
  using assms
proof (induction removed arbitrary: m)
  case (Cons e removed)
  from Cons.IH [of "hm_entry (re_tenant_id e) [] (List.insert r) m"] Cons.prems show ?case
    by (auto simp: hm_entry_lookup split: if_splits option.splits)
qed auto

definition fully_removed :: "string \<Rightarrow> ('t, 'q) row_event list \<Rightarrow> bool" where
  "fully_removed u evs \<longleftrightarrow> user_kept u evs = None"

lemma note_removed_rows:
  assumes "map_of (fold (note_removed u) entries m) t = Some row_ids" "x \<in> set row_ids"
  shows "(\<exists>key evs. (key, evs) \<in> set entries \<and> fully_removed u evs \<and> x \<in> re_row_id ` set evs) \<or> (\<exists>row_ids'. map_of m t = Some row_ids' \<and> x \<in> set row_ids')"
  using assms
proof (induction entries arbitrary: m)
  case (Cons y entries)
  obtain key evs where y: "y = (key, evs)" by force
  have "fold (note_removed u) entries (note_removed u y m) = fold (note_removed u) (y # entries) m" by simp
  with Cons.IH [of "note_removed u y m"] Cons.prems consider
    key' evs' where "(key', evs') \<in> set entries" "fully_removed u evs'" "x \<in> re_row_id ` set evs'"
    | row_ids' where "map_of (note_removed u y m) t = Some row_ids'" "x \<in> set row_ids'" by (metis (no_types, lifting))
  then show ?case
  proof cases
    case 1
    then show ?thesis by (meson list.set_intros(2))
  next
    case 2
    let ?removed = "filter (of_user u) evs"
    show ?thesis
    proof (cases "fully_removed u evs")
      case True
      then have ne: "?removed \<noteq> []" "filter (\<lambda>e. \<not> of_user u e) evs = []" by (auto simp: fully_removed_def user_kept_def split: if_splits)
      then have "hd ?removed \<in> set evs" using hd_in_set [of ?removed] by auto
      moreover have "x = re_row_id (hd ?removed) \<or> (\<exists>row_ids'. map_of m t = Some row_ids' \<and> x \<in> set row_ids')"
        using 2 ne y by (intro note_removed_one [of _ _ m t row_ids']) (simp_all add: note_removed_def Let_def)
      ultimately show ?thesis using True y by (meson imageI list.set_intros(1))
    next
      case False
      then have "note_removed u y m = m" using y by (auto simp: note_removed_def fully_removed_def user_kept_def Let_def split: if_splits)
      then show ?thesis using 2 by auto
    qed
  qed
qed auto

lemma cleanup_one:
  "map_of (rd_by_tenant (fold apply_lineage_op (tenant_cleanup_ops d0 (t', row_ids)) d)) t =
     (if t \<noteq> t' then map_of (rd_by_tenant d) t
      else case map_of (rd_by_tenant d0) t of
        None \<Rightarrow> map_of (rd_by_tenant d) t
      | Some rows \<Rightarrow> let left = filter (\<lambda>r. r \<notin> set row_ids) rows in if left = [] then None else Some left)"
  by (cases "map_of (rd_by_tenant d0) t'") (auto simp: tenant_cleanup_ops_def Let_def hm_get_update hm_get_delete)

lemma cleanup_others:
  "t \<notin> fst ` set noted \<Longrightarrow> map_of (rd_by_tenant (fold apply_lineage_op (concat (map (tenant_cleanup_ops d0) noted)) d)) t = map_of (rd_by_tenant d) t"
proof (induction noted arbitrary: d)
  case (Cons x noted)
  then show ?case using cleanup_one [of d0 "fst x" "snd x" d t] by simp
qed simp

lemma cleanup_lookup:
  assumes "distinct (map fst noted)" "map_of (rd_by_tenant d) t = map_of (rd_by_tenant d0) t"
  shows "set (get_tenant_row_ids t (fold apply_lineage_op (concat (map (tenant_cleanup_ops d0) noted)) d)) =
     set (get_tenant_row_ids t d0) - (case map_of noted t of None \<Rightarrow> {} | Some row_ids \<Rightarrow> set row_ids)"
  using assms
proof (induction noted arbitrary: d)
  case Nil
  then show ?case by (simp add: get_tenant_row_ids_def)
next
  case (Cons x noted)
  obtain t' row_ids where x: "x = (t', row_ids)" by force
  let ?d = "fold apply_lineage_op (tenant_cleanup_ops d0 (t', row_ids)) d"
  show ?case
  proof (cases "t' = t")
    case True
    have "map_of (rd_by_tenant (fold apply_lineage_op (concat (map (tenant_cleanup_ops d0) noted)) ?d)) t = map_of (rd_by_tenant ?d) t"
      using Cons.prems(1) x True by (intro cleanup_others) simp
    then show ?thesis using cleanup_one [of d0 t' row_ids d t] Cons.prems(2) x True
      by (auto simp: get_tenant_row_ids_def Let_def filter_empty_conv split: option.splits if_splits)
  next
    case False
    then have "map_of (rd_by_tenant ?d) t = map_of (rd_by_tenant d0) t" using Cons.prems(2) cleanup_one [of d0 t' row_ids d t] by simp
    from Cons.IH [OF _ this] show ?thesis using Cons.prems(1) x False by simp
  qed
qed

lemma note_removed_wf: "hm_wf m \<Longrightarrow> hm_wf (fold (note_removed u) entries m)"
proof (induction entries arbitrary: m)
  case (Cons y entries)
  have "hm_wf (fold (\<lambda>e. hm_entry (re_tenant_id e) [] (List.insert r)) removed m)" for r and removed :: "('a, 'b) row_event list"
    using Cons.prems by (induction removed arbitrary: m) (simp_all add: hm_entry_wf)
  then have "hm_wf (note_removed u y m)" using Cons.prems by (auto simp: note_removed_def Let_def split: prod.split)
  then show ?case using Cons.IH by simp
qed simp

lemma erase_user_indexed:
  assumes inv: "tenants_indexed d" and er: "erase_user_records None u d = (d', r)"
  shows "tenants_indexed d'"
proof -
  have wf: "hm_wf (rd_by_row d)" using inv by (simp add: tenants_indexed_def)
  let ?noted = "fold (note_removed u) (rd_by_row d) []" and ?ops = "concat (map (user_row_ops u) (rd_by_row d))"
  have d': "d' = fold apply_lineage_op (concat (map (tenant_cleanup_ops d) ?noted)) (fold apply_lineage_op ?ops d)"
    using er by (auto simp: erase_user_records_def write_batch_def Let_def)
  have same: "rd_by_tenant (fold apply_lineage_op ?ops d) = rd_by_tenant d" by (rule fold_other_tenants) (auto dest: user_row_ops_no_tenants)
  have "distinct (map fst ?noted)" using note_removed_wf [of "[]" u "rd_by_row d"] by (simp add: hm_wf_def)
  then have tenants: "set (get_tenant_row_ids t d') = set (get_tenant_row_ids t d) - (case map_of ?noted t of None \<Rightarrow> {} | Some row_ids \<Rightarrow> set row_ids)" for t
    unfolding d' by (rule cleanup_lookup) (simp add: same)
  have "to_key (re_row_id e) = k \<and> re_row_id e \<in> set (get_tenant_row_ids (re_tenant_id e) d')" if e: "e \<in> set (row_events k d')" for k e
  proof -
    have old: "e \<in> set (row_events k d)" "\<not> of_user u e" using e unfolding erase_user_events [OF wf er] by auto
    then have k: "to_key (re_row_id e) = k" "re_row_id e \<in> set (get_tenant_row_ids (re_tenant_id e) d)" using inv by (auto simp: tenants_indexed_def)
    have "re_row_id e \<notin> set row_ids" if noted: "map_of ?noted (re_tenant_id e) = Some row_ids" for row_ids
    proof
      assume "re_row_id e \<in> set row_ids"
      from note_removed_rows [OF noted this] obtain key evs where row: "(key, evs) \<in> set (rd_by_row d)" "fully_removed u evs" "re_row_id e \<in> re_row_id ` set evs"
        by auto
      then have at: "row_events key d = evs" using wf by (simp add: row_events_def hm_wf_def)
      then have "to_key (re_row_id e) = key" using row(3) inv by (auto simp: tenants_indexed_def)
      then show False using old k at row(2) by (auto simp: fully_removed_def user_kept_def filter_empty_conv split: if_splits)
    qed
    then show ?thesis using k unfolding tenants by (auto split: option.split)
  qed
  moreover have "hm_wf (rd_by_row d')" unfolding d' by (intro fold_apply_wf wf)
  ultimately show ?thesis by (auto simp: tenants_indexed_def)
qed

subsection \<open>Erasing a tenant\<close>

lemma tenant_delete_rows:
  "map_of (rd_by_row (fold apply_lineage_op (tenant_delete_ops tenant rows) d)) k =
     (if k \<in> to_key ` set rows then None else map_of (rd_by_row d) k)"
  unfolding tenant_delete_ops_def by (induction rows arbitrary: d) (auto simp: hm_get_delete)

lemma tenant_delete_index:
  "map_of (rd_by_tenant (fold apply_lineage_op (tenant_delete_ops tenant rows) d)) t = (if t = tenant then None else map_of (rd_by_tenant d) t)"
  unfolding tenant_delete_ops_def by (induction rows arbitrary: d) (auto simp: hm_get_delete)

lemma tenant_delete_events:
  "row_events k (fold apply_lineage_op (tenant_delete_ops tenant rows) d) = (if k \<in> to_key ` set rows then [] else row_events k d)"
  by (simp add: row_events_def tenant_delete_rows)

lemma tenant_delete_complete:
  assumes "tenants_indexed d" "e \<in> set (row_events k (fold apply_lineage_op (tenant_delete_ops tenant (get_tenant_row_ids tenant d)) d))"
  shows "re_tenant_id e \<noteq> tenant"
  using assms by (auto simp: tenant_delete_events tenants_indexed_def split: if_splits)

lemma tenant_delete_indexed:
  assumes "tenants_indexed d"
  shows "tenants_indexed (fold apply_lineage_op (tenant_delete_ops tenant (get_tenant_row_ids tenant d)) d)" (is "tenants_indexed ?d")
proof -
  have "to_key (re_row_id e) = k \<and> re_row_id e \<in> set (get_tenant_row_ids (re_tenant_id e) ?d)" if e: "e \<in> set (row_events k ?d)" for k e
  proof -
    have "re_tenant_id e \<noteq> tenant" by (rule tenant_delete_complete [OF assms e])
    then have "get_tenant_row_ids (re_tenant_id e) ?d = get_tenant_row_ids (re_tenant_id e) d" by (simp add: get_tenant_row_ids_def tenant_delete_index)
    moreover have "e \<in> set (row_events k d)" using e by (simp add: tenant_delete_events split: if_splits)
    ultimately show ?thesis using assms by (auto simp: tenants_indexed_def)
  qed
  then show ?thesis using assms fold_apply_wf [of d] by (auto simp: tenants_indexed_def)
qed

subsection \<open>Runs of the store\<close>

datatype ('t, 'q) row_command =
    RWriteRow "string option" "('t, 'q) row_event"
  | RFlush "string option"
  | RWriteBatch "string option" "string option" "('t, 'q) row_event list"
  | RErase "string option" string int erasure_request

fun row_exec :: "('t, 'q) row_command \<Rightarrow> ('t, 'q) row_store \<Rightarrow> ('t, 'q) row_store" where
  "row_exec (RWriteRow err ev) s = fst (write_row err ev s)"
| "row_exec (RFlush err) s = fst (flush_buffer err s)"
| "row_exec (RWriteBatch flush_err err events) s = fst (write_rows_batch flush_err err events s)"
| "row_exec (RErase err audit now request) s = fst (row_erase_data_subject err audit now request s)"

fun plain_command :: "('t, 'q) row_command \<Rightarrow> bool" where
  "plain_command (RWriteRow _ ev) \<longleftrightarrow> plain ev"
| "plain_command (RWriteBatch _ _ events) \<longleftrightarrow> list_all plain events"
| "plain_command _ \<longleftrightarrow> True"

definition store_indexed :: "('t, 'q) row_store \<Rightarrow> bool" where
  "store_indexed s \<longleftrightarrow> tenants_indexed (rs_db s) \<and> list_all plain (rs_buffer s)"

lemma persist_indexed:
  assumes "store_indexed s" "list_all plain events"
  shows "store_indexed (fst (persist_events err events s))"
  using assms write_events_indexed [of "rs_db s" events err]
  by (auto simp: persist_events_def store_indexed_def list_all_iff split: prod.splits)

lemma flush_indexed: "store_indexed s \<Longrightarrow> store_indexed (fst (flush_buffer err s))"
  by (auto simp: flush_buffer_def intro!: persist_indexed) (auto simp: store_indexed_def)

lemma erase_user_failed: "erase_user_records (Some e) u d = (d, Inl e)"
  by (simp add: erase_user_records_def write_batch_def Let_def)

lemma erase_indexed:
  assumes "store_indexed s"
  shows "store_indexed (fst (row_erase_data_subject err audit now request s))"
proof -
  have "tenants_indexed (fst (erase_user_records err u (rs_db s)))" for u
    using assms erase_user_indexed [of "rs_db s" u] erase_user_failed [of _ u "rs_db s"]
    by (cases err; cases "erase_user_records None u (rs_db s)") (auto simp: store_indexed_def)
  then have "store_indexed (fst (erase_user_subject err audit now request s))"
    using assms by (auto simp: erase_user_subject_def store_indexed_def Let_def split: prod.splits sum.splits) (metis fst_conv)+
  moreover have "store_indexed (fst (erase_tenant_subject err audit now request s))"
    using assms tenant_delete_indexed [of "rs_db s" "ds_id (er_data_subject request)"]
    by (auto simp: erase_tenant_subject_def store_indexed_def Let_def split: option.split)
  ultimately show ?thesis using assms by (simp add: row_erase_data_subject_def Let_def)
qed

lemma row_exec_indexed:
  assumes "store_indexed s" "plain_command c"
  shows "store_indexed (row_exec c s)"
proof (cases c)
  case (RWriteRow err ev)
  then show ?thesis using assms persist_indexed [of "s\<lparr>rs_buffer := []\<rparr>" "rs_buffer s @ [ev]" err]
    by (auto simp: write_row_def store_indexed_def Let_def)
next
  case (RFlush err)
  then show ?thesis using assms flush_indexed by simp
next
  case (RWriteBatch flush_err err events)
  obtain s1 r where f: "flush_buffer flush_err s = (s1, r)" by force
  have "store_indexed s1" using flush_indexed [OF assms(1), of flush_err] f by simp
  then show ?thesis using RWriteBatch assms persist_indexed [of s1 events err] f by (auto simp: write_rows_batch_def split: sum.split)
next
  case (RErase err audit now request)
  then show ?thesis using erase_indexed [OF assms(1)] by simp
qed

lemma row_run_indexed: "list_all plain_command cs \<Longrightarrow> store_indexed s \<Longrightarrow> store_indexed (fold row_exec cs s)"
  by (induction cs arbitrary: s) (simp_all add: row_exec_indexed)

lemma new_store_indexed: "store_indexed row_store_new"
  by (simp add: store_indexed_def row_store_new_def row_db_empty_def tenants_indexed_def row_events_def hm_wf_def)

lemma write_events_wf: "hm_wf (rd_by_row d) \<Longrightarrow> hm_wf (rd_by_row (fst (write_events_internal err events d)))"
  by (auto simp: write_events_internal_def write_batch_def fold_apply_wf split: option.split)

lemma persist_wf: "hm_wf (rd_by_row (rs_db s)) \<Longrightarrow> hm_wf (rd_by_row (rs_db (fst (persist_events err events s))))"
  using write_events_wf [of "rs_db s" err events] by (auto simp: persist_events_def split: prod.split)

lemma flush_wf: "hm_wf (rd_by_row (rs_db s)) \<Longrightarrow> hm_wf (rd_by_row (rs_db (fst (flush_buffer err s))))"
  by (auto simp: flush_buffer_def intro: persist_wf)

lemma erase_user_wf: "hm_wf (rd_by_row d) \<Longrightarrow> hm_wf (rd_by_row (fst (erase_user_records err u d)))"
  by (auto simp: erase_user_records_def write_batch_def Let_def fold_apply_wf split: option.split)

lemma erase_wf: "hm_wf (rd_by_row (rs_db s)) \<Longrightarrow> hm_wf (rd_by_row (rs_db (fst (row_erase_data_subject err audit now request s))))"
  using erase_user_wf [of "rs_db s" err "ds_id (er_data_subject request)"]
  by (auto simp: row_erase_data_subject_def erase_user_subject_def erase_tenant_subject_def Let_def fold_apply_wf split: prod.splits sum.splits option.splits)

lemma row_exec_wf: "hm_wf (rd_by_row (rs_db s)) \<Longrightarrow> hm_wf (rd_by_row (rs_db (row_exec c s)))"
proof (cases c)
  case (RWriteBatch flush_err err events)
  assume wf: "hm_wf (rd_by_row (rs_db s))"
  obtain s1 r where f: "flush_buffer flush_err s = (s1, r)" by force
  have "hm_wf (rd_by_row (rs_db s1))" using flush_wf [OF wf, of flush_err] f by simp
  then show ?thesis using RWriteBatch wf f persist_wf [of s1] by (auto simp: write_rows_batch_def split: sum.split)
qed (auto simp: write_row_def Let_def intro: persist_wf flush_wf erase_wf)

lemma row_run_wf: "hm_wf (rd_by_row (rs_db s)) \<Longrightarrow> hm_wf (rd_by_row (rs_db (fold row_exec cs s)))"
  by (induction cs arbitrary: s) (simp_all add: row_exec_wf)

section \<open>Properties\<close>

lemma no_user_records:
  assumes "hm_wf (rd_by_row d)" "\<And>k e. e \<in> set (row_events k d) \<Longrightarrow> \<not> of_user u e"
  shows "count_user_records u d = 0"
proof -
  have "filter (of_user u) evs = []" if "(k, evs) \<in> set (rd_by_row d)" for k evs
    using that assms by (auto simp: filter_empty_conv row_events_def hm_wf_def)
  then have "map (\<lambda>(_, evs). of_nat (length (filter (of_user u) evs)) :: u64) (rd_by_row d) = map (\<lambda>_. 0) (rd_by_row d)" by auto
  then show ?thesis unfolding count_user_records_def by (simp only: sum_list_triv) simp
qed

text \<open>
  C36. A user is erased exactly. After any run of the store, with failures at any point, the erasure of a user that meets no failure removes from each row exactly the events
  with the user as correlation or as tenant, and keeps the order of the others. No such event is counted any more; and the
  report says that the erasure succeeded, with the number of events that were counted before.
\<close>

theorem user_erased_exactly:
  assumes "s = fold row_exec cs row_store_new" "er_data_subject request = ds_user u" "\<not> er_dry_run request"
    and "row_erase_data_subject None audit now request s = (s', res)"
  shows "get_row_lineage row s' = filter (\<lambda>e. \<not> of_user u e) (get_row_lineage row s) \<and> count_user_records u (rs_db s') = 0 \<and>
    (\<exists>report. res = Inr report \<and> el_success report \<and> el_total_records_erased report = count_user_records u (rs_db s))"
proof -
  have "hm_wf (rd_by_row (rs_db (row_store_new :: ('a, 'b) row_store)))" by (simp add: row_store_new_def row_db_empty_def hm_wf_def)
  then have wf: "hm_wf (rd_by_row (rs_db s))" unfolding assms(1) by (rule row_run_wf)
  obtain d r where e: "erase_user_records None u (rs_db s) = (d, r)" by force
  have s': "s' = s\<lparr>rs_db := d\<rparr>" "\<exists>report. res = Inr report \<and> el_success report \<and> el_total_records_erased report = count_user_records u (rs_db s)"
    using assms(2-4) e erase_user_rows(2) [OF wf e]
    by (auto simp: row_erase_data_subject_def ds_user_def erase_user_subject_def Let_def row_result_def finalize_result_def add_backend_result_def
        erasure_result_new_def with_detail_def backend_success_def)
  have events: "row_events k d = filter (\<lambda>e. \<not> of_user u e) (row_events k (rs_db s))" for k by (rule erase_user_events [OF wf e])
  have "hm_wf (rd_by_row d)" using erase_user_wf [OF wf, of None u] e by simp
  from no_user_records [OF this, of u] have "count_user_records u d = 0" unfolding events by simp
  then show ?thesis using s' events by (simp add: get_row_lineage_events)
qed

text \<open>
  C37. A tenant is erased completely, where rows have no outputs. After any run of the store on events without output rows, users and tenants having been erased and failures having
  happened in between, the erasure of a tenant that meets no failure leaves no event of the tenant at any key of the database, and none is counted any more.
\<close>

theorem tenant_erased_completely:
  assumes "list_all plain_command cs" "s = fold row_exec cs row_store_new" "er_data_subject request = ds_tenant tenant" "\<not> er_dry_run request"
    and "row_erase_data_subject None audit now request s = (s', res)"
  shows "is_ok res \<and> count_tenant_records tenant (rs_db s') = 0 \<and> (\<forall>k e. e \<in> set (row_events k (rs_db s')) \<longrightarrow> re_tenant_id e \<noteq> tenant)"
proof -
  have "store_indexed s" unfolding assms(2) by (rule row_run_indexed [OF assms(1) new_store_indexed])
  then have inv: "tenants_indexed (rs_db s)" by (simp add: store_indexed_def)
  let ?rows = "get_tenant_row_ids tenant (rs_db s)"
  have s': "rs_db s' = (if ?rows = [] then rs_db s else fold apply_lineage_op (tenant_delete_ops tenant ?rows) (rs_db s))" "is_ok res"
    using assms(3-5) by (auto simp: row_erase_data_subject_def ds_tenant_def erase_tenant_subject_def Let_def split: if_splits)
  show ?thesis
  proof (cases "?rows = []")
    case True
    then show ?thesis using s' inv by (auto simp: tenants_indexed_def count_tenant_records_def) (metis empty_iff list.set(1))
  next
    case False
    have "get_tenant_row_ids tenant (rs_db s') = []" using s' False by (simp add: get_tenant_row_ids_def tenant_delete_index)
    then show ?thesis using s' False tenant_delete_complete [OF inv] by (auto simp: count_tenant_records_def)
  qed
qed

section \<open>What the erasure misses\<close>

text \<open>The strategy of a request is ignored: every erasure deletes. Events in the buffer are not erased.\<close>

lemma strategy_ignored:
  "fst (row_erase_data_subject err audit now (request\<lparr>er_strategy := x\<rparr>) s) = fst (row_erase_data_subject err audit now request s)"
  by (simp add: row_erase_data_subject_def erase_user_subject_def erase_tenant_subject_def Let_def split: prod.split sum.split option.split)

lemma buffer_not_erased: "rs_buffer (fst (row_erase_data_subject err audit now request s)) = rs_buffer s"
  by (simp add: row_erase_data_subject_def erase_user_subject_def erase_tenant_subject_def Let_def split: prod.split sum.split option.split)

definition demo_csv_row :: "string \<Rightarrow> row_id" where
  "demo_csv_row f = row_csv f 1"

definition demo_event :: "string \<Rightarrow> string \<Rightarrow> string option \<Rightarrow> (unit, unit) row_event" where
  "demo_event row user out = \<lparr>re_row_id = demo_csv_row row, re_batch_id = ''b'', re_job_id = ''j'', re_step_id = None, re_timestamp = 5,
     re_outcome = ProcessedTo ''out'', re_transformations = [], re_output_row_id = map_option demo_csv_row out, re_tenant_id = ''t'', re_correlation_id = Some user\<rparr>"

definition demo_erasure :: "data_subject_id \<Rightarrow> erasure_request" where
  "demo_erasure subject = erasure_request_new ''r'' 0 subject ''admin''"

definition demo_stored :: "(unit, unit) row_event list list \<Rightarrow> (unit, unit) row_store" where
  "demo_stored batches = fold row_exec (map (RWriteBatch None None) batches) row_store_new"

text \<open>Two events of a row in one call: only the last one is stored.\<close>

lemma same_row_lost:
  "get_row_lineage (demo_csv_row ''a'') (demo_stored [[demo_event ''a'' ''u'' None, demo_event ''a'' ''v'' None]]) = [demo_event ''a'' ''v'' None]"
  by code_simp

text \<open>The index of a batch has the rows of the last call alone.\<close>

lemma batch_index_overwritten:
  "get_batch_lineage ''b'' (demo_stored [[demo_event ''a'' ''u'' None], [demo_event ''c'' ''u'' None]]) = [demo_event ''c'' ''u'' None]"
  by code_simp

text \<open>An event is also stored at the key of its output row, which the erasure of a tenant does not know.\<close>

lemma output_row_survives:
  "get_row_lineage (demo_csv_row ''o'') (fst (row_erase_data_subject None ''x'' 0 (demo_erasure (ds_tenant ''t''))
     (demo_stored [[demo_event ''a'' ''u'' (Some ''o'')]]))) = [demo_event ''a'' ''u'' (Some ''o'')]"
  by code_simp

text \<open>
  The erasure of a user takes the source row of an output row out of the index, although the source row still has events of others: the
  erasure of the tenant then finds nothing.
\<close>

lemma erased_user_hides_tenant:
  "get_row_lineage (demo_csv_row ''a'') (fold row_exec [RErase None ''x'' 0 (demo_erasure (ds_user ''u'')), RErase None ''y'' 0 (demo_erasure (ds_tenant ''t''))]
     (demo_stored [[demo_event ''a'' ''u'' (Some ''o'')], [demo_event ''a'' ''v'' None]])) = [demo_event ''a'' ''v'' None]"
  by code_simp

section \<open>Witnesses\<close>

definition demo_cleared :: "data_subject_id \<Rightarrow> (unit, unit) row_store" where
  "demo_cleared subject = fst (row_erase_data_subject None ''x'' 0 (demo_erasure subject)
     (fold row_exec [RWriteBatch None None [demo_event ''a'' ''u'' None, demo_event ''c'' ''v'' None]] row_store_new))"

theorem user_erased_exactly_witness:
  "get_row_lineage (demo_csv_row ''a'') (demo_cleared (ds_user ''u'')) = [] \<and> count_user_records ''u'' (rs_db (demo_cleared (ds_user ''u''))) = 0"
proof -
  let ?cs = "[RWriteBatch None None [demo_event ''a'' ''u'' None, demo_event ''c'' ''v'' None]]"
  have "er_data_subject (demo_erasure (ds_user ''u'')) = ds_user ''u''" "\<not> er_dry_run (demo_erasure (ds_user ''u''))"
    by (simp_all add: demo_erasure_def erasure_request_new_def)
  note erased = user_erased_exactly [where cs = ?cs and audit = "''x''" and now = 0 and row = "demo_csv_row ''a''", OF refl this prod.collapse [symmetric],
      folded demo_cleared_def]
  have "filter (\<lambda>e. \<not> of_user ''u'' e) (get_row_lineage (demo_csv_row ''a'') (fold row_exec ?cs row_store_new)) = []" by code_simp
  then show ?thesis using erased by simp
qed

theorem tenant_erased_completely_witness:
  "count_tenant_records ''t'' (rs_db (demo_cleared (ds_tenant ''t''))) = 0"
proof -
  let ?cs = "[RWriteBatch None None [demo_event ''a'' ''u'' None, demo_event ''c'' ''v'' None]]"
  have "list_all plain_command ?cs" by (simp add: plain_def demo_event_def)
  moreover have "er_data_subject (demo_erasure (ds_tenant ''t'')) = ds_tenant ''t''" "\<not> er_dry_run (demo_erasure (ds_tenant ''t''))"
    by (simp_all add: demo_erasure_def erasure_request_new_def)
  ultimately show ?thesis
    using tenant_erased_completely [where cs = ?cs and audit = "''x''" and now = 0 and request = "demo_erasure (ds_tenant ''t'')", OF _ refl _ _ prod.collapse [symmetric], folded demo_cleared_def] by blast
qed

end
