(* ===== verification/RowQueries.thy ===== *)
theory RowQueries
  imports RowStore
begin

text \<open>
  Model of the remaining queries of \<^verbatim>\<open>arcxa-coordinator/src/storage/row_lineage_store.rs\<close>: the rows that a job filtered out, the journey of a row and
  the search for rows, and of the constructors of events of \<^verbatim>\<open>row_level.rs\<close>. RocksDB iterates over a column family in the order of the keys, which the model
  gets by sorting the entries. Keys are ASCII; logging is not modelled.
\<close>

section \<open>Events\<close>

definition success_with_step ::
  "int \<Rightarrow> row_id \<Rightarrow> string \<Rightarrow> string \<Rightarrow> string option \<Rightarrow> string \<Rightarrow> string \<Rightarrow> ('t, 'q) row_event" where
  "success_with_step now row batch job step output_location tenant =
     \<lparr>re_row_id = row, re_batch_id = batch, re_job_id = job, re_step_id = step, re_timestamp = now, re_outcome = ProcessedTo output_location,
      re_transformations = [], re_output_row_id = None, re_tenant_id = tenant, re_correlation_id = None\<rparr>"

definition row_success :: "int \<Rightarrow> row_id \<Rightarrow> string \<Rightarrow> string \<Rightarrow> string \<Rightarrow> string \<Rightarrow> ('t, 'q) row_event" where
  "row_success now row batch job output_location tenant = success_with_step now row batch job None output_location tenant"

definition filtered_with_step ::
  "int \<Rightarrow> row_id \<Rightarrow> string \<Rightarrow> string \<Rightarrow> string option \<Rightarrow> string \<Rightarrow> string \<Rightarrow> string \<Rightarrow> ('t, 'q) row_event" where
  "filtered_with_step now row batch job step reason rule tenant =
     \<lparr>re_row_id = row, re_batch_id = batch, re_job_id = job, re_step_id = step, re_timestamp = now, re_outcome = FilteredOut reason rule,
      re_transformations = [], re_output_row_id = None, re_tenant_id = tenant, re_correlation_id = None\<rparr>"

definition row_filtered :: "int \<Rightarrow> row_id \<Rightarrow> string \<Rightarrow> string \<Rightarrow> string \<Rightarrow> string \<Rightarrow> string \<Rightarrow> ('t, 'q) row_event" where
  "row_filtered now row batch job reason rule tenant = filtered_with_step now row batch job None reason rule tenant"

definition add_transformation :: "'t \<Rightarrow> ('t, 'q) row_event \<Rightarrow> ('t, 'q) row_event" where
  "add_transformation t ev = ev\<lparr>re_transformations := re_transformations ev @ [t]\<rparr>"

definition is_success :: "('t, 'q) row_event \<Rightarrow> bool" where
  "is_success ev \<longleftrightarrow> (case re_outcome ev of ProcessedTo _ \<Rightarrow> True | _ \<Rightarrow> False)"

definition is_filtered :: "('t, 'q) row_event \<Rightarrow> bool" where
  "is_filtered ev \<longleftrightarrow> (case re_outcome ev of FilteredOut _ _ \<Rightarrow> True | _ \<Rightarrow> False)"

section \<open>Filtered rows\<close>

definition by_key :: "(string, 'v) hmap \<Rightarrow> (string \<times> 'v) list" where
  "by_key m = sort_key fst m"

definition filtered_key :: "string \<Rightarrow> int \<Rightarrow> string" where
  "filtered_key job t = job @ '':'' @ show_int (t div 1000)"

definition get_filtered_rows :: "string \<Rightarrow> int \<Rightarrow> int \<Rightarrow> ('t, 'q) row_store \<Rightarrow> (row_id \<times> string) list" where
  "get_filtered_rows job start_time end_time s =
     map snd (takeWhile (\<lambda>(k, _). starts_with (job @ '':'') k \<and> \<not> k > filtered_key job end_time)
       (dropWhile (\<lambda>(k, _). k < filtered_key job start_time) (by_key (rd_filtered (rs_db s)))))"

section \<open>Journeys\<close>

record 'q journey_step =
  jn_activity :: string
  jn_timestamp :: int
  jn_duration_ms :: u64
  jn_outcome :: "'q processing_outcome"

record 'q row_journey =
  rj_source :: row_id
  rj_steps :: "'q journey_step list"
  rj_destination :: "row_id option"
  rj_total_duration_ms :: u64

text \<open>A negative difference of times wraps around in the cast to \<^verbatim>\<open>u64\<close>.\<close>

fun journey_steps :: "int \<Rightarrow> ('t, 'q) row_event list \<Rightarrow> 'q journey_step list \<times> int" where
  "journey_steps last_time [] = ([], last_time)"
| "journey_steps last_time (ev # evs) =
     (case journey_steps (re_timestamp ev) evs of
        (steps, t) \<Rightarrow>
          (\<lparr>jn_activity = re_job_id ev @ '' in '' @ re_batch_id ev, jn_timestamp = re_timestamp ev,
            jn_duration_ms = of_int (re_timestamp ev - last_time), jn_outcome = re_outcome ev\<rparr> # steps, t))"

definition trace_row_journey :: "row_id \<Rightarrow> ('t, 'q) row_store \<Rightarrow> 'q row_journey" where
  "trace_row_journey row s =
     (let events = get_row_lineage row s
      in if events = [] then \<lparr>rj_source = row, rj_steps = [], rj_destination = None, rj_total_duration_ms = 0\<rparr>
         else
           let start_time = re_timestamp (hd events)
           in case journey_steps start_time events of
                (steps, last_time) \<Rightarrow>
                  \<lparr>rj_source = row, rj_steps = steps, rj_destination = re_output_row_id (last events),
                   rj_total_duration_ms = of_int (last_time - start_time)\<rparr>)"

section \<open>Search\<close>

definition to_ascii_lowercase :: "string \<Rightarrow> string" where
  "to_ascii_lowercase = map (\<lambda>c. if 65 \<le> (of_char c :: nat) \<and> (of_char c :: nat) \<le> 90 then char_of ((of_char c :: nat) + 32) else c)"

definition match_rank :: "string \<Rightarrow> string \<Rightarrow> nat option" where
  "match_rank query key =
     (let lower = to_ascii_lowercase key
      in if lower = query then Some 0 else if starts_with query lower then Some 1 else if contains lower query then Some 2 else None)"

record search_state =
  ss_exact :: "row_id list"
  ss_prefix :: "row_id list"
  ss_contains :: "row_id list"
  ss_seen :: "string set"

definition found_count :: "search_state \<Rightarrow> nat" where
  "found_count st = length (ss_exact st) + length (ss_prefix st) + length (ss_contains st)"

definition add_match :: "nat \<Rightarrow> row_id \<Rightarrow> search_state \<Rightarrow> search_state" where
  "add_match rank row st =
     (if rank = 0 then st\<lparr>ss_exact := ss_exact st @ [row]\<rparr>
      else if rank = 1 then st\<lparr>ss_prefix := ss_prefix st @ [row]\<rparr>
      else st\<lparr>ss_contains := ss_contains st @ [row]\<rparr>)"

definition search_step :: "string \<Rightarrow> nat \<Rightarrow> string \<Rightarrow> search_state \<Rightarrow> search_state" where
  "search_step query limit key st =
     (case match_rank query key of
        None \<Rightarrow> st
      | Some rank \<Rightarrow>
          let st1 = st\<lparr>ss_seen := insert key (ss_seen st)\<rparr>
          in if key \<notin> ss_seen st \<and> found_count st < limit then
               (case from_key key of Inr row \<Rightarrow> add_match rank row st1 | Inl _ \<Rightarrow> st1)
             else st1)"

definition search_row_keys :: "string \<Rightarrow> nat \<Rightarrow> ('t, 'q) row_store \<Rightarrow> row_id list" where
  "search_row_keys query limit s =
     (let normalized = to_ascii_lowercase (trim query)
      in if normalized = [] \<or> limit = 0 then []
         else
           let st = fold (search_step normalized limit) (map fst (by_key (rd_by_row (rs_db s))))
                 \<lparr>ss_exact = [], ss_prefix = [], ss_contains = [], ss_seen = {}\<rparr>
           in take limit (ss_exact st @ ss_prefix st @ ss_contains st))"

section \<open>Journeys add up\<close>

lemma journey_steps_facts:
  "map jn_timestamp (fst (journey_steps t evs)) = map re_timestamp evs \<and> map jn_outcome (fst (journey_steps t evs)) = map re_outcome evs \<and>
   snd (journey_steps t evs) = last (t # map re_timestamp evs) \<and>
   sum_list (map jn_duration_ms (fst (journey_steps t evs))) = of_int (last (t # map re_timestamp evs) - t)"
  by (induction evs arbitrary: t) (auto simp: case_prod_beta)

text \<open>A journey has a step for each event of the row, in order, and its duration is the sum of those of its steps.\<close>

lemma journey_adds_up:
  "rj_total_duration_ms (trace_row_journey row s) = sum_list (map jn_duration_ms (rj_steps (trace_row_journey row s)))"
  "map jn_outcome (rj_steps (trace_row_journey row s)) = map re_outcome (get_row_lineage row s)"
proof -
  let ?evs = "get_row_lineage row s"
  note f = journey_steps_facts [of "re_timestamp (hd ?evs)" ?evs]
  show "rj_total_duration_ms (trace_row_journey row s) = sum_list (map jn_duration_ms (rj_steps (trace_row_journey row s)))"
    using f by (simp add: trace_row_journey_def Let_def case_prod_beta)
  show "map jn_outcome (rj_steps (trace_row_journey row s)) = map re_outcome ?evs"
    using f by (simp add: trace_row_journey_def Let_def case_prod_beta)
qed

section \<open>What a search finds\<close>

definition search_hits :: "string \<Rightarrow> string list \<Rightarrow> (nat \<times> row_id) list" where
  "search_hits query keys =
     concat (map (\<lambda>k. case (match_rank query k, from_key k) of (Some rank, Inr row) \<Rightarrow> [(rank, row)] | _ \<Rightarrow> []) keys)"

definition ranked :: "nat \<Rightarrow> (nat \<times> row_id) list \<Rightarrow> row_id list" where
  "ranked rank hits = map snd (filter (\<lambda>h. fst h = rank) hits)"

lemma match_rank_cases: "match_rank query key = Some rank \<Longrightarrow> rank = 0 \<or> rank = 1 \<or> rank = 2"
  by (auto simp: match_rank_def Let_def split: if_splits)

lemma add_match_parts:
  "ss_exact (add_match rank row st) = ss_exact st @ (if rank = 0 then [row] else [])"
  "ss_prefix (add_match rank row st) = ss_prefix st @ (if rank = 1 then [row] else [])"
  "ss_contains (add_match rank row st) = ss_contains st @ (if rank \<noteq> 0 \<and> rank \<noteq> 1 then [row] else [])"
  "ss_seen (add_match rank row st) = ss_seen st" "found_count (add_match rank row st) = Suc (found_count st)"
  by (auto simp: add_match_def found_count_def)

lemma search_step_parts:
  assumes "key \<notin> ss_seen st"
  shows "ss_seen (search_step query limit key st) \<subseteq> insert key (ss_seen st)"
    "ss_exact (search_step query limit key st) = ss_exact st @ ranked 0 (take (limit - found_count st) (search_hits query [key]))"
    "ss_prefix (search_step query limit key st) = ss_prefix st @ ranked 1 (take (limit - found_count st) (search_hits query [key]))"
    "ss_contains (search_step query limit key st) = ss_contains st @ ranked 2 (take (limit - found_count st) (search_hits query [key]))"
    "limit - found_count (search_step query limit key st) = limit - found_count st - length (search_hits query [key])"
  using assms match_rank_cases [of query key]
  by (auto simp: search_step_def search_hits_def ranked_def add_match_parts Let_def found_count_def take_Cons' split: option.split sum.split)

lemma ranked_append: "ranked r (xs @ ys) = ranked r xs @ ranked r ys"
  by (simp add: ranked_def)

lemma search_fold:
  assumes "distinct keys" "set keys \<inter> ss_seen st = {}"
  shows "ss_exact (fold (search_step query limit) keys st) = ss_exact st @ ranked 0 (take (limit - found_count st) (search_hits query keys)) \<and>
    ss_prefix (fold (search_step query limit) keys st) = ss_prefix st @ ranked 1 (take (limit - found_count st) (search_hits query keys)) \<and>
    ss_contains (fold (search_step query limit) keys st) = ss_contains st @ ranked 2 (take (limit - found_count st) (search_hits query keys))"
  using assms
proof (induction keys arbitrary: st)
  case Nil
  then show ?case by (simp add: search_hits_def ranked_def)
next
  case (Cons key keys)
  have new: "key \<notin> ss_seen st" using Cons.prems by simp
  note step = search_step_parts [where query = query and limit = limit, OF new]
  have dis: "distinct keys" "set keys \<inter> ss_seen (search_step query limit key st) = {}" using Cons.prems step(1) by auto
  have split: "search_hits query (key # keys) = search_hits query [key] @ search_hits query keys" by (simp add: search_hits_def)
  show ?case using Cons.IH [OF dis] step(2-5) by (simp add: split ranked_append)
qed

lemma ranked_length: "(\<And>h. h \<in> set hits \<Longrightarrow> fst h = 0 \<or> fst h = 1 \<or> fst h = 2) \<Longrightarrow>
  length (ranked 0 hits) + length (ranked 1 hits) + length (ranked 2 hits) = length hits"
proof (induction hits)
  case (Cons h hits)
  have "fst h = 0 \<or> fst h = 1 \<or> fst h = 2" using Cons.prems [of h] by simp
  moreover have "length (ranked 0 hits) + length (ranked 1 hits) + length (ranked 2 hits) = length hits" using Cons.IH Cons.prems by simp
  ultimately show ?case by (elim disjE) (simp_all add: ranked_def)
qed (simp add: ranked_def)

lemma search_hits_rank: "h \<in> set (search_hits query keys) \<Longrightarrow> fst h = 0 \<or> fst h = 1 \<or> fst h = 2"
  using match_rank_cases [of query _ "fst h"]
  by (auto simp: search_hits_def eq_commute [of _ "Some _"] split: option.splits sum.splits)

lemma by_key_distinct: "hm_wf m \<Longrightarrow> distinct (map fst (by_key m))"
  by (simp add: by_key_def hm_wf_def distinct_map inj_on_def)

text \<open>Ranks and matches as plain statements about the texts.\<close>

lemma contains_conv: "contains s sub \<longleftrightarrow> (\<exists>a b. s = a @ sub @ b)"
  unfolding contains_def using find_sub_Some [of sub s] find_sub_first [of _ sub] by fastforce

lemma starts_with_conv: "starts_with p s \<longleftrightarrow> (\<exists>b. s = p @ b)"
  unfolding starts_with_def by (metis append_take_drop_id append_eq_conv_conj)

lemma match_rank_conv:
  "match_rank query key = None \<longleftrightarrow> \<not> (\<exists>a b. to_ascii_lowercase key = a @ query @ b)"
  "match_rank query key = Some 0 \<longleftrightarrow> to_ascii_lowercase key = query"
  "match_rank query key = Some 1 \<longleftrightarrow> to_ascii_lowercase key \<noteq> query \<and> (\<exists>b. to_ascii_lowercase key = query @ b)"
  "match_rank query key = Some 2 \<longleftrightarrow>
     (\<exists>a b. to_ascii_lowercase key = a @ query @ b) \<and> \<not> (\<exists>b. to_ascii_lowercase key = query @ b)"
proof -
  have "\<exists>a b. to_ascii_lowercase key = a @ query @ b" if "to_ascii_lowercase key = query @ c" for c
    using that by (intro exI [of _ "[]"] exI [of _ c]) simp
  moreover have "\<exists>b. to_ascii_lowercase key = query @ b" if "to_ascii_lowercase key = query" using that by auto
  ultimately show
    "match_rank query key = None \<longleftrightarrow> \<not> (\<exists>a b. to_ascii_lowercase key = a @ query @ b)"
    "match_rank query key = Some 0 \<longleftrightarrow> to_ascii_lowercase key = query"
    "match_rank query key = Some 1 \<longleftrightarrow> to_ascii_lowercase key \<noteq> query \<and> (\<exists>b. to_ascii_lowercase key = query @ b)"
    "match_rank query key = Some 2 \<longleftrightarrow>
       (\<exists>a b. to_ascii_lowercase key = a @ query @ b) \<and> \<not> (\<exists>b. to_ascii_lowercase key = query @ b)"
    by (auto simp: match_rank_def Let_def contains_conv starts_with_conv)
qed

definition readable_match :: "string \<Rightarrow> string \<Rightarrow> bool" where
  "readable_match query k \<longleftrightarrow> (\<exists>a b. to_ascii_lowercase k = a @ query @ b) \<and> is_ok (from_key k)"

lemma search_hits_filter:
  "search_hits query keys = map (\<lambda>k. (the (match_rank query k), projr (from_key k))) (filter (readable_match query) keys)"
proof (induction keys)
  case (Cons k keys)
  have "search_hits query (k # keys) = search_hits query [k] @ search_hits query keys" by (simp add: search_hits_def)
  moreover have "readable_match query k \<longleftrightarrow> match_rank query k \<noteq> None \<and> is_ok (from_key k)"
    by (simp add: readable_match_def match_rank_conv(1))
  ultimately show ?case using Cons
    by (cases "match_rank query k"; cases "from_key k") (simp_all add: search_hits_def)
qed (simp add: search_hits_def)

lemma ranked_hits:
  assumes "set ks \<subseteq> {k. readable_match query k}"
  shows "map Inr (ranked r (map (\<lambda>k. (the (match_rank query k), projr (from_key k))) ks)) =
    map from_key (filter (\<lambda>k. match_rank query k = Some r) ks)"
  using assms
proof (induction ks)
  case (Cons k ks)
  then obtain row x where "from_key k = Inr row" "match_rank query k = Some x"
    using match_rank_conv(1) [of query k] by (auto simp: readable_match_def is_ok_conv)
  then show ?case using Cons by (auto simp: ranked_def)
qed (simp add: ranked_def)

section \<open>Properties\<close>

text \<open>
  C38. After any run of the store, a search takes the first matches in the order of the keys, as many as the limit allows, and then orders these by rank. The query is trimmed and put in
  lower case; with a blank query or a limit of zero nothing is returned. A row matches when its key in lower case contains the query and the key can be parsed back into
  a row; a key that cannot (as that of a topic with a colon) is skipped. Of the first matches, the rows whose key is the query come first, those whose key starts with it next, the
  others last, each group in the order of the keys. The result is never longer than the limit.
\<close>

theorem search_ranks_first_matches:
  assumes "s = fold row_exec cs row_store_new" "query = to_ascii_lowercase (trim text0)"
    and "ks = take limit (filter (\<lambda>k. (\<exists>a b. to_ascii_lowercase k = a @ query @ b) \<and> is_ok (from_key k)) (map fst (by_key (rd_by_row (rs_db s)))))"
  shows "(query = [] \<longrightarrow> search_row_keys text0 limit s = []) \<and>
    (query \<noteq> [] \<longrightarrow> map Inr (search_row_keys text0 limit s) = map from_key
       (filter (\<lambda>k. to_ascii_lowercase k = query) ks @
        filter (\<lambda>k. to_ascii_lowercase k \<noteq> query \<and> (\<exists>b. to_ascii_lowercase k = query @ b)) ks @
        filter (\<lambda>k. \<not> (\<exists>b. to_ascii_lowercase k = query @ b)) ks)) \<and>
    length (search_row_keys text0 limit s) \<le> limit"
proof -
  let ?h = "\<lambda>k. (the (match_rank query k), projr (from_key k))"
  define hits where "hits = take limit (search_hits query (map fst (by_key (rd_by_row (rs_db s)))))"
  have ks: "ks = take limit (filter (readable_match query) (map fst (by_key (rd_by_row (rs_db s)))))"
    unfolding assms(3) readable_match_def ..
  have hits: "hits = map ?h ks" by (simp only: hits_def ks search_hits_filter take_map)
  have sub: "set ks \<subseteq> {k. readable_match query k}" unfolding ks by (auto dest: in_set_takeD)
  have "hm_wf (rd_by_row (rs_db s))" unfolding assms(1) by (intro row_run_wf) (simp add: row_store_new_def row_db_empty_def hm_wf_def)
  then have dis: "distinct (map fst (by_key (rd_by_row (rs_db s))))" by (rule by_key_distinct)
  have len: "length (ranked 0 hits) + length (ranked 1 hits) + length (ranked 2 hits) = length hits"
    by (rule ranked_length) (auto simp: hits_def dest!: in_set_takeD search_hits_rank)
  let ?st = "\<lparr>ss_exact = [], ss_prefix = [], ss_contains = [], ss_seen = {}\<rparr>"
  have empty: "ss_seen ?st = {}" "found_count ?st = 0" by (simp_all add: found_count_def)
  note f = search_fold [OF dis, of ?st query limit, simplified empty, simplified]
  have le: "length hits \<le> limit" by (simp add: hits_def)
  have res: "search_row_keys text0 limit s = ranked 0 hits @ ranked 1 hits @ ranked 2 hits" if "query \<noteq> []"
    using f len le that by (cases "limit = 0") (simp_all add: search_row_keys_def Let_def hits_def ranked_def flip: assms(2))
  have rest: "filter (\<lambda>k. match_rank query k = Some 2) ks = filter (\<lambda>k. \<not> (\<exists>b. to_ascii_lowercase k = query @ b)) ks"
    using sub by (intro filter_cong) (auto simp: match_rank_conv(4) readable_match_def)
  have "map Inr (search_row_keys text0 limit s) = map from_key
       (filter (\<lambda>k. to_ascii_lowercase k = query) ks @
        filter (\<lambda>k. to_ascii_lowercase k \<noteq> query \<and> (\<exists>b. to_ascii_lowercase k = query @ b)) ks @
        filter (\<lambda>k. \<not> (\<exists>b. to_ascii_lowercase k = query @ b)) ks)" if "query \<noteq> []"
    unfolding res [OF that] hits map_append ranked_hits [OF sub] match_rank_conv(2,3) rest by (rule refl)
  moreover have "search_row_keys text0 limit s = []" if "query = []"
    using that assms(2) by (simp add: search_row_keys_def)
  moreover have "length (search_row_keys text0 limit s) \<le> limit"
    using res len le calculation(2) by (cases "query = []") simp_all
  ultimately show ?thesis by blast
qed

text \<open>An exact match is dropped when a weaker match with a smaller key fills the limit.\<close>

definition demo_searched :: "(unit, unit) row_store" where
  "demo_searched = demo_stored [[(demo_event ''a'' ''u'' None)\<lparr>re_row_id := row_csv ''kafka:t:p0:o1'' 2\<rparr>], [(demo_event ''a'' ''u'' None)\<lparr>re_row_id := row_kafka ''t'' 0 1\<rparr>]]"

lemma search_misses_exact_match:
  "to_key (row_kafka ''t'' 0 1) = ''kafka:t:p0:o1''" "search_row_keys ''kafka:t:p0:o1'' 1 demo_searched = [row_csv ''kafka:t:p0:o1'' 2]"
  by code_simp+

text \<open>Of the rows that a job filters out within a second, only the last one is kept.\<close>

lemma filtered_rows_of_second_lost:
  "get_filtered_rows ''j'' 0 9000 (demo_stored [[row_filtered 5100 (demo_csv_row ''a'') ''b'' ''j'' ''r'' ''rule'' ''t'', row_filtered 5200 (demo_csv_row ''c'') ''b'' ''j'' ''r'' ''rule'' ''t'']]) =
     [(demo_csv_row ''c'', ''r'')]"
  by code_simp

section \<open>Witnesses\<close>

theorem search_ranks_first_matches_witness:
  "search_row_keys '' KAFKA:t:p0:o1'' 5 demo_searched = [row_kafka ''t'' 0 1, row_csv ''kafka:t:p0:o1'' 2]"
proof -
  have q: "to_ascii_lowercase (trim '' KAFKA:t:p0:o1'') = ''kafka:t:p0:o1''" by code_simp
  let ?ks = "map fst (by_key (rd_by_row (rs_db demo_searched)))"
  have ks: "?ks = [''csv:kafka:t:p0:o1:2'', ''kafka:t:p0:o1'']"
    and parsed: "from_key ''csv:kafka:t:p0:o1:2'' = Inr (row_csv ''kafka:t:p0:o1'' 2)" "from_key ''kafka:t:p0:o1'' = Inr (row_kafka ''t'' 0 1)"
    and low: "to_ascii_lowercase ''csv:kafka:t:p0:o1:2'' = ''csv:'' @ ''kafka:t:p0:o1'' @ '':2''" "to_ascii_lowercase ''kafka:t:p0:o1'' = [] @ ''kafka:t:p0:o1'' @ []"
    by code_simp+
  have "readable_match ''kafka:t:p0:o1'' ''csv:kafka:t:p0:o1:2''" "readable_match ''kafka:t:p0:o1'' ''kafka:t:p0:o1''"
    unfolding readable_match_def using low parsed by (metis is_ok_simps(1))+
  then have "take 5 (filter (\<lambda>k. (\<exists>a b. to_ascii_lowercase k = a @ ''kafka:t:p0:o1'' @ b) \<and> is_ok (from_key k)) ?ks) =
      [''csv:kafka:t:p0:o1:2'', ''kafka:t:p0:o1'']"
    unfolding ks readable_match_def by simp
  note found = this
  have "map Inr (search_row_keys '' KAFKA:t:p0:o1'' 5 demo_searched) = map from_key [''kafka:t:p0:o1'', ''csv:kafka:t:p0:o1:2'']"
    using search_ranks_first_matches [OF demo_searched_def [unfolded demo_stored_def] q [symmetric] refl, of 5] unfolding found
    by (simp add: low)
  then show ?thesis using parsed by (cases "search_row_keys '' KAFKA:t:p0:o1'' 5 demo_searched") auto
qed

end
