(* ===== verification/Gdpr.thy ===== *)
theory Gdpr
  imports RowQueries RowStore
begin

text \<open>
  Model of \<^verbatim>\<open>arcxa-coordinator/src/gdpr/coordinator.rs\<close>, which erases tenants and users across three stores under the
  retention policies and legal holds. A store is used through the operations of the trait \<^verbatim>\<open>DataErasure\<close>; those of the row lineage store are the ones of
  its model, and the other two stores are parameters. Logging is not modelled.
\<close>

section \<open>Stores\<close>

record 's erasure_backend =
  eb_erase :: "erasure_request \<Rightarrow> 's \<Rightarrow> 's \<times> (string + erasure_result)"
  eb_count :: "data_subject_id \<Rightarrow> 's \<Rightarrow> string + u64"
  eb_breakdown :: "data_subject_id \<Rightarrow> 's \<Rightarrow> string + (string, u64) hmap"

text \<open>The defaults of the trait, from the count of records.\<close>

definition default_breakdown :: "(data_subject_id \<Rightarrow> 's \<Rightarrow> string + u64) \<Rightarrow> data_subject_id \<Rightarrow> 's \<Rightarrow> string + (string, u64) hmap" where
  "default_breakdown counted subject s = try_bind (counted subject s) (\<lambda>n. Inr [(''total'', n)])"

definition default_verify :: "(data_subject_id \<Rightarrow> 's \<Rightarrow> string + u64) \<Rightarrow> data_subject_id \<Rightarrow> 's \<Rightarrow> string + bool" where
  "default_verify counted subject s = try_bind (counted subject s) (\<lambda>n. Inr (n = 0))"

definition row_breakdown :: "string option \<Rightarrow> data_subject_id \<Rightarrow> ('t, 'q) row_store \<Rightarrow> string + (string, u64) hmap" where
  "row_breakdown err subject s = try_bind (row_count_data_subject err subject s) (\<lambda>n. Inr [(''row_lineage_events'', n)])"

definition row_backend :: "string option \<Rightarrow> string \<Rightarrow> int \<Rightarrow> ('t, 'q) row_store erasure_backend" where
  "row_backend err audit now = \<lparr>eb_erase = row_erase_data_subject err audit now, eb_count = row_count_data_subject err, eb_breakdown = row_breakdown err\<rparr>"

record ('a, 'b, 'c) gdpr_stores =
  gs_row :: "'a option"
  gs_column :: "'b option"
  gs_schema :: "'c option"

record ('a, 'b, 'c) gdpr_backends =
  gb_row :: "'a erasure_backend"
  gb_column :: "'b erasure_backend"
  gb_schema :: "'c erasure_backend"

section \<open>Erasure\<close>

definition erase_store ::
  "string \<Rightarrow> erasure_strategy \<Rightarrow> 's erasure_backend \<Rightarrow> erasure_request \<Rightarrow> 's option \<Rightarrow> erasure_result \<Rightarrow> 's option \<times> erasure_result" where
  "erase_store name strategy be request store agg =
     (case store of
        None \<Rightarrow> (None, agg)
      | Some s \<Rightarrow>
          (case eb_erase be request s of
             (s', Inr res) \<Rightarrow> (Some s', add_all (el_backend_results res) agg)
           | (s', Inl e) \<Rightarrow> (Some s', add_backend_result name (backend_failure name (''Erasure failed: '' @ e) strategy) agg)))"

definition erase_stores ::
  "('a, 'b, 'c) gdpr_backends \<Rightarrow> erasure_strategy \<Rightarrow> erasure_request \<Rightarrow> erasure_result \<Rightarrow> ('a, 'b, 'c) gdpr_stores \<Rightarrow> ('a, 'b, 'c) gdpr_stores \<times> erasure_result" where
  "erase_stores B strategy request agg st =
     (let (r, agg1) = erase_store ''row_lineage'' strategy (gb_row B) request (gs_row st) agg;
          (c, agg2) = erase_store ''column_lineage'' strategy (gb_column B) request (gs_column st) agg1;
          (d, agg3) = erase_store ''schema_evolution'' strategy (gb_schema B) request (gs_schema st) agg2
      in (st\<lparr>gs_row := r, gs_column := c, gs_schema := d\<rparr>, agg3))"

definition erase_tenant_data ::
  "('a, 'b, 'c) gdpr_backends \<Rightarrow> string \<Rightarrow> string \<Rightarrow> int \<Rightarrow> string \<Rightarrow> bool \<Rightarrow> ('a, 'b, 'c) gdpr_stores \<Rightarrow> ('a, 'b, 'c) gdpr_stores \<times> erasure_result" where
  "erase_tenant_data B fresh audit now tenant dry_run st =
     (let request0 = erasure_request_new fresh now (ds_tenant tenant) ''gdpr_coordinator'';
          request = (if dry_run then as_dry_run request0 else request0);
          (st', agg) = erase_stores B HardDelete request (erasure_result_new request audit now) st
      in (st', finalize_result now agg))"

datatype gdpr_error = UserUnderHold string "string list"

definition user_request :: "retention_manager \<Rightarrow> string \<Rightarrow> int \<Rightarrow> string \<Rightarrow> bool \<Rightarrow> erasure_strategy \<Rightarrow> erasure_request" where
  "user_request m fresh now user dry_run strategy =
     (let request0 = with_strategy strategy (erasure_request_new fresh now (ds_user user) ''gdpr_coordinator'');
          request1 = (if dry_run then as_dry_run request0 else request0);
          data_created_at = now
      in case manager_can_delete now AuditLogs user data_created_at m of
           Inl violation \<Rightarrow> if strategy = HardDelete then with_strategy Anonymize request1 else request1
         | Inr _ \<Rightarrow> request1)"

definition erase_user_data ::
  "retention_manager \<Rightarrow> ('a, 'b, 'c) gdpr_backends \<Rightarrow> string \<Rightarrow> string \<Rightarrow> int \<Rightarrow> string \<Rightarrow> bool \<Rightarrow> erasure_strategy \<Rightarrow> ('a, 'b, 'c) gdpr_stores \<Rightarrow>
   ('a, 'b, 'c) gdpr_stores \<times> (gdpr_error + erasure_result)" where
  "erase_user_data m B fresh audit now user dry_run strategy st =
     (if is_subject_under_hold now user m then (st, Inl (UserUnderHold user (map lh_name (get_active_holds_for_subject now user m))))
      else
        let request = user_request m fresh now user dry_run strategy;
            (st', agg) = erase_stores B strategy request (erasure_result_new request audit now) st
        in (st', Inr (finalize_result now agg)))"

section \<open>Counting\<close>

definition count_store :: "'s erasure_backend \<Rightarrow> data_subject_id \<Rightarrow> 's option \<Rightarrow> u64 \<Rightarrow> string + u64" where
  "count_store be subject store acc =
     (case store of None \<Rightarrow> Inr acc | Some s \<Rightarrow> try_bind (eb_count be subject s) (\<lambda>n. Inr (acc + n)))"

definition count_subject :: "('a, 'b, 'c) gdpr_backends \<Rightarrow> data_subject_id \<Rightarrow> ('a, 'b, 'c) gdpr_stores \<Rightarrow> string + u64" where
  "count_subject B subject st =
     try_bind (count_store (gb_row B) subject (gs_row st) 0) (\<lambda>n.
       try_bind (count_store (gb_column B) subject (gs_column st) n) (\<lambda>k. count_store (gb_schema B) subject (gs_schema st) k))"

definition count_user_data :: "('a, 'b, 'c) gdpr_backends \<Rightarrow> string \<Rightarrow> ('a, 'b, 'c) gdpr_stores \<Rightarrow> string + u64" where
  "count_user_data B user = count_subject B (ds_user user)"

definition count_tenant_data :: "('a, 'b, 'c) gdpr_backends \<Rightarrow> string \<Rightarrow> ('a, 'b, 'c) gdpr_stores \<Rightarrow> string + u64" where
  "count_tenant_data B tenant = count_subject B (ds_tenant tenant)"

definition extend_map :: "('k, 'v) hmap \<Rightarrow> ('k, 'v) hmap \<Rightarrow> ('k, 'v) hmap" where
  "extend_map m new = fold (\<lambda>(k, v). AList.update k v) new m"

definition breakdown_store :: "'s erasure_backend \<Rightarrow> data_subject_id \<Rightarrow> 's option \<Rightarrow> (string, u64) hmap \<Rightarrow> string + (string, u64) hmap" where
  "breakdown_store be subject store m =
     (case store of None \<Rightarrow> Inr m | Some s \<Rightarrow> try_bind (eb_breakdown be subject s) (\<lambda>new. Inr (extend_map m new)))"

definition subject_breakdown :: "('a, 'b, 'c) gdpr_backends \<Rightarrow> data_subject_id \<Rightarrow> ('a, 'b, 'c) gdpr_stores \<Rightarrow> string + (string, u64) hmap" where
  "subject_breakdown B subject st =
     try_bind (breakdown_store (gb_row B) subject (gs_row st) []) (\<lambda>m.
       try_bind (breakdown_store (gb_column B) subject (gs_column st) m) (\<lambda>n. breakdown_store (gb_schema B) subject (gs_schema st) n))"

definition verify_erasure :: "('a, 'b, 'c) gdpr_backends \<Rightarrow> string \<Rightarrow> ('a, 'b, 'c) gdpr_stores \<Rightarrow> string + bool" where
  "verify_erasure B tenant st = try_bind (count_tenant_data B tenant st) (\<lambda>counted. Inr (counted = 0))"

section \<open>Reports\<close>

text \<open>The results that a store contributes to the report.\<close>

definition contribution :: "string \<Rightarrow> erasure_strategy \<Rightarrow> 's erasure_backend \<Rightarrow> erasure_request \<Rightarrow> 's option \<Rightarrow> backend_result list" where
  "contribution name strategy be request store =
     (case store of
        None \<Rightarrow> []
      | Some s \<Rightarrow>
          (case snd (eb_erase be request s) of
             Inr res \<Rightarrow> map snd (el_backend_results res)
           | Inl e \<Rightarrow> [backend_failure name (''Erasure failed: '' @ e) strategy]))"

definition contributions ::
  "('a, 'b, 'c) gdpr_backends \<Rightarrow> erasure_strategy \<Rightarrow> erasure_request \<Rightarrow> ('a, 'b, 'c) gdpr_stores \<Rightarrow> backend_result list" where
  "contributions B strategy request st =
     contribution ''row_lineage'' strategy (gb_row B) request (gs_row st) @
     contribution ''column_lineage'' strategy (gb_column B) request (gs_column st) @
     contribution ''schema_evolution'' strategy (gb_schema B) request (gs_schema st)"

lemma erase_store_accounts:
  assumes "accounts bs agg" "erase_store name strategy be request store agg = (store', agg')"
  shows "accounts (bs @ contribution name strategy be request store) agg' \<and> el_request agg' = el_request agg"
proof (cases store)
  case None
  then show ?thesis using assms by (simp add: erase_store_def contribution_def)
next
  case (Some s)
  obtain s' r where e: "eb_erase be request s = (s', r)" by force
  show ?thesis
    using assms Some e accounts_add [OF assms(1)] accounts_add_all [OF assms(1)]
    by (cases r) (auto simp: erase_store_def contribution_def)
qed

lemma erase_stores_accounts:
  assumes "erase_stores B strategy request (erasure_result_new request audit now) st = (st', agg)"
  shows "accounts (contributions B strategy request st) agg \<and> el_request agg = request"
proof -
  obtain r a1 where r: "erase_store ''row_lineage'' strategy (gb_row B) request (gs_row st) (erasure_result_new request audit now) = (r, a1)" by force
  obtain c a2 where c: "erase_store ''column_lineage'' strategy (gb_column B) request (gs_column st) a1 = (c, a2)" by force
  obtain d a3 where d: "erase_store ''schema_evolution'' strategy (gb_schema B) request (gs_schema st) a2 = (d, a3)" by force
  note one = erase_store_accounts [OF accounts_new r]
  note two = erase_store_accounts [OF conjunct1 [OF one] c]
  note three = erase_store_accounts [OF conjunct1 [OF two] d]
  have "agg = a3" using assms r c d by (simp add: erase_stores_def)
  then show ?thesis using one two three by (simp add: contributions_def erasure_result_new_def)
qed

lemma row_result_one: "map snd (el_backend_results (row_result request audit now b)) = [b]"
  by (simp add: row_result_def erasure_result_new_def add_backend_result_def finalize_result_def Let_def)

lemma erase_stores_row:
  assumes "erase_stores B strategy request agg st = (st', agg')"
  shows "gs_row st' = map_option (\<lambda>s. fst (eb_erase (gb_row B) request s)) (gs_row st)"
  using assms by (auto simp: erase_stores_def erase_store_def split: prod.splits option.splits sum.splits)

section \<open>Properties\<close>

text \<open>
  C39. The erasure of a user respects legal holds and reports what happened. While an active hold covers the user, the erasure is refused with the names of the holds, and no store is
  touched. Otherwise it is carried out, and the report accounts for the stores: it counts the results of all stores, among them a failure for
  each store that failed as a whole; it is a success exactly when each result is one; and its total is the sum of the records erased.
\<close>

theorem user_erasure_respects_holds:
  assumes "erase_user_data m B fresh audit now user dry_run strategy st = (st', res)"
  shows "if list_ex (covers_subject now user) (holds_of m)
    then st' = st \<and> res = Inl (UserUnderHold user (map lh_name (filter (covers_subject now user) (holds_of m))))
    else \<exists>report. res = Inr report \<and> el_request report = user_request m fresh now user dry_run strategy \<and>
      accounts (contributions B strategy (user_request m fresh now user dry_run strategy) st) report"
proof (cases "is_subject_under_hold now user m")
  case True
  then show ?thesis using assms by (auto simp: erase_user_data_def get_active_holds_for_subject_def is_subject_under_hold_def)
next
  case False
  obtain s1 agg where e: "erase_stores B strategy (user_request m fresh now user dry_run strategy)
      (erasure_result_new (user_request m fresh now user dry_run strategy) audit now) st = (s1, agg)" by force
  then show ?thesis using assms False erase_stores_accounts [OF e]
    by (auto simp: erase_user_data_def Let_def is_subject_under_hold_def accounts_finalize)
qed

text \<open>
  C40. Neither retention nor a hold on the category protects row lineage. When no hold covers the user himself and the row lineage store, after any run of it, meets no failure, whatever the
  policies and the holds on categories say and whatever strategy is asked for, the erasure of the user, when it is not a dry run, removes exactly his events from all stored rows of the row lineage store
  (events still in its write buffer stay there), and that store's result in the report is a success with the number of his records, by deletion. With the default policies the
  request in the report of a deletion says all the same that the strategy is anonymization.
\<close>

theorem retention_does_not_protect:
  assumes "erase_user_data m (B\<lparr>gb_row := row_backend None row_audit now\<rparr>) fresh audit now user False strategy st = (st', res)"
    and "\<not> is_subject_under_hold now user m" "gs_row st = Some s" "s = fold row_exec cs row_store_new"
  shows "\<exists>s' report b rest. gs_row st' = Some s' \<and> res = Inr report \<and>
    (\<forall>row. get_row_lineage row s' = filter (\<lambda>e. \<not> of_user user e) (get_row_lineage row s)) \<and> rs_buffer s' = rs_buffer s \<and>
    accounts (b # rest) report \<and> br_backend_name b = row_lineage_name \<and> br_success b \<and> br_strategy_used b = HardDelete \<and>
    br_records_erased b = count_user_records user (rs_db s) \<and>
    (m = retention_manager_default i j k \<and> strategy = HardDelete \<longrightarrow> er_strategy (el_request report) = Some Anonymize)"
proof -
  let ?req = "user_request m fresh now user False strategy" and ?B = "B\<lparr>gb_row := row_backend None row_audit now\<rparr>"
  obtain s1 agg where e: "erase_stores ?B strategy ?req (erasure_result_new ?req audit now) st = (s1, agg)" by force
  have st': "st' = s1" "res = Inr (finalize_result now agg)" using assms(1,2) e by (auto simp: erase_user_data_def Let_def)
  obtain s' r where er: "row_erase_data_subject None row_audit now ?req s = (s', r)" by force
  have row: "gs_row st' = Some s'" using erase_stores_row [OF e] assms(3) er st' by (simp add: row_backend_def)
  have req: "er_data_subject ?req = ds_user user" "\<not> er_dry_run ?req"
    by (auto simp: user_request_def with_strategy_def erasure_request_new_def Let_def split: sum.split)
  have wf: "hm_wf (rd_by_row (rs_db s))" unfolding assms(4) by (intro row_run_wf) (simp add: row_store_new_def row_db_empty_def hm_wf_def)
  obtain d n where eu: "erase_user_records None user (rs_db s) = (d, n)" by force
  let ?b = "with_detail ''row_lineage_events'' (count_user_records user (rs_db s)) (backend_success row_lineage_name (count_user_records user (rs_db s)) HardDelete)"
  have s': "s' = s\<lparr>rs_db := d\<rparr>" and r: "r = Inr (row_result ?req row_audit now ?b)"
    using er req eu erase_user_rows(2) [OF wf eu] by (auto simp: row_erase_data_subject_def erase_user_subject_def ds_user_def Let_def)
  have "contribution ''row_lineage'' strategy (gb_row ?B) ?req (gs_row st) = [?b]"
    using er r assms(3) by (simp add: contribution_def row_backend_def row_result_one)
  then obtain rest where "accounts (?b # rest) (finalize_result now agg)"
    using erase_stores_accounts [OF e] by (auto simp: contributions_def accounts_finalize)
  moreover have "el_request (finalize_result now agg) = ?req" using erase_stores_accounts [OF e] by (simp add: accounts_finalize)
  moreover have "er_strategy ?req = Some Anonymize" if "m = retention_manager_default i j k" "strategy = HardDelete"
    using that by (simp add: user_request_def manager_can_delete_def is_subject_under_hold_def holds_of_def retention_manager_default_def add_policy_def
        default_policy_def retention_manager_new_def get_policy_def policy_can_delete_def num_days_def day_ms_def with_strategy_def Let_def)
  moreover have "get_row_lineage row s' = filter (\<lambda>e. \<not> of_user user e) (get_row_lineage row s)" for row
    by (simp add: s' get_row_lineage_events erase_user_events [OF wf eu])
  moreover have "rs_buffer s' = rs_buffer s" by (simp add: s')
  ultimately show ?thesis
    using row st'(2) by (intro exI [of _ s'] exI [of _ "finalize_result now agg"] exI [of _ ?b] exI [of _ rest]) (simp add: with_detail_def backend_success_def)
qed

text \<open>The erasure of a tenant asks neither for holds nor for policies.\<close>

lemma tenant_erasure_ignores_holds:
  assumes "erase_tenant_data (B\<lparr>gb_row := row_backend None row_audit now\<rparr>) fresh audit now tenant False st = (st', report)" "gs_row st = Some s"
  shows "gs_row st' = Some (fst (row_erase_data_subject None row_audit now (erasure_request_new fresh now (ds_tenant tenant) ''gdpr_coordinator'') s))"
proof -
  let ?req = "erasure_request_new fresh now (ds_tenant tenant) ''gdpr_coordinator''"
  obtain s1 agg where e: "erase_stores (B\<lparr>gb_row := row_backend None row_audit now\<rparr>) HardDelete ?req (erasure_result_new ?req audit now) st = (s1, agg)" by force
  then have "st' = s1" using assms(1) by (simp add: erase_tenant_data_def)
  then show ?thesis using erase_stores_row [OF e] assms(2) by (simp add: row_backend_def)
qed

section \<open>Witnesses\<close>

definition demo_idle :: "unit erasure_backend" where
  "demo_idle = \<lparr>eb_erase = (\<lambda>_ s. (s, Inl ''offline'')), eb_count = (\<lambda>_ _. Inr 0), eb_breakdown = (\<lambda>_ _. Inr [])\<rparr>"

definition demo_backends :: "((unit, unit) row_store, unit, unit) gdpr_backends" where
  "demo_backends = \<lparr>gb_row = row_backend None ''x'' 0, gb_column = demo_idle, gb_schema = demo_idle\<rparr>"

definition demo_gdpr :: "((unit, unit) row_store, unit, unit) gdpr_stores" where
  "demo_gdpr = \<lparr>gs_row = Some (fold row_exec [RWriteBatch None None [demo_event ''a'' ''u'' None]] row_store_new), gs_column = None, gs_schema = None\<rparr>"

definition demo_hold :: legal_hold where
  "demo_hold = add_data_subject ''u'' (legal_hold_new ''h'' 0 ''case 7'' ''legal'' ''litigation'')"

theorem user_erasure_respects_holds_witness:
  "snd (erase_user_data (add_legal_hold demo_hold retention_manager_new) demo_backends ''f'' ''x'' 5 ''u'' False HardDelete demo_gdpr) =
     Inl (UserUnderHold ''u'' [''case 7''])"
proof -
  have "list_ex (covers_subject 5 ''u'') (holds_of (add_legal_hold demo_hold retention_manager_new))"
    "map lh_name (filter (covers_subject 5 ''u'') (holds_of (add_legal_hold demo_hold retention_manager_new))) = [''case 7'']"
    by (simp_all add: holds_of_def add_legal_hold_def demo_hold_def add_data_subject_def legal_hold_new_def retention_manager_new_def covers_subject_def hold_is_active_def)
  then show ?thesis
    using user_erasure_respects_holds [where m = "add_legal_hold demo_hold retention_manager_new" and B = demo_backends and fresh = "''f''" and audit = "''x''"
        and now = 5 and user = "''u''" and dry_run = False and strategy = HardDelete and st = demo_gdpr, OF prod.collapse [symmetric]] by simp
qed

theorem retention_does_not_protect_witness:
  "\<exists>s' report. gs_row (fst (erase_user_data (retention_manager_default ''i'' ''j'' ''k'') demo_backends ''f'' ''x'' 0 ''u'' False HardDelete demo_gdpr)) = Some s' \<and>
     snd (erase_user_data (retention_manager_default ''i'' ''j'' ''k'') demo_backends ''f'' ''x'' 0 ''u'' False HardDelete demo_gdpr) = Inr report \<and>
     get_row_lineage (demo_csv_row ''a'') s' = [] \<and> er_strategy (el_request report) = Some Anonymize"
proof -
  let ?m = "retention_manager_default ''i'' ''j'' ''k''" and ?s = "fold row_exec [RWriteBatch None None [demo_event ''a'' ''u'' None]] row_store_new"
  have b: "demo_backends\<lparr>gb_row := row_backend None ''x'' 0\<rparr> = demo_backends" by (simp add: demo_backends_def)
  have h: "\<not> is_subject_under_hold 0 ''u'' ?m"
    by (simp add: is_subject_under_hold_def holds_of_def retention_manager_default_def add_policy_def retention_manager_new_def)
  have st: "gs_row demo_gdpr = Some ?s" by (simp add: demo_gdpr_def)
  have "list_all (of_user ''u'') (get_row_lineage (demo_csv_row ''a'') ?s)" by code_simp
  then have none: "filter (\<lambda>e. \<not> of_user ''u'' e) (get_row_lineage (demo_csv_row ''a'') ?s) = []" by (simp add: list_all_iff filter_empty_conv)
  from retention_does_not_protect [where B = demo_backends and m = ?m and row_audit = "''x''" and now = 0 and user = "''u''"
      and fresh = "''f''" and audit = "''x''" and strategy = HardDelete and st = demo_gdpr and i = "''i''" and j = "''j''" and k = "''k''",
      unfolded b, OF prod.collapse [symmetric] h st refl] none show ?thesis by auto
qed

end
