(* ===== verification/LineageGraph.thy ===== *)
theory LineageGraph
  imports Gdpr "HOL-Library.Char_ord" "HOL-Library.List_Lexorder" "HOL-Library.Option_ord" "HOL-Library.Product_Lexorder"
begin

text \<open>
  Model of \<^verbatim>\<open>arcxa-core/src/core/lineage/mod.rs\<close>: lineage events and the graph that is built from them, with its two indexes and
  its traversals. A hash set is a set; \<open>ord\<close> is the order in which a hash set yields its elements, which is not specified.
  The metrics of a model are left abstract. Recursive functions that carry a set of visited records have fuel; not enough of
  it is \<open>None\<close>.
\<close>

section \<open>Events\<close>

record cdc_position =
  cp_topic :: string
  cp_partition :: int
  cp_offset :: int
  cp_lsn :: "string option"

record data_ref =
  df_system :: string
  df_path :: string
  df_version :: "string option"
  df_extracted_at :: int
  df_cdc_position :: "cdc_position option"

text \<open>References are ordered by their fields, so that a set of them can be listed.\<close>

definition ref_fields :: "'a data_ref_scheme \<Rightarrow> string \<times> string \<times> string option \<times> int \<times> (string \<times> int \<times> int \<times> string option) option \<times> 'a" where
  "ref_fields r = (df_system r, df_path r, df_version r, df_extracted_at r,
     map_option (\<lambda>c. (cp_topic c, cp_partition c, cp_offset c, cp_lsn c)) (df_cdc_position r), data_ref.more r)"

lemma ref_fields_inject: "ref_fields r = ref_fields s \<Longrightarrow> r = s"
proof -
  have cdc: "inj (\<lambda>c :: cdc_position. (cp_topic c, cp_partition c, cp_offset c, cp_lsn c))" by (simp add: inj_def)
  show "ref_fields r = ref_fields s \<Longrightarrow> r = s"
    using option.inj_map [OF cdc] by (simp add: ref_fields_def inj_eq)
qed

instantiation data_ref_ext :: (linorder) linorder
begin

definition less_eq_data_ref_ext :: "'a data_ref_scheme \<Rightarrow> 'a data_ref_scheme \<Rightarrow> bool" where
  "less_eq_data_ref_ext r s \<longleftrightarrow> ref_fields r \<le> ref_fields s"

definition less_data_ref_ext :: "'a data_ref_scheme \<Rightarrow> 'a data_ref_scheme \<Rightarrow> bool" where
  "less_data_ref_ext r s \<longleftrightarrow> ref_fields r < ref_fields s"

instance
  by standard (auto simp: less_eq_data_ref_ext_def less_data_ref_ext_def dest: ref_fields_inject)

end

text \<open>The parameters of a transformation are kept as JSON texts.\<close>

record transform_ref =
  tr_id :: string
  tr_transform_type :: string
  tr_rule_id :: string
  tr_version :: string
  tr_parameters :: "(string, string) hmap"
  tr_applied_at :: int
  tr_fields_modified :: "string list"

record 'm model_ref =
  mr_model_id :: string
  mr_version :: string
  mr_model_type :: string
  mr_params_hash :: string
  mr_training_data :: "data_ref list"
  mr_metrics :: 'm
  mr_registry_uri :: string
  mr_inference_at :: int
  mr_features_used :: "string list"
  mr_outputs :: "string list"

record 'm lineage_event =
  le_id :: string
  le_dataset :: string
  le_record_id :: string
  le_source_refs :: "data_ref list"
  le_transforms :: "transform_ref list"
  le_model_refs :: "'m model_ref list"
  le_output_ref :: data_ref
  le_ts :: int
  le_run_id :: string
  le_tenant_id :: string
  le_correlation_id :: "string option"
  le_metadata :: "(string, string) hmap"

section \<open>The graph\<close>

record 'm lineage_graph =
  lg_events :: "'m lineage_event list"
  lg_record_index :: "(string, nat list) hmap"
  lg_data_ref_index :: "(string, string set) hmap"

definition data_key :: "data_ref \<Rightarrow> string" where
  "data_key r = df_system r @ '':'' @ df_path r"

fun index_events ::
  "nat \<Rightarrow> 'm lineage_event list \<Rightarrow> (string, nat list) hmap \<Rightarrow> (string, string set) hmap \<Rightarrow>
   (string, nat list) hmap \<times> (string, string set) hmap" where
  "index_events idx [] record_index data_ref_index = (record_index, data_ref_index)"
| "index_events idx (event # events) record_index data_ref_index =
     index_events (idx + 1) events
       (hm_entry (le_record_id event) [] (\<lambda>v. v @ [idx]) record_index)
       (hm_entry (data_key (le_output_ref event)) {} (insert (le_record_id event)) data_ref_index)"

definition lineage_graph_new :: "'m lineage_event list \<Rightarrow> 'm lineage_graph" where
  "lineage_graph_new events =
     (let (record_index, data_ref_index) = index_events 0 events [] []
      in \<lparr>lg_events = events, lg_record_index = record_index, lg_data_ref_index = data_ref_index\<rparr>)"

definition get_events_for_record :: "string \<Rightarrow> 'm lineage_graph \<Rightarrow> 'm lineage_event list" where
  "get_events_for_record record_id g =
     (case map_of (lg_record_index g) record_id of None \<Rightarrow> [] | Some indices \<Rightarrow> map (\<lambda>idx. lg_events g ! idx) indices)"

definition upstream :: "string \<Rightarrow> 'm lineage_graph \<Rightarrow> data_ref list" where
  "upstream record_id g = concat (map le_source_refs (get_events_for_record record_id g))"

definition downstream :: "string \<Rightarrow> 'm lineage_graph \<Rightarrow> data_ref list" where
  "downstream record_id g = map le_output_ref (get_events_for_record record_id g)"

definition models_in_chain :: "string \<Rightarrow> 'm lineage_graph \<Rightarrow> 'm model_ref list" where
  "models_in_chain record_id g = concat (map le_model_refs (get_events_for_record record_id g))"

text \<open>A lookup in the index of outputs, and the records it yields one after the other.\<close>

definition key_records :: "data_ref \<Rightarrow> 'm lineage_graph \<Rightarrow> string set" where
  "key_records r g = (case map_of (lg_data_ref_index g) (data_key r) of None \<Rightarrow> {} | Some records \<Rightarrow> records)"

definition iter_records :: "(string set \<Rightarrow> string list) \<Rightarrow> data_ref \<Rightarrow> 'm lineage_graph \<Rightarrow> string list" where
  "iter_records ord r g = (case map_of (lg_data_ref_index g) (data_key r) of None \<Rightarrow> [] | Some records \<Rightarrow> ord records)"

subsection \<open>Traversals with a stack\<close>

text \<open>
  Both traversals have the same loop: the entries of a stack have a record and its depth, the last one pushed is taken first, and one that is too deep or
  was visited is skipped. The events of the record add to the result, and their neighbours that were not visited are pushed. \<open>nexts\<close>
  and \<open>adds\<close> are what differs; the head of the list is the top of the stack.
\<close>

definition push_records :: "nat \<Rightarrow> string set \<Rightarrow> string list \<Rightarrow> (string \<times> nat) list \<Rightarrow> (string \<times> nat) list" where
  "push_records depth visited rs to_visit = rev (map (\<lambda>r. (r, depth)) (filter (\<lambda>r. r \<notin> visited) rs)) @ to_visit"

definition known_records :: "'m lineage_graph \<Rightarrow> string set" where
  "known_records g = fst ` set (lg_record_index g)"

lemma unknown_record: "r \<notin> known_records g \<Longrightarrow> get_events_for_record r g = []"
  by (auto simp: get_events_for_record_def known_records_def dest: map_of_SomeD split: option.split) (force dest: map_of_SomeD)

function lineage_loop ::
  "('m lineage_event \<Rightarrow> string list) \<Rightarrow> (string set \<Rightarrow> 'm lineage_event \<Rightarrow> 'a set) \<Rightarrow> nat \<Rightarrow> 'm lineage_graph \<Rightarrow>
   string set \<Rightarrow> (string \<times> nat) list \<Rightarrow> 'a set \<Rightarrow> 'a set" where
  "lineage_loop nexts adds max_depth g visited [] result = result"
| "lineage_loop nexts adds max_depth g visited ((current_id, depth) # to_visit) result =
     (if depth > max_depth \<or> current_id \<in> visited then lineage_loop nexts adds max_depth g visited to_visit result
      else
        let visited' = insert current_id visited; events = get_events_for_record current_id g
        in lineage_loop nexts adds max_depth g visited'
             (push_records (depth + 1) visited' (concat (map nexts events)) to_visit) (result \<union> \<Union> (adds visited' ` set events)))"
  by pat_completeness auto

definition unvisited :: "'m lineage_graph \<Rightarrow> string set \<Rightarrow> nat" where
  "unvisited g visited = card (known_records g - visited)"

lemma unvisited_insert:
  assumes "r \<notin> visited" "r \<in> known_records g"
  shows "unvisited g (insert r visited) < unvisited g visited"
  unfolding unvisited_def using assms by (intro psubset_card_mono) (auto simp: known_records_def)

lemma unvisited_insert_unknown: "r \<notin> known_records g \<Longrightarrow> unvisited g (insert r visited) = unvisited g visited"
  by (simp add: unvisited_def)

termination lineage_loop
proof (relation "inv_image (less_than <*lex*> less_than)
    (\<lambda>(_, _, _, g, visited, to_visit, _). (unvisited g visited, length to_visit))", goal_cases)
  case (3 nexts adds max_depth g visited current_id depth to_visit result visited' events)
  then show ?case
    using unvisited_insert [of current_id visited g] unknown_record [of current_id g] unvisited_insert_unknown [of current_id g visited]
    by (cases "current_id \<in> known_records g") (auto simp: push_records_def)
qed auto

definition upstream_recursive :: "(string set \<Rightarrow> string list) \<Rightarrow> string \<Rightarrow> nat \<Rightarrow> 'm lineage_graph \<Rightarrow> data_ref set" where
  "upstream_recursive ord record_id max_depth g =
     lineage_loop (\<lambda>event. concat (map (\<lambda>source_ref. iter_records ord source_ref g) (le_source_refs event)))
       (\<lambda>_ event. set (le_source_refs event)) max_depth g {} [(record_id, 0)] {}"

definition downstream_recursive :: "(string set \<Rightarrow> string list) \<Rightarrow> string \<Rightarrow> nat \<Rightarrow> 'm lineage_graph \<Rightarrow> string set" where
  "downstream_recursive ord record_id max_depth g =
     lineage_loop (\<lambda>event. iter_records ord (le_output_ref event) g)
       (\<lambda>visited event. set (iter_records ord (le_output_ref event) g) - visited) max_depth g {} [(record_id, 0)] {}"

definition full_lineage_chain :: "(string set \<Rightarrow> string list) \<Rightarrow> string \<Rightarrow> nat \<Rightarrow> 'm lineage_graph \<Rightarrow> 'm lineage_graph" where
  "full_lineage_chain ord record_id max_depth g =
     (let record_ids = {record_id} \<union> \<Union> ((\<lambda>data_ref. key_records data_ref g) ` upstream_recursive ord record_id max_depth g) \<union>
                       downstream_recursive ord record_id max_depth g
      in lineage_graph_new (concat (map (\<lambda>rid. get_events_for_record rid g) (ord record_ids))))"

subsection \<open>Recursive traversals\<close>

text \<open>The two loops of each function, over events and over the records of an entry, are one list here.\<close>

definition consumer_list :: "(string set \<Rightarrow> string list) \<Rightarrow> string \<Rightarrow> 'm lineage_graph \<Rightarrow> string list" where
  "consumer_list ord record_id g = concat (map (\<lambda>event. iter_records ord (le_output_ref event) g) (get_events_for_record record_id g))"

definition source_list :: "(string set \<Rightarrow> string list) \<Rightarrow> string \<Rightarrow> 'm lineage_graph \<Rightarrow> string list" where
  "source_list ord record_id g =
     concat (map (\<lambda>event. concat (map (\<lambda>source_ref. iter_records ord source_ref g) (le_source_refs event))) (get_events_for_record record_id g))"

fun detect_cycle ::
  "(string set \<Rightarrow> string list) \<Rightarrow> 'm lineage_graph \<Rightarrow> nat \<Rightarrow> string \<Rightarrow> string set \<Rightarrow> string set \<Rightarrow> (bool \<times> string set \<times> string set) option"
  and detect_consumers ::
  "(string set \<Rightarrow> string list) \<Rightarrow> 'm lineage_graph \<Rightarrow> nat \<Rightarrow> string list \<Rightarrow> string set \<Rightarrow> string set \<Rightarrow> (bool \<times> string set \<times> string set) option" where
  "detect_cycle ord g 0 record_id visited recursion_stack = None"
| "detect_cycle ord g (Suc fuel) record_id visited recursion_stack =
     (case detect_consumers ord g fuel (consumer_list ord record_id g) (insert record_id visited) (insert record_id recursion_stack) of
        None \<Rightarrow> None
      | Some (True, v, s) \<Rightarrow> Some (True, v, s)
      | Some (False, v, s) \<Rightarrow> Some (False, v, s - {record_id}))"
| "detect_consumers ord g fuel [] visited recursion_stack = Some (False, visited, recursion_stack)"
| "detect_consumers ord g fuel (consumer_id # rest) visited recursion_stack =
     (if consumer_id \<notin> visited then
        (case detect_cycle ord g fuel consumer_id visited recursion_stack of
           None \<Rightarrow> None
         | Some (True, v, s) \<Rightarrow> Some (True, v, s)
         | Some (False, v, s) \<Rightarrow> detect_consumers ord g fuel rest v s)
      else if consumer_id \<in> recursion_stack then Some (True, visited, recursion_stack)
      else detect_consumers ord g fuel rest visited recursion_stack)"

text \<open>A call visits a record that was not visited before, so that the number of records bounds the depth of the calls.\<close>

definition call_fuel :: "'m lineage_graph \<Rightarrow> nat" where
  "call_fuel g = length (lg_record_index g) + 2"

definition has_circular_dependency :: "(string set \<Rightarrow> string list) \<Rightarrow> string \<Rightarrow> 'm lineage_graph \<Rightarrow> bool option" where
  "has_circular_dependency ord record_id g = map_option fst (detect_cycle ord g (call_fuel g) record_id {} {})"

fun depth_dfs ::
  "(string set \<Rightarrow> string list) \<Rightarrow> 'm lineage_graph \<Rightarrow> nat \<Rightarrow> string \<Rightarrow> nat \<Rightarrow> string set \<Rightarrow> (nat \<times> string set) option"
  and depth_sources ::
  "(string set \<Rightarrow> string list) \<Rightarrow> 'm lineage_graph \<Rightarrow> nat \<Rightarrow> string list \<Rightarrow> nat \<Rightarrow> nat \<Rightarrow> string set \<Rightarrow> (nat \<times> string set) option" where
  "depth_dfs ord g 0 record_id depth visited = None"
| "depth_dfs ord g (Suc fuel) record_id depth visited =
     (if record_id \<in> visited then Some (depth, visited)
      else depth_sources ord g fuel (source_list ord record_id g) depth depth (insert record_id visited))"
| "depth_sources ord g fuel [] depth max_child_depth visited = Some (max_child_depth, visited)"
| "depth_sources ord g fuel (source_id # rest) depth max_child_depth visited =
     (case depth_dfs ord g fuel source_id (depth + 1) visited of
        None \<Rightarrow> None
      | Some (child_depth, v) \<Rightarrow> depth_sources ord g fuel rest depth (max max_child_depth child_depth) v)"

definition lineage_depth :: "(string set \<Rightarrow> string list) \<Rightarrow> string \<Rightarrow> 'm lineage_graph \<Rightarrow> nat option" where
  "lineage_depth ord record_id g = map_option fst (depth_dfs ord g (call_fuel g) record_id 0 {})"

section \<open>The indexes\<close>

definition iteration_order :: "(string set \<Rightarrow> string list) \<Rightarrow> bool" where
  "iteration_order ord \<longleftrightarrow> (\<forall>A. finite A \<longrightarrow> set (ord A) = A)"

lemma index_events_records:
  "map_of (fst (index_events k events ri di)) r =
     (case (map_of ri r, map fst (filter (\<lambda>(i, e). le_record_id e = r) (enumerate k events))) of
        (None, is) \<Rightarrow> (if is = [] then None else Some is)
      | (Some v, is) \<Rightarrow> Some (v @ is))"
  by (induction k events ri di rule: index_events.induct) (auto simp: hm_entry_lookup split: option.split)

lemma index_events_outputs:
  "map_of (snd (index_events k events ri di)) key =
     (let rs = le_record_id ` {e \<in> set events. data_key (le_output_ref e) = key}
      in case map_of di key of None \<Rightarrow> (if rs = {} then None else Some rs) | Some A \<Rightarrow> Some (A \<union> rs))"
proof (induction k events ri di rule: index_events.induct)
  case (2 idx e events ri di)
  have "{e' \<in> set (e # events). data_key (le_output_ref e') = key} =
      (if data_key (le_output_ref e) = key then {e} else {}) \<union> {e' \<in> set events. data_key (le_output_ref e') = key}" by auto
  then show ?case using 2 by (auto simp: hm_entry_lookup Let_def image_Un split: option.splits)
qed (simp split: option.split)

lemma map_nth_filter_enumerate:
  "map (\<lambda>i. (pre @ events) ! i) (map fst (filter (\<lambda>(i, e). P e) (enumerate (length pre) events))) = filter P events"
proof (induction events arbitrary: pre)
  case (Cons e events)
  from Cons.IH [of "pre @ [e]"] show ?case by (simp add: nth_append)
qed simp

lemma get_events_new: "get_events_for_record r (lineage_graph_new events) = filter (\<lambda>e. le_record_id e = r) events"
proof -
  let ?is = "map fst (filter (\<lambda>(i, e). le_record_id e = r) (enumerate 0 events))"
  have "map (\<lambda>i. events ! i) ?is = filter (\<lambda>e. le_record_id e = r) events"
    using map_nth_filter_enumerate [of "[]" events "\<lambda>e. le_record_id e = r"] by simp
  then show ?thesis
    using index_events_records [of 0 events "[]" "[]" r]
    by (auto simp: get_events_for_record_def lineage_graph_new_def split_beta Let_def)
qed

lemma key_records_new: "key_records d (lineage_graph_new events) = le_record_id ` {e \<in> set events. data_key (le_output_ref e) = data_key d}"
  using index_events_outputs [of 0 events "[]" "[]" "data_key d"]
  by (auto simp: key_records_def lineage_graph_new_def split_beta Let_def)

lemma iter_records_new:
  assumes "iteration_order ord"
  shows "set (iter_records ord d (lineage_graph_new events)) = key_records d (lineage_graph_new events)"
proof -
  have "finite (key_records d (lineage_graph_new events))" by (simp add: key_records_new)
  then show ?thesis using assms unfolding iter_records_def key_records_def iteration_order_def by (auto split: option.splits)
qed

lemma known_records_new: "known_records (lineage_graph_new events) = le_record_id ` set events"
proof (rule set_eqI)
  fix r
  let ?is = "map fst (filter (\<lambda>(i, e). le_record_id e = r) (enumerate 0 events))"
  have "r \<in> known_records (lineage_graph_new events) \<longleftrightarrow> ?is \<noteq> []"
    using index_events_records [of 0 events "[]" "[]" r]
      map_of_eq_None_iff [of "fst (index_events 0 events [] [])" r]
    by (auto simp: known_records_def lineage_graph_new_def split_beta Let_def split: if_splits)
  moreover have "?is = [] \<longleftrightarrow> filter (\<lambda>e. le_record_id e = r) events = []"
    using map_nth_filter_enumerate [of "[]" events "\<lambda>e. le_record_id e = r"] by (metis list.map_disc_iff list.size(3))
  moreover have "filter (\<lambda>e. le_record_id e = r) events = [] \<longleftrightarrow> r \<notin> le_record_id ` set events" by (auto simp: filter_empty_conv)
  ultimately show "r \<in> known_records (lineage_graph_new events) \<longleftrightarrow> r \<in> le_record_id ` set events" by blast
qed

section \<open>The loop of the traversals\<close>

definition neighbours :: "('m lineage_event \<Rightarrow> string list) \<Rightarrow> 'm lineage_graph \<Rightarrow> (string \<times> string) set" where
  "neighbours nexts g = {(r, s). \<exists>e \<in> set (get_events_for_record r g). s \<in> set (nexts e)}"

lemma neighbours_conv: "s \<in> set (concat (map nexts (get_events_for_record r g))) \<longleftrightarrow> (r, s) \<in> neighbours nexts g"
  by (auto simp: neighbours_def)

text \<open>What the loop adds comes from a record within the depth that is left.\<close>

lemma lineage_loop_sound:
  assumes "\<And>vis e. adds vis e \<subseteq> f e" "x \<in> lineage_loop nexts adds m g visited stack result" "x \<notin> result"
  shows "\<exists>r d n r' e. (r, d) \<in> set stack \<and> d + n \<le> m \<and> (r, r') \<in> neighbours nexts g ^^ n \<and> e \<in> set (get_events_for_record r' g) \<and> x \<in> f e"
  using assms
proof (induction nexts adds m g visited stack result rule: lineage_loop.induct)
  case (2 nexts adds m g visited cur depth stack result)
  show ?case
  proof (cases "depth > m \<or> cur \<in> visited")
    case True
    then have "x \<in> lineage_loop nexts adds m g visited stack result" using 2(4) by simp
    from 2(1) [OF True 2(3) this 2(5)] show ?thesis by (meson list.set_intros(2))
  next
    case False
    let ?vis = "insert cur visited" and ?evs = "get_events_for_record cur g"
    let ?stack = "push_records (depth + 1) ?vis (concat (map nexts ?evs)) stack" and ?res = "result \<union> \<Union> (adds ?vis ` set ?evs)"
    have loop: "x \<in> lineage_loop nexts adds m g ?vis ?stack ?res" using 2(4) False by (simp add: Let_def)
    show ?thesis
    proof (cases "x \<in> ?res")
      case True
      then obtain e where e: "e \<in> set ?evs" "x \<in> f e" using 2(3) [of ?vis] 2(5) by blast
      show ?thesis by (rule exI [of _ cur], rule exI [of _ depth], rule exI [of _ 0], rule exI [of _ cur], rule exI [of _ e]) (use e False in simp)
    next
      case out: False
      from 2(2) [OF False refl refl 2(3) loop out] obtain r d n r' e where
        hit: "(r, d) \<in> set ?stack" "d + n \<le> m" "(r, r') \<in> neighbours nexts g ^^ n" "e \<in> set (get_events_for_record r' g)" "x \<in> f e" by blast
      show ?thesis
      proof (cases "(r, d) \<in> set stack")
        case True
        then show ?thesis using hit by (meson list.set_intros(2))
      next
        case False
        then have "d = depth + 1" "(cur, r) \<in> neighbours nexts g"
          using hit(1) neighbours_conv [of r nexts cur g] by (auto simp: push_records_def)
        then have "depth + Suc n \<le> m" "(cur, r') \<in> neighbours nexts g ^^ Suc n" using hit(2,3) relpow_Suc_I2 [of cur r] by auto
        then show ?thesis using hit(4,5) by (meson list.set_intros(1))
      qed
    qed
  qed
qed simp

text \<open>
  With a depth of at least the number of records, no entry is skipped because of its depth: its depth is at most the number of known
  records that were visited. What is visited in the end is closed under the neighbours.
\<close>

definition covers ::
  "('m lineage_event \<Rightarrow> string list) \<Rightarrow> ('m lineage_event \<Rightarrow> 'a set) \<Rightarrow> 'm lineage_graph \<Rightarrow> string set \<Rightarrow> string set \<Rightarrow> 'a set \<Rightarrow> bool" where
  "covers nexts f g visited pending result \<longleftrightarrow>
     (\<forall>v \<in> visited. neighbours nexts g `` {v} \<subseteq> visited \<union> pending \<and> (\<forall>e \<in> set (get_events_for_record v g). f e \<subseteq> result))"

lemma lineage_loop_covers:
  assumes "covers nexts f g visited (fst ` set stack) result" "card (known_records g) \<le> m"
    and "\<forall>(r, d) \<in> set stack. d \<le> card (visited \<inter> known_records g)"
  shows "\<exists>V. visited \<union> fst ` set stack \<subseteq> V \<and> covers nexts f g V {} (lineage_loop nexts (\<lambda>_. f) m g visited stack result)"
  using assms
proof (induction nexts "\<lambda>_ :: string set. f" m g visited stack result rule: lineage_loop.induct)
  case (1 nexts m g visited result)
  then show ?case by (intro exI [of _ visited]) simp
next
  case (2 nexts m g visited cur depth stack result)
  have fin: "finite (known_records g)" by (simp add: known_records_def)
  have "card (visited \<inter> known_records g) \<le> card (known_records g)" using fin by (intro card_mono) auto
  then have not_deep: "\<not> depth > m" using 2(4,5) by auto
  show ?case
  proof (cases "cur \<in> visited")
    case True
    have "covers nexts f g visited (fst ` set stack) result" using 2(3) True by (auto simp: covers_def)
    moreover have "\<forall>(r, d) \<in> set stack. d \<le> card (visited \<inter> known_records g)" using 2(5) by simp
    ultimately obtain V where
      V: "visited \<union> fst ` set stack \<subseteq> V" "covers nexts f g V {} (lineage_loop nexts (\<lambda>_. f) m g visited stack result)"
      using 2(1) [OF disjI2 [OF True] _ 2(4)] by blast
    have "lineage_loop nexts (\<lambda>_. f) m g visited ((cur, depth) # stack) result = lineage_loop nexts (\<lambda>_. f) m g visited stack result"
      using True by simp
    then show ?thesis using V True by (intro exI [of _ V]) auto
  next
    case False
    let ?vis = "insert cur visited" and ?evs = "get_events_for_record cur g"
    let ?stack = "push_records (depth + 1) ?vis (concat (map nexts ?evs)) stack" and ?res = "result \<union> \<Union> (f ` set ?evs)"
    have pend: "fst ` set ?stack = (neighbours nexts g `` {cur} - ?vis) \<union> fst ` set stack"
      using neighbours_conv [of _ nexts cur g] by (force simp: push_records_def image_Un image_image)
    have cov: "covers nexts f g ?vis (fst ` set ?stack) ?res"
      using 2(3) unfolding covers_def pend by (auto; blast)
    have grow: "card (visited \<inter> known_records g) \<le> card (?vis \<inter> known_records g)" using fin by (intro card_mono) auto
    have new: "depth + 1 \<le> card (?vis \<inter> known_records g)" if "?evs \<noteq> []"
    proof -
      have "cur \<in> known_records g" using that unknown_record by blast
      then have "?vis \<inter> known_records g = insert cur (visited \<inter> known_records g)" by auto
      then have "card (?vis \<inter> known_records g) = Suc (card (visited \<inter> known_records g))" using False fin by simp
      then show ?thesis using 2(5) by auto
    qed
    have depths: "\<forall>(r, d) \<in> set ?stack. d \<le> card (?vis \<inter> known_records g)"
      using 2(5) grow new by (fastforce simp: push_records_def)
    have "\<not> (depth > m \<or> cur \<in> visited)" using not_deep False by simp
    from 2(2) [OF this refl refl cov 2(4) depths] obtain V where
      V: "?vis \<union> fst ` set ?stack \<subseteq> V" "covers nexts f g V {} (lineage_loop nexts (\<lambda>_. f) m g ?vis ?stack ?res)" by blast
    have "lineage_loop nexts (\<lambda>_. f) m g visited ((cur, depth) # stack) result = lineage_loop nexts (\<lambda>_. f) m g ?vis ?stack ?res"
      using not_deep False by (simp add: Let_def)
    then show ?thesis using V pend by (intro exI [of _ V]) auto
  qed
qed

lemma covers_closed:
  assumes "covers nexts f g V {} result" "r \<in> V" "(r, s) \<in> (neighbours nexts g)\<^sup>*"
  shows "s \<in> V"
  using assms(3,2,1) by (induction rule: rtrancl_induct) (auto simp: covers_def)

section \<open>Recursive traversals\<close>

lemma call_fuel_enough: "unvisited g visited + 2 \<le> call_fuel g"
proof -
  have "unvisited g visited \<le> card (known_records g)" unfolding unvisited_def by (intro card_mono) (auto simp: known_records_def)
  also have "\<dots> \<le> length (lg_record_index g)" unfolding known_records_def by (metis card_image_le card_length finite_set le_trans)
  finally show ?thesis by (simp add: call_fuel_def)
qed

lemma unvisited_mono: "visited \<subseteq> v \<Longrightarrow> unvisited g v \<le> unvisited g visited"
  unfolding unvisited_def by (intro card_mono) (auto simp: known_records_def)

text \<open>
  A record that has an event is itself among the records of the output of that event, which the search takes for its consumers. It is on the
  stack of the search, so that the search reports a cycle.
\<close>

lemma detect_cycle_true:
  assumes own: "\<And>r. r \<in> known_records g \<Longrightarrow> r \<in> set (consumer_list ord r g)"
    and known: "\<And>r. set (consumer_list ord r g) \<subseteq> known_records g"
    and "unvisited g visited < fuel" "r \<in> known_records g" "r \<notin> visited"
  shows "\<exists>v s. detect_cycle ord g fuel r visited stack = Some (True, v, s)"
  using assms(3-5)
proof (induction fuel arbitrary: r visited stack)
  case (Suc fuel)
  let ?vis = "insert r visited" and ?stack = "insert r stack"
  have less: "unvisited g ?vis < fuel" using unvisited_insert [of r visited g] Suc.prems by simp
  have "\<exists>v s. detect_consumers ord g fuel cs ?vis ?stack = Some (True, v, s)" if "set cs \<subseteq> known_records g" "r \<in> set cs" for cs
    using that
  proof (induction cs)
    case (Cons c cs)
    show ?case
    proof (cases "c \<in> ?vis")
      case True
      then show ?thesis using Cons by auto
    next
      case False
      with Suc.IH [OF less, of c ?stack] Cons.prems(1) show ?thesis by auto
    qed
  qed simp
  from this [OF known own [OF Suc.prems(2)]] show ?case by auto
qed simp

text \<open>The search for the depth returns, and each step goes to a record that was not visited.\<close>

lemma depth_dfs_bounded:
  assumes known: "\<And>r. set (source_list ord r g) \<subseteq> known_records g"
    and "unvisited g visited < fuel" "r \<in> known_records g"
  shows "\<exists>d v. depth_dfs ord g fuel r depth visited = Some (d, v) \<and> visited \<subseteq> v \<and> depth \<le> d \<and> d \<le> depth + unvisited g visited"
  using assms(2,3)
proof (induction fuel arbitrary: r depth visited)
  case (Suc fuel)
  show ?case
  proof (cases "r \<in> visited")
    case False
    let ?vis = "insert r visited"
    have less: "unvisited g ?vis < unvisited g visited" by (rule unvisited_insert [OF False Suc.prems(2)])
    have "\<exists>d v. depth_sources ord g fuel cs depth mx vis = Some (d, v) \<and> vis \<subseteq> v \<and> mx \<le> d \<and> d \<le> max mx (depth + unvisited g visited)"
      if "set cs \<subseteq> known_records g" "?vis \<subseteq> vis" for cs mx vis
      using that
    proof (induction cs arbitrary: mx vis)
      case (Cons c cs)
      have u: "unvisited g vis \<le> unvisited g ?vis" using Cons.prems(2) by (rule unvisited_mono)
      with less Suc.prems(1) have "unvisited g vis < fuel" by simp
      from Suc.IH [OF this, of c "depth + 1"] Cons.prems(1) obtain d v where
        d: "depth_dfs ord g fuel c (depth + 1) vis = Some (d, v)" "vis \<subseteq> v" "d \<le> depth + 1 + unvisited g vis" by auto
      moreover have "d \<le> depth + unvisited g visited" using d(3) u less by simp
      moreover have "set cs \<subseteq> known_records g" "?vis \<subseteq> v" using Cons.prems d(2) by auto
      from Cons.IH [OF this, of "max mx d"] obtain d' v' where "depth_sources ord g fuel cs depth (max mx d) v = Some (d', v')" "v \<subseteq> v'"
        "max mx d \<le> d'" "d' \<le> max (max mx d) (depth + unvisited g visited)" by blast
      ultimately show ?case by auto
    qed simp
    from this [OF known subset_refl] obtain d v where
      "depth_sources ord g fuel (source_list ord r g) depth depth ?vis = Some (d, v)" "?vis \<subseteq> v" "depth \<le> d" "d \<le> max depth (depth + unvisited g visited)"
      by blast
    then show ?thesis using False by auto
  qed simp
qed simp

section \<open>Properties\<close>

text \<open>A record is derived from the records that wrote the outputs it was read from.\<close>

definition derived_from :: "'m lineage_event list \<Rightarrow> (string \<times> string) set" where
  "derived_from events = {(le_record_id e, le_record_id p) | e p s.
     e \<in> set events \<and> p \<in> set events \<and> s \<in> set (le_source_refs e) \<and> data_key (le_output_ref p) = data_key s}"

lemma upstream_neighbours:
  assumes "iteration_order ord"
  shows "neighbours (\<lambda>e. concat (map (\<lambda>s. iter_records ord s (lineage_graph_new events)) (le_source_refs e))) (lineage_graph_new events) =
    derived_from events"
  by (auto simp: neighbours_def derived_from_def iter_records_new [OF assms] key_records_new get_events_new)

lemma upstream_sound:
  assumes "iteration_order ord" "x \<in> upstream_recursive ord rid max_depth (lineage_graph_new events)"
  shows "\<exists>n e. n \<le> max_depth \<and> e \<in> set events \<and> (rid, le_record_id e) \<in> derived_from events ^^ n \<and> x \<in> set (le_source_refs e)"
proof -
  from lineage_loop_sound [OF subset_refl assms(2) [unfolded upstream_recursive_def]] obtain n r' e where
    "n \<le> max_depth" "(rid, r') \<in> derived_from events ^^ n" "e \<in> set (get_events_for_record r' (lineage_graph_new events))" "x \<in> set (le_source_refs e)"
    unfolding upstream_neighbours [OF assms(1)] by auto
  then show ?thesis by (auto simp: get_events_new)
qed

lemma upstream_closure:
  assumes "iteration_order ord" "card (le_record_id ` set events) \<le> max_depth"
  shows "upstream_recursive ord rid max_depth (lineage_graph_new events) =
    {s. \<exists>e. e \<in> set events \<and> (rid, le_record_id e) \<in> (derived_from events)\<^sup>* \<and> s \<in> set (le_source_refs e)}"
proof (intro equalityI subsetI CollectI)
  fix s assume "s \<in> upstream_recursive ord rid max_depth (lineage_graph_new events)"
  from upstream_sound [OF assms(1) this] show "\<exists>e. e \<in> set events \<and> (rid, le_record_id e) \<in> (derived_from events)\<^sup>* \<and> s \<in> set (le_source_refs e)"
    using relpow_imp_rtrancl by blast
next
  let ?g = "lineage_graph_new events"
  let ?nexts = "\<lambda>e. concat (map (\<lambda>s. iter_records ord s ?g) (le_source_refs e))"
  fix s assume "s \<in> {s. \<exists>e. e \<in> set events \<and> (rid, le_record_id e) \<in> (derived_from events)\<^sup>* \<and> s \<in> set (le_source_refs e)}"
  then obtain e where e: "e \<in> set events" "(rid, le_record_id e) \<in> (neighbours ?nexts ?g)\<^sup>*" "s \<in> set (le_source_refs e)"
    unfolding upstream_neighbours [OF assms(1)] by blast
  obtain V where V: "rid \<in> V" "covers ?nexts (\<lambda>e. set (le_source_refs e)) ?g V {} (upstream_recursive ord rid max_depth ?g)"
    using lineage_loop_covers [of ?nexts "\<lambda>e. set (le_source_refs e)" ?g "{}" "[(rid, 0)]" "{}" max_depth] assms(2)
    by (auto simp: upstream_recursive_def covers_def known_records_new)
  have "le_record_id e \<in> V" by (rule covers_closed [OF V(2,1) e(2)])
  then show "s \<in> upstream_recursive ord rid max_depth ?g" using V(2) e by (auto simp: covers_def get_events_new)
qed

text \<open>
  C34. The upstream of a record is its transitive closure. For any events, cycles included, and whatever the order in which hash sets yield their
  elements, the recursive traversal ends. What it returns are sources of events of records from which the record is derived in at most as
  many steps as the maximal depth; and when the depth is at least the number of records, it returns all sources of all
  records from which the record is derived in any number of steps.
\<close>

theorem upstream_is_transitive_closure:
  assumes "iteration_order ord"
  shows "upstream_recursive ord rid max_depth (lineage_graph_new events) \<subseteq>
      {s. \<exists>n e. n \<le> max_depth \<and> e \<in> set events \<and> (rid, le_record_id e) \<in> derived_from events ^^ n \<and> s \<in> set (le_source_refs e)} \<and>
    (card (le_record_id ` set events) \<le> max_depth \<longrightarrow>
      upstream_recursive ord rid max_depth (lineage_graph_new events) =
        {s. \<exists>e. e \<in> set events \<and> (rid, le_record_id e) \<in> (derived_from events)\<^sup>* \<and> s \<in> set (le_source_refs e)})"
  using upstream_sound [OF assms] upstream_closure [OF assms] by blast

text \<open>
  Every recorded record has a circular dependency. For any events and any order of iteration, the search for cycles returns, and it
  reports a cycle for a record exactly when the record has an event: as consumers of an output it takes the
  records that wrote it, the record itself among them.
\<close>

lemma every_record_is_circular:
  assumes "iteration_order ord"
  shows "has_circular_dependency ord rid (lineage_graph_new events) = Some (rid \<in> le_record_id ` set events)"
proof -
  let ?g = "lineage_graph_new events"
  have cons: "set (consumer_list ord r ?g) =
      {le_record_id p | e p. e \<in> set events \<and> p \<in> set events \<and> le_record_id e = r \<and> data_key (le_output_ref p) = data_key (le_output_ref e)}" for r
    by (auto simp: consumer_list_def get_events_new iter_records_new [OF assms] key_records_new)
  show ?thesis
  proof (cases "rid \<in> le_record_id ` set events")
    case True
    have "\<exists>v s. detect_cycle ord ?g (call_fuel ?g) rid {} {} = Some (True, v, s)"
    proof (rule detect_cycle_true)
      show "unvisited ?g {} < call_fuel ?g" using call_fuel_enough [of ?g "{}"] by simp
    qed (use True in \<open>auto simp: known_records_new cons\<close>)
    then show ?thesis using True by (auto simp: has_circular_dependency_def)
  next
    case False
    then have "filter (\<lambda>e. le_record_id e = rid) events = []" by (auto simp: filter_empty_conv)
    then have "consumer_list ord rid ?g = []" by (simp add: consumer_list_def get_events_new)
    then show ?thesis using False by (simp add: has_circular_dependency_def call_fuel_def)
  qed
qed

text \<open>
  For the same reason the downstream of a record is found only among records with the same outputs. Where each record has its
  own, it is empty.
\<close>

lemma downstream_finds_nothing:
  assumes "iteration_order ord"
    and own: "\<And>e e'. e \<in> set events \<Longrightarrow> e' \<in> set events \<Longrightarrow> data_key (le_output_ref e) = data_key (le_output_ref e') \<Longrightarrow> le_record_id e = le_record_id e'"
  shows "downstream_recursive ord rid max_depth (lineage_graph_new events) = {}"
proof -
  let ?g = "lineage_graph_new events"
  have self: "set (iter_records ord (le_output_ref e) ?g) \<subseteq> {rid}" if "e \<in> set (get_events_for_record rid ?g)" for e
  proof -
    have e: "e \<in> set events" "le_record_id e = rid" using that by (simp_all add: get_events_new)
    have "le_record_id p = rid" if "p \<in> set events" "data_key (le_output_ref p) = data_key (le_output_ref e)" for p
      using own [OF that(1) e(1) that(2)] e(2) by simp
    then show ?thesis by (auto simp: iter_records_new [OF assms(1)] key_records_new)
  qed
  let ?nexts = "\<lambda>e. iter_records ord (le_output_ref e) ?g" and ?evs = "get_events_for_record rid ?g"
  have "push_records 1 {rid} (concat (map ?nexts ?evs)) [] = []" using self by (auto simp: push_records_def filter_empty_conv)
  moreover have "\<Union> ((\<lambda>e. set (?nexts e) - {rid}) ` set ?evs) = {}" using self by auto
  moreover have "downstream_recursive ord rid max_depth ?g = lineage_loop ?nexts (\<lambda>visited e. set (?nexts e) - visited) max_depth ?g {rid}
      (push_records 1 {rid} (concat (map ?nexts ?evs)) []) (\<Union> ((\<lambda>e. set (?nexts e) - {rid}) ` set ?evs))"
    unfolding downstream_recursive_def by (subst lineage_loop.simps(2)) (simp add: Let_def del: lineage_loop.simps)
  ultimately show ?thesis by (simp only: lineage_loop.simps(1))
qed

text \<open>The depth of a record is found, and at most the number of records.\<close>

lemma lineage_depth_bounded:
  assumes "iteration_order ord"
  shows "\<exists>d. lineage_depth ord rid (lineage_graph_new events) = Some d \<and> d \<le> card (le_record_id ` set events)"
proof (cases "rid \<in> le_record_id ` set events")
  case True
  let ?g = "lineage_graph_new events"
  have "set (source_list ord r ?g) \<subseteq> known_records ?g" for r
    by (auto simp: source_list_def known_records_new iter_records_new [OF assms] key_records_new)
  from depth_dfs_bounded [OF this, of "{}" "call_fuel ?g" rid 0] True call_fuel_enough [of ?g "{}"] show ?thesis
    by (auto simp: lineage_depth_def known_records_new unvisited_def)
next
  case False
  then have "source_list ord rid (lineage_graph_new events) = []" by (auto simp: source_list_def get_events_new filter_empty_conv)
  then show ?thesis by (simp add: lineage_depth_def call_fuel_def)
qed

section \<open>Examples and witnesses\<close>

definition demo_ref :: "string \<Rightarrow> data_ref" where
  "demo_ref p = \<lparr>df_system = ''db'', df_path = p, df_version = None, df_extracted_at = 0, df_cdc_position = None\<rparr>"

definition demo_lineage :: "string \<Rightarrow> string list \<Rightarrow> unit lineage_event" where
  "demo_lineage rid srcs = \<lparr>le_id = rid, le_dataset = ''demo'', le_record_id = rid, le_source_refs = map demo_ref srcs, le_transforms = [],
     le_model_refs = [], le_output_ref = demo_ref rid, le_ts = 0, le_run_id = ''run'', le_tenant_id = ''t'', le_correlation_id = None, le_metadata = []\<rparr>"

definition demo_derivations :: "unit lineage_event list" where
  "demo_derivations = [demo_lineage ''t'' [''n'', ''b''], demo_lineage ''b'' [''n''], demo_lineage ''n'' [''m''], demo_lineage ''m'' [''raw'']]"

lemma sorted_iteration: "iteration_order sorted_list_of_set"
  by (simp add: iteration_order_def)

lemma demo_derivation_steps:
  "(''t'', ''n'') \<in> derived_from demo_derivations" "(''t'', ''b'') \<in> derived_from demo_derivations"
  "(''b'', ''n'') \<in> derived_from demo_derivations" "(''n'', ''m'') \<in> derived_from demo_derivations"
proof -
  have step: "(le_record_id e, le_record_id p) \<in> derived_from events"
    if "e \<in> set events" "p \<in> set events" "data_key (le_output_ref p) \<in> data_key ` set (le_source_refs e)" for e p and events :: "unit lineage_event list"
    using that unfolding derived_from_def by blast
  show "(''t'', ''n'') \<in> derived_from demo_derivations" "(''t'', ''b'') \<in> derived_from demo_derivations"
    "(''b'', ''n'') \<in> derived_from demo_derivations" "(''n'', ''m'') \<in> derived_from demo_derivations"
    using step [of "demo_lineage ''t'' [''n'', ''b'']" demo_derivations "demo_lineage ''n'' [''m'']"]
      step [of "demo_lineage ''t'' [''n'', ''b'']" demo_derivations "demo_lineage ''b'' [''n'']"]
      step [of "demo_lineage ''b'' [''n'']" demo_derivations "demo_lineage ''n'' [''m'']"]
      step [of "demo_lineage ''n'' [''m'']" demo_derivations "demo_lineage ''m'' [''raw'']"]
    by (simp_all add: demo_derivations_def demo_lineage_def)
qed

text \<open>
  With a smaller depth the traversal is incomplete also within that depth. Record \<open>n\<close> is reached first on the longer path, at the maximal depth, and is then
  marked as visited: the sources of \<open>m\<close>, two steps away, are missed.
\<close>

lemma bounded_upstream_incomplete:
  "demo_ref ''raw'' \<notin> upstream_recursive sorted_list_of_set ''t'' 2 (lineage_graph_new demo_derivations)"
  "(''t'', ''m'') \<in> derived_from demo_derivations ^^ 2"
proof -
  show "demo_ref ''raw'' \<notin> upstream_recursive sorted_list_of_set ''t'' 2 (lineage_graph_new demo_derivations)" by code_simp
  show "(''t'', ''m'') \<in> derived_from demo_derivations ^^ 2"
    using demo_derivation_steps(1,4) by (auto simp: numeral_2_eq_2)
qed

text \<open>The depth is that of the paths the search takes, and not the longest one.\<close>

lemma depth_is_not_longest_path:
  "lineage_depth sorted_list_of_set ''t'' (lineage_graph_new demo_derivations) = Some 2" "(''t'', ''m'') \<in> derived_from demo_derivations ^^ 3"
proof -
  show "lineage_depth sorted_list_of_set ''t'' (lineage_graph_new demo_derivations) = Some 2" by code_simp
  show "(''t'', ''m'') \<in> derived_from demo_derivations ^^ 3"
    using demo_derivation_steps(2,3,4) by (auto simp: numeral_3_eq_3)
qed

text \<open>The separator of keys may occur in names: outputs of different systems can have the same key.\<close>

lemma data_keys_collide:
  "data_key (demo_ref ''x''\<lparr>df_system := ''a:b''\<rparr>) = data_key (demo_ref ''b:x''\<lparr>df_system := ''a''\<rparr>)"
  by (simp add: data_key_def demo_ref_def)

theorem upstream_is_transitive_closure_witness:
  "upstream_recursive sorted_list_of_set ''t'' 4 (lineage_graph_new demo_derivations) =
     {s. \<exists>e. e \<in> set demo_derivations \<and> (''t'', le_record_id e) \<in> (derived_from demo_derivations)\<^sup>* \<and> s \<in> set (le_source_refs e)}"
proof -
  have "card (le_record_id ` set demo_derivations) \<le> 4" by (simp add: demo_derivations_def demo_lineage_def card_insert_if)
  then show ?thesis using upstream_is_transitive_closure [OF sorted_iteration, of "''t''" 4 demo_derivations] by blast
qed

lemma every_record_is_circular_witness:
  "has_circular_dependency sorted_list_of_set ''t'' (lineage_graph_new demo_derivations) = Some True"
  using every_record_is_circular [OF sorted_iteration, of "''t''" demo_derivations] by (simp add: demo_derivations_def demo_lineage_def)

end
