(* ===== verification/ImpactAnalysis.thy ===== *)
theory ImpactAnalysis
  imports LineageGraph
begin

text \<open>
  Model of \<^verbatim>\<open>arcxa-core/src/core/lineage/impact.rs\<close>: the impact of a source, the causes of a record, and the simulation of
  changes, over a store of lineage events whose queries are parameters. Times are in milliseconds; \<open>now\<close> is the
  time of a call. Besides the order \<open>ord\<close> of hash sets of strings there is that of hash sets of references, \<open>rord\<close>.
\<close>

section \<open>Data\<close>

record 'm lineage_store =
  st_query_by_time_range :: "int \<Rightarrow> int \<Rightarrow> string + 'm lineage_event list"
  st_get_record_lineage :: "string \<Rightarrow> string + 'm lineage_event list"
  st_get_lineage_as_of :: "string \<Rightarrow> int \<Rightarrow> string + 'm lineage_event list"

datatype risk_level = RiskLow | RiskMedium | RiskHigh | RiskCritical

record 'm impact_report =
  ir_affected_records :: "string list"
  ir_affected_models :: "'m model_ref list"
  ir_affected_datasets :: "string list"
  ir_risk_level :: risk_level
  ir_can_replay :: bool
  ir_analysis_timestamp :: int

record transformation_step =
  ts_transform_type :: string
  ts_rule_id :: string
  ts_version :: string
  ts_applied_at :: int

record quality_issue =
  qi_rule_id :: string
  qi_severity :: string
  qi_message :: string
  qi_detected_at :: int

record 'm root_cause_report =
  rr_record_id :: string
  rr_source_data_refs :: "data_ref list"
  rr_transformation_chain :: "transformation_step list"
  rr_models_applied :: "'m model_ref list"
  rr_quality_issues :: "quality_issue list"
  rr_can_replay :: bool
  rr_replay_commands :: "string list"

datatype change_type = SchemaModification | TransformationUpdate | DataSourceRemoval

record proposed_change =
  pc_change_type :: change_type
  pc_target :: string
  pc_details :: "(string, string) hmap"

record simulation_report =
  sr_change :: proposed_change
  sr_affected_records_count :: nat
  sr_affected_models_count :: nat
  sr_affected_datasets :: "string list"
  sr_breaking_changes :: "string list"
  sr_warnings :: "string list"
  sr_recommendation :: string

section \<open>The impact of a source\<close>

definition year_ms :: int where
  "year_ms = 365 * 24 * 60 * 60 * 1000"

definition uses_source :: "data_ref \<Rightarrow> 'm lineage_event \<Rightarrow> bool" where
  "uses_source source event \<longleftrightarrow> list_ex (\<lambda>s. df_system s = df_system source \<and> df_path s = df_path source) (le_source_refs event)"

definition risk_of :: "nat \<Rightarrow> nat \<Rightarrow> risk_level" where
  "risk_of models records =
     (if models > 5 then RiskCritical else if models > 1 then RiskHigh else if records > 100 then RiskMedium else RiskLow)"

definition forward_impact ::
  "(string set \<Rightarrow> string list) \<Rightarrow> 'm lineage_store \<Rightarrow> int \<Rightarrow> data_ref \<Rightarrow> int option \<Rightarrow> string + 'm impact_report" where
  "forward_impact ord st now source as_of =
     (let as_of_ts = case_option now id as_of
      in try_bind (st_query_by_time_range st (as_of_ts - year_ms) as_of_ts) (\<lambda>all_events.
        let graph = lineage_graph_new all_events;
            using_source = filter (uses_source source) (lg_events graph);
            records = set (map le_record_id using_source);
            models = concat (map le_model_refs using_source)
        in Inr \<lparr>ir_affected_records = ord records, ir_affected_models = models, ir_affected_datasets = ord (set (map le_dataset using_source)),
             ir_risk_level = risk_of (length models) (card records),
             ir_can_replay = list_ex (\<lambda>e. list_ex (\<lambda>s. df_cdc_position s \<noteq> None) (le_source_refs e)) using_source,
             ir_analysis_timestamp = now\<rparr>))"

section \<open>The causes of a record\<close>

definition replay_command :: "cdc_position \<Rightarrow> string" where
  "replay_command pos = ''kafka-console-consumer --bootstrap-server localhost:9092 --topic '' @ cp_topic pos @ '' --partition '' @
     show_int (cp_partition pos) @ '' --offset '' @ show_int (cp_offset pos) @ '' --max-messages 1''"

fun collect_cdc :: "data_ref list \<Rightarrow> (string, cdc_position) hmap \<Rightarrow> (string, cdc_position) hmap" where
  "collect_cdc [] m = m"
| "collect_cdc (r # rs) m =
     collect_cdc rs (case df_cdc_position r of Some pos \<Rightarrow> AList.update (data_key r) pos m | None \<Rightarrow> m)"

definition quality_prefix :: string where
  "quality_prefix = ''quality_check_''"

definition quality_issues :: "'m lineage_event \<Rightarrow> quality_issue list" where
  "quality_issues event =
     map (\<lambda>t. \<lparr>qi_rule_id = tr_rule_id t, qi_severity = ''Warning'', qi_message = ''Quality rule '' @ tr_rule_id t @ '' applied'', qi_detected_at = le_ts event\<rparr>)
       (filter (\<lambda>t. starts_with quality_prefix (tr_rule_id t)) (le_transforms event))"

definition transformation_steps :: "'m lineage_event \<Rightarrow> transformation_step list" where
  "transformation_steps event = map (\<lambda>t. \<lparr>ts_transform_type = tr_transform_type t, ts_rule_id = tr_rule_id t, ts_version = tr_version t,
     ts_applied_at = tr_applied_at t\<rparr>) (le_transforms event)"

definition max_hops :: nat where
  "max_hops = 10"

definition root_cause_analysis ::
  "(string set \<Rightarrow> string list) \<Rightarrow> (data_ref set \<Rightarrow> data_ref list) \<Rightarrow> 'm lineage_store \<Rightarrow> string \<Rightarrow> int option \<Rightarrow> string + 'm root_cause_report" where
  "root_cause_analysis ord rord st record_id as_of =
     try_bind (case as_of of Some ts \<Rightarrow> st_get_lineage_as_of st record_id ts | None \<Rightarrow> st_get_record_lineage st record_id) (\<lambda>events.
       if events = [] then
         Inr \<lparr>rr_record_id = record_id, rr_source_data_refs = [], rr_transformation_chain = [], rr_models_applied = [],
              rr_quality_issues = [], rr_can_replay = False, rr_replay_commands = []\<rparr>
       else
         let graph = lineage_graph_new events;
             own = filter (\<lambda>e. le_record_id e = record_id) (lg_events graph);
             cdc_positions = collect_cdc (concat (map le_source_refs own)) []
         in Inr \<lparr>rr_record_id = record_id, rr_source_data_refs = rord (upstream_recursive ord record_id max_hops graph),
              rr_transformation_chain = concat (map transformation_steps own), rr_models_applied = concat (map le_model_refs own),
              rr_quality_issues = concat (map quality_issues own), rr_can_replay = (cdc_positions \<noteq> []),
              rr_replay_commands = map (\<lambda>(source, pos). replay_command pos) cdc_positions\<rparr>)"

section \<open>The simulation of changes\<close>

definition detail :: "string \<Rightarrow> proposed_change \<Rightarrow> string option" where
  "detail k change = map_of (pc_details change) k"

definition simulate_schema_change ::
  "(string set \<Rightarrow> string list) \<Rightarrow> 'm lineage_store \<Rightarrow> int \<Rightarrow> proposed_change \<Rightarrow> string + simulation_report" where
  "simulate_schema_change ord st now change =
     (let source = \<lparr>df_system = pc_target change, df_path = case_option '''' id (detail ''table'' change), df_version = None,
                    df_extracted_at = now, df_cdc_position = None\<rparr>
      in try_bind (forward_impact ord st now source None) (\<lambda>impact.
        let breaking = (if detail ''remove_column'' change \<noteq> None then [''Column removal may break downstream consumers'']
                        else if detail ''change_type'' change \<noteq> None then [''Type change may cause parsing errors''] else [])
        in Inr \<lparr>sr_change = change, sr_affected_records_count = length (ir_affected_records impact),
             sr_affected_models_count = length (ir_affected_models impact), sr_affected_datasets = ir_affected_datasets impact,
             sr_breaking_changes = breaking, sr_warnings = [],
             sr_recommendation = (if breaking \<noteq> [] then ''Review breaking changes before proceeding'' else ''Safe to proceed'')\<rparr>))"

definition simulate_source_removal ::
  "(string set \<Rightarrow> string list) \<Rightarrow> 'm lineage_store \<Rightarrow> int \<Rightarrow> proposed_change \<Rightarrow> string + simulation_report" where
  "simulate_source_removal ord st now change =
     (let source = \<lparr>df_system = pc_target change, df_path = '''', df_version = None, df_extracted_at = now, df_cdc_position = None\<rparr>
      in try_bind (forward_impact ord st now source None) (\<lambda>impact.
        Inr \<lparr>sr_change = change, sr_affected_records_count = length (ir_affected_records impact),
             sr_affected_models_count = length (ir_affected_models impact), sr_affected_datasets = ir_affected_datasets impact,
             sr_breaking_changes = [''Source removal will break all downstream consumers''],
             sr_warnings = map (\<lambda>ds. ''Dataset '' @ ds @ '' will lose data source'') (ir_affected_datasets impact),
             sr_recommendation = ''DO NOT PROCEED - critical dependencies exist''\<rparr>))"

definition uses_transform :: "string \<Rightarrow> 'm lineage_event \<Rightarrow> bool" where
  "uses_transform name event \<longleftrightarrow> list_ex (\<lambda>t. tr_rule_id t = name \<or> tr_transform_type t = name) (le_transforms event)"

text \<open>The breaking changes and the warnings for a kind of change, with the numbers of affected records and datasets.\<close>

definition transformation_changes :: "proposed_change \<Rightarrow> string \<Rightarrow> nat \<Rightarrow> nat \<Rightarrow> string list \<times> string list" where
  "transformation_changes change name records datasets =
     (case detail ''change_type'' change of
        Some kind \<Rightarrow>
          if kind = ''logic_change'' then
            ([''Logic change in transformation '' @ [CHR 0x27] @ name @ [CHR 0x27] @ '' will affect '' @ show_nat records @ '' records across '' @
                show_nat datasets @ '' datasets''], [''All downstream consumers should be validated with new logic''])
          else if kind = ''parameter_change'' then
            (if detail ''backwards_compatible'' change = Some ''false''
             then ([''Non-backwards-compatible parameter change in '' @ [CHR 0x27] @ name @ [CHR 0x27]], [])
             else ([], [''Parameter change in '' @ [CHR 0x27] @ name @ [CHR 0x27] @ '' - verify output consistency'']))
          else if kind = ''version_upgrade'' then
            ([], [''Version upgrade for '' @ [CHR 0x27] @ name @ [CHR 0x27] @ '' from '' @ case_option ''unknown'' id (detail ''old_version'' change) @
                '' to '' @ case_option ''unknown'' id (detail ''new_version'' change) @ '' - test thoroughly''])
          else if kind = ''deprecation'' then
            ([''Transformation '' @ [CHR 0x27] @ name @ [CHR 0x27] @ '' is being deprecated - '' @ show_nat records @ '' records need migration''],
             [''Plan migration strategy for all dependent datasets''])
          else ([], [''Unknown change type: '' @ kind])
      | None \<Rightarrow> ([], [''Transformation '' @ [CHR 0x27] @ name @ [CHR 0x27] @ '' change will affect '' @ show_nat records @ '' records'']))"

definition change_recommendation :: "string list \<Rightarrow> nat \<Rightarrow> string" where
  "change_recommendation breaking records =
     (if breaking \<noteq> [] then ''CAUTION: Breaking changes detected. Create rollback plan and test in staging environment''
      else if records > 10000 then ''High impact change. Deploy incrementally and monitor closely''
      else if records > 1000 then ''Moderate impact. Test thoroughly before deployment''
      else ''Low impact change. Standard testing procedures apply'')"

definition simulate_transformation_change ::
  "(string set \<Rightarrow> string list) \<Rightarrow> 'm lineage_store \<Rightarrow> int \<Rightarrow> proposed_change \<Rightarrow> string + simulation_report" where
  "simulate_transformation_change ord st now change =
     (let name = case_option (pc_target change) id (detail ''transform_name'' change)
      in try_bind (st_query_by_time_range st (now - year_ms) now) (\<lambda>all_events.
        let graph = lineage_graph_new all_events;
            using_it = filter (uses_transform name) (lg_events graph);
            records = set (map le_record_id using_it);
            datasets = set (map le_dataset using_it);
            models = concat (map le_model_refs using_it);
            (breaking, warnings) = transformation_changes change name (card records) (card datasets);
            model_warnings = (if models \<noteq> [] then [show_nat (length models) @ '' ML models use data from this transformation - retesting recommended''] else [])
        in Inr \<lparr>sr_change = change, sr_affected_records_count = card records, sr_affected_models_count = length models,
             sr_affected_datasets = ord datasets, sr_breaking_changes = breaking, sr_warnings = warnings @ model_warnings,
             sr_recommendation = change_recommendation breaking (card records)\<rparr>))"

definition simulate_change ::
  "(string set \<Rightarrow> string list) \<Rightarrow> 'm lineage_store \<Rightarrow> int \<Rightarrow> proposed_change \<Rightarrow> string + simulation_report" where
  "simulate_change ord st now change =
     (case pc_change_type change of
        SchemaModification \<Rightarrow> simulate_schema_change ord st now change
      | TransformationUpdate \<Rightarrow> simulate_transformation_change ord st now change
      | DataSourceRemoval \<Rightarrow> simulate_source_removal ord st now change)"

section \<open>What the reports tell\<close>

text \<open>
  The impact of a source covers the direct uses of the year before: records derived from the affected ones are not reported.
\<close>

lemma forward_impact_direct:
  assumes "iteration_order ord" "st_query_by_time_range st (now - year_ms) now = Inr events" "forward_impact ord st now source None = Inr report"
  shows "set (ir_affected_records report) = le_record_id ` {e \<in> set events. uses_source source e}"
    and "set (ir_affected_datasets report) = le_dataset ` {e \<in> set events. uses_source source e}"
    and "length (ir_affected_models report) \<le> 1 \<Longrightarrow> ir_risk_level report \<noteq> RiskHigh \<and> ir_risk_level report \<noteq> RiskCritical"
proof -
  let ?used = "filter (uses_source source) events"
  have g: "lg_events (lineage_graph_new events) = events" by (simp add: lineage_graph_new_def split_beta)
  have r: "ir_affected_records report = ord (le_record_id ` set ?used)" "ir_affected_datasets report = ord (le_dataset ` set ?used)"
    "ir_risk_level report = risk_of (length (ir_affected_models report)) (card (le_record_id ` set ?used))"
    using assms(2,3) by (auto simp: forward_impact_def Let_def g)
  show "set (ir_affected_records report) = le_record_id ` {e \<in> set events. uses_source source e}"
    "set (ir_affected_datasets report) = le_dataset ` {e \<in> set events. uses_source source e}"
    using assms(1) unfolding r iteration_order_def by simp_all
  show "ir_risk_level report \<noteq> RiskHigh \<and> ir_risk_level report \<noteq> RiskCritical" if "length (ir_affected_models report) \<le> 1"
    unfolding r using that by (simp add: risk_of_def)
qed

text \<open>
  The graph for the causes of a record is built from the events of that record alone. Its traversal therefore never gets beyond
  the direct sources, whatever the number of hops.
\<close>

lemma collect_cdc_keys: "map_of (collect_cdc rs m) k \<noteq> None \<longleftrightarrow> map_of m k \<noteq> None \<or> (\<exists>r \<in> set rs. df_cdc_position r \<noteq> None \<and> data_key r = k)"
  by (induction rs arbitrary: m) (auto simp: hm_get_update split: option.split)

lemma collect_cdc_empty: "collect_cdc rs [] = [] \<longleftrightarrow> (\<forall>r \<in> set rs. df_cdc_position r = None)"
proof -
  have "collect_cdc rs [] = [] \<longleftrightarrow> (\<forall>k. map_of (collect_cdc rs []) k = None)" by (metis map_of_eq_empty_iff map_of.simps(1))
  moreover have "map_of (collect_cdc rs []) k = None \<longleftrightarrow> (\<forall>r \<in> set rs. df_cdc_position r = None \<or> data_key r \<noteq> k)" for k
    using collect_cdc_keys [of rs "[]" k] by auto
  ultimately show ?thesis by blast
qed

lemma own_events_closed:
  assumes "\<forall>e \<in> set events. le_record_id e = rid"
  shows "(rid, r) \<in> (derived_from events)\<^sup>* \<longleftrightarrow> r = rid"
proof
  assume "(rid, r) \<in> (derived_from events)\<^sup>*"
  then show "r = rid" by (induction rule: rtrancl_induct) (use assms in \<open>auto simp: derived_from_def\<close>)
qed simp

lemma card_own_record: "\<forall>e \<in> set events. le_record_id e = rid \<Longrightarrow> card (le_record_id ` set events) \<le> 1"
  using card_mono [of "{rid}" "le_record_id ` set events"] by auto

definition answers_for_record :: "'m lineage_store \<Rightarrow> bool" where
  "answers_for_record st \<longleftrightarrow>
     (\<forall>rid events. st_get_record_lineage st rid = Inr events \<longrightarrow> (\<forall>e \<in> set events. le_record_id e = rid)) \<and>
     (\<forall>rid ts events. st_get_lineage_as_of st rid ts = Inr events \<longrightarrow> (\<forall>e \<in> set events. le_record_id e = rid))"

definition lineage_of :: "'m lineage_store \<Rightarrow> string \<Rightarrow> int option \<Rightarrow> string + 'm lineage_event list" where
  "lineage_of st rid as_of = (case as_of of Some ts \<Rightarrow> st_get_lineage_as_of st rid ts | None \<Rightarrow> st_get_record_lineage st rid)"

text \<open>
  The causes of a record are its direct sources. When the store answers a query for a record with events of that record, as its
  interface says, the analysis reports as sources exactly those of the events of the record itself: no source of a record it was
  derived from is ever found. It fails exactly when the query fails, and it offers a replay exactly when one of these sources has a position to replay
  from, with a command for it.
\<close>

lemma root_causes_are_direct_sources:
  assumes "iteration_order ord" "\<And>A. finite A \<Longrightarrow> set (rord A) = A" "answers_for_record st" "lineage_of st rid as_of = Inr events"
  shows "\<exists>report. root_cause_analysis ord rord st rid as_of = Inr report \<and>
    set (rr_source_data_refs report) = (\<Union>e \<in> set events. set (le_source_refs e)) \<and>
    (rr_can_replay report \<longleftrightarrow> (\<exists>s \<in> set (rr_source_data_refs report). df_cdc_position s \<noteq> None)) \<and>
    (rr_can_replay report \<longleftrightarrow> rr_replay_commands report \<noteq> [])"
proof (cases "events = []")
  case True
  then show ?thesis using assms(4) by (simp add: root_cause_analysis_def lineage_of_def)
next
  case False
  let ?g = "lineage_graph_new events"
  have own: "\<forall>e \<in> set events. le_record_id e = rid"
    using assms(3,4) unfolding answers_for_record_def lineage_of_def by (cases as_of) auto
  then have filt: "filter (\<lambda>e. le_record_id e = rid) events = events" by simp
  have graph: "lg_events ?g = events" by (simp add: lineage_graph_new_def split_beta)
  have "card (le_record_id ` set events) \<le> max_hops" using card_own_record [OF own] by (simp add: max_hops_def)
  then have "upstream_recursive ord rid max_hops ?g = {s. \<exists>e. e \<in> set events \<and> (rid, le_record_id e) \<in> (derived_from events)\<^sup>* \<and> s \<in> set (le_source_refs e)}"
    by (rule upstream_closure [OF assms(1)])
  also have "\<dots> = (\<Union>e \<in> set events. set (le_source_refs e))" using own_events_closed [OF own] own by auto
  finally have up: "upstream_recursive ord rid max_hops ?g = (\<Union>e \<in> set events. set (le_source_refs e))" .
  have "finite (\<Union>e \<in> set events. set (le_source_refs e))" by simp
  from assms(2) [OF this] show ?thesis
    using assms(4) False own by (auto simp: root_cause_analysis_def lineage_of_def Let_def graph filt up collect_cdc_empty)
qed

text \<open>
  The removal of a source is simulated for a source with an empty path. When no event has such a source, nothing is found to be affected, and the
  report says that critical dependencies exist.
\<close>

lemma source_removal_sees_nothing:
  assumes "st_query_by_time_range st (now - year_ms) now = Inr events" "ord {} = []"
    and "\<forall>e \<in> set events. \<forall>s \<in> set (le_source_refs e). df_path s \<noteq> ''''" "pc_change_type change = DataSourceRemoval"
  shows "\<exists>report. simulate_change ord st now change = Inr report \<and> sr_affected_records_count report = 0 \<and> sr_affected_datasets report = [] \<and>
    sr_recommendation report = ''DO NOT PROCEED - critical dependencies exist''"
proof -
  let ?source = "\<lparr>df_system = pc_target change, df_path = '''', df_version = None, df_extracted_at = now, df_cdc_position = None\<rparr>"
  have none: "{x \<in> set events. uses_source ?source x} = {}"
    using assms(3) by (auto simp: filter_empty_conv uses_source_def list_ex_iff)
  show ?thesis using assms(1,2,4)
    by (simp add: simulate_change_def simulate_source_removal_def forward_impact_def Let_def lineage_graph_new_def split_beta none)
qed

text \<open>A change that removes a column and changes a type is reported as a removal only, and one that does neither is called safe whatever it affects.\<close>

lemma schema_change_verdict:
  assumes "simulate_schema_change ord st now change = Inr report"
  shows "sr_recommendation report = ''Safe to proceed'' \<longleftrightarrow> detail ''remove_column'' change = None \<and> detail ''change_type'' change = None"
    and "length (sr_breaking_changes report) \<le> 1"
  using assms by (auto simp: simulate_schema_change_def Let_def try_bind_Inr_conv split: if_splits)

section \<open>Witnesses\<close>

definition demo_store :: "unit lineage_store" where
  "demo_store = \<lparr>st_query_by_time_range = (\<lambda>_ _. Inr demo_derivations), st_get_record_lineage = (\<lambda>rid. Inr (filter (\<lambda>e. le_record_id e = rid) demo_derivations)),
     st_get_lineage_as_of = (\<lambda>rid _. Inr (filter (\<lambda>e. le_record_id e = rid) demo_derivations))\<rparr>"

lemma root_causes_are_direct_sources_witness:
  "\<exists>report. root_cause_analysis sorted_list_of_set sorted_list_of_set demo_store ''t'' None = Inr report \<and>
     set (rr_source_data_refs report) = {demo_ref ''n'', demo_ref ''b''} \<and> rr_replay_commands report = []"
proof -
  have "answers_for_record demo_store" by (auto simp: answers_for_record_def demo_store_def)
  moreover have "lineage_of demo_store ''t'' None = Inr [demo_lineage ''t'' [''n'', ''b'']]"
    by (simp add: lineage_of_def demo_store_def demo_derivations_def demo_lineage_def)
  ultimately obtain report where "root_cause_analysis sorted_list_of_set sorted_list_of_set demo_store ''t'' None = Inr report"
    "set (rr_source_data_refs report) = {demo_ref ''n'', demo_ref ''b''}"
    "rr_can_replay report \<longleftrightarrow> (\<exists>s \<in> set (rr_source_data_refs report). df_cdc_position s \<noteq> None)" "rr_can_replay report \<longleftrightarrow> rr_replay_commands report \<noteq> []"
    using root_causes_are_direct_sources [OF sorted_iteration sorted_list_of_set(1), of demo_store "''t''" None] by (auto simp: demo_lineage_def)
  then show ?thesis by (auto simp: demo_ref_def)
qed

end
