(* ===== verification/Checkpointing.thy ===== *)
theory Checkpointing
  imports ImpactAnalysis "HOL-Library.Multiset" "HOL-Library.List_Lexorder" "HOL-Library.Char_ord" "HOL-Library.Product_Lexorder"
begin

text \<open>
  Model of \<^verbatim>\<open>arcxa-core/src/checkpointing\<close>: the state that recognises repeated records within a window of time
  (\<^verbatim>\<open>dedup.rs\<close>), its use in the ingestion pipeline (\<^verbatim>\<open>deduplicate_with_state\<close> of \<^verbatim>\<open>arcxa-core/src/ingestion/dataflow.rs\<close>), and
  the files that keep checkpoints of it (\<^verbatim>\<open>mod.rs\<close>, \<^verbatim>\<open>storage.rs\<close>). Times are milliseconds, read from the clock where the code
  reads it. The encoding and the compression of a checkpoint are parameters; the directory is a map from file names to
  contents and modification times, and each system call may fail.
\<close>

section \<open>Deduplication within a window\<close>

record dedup_state =
  dd_seen :: "(string, int) hmap"
  dd_window_ms :: int
  dd_max_entries :: nat

definition dedup_new :: "int \<Rightarrow> nat \<Rightarrow> dedup_state" where
  "dedup_new window_ms max_entries = \<lparr>dd_seen = [], dd_window_ms = window_ms, dd_max_entries = max_entries\<rparr>"

definition is_duplicate :: "int \<Rightarrow> string \<Rightarrow> dedup_state \<Rightarrow> bool \<times> dedup_state" where
  "is_duplicate now k s =
     (case map_of (dd_seen s) k of
        Some timestamp \<Rightarrow>
          if now - timestamp < dd_window_ms s then (True, s) else (False, s\<lparr>dd_seen := AList.delete k (dd_seen s)\<rparr>)
      | None \<Rightarrow> (False, s))"

definition cleanup_old_entries :: "int \<Rightarrow> dedup_state \<Rightarrow> dedup_state" where
  "cleanup_old_entries now s =
     (let cutoff = now - dd_window_ms s in s\<lparr>dd_seen := filter (\<lambda>(_, timestamp). \<not> timestamp < cutoff) (dd_seen s)\<rparr>)"

text \<open>The clock is read again by the cleanup.\<close>

definition mark_seen :: "int \<Rightarrow> int \<Rightarrow> string \<Rightarrow> dedup_state \<Rightarrow> dedup_state" where
  "mark_seen now now' k s =
     (let s1 = s\<lparr>dd_seen := AList.update k now (dd_seen s)\<rparr> in
      if length (dd_seen s1) > dd_max_entries s1 then cleanup_old_entries now' s1 else s1)"

definition dedup_snapshot :: "dedup_state \<Rightarrow> (string, int) hmap" where
  "dedup_snapshot s = dd_seen s"

definition dedup_restore :: "int \<Rightarrow> (string, int) hmap \<Rightarrow> dedup_state \<Rightarrow> dedup_state" where
  "dedup_restore now state s =
     cleanup_old_entries now (s\<lparr>dd_seen := fold (\<lambda>(k, v). AList.update k v) state []\<rparr>)"

text \<open>One record in the pipeline: whether it is emitted.\<close>

definition dedup_record :: "int \<Rightarrow> int \<Rightarrow> int \<Rightarrow> string \<Rightarrow> dedup_state \<Rightarrow> bool \<times> dedup_state" where
  "dedup_record t1 t2 t3 k s =
     (case is_duplicate t1 k s of
        (True, s1) \<Rightarrow> (False, s1)
      | (False, s1) \<Rightarrow> (True, mark_seen t2 t3 k s1))"

section \<open>Checkpoint files\<close>

record ck_data =
  ck_kafka_offsets :: "(int, int) hmap"
  ck_dedup_state :: "(string, int) hmap"
  ck_timestamp :: nat
  ck_worker_count :: nat
  ck_version :: nat

definition ck_new :: "nat \<Rightarrow> nat \<Rightarrow> ck_data" where
  "ck_new now worker_count =
     \<lparr>ck_kafka_offsets = [], ck_dedup_state = [], ck_timestamp = now, ck_worker_count = worker_count, ck_version = 1\<rparr>"

definition with_offsets :: "(int, int) hmap \<Rightarrow> ck_data \<Rightarrow> ck_data" where
  "with_offsets offsets c = c\<lparr>ck_kafka_offsets := offsets\<rparr>"

definition with_dedup_state :: "(string, int) hmap \<Rightarrow> ck_data \<Rightarrow> ck_data" where
  "with_dedup_state state c = c\<lparr>ck_dedup_state := state\<rparr>"

definition estimated_size :: "ck_data \<Rightarrow> nat" where
  "estimated_size c = length (ck_kafka_offsets c) * 16 + length (ck_dedup_state c) * 100 + 100"

record checkpoint_lib =
  cl_serialize :: "ck_data \<Rightarrow> u8 list option"
  cl_deserialize :: "u8 list \<Rightarrow> ck_data option"
  cl_compress :: "u8 list \<Rightarrow> u8 list option"
  cl_decompress :: "u8 list \<Rightarrow> u8 list option"

datatype ck_error =
    NotSerialized | NotCompressed | NotWritten | NotListed | NotRemoved string | NotRead | NotDecompressed | NotDeserialized

text \<open>A file with its contents and the time it was modified.\<close>

type_synonym ck_dir = "(string, u8 list \<times> nat) hmap"

text \<open>
  What the system answers during one operation: whether a directory can be listed and a file read, how much of a file
  a failing write leaves behind, and which files cannot be removed.
\<close>

record ck_env =
  ce_list :: bool
  ce_read :: bool
  ce_write :: "nat option option"
  ce_remove :: "string \<Rightarrow> bool"
  ce_mtime :: nat

definition strip_suffix :: "string \<Rightarrow> string \<Rightarrow> string option" where
  "strip_suffix suf s =
     (if length suf \<le> length s \<and> drop (length s - length suf) s = suf then Some (take (length s - length suf) s) else None)"

definition strip_prefix :: "string \<Rightarrow> string \<Rightarrow> string option" where
  "strip_prefix pre s = (if take (length pre) s = pre then Some (drop (length pre) s) else None)"

text \<open>\<^verbatim>\<open>parse::<u128>()\<close>: digits after an optional plus sign.\<close>

definition parse_u128 :: "string \<Rightarrow> nat option" where
  "parse_u128 s =
     (let ds = (if s \<noteq> [] \<and> hd s = CHR ''+'' then tl s else s) in
      if ds = [] \<or> \<not> list_all (\<lambda>c. 48 \<le> (of_char c :: nat) \<and> (of_char c :: nat) \<le> 57) ds then None
      else if read_digits ds < 2 ^ 128 then Some (read_digits ds) else None)"

definition checkpoint_timestamp_from_path :: "string \<Rightarrow> nat option" where
  "checkpoint_timestamp_from_path name =
     Option.bind (case strip_suffix ''.bin.zst'' name of Some base \<Rightarrow> Some base | None \<Rightarrow> strip_suffix ''.bin'' name) (\<lambda>base.
     Option.bind (strip_prefix ''checkpoint_'' base) parse_u128)"

definition checkpoint_sort_key :: "string \<times> u8 list \<times> nat \<Rightarrow> nat \<times> nat \<times> string" where
  "checkpoint_sort_key entry =
     (case entry of
        (name, _, mtime) \<Rightarrow> (case checkpoint_timestamp_from_path name of Some t \<Rightarrow> t | None \<Rightarrow> 0, mtime, name))"

text \<open>\<^verbatim>\<open>Path::extension\<close>: what follows the last dot, unless that dot begins the name.\<close>

definition path_extension :: "string \<Rightarrow> string option" where
  "path_extension name =
     (let ext = rev (takeWhile (\<lambda>c. c \<noteq> CHR ''.'') (rev name)) in if length ext + 1 < length name then Some ext else None)"

definition is_checkpoint_file :: "string \<Rightarrow> bool" where
  "is_checkpoint_file name \<longleftrightarrow> path_extension name \<in> {Some ''bin'', Some ''zst''}"

text \<open>The checkpoint files, the newest first.\<close>

definition checkpoint_entries :: "ck_dir \<Rightarrow> (string \<times> u8 list \<times> nat) list" where
  "checkpoint_entries dir = rev (sort_key checkpoint_sort_key (filter (\<lambda>(name, _). is_checkpoint_file name) dir))"

definition ck_list :: "ck_env \<Rightarrow> ck_dir \<Rightarrow> ck_error + string list" where
  "ck_list E dir = (if ce_list E then Inr (map fst (checkpoint_entries dir)) else Inl NotListed)"

fun remove_files :: "ck_env \<Rightarrow> string list \<Rightarrow> ck_dir \<Rightarrow> ck_dir \<times> (ck_error + unit)" where
  "remove_files E [] dir = (dir, Inr ())"
| "remove_files E (name # names) dir =
     (if ce_remove E name then remove_files E names (AList.delete name dir) else (dir, Inl (NotRemoved name)))"

definition cleanup_old_checkpoints :: "ck_env \<Rightarrow> nat \<Rightarrow> ck_dir \<Rightarrow> ck_dir \<times> (ck_error + unit)" where
  "cleanup_old_checkpoints E max_checkpoints dir =
     (if \<not> ce_list E then (dir, Inl NotListed)
      else
        (let entries = checkpoint_entries dir in
         if length entries > max_checkpoints then remove_files E (map fst (drop max_checkpoints entries)) dir else (dir, Inr ())))"

text \<open>Write a file; a write that fails may leave the beginning of the file.\<close>

definition write_file :: "ck_env \<Rightarrow> string \<Rightarrow> u8 list \<Rightarrow> ck_dir \<Rightarrow> ck_dir \<times> (ck_error + unit)" where
  "write_file E name data dir =
     (case ce_write E of
        None \<Rightarrow> (AList.update name (data, ce_mtime E) dir, Inr ())
      | Some None \<Rightarrow> (dir, Inl NotWritten)
      | Some (Some n) \<Rightarrow> (AList.update name (take n data, ce_mtime E) dir, Inl NotWritten))"

definition store_file :: "ck_env \<Rightarrow> nat \<Rightarrow> string \<Rightarrow> u8 list \<Rightarrow> ck_dir \<Rightarrow> ck_dir \<times> (ck_error + string)" where
  "store_file E max_checkpoints name data dir =
     (case write_file E name data dir of
        (dir1, Inl e) \<Rightarrow> (dir1, Inl e)
      | (dir1, Inr _) \<Rightarrow>
          (case cleanup_old_checkpoints E max_checkpoints dir1 of
             (dir2, Inl e) \<Rightarrow> (dir2, Inl e)
           | (dir2, Inr _) \<Rightarrow> (dir2, Inr name)))"

definition compressed_name :: "nat \<Rightarrow> string" where
  "compressed_name t = ''checkpoint_'' @ show_nat t @ ''.bin.zst''"

definition write_async :: "checkpoint_lib \<Rightarrow> ck_env \<Rightarrow> nat \<Rightarrow> ck_data \<Rightarrow> ck_dir \<Rightarrow> ck_dir \<times> (ck_error + string)" where
  "write_async L E max_checkpoints c dir =
     (let name = compressed_name (ck_timestamp c) in
      (case cl_serialize L c of
         None \<Rightarrow> (dir, Inl NotSerialized)
       | Some data \<Rightarrow>
           (case cl_compress L data of
              None \<Rightarrow> (dir, Inl NotCompressed)
            | Some compressed \<Rightarrow> store_file E max_checkpoints name compressed dir)))"

definition write_sync :: "checkpoint_lib \<Rightarrow> ck_env \<Rightarrow> nat \<Rightarrow> ck_data \<Rightarrow> ck_dir \<Rightarrow> ck_dir \<times> (ck_error + string)" where
  "write_sync L E max_checkpoints c dir =
     (let name = ''checkpoint_'' @ show_nat (ck_timestamp c) @ ''.bin'' in
      (case cl_serialize L c of
         None \<Rightarrow> (dir, Inl NotSerialized)
       | Some data \<Rightarrow> store_file E max_checkpoints name data dir))"

definition decode_file :: "checkpoint_lib \<Rightarrow> string \<Rightarrow> u8 list \<Rightarrow> ck_error + ck_data" where
  "decode_file L name data =
     try_bind (if path_extension name = Some ''zst''
               then (case cl_decompress L data of None \<Rightarrow> Inl NotDecompressed | Some d \<Rightarrow> Inr d) else Inr data) (\<lambda>d.
       case cl_deserialize L d of None \<Rightarrow> Inl NotDeserialized | Some c \<Rightarrow> Inr c)"

definition latest :: "checkpoint_lib \<Rightarrow> ck_env \<Rightarrow> ck_dir \<Rightarrow> ck_error + ck_data option" where
  "latest L E dir =
     (if \<not> ce_list E then Inl NotListed
      else
        (case checkpoint_entries dir of
           [] \<Rightarrow> Inr None
         | (name, data, _) # _ \<Rightarrow> if \<not> ce_read E then Inl NotRead else try_bind (decode_file L name data) (\<lambda>c. Inr (Some c))))"

definition ck_clear :: "ck_env \<Rightarrow> ck_dir \<Rightarrow> ck_dir \<times> (ck_error + unit)" where
  "ck_clear E dir = (case ck_list E dir of Inl e \<Rightarrow> (dir, Inl e) | Inr names \<Rightarrow> remove_files E names dir)"

text \<open>\<^verbatim>\<open>CheckpointManager::write_checkpoint\<close>.\<close>

definition checkpoint_of :: "nat \<Rightarrow> nat \<Rightarrow> (int, int) hmap \<Rightarrow> dedup_state \<Rightarrow> ck_data" where
  "checkpoint_of now workers offsets s = with_dedup_state (dedup_snapshot s) (with_offsets offsets (ck_new now workers))"

definition write_checkpoint ::
  "checkpoint_lib \<Rightarrow> ck_env \<Rightarrow> nat \<Rightarrow> nat \<Rightarrow> nat \<Rightarrow> (int, int) hmap \<Rightarrow> dedup_state \<Rightarrow> ck_dir \<Rightarrow> ck_dir \<times> (ck_error + string)" where
  "write_checkpoint L E max_checkpoints now workers offsets s dir =
     write_async L E max_checkpoints (checkpoint_of now workers offsets s) dir"

section \<open>What the pipeline emits\<close>

text \<open>
  The calls a pipeline makes, with the times it reads: a record, the background cleanup, a checkpoint that is written, and
  a restart, after which the new state takes over the deduplication state of the last checkpoint, if there is one. The state
  is that of the deduplication and what the last checkpoint holds of it. The trace has each record with the time it was
  looked up, the time it was marked, and whether it was emitted, and the checkpoints and restarts in between.
\<close>

datatype dedup_call = DRecord int int int string | DCleanup int | DCheckpoint | DRestart int

datatype dedup_event = Looked string int int bool | Saved | Restarted

fun dedup_run ::
  "dedup_call list \<Rightarrow> dedup_state \<Rightarrow> (string, int) hmap \<Rightarrow> dedup_event list \<times> dedup_state \<times> (string, int) hmap" where
  "dedup_run [] s saved = ([], s, saved)"
| "dedup_run (DRecord t1 t2 t3 k # calls) s saved =
     (case dedup_record t1 t2 t3 k s of
        (emitted, s1) \<Rightarrow> (case dedup_run calls s1 saved of (out, r) \<Rightarrow> (Looked k t1 t2 emitted # out, r)))"
| "dedup_run (DCleanup t # calls) s saved = dedup_run calls (cleanup_old_entries t s) saved"
| "dedup_run (DCheckpoint # calls) s saved = (case dedup_run calls s (dedup_snapshot s) of (out, r) \<Rightarrow> (Saved # out, r))"
| "dedup_run (DRestart t # calls) s saved =
     (case dedup_run calls (dedup_restore t saved (dedup_new (dd_window_ms s) (dd_max_entries s))) saved of
        (out, r) \<Rightarrow> (Restarted # out, r))"

text \<open>The clock does not run backwards.\<close>

fun clocked :: "int \<Rightarrow> dedup_call list \<Rightarrow> bool" where
  "clocked c [] = True"
| "clocked c (DRecord t1 t2 t3 k # calls) = (c \<le> t1 \<and> t1 \<le> t2 \<and> t2 \<le> t3 \<and> clocked t3 calls)"
| "clocked c (DCleanup t # calls) = (c \<le> t \<and> clocked t calls)"
| "clocked c (DCheckpoint # calls) = clocked c calls"
| "clocked c (DRestart t # calls) = (c \<le> t \<and> clocked t calls)"

text \<open>
  The emissions of a trace, and those the pipeline remembers after it, beside those of the last checkpoint: a restart falls
  back to the latter.
\<close>

definition emissions :: "dedup_event list \<Rightarrow> (string \<times> int) set" where
  "emissions out = {(k, u). \<exists>t. Looked k t u True \<in> set out}"

fun remember :: "dedup_event \<Rightarrow> (string \<times> int) set \<times> (string \<times> int) set \<Rightarrow> (string \<times> int) set \<times> (string \<times> int) set" where
  "remember (Looked k t u emitted) (em, kept) = (if emitted then insert (k, u) em else em, kept)"
| "remember Saved (em, kept) = (em, em)"
| "remember Restarted (em, kept) = (kept, kept)"

definition remembered :: "dedup_event list \<Rightarrow> (string \<times> int) set" where
  "remembered out = fst (fold remember out ({}, {}))"

lemma emissions_simps [simp]:
  "emissions [] = {}" "emissions (Looked k t u e # out) = (if e then insert (k, u) (emissions out) else emissions out)"
  "emissions (Saved # out) = emissions out" "emissions (Restarted # out) = emissions out"
  by (auto simp: emissions_def)

lemma emissions_append: "emissions (out @ out') = emissions out \<union> emissions out'"
  by (auto simp: emissions_def)

lemma remember_running:
  "Restarted \<notin> set out \<Longrightarrow> fst (fold remember out (em, kept)) = em \<union> emissions out"
proof (induction out arbitrary: em kept)
  case (Cons e out)
  then show ?case by (cases e) auto
qed simp

lemma remember_kept: "Saved \<notin> set out \<Longrightarrow> Restarted \<notin> set out \<Longrightarrow> snd (fold remember out (em, kept)) = kept"
proof (induction out arbitrary: em kept)
  case (Cons e out)
  then show ?case by (cases e) auto
qed simp

lemma remember_within:
  "em \<union> kept \<subseteq> E \<Longrightarrow> fst (fold remember out (em, kept)) \<union> snd (fold remember out (em, kept)) \<subseteq> E \<union> emissions out"
proof (induction out arbitrary: em kept E)
  case (Cons e out)
  show ?case
  proof (cases e)
    case (Looked k t u b)
    have "em \<union> kept \<subseteq> E" "insert (k, u) em \<union> kept \<subseteq> insert (k, u) E" using Cons.prems by auto
    from Cons.IH [OF this(1)] Cons.IH [OF this(2)] show ?thesis by (cases b) (simp_all add: Looked)
  next
    case Saved
    then show ?thesis using Cons.prems Cons.IH [of em em E] by auto
  next
    case Restarted
    then show ?thesis using Cons.prems Cons.IH [of kept kept E] by auto
  qed
qed simp

text \<open>After one restart, what was emitted before the last checkpoint and since the restart.\<close>

lemma remembered_restart:
  assumes "Restarted \<notin> set a" "Saved \<notin> set b" "Restarted \<notin> set b" "Restarted \<notin> set c"
  shows "remembered (a @ Saved # b @ Restarted # c) = emissions a \<union> emissions c"
proof -
  obtain em kept where a: "fold remember a ({}, {}) = (em, kept)" by force
  then have em: "em = emissions a" using remember_running [OF assms(1), of "{}" "{}"] by simp
  obtain em' kept' where b: "fold remember b (em, em) = (em', kept')" by force
  then have "kept' = em" using remember_kept [OF assms(2,3), of em em] by simp
  then have "remembered (a @ Saved # b @ Restarted # c) = fst (fold remember c (em, em))" by (simp add: remembered_def a b)
  then show ?thesis using remember_running [OF assms(4), of em em] by (simp add: em)
qed

text \<open>The state at time \<open>c\<close> knows what was emitted within the window, and nothing that was not emitted.\<close>

definition dedup_inv :: "int \<Rightarrow> (string \<times> int) set \<Rightarrow> dedup_state \<Rightarrow> bool" where
  "dedup_inv c em s \<longleftrightarrow>
     hm_wf (dd_seen s) \<and>
     (\<forall>k t. map_of (dd_seen s) k = Some t \<longrightarrow> (k, t) \<in> em) \<and>
     (\<forall>(k, u) \<in> em. u \<le> c \<and> (c - u < dd_window_ms s \<longrightarrow> (\<exists>t. map_of (dd_seen s) k = Some t \<and> u \<le> t)))"

lemma dedup_invD:
  assumes "dedup_inv c em s"
  shows "hm_wf (dd_seen s)" "map_of (dd_seen s) k = Some t \<Longrightarrow> (k, t) \<in> em" "(k, u) \<in> em \<Longrightarrow> u \<le> c"
    "(k, u) \<in> em \<Longrightarrow> c - u < dd_window_ms s \<Longrightarrow> \<exists>t. map_of (dd_seen s) k = Some t \<and> u \<le> t"
  using assms unfolding dedup_inv_def by blast+

lemma map_of_filter_value:
  assumes "hm_wf m"
  shows "map_of (filter (\<lambda>(_, v). P v) m) k = (case map_of m k of Some v \<Rightarrow> if P v then Some v else None | None \<Rightarrow> None)"
proof -
  have "distinct (map fst m)"
    using assms by (simp add: hm_wf_def)
  thus ?thesis
    by (induction m) (auto split: option.splits dest: map_of_SomeD simp: map_of_eq_None_iff)
qed

lemma cleanup_inv:
  assumes inv: "dedup_inv c em s" and c: "c \<le> now"
  shows "dedup_inv now em (cleanup_old_entries now s) \<and> dd_window_ms (cleanup_old_entries now s) = dd_window_ms s \<and>
     dd_max_entries (cleanup_old_entries now s) = dd_max_entries s"
proof -
  let ?s = "cleanup_old_entries now s"
  have seen: "map_of (dd_seen ?s) k = (case map_of (dd_seen s) k of Some t \<Rightarrow> if now - dd_window_ms s \<le> t then Some t else None | None \<Rightarrow> None)" for k
    using map_of_filter_value [OF dedup_invD(1) [OF inv], of "\<lambda>t. \<not> t < now - dd_window_ms s"]
    by (simp add: cleanup_old_entries_def Let_def not_less split: option.splits)
  have wf: "hm_wf (dd_seen ?s)"
    using dedup_invD(1) [OF inv] by (simp add: cleanup_old_entries_def Let_def hm_wf_def distinct_map_filter)
  have "\<exists>t. map_of (dd_seen ?s) k = Some t \<and> u \<le> t" if u: "(k, u) \<in> em" "now - u < dd_window_ms s" for k u
  proof -
    obtain t where "map_of (dd_seen s) k = Some t" "u \<le> t"
      using dedup_invD(4) [OF inv u(1)] u(2) c by auto
    thus ?thesis
      using u(2) by (simp add: seen)
  qed
  moreover have "(k, t) \<in> em" if "map_of (dd_seen ?s) k = Some t" for k t
    using that dedup_invD(2) [OF inv] by (auto simp: seen split: option.splits if_splits)
  moreover have "u \<le> now" if "(k, u) \<in> em" for k u
    using dedup_invD(3) [OF inv that] c by simp
  moreover have "dd_window_ms ?s = dd_window_ms s" "dd_max_entries ?s = dd_max_entries s"
    by (simp_all add: cleanup_old_entries_def Let_def)
  ultimately show ?thesis
    using wf unfolding dedup_inv_def by auto
qed

lemma restored_map:
  assumes "hm_wf m"
  shows "map_of (fold (\<lambda>(k, v). AList.update k v) m []) = map_of m"
proof
  fix k
  have d: "distinct (map fst m)"
    using assms by (simp add: hm_wf_def)
  have eq: "fold (\<lambda>(k, v). AList.update k v) m [] = fold (\<lambda>e. AList.update (fst e) (snd e)) m []"
    by (simp add: case_prod_unfold)
  show "map_of (fold (\<lambda>(k, v). AList.update k v) m []) k = map_of m k"
  proof (cases "map_of m k")
    case None
    hence "k \<notin> fst ` set m"
      by (simp add: map_of_eq_None_iff)
    thus ?thesis
      using hm.get_fold_ins_other [of "[]" k fst m snd] None by (simp add: eq)
  next
    case (Some v)
    thus ?thesis
      using hm.get_fold_ins_mem [of "[]" fst m "(k, v)" snd, OF _ d map_of_SomeD [OF Some]] unfolding eq by simp
  qed
qed

lemma restore_inv:
  assumes inv: "dedup_inv c em s" and c: "c \<le> now"
  shows "dedup_inv now em (dedup_restore now (dedup_snapshot s) (dedup_new (dd_window_ms s) m))"
proof -
  let ?s = "(dedup_new (dd_window_ms s) m)\<lparr>dd_seen := fold (\<lambda>(k, v). AList.update k v) (dd_seen s) []\<rparr>"
  have "hm_wf (dd_seen ?s)"
    using hm.wf_fold_ins [of "[]" fst snd "dd_seen s"] by (simp add: case_prod_unfold)
  hence "dedup_inv c em ?s"
    using inv restored_map [OF dedup_invD(1) [OF inv]] by (simp add: dedup_inv_def dedup_new_def)
  thus ?thesis
    using cleanup_inv [OF _ c] by (simp add: dedup_restore_def dedup_snapshot_def)
qed

lemma duplicate_inv:
  assumes inv: "dedup_inv c em s" and c: "c \<le> now" and run: "is_duplicate now k s = (dup, s')"
  shows "dedup_inv now em s' \<and> dd_window_ms s' = dd_window_ms s \<and> (dup \<longleftrightarrow> (\<exists>u. (k, u) \<in> em \<and> now - u < dd_window_ms s))"
proof -
  have known: "\<exists>t. map_of (dd_seen s) x = Some t \<and> now - t < dd_window_ms s \<and> u \<le> t" if "(x, u) \<in> em" "now - u < dd_window_ms s" for x u
    using dedup_invD(4) [OF inv that(1)] that(2) c by force
  have later: "dedup_inv now em s"
    using inv c unfolding dedup_inv_def by force
  show ?thesis
  proof (cases "map_of (dd_seen s) k")
    case None
    hence "\<not> (\<exists>u. (k, u) \<in> em \<and> now - u < dd_window_ms s)"
      using known by force
    thus ?thesis
      using run None later by (auto simp: is_duplicate_def)
  next
    case (Some t)
    show ?thesis
    proof (cases "now - t < dd_window_ms s")
      case True
      thus ?thesis
        using run Some later dedup_invD(2) [OF inv Some] by (auto simp: is_duplicate_def)
    next
      case False
      hence old: "\<not> (\<exists>u. (k, u) \<in> em \<and> now - u < dd_window_ms s)"
        using known Some by force
      have "s' = s\<lparr>dd_seen := AList.delete k (dd_seen s)\<rparr>" "\<not> dup"
        using run Some False by (auto simp: is_duplicate_def)
      moreover have "dedup_inv now em (s\<lparr>dd_seen := AList.delete k (dd_seen s)\<rparr>)"
        using later old unfolding dedup_inv_def by (auto simp: hm_get_delete)
      ultimately show ?thesis
        using old by simp
    qed
  qed
qed

lemma record_inv:
  assumes inv: "dedup_inv c em s" and t: "c \<le> t1" "t1 \<le> t2" "t2 \<le> t3" and run: "dedup_record t1 t2 t3 k s = (emitted, s')"
  shows "(emitted \<longleftrightarrow> \<not> (\<exists>u. (k, u) \<in> em \<and> t1 - u < dd_window_ms s)) \<and> dd_window_ms s' = dd_window_ms s \<and>
     dedup_inv t3 (if emitted then insert (k, t2) em else em) s'"
proof -
  obtain dup s1 where d: "is_duplicate t1 k s = (dup, s1)"
    by force
  note di = duplicate_inv [OF inv t(1) d]
  show ?thesis
  proof (cases dup)
    case True
    hence "\<not> emitted" "s' = s1"
      using run d by (auto simp: dedup_record_def)
    moreover have "dedup_inv t3 em s1"
      using di t unfolding dedup_inv_def by force
    ultimately show ?thesis
      using di True by simp
  next
    case False
    let ?s = "s1\<lparr>dd_seen := AList.update k t2 (dd_seen s1)\<rparr>"
    have "dedup_inv t2 (insert (k, t2) em) ?s"
      using di t(2) unfolding dedup_inv_def by (force simp: hm_get_update)
    moreover from this have "dedup_inv t3 (insert (k, t2) em) ?s"
      using t(3) unfolding dedup_inv_def by force
    ultimately have "dedup_inv t3 (insert (k, t2) em) (mark_seen t2 t3 k s1)" "dd_window_ms (mark_seen t2 t3 k s1) = dd_window_ms s1"
      using cleanup_inv [of t2 "insert (k, t2) em" ?s t3] t(3) by (simp_all add: mark_seen_def Let_def)
    moreover have "emitted" "s' = mark_seen t2 t3 k s1"
      using run d False by (auto simp: dedup_record_def)
    ultimately show ?thesis
      using di False by simp
  qed
qed

lemma later_inv: "dedup_inv c em s \<Longrightarrow> c \<le> c' \<Longrightarrow> dedup_inv c' em s"
  unfolding dedup_inv_def by force

lemma restart_inv:
  assumes "dedup_inv c em (s\<lparr>dd_seen := saved\<rparr>)" "c \<le> now"
  shows "dedup_inv now em (dedup_restore now saved (dedup_new (dd_window_ms s) m))"
  using restore_inv [OF assms, of m] by (simp add: dedup_snapshot_def)

text \<open>The saved state stays right as time passes, whatever the running one becomes.\<close>

lemma saved_inv:
  assumes "dedup_inv c em (s\<lparr>dd_seen := saved\<rparr>)" "c \<le> c'" "dd_window_ms s' = dd_window_ms s"
  shows "dedup_inv c' em (s'\<lparr>dd_seen := saved\<rparr>)"
  using later_inv [OF assms(1,2)] assms(3) by (simp add: dedup_inv_def)

lemma run_emits:
  assumes "dedup_inv c em s" "dedup_inv c kept (s\<lparr>dd_seen := saved\<rparr>)" "clocked c calls"
    and "dedup_run calls s saved = (pre @ Looked k t u emitted # post, r)"
  shows "emitted \<longleftrightarrow> \<not> (\<exists>u'. (k, u') \<in> fst (fold remember pre (em, kept)) \<and> t - u' < dd_window_ms s)"
  using assms
proof (induction calls s saved arbitrary: c em kept pre rule: dedup_run.induct)
  case (2 t1 t2 t3 x calls s saved)
  obtain b s1 where rc: "dedup_record t1 t2 t3 x s = (b, s1)"
    by force
  obtain out r' where o: "dedup_run calls s1 saved = (out, r')"
    by (metis surj_pair)
  have t: "c \<le> t1" "t1 \<le> t2" "t2 \<le> t3" "clocked t3 calls"
    using "2.prems"(3) by simp_all
  note ri = record_inv [OF "2.prems"(1) t(1-3) rc]
  have split: "Looked x t1 t2 b # out = pre @ Looked k t u emitted # post" "r = r'"
    using "2.prems"(4) rc o by auto
  show ?case
  proof (cases pre)
    case Nil
    thus ?thesis
      using split ri by auto
  next
    case (Cons e pre')
    hence e: "e = Looked x t1 t2 b" "dedup_run calls s1 saved = (pre' @ Looked k t u emitted # post, r)"
      using split o by auto
    have inv: "dedup_inv t3 (if b then insert (x, t2) em else em) s1" and w: "dd_window_ms s1 = dd_window_ms s"
      using ri by blast+
    have sv: "dedup_inv t3 kept (s1\<lparr>dd_seen := saved\<rparr>)"
      by (rule saved_inv [OF "2.prems"(2) _ w]) (use t in simp)
    show ?thesis
      using "2.IH" [OF rc [symmetric] inv sv t(4) e(2)] unfolding w by (simp add: Cons e(1))
  qed
next
  case (3 t1 calls s saved)
  hence t: "c \<le> t1" "clocked t1 calls"
    and run: "dedup_run calls (cleanup_old_entries t1 s) saved = (pre @ Looked k t u emitted # post, r)"
    by simp_all
  note ci = cleanup_inv [OF "3.prems"(1) t(1)]
  have w: "dd_window_ms (cleanup_old_entries t1 s) = dd_window_ms s" using ci by blast
  show ?case
    using "3.IH" [OF _ saved_inv [OF "3.prems"(2) t(1) w] t(2) run, of em] ci by presburger
next
  case (4 calls s saved)
  obtain out r' where o: "dedup_run calls s (dedup_snapshot s) = (out, r')"
    by (metis surj_pair)
  hence "Saved # out = pre @ Looked k t u emitted # post" "r = r'"
    using "4.prems"(4) by auto
  then obtain pre' where pre: "pre = Saved # pre'" "dedup_run calls s (dedup_snapshot s) = (pre' @ Looked k t u emitted # post, r)"
    using o by (cases pre) auto
  have sv: "dedup_inv c em (s\<lparr>dd_seen := dedup_snapshot s\<rparr>)"
    using "4.prems"(1) by (simp add: dedup_snapshot_def)
  show ?case
    using "4.IH" [OF "4.prems"(1) sv _ pre(2)] "4.prems"(3) by (simp add: pre(1))
next
  case (5 t1 calls s saved)
  let ?s = "dedup_restore t1 saved (dedup_new (dd_window_ms s) (dd_max_entries s))"
  have t: "c \<le> t1" "clocked t1 calls"
    using "5.prems"(3) by simp_all
  obtain out r' where o: "dedup_run calls ?s saved = (out, r')"
    by (metis surj_pair)
  hence "Restarted # out = pre @ Looked k t u emitted # post" "r = r'"
    using "5.prems"(4) by auto
  then obtain pre' where pre: "pre = Restarted # pre'" "dedup_run calls ?s saved = (pre' @ Looked k t u emitted # post, r)"
    using o by (cases pre) auto
  have w: "dd_window_ms ?s = dd_window_ms s"
    by (simp add: dedup_restore_def cleanup_old_entries_def dedup_new_def Let_def)
  show ?case
    using "5.IH" [OF restart_inv [OF "5.prems"(2) t(1)] saved_inv [OF "5.prems"(2) t(1) w] t(2) pre(2)] unfolding w
    by (simp add: pre(1))
qed simp

text \<open>
  C25. Exactly once within the window, between restarts: with a clock that does not run backwards, whatever cleanups run,
  however small the limit on the entries is, and whenever checkpoints are written and the pipeline restarts from the last of
  them, a record is emitted exactly when no remembered emission of its identifier is less than the window before. Remembered
  is what was emitted, except that a restart falls back to what was remembered at the last checkpoint: without a restart that
  is every emission, and after a restart the emissions before the last checkpoint and those since. So a record that was
  emitted after the last checkpoint and comes again after a restart is emitted a second time.
\<close>

theorem dedup_exactly_once:
  assumes "clocked c calls"
    and "dedup_run calls (dedup_new window_ms max_entries) [] = (pre @ Looked k t u emitted # post, r)"
  shows "(emitted \<longleftrightarrow> \<not> (\<exists>u'. (k, u') \<in> remembered pre \<and> t - u' < window_ms)) \<and>
    remembered pre \<subseteq> emissions pre \<and> (Restarted \<notin> set pre \<longrightarrow> remembered pre = emissions pre) \<and>
    (\<forall>a b d. pre = a @ Saved # b @ Restarted # d \<and> Restarted \<notin> set a \<and> Saved \<notin> set b \<and> Restarted \<notin> set b \<and> Restarted \<notin> set d \<longrightarrow>
      remembered pre = emissions a \<union> emissions d)"
proof -
  have inv: "dedup_inv c {} (dedup_new window_ms max_entries)"
    by (simp add: dedup_inv_def dedup_new_def)
  hence "dedup_inv c {} ((dedup_new window_ms max_entries)\<lparr>dd_seen := []\<rparr>)"
    by (simp add: dedup_new_def)
  hence "emitted \<longleftrightarrow> \<not> (\<exists>u'. (k, u') \<in> remembered pre \<and> t - u' < window_ms)"
    using run_emits [OF inv _ assms] by (simp add: remembered_def dedup_new_def)
  moreover have "remembered pre \<subseteq> emissions pre"
    using remember_within [of "{}" "{}" "{}" pre] by (auto simp: remembered_def)
  moreover have "remembered pre = emissions pre" if "Restarted \<notin> set pre"
    using remember_running [OF that, of "{}" "{}"] by (simp add: remembered_def)
  ultimately show ?thesis
    using remembered_restart by blast
qed

theorem dedup_exactly_once_witness:
  "fst (dedup_run [DRecord 0 0 1 ''a'', DCheckpoint, DRecord 2 2 2 ''b'', DRestart 3, DRecord 5 5 5 ''a'', DRecord 5 5 5 ''b''] (dedup_new 10 0) []) =
     [Looked ''a'' 0 0 True, Saved, Looked ''b'' 2 2 True, Restarted, Looked ''a'' 5 5 False, Looked ''b'' 5 5 True] \<and>
   remembered [Looked ''a'' 0 0 True, Saved, Looked ''b'' 2 2 True, Restarted, Looked ''a'' 5 5 False] = {(''a'', 0)}"
proof -
  let ?pre = "[Looked ''a'' 0 0 True, Saved, Looked ''b'' 2 2 True, Restarted, Looked ''a'' 5 5 False]"
  have run: "dedup_run [DRecord 0 0 1 ''a'', DCheckpoint, DRecord 2 2 2 ''b'', DRestart 3, DRecord 5 5 5 ''a'', DRecord 5 5 5 ''b''] (dedup_new 10 0) [] =
      (?pre @ Looked ''b'' 5 5 True # [], \<lparr>dd_seen = [(''a'', 0), (''b'', 5)], dd_window_ms = 10, dd_max_entries = 0\<rparr>, [(''a'', 0)])"
    by (simp add: dedup_record_def is_duplicate_def dedup_new_def mark_seen_def cleanup_old_entries_def dedup_restore_def dedup_snapshot_def)
  have "?pre = [Looked ''a'' 0 0 True] @ Saved # [Looked ''b'' 2 2 True] @ Restarted # [Looked ''a'' 5 5 False]" by simp
  then have "remembered ?pre = emissions [Looked ''a'' 0 0 True] \<union> emissions [Looked ''a'' 5 5 False]"
    using dedup_exactly_once [OF _ run, of 0, THEN conjunct2, THEN conjunct2, THEN conjunct2, rule_format,
        of "[Looked ''a'' 0 0 True]" "[Looked ''b'' 2 2 True]" "[Looked ''a'' 5 5 False]"] by simp
  then show ?thesis
    unfolding run by simp
qed

text \<open>The limit on the entries is not a bound: entries within the window are kept beyond it.\<close>

lemma limit_is_exceeded:
  "length (dd_seen (fst (snd (dedup_run [DRecord 0 0 0 ''a'', DRecord 0 0 0 ''b'', DRecord 0 0 0 ''c''] (dedup_new 10 1) [])))) = 3"
  by (simp add: dedup_record_def is_duplicate_def dedup_new_def mark_seen_def cleanup_old_entries_def)

section \<open>What is read back from a checkpoint\<close>

definition lib_lawful_ck :: "checkpoint_lib \<Rightarrow> bool" where
  "lib_lawful_ck L \<longleftrightarrow>
     (\<forall>c data. cl_serialize L c = Some data \<longrightarrow> cl_deserialize L data = Some c) \<and>
     (\<forall>data z. cl_compress L data = Some z \<longrightarrow> cl_decompress L z = Some data)"

definition env_ok :: "ck_env \<Rightarrow> bool" where
  "env_ok E \<longleftrightarrow> ce_list E \<and> ce_read E \<and> ce_write E = None \<and> (\<forall>name. ce_remove E name)"

definition embedded_time :: "string \<Rightarrow> nat" where
  "embedded_time name = (case checkpoint_timestamp_from_path name of Some t \<Rightarrow> t | None \<Rightarrow> 0)"

lemma compressed_name:
  "path_extension (compressed_name t) = Some ''zst''" "is_checkpoint_file (compressed_name t)"
  by (simp_all add: compressed_name_def path_extension_def is_checkpoint_file_def Let_def)

lemma parse_shown: "n < 2 ^ 128 \<Longrightarrow> parse_u128 (show_nat n) = Some n"
proof -
  assume n: "n < 2 ^ 128"
  have ne: "show_nat n \<noteq> []"
    by (simp add: show_nat.simps [of n])
  have digits: "list_all (\<lambda>c. 48 \<le> (of_char c :: nat) \<and> (of_char c :: nat) \<le> 57) (show_nat n)"
    using show_nat_digits by (auto simp: list_all_iff)
  have "hd (show_nat n) \<noteq> CHR ''+''"
    using show_nat_digits [OF hd_in_set [OF ne]] by force
  thus ?thesis
    using n ne digits by (simp add: parse_u128_def Let_def read_show_nat)
qed

lemma embedded_compressed: "n < 2 ^ 128 \<Longrightarrow> embedded_time (compressed_name n) = n"
  by (simp add: embedded_time_def checkpoint_timestamp_from_path_def compressed_name_def strip_suffix_def strip_prefix_def parse_shown)

lemma remove_files_ok: "env_ok E \<Longrightarrow> remove_files E names dir = (fold AList.delete names dir, Inr ())"
  by (induction names arbitrary: dir) (simp_all add: env_ok_def)

lemma fold_delete: "fold AList.delete names dir = filter (\<lambda>e. fst e \<notin> set names) dir"
  by (induction names arbitrary: dir) (auto simp: AList.delete_eq intro!: filter_cong)

lemma last_sorted:
  fixes key :: "'a \<Rightarrow> 'b :: linorder"
  assumes "x \<in> set xs" "\<And>y. y \<in> set xs \<Longrightarrow> y \<noteq> x \<Longrightarrow> key y < key x"
  shows "\<exists>ys. rev (sort_key key xs) = x # ys"
proof -
  let ?zs = "sort_key key xs"
  have ne: "?zs \<noteq> []"
    using assms(1) by (metis empty_iff list.set(1) set_sort)
  have "key x \<le> key (last ?zs)"
  proof -
    have "sorted (map key ?zs)"
      by (rule sorted_sort_key)
    hence "sorted (map key (butlast ?zs) @ [key (last ?zs)])"
      using ne by (metis append_butlast_last_id list.simps(8,9) map_append)
    moreover have "x \<in> set (butlast ?zs) \<or> x = last ?zs"
      using assms(1) ne by (metis append_butlast_last_id in_set_conv_decomp set_ConsD set_sort rotate1.simps(2) set_rotate1)
    ultimately show ?thesis
      by (auto simp: sorted_append)
  qed
  moreover have "last ?zs \<in> set xs"
    using last_in_set [OF ne] by simp
  ultimately have "last ?zs = x"
    using assms(2) by (meson leD)
  thus ?thesis
    using ne by (metis append_butlast_last_id rev_eq_Cons_iff rev_rev_ident)
qed

text \<open>The newest file is first.\<close>

lemma newest_entry:
  assumes "(name, data, m) \<in> set dir" "is_checkpoint_file name" "hm_wf dir"
    and "\<And>name'. name' \<in> fst ` set dir \<Longrightarrow> is_checkpoint_file name' \<Longrightarrow> name' \<noteq> name \<Longrightarrow> embedded_time name' < embedded_time name"
  shows "\<exists>rest. checkpoint_entries dir = (name, data, m) # rest"
  unfolding checkpoint_entries_def
proof (rule last_sorted)
  show "(name, data, m) \<in> set (filter (\<lambda>(name, _). is_checkpoint_file name) dir)"
    using assms(1,2) by simp
  fix y
  assume y: "y \<in> set (filter (\<lambda>(name, _). is_checkpoint_file name) dir)" "y \<noteq> (name, data, m)"
  obtain name' data' m' where y': "y = (name', data', m')"
    by (cases y) auto
  have "name' \<noteq> name"
    using y y' assms(1,3) by (auto simp: hm_mem_get)
  hence "embedded_time name' < embedded_time name"
    using assms(4) [of name'] y y' by force
  thus "checkpoint_sort_key y < checkpoint_sort_key (name, data, m)"
    by (simp add: y' checkpoint_sort_key_def less_prod_def embedded_time_def)
qed

text \<open>At most the allowed number of files is left, and the newest of them stay.\<close>

lemma cleanup_spec:
  assumes E: "env_ok E" and wf: "hm_wf dir" and entries: "checkpoint_entries dir = e # rest" and n: "0 < n"
  shows "\<exists>dir'. cleanup_old_checkpoints E n dir = (dir', Inr ()) \<and> hm_wf dir' \<and> e \<in> set dir' \<and> set dir' \<subseteq> set dir \<and>
     length (checkpoint_entries dir') \<le> n"
proof (cases "length (checkpoint_entries dir) > n")
  case False
  have "e \<in> set dir"
    using entries by (metis (no_types, lifting) checkpoint_entries_def filter_is_subset list.set_intros(1) set_rev set_sort subsetD)
  thus ?thesis
    using False E wf by (simp add: cleanup_old_checkpoints_def env_ok_def Let_def)
next
  case True
  let ?ck = "\<lambda>(name, _). is_checkpoint_file name" and ?es = "checkpoint_entries dir"
  let ?gone = "map fst (drop n ?es)"
  let ?dir = "filter (\<lambda>e. fst e \<notin> set ?gone) dir"
  have mset: "mset ?es = mset (filter ?ck dir)"
    by (simp add: checkpoint_entries_def)
  have dist: "distinct (map fst ?es)"
  proof -
    have "distinct (map fst (filter ?ck dir))"
      using wf by (simp add: hm_wf_def distinct_map_filter)
    thus ?thesis
      using mset by (metis mset_eq_imp_distinct_iff mset_map)
  qed
  have run: "cleanup_old_checkpoints E n dir = (?dir, Inr ())"
    using True E remove_files_ok [OF E, of ?gone dir] by (simp add: cleanup_old_checkpoints_def env_ok_def Let_def fold_delete)
  have e: "e \<in> set ?dir"
  proof -
    obtain n' where n': "n = Suc n'"
      using n by (cases n) simp_all
    have "drop n ?es = drop n' rest" "fst e \<notin> fst ` set rest"
      using dist n' by (simp_all add: entries)
    hence "fst e \<notin> set ?gone"
      using set_drop_subset [of n' rest] by auto
    moreover have "e \<in> set dir"
      using mset entries by (metis (no_types, lifting) filter_is_subset list.set_intros(1) set_mset_mset subsetD)
    ultimately show ?thesis
      by simp
  qed
  have "length (filter ?ck ?dir) = length (filter (\<lambda>e. fst e \<notin> set ?gone) ?es)"
  proof -
    have "filter ?ck ?dir = filter (\<lambda>e. fst e \<notin> set ?gone) (filter ?ck dir)"
      by (simp add: conj_commute case_prod_unfold)
    thus ?thesis
      using mset by (metis mset_filter size_mset)
  qed
  also have "\<dots> = length (filter (\<lambda>e. fst e \<notin> set ?gone) (take n ?es)) + length (filter (\<lambda>e. fst e \<notin> set ?gone) (drop n ?es))"
    by (metis append_take_drop_id filter_append length_append)
  also have "filter (\<lambda>e. fst e \<notin> set ?gone) (drop n ?es) = []"
    by (simp add: filter_empty_conv)
  also have "length (filter (\<lambda>e. fst e \<notin> set ?gone) (take n ?es)) + length ([] :: (string \<times> u8 list \<times> nat) list) \<le> n"
    using length_filter_le [of "\<lambda>e. fst e \<notin> set ?gone" "take n ?es"] by simp
  finally have "length (checkpoint_entries ?dir) \<le> n"
    by (simp add: checkpoint_entries_def)
  moreover have "hm_wf ?dir"
    using wf by (simp add: hm_wf_def distinct_map_filter)
  ultimately show ?thesis
    using run e by (intro exI [of _ ?dir]) auto
qed

text \<open>
  C26. A checkpoint is read back: when its time is later than that of the files in the directory and no system call fails,
  writing a checkpoint of the offsets and of the deduplication state succeeds, the latest checkpoint is then exactly
  the one written, and at most the allowed number of files is left.
\<close>

theorem checkpoint_roundtrip:
  assumes "lib_lawful_ck L" "env_ok E" "hm_wf dir" "0 < max_checkpoints" "now < 2 ^ 128"
    and "cl_serialize L (checkpoint_of now workers offsets s) = Some data" "cl_compress L data = Some z"
    and "\<forall>name \<in> fst ` set dir. is_checkpoint_file name \<longrightarrow> embedded_time name < now"
  shows "\<exists>name dir' c. write_checkpoint L E max_checkpoints now workers offsets s dir = (dir', Inr name) \<and>
     latest L E dir' = Inr (Some c) \<and> ck_kafka_offsets c = offsets \<and> ck_dedup_state c = dedup_snapshot s \<and>
     ck_timestamp c = now \<and> length (checkpoint_entries dir') \<le> max_checkpoints"
proof -
  define c where "c = checkpoint_of now workers offsets s"
  have c: "ck_kafka_offsets c = offsets" "ck_dedup_state c = dedup_snapshot s" "ck_timestamp c = now"
    by (simp_all add: c_def checkpoint_of_def with_dedup_state_def with_offsets_def ck_new_def)
  have z: "cl_serialize L c = Some data" "cl_compress L data = Some z"
    using assms(6,7) by (simp_all add: c_def)
  let ?name = "compressed_name now" and ?e = "(compressed_name now, z, ce_mtime E)"
  let ?dir = "AList.update ?name (z, ce_mtime E) dir"
  have wf: "hm_wf ?dir"
    using assms(3) by simp
  have mem: "?e \<in> set ?dir"
    using hm_mem_get [OF wf] by (simp add: hm_get_update)
  have older: "embedded_time name' < embedded_time ?name" if "name' \<in> fst ` set ?dir" "is_checkpoint_file name'" "name' \<noteq> ?name" for name'
  proof -
    have "map_of ?dir name' \<noteq> None"
      unfolding map_of_eq_None_iff using that(1) by simp
    hence "map_of dir name' \<noteq> None"
      using that(3) unfolding hm_get_update by simp
    hence "name' \<in> fst ` set dir"
      unfolding map_of_eq_None_iff by simp
    thus ?thesis
      unfolding embedded_compressed [OF assms(5)] using assms(8) that(2) by blast
  qed
  obtain rest where rest: "checkpoint_entries ?dir = ?e # rest"
    using newest_entry [OF mem compressed_name(2) wf older] by blast
  obtain dir' where dir': "cleanup_old_checkpoints E max_checkpoints ?dir = (dir', Inr ())" "hm_wf dir'" "?e \<in> set dir'"
      "set dir' \<subseteq> set ?dir" "length (checkpoint_entries dir') \<le> max_checkpoints"
    using cleanup_spec [OF assms(2) wf rest assms(4)] by blast
  have "write_checkpoint L E max_checkpoints now workers offsets s dir = (dir', Inr ?name)"
    using z dir'(1) assms(2) c(3)
    by (simp add: write_checkpoint_def write_async_def store_file_def write_file_def env_ok_def Let_def c_def [symmetric])
  moreover obtain rest' where "checkpoint_entries dir' = ?e # rest'"
    using newest_entry [OF dir'(3) compressed_name(2) dir'(2)] older dir'(4) by blast
  hence "latest L E dir' = Inr (Some c)"
    using assms(1,2) z by (simp add: latest_def env_ok_def decode_file_def compressed_name(1) lib_lawful_ck_def)
  ultimately show ?thesis
    using c dir'(5) by blast
qed

section \<open>Examples\<close>

text \<open>A library that knows one checkpoint; its compression puts a byte in front of the data.\<close>

definition demo_dedup :: dedup_state where
  "demo_dedup = \<lparr>dd_seen = [(''a'', 5)], dd_window_ms = 10, dd_max_entries = 100\<rparr>"

definition demo_ck_lib :: checkpoint_lib where
  "demo_ck_lib =
     \<lparr>cl_serialize = (\<lambda>c. if c = checkpoint_of 7 1 [(0, 42)] demo_dedup then Some [1] else None),
      cl_deserialize = (\<lambda>data. if data = [1] then Some (checkpoint_of 7 1 [(0, 42)] demo_dedup) else None),
      cl_compress = (\<lambda>data. Some (0 # data)), cl_decompress = (\<lambda>z. case z of [] \<Rightarrow> None | _ # data \<Rightarrow> Some data)\<rparr>"

definition demo_ck_env :: ck_env where
  "demo_ck_env = \<lparr>ce_list = True, ce_read = True, ce_write = None, ce_remove = (\<lambda>_. True), ce_mtime = 8\<rparr>"

lemma demo_ck_ok:
  "lib_lawful_ck demo_ck_lib" "env_ok demo_ck_env"
  "cl_serialize demo_ck_lib (checkpoint_of 7 1 [(0, 42)] demo_dedup) = Some [1]" "cl_compress demo_ck_lib [1] = Some [0, 1]"
  by (auto simp: lib_lawful_ck_def demo_ck_lib_def env_ok_def demo_ck_env_def split: if_splits)

theorem checkpoint_roundtrip_witness:
  "\<exists>name dir' c. write_checkpoint demo_ck_lib demo_ck_env 1 7 1 [(0, 42)] demo_dedup [(compressed_name 3, [0], 3)] = (dir', Inr name) \<and>
     latest demo_ck_lib demo_ck_env dir' = Inr (Some c) \<and> ck_kafka_offsets c = [(0, 42)] \<and> ck_dedup_state c = [(''a'', 5)] \<and>
     length (checkpoint_entries dir') \<le> 1"
proof -
  have dir: "hm_wf [(compressed_name 3, [0 :: u8], 3 :: nat)]"
      "\<forall>name \<in> fst ` set [(compressed_name 3, [0 :: u8], 3 :: nat)]. is_checkpoint_file name \<longrightarrow> embedded_time name < 7"
    by (simp_all add: hm_wf_def embedded_compressed)
  have "(0 :: nat) < 1" "(7 :: nat) < 2 ^ 128"
    by simp_all
  from checkpoint_roundtrip [OF demo_ck_ok(1,2) dir(1) this demo_ck_ok(3,4) dir(2)] show ?thesis
    by (simp add: dedup_snapshot_def demo_dedup_def) blast
qed

text \<open>A write that fails halfway leaves a file that is the latest checkpoint and cannot be read; older ones are not tried.\<close>

lemma partial_write_blocks_recovery:
  assumes "ce_list E" "ce_read E" "ce_write E = Some (Some n)" "now < 2 ^ 128" "1 < now"
    and "cl_serialize L (checkpoint_of now workers offsets s) = Some data" "cl_compress L data = Some z" "cl_decompress L (take n z) = None"
  shows "\<exists>dir'. write_checkpoint L E m now workers offsets s [(compressed_name 1, old, 1)] = (dir', Inl NotWritten) \<and>
     latest L E dir' = Inl NotDecompressed"
proof -
  let ?dir = "[(compressed_name 1, old, 1), (compressed_name now, take n z, ce_mtime E)]"
  have names: "embedded_time (compressed_name now) = now" "embedded_time (compressed_name 1) = 1"
    using embedded_compressed assms(4) by simp_all
  hence ne: "compressed_name 1 \<noteq> compressed_name now"
    using assms(5) by auto
  have "\<exists>rest. checkpoint_entries ?dir = (compressed_name now, take n z, ce_mtime E) # rest"
    by (rule newest_entry) (use names ne assms(5) in \<open>auto simp: compressed_name(2) hm_wf_def\<close>)
  moreover have "write_checkpoint L E m now workers offsets s [(compressed_name 1, old, 1)] = (?dir, Inl NotWritten)"
  proof -
    have "ck_timestamp (checkpoint_of now workers offsets s) = now"
      by (simp add: checkpoint_of_def with_dedup_state_def with_offsets_def ck_new_def)
    thus ?thesis
      using assms(3,6,7) ne by (simp add: write_checkpoint_def write_async_def store_file_def write_file_def Let_def)
  qed
  ultimately show ?thesis
    using assms(1,2,8) by (auto simp: latest_def decode_file_def compressed_name(1))
qed

end
