(* ===== verification/StreamDedup.thy ===== *)
theory StreamDedup
  imports Checkpointing KV WorkflowRouting
begin

text \<open>
  Model of the streaming deduplicator, \<^verbatim>\<open>arcxa-core/src/orchestration/workflow/streaming_deduplicator.rs\<close>: rows are keyed
  by some of their fields, and the keys seen so far are kept in three tiers, a Bloom filter, a cache of bounded size and
  RocksDB. The three are parameters, as are the encoding of an entry (its bytes are the type \<open>'y\<close>), the rendering of a value and the numbers of the
  quality score; the clock is an argument. Lineage tracking is a stub in the code and is left out, as are the log messages.
\<close>

section \<open>Entries and libraries\<close>

datatype keep_strategy = KFirst | KLast | KMerge | KHighestQuality

datatype dedup_method = MExact | MFuzzy | MSemantic

record ('n, 'x) dedup_entry =
  de_first_seen_idx :: u64
  de_first_row_id :: "string option"
  de_first_timestamp :: int
  de_last_seen_idx :: u64
  de_last_row_id :: "string option"
  de_last_timestamp :: int
  de_occurrence_count :: u32
  de_access_count :: u32
  de_quality_score :: "'x option"
  de_merged_fields :: "(string, 'n json) hmap option"

datatype 'n dedup_decision = Keep "'n json" "string list option" | Skip string string

record dedup_stats =
  dt_total_processed :: nat
  dt_kept_count :: nat
  dt_duplicate_count :: nat
  dt_batches_processed :: nat
  dt_cache_hits :: nat
  dt_cache_misses :: nat
  dt_rocks_lookups :: nat
  dt_memory_flushes :: nat

text \<open>\<^verbatim>\<open>get_mut\<close> gives access to the entry in the cache: it is a change by a function.\<close>

record ('c, 'b, 'db, 'n, 'x, 'y) tier_ops =
  lr_modify :: "string \<Rightarrow> (('n, 'x) dedup_entry \<Rightarrow> ('n, 'x) dedup_entry) \<Rightarrow> 'c \<Rightarrow> ('n, 'x) dedup_entry option \<times> 'c"
  lr_put :: "string \<Rightarrow> ('n, 'x) dedup_entry \<Rightarrow> 'c \<Rightarrow> 'c"
  lr_len :: "'c \<Rightarrow> nat"
  lr_cap :: "'c \<Rightarrow> nat"
  lr_pop :: "'c \<Rightarrow> (string \<times> ('n, 'x) dedup_entry) option \<times> 'c"
  bl_check :: "string \<Rightarrow> 'b \<Rightarrow> bool"
  bl_set :: "string \<Rightarrow> 'b \<Rightarrow> 'b"
  bl_bits :: "'b \<Rightarrow> nat"
  rk_get :: "string \<Rightarrow> 'db \<Rightarrow> kv_error + 'y option"
  rk_put :: "string \<Rightarrow> 'y \<Rightarrow> 'db \<Rightarrow> kv_error + 'db"
  rk_write :: "(string \<times> 'y) list \<Rightarrow> 'db \<Rightarrow> kv_error + 'db"
  ee_enc :: "('n, 'x) dedup_entry \<Rightarrow> 'y option"
  ee_dec :: "'y \<Rightarrow> ('n, 'x) dedup_entry option"

record ('n, 'x) score_lib =
  sc_zero :: 'x
  sc_one :: 'x
  sc_half :: 'x
  sc_add :: "'x \<Rightarrow> 'x \<Rightarrow> 'x"
  sc_div :: "'x \<Rightarrow> 'x \<Rightarrow> 'x"
  sc_gt :: "'x \<Rightarrow> 'x \<Rightarrow> bool"
  sc_show :: "'x \<Rightarrow> string"
  sc_blank :: "string \<Rightarrow> bool"
  sc_render :: "'n json \<Rightarrow> string"
  sc_lower_trim :: "string \<Rightarrow> string"

definition entry_new :: "int \<Rightarrow> u64 \<Rightarrow> string option \<Rightarrow> ('n, 'x) dedup_entry" where
  "entry_new now idx row_id =
     \<lparr>de_first_seen_idx = idx, de_first_row_id = row_id, de_first_timestamp = now, de_last_seen_idx = idx,
      de_last_row_id = row_id, de_last_timestamp = now, de_occurrence_count = 1, de_access_count = 1,
      de_quality_score = None, de_merged_fields = None\<rparr>"

definition entry_update :: "int \<Rightarrow> u64 \<Rightarrow> string option \<Rightarrow> ('n, 'x) dedup_entry \<Rightarrow> ('n, 'x) dedup_entry" where
  "entry_update now idx row_id e =
     e\<lparr>de_last_seen_idx := idx, de_last_row_id := row_id, de_last_timestamp := now,
       de_occurrence_count := de_occurrence_count e + 1, de_access_count := de_access_count e + 1\<rparr>"

section \<open>The state manager\<close>

record ('c, 'b, 'db) dedup_manager =
  dm_cache :: 'c
  dm_bloom :: 'b
  dm_rocks :: "'db option"
  dm_prefix :: string
  dm_memory_limit :: nat
  dm_stats :: dedup_stats
  dm_idx :: nat

definition stats_new :: dedup_stats where
  "stats_new = \<lparr>dt_total_processed = 0, dt_kept_count = 0, dt_duplicate_count = 0, dt_batches_processed = 0, dt_cache_hits = 0,
     dt_cache_misses = 0, dt_rocks_lookups = 0, dt_memory_flushes = 0\<rparr>"

definition manager_new :: "'c \<Rightarrow> 'b \<Rightarrow> 'db option \<Rightarrow> string \<Rightarrow> int \<Rightarrow> nat \<Rightarrow> ('c, 'b, 'db) dedup_manager" where
  "manager_new cache bloom rocks execution_id now limit =
     \<lparr>dm_cache = cache, dm_bloom = bloom, dm_rocks = rocks,
      dm_prefix = ''dedup/'' @ execution_id @ ''/'' @ show_nat (nat now), dm_memory_limit = limit, dm_stats = stats_new, dm_idx = 0\<rparr>"

definition db_key :: "('c, 'b, 'db) dedup_manager \<Rightarrow> string \<Rightarrow> string" where
  "db_key m key = dm_prefix m @ ''/'' @ key"

definition count_kept :: "('c, 'b, 'db) dedup_manager \<Rightarrow> ('c, 'b, 'db) dedup_manager" where
  "count_kept m = m\<lparr>dm_stats := (dm_stats m)\<lparr>dt_kept_count := dt_kept_count (dm_stats m) + 1\<rparr>\<rparr>"

definition count_decision :: "'n dedup_decision \<Rightarrow> ('c, 'b, 'db) dedup_manager \<Rightarrow> ('c, 'b, 'db) dedup_manager" where
  "count_decision d m =
     (case d of
        Skip _ _ \<Rightarrow> m\<lparr>dm_stats := (dm_stats m)\<lparr>dt_duplicate_count := dt_duplicate_count (dm_stats m) + 1\<rparr>\<rparr>
      | Keep _ _ \<Rightarrow> m)"

text \<open>Insert an entry into the cache, or into the database when the cache is full.\<close>

definition insert_entry ::
  "('c, 'b, 'db, 'n, 'x, 'y) tier_ops \<Rightarrow> string \<Rightarrow> ('n, 'x) dedup_entry \<Rightarrow> ('c, 'b, 'db) dedup_manager \<Rightarrow> kv_error + ('c, 'b, 'db) dedup_manager" where
  "insert_entry T key e m =
     (if lr_len T (dm_cache m) < lr_cap T (dm_cache m) then Inr (m\<lparr>dm_cache := lr_put T key e (dm_cache m)\<rparr>)
      else
        (case dm_rocks m of
           None \<Rightarrow> Inr m
         | Some db \<Rightarrow>
             (case ee_enc T e of
                None \<Rightarrow> Inr m
              | Some bs \<Rightarrow>
                  (case rk_put T (db_key m key) bs db of Inl err \<Rightarrow> Inl err | Inr db' \<Rightarrow> Inr (m\<lparr>dm_rocks := Some db'\<rparr>)))))"

definition score_field :: "('n, 'x) score_lib \<Rightarrow> string \<times> 'n json \<Rightarrow> 'x \<times> 'x \<Rightarrow> 'x \<times> 'x" where
  "score_field L kv acc =
     (case acc of
        (score, max_score) \<Rightarrow>
          (case snd kv of
             JNull \<Rightarrow> score
           | JStr s \<Rightarrow>
               (let score1 = sc_add L score (sc_one L) in if sc_blank L s then score1 else sc_add L score1 (sc_half L))
           | _ \<Rightarrow> sc_add L score (sc_one L),
           sc_add L max_score (sc_one L)))"

definition calculate_quality_score :: "('n, 'x) score_lib \<Rightarrow> 'n json \<Rightarrow> 'x" where
  "calculate_quality_score L row =
     (case row of
        JObj kvs \<Rightarrow>
          (case fold (score_field L) kvs (sc_zero L, sc_zero L) of
             (score, max_score) \<Rightarrow> if sc_gt L max_score (sc_zero L) then sc_div L score max_score else sc_zero L)
      | _ \<Rightarrow> sc_zero L)"

definition merge_field :: "string \<times> 'n json \<Rightarrow> (string \<times> 'n json) list \<Rightarrow> (string \<times> 'n json) list" where
  "merge_field kv obj =
     (case map_of obj (fst kv) of
        None \<Rightarrow> AList.update (fst kv) (snd kv) obj
      | Some JNull \<Rightarrow> AList.update (fst kv) (snd kv) obj
      | Some _ \<Rightarrow> obj)"

definition merge_row :: "(string, 'n json) hmap option \<Rightarrow> 'n json \<Rightarrow> 'n json" where
  "merge_row merged row =
     (case (merged, row) of (Some kvs, JObj obj) \<Rightarrow> JObj (fold merge_field kvs obj) | _ \<Rightarrow> row)"

definition apply_keep_strategy ::
  "('n, 'x) score_lib \<Rightarrow> ('n, 'x) dedup_entry \<Rightarrow> 'n json \<Rightarrow> keep_strategy \<Rightarrow> string \<Rightarrow> 'n dedup_decision" where
  "apply_keep_strategy L e row strategy key =
     (let from_first = map_option (\<lambda>x. [x]) (de_first_row_id e) in
      case strategy of
        KFirst \<Rightarrow> Skip (''Duplicate of row at index '' @ show_nat (unat (de_first_seen_idx e))) key
      | KLast \<Rightarrow> Keep row from_first
      | KMerge \<Rightarrow> Keep (merge_row (de_merged_fields e) row) from_first
      | KHighestQuality \<Rightarrow>
          (let current = calculate_quality_score L row in
           case de_quality_score e of
             Some existing \<Rightarrow>
               if sc_gt L current existing then Keep row from_first
               else Skip (''Lower quality ('' @ sc_show L current @ '') than existing ('' @ sc_show L existing @ '')'') key
           | None \<Rightarrow> Keep row None))"

definition row_id_of :: "'n json \<Rightarrow> string option" where
  "row_id_of row = (case json_get ''_row_id'' row of Some (JStr s) \<Rightarrow> Some s | _ \<Rightarrow> None)"

text \<open>A key that is in none of the tiers.\<close>

definition new_key ::
  "('c, 'b, 'db, 'n, 'x, 'y) tier_ops \<Rightarrow> int \<Rightarrow> u64 \<Rightarrow> string \<Rightarrow> 'n json \<Rightarrow> ('c, 'b, 'db) dedup_manager \<Rightarrow>
     kv_error + ('n dedup_decision \<times> ('c, 'b, 'db) dedup_manager)" where
  "new_key T now idx key row m =
     try_bind (insert_entry T key (entry_new now idx (row_id_of row)) (m\<lparr>dm_bloom := bl_set T key (dm_bloom m)\<rparr>)) (\<lambda>m1.
       Inr (Keep row None, count_kept m1))"

text \<open>A key found in the database: the entry is updated, moved to the cache when it is used often, and written back.\<close>

definition known_in_rocks ::
  "('c, 'b, 'db, 'n, 'x, 'y) tier_ops \<Rightarrow> ('n, 'x) score_lib \<Rightarrow> keep_strategy \<Rightarrow> string \<Rightarrow> 'n json \<Rightarrow> ('n, 'x) dedup_entry \<Rightarrow> 'db \<Rightarrow>
     ('c, 'b, 'db) dedup_manager \<Rightarrow> 'n dedup_decision \<times> ('c, 'b, 'db) dedup_manager" where
  "known_in_rocks T L strategy key row e db m =
     (let m1 = (if de_access_count e > 2 then m\<lparr>dm_cache := lr_put T key e (dm_cache m)\<rparr> else m);
          d = apply_keep_strategy L e row strategy key;
          m2 = count_decision d m1 in
      (d, case ee_enc T e of
            None \<Rightarrow> m2
          | Some bs \<Rightarrow> (case rk_put T (db_key m key) bs db of Inl _ \<Rightarrow> m2 | Inr db' \<Rightarrow> m2\<lparr>dm_rocks := Some db'\<rparr>)))"

definition rocks_entry :: "('c, 'b, 'db, 'n, 'x, 'y) tier_ops \<Rightarrow> string \<Rightarrow> ('c, 'b, 'db) dedup_manager \<Rightarrow> (('n, 'x) dedup_entry \<times> 'db) option" where
  "rocks_entry T key m =
     (case dm_rocks m of
        None \<Rightarrow> None
      | Some db \<Rightarrow>
          (case rk_get T (db_key m key) db of
             Inr (Some bs) \<Rightarrow> map_option (\<lambda>e. (e, db)) (ee_dec T bs)
           | _ \<Rightarrow> None))"

definition miss_cache :: "('c, 'b, 'db) dedup_manager \<Rightarrow> ('c, 'b, 'db) dedup_manager" where
  "miss_cache m =
     m\<lparr>dm_stats := (dm_stats m)
         \<lparr>dt_cache_misses := dt_cache_misses (dm_stats m) + 1,
          dt_rocks_lookups := dt_rocks_lookups (dm_stats m) + (if dm_rocks m = None then 0 else 1)\<rparr>\<rparr>"

definition start_row :: "('c, 'b, 'db) dedup_manager \<Rightarrow> ('c, 'b, 'db) dedup_manager" where
  "start_row m =
     m\<lparr>dm_idx := dm_idx m + 1, dm_stats := (dm_stats m)\<lparr>dt_total_processed := dt_total_processed (dm_stats m) + 1\<rparr>\<rparr>"

definition hit_cache :: "'c \<Rightarrow> ('c, 'b, 'db) dedup_manager \<Rightarrow> ('c, 'b, 'db) dedup_manager" where
  "hit_cache c m = m\<lparr>dm_cache := c, dm_stats := (dm_stats m)\<lparr>dt_cache_hits := dt_cache_hits (dm_stats m) + 1\<rparr>\<rparr>"

text \<open>A key that passes the filter: it is looked up in the cache, then in the database.\<close>

definition look_up ::
  "('c, 'b, 'db, 'n, 'x, 'y) tier_ops \<Rightarrow> ('n, 'x) score_lib \<Rightarrow> keep_strategy \<Rightarrow> int \<Rightarrow> u64 \<Rightarrow> string \<Rightarrow> 'n json \<Rightarrow> ('c, 'b, 'db) dedup_manager \<Rightarrow>
     kv_error + ('n dedup_decision \<times> ('c, 'b, 'db) dedup_manager)" where
  "look_up T L strategy now idx key row m =
     (case lr_modify T key (entry_update now idx (row_id_of row)) (dm_cache m) of
        (Some e, c) \<Rightarrow> (let d = apply_keep_strategy L e row strategy key in Inr (d, count_decision d (hit_cache c m)))
      | (None, c) \<Rightarrow>
          (let m1 = miss_cache (m\<lparr>dm_cache := c\<rparr>) in
           case rocks_entry T key m1 of
             Some (e, db) \<Rightarrow> Inr (known_in_rocks T L strategy key row (entry_update now idx (row_id_of row) e) db m1)
           | None \<Rightarrow> new_key T now idx key row m1))"

definition process_row ::
  "('c, 'b, 'db, 'n, 'x, 'y) tier_ops \<Rightarrow> ('n, 'x) score_lib \<Rightarrow> keep_strategy \<Rightarrow> int \<Rightarrow> string \<times> 'n json \<Rightarrow> ('c, 'b, 'db) dedup_manager \<Rightarrow>
     kv_error + ('n dedup_decision \<times> ('c, 'b, 'db) dedup_manager)" where
  "process_row T L strategy now kr m =
     (if \<not> bl_check T (fst kr) (dm_bloom m) then new_key T now (of_nat (dm_idx m)) (fst kr) (snd kr) (start_row m)
      else look_up T L strategy now (of_nat (dm_idx m)) (fst kr) (snd kr) (start_row m))"

fun pop_entries :: "('c, 'b, 'db, 'n, 'x, 'y) tier_ops \<Rightarrow> nat \<Rightarrow> 'c \<Rightarrow> (string \<times> ('n, 'x) dedup_entry) list \<times> 'c" where
  "pop_entries T 0 c = ([], c)"
| "pop_entries T (Suc n) c =
     (case lr_pop T c of
        (None, c1) \<Rightarrow> pop_entries T n c1
      | (Some ke, c1) \<Rightarrow> (case pop_entries T n c1 of (kes, c2) \<Rightarrow> (ke # kes, c2)))"

text \<open>Half of the cache, the least recently used entries, goes to the database.\<close>

definition flush_to_disk ::
  "('c, 'b, 'db, 'n, 'x, 'y) tier_ops \<Rightarrow> ('c, 'b, 'db) dedup_manager \<Rightarrow> ('c, 'b, 'db) dedup_manager \<times> (kv_error + unit)" where
  "flush_to_disk T m =
     (case dm_rocks m of
        None \<Rightarrow> (m, Inr ())
      | Some db \<Rightarrow>
          (case pop_entries T (lr_len T (dm_cache m) div 2) (dm_cache m) of
             (kes, c) \<Rightarrow>
               (let m1 = m\<lparr>dm_cache := c\<rparr>;
                    ops = List.map_filter (\<lambda>(k, e). map_option (Pair (db_key m k)) (ee_enc T e)) kes in
                (case rk_write T ops db of
                   Inl err \<Rightarrow> (m1, Inl err)
                 | Inr db' \<Rightarrow> (m1\<lparr>dm_rocks := Some db'\<rparr>, Inr ())))))"

definition estimate_memory :: "('c, 'b, 'db, 'n, 'x, 'y) tier_ops \<Rightarrow> ('c, 'b, 'db) dedup_manager \<Rightarrow> nat" where
  "estimate_memory T m = lr_len T (dm_cache m) * 1024 + bl_bits T (dm_bloom m) div 8"

fun process_rows ::
  "('c, 'b, 'db, 'n, 'x, 'y) tier_ops \<Rightarrow> ('n, 'x) score_lib \<Rightarrow> keep_strategy \<Rightarrow> int \<Rightarrow> (string \<times> 'n json) list \<Rightarrow>
     ('c, 'b, 'db) dedup_manager \<Rightarrow> kv_error + ('n dedup_decision list \<times> ('c, 'b, 'db) dedup_manager)" where
  "process_rows T L strategy now [] m = Inr ([], m)"
| "process_rows T L strategy now (kr # krs) m =
     try_bind (process_row T L strategy now kr m) (\<lambda>(d, m1).
     try_bind (process_rows T L strategy now krs m1) (\<lambda>(ds, m2). Inr (d # ds, m2)))"

definition process_batch ::
  "('c, 'b, 'db, 'n, 'x, 'y) tier_ops \<Rightarrow> ('n, 'x) score_lib \<Rightarrow> keep_strategy \<Rightarrow> int \<Rightarrow> (string \<times> 'n json) list \<Rightarrow>
     ('c, 'b, 'db) dedup_manager \<Rightarrow> kv_error + ('n dedup_decision list \<times> ('c, 'b, 'db) dedup_manager)" where
  "process_batch T L strategy now krs m =
     try_bind (process_rows T L strategy now krs m) (\<lambda>(ds, m1).
       (let m2 = m1\<lparr>dm_stats := (dm_stats m1)\<lparr>dt_batches_processed := dt_batches_processed (dm_stats m1) + 1\<rparr>\<rparr> in
        if estimate_memory T m2 > dm_memory_limit m2 then
          (case flush_to_disk T m2 of
             (_, Inl err) \<Rightarrow> Inl err
           | (m3, Inr _) \<Rightarrow>
               Inr (ds, m3\<lparr>dm_stats := (dm_stats m3)\<lparr>dt_memory_flushes := dt_memory_flushes (dm_stats m3) + 1\<rparr>\<rparr>))
        else Inr (ds, m2)))"

section \<open>The deduplicator\<close>

fun join_bar :: "string list \<Rightarrow> string" where
  "join_bar [] = []"
| "join_bar [s] = s"
| "join_bar (s # ss) = s @ ''|'' @ join_bar ss"

definition field_text :: "('n, 'x) score_lib \<Rightarrow> 'n json \<Rightarrow> string \<Rightarrow> string" where
  "field_text L row field = (case json_get field row of Some (JStr s) \<Rightarrow> s | Some v \<Rightarrow> sc_render L v | None \<Rightarrow> [])"

definition build_key_for_row :: "('n, 'x) score_lib \<Rightarrow> dedup_method \<Rightarrow> string list \<Rightarrow> 'n json \<Rightarrow> string" where
  "build_key_for_row L meth key_fields row =
     (let key = join_bar (map (field_text L row) key_fields) in
      case meth of MExact \<Rightarrow> key | MFuzzy \<Rightarrow> sc_lower_trim L key | MSemantic \<Rightarrow> key)"

definition kept_row :: "'n dedup_decision \<Rightarrow> 'n json option" where
  "kept_row d = (case d of Keep row _ \<Rightarrow> Some row | Skip _ _ \<Rightarrow> None)"

text \<open>The loop of \<^verbatim>\<open>execute\<close> over the batches of rows: the rows it keeps.\<close>

fun dedup_execute ::
  "('c, 'b, 'db, 'n, 'x, 'y) tier_ops \<Rightarrow> ('n, 'x) score_lib \<Rightarrow> dedup_method \<Rightarrow> string list \<Rightarrow> keep_strategy \<Rightarrow> int \<Rightarrow> 'n json list list \<Rightarrow>
     ('c, 'b, 'db) dedup_manager \<Rightarrow> kv_error + ('n json list \<times> ('c, 'b, 'db) dedup_manager)" where
  "dedup_execute T L meth key_fields strategy now [] m = Inr ([], m)"
| "dedup_execute T L meth key_fields strategy now (batch # batches) m =
     try_bind (process_batch T L strategy now (map (\<lambda>row. (build_key_for_row L meth key_fields row, row)) batch) m) (\<lambda>(ds, m1).
     try_bind (dedup_execute T L meth key_fields strategy now batches m1) (\<lambda>(rows, m2).
       Inr (List.map_filter kept_row ds @ rows, m2)))"

section \<open>Laws of the tiers\<close>

text \<open>
  \<open>w\<close> is what a cache holds and \<open>r\<close> what a database holds. A cache evicts an entry only when a new key is put into it
  while it is full; a Bloom filter has no false negatives.
\<close>

definition cache_lawful :: "('c, 'b, 'db, 'n, 'x, 'y) tier_ops \<Rightarrow> ('c \<Rightarrow> string \<Rightarrow> ('n, 'x) dedup_entry option) \<Rightarrow> bool" where
  "cache_lawful T w \<longleftrightarrow>
     (\<forall>c. finite (dom (w c)) \<and> lr_len T c = card (dom (w c))) \<and>
     (\<forall>k f c. fst (lr_modify T k f c) = map_option f (w c k) \<and> w (snd (lr_modify T k f c)) = (w c)(k := map_option f (w c k)) \<and>
        lr_cap T (snd (lr_modify T k f c)) = lr_cap T c) \<and>
     (\<forall>k e c. (lr_len T c < lr_cap T c \<longrightarrow> w (lr_put T k e c) = (w c)(k \<mapsto> e)) \<and> lr_cap T (lr_put T k e c) = lr_cap T c) \<and>
     (\<forall>c. lr_cap T (snd (lr_pop T c)) = lr_cap T c \<and>
        (case fst (lr_pop T c) of
           None \<Rightarrow> w (snd (lr_pop T c)) = w c
         | Some (k, e) \<Rightarrow> w c k = Some e \<and> w (snd (lr_pop T c)) = (w c)(k := None)))"

definition bloom_lawful :: "('c, 'b, 'db, 'n, 'x, 'y) tier_ops \<Rightarrow> bool" where
  "bloom_lawful T \<longleftrightarrow>
     (\<forall>k b. bl_check T k (bl_set T k b)) \<and> (\<forall>k x b. bl_check T x b \<longrightarrow> bl_check T x (bl_set T k b))"

text \<open>
  The entries that are stored: the code never sets their merged fields. Only for those is the encoding asked to be read
  back, as \<^verbatim>\<open>bincode\<close> does not read back the JSON values of merged fields.
\<close>

definition plain_entry :: "('n, 'x) dedup_entry \<Rightarrow> bool" where
  "plain_entry e \<longleftrightarrow> de_merged_fields e = None"

definition rocks_reliable :: "('c, 'b, 'db, 'n, 'x, 'y) tier_ops \<Rightarrow> ('db \<Rightarrow> string \<Rightarrow> 'y option) \<Rightarrow> bool" where
  "rocks_reliable T r \<longleftrightarrow>
     (\<forall>k db. rk_get T k db = Inr (r db k)) \<and>
     (\<forall>k bs db. \<exists>db'. rk_put T k bs db = Inr db' \<and> r db' = (r db)(k \<mapsto> bs)) \<and>
     (\<forall>ops db. \<exists>db'. rk_write T ops db = Inr db' \<and> r db' = r db ++ map_of (rev ops)) \<and>
     (\<forall>e. plain_entry e \<longrightarrow> (\<exists>bs. ee_enc T e = Some bs \<and> ee_dec T bs = Some e))"

lemma plain_entry_simps [simp]: "plain_entry (entry_new now idx i)" "plain_entry (entry_update now idx i e) \<longleftrightarrow> plain_entry e"
  by (simp_all add: plain_entry_def entry_new_def entry_update_def)

definition plain_bytes :: "('c, 'b, 'db, 'n, 'x, 'y) tier_ops \<Rightarrow> 'y \<Rightarrow> bool" where
  "plain_bytes T bs \<longleftrightarrow> (case ee_dec T bs of None \<Rightarrow> False | Some e \<Rightarrow> plain_entry e)"

lemma cache_lawfulD:
  assumes "cache_lawful T w"
  shows "finite (dom (w c))" "lr_len T c = card (dom (w c))"
    "fst (lr_modify T k f c) = map_option f (w c k)" "w (snd (lr_modify T k f c)) = (w c)(k := map_option f (w c k))"
    "lr_cap T (snd (lr_modify T k f c)) = lr_cap T c"
    "lr_len T c < lr_cap T c \<Longrightarrow> w (lr_put T k e c) = (w c)(k \<mapsto> e)" "lr_cap T (lr_put T k e c) = lr_cap T c"
    "lr_cap T (snd (lr_pop T c)) = lr_cap T c"
    "case fst (lr_pop T c) of None \<Rightarrow> w (snd (lr_pop T c)) = w c
       | Some (x, e') \<Rightarrow> w c x = Some e' \<and> w (snd (lr_pop T c)) = (w c)(x := None)"
  using assms unfolding cache_lawful_def by blast+

section \<open>First occurrences\<close>

text \<open>What deduplication by first occurrence means: the rows whose key is not among the keys before them.\<close>

fun first_rows :: "string set \<Rightarrow> (string \<times> 'r) list \<Rightarrow> 'r list" where
  "first_rows known [] = []"
| "first_rows known ((k, row) # krs) =
     (if k \<in> known then first_rows known krs else row # first_rows (insert k known) krs)"

lemma first_rows_append: "first_rows known (xs @ ys) = first_rows known xs @ first_rows (known \<union> fst ` set xs) ys"
  by (induction xs arbitrary: known) (auto simp: insert_absorb)

text \<open>Every known key is in the filter, and with a plain entry in the cache or in the database; no other key is.\<close>

definition tracked ::
  "('c, 'b, 'db, 'n, 'x, 'y) tier_ops \<Rightarrow> ('c \<Rightarrow> string \<Rightarrow> ('n, 'x) dedup_entry option) \<Rightarrow> ('db \<Rightarrow> string \<Rightarrow> 'y option) \<Rightarrow> nat \<Rightarrow>
     string set \<Rightarrow> ('c, 'b, 'db) dedup_manager \<Rightarrow> bool" where
  "tracked T w r cap known m \<longleftrightarrow>
     finite known \<and> lr_cap T (dm_cache m) = cap \<and> (\<forall>k \<in> known. bl_check T k (dm_bloom m)) \<and> dom (w (dm_cache m)) \<subseteq> known \<and>
     (\<forall>k e. w (dm_cache m) k = Some e \<longrightarrow> plain_entry e) \<and>
     (\<forall>k \<in> known. w (dm_cache m) k \<noteq> None \<or> (\<exists>db bs. dm_rocks m = Some db \<and> r db (db_key m k) = Some bs \<and> plain_bytes T bs)) \<and>
     (\<forall>k db. k \<notin> known \<longrightarrow> dm_rocks m = Some db \<longrightarrow> r db (db_key m k) = None)"

lemma trackedD:
  assumes "tracked T w r cap known m"
  shows "finite known" "lr_cap T (dm_cache m) = cap" "k \<in> known \<Longrightarrow> bl_check T k (dm_bloom m)" "dom (w (dm_cache m)) \<subseteq> known"
    "k \<in> known \<Longrightarrow> w (dm_cache m) k = None \<Longrightarrow> \<exists>db bs. dm_rocks m = Some db \<and> r db (db_key m k) = Some bs \<and> plain_bytes T bs"
    "k \<notin> known \<Longrightarrow> dm_rocks m = Some db \<Longrightarrow> r db (db_key m k) = None"
    "w (dm_cache m) k = Some e \<Longrightarrow> plain_entry e"
  using assms unfolding tracked_def by blast+

lemma db_key_inject: "db_key m k = db_key m l \<longleftrightarrow> k = l"
  by (simp add: db_key_def)

text \<open>Changes of the statistics and of the index do not matter.\<close>

lemma tracked_cong:
  assumes "dm_cache m' = dm_cache m" "dm_bloom m' = dm_bloom m" "dm_rocks m' = dm_rocks m" "dm_prefix m' = dm_prefix m"
  shows "tracked T w r cap known m' \<longleftrightarrow> tracked T w r cap known m"
  using assms by (simp add: tracked_def db_key_def)

lemma cache_below:
  assumes "cache_lawful T w" "finite known" "dom (w c) \<subseteq> known" "k \<in> known" "w c k = None" "card known \<le> lr_cap T c"
  shows "lr_len T c < lr_cap T c"
proof -
  have "dom (w c) \<subset> known"
    using assms(3-5) by blast
  hence "card (dom (w c)) < card known"
    using assms(2) by (rule psubset_card_mono [rotated])
  thus ?thesis
    using assms(6) cache_lawfulD(2) [OF assms(1), of c] by simp
qed

lemma new_key_tracked:
  assumes T: "cache_lawful T w" "bloom_lawful T" and tr: "tracked T w r cap known m" and k: "k \<notin> known" "card (insert k known) \<le> cap"
  shows "\<exists>m'. new_key T now idx k row m = Inr (Keep row None, m') \<and> tracked T w r cap (insert k known) m' \<and>
     dm_stats m' = (dm_stats m)\<lparr>dt_kept_count := dt_kept_count (dm_stats m) + 1\<rparr>"
proof -
  have none: "w (dm_cache m) k = None"
    using trackedD(4) [OF tr] k(1) by blast
  have fin: "finite (insert k known)" "dom (w (dm_cache m)) \<subseteq> insert k known"
    using trackedD(1,4) [OF tr] by auto
  have room: "lr_len T (dm_cache m) < lr_cap T (dm_cache m)"
    using cache_below [OF T(1) fin insertI1 none] k(2) trackedD(2) [OF tr] by simp
  let ?e = "entry_new now idx (row_id_of row)"
  let ?m = "m\<lparr>dm_bloom := bl_set T k (dm_bloom m), dm_cache := lr_put T k ?e (dm_cache m)\<rparr>"
  have "tracked T w r cap (insert k known) ?m"
    using tr T(2) k(1) cache_lawfulD(6,7) [OF T(1), where c = "dm_cache m" and k = k and e = ?e] room
    unfolding tracked_def bloom_lawful_def by (auto simp: db_key_def)
  thus ?thesis
    using room tracked_cong [of "count_kept ?m" ?m T w r cap "insert k known"] by (simp add: new_key_def insert_entry_def count_kept_def)
qed

lemma tracked_start: "tracked T w r cap known (start_row m) \<longleftrightarrow> tracked T w r cap known m"
  by (rule tracked_cong) (simp_all add: start_row_def)

text \<open>The state after a lookup in the cache.\<close>

lemma tracked_modify:
  assumes "cache_lawful T w" "tracked T w r cap known m" "c = snd (lr_modify T k f (dm_cache m))"
    and f: "\<And>e. plain_entry (f e) \<longleftrightarrow> plain_entry e"
  shows "tracked T w r cap known (m\<lparr>dm_cache := c\<rparr>)"
proof -
  have "dom (w c) = dom (w (dm_cache m))"
    unfolding assms(3) cache_lawfulD(4) [OF assms(1)] by auto
  moreover have "plain_entry e" if "w c x = Some e" for x e
    using that trackedD(7) [OF assms(2)] f unfolding assms(3) cache_lawfulD(4) [OF assms(1)] by (auto split: if_splits)
  ultimately show ?thesis
    using assms(2) cache_lawfulD(5) [OF assms(1), of k f "dm_cache m"] unfolding tracked_def assms(3) by (auto simp: db_key_def)
qed

lemma tracked_miss: "tracked T w r cap known (miss_cache m) \<longleftrightarrow> tracked T w r cap known m"
  by (rule tracked_cong) (simp_all add: miss_cache_def)

lemma process_new:
  fixes T :: "('c, 'b, 'db, 'n, 'x, 'y) tier_ops"
  assumes T: "cache_lawful T w" "bloom_lawful T" "rocks_reliable T r" and tr: "tracked T w r cap known m"
    and k: "k \<notin> known" "card (insert k known) \<le> cap"
  shows "\<exists>m'. process_row T L strategy now (k, row) m = Inr (Keep row None, m') \<and> tracked T w r cap (insert k known) m' \<and>
     dt_total_processed (dm_stats m') = dt_total_processed (dm_stats m) + 1 \<and>
     dt_kept_count (dm_stats m') = dt_kept_count (dm_stats m) + 1 \<and> dt_duplicate_count (dm_stats m') = dt_duplicate_count (dm_stats m)"
proof (cases "bl_check T k (dm_bloom m)")
  case False
  thus ?thesis
    using new_key_tracked [OF T(1,2) tracked_start [THEN iffD2, OF tr] k, of now "of_nat (dm_idx m)" row]
    by (auto simp: process_row_def start_row_def)
next
  case True
  let ?f = "entry_update now (of_nat (dm_idx m)) (row_id_of row) :: ('n, 'x) dedup_entry \<Rightarrow> ('n, 'x) dedup_entry"
  obtain c where c: "lr_modify T k ?f (dm_cache m) = (None, c)" "c = snd (lr_modify T k ?f (dm_cache m))"
    using cache_lawfulD(3) [OF T(1), of k ?f "dm_cache m"] trackedD(4) [OF tr] k(1) by (cases "lr_modify T k ?f (dm_cache m)") auto
  let ?m = "miss_cache ((start_row m)\<lparr>dm_cache := c\<rparr>)"
  have cache: "dm_cache (start_row m) = dm_cache m"
    by (simp add: start_row_def)
  have tr': "tracked T w r cap known ?m"
    using tracked_modify [OF T(1) tracked_start [THEN iffD2, OF tr], of c k ?f] c(2) cache by (simp add: tracked_miss)
  have "rocks_entry T k ?m = None"
    using trackedD(6) [OF tr' k(1)] T(3) by (auto simp: rocks_entry_def rocks_reliable_def split: option.splits)
  hence "process_row T L strategy now (k, row) m = new_key T now (of_nat (dm_idx m)) k row ?m"
    using True c(1) by (simp add: process_row_def look_up_def cache Let_def)
  thus ?thesis
    using new_key_tracked [OF T(1,2) tr' k, of now "of_nat (dm_idx m)" row] by (auto simp: miss_cache_def start_row_def)
qed

lemma tracked_put_rocks:
  assumes "tracked T w r cap known m" "k \<in> known" "dm_rocks m = Some db" "r db' = (r db)(db_key m k \<mapsto> bs)" "plain_bytes T bs"
  shows "tracked T w r cap known (m\<lparr>dm_rocks := Some db'\<rparr>)"
proof -
  have key: "db_key (m\<lparr>dm_rocks := Some db'\<rparr>) x = db_key m x" for x
    by (simp add: db_key_def)
  have known: "\<exists>bs. r db' (db_key m x) = Some bs \<and> plain_bytes T bs" if "x \<in> known" "w (dm_cache m) x = None" for x
    using trackedD(5) [OF assms(1) that] assms(3-5) by (cases "x = k") (auto simp: db_key_inject)
  have "r db' (db_key m x) = None" if "x \<notin> known" for x
    using trackedD(6) [OF assms(1) that assms(3)] assms(2,4) that by (auto simp: db_key_inject)
  thus ?thesis
    using assms(1) known unfolding tracked_def key by (simp add: key) blast
qed

lemma process_known:
  fixes T :: "('c, 'b, 'db, 'n, 'x, 'y) tier_ops"
  assumes T: "cache_lawful T w" "rocks_reliable T r" and tr: "tracked T w r cap known m" and k: "k \<in> known" "card known \<le> cap"
  shows "\<exists>why m'. process_row T L KFirst now (k, row) m = Inr (Skip why k, m') \<and> tracked T w r cap known m' \<and>
     dt_total_processed (dm_stats m') = dt_total_processed (dm_stats m) + 1 \<and>
     dt_kept_count (dm_stats m') = dt_kept_count (dm_stats m) \<and> dt_duplicate_count (dm_stats m') = dt_duplicate_count (dm_stats m) + 1"
proof -
  let ?f = "entry_update now (of_nat (dm_idx m)) (row_id_of row) :: ('n, 'x) dedup_entry \<Rightarrow> ('n, 'x) dedup_entry"
  have pass: "bl_check T k (dm_bloom m)"
    using trackedD(3) [OF tr k(1)] .
  have cache: "dm_cache (start_row m) = dm_cache m"
    by (simp add: start_row_def)
  obtain e c where c: "lr_modify T k ?f (dm_cache m) = (e, c)"
    by force
  hence e: "e = map_option ?f (w (dm_cache m) k)" and c': "c = snd (lr_modify T k ?f (dm_cache m))"
    using cache_lawfulD(3) [OF T(1), of k ?f "dm_cache m"] by simp_all
  have tr': "tracked T w r cap known ((start_row m)\<lparr>dm_cache := c\<rparr>)"
    using tracked_modify [OF T(1) tracked_start [THEN iffD2, OF tr], of c k ?f] c' cache by simp
  show ?thesis
  proof (cases "w (dm_cache m) k")
    case (Some e0)
    have "tracked T w r cap known (hit_cache c (start_row m))"
      using tr' tracked_cong [of "hit_cache c (start_row m)" "(start_row m)\<lparr>dm_cache := c\<rparr>" T w r cap known] by (simp add: hit_cache_def)
    moreover have "tracked T w r cap known (count_decision d m') \<longleftrightarrow> tracked T w r cap known m'" for m' and d :: "'n dedup_decision"
      by (rule tracked_cong) (simp_all add: count_decision_def split: dedup_decision.splits)
    ultimately have "tracked T w r cap known (count_decision d (hit_cache c (start_row m)))" for d :: "'n dedup_decision"
      by blast
    moreover have "process_row T L KFirst now (k, row) m =
        (let d = apply_keep_strategy L (?f e0) row KFirst k in Inr (d, count_decision d (hit_cache c (start_row m))))"
      using pass c e Some by (simp add: process_row_def look_up_def cache)
    ultimately show ?thesis
      by (simp add: Let_def apply_keep_strategy_def, simp add: count_decision_def hit_cache_def start_row_def)
  next
    case None
    let ?m = "miss_cache ((start_row m)\<lparr>dm_cache := c\<rparr>)"
    have tm: "tracked T w r cap known ?m"
      using tr' by (simp add: tracked_miss)
    have wc: "w c = w (dm_cache m)"
      using cache_lawfulD(4) [OF T(1), of k ?f "dm_cache m"] None c' by (simp add: fun_upd_idem)
    obtain db bs e1 where db: "dm_rocks ?m = Some db" "r db (db_key ?m k) = Some bs" "ee_dec T bs = Some e1" "plain_entry e1"
      using trackedD(5) [OF tm k(1)] None wc by (auto simp: miss_cache_def plain_bytes_def split: option.splits)
    have re: "rocks_entry T k ?m = Some (e1, db)"
      using db T(2) by (simp add: rocks_entry_def rocks_reliable_def)
    have plain: "plain_entry (?f e1)"
      using db(4) by simp
    obtain bs2 db2 where put: "ee_enc T (?f e1) = Some bs2" "ee_dec T bs2 = Some (?f e1)" "rk_put T (db_key ?m k) bs2 db = Inr db2"
        "r db2 = (r db)(db_key ?m k \<mapsto> bs2)"
      using T(2) plain unfolding rocks_reliable_def by metis
    let ?m1 = "if de_access_count (?f e1) > 2 then ?m\<lparr>dm_cache := lr_put T k (?f e1) (dm_cache ?m)\<rparr> else ?m"
    let ?m2 = "count_decision (apply_keep_strategy L (?f e1) row KFirst k) ?m1"
    have "lr_len T c < lr_cap T c"
      using cache_below [OF T(1) trackedD(1) [OF tr], of c k] trackedD(2,4) [OF tm] k None wc by (simp add: miss_cache_def)
    hence "tracked T w r cap known (?m\<lparr>dm_cache := lr_put T k (?f e1) (dm_cache ?m)\<rparr>)"
      using tm k(1) plain cache_lawfulD(6,7) [OF T(1), where c = c and k = k and e = "?f e1"] unfolding tracked_def
      by (auto simp: db_key_def miss_cache_def)
    hence "tracked T w r cap known ?m1"
      using tm by simp
    hence t2: "tracked T w r cap known ?m2"
      using tracked_cong [of ?m2 ?m1 T w r cap known] by (simp add: count_decision_def apply_keep_strategy_def)
    have same: "dm_rocks ?m2 = Some db" "db_key ?m2 k = db_key ?m k"
      using db(1) by (simp_all add: count_decision_def apply_keep_strategy_def db_key_def)
    have "tracked T w r cap known (?m2\<lparr>dm_rocks := Some db2\<rparr>)"
      by (rule tracked_put_rocks [OF t2 k(1) same(1)]) (use put same(2) plain in \<open>auto simp: plain_bytes_def\<close>)
    moreover have "process_row T L KFirst now (k, row) m =
        Inr (apply_keep_strategy L (?f e1) row KFirst k, ?m2\<lparr>dm_rocks := Some db2\<rparr>)"
      using pass c e None re put(1,3) by (simp add: process_row_def look_up_def cache Let_def known_in_rocks_def)
    ultimately show ?thesis
      by (simp add: apply_keep_strategy_def count_decision_def miss_cache_def start_row_def)
  qed
qed

text \<open>The flush.\<close>

lemma pop_entries_facts:
  assumes T: "cache_lawful T w" and pop: "pop_entries T n c = (kes, c')"
  shows "lr_cap T c' = lr_cap T c" "dom (w c') \<subseteq> dom (w c)" "fst ` set kes \<subseteq> dom (w c)"
    "w c k \<noteq> None \<Longrightarrow> w c' k = None \<Longrightarrow> k \<in> fst ` set kes" "(k, e) \<in> set kes \<Longrightarrow> w c k = Some e" "w c' k = Some e \<Longrightarrow> w c k = Some e"
proof -
  have "lr_cap T c' = lr_cap T c \<and> dom (w c') \<subseteq> dom (w c) \<and> fst ` set kes \<subseteq> dom (w c) \<and>
      (\<forall>k. w c k \<noteq> None \<longrightarrow> w c' k = None \<longrightarrow> k \<in> fst ` set kes) \<and>
      (\<forall>k e. (k, e) \<in> set kes \<longrightarrow> w c k = Some e) \<and> (\<forall>k e. w c' k = Some e \<longrightarrow> w c k = Some e)"
    using pop
  proof (induction n arbitrary: c kes c')
    case 0
    thus ?case by simp
  next
    case (Suc n)
    obtain x c1 where x: "lr_pop T c = (x, c1)"
      by force
    note law = cache_lawfulD(8,9) [OF T, where c = c]
    obtain kes1 where kes1: "pop_entries T n c1 = (kes1, c')"
      using Suc.prems x by (auto split: option.splits prod.splits)
    note IH = Suc.IH [OF kes1]
    show ?case
    proof (cases x)
      case None
      thus ?thesis
        using Suc.prems x IH law kes1 by auto
    next
      case (Some ke)
      obtain k e where ke: "ke = (k, e)"
        by force
      have w: "w c k = Some e" "w c1 = (w c)(k := None)" "lr_cap T c1 = lr_cap T c"
        using law x Some ke by auto
      have kes: "kes = (k, e) # kes1"
        using Suc.prems x Some ke kes1 by simp
      have up: "w c y = Some v" if "w c1 y = Some v" for y v
        using that w(2) by (simp split: if_splits)
      have held: "\<forall>y v. (y, v) \<in> set kes \<longrightarrow> w c y = Some v" "\<forall>y v. w c' y = Some v \<longrightarrow> w c y = Some v"
        using IH up w(1) unfolding kes by simp_all
      have "dom (w c') \<subseteq> dom (w c)" "fst ` set kes \<subseteq> dom (w c)"
        using held by (auto simp: dom_def)
      moreover have "y \<in> fst ` set kes" if "w c y \<noteq> None" "w c' y = None" for y
      proof (cases "y = k")
        case False
        hence "w c1 y \<noteq> None"
          using that(1) w(2) by simp
        thus ?thesis
          using IH that(2) unfolding kes by simp
      qed (simp add: kes)
      ultimately show ?thesis
        using IH w(3) held by simp
    qed
  qed
  thus "lr_cap T c' = lr_cap T c" "dom (w c') \<subseteq> dom (w c)" "fst ` set kes \<subseteq> dom (w c)"
    "w c k \<noteq> None \<Longrightarrow> w c' k = None \<Longrightarrow> k \<in> fst ` set kes" "(k, e) \<in> set kes \<Longrightarrow> w c k = Some e" "w c' k = Some e \<Longrightarrow> w c k = Some e"
    by blast+
qed

lemma flush_tracked:
  assumes T: "cache_lawful T w" "rocks_reliable T r" and tr: "tracked T w r cap known m"
  shows "\<exists>m'. flush_to_disk T m = (m', Inr ()) \<and> tracked T w r cap known m' \<and> dm_stats m' = dm_stats m"
proof (cases "dm_rocks m")
  case None
  thus ?thesis
    using tr by (simp add: flush_to_disk_def)
next
  case (Some db)
  obtain kes c where pop: "pop_entries T (lr_len T (dm_cache m) div 2) (dm_cache m) = (kes, c)"
    by force
  note facts = pop_entries_facts [OF T(1) pop]
  define ops where "ops = List.map_filter (\<lambda>(k, e). map_option (Pair (db_key m k)) (ee_enc T e)) kes"
  obtain db' where db': "rk_write T ops db = Inr db'" "r db' = r db ++ map_of (rev ops)"
    using T(2) unfolding rocks_reliable_def by blast
  obtain code where coded: "plain_entry e \<Longrightarrow> ee_enc T e = Some (code e)" "plain_entry e \<Longrightarrow> ee_dec T (code e) = Some e" for e
    using T(2) unfolding rocks_reliable_def by metis
  have plain: "plain_entry e" if "(k, e) \<in> set kes" for k e
    using trackedD(7) [OF tr] facts(5) [OF that] .
  hence ops: "ops = map (\<lambda>(k, e). (db_key m k, code e)) kes"
    unfolding ops_def by (induction kes) (simp add: map_filter_simps, fastforce simp: map_filter_simps coded(1))
  have written: "\<exists>bs. map_of (rev ops) (db_key m k) = Some bs \<and> plain_bytes T bs" if k: "k \<in> fst ` set kes" for k
  proof -
    have "db_key m k \<in> fst ` set (rev ops)"
      using k unfolding ops by force
    then obtain bs where bs: "map_of (rev ops) (db_key m k) = Some bs"
      by (metis map_of_eq_None_iff not_None_eq)
    hence "(db_key m k, bs) \<in> set ops"
      using map_of_SomeD by fastforce
    thus ?thesis
      using bs coded(2) plain unfolding ops by (auto simp: plain_bytes_def)
  qed
  have unwritten: "map_of (rev ops) (db_key m k) = None" if "k \<notin> fst ` set kes" for k
    using that unfolding ops by (force simp: map_of_eq_None_iff db_key_inject)
  let ?m = "m\<lparr>dm_cache := c, dm_rocks := Some db'\<rparr>"
  have key: "db_key ?m k = db_key m k" for k
    by (simp add: db_key_def)
  have old: "\<exists>bs. r db' (db_key m k) = Some bs \<and> plain_bytes T bs" if "k \<in> known" "w c k = None" for k
  proof (cases "k \<in> fst ` set kes")
    case True
    thus ?thesis
      using written db'(2) by (fastforce simp: map_add_def)
  next
    case False
    hence "w (dm_cache m) k = None"
      using facts(4) that(2) by blast
    thus ?thesis
      using trackedD(5) [OF tr that(1)] Some unwritten [OF False] db'(2) by (auto simp: map_add_def)
  qed
  have new: "r db' (db_key m k) = None" if "k \<notin> known" for k
  proof -
    have "k \<notin> fst ` set kes"
      using trackedD(4) [OF tr] facts(3) that by blast
    thus ?thesis
      using unwritten trackedD(6) [OF tr that Some] db'(2) by (simp add: map_add_def)
  qed
  have "tracked T w r cap known ?m"
    using tr facts(1,2,6) old new unfolding tracked_def by (simp add: key) blast
  moreover have "flush_to_disk T m = (?m, Inr ())"
    using Some pop db'(1) by (simp add: flush_to_disk_def ops_def [symmetric] Let_def)
  ultimately show ?thesis
    by simp
qed

text \<open>Rows, batches and the whole run.\<close>

definition advanced :: "('c, 'b, 'db) dedup_manager \<Rightarrow> ('c, 'b, 'db) dedup_manager \<Rightarrow> nat \<Rightarrow> nat \<Rightarrow> bool" where
  "advanced m m' rows kept \<longleftrightarrow> kept \<le> rows \<and>
     dt_total_processed (dm_stats m') = dt_total_processed (dm_stats m) + rows \<and>
     dt_kept_count (dm_stats m') = dt_kept_count (dm_stats m) + kept \<and>
     dt_duplicate_count (dm_stats m') = dt_duplicate_count (dm_stats m) + (rows - kept)"

lemma kept_row_simps [simp]: "kept_row (Keep row froms) = Some row" "kept_row (Skip why k) = None"
  by (simp_all add: kept_row_def)

lemma process_rows_first:
  fixes T :: "('c, 'b, 'db, 'n, 'x, 'y) tier_ops"
  assumes T: "cache_lawful T w" "bloom_lawful T" "rocks_reliable T r"
  shows "tracked T w r cap known m \<Longrightarrow> card (known \<union> fst ` set krs) \<le> cap \<Longrightarrow>
     \<exists>ds m'. process_rows T L KFirst now krs m = Inr (ds, m') \<and> List.map_filter kept_row ds = first_rows known krs \<and>
       tracked T w r cap (known \<union> fst ` set krs) m' \<and> advanced m m' (length krs) (length (first_rows known krs))"
proof (induction krs arbitrary: known m)
  case Nil
  thus ?case by (simp add: advanced_def map_filter_def)
next
  case (Cons kr krs)
  obtain k row where kr: "kr = (k, row)"
    by force
  have fin: "finite (known \<union> fst ` set (kr # krs))"
    using trackedD(1) [OF Cons.prems(1)] by simp
  have room: "card (insert k known) \<le> cap"
    by (rule order_trans [OF card_mono [OF fin] Cons.prems(2)]) (use kr in auto)
  show ?case
  proof (cases "k \<in> known")
    case True
    obtain why m1 where m1: "process_row T L KFirst now (k, row) m = Inr (Skip why k, m1)" "tracked T w r cap known m1"
        "advanced m m1 1 0"
      using process_known [OF T(1,3) Cons.prems(1) True, of L now row] room True by (auto simp: advanced_def insert_absorb)
    have "card (known \<union> fst ` set krs) \<le> cap"
      using Cons.prems(2) True kr by (simp add: insert_absorb)
    then obtain ds m' where ds: "process_rows T L KFirst now krs m1 = Inr (ds, m')" "List.map_filter kept_row ds = first_rows known krs"
        "tracked T w r cap (known \<union> fst ` set krs) m'" "advanced m1 m' (length krs) (length (first_rows known krs))"
      using Cons.IH [OF m1(2)] by blast
    have "insert k (known \<union> fst ` set krs) = known \<union> fst ` set krs"
      using True by blast
    thus ?thesis
      using m1 ds True kr by (auto simp: advanced_def map_filter_simps)
  next
    case False
    obtain m1 where m1: "process_row T L KFirst now (k, row) m = Inr (Keep row None, m1)" "tracked T w r cap (insert k known) m1"
        "advanced m m1 1 1"
      using process_new [OF T Cons.prems(1) False room, of L KFirst now row] by (auto simp: advanced_def)
    have "card (insert k known \<union> fst ` set krs) \<le> cap"
      using Cons.prems(2) kr by simp
    then obtain ds m' where ds: "process_rows T L KFirst now krs m1 = Inr (ds, m')"
        "List.map_filter kept_row ds = first_rows (insert k known) krs"
        "tracked T w r cap (insert k known \<union> fst ` set krs) m'" "advanced m1 m' (length krs) (length (first_rows (insert k known) krs))"
      using Cons.IH [OF m1(2)] by blast
    thus ?thesis
      using m1 False kr by (auto simp: advanced_def map_filter_simps)
  qed
qed

lemma process_batch_first:
  fixes T :: "('c, 'b, 'db, 'n, 'x, 'y) tier_ops"
  assumes T: "cache_lawful T w" "bloom_lawful T" "rocks_reliable T r"
    and m: "tracked T w r cap known m" "card (known \<union> fst ` set krs) \<le> cap"
  shows "\<exists>ds m'. process_batch T L KFirst now krs m = Inr (ds, m') \<and> List.map_filter kept_row ds = first_rows known krs \<and>
       tracked T w r cap (known \<union> fst ` set krs) m' \<and> advanced m m' (length krs) (length (first_rows known krs))"
proof -
  obtain ds m1 where ds: "process_rows T L KFirst now krs m = Inr (ds, m1)" "List.map_filter kept_row ds = first_rows known krs"
      "tracked T w r cap (known \<union> fst ` set krs) m1" "advanced m m1 (length krs) (length (first_rows known krs))"
    using process_rows_first [OF T m] by blast
  let ?m2 = "m1\<lparr>dm_stats := (dm_stats m1)\<lparr>dt_batches_processed := dt_batches_processed (dm_stats m1) + 1\<rparr>\<rparr>"
  have t2: "tracked T w r cap (known \<union> fst ` set krs) ?m2"
    using ds(3) tracked_cong [of ?m2 m1 T w r cap "known \<union> fst ` set krs"] by simp
  obtain m3 where m3: "flush_to_disk T ?m2 = (m3, Inr ())" "tracked T w r cap (known \<union> fst ` set krs) m3" "dm_stats m3 = dm_stats ?m2"
    using flush_tracked [OF T(1,3) t2] by blast
  let ?m4 = "m3\<lparr>dm_stats := (dm_stats m3)\<lparr>dt_memory_flushes := dt_memory_flushes (dm_stats m3) + 1\<rparr>\<rparr>"
  have t4: "tracked T w r cap (known \<union> fst ` set krs) ?m4"
    using m3(2) tracked_cong [of ?m4 m3 T w r cap "known \<union> fst ` set krs"] by simp
  have stats: "advanced m ?m2 (length krs) (length (first_rows known krs))" "advanced m ?m4 (length krs) (length (first_rows known krs))"
    using ds(4) m3(3) by (simp_all add: advanced_def)
  show ?thesis
  proof (cases "estimate_memory T ?m2 > dm_memory_limit ?m2")
    case True
    hence "process_batch T L KFirst now krs m = Inr (ds, ?m4)"
      using ds(1) m3(1) by (simp add: process_batch_def Let_def)
    thus ?thesis
      using ds(2) t4 stats(2) by blast
  next
    case False
    hence "process_batch T L KFirst now krs m = Inr (ds, ?m2)"
      using ds(1) by (simp add: process_batch_def Let_def)
    thus ?thesis
      using ds(2) t2 stats(1) by blast
  qed
qed

text \<open>The keyed rows of a run.\<close>

definition keyed :: "('n, 'x) score_lib \<Rightarrow> dedup_method \<Rightarrow> string list \<Rightarrow> 'n json list \<Rightarrow> (string \<times> 'n json) list" where
  "keyed L meth key_fields rows = map (\<lambda>row. (build_key_for_row L meth key_fields row, row)) rows"

lemma keyed_append: "keyed L meth fs (xs @ ys) = keyed L meth fs xs @ keyed L meth fs ys"
  by (simp add: keyed_def)

lemma execute_first:
  fixes T :: "('c, 'b, 'db, 'n, 'x, 'y) tier_ops"
  assumes T: "cache_lawful T w" "bloom_lawful T" "rocks_reliable T r"
  shows "tracked T w r cap known m \<Longrightarrow> card (known \<union> fst ` set (keyed L meth fs (concat batches))) \<le> cap \<Longrightarrow>
     \<exists>m'. dedup_execute T L meth fs KFirst now batches m = Inr (first_rows known (keyed L meth fs (concat batches)), m') \<and>
       advanced m m' (length (concat batches)) (length (first_rows known (keyed L meth fs (concat batches))))"
proof (induction batches arbitrary: known m)
  case Nil
  thus ?case by (simp add: advanced_def keyed_def)
next
  case (Cons batch batches)
  let ?ks = "keyed L meth fs batch" and ?rest = "keyed L meth fs (concat batches)"
  have fin: "finite (known \<union> fst ` set (keyed L meth fs (concat (batch # batches))))"
    using trackedD(1) [OF Cons.prems(1)] by simp
  have room: "card (known \<union> fst ` set ?ks) \<le> cap"
    by (rule order_trans [OF card_mono [OF fin] Cons.prems(2)]) (auto simp: keyed_append)
  obtain ds m1 where ds: "process_batch T L KFirst now ?ks m = Inr (ds, m1)" "List.map_filter kept_row ds = first_rows known ?ks"
      "tracked T w r cap (known \<union> fst ` set ?ks) m1" "advanced m m1 (length ?ks) (length (first_rows known ?ks))"
    using process_batch_first [OF T Cons.prems(1) room, of L now] by blast
  have "card ((known \<union> fst ` set ?ks) \<union> fst ` set ?rest) \<le> cap"
    using Cons.prems(2) by (simp add: keyed_append image_Un Un_assoc)
  then obtain m' where "dedup_execute T L meth fs KFirst now batches m1 = Inr (first_rows (known \<union> fst ` set ?ks) ?rest, m')"
      "advanced m1 m' (length (concat batches)) (length (first_rows (known \<union> fst ` set ?ks) ?rest))"
    using Cons.IH [OF ds(3)] by blast
  thus ?case
    using ds by (simp add: keyed_append first_rows_append advanced_def keyed_def [symmetric]) (simp add: keyed_def)
qed

lemma tracked_new:
  assumes "w cache = Map.empty" "\<And>db k. rocks = Some db \<Longrightarrow> r db (''dedup/'' @ execution_id @ ''/'' @ show_nat (nat now) @ ''/'' @ k) = None"
  shows "tracked T w r (lr_cap T cache) {} (manager_new cache bloom rocks execution_id now limit)"
  using assms by (simp add: tracked_def manager_new_def db_key_def)

text \<open>
  C27. Deduplication by first occurrence. Let the cache be an LRU cache that only evicts when it is full, the Bloom filter one
  without false negatives and the database one that answers and returns what was written, entries without merged fields (the
  code stores no others) be read back from their encoding, the cache be empty, the database
  without entries below the prefix of this run, and the capacity of the cache at least the number of distinct keys. Then
  the run over the batches succeeds whatever the limit of memory is and however often entries are flushed, the rows it
  keeps are, in their order, those whose key no earlier row has, and the statistics count all rows, the kept ones and the rest.
\<close>

theorem dedup_keeps_first_occurrences:
  fixes T :: "('c, 'b, 'db, 'n, 'x, 'y) tier_ops"
  assumes T: "cache_lawful T w" "bloom_lawful T" "rocks_reliable T r"
    and empty: "w cache = Map.empty" "\<And>db k. rocks = Some db \<Longrightarrow> r db (''dedup/'' @ execution_id @ ''/'' @ show_nat (nat now) @ ''/'' @ k) = None"
    and room: "card (build_key_for_row L meth key_fields ` set (concat batches)) \<le> lr_cap T cache"
  shows "let rows = first_rows {} (keyed L meth key_fields (concat batches)) in
     \<exists>m'. dedup_execute T L meth key_fields KFirst now batches (manager_new cache bloom rocks execution_id now limit) = Inr (rows, m') \<and>
       dt_total_processed (dm_stats m') = length (concat batches) \<and> dt_kept_count (dm_stats m') = length rows \<and>
       dt_duplicate_count (dm_stats m') = length (concat batches) - length rows"
proof -
  have "fst ` set (keyed L meth key_fields (concat batches)) = build_key_for_row L meth key_fields ` set (concat batches)"
    by (force simp: keyed_def)
  hence "card ({} \<union> fst ` set (keyed L meth key_fields (concat batches))) \<le> lr_cap T cache"
    using room by simp
  moreover have "tracked T w r (lr_cap T cache) {} (manager_new cache bloom rocks execution_id now limit)"
    by (rule tracked_new) (use empty in auto)
  ultimately show ?thesis
    using execute_first [OF T, of "lr_cap T cache" "{}" "manager_new cache bloom rocks execution_id now limit" L meth key_fields batches now]
    by (auto simp: Let_def advanced_def manager_new_def stats_new_def)
qed

text \<open>
  A cache as an association list with a capacity, the filter as a list of keys, the database as an association list from
  keys to entries that are their own encoding.
\<close>

type_synonym demo_dedup_entry = "(nat, nat) dedup_entry"

definition al_len :: "('k \<times> 'v) list \<Rightarrow> nat" where
  "al_len xs = length (remdups (map fst xs))"

definition demo_put :: "string \<Rightarrow> demo_dedup_entry \<Rightarrow> nat \<times> (string \<times> demo_dedup_entry) list \<Rightarrow> nat \<times> (string \<times> demo_dedup_entry) list" where
  "demo_put k e c =
     (fst c, if al_len (snd c) < fst c \<or> map_of (snd c) k \<noteq> None then AList.update k e (snd c)
             else AList.update k e (AList.delete (fst (hd (snd c))) (snd c)))"

definition demo_tiers ::
  "(nat \<times> (string \<times> demo_dedup_entry) list, string list, (string \<times> demo_dedup_entry) list, nat, nat, demo_dedup_entry) tier_ops" where
  "demo_tiers =
     \<lparr>lr_modify = (\<lambda>k f c. (map_option f (map_of (snd c) k),
          (fst c, case map_of (snd c) k of None \<Rightarrow> snd c | Some e \<Rightarrow> AList.update k (f e) (snd c)))),
      lr_put = demo_put, lr_len = (\<lambda>c. al_len (snd c)), lr_cap = fst,
      lr_pop = (\<lambda>c. case snd c of [] \<Rightarrow> (None, c) | ke # kes \<Rightarrow> (Some ke, (fst c, AList.delete (fst ke) kes))),
      bl_check = (\<lambda>k b. k \<in> set b), bl_set = (#), bl_bits = (\<lambda>b. 64),
      rk_get = (\<lambda>k db. Inr (map_of db k)), rk_put = (\<lambda>k e db. Inr (AList.update k e db)), rk_write = (\<lambda>ops db. Inr (rev ops @ db)),
      ee_enc = Some, ee_dec = Some\<rparr>"

definition demo_score :: "(nat, nat) score_lib" where
  "demo_score =
     \<lparr>sc_zero = 0, sc_one = 2, sc_half = 1, sc_add = (+), sc_div = (div), sc_gt = (\<lambda>x y. y < x), sc_show = show_nat,
      sc_blank = (\<lambda>s. s = []), sc_render = (\<lambda>v. ''?''), sc_lower_trim = (\<lambda>s. s)\<rparr>"

lemma demo_cache_lawful: "cache_lawful demo_tiers (\<lambda>c. map_of (snd c))"
proof -
  have len: "al_len xs = card (dom (map_of xs))" for xs :: "(string \<times> demo_dedup_entry) list"
    by (simp add: al_len_def dom_map_of_conv_image_fst length_remdups_card_conv)
  have pop: "case fst (lr_pop demo_tiers c) of None \<Rightarrow> map_of (snd (snd (lr_pop demo_tiers c))) = map_of (snd c)
      | Some (k, e) \<Rightarrow> map_of (snd c) k = Some e \<and> map_of (snd (snd (lr_pop demo_tiers c))) = (map_of (snd c))(k := None)" for c
    by (cases "snd c") (auto simp: demo_tiers_def delete_conv' fun_upd_def split: prod.splits)
  have cap: "lr_cap demo_tiers (snd (lr_pop demo_tiers c)) = lr_cap demo_tiers c" for c
    by (cases "snd c") (simp_all add: demo_tiers_def)
  show ?thesis
    unfolding cache_lawful_def
    using pop cap len by (auto simp: demo_tiers_def demo_put_def finite_dom_map_of update_conv' fun_upd_idem split: option.splits)
qed

lemma demo_bloom_lawful: "bloom_lawful demo_tiers"
  by (simp add: bloom_lawful_def demo_tiers_def)

lemma demo_rocks_reliable: "rocks_reliable demo_tiers map_of"
  by (simp add: rocks_reliable_def demo_tiers_def update_conv')

definition demo_row :: "string \<Rightarrow> string \<Rightarrow> nat json" where
  "demo_row k v = JObj [(''id'', JStr k), (''v'', JStr v)]"

definition demo_batches :: "nat json list list" where
  "demo_batches = [[demo_row ''a'' ''1'', demo_row ''b'' ''2''], [demo_row ''a'' ''3''], [demo_row ''c'' ''4'', demo_row ''b'' ''5'']]"

lemma demo_keyed:
  "keyed demo_score MExact [''id''] (concat demo_batches) =
     [(''a'', demo_row ''a'' ''1''), (''b'', demo_row ''b'' ''2''), (''a'', demo_row ''a'' ''3''), (''c'', demo_row ''c'' ''4''), (''b'', demo_row ''b'' ''5'')]"
  by code_simp

theorem dedup_keeps_first_occurrences_witness:
  "\<exists>m'. dedup_execute demo_tiers demo_score MExact [''id''] KFirst 7 demo_batches (manager_new (3, []) [] (Some []) ''run'' 7 0) =
       Inr ([demo_row ''a'' ''1'', demo_row ''b'' ''2'', demo_row ''c'' ''4''], m') \<and>
     dt_total_processed (dm_stats m') = 5 \<and> dt_kept_count (dm_stats m') = 3 \<and> dt_duplicate_count (dm_stats m') = 2"
proof -
  have len: "length (concat demo_batches) = 5"
    by code_simp
  have "build_key_for_row demo_score MExact [''id''] ` set (concat demo_batches) = fst ` set (keyed demo_score MExact [''id''] (concat demo_batches))"
    by (force simp: keyed_def)
  also have "\<dots> = {''a'', ''b'', ''c''}"
    unfolding demo_keyed by auto
  finally have "card (build_key_for_row demo_score MExact [''id''] ` set (concat demo_batches)) \<le> lr_cap demo_tiers (3, [])"
    by (simp add: demo_tiers_def)
  thus ?thesis
    using dedup_keeps_first_occurrences [OF demo_cache_lawful demo_bloom_lawful demo_rocks_reliable,
        of "(3, [])" "Some []" "''run''" 7 demo_score MExact "[''id'']" demo_batches "[]" 0]
    by (simp add: demo_keyed len flip: numeral_3_eq_3)
qed

section \<open>What the other strategies do\<close>

text \<open>
  With the strategies for the last and for merged rows no row is ever skipped: an earlier row has already been put out, and
  the later ones are put out beside it.
\<close>

lemma last_keeps_everything:
  assumes "process_row T L strategy now kr m = Inr (d, m')" "strategy = KLast \<or> strategy = KMerge"
  shows "kept_row d \<noteq> None"
proof -
  have "kept_row (apply_keep_strategy L e row strategy key) \<noteq> None" for e row key
    using assms(2) by (auto simp: apply_keep_strategy_def)
  moreover have "kept_row (fst x) \<noteq> None" if "new_key T now idx key row m1 = Inr x" for x idx key row m1
    using that by (auto simp: new_key_def try_bind_def split: sum.splits)
  ultimately show ?thesis
    using assms(1)
    by (fastforce simp: process_row_def look_up_def known_in_rocks_def Let_def split: if_splits prod.splits option.splits)
qed

text \<open>The parts of a key are joined by a bar that may occur in them: rows with different fields have the same key.\<close>

lemma joined_keys_collide:
  "build_key_for_row demo_score MExact [''id'', ''v''] (demo_row ''a|b'' ''c'') =
     build_key_for_row demo_score MExact [''id'', ''v''] (demo_row ''a'' ''b|c'')"
  by code_simp

end
