(* ===== verification/Spec2Isabelle.thy ===== *)
theory Spec2Isabelle
  imports CoordSM CircuitBreaker HealthMonitor AuditChain TemporalIndexes WalCoord ExprEngine BatchTx ApprovalFlow BatchStore Checkpointing StreamDedup Deployments SqlIdent KafkaBreaker DurableSink KafkaReplay DeadLetters AsyncRetry AsyncWriter LineageGraph ImpactAnalysis RowKeys Erasure RowStore RowQueries Gdpr WorkflowDag
begin

text \<open>
  The coordinator of arcxa: a verification library.

  The program. arcxa manages a cluster of shards that hold graph data, keeps a tamper-evident history of
  what happened to the data, and runs workflows that load and transform it. The coordinator
  (\<^verbatim>\<open>arcxa-coordinator/src\<close>) is the process that decides where data lives, records every change, and executes
  the workflows; \<^verbatim>\<open>arcxa-core/src\<close> holds what it shares with other processes. The development models these parts:

  \<^item> placement of data: the shards and their hash ranges, the consistent hash ring that maps a key to a shard,
    the replicated state machine whose commands change both, and the monitor that decides which shard may
    receive requests;
  \<^item> history: transaction identifiers, signed audit entries in a hash chain with Merkle proofs, their store, and
    the indexes that find the version of a fact at a given time;
  \<^item> durability: the write-ahead log with its entries, segment files, recovery, and the two-phase commit
    coordinator over it;
  \<^item> transformation: the expression language of the loader with its evaluator, optimizer, type checker and plans;
  \<^item> workflows: conditions and routes, actions, executions with checkpoints, approval requests, batch jobs with
    dependencies and transactions, and the executor, handlers and timeouts that move them;
  \<^item> delivery: the durable sink for lineage events with its recovery, retries and dead letter queues.

  How they interact. The state machine rebuilds the ring when a shard is registered or removed; the monitor
  keeps a circuit breaker per shard. The audit chain appends to the audit store, whose interface to the database
  is that of the temporal indexes too. The log coordinator writes its records through the file log, and recovery
  reads the files the log wrote. The expression engine compiles with the optimizer and evaluates with the
  evaluator. The batch executor resolves dependencies, runs actions, and keeps execution records in the execution
  store; an action may put a request into the approval store and pause the execution, and the approval handlers
  and the timeout handler resume or fail it. The durable sink writes to the file log and sends through its own
  breaker; retries go through the breaker of arcxa-core and hand failed events to the dead letter queues.

  How the source is translated. A struct is a \<^verbatim>\<open>record\<close>, an enum a \<^verbatim>\<open>datatype\<close>; an operation is a function on the
  state it changes, with every early return as a branch. Machine integers whose width matters are words
  (release arithmetic, which wraps around); counters that only count are natural numbers. \<^verbatim>\<open>Result\<close> is a sum with the
  error on the left. A \<^verbatim>\<open>HashMap\<close> is an association list with distinct keys, and where its iteration order matters
  the order is a parameter; a \<^verbatim>\<open>BTreeMap\<close> is a sorted association list. Times are numbers, and the clock is an
  argument or a service. Log messages, metrics and locks without observable effect are left out. Code that is not
  part of the sources (hash functions, signatures, serde, bincode, RocksDB, chrono, regular expressions, floating
  point numbers, Kafka and HTTP clients) is a parameter of the definitions that use it; what a theorem needs of it
  is a named hypothesis, which a witness discharges for a concrete instance.

  The theories. Each imports the components it uses; beyond that the imports form two lines, one over the cluster, the audit, the
  log and the sinks, the other over expressions, workflows, deployments and lineage, which meet in BatchStore, StreamDedup and this theory. A line keeps the
  names of its components apart, and Isabelle builds the library in little memory, since a theory is loaded while the
  proofs of the one before it are checked.

  \<^descr> Prelude: collections of rules, results, words, printed numbers, the two models of maps, and the
    locale \<^verbatim>\<open>map_store\<close> that states what both promise.
  \<^descr> ShardMetadata, from \<^verbatim>\<open>governance/distributed/shard_metadata.rs\<close>: identifiers, ranges and the cluster topology.
    Ranges handed out by \<^verbatim>\<open>distribute\<close> are disjoint and cover all hashes but the last.
  \<^descr> ConsistentHash, from \<^verbatim>\<open>ha/consistent_hash.rs\<close>: routing goes to the owner of the next virtual node;
    adding or removing a shard moves only keys of that shard when no two virtual nodes were given one
    position, and what removal does when they were; replicas are distinct.
  \<^descr> CoordSM, from \<^verbatim>\<open>ha/state_machine.rs\<close>: replicas that apply the same commands agree; an invariant of every
    reachable state; a command that fails leaves the state as it was, with the exceptions the theorem names.
  \<^descr> BreakerSpec, CircuitBreaker, HealthMonitor, from \<^verbatim>\<open>arcxa-core/src/reliability/circuit_breaker.rs\<close> and
    \<^verbatim>\<open>ha/health_monitor.rs\<close>: the contract of a breaker as a locale, its two implementations as
    interpretations, and the monitor over any number of shards.
  \<^descr> TxIds, from \<^verbatim>\<open>bitemporal/annotations.rs\<close> and \<^verbatim>\<open>transaction_manager.rs\<close>: orders of identifiers and the timeline.
  \<^descr> AuditEntry, Merkle, KV, AuditStore, AuditChain, from \<^verbatim>\<open>bitemporal/audit\<close>: what a change of a signed entry has to break to go unnoticed, Merkle
    proofs, the laws of a database that may fail at each operation, compaction, what verification of a
    chain detects and what it does not, recovery after a crash. DemoLib instantiates the parameters.
  \<^descr> TemporalIndexes, from \<^verbatim>\<open>bitemporal/indexes.rs\<close>: the cache is transparent, and lookups find the right version.
  \<^descr> WalEntry, FileWal, WalRecovery, WalCoord (and WalDemo), from \<^verbatim>\<open>storage/wal\<close>: entries read back; reads of the log
    agree with what was appended under failures of the system calls (other than a write to a segment that is not
    mapped into memory, which the guard \<^verbatim>\<open>wal_guard\<close> excludes); the report of a recovery is exactly that of a walk through
    the files; and the records of each transaction, decoded from the files, follow the protocol.
  \<^descr> ExprLang, ExprOpt, ExprEngine, from \<^verbatim>\<open>mapping/loader/transformation\<close>: the evaluator, the optimizer and when it
    keeps the meaning, the type checker, and the engine with its cache of plans.
  \<^descr> RecordStore: the locale of a store of records by identifier, which the execution store and the approval
    store implement.
  \<^descr> WorkflowRouting, from \<^verbatim>\<open>workflows/domain/condition.rs\<close>, \<^verbatim>\<open>route.rs\<close>, \<^verbatim>\<open>workflow.rs\<close> and \<^verbatim>\<open>workflows/engine/evaluator.rs\<close>,
    \<^verbatim>\<open>router.rs\<close>: evaluation and validation of conditions, and which route the router takes.
  \<^descr> WorkflowExec, from \<^verbatim>\<open>workflows/domain/execution.rs\<close> and the in-memory backend and store under \<^verbatim>\<open>workflows/storage\<close>:
    execution records, and what a filtered query returns.
  \<^descr> Approvals, from \<^verbatim>\<open>workflows/domain/approval.rs\<close>, its backend and store: the clients read a request and write
    the decided copy back without a lock, as a step relation; whatever the interleaving, the stored request carries one
    decision, final once no client holds another copy, and the first decision counts when calls follow one another.
  \<^descr> ActionExec, from \<^verbatim>\<open>workflows/domain/action.rs\<close> and \<^verbatim>\<open>workflows/engine/executor.rs\<close>: the single actions, conditions that
    skip an approval, and the execution of a list of actions up to a pause.
  \<^descr> BatchJobs, BatchTx, BatchExec, from \<^verbatim>\<open>workflows/domain/batch_job.rs\<close> and \<^verbatim>\<open>batch_executor.rs\<close>,
    \<^verbatim>\<open>transaction_coordinator.rs\<close> under \<^verbatim>\<open>workflows/engine\<close>: the resolver returns waves exactly for acyclic dependencies;
    the outcome of the transactions in the modes AllOrNothing and Batched; the run of a job, its retries and
    its final status; pausing and resuming.
  \<^descr> ApprovalFlow, from \<^verbatim>\<open>workflows/api/approval_handlers.rs\<close> and \<^verbatim>\<open>workflows/governance/approval_timeout_handler.rs\<close>: what
    an approval and a timeout do to the waiting execution.
  \<^descr> BatchStore, from \<^verbatim>\<open>workflows/storage/batch_job_store.rs\<close>: the persistent store of batch jobs with its two indexes and its
    cache, as a refinement of a map of jobs; the locale \<^verbatim>\<open>job_index\<close> states what an index promises.
  \<^descr> Checkpointing, from \<^verbatim>\<open>arcxa-core/src/checkpointing\<close> and \<^verbatim>\<open>arcxa-core/src/ingestion/dataflow.rs\<close>: the window of seen
    records passes each record once as far as it is remembered, a restart falling back to the last checkpoint, and the newest
    checkpoint is read back.
  \<^descr> StreamDedup, from \<^verbatim>\<open>arcxa-core/src/orchestration/workflow/streaming_deduplicator.rs\<close>: with the strategy for first
    occurrences the three tiers of keys together keep exactly the first row of each key.
  \<^descr> Deployments, from \<^verbatim>\<open>workflows/deployment\<close> and \<^verbatim>\<open>workflows/storage/workflow_store.rs\<close>: what a deployment and a rollback do, an
    invariant of the reachable states of the engine, and that a workflow with an active deployment cannot be deployed again.
  \<^descr> SqlIdent, from \<^verbatim>\<open>arcxa-core/src/security/sql_validation.rs\<close>: which strings can be quoted and how, and of which characters
    accepted fragments of statements consist. How a database reads them is not modelled.
  \<^descr> KafkaBreaker, DurableSink and KafkaReplay, from \<^verbatim>\<open>storage/kafka\<close> and \<^verbatim>\<open>storage/mod.rs\<close>: the third circuit breaker, with
    requests in flight; the tracker of acknowledgments and the sink that writes each event to the file log before it is sent,
    as a refinement of an outbox of accepted events; and the recovery, with what a restart forgets.
  \<^descr> DeadLetters and AsyncRetry, from \<^verbatim>\<open>arcxa-core/src/ingestion\<close> and \<^verbatim>\<open>arcxa-core/src/reliability\<close>: retries through the breaker and
    without it end at the first success, at the last attempt or where the breaker rejects one, and the two queues for failed events
    together lose no accepted letter; a file that cannot be opened makes every write panic.
  \<^descr> AsyncWriter, from \<^verbatim>\<open>storage/async_writer.rs\<close>: the task that stores lineage events in batches accounts for every event, among
    the store, the dead letter queue and its batch, and an outage that opens the breaker ends the storage for good.
  \<^descr> LineageGraph and ImpactAnalysis, from \<^verbatim>\<open>arcxa-core/src/core/lineage\<close>: the upstream traversal of the lineage graph is the transitive closure when its
    depth suffices, the search for cycles reports every record, and the causes of a record are its direct sources.
  \<^descr> RowKeys, RowStore and RowQueries, from \<^verbatim>\<open>arcxa-core/src/core/lineage/row_level.rs\<close> and \<^verbatim>\<open>storage/row_lineage_store.rs\<close>: the keys of rows can be read back, the
    erasure of a user removes exactly his events, that of a tenant leaves none where rows have no outputs, and a search orders the
    first matches with a readable key by how they match.
  \<^descr> Erasure and Gdpr, from \<^verbatim>\<open>arcxa-core/src/gdpr\<close> and \<^verbatim>\<open>gdpr/coordinator.rs\<close>: the erasure of a user respects legal holds and its report accounts for
    all stores, while retention policies do not protect the stored events of a row store that meets no failure.
  \<^descr> WorkflowDag, from \<^verbatim>\<open>arcxa-core/src/orchestration/workflow/dag.rs\<close>: the execution order and the parallel batches respect the
    dependencies, and no step could be in an earlier batch.

  Interfaces. Each locale states what a client may rely on and is interpreted on the definitions of the
  model that provide it: \<^verbatim>\<open>map_store\<close> on both maps, \<^verbatim>\<open>breaker\<close> on the three breakers, \<^verbatim>\<open>durable_log\<close> on the audit store,
  \<^verbatim>\<open>cached_store\<close> on the temporal indexes, \<^verbatim>\<open>guarded_simulation\<close> on the file log, the log coordinator,
  the batch job store, the durable sink and the dead letter queues, \<^verbatim>\<open>job_index\<close> on both indexes of the job store,
  \<^verbatim>\<open>transaction_log\<close> on the file log as the coordinator uses it, and \<^verbatim>\<open>record_store\<close> on the stores of executions and
  of approvals.

  Bounds and fuel. The search for cycles takes a depth; the length of the job plus one is enough, since a path
  without repetition visits each execution once, and the theorem on the resolver states that it always answers.
  The waves need at most as many rounds as there are executions. Retries end because the attempts left decrease.
  The loops of the log and of recovery run over lists of files and bytes and are structural or have a measure
  on the bytes left. No theorem is conditional on termination.

  What is not modelled, and why. The tasks of a wave run one after the other in the model: they share the
  execution store, where each writes its own record. Floating point results (percentages, percentiles, scores) are
  values of parameters or left out. The parser of expressions, the HTTP layer, the clients of databases, brokers and
  secret managers, the adapters of the Raft library, streaming, discovery, mapping heuristics and the
  validation services are not modelled: they are input and output around library calls, or large bodies of
  heuristics without a contract to state. The manifest lists every part with its status.
\<close>

end
